(* ===== verification/Prelude.thy ===== *)
theory Prelude
  imports Main "HOL-Library.Word" "HOL-Library.Sublist"
begin

section \<open>Shared vocabulary: exceptions, effects, bytes, slices\<close>

text \<open>
  The vocabulary every component shares.
  \<^item> \<open>py_error\<close>: the exceptions the program and the library calls it makes can raise.
    \<open>NoReturn\<close> is not an exception: it is the outcome of a loop that has used up its fuel.
  \<^item> \<open>('s, 'a) act\<close>: an action on a mutable state. It returns the state it leaves also when
    it raises, because a Python exception does not undo the assignments made before it.
  \<^item> bytes, \<^verbatim>\<open>struct.pack\<close> / \<^verbatim>\<open>struct.unpack\<close> for the little-endian formats the code uses, and the
    slices \<^verbatim>\<open>data[i:j]\<close> and slice assignments of equal length.
  \<^item> the interface \<open>codec\<close> of an encoder and its decoder.
\<close>

named_theorems codec_simps \<open>round trips and lengths of the byte codecs\<close>
named_theorems eval_simps \<open>evaluating the model on concrete inputs\<close>
named_theorems act_simps \<open>running an action step by step\<close>

subsection \<open>Exceptions and actions\<close>

datatype py_error =
    StructError          \<comment> \<open>struct.error: value out of range, or a buffer of the wrong size\<close>
  | IndexError
  | KeyError
  | ValueError
  | TypeError
  | AttributeError
  | UnicodeError         \<comment> \<open>UnicodeEncodeError and UnicodeDecodeError (subclasses of ValueError)\<close>
  | PageFull             \<comment> \<open>Exception("Page full")\<close>
  | IOError
  | AssertionError
  | RuntimeError
  | TimeoutError
  | DeadlockError
  | StopIteration
  | LexError
  | ParseError
  | CatalogError
  | ExecutionError
  | NoReturn             \<comment> \<open>the call did not return within its fuel\<close>

type_synonym 'a res = "py_error + 'a"
type_synonym ('s, 'a) act = "'s \<Rightarrow> 'a res \<times> 's"

definition ret :: "'a \<Rightarrow> ('s, 'a) act" where
  "ret x s = (Inr x, s)"

definition throw :: "py_error \<Rightarrow> ('s, 'a) act" where
  "throw e s = (Inl e, s)"

definition bnd :: "('s, 'a) act \<Rightarrow> ('a \<Rightarrow> ('s, 'b) act) \<Rightarrow> ('s, 'b) act" where
  "bnd m f s = (case m s of (Inl e, s') \<Rightarrow> (Inl e, s') | (Inr x, s') \<Rightarrow> f x s')"

definition lift_res :: "'a res \<Rightarrow> ('s, 'a) act" where
  "lift_res r s = (r, s)"

definition gets :: "('s \<Rightarrow> 'a) \<Rightarrow> ('s, 'a) act" where
  "gets f s = (Inr (f s), s)"

definition modify :: "('s \<Rightarrow> 's) \<Rightarrow> ('s, unit) act" where
  "modify f s = (Inr (), f s)"

definition bind_res :: "'a res \<Rightarrow> ('a \<Rightarrow> 'b res) \<Rightarrow> 'b res" where
  "bind_res r f = (case r of Inl e \<Rightarrow> Inl e | Inr x \<Rightarrow> f x)"

text \<open>A call on an object the state holds, and \<^verbatim>\<open>try: ... finally: ...\<close>.\<close>

definition on_part :: "('s \<Rightarrow> 't) \<Rightarrow> ('t \<Rightarrow> 's \<Rightarrow> 's) \<Rightarrow> ('t, 'a) act \<Rightarrow> ('s, 'a) act" where
  "on_part part put m s = (case m (part s) of (r, t) \<Rightarrow> (r, put t s))"

definition finally_act :: "('s, 'a) act \<Rightarrow> ('s, unit) act \<Rightarrow> ('s, 'a) act" where
  "finally_act m final s =
     (case m s of (r, s1) \<Rightarrow> case final s1 of (Inl e, s2) \<Rightarrow> (Inl e, s2) | (Inr _, s2) \<Rightarrow> (r, s2))"

lemma bnd_cong [fundef_cong]:
  assumes "m s = m' s'" and "\<And>x s''. m' s' = (Inr x, s'') \<Longrightarrow> f x s'' = f' x s''"
  shows "bnd m f s = bnd m' f' s'"
  using assms by (auto simp: bnd_def split: sum.splits prod.splits)

lemma bind_res_cong [fundef_cong]:
  assumes "r = r'" and "\<And>x. r' = Inr x \<Longrightarrow> f x = f' x"
  shows "bind_res r f = bind_res r' f'"
  using assms by (auto simp: bind_res_def split: sum.splits)

lemma ret_run [simp, act_simps]: "ret x s = (Inr x, s)"
  by (simp add: ret_def)

lemma throw_run [simp, act_simps]: "throw e s = (Inl e, s)"
  by (simp add: throw_def)

lemma lift_res_run [simp, act_simps]: "lift_res r s = (r, s)"
  by (simp add: lift_res_def)

lemma gets_run [simp, act_simps]: "gets f s = (Inr (f s), s)"
  by (simp add: gets_def)

lemma modify_run [simp, act_simps]: "modify f s = (Inr (), f s)"
  by (simp add: modify_def)

lemma bnd_Inr [act_simps]: "m s = (Inr x, s') \<Longrightarrow> bnd m f s = f x s'"
  by (simp add: bnd_def)

lemma bnd_Inl [act_simps]: "m s = (Inl e, s') \<Longrightarrow> bnd m f s = (Inl e, s')"
  by (simp add: bnd_def)

lemma bind_res_simps [simp]:
  "bind_res (Inr x) f = f x" "bind_res (Inl e) f = Inl e"
  by (simp_all add: bind_res_def)

lemma bnd_eq_Inr:
  "bnd m f s = (Inr y, s'') \<longleftrightarrow> (\<exists>x s'. m s = (Inr x, s') \<and> f x s' = (Inr y, s''))"
  by (auto simp: bnd_def split: sum.splits prod.splits)

lemma bnd_assoc: "bnd (bnd m f) g = bnd m (\<lambda>x. bnd (f x) g)"
  by (rule ext) (auto simp: bnd_def split: sum.splits prod.splits)

text \<open>
  Total correctness of an action: \<open>runs m s Q\<close> says that \<open>m\<close> returns from \<open>s\<close> without raising,
  with a result and a state that satisfy \<open>Q\<close>.
\<close>

definition runs :: "('s, 'a) act \<Rightarrow> 's \<Rightarrow> ('a \<Rightarrow> 's \<Rightarrow> bool) \<Rightarrow> bool" where
  "runs m s Q \<longleftrightarrow> (\<exists>x s'. m s = (Inr x, s') \<and> Q x s')"

named_theorems runs_simps \<open>total correctness of the combinators\<close>

lemma runs_bnd [runs_simps]: "runs (bnd m f) s Q \<longleftrightarrow> runs m s (\<lambda>x s'. runs (f x) s' Q)"
  by (auto simp: runs_def bnd_eq_Inr)

lemma runs_basic [runs_simps]:
  "runs (ret x) s Q \<longleftrightarrow> Q x s" "runs (throw e) s Q \<longleftrightarrow> False" "runs (gets f) s Q \<longleftrightarrow> Q (f s) s"
  "runs (modify g) s R \<longleftrightarrow> R () (g s)" "runs (lift_res (Inr y)) s Q' \<longleftrightarrow> Q' y s"
  "runs (lift_res (Inl e)) s Q' \<longleftrightarrow> False"
  by (simp_all add: runs_def)

lemma runs_on_part [runs_simps]: "runs (on_part part put m) s Q \<longleftrightarrow> runs m (part s) (\<lambda>x t. Q x (put t s))"
  by (auto simp: runs_def on_part_def split: prod.splits)

lemma runs_finally [runs_simps]:
  "runs (finally_act m final) s Q \<longleftrightarrow> runs m s (\<lambda>x s1. runs final s1 (\<lambda>_ s2. Q x s2))"
  by (auto simp: runs_def finally_act_def split: prod.splits sum.splits)

lemma runs_weaken: "runs m s Q \<Longrightarrow> (\<And>x s'. Q x s' \<Longrightarrow> Q' x s') \<Longrightarrow> runs m s Q'"
  by (auto simp: runs_def)

lemma runs_I: "m s = (Inr x, s') \<Longrightarrow> Q x s' \<Longrightarrow> runs m s Q"
  by (simp add: runs_def)

lemma runs_result: "runs m s Q \<Longrightarrow> \<exists>x s'. m s = (Inr x, s') \<and> Q x s'"
  by (simp add: runs_def)

subsection \<open>Bytes and little-endian integers\<close>

type_synonym bytes = "8 word list"

definition byte :: "nat \<Rightarrow> 8 word" where
  "byte n = word_of_nat n"

lemma unat_byte: "unat (byte n) = n mod 256"
  by (simp add: byte_def unat_of_nat)

lemma unat_byte_small [simp]: "n < 256 \<Longrightarrow> unat (byte n) = n"
  by (simp add: unat_byte)

lemma byte_unat [simp]: "byte (unat b) = b"
  by (simp add: byte_def)

text \<open>\<open>le_bytes k n\<close>: the \<open>k\<close> low bytes of \<open>n\<close>, least significant first.\<close>

primrec le_bytes :: "nat \<Rightarrow> nat \<Rightarrow> bytes" where
  "le_bytes 0 n = []"
| "le_bytes (Suc k) n = byte (n mod 256) # le_bytes k (n div 256)"

primrec le_nat :: "bytes \<Rightarrow> nat" where
  "le_nat [] = 0"
| "le_nat (b # bs) = unat b + 256 * le_nat bs"

lemma le_bytes_numeral [eval_simps]:
  "le_bytes (numeral k) n = byte (n mod 256) # le_bytes (pred_numeral k) (n div 256)"
  by (simp only: numeral_eq_Suc [of k] le_bytes.simps)

lemma length_le_bytes [simp, codec_simps]: "length (le_bytes k n) = k"
  by (induction k arbitrary: n) auto

lemma le_nat_le_bytes [codec_simps]: "le_nat (le_bytes k n) = n mod 256 ^ k"
proof (induction k arbitrary: n)
  case 0
  then show ?case by simp
next
  case (Suc k)
  have "n mod (256 * 256 ^ k) = 256 * (n div 256 mod 256 ^ k) + n mod 256"
    by (rule mod_mult2_eq)
  with Suc show ?case by simp
qed

lemma le_nat_bound: "le_nat bs < 256 ^ length bs"
proof (induction bs)
  case Nil
  then show ?case by simp
next
  case (Cons b bs)
  have "unat b < 256"
    using unsigned_less [of b] by simp
  with Cons show ?case by simp
qed

lemma le_bytes_le_nat [codec_simps]: "le_bytes (length bs) (le_nat bs) = bs"
proof (induction bs)
  case Nil
  then show ?case by simp
next
  case (Cons b bs)
  have b: "unat b < 256"
    using unsigned_less [of b] by simp
  then have "(unat b + 256 * le_nat bs) mod 256 = unat b"
    and "(unat b + 256 * le_nat bs) div 256 = le_nat bs"
    by simp_all
  with Cons show ?case by simp
qed

subsection \<open>struct.pack and struct.unpack\<close>

text \<open>
  \<^verbatim>\<open>struct.pack\<close> raises \<^verbatim>\<open>struct.error\<close> for a value outside the format's range, \<^verbatim>\<open>struct.unpack\<close> for a
  buffer whose size is not the format's. \<^verbatim>\<open>struct.unpack_from\<close> reads at an offset and raises when
  the buffer ends too early.
\<close>

definition pack_u :: "nat \<Rightarrow> int \<Rightarrow> bytes res" where
  "pack_u k v = (if 0 \<le> v \<and> v < 256 ^ k then Inr (le_bytes k (nat v)) else Inl StructError)"

definition pack_i32 :: "int \<Rightarrow> bytes res" where
  "pack_i32 v = (if - (2 ^ 31) \<le> v \<and> v < 2 ^ 31 then Inr (le_bytes 4 (nat (v mod 2 ^ 32)))
     else Inl StructError)"

definition unpack_u :: "nat \<Rightarrow> bytes \<Rightarrow> int res" where
  "unpack_u k bs = (if length bs = k then Inr (int (le_nat bs)) else Inl StructError)"

definition unpack_i32 :: "bytes \<Rightarrow> int res" where
  "unpack_i32 bs = (if length bs = 4
     then Inr (if le_nat bs < 2 ^ 31 then int (le_nat bs) else int (le_nat bs) - 2 ^ 32)
     else Inl StructError)"

definition seg :: "nat \<Rightarrow> nat \<Rightarrow> 'a list \<Rightarrow> 'a list" where
  "seg i j xs = take (j - i) (drop i xs)"

definition unpack_from :: "nat \<Rightarrow> bytes \<Rightarrow> nat \<Rightarrow> int res" where
  "unpack_from k bs off = unpack_u k (seg off (off + k) bs)"

lemma pack_u_ok [simp]: "0 \<le> v \<Longrightarrow> v < 256 ^ k \<Longrightarrow> pack_u k v = Inr (le_bytes k (nat v))"
  by (simp add: pack_u_def)

lemma unpack_pack_u [codec_simps]:
  assumes "pack_u k v = Inr bs"
  shows "unpack_u k bs = Inr v"
proof -
  from assms have v: "0 \<le> v" "v < 256 ^ k" "bs = le_bytes k (nat v)"
    by (auto simp: pack_u_def split: if_splits)
  then have "nat v < 256 ^ k"
    by (simp add: nat_less_iff)
  with v show ?thesis
    by (simp add: unpack_u_def le_nat_le_bytes)
qed

lemma unpack_pack_i32 [codec_simps]:
  assumes "pack_i32 v = Inr bs"
  shows "unpack_i32 bs = Inr v"
proof -
  from assms have v: "- (2 ^ 31) \<le> v" "v < 2 ^ 31" "bs = le_bytes 4 (nat (v mod 2 ^ 32))"
    by (auto simp: pack_i32_def split: if_splits)
  have m: "le_nat bs = nat (v mod 2 ^ 32)"
    using v(3) by (simp add: le_nat_le_bytes nat_less_iff)
  show ?thesis
  proof (cases "0 \<le> v")
    case True
    with v have "v mod 2 ^ 32 = v" by simp
    then have "le_nat bs = nat v" using m by simp
    moreover have "nat v < 2 ^ 31" using v True by (simp add: nat_less_iff)
    moreover have "length bs = 4" using v by simp
    ultimately show ?thesis using True by (simp add: unpack_i32_def)
  next
    case False
    have "(v + 2 ^ 32) mod 2 ^ 32 = v + 2 ^ 32"
      using v False by (intro mod_pos_pos_trivial) auto
    then have w: "v mod 2 ^ 32 = v + 2 ^ 32" by simp
    then have ge: "\<not> nat (v mod 2 ^ 32) < 2 ^ 31"
      using v False by simp
    have "length bs = 4" using v by simp
    moreover have "int (le_nat bs) - 2 ^ 32 = v" using m w v by simp
    moreover have "\<not> le_nat bs < 2 ^ 31" using m ge by simp
    ultimately show ?thesis by (simp add: unpack_i32_def)
  qed
qed

lemma length_pack_u: "pack_u k v = Inr bs \<Longrightarrow> length bs = k"
  by (auto simp: pack_u_def split: if_splits)

lemma length_pack_i32: "pack_i32 v = Inr bs \<Longrightarrow> length bs = 4"
  by (auto simp: pack_i32_def split: if_splits)

subsection \<open>Python slices\<close>

text \<open>
  \<^verbatim>\<open>xs[i:j]\<close> and \<^verbatim>\<open>xs[i:j] = v\<close> with Python's indices: a negative one counts from the end and
  both are clamped to the length. For indices in range they are \<open>seg\<close> (a segment) and \<open>put_slice\<close>.
\<close>

definition py_bound :: "nat \<Rightarrow> int \<Rightarrow> nat" where
  "py_bound n i = (if i < 0 then nat (int n + i) else min n (nat i))"

definition py_slice :: "int \<Rightarrow> int \<Rightarrow> 'a list \<Rightarrow> 'a list" where
  "py_slice i j xs = seg (py_bound (length xs) i) (py_bound (length xs) j) xs"

definition put_slice :: "nat \<Rightarrow> nat \<Rightarrow> 'a list \<Rightarrow> 'a list \<Rightarrow> 'a list" where
  "put_slice a b v xs = take a xs @ v @ drop (max a b) xs"

definition py_set_slice :: "int \<Rightarrow> int \<Rightarrow> 'a list \<Rightarrow> 'a list \<Rightarrow> 'a list" where
  "py_set_slice i j v xs = put_slice (py_bound (length xs) i) (py_bound (length xs) j) v xs"

lemma py_slice_nat [simp]: "py_slice (int i) (int j) xs = seg i j xs"
proof -
  have "seg (min (length xs) i) (min (length xs) j) xs = seg i j xs"
    by (cases "i \<le> length xs"; cases "j \<le> length xs") (auto simp: seg_def min_def)
  then show ?thesis by (simp add: py_slice_def py_bound_def)
qed

lemma py_set_slice_nat [simp]:
  "py_set_slice (int i) (int j) v xs = put_slice i j v xs"
  by (auto simp: py_set_slice_def py_bound_def put_slice_def min_def max_def)

lemma length_seg [simp]: "length (seg i j xs) = min (j - i) (length xs - i)"
  by (simp add: seg_def min.commute)

lemma length_put [simp]:
  "a \<le> b \<Longrightarrow> b \<le> length xs \<Longrightarrow> length v = b - a \<Longrightarrow> length (put_slice a b v xs) = length xs"
  by (simp add: put_slice_def max_def)

lemma nth_seg: "k < j - i \<Longrightarrow> i + k < length xs \<Longrightarrow> seg i j xs ! k = xs ! (i + k)"
  by (simp add: seg_def)

lemma nth_put:
  assumes "a \<le> b" "b \<le> length xs" "length v = b - a" "k < length xs"
  shows "put_slice a b v xs ! k = (if a \<le> k \<and> k < b then v ! (k - a) else xs ! k)"
  using assms by (auto simp: put_slice_def nth_append max_def)

lemma seg_put_same [simp]:
  assumes "a \<le> b" "b \<le> length xs" "length v = b - a"
  shows "seg a b (put_slice a b v xs) = v"
  using assms by (simp add: put_slice_def seg_def)

lemma seg_put_disj:
  assumes "a \<le> b" "b \<le> length xs" "length v = b - a" "j \<le> a \<or> b \<le> i"
  shows "seg i j (put_slice a b v xs) = seg i j xs"
proof (rule nth_equalityI)
  show "length (seg i j (put_slice a b v xs)) = length (seg i j xs)"
    using assms by simp
next
  fix k assume "k < length (seg i j (put_slice a b v xs))"
  then have "k < j - i" "i + k < length xs" using assms by auto
  then show "seg i j (put_slice a b v xs) ! k = seg i j xs ! k"
    using assms by (auto simp: nth_seg nth_put)
qed

lemma seg_put_sub:
  assumes "a \<le> b" "b \<le> length xs" "length v = b - a" "a \<le> i" "j \<le> b"
  shows "seg i j (put_slice a b v xs) = seg (i - a) (j - a) v"
proof (rule nth_equalityI)
  show "length (seg i j (put_slice a b v xs)) = length (seg (i - a) (j - a) v)"
    using assms by auto
next
  fix k assume "k < length (seg i j (put_slice a b v xs))"
  then have k: "k < j - i" "i + k < length xs" using assms by auto
  then have "seg (i - a) (j - a) v ! k = v ! (i - a + k)"
    using assms by (intro nth_seg) auto
  with k show "seg i j (put_slice a b v xs) ! k = seg (i - a) (j - a) v ! k"
    using assms by (auto simp: nth_seg nth_put)
qed

lemma seg_seg: "seg i j (seg a b xs) = seg (a + i) (min (a + j) b) xs"
proof -
  have "min (j - i) (b - a - i) = min (a + j) b - (a + i)" by auto
  then show ?thesis by (simp add: seg_def drop_take add.commute)
qed

lemma seg_append_left: "j \<le> length xs \<Longrightarrow> seg i j (xs @ ys) = seg i j xs"
  by (simp add: seg_def)

lemma seg_append_right: "length xs \<le> i \<Longrightarrow> seg i j (xs @ ys) = seg (i - length xs) (j - length xs) ys"
  by (simp add: seg_def)

lemma seg_all [simp]: "n = length xs \<Longrightarrow> seg 0 n xs = xs"
  by (simp add: seg_def)

lemma seg_mid [codec_simps]:
  "i = length xs \<Longrightarrow> j = i + length ys \<Longrightarrow> seg i j (xs @ ys @ zs) = ys"
  by (simp add: seg_def)

lemma put_slice_mid:
  "a = length xs \<Longrightarrow> b = a + length ys \<Longrightarrow> length v = length ys \<Longrightarrow>
     put_slice a b v (xs @ ys @ zs) = xs @ v @ zs"
  by (simp add: put_slice_def)

lemma put_zeros:
  "a = length xs \<Longrightarrow> b = a + length v \<Longrightarrow> length v \<le> m \<Longrightarrow>
     put_slice a b v (xs @ replicate m z) = xs @ v @ replicate (m - length v) z"
  by (simp add: put_slice_def)

lemma unpack_from_mid [codec_simps]:
  "off = length xs \<Longrightarrow> length v = k \<Longrightarrow> unpack_from k (xs @ v @ ys) off = Inr (int (le_nat v))"
  by (simp add: unpack_from_def unpack_u_def seg_mid)

subsection \<open>The interface of a byte codec\<close>

text \<open>
  What the layers above a format rely on: a valid value encodes, and decoding gives it back. Rows,
  both page formats, the meta page and the log records are instances.
\<close>

locale codec =
  fixes enc :: "'a \<Rightarrow> bytes res"
    and dec :: "bytes \<Rightarrow> 'a res"
    and valid :: "'a \<Rightarrow> bool"
  assumes round_trip: "valid x \<Longrightarrow> \<exists>bs. enc x = Inr bs \<and> dec bs = Inr x"
begin

lemma dec_enc: "valid x \<Longrightarrow> bind_res (enc x) dec = Inr x"
  using round_trip by force

lemma enc_inj: "valid x \<Longrightarrow> valid y \<Longrightarrow> enc x = enc y \<Longrightarrow> x = y"
  by (metis round_trip sum.inject(2))

lemma enc_total: "valid x \<Longrightarrow> \<exists>bs. enc x = Inr bs"
  using round_trip by blast

end

end
