(* ===== verification/Record_Codec.thy ===== *)
theory Record_Codec
  imports Prelude
begin

section \<open>Row encoding (\<^verbatim>\<open>src/record.py\<close>)\<close>

text \<open>
  A row is a list of column values, encoded as
  \<^verbatim>\<open>[header_size:2][num_cols:2][type:1]*[payload]*\<close>. A Python \<^verbatim>\<open>str\<close> is the list of its code points;
  \<^verbatim>\<open>encode('utf-8')\<close> and \<^verbatim>\<open>decode('utf-8')\<close> are the strict UTF-8 codec of the standard library.
  The lemmas show the round trip, which values encode at all, and the size of the result.
\<close>

subsection \<open>Strings and UTF-8\<close>

type_synonym pystr = "nat list"

definition is_surrogate :: "nat \<Rightarrow> bool" where
  "is_surrogate c \<longleftrightarrow> 0xD800 \<le> c \<and> c \<le> 0xDFFF"

definition utf8_encode_cp :: "nat \<Rightarrow> bytes res" where
  "utf8_encode_cp c =
     (if c < 0x80 then Inr [byte c]
      else if c < 0x800 then Inr [byte (0xC0 + c div 64), byte (0x80 + c mod 64)]
      else if is_surrogate c then Inl UnicodeError
      else if c < 0x10000 then
        Inr [byte (0xE0 + c div 4096), byte (0x80 + c div 64 mod 64),
             byte (0x80 + c mod 64)]
      else if c < 0x110000 then
        Inr [byte (0xF0 + c div 262144), byte (0x80 + c div 4096 mod 64),
             byte (0x80 + c div 64 mod 64), byte (0x80 + c mod 64)]
      else Inl UnicodeError)"

primrec utf8_encode :: "pystr \<Rightarrow> bytes res" where
  "utf8_encode [] = Inr []"
| "utf8_encode (c # s) =
     bind_res (utf8_encode_cp c) (\<lambda>b. bind_res (utf8_encode s) (\<lambda>bs. Inr (b @ bs)))"

text \<open>A continuation byte is \<^verbatim>\<open>10xxxxxx\<close>; \<open>cont_bits\<close> are its six payload bits.\<close>

definition is_cont :: "8 word \<Rightarrow> bool" where
  "is_cont b \<longleftrightarrow> 0x80 \<le> unat b \<and> unat b < 0xC0"

definition cont_bits :: "8 word \<Rightarrow> nat" where
  "cont_bits b = unat b - 0x80"

text \<open>
  Strict decoding: overlong forms, surrogates and values beyond \<^verbatim>\<open>0x10FFFF\<close> are errors.
\<close>

fun utf8_decode :: "bytes \<Rightarrow> pystr res" where
  "utf8_decode [] = Inr []"
| "utf8_decode (b # bs) =
     (let n = unat b in
      if n < 0x80 then bind_res (utf8_decode bs) (\<lambda>s. Inr (n # s))
      else if n < 0xC2 then Inl UnicodeError
      else if n < 0xE0 then
        (case bs of
           b1 # r \<Rightarrow>
             if is_cont b1
             then bind_res (utf8_decode r) (\<lambda>s. Inr (((n - 0xC0) * 64 + cont_bits b1) # s))
             else Inl UnicodeError
         | _ \<Rightarrow> Inl UnicodeError)
      else if n < 0xF0 then
        (case bs of
           b1 # b2 # r \<Rightarrow>
             let c = (n - 0xE0) * 4096 + cont_bits b1 * 64 + cont_bits b2 in
             if is_cont b1 \<and> is_cont b2 \<and> 0x800 \<le> c \<and> \<not> is_surrogate c
             then bind_res (utf8_decode r) (\<lambda>s. Inr (c # s))
             else Inl UnicodeError
         | _ \<Rightarrow> Inl UnicodeError)
      else if n < 0xF5 then
        (case bs of
           b1 # b2 # b3 # r \<Rightarrow>
             let c = (n - 0xF0) * 262144 + cont_bits b1 * 4096 + cont_bits b2 * 64 + cont_bits b3 in
             if is_cont b1 \<and> is_cont b2 \<and> is_cont b3 \<and> 0x10000 \<le> c \<and> c < 0x110000
             then bind_res (utf8_decode r) (\<lambda>s. Inr (c # s))
             else Inl UnicodeError
         | _ \<Rightarrow> Inl UnicodeError)
      else Inl UnicodeError)"

declare utf8_decode.simps(2) [simp del]

lemma cont_byte:
  "m < 64 \<Longrightarrow> is_cont (byte (128 + m)) \<and> cont_bits (byte (128 + m)) = m"
  by (simp add: is_cont_def cont_bits_def)

lemma decode_one_byte: "c < 128 \<Longrightarrow>
  utf8_decode (byte c # r) = bind_res (utf8_decode r) (\<lambda>s. Inr (c # s))"
  by (simp add: utf8_decode.simps(2))

lemma decode_two_bytes:
  assumes "0x80 \<le> c" "c < 0x800"
  shows "utf8_decode (byte (0xC0 + c div 64) # byte (0x80 + c mod 64) # r) =
    bind_res (utf8_decode r) (\<lambda>s. Inr (c # s))"
proof -
  have "2 \<le> c div 64" "c div 64 < 32" using assms by auto
  then show ?thesis
    using cont_byte [of "c mod 64"]
    by (simp add: utf8_decode.simps(2) Let_def)
qed

text \<open>One base-64 digit of \<open>c\<close>, at the position with weight \<open>m\<close>.\<close>

lemma split_digit: "c div (m * 64) * (m * 64) + (c div m mod 64) * m = c div m * (m::nat)"
proof -
  have "c div m * m = (c div m div 64 * 64 + c div m mod 64) * m"
    by (simp only: div_mult_mod_eq)
  also have "\<dots> = c div (m * 64) * (m * 64) + (c div m mod 64) * m"
    by (simp only: div_mult2_eq distrib_left distrib_right ac_simps)
  finally show ?thesis by (rule sym)
qed

lemma split_64: "c div 4096 * 4096 + (c div 64 mod 64) * 64 + c mod 64 = (c::nat)"
  using split_digit [of c 64] div_mult_mod_eq [of c 64] by simp

text \<open>The two longer forms, in terms of the numbers in the bytes.\<close>

lemma decode_three_aux:
  assumes "h < 16" "m1 < 64" "m2 < 64" "c = h * 4096 + m1 * 64 + m2" "0x800 \<le> c"
    "\<not> is_surrogate c"
  shows "utf8_decode (byte (0xE0 + h) # byte (0x80 + m1) # byte (0x80 + m2) # r) =
    bind_res (utf8_decode r) (\<lambda>s. Inr (c # s))"
  using assms(1,5,6) cont_byte [OF assms(2)] cont_byte [OF assms(3)]
  by (simp add: utf8_decode.simps(2) Let_def assms(4))

lemma decode_four_aux:
  assumes "h < 5" "m1 < 64" "m2 < 64" "m3 < 64" "c = h * 262144 + m1 * 4096 + m2 * 64 + m3"
    "0x10000 \<le> c" "c < 0x110000"
  shows "utf8_decode (byte (0xF0 + h) # byte (0x80 + m1) # byte (0x80 + m2) # byte (0x80 + m3) # r) =
    bind_res (utf8_decode r) (\<lambda>s. Inr (c # s))"
  using assms(1,6,7) cont_byte [OF assms(2)] cont_byte [OF assms(3)] cont_byte [OF assms(4)]
  by (simp add: utf8_decode.simps(2) Let_def assms(5))

lemma decode_three_bytes:
  assumes "0x800 \<le> c" "c < 0x10000" "\<not> is_surrogate c"
  shows "utf8_decode (byte (0xE0 + c div 4096) # byte (0x80 + c div 64 mod 64) #
      byte (0x80 + c mod 64) # r) =
    bind_res (utf8_decode r) (\<lambda>s. Inr (c # s))"
proof (rule decode_three_aux)
  show "c div 4096 < 16" using assms(2) by auto
  show "c = c div 4096 * 4096 + c div 64 mod 64 * 64 + c mod 64"
    by (rule split_64 [symmetric])
qed (use assms in simp_all)

lemma decode_four_bytes:
  assumes "0x10000 \<le> c" "c < 0x110000"
  shows "utf8_decode (byte (0xF0 + c div 262144) # byte (0x80 + c div 4096 mod 64) #
      byte (0x80 + c div 64 mod 64) # byte (0x80 + c mod 64) # r) =
    bind_res (utf8_decode r) (\<lambda>s. Inr (c # s))"
proof (rule decode_four_aux)
  show "c div 262144 < 5" using assms(2) by auto
  show "c = c div 262144 * 262144 + c div 4096 mod 64 * 4096 + c div 64 mod 64 * 64 + c mod 64"
    using split_64 [of c] split_digit [of c 4096] by simp
qed (use assms in simp_all)

lemma utf8_decode_cp:
  assumes "utf8_encode_cp c = Inr b"
  shows "utf8_decode (b @ r) = bind_res (utf8_decode r) (\<lambda>s. Inr (c # s))"
  using assms
  by (auto simp: utf8_encode_cp_def decode_one_byte decode_two_bytes decode_three_bytes
      decode_four_bytes split: if_splits)

lemma utf8_decode_encode [codec_simps]: "utf8_encode s = Inr bs \<Longrightarrow> utf8_decode bs = Inr s"
proof (induction s arbitrary: bs)
  case Nil
  then show ?case by simp
next
  case (Cons c s)
  then show ?case
    by (auto simp: bind_res_def utf8_decode_cp split: sum.splits)
qed

text \<open>The strings that encode: every code point is a Unicode scalar value.\<close>

definition scalar_value :: "nat \<Rightarrow> bool" where
  "scalar_value c \<longleftrightarrow> c < 0x110000 \<and> \<not> is_surrogate c"

lemma utf8_encode_cp_ok: "(\<exists>b. utf8_encode_cp c = Inr b) \<longleftrightarrow> scalar_value c"
  by (auto simp: utf8_encode_cp_def scalar_value_def is_surrogate_def)

lemma utf8_encode_ok: "(\<exists>bs. utf8_encode s = Inr bs) \<longleftrightarrow> list_all scalar_value s"
proof (induction s)
  case Nil
  then show ?case by simp
next
  case (Cons c s)
  show ?case
    using utf8_encode_cp_ok [of c] Cons
    by (auto simp: bind_res_def split: sum.splits)
qed

subsection \<open>Values and rows\<close>

datatype val = VNull | VInt int | VStr pystr

text \<open>\<open>ValueType\<close>: the tag byte of a column.\<close>

datatype value_type = TNull | TInt | TString

fun value_type_byte :: "value_type \<Rightarrow> 8 word" where
  "value_type_byte TNull = 0"
| "value_type_byte TInt = 1"
| "value_type_byte TString = 2"

definition value_type_of :: "8 word \<Rightarrow> value_type res" where
  "value_type_of b = (if b = 0 then Inr TNull else if b = 1 then Inr TInt
     else if b = 2 then Inr TString else Inl ValueError)"

fun encode_value :: "val \<Rightarrow> (value_type \<times> bytes) res" where
  "encode_value VNull = Inr (TNull, [])"
| "encode_value (VInt i) = bind_res (pack_i32 i) (\<lambda>p. Inr (TInt, p))"
| "encode_value (VStr s) =
     bind_res (utf8_encode s) (\<lambda>e.
     bind_res (pack_u 2 (int (length e))) (\<lambda>l. Inr (TString, l @ e)))"

text \<open>The loop of \<^verbatim>\<open>encode_record\<close>: the types and the payload seen so far.\<close>

fun encode_values :: "val list \<Rightarrow> value_type list \<Rightarrow> bytes \<Rightarrow> (value_type list \<times> bytes) res" where
  "encode_values [] types payload = Inr (types, payload)"
| "encode_values (v # vs) types payload =
     bind_res (encode_value v) (\<lambda>(t, p). encode_values vs (types @ [t]) (payload @ p))"

definition encode_record :: "val list \<Rightarrow> bytes res" where
  "encode_record values =
     bind_res (encode_values values [] []) (\<lambda>(types, payload).
     bind_res (pack_u 2 (int (length values))) (\<lambda>nc.
     let header = nc @ map value_type_byte types in
     bind_res (pack_u 2 (int (length header))) (\<lambda>hs.
     Inr (hs @ header @ payload))))"

fun map_res :: "('a \<Rightarrow> 'b res) \<Rightarrow> 'a list \<Rightarrow> 'b list res" where
  "map_res f [] = Inr []"
| "map_res f (x # xs) = bind_res (f x) (\<lambda>y. bind_res (map_res f xs) (\<lambda>ys. Inr (y # ys)))"

fun decode_values :: "value_type list \<Rightarrow> bytes \<Rightarrow> nat \<Rightarrow> val list res" where
  "decode_values [] data off = Inr []"
| "decode_values (TNull # ts) data off =
     bind_res (decode_values ts data off) (\<lambda>vs. Inr (VNull # vs))"
| "decode_values (TInt # ts) data off =
     bind_res (unpack_i32 (seg off (off + 4) data)) (\<lambda>i.
     bind_res (decode_values ts data (off + 4)) (\<lambda>vs. Inr (VInt i # vs)))"
| "decode_values (TString # ts) data off =
     bind_res (unpack_u 2 (seg off (off + 2) data)) (\<lambda>len.
     bind_res (utf8_decode (seg (off + 2) (off + 2 + nat len) data)) (\<lambda>s.
     bind_res (decode_values ts data (off + (2 + nat len))) (\<lambda>vs. Inr (VStr s # vs))))"

definition decode_record :: "bytes \<Rightarrow> val list res" where
  "decode_record data =
     bind_res (unpack_u 2 (seg 0 2 data)) (\<lambda>header_size.
     bind_res (unpack_u 2 (seg 2 4 data)) (\<lambda>num_cols.
     bind_res (map_res value_type_of (seg 4 (4 + nat num_cols) data)) (\<lambda>types.
     decode_values types data (4 + nat num_cols))))"

subsection \<open>The round trip\<close>

lemma value_type_of_byte [simp]: "value_type_of (value_type_byte t) = Inr t"
  by (cases t) (simp_all add: value_type_of_def)

lemma map_res_value_type [simp]:
  "map_res value_type_of (map value_type_byte ts) = Inr ts"
  by (induction ts) auto

lemma decode_values_Cons:
  assumes "encode_value v = Inr (t, p)" and "length pre = off"
  shows "decode_values (t # ts) (pre @ p @ post) off =
    bind_res (decode_values ts (pre @ p @ post) (off + length p)) (\<lambda>vs. Inr (v # vs))"
proof (cases v)
  case VNull
  with assms show ?thesis by simp
next
  case (VInt i)
  with assms(1) have p: "pack_i32 i = Inr p" "t = TInt"
    by (auto simp: bind_res_def split: sum.splits)
  with assms(2) have "seg off (off + 4) (pre @ p @ post) = p"
    by (intro seg_mid) (auto simp: length_pack_i32)
  with p VInt show ?thesis
    by (simp add: unpack_pack_i32 length_pack_i32)
next
  case (VStr s)
  with assms(1) obtain e l where e: "utf8_encode s = Inr e"
    and l: "pack_u 2 (int (length e)) = Inr l" and p: "p = l @ e" "t = TString"
    by (auto simp: bind_res_def split: sum.splits)
  have len: "length l = 2" by (rule length_pack_u [OF l])
  have s1: "seg off (off + 2) (pre @ p @ post) = l"
    using assms(2) p len by (simp add: seg_def)
  have s2: "seg (off + 2) (off + 2 + length e) (pre @ p @ post) = e"
    using assms(2) p len by (simp add: seg_def)
  show ?thesis
    using VStr p s1 s2 len
    by (simp add: unpack_pack_u [OF l] utf8_decode_encode [OF e])
qed

lemma encode_values_acc:
  "encode_values vs ts pl = bind_res (encode_values vs [] []) (\<lambda>(ts', pl'). Inr (ts @ ts', pl @ pl'))"
proof (induction vs arbitrary: ts pl)
  case Nil
  then show ?case by simp
next
  case (Cons v vs)
  show ?case
    by (simp only: encode_values.simps) (simp add: Cons [of "_ @ _"] Cons [of "[_]"] bind_res_def
        split: sum.splits prod.splits)
qed

lemma decode_encode_values:
  assumes "encode_values vs [] [] = Inr (ts, pl)"
  shows "decode_values ts (pre @ pl @ post) (length pre) = Inr vs \<and> length ts = length vs"
  using assms
proof (induction vs arbitrary: ts pl pre)
  case Nil
  then show ?case by simp
next
  case (Cons v vs)
  from Cons.prems obtain t p ts' pl' where v: "encode_value v = Inr (t, p)"
    and vs: "encode_values vs [] [] = Inr (ts', pl')" and eq: "ts = t # ts'" "pl = p @ pl'"
    using encode_values_acc [of vs "[_]"]
    by (auto simp: bind_res_def split: sum.splits prod.splits)
  have "decode_values ts' ((pre @ p) @ pl' @ post) (length (pre @ p)) = Inr vs
      \<and> length ts' = length vs"
    by (rule Cons.IH [OF vs])
  then show ?case
    using decode_values_Cons [OF v refl, of ts' pre "pl' @ post"] eq by simp
qed

lemma decode_encode_record [codec_simps]:
  assumes "encode_record vs = Inr bs"
  shows "decode_record bs = Inr vs"
proof -
  from assms obtain ts pl nc hs where
    vs: "encode_values vs [] [] = Inr (ts, pl)" and nc: "pack_u 2 (int (length vs)) = Inr nc"
    and hs: "pack_u 2 (int (length (nc @ map value_type_byte ts))) = Inr hs"
    and bs: "bs = hs @ (nc @ map value_type_byte ts) @ pl"
    by (auto simp: encode_record_def bind_res_def Let_def split: sum.splits prod.splits)
  have len: "length hs = 2" "length nc = 2" "length ts = length vs"
    using length_pack_u [OF hs] length_pack_u [OF nc] decode_encode_values [OF vs] by auto
  have "seg 0 2 bs = hs" "seg 2 4 bs = nc"
    "seg 4 (4 + length vs) bs = map value_type_byte ts"
    using len bs by (simp_all add: seg_def)
  moreover have "decode_values ts bs (4 + length vs) = Inr vs"
  proof -
    have "length (hs @ nc @ map value_type_byte ts) = 4 + length vs" using len by simp
    then show ?thesis
      using decode_encode_values [OF vs, of "hs @ nc @ map value_type_byte ts" "[]"] bs
      by (metis append.right_neutral append_assoc)
  qed
  ultimately show ?thesis
    by (simp add: decode_record_def unpack_pack_u [OF hs] unpack_pack_u [OF nc])
qed

subsection \<open>Which rows encode, and how long the record is\<close>

text \<open>\<open>val_size\<close> is the payload size of a column that encodes.\<close>

fun utf8_size_cp :: "nat \<Rightarrow> nat" where
  "utf8_size_cp c = (if c < 0x80 then 1 else if c < 0x800 then 2 else if c < 0x10000 then 3 else 4)"

definition utf8_size :: "pystr \<Rightarrow> nat" where
  "utf8_size s = sum_list (map utf8_size_cp s)"

fun encodable :: "val \<Rightarrow> bool" where
  "encodable VNull = True"
| "encodable (VInt i) = (- (2 ^ 31) \<le> i \<and> i < 2 ^ 31)"
| "encodable (VStr s) = (list_all scalar_value s \<and> utf8_size s < 65536)"

fun val_size :: "val \<Rightarrow> nat" where
  "val_size VNull = 0"
| "val_size (VInt i) = 4"
| "val_size (VStr s) = 2 + utf8_size s"

lemma utf8_encode_length: "utf8_encode s = Inr bs \<Longrightarrow> length bs = utf8_size s"
proof (induction s arbitrary: bs)
  case Nil
  then show ?case by (simp add: utf8_size_def)
next
  case (Cons c s)
  then obtain b bs' where "utf8_encode_cp c = Inr b" "utf8_encode s = Inr bs'" "bs = b @ bs'"
    by (auto simp: bind_res_def split: sum.splits)
  moreover from this(1) have "length b = utf8_size_cp c"
    by (auto simp: utf8_encode_cp_def split: if_splits)
  ultimately show ?case using Cons.IH by (simp add: utf8_size_def)
qed

lemma encode_value_ok:
  "encodable v \<Longrightarrow> \<exists>t p. encode_value v = Inr (t, p) \<and> length p = val_size v"
  "\<not> encodable v \<Longrightarrow> \<exists>e. encode_value v = Inl e"
proof -
  { assume enc: "encodable v"
    show "\<exists>t p. encode_value v = Inr (t, p) \<and> length p = val_size v"
    proof (cases v)
      case (VStr s)
      with enc obtain bs where bs: "utf8_encode s = Inr bs"
        using utf8_encode_ok [of s] by auto
      have "length bs < 65536" using utf8_encode_length [OF bs] enc VStr by simp
      then have "pack_u 2 (int (length bs)) = Inr (le_bytes 2 (length bs))" by simp
      with VStr bs utf8_encode_length [OF bs] show ?thesis by simp
    qed (use enc in \<open>auto simp: pack_i32_def\<close>) }
  { assume enc: "\<not> encodable v"
    show "\<exists>e. encode_value v = Inl e"
    proof (cases v)
      case (VStr s)
      show ?thesis
      proof (cases "utf8_encode s")
        case (Inl e)
        with VStr show ?thesis by simp
      next
        case (Inr bs)
        then have "list_all scalar_value s" using utf8_encode_ok [of s] by blast
        with enc VStr have "\<not> utf8_size s < 65536" by simp
        with utf8_encode_length [OF Inr] have "\<not> int (length bs) < 256 ^ 2" by simp
        with Inr VStr show ?thesis by (simp add: pack_u_def)
      qed
    qed (use enc in \<open>auto simp: pack_i32_def\<close>) }
qed

lemma encode_values_ok:
  "list_all encodable vs \<Longrightarrow> \<exists>ts pl. encode_values vs [] [] = Inr (ts, pl)
     \<and> length pl = sum_list (map val_size vs) \<and> length ts = length vs"
  "\<not> list_all encodable vs \<Longrightarrow> \<exists>e. encode_values vs [] [] = Inl e"
proof (induction vs)
  case Nil
  { case 1 then show ?case by simp }
  { case 2 then show ?case by simp }
next
  case (Cons v vs)
  { case 1
    then obtain t p ts pl where "encode_value v = Inr (t, p)" "length p = val_size v"
      "encode_values vs [] [] = Inr (ts, pl)" "length pl = sum_list (map val_size vs)"
      "length ts = length vs"
      using Cons.IH(1) encode_value_ok(1) [of v] by auto
    then show ?case using encode_values_acc [of vs "[t]" p] by simp }
  { case 2
    show ?case
    proof (cases "encodable v")
      case False
      then show ?thesis using encode_value_ok(2) [of v] by auto
    next
      case True
      then obtain t p where "encode_value v = Inr (t, p)" using encode_value_ok(1) by blast
      with True 2 Cons.IH(2) show ?thesis using encode_values_acc [of vs "[t]" p] by auto
    qed }
qed

definition row_ok :: "val list \<Rightarrow> bool" where
  "row_ok vs \<longleftrightarrow> list_all encodable vs \<and> length vs + 2 < 65536"

definition record_size :: "val list \<Rightarrow> nat" where
  "record_size vs = 4 + length vs + sum_list (map val_size vs)"

lemma encode_record_ok:
  assumes "row_ok vs"
  shows "\<exists>bs. encode_record vs = Inr bs \<and> length bs = record_size vs"
proof -
  from assms obtain ts pl where "encode_values vs [] [] = Inr (ts, pl)"
    "length pl = sum_list (map val_size vs)" "length ts = length vs"
    using encode_values_ok(1) [of vs] by (auto simp: row_ok_def)
  with assms show ?thesis
    by (simp add: encode_record_def row_ok_def record_size_def Let_def)
qed

lemma encode_record_err:
  assumes "\<not> row_ok vs"
  shows "\<exists>e. encode_record vs = Inl e"
proof (cases "list_all encodable vs")
  case False
  then show ?thesis using encode_values_ok(2) [of vs] by (auto simp: encode_record_def)
next
  case True
  then obtain ts pl where vs: "encode_values vs [] [] = Inr (ts, pl)" "length ts = length vs"
    using encode_values_ok(1) [of vs] by auto
  from True assms have big: "\<not> length vs + 2 < 65536" by (simp add: row_ok_def)
  show ?thesis
  proof (cases "pack_u 2 (int (length vs))")
    case (Inl e)
    with vs show ?thesis by (simp add: encode_record_def)
  next
    case (Inr nc)
    then have "length nc = 2" by (rule length_pack_u)
    with vs big have "\<not> int (length (nc @ map value_type_byte ts)) < 256 ^ 2" by simp
    then have "pack_u 2 (int (length (nc @ map value_type_byte ts))) = Inl StructError"
      by (simp only: pack_u_def if_False simp_thms)
    with Inr vs show ?thesis by (simp add: encode_record_def Let_def)
  qed
qed

interpretation row_codec: codec encode_record decode_record row_ok
proof unfold_locales
  fix vs assume "row_ok vs"
  then obtain bs where "encode_record vs = Inr bs" using encode_record_ok by blast
  then show "\<exists>bs. encode_record vs = Inr bs \<and> decode_record bs = Inr vs"
    using decode_encode_record by blast
qed

subsection \<open>Properties\<close>

text \<open>C39: decoding an encoded row gives the row back: \<^verbatim>\<open>decode_record(encode_record(vs)) == vs\<close>.\<close>
theorem record_round_trip:
  assumes "encode_record vs = Inr bs"
  shows "decode_record bs = Inr vs"
  using assms by (rule decode_encode_record)

theorem record_round_trip_witness:
  "\<exists>bs. encode_record [VInt (-7), VStr [0x61, 0x20AC], VNull] = Inr bs
     \<and> decode_record bs = Inr [VInt (-7), VStr [0x61, 0x20AC], VNull]"
proof -
  have "row_ok [VInt (-7), VStr [0x61, 0x20AC], VNull]"
    by (simp add: row_ok_def scalar_value_def is_surrogate_def utf8_size_def)
  then obtain bs where "encode_record [VInt (-7), VStr [0x61, 0x20AC], VNull] = Inr bs"
    using encode_record_ok by blast
  with record_round_trip show ?thesis by blast
qed

text \<open>C40: a row encodes exactly when every integer fits 32 bits, every string is encodable and at most
  65535 bytes long, and the header length fits 16 bits; the result has the size the format prescribes,
  and every other row raises.\<close>
theorem record_encodes_iff:
  "case encode_record vs of
     Inr bs \<Rightarrow> row_ok vs \<and> length bs = record_size vs
   | Inl e \<Rightarrow> \<not> row_ok vs"
  using encode_record_ok [of vs] encode_record_err [of vs] by (cases "row_ok vs") auto

end
