(* ===== verification/Slotted_Page.thy ===== *)
theory Slotted_Page
  imports Prelude
begin

section \<open>The slotted page (\<^verbatim>\<open>src/slotted_page.py\<close>)\<close>

text \<open>
  A page is a bytearray: a 12-byte header of three uint32 fields, a slot array growing to the
  right and records growing to the left. The operations are translated on the bytes. The
  specification of a page is its list of cells (\<open>sp_cells\<close>: one payload per slot, \<open>None\<close>
  for a deleted slot); the lemmas show what each operation does to that list and to the free space,
  and that each keeps the page well formed (\<open>sp_wf\<close>).
\<close>

record slotted_page =
  sp_size :: nat
  sp_data :: bytes

definition HEADER_SIZE :: int where "HEADER_SIZE = 12"

text \<open>Reading and writing bytes of \<^verbatim>\<open>self.data\<close>.\<close>

definition sp_read :: "int \<Rightarrow> int \<Rightarrow> (slotted_page, bytes) act" where
  "sp_read i j = gets (\<lambda>p. py_slice i j (sp_data p))"

definition sp_write :: "int \<Rightarrow> int \<Rightarrow> bytes \<Rightarrow> (slotted_page, unit) act" where
  "sp_write i j v = modify (\<lambda>p. p\<lparr>sp_data := py_set_slice i j v (sp_data p)\<rparr>)"

definition sp_get_u32 :: "int \<Rightarrow> (slotted_page, int) act" where
  "sp_get_u32 off = bnd (sp_read off (off + 4)) (\<lambda>b. lift_res (unpack_u 4 b))"

definition sp_set_u32 :: "int \<Rightarrow> int \<Rightarrow> (slotted_page, unit) act" where
  "sp_set_u32 off v = bnd (lift_res (pack_u 4 v)) (\<lambda>b. sp_write off (off + 4) b)"

definition get_free_start :: "(slotted_page, int) act" where "get_free_start = sp_get_u32 0"
definition set_free_start :: "int \<Rightarrow> (slotted_page, unit) act" where "set_free_start v = sp_set_u32 0 v"
definition get_free_end :: "(slotted_page, int) act" where "get_free_end = sp_get_u32 4"
definition set_free_end :: "int \<Rightarrow> (slotted_page, unit) act" where "set_free_end v = sp_set_u32 4 v"
definition get_num_slots :: "(slotted_page, int) act" where "get_num_slots = sp_get_u32 8"
definition set_num_slots :: "int \<Rightarrow> (slotted_page, unit) act" where "set_num_slots v = sp_set_u32 8 v"

text \<open>\<^verbatim>\<open>__init__\<close>\<close>

definition sp_init :: "nat \<Rightarrow> slotted_page res" where
  "sp_init sz =
     (case bnd (set_free_start HEADER_SIZE) (\<lambda>_.
           bnd (set_free_end (int sz)) (\<lambda>_.
           set_num_slots 0))
         \<lparr>sp_size = sz, sp_data = replicate sz 0\<rparr> of
       (Inl e, p) \<Rightarrow> Inl e
     | (Inr _, p) \<Rightarrow> Inr p)"

definition sp_insert :: "bytes \<Rightarrow> (slotted_page, int) act" where
  "sp_insert rec =
     bnd get_free_start (\<lambda>free_start.
     bnd get_free_end (\<lambda>free_end.
     bnd get_num_slots (\<lambda>num_slots.
     bnd (lift_res (pack_u 4 (int (length rec)))) (\<lambda>len.
     let record_with_len = len @ rec; sz = int (length record_with_len) in
     if free_end - free_start < sz + 4 then throw PageFull
     else
       let free_end = free_end - sz; slot_offset = HEADER_SIZE + num_slots * 4 in
       bnd (sp_write free_end (free_end + sz) record_with_len) (\<lambda>_.
       bnd (sp_set_u32 slot_offset free_end) (\<lambda>_.
       bnd (set_free_start (free_start + 4)) (\<lambda>_.
       bnd (set_free_end free_end) (\<lambda>_.
       bnd (set_num_slots (num_slots + 1)) (\<lambda>_.
       ret num_slots)))))))))"

definition sp_read_record :: "int \<Rightarrow> (slotted_page, bytes option) act" where
  "sp_read_record slot_id =
     bnd get_num_slots (\<lambda>num_slots.
     if slot_id \<ge> num_slots then throw IndexError
     else
       bnd (sp_get_u32 (HEADER_SIZE + slot_id * 4)) (\<lambda>record_offset.
       if record_offset = 0 then ret None
       else
         bnd (sp_get_u32 record_offset) (\<lambda>len.
         bnd (sp_read (record_offset + 4) (record_offset + 4 + len)) (\<lambda>b. ret (Some b)))))"

definition sp_delete :: "int \<Rightarrow> (slotted_page, unit) act" where
  "sp_delete slot_id =
     bnd get_num_slots (\<lambda>num_slots.
     if slot_id \<ge> num_slots then throw IndexError
     else sp_set_u32 (HEADER_SIZE + slot_id * 4) 0)"

text \<open>
  \<^verbatim>\<open>compact\<close>: the copying loop over the slots \<open>i, i+1, \<dots>\<close> (\<open>n\<close> of them are left) carries the new
  data, the new end of the free space and the new slots; the second loop writes the slots.
\<close>

fun compact_copy :: "nat \<Rightarrow> nat \<Rightarrow> bytes \<Rightarrow> int \<Rightarrow> int list \<Rightarrow> (slotted_page, bytes \<times> int \<times> int list) act" where
  "compact_copy 0 i new_data new_free_end new_slots = ret (new_data, new_free_end, new_slots)"
| "compact_copy (Suc n) i new_data new_free_end new_slots =
     bnd (sp_get_u32 (HEADER_SIZE + int i * 4)) (\<lambda>record_offset.
     if record_offset = 0 then compact_copy n (Suc i) new_data new_free_end (new_slots @ [0])
     else
       bnd (sp_get_u32 record_offset) (\<lambda>len.
       let total_size = 4 + len; new_free_end = new_free_end - total_size in
       bnd (sp_read record_offset (record_offset + total_size)) (\<lambda>b.
       compact_copy n (Suc i) (py_set_slice new_free_end (new_free_end + total_size) b new_data)
         new_free_end (new_slots @ [new_free_end]))))"

fun compact_slots :: "nat \<Rightarrow> int list \<Rightarrow> bytes \<Rightarrow> bytes res" where
  "compact_slots i [] new_data = Inr new_data"
| "compact_slots i (off # offs) new_data =
     bind_res (pack_u 4 off) (\<lambda>b.
     compact_slots (Suc i) offs
       (py_set_slice (HEADER_SIZE + int i * 4) (HEADER_SIZE + int i * 4 + 4) b new_data))"

definition sp_compact :: "(slotted_page, unit) act" where
  "sp_compact =
     bnd get_num_slots (\<lambda>num_slots.
     bnd (gets sp_size) (\<lambda>sz.
     bnd (compact_copy (nat num_slots) 0 (replicate sz 0) (int sz) [])
       (\<lambda>(new_data, new_free_end, new_slots).
     bnd (lift_res (compact_slots 0 new_slots new_data)) (\<lambda>new_data.
     bnd (lift_res (pack_u 4 (HEADER_SIZE + num_slots * 4))) (\<lambda>fs.
     bnd (lift_res (pack_u 4 new_free_end)) (\<lambda>fe.
     bnd (lift_res (pack_u 4 num_slots)) (\<lambda>ns.
     modify (\<lambda>p. p\<lparr>sp_data :=
       py_set_slice 8 12 ns (py_set_slice 4 8 fe (py_set_slice 0 4 fs new_data))\<rparr>))))))))"

subsection \<open>Well-formed pages and their cells\<close>

definition u32_at :: "bytes \<Rightarrow> nat \<Rightarrow> nat" where
  "u32_at d off = le_nat (seg off (off + 4) d)"

definition num_slots :: "slotted_page \<Rightarrow> nat" where "num_slots p = u32_at (sp_data p) 8"
definition free_end :: "slotted_page \<Rightarrow> nat" where "free_end p = u32_at (sp_data p) 4"

definition slot_off :: "slotted_page \<Rightarrow> nat \<Rightarrow> nat" where
  "slot_off p i = u32_at (sp_data p) (12 + 4 * i)"

definition cell_len :: "slotted_page \<Rightarrow> nat \<Rightarrow> nat" where
  "cell_len p off = u32_at (sp_data p) off"

definition cell_at :: "slotted_page \<Rightarrow> nat \<Rightarrow> bytes option" where
  "cell_at p i =
     (let off = slot_off p i in
      if off = 0 then None else Some (seg (off + 4) (off + 4 + cell_len p off) (sp_data p)))"

definition sp_cells :: "slotted_page \<Rightarrow> bytes option list" where
  "sp_cells p = map (cell_at p) [0..<num_slots p]"

fun cell_space :: "bytes option \<Rightarrow> nat" where
  "cell_space None = 0"
| "cell_space (Some r) = 4 + length r"

definition slot_ok :: "slotted_page \<Rightarrow> nat \<Rightarrow> bool" where
  "slot_ok p i \<longleftrightarrow>
     (let off = slot_off p i in
      off = 0 \<or> (free_end p \<le> off \<and> off + 4 + cell_len p off \<le> sp_size p))"

definition sp_free :: "slotted_page \<Rightarrow> nat" where
  "sp_free p = free_end p - (12 + 4 * num_slots p)"

definition sp_wf :: "slotted_page \<Rightarrow> bool" where
  "sp_wf p \<longleftrightarrow>
     length (sp_data p) = sp_size p \<and> sp_size p < 2 ^ 32 \<and>
     u32_at (sp_data p) 0 = 12 + 4 * num_slots p \<and>
     12 + 4 * num_slots p \<le> free_end p \<and> free_end p \<le> sp_size p \<and>
     (\<forall>i < num_slots p. slot_ok p i) \<and>
     sum_list (map cell_space (sp_cells p)) \<le> sp_size p - free_end p"

lemma u32_bound: "u32_at d off < 2 ^ 32"
proof -
  have "length (seg off (off + 4) d) \<le> 4" by simp
  then have "(256::nat) ^ length (seg off (off + 4) d) \<le> 256 ^ 4"
    by (intro power_increasing) auto
  with le_nat_bound [of "seg off (off + 4) d"] show ?thesis by (simp add: u32_at_def)
qed

lemma get_u32_run:
  assumes "off = int n" "n + 4 \<le> length (sp_data p)"
  shows "sp_get_u32 off p = (Inr (int (u32_at (sp_data p) n)), p)"
proof -
  have "py_slice off (off + 4) (sp_data p) = seg n (n + 4) (sp_data p)"
    using py_slice_nat [of n "n + 4" "sp_data p"] assms(1) by simp
  with assms(2) show ?thesis
    by (simp add: sp_get_u32_def sp_read_def bnd_def unpack_u_def u32_at_def)
qed

lemma set_u32_run:
  assumes "off = int n" "v = int m" "m < 2 ^ 32"
  shows "sp_set_u32 off v p = (Inr (), p\<lparr>sp_data := put_slice n (n + 4) (le_bytes 4 m) (sp_data p)\<rparr>)"
proof -
  have "py_set_slice off (off + 4) b (sp_data p) = put_slice n (n + 4) b (sp_data p)" for b
    using py_set_slice_nat [of n "n + 4" b "sp_data p"] assms(1) by simp
  with assms(2,3) show ?thesis
    by (simp add: sp_set_u32_def sp_write_def bnd_def pack_u_def)
qed

lemma write_run:
  assumes "i = int m" "j = int n"
  shows "sp_write i j v p = (Inr (), p\<lparr>sp_data := put_slice m n v (sp_data p)\<rparr>)"
  using assms by (simp add: sp_write_def)

lemma u32_put_same:
  "off + 4 \<le> length d \<Longrightarrow> m < 2 ^ 32 \<Longrightarrow> u32_at (put_slice off (off + 4) (le_bytes 4 m) d) off = m"
  by (simp add: u32_at_def le_nat_le_bytes)

lemma u32_put_disj:
  assumes "a \<le> b" "b \<le> length d" "length v = b - a" "off + 4 \<le> a \<or> b \<le> off"
  shows "u32_at (put_slice a b v d) off = u32_at d off"
  using seg_put_disj [OF assms] by (simp add: u32_at_def)

lemma sp_wf_size: "sp_wf p \<Longrightarrow> 12 + 4 * num_slots p \<le> sp_size p"
  by (auto simp: sp_wf_def)

lemma sp_wf_free_start: "sp_wf p \<Longrightarrow> get_free_start p = (Inr (12 + 4 * int (num_slots p)), p)"
  by (simp add: get_free_start_def get_u32_run [where n = 0] sp_wf_def)

lemma sp_wf_free_end: "sp_wf p \<Longrightarrow> get_free_end p = (Inr (int (free_end p)), p)"
  by (simp add: get_free_end_def get_u32_run [where n = 4] sp_wf_def free_end_def)

lemma sp_wf_num_slots: "sp_wf p \<Longrightarrow> get_num_slots p = (Inr (int (num_slots p)), p)"
  by (simp add: get_num_slots_def get_u32_run [where n = 8] sp_wf_def num_slots_def)

lemma length_sp_cells [simp]: "length (sp_cells p) = num_slots p"
  by (simp add: sp_cells_def)

lemma nth_sp_cells [simp]: "i < num_slots p \<Longrightarrow> sp_cells p ! i = cell_at p i"
  by (simp add: sp_cells_def)

subsection \<open>The fresh page\<close>

definition sp_empty :: "nat \<Rightarrow> slotted_page" where
  "sp_empty sz = \<lparr>sp_size = sz, sp_data =
     put_slice 8 12 (le_bytes 4 0) (put_slice 4 8 (le_bytes 4 sz) (put_slice 0 4 (le_bytes 4 12) (replicate sz 0)))\<rparr>"

lemma sp_init_ok: "sz < 2 ^ 32 \<Longrightarrow> sp_init sz = Inr (sp_empty sz)"
  by (simp add: sp_init_def set_free_start_def set_free_end_def set_num_slots_def HEADER_SIZE_def
      bnd_def set_u32_run [where n = 0 and m = 12] set_u32_run [where n = 4 and m = sz]
      set_u32_run [where n = 8 and m = 0] sp_empty_def)

lemma sp_empty_fields:
  assumes "12 \<le> sz" "sz < 2 ^ 32"
  shows "u32_at (sp_data (sp_empty sz)) 0 = 12" "free_end (sp_empty sz) = sz"
    "num_slots (sp_empty sz) = 0" "length (sp_data (sp_empty sz)) = sz"
    "sp_size (sp_empty sz) = sz"
  using assms
  by (simp_all add: sp_empty_def free_end_def num_slots_def u32_put_disj
      u32_put_same [where off = 0, simplified] u32_put_same [where off = 4, simplified]
      u32_put_same [where off = 8, simplified])

lemma sp_empty_wf:
  assumes "12 \<le> sz" "sz < 2 ^ 32"
  shows "sp_wf (sp_empty sz)" "sp_cells (sp_empty sz) = []" "sp_free (sp_empty sz) = sz - 12"
  using sp_empty_fields [OF assms] assms
  by (simp_all add: sp_wf_def sp_cells_def sp_free_def)

subsection \<open>Reading and deleting\<close>

lemma sp_read_record_ok:
  assumes wf: "sp_wf p" and i: "i < num_slots p"
  shows "sp_read_record (int i) p = (Inr (sp_cells p ! i), p)"
proof -
  let ?off = "slot_off p i"
  have so: "sp_get_u32 (12 + int i * 4) p = (Inr (int ?off), p)"
    using wf i by (subst get_u32_run [where n = "12 + 4 * i"])
      (auto simp: slot_off_def sp_wf_def)
  show ?thesis
  proof (cases "?off = 0")
    case True
    with so i show ?thesis
      by (simp add: sp_read_record_def bnd_def sp_wf_num_slots [OF wf] HEADER_SIZE_def cell_at_def)
  next
    case False
    with wf i have le: "?off + 4 + cell_len p ?off \<le> sp_size p" "length (sp_data p) = sp_size p"
      by (auto simp: sp_wf_def slot_ok_def Let_def)
    then have "sp_get_u32 (int ?off) p = (Inr (int (cell_len p ?off)), p)"
      by (subst get_u32_run [where n = ?off]) (auto simp: cell_len_def)
    moreover have "py_slice (int ?off + 4) (int ?off + 4 + int (cell_len p ?off)) (sp_data p)
        = seg (?off + 4) (?off + 4 + cell_len p ?off) (sp_data p)"
      using py_slice_nat [of "?off + 4" "?off + 4 + cell_len p ?off" "sp_data p"] by simp
    ultimately show ?thesis using False so i
      by (simp add: sp_read_record_def bnd_def sp_wf_num_slots [OF wf] HEADER_SIZE_def cell_at_def
          Let_def sp_read_def)
  qed
qed

lemma sp_read_record_bad:
  "sp_wf p \<Longrightarrow> int (num_slots p) \<le> i \<Longrightarrow> sp_read_record i p = (Inl IndexError, p)"
  by (simp add: sp_read_record_def bnd_def sp_wf_num_slots)

text \<open>
  What a write outside a cell's bytes leaves alone: two pages with the same header fields agree on a
  slot when their bytes agree on its entry and on its record.
\<close>

lemma cell_at_cong:
  assumes "slot_off p' i = slot_off p i"
    and "slot_off p i \<noteq> 0 \<Longrightarrow> cell_len p' (slot_off p i) = cell_len p (slot_off p i)"
    and "slot_off p i \<noteq> 0 \<Longrightarrow> seg (slot_off p i + 4) (slot_off p i + 4 + cell_len p (slot_off p i)) (sp_data p')
      = seg (slot_off p i + 4) (slot_off p i + 4 + cell_len p (slot_off p i)) (sp_data p)"
  shows "cell_at p' i = cell_at p i"
  using assms by (auto simp: cell_at_def Let_def)

lemma sum_list_update_le:
  "i < length xs \<Longrightarrow> f x = (0::nat) \<Longrightarrow> sum_list (map f (xs[i := x])) \<le> sum_list (map f xs)"
proof (induction xs arbitrary: i)
  case Nil
  then show ?case by simp
next
  case (Cons y ys)
  then show ?case by (cases i) (auto intro: add_left_mono trans_le_add2)
qed

lemma sp_delete_ok:
  assumes wf: "sp_wf p" and i: "i < num_slots p"
  shows "\<exists>p'. sp_delete (int i) p = (Inr (), p') \<and> sp_wf p' \<and> sp_cells p' = (sp_cells p)[i := None]
     \<and> sp_size p' = sp_size p \<and> free_end p' = free_end p"
proof -
  let ?d = "put_slice (12 + 4 * i) (12 + 4 * i + 4) (le_bytes 4 0) (sp_data p)"
  let ?p' = "p\<lparr>sp_data := ?d\<rparr>"
  have len: "length (sp_data p) = sp_size p" "12 + 4 * num_slots p \<le> free_end p"
      "free_end p \<le> sp_size p"
    using wf by (auto simp: sp_wf_def)
  have i4: "12 + 4 * i + 4 \<le> 12 + 4 * num_slots p" using i by simp
  have run: "sp_delete (int i) p = (Inr (), ?p')"
    using i by (simp add: sp_delete_def bnd_def sp_wf_num_slots [OF wf] HEADER_SIZE_def
        set_u32_run [where n = "12 + 4 * i" and m = 0])
  have u: "u32_at ?d off = u32_at (sp_data p) off" if "off + 4 \<le> 12 + 4 * i \<or> 12 + 4 * i + 4 \<le> off" for off
    using that len i4 by (intro u32_put_disj) auto
  have s: "seg a b ?d = seg a b (sp_data p)" if "12 + 4 * num_slots p \<le> a" for a b
    using that len i4 by (intro seg_put_disj) auto
  have ns: "num_slots ?p' = num_slots p" and fe: "free_end ?p' = free_end p"
    using u by (simp_all add: num_slots_def free_end_def)
  have off_i: "slot_off ?p' i = 0"
    using len i4 u32_put_same [of "12 + 4 * i" "sp_data p" 0] by (simp add: slot_off_def)
  have off_j: "slot_off ?p' j = slot_off p j" if "j \<noteq> i" for j
  proof -
    have "12 + 4 * j + 4 \<le> 12 + 4 * i \<or> 12 + 4 * i + 4 \<le> 12 + 4 * j" using that by arith
    then show ?thesis using u [of "12 + 4 * j"] by (simp add: slot_off_def)
  qed
  have lenc: "cell_len ?p' off = cell_len p off" if "free_end p \<le> off" for off
    using that len i4 u [of off] by (simp add: cell_len_def)
  have ok: "slot_ok p j" if "j < num_slots p" for j
    using that wf by (simp add: sp_wf_def)
  have cell: "cell_at ?p' j = (if j = i then None else cell_at p j)" if "j < num_slots p" for j
  proof (cases "j = i")
    case True
    then show ?thesis using off_i by (simp add: cell_at_def)
  next
    case False
    have "cell_at ?p' j = cell_at p j"
      using ok [OF that] off_j [OF False] lenc s len i4
      by (intro cell_at_cong) (auto simp: slot_ok_def Let_def)
    with False show ?thesis by simp
  qed
  have cells: "sp_cells ?p' = (sp_cells p)[i := None]"
    by (rule nth_equalityI) (use i ns cell in \<open>auto simp: nth_list_update\<close>)
  have "slot_ok ?p' j" if "j < num_slots p" for j
  proof (cases "j = i")
    case True
    then show ?thesis using off_i by (simp add: slot_ok_def)
  next
    case False
    then show ?thesis using ok [OF that] off_j [OF False] fe lenc [of "slot_off p j"]
      by (auto simp: slot_ok_def Let_def)
  qed
  moreover have "sum_list (map cell_space (sp_cells ?p')) \<le> sp_size p - free_end p"
    using sum_list_update_le [of i "sp_cells p" cell_space None] i wf cells
    by (auto simp: sp_wf_def)
  ultimately have "sp_wf ?p'"
    using wf ns fe u [of 0] len i4 by (simp add: sp_wf_def)
  with run cells fe show ?thesis by auto
qed

subsection \<open>Inserting\<close>

definition sp_fits :: "slotted_page \<Rightarrow> bytes \<Rightarrow> bool" where
  "sp_fits p r \<longleftrightarrow> length r + 8 \<le> sp_free p"

text \<open>The bytes after a successful insert: the record, its slot, the three header fields.\<close>

definition ins_data :: "slotted_page \<Rightarrow> bytes \<Rightarrow> bytes" where
  "ins_data p r =
     (let n = num_slots p; fe = free_end p - (4 + length r) in
      put_slice 8 12 (le_bytes 4 (n + 1)) (put_slice 4 8 (le_bytes 4 fe)
        (put_slice 0 4 (le_bytes 4 (16 + 4 * n))
          (put_slice (12 + 4 * n) (16 + 4 * n) (le_bytes 4 fe)
            (put_slice fe (free_end p) (le_bytes 4 (length r) @ r) (sp_data p))))))"

lemma sp_insert_run:
  assumes wf: "sp_wf p" and fits: "sp_fits p r"
  shows "sp_insert r p = (Inr (int (num_slots p)), p\<lparr>sp_data := ins_data p r\<rparr>)"
proof -
  let ?n = "num_slots p"
  let ?fe = "free_end p - (4 + length r)"
  have le: "12 + 4 * ?n + (8 + length r) \<le> free_end p" "free_end p \<le> sp_size p" "sp_size p < 2 ^ 32"
    using wf fits by (auto simp: sp_wf_def sp_fits_def sp_free_def)
  then have len: "pack_u 4 (int (length r)) = Inr (le_bytes 4 (length r))"
    by (simp add: pack_u_def)
  have fe: "int (free_end p) - (4 + int (length r)) = int ?fe" "?fe + (4 + length r) = free_end p"
    using le by auto
  have bounds: "16 + 4 * ?n < 2 ^ 32" "?fe < 2 ^ 32" "Suc ?n < 2 ^ 32" using le by auto
  note set_run = set_u32_run [where n = "12 + 4 * ?n" and m = ?fe]
    set_u32_run [where n = 0 and m = "16 + 4 * ?n"] set_u32_run [where n = 4 and m = ?fe]
    set_u32_run [where n = 8 and m = "Suc ?n"]
  show ?thesis
    using le bounds
    by (simp add: sp_insert_def bnd_def sp_wf_free_start [OF wf] sp_wf_free_end [OF wf]
        sp_wf_num_slots [OF wf] len fe HEADER_SIZE_def set_free_start_def set_free_end_def
        set_num_slots_def set_run write_run [where m = ?fe and n = "free_end p"] ins_data_def Let_def
        algebra_simps)
qed

lemma sp_insert_full:
  assumes wf: "sp_wf p" and fits: "\<not> sp_fits p r"
  shows "\<exists>e. sp_insert r p = (Inl e, p) \<and> (length r < 2 ^ 32 \<longrightarrow> e = PageFull)"
proof -
  have "int (free_end p) - (12 + 4 * int (num_slots p)) < int (8 + length r)"
    using wf fits by (auto simp: sp_wf_def sp_fits_def sp_free_def)
  then show ?thesis
    by (cases "length r < 2 ^ 32")
      (auto simp: sp_insert_def bnd_def sp_wf_free_start [OF wf] sp_wf_free_end [OF wf]
        sp_wf_num_slots [OF wf] pack_u_def HEADER_SIZE_def Let_def)
qed

lemma ins_data_facts:
  assumes wf: "sp_wf p" and fits: "sp_fits p r"
  defines "n \<equiv> num_slots p" and "fe \<equiv> free_end p - (4 + length r)" and "d \<equiv> ins_data p r"
  shows "length d = sp_size p" "u32_at d 0 = 16 + 4 * n" "u32_at d 4 = fe" "u32_at d 8 = n + 1"
    "u32_at d (12 + 4 * n) = fe" "u32_at d fe = length r" "seg (fe + 4) (fe + 4 + length r) d = r"
    "j < n \<Longrightarrow> u32_at d (12 + 4 * j) = u32_at (sp_data p) (12 + 4 * j)"
    "free_end p \<le> off \<Longrightarrow> u32_at d off = u32_at (sp_data p) off"
    "free_end p \<le> off \<Longrightarrow> seg off off' d = seg off off' (sp_data p)"
proof -
  have le: "16 + 4 * n \<le> fe" "fe + (4 + length r) = free_end p" "free_end p \<le> sp_size p"
    "sp_size p < 2 ^ 32" "length (sp_data p) = sp_size p"
    using wf fits by (auto simp: sp_wf_def sp_fits_def sp_free_def n_def fe_def)
  have b: "16 + 4 * n < 2 ^ 32" "fe < 2 ^ 32" "Suc n < 2 ^ 32" "length r < 2 ^ 32" using le by auto
  have d: "d = put_slice 8 12 (le_bytes 4 (n + 1)) (put_slice 4 8 (le_bytes 4 fe)
        (put_slice 0 4 (le_bytes 4 (16 + 4 * n))
          (put_slice (12 + 4 * n) (16 + 4 * n) (le_bytes 4 fe)
            (put_slice fe (free_end p) (le_bytes 4 (length r) @ r) (sp_data p)))))"
    by (simp add: d_def ins_data_def n_def fe_def Let_def)
  note same = u32_put_same [where off = 8, simplified] u32_put_same [where off = 4, simplified]
    u32_put_same [where off = 0, simplified] u32_put_same [where off = "12 + 4 * n", simplified]
  show "length d = sp_size p" using le by (simp add: d)
  show "u32_at d 0 = 16 + 4 * n" using le b by (simp add: d u32_put_disj same)
  show "u32_at d 4 = fe" using le b by (simp add: d u32_put_disj same)
  show "u32_at d 8 = n + 1" using le b by (simp add: d u32_put_disj same)
  show "u32_at d (12 + 4 * n) = fe" using le b by (simp add: d u32_put_disj same)
  show "u32_at d (12 + 4 * j) = u32_at (sp_data p) (12 + 4 * j)" if "j < n"
    using that le by (simp add: d u32_put_disj)
  show "u32_at d off = u32_at (sp_data p) off" if "free_end p \<le> off"
    using that le by (simp add: d u32_put_disj)
  show "seg off off' d = seg off off' (sp_data p)" if "free_end p \<le> off"
    using that le by (simp add: d seg_put_disj)
  have rec: "seg i j d = seg (i - fe) (j - fe) (le_bytes 4 (length r) @ r)"
    if "fe \<le> i" "j \<le> free_end p" for i j
    using that le by (simp add: d seg_put_disj seg_put_sub)
  show "u32_at d fe = length r"
    using rec [of fe "fe + 4"] le b
    by (simp add: u32_at_def seg_append_left le_nat_le_bytes)
  show "seg (fe + 4) (fe + 4 + length r) d = r"
    using rec [of "fe + 4" "fe + 4 + length r"] le
    by (simp add: seg_append_right)
qed

lemma sp_insert_ok:
  assumes wf: "sp_wf p" and fits: "sp_fits p r"
  shows "\<exists>p'. sp_insert r p = (Inr (int (num_slots p)), p') \<and> sp_wf p'
    \<and> sp_cells p' = sp_cells p @ [Some r] \<and> sp_size p' = sp_size p
    \<and> sp_free p' = sp_free p - (8 + length r)"
proof -
  let ?p' = "p\<lparr>sp_data := ins_data p r\<rparr>" and ?n = "num_slots p"
  let ?fe = "free_end p - (4 + length r)"
  note facts = ins_data_facts [OF wf fits]
  have le: "16 + 4 * ?n \<le> ?fe" "?fe + (4 + length r) = free_end p" "free_end p \<le> sp_size p"
    using wf fits by (auto simp: sp_wf_def sp_fits_def sp_free_def)
  have ns: "num_slots ?p' = ?n + 1" and fe: "free_end ?p' = ?fe"
    using facts by (simp_all add: num_slots_def free_end_def)
  have offs: "slot_off ?p' ?n = ?fe" "\<And>j. j < ?n \<Longrightarrow> slot_off ?p' j = slot_off p j"
    using facts by (simp_all add: slot_off_def)
  have lenc: "cell_len ?p' ?fe = length r"
    "\<And>off. free_end p \<le> off \<Longrightarrow> cell_len ?p' off = cell_len p off"
    using facts by (simp_all add: cell_len_def)
  have ok: "slot_ok p j" if "j < ?n" for j
    using that wf by (simp add: sp_wf_def)
  have new: "cell_at ?p' ?n = Some r"
    using offs lenc facts(7) le by (simp add: cell_at_def Let_def)
  have old: "cell_at ?p' j = cell_at p j" if "j < ?n" for j
    using ok [OF that] offs(2) [OF that] lenc(2) facts(10)
    by (intro cell_at_cong) (auto simp: slot_ok_def Let_def)
  have cells: "sp_cells ?p' = sp_cells p @ [Some r]"
    using ns new old by (simp add: sp_cells_def)
  have "slot_ok ?p' j" if "j < ?n + 1" for j
  proof (cases "j = ?n")
    case True
    then show ?thesis using offs lenc le fe by (simp add: slot_ok_def Let_def)
  next
    case False
    with that have "j < ?n" by simp
    then show ?thesis using ok [of j] offs(2) [of j] lenc(2) fe le
      by (auto simp: slot_ok_def Let_def)
  qed
  moreover have "sum_list (map cell_space (sp_cells ?p')) \<le> sp_size p - ?fe"
  proof -
    have "sum_list (map cell_space (sp_cells p)) \<le> sp_size p - free_end p"
      using wf by (simp add: sp_wf_def)
    then have "sum_list (map cell_space (sp_cells p)) + (4 + length r) \<le> sp_size p - ?fe"
      using le by arith
    with cells show ?thesis by simp
  qed
  ultimately have "sp_wf ?p'"
    using wf facts(1,2) ns fe le by (simp add: sp_wf_def)
  moreover have "sp_free ?p' = sp_free p - (8 + length r)"
    using ns fe by (simp add: sp_free_def)
  ultimately show ?thesis using sp_insert_run [OF wf fits] cells by auto
qed

text \<open>
  Building a page from scratch, as the B+Tree leaves do: inserting the records in order gives
  exactly these cells when they fit, 8 bytes of overhead each.
\<close>

fun sp_insert_all :: "bytes list \<Rightarrow> (slotted_page, unit) act" where
  "sp_insert_all [] = ret ()"
| "sp_insert_all (r # rs) = bnd (sp_insert r) (\<lambda>_. sp_insert_all rs)"

lemma sp_insert_all_ok:
  assumes "sp_wf p" and "(\<Sum>r\<leftarrow>rs. 8 + length r) \<le> sp_free p"
  shows "\<exists>p'. sp_insert_all rs p = (Inr (), p') \<and> sp_wf p' \<and> sp_cells p' = sp_cells p @ map Some rs
    \<and> sp_size p' = sp_size p \<and> sp_free p' = sp_free p - (\<Sum>r\<leftarrow>rs. 8 + length r)"
  using assms
proof (induction rs arbitrary: p)
  case Nil
  then show ?case by simp
next
  case (Cons r rs)
  from Cons.prems have "sp_fits p r" by (simp add: sp_fits_def)
  with Cons.prems(1) obtain p1 where p1: "sp_insert r p = (Inr (int (num_slots p)), p1)" "sp_wf p1"
    "sp_cells p1 = sp_cells p @ [Some r]" "sp_size p1 = sp_size p"
    "sp_free p1 = sp_free p - (8 + length r)"
    using sp_insert_ok by blast
  from Cons.prems(2) p1(5) have "(\<Sum>r\<leftarrow>rs. 8 + length r) \<le> sp_free p1" by simp
  from Cons.IH [OF p1(2) this] p1 Cons.prems(2) show ?case by (auto simp: bnd_def)
qed

subsection \<open>Compaction\<close>

lemma compact_slots_ok:
  assumes "12 + 4 * (i + length offs) \<le> length d" and "\<forall>x \<in> set offs. 0 \<le> x \<and> x < 2 ^ 32"
  shows "\<exists>d'. compact_slots i offs d = Inr d' \<and> length d' = length d
    \<and> (\<forall>k < length offs. u32_at d' (12 + 4 * (i + k)) = nat (offs ! k))
    \<and> (\<forall>a b. b \<le> 12 + 4 * i \<or> 12 + 4 * (i + length offs) \<le> a \<longrightarrow> seg a b d' = seg a b d)"
  using assms
proof (induction offs arbitrary: i d)
  case Nil
  then show ?case by simp
next
  case (Cons x offs)
  let ?d = "put_slice (12 + 4 * i) (16 + 4 * i) (le_bytes 4 (nat x)) d"
  have x: "0 \<le> x" "nat x < 2 ^ 32" using Cons.prems(2) by auto
  have put: "py_set_slice (HEADER_SIZE + int i * 4) (HEADER_SIZE + int i * 4 + 4) b d
      = put_slice (12 + 4 * i) (16 + 4 * i) b d" for b
    using py_set_slice_nat [of "12 + 4 * i" "16 + 4 * i" b d]
    by (simp add: HEADER_SIZE_def algebra_simps)
  have len: "12 + 4 * i + 4 \<le> length d" "length ?d = length d" using Cons.prems(1) by simp_all
  have "12 + 4 * (Suc i + length offs) \<le> length ?d" "\<forall>x \<in> set offs. 0 \<le> x \<and> x < 2 ^ 32"
    using Cons.prems len by auto
  from Cons.IH [OF this] obtain d' where d': "compact_slots (Suc i) offs ?d = Inr d'"
    "length d' = length d" "\<And>k. k < length offs \<Longrightarrow> u32_at d' (12 + 4 * (Suc i + k)) = nat (offs ! k)"
    "\<And>a b. b \<le> 12 + 4 * Suc i \<or> 12 + 4 * (Suc i + length offs) \<le> a \<Longrightarrow> seg a b d' = seg a b ?d"
    unfolding len(2) by blast
  have run: "compact_slots i (x # offs) d = Inr d'"
    using d'(1) x Cons.prems(2) by (simp add: put pack_u_def)
  have "u32_at d' (12 + 4 * (i + k)) = nat ((x # offs) ! k)" if "k < length (x # offs)" for k
  proof (cases k)
    case 0
    have "u32_at d' (12 + 4 * i) = u32_at ?d (12 + 4 * i)" by (simp add: u32_at_def d'(4))
    with 0 len x u32_put_same [of "12 + 4 * i" d "nat x"] show ?thesis by simp
  next
    case (Suc k')
    with that d'(3) [of k'] show ?thesis by simp
  qed
  moreover have "seg a b d' = seg a b d"
    if "b \<le> 12 + 4 * i \<or> 12 + 4 * (i + length (x # offs)) \<le> a" for a b
  proof -
    have "seg a b d' = seg a b ?d" using that by (intro d'(4)) auto
    also have "\<dots> = seg a b d" using that len by (intro seg_put_disj) auto
    finally show ?thesis .
  qed
  ultimately show ?case using run d'(2) by blast
qed

text \<open>What the copying loop has done after the first \<open>i\<close> slots.\<close>

definition rec_bytes :: "slotted_page \<Rightarrow> nat \<Rightarrow> bytes" where
  "rec_bytes p j = seg (slot_off p j) (slot_off p j + 4 + cell_len p (slot_off p j)) (sp_data p)"

definition copied_slot :: "slotted_page \<Rightarrow> bytes \<Rightarrow> nat \<Rightarrow> nat \<Rightarrow> int \<Rightarrow> bool" where
  "copied_slot p d m j x \<longleftrightarrow>
     (if slot_off p j = 0 then x = 0
      else 0 < x \<and> int m \<le> x \<and> nat x + length (rec_bytes p j) \<le> sp_size p
        \<and> seg (nat x) (nat x + length (rec_bytes p j)) d = rec_bytes p j)"

definition used :: "slotted_page \<Rightarrow> nat \<Rightarrow> nat" where
  "used p i = (\<Sum>j<i. cell_space (cell_at p j))"

definition copied :: "slotted_page \<Rightarrow> nat \<Rightarrow> bytes \<Rightarrow> nat \<Rightarrow> int list \<Rightarrow> bool" where
  "copied p i d m xs \<longleftrightarrow> length d = sp_size p \<and> m + used p i = sp_size p \<and> length xs = i
     \<and> (\<forall>j < i. copied_slot p d m j (xs ! j))"

lemma used_total: "used p (num_slots p) = sum_list (map cell_space (sp_cells p))"
  by (simp add: used_def sp_cells_def interv_sum_list_conv_sum_set_nat o_def atLeast0LessThan)

lemma used_mono: "i \<le> k \<Longrightarrow> used p i \<le> used p k"
  unfolding used_def by (intro sum_mono2) auto

lemma used_le: "sp_wf p \<Longrightarrow> i \<le> num_slots p \<Longrightarrow> free_end p + used p i \<le> sp_size p"
  using used_mono [of i "num_slots p" p] used_total [of p] by (auto simp: sp_wf_def)

lemma wf_rec_bytes:
  assumes wf: "sp_wf p" and j: "j < num_slots p" and off: "slot_off p j \<noteq> 0"
  shows "length (rec_bytes p j) = 4 + cell_len p (slot_off p j)"
    "cell_space (cell_at p j) = length (rec_bytes p j)" "free_end p \<le> slot_off p j"
    "slot_off p j + length (rec_bytes p j) \<le> sp_size p"
    "length (sp_data p) = sp_size p"
proof -
  have le: "free_end p \<le> slot_off p j" "slot_off p j + 4 + cell_len p (slot_off p j) \<le> sp_size p"
    "length (sp_data p) = sp_size p"
    using wf j off by (auto simp: sp_wf_def slot_ok_def Let_def)
  then show "length (rec_bytes p j) = 4 + cell_len p (slot_off p j)" by (simp add: rec_bytes_def)
  with le show "slot_off p j + length (rec_bytes p j) \<le> sp_size p" "free_end p \<le> slot_off p j"
    "length (sp_data p) = sp_size p" by simp_all
  show "cell_space (cell_at p j) = length (rec_bytes p j)"
    using off le by (simp add: cell_at_def rec_bytes_def Let_def)
qed

lemma copied_step:
  assumes wf: "sp_wf p" and i: "i < num_slots p" and off: "slot_off p i \<noteq> 0"
    and cp: "copied p i d m xs"
  defines "b \<equiv> rec_bytes p i" and "m' \<equiv> m - length (rec_bytes p i)"
  shows "copied p (Suc i) (put_slice m' m b d) m' (xs @ [int m'])" "m' + length b = m"
proof -
  note rb = wf_rec_bytes [OF wf i off]
  have us: "used p (Suc i) = used p i + length b" using rb(2) by (simp add: used_def b_def)
  have tot: "m + used p i = sp_size p" "length d = sp_size p" using cp by (auto simp: copied_def)
  have "free_end p + used p (Suc i) \<le> sp_size p" using used_le [OF wf] i by simp
  then have mle: "free_end p + length b \<le> m" using tot us by simp
  then show mm: "m' + length b = m" by (simp add: m'_def b_def)
  have pos: "0 < m'" using mle wf mm by (auto simp: sp_wf_def)
  have mm': "m \<le> length d" "length b = m - m'" "m' \<le> m" using tot mm by auto
  have "copied_slot p (put_slice m' m b d) m' j ((xs @ [int m']) ! j)" if "j < Suc i" for j
  proof (cases "j = i")
    case True
    have "seg m' (m' + length b) (put_slice m' m b d) = b"
      using seg_put_same [of m' m d b] mm mm' by simp
    moreover have "length xs = i" using cp by (simp add: copied_def)
    moreover have "m' + length b \<le> sp_size p" using mm tot by simp
    ultimately show ?thesis using True off pos
      by (simp add: copied_slot_def b_def [symmetric] nth_append)
  next
    case False
    with that have ji: "j < i" by simp
    then have c: "copied_slot p d m j (xs ! j)" and l: "length xs = i"
      using cp by (auto simp: copied_def)
    have "seg (nat (xs ! j)) (nat (xs ! j) + length (rec_bytes p j)) (put_slice m' m b d)
        = seg (nat (xs ! j)) (nat (xs ! j) + length (rec_bytes p j)) d"
      if "slot_off p j \<noteq> 0"
      using c that mm' by (intro seg_put_disj) (auto simp: copied_slot_def)
    with c l ji mm' show ?thesis by (auto simp: copied_slot_def nth_append)
  qed
  with tot us mm mm' cp show "copied p (Suc i) (put_slice m' m b d) m' (xs @ [int m'])"
    by (simp add: copied_def)
qed

lemma compact_copy_ok:
  assumes "sp_wf p" and "i + n = num_slots p" and "copied p i d m xs"
  shows "\<exists>d' m' xs'. compact_copy n i d (int m) xs p = (Inr (d', int m', xs'), p)
    \<and> copied p (num_slots p) d' m' xs'"
  using assms
proof (induction n arbitrary: i d m xs)
  case 0
  then show ?case by auto
next
  case (Suc n)
  have i: "i < num_slots p" using Suc.prems(2) by simp
  have so: "sp_get_u32 (12 + int i * 4) p = (Inr (int (slot_off p i)), p)"
    using Suc.prems(1) i
    by (subst get_u32_run [where n = "12 + 4 * i"]) (auto simp: slot_off_def sp_wf_def)
  show ?case
  proof (cases "slot_off p i = 0")
    case True
    then have "copied p (Suc i) d m (xs @ [0])"
      using Suc.prems(3)
      by (auto simp: copied_def used_def cell_at_def copied_slot_def nth_append less_Suc_eq)
    with Suc.IH [of "Suc i" d m "xs @ [0]"] Suc.prems(1,2) so True show ?thesis
      by (simp add: bnd_def HEADER_SIZE_def)
  next
    case False
    note rb = wf_rec_bytes [OF Suc.prems(1) i False]
    note step = copied_step [OF Suc.prems(1) i False Suc.prems(3)]
    let ?m' = "m - length (rec_bytes p i)"
    have len: "sp_get_u32 (int (slot_off p i)) p = (Inr (int (cell_len p (slot_off p i))), p)"
      using rb by (subst get_u32_run [where n = "slot_off p i"]) (auto simp: cell_len_def)
    have tot: "4 + int (cell_len p (slot_off p i)) = int (length (rec_bytes p i))"
      using rb(1) by simp
    have m': "int m - int (length (rec_bytes p i)) = int ?m'" using step(2) by simp
    have rd: "py_slice (int (slot_off p i)) (int (slot_off p i) + int (length (rec_bytes p i)))
        (sp_data p) = rec_bytes p i"
    proof -
      have "rec_bytes p i = seg (slot_off p i) (slot_off p i + length (rec_bytes p i)) (sp_data p)"
        unfolding rb(1) by (simp only: rec_bytes_def add.assoc)
      then show ?thesis by (metis of_nat_add py_slice_nat)
    qed
    have wr: "py_set_slice (int ?m') (int ?m' + int (length (rec_bytes p i))) (rec_bytes p i) d
        = put_slice ?m' m (rec_bytes p i) d"
      using py_set_slice_nat [of ?m' m "rec_bytes p i" d] step(2) by (metis of_nat_add)
    have "compact_copy (Suc n) i d (int m) xs p
        = compact_copy n (Suc i) (put_slice ?m' m (rec_bytes p i) d) (int ?m') (xs @ [int ?m']) p"
      using so len False
      by (simp add: bnd_def HEADER_SIZE_def Let_def tot m' sp_read_def rd wr del: of_nat_diff)
    with Suc.IH [OF Suc.prems(1) _ step(1)] Suc.prems(2) show ?thesis by simp
  qed
qed

lemma sp_compact_ok:
  assumes wf: "sp_wf p"
  shows "\<exists>p'. sp_compact p = (Inr (), p') \<and> sp_wf p' \<and> sp_cells p' = sp_cells p
    \<and> sp_size p' = sp_size p
    \<and> sp_free p' + (12 + 4 * num_slots p) + sum_list (map cell_space (sp_cells p)) = sp_size p"
proof -
  let ?n = "num_slots p"
  have "copied p 0 (replicate (sp_size p) 0) (sp_size p) []"
    by (simp add: copied_def used_def)
  from compact_copy_ok [OF wf _ this] obtain d m xs where
    run: "compact_copy ?n 0 (replicate (sp_size p) 0) (int (sp_size p)) [] p = (Inr (d, int m, xs), p)"
    and cp: "copied p ?n d m xs" by auto
  have d: "length d = sp_size p" "m + used p ?n = sp_size p" "length xs = ?n"
    and slots: "\<And>j. j < ?n \<Longrightarrow> copied_slot p d m j (xs ! j)"
    using cp by (auto simp: copied_def)
  have "free_end p + used p ?n \<le> sp_size p" by (rule used_le [OF wf order_refl])
  then have m: "12 + 4 * ?n \<le> m" "m \<le> sp_size p" "sp_size p < 2 ^ 32"
    using wf d(2) by (auto simp: sp_wf_def)
  have "\<forall>x \<in> set xs. 0 \<le> x \<and> x < 2 ^ 32"
  proof
    fix x assume "x \<in> set xs"
    then obtain j where j: "j < ?n" "xs ! j = x" using d(3) by (auto simp: in_set_conv_nth)
    with slots [OF j(1)] m show "0 \<le> x \<and> x < 2 ^ 32"
      by (auto simp: copied_slot_def split: if_splits)
  qed
  moreover have "12 + 4 * (0 + length xs) \<le> length d" using d m by simp
  ultimately obtain d' where d': "compact_slots 0 xs d = Inr d'" "length d' = sp_size p"
    "\<And>j. j < ?n \<Longrightarrow> u32_at d' (12 + 4 * j) = nat (xs ! j)"
    "\<And>a b. m \<le> a \<Longrightarrow> seg a b d' = seg a b d"
    using compact_slots_ok [of 0 xs d] d m by auto
  let ?d = "put_slice 8 12 (le_bytes 4 ?n) (put_slice 4 8 (le_bytes 4 m)
      (put_slice 0 4 (le_bytes 4 (12 + 4 * ?n)) d'))"
  let ?p' = "p\<lparr>sp_data := ?d\<rparr>"
  have "py_set_slice 8 12 v e = put_slice 8 12 v e" "py_set_slice 4 8 v e = put_slice 4 8 v e"
    "py_set_slice 0 4 v e = put_slice 0 4 v e" for v e :: bytes
    using py_set_slice_nat [of 8 12 v e] py_set_slice_nat [of 4 8 v e] py_set_slice_nat [of 0 4 v e]
    by simp_all
  then have cmp: "sp_compact p = (Inr (), ?p')"
    using m by (simp add: sp_compact_def bnd_def sp_wf_num_slots [OF wf] run d'(1) HEADER_SIZE_def
        pack_u_def nat_add_distrib nat_mult_distrib algebra_simps)
  note same = u32_put_same [where off = 8, simplified] u32_put_same [where off = 4, simplified]
    u32_put_same [where off = 0, simplified]
  have hd: "length ?d = sp_size p" "u32_at ?d 0 = 12 + 4 * ?n" "u32_at ?d 4 = m" "u32_at ?d 8 = ?n"
    using m d'(2) by (simp_all add: u32_put_disj same)
  have slot: "u32_at ?d (12 + 4 * j) = nat (xs ! j)" if "j < ?n" for j
    using that m d'(2,3) by (simp add: u32_put_disj)
  have sg: "seg a b ?d = seg a b d" if "m \<le> a" for a b
    using that m d'(2,4) by (simp add: seg_put_disj)
  have ns: "num_slots ?p' = ?n" and fe: "free_end ?p' = m"
    using hd by (simp_all add: num_slots_def free_end_def)
  have cells: "cell_at ?p' j = cell_at p j \<and> slot_ok ?p' j" if j: "j < ?n" for j
  proof (cases "slot_off p j = 0")
    case True
    then have "slot_off ?p' j = 0"
      using slots [OF j] slot [OF j] by (simp add: copied_slot_def slot_off_def)
    with True show ?thesis by (simp add: cell_at_def slot_ok_def)
  next
    case False
    let ?o = "nat (xs ! j)"
    note rb = wf_rec_bytes [OF wf j False]
    let ?L = "cell_len p (slot_off p j)"
    have c: "0 < ?o" "m \<le> ?o" "?o + (4 + ?L) \<le> sp_size p"
      "seg ?o (?o + (4 + ?L)) ?d = rec_bytes p j"
      using slots [OF j] False sg rb(1) by (auto simp: copied_slot_def)
    have off: "slot_off ?p' j = ?o" using slot [OF j] by (simp add: slot_off_def)
    have sub: "seg (?o + a) (?o + b) ?d = seg (slot_off p j + a) (slot_off p j + b) (sp_data p)"
      if "b \<le> 4 + ?L" for a b
    proof -
      have "seg a b (seg ?o (?o + (4 + ?L)) ?d) = seg a b (rec_bytes p j)" using c(4) by simp
      with that show ?thesis by (simp add: seg_seg rec_bytes_def min_def add.assoc)
    qed
    have len: "cell_len ?p' ?o = ?L"
      using sub [of 4 0] by (simp add: cell_len_def u32_at_def)
    have "cell_at ?p' j = cell_at p j"
      using off len c(1) False sub [of "4 + ?L" 4] by (simp add: cell_at_def Let_def add.assoc)
    moreover have "slot_ok ?p' j" using off len c fe by (simp add: slot_ok_def Let_def)
    ultimately show ?thesis ..
  qed
  have eq: "sp_cells ?p' = sp_cells p"
    unfolding sp_cells_def ns by (rule map_cong) (use cells in auto)
  have tot: "m + sum_list (map cell_space (sp_cells p)) = sp_size p"
    using d(2) used_total [of p] by simp
  have "sp_wf ?p'"
    using hd ns fe m cells eq tot by (simp add: sp_wf_def)
  moreover have "sp_free ?p' + (12 + 4 * ?n) + sum_list (map cell_space (sp_cells p)) = sp_size p"
    using ns fe m tot by (simp add: sp_free_def)
  ultimately show ?thesis using cmp eq by auto
qed

subsection \<open>Properties\<close>

text \<open>C34: \<^verbatim>\<open>insert\<close> on a well-formed page appends the record as the next slot and keeps the page well
  formed when it fits (8 bytes of overhead), and raises "Page full" with the page unchanged otherwise.\<close>
theorem page_insert_correct:
  assumes "sp_wf p" "length r < 2 ^ 32"
  shows "if sp_fits p r
    then \<exists>p'. sp_insert r p = (Inr (int (num_slots p)), p') \<and> sp_wf p' \<and> sp_cells p' = sp_cells p @ [Some r]
      \<and> sp_free p' = sp_free p - (8 + length r)
    else sp_insert r p = (Inl PageFull, p)"
  using sp_insert_ok [OF assms(1)] sp_insert_full [OF assms(1)] assms(2) by (cases "sp_fits p r") force+

theorem page_insert_correct_witness:
  "\<exists>p'. sp_insert [1, 2, 3] (sp_empty 40) = (Inr 0, p') \<and> sp_wf p' \<and> sp_cells p' = [Some [1, 2, 3]]"
proof -
  have "sp_wf (sp_empty 40)" "sp_cells (sp_empty 40) = []" "sp_fits (sp_empty 40) [1, 2, 3]" "num_slots (sp_empty 40) = 0"
    using sp_empty_wf [of 40] sp_empty_fields [of 40] by (simp_all add: sp_fits_def)
  with page_insert_correct [of "sp_empty 40" "[1, 2, 3]"] show ?thesis by auto
qed

text \<open>\<^verbatim>\<open>read\<close> of a slot returns its record or \<^verbatim>\<open>None\<close> after a deletion, \<^verbatim>\<open>delete\<close> empties exactly that
  slot and keeps the other records and the page's well-formedness, and both raise beyond the last slot.\<close>
theorem page_read_delete_correct:
  assumes "sp_wf p"
  shows "if i < num_slots p
    then sp_read_record (int i) p = (Inr (sp_cells p ! i), p) \<and>
      (\<exists>p'. sp_delete (int i) p = (Inr (), p') \<and> sp_wf p' \<and> sp_cells p' = (sp_cells p)[i := None])
    else sp_read_record (int i) p = (Inl IndexError, p) \<and> sp_delete (int i) p = (Inl IndexError, p)"
proof (cases "i < num_slots p")
  case True
  then show ?thesis using sp_read_record_ok [OF assms] sp_delete_ok [OF assms] by auto
next
  case False
  then have "sp_delete (int i) p = (Inl IndexError, p)"
    by (simp add: sp_delete_def bnd_def sp_wf_num_slots [OF assms])
  with False show ?thesis using sp_read_record_bad [OF assms] by simp
qed

theorem page_read_delete_correct_witness:
  "sp_read_record 0 (sp_empty 40) = (Inl IndexError, sp_empty 40)"
  using page_read_delete_correct [of "sp_empty 40" 0] sp_empty_wf [of 40] sp_empty_fields [of 40] by simp

text \<open>C35: \<^verbatim>\<open>compact\<close> keeps every slot's number and record and leaves exactly the space of the live
  records and the slot array used: the bytes of deleted records are free again.\<close>
theorem page_compact_correct:
  assumes "sp_wf p"
  shows "\<exists>p'. sp_compact p = (Inr (), p') \<and> sp_wf p' \<and> sp_cells p' = sp_cells p
    \<and> sp_size p' = sp_size p
    \<and> sp_free p' + (12 + 4 * num_slots p) + sum_list (map cell_space (sp_cells p)) = sp_size p"
  using sp_compact_ok [OF assms] by blast

theorem page_compact_correct_witness:
  "\<exists>p1 p2 p3 p'. sp_insert [1, 2, 3] (sp_empty 60) = (Inr 0, p1) \<and> sp_insert [4, 5] p1 = (Inr 1, p2) \<and>
     sp_delete 0 p2 = (Inr (), p3) \<and> sp_free p3 = 27 \<and>
     sp_compact p3 = (Inr (), p') \<and> sp_cells p' = [None, Some [4, 5]] \<and> sp_free p' = 34"
proof -
  have p0: "sp_wf (sp_empty 60)" "sp_cells (sp_empty 60) = []" "sp_free (sp_empty 60) = 48" "num_slots (sp_empty 60) = 0" "sp_size (sp_empty 60) = 60"
    using sp_empty_wf [of 60] sp_empty_fields [of 60] by simp_all
  have slots: "num_slots p = length (sp_cells p)" for p by (simp add: sp_cells_def)
  obtain p1 where p1: "sp_insert [1, 2, 3] (sp_empty 60) = (Inr 0, p1)" "sp_wf p1" "sp_cells p1 = [Some [1, 2, 3]]" "sp_size p1 = 60" "sp_free p1 = 37"
    using sp_insert_ok [OF p0(1), of "[1, 2, 3]"] p0 by (auto simp: sp_fits_def)
  obtain p2 where p2: "sp_insert [4, 5] p1 = (Inr 1, p2)" "sp_wf p2" "sp_cells p2 = [Some [1, 2, 3], Some [4, 5]]" "sp_size p2 = 60" "sp_free p2 = 27"
    using sp_insert_ok [OF p1(2), of "[4, 5]"] p1 slots [of p1] by (auto simp: sp_fits_def)
  obtain p3 where p3: "sp_delete 0 p2 = (Inr (), p3)" "sp_wf p3" "sp_cells p3 = [None, Some [4, 5]]" "sp_size p3 = 60" "free_end p3 = free_end p2"
    using sp_delete_ok [OF p2(2), of 0] p2 slots [of p2] by auto
  have free: "sp_free p3 = 27" using p2(5) p3(5) slots [of p2] slots [of p3] p2(3) p3(3) by (simp add: sp_free_def)
  show ?thesis using page_compact_correct [OF p3(2)] p1(1) p2(1) p3(1,3,4) free slots [of p3] by auto
qed

end
