(* ===== verification/Sorted_Map.thy ===== *)
theory Sorted_Map
  imports Prelude
begin

section \<open>Sorted association lists: the specification of every ordered store\<close>

text \<open>
  A leaf, the B+tree, the engine and a transaction's view of it all promise the same thing: a finite
  map from keys to values that can be listed in key order. The specification is the strictly sorted
  association list, with insertion, deletion, lookup and range. The lemmas say how these act on a
  concatenation (which is how a tree of leaves stores the list), and that a sorted list is determined
  by its map.
\<close>

definition keys_sorted :: "('k::linorder \<times> 'v) list \<Rightarrow> bool" where
  "keys_sorted es \<longleftrightarrow> sorted_wrt (<) (map fst es)"

fun ins_sorted :: "'k::linorder \<Rightarrow> 'v \<Rightarrow> ('k \<times> 'v) list \<Rightarrow> ('k \<times> 'v) list" where
  "ins_sorted k v [] = [(k, v)]"
| "ins_sorted k v ((k', v') # es) =
     (if k < k' then (k, v) # (k', v') # es
      else if k = k' then (k, v) # es
      else (k', v') # ins_sorted k v es)"

definition del_sorted :: "'k::linorder \<Rightarrow> ('k \<times> 'v) list \<Rightarrow> ('k \<times> 'v) list" where
  "del_sorted k es = filter (\<lambda>e. fst e \<noteq> k) es"

definition range_sorted :: "'k::linorder \<Rightarrow> 'k \<Rightarrow> ('k \<times> 'v) list \<Rightarrow> ('k \<times> 'v) list" where
  "range_sorted lo hi es = filter (\<lambda>e. lo \<le> fst e \<and> fst e \<le> hi) es"

lemma keys_sorted_Nil [simp]: "keys_sorted []"
  by (simp add: keys_sorted_def)

lemma keys_sorted_Cons [simp]:
  "keys_sorted (e # es) \<longleftrightarrow> (\<forall>x \<in> fst ` set es. fst e < x) \<and> keys_sorted es"
  by (auto simp: keys_sorted_def)

lemma keys_sorted_append:
  "keys_sorted (xs @ ys) \<longleftrightarrow>
     keys_sorted xs \<and> keys_sorted ys \<and> (\<forall>x \<in> fst ` set xs. \<forall>y \<in> fst ` set ys. x < y)"
  by (auto simp: keys_sorted_def sorted_wrt_append)

lemma keys_sorted_distinct: "keys_sorted es \<Longrightarrow> distinct (map fst es)"
  by (induction es) auto

lemma keys_sorted_sorted: "keys_sorted es \<Longrightarrow> sorted (map fst es)"
  unfolding keys_sorted_def by (rule sorted_wrt_mono_rel [of _ "(<)"]) auto

lemma keys_sorted_take: "keys_sorted es \<Longrightarrow> keys_sorted (take n es)"
  by (simp add: keys_sorted_def take_map [symmetric] sorted_wrt_take)

lemma keys_sorted_drop: "keys_sorted es \<Longrightarrow> keys_sorted (drop n es)"
  by (simp add: keys_sorted_def drop_map [symmetric] sorted_wrt_drop)

lemma keys_sorted_filter: "keys_sorted es \<Longrightarrow> keys_sorted (filter P es)"
  by (induction es) auto

lemma keys_sorted_nth_less:
  "keys_sorted es \<Longrightarrow> i < j \<Longrightarrow> j < length es \<Longrightarrow> fst (es ! i) < fst (es ! j)"
  by (simp add: keys_sorted_def sorted_wrt_iff_nth_less)

lemma keys_sorted_nth_le:
  "keys_sorted es \<Longrightarrow> i \<le> j \<Longrightarrow> j < length es \<Longrightarrow> fst (es ! i) \<le> fst (es ! j)"
  using keys_sorted_nth_less [of es i j] by (cases "i = j") auto

subsection \<open>Insertion\<close>

lemma fst_ins_sorted [simp]: "fst ` set (ins_sorted k v es) = insert k (fst ` set es)"
  by (induction k v es rule: ins_sorted.induct) auto

lemma set_ins_sorted: "set (ins_sorted k v es) \<subseteq> insert (k, v) (set es)"
  by (induction k v es rule: ins_sorted.induct) auto

lemma keys_sorted_ins [simp]: "keys_sorted es \<Longrightarrow> keys_sorted (ins_sorted k v es)"
  by (induction k v es rule: ins_sorted.induct) auto

lemma map_of_ins_sorted [simp]:
  "keys_sorted es \<Longrightarrow> map_of (ins_sorted k v es) = (map_of es)(k \<mapsto> v)"
proof (induction k v es rule: ins_sorted.induct)
  case (1 k v)
  then show ?case by simp
next
  case (2 k v k' v' es)
  then show ?case by (auto simp: fun_eq_iff)
qed

lemma length_ins_sorted:
  "keys_sorted es \<Longrightarrow>
     length (ins_sorted k v es) = (if k \<in> fst ` set es then length es else Suc (length es))"
  by (induction k v es rule: ins_sorted.induct) force+

lemma length_ins_sorted_bounds:
  "length es \<le> length (ins_sorted k v es)" "length (ins_sorted k v es) \<le> Suc (length es)"
  by (induction k v es rule: ins_sorted.induct) auto

lemma ins_sorted_not_Nil [simp]: "ins_sorted k v es \<noteq> []"
  by (induction k v es rule: ins_sorted.induct) auto

lemma ins_sorted_append_right:
  "\<forall>x \<in> fst ` set xs. x < k \<Longrightarrow> ins_sorted k v (xs @ ys) = xs @ ins_sorted k v ys"
  by (induction xs) auto

lemma ins_sorted_append_left:
  "\<forall>y \<in> fst ` set ys. k < y \<Longrightarrow> ins_sorted k v (xs @ ys) = ins_sorted k v xs @ ys"
proof (induction xs)
  case Nil
  then show ?case by (cases ys) auto
qed auto

lemma ins_sorted_present:
  assumes "keys_sorted es" "i < length es" "fst (es ! i) = k"
  shows "es[i := (k, v)] = ins_sorted k v es"
  using assms
proof (induction es arbitrary: i)
  case Nil
  then show ?case by simp
next
  case (Cons e es)
  show ?case
  proof (cases i)
    case 0
    with Cons.prems show ?thesis by (cases e) auto
  next
    case (Suc j)
    with Cons.prems have "fst e < k" by force
    with Cons Suc show ?thesis by (cases e) auto
  qed
qed

lemma ins_sorted_front: "\<forall>x \<in> fst ` set es. k < x \<Longrightarrow> ins_sorted k v es = (k, v) # es"
  by (cases es) auto

lemma sort_key_append_one:
  fixes es :: "('k::linorder \<times> 'v) list"
  assumes "keys_sorted es" "k \<notin> fst ` set es"
  shows "sort_key fst (es @ [(k, v)]) = ins_sorted k v es"
  using assms
proof (induction es)
  case Nil
  then show ?case by simp
next
  case (Cons e es)
  obtain a b where e: "e = (a, b)" by (cases e)
  have IH: "sort_key fst (es @ [(k, v)]) = ins_sorted k v es"
    using Cons by simp
  have front: "insort_key fst e es = e # es"
    using Cons.prems by (intro insort_is_Cons) auto
  show ?case
  proof (cases "k < a")
    case True
    have "\<forall>x \<in> fst ` set es. k < x"
      using Cons.prems True e by fastforce
    moreover have "\<not> a \<le> k" using True by simp
    ultimately show ?thesis using True e front IH by (simp add: ins_sorted_front)
  next
    case False
    then have ak: "a < k" using Cons.prems e by auto
    have "insort_key fst e (ins_sorted k v es) = e # ins_sorted k v es"
      using Cons.prems ak e set_ins_sorted [of k v es] by (intro insort_is_Cons) force
    moreover have "\<not> k < a" "k \<noteq> a" using ak by auto
    ultimately show ?thesis using e IH by simp
  qed
qed

subsection \<open>Deletion and ranges\<close>

lemma keys_sorted_del [simp]: "keys_sorted es \<Longrightarrow> keys_sorted (del_sorted k es)"
  by (simp add: del_sorted_def keys_sorted_filter)

lemma map_of_del_sorted [simp]: "map_of (del_sorted k es) = (map_of es)(k := None)"
  by (induction es) (auto simp: del_sorted_def fun_eq_iff)

lemma del_sorted_append: "del_sorted k (xs @ ys) = del_sorted k xs @ del_sorted k ys"
  by (simp add: del_sorted_def)

lemma del_sorted_absent [simp]: "k \<notin> fst ` set es \<Longrightarrow> del_sorted k es = es"
  by (auto simp: del_sorted_def intro: filter_True)

lemma fst_del_sorted [simp]: "fst ` set (del_sorted k es) = fst ` set es - {k}"
  by (auto simp: del_sorted_def)

lemma length_del_sorted:
  "keys_sorted es \<Longrightarrow>
     length (del_sorted k es) = (if k \<in> fst ` set es then length es - 1 else length es)"
proof (induction es)
  case (Cons e es)
  show ?case
  proof (cases "fst e = k")
    case True
    with Cons.prems have "k \<notin> fst ` set es" by auto
    with True show ?thesis by (simp add: del_sorted_def) (metis del_sorted_absent del_sorted_def)
  next
    case False
    moreover have "k \<in> fst ` set es \<Longrightarrow> length es \<noteq> 0" by auto
    ultimately show ?thesis using Cons by (auto simp: del_sorted_def)
  qed
qed (simp add: del_sorted_def)

lemma range_sorted_append [simp]:
  "range_sorted lo hi (xs @ ys) = range_sorted lo hi xs @ range_sorted lo hi ys"
  by (simp add: range_sorted_def)

lemma keys_sorted_range [simp]: "keys_sorted es \<Longrightarrow> keys_sorted (range_sorted lo hi es)"
  by (simp add: range_sorted_def keys_sorted_filter)

lemma map_of_range_sorted:
  "map_of (range_sorted lo hi es) k = (if lo \<le> k \<and> k \<le> hi then map_of es k else None)"
  by (induction es) (auto simp: range_sorted_def)

lemma range_sorted_above [simp]: "\<forall>x \<in> fst ` set es. hi < x \<Longrightarrow> range_sorted lo hi es = []"
  by (force simp: range_sorted_def filter_empty_conv)

lemma range_sorted_below [simp]: "\<forall>x \<in> fst ` set es. x < lo \<Longrightarrow> range_sorted lo hi es = []"
  by (force simp: range_sorted_def filter_empty_conv)

subsection \<open>Lookup\<close>

lemma map_of_absent: "k \<notin> fst ` set es \<Longrightarrow> map_of es k = None"
  by (simp add: map_of_eq_None_iff)

lemma map_of_append_left: "k \<notin> fst ` set ys \<Longrightarrow> map_of (xs @ ys) k = map_of xs k"
  by (simp add: map_add_def map_of_absent split: option.split)

lemma map_of_append_right: "k \<notin> fst ` set xs \<Longrightarrow> map_of (xs @ ys) k = map_of ys k"
  by (simp add: map_add_def map_of_absent split: option.split)

lemma keys_sorted_map_of_nth:
  "keys_sorted es \<Longrightarrow> i < length es \<Longrightarrow> map_of es (fst (es ! i)) = Some (snd (es ! i))"
  by (metis keys_sorted_distinct map_of_is_SomeI nth_mem prod.collapse)

text \<open>A sorted list is determined by its map.\<close>

lemma keys_sorted_unique:
  assumes "keys_sorted xs" "keys_sorted ys" "map_of xs = map_of ys"
  shows "xs = ys"
  using assms
proof (induction xs arbitrary: ys)
  case Nil
  then show ?case by (cases ys) (auto simp: fun_eq_iff split: if_splits)
next
  case (Cons x xs)
  obtain k v where x: "x = (k, v)" by (cases x)
  show ?case
  proof (cases ys)
    case Nil
    with Cons.prems x show ?thesis by (auto simp: fun_eq_iff split: if_splits)
  next
    case (Cons y ys')
    obtain k' v' where y: "y = (k', v')" by (cases y)
    have in_ys: "z \<in> fst ` set (x # xs) \<longleftrightarrow> z \<in> fst ` set ys" for z
      using Cons.prems(3) by (metis map_of_eq_None_iff)
    have "k \<le> k'" using in_ys [of k'] Cons.prems(1) x y Cons by auto
    moreover have "k' \<le> k" using in_ys [of k] Cons.prems(2) x y Cons by auto
    ultimately have k: "k = k'" by simp
    have "k \<notin> fst ` set xs" "k \<notin> fst ` set ys'"
      using Cons.prems(1,2) x y k Cons by auto
    then have n: "map_of xs k = None" "map_of ys' k = None"
      by (simp_all add: map_of_absent)
    have e: "(map_of xs)(k \<mapsto> v) = (map_of ys')(k \<mapsto> v')"
      using Cons.prems(3) x y k Cons by (simp add: fun_upd_def)
    then have "v = v'" by (metis fun_upd_same option.inject)
    moreover have "map_of xs = map_of ys'"
      using e n by (metis fun_upd_triv fun_upd_upd)
    then have "xs = ys'"
      using Cons.IH Cons.prems(1,2) x y Cons by simp
    ultimately show ?thesis using x y k Cons by simp
  qed
qed

subsection \<open>The interface of an ordered store\<close>

text \<open>
  The contract a client of a store relies on: an invariant, the contents as a sorted list, and what
  the four operations do to it when they succeed. \<open>ok\<close> is the provider's condition under which an
  update is guaranteed to succeed.
\<close>

locale ordered_store =
  fixes inv :: "'s \<Rightarrow> bool"
    and contents :: "'s \<Rightarrow> ('k::linorder \<times> 'v) list"
    and lookup :: "'k \<Rightarrow> 's \<Rightarrow> 'v option"
    and update :: "'k \<Rightarrow> 'v \<Rightarrow> 's \<Rightarrow> 's"
    and remove :: "'k \<Rightarrow> 's \<Rightarrow> 's"
    and ok :: "'k \<Rightarrow> 'v \<Rightarrow> 's \<Rightarrow> bool"
  assumes sorted: "inv s \<Longrightarrow> keys_sorted (contents s)"
    and lookup: "inv s \<Longrightarrow> lookup k s = map_of (contents s) k"
    and update: "inv s \<Longrightarrow> ok k v s \<Longrightarrow> inv (update k v s) \<and> contents (update k v s) = ins_sorted k v (contents s)"
    and remove: "inv s \<Longrightarrow> inv (remove k s) \<and> contents (remove k s) = del_sorted k (contents s)"
begin

lemma lookup_update_same: "inv s \<Longrightarrow> ok k v s \<Longrightarrow> lookup k (update k v s) = Some v"
  using sorted update lookup by simp

lemma lookup_update_other: "inv s \<Longrightarrow> ok k v s \<Longrightarrow> j \<noteq> k \<Longrightarrow> lookup j (update k v s) = lookup j s"
  using sorted update lookup by simp

lemma lookup_remove: "inv s \<Longrightarrow> lookup j (remove k s) = (if j = k then None else lookup j s)"
  using remove lookup by simp

lemma update_update:
  "inv s \<Longrightarrow> ok k v s \<Longrightarrow> ok k w (update k v s) \<Longrightarrow> ok k w s \<Longrightarrow>
     contents (update k w (update k v s)) = contents (update k w s)"
  using sorted update by (intro keys_sorted_unique) simp_all

lemma remove_update:
  "inv s \<Longrightarrow> ok k v s \<Longrightarrow> contents (remove k (update k v s)) = contents (remove k s)"
  using sorted update remove by (intro keys_sorted_unique) simp_all

end

end
