(* ===== verification/BPlus_Page.thy ===== *)
theory BPlus_Page
  imports Slotted_Page Sorted_Map
begin

section \<open>Leaf and index pages (\<^verbatim>\<open>src/bplus_page.py\<close>)\<close>

text \<open>
  A leaf keeps its sorted cells \<^verbatim>\<open>[key:4][record]\<close> in a slotted page of 4083 bytes, an index page
  keeps two Python lists. The specification of a leaf is its entry list (\<open>lf_es\<close>); the lemmas
  give every method's effect on it, on the error branches too, and the round trip of both on-disk
  formats.
\<close>

subsection \<open>Constants\<close>

datatype page_type = INDEX | LEAF

fun page_type_byte :: "page_type \<Rightarrow> 8 word" where
  "page_type_byte INDEX = 0"
| "page_type_byte LEAF = 1"

definition PAGE_SIZE :: nat where "PAGE_SIZE = 4096"
definition PAGE_LSN_SIZE :: nat where "PAGE_LSN_SIZE = 8"
definition LEAF_HEADER_SIZE :: nat where "LEAF_HEADER_SIZE = PAGE_LSN_SIZE + 1 + 4"
definition LEAF_BODY_SIZE :: nat where "LEAF_BODY_SIZE = PAGE_SIZE - LEAF_HEADER_SIZE"
definition NO_NEXT :: nat where "NO_NEXT = 0xFFFFFFFF"

lemmas page_consts = PAGE_SIZE_def PAGE_LSN_SIZE_def LEAF_HEADER_SIZE_def LEAF_BODY_SIZE_def NO_NEXT_def

text \<open>\<^verbatim>\<open>struct.pack_into(fmt, buf, off, v)\<close>, \<^verbatim>\<open>buf[i] = b\<close> and \<^verbatim>\<open>xs[i]\<close>.\<close>

definition pack_into :: "nat \<Rightarrow> bytes \<Rightarrow> nat \<Rightarrow> int \<Rightarrow> bytes res" where
  "pack_into k buf off v =
     (if length buf < off + k then Inl StructError
      else bind_res (pack_u k v) (\<lambda>b. Inr (put_slice off (off + k) b buf)))"

definition set_byte :: "bytes \<Rightarrow> nat \<Rightarrow> 8 word \<Rightarrow> bytes res" where
  "set_byte buf i b = (if i < length buf then Inr (buf[i := b]) else Inl IndexError)"

definition py_nth :: "'a list \<Rightarrow> int \<Rightarrow> 'a res" where
  "py_nth xs i = (let j = (if i < 0 then int (length xs) + i else i) in
     if 0 \<le> j \<and> j < int (length xs) then Inr (xs ! nat j) else Inl IndexError)"

definition insert_nth :: "nat \<Rightarrow> 'a \<Rightarrow> 'a list \<Rightarrow> 'a list" where
  "insert_nth i x xs = take i xs @ x # drop i xs"

lemma py_nth_nat [simp]: "i < length xs \<Longrightarrow> py_nth xs (int i) = Inr (xs ! i)"
  by (simp add: py_nth_def)

lemma py_nth_last [simp]: "xs \<noteq> [] \<Longrightarrow> py_nth xs (- 1) = Inr (last xs)"
proof -
  assume "xs \<noteq> []"
  then have "nat (int (length xs) - 1) = length xs - 1" and "0 < length xs"
    by (simp_all add: nat_diff_distrib')
  then show "py_nth xs (- 1) = Inr (last xs)"
    by (simp add: py_nth_def last_conv_nth)
qed

subsection \<open>LeafPage\<close>

record leaf_page =
  lf_id :: nat
  lf_lsn :: nat
  lf_next :: "nat option"
  lf_max_keys :: nat
  lf_page :: slotted_page

definition leaf_init :: "nat \<Rightarrow> nat \<Rightarrow> leaf_page res" where
  "leaf_init page_id max_keys =
     bind_res (sp_init LEAF_BODY_SIZE) (\<lambda>b.
     Inr \<lparr>lf_id = page_id, lf_lsn = 0, lf_next = None, lf_max_keys = max_keys, lf_page = b\<rparr>)"

definition leaf_to_bytes :: "leaf_page \<Rightarrow> bytes res" where
  "leaf_to_bytes l =
     (let buf = replicate PAGE_SIZE 0 in
      bind_res (pack_into 8 buf 0 (int (lf_lsn l))) (\<lambda>buf.
      bind_res (set_byte buf PAGE_LSN_SIZE (page_type_byte LEAF)) (\<lambda>buf.
      let nxt = (case lf_next l of None \<Rightarrow> NO_NEXT | Some n \<Rightarrow> n) in
      bind_res (pack_into 4 buf (PAGE_LSN_SIZE + 1) (int nxt)) (\<lambda>buf.
      Inr (take LEAF_HEADER_SIZE buf @ sp_data (lf_page l))))))"

definition leaf_from_bytes :: "nat \<Rightarrow> bytes \<Rightarrow> nat \<Rightarrow> leaf_page res" where
  "leaf_from_bytes page_id data max_keys =
     bind_res (leaf_init page_id max_keys) (\<lambda>leaf.
     bind_res (unpack_from 8 data 0) (\<lambda>lsn.
     bind_res (unpack_from 4 data (PAGE_LSN_SIZE + 1)) (\<lambda>nxt.
     Inr (leaf\<lparr>lf_lsn := nat lsn,
               lf_next := (if nxt = int NO_NEXT then None else Some (nat nxt)),
               lf_page := (lf_page leaf)\<lparr>sp_data :=
                 seg LEAF_HEADER_SIZE (LEAF_HEADER_SIZE + LEAF_BODY_SIZE) data\<rparr>\<rparr>))))"

text \<open>\<^verbatim>\<open>_entries\<close>: the loop over the slots \<open>i, i+1, \<dots>\<close>, of which \<open>n\<close> are left. It only reads.\<close>

fun entries_loop :: "nat \<Rightarrow> nat \<Rightarrow> slotted_page \<Rightarrow> (int \<times> bytes) list res" where
  "entries_loop 0 i p = Inr []"
| "entries_loop (Suc n) i p =
     bind_res (fst (sp_read_record (int i) p)) (\<lambda>r.
     case r of
       None \<Rightarrow> entries_loop n (Suc i) p
     | Some raw \<Rightarrow>
         bind_res (unpack_u 4 (take 4 raw)) (\<lambda>key.
         bind_res (entries_loop n (Suc i) p) (\<lambda>rest. Inr ((key, drop 4 raw) # rest))))"

definition leaf_num_keys :: "leaf_page \<Rightarrow> int res" where
  "leaf_num_keys l = fst (get_num_slots (lf_page l))"

definition leaf_entries :: "leaf_page \<Rightarrow> (int \<times> bytes) list res" where
  "leaf_entries l = bind_res (leaf_num_keys l) (\<lambda>n. entries_loop (nat n) 0 (lf_page l))"

definition on_page :: "(slotted_page, 'a) act \<Rightarrow> (leaf_page, 'a) act" where
  "on_page m l = (case m (lf_page l) of (r, p) \<Rightarrow> (r, l\<lparr>lf_page := p\<rparr>))"

fun rebuild_loop :: "(int \<times> bytes) list \<Rightarrow> (leaf_page, unit) act" where
  "rebuild_loop [] = ret ()"
| "rebuild_loop ((key, rec) # es) =
     bnd (lift_res (pack_u 4 key)) (\<lambda>kb.
     bnd (on_page (sp_insert (kb @ rec))) (\<lambda>_. rebuild_loop es))"

definition leaf_rebuild :: "(int \<times> bytes) list \<Rightarrow> (leaf_page, unit) act" where
  "leaf_rebuild es =
     bnd (lift_res (sp_init LEAF_BODY_SIZE)) (\<lambda>b.
     bnd (modify (\<lambda>l. l\<lparr>lf_page := b\<rparr>)) (\<lambda>_. rebuild_loop es))"

definition leaf_is_full :: "leaf_page \<Rightarrow> bool res" where
  "leaf_is_full l = bind_res (leaf_num_keys l) (\<lambda>n. Inr (n > int (lf_max_keys l)))"

text \<open>The binary search of \<^verbatim>\<open>search\<close>.\<close>

function bsearch :: "(int \<times> bytes) list \<Rightarrow> int \<Rightarrow> int \<Rightarrow> int \<Rightarrow> bytes option res" where
  "bsearch es key lo hi =
     (if lo \<le> hi then
        let mid = (lo + hi) div 2 in
        bind_res (py_nth es mid) (\<lambda>(k, rec).
          if k = key then Inr (Some rec)
          else if k < key then bsearch es key (mid + 1) hi
          else bsearch es key lo (mid - 1))
      else Inr None)"
  by pat_completeness auto
termination
  by (relation "measure (\<lambda>(es, key, lo, hi). nat (hi - lo + 1))") auto

declare bsearch.simps [simp del]

definition leaf_search :: "leaf_page \<Rightarrow> int \<Rightarrow> bytes option res" where
  "leaf_search l key =
     bind_res (leaf_entries l) (\<lambda>es. bsearch es key 0 (int (length es) - 1))"

fun find_idx :: "('a \<Rightarrow> bool) \<Rightarrow> 'a list \<Rightarrow> nat option" where
  "find_idx P [] = None"
| "find_idx P (x # xs) = (if P x then Some 0 else map_option Suc (find_idx P xs))"

definition leaf_insert :: "int \<Rightarrow> bytes \<Rightarrow> (leaf_page, unit) act" where
  "leaf_insert key rec =
     bnd (\<lambda>l. (leaf_entries l, l)) (\<lambda>es.
     case find_idx (\<lambda>(k, _). k = key) es of
       Some i \<Rightarrow> leaf_rebuild (es[i := (key, rec)])
     | None \<Rightarrow> leaf_rebuild (sort_key fst (es @ [(key, rec)])))"

definition leaf_delete_key :: "int \<Rightarrow> (leaf_page, bool) act" where
  "leaf_delete_key key =
     bnd (\<lambda>l. (leaf_entries l, l)) (\<lambda>es.
     let new_entries = filter (\<lambda>(k, v). k \<noteq> key) es in
     if length new_entries = length es then ret False
     else bnd (leaf_rebuild new_entries) (\<lambda>_. ret True))"

text \<open>\<^verbatim>\<open>split(self, right)\<close> acts on the pair of pages.\<close>

definition on_fst :: "('s, 'a) act \<Rightarrow> ('s \<times> 't, 'a) act" where
  "on_fst m st = (case m (fst st) of (r, s') \<Rightarrow> (r, (s', snd st)))"

definition on_snd :: "('t, 'a) act \<Rightarrow> ('s \<times> 't, 'a) act" where
  "on_snd m st = (case m (snd st) of (r, t') \<Rightarrow> (r, (fst st, t')))"

definition leaf_split :: "(leaf_page \<times> leaf_page, int) act" where
  "leaf_split =
     bnd (\<lambda>st. (leaf_entries (fst st), st)) (\<lambda>es.
     let mid = length es div 2 in
     bnd (on_fst (leaf_rebuild (take mid es))) (\<lambda>_.
     bnd (on_snd (leaf_rebuild (drop mid es))) (\<lambda>_.
     bnd (modify (\<lambda>(l, r). (l\<lparr>lf_next := Some (lf_id r)\<rparr>, r\<lparr>lf_next := lf_next l\<rparr>))) (\<lambda>_.
     bnd (lift_res (py_nth es (int mid))) (\<lambda>e. ret (fst e))))))"

subsection \<open>IndexPage\<close>

record index_page =
  ix_id :: nat
  ix_lsn :: nat
  ix_max_keys :: nat
  ix_keys :: "int list"
  ix_children :: "nat list"

definition index_init :: "nat \<Rightarrow> nat \<Rightarrow> index_page" where
  "index_init page_id max_keys =
     \<lparr>ix_id = page_id, ix_lsn = 0, ix_max_keys = max_keys, ix_keys = [], ix_children = []\<rparr>"

fun pack_loop :: "bytes \<Rightarrow> nat \<Rightarrow> int list \<Rightarrow> (bytes \<times> nat) res" where
  "pack_loop buf off [] = Inr (buf, off)"
| "pack_loop buf off (v # vs) =
     bind_res (pack_into 4 buf off v) (\<lambda>buf. pack_loop buf (off + 4) vs)"

definition index_to_bytes :: "index_page \<Rightarrow> bytes res" where
  "index_to_bytes p =
     (let buf = replicate PAGE_SIZE 0; n = length (ix_keys p) in
      bind_res (pack_into 8 buf 0 (int (ix_lsn p))) (\<lambda>buf.
      bind_res (set_byte buf PAGE_LSN_SIZE (page_type_byte INDEX)) (\<lambda>buf.
      bind_res (pack_into 4 buf (PAGE_LSN_SIZE + 1) (int n)) (\<lambda>buf.
      bind_res (pack_loop buf (PAGE_LSN_SIZE + 5) (ix_keys p)) (\<lambda>(buf, off).
      bind_res (pack_loop buf off (map int (ix_children p))) (\<lambda>(buf, off).
      Inr buf))))))"

text \<open>\<^verbatim>\<open>struct.unpack_from(f'<{n}I', data, off)\<close>\<close>

fun unpack_u32s :: "nat \<Rightarrow> bytes \<Rightarrow> nat \<Rightarrow> int list res" where
  "unpack_u32s 0 data off = Inr []"
| "unpack_u32s (Suc n) data off =
     bind_res (unpack_from 4 data off) (\<lambda>v.
     bind_res (unpack_u32s n data (off + 4)) (\<lambda>vs. Inr (v # vs)))"

definition index_from_bytes :: "nat \<Rightarrow> bytes \<Rightarrow> nat \<Rightarrow> index_page res" where
  "index_from_bytes page_id data max_keys =
     bind_res (unpack_from 8 data 0) (\<lambda>lsn.
     bind_res (unpack_from 4 data (PAGE_LSN_SIZE + 1)) (\<lambda>n.
     let page = (index_init page_id max_keys)\<lparr>ix_lsn := nat lsn\<rparr> in
     if n > 0 then
       let off = PAGE_LSN_SIZE + 5 in
       bind_res (unpack_u32s (nat n) data off) (\<lambda>keys.
       bind_res (unpack_u32s (nat n + 1) data (off + nat n * 4)) (\<lambda>children.
       Inr (page\<lparr>ix_keys := keys, ix_children := map nat children\<rparr>)))
     else Inr (page\<lparr>ix_keys := [], ix_children := []\<rparr>)))"

definition index_num_keys :: "index_page \<Rightarrow> nat" where
  "index_num_keys p = length (ix_keys p)"

definition index_is_full :: "index_page \<Rightarrow> bool" where
  "index_is_full p \<longleftrightarrow> index_num_keys p > ix_max_keys p"

fun find_child_loop :: "nat \<Rightarrow> int list \<Rightarrow> nat list \<Rightarrow> int \<Rightarrow> nat res" where
  "find_child_loop i [] children key = py_nth children (- 1)"
| "find_child_loop i (k # ks) children key =
     (if key < k then py_nth children (int i) else find_child_loop (Suc i) ks children key)"

definition find_child :: "index_page \<Rightarrow> int \<Rightarrow> nat res" where
  "find_child p key = find_child_loop 0 (ix_keys p) (ix_children p) key"

text \<open>\<^verbatim>\<open>insert_key\<close>: the loop is the length of the prefix of keys below the new key.\<close>

fun insert_pos :: "int list \<Rightarrow> int \<Rightarrow> nat" where
  "insert_pos [] key = 0"
| "insert_pos (k # ks) key = (if k < key then Suc (insert_pos ks key) else 0)"

definition insert_key :: "int \<Rightarrow> nat \<Rightarrow> index_page \<Rightarrow> index_page" where
  "insert_key key right_child_id p =
     (let i = insert_pos (ix_keys p) key in
      p\<lparr>ix_keys := insert_nth i key (ix_keys p),
        ix_children := insert_nth (i + 1) right_child_id (ix_children p)\<rparr>)"

definition index_split :: "(index_page \<times> index_page, int) act" where
  "index_split =
     bnd (\<lambda>st. (py_nth (ix_keys (fst st)) (int (length (ix_keys (fst st)) div 2)), st)) (\<lambda>push_up_key.
     bnd (modify (\<lambda>(l, r).
       let mid = length (ix_keys l) div 2 in
       (l\<lparr>ix_keys := take mid (ix_keys l), ix_children := take (mid + 1) (ix_children l)\<rparr>,
        r\<lparr>ix_keys := drop (mid + 1) (ix_keys l), ix_children := drop (mid + 1) (ix_children l)\<rparr>)))
     (\<lambda>_. ret push_up_key))"

subsection \<open>Leaves: the entry list\<close>

text \<open>
  A cell holds its key in four bytes before the record; the page has room for the entries whose cells
  take at most 4071 bytes, 12 bytes of overhead each (slot, length, key). \<open>body_of\<close> is the page
  that \<^verbatim>\<open>_rebuild\<close> makes.
\<close>

definition enc_cell :: "int \<times> bytes \<Rightarrow> bytes" where
  "enc_cell e = le_bytes 4 (nat (fst e)) @ snd e"

definition dec_cell :: "bytes \<Rightarrow> int \<times> bytes" where
  "dec_cell raw = (int (le_nat (take 4 raw)), drop 4 raw)"

definition LEAF_ROOM :: nat where "LEAF_ROOM = LEAF_BODY_SIZE - 12"

definition es_size :: "(int \<times> bytes) list \<Rightarrow> nat" where
  "es_size es = (\<Sum>e\<leftarrow>es. 12 + length (snd e))"

definition key_ok :: "int \<Rightarrow> bool" where
  "key_ok k \<longleftrightarrow> 0 \<le> k \<and> k < 2 ^ 32"

definition es_ok :: "(int \<times> bytes) list \<Rightarrow> bool" where
  "es_ok es \<longleftrightarrow> (\<forall>k \<in> fst ` set es. key_ok k) \<and> es_size es \<le> LEAF_ROOM"

definition leaf_wf :: "leaf_page \<Rightarrow> bool" where
  "leaf_wf l \<longleftrightarrow> sp_wf (lf_page l) \<and> sp_size (lf_page l) = LEAF_BODY_SIZE
     \<and> (\<forall>c \<in> set (sp_cells (lf_page l)). \<exists>raw. c = Some raw \<and> 4 \<le> length raw)"

definition lf_es :: "leaf_page \<Rightarrow> (int \<times> bytes) list" where
  "lf_es l = map (dec_cell \<circ> the) (sp_cells (lf_page l))"

definition body_of :: "(int \<times> bytes) list \<Rightarrow> slotted_page" where
  "body_of es = snd (sp_insert_all (map enc_cell es) (sp_empty LEAF_BODY_SIZE))"

lemma dec_enc_cell [simp]: "key_ok (fst e) \<Longrightarrow> dec_cell (enc_cell e) = e"
  by (cases e) (auto simp: dec_cell_def enc_cell_def key_ok_def le_nat_le_bytes nat_less_iff)

lemma length_enc_cell [simp]: "length (enc_cell e) = 4 + length (snd e)"
  by (simp add: enc_cell_def)

lemma es_size_simps [simp]:
  "es_size [] = 0" "es_size (e # es) = 12 + length (snd e) + es_size es"
  "es_size (xs @ ys) = es_size xs + es_size ys"
  by (simp_all add: es_size_def)

lemma es_ok_Nil [simp]: "es_ok []"
  by (simp add: es_ok_def)

lemma es_ok_append_left: "es_ok (xs @ ys) \<Longrightarrow> es_ok xs"
  and es_ok_append_right: "es_ok (xs @ ys) \<Longrightarrow> es_ok ys"
  by (auto simp: es_ok_def)

lemma es_ok_take: "es_ok es \<Longrightarrow> es_ok (take n es)"
  by (metis append_take_drop_id es_ok_append_left)

lemma es_ok_drop: "es_ok es \<Longrightarrow> es_ok (drop n es)"
  by (metis append_take_drop_id es_ok_append_right)

lemma es_size_filter: "es_size (filter P es) \<le> es_size es"
  by (induction es) auto

lemma es_ok_filter: "es_ok es \<Longrightarrow> es_ok (filter P es)"
  using es_size_filter [of P es] by (auto simp: es_ok_def)

lemma es_ok_del [simp]: "es_ok es \<Longrightarrow> es_ok (del_sorted k es)"
  by (simp add: del_sorted_def es_ok_filter)

lemma es_size_bound: "\<forall>e \<in> set es. length (snd e) \<le> R \<Longrightarrow> es_size es \<le> length es * (12 + R)"
  by (induction es) auto

lemma room_consts: "LEAF_ROOM = 4071" "LEAF_BODY_SIZE = 4083"
  by (simp_all add: LEAF_ROOM_def page_consts)

lemma body_sum: "(\<Sum>r\<leftarrow>map enc_cell es. 8 + length r) = es_size es"
  by (induction es) auto

lemma body_of_facts:
  assumes "es_ok es"
  shows "sp_wf (body_of es)" "sp_cells (body_of es) = map (Some \<circ> enc_cell) es"
    "sp_size (body_of es) = LEAF_BODY_SIZE" "sp_free (body_of es) = LEAF_ROOM - es_size es"
    "sp_insert_all (map enc_cell es) (sp_empty LEAF_BODY_SIZE) = (Inr (), body_of es)"
proof -
  have c: "12 \<le> LEAF_BODY_SIZE" "LEAF_BODY_SIZE < 2 ^ 32" by (simp_all add: page_consts)
  have fit: "(\<Sum>r\<leftarrow>map enc_cell es. 8 + length r) \<le> sp_free (sp_empty LEAF_BODY_SIZE)"
    using assms unfolding body_sum sp_empty_wf (3) [OF c] es_ok_def LEAF_ROOM_def by simp
  obtain p' where p': "sp_insert_all (map enc_cell es) (sp_empty LEAF_BODY_SIZE) = (Inr (), p')" "sp_wf p'"
    "sp_cells p' = sp_cells (sp_empty LEAF_BODY_SIZE) @ map Some (map enc_cell es)"
    "sp_size p' = sp_size (sp_empty LEAF_BODY_SIZE)"
    "sp_free p' = sp_free (sp_empty LEAF_BODY_SIZE) - (\<Sum>r\<leftarrow>map enc_cell es. 8 + length r)"
    using sp_insert_all_ok [OF sp_empty_wf(1) [OF c] fit] by blast
  have "body_of es = p'" by (simp add: body_of_def p'(1))
  with p' show "sp_wf (body_of es)" "sp_cells (body_of es) = map (Some \<circ> enc_cell) es"
    "sp_size (body_of es) = LEAF_BODY_SIZE" "sp_free (body_of es) = LEAF_ROOM - es_size es"
    "sp_insert_all (map enc_cell es) (sp_empty LEAF_BODY_SIZE) = (Inr (), body_of es)"
    using sp_empty_wf [OF c] sp_empty_fields [OF c] unfolding body_sum
    by (simp_all add: LEAF_ROOM_def)
qed

lemma leaf_wf_body [simp]: "es_ok es \<Longrightarrow> leaf_wf (l\<lparr>lf_page := body_of es\<rparr>)"
  by (auto simp: leaf_wf_def body_of_facts)

lemma lf_es_body [simp]: "es_ok es \<Longrightarrow> lf_es (l\<lparr>lf_page := body_of es\<rparr>) = es"
  by (simp add: lf_es_def body_of_facts) (rule map_idI, simp add: es_ok_def)

lemma lf_es_fields [simp]:
  "lf_es (l\<lparr>lf_next := x\<rparr>) = lf_es l" "lf_es (l\<lparr>lf_lsn := y\<rparr>) = lf_es l"
  "leaf_wf (l\<lparr>lf_next := x\<rparr>) = leaf_wf l" "leaf_wf (l\<lparr>lf_lsn := y\<rparr>) = leaf_wf l"
  by (simp_all add: lf_es_def leaf_wf_def)

lemma lf_es_keys_ok: "k \<in> fst ` set (lf_es l) \<Longrightarrow> key_ok k"
proof -
  assume "k \<in> fst ` set (lf_es l)"
  then obtain raw where k: "k = int (le_nat (take 4 raw))"
    by (auto simp: lf_es_def dec_cell_def)
  have "(256::nat) ^ length (take 4 raw) \<le> 256 ^ 4"
    by (intro power_increasing) auto
  with le_nat_bound [of "take 4 raw"] have "le_nat (take 4 raw) < 256 ^ 4" by linarith
  with k show ?thesis by (simp add: key_ok_def)
qed

text \<open>What a well-formed leaf holds fits a page, so a rebuild of a part of it never fails.\<close>

lemma leaf_wf_es_ok [simp]:
  assumes wf: "leaf_wf l"
  shows "es_ok (lf_es l)"
proof -
  let ?p = "lf_page l"
  have cell: "cell_space c + 4 = 12 + length (snd ((dec_cell \<circ> the) c))" if "c \<in> set (sp_cells ?p)" for c
    using wf that by (force simp: leaf_wf_def dec_cell_def)
  have "es_size (lf_es l) = (\<Sum>c\<leftarrow>sp_cells ?p. cell_space c + 4)"
    using cell by (auto simp: es_size_def lf_es_def o_def intro!: arg_cong [where f = sum_list])
  also have "\<dots> = (\<Sum>c\<leftarrow>sp_cells ?p. cell_space c) + 4 * num_slots ?p"
    using sum_list_triv [of "4::nat" "sp_cells ?p"] by (simp add: sum_list_addf)
  also have "\<dots> \<le> LEAF_ROOM"
    using wf by (auto simp: leaf_wf_def sp_wf_def LEAF_ROOM_def)
  finally show ?thesis by (simp add: es_ok_def lf_es_keys_ok)
qed

lemma leaf_num_keys_ok [simp]: "leaf_wf l \<Longrightarrow> leaf_num_keys l = Inr (int (length (lf_es l)))"
  by (simp add: leaf_num_keys_def leaf_wf_def sp_wf_num_slots lf_es_def)

lemma leaf_is_full_ok [simp]:
  "leaf_wf l \<Longrightarrow> leaf_is_full l = Inr (lf_max_keys l < length (lf_es l))"
  by (simp add: leaf_is_full_def)

lemma entries_loop_ok:
  assumes wf: "leaf_wf l" and "i + n = num_slots (lf_page l)"
  shows "entries_loop n i (lf_page l) = Inr (drop i (lf_es l))"
  using assms(2)
proof (induction n arbitrary: i)
  case 0
  then show ?case by (simp add: lf_es_def)
next
  case (Suc n)
  let ?p = "lf_page l"
  from Suc.prems have i: "i < num_slots ?p" by simp
  then have "sp_cells ?p ! i \<in> set (sp_cells ?p)" by (intro nth_mem) simp
  then obtain raw where raw: "sp_cells ?p ! i = Some raw" "4 \<le> length raw"
    using wf by (auto simp: leaf_wf_def)
  have read: "fst (sp_read_record (int i) ?p) = Inr (Some raw)"
    using wf i raw by (simp add: sp_read_record_ok leaf_wf_def)
  have key: "unpack_u 4 (take 4 raw) = Inr (int (le_nat (take 4 raw)))"
    using raw by (simp add: unpack_u_def)
  have "drop i (lf_es l) = lf_es l ! i # drop (Suc i) (lf_es l)"
    using i by (intro Cons_nth_drop_Suc [symmetric]) (simp add: lf_es_def)
  moreover have "lf_es l ! i = dec_cell raw"
    using i raw by (simp add: lf_es_def)
  ultimately show ?case
    using read key Suc.IH [of "Suc i"] Suc.prems by (simp add: dec_cell_def)
qed

lemma leaf_entries_ok [simp]: "leaf_wf l \<Longrightarrow> leaf_entries l = Inr (lf_es l)"
  using entries_loop_ok [of l 0 "num_slots (lf_page l)"]
  by (simp add: leaf_entries_def lf_es_def)

lemma leaf_init_ok:
  "leaf_init pid m = Inr \<lparr>lf_id = pid, lf_lsn = 0, lf_next = None, lf_max_keys = m, lf_page = body_of []\<rparr>"
  by (simp add: leaf_init_def sp_init_ok page_consts body_of_def)

subsection \<open>Rebuilding a leaf\<close>

lemma rebuild_loop_eq:
  assumes "\<forall>k \<in> fst ` set es. key_ok k"
  shows "rebuild_loop es = on_page (sp_insert_all (map enc_cell es))"
  using assms
proof (induction es)
  case Nil
  then show ?case by (auto simp: on_page_def)
next
  case (Cons e es)
  obtain k r where e: "e = (k, r)" by (cases e)
  have "pack_u 4 k = Inr (le_bytes 4 (nat k))"
    using Cons.prems e by (simp add: pack_u_def key_ok_def)
  then show ?case using Cons e
    by (auto simp: fun_eq_iff bnd_def on_page_def enc_cell_def split: prod.splits sum.splits)
qed

lemma leaf_rebuild_start:
  "leaf_rebuild es l = rebuild_loop es (l\<lparr>lf_page := sp_empty LEAF_BODY_SIZE\<rparr>)"
  by (simp add: leaf_rebuild_def bnd_def sp_init_ok page_consts)

lemma leaf_rebuild_ok:
  assumes "es_ok es"
  shows "leaf_rebuild es l = (Inr (), l\<lparr>lf_page := body_of es\<rparr>)"
  using assms body_of_facts (5) [OF assms]
  by (simp add: leaf_rebuild_start rebuild_loop_eq es_ok_def on_page_def)

lemma rebuild_loop_append:
  "rebuild_loop (xs @ ys) = bnd (rebuild_loop xs) (\<lambda>_. rebuild_loop ys)"
proof (induction xs)
  case Nil
  then show ?case by (auto simp: bnd_def)
next
  case (Cons x xs)
  then show ?case by (cases x) (simp add: bnd_assoc)
qed

text \<open>
  When the entries do not fit, the rebuild raises after it has kept the prefix that fits: the rest of
  the entries is gone. The same happens at a key outside the uint32 range.
\<close>

lemma leaf_rebuild_prefix:
  assumes "es_ok pre"
  shows "leaf_rebuild (pre @ post) l = rebuild_loop post (l\<lparr>lf_page := body_of pre\<rparr>)"
  using leaf_rebuild_ok [OF assms, of l]
  by (simp add: leaf_rebuild_start rebuild_loop_append bnd_def)

lemma leaf_rebuild_full:
  assumes "es_ok pre" "key_ok k" "LEAF_ROOM < es_size pre + (12 + length r)"
  shows "\<exists>e. leaf_rebuild (pre @ (k, r) # post) l = (Inl e, l\<lparr>lf_page := body_of pre\<rparr>)
     \<and> (length r < 2 ^ 31 \<longrightarrow> e = PageFull)"
proof -
  have "\<not> sp_fits (body_of pre) (le_bytes 4 (nat k) @ r)"
    using assms(3) by (auto simp: sp_fits_def body_of_facts [OF assms(1)])
  then obtain e where e: "sp_insert (le_bytes 4 (nat k) @ r) (body_of pre) = (Inl e, body_of pre)"
      "length r < 2 ^ 31 \<longrightarrow> e = PageFull"
    using sp_insert_full [OF body_of_facts(1) [OF assms(1)]] by fastforce
  then show ?thesis
    using assms(2) by (auto simp: leaf_rebuild_prefix [OF assms(1)] bnd_def on_page_def key_ok_def)
qed

lemma leaf_rebuild_bad_key:
  assumes "es_ok pre" "\<not> key_ok k"
  shows "leaf_rebuild (pre @ (k, r) # post) l = (Inl StructError, l\<lparr>lf_page := body_of pre\<rparr>)"
  using assms(2) by (auto simp: leaf_rebuild_prefix [OF assms(1)] bnd_def pack_u_def key_ok_def)

subsection \<open>Searching, inserting, deleting, splitting\<close>

lemma bsearch_ok:
  assumes "keys_sorted es" "0 \<le> lo" "hi < int (length es)"
    and "\<And>i. i < length es \<Longrightarrow> int i < lo \<Longrightarrow> fst (es ! i) < key"
    and "\<And>i. i < length es \<Longrightarrow> hi < int i \<Longrightarrow> key < fst (es ! i)"
  shows "bsearch es key lo hi = Inr (map_of es key)"
  using assms
proof (induction es key lo hi rule: bsearch.induct)
  case (1 es key lo hi)
  show ?case
  proof (cases "lo \<le> hi")
    case False
    have "fst (es ! i) \<noteq> key" if "i < length es" for i
      using 1(6,7) [of i] that False by (cases "int i < lo") auto
    then have "key \<notin> fst ` set es"
      by (force simp: in_set_conv_nth)
    with False show ?thesis by (subst bsearch.simps) (simp add: map_of_absent)
  next
    case True
    define m where "m = nat ((lo + hi) div 2)"
    have m: "(lo + hi) div 2 = int m" "lo \<le> int m" "int m \<le> hi" "m < length es"
      using True 1(4,5) by (auto simp: m_def)
    obtain k r where kr: "es ! m = (k, r)" by (cases "es ! m")
    have nth: "py_nth es ((lo + hi) div 2) = Inr (k, r)"
      using m kr by simp
    consider "k = key" | "k < key" | "key < k" by force
    then show ?thesis
    proof cases
      case 1
      have "map_of es key = Some r"
        using keys_sorted_map_of_nth [OF "1.prems"(1) m(4)] kr 1 by simp
      with 1 True nth show ?thesis by (subst bsearch.simps) (simp add: Let_def)
    next
      case 2
      have "fst (es ! i) < key" if "i < length es" "int i < int m + 1" for i
        using keys_sorted_nth_le [OF "1.prems"(1), of i m] that m(4) kr 2 by fastforce
      then have "bsearch es key (int m + 1) hi = Inr (map_of es key)"
        using "1.IH"(1) [OF True refl nth refl] 2 nth m "1.prems" kr by fastforce
      with 2 True nth m(1) show ?thesis by (subst bsearch.simps) (simp add: Let_def)
    next
      case 3
      have "key < fst (es ! i)" if "i < length es" "int m - 1 < int i" for i
        using keys_sorted_nth_le [OF "1.prems"(1), of m i] that m(4) kr 3 by fastforce
      then have "bsearch es key lo (int m - 1) = Inr (map_of es key)"
        using "1.IH"(2) [OF True refl nth refl] 3 nth m "1.prems" kr by fastforce
      with 3 True nth m(1) show ?thesis by (subst bsearch.simps) (simp add: Let_def)
    qed
  qed
qed

lemma leaf_search_ok:
  "leaf_wf l \<Longrightarrow> keys_sorted (lf_es l) \<Longrightarrow> leaf_search l key = Inr (map_of (lf_es l) key)"
  by (simp add: leaf_search_def bsearch_ok)

lemma find_idx_Some:
  "find_idx P xs = Some i \<Longrightarrow> i < length xs \<and> P (xs ! i)"
  by (induction xs arbitrary: i) (auto split: if_splits)

lemma find_idx_None: "find_idx P xs = None \<longleftrightarrow> (\<forall>x \<in> set xs. \<not> P x)"
  by (induction xs) auto

lemma leaf_insert_run:
  assumes "leaf_wf l" "keys_sorted (lf_es l)"
  shows "leaf_insert key rec l = leaf_rebuild (ins_sorted key rec (lf_es l)) l"
proof (cases "find_idx (\<lambda>(k, _). k = key) (lf_es l)")
  case None
  then have "key \<notin> fst ` set (lf_es l)" by (auto simp: find_idx_None)
  with None assms show ?thesis by (simp add: leaf_insert_def bnd_def sort_key_append_one)
next
  case (Some i)
  from find_idx_Some [OF this] have "(lf_es l)[i := (key, rec)] = ins_sorted key rec (lf_es l)"
    using assms(2) by (intro ins_sorted_present) (auto split: prod.splits)
  with Some assms show ?thesis by (simp add: leaf_insert_def bnd_def)
qed

lemma leaf_insert_ok:
  assumes "leaf_wf l" "keys_sorted (lf_es l)" "es_ok (ins_sorted key rec (lf_es l))"
  shows "leaf_insert key rec l = (Inr (), l\<lparr>lf_page := body_of (ins_sorted key rec (lf_es l))\<rparr>)"
  using assms by (simp add: leaf_insert_run leaf_rebuild_ok)

lemma leaf_delete_ok:
  assumes "leaf_wf l" "keys_sorted (lf_es l)"
  shows "leaf_delete_key key l =
    (if key \<in> fst ` set (lf_es l)
     then (Inr True, l\<lparr>lf_page := body_of (del_sorted key (lf_es l))\<rparr>) else (Inr False, l))"
proof -
  have f: "filter (\<lambda>(k, v). k \<noteq> key) (lf_es l) = del_sorted key (lf_es l)"
    by (simp add: del_sorted_def case_prod_unfold)
  have "length (lf_es l) - Suc 0 \<noteq> length (lf_es l)" if "key \<in> fst ` set (lf_es l)"
    using that by (cases "lf_es l") auto
  then show ?thesis
    using assms by (auto simp: leaf_delete_key_def bnd_def f length_del_sorted leaf_rebuild_ok)
qed

lemma on_fst_run: "m a = (r, a') \<Longrightarrow> on_fst m (a, b) = (r, (a', b))"
  and on_snd_run: "n b = (r', b') \<Longrightarrow> on_snd n (a, b) = (r', (a, b'))"
  by (simp_all add: on_fst_def on_snd_def)

lemma leaf_split_ok:
  assumes "leaf_wf l" "lf_es l \<noteq> []"
  defines "mid \<equiv> length (lf_es l) div 2"
  shows "leaf_split (l, r) =
    (Inr (fst (lf_es l ! mid)),
     (l\<lparr>lf_page := body_of (take mid (lf_es l)), lf_next := Some (lf_id r)\<rparr>,
      r\<lparr>lf_page := body_of (drop mid (lf_es l)), lf_next := lf_next l\<rparr>))"
proof -
  have "mid < length (lf_es l)" using assms(2) by (simp add: mid_def)
  then show ?thesis
    using assms(1)
    by (simp add: leaf_split_def bnd_def Let_def mid_def [symmetric] on_fst_run on_snd_run
        leaf_rebuild_ok es_ok_take es_ok_drop)
qed

subsection \<open>Index pages\<close>

text \<open>
  The number of the child that routes a key, computed by \<^verbatim>\<open>find_child\<close>, by the loop of \<^verbatim>\<open>_find_path\<close>
  and, with \<open><\<close>, by \<^verbatim>\<open>insert_key\<close>.
\<close>

definition child_pos :: "int list \<Rightarrow> int \<Rightarrow> nat" where
  "child_pos ks key = length (takeWhile (\<lambda>k. k \<le> key) ks)"

lemma child_pos_le [simp]: "child_pos ks key \<le> length ks"
  by (simp add: child_pos_def length_takeWhile_le)

lemma child_pos_simps [simp]:
  "child_pos [] key = 0"
  "child_pos (k # ks) key = (if key < k then 0 else Suc (child_pos ks key))"
  by (simp_all add: child_pos_def)

lemma child_pos_below: "i < child_pos ks key \<Longrightarrow> ks ! i \<le> key"
  unfolding child_pos_def by (metis nth_mem set_takeWhileD takeWhile_nth)

lemma child_pos_above: "child_pos ks key < length ks \<Longrightarrow> key < ks ! child_pos ks key"
  unfolding child_pos_def using nth_length_takeWhile [of "\<lambda>k. k \<le> key" ks] by auto

lemma find_child_loop_ok:
  "length children = i + Suc (length ks) \<Longrightarrow>
     find_child_loop i ks children key = Inr (children ! (i + child_pos ks key))"
proof (induction ks arbitrary: i)
  case Nil
  then have "children \<noteq> []" "length children - 1 = i" by auto
  then show ?case by (simp add: last_conv_nth)
next
  case (Cons k ks)
  then show ?case by (simp add: py_nth_def)
qed

lemma find_child_ok:
  "length (ix_children p) = Suc (length (ix_keys p)) \<Longrightarrow>
     find_child p key = Inr (ix_children p ! child_pos (ix_keys p) key)"
  by (simp add: find_child_def find_child_loop_ok)

lemma insert_pos_eq: "insert_pos ks key = length (takeWhile (\<lambda>k. k < key) ks)"
  by (induction ks) auto

lemma insert_pos_child_pos: "key \<notin> set ks \<Longrightarrow> insert_pos ks key = child_pos ks key"
  by (induction ks) auto

lemma index_split_ok:
  assumes "ix_keys l \<noteq> []"
  defines "mid \<equiv> length (ix_keys l) div 2"
  shows "index_split (l, r) = (Inr (ix_keys l ! mid),
    (l\<lparr>ix_keys := take mid (ix_keys l), ix_children := take (Suc mid) (ix_children l)\<rparr>,
     r\<lparr>ix_keys := drop (Suc mid) (ix_keys l), ix_children := drop (Suc mid) (ix_children l)\<rparr>))"
proof -
  have "mid < length (ix_keys l)" using assms(1) by (simp add: mid_def)
  then have "py_nth (ix_keys l) (int mid) = Inr (ix_keys l ! mid)" by simp
  then show ?thesis
    unfolding index_split_def mid_def by (simp add: bnd_def Let_def)
qed

subsection \<open>The on-disk formats\<close>

lemma replicate_add_Cons: "replicate (Suc m) z = [z] @ replicate m z"
  by simp

lemma header_bytes:
  assumes "lsn < 2 ^ 64" "w < 2 ^ 32"
  shows "bind_res (pack_into 8 (replicate PAGE_SIZE 0) 0 (int lsn)) (\<lambda>buf.
    bind_res (set_byte buf PAGE_LSN_SIZE b) (\<lambda>buf.
    bind_res (pack_into 4 buf (Suc PAGE_LSN_SIZE) (int w)) f)) =
    f (le_bytes 8 lsn @ [b] @ le_bytes 4 w @ replicate 4083 0)"
proof -
  have 1: "put_slice 0 8 (le_bytes 8 lsn) (replicate 4096 0) = le_bytes 8 lsn @ replicate 4088 0"
    using put_zeros [of 0 "[]" 8 "le_bytes 8 lsn" 4096 0] by simp
  have 2: "(le_bytes 8 lsn @ replicate 4088 0)[8 := b] = le_bytes 8 lsn @ [b] @ replicate 4087 0"
    using replicate_add_Cons [of 4087 "0 :: 8 word"] by (simp add: list_update_append)
  have 3: "put_slice 9 13 (le_bytes 4 w) (le_bytes 8 lsn @ [b] @ replicate 4087 0) =
      le_bytes 8 lsn @ [b] @ le_bytes 4 w @ replicate 4083 0"
    using put_zeros [of 9 "le_bytes 8 lsn @ [b]" 13 "le_bytes 4 w" 4087 0] by simp
  show ?thesis
    using assms 1 2 3
    by (simp add: pack_into_def set_byte_def page_consts nat_less_iff)
qed

definition leaf_bytes :: "leaf_page \<Rightarrow> bytes" where
  "leaf_bytes l = le_bytes 8 (lf_lsn l) @ [1] @
     le_bytes 4 (case lf_next l of None \<Rightarrow> NO_NEXT | Some n \<Rightarrow> n) @ sp_data (lf_page l)"

definition leaf_fits :: "leaf_page \<Rightarrow> bool" where
  "leaf_fits l \<longleftrightarrow> leaf_wf l \<and> lf_lsn l < 2 ^ 64 \<and> (\<forall>n. lf_next l = Some n \<longrightarrow> n < NO_NEXT)"

lemma leaf_to_bytes_ok:
  assumes "leaf_fits l"
  shows "leaf_to_bytes l = Inr (leaf_bytes l)"
proof -
  define w where "w = (case lf_next l of None \<Rightarrow> NO_NEXT | Some n \<Rightarrow> n)"
  have w: "w < 2 ^ 32" "lf_lsn l < 2 ^ 64"
    using assms by (auto simp: w_def leaf_fits_def NO_NEXT_def split: option.splits)
  have h: "LEAF_HEADER_SIZE = 13" by (simp add: page_consts)
  show ?thesis
    unfolding leaf_to_bytes_def leaf_bytes_def Let_def w_def [symmetric]
    by (simp add: h header_bytes [OF w(2,1)])
qed

lemma length_leaf_bytes: "leaf_fits l \<Longrightarrow> length (leaf_bytes l) = PAGE_SIZE"
  by (simp add: leaf_bytes_def leaf_fits_def leaf_wf_def sp_wf_def page_consts)

lemma leaf_from_to_bytes:
  assumes "leaf_fits l"
  shows "leaf_from_bytes (lf_id l) (leaf_bytes l) (lf_max_keys l) = Inr l"
proof -
  define w where "w = (case lf_next l of None \<Rightarrow> NO_NEXT | Some n \<Rightarrow> n)"
  have w: "w < 2 ^ 32" "lf_lsn l < 2 ^ 64"
    using assms by (auto simp: w_def leaf_fits_def NO_NEXT_def split: option.splits)
  have wn: "(if w = NO_NEXT then None else Some w) = lf_next l"
    using assms by (auto simp: w_def leaf_fits_def split: option.splits)
  have len: "length (sp_data (lf_page l)) = LEAF_BODY_SIZE" "sp_size (lf_page l) = LEAF_BODY_SIZE"
    using assms by (auto simp: leaf_fits_def leaf_wf_def sp_wf_def)
  let ?b = "leaf_bytes l"
  have b: "?b = le_bytes 8 (lf_lsn l) @ [1] @ le_bytes 4 w @ sp_data (lf_page l)"
    by (simp add: leaf_bytes_def w_def)
  have 1: "unpack_from 8 ?b 0 = Inr (int (lf_lsn l))"
    using unpack_from_mid [of 0 "[]" "le_bytes 8 (lf_lsn l)" 8] w by (simp add: b le_nat_le_bytes)
  have 2: "unpack_from 4 ?b (PAGE_LSN_SIZE + 1) = Inr (int w)"
    using unpack_from_mid [of 9 "le_bytes 8 (lf_lsn l) @ [1]" "le_bytes 4 w" 4] w
    by (simp add: b le_nat_le_bytes page_consts)
  have 3: "seg LEAF_HEADER_SIZE (LEAF_HEADER_SIZE + LEAF_BODY_SIZE) ?b = sp_data (lf_page l)"
    using seg_mid [of 13 "le_bytes 8 (lf_lsn l) @ [1] @ le_bytes 4 w" "LEAF_HEADER_SIZE + LEAF_BODY_SIZE"
        "sp_data (lf_page l)" "[]"] len
    by (simp add: b page_consts)
  have sz: "sp_size (body_of []) = LEAF_BODY_SIZE" by (simp add: body_of_facts)
  obtain d where d: "body_of [] = \<lparr>sp_size = LEAF_BODY_SIZE, sp_data = d\<rparr>"
    using sz by (cases "body_of []") simp
  obtain d' where d': "lf_page l = \<lparr>sp_size = LEAF_BODY_SIZE, sp_data = d'\<rparr>"
    using len(2) by (cases "lf_page l") simp
  show ?thesis
    unfolding leaf_from_bytes_def leaf_init_ok bind_res_simps 1 2 3
    using wn d d' by (cases l) (auto split: if_splits)
qed

text \<open>Index pages: \<open>n\<close> keys and \<open>n + 1\<close> children, all uint32, fill at most the page.\<close>

definition u32s :: "int list \<Rightarrow> bytes" where
  "u32s vs = concat (map (\<lambda>v. le_bytes 4 (nat v)) vs)"

lemma u32s_simps [simp]: "u32s [] = []" "u32s (v # vs) = le_bytes 4 (nat v) @ u32s vs"
  "length (u32s vs) = 4 * length vs"
  by (simp_all add: u32s_def) (induction vs, auto)

lemma pack_loop_ok:
  assumes "\<forall>v \<in> set vs. key_ok v" "off = length pre" "4 * length vs \<le> m"
  shows "pack_loop (pre @ replicate m 0) off vs =
    Inr (pre @ u32s vs @ replicate (m - 4 * length vs) 0, off + 4 * length vs)"
  using assms
proof (induction vs arbitrary: pre off m)
  case Nil
  then show ?case by simp
next
  case (Cons v vs)
  have "put_slice off (off + 4) (le_bytes 4 (nat v)) (pre @ replicate m 0) =
      (pre @ le_bytes 4 (nat v)) @ replicate (m - 4) 0"
    using Cons.prems put_zeros [of off pre "off + 4" "le_bytes 4 (nat v)" m 0] by simp
  moreover have "pack_u 4 v = Inr (le_bytes 4 (nat v))"
    using Cons.prems by (simp add: key_ok_def)
  moreover have "pack_loop ((pre @ le_bytes 4 (nat v)) @ replicate (m - 4) 0) (off + 4) vs =
      Inr ((pre @ le_bytes 4 (nat v)) @ u32s vs @ replicate (m - 4 - 4 * length vs) 0, off + 4 + 4 * length vs)"
    using Cons.prems by (intro Cons.IH) auto
  ultimately show ?case using Cons.prems by (simp add: pack_into_def algebra_simps)
qed

lemma unpack_u32s_ok:
  assumes "\<forall>v \<in> set vs. key_ok v" "off = length pre"
  shows "unpack_u32s (length vs) (pre @ u32s vs @ post) off = Inr vs"
  using assms
proof (induction vs arbitrary: pre off)
  case Nil
  then show ?case by simp
next
  case (Cons v vs)
  have v: "nat v < 2 ^ 32" "0 \<le> v" using Cons.prems by (auto simp: key_ok_def nat_less_iff)
  have "unpack_from 4 (pre @ le_bytes 4 (nat v) @ u32s vs @ post) off = Inr v"
    using Cons.prems(2) v by (simp add: unpack_from_mid le_nat_le_bytes)
  moreover have "unpack_u32s (length vs) ((pre @ le_bytes 4 (nat v)) @ u32s vs @ post) (off + 4) = Inr vs"
    using Cons.prems by (intro Cons.IH) auto
  ultimately show ?case by simp
qed

text \<open>\<open>index_packs\<close>: the page can be written; \<open>index_fits\<close>: it is also read back as it was.\<close>

definition index_packs :: "index_page \<Rightarrow> bool" where
  "index_packs p \<longleftrightarrow> ix_lsn p < 2 ^ 64 \<and> 4 * length (ix_keys p) + 4 * length (ix_children p) \<le> 4083
     \<and> (\<forall>k \<in> set (ix_keys p). key_ok k) \<and> (\<forall>c \<in> set (ix_children p). c < 2 ^ 32)"

definition index_fits :: "index_page \<Rightarrow> bool" where
  "index_fits p \<longleftrightarrow> index_packs p \<and> ix_keys p \<noteq> [] \<and> length (ix_children p) = Suc (length (ix_keys p))"

definition index_bytes :: "index_page \<Rightarrow> bytes" where
  "index_bytes p = le_bytes 8 (ix_lsn p) @ [0] @ le_bytes 4 (length (ix_keys p)) @
     u32s (ix_keys p) @ u32s (map int (ix_children p)) @
     replicate (4083 - 4 * length (ix_keys p) - 4 * length (ix_children p)) 0"

lemma index_to_bytes_ok:
  assumes "index_packs p"
  shows "index_to_bytes p = Inr (index_bytes p)"
proof -
  let ?n = "length (ix_keys p)"
  let ?h = "le_bytes 8 (ix_lsn p) @ [0] @ le_bytes 4 ?n"
  have f: "ix_lsn p < 2 ^ 64" "?n < 2 ^ 32" "4 * ?n \<le> 4083" "4 * length (ix_children p) \<le> 4083 - 4 * ?n"
    "\<forall>k \<in> set (ix_keys p). key_ok k" "\<forall>v \<in> set (map int (ix_children p)). key_ok v"
    using assms by (auto simp: index_packs_def key_ok_def)
  have 1: "pack_loop (?h @ replicate 4083 0) 13 (ix_keys p) =
      Inr (?h @ u32s (ix_keys p) @ replicate (4083 - 4 * ?n) 0, 13 + 4 * ?n)"
    using f by (intro pack_loop_ok) auto
  have 2: "pack_loop ((?h @ u32s (ix_keys p)) @ replicate (4083 - 4 * ?n) 0) (13 + 4 * ?n) (map int (ix_children p)) =
      Inr ((?h @ u32s (ix_keys p)) @ u32s (map int (ix_children p)) @
        replicate (4083 - 4 * ?n - 4 * length (map int (ix_children p))) 0,
        13 + 4 * ?n + 4 * length (map int (ix_children p)))"
    using f by (intro pack_loop_ok) auto
  have c: "PAGE_LSN_SIZE + 5 = 13" by (simp add: page_consts)
  show ?thesis
    unfolding index_to_bytes_def Let_def c
    using 1 2 by (simp add: index_bytes_def header_bytes [OF f(1,2)])
qed

lemma length_index_bytes: "index_packs p \<Longrightarrow> length (index_bytes p) = PAGE_SIZE"
  by (simp add: index_bytes_def index_packs_def page_consts)

lemma index_fits_packs: "index_fits p \<Longrightarrow> index_packs p"
  by (simp add: index_fits_def)

lemma index_from_to_bytes:
  assumes "index_fits p"
  shows "index_from_bytes (ix_id p) (index_bytes p) (ix_max_keys p) = Inr p"
proof -
  let ?n = "length (ix_keys p)" and ?b = "index_bytes p"
  let ?z = "replicate (4083 - 4 * length (ix_keys p) - 4 * length (ix_children p)) (0 :: 8 word)"
  have f: "ix_lsn p < 2 ^ 64" "?n < 2 ^ 32" "0 < ?n" "length (map int (ix_children p)) = ?n + 1"
    "\<forall>k \<in> set (ix_keys p). key_ok k" "\<forall>v \<in> set (map int (ix_children p)). key_ok v"
    using assms by (auto simp: index_fits_def index_packs_def key_ok_def)
  have 1: "unpack_from 8 ?b 0 = Inr (int (ix_lsn p))"
    using unpack_from_mid [of 0 "[]" "le_bytes 8 (ix_lsn p)" 8] f by (simp add: index_bytes_def le_nat_le_bytes)
  have 2: "unpack_from 4 ?b (PAGE_LSN_SIZE + 1) = Inr (int ?n)"
    using unpack_from_mid [of 9 "le_bytes 8 (ix_lsn p) @ [0]" "le_bytes 4 ?n" 4] f
    by (simp add: index_bytes_def le_nat_le_bytes page_consts)
  have c: "PAGE_LSN_SIZE + 5 = 13" by (simp add: page_consts)
  have 3: "unpack_u32s ?n ?b 13 = Inr (ix_keys p)"
    using unpack_u32s_ok [OF f(5), of 13 "le_bytes 8 (ix_lsn p) @ [0] @ le_bytes 4 ?n"
        "u32s (map int (ix_children p)) @ ?z"]
    by (simp add: index_bytes_def)
  have 4: "unpack_u32s (?n + 1) ?b (13 + ?n * 4) = Inr (map int (ix_children p))"
    using unpack_u32s_ok [OF f(6), of "13 + ?n * 4"
        "le_bytes 8 (ix_lsn p) @ [0] @ le_bytes 4 ?n @ u32s (ix_keys p)" ?z] f(4)
    by (simp add: index_bytes_def)
  have m: "map nat (map int (ix_children p)) = ix_children p"
    by (simp add: o_def)
  show ?thesis
    unfolding index_from_bytes_def 1 2 bind_res_simps c Let_def
    using 3 4 m f(3) by (cases p) (simp add: index_init_def)
qed

lemma page_bytes_type:
  "leaf_bytes l ! 8 = page_type_byte LEAF" "index_bytes p ! 8 = page_type_byte INDEX"
  by (simp_all add: leaf_bytes_def index_bytes_def nth_append)

subsection \<open>Codecs of the two page formats\<close>

interpretation leaf_codec: codec leaf_to_bytes "\<lambda>b. leaf_from_bytes pid b max_keys"
    "\<lambda>l. leaf_fits l \<and> lf_id l = pid \<and> lf_max_keys l = max_keys" for pid max_keys
  by unfold_locales (use leaf_to_bytes_ok leaf_from_to_bytes in force)

interpretation index_codec: codec index_to_bytes "\<lambda>b. index_from_bytes pid b max_keys"
    "\<lambda>p. index_fits p \<and> ix_id p = pid \<and> ix_max_keys p = max_keys" for pid max_keys
  by unfold_locales (use index_to_bytes_ok index_from_to_bytes index_fits_packs in force)

subsection \<open>Properties\<close>

text \<open>A leaf with given entries, for concrete inputs.\<close>

definition leaf_with :: "(int \<times> bytes) list \<Rightarrow> leaf_page" where
  "leaf_with es = \<lparr>lf_id = 0, lf_lsn = 0, lf_next = None, lf_max_keys = 4, lf_page = body_of es\<rparr>"

lemma leaf_with_ok: "es_ok es \<Longrightarrow> leaf_wf (leaf_with es) \<and> lf_es (leaf_with es) = es"
  using leaf_wf_body [of es "leaf_with []"] lf_es_body [of es "leaf_with []"] by (simp add: leaf_with_def)

lemma small_es_ok: "es_ok [(10, [1]), (20, [2])]"
  by (simp add: es_ok_def key_ok_def room_consts)

text \<open>the binary search of \<^verbatim>\<open>LeafPage.search\<close> finds exactly the record stored under the key.\<close>
theorem leaf_search_correct:
  assumes "leaf_wf l" "keys_sorted (lf_es l)"
  shows "leaf_search l key = Inr (map_of (lf_es l) key)"
  using assms by (rule leaf_search_ok)

theorem leaf_search_correct_witness:
  "leaf_search (leaf_with [(10, [1]), (20, [2])]) 20 = Inr (Some [2])"
  using leaf_search_correct [of "leaf_with [(10, [1]), (20, [2])]" 20] leaf_with_ok [OF small_es_ok] by simp

text \<open>C31: \<^verbatim>\<open>LeafPage.insert\<close> and \<^verbatim>\<open>delete_key\<close> implement insertion into and deletion from the sorted entry
  list: an insertion whose result fits the page leaves a well-formed leaf with the sorted
  insertion, a deletion reports whether the key was there and removes it.\<close>
theorem leaf_update_correct:
  assumes "leaf_wf l" "keys_sorted (lf_es l)"
  shows "(es_ok (ins_sorted key rec (lf_es l)) \<longrightarrow>
      (\<exists>l'. leaf_insert key rec l = (Inr (), l') \<and> leaf_wf l' \<and> lf_es l' = ins_sorted key rec (lf_es l)))
    \<and> (\<exists>l'. leaf_delete_key key l = (Inr (key \<in> fst ` set (lf_es l)), l') \<and> leaf_wf l'
      \<and> lf_es l' = del_sorted key (lf_es l))"
  using assms leaf_insert_ok [OF assms, of key rec] leaf_delete_ok [OF assms, of key]
  by (auto simp: image_iff)

theorem leaf_update_correct_witness:
  "\<exists>l'. leaf_insert 15 [3] (leaf_with [(10, [1]), (20, [2])]) = (Inr (), l') \<and> lf_es l' = [(10, [1]), (15, [3]), (20, [2])]"
  using leaf_update_correct [of "leaf_with [(10, [1]), (20, [2])]" 15 "[3]"] leaf_with_ok [OF small_es_ok]
  by (auto simp: es_ok_def key_ok_def room_consts)

text \<open>C32: a leaf that overflows its 4071 bytes loses data. When the sorted insertion does not fit,
  \<^verbatim>\<open>insert\<close> raises, and the leaf is left with the entries before the first one that does not fit:
  the others are gone, since \<^verbatim>\<open>_rebuild\<close> has already replaced the page.\<close>
theorem leaf_insert_overflow_loses_entries:
  assumes "leaf_wf l" "keys_sorted (lf_es l)"
    and "ins_sorted key rec (lf_es l) = pre @ (k, r) # post"
    and "es_ok pre" "key_ok k" "LEAF_ROOM < es_size pre + (12 + length r)" "length r < 2 ^ 31"
  shows "\<exists>l'. leaf_insert key rec l = (Inl PageFull, l') \<and> leaf_wf l' \<and> lf_es l' = pre"
  using leaf_rebuild_full [OF assms(4-6), of post l] assms
  by (auto simp: leaf_insert_run)

theorem leaf_insert_overflow_loses_entries_witness:
  "\<exists>l'. leaf_insert 5 (replicate 4060 0) (leaf_with [(10, [1]), (20, [2])]) = (Inl PageFull, l') \<and> lf_es l' = []"
  using leaf_insert_overflow_loses_entries [of "leaf_with [(10, [1]), (20, [2])]" 5 "replicate 4060 0" "[]" 5
      "replicate 4060 0" "[(10, [1]), (20, [2])]"] leaf_with_ok [OF small_es_ok]
  by (auto simp: key_ok_def room_consts)

text \<open>inserting a key outside the uint32 range into a leaf raises \<^verbatim>\<open>struct.error\<close>, but only after the page
  was replaced: a negative key empties the leaf, a key above the range is the only entry lost.\<close>
theorem leaf_insert_bad_key:
  assumes "leaf_wf l" "keys_sorted (lf_es l)" "\<not> key_ok key"
  shows "\<exists>l'. leaf_insert key rec l = (Inl StructError, l') \<and> leaf_wf l'
    \<and> lf_es l' = (if key < 0 then [] else lf_es l)"
proof -
  have keys: "\<forall>k \<in> fst ` set (lf_es l). 0 \<le> k \<and> k < 2 ^ 32"
    using lf_es_keys_ok by (auto simp: key_ok_def)
  show ?thesis
  proof (cases "key < 0")
    case True
    then have "ins_sorted key rec (lf_es l) = [] @ (key, rec) # lf_es l"
      using keys by (subst ins_sorted_front) force+
    with True assms show ?thesis
      using leaf_rebuild_bad_key [of "[]" key rec "lf_es l" l]
      by (simp add: leaf_insert_run leaf_wf_body [OF es_ok_Nil] lf_es_body [OF es_ok_Nil])
  next
    case False
    then have "\<forall>k \<in> fst ` set (lf_es l). k < key"
      using keys assms(3) by (force simp: key_ok_def)
    then have "ins_sorted key rec (lf_es l) = lf_es l @ [(key, rec)]"
      using ins_sorted_append_right [of "lf_es l" key rec "[]"] by simp
    with False assms show ?thesis
      using leaf_rebuild_bad_key [of "lf_es l" key rec "[]" l] by (simp add: leaf_insert_run)
  qed
qed

theorem leaf_insert_bad_key_witness:
  "\<exists>l'. leaf_insert (- 1) [3] (leaf_with [(10, [1]), (20, [2])]) = (Inl StructError, l') \<and> lf_es l' = []"
  using leaf_insert_bad_key [of "leaf_with [(10, [1]), (20, [2])]" "- 1" "[3]"] leaf_with_ok [OF small_es_ok]
  by (auto simp: key_ok_def)

text \<open>\<^verbatim>\<open>LeafPage.split\<close> distributes the entries over the two leaves in order, neither losing nor
  duplicating one, links the new leaf between the old one and its successor, and returns the
  first key of the right half.\<close>
theorem leaf_split_correct:
  assumes "leaf_wf l" "2 \<le> length (lf_es l)"
  shows "\<exists>k l' r'. leaf_split (l, r) = (Inr k, (l', r')) \<and> leaf_wf l' \<and> leaf_wf r'
    \<and> lf_es l' @ lf_es r' = lf_es l \<and> lf_es l' \<noteq> [] \<and> lf_es r' \<noteq> [] \<and> k = fst (hd (lf_es r'))
    \<and> lf_next l' = Some (lf_id r') \<and> lf_next r' = lf_next l"
proof -
  have "lf_es l \<noteq> []" "length (lf_es l) div 2 < length (lf_es l)" "0 < length (lf_es l) div 2"
    using assms(2) by auto
  then show ?thesis
    using leaf_split_ok [OF assms(1), of r] assms(1)
    by (simp add: es_ok_take es_ok_drop hd_drop_conv_nth)
qed

theorem leaf_split_correct_witness:
  "\<exists>l' r'. leaf_split (leaf_with [(10, [1]), (20, [2])], leaf_with []) = (Inr 20, (l', r'))
     \<and> lf_es l' = [(10, [1])] \<and> lf_es r' = [(20, [2])]"
proof -
  obtain k l' r' where s: "leaf_split (leaf_with [(10, [1]), (20, [2])], leaf_with []) = (Inr k, (l', r'))"
    "lf_es l' @ lf_es r' = [(10, [1]), (20, [2])]" "lf_es l' \<noteq> []" "lf_es r' \<noteq> []" "k = fst (hd (lf_es r'))"
    using leaf_split_correct [of "leaf_with [(10, [1]), (20, [2])]" "leaf_with []"] leaf_with_ok [OF small_es_ok]
    by auto
  then show ?thesis by (auto simp: append_eq_Cons_conv Cons_eq_append_conv)
qed

text \<open>C33: a page read back from its 4096 bytes is the page written: both formats round-trip, for leaves
  with a sibling id below the sentinel and index pages of 1 to 509 keys.\<close>
theorem page_bytes_round_trip:
  "(leaf_fits l \<longrightarrow> (\<exists>bs. leaf_to_bytes l = Inr bs \<and> length bs = PAGE_SIZE
     \<and> leaf_from_bytes (lf_id l) bs (lf_max_keys l) = Inr l)) \<and>
   (index_fits p \<longrightarrow> (\<exists>bs. index_to_bytes p = Inr bs \<and> length bs = PAGE_SIZE
     \<and> index_from_bytes (ix_id p) bs (ix_max_keys p) = Inr p))"
  by (simp_all add: leaf_to_bytes_ok length_leaf_bytes leaf_from_to_bytes
      index_to_bytes_ok length_index_bytes index_from_to_bytes index_fits_packs)

theorem page_bytes_round_trip_witness:
  "\<exists>bs. leaf_to_bytes (leaf_with [(10, [1]), (20, [2])]) = Inr bs \<and> length bs = PAGE_SIZE
     \<and> leaf_from_bytes 0 bs 4 = Inr (leaf_with [(10, [1]), (20, [2])])"
proof -
  have "leaf_fits (leaf_with [(10, [1]), (20, [2])])"
    using leaf_with_ok [OF small_es_ok] by (simp add: leaf_fits_def) (simp add: leaf_with_def)
  with page_bytes_round_trip [of "leaf_with [(10, [1]), (20, [2])]"] show ?thesis
    by (simp add: leaf_with_def)
qed

text \<open>an index page with one child and no key does not survive the disk: it is read back without
  its child (\<^verbatim>\<open>from_bytes\<close> reads the children only when there are keys).\<close>
theorem index_without_keys_loses_child:
  "\<exists>bs. index_to_bytes ((index_init pid m)\<lparr>ix_children := [3]\<rparr>) = Inr bs
     \<and> index_from_bytes pid bs m = Inr (index_init pid m)"
proof -
  let ?p = "(index_init pid m)\<lparr>ix_children := [3]\<rparr>" and ?h = "le_bytes 8 0 @ [0 :: 8 word] @ le_bytes 4 0"
  have c: "PAGE_LSN_SIZE + 5 = 13" by (simp add: page_consts)
  have l: "pack_loop (?h @ replicate 4083 0) 13 [3] = Inr (?h @ u32s [3] @ replicate 4079 0, 17)"
    using pack_loop_ok [of "[3]" 13 ?h 4083] by (simp add: key_ok_def)
  have "index_to_bytes ?p = Inr (?h @ u32s [3] @ replicate 4079 0)"
    unfolding index_to_bytes_def Let_def c
    using l header_bytes [of 0 0 0 "\<lambda>buf. bind_res (pack_loop buf 13 []) (\<lambda>(buf, off).
      bind_res (pack_loop buf off [3]) (\<lambda>(buf, off). Inr buf :: bytes res))"]
    by (simp add: index_init_def del: pack_loop.simps) (simp add: pack_loop.simps(1))
  moreover have "unpack_from 8 (?h @ u32s [3] @ replicate 4079 0) 0 = Inr 0"
    using unpack_from_mid [of 0 "[]" "le_bytes 8 0" 8] by (simp add: le_nat_le_bytes)
  moreover have "unpack_from 4 (?h @ u32s [3] @ replicate 4079 0) (PAGE_LSN_SIZE + 1) = Inr 0"
    using unpack_from_mid [of 9 "le_bytes 8 0 @ [0]" "le_bytes 4 0" 4] by (simp add: le_nat_le_bytes page_consts)
  ultimately show ?thesis
    by (intro exI [of _ "?h @ u32s [3] @ replicate 4079 0"])
      (simp add: index_from_bytes_def index_init_def)
qed

end
