(* ===== verification/Buffer_Pool.thy ===== *)
theory Buffer_Pool
  imports Prelude
begin

section \<open>The buffer pool (\<^verbatim>\<open>src/buffer_pool.py\<close>)\<close>

text \<open>
  The frames are an \<^verbatim>\<open>OrderedDict\<close>: an association list from the least to the most recently used
  page id. The pool is generic in what a frame caches (the pager caches references to page objects).
  The lemmas show that no page is lost (what leaves the pool is clean or handed to the caller), that a
  pinned page stays, that the victim is the least recently used page that is not pinned, and
  that the pool keeps to its capacity as long as a page is evictable.
\<close>

record 'p frame =
  fr_page :: 'p
  fr_dirty :: bool
  fr_pins :: nat

record 'p buffer_pool =
  bp_capacity :: nat
  bp_frames :: "(nat \<times> 'p frame) list"

text \<open>\<^verbatim>\<open>OrderedDict\<close>: \<^verbatim>\<open>d[k] = v\<close> for a present key, \<^verbatim>\<open>del d[k]\<close>, \<^verbatim>\<open>d.move_to_end(k)\<close>.\<close>

definition od_modify :: "'k \<Rightarrow> ('v \<Rightarrow> 'v) \<Rightarrow> ('k \<times> 'v) list \<Rightarrow> ('k \<times> 'v) list" where
  "od_modify k f = map (\<lambda>(j, v). if j = k then (j, f v) else (j, v))"

definition od_del :: "'k \<Rightarrow> ('k \<times> 'v) list \<Rightarrow> ('k \<times> 'v) list" where
  "od_del k = filter (\<lambda>(j, v). j \<noteq> k)"

definition od_move_to_end :: "'k \<Rightarrow> ('k \<times> 'v) list \<Rightarrow> ('k \<times> 'v) list" where
  "od_move_to_end k d = (case map_of d k of None \<Rightarrow> d | Some v \<Rightarrow> od_del k d @ [(k, v)])"

definition pool_init :: "int \<Rightarrow> 'p buffer_pool res" where
  "pool_init capacity =
     (if capacity < 1 then Inl ValueError
      else Inr \<lparr>bp_capacity = nat capacity, bp_frames = []\<rparr>)"

definition pool_contains :: "nat \<Rightarrow> 'p buffer_pool \<Rightarrow> bool" where
  "pool_contains pid p \<longleftrightarrow> map_of (bp_frames p) pid \<noteq> None"

definition pool_size :: "'p buffer_pool \<Rightarrow> nat" where
  "pool_size p = length (bp_frames p)"

definition pool_get :: "nat \<Rightarrow> 'p buffer_pool \<Rightarrow> 'p option \<times> 'p buffer_pool" where
  "pool_get pid p =
     (case map_of (bp_frames p) pid of
       None \<Rightarrow> (None, p)
     | Some f \<Rightarrow> (Some (fr_page f), p\<lparr>bp_frames := od_move_to_end pid (bp_frames p)\<rparr>))"

text \<open>\<^verbatim>\<open>_evict_one\<close>: the loop over the frames from the least recently used one.\<close>

fun evict_loop :: "(nat \<times> 'p frame) list \<Rightarrow> (nat \<times> 'p frame) list \<Rightarrow> (nat \<times> 'p) list \<times> (nat \<times> 'p frame) list" where
  "evict_loop seen [] = ([], seen)"
| "evict_loop seen ((pid, f) # fs) =
     (if fr_pins f = 0 then (if fr_dirty f then [(pid, fr_page f)] else [], seen @ fs)
      else evict_loop (seen @ [(pid, f)]) fs)"

definition evict_one :: "'p buffer_pool \<Rightarrow> (nat \<times> 'p) list \<times> 'p buffer_pool" where
  "evict_one p = (case evict_loop [] (bp_frames p) of (ev, fs) \<Rightarrow> (ev, p\<lparr>bp_frames := fs\<rparr>))"

definition pool_put :: "nat \<Rightarrow> 'p \<Rightarrow> bool \<Rightarrow> 'p buffer_pool \<Rightarrow> (nat \<times> 'p) list \<times> 'p buffer_pool" where
  "pool_put pid page dirty p =
     (if pool_contains pid p then
        ([], p\<lparr>bp_frames := od_move_to_end pid
           (od_modify pid (\<lambda>f. f\<lparr>fr_page := page, fr_dirty := fr_dirty f \<or> dirty\<rparr>) (bp_frames p))\<rparr>)
      else
        (case (if length (bp_frames p) \<ge> bp_capacity p then evict_one p else ([], p)) of
          (evicted, p) \<Rightarrow>
            (evicted, p\<lparr>bp_frames := bp_frames p @ [(pid, \<lparr>fr_page = page, fr_dirty = dirty, fr_pins = 0\<rparr>)]\<rparr>)))"

definition pool_mark_dirty :: "nat \<Rightarrow> 'p buffer_pool \<Rightarrow> 'p buffer_pool" where
  "pool_mark_dirty pid p = p\<lparr>bp_frames := od_modify pid (\<lambda>f. f\<lparr>fr_dirty := True\<rparr>) (bp_frames p)\<rparr>"

definition pool_clear_dirty :: "nat \<Rightarrow> 'p buffer_pool \<Rightarrow> 'p buffer_pool" where
  "pool_clear_dirty pid p = p\<lparr>bp_frames := od_modify pid (\<lambda>f. f\<lparr>fr_dirty := False\<rparr>) (bp_frames p)\<rparr>"

definition pool_pin :: "nat \<Rightarrow> 'p buffer_pool \<Rightarrow> 'p buffer_pool" where
  "pool_pin pid p = p\<lparr>bp_frames := od_modify pid (\<lambda>f. f\<lparr>fr_pins := fr_pins f + 1\<rparr>) (bp_frames p)\<rparr>"

definition pool_unpin :: "nat \<Rightarrow> 'p buffer_pool \<Rightarrow> 'p buffer_pool" where
  "pool_unpin pid p = p\<lparr>bp_frames := od_modify pid
     (\<lambda>f. if fr_pins f > 0 then f\<lparr>fr_pins := fr_pins f - 1\<rparr> else f) (bp_frames p)\<rparr>"

definition pool_dirty_pages :: "'p buffer_pool \<Rightarrow> (nat \<times> 'p) list" where
  "pool_dirty_pages p = map (\<lambda>(pid, f). (pid, fr_page f)) (filter (\<lambda>(pid, f). fr_dirty f) (bp_frames p))"

subsection \<open>The ordered dictionary\<close>

definition od_keys :: "('k \<times> 'v) list \<Rightarrow> 'k list" where
  "od_keys d = map fst d"

lemma od_keys_modify [simp]: "od_keys (od_modify k f d) = od_keys d"
  by (induction d) (auto simp: od_keys_def od_modify_def)

lemma od_keys_del: "od_keys (od_del k d) = filter (\<lambda>j. j \<noteq> k) (od_keys d)"
  by (induction d) (auto simp: od_keys_def od_del_def)

lemma map_of_modify: "map_of (od_modify k f d) j = (if j = k then map_option f (map_of d j) else map_of d j)"
  by (induction d) (auto simp: od_modify_def)

lemma map_of_del: "map_of (od_del k d) j = (if j = k then None else map_of d j)"
  by (induction d) (auto simp: od_del_def)

lemma map_of_snoc: "k \<notin> fst ` set d \<Longrightarrow> map_of (d @ [(k, v)]) = (map_of d)(k \<mapsto> v)"
  by (induction d) (auto simp: fun_eq_iff)

lemma od_del_absent: "k \<notin> fst ` set d \<Longrightarrow> od_del k d = d"
  by (induction d) (auto simp: od_del_def)

lemma map_of_move [simp]: "map_of (od_move_to_end k d) = map_of d"
  by (auto simp: od_move_to_end_def fun_eq_iff map_of_del map_add_def split: option.splits)

lemma length_modify [simp]: "length (od_modify k f d) = length d"
  by (simp add: od_modify_def)

lemma map_of_in_keys: "map_of d k = None \<longleftrightarrow> k \<notin> set (od_keys d)"
  by (simp add: od_keys_def map_of_eq_None_iff)

lemma od_keys_move:
  "k \<in> set (od_keys d) \<Longrightarrow> od_keys (od_move_to_end k d) = filter (\<lambda>j. j \<noteq> k) (od_keys d) @ [k]"
  using map_of_in_keys [of d k] by (auto simp: od_move_to_end_def od_keys_del [symmetric])
    (auto simp: od_keys_def)

lemma distinct_move: "distinct (od_keys d) \<Longrightarrow> distinct (od_keys (od_move_to_end k d))"
  by (cases "k \<in> set (od_keys d)")
    (simp_all add: od_keys_move, simp add: od_move_to_end_def map_of_in_keys [symmetric])

lemma set_keys_move [simp]: "set (od_keys (od_move_to_end k d)) = set (od_keys d)"
  by (cases "k \<in> set (od_keys d)")
    (auto simp: od_keys_move, simp_all add: od_move_to_end_def map_of_in_keys [symmetric])

lemma length_move [simp]: "distinct (od_keys d) \<Longrightarrow> length (od_move_to_end k d) = length d"
  using distinct_move [of d k] set_keys_move [of k d]
  by (metis distinct_card length_map od_keys_def)

subsection \<open>The operations\<close>

definition pool_wf :: "'p buffer_pool \<Rightarrow> bool" where
  "pool_wf p \<longleftrightarrow> 1 \<le> bp_capacity p \<and> distinct (od_keys (bp_frames p))"

definition pool_frame :: "'p buffer_pool \<Rightarrow> nat \<Rightarrow> 'p frame option" where
  "pool_frame p = map_of (bp_frames p)"

text \<open>The page ids from the least recently used one.\<close>

definition pool_lru :: "'p buffer_pool \<Rightarrow> nat list" where
  "pool_lru p = od_keys (bp_frames p)"

definition evictable :: "'p buffer_pool \<Rightarrow> bool" where
  "evictable p \<longleftrightarrow> (\<exists>(pid, f) \<in> set (bp_frames p). fr_pins f = 0)"

lemma pool_init_wf: "pool_init c = Inr p \<Longrightarrow> pool_wf p \<and> bp_frames p = []"
  by (auto simp: pool_init_def pool_wf_def od_keys_def split: if_splits)

lemma pool_contains_frame: "pool_contains pid p \<longleftrightarrow> pool_frame p pid \<noteq> None"
  by (simp add: pool_contains_def pool_frame_def)

lemma pool_get_ok:
  assumes "pool_wf p"
  shows "fst (pool_get pid p) = map_option fr_page (pool_frame p pid)"
    and "pool_wf (snd (pool_get pid p))" and "pool_frame (snd (pool_get pid p)) = pool_frame p"
    and "pool_contains pid p \<Longrightarrow> pool_lru (snd (pool_get pid p)) = filter (\<lambda>j. j \<noteq> pid) (pool_lru p) @ [pid]"
    and "pool_size (snd (pool_get pid p)) = pool_size p"
    and "bp_capacity (snd (pool_get pid p)) = bp_capacity p"
  using assms od_keys_move [of pid "bp_frames p"] map_of_in_keys [of "bp_frames p" pid]
  by (auto simp: pool_get_def pool_frame_def pool_wf_def pool_lru_def pool_size_def pool_contains_def
      distinct_move split: option.splits)

lemma pool_dirty_flag_ok:
  "pool_frame (pool_mark_dirty pid p) j =
     (if j = pid then map_option (\<lambda>f. f\<lparr>fr_dirty := True\<rparr>) (pool_frame p j) else pool_frame p j)"
  "pool_frame (pool_clear_dirty pid p) j =
     (if j = pid then map_option (\<lambda>f. f\<lparr>fr_dirty := False\<rparr>) (pool_frame p j) else pool_frame p j)"
  "pool_wf (pool_mark_dirty pid p) = pool_wf p" "pool_wf (pool_clear_dirty pid p) = pool_wf p"
  "pool_lru (pool_mark_dirty pid p) = pool_lru p" "pool_lru (pool_clear_dirty pid p) = pool_lru p"
  "pool_size (pool_mark_dirty pid p) = pool_size p" "pool_size (pool_clear_dirty pid p) = pool_size p"
  "bp_capacity (pool_mark_dirty pid p) = bp_capacity p" "bp_capacity (pool_clear_dirty pid p) = bp_capacity p"
  by (simp_all add: pool_mark_dirty_def pool_clear_dirty_def pool_frame_def map_of_modify pool_wf_def
      pool_lru_def pool_size_def)

lemma pool_pin_ok:
  "pool_frame (pool_pin pid p) j =
     (if j = pid then map_option (\<lambda>f. f\<lparr>fr_pins := fr_pins f + 1\<rparr>) (pool_frame p j) else pool_frame p j)"
  "pool_wf (pool_pin pid p) = pool_wf p" "pool_lru (pool_pin pid p) = pool_lru p"
  by (simp_all add: pool_pin_def pool_frame_def map_of_modify pool_wf_def pool_lru_def)

lemma pool_unpin_pin: "pool_frame (pool_unpin pid (pool_pin pid p)) = pool_frame p"
  by (auto simp: fun_eq_iff pool_frame_def pool_unpin_def pool_pin_def map_of_modify option.map_comp o_def
      option.map_ident)

text \<open>The victim is the first frame that is not pinned.\<close>

lemma evict_loop_skip:
  "\<forall>(j, g) \<in> set xs. fr_pins g > 0 \<Longrightarrow> evict_loop seen (xs @ fs) = evict_loop (seen @ xs) fs"
  by (induction xs arbitrary: seen) auto

lemma evict_one_none:
  assumes "\<not> evictable p"
  shows "evict_one p = ([], p)"
proof -
  have "\<forall>(j, g) \<in> set (bp_frames p). fr_pins g > 0"
    using assms by (auto simp: evictable_def)
  then have "evict_loop [] (bp_frames p @ []) = ([], bp_frames p)"
    by (subst evict_loop_skip) auto
  then show ?thesis by (simp add: evict_one_def)
qed

lemma evict_one_ok:
  assumes "evictable p"
  shows "\<exists>xs pid f ys. bp_frames p = xs @ (pid, f) # ys \<and> fr_pins f = 0
      \<and> (\<forall>(j, g) \<in> set xs. fr_pins g > 0)
      \<and> evict_one p = (if fr_dirty f then [(pid, fr_page f)] else [], p\<lparr>bp_frames := xs @ ys\<rparr>)"
proof -
  let ?P = "\<lambda>(j :: nat, f). fr_pins f = 0"
  have "\<exists>x \<in> set (bp_frames p). ?P x" using assms by (auto simp: evictable_def)
  then obtain xs y ys where split: "bp_frames p = xs @ y # ys" "?P y" "\<forall>x \<in> set xs. \<not> ?P x"
    by (rule split_list_first_propE)
  obtain pid f where y: "y = (pid, f)" by (cases y)
  have pinned: "\<forall>(j, g) \<in> set xs. fr_pins g > 0" using split(3) by auto
  then have "evict_loop [] (xs @ (pid, f) # ys) =
      (if fr_dirty f then [(pid, fr_page f)] else [], xs @ ys)"
    using split(2) y by (subst evict_loop_skip) auto
  then have "evict_one p = (if fr_dirty f then [(pid, fr_page f)] else [], p\<lparr>bp_frames := xs @ ys\<rparr>)"
    using split(1) y by (simp add: evict_one_def)
  moreover have "bp_frames p = xs @ (pid, f) # ys" "fr_pins f = 0" using split y by auto
  ultimately show ?thesis using pinned by blast
qed

text \<open>
  What a \<^verbatim>\<open>put\<close> does to the frames: the page is cached (dirty when it was or is); another frame
  is unchanged unless it is the victim, which was not pinned and is returned if it was dirty.
\<close>

definition pool_evicts :: "nat \<Rightarrow> 'p buffer_pool \<Rightarrow> bool" where
  "pool_evicts pid p \<longleftrightarrow> \<not> pool_contains pid p \<and> bp_capacity p \<le> pool_size p \<and> evictable p"

lemma pool_put_present:
  assumes "pool_wf p" "pool_frame p pid = Some f"
  shows "\<exists>p'. pool_put pid page dirty p = ([], p') \<and> pool_wf p' \<and>
      pool_frame p' = (pool_frame p)(pid \<mapsto> f\<lparr>fr_page := page, fr_dirty := fr_dirty f \<or> dirty\<rparr>) \<and>
      pool_lru p' = filter (\<lambda>j. j \<noteq> pid) (pool_lru p) @ [pid] \<and> pool_size p' = pool_size p \<and>
      bp_capacity p' = bp_capacity p"
proof -
  have "pid \<in> set (od_keys (bp_frames p))"
    using assms(2) map_of_in_keys [of "bp_frames p" pid] by (auto simp: pool_frame_def)
  then show ?thesis
    using assms
    by (auto simp: pool_put_def pool_contains_def pool_frame_def pool_wf_def pool_lru_def pool_size_def
        fun_eq_iff map_of_modify od_keys_move distinct_move)
qed

lemma pool_put_room:
  assumes "pool_wf p" "pool_frame p pid = None" "\<not> pool_evicts pid p"
  shows "\<exists>p'. pool_put pid page dirty p = ([], p') \<and> pool_wf p' \<and>
      pool_frame p' = (pool_frame p)(pid \<mapsto> \<lparr>fr_page = page, fr_dirty = dirty, fr_pins = 0\<rparr>) \<and>
      pool_lru p' = pool_lru p @ [pid] \<and> pool_size p' = Suc (pool_size p) \<and> bp_capacity p' = bp_capacity p"
proof -
  have "(if bp_capacity p \<le> length (bp_frames p) then evict_one p else ([], p)) = ([], p)"
    using assms(2,3) evict_one_none [of p]
    by (auto simp: pool_evicts_def pool_size_def pool_contains_frame)
  moreover have "pid \<notin> set (od_keys (bp_frames p))"
    using assms(2) map_of_in_keys [of "bp_frames p" pid] by (auto simp: pool_frame_def)
  ultimately show ?thesis
    using assms(1,2)
    by (auto simp: pool_put_def pool_contains_frame pool_frame_def pool_wf_def pool_lru_def pool_size_def
        fun_eq_iff od_keys_def map_add_def split: option.splits)
qed

lemma pool_put_evict:
  assumes wf: "pool_wf p" and ev: "pool_evicts pid p"
  shows "\<exists>p' xs victim f ys. pool_put pid page dirty p = (if fr_dirty f then [(victim, fr_page f)] else [], p')
      \<and> bp_frames p = xs @ (victim, f) # ys \<and> fr_pins f = 0 \<and> (\<forall>(j, g) \<in> set xs. fr_pins g > 0)
      \<and> victim \<noteq> pid \<and> pool_wf p'
      \<and> pool_frame p' = (pool_frame p)(victim := None, pid \<mapsto> \<lparr>fr_page = page, fr_dirty = dirty, fr_pins = 0\<rparr>)
      \<and> pool_lru p' = filter (\<lambda>j. j \<noteq> victim) (pool_lru p) @ [pid]
      \<and> pool_size p' = pool_size p \<and> bp_capacity p' = bp_capacity p"
proof -
  from ev have not_in: "pool_frame p pid = None" and full: "bp_capacity p \<le> length (bp_frames p)"
    and "evictable p"
    by (auto simp: pool_evicts_def pool_contains_frame pool_size_def)
  then obtain xs victim f ys where s: "bp_frames p = xs @ (victim, f) # ys" "fr_pins f = 0"
      "\<forall>(j, g) \<in> set xs. fr_pins g > 0"
      "evict_one p = (if fr_dirty f then [(victim, fr_page f)] else [], p\<lparr>bp_frames := xs @ ys\<rparr>)"
    using evict_one_ok by blast
  let ?new = "\<lparr>fr_page = page, fr_dirty = dirty, fr_pins = 0\<rparr>"
  let ?p' = "p\<lparr>bp_frames := (xs @ ys) @ [(pid, ?new)]\<rparr>"
  have pid: "pid \<notin> set (od_keys (bp_frames p))"
    using not_in map_of_in_keys [of "bp_frames p" pid] by (auto simp: pool_frame_def)
  have dis: "distinct (od_keys (bp_frames p))" using wf by (simp add: pool_wf_def)
  have put: "pool_put pid page dirty p = (if fr_dirty f then [(victim, fr_page f)] else [], ?p')"
    using s full not_in by (simp add: pool_put_def pool_contains_frame)
  have "victim \<notin> fst ` set xs" "victim \<notin> fst ` set ys"
    using dis s(1) by (auto simp: od_keys_def)
  then have del: "od_del victim (bp_frames p) = xs @ ys"
    using s(1) od_del_absent [of victim xs] od_del_absent [of victim ys] by (simp add: od_del_def)
  have "map_of (xs @ ys) = (map_of (bp_frames p))(victim := None)"
    by (rule ext) (simp add: del [symmetric] map_of_del)
  moreover have "pid \<notin> fst ` set (xs @ ys)" using pid s(1) by (auto simp: od_keys_def)
  then have "map_of ((xs @ ys) @ [(pid, ?new)]) = (map_of (xs @ ys))(pid \<mapsto> ?new)"
    by (rule map_of_snoc)
  ultimately have "pool_frame ?p' = (pool_frame p)(victim := None, pid \<mapsto> ?new)"
    by (simp add: pool_frame_def del: append_assoc map_of_append)
  moreover have "pool_wf ?p'" using wf dis pid s(1) by (auto simp: pool_wf_def od_keys_def)
  moreover have "victim \<noteq> pid" using pid s(1) by (auto simp: od_keys_def)
  moreover have "pool_lru ?p' = filter (\<lambda>j. j \<noteq> victim) (pool_lru p) @ [pid]"
    by (simp add: pool_lru_def od_keys_del [symmetric] del) (simp add: od_keys_def)
  moreover have "pool_size ?p' = pool_size p" "bp_capacity ?p' = bp_capacity p"
    using s(1) by (simp_all add: pool_size_def)
  ultimately show ?thesis using put s(1-3) by blast
qed

text \<open>The pool keeps to its capacity while nothing is pinned, which is how the pager uses it.\<close>

definition unpinned :: "'p buffer_pool \<Rightarrow> bool" where
  "unpinned p \<longleftrightarrow> (\<forall>(pid, f) \<in> set (bp_frames p). fr_pins f = 0)"

lemma unpinned_frame: "pool_wf p \<Longrightarrow> unpinned p \<longleftrightarrow> (\<forall>pid f. pool_frame p pid = Some f \<longrightarrow> fr_pins f = 0)"
  by (auto simp: unpinned_def pool_frame_def pool_wf_def od_keys_def dest: map_of_SomeD)

lemma pool_put_size:
  assumes "pool_wf p" "unpinned p" "pool_size p \<le> bp_capacity p"
  shows "pool_size (snd (pool_put pid page dirty p)) \<le> bp_capacity (snd (pool_put pid page dirty p))"
    and "unpinned (snd (pool_put pid page dirty p))"
proof -
  let ?p' = "snd (pool_put pid page dirty p)"
  have full: "evictable p" if "bp_capacity p \<le> pool_size p"
    using that assms(1,2) by (cases "bp_frames p") (auto simp: pool_size_def pool_wf_def unpinned_def evictable_def)
  consider f where "pool_frame p pid = Some f" | "pool_frame p pid = None" "\<not> pool_evicts pid p" | "pool_evicts pid p"
    by fastforce
  then have "pool_size ?p' \<le> bp_capacity ?p' \<and> unpinned ?p'"
  proof cases
    case 1
    with pool_put_present [OF assms(1) 1, of page dirty] assms show ?thesis
      by (fastforce simp: unpinned_frame split: if_splits)
  next
    case 2
    then have "pool_size p < bp_capacity p"
      using full by (force simp: pool_evicts_def pool_contains_frame)
    with pool_put_room [OF assms(1) 2, of page dirty] assms show ?thesis
      by (fastforce simp: unpinned_frame split: if_splits)
  next
    case 3
    with pool_put_evict [OF assms(1) 3, of page dirty] assms show ?thesis
      by (fastforce simp: unpinned_frame split: if_splits)
  qed
  then show "pool_size ?p' \<le> bp_capacity ?p'" "unpinned ?p'" by auto
qed

subsection \<open>Properties\<close>

text \<open>The operations of a pool as steps, and the pools a client can reach without pinning.\<close>

datatype 'p pool_op = Get nat | Put nat 'p bool | MarkDirty nat | ClearDirty nat

fun run_pool_op :: "'p pool_op \<Rightarrow> 'p buffer_pool \<Rightarrow> 'p buffer_pool" where
  "run_pool_op (Get pid) p = snd (pool_get pid p)"
| "run_pool_op (Put pid page dirty) p = snd (pool_put pid page dirty p)"
| "run_pool_op (MarkDirty pid) p = pool_mark_dirty pid p"
| "run_pool_op (ClearDirty pid) p = pool_clear_dirty pid p"

inductive pool_reach :: "'p buffer_pool \<Rightarrow> bool" where
  init: "pool_init c = Inr p \<Longrightarrow> pool_reach p"
| step: "pool_reach p \<Longrightarrow> pool_reach (run_pool_op oper p)"

lemma pool_put_keeps:
  assumes "pool_wf p"
  shows "pool_wf (snd (pool_put pid page dirty p)) \<and>
    bp_capacity (snd (pool_put pid page dirty p)) = bp_capacity p"
proof -
  consider f where "pool_frame p pid = Some f" | "pool_frame p pid = None" "\<not> pool_evicts pid p" | "pool_evicts pid p"
    by fastforce
  then show ?thesis
    by cases (use pool_put_present [OF assms] pool_put_room [OF assms] pool_put_evict [OF assms] in
        \<open>(metis snd_conv)+\<close>)
qed

text \<open>C37: a pool whose client never pins (as the pager uses it) never holds more pages than its capacity,
  whatever the sequence of operations, and never holds a page twice.\<close>
theorem pool_size_bounded:
  assumes "pool_reach p"
  shows "pool_wf p \<and> pool_size p \<le> bp_capacity p"
proof -
  from assms have "pool_wf p \<and> unpinned p \<and> pool_size p \<le> bp_capacity p"
  proof (induction rule: pool_reach.induct)
    case (init c p)
    then show ?case using pool_init_wf [OF init] by (simp add: unpinned_def pool_size_def)
  next
    case (step p oper)
    note IH = step.IH
    show ?case
    proof (cases oper)
      case (Get pid)
      with IH show ?thesis using pool_get_ok [of p pid] unpinned_frame [of p] by (simp add: unpinned_frame)
    next
      case (Put pid page dirty)
      with IH show ?thesis
        using pool_put_keeps [of p pid page dirty] pool_put_size [of p pid page dirty] by simp
    next
      case (MarkDirty pid)
      with IH show ?thesis by (auto simp: pool_dirty_flag_ok unpinned_frame)
    next
      case (ClearDirty pid)
      with IH show ?thesis by (auto simp: pool_dirty_flag_ok unpinned_frame)
    qed
  qed
  then show ?thesis by simp
qed

theorem pool_size_bounded_witness:
  "pool_size (run_pool_op (Put 2 (7 :: nat) True) (run_pool_op (Put 1 9 True) \<lparr>bp_capacity = 1, bp_frames = []\<rparr>)) \<le> (1 :: nat)"
proof -
  let ?fresh = "\<lparr>bp_capacity = 1, bp_frames = []\<rparr> :: nat buffer_pool"
  let ?p = "run_pool_op (Put 2 7 True) (run_pool_op (Put 1 9 True) ?fresh)"
  have "pool_init 1 = Inr ?fresh"
    by (simp add: pool_init_def)
  then have "pool_reach ?fresh"
    by (rule pool_reach.init)
  then have "pool_reach (run_pool_op (Put 1 9 True) ?fresh)"
    by (rule pool_reach.step)
  then have "pool_reach ?p"
    by (rule pool_reach.step)
  moreover have "bp_capacity ?p = 1" by (simp add: pool_put_def pool_contains_def evict_one_def)
  ultimately show ?thesis using pool_size_bounded [of ?p] by simp
qed

text \<open>Clients that also pin. A page is used when it is asked for or put; in \<open>remdups\<close> of the uses the pages are in the order of
  their last use.\<close>

datatype 'p client_op = Op "'p pool_op" | Pin nat | Unpin nat

fun run_client :: "'p client_op \<Rightarrow> 'p buffer_pool \<Rightarrow> 'p buffer_pool" where
  "run_client (Op x) p = run_pool_op x p"
| "run_client (Pin pid) p = pool_pin pid p"
| "run_client (Unpin pid) p = pool_unpin pid p"

fun used :: "'p client_op \<Rightarrow> nat list" where
  "used (Op (Get pid)) = [pid]"
| "used (Op (Put pid page dirty)) = [pid]"
| "used _ = []"

definition pool_client :: "'p client_op list \<Rightarrow> 'p buffer_pool \<Rightarrow> 'p buffer_pool" where
  "pool_client = fold run_client"

definition uses :: "'p client_op list \<Rightarrow> nat list" where
  "uses ops = concat (map used ops)"

definition is_cached :: "'p buffer_pool \<Rightarrow> nat \<Rightarrow> bool" where
  "is_cached p j \<longleftrightarrow> pool_frame p j \<noteq> None"

definition is_unpinned :: "'p buffer_pool \<Rightarrow> nat \<Rightarrow> bool" where
  "is_unpinned p j \<longleftrightarrow> (case pool_frame p j of None \<Rightarrow> False | Some f \<Rightarrow> fr_pins f = 0)"

text \<open>The frames are in the order of the last use of their pages.\<close>

definition lru_inv :: "nat list \<Rightarrow> 'p buffer_pool \<Rightarrow> bool" where
  "lru_inv us p \<longleftrightarrow> pool_wf p \<and> pool_lru p = filter (is_cached p) (remdups us)"

lemma remdups_snoc: "remdups (us @ [j]) = filter (\<lambda>i. i \<noteq> j) (remdups us) @ [j]"
  by (induction us) auto

lemma cached_lru: "is_cached p j \<longleftrightarrow> j \<in> set (pool_lru p)"
  using map_of_in_keys [of "bp_frames p" j] by (simp add: is_cached_def pool_frame_def pool_lru_def)

lemma lru_used:
  assumes "lru_inv us p" "pool_wf p'" "pool_lru p' = filter (\<lambda>i. Q i \<and> i \<noteq> j) (pool_lru p) @ [j]"
    "\<And>i. is_cached p' i \<longleftrightarrow> i = j \<or> is_cached p i \<and> Q i"
  shows "lru_inv (us @ [j]) p'"
proof -
  have "filter (\<lambda>i. Q i \<and> i \<noteq> j) (filter (is_cached p) (remdups us)) = filter (is_cached p') (filter (\<lambda>i. i \<noteq> j) (remdups us))"
    by (auto simp: assms(4) intro: filter_cong)
  moreover have "is_cached p' j" using assms(4) by simp
  ultimately show ?thesis using assms(1-3) by (simp add: lru_inv_def remdups_snoc)
qed

lemma lru_put:
  assumes "lru_inv us p"
  shows "lru_inv (us @ [pid]) (snd (pool_put pid page dirty p))"
proof -
  let ?p' = "snd (pool_put pid page dirty p)"
  have wf: "pool_wf p" using assms by (simp add: lru_inv_def)
  consider f where "pool_frame p pid = Some f" | "pool_frame p pid = None" "\<not> pool_evicts pid p" | "pool_evicts pid p"
    by fastforce
  then show ?thesis
  proof cases
    case 1
    with pool_put_present [OF wf 1, of page dirty] show ?thesis
      by (intro lru_used [OF assms, where Q = "\<lambda>_. True"]) (auto simp: is_cached_def)
  next
    case 2
    then have "pid \<notin> set (pool_lru p)" using cached_lru [of p pid] by (simp add: is_cached_def)
    then have "filter (\<lambda>i. i \<noteq> pid) (pool_lru p) = pool_lru p" by (auto intro: filter_True)
    with pool_put_room [OF wf 2, of page dirty] show ?thesis
      by (intro lru_used [OF assms, where Q = "\<lambda>_. True"]) (auto simp: is_cached_def)
  next
    case 3
    obtain victim where v: "victim \<noteq> pid" "pool_wf ?p'" "pool_lru ?p' = filter (\<lambda>j. j \<noteq> victim) (pool_lru p) @ [pid]"
      "pool_frame ?p' = (pool_frame p)(victim := None, pid \<mapsto> \<lparr>fr_page = page, fr_dirty = dirty, fr_pins = 0\<rparr>)"
      using pool_put_evict [OF wf 3, of page dirty] by force
    have "pid \<notin> set (pool_lru p)" using 3 cached_lru [of p pid] by (simp add: is_cached_def pool_evicts_def pool_contains_frame)
    then have "filter (\<lambda>i. i \<noteq> victim \<and> i \<noteq> pid) (pool_lru p) = filter (\<lambda>i. i \<noteq> victim) (pool_lru p)"
      by (auto intro: filter_cong)
    with v show ?thesis by (intro lru_used [OF assms, where Q = "\<lambda>i. i \<noteq> victim"]) (auto simp: is_cached_def)
  qed
qed

lemma lru_get:
  assumes "lru_inv us p"
  shows "lru_inv (us @ [pid]) (snd (pool_get pid p))"
proof (cases "pool_contains pid p")
  case True
  with pool_get_ok [of p pid] assms show ?thesis
    by (intro lru_used [OF assms, where Q = "\<lambda>_. True"]) (auto simp: is_cached_def lru_inv_def pool_contains_frame)
next
  case False
  then have "snd (pool_get pid p) = p" by (simp add: pool_get_def pool_contains_def)
  moreover have "filter (is_cached p) (filter (\<lambda>i. i \<noteq> pid) (remdups us)) = filter (is_cached p) (remdups us)"
    using False by (auto simp: is_cached_def pool_contains_frame intro: filter_cong)
  ultimately show ?thesis using False assms by (simp add: lru_inv_def remdups_snoc is_cached_def pool_contains_frame)
qed

lemma lru_client: "lru_inv us p \<Longrightarrow> lru_inv (us @ uses ops) (pool_client ops p)"
proof (induction ops arbitrary: us p)
  case (Cons oper ops)
  have same: "lru_inv us p'" if "pool_wf p' = pool_wf p" "pool_lru p' = pool_lru p" for p'
  proof -
    have "is_cached p' = is_cached p" using that(2) by (simp add: fun_eq_iff cached_lru)
    with Cons.prems that show ?thesis by (simp add: lru_inv_def)
  qed
  have "lru_inv (us @ used oper) (run_client oper p)"
  proof (cases oper)
    case (Op x)
    then show ?thesis using Cons.prems lru_put lru_get by (cases x) (auto intro: same simp: pool_dirty_flag_ok)
  next
    case (Pin pid)
    then show ?thesis by (auto intro: same simp: pool_pin_ok)
  next
    case (Unpin pid)
    then show ?thesis by (auto intro: same simp: pool_unpin_def pool_wf_def pool_lru_def)
  qed
  from Cons.IH [OF this] show ?case by (simp add: uses_def pool_client_def)
qed (simp add: uses_def pool_client_def)

lemma find_filter: "(\<And>x. P x \<Longrightarrow> Q x) \<Longrightarrow> find P (filter Q xs) = find P xs"
  by (induction xs) auto

text \<open>The page that \<^verbatim>\<open>put\<close> evicts, from the history of uses.\<close>

definition put_victim :: "nat list \<Rightarrow> nat \<Rightarrow> 'p buffer_pool \<Rightarrow> nat option" where
  "put_victim us pid p =
     (if \<not> is_cached p pid \<and> bp_capacity p \<le> pool_size p then find (is_unpinned p) (remdups us) else None)"

lemma victim_found:
  assumes inv: "lru_inv us p" and s: "bp_frames p = xs @ (v, f) # ys" "fr_pins f = 0" "\<forall>(j, g) \<in> set xs. fr_pins g > 0"
  shows "find (is_unpinned p) (remdups us) = Some v \<and> pool_frame p v = Some f"
proof -
  have dis: "distinct (map fst (bp_frames p))" and lru: "pool_lru p = filter (is_cached p) (remdups us)"
    using inv by (simp_all add: lru_inv_def pool_wf_def od_keys_def)
  have v: "pool_frame p v = Some f" using map_of_is_SomeI [OF dis] s(1) by (simp add: pool_frame_def)
  have "\<not> is_unpinned p j" if "j \<in> fst ` set xs" for j
  proof -
    obtain g where g: "(j, g) \<in> set xs" using \<open>j \<in> fst ` set xs\<close> by force
    then have "pool_frame p j = Some g" using map_of_is_SomeI [OF dis] s(1) by (simp add: pool_frame_def)
    with g s(3) show ?thesis by (auto simp: is_unpinned_def)
  qed
  then have "find (is_unpinned p) (map fst xs @ v # map fst ys) = Some v"
    using v s(2) by (induction xs) (auto simp: is_unpinned_def)
  moreover have "pool_lru p = map fst xs @ v # map fst ys" using s(1) by (simp add: pool_lru_def od_keys_def)
  moreover have "find (is_unpinned p) (pool_lru p) = find (is_unpinned p) (remdups us)"
    unfolding lru by (rule find_filter) (auto simp: is_unpinned_def is_cached_def split: option.splits)
  ultimately show ?thesis using v by simp
qed

lemma no_victim:
  assumes "lru_inv us p" "\<not> evictable p"
  shows "find (is_unpinned p) (remdups us) = None"
proof -
  have "\<not> is_unpinned p j" for j
    using assms(2) by (auto simp: is_unpinned_def evictable_def pool_frame_def dest: map_of_SomeD split: option.splits)
  then show ?thesis by (simp add: find_None_iff)
qed

text \<open>C36: after any history of a pool, pins included, \<^verbatim>\<open>put\<close> caches the page, dirty if it was dirty or is put dirty, and
  with the pins it had; it evicts exactly when the page is new, the pool is full and some page is not pinned, and then of the pages that
  are not pinned the one whose last use is longest ago. It returns this page if it was dirty and nothing otherwise; every other
  page stays cached as it was, and the frames stay in the order of last use.\<close>
theorem pool_put_correct:
  assumes "pool_init c = Inr p0" "p = pool_client ops p0" "pool_put pid page dirty p = (evicted, p')"
  defines "victim \<equiv> put_victim (uses ops) pid p"
  shows "pool_frame p' = (\<lambda>j. if Some j = victim then None else pool_frame p j)(pid \<mapsto>
      (case pool_frame p pid of
        Some f \<Rightarrow> f\<lparr>fr_page := page, fr_dirty := fr_dirty f \<or> dirty\<rparr>
      | None \<Rightarrow> \<lparr>fr_page = page, fr_dirty = dirty, fr_pins = 0\<rparr>))
    \<and> evicted = (case victim of
        Some v \<Rightarrow> (case pool_frame p v of Some f \<Rightarrow> if fr_dirty f then [(v, fr_page f)] else [] | None \<Rightarrow> [])
      | None \<Rightarrow> [])
    \<and> pool_lru p' = filter (is_cached p') (remdups (uses ops @ [pid]))"
proof -
  have "lru_inv [] p0" using pool_init_wf [OF assms(1)] by (simp add: lru_inv_def pool_lru_def od_keys_def)
  then have inv: "lru_inv (uses ops) p" using lru_client [of "[]" p0 ops] assms(2) by simp
  then have wf: "pool_wf p" by (simp add: lru_inv_def)
  have order: "pool_lru p' = filter (is_cached p') (remdups (uses ops @ [pid]))"
    using lru_put [OF inv, of pid page dirty] assms(3) by (simp add: lru_inv_def)
  consider f where "pool_frame p pid = Some f" | "pool_frame p pid = None" "\<not> pool_evicts pid p" | "pool_evicts pid p"
    by fastforce
  then show ?thesis
  proof cases
    case 1
    with pool_put_present [OF wf 1, of page dirty] assms(3) order show ?thesis
      by (auto simp: victim_def put_victim_def is_cached_def)
  next
    case 2
    then have "victim = None"
      using no_victim [OF inv] by (auto simp: victim_def put_victim_def is_cached_def pool_evicts_def pool_contains_frame)
    with 2 pool_put_room [OF wf 2, of page dirty] assms(3) order show ?thesis by auto
  next
    case 3
    obtain xs v f ys where s: "evicted = (if fr_dirty f then [(v, fr_page f)] else [])"
      "bp_frames p = xs @ (v, f) # ys" "fr_pins f = 0" "\<forall>(i, g) \<in> set xs. fr_pins g > 0"
      "pool_frame p' = (pool_frame p)(v := None, pid \<mapsto> \<lparr>fr_page = page, fr_dirty = dirty, fr_pins = 0\<rparr>)"
      using pool_put_evict [OF wf 3, of page dirty] unfolding assms(3) prod.inject by metis
    have full: "bp_capacity p \<le> pool_size p" "pool_frame p pid = None" using 3 by (auto simp: pool_evicts_def pool_contains_frame)
    have v: "victim = Some v" "pool_frame p v = Some f"
      using victim_found [OF inv s(2-4)] full by (simp_all add: victim_def put_victim_def is_cached_def)
    with s(1,5) full order show ?thesis by auto
  qed
qed

theorem pool_put_correct_witness:
  "\<exists>p'. pool_put 4 10 False (pool_client [Op (Put 1 (7 :: nat) True), Op (Put 2 8 True), Op (Put 3 9 False), Op (Put 1 5 False), Pin 2]
      \<lparr>bp_capacity = 3, bp_frames = []\<rparr>) = ([], p') \<and> pool_lru p' = [2, 1, 4]"
proof -
  let ?ops = "[Op (Put 1 (7 :: nat) True), Op (Put 2 8 True), Op (Put 3 9 False), Op (Put 1 5 False), Pin 2]"
  let ?p = "pool_client ?ops \<lparr>bp_capacity = 3, bp_frames = []\<rparr>"
  have init: "pool_init 3 = Inr \<lparr>bp_capacity = 3, bp_frames = []\<rparr>" by (simp add: pool_init_def)
  obtain evicted p' where put: "pool_put 4 10 False ?p = (evicted, p')" by force
  have p: "?p = \<lparr>bp_capacity = 3, bp_frames = [(2, \<lparr>fr_page = 8, fr_dirty = True, fr_pins = 1\<rparr>),
      (3, \<lparr>fr_page = 9, fr_dirty = False, fr_pins = 0\<rparr>), (1, \<lparr>fr_page = 5, fr_dirty = True, fr_pins = 0\<rparr>)]\<rparr>"
    by (simp add: pool_client_def pool_put_def pool_contains_def od_move_to_end_def od_del_def od_modify_def pool_pin_def)
  have frames: "pool_frame ?p = [2 \<mapsto> \<lparr>fr_page = 8, fr_dirty = True, fr_pins = 1\<rparr>, 3 \<mapsto> \<lparr>fr_page = 9, fr_dirty = False, fr_pins = 0\<rparr>,
      1 \<mapsto> \<lparr>fr_page = 5, fr_dirty = True, fr_pins = 0\<rparr>]"
    unfolding p pool_frame_def by (auto simp: fun_eq_iff)
  have us: "uses ?ops = [1, 2, 3, 1]" by (simp add: uses_def)
  have victim: "put_victim (uses ?ops) 4 ?p = Some 3"
    unfolding put_victim_def us is_cached_def is_unpinned_def frames unfolding p by (simp add: pool_size_def)
  note res = pool_put_correct [OF init refl put, unfolded victim option.case]
  have "evicted = []" using res unfolding frames by simp
  moreover have "pool_lru p' = [2, 1, 4]" using res unfolding us frames by (auto simp: is_cached_def)
  ultimately show ?thesis using put by simp
qed

end
