(* ===== verification/Wal.thy ===== *)
theory Wal
  imports Prelude
begin

unbundle bit_operations_syntax

section \<open>The write-ahead log (\<^verbatim>\<open>src/wal.py\<close>)\<close>

text \<open>
  The log is a file of bytes with a position and a buffer of records that are not yet written. The
  operations are translated on bytes, the CRC included. The specification is a log without files
  (\<open>log_state\<close>, \<open>log_step\<close>): the records appended so far with their LSNs, and which of them a sync made durable. The
  lemmas show that every history of the log refines it, and that recovery of a log with a torn tail is
  the replay of its intact records, of which exactly those outside a transaction or inside a committed one take effect.
\<close>

subsection \<open>CRC-32 (\<^verbatim>\<open>zlib.crc32\<close>)\<close>

definition crc_bit :: "32 word \<Rightarrow> 32 word" where
  "crc_bit c = (if c AND 1 = 1 then drop_bit 1 c XOR 0xEDB88320 else drop_bit 1 c)"

definition crc_byte :: "32 word \<Rightarrow> 8 word \<Rightarrow> 32 word" where
  "crc_byte c b = (crc_bit ^^ 8) (c XOR ucast b)"

definition crc32 :: "bytes \<Rightarrow> 32 word" where
  "crc32 bs = NOT (foldl crc_byte (NOT 0) bs)"

definition wal_crc :: "bytes \<Rightarrow> nat" where
  "wal_crc bs = unat (crc32 bs AND 0xFFFFFFFF)"

subsection \<open>State and records\<close>

record wal =
  w_next_lsn :: nat
  w_flushed_lsn :: nat
  w_buf :: "(nat \<times> bytes) list"
  w_file :: bytes
  w_pos :: nat

definition PAGE_WRITE :: nat where "PAGE_WRITE = 1"
definition CHECKPOINT :: nat where "CHECKPOINT = 2"
definition META_UPDATE :: nat where "META_UPDATE = 3"
definition TXN_BEGIN :: nat where "TXN_BEGIN = 4"
definition TXN_COMMIT :: nat where "TXN_COMMIT = 5"
definition TXN_ABORT :: nat where "TXN_ABORT = 6"
definition PW_DATA :: nat where "PW_DATA = 4096"
definition NO_ROOT :: nat where "NO_ROOT = 0xFFFFFFFF"

lemmas wal_consts = PAGE_WRITE_def CHECKPOINT_def META_UPDATE_def TXN_BEGIN_def TXN_COMMIT_def
  TXN_ABORT_def PW_DATA_def NO_ROOT_def

datatype wal_rec =
    PageWrite nat bytes
  | MetaUpdate "nat option"
  | Checkpoint
  | TxnBegin nat
  | TxnCommit nat
  | TxnAbort nat

subsection \<open>Appending\<close>

text \<open>The common part of the \<^verbatim>\<open>append_\<close> methods: take an LSN, build the payload, buffer the record.\<close>

definition wal_append :: "(nat \<Rightarrow> bytes res) \<Rightarrow> (wal, nat) act" where
  "wal_append mk_payload =
     bnd (gets w_next_lsn) (\<lambda>lsn.
     bnd (modify (\<lambda>w. w\<lparr>w_next_lsn := w_next_lsn w + 1\<rparr>)) (\<lambda>_.
     bnd (lift_res (mk_payload lsn)) (\<lambda>payload.
     bnd (lift_res (pack_u 4 (int (wal_crc payload)))) (\<lambda>crc.
     bnd (modify (\<lambda>w. w\<lparr>w_buf := w_buf w @ [(lsn, payload @ crc)]\<rparr>)) (\<lambda>_.
     ret lsn)))))"

text \<open>\<^verbatim>\<open>struct.pack('<QB\<dots>', lsn, type, v)\<close> with a last field of \<open>k\<close> bytes.\<close>

definition pack_qb :: "nat \<Rightarrow> nat \<Rightarrow> bytes res" where
  "pack_qb lsn ty = bind_res (pack_u 8 (int lsn)) (\<lambda>a. bind_res (pack_u 1 (int ty)) (\<lambda>b. Inr (a @ b)))"

definition pack_qbv :: "nat \<Rightarrow> nat \<Rightarrow> nat \<Rightarrow> nat \<Rightarrow> bytes res" where
  "pack_qbv lsn ty k v = bind_res (pack_qb lsn ty) (\<lambda>a. bind_res (pack_u k (int v)) (\<lambda>b. Inr (a @ b)))"

definition append_page_write :: "nat \<Rightarrow> bytes \<Rightarrow> (wal, nat) act" where
  "append_page_write page_id page_bytes =
     (if length page_bytes \<noteq> 4096 then throw AssertionError
      else wal_append (\<lambda>lsn. bind_res (pack_qbv lsn PAGE_WRITE 4 page_id) (\<lambda>h. Inr (h @ page_bytes))))"

definition append_meta_update :: "nat option \<Rightarrow> (wal, nat) act" where
  "append_meta_update root_page_id =
     wal_append (\<lambda>lsn. pack_qbv lsn META_UPDATE 4 (case root_page_id of None \<Rightarrow> NO_ROOT | Some r \<Rightarrow> r))"

definition append_checkpoint :: "(wal, nat) act" where
  "append_checkpoint = wal_append (\<lambda>lsn. pack_qb lsn CHECKPOINT)"

definition append_txn_record :: "nat \<Rightarrow> nat \<Rightarrow> (wal, nat) act" where
  "append_txn_record rec_type txn_id = wal_append (\<lambda>lsn. pack_qbv lsn rec_type 8 txn_id)"

definition append_txn_begin :: "nat \<Rightarrow> (wal, nat) act" where
  "append_txn_begin txn_id = append_txn_record TXN_BEGIN txn_id"

definition append_txn_commit :: "nat \<Rightarrow> (wal, nat) act" where
  "append_txn_commit txn_id = append_txn_record TXN_COMMIT txn_id"

definition append_txn_abort :: "nat \<Rightarrow> (wal, nat) act" where
  "append_txn_abort txn_id = append_txn_record TXN_ABORT txn_id"

subsection \<open>fsync, checkpoint, open\<close>

text \<open>\<^verbatim>\<open>file.write\<close> at the position of the file.\<close>

definition file_write :: "nat \<Rightarrow> bytes \<Rightarrow> bytes \<Rightarrow> bytes" where
  "file_write pos v f = take pos f @ replicate (pos - length f) 0 @ v @ drop (pos + length v) f"

definition fsync_up_to :: "nat \<Rightarrow> wal \<Rightarrow> wal" where
  "fsync_up_to lsn w =
     (let to_write = map snd (filter (\<lambda>(l, b). l \<le> lsn) (w_buf w));
          remaining = filter (\<lambda>(l, b). \<not> l \<le> lsn) (w_buf w);
          w' = (if to_write \<noteq> [] then
                  w\<lparr>w_file := file_write (w_pos w) (concat to_write) (w_file w),
                    w_pos := w_pos w + length (concat to_write),
                    w_flushed_lsn := max (w_flushed_lsn w) lsn\<rparr>
                else w)
      in w'\<lparr>w_buf := remaining\<rparr>)"

definition wal_fsync :: "wal \<Rightarrow> wal" where
  "wal_fsync w = (if w_buf w \<noteq> [] then fsync_up_to (fst (last (w_buf w))) w else w)"

definition wal_checkpoint :: "(wal, unit) act" where
  "wal_checkpoint =
     bnd append_checkpoint (\<lambda>_.
     bnd (modify wal_fsync) (\<lambda>_.
     modify (\<lambda>w. w\<lparr>w_file := [], w_pos := 0\<rparr>)))"

definition wal_is_empty :: "wal \<Rightarrow> bool" where
  "wal_is_empty w \<longleftrightarrow> length (w_file w) = 0 \<and> length (w_buf w) = 0"

text \<open>
  Reading one record from the rest of the file: the record with its LSN, or nothing at the end of
  the file, at a torn record, at a CRC mismatch and at an unknown type; and the bytes not yet read.
\<close>

definition read_body :: "nat \<Rightarrow> bytes \<Rightarrow> bytes \<Rightarrow> bytes option \<times> bytes" where
  "read_body n header data =
     (let rest = take n data; left = drop n data in
      if length rest < n then (None, left)
      else if wal_crc (header @ take (n - 4) rest) \<noteq> le_nat (drop (n - 4) rest) then (None, left)
      else (Some rest, left))"

definition body_size :: "nat \<Rightarrow> nat option" where
  "body_size rec_type =
     (if rec_type = PAGE_WRITE then Some (4 + PW_DATA + 4)
      else if rec_type = META_UPDATE then Some (4 + 4)
      else if rec_type = TXN_BEGIN \<or> rec_type = TXN_COMMIT \<or> rec_type = TXN_ABORT then Some (8 + 4)
      else if rec_type = CHECKPOINT then Some 4
      else None)"

definition body_rec :: "nat \<Rightarrow> bytes \<Rightarrow> wal_rec" where
  "body_rec rec_type rest =
     (if rec_type = PAGE_WRITE then PageWrite (le_nat (seg 0 4 rest)) (seg 4 (4 + PW_DATA) rest)
      else if rec_type = META_UPDATE then
        (let root = le_nat (seg 0 4 rest) in MetaUpdate (if root = NO_ROOT then None else Some root))
      else if rec_type = TXN_BEGIN then TxnBegin (le_nat (seg 0 8 rest))
      else if rec_type = TXN_COMMIT then TxnCommit (le_nat (seg 0 8 rest))
      else if rec_type = TXN_ABORT then TxnAbort (le_nat (seg 0 8 rest))
      else Checkpoint)"

definition parse_rec :: "bytes \<Rightarrow> (nat \<times> wal_rec) option \<times> bytes" where
  "parse_rec data =
     (let header = take 9 data; data = drop 9 data in
      if length header < 9 then (None, data)
      else
        let lsn = le_nat (take 8 header); rec_type = unat (header ! 8) in
        case body_size rec_type of
          None \<Rightarrow> (None, data)
        | Some n \<Rightarrow>
            (case read_body n header data of
              (None, left) \<Rightarrow> (None, left)
            | (Some rest, left) \<Rightarrow> (Some (lsn, body_rec rec_type rest), left)))"

lemma read_body_left: "read_body n h d = (r, left) \<Longrightarrow> left = drop n d"
  by (auto simp: read_body_def Let_def split: if_splits)

lemma parse_rec_less:
  assumes "parse_rec data = (Some r, left)"
  shows "length left < length data"
  using assms
  by (auto simp: parse_rec_def Let_def split: if_splits option.splits prod.splits dest: read_body_left)

subsection \<open>Scanning and recovery\<close>

text \<open>\<^verbatim>\<open>_scan_for_max_lsn\<close>, on the bytes not yet read, with the value of \<^verbatim>\<open>_next_lsn\<close>.\<close>

function scan_loop :: "bytes \<Rightarrow> nat \<Rightarrow> nat" where
  "scan_loop data next_lsn =
     (case parse_rec data of
       (None, left) \<Rightarrow> next_lsn
     | (Some (lsn, r), left) \<Rightarrow> scan_loop left (max next_lsn (lsn + 1)))"
  by pat_completeness auto
termination
  by (relation "measure (\<lambda>(data, n). length data)") (auto dest: sym [THEN parse_rec_less])

declare scan_loop.simps [simp del]

text \<open>\<^verbatim>\<open>__init__\<close>, on the contents of the file if there is one.\<close>

definition wal_open :: "bytes option \<Rightarrow> wal" where
  "wal_open f =
     (case f of
       None \<Rightarrow> \<lparr>w_next_lsn = 1, w_flushed_lsn = 0, w_buf = [], w_file = [], w_pos = 0\<rparr>
     | Some data \<Rightarrow>
         \<lparr>w_next_lsn = scan_loop data 1, w_flushed_lsn = 0, w_buf = [], w_file = data,
          w_pos = length data\<rparr>)"

text \<open>The variables of \<^verbatim>\<open>recover\<close>; \<open>rv_out\<close> is the state \<^verbatim>\<open>write_page_fn\<close> writes to.\<close>

record 's recovery =
  rv_max_page_id :: int
  rv_root_page_id :: "nat option"
  rv_had_meta :: bool
  rv_active :: "nat option"
  rv_pages :: "(nat \<times> bytes) list"
  rv_meta :: "nat option list"
  rv_out :: 's

definition rv_write :: "(nat \<Rightarrow> bytes \<Rightarrow> 's \<Rightarrow> 's) \<Rightarrow> nat \<Rightarrow> bytes \<Rightarrow> 's recovery \<Rightarrow> 's recovery" where
  "rv_write wr pid pb v = v\<lparr>rv_out := wr pid pb (rv_out v), rv_max_page_id := max (rv_max_page_id v) (int pid)\<rparr>"

definition apply_pages :: "(nat \<Rightarrow> bytes \<Rightarrow> 's \<Rightarrow> 's) \<Rightarrow> 's recovery \<Rightarrow> 's recovery" where
  "apply_pages wr v =
     (let v' = fold (\<lambda>(pid, pb). rv_write wr pid pb) (rv_pages v) v in
      if rv_meta v \<noteq> [] then v'\<lparr>rv_root_page_id := last (rv_meta v), rv_had_meta := True\<rparr> else v')"

definition rv_clear :: "'s recovery \<Rightarrow> 's recovery" where
  "rv_clear v = v\<lparr>rv_active := None, rv_pages := [], rv_meta := []\<rparr>"

fun recover_step :: "(nat \<Rightarrow> bytes \<Rightarrow> 's \<Rightarrow> 's) \<Rightarrow> wal_rec \<Rightarrow> 's recovery \<Rightarrow> 's recovery" where
  "recover_step wr (PageWrite pid pb) v =
     (if rv_active v = None then rv_write wr pid pb v
      else v\<lparr>rv_pages := rv_pages v @ [(pid, pb)]\<rparr>)"
| "recover_step wr (MetaUpdate root) v =
     (if rv_active v = None then v\<lparr>rv_root_page_id := root, rv_had_meta := True\<rparr>
      else v\<lparr>rv_meta := rv_meta v @ [root]\<rparr>)"
| "recover_step wr (TxnBegin t) v = v\<lparr>rv_active := Some t, rv_pages := [], rv_meta := []\<rparr>"
| "recover_step wr (TxnCommit t) v =
     rv_clear (if rv_active v = Some t then apply_pages wr v else v)"
| "recover_step wr (TxnAbort t) v = rv_clear v"
| "recover_step wr Checkpoint v = v"

text \<open>The loop of \<^verbatim>\<open>recover\<close>: the variables, \<^verbatim>\<open>_next_lsn\<close> and the bytes left unread.\<close>

function recover_loop ::
  "(nat \<Rightarrow> bytes \<Rightarrow> 's \<Rightarrow> 's) \<Rightarrow> bytes \<Rightarrow> 's recovery \<Rightarrow> nat \<Rightarrow> 's recovery \<times> nat \<times> bytes" where
  "recover_loop wr data v next_lsn =
     (case parse_rec data of
       (None, left) \<Rightarrow> (v, next_lsn, left)
     | (Some (lsn, r), left) \<Rightarrow> recover_loop wr left (recover_step wr r v) (max next_lsn (lsn + 1)))"
  by pat_completeness auto
termination
  by (relation "measure (\<lambda>(wr, data, v, n). length data)") (auto dest: sym [THEN parse_rec_less])

declare recover_loop.simps [simp del]

definition rv_init :: "'s \<Rightarrow> 's recovery" where
  "rv_init s = \<lparr>rv_max_page_id = -1, rv_root_page_id = None, rv_had_meta = False, rv_active = None,
     rv_pages = [], rv_meta = [], rv_out = s\<rparr>"

record recover_info =
  ri_max_page_id :: int
  ri_root_page_id :: "nat option"
  ri_had_meta :: bool

definition wal_recover :: "(nat \<Rightarrow> bytes \<Rightarrow> 's \<Rightarrow> 's) \<Rightarrow> wal \<Rightarrow> 's \<Rightarrow> recover_info \<times> wal \<times> 's" where
  "wal_recover wr w s =
     (case recover_loop wr (w_file w) (rv_init s) (w_next_lsn w) of
       (v, next_lsn, left) \<Rightarrow>
         (\<lparr>ri_max_page_id = rv_max_page_id v, ri_root_page_id = rv_root_page_id v, ri_had_meta = rv_had_meta v\<rparr>,
          w\<lparr>w_next_lsn := next_lsn, w_pos := length (w_file w) - length left\<rparr>,
          rv_out v))"

definition wal_close :: "wal \<Rightarrow> wal" where
  "wal_close w = wal_fsync w"

subsection \<open>The bytes of a record\<close>

fun rec_type :: "wal_rec \<Rightarrow> nat" where
  "rec_type (PageWrite _ _) = PAGE_WRITE"
| "rec_type (MetaUpdate _) = META_UPDATE"
| "rec_type Checkpoint = CHECKPOINT"
| "rec_type (TxnBegin _) = TXN_BEGIN"
| "rec_type (TxnCommit _) = TXN_COMMIT"
| "rec_type (TxnAbort _) = TXN_ABORT"

fun rec_body :: "wal_rec \<Rightarrow> bytes" where
  "rec_body (PageWrite pid pb) = le_bytes 4 pid @ pb"
| "rec_body (MetaUpdate r) = le_bytes 4 (case r of None \<Rightarrow> NO_ROOT | Some n \<Rightarrow> n)"
| "rec_body Checkpoint = []"
| "rec_body (TxnBegin t) = le_bytes 8 t"
| "rec_body (TxnCommit t) = le_bytes 8 t"
| "rec_body (TxnAbort t) = le_bytes 8 t"

fun rec_ok :: "wal_rec \<Rightarrow> bool" where
  "rec_ok (PageWrite pid pb) \<longleftrightarrow> pid < 2 ^ 32 \<and> length pb = 4096"
| "rec_ok (MetaUpdate r) \<longleftrightarrow> (\<forall>n. r = Some n \<longrightarrow> n < NO_ROOT)"
| "rec_ok Checkpoint \<longleftrightarrow> True"
| "rec_ok (TxnBegin t) \<longleftrightarrow> t < 2 ^ 64"
| "rec_ok (TxnCommit t) \<longleftrightarrow> t < 2 ^ 64"
| "rec_ok (TxnAbort t) \<longleftrightarrow> t < 2 ^ 64"

definition rec_payload :: "nat \<times> wal_rec \<Rightarrow> bytes" where
  "rec_payload lr = le_bytes 8 (fst lr) @ [byte (rec_type (snd lr))] @ rec_body (snd lr)"

definition enc_rec :: "nat \<times> wal_rec \<Rightarrow> bytes" where
  "enc_rec lr = rec_payload lr @ le_bytes 4 (wal_crc (rec_payload lr))"

definition logged_ok :: "nat \<times> wal_rec \<Rightarrow> bool" where
  "logged_ok lr \<longleftrightarrow> fst lr < 2 ^ 64 \<and> rec_ok (snd lr)"

lemma wal_crc_bound: "wal_crc bs < 2 ^ 32"
  using unsigned_less [of "crc32 bs AND 0xFFFFFFFF"] by (simp add: wal_crc_def)

lemma pack_u1 [simp]: "ty < 256 \<Longrightarrow> pack_u (Suc 0) (int ty) = Inr [byte ty]"
  by (simp add: pack_u_def)

lemma pack_qb_ok: "lsn < 2 ^ 64 \<Longrightarrow> ty < 256 \<Longrightarrow> pack_qb lsn ty = Inr (le_bytes 8 lsn @ [byte ty])"
  by (simp add: pack_qb_def)

text \<open>What each append does: the next LSN goes to a new record at the end of the buffer.\<close>

definition logs :: "wal_rec \<Rightarrow> wal \<Rightarrow> wal" where
  "logs r w = w\<lparr>w_next_lsn := w_next_lsn w + 1,
     w_buf := w_buf w @ [(w_next_lsn w, enc_rec (w_next_lsn w, r))]\<rparr>"

lemma wal_append_ok:
  assumes "mk (w_next_lsn w) = Inr (rec_payload (w_next_lsn w, r))"
  shows "wal_append mk w = (Inr (w_next_lsn w), logs r w)"
  using assms wal_crc_bound
  by (simp add: wal_append_def bnd_def enc_rec_def logs_def)

lemma append_ok [act_simps]:
  assumes "w_next_lsn w < 2 ^ 64"
  shows "rec_ok (PageWrite pid pb) \<Longrightarrow> append_page_write pid pb w = (Inr (w_next_lsn w), logs (PageWrite pid pb) w)"
    and "rec_ok (MetaUpdate r) \<Longrightarrow> append_meta_update r w = (Inr (w_next_lsn w), logs (MetaUpdate r) w)"
    and "append_checkpoint w = (Inr (w_next_lsn w), logs Checkpoint w)"
    and "t < 2 ^ 64 \<Longrightarrow> append_txn_begin t w = (Inr (w_next_lsn w), logs (TxnBegin t) w)"
    and "t < 2 ^ 64 \<Longrightarrow> append_txn_commit t w = (Inr (w_next_lsn w), logs (TxnCommit t) w)"
    and "t < 2 ^ 64 \<Longrightarrow> append_txn_abort t w = (Inr (w_next_lsn w), logs (TxnAbort t) w)"
  using assms
  by (auto simp: append_page_write_def append_meta_update_def append_checkpoint_def append_txn_record_def
      append_txn_begin_def append_txn_commit_def append_txn_abort_def pack_qbv_def pack_qb_ok wal_consts
      rec_payload_def split: option.splits intro!: wal_append_ok)

subsection \<open>Reading back what was written\<close>

lemma rec_type_byte: "rec_type r < 256" "unat (byte (rec_type r)) = rec_type r"
  by (cases r; simp add: wal_consts)+

lemma body_size_ok: "rec_ok r \<Longrightarrow> body_size (rec_type r) = Some (length (rec_body r) + 4)"
  by (cases r) (auto simp: body_size_def wal_consts)

lemma seg_front: "k = length xs \<Longrightarrow> seg 0 k (xs @ ys) = xs"
  by (simp add: seg_def)

lemma body_rec_ok:
  assumes "rec_ok r"
  shows "body_rec (rec_type r) (rec_body r @ crc) = r"
proof (cases r)
  case (PageWrite pid pb)
  then have "seg 4 (4 + PW_DATA) (le_bytes 4 pid @ pb @ crc) = pb"
    using assms by (intro seg_mid) (auto simp: wal_consts)
  with PageWrite assms show ?thesis
    by (simp add: body_rec_def wal_consts seg_front le_nat_le_bytes)
next
  case (MetaUpdate r')
  with assms show ?thesis
    by (cases r') (simp_all add: body_rec_def wal_consts seg_front le_nat_le_bytes)
qed (use assms in \<open>simp_all add: body_rec_def wal_consts seg_front le_nat_le_bytes\<close>)

lemma read_body_ok:
  "n = length body + 4 \<Longrightarrow>
     read_body n h (body @ le_bytes 4 (wal_crc (h @ body)) @ rest) = (Some (body @ le_bytes 4 (wal_crc (h @ body))), rest)"
  using wal_crc_bound [of "h @ body"] by (simp add: read_body_def le_nat_le_bytes)

lemma length_header: "length (le_bytes 8 lsn @ [b]) = 9"
  by simp

lemma parse_enc [codec_simps]:
  assumes "logged_ok lr"
  shows "parse_rec (enc_rec lr @ rest) = (Some lr, rest)"
proof -
  obtain lsn r where lr: "lr = (lsn, r)" by (cases lr)
  let ?h = "le_bytes 8 lsn @ [byte (rec_type r)]"
  let ?crc = "le_bytes 4 (wal_crc (?h @ rec_body r))"
  have ok: "lsn < 2 ^ 64" "rec_ok r" using assms by (auto simp: lr logged_ok_def)
  have enc: "enc_rec lr @ rest = ?h @ rec_body r @ ?crc @ rest"
    by (simp add: enc_rec_def rec_payload_def lr)
  have h: "take 9 (enc_rec lr @ rest) = ?h" and d: "drop 9 (enc_rec lr @ rest) = rec_body r @ ?crc @ rest"
    unfolding enc using length_header [of lsn] by simp_all
  have ty: "unat (?h ! 8) = rec_type r"
    by (simp add: nth_append rec_type_byte)
  have lsn: "le_nat (take 8 ?h) = lsn" using ok(1) by (simp add: le_nat_le_bytes)
  show ?thesis
    unfolding parse_rec_def Let_def h d ty lsn body_size_ok [OF ok(2)] option.case
      read_body_ok [OF refl] prod.case body_rec_ok [OF ok(2)]
    by (simp add: lr)
qed

text \<open>A proper prefix of a record is a torn record: the scan stops there.\<close>

lemma length_enc: "logged_ok lr \<Longrightarrow> length (enc_rec lr) = 13 + length (rec_body (snd lr))"
  by (simp add: enc_rec_def rec_payload_def)

lemma read_body_short: "length d < n \<Longrightarrow> fst (read_body n h d) = None"
  by (simp add: read_body_def)

lemma parse_torn:
  assumes "logged_ok lr" "k < length (enc_rec lr)"
  shows "fst (parse_rec (take k (enc_rec lr))) = None"
proof (cases "k < 9")
  case True
  then show ?thesis by (simp add: parse_rec_def Let_def min_def)
next
  case False
  obtain lsn r where lr: "lr = (lsn, r)" by (cases lr)
  let ?h = "le_bytes 8 lsn @ [byte (rec_type r)]"
  have ok: "rec_ok r" using assms(1) by (simp add: lr logged_ok_def)
  have enc: "enc_rec lr = ?h @ (rec_body r @ le_bytes 4 (wal_crc (?h @ rec_body r)))" (is "_ = _ @ ?tail")
    by (simp add: enc_rec_def rec_payload_def lr)
  have "take k ?h = ?h" using False by (intro take_all) simp
  then have "take k (enc_rec lr) = ?h @ take (k - 9) ?tail"
    unfolding enc by (simp only: take_append length_header)
  then have h: "take 9 (take k (enc_rec lr)) = ?h"
    and d: "drop 9 (take k (enc_rec lr)) = take (k - 9) ?tail"
    using length_header [of lsn "byte (rec_type r)"] by simp_all
  have ty: "unat (?h ! 8) = rec_type r"
    by (simp add: nth_append rec_type_byte)
  have short: "length (take (k - 9) ?tail) < length (rec_body r) + 4"
    using assms(2) False length_enc [OF assms(1)] by (auto simp: lr)
  show ?thesis
    unfolding parse_rec_def Let_def h d ty body_size_ok [OF ok] option.case
    using read_body_short [OF short, of ?h] by (auto split: prod.splits option.splits)
qed

lemma parse_Nil [simp]: "parse_rec [] = (None, [])"
  by (simp add: parse_rec_def Let_def)

text \<open>What a crash leaves of a log of which it keeps \<open>k\<close> bytes: the records that are whole in them, and a torn one.\<close>

fun intact :: "nat \<Rightarrow> (nat \<times> wal_rec) list \<Rightarrow> (nat \<times> wal_rec) list" where
  "intact k [] = []"
| "intact k (lr # log) = (if length (enc_rec lr) \<le> k then lr # intact (k - length (enc_rec lr)) log else [])"

lemma take_log:
  "\<forall>lr \<in> set log. logged_ok lr \<Longrightarrow>
     \<exists>torn. take k (concat (map enc_rec log)) = concat (map enc_rec (intact k log)) @ torn \<and> fst (parse_rec torn) = None"
proof (induction log arbitrary: k)
  case (Cons lr log)
  show ?case
  proof (cases "length (enc_rec lr) \<le> k")
    case True
    with Cons.IH [of "k - length (enc_rec lr)"] Cons.prems show ?thesis by auto
  next
    case False
    with parse_torn [of lr k] Cons.prems show ?thesis by simp
  qed
qed simp

lemma intact_append:
  "length (concat (map enc_rec xs)) \<le> k \<Longrightarrow> intact k (xs @ ys) = xs @ intact (k - length (concat (map enc_rec xs))) ys"
  by (induction xs arbitrary: k) auto

lemma set_intact: "set (intact k log) \<subseteq> set log"
  by (induction k log rule: intact.induct) auto

subsection \<open>Recovery is the replay of the intact records\<close>

definition next_after :: "(nat \<times> wal_rec) list \<Rightarrow> nat \<Rightarrow> nat" where
  "next_after log n = fold (\<lambda>lr m. max m (fst lr + 1)) log n"

lemma recover_loop_log:
  assumes "\<forall>lr \<in> set log. logged_ok lr" "fst (parse_rec torn) = None"
  shows "recover_loop wr (concat (map enc_rec log) @ torn) v n =
    (fold (recover_step wr) (map snd log) v, next_after log n, snd (parse_rec torn))"
  using assms(1)
proof (induction log arbitrary: v n)
  case Nil
  then show ?case using assms(2)
    by (subst recover_loop.simps) (auto simp: next_after_def split: prod.splits option.splits)
next
  case (Cons lr log)
  then show ?case
    by (subst recover_loop.simps) (simp add: parse_enc next_after_def case_prod_beta)
qed

lemma scan_loop_log:
  assumes "\<forall>lr \<in> set log. logged_ok lr" "fst (parse_rec torn) = None"
  shows "scan_loop (concat (map enc_rec log) @ torn) n = next_after log n"
  using assms(1)
proof (induction log arbitrary: n)
  case Nil
  then show ?case using assms(2)
    by (subst scan_loop.simps) (auto simp: next_after_def split: prod.splits option.splits)
next
  case (Cons lr log)
  then show ?case
    by (subst scan_loop.simps) (simp add: parse_enc next_after_def case_prod_beta)
qed

lemma next_after_above: "lr \<in> set log \<Longrightarrow> fst lr < next_after log n"
  and next_after_ge: "n \<le> next_after log n"
proof -
  have mono: "m \<le> next_after log m" for log and m
    by (induction log arbitrary: m) (auto simp: next_after_def intro: order_trans [OF max.cobounded1])
  then show "n \<le> next_after log n" by blast
  show "lr \<in> set log \<Longrightarrow> fst lr < next_after log n"
  proof (induction log arbitrary: n)
    case (Cons x log)
    have step: "next_after (x # log) n = next_after log (max n (fst x + 1))" by (simp add: next_after_def)
    show ?case
    proof (cases "lr = x")
      case True
      have "fst x < max n (fst x + 1)" by simp
      also have "\<dots> \<le> next_after log (max n (fst x + 1))" by (rule mono)
      finally show ?thesis using step True by simp
    next
      case False
      then show ?thesis using Cons step by simp
    qed
  qed simp
qed

text \<open>
  The records that take effect: those outside a transaction, and those of a transaction at its commit;
  the records of a transaction that is aborted, begun over or not finished are discarded.
\<close>

fun effects :: "(nat \<times> wal_rec list) option \<Rightarrow> wal_rec list \<Rightarrow> wal_rec list" where
  "effects a [] = []"
| "effects None (PageWrite p b # rs) = PageWrite p b # effects None rs"
| "effects None (MetaUpdate m # rs) = MetaUpdate m # effects None rs"
| "effects (Some (t, pend)) (PageWrite p b # rs) = effects (Some (t, pend @ [PageWrite p b])) rs"
| "effects (Some (t, pend)) (MetaUpdate m # rs) = effects (Some (t, pend @ [MetaUpdate m])) rs"
| "effects a (Checkpoint # rs) = effects a rs"
| "effects a (TxnBegin t # rs) = effects (Some (t, [])) rs"
| "effects None (TxnCommit t' # rs) = effects None rs"
| "effects (Some (t, pend)) (TxnCommit t' # rs) = (if t = t' then pend else []) @ effects None rs"
| "effects a (TxnAbort t # rs) = effects None rs"

fun page_writes :: "wal_rec list \<Rightarrow> (nat \<times> bytes) list" where
  "page_writes [] = []"
| "page_writes (PageWrite p b # rs) = (p, b) # page_writes rs"
| "page_writes (_ # rs) = page_writes rs"

fun meta_updates :: "wal_rec list \<Rightarrow> nat option list" where
  "meta_updates [] = []"
| "meta_updates (MetaUpdate m # rs) = m # meta_updates rs"
| "meta_updates (_ # rs) = meta_updates rs"

lemma page_writes_append [simp]: "page_writes (xs @ ys) = page_writes xs @ page_writes ys"
  by (induction xs rule: page_writes.induct) auto

lemma meta_updates_append [simp]: "meta_updates (xs @ ys) = meta_updates xs @ meta_updates ys"
  by (induction xs rule: meta_updates.induct) auto

text \<open>The outcome of replaying effective records one after the other.\<close>

definition rv_apply :: "(nat \<Rightarrow> bytes \<Rightarrow> 's \<Rightarrow> 's) \<Rightarrow> wal_rec list \<Rightarrow> 's recovery \<Rightarrow> 's recovery" where
  "rv_apply wr es v =
     (fold (\<lambda>(pid, pb). rv_write wr pid pb) (page_writes es) v)
       \<lparr>rv_root_page_id := (if meta_updates es = [] then rv_root_page_id v else last (meta_updates es)),
        rv_had_meta := (rv_had_meta v \<or> meta_updates es \<noteq> [])\<rparr>"

definition tracks :: "(nat \<times> wal_rec list) option \<Rightarrow> 's recovery \<Rightarrow> bool" where
  "tracks a v = (case a of
     None \<Rightarrow> rv_active v = None
   | Some (t, pend) \<Rightarrow> rv_active v = Some t \<and> rv_pages v = page_writes pend \<and> rv_meta v = meta_updates pend)"

lemma rv_write_comm:
  "rv_write wr p b (v\<lparr>rv_root_page_id := r, rv_had_meta := h\<rparr>) =
     (rv_write wr p b v)\<lparr>rv_root_page_id := r, rv_had_meta := h\<rparr>"
  "rv_write wr p b (rv_clear v) = rv_clear (rv_write wr p b v)"
  by (cases v; simp add: rv_write_def rv_clear_def)+

lemma fold_write_meta:
  "fold (\<lambda>(pid, pb). rv_write wr pid pb) ps (v\<lparr>rv_root_page_id := r, rv_had_meta := h\<rparr>) =
     (fold (\<lambda>(pid, pb). rv_write wr pid pb) ps v)\<lparr>rv_root_page_id := r, rv_had_meta := h\<rparr>"
  by (induction ps arbitrary: v) (auto simp: rv_write_comm)

lemma fold_write_clear:
  "rv_clear (fold (\<lambda>(pid, pb). rv_write wr pid pb) ps v) = fold (\<lambda>(pid, pb). rv_write wr pid pb) ps (rv_clear v)"
  by (induction ps arbitrary: v) (auto simp: rv_write_comm)

lemma fold_write_fields:
  "rv_root_page_id (fold (\<lambda>(pid, pb). rv_write wr pid pb) ps v) = rv_root_page_id v"
  "rv_had_meta (fold (\<lambda>(pid, pb). rv_write wr pid pb) ps v) = rv_had_meta v"
  "rv_active (fold (\<lambda>(pid, pb). rv_write wr pid pb) ps v) = rv_active v"
  "rv_pages (fold (\<lambda>(pid, pb). rv_write wr pid pb) ps v) = rv_pages v"
  "rv_meta (fold (\<lambda>(pid, pb). rv_write wr pid pb) ps v) = rv_meta v"
  by (induction ps arbitrary: v) (auto simp: rv_write_def)

lemma rv_apply_append: "rv_apply wr (xs @ ys) v = rv_apply wr ys (rv_apply wr xs v)"
  by (simp add: rv_apply_def fold_write_meta)

lemma rv_apply_clear: "rv_clear (rv_apply wr es v) = rv_apply wr es (rv_clear v)"
proof -
  have "rv_clear (u\<lparr>rv_root_page_id := r, rv_had_meta := h\<rparr>) = (rv_clear u)\<lparr>rv_root_page_id := r, rv_had_meta := h\<rparr>"
    for u :: "'a recovery" and r h by (simp add: rv_clear_def)
  then show ?thesis
    by (simp only: rv_apply_def fold_write_clear) (simp add: rv_clear_def)
qed

lemma rv_apply_Nil [simp]: "rv_apply wr [] v = v"
  by (simp add: rv_apply_def)

lemma rv_apply_Cons:
  "rv_apply wr (PageWrite p b # rs) v = rv_apply wr rs (rv_write wr p b v)"
  "rv_apply wr (MetaUpdate m # rs) v = rv_apply wr rs (v\<lparr>rv_root_page_id := m, rv_had_meta := True\<rparr>)"
  by (simp_all add: rv_apply_def fold_write_meta) (simp_all add: rv_write_def)

lemma rv_clear_clear [simp]: "rv_clear (rv_clear v) = rv_clear v"
  by (simp add: rv_clear_def)

lemma tracks_clear [simp]: "tracks None (rv_clear v)"
  by (simp add: tracks_def rv_clear_def)

lemma apply_pages_eq:
  assumes "tracks (Some (t, pend)) v"
  shows "apply_pages wr v = rv_apply wr pend v"
  using assms
  by (auto simp: apply_pages_def rv_apply_def tracks_def Let_def fold_write_fields
      intro!: recovery.equality)

theorem recover_effects:
  "tracks a v \<Longrightarrow> rv_clear (fold (recover_step wr) rs v) = rv_apply wr (effects a rs) (rv_clear v)"
proof (induction a rs arbitrary: v rule: effects.induct)
  case (2 p b rs)
  have "tracks None (rv_write wr p b v)" "rv_active v = None"
    using 2(2) by (simp_all add: tracks_def rv_write_def)
  with 2(1) show ?case by (simp add: rv_apply_Cons rv_write_comm)
next
  case (3 m rs)
  let ?v = "v\<lparr>rv_root_page_id := m, rv_had_meta := True\<rparr>"
  have "tracks None ?v" "rv_active v = None" "rv_clear ?v = (rv_clear v)\<lparr>rv_root_page_id := m, rv_had_meta := True\<rparr>"
    using 3(2) by (simp_all add: tracks_def) (cases v, simp add: rv_clear_def)
  with 3(1) show ?case by (simp add: rv_apply_Cons)
next
  case (4 t pend p b rs)
  have "tracks (Some (t, pend @ [PageWrite p b])) (v\<lparr>rv_pages := rv_pages v @ [(p, b)]\<rparr>)"
    and "rv_active v = Some t"
    using 4(2) by (simp_all add: tracks_def)
  with 4(1) show ?case by (simp add: rv_clear_def)
next
  case (5 t pend m rs)
  have "tracks (Some (t, pend @ [MetaUpdate m])) (v\<lparr>rv_meta := rv_meta v @ [m]\<rparr>)"
    and "rv_active v = Some t"
    using 5(2) by (simp_all add: tracks_def)
  with 5(1) show ?case by (simp add: rv_clear_def)
next
  case (7 a t rs)
  have "tracks (Some (t, [])) (v\<lparr>rv_active := Some t, rv_pages := [], rv_meta := []\<rparr>)"
    by (simp add: tracks_def)
  with 7(1) show ?case by (simp add: rv_clear_def)
next
  case (8 t' rs)
  then show ?case by (simp add: tracks_def [of None v])
next
  case (9 t pend t' rs)
  show ?case
  proof (cases "t = t'")
    case True
    have "rv_active v = Some t'" using 9(2) True by (simp add: tracks_def)
    with True show ?thesis
      using apply_pages_eq [OF 9(2), of wr] 9(1) [OF tracks_clear, of "rv_apply wr pend v"]
      by (simp add: rv_apply_append rv_apply_clear)
  next
    case False
    have "rv_active v = Some t" using 9(2) by (simp add: tracks_def)
    with False 9(1) show ?thesis by simp
  qed
qed simp_all

lemma rv_apply_out:
  "rv_out (rv_apply wr es v) = fold (\<lambda>(pid, pb). wr pid pb) (page_writes es) (rv_out v)"
  "rv_max_page_id (rv_apply wr es v) = fold (\<lambda>(pid, pb) m. max m (int pid)) (page_writes es) (rv_max_page_id v)"
proof -
  have "rv_out (fold (\<lambda>(pid, pb). rv_write wr pid pb) ps v) = fold (\<lambda>(pid, pb). wr pid pb) ps (rv_out v)"
    and "rv_max_page_id (fold (\<lambda>(pid, pb). rv_write wr pid pb) ps v) =
      fold (\<lambda>(pid, pb) m. max m (int pid)) ps (rv_max_page_id v)" for ps
    by (induction ps arbitrary: v) (auto simp: rv_write_def)
  then show "rv_out (rv_apply wr es v) = fold (\<lambda>(pid, pb). wr pid pb) (page_writes es) (rv_out v)"
    "rv_max_page_id (rv_apply wr es v) = fold (\<lambda>(pid, pb) m. max m (int pid)) (page_writes es) (rv_max_page_id v)"
    by (simp_all add: rv_apply_def)
qed

text \<open>Recovery of a log file: intact records, then a torn tail.\<close>

lemma wal_recover_ok:
  assumes log: "\<forall>lr \<in> set log. logged_ok lr" and torn: "fst (parse_rec torn) = None"
    and wfile: "w_file w = concat (map enc_rec log) @ torn"
  defines "es \<equiv> effects None (map snd log)"
  shows "\<exists>info w'. wal_recover wr w s = (info, w', fold (\<lambda>(pid, pb). wr pid pb) (page_writes es) s)
    \<and> ri_had_meta info = (meta_updates es \<noteq> [])
    \<and> ri_root_page_id info = (if meta_updates es = [] then None else last (meta_updates es))
    \<and> ri_max_page_id info = fold (\<lambda>(pid, pb) m. max m (int pid)) (page_writes es) (- 1)
    \<and> w_next_lsn w' = next_after log (w_next_lsn w) \<and> w_file w' = w_file w \<and> w_buf w' = w_buf w
    \<and> w_flushed_lsn w' = w_flushed_lsn w"
proof -
  let ?v = "fold (recover_step wr) (map snd log) (rv_init s)"
  have clear: "rv_clear (rv_init s) = rv_init s" by (simp add: rv_clear_def rv_init_def)
  have "tracks None (rv_init s)" by (simp add: tracks_def rv_init_def)
  then have e: "rv_clear ?v = rv_apply wr es (rv_init s)"
    using recover_effects [of None "rv_init s" wr "map snd log"] by (simp add: es_def clear)
  have f: "rv_out ?v = rv_out (rv_clear ?v)" "rv_max_page_id ?v = rv_max_page_id (rv_clear ?v)"
    "rv_root_page_id ?v = rv_root_page_id (rv_clear ?v)" "rv_had_meta ?v = rv_had_meta (rv_clear ?v)"
    by (simp_all add: rv_clear_def)
  have init: "rv_out (rv_init s) = s" "rv_max_page_id (rv_init s) = - 1"
    "rv_root_page_id (rv_init s) = None" "rv_had_meta (rv_init s) = False"
    by (simp_all add: rv_init_def)
  have m: "rv_root_page_id (rv_apply wr es (rv_init s)) = (if meta_updates es = [] then None else last (meta_updates es))"
    "rv_had_meta (rv_apply wr es (rv_init s)) = (meta_updates es \<noteq> [])"
    by (simp_all add: rv_apply_def init)
  show ?thesis
    unfolding wal_recover_def wfile recover_loop_log [OF log torn] prod.case f e rv_apply_out init m
    using wfile by simp
qed

interpretation wal_codec: codec "\<lambda>lr. Inr (enc_rec lr)"
    "\<lambda>bs. case fst (parse_rec bs) of None \<Rightarrow> Inl ValueError | Some lr \<Rightarrow> Inr lr" logged_ok
proof unfold_locales
  fix lr assume "logged_ok lr"
  then show "\<exists>bs. Inr (enc_rec lr) = Inr bs \<and>
      (case fst (parse_rec bs) of None \<Rightarrow> Inl ValueError | Some lr \<Rightarrow> Inr lr) = Inr lr"
    using parse_enc [of lr "[]"] by simp
qed

subsection \<open>The records in the file and in the buffer\<close>

text \<open>
  \<open>dur\<close> are the records in the file, \<open>pend\<close> the buffered ones. The LSNs of the whole log increase
  strictly and stay below the next LSN, and everything up to \<^verbatim>\<open>_flushed_lsn\<close> is in the file.
\<close>

definition wal_inv :: "(nat \<times> wal_rec) list \<Rightarrow> (nat \<times> wal_rec) list \<Rightarrow> wal \<Rightarrow> bool" where
  "wal_inv dur pend w \<longleftrightarrow>
     (\<forall>lr \<in> set (dur @ pend). logged_ok lr) \<and> sorted_wrt (<) (map fst (dur @ pend)) \<and>
     (\<forall>lr \<in> set (dur @ pend). fst lr < w_next_lsn w) \<and>
     w_file w = concat (map enc_rec dur) \<and> w_pos w = length (w_file w) \<and>
     w_buf w = map (\<lambda>lr. (fst lr, enc_rec lr)) pend \<and>
     (\<forall>lr \<in> set pend. w_flushed_lsn w < fst lr) \<and> w_flushed_lsn w < w_next_lsn w"

lemma wal_open_new_inv: "wal_inv [] [] (wal_open None)"
  by (simp add: wal_inv_def wal_open_def)

lemma wal_open_inv:
  assumes "\<forall>lr \<in> set log. logged_ok lr" "sorted_wrt (<) (map fst log)"
  shows "wal_inv log [] (wal_open (Some (concat (map enc_rec log))))"
  using assms scan_loop_log [of log "[]" 1] next_after_above [of _ log 1] next_after_ge [of 1 log]
  by (auto simp: wal_inv_def wal_open_def)

lemma logs_inv:
  assumes "wal_inv dur pend w" "w_next_lsn w < 2 ^ 64" "rec_ok r"
  shows "wal_inv dur (pend @ [(w_next_lsn w, r)]) (logs r w)"
  using assms
  by (auto simp: wal_inv_def logs_def logged_ok_def sorted_wrt_append intro: less_SucI)

lemma filter_sorted_prefix:
  fixes xs :: "('a::linorder \<times> 'b) list"
  assumes "sorted_wrt (<) (map fst xs)"
  shows "filter (\<lambda>e. fst e \<le> l) xs @ filter (\<lambda>e. \<not> fst e \<le> l) xs = xs"
  using assms
proof (induction xs)
  case (Cons e xs)
  show ?case
  proof (cases "fst e \<le> l")
    case False
    then have "\<forall>x \<in> set xs. \<not> fst x \<le> l" using Cons.prems by fastforce
    then have "filter (\<lambda>e. fst e \<le> l) xs = []" "filter (\<lambda>e. \<not> fst e \<le> l) xs = xs"
      by (auto simp: filter_empty_conv intro: filter_True)
    with False show ?thesis by simp
  qed (use Cons in simp)
qed simp

lemma fsync_up_to_inv:
  assumes inv: "wal_inv dur pend w" and l: "l < w_next_lsn w"
  shows "wal_inv (dur @ filter (\<lambda>lr. fst lr \<le> l) pend) (filter (\<lambda>lr. \<not> fst lr \<le> l) pend) (fsync_up_to l w)"
    and "filter (\<lambda>lr. fst lr \<le> l) pend @ filter (\<lambda>lr. \<not> fst lr \<le> l) pend = pend"
proof -
  let ?d = "filter (\<lambda>lr. fst lr \<le> l) pend" and ?r = "filter (\<lambda>lr. \<not> fst lr \<le> l) pend"
  have sorted: "sorted_wrt (<) (map fst pend)"
    using inv by (auto simp: wal_inv_def sorted_wrt_append)
  show split: "?d @ ?r = pend" by (rule filter_sorted_prefix [OF sorted])
  have buf: "w_buf w = map (\<lambda>lr. (fst lr, enc_rec lr)) pend" using inv by (simp add: wal_inv_def)
  have f1: "map snd (filter (\<lambda>(k, b). k \<le> l) (w_buf w)) = map enc_rec ?d"
    and f2: "filter (\<lambda>(k, b). \<not> k \<le> l) (w_buf w) = map (\<lambda>lr. (fst lr, enc_rec lr)) ?r"
    by (auto simp: buf filter_map o_def case_prod_beta)
  have order: "dur @ pend = (dur @ ?d) @ ?r" using split by simp
  have all: "\<forall>lr \<in> set ((dur @ ?d) @ ?r). logged_ok lr" "sorted_wrt (<) (map fst ((dur @ ?d) @ ?r))"
    "\<forall>lr \<in> set ((dur @ ?d) @ ?r). fst lr < w_next_lsn w"
    using inv unfolding wal_inv_def order by blast+
  have wf: "w_file w = concat (map enc_rec dur)" "w_pos w = length (w_file w)"
    "w_flushed_lsn w < w_next_lsn w" "\<forall>lr \<in> set pend. w_flushed_lsn w < fst lr"
    using inv by (auto simp: wal_inv_def)
  have new: "fsync_up_to l w = (if ?d \<noteq> []
      then w\<lparr>w_file := file_write (w_pos w) (concat (map enc_rec ?d)) (w_file w),
        w_pos := w_pos w + length (concat (map enc_rec ?d)),
        w_flushed_lsn := max (w_flushed_lsn w) l\<rparr> else w)\<lparr>w_buf := map (\<lambda>lr. (fst lr, enc_rec lr)) ?r\<rparr>"
    unfolding fsync_up_to_def f1 f2 Let_def by simp
  show "wal_inv (dur @ ?d) ?r (fsync_up_to l w)"
  proof (cases "?d = []")
    case True
    show ?thesis unfolding wal_inv_def new
      using all wf True l by auto
  next
    case False
    have written: "file_write (w_pos w) (concat (map enc_rec ?d)) (w_file w) = concat (map enc_rec (dur @ ?d))"
      using wf(1,2) by (simp add: file_write_def)
    show ?thesis unfolding wal_inv_def new
      using all wf False l written by (auto simp: max_def)
  qed
qed

lemma fsync_inv:
  assumes inv: "wal_inv dur pend w"
  shows "wal_inv (dur @ pend) [] (wal_fsync w)"
    and "pend \<noteq> [] \<Longrightarrow> w_flushed_lsn (wal_fsync w) = fst (last pend)"
proof -
  have buf: "w_buf w = map (\<lambda>lr. (fst lr, enc_rec lr)) pend" using inv by (simp add: wal_inv_def)
  have "wal_inv (dur @ pend) [] (wal_fsync w) \<and> (pend \<noteq> [] \<longrightarrow> w_flushed_lsn (wal_fsync w) = fst (last pend))"
  proof (cases "pend = []")
    case True
    with buf inv show ?thesis by (simp add: wal_fsync_def)
  next
    case False
    then have l: "fst (last pend) < w_next_lsn w" "w_flushed_lsn w < fst (last pend)"
      using inv by (auto simp: wal_inv_def)
    have run: "wal_fsync w = fsync_up_to (fst (last pend)) w"
      using False buf by (simp add: wal_fsync_def last_map)
    have "sorted_wrt (<) (map fst (butlast pend @ [last pend]))"
      using inv False by (simp add: wal_inv_def sorted_wrt_append)
    then have "\<forall>lr \<in> set (butlast pend). fst lr < fst (last pend)"
      by (auto simp: sorted_wrt_append)
    then have "\<forall>lr \<in> set (butlast pend @ [last pend]). fst lr \<le> fst (last pend)" by auto
    then have all: "\<forall>lr \<in> set pend. fst lr \<le> fst (last pend)" using False by simp
    then have "filter (\<lambda>lr. fst lr \<le> fst (last pend)) pend = pend"
      "filter (\<lambda>lr. \<not> fst lr \<le> fst (last pend)) pend = []"
      by (auto simp: filter_empty_conv)
    moreover have "w_flushed_lsn (fsync_up_to (fst (last pend)) w) = fst (last pend)"
      using all False l(2) by (auto simp: fsync_up_to_def Let_def buf filter_map o_def case_prod_beta
          filter_empty_conv)
    ultimately show ?thesis using fsync_up_to_inv(1) [OF inv l(1)] run by simp
  qed
  then show "wal_inv (dur @ pend) [] (wal_fsync w)"
    "pend \<noteq> [] \<Longrightarrow> w_flushed_lsn (wal_fsync w) = fst (last pend)" by auto
qed

lemma checkpoint_inv:
  assumes inv: "wal_inv dur pend w" and "w_next_lsn w < 2 ^ 64"
  shows "\<exists>w'. wal_checkpoint w = (Inr (), w') \<and> wal_inv [] [] w' \<and> wal_is_empty w'
    \<and> w_next_lsn w' = Suc (w_next_lsn w)"
proof -
  let ?w = "wal_fsync (logs Checkpoint w)"
  have 1: "wal_inv dur (pend @ [(w_next_lsn w, Checkpoint)]) (logs Checkpoint w)"
    using assms by (intro logs_inv) auto
  have 2: "wal_inv (dur @ pend @ [(w_next_lsn w, Checkpoint)]) [] ?w"
    using fsync_inv(1) [OF 1] by simp
  have n: "w_next_lsn ?w = Suc (w_next_lsn w)"
    by (simp add: wal_fsync_def fsync_up_to_def Let_def logs_def)
  have "wal_checkpoint w = (Inr (), ?w\<lparr>w_file := [], w_pos := 0\<rparr>)"
    using assms(2) by (simp add: wal_checkpoint_def bnd_def append_ok)
  moreover have "wal_inv [] [] (?w\<lparr>w_file := [], w_pos := 0\<rparr>)"
    using 2 by (auto simp: wal_inv_def)
  ultimately show ?thesis using 2 n by (auto simp: wal_is_empty_def wal_inv_def)
qed

subsection \<open>Histories of the log\<close>

datatype wal_op =
    AppendPage nat bytes
  | AppendMeta "nat option"
  | AppendBegin nat
  | AppendCommit nat
  | AppendAbort nat
  | FsyncUpTo nat
  | Fsync
  | DoCheckpoint
  | Reopen

fun run_wal_op :: "wal_op \<Rightarrow> wal \<Rightarrow> wal" where
  "run_wal_op (AppendPage pid pb) w = snd (append_page_write pid pb w)"
| "run_wal_op (AppendMeta r) w = snd (append_meta_update r w)"
| "run_wal_op (AppendBegin t) w = snd (append_txn_begin t w)"
| "run_wal_op (AppendCommit t) w = snd (append_txn_commit t w)"
| "run_wal_op (AppendAbort t) w = snd (append_txn_abort t w)"
| "run_wal_op (FsyncUpTo l) w = fsync_up_to l w"
| "run_wal_op Fsync w = wal_fsync w"
| "run_wal_op DoCheckpoint w = snd (wal_checkpoint w)"
| "run_wal_op Reopen w = wal_open (Some (w_file (wal_close w)))"

fun op_rec :: "wal_op \<Rightarrow> wal_rec option" where
  "op_rec (AppendPage pid pb) = Some (PageWrite pid pb)"
| "op_rec (AppendMeta r) = Some (MetaUpdate r)"
| "op_rec (AppendBegin t) = Some (TxnBegin t)"
| "op_rec (AppendCommit t) = Some (TxnCommit t)"
| "op_rec (AppendAbort t) = Some (TxnAbort t)"
| "op_rec _ = None"

definition wal_op_ok :: "wal_op \<Rightarrow> wal \<Rightarrow> bool" where
  "wal_op_ok oper w \<longleftrightarrow> w_next_lsn w < 2 ^ 64 \<and> (\<forall>r. op_rec oper = Some r \<longrightarrow> rec_ok r)
     \<and> (\<forall>l. oper = FsyncUpTo l \<longrightarrow> l < w_next_lsn w)"

text \<open>
  What a log promises, without files and buffers: every append gives its record the next LSN and keeps it, in order; a sync
  makes a prefix of the kept records durable; a checkpoint and nothing else drops records. A log that is opened again
  counts on from the last record it has.
\<close>

record log_state =
  lg_next :: nat
  lg_durable :: "(nat \<times> wal_rec) list"
  lg_pending :: "(nat \<times> wal_rec) list"

definition log_records :: "log_state \<Rightarrow> (nat \<times> wal_rec) list" where
  "log_records g = lg_durable g @ lg_pending g"

definition log_new :: log_state where
  "log_new = \<lparr>lg_next = 1, lg_durable = [], lg_pending = []\<rparr>"

definition log_sync :: "nat \<Rightarrow> log_state \<Rightarrow> log_state" where
  "log_sync l g = g\<lparr>lg_durable := lg_durable g @ takeWhile (\<lambda>lr. fst lr \<le> l) (lg_pending g),
     lg_pending := dropWhile (\<lambda>lr. fst lr \<le> l) (lg_pending g)\<rparr>"

fun log_step :: "wal_op \<Rightarrow> log_state \<Rightarrow> log_state" where
  "log_step (FsyncUpTo l) g = log_sync l g"
| "log_step Fsync g = g\<lparr>lg_durable := log_records g, lg_pending := []\<rparr>"
| "log_step DoCheckpoint g = \<lparr>lg_next = lg_next g + 1, lg_durable = [], lg_pending = []\<rparr>"
| "log_step Reopen g = \<lparr>lg_next = (if log_records g = [] then 1 else fst (last (log_records g)) + 1),
     lg_durable = log_records g, lg_pending = []\<rparr>"
| "log_step oper g = (case op_rec oper of
     Some r \<Rightarrow> g\<lparr>lg_next := lg_next g + 1, lg_pending := lg_pending g @ [(lg_next g, r)]\<rparr> | None \<Rightarrow> g)"

text \<open>A log after a history of operations, with what it promises after this history.\<close>

inductive wal_reach :: "wal \<Rightarrow> log_state \<Rightarrow> bool" where
  opened: "wal_reach (wal_open None) log_new"
| step: "wal_reach w g \<Longrightarrow> wal_op_ok oper w \<Longrightarrow> wal_reach (run_wal_op oper w) (log_step oper g)"

inductive_cases wal_reach_stepE: "wal_reach w g"

lemma step_append: "op_rec oper = Some r \<Longrightarrow>
    log_step oper g = g\<lparr>lg_next := lg_next g + 1, lg_pending := lg_pending g @ [(lg_next g, r)]\<rparr>"
  by (cases oper) simp_all

lemma run_append:
  "wal_op_ok oper w \<Longrightarrow> op_rec oper = Some r \<Longrightarrow> run_wal_op oper w = logs r w \<and> rec_ok r"
  by (cases oper) (auto simp: wal_op_ok_def append_ok)

lemma sorted_filter_while:
  fixes xs :: "('a::linorder \<times> 'b) list"
  assumes "sorted_wrt (<) (map fst xs)"
  shows "filter (\<lambda>e. fst e \<le> l) xs = takeWhile (\<lambda>e. fst e \<le> l) xs \<and> filter (\<lambda>e. \<not> fst e \<le> l) xs = dropWhile (\<lambda>e. fst e \<le> l) xs"
  using assms
proof (induction xs)
  case (Cons e xs)
  show ?case
  proof (cases "fst e \<le> l")
    case False
    then have "\<forall>x \<in> set xs. \<not> fst x \<le> l" using Cons.prems by fastforce
    with False show ?thesis by (auto simp: filter_empty_conv intro: filter_True)
  qed (use Cons in simp)
qed simp

lemma next_after_last:
  "sorted_wrt (<) (map fst log) \<Longrightarrow> \<forall>lr \<in> set log. n \<le> fst lr + 1 \<Longrightarrow>
     next_after log n = (if log = [] then n else fst (last log) + 1)"
proof (induction log arbitrary: n)
  case (Cons x log)
  have "next_after (x # log) n = next_after log (fst x + 1)" using Cons.prems(2) by (simp add: next_after_def max_def)
  also have "\<dots> = (if log = [] then fst x + 1 else fst (last log) + 1)"
    using Cons.prems(1) by (intro Cons.IH) auto
  finally show ?case by simp
qed (simp add: next_after_def)

definition log_inv :: "log_state \<Rightarrow> wal \<Rightarrow> bool" where
  "log_inv g w \<longleftrightarrow> wal_inv (lg_durable g) (lg_pending g) w \<and> w_next_lsn w = lg_next g"

lemma append_log_inv:
  assumes "log_inv g w" "wal_op_ok oper w" "op_rec oper = Some r"
  shows "log_inv (log_step oper g) (run_wal_op oper w)"
  using logs_inv [of "lg_durable g" "lg_pending g" w r] run_append [OF assms(2,3)] step_append [OF assms(3)] assms(1,2)
  by (auto simp: log_inv_def wal_op_ok_def logs_def)

lemma sync_keeps_next: "w_next_lsn (fsync_up_to l w) = w_next_lsn w" "w_next_lsn (wal_fsync w) = w_next_lsn w"
  by (simp_all add: fsync_up_to_def wal_fsync_def Let_def)

lemma reopen_log_inv:
  assumes "log_inv g w"
  shows "log_inv (log_step Reopen g) (run_wal_op Reopen w)"
proof -
  let ?log = "log_records g"
  have inv: "wal_inv ?log [] (wal_fsync w)" using fsync_inv(1) assms by (auto simp: log_inv_def log_records_def)
  then have "\<forall>lr \<in> set ?log. logged_ok lr" "sorted_wrt (<) (map fst ?log)"
    and wfile: "w_file (wal_fsync w) = concat (map enc_rec ?log)" by (simp_all add: wal_inv_def)
  then have "wal_inv ?log [] (wal_open (Some (concat (map enc_rec ?log))))"
    and "w_next_lsn (wal_open (Some (concat (map enc_rec ?log)))) = (if ?log = [] then 1 else fst (last ?log) + 1)"
    using wal_open_inv [of ?log] scan_loop_log [of ?log "[]" 1] next_after_last [of ?log 1] by (simp_all add: wal_open_def)
  then show ?thesis by (simp add: log_inv_def wal_close_def wfile)
qed

lemma wal_reach_inv: "wal_reach w g \<Longrightarrow> log_inv g w"
proof (induction rule: wal_reach.induct)
  case opened
  then show ?case using wal_open_new_inv by (simp add: log_inv_def log_new_def wal_open_def)
next
  case (step w g oper)
  have inv: "wal_inv (lg_durable g) (lg_pending g) w" and nx: "w_next_lsn w = lg_next g" using step.IH by (simp_all add: log_inv_def)
  have n: "w_next_lsn w < 2 ^ 64" using step.hyps(2) by (simp add: wal_op_ok_def)
  show ?case
  proof (cases "op_rec oper")
    case (Some r)
    then show ?thesis by (rule append_log_inv [OF step.IH step.hyps(2)])
  next
    case None
    then consider l where "oper = FsyncUpTo l" | "oper = Fsync" | "oper = DoCheckpoint" | "oper = Reopen"
      by (cases oper) auto
    then show ?thesis
    proof cases
      case 1
      have l: "l < w_next_lsn w" using 1 step.hyps(2) by (simp add: wal_op_ok_def)
      have "sorted_wrt (<) (map fst (lg_pending g))" using inv by (simp add: wal_inv_def sorted_wrt_append)
      from 1 fsync_up_to_inv(1) [OF inv l] sorted_filter_while [OF this, of l] nx show ?thesis
        by (simp add: log_inv_def log_sync_def sync_keeps_next)
    next
      case 2
      with fsync_inv(1) [OF inv] nx show ?thesis by (simp add: log_inv_def log_records_def sync_keeps_next)
    next
      case 3
      with checkpoint_inv [OF inv n] nx show ?thesis by (auto simp: log_inv_def)
    next
      case 4
      with reopen_log_inv [OF step.IH] show ?thesis by simp
    qed
  qed
qed

lemma reach_step:
  assumes "wal_reach w g" "lg_next g < 2 ^ 64" "\<And>r. op_rec oper = Some r \<Longrightarrow> rec_ok r"
    and "\<And>l. oper = FsyncUpTo l \<Longrightarrow> l < lg_next g" "log_step oper g = g'"
  shows "wal_reach (run_wal_op oper w) g'"
  using wal_reach.step [OF assms(1), of oper] wal_reach_inv [OF assms(1)] assms(2-5)
  by (simp add: wal_op_ok_def log_inv_def)

subsection \<open>Properties\<close>

text \<open>C7: the log refines what it promises. After any history of appends, syncs, checkpoints and closing and opening again, the
  file is the encoding of exactly the records that were synced since the last checkpoint, in the order in which they were appended
  and with the LSNs they got, the buffer that of the records appended since the last sync; the LSNs increase strictly and the
  next append gets a higher one; no record up to \<^verbatim>\<open>_flushed_lsn\<close> waits in the buffer.\<close>
theorem wal_log_invariant:
  assumes "wal_reach w g"
  shows "w_file w = concat (map enc_rec (lg_durable g)) \<and> w_buf w = map (\<lambda>lr. (fst lr, enc_rec lr)) (lg_pending g)
    \<and> w_next_lsn w = lg_next g \<and> sorted_wrt (<) (map fst (log_records g) @ [lg_next g])
    \<and> (\<forall>lr \<in> set (log_records g). fst lr \<le> w_flushed_lsn w \<longrightarrow> lr \<in> set (lg_durable g))"
proof -
  have inv: "wal_inv (lg_durable g) (lg_pending g) w" "w_next_lsn w = lg_next g"
    using wal_reach_inv [OF assms] by (simp_all add: log_inv_def)
  have "\<forall>lr \<in> set (lg_pending g). \<not> fst lr \<le> w_flushed_lsn w" using inv(1) by (auto simp: wal_inv_def)
  with inv show ?thesis unfolding wal_inv_def log_records_def by (auto simp: sorted_wrt_append)
qed

theorem wal_log_invariant_witness:
  "let w = fold run_wal_op [AppendBegin 7, AppendMeta (Some 3), FsyncUpTo 1, Reopen, AppendCommit 7] (wal_open None)
   in w_file w = enc_rec (1, TxnBegin 7) @ enc_rec (2, MetaUpdate (Some 3)) \<and> w_buf w = [(3, enc_rec (3, TxnCommit 7))]"
proof -
  let ?w1 = "run_wal_op (AppendBegin 7) (wal_open None)"
  have "wal_reach ?w1 \<lparr>lg_next = 2, lg_durable = [], lg_pending = [(1, TxnBegin 7)]\<rparr>"
    by (rule reach_step [OF wal_reach.opened]) (simp_all add: log_new_def)
  then have "wal_reach (run_wal_op (AppendMeta (Some 3)) ?w1)
      \<lparr>lg_next = 3, lg_durable = [], lg_pending = [(1, TxnBegin 7), (2, MetaUpdate (Some 3))]\<rparr>"
    by (rule reach_step) (simp_all add: NO_ROOT_def)
  then have "wal_reach (run_wal_op (FsyncUpTo 1) (run_wal_op (AppendMeta (Some 3)) ?w1))
      \<lparr>lg_next = 3, lg_durable = [(1, TxnBegin 7)], lg_pending = [(2, MetaUpdate (Some 3))]\<rparr>"
    by (rule reach_step) (simp_all add: log_sync_def)
  then have "wal_reach (run_wal_op Reopen (run_wal_op (FsyncUpTo 1) (run_wal_op (AppendMeta (Some 3)) ?w1)))
      \<lparr>lg_next = 3, lg_durable = [(1, TxnBegin 7), (2, MetaUpdate (Some 3))], lg_pending = []\<rparr>"
    by (rule reach_step) (simp_all add: log_records_def)
  then have "wal_reach (run_wal_op (AppendCommit 7) (run_wal_op Reopen (run_wal_op (FsyncUpTo 1) (run_wal_op (AppendMeta (Some 3)) ?w1))))
      \<lparr>lg_next = 4, lg_durable = [(1, TxnBegin 7), (2, MetaUpdate (Some 3))], lg_pending = [(3, TxnCommit 7)]\<rparr>"
    by (rule reach_step) simp_all
  from wal_log_invariant [OF this] show ?thesis by (simp add: Let_def)
qed

text \<open>C5: crash safety of the log. After any history, let a crash keep the first \<open>k\<close> bytes of what the next \<^verbatim>\<open>fsync\<close> writes to the
  file. Reopening and recovering replays exactly the appended records that are whole in these bytes: the pages are written in the
  order of the log with transactions taking effect at their commit, the root is the last effective one and the next LSN is above
  every LSN replayed. When the crash does not cut into what was synced before, the replay has every record that any sync of the
  history made durable, and so every record up to \<^verbatim>\<open>_flushed_lsn\<close>; when the \<^verbatim>\<open>fsync\<close> ended, it has all records.\<close>
theorem crash_recovery_replays_prefix:
  fixes k :: nat
  assumes "wal_reach w g"
  defines "log \<equiv> intact k (log_records g)"
  shows "\<exists>info w'. wal_recover wr (wal_open (Some (take k (w_file (wal_fsync w))))) s =
        (info, w', fold (\<lambda>(pid, pb). wr pid pb) (page_writes (effects None (map snd log))) s)
    \<and> ri_had_meta info = (meta_updates (effects None (map snd log)) \<noteq> [])
    \<and> ri_root_page_id info = (if ri_had_meta info then last (meta_updates (effects None (map snd log))) else None)
    \<and> ri_max_page_id info = fold (\<lambda>(pid, pb) m. max m (int pid)) (page_writes (effects None (map snd log))) (- 1)
    \<and> (\<forall>lr \<in> set log. fst lr < w_next_lsn w')
    \<and> (length (w_file w) \<le> k \<longrightarrow> (\<exists>more. log = lg_durable g @ more)
        \<and> (\<forall>lr \<in> set (log_records g). fst lr \<le> w_flushed_lsn w \<longrightarrow> lr \<in> set log))
    \<and> (length (w_file (wal_fsync w)) \<le> k \<longrightarrow> log = log_records g)"
proof -
  have inv: "wal_inv (lg_durable g) (lg_pending g) w" using wal_reach_inv [OF assms(1)] by (simp add: log_inv_def)
  have "wal_inv (log_records g) [] (wal_fsync w)" using fsync_inv(1) [OF inv] by (simp add: log_records_def)
  then have all: "w_file (wal_fsync w) = concat (map enc_rec (log_records g))" and ok: "\<forall>lr \<in> set (log_records g). logged_ok lr"
    by (simp_all add: wal_inv_def)
  have wfile: "w_file w = concat (map enc_rec (lg_durable g))" using inv by (simp add: wal_inv_def)
  have pend: "\<forall>lr \<in> set (lg_pending g). \<not> fst lr \<le> w_flushed_lsn w" using inv by (auto simp: wal_inv_def)
  obtain torn where cut: "take k (w_file (wal_fsync w)) = concat (map enc_rec log) @ torn" "fst (parse_rec torn) = None"
    unfolding all log_def using take_log [OF ok] by blast
  have log: "\<forall>lr \<in> set log. logged_ok lr" using ok set_intact [of k "log_records g"] by (auto simp: log_def)
  let ?w = "wal_open (Some (take k (w_file (wal_fsync w))))"
  have "w_file ?w = concat (map enc_rec log) @ torn" by (simp add: wal_open_def cut(1))
  note rec = wal_recover_ok [OF log cut(2) this, of wr s]
  have prefix: "length (w_file w) \<le> k \<longrightarrow> (\<exists>more. log = lg_durable g @ more)"
    using intact_append [of "lg_durable g" k "lg_pending g"] by (auto simp: log_def log_records_def wfile)
  have whole: "length (w_file (wal_fsync w)) \<le> k \<longrightarrow> log = log_records g"
    using intact_append [of "log_records g" k "[]"] by (simp add: log_def all)
  have flushed: "length (w_file w) \<le> k \<longrightarrow> (\<forall>lr \<in> set (log_records g). fst lr \<le> w_flushed_lsn w \<longrightarrow> lr \<in> set log)"
    using prefix pend by (auto simp: log_records_def)
  have above: "lr \<in> set log \<Longrightarrow> fst lr < next_after log (w_next_lsn ?w)" for lr by (rule next_after_above)
  from rec obtain info w' where "wal_recover wr ?w s = (info, w', fold (\<lambda>(pid, pb). wr pid pb) (page_writes (effects None (map snd log))) s)"
    "ri_had_meta info = (meta_updates (effects None (map snd log)) \<noteq> [])"
    "ri_root_page_id info = (if meta_updates (effects None (map snd log)) = [] then None else last (meta_updates (effects None (map snd log))))"
    "ri_max_page_id info = fold (\<lambda>(pid, pb) m. max m (int pid)) (page_writes (effects None (map snd log))) (- 1)"
    "w_next_lsn w' = next_after log (w_next_lsn ?w)" by blast
  with prefix whole flushed above show ?thesis
    by (intro exI [of _ info] exI [of _ w'] conjI) simp_all
qed

theorem crash_recovery_replays_prefix_witness:
  "let w = fold run_wal_op [AppendMeta (Some 3), Fsync, AppendMeta (Some 5)] (wal_open None) in
   \<exists>info w'. wal_recover (\<lambda>pid pb s. (pid, pb) # s) (wal_open (Some (take 22 (w_file (wal_fsync w))))) [] = (info, w', [])
     \<and> ri_had_meta info \<and> ri_root_page_id info = Some 3 \<and> ri_max_page_id info = - 1"
proof -
  let ?w1 = "run_wal_op (AppendMeta (Some 3)) (wal_open None)"
  have "wal_reach ?w1 \<lparr>lg_next = 2, lg_durable = [], lg_pending = [(1, MetaUpdate (Some 3))]\<rparr>"
    by (rule reach_step [OF wal_reach.opened]) (simp_all add: log_new_def NO_ROOT_def)
  then have "wal_reach (run_wal_op Fsync ?w1) \<lparr>lg_next = 2, lg_durable = [(1, MetaUpdate (Some 3))], lg_pending = []\<rparr>"
    by (rule reach_step) (simp_all add: log_records_def)
  then have reach: "wal_reach (run_wal_op (AppendMeta (Some 5)) (run_wal_op Fsync ?w1))
      \<lparr>lg_next = 3, lg_durable = [(1, MetaUpdate (Some 3))], lg_pending = [(2, MetaUpdate (Some 5))]\<rparr>"
    by (rule reach_step) (simp_all add: NO_ROOT_def)
  have kept: "intact 22 (log_records \<lparr>lg_next = 3, lg_durable = [(1, MetaUpdate (Some 3))], lg_pending = [(2, MetaUpdate (Some 5))]\<rparr>)
      = [(1, MetaUpdate (Some 3))]"
    by (simp add: log_records_def length_enc logged_ok_def NO_ROOT_def)
  show ?thesis
    using crash_recovery_replays_prefix [OF reach, where wr = "\<lambda>pid pb s. (pid, pb) # s" and k = 22 and s = "[]", unfolded kept] by auto
qed

definition page_or_meta :: "wal_rec \<Rightarrow> bool" where
  "page_or_meta r \<longleftrightarrow> (case r of PageWrite _ _ \<Rightarrow> True | MetaUpdate _ \<Rightarrow> True | Checkpoint \<Rightarrow> True | _ \<Rightarrow> False)"

lemma effects_plain:
  assumes "\<forall>r \<in> set body. page_or_meta r"
  shows "effects None (body @ rest) = effects None body @ effects None rest"
    and "effects (Some (t, pend)) (body @ TxnCommit t # rest) = pend @ effects None body @ effects None rest"
    and "effects (Some (t, pend)) (body @ TxnAbort t' # rest) = effects None rest"
    and "effects (Some (t, pend)) body = []"
proof -
  have "effects None (body @ rest) = effects None body @ effects None rest \<and>
    effects (Some (t, pend)) (body @ TxnCommit t # rest) = pend @ effects None body @ effects None rest \<and>
    effects (Some (t, pend)) (body @ TxnAbort t' # rest) = effects None rest \<and>
    effects (Some (t, pend)) body = []" for pend
    using assms
  proof (induction body arbitrary: pend)
    case (Cons r body)
    then show ?case by (cases r) (auto simp: page_or_meta_def)
  qed simp
  then show "effects None (body @ rest) = effects None body @ effects None rest"
    "effects (Some (t, pend)) (body @ TxnCommit t # rest) = pend @ effects None body @ effects None rest"
    "effects (Some (t, pend)) (body @ TxnAbort t' # rest) = effects None rest"
    "effects (Some (t, pend)) body = []" by blast+
qed

text \<open>The outcome of a replay: what is written, the root and the highest page id.\<close>

definition replay :: "(nat \<Rightarrow> bytes \<Rightarrow> 's \<Rightarrow> 's) \<Rightarrow> wal_rec list \<Rightarrow> 's recovery \<Rightarrow> 's recovery" where
  "replay wr rs v = rv_clear (fold (recover_step wr) rs v)"

lemma replay_effects:
  "rv_active v = None \<Longrightarrow> replay wr rs v = rv_apply wr (effects None rs) (rv_clear v)"
  using recover_effects [of None v wr rs] by (simp add: replay_def tracks_def)

text \<open>C6: atomicity of transactions at recovery. Replaying a transaction that ends with its commit has the
  outcome of replaying its page writes and root updates outside a transaction; replaying one that is
  aborted, or that the log ends in, has no effect at all.\<close>
theorem transaction_atomic_at_recovery:
  assumes "\<forall>r \<in> set body. page_or_meta r" "rv_active v = None"
  shows "replay wr (TxnBegin t # body @ TxnCommit t # rest) v = replay wr (body @ rest) v
    \<and> replay wr (TxnBegin t # body @ TxnAbort t' # rest) v = replay wr rest v
    \<and> replay wr (TxnBegin t # body) v = rv_clear v"
  using effects_plain [OF assms(1)] assms(2) by (simp_all add: replay_effects)

theorem transaction_atomic_at_recovery_witness:
  "replay (\<lambda>pid pb s. (pid, pb) # s) [TxnBegin 1, PageWrite 0 [1], MetaUpdate (Some 0), TxnCommit 1, PageWrite 2 [2]] (rv_init []) =
     replay (\<lambda>pid pb s. (pid, pb) # s) [PageWrite 0 [1], MetaUpdate (Some 0), PageWrite 2 [2]] (rv_init [])"
  using transaction_atomic_at_recovery [of "[PageWrite 0 [1], MetaUpdate (Some 0)]" "rv_init []" "\<lambda>pid pb s. (pid, pb) # s" 1 "[PageWrite 2 [2]]"]
  by (simp add: page_or_meta_def rv_init_def)

end
