(* ===== verification/Pager.thy ===== *)
theory Pager
  imports BPlus_Page Buffer_Pool Wal
begin

section \<open>The pager (\<^verbatim>\<open>src/bplus_pager.py\<close>)\<close>

text \<open>
  Page objects are shared and mutable: the pool, the deferred evictions and the running tree operation
  hold references to the same object. The model keeps the objects in a heap (\<open>pg_objs\<close>) and
  passes references (indices) where the code passes pages. The data file is its bytes; \<^verbatim>\<open>fsync\<close> of
  the data file does not change them. The specification of a pager that evicts nothing is its view
  (\<open>pg_view\<close>): what each page id holds, in the pool or on disk.
\<close>

datatype page = LeafP leaf_page | IndexP index_page

fun pg_id :: "page \<Rightarrow> nat" where
  "pg_id (LeafP l) = lf_id l"
| "pg_id (IndexP p) = ix_id p"

fun page_lsn :: "page \<Rightarrow> nat" where
  "page_lsn (LeafP l) = lf_lsn l"
| "page_lsn (IndexP p) = ix_lsn p"

fun set_page_lsn :: "nat \<Rightarrow> page \<Rightarrow> page" where
  "set_page_lsn n (LeafP l) = LeafP (l\<lparr>lf_lsn := n\<rparr>)"
| "set_page_lsn n (IndexP p) = IndexP (p\<lparr>ix_lsn := n\<rparr>)"

fun page_max_keys :: "page \<Rightarrow> nat" where
  "page_max_keys (LeafP l) = lf_max_keys l"
| "page_max_keys (IndexP p) = ix_max_keys p"

fun page_to_bytes :: "page \<Rightarrow> bytes res" where
  "page_to_bytes (LeafP l) = leaf_to_bytes l"
| "page_to_bytes (IndexP p) = index_to_bytes p"

record pager =
  pg_file :: "bytes option"
  pg_order :: nat
  pg_pool :: "nat buffer_pool"
  pg_next_id :: nat
  pg_root :: "nat option"
  pg_wal :: "wal option"
  pg_txn_writing :: bool
  pg_deferred :: "nat list"
  pg_next_txn_id :: nat
  pg_objs :: "page list"

subsection \<open>Objects, pool and log inside the pager's state\<close>

definition alloc_obj :: "page \<Rightarrow> ('a pager_scheme, nat) act" where
  "alloc_obj pg s = (Inr (length (pg_objs s)), s\<lparr>pg_objs := pg_objs s @ [pg]\<rparr>)"

definition obj :: "nat \<Rightarrow> ('a pager_scheme, page) act" where
  "obj r = gets (\<lambda>s. pg_objs s ! r)"

definition set_obj :: "nat \<Rightarrow> page \<Rightarrow> ('a pager_scheme, unit) act" where
  "set_obj r pg = modify (\<lambda>s. s\<lparr>pg_objs := (pg_objs s)[r := pg]\<rparr>)"

definition upd_pool :: "(nat buffer_pool \<Rightarrow> nat buffer_pool) \<Rightarrow> ('a pager_scheme, unit) act" where
  "upd_pool f = modify (\<lambda>s. s\<lparr>pg_pool := f (pg_pool s)\<rparr>)"

text \<open>A method call on \<^verbatim>\<open>self._wal\<close>, and the same under \<^verbatim>\<open>if self._wal is not None\<close>.\<close>

definition run_wal :: "(wal, 'b) act \<Rightarrow> ('a pager_scheme, 'b) act" where
  "run_wal m s = (case pg_wal s of
     None \<Rightarrow> (Inl AttributeError, s)
   | Some w \<Rightarrow> (case m w of (r, w') \<Rightarrow> (r, s\<lparr>pg_wal := Some w'\<rparr>)))"

definition if_wal :: "('a pager_scheme, unit) act \<Rightarrow> ('a pager_scheme, unit) act" where
  "if_wal m = bnd (gets (\<lambda>s. pg_wal s \<noteq> None)) (\<lambda>b. if b then m else ret ())"

definition if_file :: "('a pager_scheme, unit) act \<Rightarrow> ('a pager_scheme, unit) act" where
  "if_file m = bnd (gets (\<lambda>s. pg_file s \<noteq> None)) (\<lambda>b. if b then m else ret ())"

fun for_each :: "('b \<Rightarrow> ('s, unit) act) \<Rightarrow> 'b list \<Rightarrow> ('s, unit) act" where
  "for_each f [] = ret ()"
| "for_each f (x # xs) = bnd (f x) (\<lambda>_. for_each f xs)"

subsection \<open>Page I/O\<close>

definition data_offset :: "nat \<Rightarrow> nat" where
  "data_offset page_id = PAGE_SIZE + page_id * PAGE_SIZE"

definition file_put :: "nat \<Rightarrow> bytes \<Rightarrow> ('a pager_scheme, unit) act" where
  "file_put off v s = (case pg_file s of
     None \<Rightarrow> (Inl AttributeError, s)
   | Some f \<Rightarrow> (Inr (), s\<lparr>pg_file := Some (file_write off v f)\<rparr>))"

definition file_get :: "nat \<Rightarrow> nat \<Rightarrow> ('a pager_scheme, bytes) act" where
  "file_get off n s = (case pg_file s of
     None \<Rightarrow> (Inl AttributeError, s)
   | Some f \<Rightarrow> (Inr (seg off (off + n) f), s))"

definition write_page_to_disk :: "nat \<Rightarrow> ('a pager_scheme, unit) act" where
  "write_page_to_disk r =
     if_file (bnd (obj r) (\<lambda>pg. bnd (lift_res (page_to_bytes pg)) (\<lambda>b.
       file_put (data_offset (pg_id pg)) b)))"

definition write_raw_page :: "nat \<Rightarrow> bytes \<Rightarrow> bytes \<Rightarrow> bytes" where
  "write_raw_page pid b f = file_write (data_offset pid) b f"

text \<open>\<^verbatim>\<open>_read_page_from_disk\<close>, from the bytes read.\<close>

definition parse_page :: "nat \<Rightarrow> nat \<Rightarrow> bytes \<Rightarrow> page res" where
  "parse_page order pid data =
     (if length data < PAGE_SIZE then Inl IOError
      else if data ! 8 = page_type_byte LEAF then
        bind_res (leaf_from_bytes pid data order) (\<lambda>l. Inr (LeafP l))
      else if data ! 8 = page_type_byte INDEX then
        bind_res (index_from_bytes pid data order) (\<lambda>p. Inr (IndexP p))
      else Inl ValueError)"

definition read_page_from_disk :: "nat \<Rightarrow> ('a pager_scheme, page) act" where
  "read_page_from_disk pid =
     bnd (file_get (data_offset pid) PAGE_SIZE) (\<lambda>data.
     bnd (gets pg_order) (\<lambda>order. lift_res (parse_page order pid data)))"

subsection \<open>The pool and the log rule\<close>

text \<open>Before a dirty page is written to the data file its log record is made durable.\<close>

definition wal_before_page :: "nat \<Rightarrow> ('a pager_scheme, unit) act" where
  "wal_before_page r =
     if_wal (bnd (obj r) (\<lambda>pg. run_wal (\<lambda>w.
       (Inr (), if page_lsn pg > w_flushed_lsn w then fsync_up_to (page_lsn pg) w else w))))"

definition handle_evicted :: "nat \<times> nat \<Rightarrow> ('a pager_scheme, unit) act" where
  "handle_evicted e =
     if_file (bnd (gets pg_txn_writing) (\<lambda>txn_writing.
       if txn_writing then modify (\<lambda>s. s\<lparr>pg_deferred := pg_deferred s @ [snd e]\<rparr>)
       else bnd (wal_before_page (snd e)) (\<lambda>_. write_page_to_disk (snd e))))"

definition pg_pool_put :: "nat \<Rightarrow> bool \<Rightarrow> ('a pager_scheme, unit) act" where
  "pg_pool_put r dirty =
     bnd (obj r) (\<lambda>pg.
     bnd (\<lambda>s. case pool_put (pg_id pg) r dirty (pg_pool s) of
           (evicted, p) \<Rightarrow> (Inr evicted, s\<lparr>pg_pool := p\<rparr>)) (\<lambda>evicted.
     for_each handle_evicted evicted))"

text \<open>\<^verbatim>\<open>new_leaf_page\<close> and \<^verbatim>\<open>new_index_page\<close>: the two differ in the object they create.\<close>

definition new_page :: "page \<Rightarrow> ('a pager_scheme, nat) act" where
  "new_page pg =
     bnd (alloc_obj pg) (\<lambda>r.
     bnd (pg_pool_put r False) (\<lambda>_.
     bnd (modify (\<lambda>s. s\<lparr>pg_next_id := pg_next_id s + 1\<rparr>)) (\<lambda>_.
     bnd (if_file (write_page_to_disk r)) (\<lambda>_. ret r))))"

definition new_leaf_page :: "('a pager_scheme, nat) act" where
  "new_leaf_page =
     bnd (gets (\<lambda>s. (pg_next_id s, pg_order s))) (\<lambda>(pid, order).
     bnd (lift_res (leaf_init pid order)) (\<lambda>l. new_page (LeafP l)))"

definition new_index_page :: "('a pager_scheme, nat) act" where
  "new_index_page =
     bnd (gets (\<lambda>s. (pg_next_id s, pg_order s))) (\<lambda>(pid, order).
     new_page (IndexP (index_init pid order)))"

definition get_page :: "nat \<Rightarrow> ('a pager_scheme, nat) act" where
  "get_page pid =
     bnd (\<lambda>s. case pool_get pid (pg_pool s) of (r, p) \<Rightarrow> (Inr r, s\<lparr>pg_pool := p\<rparr>)) (\<lambda>cached.
     case cached of
       Some r \<Rightarrow> ret r
     | None \<Rightarrow>
         bnd (gets pg_file) (\<lambda>f.
         if f \<noteq> None then
           bnd (read_page_from_disk pid) (\<lambda>pg.
           bnd (alloc_obj pg) (\<lambda>r.
           bnd (pg_pool_put r False) (\<lambda>_. ret r)))
         else throw KeyError))"

definition pg_mark_dirty :: "nat \<Rightarrow> ('a pager_scheme, unit) act" where
  "pg_mark_dirty r =
     bnd (obj r) (\<lambda>pg.
     bnd (if_wal
       (bnd (lift_res (page_to_bytes pg)) (\<lambda>b.
        bnd (run_wal (append_page_write (pg_id pg) b)) (\<lambda>lsn.
        set_obj r (set_page_lsn lsn pg))))) (\<lambda>_.
     bnd (gets (\<lambda>s. pool_contains (pg_id pg) (pg_pool s))) (\<lambda>c.
     if \<not> c then pg_pool_put r True else upd_pool (pool_mark_dirty (pg_id pg)))))"

subsection \<open>The meta page\<close>

definition META_MAGIC :: bytes where
  "META_MAGIC = [0x42, 0x50, 0x54, 0x52, 0x45, 0x45, 0x01, 0x00]"

definition NO_PAGE :: nat where "NO_PAGE = 0xFFFFFFFF"

definition meta_bytes :: "nat option \<Rightarrow> nat \<Rightarrow> nat \<Rightarrow> bytes res" where
  "meta_bytes root next_id order =
     (let buf = put_slice 0 8 META_MAGIC (replicate PAGE_SIZE 0);
          root = (case root of None \<Rightarrow> NO_PAGE | Some r \<Rightarrow> r) in
      bind_res (pack_into 4 buf 8 (int root)) (\<lambda>buf.
      bind_res (pack_into 4 buf 12 (int next_id)) (\<lambda>buf.
      pack_into 4 buf 16 (int order))))"

definition write_meta :: "('a pager_scheme, unit) act" where
  "write_meta =
     bnd (gets (\<lambda>s. meta_bytes (pg_root s) (pg_next_id s) (pg_order s))) (\<lambda>m.
     bnd (lift_res m) (file_put 0))"

definition parse_meta :: "bytes \<Rightarrow> (nat option \<times> nat \<times> nat) res" where
  "parse_meta buf =
     (if length buf < 20 \<or> seg 0 8 buf \<noteq> META_MAGIC then Inl ValueError
      else
        bind_res (unpack_from 4 buf 8) (\<lambda>root.
        bind_res (unpack_from 4 buf 12) (\<lambda>next_id.
        bind_res (unpack_from 4 buf 16) (\<lambda>order.
        Inr (if root = int NO_PAGE then None else Some (nat root), nat next_id, nat order)))))"

definition read_meta :: "('a pager_scheme, unit) act" where
  "read_meta =
     bnd (file_get 0 PAGE_SIZE) (\<lambda>buf.
     bnd (lift_res (parse_meta buf)) (\<lambda>(root, next_id, order).
     modify (\<lambda>s. s\<lparr>pg_root := root, pg_next_id := next_id, pg_order := order\<rparr>)))"

subsection \<open>Flush, transactions, opening and recovery\<close>

definition flush_page :: "nat \<times> nat \<Rightarrow> ('a pager_scheme, unit) act" where
  "flush_page e = bnd (write_page_to_disk (snd e)) (\<lambda>_. upd_pool (pool_clear_dirty (fst e)))"

definition pg_flush :: "('a pager_scheme, unit) act" where
  "pg_flush =
     if_file
       (bnd (if_wal (run_wal (modify wal_fsync))) (\<lambda>_.
        bnd (gets (\<lambda>s. pool_dirty_pages (pg_pool s))) (\<lambda>dirty.
        bnd (for_each flush_page dirty) (\<lambda>_.
        bnd write_meta (\<lambda>_.
        if_wal (run_wal wal_checkpoint))))))"

definition pg_close :: "('a pager_scheme, unit) act" where
  "pg_close =
     bnd pg_flush (\<lambda>_.
     bnd (if_wal (run_wal (modify wal_close))) (\<lambda>_.
     modify (\<lambda>s. s\<lparr>pg_wal := None, pg_file := None\<rparr>)))"

definition alloc_txn_id :: "('a pager_scheme, nat) act" where
  "alloc_txn_id =
     bnd (gets pg_next_txn_id) (\<lambda>t.
     bnd (modify (\<lambda>s. s\<lparr>pg_next_txn_id := pg_next_txn_id s + 1\<rparr>)) (\<lambda>_. ret t))"

definition log_meta_update :: "('a pager_scheme, unit) act" where
  "log_meta_update =
     if_wal (bnd (gets pg_root) (\<lambda>root. bnd (run_wal (append_meta_update root)) (\<lambda>_. ret ())))"

definition begin_txn_write :: "('a pager_scheme, unit) act" where
  "begin_txn_write = modify (\<lambda>s. s\<lparr>pg_txn_writing := True, pg_deferred := []\<rparr>)"

definition write_deferred :: "nat \<Rightarrow> ('a pager_scheme, unit) act" where
  "write_deferred r = if_file (bnd (wal_before_page r) (\<lambda>_. write_page_to_disk r))"

definition end_txn_write :: "('a pager_scheme, unit) act" where
  "end_txn_write =
     bnd (modify (\<lambda>s. s\<lparr>pg_txn_writing := False\<rparr>)) (\<lambda>_.
     bnd (gets pg_deferred) (\<lambda>ps.
     bnd (for_each write_deferred ps) (\<lambda>_.
     modify (\<lambda>s. s\<lparr>pg_deferred := []\<rparr>))))"

definition pg_recover :: "(pager, unit) act" where
  "pg_recover =
     bnd (\<lambda>s. case (pg_wal s, pg_file s) of
         (Some w, Some f) \<Rightarrow>
           (case wal_recover write_raw_page w f of
             (info, w', f') \<Rightarrow> (Inr info, s\<lparr>pg_wal := Some w', pg_file := Some f'\<rparr>))
       | _ \<Rightarrow> (Inl AttributeError, s)) (\<lambda>info.
     bnd (modify (\<lambda>s. if ri_had_meta info then s\<lparr>pg_root := ri_root_page_id info\<rparr> else s)) (\<lambda>_.
     bnd (modify (\<lambda>s. if ri_max_page_id info \<ge> int (pg_next_id s)
                       then s\<lparr>pg_next_id := nat (ri_max_page_id info + 1)\<rparr> else s)) (\<lambda>_.
     bnd write_meta (\<lambda>_.
     run_wal wal_checkpoint))))"

definition pg_empty :: "nat \<Rightarrow> nat buffer_pool \<Rightarrow> pager" where
  "pg_empty order pool =
     \<lparr>pg_file = None, pg_order = order, pg_pool = pool, pg_next_id = 0, pg_root = None, pg_wal = None,
      pg_txn_writing = False, pg_deferred = [], pg_next_txn_id = 1, pg_objs = []\<rparr>"

text \<open>\<^verbatim>\<open>_create_new\<close> and \<^verbatim>\<open>_open_existing\<close>, given the contents of the files that exist.\<close>

definition create_new :: "bytes option \<Rightarrow> (pager, unit) act" where
  "create_new wal_file =
     bnd (modify (\<lambda>s. s\<lparr>pg_file := Some [], pg_wal := Some (wal_open wal_file)\<rparr>)) (\<lambda>_. write_meta)"

definition open_existing :: "bytes \<Rightarrow> bytes option \<Rightarrow> (pager, unit) act" where
  "open_existing data wal_file =
     bnd (modify (\<lambda>s. s\<lparr>pg_file := Some data\<rparr>)) (\<lambda>_.
     bnd read_meta (\<lambda>_.
     bnd (modify (\<lambda>s. s\<lparr>pg_wal := Some (wal_open wal_file)\<rparr>)) (\<lambda>_.
     bnd (gets (\<lambda>s. \<not> wal_is_empty (the (pg_wal s)))) (\<lambda>b. if b then pg_recover else ret ()))))"

text \<open>\<open>None\<close> for an in-memory pager, otherwise the data file and the log if they exist.\<close>

definition pager_init :: "(bytes option \<times> bytes option) option \<Rightarrow> nat \<Rightarrow> int \<Rightarrow> pager res" where
  "pager_init files order capacity =
     bind_res (pool_init capacity) (\<lambda>pool.
     case files of
       None \<Rightarrow> Inr (pg_empty order pool)
     | Some (data, wal_file) \<Rightarrow>
         (case (case data of None \<Rightarrow> create_new wal_file | Some d \<Rightarrow> open_existing d wal_file)
            (pg_empty order pool) of
           (Inl e, s) \<Rightarrow> Inl e
         | (Inr _, s) \<Rightarrow> Inr s))"

end
