(* ===== verification/BPlus_Tree.thy ===== *)
theory BPlus_Tree
  imports Pager
begin

section \<open>The B+tree (\<^verbatim>\<open>src/bplus_tree.py\<close>)\<close>

text \<open>
  The tree's state is the pager's state with the root's page id. The operations are translated on
  page references, as the code works on page objects: a descent returns the reference of a leaf, and
  splits, borrows and merges update the referenced objects and mark them dirty. Loops and the recursion
  of \<^verbatim>\<open>_insert\<close> follow child and sibling pointers, which nothing in the code bounds; they take as fuel
  one more than the number of pages, and \<open>NoReturn\<close> is the outcome of running out of it.
\<close>

record bplus_tree = pager +
  bt_root_id :: nat
  bt_order :: nat

definition mk_tree :: "pager \<Rightarrow> nat \<Rightarrow> bplus_tree" where
  "mk_tree p root = pager.extend p (bplus_tree.fields root (pg_order p))"

text \<open>\<^verbatim>\<open>__init__\<close>\<close>

definition tree_init :: "pager \<Rightarrow> bplus_tree res" where
  "tree_init p =
     (case pg_root p of
       Some root \<Rightarrow> Inr (mk_tree p root)
     | None \<Rightarrow>
         (case bnd new_leaf_page (\<lambda>r.
               bnd (obj r) (\<lambda>root.
               bnd (modify (\<lambda>s. s\<lparr>pg_root := Some (pg_id root)\<rparr>)) (\<lambda>_.
               bnd log_meta_update (\<lambda>_. ret (pg_id root))))) p of
           (Inl e, _) \<Rightarrow> Inl e
         | (Inr root, p') \<Rightarrow> Inr (mk_tree p' root)))"

subsection \<open>Page objects by reference\<close>

definition as_leaf :: "nat \<Rightarrow> ('a pager_scheme, leaf_page) act" where
  "as_leaf r = bnd (obj r) (\<lambda>pg. case pg of LeafP l \<Rightarrow> ret l | IndexP _ \<Rightarrow> throw AttributeError)"

definition as_index :: "nat \<Rightarrow> ('a pager_scheme, index_page) act" where
  "as_index r = bnd (obj r) (\<lambda>pg. case pg of IndexP p \<Rightarrow> ret p | LeafP _ \<Rightarrow> throw AttributeError)"

text \<open>A method call on the leaf behind a reference, and an assignment to fields of an index page.\<close>

definition leaf_act :: "nat \<Rightarrow> (leaf_page, 'b) act \<Rightarrow> ('a pager_scheme, 'b) act" where
  "leaf_act r m =
     bnd (as_leaf r) (\<lambda>l. case m l of (res, l') \<Rightarrow> bnd (set_obj r (LeafP l')) (\<lambda>_. lift_res res))"

definition leaf_get :: "nat \<Rightarrow> (leaf_page \<Rightarrow> 'b res) \<Rightarrow> ('a pager_scheme, 'b) act" where
  "leaf_get r f = bnd (as_leaf r) (\<lambda>l. lift_res (f l))"

definition upd_index :: "nat \<Rightarrow> (index_page \<Rightarrow> index_page) \<Rightarrow> ('a pager_scheme, unit) act" where
  "upd_index r f = bnd (as_index r) (\<lambda>p. set_obj r (IndexP (f p)))"

fun page_num_keys :: "page \<Rightarrow> int res" where
  "page_num_keys (LeafP l) = leaf_num_keys l"
| "page_num_keys (IndexP p) = Inr (int (index_num_keys p))"

fun is_index :: "page \<Rightarrow> bool" where
  "is_index (LeafP _) \<longleftrightarrow> False"
| "is_index (IndexP _) \<longleftrightarrow> True"

text \<open>\<^verbatim>\<open>xs[i] = v\<close> and \<^verbatim>\<open>xs.pop(i)\<close>.\<close>

definition set_nth :: "'b list \<Rightarrow> nat \<Rightarrow> 'b \<Rightarrow> 'b list res" where
  "set_nth xs i v = (if i < length xs then Inr (xs[i := v]) else Inl IndexError)"

definition pop_nth :: "'b list \<Rightarrow> nat \<Rightarrow> 'b list res" where
  "pop_nth xs i = (if i < length xs then Inr (take i xs @ drop (Suc i) xs) else Inl IndexError)"

definition set_keys :: "nat \<Rightarrow> int list res \<Rightarrow> ('a pager_scheme, unit) act" where
  "set_keys r ks = bnd (lift_res ks) (\<lambda>ks. upd_index r (\<lambda>p. p\<lparr>ix_keys := ks\<rparr>))"

definition set_children :: "nat \<Rightarrow> nat list res \<Rightarrow> ('a pager_scheme, unit) act" where
  "set_children r cs = bnd (lift_res cs) (\<lambda>cs. upd_index r (\<lambda>p. p\<lparr>ix_children := cs\<rparr>))"

text \<open>\<^verbatim>\<open>left.split(right)\<close> for the two kinds of pages.\<close>

definition leaf_split_act :: "nat \<Rightarrow> nat \<Rightarrow> ('a pager_scheme, int) act" where
  "leaf_split_act rl rr =
     bnd (as_leaf rl) (\<lambda>l. bnd (as_leaf rr) (\<lambda>r.
     case leaf_split (l, r) of (res, (l', r')) \<Rightarrow>
       bnd (set_obj rl (LeafP l')) (\<lambda>_. bnd (set_obj rr (LeafP r')) (\<lambda>_. lift_res res))))"

definition index_split_act :: "nat \<Rightarrow> nat \<Rightarrow> ('a pager_scheme, int) act" where
  "index_split_act rl rr =
     bnd (as_index rl) (\<lambda>l. bnd (as_index rr) (\<lambda>r.
     case index_split (l, r) of (res, (l', r')) \<Rightarrow>
       bnd (set_obj rl (IndexP l')) (\<lambda>_. bnd (set_obj rr (IndexP r')) (\<lambda>_. lift_res res))))"

subsection \<open>Search and range scan\<close>

definition tree_fuel :: "('a pager_scheme, nat) act" where
  "tree_fuel = gets (\<lambda>s. Suc (pg_next_id s))"

fun find_leaf_loop :: "nat \<Rightarrow> int \<Rightarrow> nat \<Rightarrow> ('a pager_scheme, nat) act" where
  "find_leaf_loop 0 key r = throw NoReturn"
| "find_leaf_loop (Suc n) key r =
     bnd (obj r) (\<lambda>pg. case pg of
       LeafP _ \<Rightarrow> ret r
     | IndexP p \<Rightarrow>
         bnd (lift_res (find_child p key)) (\<lambda>child_id.
         bnd (get_page child_id) (find_leaf_loop n key)))"

definition find_leaf :: "int \<Rightarrow> ('a bplus_tree_scheme, nat) act" where
  "find_leaf key =
     bnd tree_fuel (\<lambda>n.
     bnd (gets bt_root_id) (\<lambda>root.
     bnd (get_page root) (find_leaf_loop n key)))"

definition tree_search :: "int \<Rightarrow> ('a bplus_tree_scheme, bytes option) act" where
  "tree_search key = bnd (find_leaf key) (\<lambda>r. leaf_get r (\<lambda>l. leaf_search l key))"

text \<open>The entries of one leaf: \<open>True\<close> when the scan has passed \<open>end_key\<close> and returns.\<close>

fun scan_entries :: "int \<Rightarrow> int \<Rightarrow> (int \<times> bytes) list \<Rightarrow> (int \<times> bytes) list \<Rightarrow> bool \<times> (int \<times> bytes) list" where
  "scan_entries start_key end_key [] results = (False, results)"
| "scan_entries start_key end_key ((key, rec) # es) results =
     (if key > end_key then (True, results)
      else if key \<ge> start_key then scan_entries start_key end_key es (results @ [(key, rec)])
      else scan_entries start_key end_key es results)"

fun range_loop :: "nat \<Rightarrow> int \<Rightarrow> int \<Rightarrow> nat \<Rightarrow> (int \<times> bytes) list \<Rightarrow> ('a pager_scheme, (int \<times> bytes) list) act" where
  "range_loop 0 start_key end_key r results = throw NoReturn"
| "range_loop (Suc n) start_key end_key r results =
     bnd (leaf_get r leaf_entries) (\<lambda>es.
     case scan_entries start_key end_key es results of (stop, results) \<Rightarrow>
       if stop then ret results
       else
         bnd (as_leaf r) (\<lambda>leaf. case lf_next leaf of
           None \<Rightarrow> ret results
         | Some nxt \<Rightarrow> bnd (get_page nxt) (\<lambda>r'. range_loop n start_key end_key r' results)))"

definition range_scan :: "int \<Rightarrow> int \<Rightarrow> ('a bplus_tree_scheme, (int \<times> bytes) list) act" where
  "range_scan start_key end_key =
     bnd tree_fuel (\<lambda>n.
     bnd (find_leaf start_key) (\<lambda>r. range_loop n start_key end_key r []))"

subsection \<open>Insert\<close>

fun tree_ins :: "nat \<Rightarrow> nat \<Rightarrow> int \<Rightarrow> bytes \<Rightarrow> ('a pager_scheme, (int \<times> nat) option) act" where
  "tree_ins 0 pid key rec = throw NoReturn"
| "tree_ins (Suc n) pid key rec =
     bnd (get_page pid) (\<lambda>r.
     bnd (obj r) (\<lambda>pg. case pg of
       LeafP _ \<Rightarrow>
         bnd (leaf_act r (leaf_insert key rec)) (\<lambda>_.
         bnd (pg_mark_dirty r) (\<lambda>_.
         bnd (leaf_get r leaf_is_full) (\<lambda>full.
         if \<not> full then ret None
         else
           bnd new_leaf_page (\<lambda>right.
           bnd (leaf_split_act r right) (\<lambda>split_key.
           bnd (pg_mark_dirty right) (\<lambda>_.
           bnd (obj right) (\<lambda>rp. ret (Some (split_key, pg_id rp)))))))))
     | IndexP p \<Rightarrow>
         bnd (lift_res (find_child p key)) (\<lambda>child_id.
         bnd (tree_ins n child_id key rec) (\<lambda>result. case result of
           None \<Rightarrow> ret None
         | Some (split_key, new_child_id) \<Rightarrow>
             bnd (upd_index r (insert_key split_key new_child_id)) (\<lambda>_.
             bnd (pg_mark_dirty r) (\<lambda>_.
             bnd (as_index r) (\<lambda>p.
             if \<not> index_is_full p then ret None
             else
               bnd new_index_page (\<lambda>right_index.
               bnd (index_split_act r right_index) (\<lambda>push_up_key.
               bnd (pg_mark_dirty right_index) (\<lambda>_.
               bnd (obj right_index) (\<lambda>rp. ret (Some (push_up_key, pg_id rp)))))))))))))"

definition set_root :: "nat \<Rightarrow> ('a bplus_tree_scheme, unit) act" where
  "set_root root =
     bnd (modify (\<lambda>s. s\<lparr>bt_root_id := root\<rparr>)) (\<lambda>_.
     bnd (modify (\<lambda>s. s\<lparr>pg_root := Some (bt_root_id s)\<rparr>)) (\<lambda>_. log_meta_update))"

definition tree_insert :: "int \<Rightarrow> bytes \<Rightarrow> ('a bplus_tree_scheme, unit) act" where
  "tree_insert key rec =
     bnd tree_fuel (\<lambda>n.
     bnd (gets bt_root_id) (\<lambda>root_id.
     bnd (tree_ins n root_id key rec) (\<lambda>result. case result of
       None \<Rightarrow> ret ()
     | Some (push_up_key, new_page_id) \<Rightarrow>
         bnd new_index_page (\<lambda>new_root.
         bnd (upd_index new_root (\<lambda>p. p\<lparr>ix_keys := [push_up_key]\<rparr>)) (\<lambda>_.
         bnd (upd_index new_root (\<lambda>p. p\<lparr>ix_children := [root_id, new_page_id]\<rparr>)) (\<lambda>_.
         bnd (pg_mark_dirty new_root) (\<lambda>_.
         bnd (obj new_root) (\<lambda>pg. set_root (pg_id pg)))))))))"

subsection \<open>Delete\<close>

text \<open>The routing of \<^verbatim>\<open>_find_path\<close>: the child's index and its page id.\<close>

fun path_idx :: "nat \<Rightarrow> int list \<Rightarrow> int \<Rightarrow> int \<Rightarrow> int" where
  "path_idx i [] key dflt = dflt"
| "path_idx i (k # ks) key dflt = (if key < k then int i else path_idx (Suc i) ks key dflt)"

definition path_child :: "index_page \<Rightarrow> int \<Rightarrow> (int \<times> nat) res" where
  "path_child p key =
     (let child_idx = path_idx 0 (ix_keys p) key (int (length (ix_children p)) - 1) in
      bind_res (py_nth (ix_children p) child_idx) (\<lambda>child_id. Inr (child_idx, child_id)))"

fun find_path_loop :: "nat \<Rightarrow> int \<Rightarrow> nat \<Rightarrow> (nat \<times> int option) list \<Rightarrow> ('a pager_scheme, (nat \<times> int option) list) act" where
  "find_path_loop 0 key r path = throw NoReturn"
| "find_path_loop (Suc n) key r path =
     bnd (obj r) (\<lambda>pg. case pg of
       LeafP _ \<Rightarrow> ret path
     | IndexP p \<Rightarrow>
         bnd (lift_res (path_child p key)) (\<lambda>(child_idx, child_id).
         bnd (get_page child_id) (\<lambda>r'. find_path_loop n key r' (path @ [(child_id, Some child_idx)]))))"

definition find_path :: "int \<Rightarrow> ('a bplus_tree_scheme, (nat \<times> int option) list) act" where
  "find_path key =
     bnd tree_fuel (\<lambda>n.
     bnd (gets bt_root_id) (\<lambda>root.
     bnd (get_page root) (\<lambda>r. find_path_loop n key r [(root, None)])))"

definition mark_three :: "nat \<Rightarrow> nat \<Rightarrow> nat \<Rightarrow> ('a pager_scheme, unit) act" where
  "mark_three a b c = bnd (pg_mark_dirty a) (\<lambda>_. bnd (pg_mark_dirty b) (\<lambda>_. pg_mark_dirty c))"

definition borrow_from_right :: "nat \<Rightarrow> nat \<Rightarrow> nat \<Rightarrow> nat \<Rightarrow> bool \<Rightarrow> ('a pager_scheme, unit) act" where
  "borrow_from_right page right child_idx parent is_leaf =
     bnd (if is_leaf then
         bnd (leaf_get right leaf_entries) (\<lambda>entries.
         bnd (lift_res (py_nth entries 0)) (\<lambda>(key_in, rec_in).
         bnd (leaf_act right (leaf_rebuild (drop 1 entries))) (\<lambda>_.
         bnd (leaf_act page (leaf_insert key_in rec_in)) (\<lambda>_.
         bnd (leaf_get right leaf_entries) (\<lambda>entries'.
         bnd (lift_res (py_nth entries' 0)) (\<lambda>(k, _).
         bnd (as_index parent) (\<lambda>pp. set_keys parent (set_nth (ix_keys pp) child_idx k))))))))
       else
         bnd (as_index parent) (\<lambda>pp.
         bnd (lift_res (py_nth (ix_keys pp) (int child_idx))) (\<lambda>sep.
         bnd (upd_index page (\<lambda>p. p\<lparr>ix_keys := ix_keys p @ [sep]\<rparr>)) (\<lambda>_.
         bnd (as_index right) (\<lambda>rp.
         bnd (lift_res (py_nth (ix_children rp) 0)) (\<lambda>c.
         bnd (upd_index page (\<lambda>p. p\<lparr>ix_children := ix_children p @ [c]\<rparr>)) (\<lambda>_.
         bnd (lift_res (py_nth (ix_keys rp) 0)) (\<lambda>k.
         bnd (set_keys parent (set_nth (ix_keys pp) child_idx k)) (\<lambda>_.
         bnd (set_keys right (pop_nth (ix_keys rp) 0)) (\<lambda>_.
         set_children right (pop_nth (ix_children rp) 0)))))))))))
     (\<lambda>_. mark_three page right parent)"

definition borrow_from_left :: "nat \<Rightarrow> nat \<Rightarrow> nat \<Rightarrow> nat \<Rightarrow> bool \<Rightarrow> ('a pager_scheme, unit) act" where
  "borrow_from_left page left child_idx parent is_leaf =
     bnd (if is_leaf then
         bnd (leaf_get left leaf_entries) (\<lambda>entries.
         bnd (lift_res (py_nth entries (- 1))) (\<lambda>(key_in, rec_in).
         bnd (leaf_act left (leaf_rebuild (butlast entries))) (\<lambda>_.
         bnd (leaf_act page (leaf_insert key_in rec_in)) (\<lambda>_.
         bnd (as_index parent) (\<lambda>pp. set_keys parent (set_nth (ix_keys pp) (child_idx - 1) key_in))))))
       else
         bnd (as_index parent) (\<lambda>pp.
         bnd (lift_res (py_nth (ix_keys pp) (int child_idx - 1))) (\<lambda>sep.
         bnd (upd_index page (\<lambda>p. p\<lparr>ix_keys := sep # ix_keys p\<rparr>)) (\<lambda>_.
         bnd (as_index left) (\<lambda>lp.
         bnd (lift_res (py_nth (ix_children lp) (- 1))) (\<lambda>c.
         bnd (upd_index page (\<lambda>p. p\<lparr>ix_children := c # ix_children p\<rparr>)) (\<lambda>_.
         bnd (lift_res (py_nth (ix_keys lp) (- 1))) (\<lambda>k.
         bnd (set_keys parent (set_nth (ix_keys pp) (child_idx - 1) k)) (\<lambda>_.
         bnd (set_keys left (pop_nth (ix_keys lp) (length (ix_keys lp) - 1))) (\<lambda>_.
         set_children left (pop_nth (ix_children lp) (length (ix_children lp) - 1))))))))))))
     (\<lambda>_. mark_three page left parent)"

definition merge_pages :: "nat \<Rightarrow> nat \<Rightarrow> nat \<Rightarrow> nat \<Rightarrow> bool \<Rightarrow> ('a pager_scheme, unit) act" where
  "merge_pages left right sep_idx parent is_leaf =
     bnd (if is_leaf then
         bnd (leaf_get left leaf_entries) (\<lambda>les.
         bnd (leaf_get right leaf_entries) (\<lambda>res.
         bnd (leaf_act left (leaf_rebuild (les @ res))) (\<lambda>_.
         bnd (as_leaf right) (\<lambda>rl.
         leaf_act left (modify (\<lambda>l. l\<lparr>lf_next := lf_next rl\<rparr>))))))
       else
         bnd (as_index parent) (\<lambda>pp.
         bnd (lift_res (py_nth (ix_keys pp) (int sep_idx))) (\<lambda>sep.
         bnd (as_index right) (\<lambda>rp.
         bnd (upd_index left (\<lambda>p. p\<lparr>ix_keys := ix_keys p @ [sep] @ ix_keys rp\<rparr>)) (\<lambda>_.
         upd_index left (\<lambda>p. p\<lparr>ix_children := ix_children p @ ix_children rp\<rparr>))))))
     (\<lambda>_.
     bnd (as_index parent) (\<lambda>pp.
     bnd (set_keys parent (pop_nth (ix_keys pp) sep_idx)) (\<lambda>_.
     bnd (set_children parent (pop_nth (ix_children pp) (sep_idx + 1))) (\<lambda>_.
     bnd (pg_mark_dirty left) (\<lambda>_. pg_mark_dirty parent)))))"

text \<open>\<^verbatim>\<open>right.num_keys() > min_keys\<close> for the sibling behind a child pointer of the parent.\<close>

definition sibling :: "nat \<Rightarrow> nat \<Rightarrow> ('a pager_scheme, nat) act" where
  "sibling parent i =
     bnd (as_index parent) (\<lambda>pp.
     bnd (lift_res (py_nth (ix_children pp) (int i))) get_page)"

definition can_lend :: "nat \<Rightarrow> nat \<Rightarrow> ('a pager_scheme, bool) act" where
  "can_lend r min_keys =
     bnd (obj r) (\<lambda>pg. bnd (lift_res (page_num_keys pg)) (\<lambda>n. ret (n > int min_keys)))"

definition borrow_or_merge :: "nat \<Rightarrow> nat \<Rightarrow> nat \<Rightarrow> ('a pager_scheme, bool) act" where
  "borrow_or_merge page child_idx parent =
     bnd (obj page) (\<lambda>pg.
     bnd (as_index parent) (\<lambda>pp.
     let is_leaf = \<not> is_index pg; min_keys = page_max_keys pg div 2;
         has_right = child_idx + 1 < length (ix_children pp); has_left = child_idx > 0;
         merge =
           (if has_right then
              bnd (sibling parent (child_idx + 1)) (\<lambda>right.
              bnd (merge_pages page right child_idx parent is_leaf) (\<lambda>_. ret True))
            else
              bnd (sibling parent (child_idx - 1)) (\<lambda>left.
              bnd (merge_pages left page (child_idx - 1) parent is_leaf) (\<lambda>_. ret True)));
         try_left =
           (if has_left then
              bnd (sibling parent (child_idx - 1)) (\<lambda>left.
              bnd (can_lend left min_keys) (\<lambda>ok.
              if ok then bnd (borrow_from_left page left child_idx parent is_leaf) (\<lambda>_. ret False)
              else merge))
            else merge)
     in
       if has_right then
         bnd (sibling parent (child_idx + 1)) (\<lambda>right.
         bnd (can_lend right min_keys) (\<lambda>ok.
         if ok then bnd (borrow_from_right page right child_idx parent is_leaf) (\<lambda>_. ret False)
         else try_left))
       else try_left))"

text \<open>The loop of \<^verbatim>\<open>_fix_underflow\<close> on the reversed path: \<open>False\<close> when it returns early.\<close>

fun fix_loop :: "(nat \<times> int option) list \<Rightarrow> ('a pager_scheme, bool) act" where
  "fix_loop ((pid, child_idx) # (parent_id, parent_idx) # rest) =
     bnd (get_page pid) (\<lambda>page.
     bnd (obj page) (\<lambda>pg.
     bnd (lift_res (page_num_keys pg)) (\<lambda>n.
     if n \<ge> int (page_max_keys pg div 2) then ret False
     else
       bnd (get_page parent_id) (\<lambda>parent. case child_idx of
         None \<Rightarrow> throw TypeError
       | Some i \<Rightarrow>
           bnd (borrow_or_merge page (nat i) parent) (\<lambda>did_merge.
           if \<not> did_merge then ret False
           else fix_loop ((parent_id, parent_idx) # rest))))))"
| "fix_loop path = ret True"

definition fix_underflow :: "(nat \<times> int option) list \<Rightarrow> ('a bplus_tree_scheme, unit) act" where
  "fix_underflow path =
     bnd (fix_loop (rev path)) (\<lambda>completed.
     if \<not> completed then ret ()
     else
       bnd (gets bt_root_id) (\<lambda>root_id.
       bnd (get_page root_id) (\<lambda>r.
       bnd (obj r) (\<lambda>pg. case pg of
         LeafP _ \<Rightarrow> ret ()
       | IndexP p \<Rightarrow>
           if index_num_keys p = 0 then bnd (lift_res (py_nth (ix_children p) 0)) set_root
           else ret ()))))"

definition tree_delete :: "int \<Rightarrow> ('a bplus_tree_scheme, bool) act" where
  "tree_delete key =
     bnd (find_path key) (\<lambda>path.
     bnd (get_page (fst (last path))) (\<lambda>leaf.
     bnd (leaf_act leaf (leaf_delete_key key)) (\<lambda>found.
     if \<not> found then ret False
     else
       bnd (pg_mark_dirty leaf) (\<lambda>_.
       bnd (fix_underflow path) (\<lambda>_. ret True)))))"

definition tree_flush :: "('a bplus_tree_scheme, unit) act" where "tree_flush = pg_flush"

definition tree_close :: "('a bplus_tree_scheme, unit) act" where "tree_close = pg_close"

end
