(* ===== verification/Tree_Model.thy ===== *)
theory Tree_Model
  imports BPlus_Page "HOL-Library.Multiset"
begin

section \<open>The tree without pages: a functional model of the B+tree algorithms\<close>

text \<open>
  The tree that the pages form, as a datatype, and the algorithms of \<^verbatim>\<open>bplus_tree.py\<close> on it: the same
  splits, borrows and merges, on values instead of page objects. The tree operations on pages
  are shown to refine these functions; here the functions are shown to implement the sorted
  association list and to keep the B+tree invariant (\<open>bt_inv\<close>: separators, balance,
  occupancy), the chain of leaves (\<open>links\<close>) and the disjointness of the pages.
\<close>

datatype bt =
    Lf nat "(int \<times> bytes) list" "nat option"
  | Nd nat "int list" "bt list"

fun bt_id :: "bt \<Rightarrow> nat" where
  "bt_id (Lf p es nx) = p"
| "bt_id (Nd p ks ts) = p"

fun bt_num_keys :: "bt \<Rightarrow> nat" where
  "bt_num_keys (Lf p es nx) = length es"
| "bt_num_keys (Nd p ks ts) = length ks"

fun bt_es :: "bt \<Rightarrow> (int \<times> bytes) list" where
  "bt_es (Lf p es nx) = es"
| "bt_es (Nd p ks ts) = concat (map bt_es ts)"

text \<open>The page ids, and the leaves from left to right with their sibling pointers.\<close>

fun bt_pids :: "bt \<Rightarrow> nat list" where
  "bt_pids (Lf p es nx) = [p]"
| "bt_pids (Nd p ks ts) = p # concat (map bt_pids ts)"

fun bt_leaves :: "bt \<Rightarrow> (nat \<times> nat option) list" where
  "bt_leaves (Lf p es nx) = [(p, nx)]"
| "bt_leaves (Nd p ks ts) = concat (map bt_leaves ts)"

lemma size_nth_bt [termination_simp]:
  "i < length ts \<Longrightarrow> size (ts ! i) < Suc (size_list size (ts :: bt list))"
  by (metis lessI less_SucI nth_mem size_list_estimation' dual_order.strict_trans1 le_imp_less_Suc order_refl)

subsection \<open>The algorithms\<close>

text \<open>\<^verbatim>\<open>_insert\<close>: the tree, the split-off right half with its separator, and the next page id.\<close>

fun bt_ins :: "nat \<Rightarrow> int \<Rightarrow> bytes \<Rightarrow> bt \<Rightarrow> nat \<Rightarrow> bt \<times> (int \<times> bt) option \<times> nat" where
  "bt_ins m k v (Lf p es nx) n =
     (let es' = ins_sorted k v es; mid = length es' div 2 in
      if length es' \<le> m then (Lf p es' nx, None, n)
      else (Lf p (take mid es') (Some n), Some (fst (es' ! mid), Lf n (drop mid es') nx), Suc n))"
| "bt_ins m k v (Nd p ks ts) n =
     (let i = child_pos ks k in
      if i < length ts then
        (case bt_ins m k v (ts ! i) n of
           (t', None, n') \<Rightarrow> (Nd p ks (ts[i := t']), None, n')
         | (t', Some (s, r), n') \<Rightarrow>
             (let j = insert_pos ks s; ks' = insert_nth j s ks; ts' = insert_nth (j + 1) r (ts[i := t']);
                  mid = length ks' div 2 in
              if length ks' \<le> m then (Nd p ks' ts', None, n')
              else (Nd p (take mid ks') (take (Suc mid) ts'),
                    Some (ks' ! mid, Nd n' (drop (Suc mid) ks') (drop (Suc mid) ts')), Suc n')))
      else (Nd p ks ts, None, n))"

definition bt_insert :: "nat \<Rightarrow> int \<Rightarrow> bytes \<Rightarrow> bt \<Rightarrow> nat \<Rightarrow> bt \<times> nat" where
  "bt_insert m k v t n =
     (case bt_ins m k v t n of
        (t', None, n') \<Rightarrow> (t', n')
      | (t', Some (s, r), n') \<Rightarrow> (Nd n' [s] [t', r], Suc n'))"

fun bt_find :: "int \<Rightarrow> bt \<Rightarrow> bytes option" where
  "bt_find k (Lf p es nx) = map_of es k"
| "bt_find k (Nd p ks ts) =
     (let i = child_pos ks k in if i < length ts then bt_find k (ts ! i) else None)"

text \<open>The borrows and merges, on two neighbours and the separator between them.\<close>

fun bt_borrow_right :: "bt \<Rightarrow> int \<Rightarrow> bt \<Rightarrow> bt \<times> int \<times> bt" where
  "bt_borrow_right (Lf p es nx) s (Lf p' es' nx') =
     (Lf p (ins_sorted (fst (hd es')) (snd (hd es')) es) nx, fst (hd (tl es')), Lf p' (tl es') nx')"
| "bt_borrow_right (Nd p ks ts) s (Nd p' ks' ts') =
     (Nd p (ks @ [s]) (ts @ [hd ts']), hd ks', Nd p' (tl ks') (tl ts'))"
| "bt_borrow_right t s t' = (t, s, t')"

fun bt_borrow_left :: "bt \<Rightarrow> int \<Rightarrow> bt \<Rightarrow> bt \<times> int \<times> bt" where
  "bt_borrow_left (Lf p es nx) s (Lf p' es' nx') =
     (Lf p (butlast es) nx, fst (last es), Lf p' (ins_sorted (fst (last es)) (snd (last es)) es') nx')"
| "bt_borrow_left (Nd p ks ts) s (Nd p' ks' ts') =
     (Nd p (butlast ks) (butlast ts), last ks, Nd p' (s # ks') (last ts # ts'))"
| "bt_borrow_left t s t' = (t, s, t')"

fun bt_merge :: "bt \<Rightarrow> int \<Rightarrow> bt \<Rightarrow> bt" where
  "bt_merge (Lf p es nx) s (Lf p' es' nx') = Lf p (es @ es') nx'"
| "bt_merge (Nd p ks ts) s (Nd p' ks' ts') = Nd p (ks @ [s] @ ks') (ts @ ts')"
| "bt_merge t s t' = t"

definition bt_merge_at :: "nat \<Rightarrow> int list \<Rightarrow> bt list \<Rightarrow> int list \<times> bt list" where
  "bt_merge_at j ks ts =
     (take j ks @ drop (Suc j) ks,
      take j ts @ bt_merge (ts ! j) (ks ! j) (ts ! Suc j) # drop (Suc (Suc j)) ts)"

text \<open>\<^verbatim>\<open>_borrow_or_merge\<close> for the child \<open>i\<close>: whether it merged, and the parent's keys and children.\<close>

definition bt_fix :: "nat \<Rightarrow> nat \<Rightarrow> int list \<Rightarrow> bt list \<Rightarrow> bool \<times> int list \<times> bt list" where
  "bt_fix m i ks ts =
     (let mn = m div 2; has_right = i + 1 < length ts; has_left = i > 0 in
      if has_right \<and> mn < bt_num_keys (ts ! (i + 1)) then
        (case bt_borrow_right (ts ! i) (ks ! i) (ts ! (i + 1)) of (c, s, r) \<Rightarrow>
           (False, ks[i := s], ts[i := c, i + 1 := r]))
      else if has_left \<and> mn < bt_num_keys (ts ! (i - 1)) then
        (case bt_borrow_left (ts ! (i - 1)) (ks ! (i - 1)) (ts ! i) of (l, s, c) \<Rightarrow>
           (False, ks[i - 1 := s], ts[i - 1 := l, i := c]))
      else (True, bt_merge_at (if has_right then i else i - 1) ks ts))"

text \<open>\<^verbatim>\<open>delete\<close> below the root: the tree, whether the key was found, and whether the level above has
  to check this node.\<close>

fun bt_del :: "nat \<Rightarrow> int \<Rightarrow> bt \<Rightarrow> bt \<times> bool \<times> bool" where
  "bt_del m k (Lf p es nx) = (Lf p (del_sorted k es) nx, k \<in> fst ` set es, True)"
| "bt_del m k (Nd p ks ts) =
     (let i = child_pos ks k in
      if i < length ts then
        (case bt_del m k (ts ! i) of (c, found, check) \<Rightarrow>
           if \<not> found then (Nd p ks ts, False, False)
           else if check \<and> bt_num_keys c < m div 2 then
             (case bt_fix m i ks (ts[i := c]) of (merged, ks', ts') \<Rightarrow> (Nd p ks' ts', True, merged))
           else (Nd p ks (ts[i := c]), True, False))
      else (Nd p ks ts, False, False))"

definition bt_delete :: "nat \<Rightarrow> int \<Rightarrow> bt \<Rightarrow> bt \<times> bool" where
  "bt_delete m k t =
     (case bt_del m k t of (t', found, check) \<Rightarrow>
        (if found \<and> check then (case t' of Nd p [] ts \<Rightarrow> ts ! 0 | _ \<Rightarrow> t') else t', found))"

subsection \<open>Separators\<close>

text \<open>
  \<open>bchain P lo bs ts\<close>: the trees lie between the boundaries \<open>lo, bs\<^sub>0, bs\<^sub>1, \<dots>\<close>, which increase
  strictly. For an index page the right boundaries are its keys and the upper bound of the page.
\<close>

fun bchain :: "(int \<Rightarrow> int \<Rightarrow> bt \<Rightarrow> bool) \<Rightarrow> int \<Rightarrow> int list \<Rightarrow> bt list \<Rightarrow> bool" where
  "bchain P lo [] [] = True"
| "bchain P lo (b # bs) (t # ts) = (lo < b \<and> P lo b t \<and> bchain P b bs ts)"
| "bchain P lo _ _ = False"

lemma bchain_length: "bchain P lo bs ts \<Longrightarrow> length bs = length ts"
  by (induction P lo bs ts rule: bchain.induct) auto

lemma bchain_append:
  "length bs1 = length ts1 \<Longrightarrow>
     bchain P lo (bs1 @ bs2) (ts1 @ ts2) \<longleftrightarrow> bchain P lo bs1 ts1 \<and> bchain P (last (lo # bs1)) bs2 ts2"
  by (induction bs1 ts1 arbitrary: lo rule: list_induct2) auto

lemma bchain_mono:
  "bchain P lo bs ts \<Longrightarrow> (\<And>l b t. t \<in> set ts \<Longrightarrow> P l b t \<Longrightarrow> Q l b t) \<Longrightarrow> bchain Q lo bs ts"
  by (induction P lo bs ts rule: bchain.induct) auto

lemma bchain_all: "bchain P lo bs ts \<Longrightarrow> t \<in> set ts \<Longrightarrow> \<exists>l b. P l b t"
  by (induction P lo bs ts rule: bchain.induct) auto

lemma bchain_sorted: "bchain P lo bs ts \<Longrightarrow> sorted_wrt (<) (lo # bs)"
proof (induction P lo bs ts rule: bchain.induct)
  case (2 P lo b bs t ts)
  then show ?case by fastforce
qed simp_all

text \<open>One child and its context.\<close>

lemma bchain_hole:
  assumes "i < length ts" "length ts = Suc (length ks)"
  shows "bchain P lo (ks @ [hi]) ts \<longleftrightarrow>
    bchain P lo (take i ks) (take i ts) \<and>
    last (lo # take i ks) < (ks @ [hi]) ! i \<and> P (last (lo # take i ks)) ((ks @ [hi]) ! i) (ts ! i) \<and>
    bchain P ((ks @ [hi]) ! i) (drop (Suc i) (ks @ [hi])) (drop (Suc i) ts)"
proof -
  have i: "i \<le> length ks" using assms by simp
  have ts: "ts = take i ts @ ts ! i # drop (Suc i) ts" using assms by (simp add: id_take_nth_drop)
  have "ks @ [hi] = take i (ks @ [hi]) @ (ks @ [hi]) ! i # drop (Suc i) (ks @ [hi])"
    using i by (intro id_take_nth_drop) simp
  then have bs: "ks @ [hi] = take i ks @ (ks @ [hi]) ! i # drop (Suc i) (ks @ [hi])"
    using i by simp
  show ?thesis
    using i assms by (subst bs, subst ts) (simp add: bchain_append)
qed

lemma nth_snoc_last: "last (lo # take i ks) = (if i = 0 then lo else ks ! (i - 1))" if "i \<le> length ks"
  using that by (cases "i = 0") (auto simp: last_conv_nth)

lemma child_pos_bounds:
  assumes "lo \<le> key" "key < hi"
  shows "last (lo # take (child_pos ks key) ks) \<le> key" "key < (ks @ [hi]) ! child_pos ks key"
proof -
  show "last (lo # take (child_pos ks key) ks) \<le> key"
    using assms(1) child_pos_below [of "child_pos ks key - 1" ks key]
    by (simp only: nth_snoc_last [OF child_pos_le]) auto
  show "key < (ks @ [hi]) ! child_pos ks key"
    using assms(2) child_pos_above [of ks key] child_pos_le [of ks key]
    by (cases "child_pos ks key < length ks") (auto simp: nth_append)
qed

lemma insert_pos_hole:
  assumes "sorted_wrt (<) (lo # ks @ [hi])" "i \<le> length ks"
    and "last (lo # take i ks) < s" "s < (ks @ [hi]) ! i"
  shows "insert_pos ks s = i"
proof -
  have lt: "ks ! a < ks ! b" if "a < b" "b < length ks" for a b
  proof -
    have "sorted_wrt (<) ks" using assms(1) by (simp add: sorted_wrt_append)
    then show ?thesis using that by (rule sorted_wrt_nth_less)
  qed
  have below: "ks ! a < s" if "a < i" for a
  proof -
    have "ks ! a \<le> ks ! (i - 1)"
    proof (cases "a = i - 1")
      case False
      then have "a < i - 1" "i - 1 < length ks" using that assms(2) by auto
      from lt [OF this] show ?thesis by simp
    qed simp
    moreover have "ks ! (i - 1) < s"
      using assms(2,3) that by (simp only: nth_snoc_last) simp
    ultimately show ?thesis by simp
  qed
  have "takeWhile (\<lambda>k. k < s) ks = take i ks"
  proof (cases "i = length ks")
    case True
    with below show ?thesis by (auto simp: takeWhile_eq_all_conv in_set_conv_nth)
  next
    case False
    then have "i < length ks" "\<not> ks ! i < s" using assms(2,4) by (auto simp: nth_append)
    with below show ?thesis by (intro takeWhile_eq_take_P_nth) auto
  qed
  with assms(2) show ?thesis by (simp add: insert_pos_eq)
qed

lemma insert_nth_snoc:
  "i \<le> length ks \<Longrightarrow> insert_nth i s ks @ [hi] = take i ks @ s # (ks @ [hi]) ! i # drop (Suc i) (ks @ [hi])"
proof -
  assume i: "i \<le> length ks"
  have "drop i (ks @ [hi]) = (ks @ [hi]) ! i # drop (Suc i) (ks @ [hi])"
    using i by (intro Cons_nth_drop_Suc [symmetric]) simp
  with i show ?thesis by (simp add: insert_nth_def)
qed

lemma insert_nth_update:
  "i < length ts \<Longrightarrow> insert_nth (i + 1) r (ts[i := t']) = take i ts @ t' # r # drop (Suc i) ts"
  by (simp add: insert_nth_def upd_conv_take_nth_drop take_Suc_conv_app_nth)

lemma length_insert_nth [simp]: "i \<le> length xs \<Longrightarrow> length (insert_nth i x xs) = Suc (length xs)"
  by (simp add: insert_nth_def)

subsection \<open>The invariant\<close>

text \<open>
  \<open>bt_inv h m q lo hi t\<close>: \<open>t\<close> has height \<open>h\<close>, its keys lie in \<open>[lo, hi)\<close>, in order, and every page
  holds at most \<open>m\<close> keys; pages below the root hold at least \<open>m div 2\<close> keys and the root at least \<open>q\<close>.
\<close>

primrec bt_inv :: "nat \<Rightarrow> nat \<Rightarrow> nat \<Rightarrow> int \<Rightarrow> int \<Rightarrow> bt \<Rightarrow> bool" where
  "bt_inv 0 m q lo hi t =
     (case t of
        Lf p es nx \<Rightarrow> keys_sorted es \<and> (\<forall>k \<in> fst ` set es. lo \<le> k \<and> k < hi) \<and> q \<le> length es \<and> length es \<le> m
      | Nd p ks ts \<Rightarrow> False)"
| "bt_inv (Suc h) m q lo hi t =
     (case t of
        Lf p es nx \<Rightarrow> False
      | Nd p ks ts \<Rightarrow> q \<le> length ks \<and> length ks \<le> m \<and> bchain (bt_inv h m (m div 2)) lo (ks @ [hi]) ts)"

declare bt_inv.simps [simp del]

lemma bt_inv_simps [simp]:
  "bt_inv h m q lo hi (Lf p es nx) \<longleftrightarrow>
     h = 0 \<and> keys_sorted es \<and> (\<forall>k \<in> fst ` set es. lo \<le> k \<and> k < hi) \<and> q \<le> length es \<and> length es \<le> m"
  "bt_inv 0 m q lo hi (Nd p ks ts) = False"
  "bt_inv (Suc h) m q lo hi (Nd p ks ts) \<longleftrightarrow>
     q \<le> length ks \<and> length ks \<le> m \<and> bchain (bt_inv h m (m div 2)) lo (ks @ [hi]) ts"
  by (cases h; simp add: bt_inv.simps)+

lemma bt_inv_0E:
  assumes "bt_inv 0 m q lo hi t"
  obtains p es nx where "t = Lf p es nx"
  using assms by (cases t) auto

lemma bt_inv_SucE:
  assumes "bt_inv (Suc h) m q lo hi t"
  obtains p ks ts where "t = Nd p ks ts" "length ts = Suc (length ks)"
    "bchain (bt_inv h m (m div 2)) lo (ks @ [hi]) ts" "q \<le> length ks" "length ks \<le> m"
  using assms by (cases t) (auto dest: bchain_length)

lemma bt_inv_mono: "bt_inv h m q lo hi t \<Longrightarrow> q' \<le> q \<Longrightarrow> bt_inv h m q' lo hi t"
  by (cases t; cases h) auto

lemma bt_inv_num_keys: "bt_inv h m q lo hi t \<Longrightarrow> q \<le> bt_num_keys t \<and> bt_num_keys t \<le> m"
  by (cases t; cases h) auto

lemma bt_inv_raise: "bt_inv h m q lo hi t \<Longrightarrow> q' \<le> bt_num_keys t \<Longrightarrow> bt_inv h m q' lo hi t"
  by (cases t; cases h) auto

definition es_in :: "int \<Rightarrow> int \<Rightarrow> (int \<times> bytes) list \<Rightarrow> bool" where
  "es_in lo hi es \<longleftrightarrow> keys_sorted es \<and> (\<forall>k \<in> fst ` set es. lo \<le> k \<and> k < hi)"

lemma bchain_es:
  assumes "bchain P lo bs ts" "\<And>l b t. t \<in> set ts \<Longrightarrow> P l b t \<Longrightarrow> es_in l b (bt_es t)"
  shows "es_in lo (last (lo # bs)) (concat (map bt_es ts)) \<and> lo \<le> last (lo # bs)"
  using assms
proof (induction P lo bs ts rule: bchain.induct)
  case (2 P lo b bs t ts)
  then have "es_in b (last (b # bs)) (concat (map bt_es ts))" "b \<le> last (b # bs)" "es_in lo b (bt_es t)" "lo < b"
    by auto
  then show ?case by (fastforce simp: es_in_def keys_sorted_append)
qed (auto simp: es_in_def)

lemma bt_inv_es: "bt_inv h m q lo hi t \<Longrightarrow> es_in lo hi (bt_es t)"
proof (induction h arbitrary: q lo hi t)
  case 0
  then show ?case by (cases t) (auto simp: es_in_def)
next
  case (Suc h)
  then obtain p ks ts where t: "t = Nd p ks ts" "bchain (bt_inv h m (m div 2)) lo (ks @ [hi]) ts"
    by (elim bt_inv_SucE)
  with bchain_es [OF t(2)] Suc.IH show ?case by simp
qed

text \<open>The contents around one child.\<close>

lemma bt_es_hole:
  "i < length ts \<Longrightarrow>
     bt_es (Nd p ks ts) = concat (map bt_es (take i ts)) @ bt_es (ts ! i) @ concat (map bt_es (drop (Suc i) ts))"
  by (subst id_take_nth_drop [of i ts]) simp_all

lemma bchain_inv_es:
  "bchain (bt_inv h m q) lo bs ts \<Longrightarrow>
     (\<forall>k \<in> fst ` set (concat (map bt_es ts)). lo \<le> k \<and> k < last (lo # bs)) \<and> keys_sorted (concat (map bt_es ts))"
  using bchain_es [of "bt_inv h m q" lo bs ts] bt_inv_es by (auto simp: es_in_def)

lemma hole_any:
  fixes key :: int
  assumes "bchain (bt_inv h m q) lo (ks @ [hi]) ts" "length ts = Suc (length ks)"
  defines "i \<equiv> child_pos ks key"
  shows "i < length ts"
    and "bt_inv h m q (last (lo # take i ks)) ((ks @ [hi]) ! i) (ts ! i)"
    and "\<forall>k \<in> fst ` set (concat (map bt_es (take i ts))). k < key"
    and "\<forall>k \<in> fst ` set (concat (map bt_es (drop (Suc i) ts))). key < k"
proof -
  show i: "i < length ts" using le_imp_less_Suc [OF child_pos_le [of ks key]] by (simp only: i_def assms(2))
  note hole = iffD1 [OF bchain_hole [OF i assms(2)] assms(1)]
  show "bt_inv h m q (last (lo # take i ks)) ((ks @ [hi]) ! i) (ts ! i)" using hole by blast
  show "\<forall>k \<in> fst ` set (concat (map bt_es (take i ts))). k < key"
  proof (cases "i = 0")
    case False
    then have "last (lo # take i ks) \<le> key"
      using child_pos_below [of "i - 1" ks key] by (simp only: i_def nth_snoc_last [OF child_pos_le]) simp
    then show ?thesis
      using bchain_inv_es [of h m q lo "take i ks" "take i ts"] hole by fastforce
  qed simp
  show "\<forall>k \<in> fst ` set (concat (map bt_es (drop (Suc i) ts))). key < k"
  proof (cases "i < length ks")
    case True
    then have "key < (ks @ [hi]) ! i" using child_pos_above [of ks key] by (simp add: i_def nth_append)
    then show ?thesis
      using bchain_inv_es [of h m q "(ks @ [hi]) ! i" "drop (Suc i) (ks @ [hi])" "drop (Suc i) ts"] hole
      by fastforce
  qed (use assms(2) in simp)
qed

lemma hole_keys:
  assumes "bchain (bt_inv h m q) lo (ks @ [hi]) ts" "length ts = Suc (length ks)" "lo \<le> key" "key < hi"
  defines "i \<equiv> child_pos ks key"
  shows "i < length ts"
    and "bt_inv h m q (last (lo # take i ks)) ((ks @ [hi]) ! i) (ts ! i)"
    and "last (lo # take i ks) \<le> key" "key < (ks @ [hi]) ! i"
    and "\<forall>k \<in> fst ` set (concat (map bt_es (take i ts))). k < key"
    and "\<forall>k \<in> fst ` set (concat (map bt_es (drop (Suc i) ts))). key < k"
  unfolding i_def using hole_any [OF assms(1,2), of key] child_pos_bounds [OF assms(3,4)] by blast+

subsection \<open>Lookup\<close>

theorem bt_find_ok:
  "bt_inv h m q lo hi t \<Longrightarrow> bt_find k t = map_of (bt_es t) k"
proof (induction h arbitrary: q lo hi t)
  case 0
  then show ?case by (elim bt_inv_0E) simp
next
  case (Suc h)
  then obtain p ks ts where t: "t = Nd p ks ts" "length ts = Suc (length ks)"
      "bchain (bt_inv h m (m div 2)) lo (ks @ [hi]) ts"
    by (elim bt_inv_SucE)
  let ?i = "child_pos ks k"
  note hole = hole_any [OF t(3,2), of k]
  have "bt_find k (ts ! ?i) = map_of (bt_es (ts ! ?i)) k"
    using Suc.IH [OF hole(2)] .
  moreover have l: "k \<notin> fst ` set (concat (map bt_es (take ?i ts)))"
    and r: "k \<notin> fst ` set (concat (map bt_es (drop (Suc ?i) ts)))"
    using hole(3,4) by blast+
  ultimately show ?case
    using hole(1) by (simp only: t(1) bt_es_hole [OF hole(1)] bt_find.simps Let_def if_True
        map_of_append_right [OF l] map_of_append_left [OF r])
qed


subsection \<open>The chain of leaves\<close>

definition first_id :: "(nat \<times> nat option) list \<Rightarrow> nat option \<Rightarrow> nat option" where
  "first_id ls e = (case ls of [] \<Rightarrow> e | (p, nx) # _ \<Rightarrow> Some p)"

fun links :: "(nat \<times> nat option) list \<Rightarrow> nat option \<Rightarrow> bool" where
  "links [] e = True"
| "links ((p, nx) # ls) e = (nx = first_id ls e \<and> links ls e)"

lemma first_id_simps [simp]: "first_id [] e = e" "first_id ((p, nx) # ls) e = Some p"
  by (simp_all add: first_id_def)

lemma first_id_append: "first_id (xs @ ys) e = first_id xs (first_id ys e)"
  by (cases xs) (auto simp: first_id_def)

lemma links_append: "links (xs @ ys) e \<longleftrightarrow> links xs (first_id ys e) \<and> links ys e"
  by (induction xs) (auto simp: first_id_append)

text \<open>\<open>relinks ls ls'\<close>: \<open>ls'\<close> can stand for \<open>ls\<close> in any chain of leaves.\<close>

definition relinks :: "(nat \<times> nat option) list \<Rightarrow> (nat \<times> nat option) list \<Rightarrow> bool" where
  "relinks ls ls' \<longleftrightarrow> (\<forall>e. first_id ls' e = first_id ls e \<and> (links ls e \<longrightarrow> links ls' e))"

lemma relinks_refl [simp]: "relinks ls ls"
  by (simp add: relinks_def)

lemma relinks_trans: "relinks xs ys \<Longrightarrow> relinks ys zs \<Longrightarrow> relinks xs zs"
  by (simp add: relinks_def)

lemma relinks_context: "relinks ls ls' \<Longrightarrow> relinks (A @ ls @ B) (A @ ls' @ B)"
  by (auto simp: relinks_def links_append first_id_append)

lemma bt_leaves_hole:
  "i < length ts \<Longrightarrow>
     bt_leaves (Nd p ks ts) =
       concat (map bt_leaves (take i ts)) @ bt_leaves (ts ! i) @ concat (map bt_leaves (drop (Suc i) ts))"
  by (subst id_take_nth_drop [of i ts]) simp_all

subsection \<open>Insertion\<close>

lemma take_drop_nth: "i < length xs \<Longrightarrow> xs = take i xs @ xs ! i # drop (Suc i) xs"
  by (rule id_take_nth_drop)

lemma bchain_split:
  assumes "bchain P lo (ks @ [hi]) ts" "mid < length ks" "length ts = Suc (length ks)"
  shows "bchain P lo (take mid ks @ [ks ! mid]) (take (Suc mid) ts)"
    and "bchain P (ks ! mid) (drop (Suc mid) ks @ [hi]) (drop (Suc mid) ts)"
    and "lo < ks ! mid" "ks ! mid < hi"
proof -
  have ks: "ks @ [hi] = (take mid ks @ [ks ! mid]) @ (drop (Suc mid) ks @ [hi])"
    using take_drop_nth [OF assms(2)] by simp
  have ts: "ts = take (Suc mid) ts @ drop (Suc mid) ts" by simp
  have len: "length (take mid ks @ [ks ! mid]) = length (take (Suc mid) ts)" using assms(2,3) by simp
  have "bchain P lo ((take mid ks @ [ks ! mid]) @ (drop (Suc mid) ks @ [hi])) (take (Suc mid) ts @ drop (Suc mid) ts)"
    using assms(1) ks ts by simp
  then show "bchain P lo (take mid ks @ [ks ! mid]) (take (Suc mid) ts)"
    "bchain P (ks ! mid) (drop (Suc mid) ks @ [hi]) (drop (Suc mid) ts)"
    unfolding bchain_append [OF len] by simp_all
  have "sorted_wrt (<) (lo # ks @ [hi])" by (rule bchain_sorted [OF assms(1)])
  then show "lo < ks ! mid" "ks ! mid < hi" using assms(2) by (auto simp: sorted_wrt_append)
qed

text \<open>The leaf case.\<close>

lemma leaf_halves:
  assumes "keys_sorted es" "0 < mid" "mid < length es" "\<forall>k \<in> fst ` set es. lo \<le> k \<and> k < hi"
  defines "s \<equiv> fst (es ! mid)"
  shows "\<forall>k \<in> fst ` set (take mid es). lo \<le> k \<and> k < s" "\<forall>k \<in> fst ` set (drop mid es). s \<le> k \<and> k < hi"
    "lo < s" "s < hi"
proof -
  have "fst (es ! 0) < s"
    unfolding s_def using assms(1,2,3) by (intro keys_sorted_nth_less) auto
  moreover have "0 < length es" using assms(2,3) by linarith
  then have "lo \<le> fst (es ! 0)" using assms(4) nth_mem [of 0 es] by auto
  moreover have "s < hi" using assms(3,4) by (auto simp: s_def)
  ultimately show "lo < s" "s < hi" by auto
  show "\<forall>k \<in> fst ` set (take mid es). lo \<le> k \<and> k < s"
  proof
    fix k assume "k \<in> fst ` set (take mid es)"
    then obtain i where i: "i < mid" "k = fst (es ! i)" using assms(3) by (auto simp: in_set_conv_nth)
    then have "k < s" unfolding s_def using assms(1,3) by (auto intro: keys_sorted_nth_less)
    moreover have "lo \<le> k" using assms(3,4) i by auto
    ultimately show "lo \<le> k \<and> k < s" by simp
  qed
  show "\<forall>k \<in> fst ` set (drop mid es). s \<le> k \<and> k < hi"
  proof
    fix k assume "k \<in> fst ` set (drop mid es)"
    then obtain e where "e \<in> set (drop mid es)" "k = fst e" by blast
    then obtain i where "i < length es - mid" "k = fst (es ! (mid + i))" by (auto simp: in_set_conv_nth)
    then have i: "mid + i < length es" "k = fst (es ! (mid + i))" by auto
    then have "s \<le> k" unfolding s_def using assms(1) by (auto intro: keys_sorted_nth_le)
    moreover have "k < hi" using assms(4) i by auto
    ultimately show "s \<le> k \<and> k < hi" by simp
  qed
qed

definition ins_ok :: "nat \<Rightarrow> nat \<Rightarrow> nat \<Rightarrow> int \<Rightarrow> int \<Rightarrow> int \<Rightarrow> bytes \<Rightarrow> bt \<Rightarrow> bt \<times> (int \<times> bt) option \<times> nat \<Rightarrow> bool" where
  "ins_ok h m q lo hi k v t res =
     (case res of
        (t', None, n') \<Rightarrow>
          bt_inv h m q lo hi t' \<and> bt_es t' = ins_sorted k v (bt_es t) \<and> relinks (bt_leaves t) (bt_leaves t')
      | (t', Some (s, r), n') \<Rightarrow>
          lo < s \<and> s < hi \<and> bt_inv h m (m div 2) lo s t' \<and> bt_inv h m (m div 2) s hi r \<and>
          bt_es t' @ bt_es r = ins_sorted k v (bt_es t) \<and> relinks (bt_leaves t) (bt_leaves t' @ bt_leaves r))"

lemma bt_ins_leaf:
  assumes "bt_inv 0 m q lo hi (Lf p es nx)" "lo \<le> k" "k < hi" "1 \<le> m"
  shows "ins_ok 0 m q lo hi k v (Lf p es nx) (bt_ins m k v (Lf p es nx) n)"
proof -
  let ?es = "ins_sorted k v es" and ?mid = "length (ins_sorted k v es) div 2"
  have s: "keys_sorted ?es" "\<forall>k' \<in> fst ` set ?es. lo \<le> k' \<and> k' < hi" using assms by auto
  have len: "length es \<le> length ?es" "length ?es \<le> Suc m" "q \<le> length es"
    using length_ins_sorted_bounds(1) [of es k v] length_ins_sorted_bounds(2) [of k v es] assms(1) by auto
  show ?thesis
  proof (cases "length ?es \<le> m")
    case True
    with s len show ?thesis by (simp add: ins_ok_def Let_def)
  next
    case False
    with len have full: "length ?es = Suc m" by simp
    then have mid: "0 < ?mid" "?mid < length ?es" "m div 2 \<le> ?mid" "?mid \<le> m"
        "m div 2 \<le> length ?es - ?mid" "length ?es - ?mid \<le> m"
      using assms(4) by auto
    note halves = leaf_halves [OF s(1) mid(1,2) s(2)]
    have "relinks [(p, nx)] [(p, Some n), (n, nx)]" by (simp add: relinks_def)
    with halves s(1) mid False show ?thesis
      by (simp add: ins_ok_def Let_def keys_sorted_take keys_sorted_drop)
  qed
qed

text \<open>An index page takes the halves of a split child.\<close>

lemma insert_child:
  assumes chain: "bchain P lo (ks @ [hi]) ts" and len: "length ts = Suc (length ks)" and i: "i < length ts"
    and s: "last (lo # take i ks) < s" "s < (ks @ [hi]) ! i"
    and l: "P (last (lo # take i ks)) s l" and r: "P s ((ks @ [hi]) ! i) r"
  shows "insert_pos ks s = i"
    and "bchain P lo (insert_nth i s ks @ [hi]) (insert_nth (i + 1) r (ts[i := l]))"
proof -
  have ik: "i \<le> length ks" using len i by simp
  show "insert_pos ks s = i"
    by (rule insert_pos_hole [OF bchain_sorted [OF chain] ik s])
  note hole = iffD1 [OF bchain_hole [OF i len] chain]
  have "length (take i ks) = length (take i ts)" using len i by simp
  then show "bchain P lo (insert_nth i s ks @ [hi]) (insert_nth (i + 1) r (ts[i := l]))"
    unfolding insert_nth_snoc [OF ik] insert_nth_update [OF i]
    using hole s l r by (simp add: bchain_append)
qed

lemma replace_child:
  assumes "bchain P lo (ks @ [hi]) ts" "length ts = Suc (length ks)" "i < length ts"
    and "P (last (lo # take i ks)) ((ks @ [hi]) ! i) c"
  shows "bchain P lo (ks @ [hi]) (ts[i := c])"
  using assms bchain_hole [of i ts ks P lo hi] bchain_hole [of i "ts[i := c]" ks P lo hi] by simp


text \<open>What a node does with the result of the insertion into its child \<open>i\<close>.\<close>

definition node_ins :: "nat \<Rightarrow> nat \<Rightarrow> int list \<Rightarrow> bt list \<Rightarrow> nat \<Rightarrow> bt \<times> (int \<times> bt) option \<times> nat \<Rightarrow> bt \<times> (int \<times> bt) option \<times> nat" where
  "node_ins m p ks ts i res =
     (case res of
        (t', None, n') \<Rightarrow> (Nd p ks (ts[i := t']), None, n')
      | (t', Some (s, r), n') \<Rightarrow>
          (let j = insert_pos ks s; ks' = insert_nth j s ks; ts' = insert_nth (j + 1) r (ts[i := t']);
               mid = length ks' div 2 in
           if length ks' \<le> m then (Nd p ks' ts', None, n')
           else (Nd p (take mid ks') (take (Suc mid) ts'),
                 Some (ks' ! mid, Nd n' (drop (Suc mid) ks') (drop (Suc mid) ts')), Suc n')))"

lemma bt_ins_node:
  "child_pos ks k < length ts \<Longrightarrow>
     bt_ins m k v (Nd p ks ts) n = node_ins m p ks ts (child_pos ks k) (bt_ins m k v (ts ! child_pos ks k) n)"
  by (simp add: node_ins_def Let_def)

lemma concat_update:
  "i < length ts \<Longrightarrow> concat (map f (ts[i := c])) = concat (map f (take i ts)) @ f c @ concat (map f (drop (Suc i) ts))"
  by (simp add: upd_conv_take_nth_drop)

lemma concat_insert:
  "i < length ts \<Longrightarrow> concat (map f (insert_nth (i + 1) r (ts[i := c]))) =
     concat (map f (take i ts)) @ f c @ f r @ concat (map f (drop (Suc i) ts))"
  by (simp only: insert_nth_update) simp

lemma concat_take_drop: "concat (map f (take n ts)) @ concat (map f (drop n ts)) = concat (map f ts)"
  by (simp add: map_append [symmetric] concat_append [symmetric] del: map_append concat_append)

lemma node_ins_ok:
  assumes chain: "bchain (bt_inv h m (m div 2)) lo (ks @ [hi]) ts" and len: "length ts = Suc (length ks)"
    and occ: "q \<le> length ks" "length ks \<le> m" and m: "1 \<le> m" and k: "lo \<le> k" "k < hi"
  defines "i \<equiv> child_pos ks k"
  assumes res: "ins_ok h m (m div 2) (last (lo # take i ks)) ((ks @ [hi]) ! i) k v (ts ! i) res"
  shows "ins_ok (Suc h) m q lo hi k v (Nd p ks ts) (node_ins m p ks ts i res)"
proof -
  note hole = hole_keys [OF chain len k, folded i_def]
  let ?A = "concat (map bt_es (take i ts))" and ?B = "concat (map bt_es (drop (Suc i) ts))"
  let ?LA = "concat (map bt_leaves (take i ts))" and ?LB = "concat (map bt_leaves (drop (Suc i) ts))"
  have es: "?A @ ins_sorted k v (bt_es (ts ! i)) @ ?B = ins_sorted k v (bt_es (Nd p ks ts))"
    using hole(5,6) by (simp only: bt_es_hole [OF hole(1)] ins_sorted_append_right ins_sorted_append_left)
  obtain t' sr n' where res': "res = (t', sr, n')" by (cases res)
  show ?thesis
  proof (cases sr)
    case None
    with res res' have t': "bt_inv h m (m div 2) (last (lo # take i ks)) ((ks @ [hi]) ! i) t'"
      "bt_es t' = ins_sorted k v (bt_es (ts ! i))" "relinks (bt_leaves (ts ! i)) (bt_leaves t')"
      by (simp_all add: ins_ok_def)
    have "bchain (bt_inv h m (m div 2)) lo (ks @ [hi]) (ts[i := t'])"
      by (rule replace_child [where P = "bt_inv h m (m div 2)", OF chain len hole(1) t'(1)])
    moreover have "relinks (bt_leaves (Nd p ks ts)) (?LA @ bt_leaves t' @ ?LB)"
      unfolding bt_leaves_hole [OF hole(1)] by (rule relinks_context [OF t'(3)])
    ultimately show ?thesis
      using occ es t'(2) None res' hole(1) by (simp add: node_ins_def ins_ok_def concat_update)
  next
    case (Some sr')
    obtain s r where sr: "sr = Some (s, r)" using Some by (cases sr') auto
    with res res' have c: "last (lo # take i ks) < s" "s < (ks @ [hi]) ! i"
      "bt_inv h m (m div 2) (last (lo # take i ks)) s t'" "bt_inv h m (m div 2) s ((ks @ [hi]) ! i) r"
      "bt_es t' @ bt_es r = ins_sorted k v (bt_es (ts ! i))"
      "relinks (bt_leaves (ts ! i)) (bt_leaves t' @ bt_leaves r)"
      by (simp_all add: ins_ok_def)
    let ?ks = "insert_nth i s ks" and ?ts = "insert_nth (i + 1) r (ts[i := t'])"
    let ?mid = "length ?ks div 2"
    note ins = insert_child [where P = "bt_inv h m (m div 2)", OF chain len hole(1) c(1-4)]
    have ik: "i \<le> length ks" using hole(1) len by simp
    have len': "length ?ks = Suc (length ks)" "length ?ts = Suc (length ?ks)"
      using ik len hole(1) by simp_all
    have es': "concat (map bt_es ?ts) = ins_sorted k v (bt_es (Nd p ks ts))"
      using c(5) es by (simp only: concat_insert [OF hole(1)]) (metis append_assoc)
    have lv: "relinks (bt_leaves (Nd p ks ts)) (concat (map bt_leaves ?ts))"
      using relinks_context [OF c(6), of ?LA ?LB]
      by (simp only: concat_insert [OF hole(1)] bt_leaves_hole [OF hole(1)] append_assoc)
    show ?thesis
    proof (cases "length ?ks \<le> m")
      case True
      then show ?thesis
        using ins occ es' lv len' res' sr by (simp add: node_ins_def ins_ok_def Let_def)
    next
      case False
      then have full: "length ?ks = Suc m" using occ len' by simp
      then have mid: "?mid < length ?ks" "m div 2 \<le> ?mid" "?mid \<le> m"
        "m div 2 \<le> length ?ks - Suc ?mid" "length ?ks - Suc ?mid \<le> m"
        using m by auto
      note halves = bchain_split [OF ins(2) mid(1) len'(2)]
      have "concat (map bt_es (take (Suc ?mid) ?ts)) @ concat (map bt_es (drop (Suc ?mid) ?ts)) =
          ins_sorted k v (bt_es (Nd p ks ts))"
        using es' by (simp only: concat_take_drop)
      moreover have "relinks (bt_leaves (Nd p ks ts))
          (concat (map bt_leaves (take (Suc ?mid) ?ts)) @ concat (map bt_leaves (drop (Suc ?mid) ?ts)))"
        using lv by (simp only: concat_take_drop)
      ultimately show ?thesis
        using ins(1) halves mid False res' sr by (simp add: node_ins_def ins_ok_def Let_def)
    qed
  qed
qed

theorem bt_ins_ok:
  "bt_inv h m q lo hi t \<Longrightarrow> lo \<le> k \<Longrightarrow> k < hi \<Longrightarrow> 1 \<le> m \<Longrightarrow> ins_ok h m q lo hi k v t (bt_ins m k v t n)"
proof (induction h arbitrary: q lo hi t)
  case 0
  then obtain p es nx where t: "t = Lf p es nx" by (elim bt_inv_0E)
  show ?case using bt_ins_leaf [of m q lo hi p es nx k v n] 0 unfolding t by blast
next
  case (Suc h)
  then obtain p ks ts where t: "t = Nd p ks ts" "length ts = Suc (length ks)"
      "bchain (bt_inv h m (m div 2)) lo (ks @ [hi]) ts" "q \<le> length ks" "length ks \<le> m"
    by (elim bt_inv_SucE)
  note hole = hole_keys [OF t(3,2) Suc.prems(2,3)]
  show ?case
    unfolding t(1) bt_ins_node [OF hole(1)]
    by (rule node_ins_ok [OF t(3,2,4,5) Suc.prems(4,2,3) Suc.IH [OF hole(2-4) Suc.prems(4)]])
qed


text \<open>The pages of the result are the pages of the tree and the new ones.\<close>

definition opt_pids :: "(int \<times> bt) option \<Rightarrow> nat list" where
  "opt_pids sr = (case sr of None \<Rightarrow> [] | Some (s, r) \<Rightarrow> bt_pids r)"

lemma mset_upt_Suc: "n \<le> n' \<Longrightarrow> mset [n..<Suc n'] = add_mset n' (mset [n..<n'])"
  by simp

lemma mset_pids_update:
  "i < length ts \<Longrightarrow> mset (concat (map bt_pids (ts[i := c]))) + mset (bt_pids (ts ! i)) =
     mset (concat (map bt_pids ts)) + mset (bt_pids c)"
  by (subst (3) id_take_nth_drop [of i ts]) (simp_all add: concat_update)

lemma mset_take_drop: "mset (concat (map f (take n ts))) + mset (concat (map f (drop n ts))) = mset (concat (map f ts))"
  using concat_take_drop [of f n ts] by (metis mset_append)

lemma mset_concat_insert_nth:
  "mset (concat (map f (insert_nth j r ts))) = mset (concat (map f ts)) + mset (f r)"
  by (simp add: insert_nth_def mset_take_drop [symmetric, of f ts j])

lemma mset_swap: "X + P = T + C \<Longrightarrow> C + S = P + N \<Longrightarrow> X + S = T + (N :: 'a multiset)"
proof -
  assume 1: "X + P = T + C" and 2: "C + S = P + N"
  have "(X + S) + P = (X + P) + S" by simp
  also have "\<dots> = T + (C + S)" by (simp only: 1 add.assoc)
  also have "\<dots> = (T + N) + P" by (simp add: 2)
  finally show ?thesis by simp
qed

theorem bt_ins_pids:
  "bt_ins m k v t n = (t', sr, n') \<Longrightarrow>
     n \<le> n' \<and> bt_id t' = bt_id t \<and> mset (bt_pids t') + mset (opt_pids sr) = mset (bt_pids t) + mset [n..<n']"
proof (induction m k v t n arbitrary: t' sr n' rule: bt_ins.induct)
  case (1 m k v p es nx n)
  then show ?case by (auto simp: Let_def opt_pids_def split: if_splits)
next
  case (2 m k v p ks ts n)
  let ?i = "child_pos ks k"
  show ?case
  proof (cases "?i < length ts")
    case False
    with "2.prems" show ?thesis by (simp add: Let_def opt_pids_def)
  next
    case True
    obtain c sr' n1 where c: "bt_ins m k v (ts ! ?i) n = (c, sr', n1)" by (metis prod_cases3)
    from "2.IH" [OF refl True c]
    have IH: "n \<le> n1" "mset (bt_pids c) + mset (opt_pids sr') = mset (bt_pids (ts ! ?i)) + mset [n..<n1]"
      by auto
    have upd: "mset (concat (map bt_pids (ts[?i := c]))) + mset (opt_pids sr') =
        mset (concat (map bt_pids ts)) + mset [n..<n1]"
      using mset_swap [OF mset_pids_update [OF True, of c] IH(2)] .
    have run: "(t', sr, n') = node_ins m p ks ts ?i (c, sr', n1)"
      using "2.prems" bt_ins_node [OF True, of m v p n] c by simp
    show ?thesis
    proof (cases sr')
      case None
      with run upd IH(1) show ?thesis by (simp add: node_ins_def opt_pids_def)
    next
      case (Some x)
      then obtain s r where sr: "sr' = Some (s, r)" by (cases x) auto
      let ?ks = "insert_nth (insert_pos ks s) s ks" and ?ts = "insert_nth (insert_pos ks s + 1) r (ts[?i := c])"
      have all: "mset (concat (map bt_pids ?ts)) = mset (concat (map bt_pids ts)) + mset [n..<n1]"
        using upd sr by (simp add: mset_concat_insert_nth opt_pids_def)
      show ?thesis
      proof (cases "length ?ks \<le> m")
        case True
        with run sr all IH(1) show ?thesis by (simp add: node_ins_def Let_def opt_pids_def)
      next
        case False
        let ?mid = "length ?ks div 2"
        have "t' = Nd p (take ?mid ?ks) (take (Suc ?mid) ?ts)"
          "sr = Some (?ks ! ?mid, Nd n1 (drop (Suc ?mid) ?ks) (drop (Suc ?mid) ?ts))" "n' = Suc n1"
          using run sr False by (simp_all add: node_ins_def Let_def)
        then show ?thesis
          using IH(1) all mset_take_drop [of bt_pids "Suc ?mid" ?ts] by (simp add: opt_pids_def)
      qed
    qed
  qed
qed

subsection \<open>The whole tree\<close>

text \<open>The root may hold fewer keys: at least one if it is an index page.\<close>

definition KEY_END :: int where "KEY_END = 2 ^ 32"

definition root_min :: "nat \<Rightarrow> nat" where "root_min h = (if h = 0 then 0 else 1)"

definition bt_ok :: "nat \<Rightarrow> bt \<Rightarrow> bool" where
  "bt_ok m t \<longleftrightarrow> (\<exists>h. bt_inv h m (root_min h) 0 KEY_END t) \<and> links (bt_leaves t) None"

lemma key_ok_bounds: "key_ok k \<longleftrightarrow> 0 \<le> k \<and> k < KEY_END"
  by (simp add: key_ok_def KEY_END_def)

lemma bt_ok_sorted: "bt_ok m t \<Longrightarrow> keys_sorted (bt_es t)"
  using bt_inv_es by (auto simp: bt_ok_def es_in_def)

lemma bt_ok_keys: "bt_ok m t \<Longrightarrow> k \<in> fst ` set (bt_es t) \<Longrightarrow> key_ok k"
  using bt_inv_es unfolding bt_ok_def es_in_def key_ok_bounds by blast

lemma bt_ok_empty: "bt_ok m (Lf p [] None)"
  by (auto simp: bt_ok_def root_min_def intro: exI [of _ 0])

theorem bt_find_correct: "bt_ok m t \<Longrightarrow> bt_find k t = map_of (bt_es t) k"
  using bt_find_ok by (auto simp: bt_ok_def)

theorem bt_insert_correct:
  assumes "bt_ok m t" "key_ok k" "1 \<le> m"
  shows "bt_ok m (fst (bt_insert m k v t n)) \<and> bt_es (fst (bt_insert m k v t n)) = ins_sorted k v (bt_es t)"
proof -
  obtain h where h: "bt_inv h m (root_min h) 0 KEY_END t" "links (bt_leaves t) None"
    using assms(1) by (auto simp: bt_ok_def)
  obtain t' sr n' where run: "bt_ins m k v t n = (t', sr, n')" by (metis prod_cases3)
  have ok: "ins_ok h m (root_min h) 0 KEY_END k v t (t', sr, n')"
    using bt_ins_ok [OF h(1), of k v n] assms(2,3) run by (simp add: key_ok_bounds)
  show ?thesis
  proof (cases sr)
    case None
    with ok h run show ?thesis by (auto simp: bt_insert_def ins_ok_def bt_ok_def relinks_def)
  next
    case (Some x)
    then obtain s r where sr: "sr = Some (s, r)" by (cases x) auto
    with ok have r: "bt_inv (Suc h) m (root_min (Suc h)) 0 KEY_END (Nd n' [s] [t', r])"
      "bt_es t' @ bt_es r = ins_sorted k v (bt_es t)" "links (bt_leaves t' @ bt_leaves r) None"
      using assms(3) h(2) by (simp_all add: ins_ok_def root_min_def relinks_def)
    then have "bt_ok m (Nd n' [s] [t', r])" unfolding bt_ok_def by (simp del: bt_inv_simps) blast
    with r run sr show ?thesis by (simp add: bt_insert_def)
  qed
qed


subsection \<open>Deletion: borrowing and merging\<close>

text \<open>Two neighbours and their context. \<open>bt_inv h m 0\<close> leaves the occupancy of a page open.\<close>

lemma bchain_pair:
  assumes "Suc j < length ts" "length ts = Suc (length ks)"
  shows "bchain P lo (ks @ [hi]) ts \<longleftrightarrow>
    bchain P lo (take j ks) (take j ts) \<and>
    last (lo # take j ks) < ks ! j \<and> P (last (lo # take j ks)) (ks ! j) (ts ! j) \<and>
    ks ! j < (ks @ [hi]) ! Suc j \<and> P (ks ! j) ((ks @ [hi]) ! Suc j) (ts ! Suc j) \<and>
    bchain P ((ks @ [hi]) ! Suc j) (drop (Suc (Suc j)) (ks @ [hi])) (drop (Suc (Suc j)) ts)"
proof -
  have j: "j < length ks" using assms by simp
  have "drop (Suc j) (ks @ [hi]) = (ks @ [hi]) ! Suc j # drop (Suc (Suc j)) (ks @ [hi])"
    using j by (intro Cons_nth_drop_Suc [symmetric]) simp
  moreover have "drop (Suc j) ts = ts ! Suc j # drop (Suc (Suc j)) ts"
    using assms(1) by (intro Cons_nth_drop_Suc [symmetric])
  moreover have "(ks @ [hi]) ! j = ks ! j" using j by (simp add: nth_append)
  ultimately show ?thesis using assms by (simp only: bchain_hole [of j ts ks P lo hi]) simp
qed

lemma concat_pair:
  assumes "Suc j < length ts"
  shows "concat (map f ts) = concat (map f (take j ts)) @ (f (ts ! j) @ f (ts ! Suc j)) @ concat (map f (drop (Suc (Suc j)) ts))"
proof -
  have "ts = take j ts @ ts ! j # ts ! Suc j # drop (Suc (Suc j)) ts"
    using assms by (simp add: Cons_nth_drop_Suc)
  then have "concat (map f ts) = concat (map f (take j ts @ ts ! j # ts ! Suc j # drop (Suc (Suc j)) ts))"
    by (rule arg_cong)
  then show ?thesis by simp
qed

definition pair_ok :: "nat \<Rightarrow> nat \<Rightarrow> int \<Rightarrow> int \<Rightarrow> bt \<Rightarrow> int \<Rightarrow> bt \<Rightarrow> bool" where
  "pair_ok h m l b x s y \<longleftrightarrow> l < s \<and> s < b \<and> bt_inv h m 0 l s x \<and> bt_inv h m 0 s b y"

text \<open>What a borrow keeps: entries, leaves and pages, in order; one key moves.\<close>

definition rotated :: "bt \<Rightarrow> bt \<Rightarrow> bt \<Rightarrow> bt \<Rightarrow> bool" where
  "rotated x y x' y' \<longleftrightarrow> bt_es x' @ bt_es y' = bt_es x @ bt_es y \<and> bt_leaves x' @ bt_leaves y' = bt_leaves x @ bt_leaves y
     \<and> bt_id x' = bt_id x \<and> bt_id y' = bt_id y
     \<and> mset (bt_pids x') + mset (bt_pids y') = mset (bt_pids x) + mset (bt_pids y)"

lemma borrow_right_ok:
  assumes ok: "pair_ok h m l b x s y" and x: "bt_num_keys x < m" and y: "2 \<le> bt_num_keys y"
  shows "\<exists>x' s' y'. bt_borrow_right x s y = (x', s', y') \<and> pair_ok h m l b x' s' y' \<and> rotated x y x' y'
    \<and> bt_num_keys x' = Suc (bt_num_keys x) \<and> Suc (bt_num_keys y') = bt_num_keys y"
proof (cases h)
  case 0
  with ok obtain p es nx p' es' nx' where xy: "x = Lf p es nx" "y = Lf p' es' nx'"
    by (auto simp: pair_ok_def elim!: bt_inv_0E)
  obtain e1 e2 es2 where es': "es' = e1 # e2 # es2"
    using y xy by (cases es'; cases "tl es'") auto
  have i: "l < s" "s < b" "keys_sorted es" "\<forall>k \<in> fst ` set es. l \<le> k \<and> k < s" "keys_sorted es'"
      "\<forall>k \<in> fst ` set es'. s \<le> k \<and> k < b" "length es' \<le> m"
    using ok xy by (auto simp: pair_ok_def)
  then have "\<forall>k \<in> fst ` set es. k < fst e1" using es' by fastforce
  then have ins: "ins_sorted (fst e1) (snd e1) es = es @ [e1]"
    using ins_sorted_append_right [of es "fst e1" "snd e1" "[]"] by simp
  have "fst e1 < fst e2" "s \<le> fst e1" using i es' by auto
  moreover have "\<forall>k \<in> fst ` set (es @ [e1]). l \<le> k \<and> k < fst e2"
    using i(1,4) \<open>\<forall>k \<in> fst ` set es. k < fst e1\<close> calculation by auto
  moreover have "keys_sorted (es @ [e1])"
    using i(3) \<open>\<forall>k \<in> fst ` set es. k < fst e1\<close> by (simp add: keys_sorted_append)
  moreover have "\<forall>k \<in> fst ` set (e2 # es2). fst e2 \<le> k \<and> k < b" "keys_sorted (e2 # es2)"
    using i es' by auto
  ultimately show ?thesis
    using i xy es' ins x 0 by (simp add: pair_ok_def rotated_def)
next
  case (Suc h')
  with ok obtain p ks ts p' ks' ts' where xy: "x = Nd p ks ts" "y = Nd p' ks' ts'"
    and len: "length ts = Suc (length ks)" "length ts' = Suc (length ks')"
    by (auto simp: pair_ok_def elim!: bt_inv_SucE)
  obtain k1 k2 where ks': "ks' = k1 # k2" using y xy by (cases ks') auto
  obtain c1 cs where ts': "ts' = c1 # cs" using len by (cases ts') auto
  have c: "bchain (bt_inv h' m (m div 2)) l (ks @ [s]) ts" "s < k1" "bt_inv h' m (m div 2) s k1 c1"
      "bchain (bt_inv h' m (m div 2)) k1 (k2 @ [b]) cs" "l < s"
    using ok xy Suc ks' ts' by (auto simp: pair_ok_def)
  have "bchain (bt_inv h' m (m div 2)) l ((ks @ [s]) @ [k1]) (ts @ [c1])"
    using c len by (subst bchain_append) auto
  moreover have "k1 < b" using bchain_sorted [OF c(4)] by simp
  ultimately show ?thesis
    using ok xy Suc ks' ts' c x by (simp add: pair_ok_def rotated_def)
qed

lemma borrow_left_ok:
  assumes ok: "pair_ok h m l b x s y" and x: "2 \<le> bt_num_keys x" and y: "bt_num_keys y < m"
  shows "\<exists>x' s' y'. bt_borrow_left x s y = (x', s', y') \<and> pair_ok h m l b x' s' y' \<and> rotated x y x' y'
    \<and> Suc (bt_num_keys x') = bt_num_keys x \<and> bt_num_keys y' = Suc (bt_num_keys y)"
proof (cases h)
  case 0
  with ok obtain p es nx p' es' nx' where xy: "x = Lf p es nx" "y = Lf p' es' nx'"
    by (auto simp: pair_ok_def elim!: bt_inv_0E)
  obtain es0 e where es: "es = es0 @ [e]" using x xy by (cases es rule: rev_cases) auto
  then obtain e0 es1 where es0: "es0 = e0 # es1" using x xy by (cases es0) auto
  have i: "l < s" "s < b" "keys_sorted es" "\<forall>k \<in> fst ` set es. l \<le> k \<and> k < s" "keys_sorted es'"
      "\<forall>k \<in> fst ` set es'. s \<le> k \<and> k < b" "length es \<le> m"
    using ok xy by (auto simp: pair_ok_def)
  have e: "\<forall>k \<in> fst ` set es'. fst e < k" using i es by fastforce
  then have ins: "ins_sorted (fst e) (snd e) es' = e # es'" by (simp add: ins_sorted_front)
  have "\<forall>k \<in> fst ` set es0. l \<le> k \<and> k < fst e" "keys_sorted es0"
    using i es by (auto simp: keys_sorted_append)
  moreover from this have "l < fst e" using es0 by auto
  moreover have "fst e < s" "\<forall>k \<in> fst ` set (e # es'). fst e \<le> k \<and> k < b" "keys_sorted (e # es')"
    using i es e by fastforce+
  ultimately show ?thesis
    using i xy es ins y 0 by (simp add: pair_ok_def rotated_def)
next
  case (Suc h')
  with ok obtain p ks ts p' ks' ts' where xy: "x = Nd p ks ts" "y = Nd p' ks' ts'"
    and len: "length ts = Suc (length ks)" "length ts' = Suc (length ks')"
    by (auto simp: pair_ok_def elim!: bt_inv_SucE)
  obtain ks0 k where ks: "ks = ks0 @ [k]" using x xy by (cases ks rule: rev_cases) auto
  obtain ts0 c where ts: "ts = ts0 @ [c]" using len by (cases ts rule: rev_cases) auto
  have "bchain (bt_inv h' m (m div 2)) l ((ks0 @ [k]) @ [s]) (ts0 @ [c])"
    using ok xy Suc ks ts by (auto simp: pair_ok_def)
  then have c: "bchain (bt_inv h' m (m div 2)) l (ks0 @ [k]) ts0" "k < s" "bt_inv h' m (m div 2) k s c"
    using len ks ts by (subst (asm) bchain_append; simp)+
  moreover have "l < k" using bchain_sorted [OF c(1)] by (simp add: sorted_wrt_append)
  moreover have "s < b" "bchain (bt_inv h' m (m div 2)) s (ks' @ [b]) ts'"
    using ok xy Suc by (auto simp: pair_ok_def)
  ultimately show ?thesis
    using ok xy Suc ks ts y by (simp add: pair_ok_def rotated_def)
qed

lemma merge_ok:
  assumes ok: "pair_ok h m l b x s y" and small: "bt_num_keys x + bt_num_keys y + (if h = 0 then 0 else 1) \<le> m"
  shows "bt_inv h m 0 l b (bt_merge x s y) \<and> bt_es (bt_merge x s y) = bt_es x @ bt_es y
    \<and> relinks (bt_leaves x @ bt_leaves y) (bt_leaves (bt_merge x s y)) \<and> bt_id (bt_merge x s y) = bt_id x
    \<and> mset (bt_pids x) + mset (bt_pids y) = add_mset (bt_id y) (mset (bt_pids (bt_merge x s y)))
    \<and> bt_num_keys (bt_merge x s y) = bt_num_keys x + bt_num_keys y + (if h = 0 then 0 else 1)"
proof (cases h)
  case 0
  with ok obtain p es nx p' es' nx' where xy: "x = Lf p es nx" "y = Lf p' es' nx'"
    by (auto simp: pair_ok_def elim!: bt_inv_0E)
  have "keys_sorted (es @ es')" "\<forall>k \<in> fst ` set (es @ es'). l \<le> k \<and> k < b"
    using ok xy by (fastforce simp: pair_ok_def keys_sorted_append)+
  then show ?thesis using xy small 0 by (simp add: relinks_def)
next
  case (Suc h')
  with ok obtain p ks ts p' ks' ts' where xy: "x = Nd p ks ts" "y = Nd p' ks' ts'"
    and len: "length ts = Suc (length ks)" "length ts' = Suc (length ks')"
    by (auto simp: pair_ok_def elim!: bt_inv_SucE)
  have "bchain (bt_inv h' m (m div 2)) l ((ks @ [s]) @ (ks' @ [b])) (ts @ ts')"
    using ok xy Suc len by (subst bchain_append) (auto simp: pair_ok_def)
  then show ?thesis using xy small Suc by simp
qed

end
