(* ===== verification/Tree_Delete.thy ===== *)
theory Tree_Delete
  imports Tree_Model
begin

section \<open>Deletion keeps the tree\<close>

text \<open>
  \<^verbatim>\<open>_borrow_or_merge\<close> repairs one underflowing child (\<open>bt_fix\<close>), and the deletion on the functional
  tree implements deletion from the sorted list (\<open>bt_del_ok\<close>, \<open>bt_delete_correct\<close>). The functional
  tree is an instance of the ordered store.
\<close>

subsection \<open>Replacing a pair of neighbours\<close>

lemma chain_raise:
  assumes "bchain (bt_inv h m 0) lo bs ts" "\<forall>t \<in> set ts. q \<le> bt_num_keys t"
  shows "bchain (bt_inv h m q) lo bs ts"
  using assms by (auto intro: bchain_mono bt_inv_raise)

lemma pair_replace:
  assumes "Suc j < length ts" "length ts = Suc (length ks)" "bchain P lo (ks @ [hi]) ts"
    and "last (lo # take j ks) < s" "s < (ks @ [hi]) ! Suc j"
    and "P (last (lo # take j ks)) s x" "P s ((ks @ [hi]) ! Suc j) y"
  shows "bchain P lo (ks[j := s] @ [hi]) (ts[j := x, Suc j := y])"
proof -
  have j: "j < length ks" using assms(1,2) by simp
  have upd: "ks[j := s] @ [hi] = (ks @ [hi])[j := s]" using j by (simp add: list_update_append)
  show ?thesis
    using assms j iffD1 [OF bchain_pair [OF assms(1,2)] assms(3)]
      bchain_pair [of j "ts[j := x, Suc j := y]" "ks[j := s]" P lo hi]
    by (simp add: upd)
qed

lemma pair_merge:
  assumes "Suc j < length ts" "length ts = Suc (length ks)" "bchain P lo (ks @ [hi]) ts"
    and "P (last (lo # take j ks)) ((ks @ [hi]) ! Suc j) z"
  shows "bchain P lo ((take j ks @ drop (Suc j) ks) @ [hi]) (take j ts @ z # drop (Suc (Suc j)) ts)"
proof -
  have j: "j < length ks" using assms(1,2) by simp
  note pair = iffD1 [OF bchain_pair [OF assms(1,2)] assms(3)]
  have tl: "drop (Suc j) (ks @ [hi]) = (ks @ [hi]) ! Suc j # drop (Suc (Suc j)) (ks @ [hi])"
    using j by (intro Cons_nth_drop_Suc [symmetric]) simp
  have "drop (Suc j) ks @ [hi] = (ks @ [hi]) ! Suc j # drop (Suc (Suc j)) (ks @ [hi])"
    using tl j by simp
  moreover have "length (take j ks) = length (take j ts)" using j assms(2) by simp
  moreover have "last (lo # take j ks) < (ks @ [hi]) ! Suc j" using pair by linarith
  ultimately show ?thesis using pair assms(4) by (simp add: bchain_append)
qed

lemma pair_nth:
  assumes "Suc j < length ts" "length ts = Suc (length ks)" "bchain (bt_inv h m 0) lo (ks @ [hi]) ts"
  shows "pair_ok h m (last (lo # take j ks)) ((ks @ [hi]) ! Suc j) (ts ! j) (ks ! j) (ts ! Suc j)"
  using iffD1 [OF bchain_pair [OF assms(1,2)] assms(3)] by (simp add: pair_ok_def)

subsection \<open>The repair of one child\<close>

definition fix_ok :: "nat \<Rightarrow> nat \<Rightarrow> int \<Rightarrow> int \<Rightarrow> int list \<Rightarrow> bt list \<Rightarrow> bool \<times> int list \<times> bt list \<Rightarrow> bool" where
  "fix_ok h m lo hi ks ts res \<longleftrightarrow>
     (case res of (merged, ks', ts') \<Rightarrow>
        bchain (bt_inv h m (m div 2)) lo (ks' @ [hi]) ts' \<and> length ks = length ks' + (if merged then 1 else 0) \<and>
        concat (map bt_es ts') = concat (map bt_es ts) \<and>
        relinks (concat (map bt_leaves ts)) (concat (map bt_leaves ts')) \<and>
        mset (concat (map bt_pids ts')) \<subseteq># mset (concat (map bt_pids ts)))"

lemma concat_pair_update:
  "Suc j < length ts \<Longrightarrow> concat (map f (ts[j := x, Suc j := y])) =
     concat (map f (take j ts)) @ (f x @ f y) @ concat (map f (drop (Suc (Suc j)) ts))"
  using concat_pair [of j "ts[j := x, Suc j := y]" f] by simp

lemma set_pair_update:
  assumes "Suc j < length ts" "q \<le> (f x :: nat)" "q \<le> f y" "\<And>i. i < length ts \<Longrightarrow> i \<noteq> j \<Longrightarrow> i \<noteq> Suc j \<Longrightarrow> q \<le> f (ts ! i)"
  shows "\<forall>t \<in> set (ts[j := x, Suc j := y]). q \<le> f t"
  using assms by (auto simp: in_set_conv_nth nth_list_update)

lemma rotate_ok:
  assumes j: "Suc j < length ts" and len: "length ts = Suc (length ks)"
    and chain: "bchain (bt_inv h m 0) lo (ks @ [hi]) ts"
    and p: "pair_ok h m (last (lo # take j ks)) ((ks @ [hi]) ! Suc j) x s y"
    and rot: "rotated (ts ! j) (ts ! Suc j) x y"
    and occ: "m div 2 \<le> bt_num_keys x" "m div 2 \<le> bt_num_keys y"
      "\<And>i. i < length ts \<Longrightarrow> i \<noteq> j \<Longrightarrow> i \<noteq> Suc j \<Longrightarrow> m div 2 \<le> bt_num_keys (ts ! i)"
  shows "fix_ok h m lo hi ks ts (False, ks[j := s], ts[j := x, Suc j := y])"
proof -
  have "bchain (bt_inv h m 0) lo (ks[j := s] @ [hi]) (ts[j := x, Suc j := y])"
    using p by (intro pair_replace [OF j len chain]) (auto simp: pair_ok_def)
  then have "bchain (bt_inv h m (m div 2)) lo (ks[j := s] @ [hi]) (ts[j := x, Suc j := y])"
    by (rule chain_raise [OF _ set_pair_update [OF j occ]])
  then show ?thesis
    using rot by (simp add: fix_ok_def rotated_def concat_pair_update [OF j] concat_pair [OF j])
qed

lemma fold_ok:
  assumes j: "Suc j < length ts" and len: "length ts = Suc (length ks)"
    and chain: "bchain (bt_inv h m 0) lo (ks @ [hi]) ts" and m: "2 \<le> m"
    and occ: "bt_num_keys (ts ! j) + bt_num_keys (ts ! Suc j) + 1 = m div 2 + m div 2"
      "\<And>i. i < length ts \<Longrightarrow> i \<noteq> j \<Longrightarrow> i \<noteq> Suc j \<Longrightarrow> m div 2 \<le> bt_num_keys (ts ! i)"
  shows "fix_ok h m lo hi ks ts (True, bt_merge_at j ks ts)"
proof -
  let ?z = "bt_merge (ts ! j) (ks ! j) (ts ! Suc j)"
  note n = occ(1)
  then have small: "bt_num_keys (ts ! j) + bt_num_keys (ts ! Suc j) + (if h = 0 then 0 else 1) \<le> m" by auto
  note mg = merge_ok [OF pair_nth [OF j len chain] small]
  have "bchain (bt_inv h m 0) lo ((take j ks @ drop (Suc j) ks) @ [hi]) (take j ts @ ?z # drop (Suc (Suc j)) ts)"
    using mg by (intro pair_merge [OF j len chain]) blast
  moreover have "\<forall>t \<in> set (take j ts @ ?z # drop (Suc (Suc j)) ts). m div 2 \<le> bt_num_keys t"
  proof -
    have "m div 2 \<le> bt_num_keys ?z" using mg n m by (cases "h = 0") auto
    then show ?thesis
      using occ(2) j by (auto simp: in_set_conv_nth)
  qed
  ultimately have "bchain (bt_inv h m (m div 2)) lo ((take j ks @ drop (Suc j) ks) @ [hi]) (take j ts @ ?z # drop (Suc (Suc j)) ts)"
    by (rule chain_raise)
  moreover have "relinks (concat (map bt_leaves ts)) (concat (map bt_leaves (take j ts @ ?z # drop (Suc (Suc j)) ts)))"
    using relinks_context [OF conjunct1 [OF conjunct2 [OF conjunct2 [OF mg]]],
        of "concat (map bt_leaves (take j ts))" "concat (map bt_leaves (drop (Suc (Suc j)) ts))"]
    by (simp add: concat_pair [OF j, of bt_leaves])
  moreover have "mset (bt_pids ?z) \<subseteq># mset (bt_pids (ts ! j)) + mset (bt_pids (ts ! Suc j))" using mg by simp
  ultimately show ?thesis
    using mg j len by (simp add: fix_ok_def bt_merge_at_def concat_pair [OF j])
qed

theorem bt_fix_ok:
  assumes len: "length ts = Suc (length ks)" and chain: "bchain (bt_inv h m 0) lo (ks @ [hi]) ts"
    and m: "2 \<le> m" and ks: "ks \<noteq> []" and i: "i < length ts"
    and low: "Suc (bt_num_keys (ts ! i)) = m div 2"
    and occ: "\<And>j. j < length ts \<Longrightarrow> j \<noteq> i \<Longrightarrow> m div 2 \<le> bt_num_keys (ts ! j)"
  shows "fix_ok h m lo hi ks ts (bt_fix m i ks ts)"
proof -
  have small: "bt_num_keys (ts ! i) < m" using low by linarith
  consider (right) "Suc i < length ts" "m div 2 < bt_num_keys (ts ! Suc i)"
    | (left) j where "i = Suc j" "\<not> (Suc i < length ts \<and> m div 2 < bt_num_keys (ts ! Suc i))" "m div 2 < bt_num_keys (ts ! j)"
    | (fold_right) "Suc i < length ts" "\<not> m div 2 < bt_num_keys (ts ! Suc i)" "\<not> (i > 0 \<and> m div 2 < bt_num_keys (ts ! (i - 1)))"
    | (fold_left) j where "i = Suc j" "\<not> Suc i < length ts" "\<not> m div 2 < bt_num_keys (ts ! j)"
  proof (cases i)
    case 0
    then have "Suc i < length ts" using len ks by (cases ks) auto
    then show ?thesis using right fold_right 0 by blast
  next
    case (Suc j)
    then show ?thesis using right left fold_right fold_left by (metis diff_Suc_1)
  qed
  then show ?thesis
  proof cases
    case right
    then have "2 \<le> bt_num_keys (ts ! Suc i)" using m by linarith
    then obtain x s y where b: "bt_borrow_right (ts ! i) (ks ! i) (ts ! Suc i) = (x, s, y)"
      "pair_ok h m (last (lo # take i ks)) ((ks @ [hi]) ! Suc i) x s y" "rotated (ts ! i) (ts ! Suc i) x y"
      "bt_num_keys x = Suc (bt_num_keys (ts ! i))" "Suc (bt_num_keys y) = bt_num_keys (ts ! Suc i)"
      using borrow_right_ok [OF pair_nth [OF right(1) len chain] small] by blast
    have "fix_ok h m lo hi ks ts (False, ks[i := s], ts[i := x, Suc i := y])"
      using b low right occ by (intro rotate_ok [OF right(1) len chain b(2,3)]) auto
    then show ?thesis using right b(1) by (simp add: bt_fix_def Let_def)
  next
    case (left j)
    then have j: "Suc j < length ts" and "2 \<le> bt_num_keys (ts ! j)" using m i by linarith+
    then obtain x s y where b: "bt_borrow_left (ts ! j) (ks ! j) (ts ! Suc j) = (x, s, y)"
      "pair_ok h m (last (lo # take j ks)) ((ks @ [hi]) ! Suc j) x s y" "rotated (ts ! j) (ts ! Suc j) x y"
      "Suc (bt_num_keys x) = bt_num_keys (ts ! j)" "bt_num_keys y = Suc (bt_num_keys (ts ! Suc j))"
      using borrow_left_ok [OF pair_nth [OF j len chain]] small left(1) by blast
    have "fix_ok h m lo hi ks ts (False, ks[j := s], ts[j := x, Suc j := y])"
      using b low left occ by (intro rotate_ok [OF j len chain b(2,3)]) auto
    then show ?thesis using left b(1) by (auto simp add: bt_fix_def Let_def)
  next
    case fold_right
    have "m div 2 \<le> bt_num_keys (ts ! Suc i)" using fold_right(1) by (intro occ) auto
    then have "bt_num_keys (ts ! Suc i) = m div 2" using fold_right(2) by simp
    then have "fix_ok h m lo hi ks ts (True, bt_merge_at i ks ts)"
      using low occ fold_right by (intro fold_ok [OF fold_right(1) len chain m]) auto
    then show ?thesis using fold_right by (auto simp add: bt_fix_def Let_def)
  next
    case (fold_left j)
    have j: "Suc j < length ts" using fold_left i by simp
    have "m div 2 \<le> bt_num_keys (ts ! j)" using fold_left j by (intro occ) auto
    then have "bt_num_keys (ts ! j) = m div 2" using fold_left(3) by simp
    then have "fix_ok h m lo hi ks ts (True, bt_merge_at j ks ts)"
      using low occ fold_left by (intro fold_ok [OF j len chain m]) auto
    then show ?thesis using fold_left by (simp add: bt_fix_def Let_def)
  qed
qed

subsection \<open>The whole deletion\<close>

definition del_ok :: "nat \<Rightarrow> nat \<Rightarrow> nat \<Rightarrow> int \<Rightarrow> int \<Rightarrow> int \<Rightarrow> bt \<Rightarrow> bt \<times> bool \<times> bool \<Rightarrow> bool" where
  "del_ok h m q lo hi k t res \<longleftrightarrow>
     (case res of (t', found, check) \<Rightarrow>
        found = (k \<in> fst ` set (bt_es t)) \<and> (\<not> found \<longrightarrow> t' = t) \<and>
        bt_inv h m (if check then q - 1 else q) lo hi t' \<and> bt_es t' = del_sorted k (bt_es t) \<and>
        relinks (bt_leaves t) (bt_leaves t') \<and> bt_id t' = bt_id t \<and> mset (bt_pids t') \<subseteq># mset (bt_pids t))"

lemma mset_swap_subset:
  assumes "X + P = T + C" "C \<subseteq># P"
  shows "X \<subseteq># (T :: 'a multiset)"
proof -
  obtain D where "P = C + D" using assms(2) by (auto simp: mset_subset_eq_exists_conv)
  then have "(X + D) + C = T + C" using assms(1) by (simp add: ac_simps)
  then have "T = X + D" by simp
  then show ?thesis by simp
qed

lemma bt_del_leaf:
  assumes "bt_inv 0 m q lo hi (Lf p es nx)"
  shows "del_ok 0 m q lo hi k (Lf p es nx) (bt_del m k (Lf p es nx))"
proof -
  have "keys_sorted es" "q \<le> length es" "length es \<le> m" using assms by simp_all
  then show ?thesis
    using assms length_del_sorted [of es k] by (auto simp: del_ok_def)
qed

lemma bt_del_node:
  fixes k :: int
  assumes chain: "bchain (bt_inv h m (m div 2)) lo (ks @ [hi]) ts" and len: "length ts = Suc (length ks)"
    and occ: "q \<le> length ks" "length ks \<le> m" and m: "2 \<le> m" and q: "1 \<le> q"
  defines "i \<equiv> child_pos ks k"
  assumes res: "del_ok h m (m div 2) (last (lo # take i ks)) ((ks @ [hi]) ! i) k (ts ! i) (bt_del m k (ts ! i))"
  shows "del_ok (Suc h) m q lo hi k (Nd p ks ts) (bt_del m k (Nd p ks ts))"
proof -
  note hole = hole_any [OF chain len, of k, folded i_def]
  obtain c found check where run: "bt_del m k (ts ! i) = (c, found, check)" by (metis prod_cases3)
  with res have c: "found = (k \<in> fst ` set (bt_es (ts ! i)))" "\<not> found \<Longrightarrow> c = ts ! i"
    "bt_inv h m (if check then m div 2 - 1 else m div 2) (last (lo # take i ks)) ((ks @ [hi]) ! i) c"
    "bt_es c = del_sorted k (bt_es (ts ! i))" "relinks (bt_leaves (ts ! i)) (bt_leaves c)"
    "mset (bt_pids c) \<subseteq># mset (bt_pids (ts ! i))"
    by (simp_all add: del_ok_def)
  let ?A = "concat (map bt_es (take i ts))" and ?B = "concat (map bt_es (drop (Suc i) ts))"
  have l: "k \<notin> fst ` set ?A" and r: "k \<notin> fst ` set ?B" using hole(3,4) by blast+
  have found: "found = (k \<in> fst ` set (bt_es (Nd p ks ts)))"
    using c(1) l r by (simp only: bt_es_hole [OF hole(1)] set_append image_Un Un_iff) blast
  let ?ts = "ts[i := c]"
  have es: "concat (map bt_es ?ts) = del_sorted k (bt_es (Nd p ks ts))"
    by (simp only: c(4) concat_update [OF hole(1)] bt_es_hole [OF hole(1)] del_sorted_append
        del_sorted_absent [OF l] del_sorted_absent [OF r])
  have lv: "relinks (concat (map bt_leaves ts)) (concat (map bt_leaves ?ts))"
    using relinks_context [OF c(5)] by (simp only: concat_update [OF hole(1)] bt_leaves_hole [OF hole(1), symmetric, of p ks])
      (simp add: bt_leaves_hole [OF hole(1), of p ks, simplified])
  have pids: "mset (concat (map bt_pids ?ts)) \<subseteq># mset (concat (map bt_pids ts))"
    by (rule mset_swap_subset [OF mset_pids_update [OF hole(1)] c(6)])
  have low: "length ks \<noteq> 0" using occ(1) q by linarith
  consider (absent) "\<not> found" | (repair) "found" "check" "bt_num_keys c < m div 2"
    | (fine) "found" "\<not> (check \<and> bt_num_keys c < m div 2)" by blast
  then show ?thesis
  proof cases
    case absent
    have "k \<notin> fst ` set (bt_es (Nd p ks ts))" using absent found by blast
    then show ?thesis
      using absent found run chain occ hole(1) by (simp add: del_ok_def Let_def i_def [symmetric] del: bt_es.simps)
  next
    case fine
    then have "bt_inv h m (m div 2) (last (lo # take i ks)) ((ks @ [hi]) ! i) c"
      using c(3) by (auto intro: bt_inv_raise split: if_splits)
    then have "bchain (bt_inv h m (m div 2)) lo (ks @ [hi]) ?ts"
      by (rule replace_child [where P = "bt_inv h m (m div 2)", OF chain len hole(1)])
    moreover have "bt_del m k (Nd p ks ts) = (Nd p ks ?ts, True, False)"
      using fine run hole(1) by (auto simp: Let_def i_def [symmetric])
    ultimately show ?thesis
      using fine(1) found occ es lv pids by (simp add: del_ok_def)
  next
    case repair
    then have "m div 2 - 1 \<le> bt_num_keys c" using bt_inv_num_keys [OF c(3)] by simp
    with repair(3) have "Suc (bt_num_keys c) = m div 2" by linarith
    then have n: "Suc (bt_num_keys (?ts ! i)) = m div 2" using hole(1) by simp
    have ch0: "bchain (bt_inv h m 0) lo (ks @ [hi]) ?ts"
      by (rule replace_child [OF bchain_mono [OF chain] len hole(1)]) (use c(3) bt_inv_mono in blast)+
    have occ': "m div 2 \<le> bt_num_keys (?ts ! j)" if "j < length ?ts" "j \<noteq> i" for j
    proof -
      have "ts ! j \<in> set ts" using that by simp
      from bchain_all [OF chain this] show ?thesis using that by (auto dest: bt_inv_num_keys)
    qed
    have fx: "fix_ok h m lo hi ks ?ts (bt_fix m i ks ?ts)"
      using len low hole(1) by (intro bt_fix_ok [OF _ ch0 m _ _ n occ']) auto
    obtain merged ks' ts' where f: "bt_fix m i ks ?ts = (merged, ks', ts')" by (metis prod_cases3)
    have "bt_del m k (Nd p ks ts) = (Nd p ks' ts', True, merged)"
      using repair run f hole(1) by (simp add: Let_def i_def [symmetric])
    moreover have "(if merged then q - 1 else q) \<le> length ks'" "length ks' \<le> m"
      using fx f occ by (auto simp: fix_ok_def)
    ultimately show ?thesis
      using fx f repair(1) found es relinks_trans [OF lv] subset_mset.order_trans [OF _ pids]
      by (simp add: del_ok_def fix_ok_def)
  qed
qed

theorem bt_del_ok:
  "bt_inv h m q lo hi t \<Longrightarrow> 2 \<le> m \<Longrightarrow> (h = 0 \<or> 1 \<le> q) \<Longrightarrow> del_ok h m q lo hi k t (bt_del m k t)"
proof (induction h arbitrary: q lo hi t)
  case 0
  then obtain p es nx where t: "t = Lf p es nx" by (elim bt_inv_0E)
  show ?case using bt_del_leaf [of m q lo hi p es nx k] 0 unfolding t by blast
next
  case (Suc h)
  then obtain p ks ts where t: "t = Nd p ks ts" "length ts = Suc (length ks)"
      "bchain (bt_inv h m (m div 2)) lo (ks @ [hi]) ts" "q \<le> length ks" "length ks \<le> m"
    by (elim bt_inv_SucE)
  note hole = hole_any [OF t(3,2), of k]
  have "1 \<le> m div 2" "1 \<le> q" using Suc.prems(2,3) by auto
  then show ?case
    unfolding t(1)
    by (intro bt_del_node [OF t(3,2,4,5) Suc.prems(2)] Suc.IH [OF hole(2) Suc.prems(2)]) simp_all
qed

text \<open>The root: an index page that lost its last key gives way to its only child.\<close>

definition bt_collapse :: "bt \<Rightarrow> bt" where
  "bt_collapse t = (case t of Nd p [] ts \<Rightarrow> ts ! 0 | _ \<Rightarrow> t)"

lemma bt_delete_eq:
  "bt_del m k t = (t', found, check) \<Longrightarrow>
     bt_delete m k t = (if found \<and> check then bt_collapse t' else t', found)"
  by (simp add: bt_delete_def bt_collapse_def)

lemma bt_collapse_ok:
  assumes "bt_inv h m 0 lo hi t" "2 \<le> m"
  shows "\<exists>h'. bt_inv h' m (root_min h') lo hi (bt_collapse t) \<and> bt_es (bt_collapse t) = bt_es t \<and>
    bt_leaves (bt_collapse t) = bt_leaves t \<and> mset (bt_pids (bt_collapse t)) \<subseteq># mset (bt_pids t)"
proof (cases "\<exists>p ts. t = Nd p [] ts")
  case True
  then obtain p ts h' where t: "t = Nd p [] ts" "h = Suc h'" using assms(1) by (cases h) auto
  then obtain c where c: "ts = [c]" "bt_inv h' m (m div 2) lo hi c"
    using assms(1) by (cases ts; cases "tl ts") auto
  have "root_min h' \<le> m div 2" using assms(2) by (auto simp: root_min_def)
  with c have "bt_inv h' m (root_min h') lo hi c" by (auto intro: bt_inv_mono)
  with t c show ?thesis by (auto simp: bt_collapse_def)
next
  case False
  then have t: "bt_collapse t = t" by (auto simp: bt_collapse_def split: bt.splits list.splits)
  have "bt_inv h m (root_min h) lo hi t"
    using False assms(1) by (cases t; cases h) (auto simp: root_min_def Suc_le_eq)
  with t show ?thesis by auto
qed

theorem bt_delete_correct:
  assumes "bt_ok m t" "2 \<le> m"
  shows "bt_ok m (fst (bt_delete m k t)) \<and> bt_es (fst (bt_delete m k t)) = del_sorted k (bt_es t) \<and>
    snd (bt_delete m k t) = (k \<in> fst ` set (bt_es t)) \<and>
    mset (bt_pids (fst (bt_delete m k t))) \<subseteq># mset (bt_pids t)"
proof -
  obtain h where h: "bt_inv h m (root_min h) 0 KEY_END t" "links (bt_leaves t) None"
    using assms(1) by (auto simp: bt_ok_def)
  obtain t' found check where run: "bt_del m k t = (t', found, check)" by (metis prod_cases3)
  have "del_ok h m (root_min h) 0 KEY_END k t (t', found, check)"
    using bt_del_ok [OF h(1) assms(2), of k] run by (simp add: root_min_def)
  then have d: "found = (k \<in> fst ` set (bt_es t))" "\<not> found \<Longrightarrow> t' = t"
    "bt_inv h m (if check then root_min h - 1 else root_min h) 0 KEY_END t'" "bt_es t' = del_sorted k (bt_es t)"
    "links (bt_leaves t') None" "mset (bt_pids t') \<subseteq># mset (bt_pids t)"
    using h(2) by (simp_all add: del_ok_def relinks_def)
  have inv0: "bt_inv h m 0 0 KEY_END t'" using d(3) by (rule bt_inv_mono) simp
  obtain h' where h': "bt_inv h' m (root_min h') 0 KEY_END (bt_collapse t')" "bt_es (bt_collapse t') = bt_es t'"
    "bt_leaves (bt_collapse t') = bt_leaves t'" "mset (bt_pids (bt_collapse t')) \<subseteq># mset (bt_pids t')"
    using bt_collapse_ok [OF inv0 assms(2)] by blast
  consider (collapse) "found" "check" | (keep) "found" "\<not> check" | (absent) "\<not> found" by blast
  then show ?thesis
  proof cases
    case collapse
    have "bt_ok m (bt_collapse t')" using h'(1,3) d(5) unfolding bt_ok_def by auto
    with collapse show ?thesis
      using d h' by (simp add: bt_delete_eq [OF run] subset_mset.order_trans [OF h'(4) d(6)])
  next
    case keep
    then have "bt_ok m t'" using d(3,5) unfolding bt_ok_def by auto
    with keep show ?thesis using d by (simp add: bt_delete_eq [OF run])
  next
    case absent
    then have "t' = t" using d(2) by blast
    then show ?thesis using absent d assms(1) by (simp add: bt_delete_eq [OF run])
  qed
qed

end
