(* ===== verification/Pager_Laws.thy ===== *)
theory Pager_Laws
  imports BPlus_Tree
begin

section \<open>What the pager promises while the pool holds every page\<close>

text \<open>
  With a pool at least as large as the file has pages nothing is evicted, and page objects and page
  ids correspond one to one. Then the pager is a map from page ids to nodes (\<open>nview\<close>): a cached
  page holds the content of its object, another one what parsing its block of the data file gives.
  \<open>holds s V n a b D\<close> says that the pages of \<open>V\<close> are stored, that \<open>n\<close> pages are allocated, that
  \<open>a\<close> more pages and \<open>b\<close> more log records fit, that the log's buffer is in order, and that clean pages outside \<open>D\<close> agree with the
  data file. The laws give the effect of every pager operation on it, in the style of weakest
  preconditions (\<open>runs\<close>).
\<close>

subsection \<open>Nodes\<close>

datatype node = LN "(int \<times> bytes) list" "nat option" | IN "int list" "nat list"

fun node_of :: "page \<Rightarrow> node" where
  "node_of (LeafP l) = LN (lf_es l) (lf_next l)"
| "node_of (IndexP p) = IN (ix_keys p) (ix_children p)"

fun page_fits :: "page \<Rightarrow> bool" where
  "page_fits (LeafP l) = leaf_fits l"
| "page_fits (IndexP p) = index_packs p"

definition page_ok :: "nat \<Rightarrow> nat \<Rightarrow> page \<Rightarrow> bool" where
  "page_ok m pid pg \<longleftrightarrow> pg_id pg = pid \<and> page_max_keys pg = m \<and> page_fits pg"

text \<open>The nodes that are read back from disk as they were written.\<close>

fun node_saves :: "node \<Rightarrow> bool" where
  "node_saves (LN es nx) = True"
| "node_saves (IN ks cs) = (if ks = [] then cs = [] else length cs = Suc (length ks))"

fun page_bytes :: "page \<Rightarrow> bytes" where
  "page_bytes (LeafP l) = leaf_bytes l"
| "page_bytes (IndexP p) = index_bytes p"

lemma page_to_bytes_ok: "page_fits pg \<Longrightarrow> page_to_bytes pg = Inr (page_bytes pg) \<and> length (page_bytes pg) = PAGE_SIZE"
  by (cases pg) (simp_all add: leaf_to_bytes_ok length_leaf_bytes index_to_bytes_ok length_index_bytes)

lemma index_empty_from_to_bytes:
  assumes "index_packs p" "ix_keys p = []" "ix_children p = []"
  shows "index_from_bytes (ix_id p) (index_bytes p) (ix_max_keys p) = Inr p"
proof -
  have "unpack_from 8 (index_bytes p) 0 = Inr (int (ix_lsn p))"
    using unpack_from_mid [of 0 "[]" "le_bytes 8 (ix_lsn p)" 8] assms
    by (simp add: index_bytes_def le_nat_le_bytes index_packs_def)
  moreover have "unpack_from 4 (index_bytes p) (PAGE_LSN_SIZE + 1) = Inr 0"
    using unpack_from_mid [of 9 "le_bytes 8 (ix_lsn p) @ [0]" "le_bytes 4 0" 4] assms
    by (simp add: index_bytes_def le_nat_le_bytes page_consts)
  ultimately show ?thesis
    using assms by (cases p) (simp add: index_from_bytes_def index_init_def Let_def)
qed

lemma parse_page_bytes:
  assumes "page_ok m pid pg" "node_saves (node_of pg)"
  shows "parse_page m pid (page_bytes pg) = Inr pg"
proof (cases pg)
  case (LeafP l)
  then show ?thesis
    using assms page_to_bytes_ok [of pg] leaf_from_to_bytes [of l] page_bytes_type(1) [of l]
    by (auto simp: page_ok_def parse_page_def)
next
  case (IndexP p)
  have "index_from_bytes (ix_id p) (index_bytes p) (ix_max_keys p) = Inr p"
    using assms IndexP index_from_to_bytes [of p] index_empty_from_to_bytes [of p]
    by (auto simp: page_ok_def index_fits_def split: if_splits)
  then show ?thesis
    using assms IndexP page_to_bytes_ok [of pg] page_bytes_type(2) [of p]
    by (auto simp: page_ok_def parse_page_def)
qed

lemma page_fits_lsn: "page_fits pg \<Longrightarrow> n < 2 ^ 64 \<Longrightarrow> page_fits (set_page_lsn n pg)"
  by (cases pg) (auto simp: leaf_fits_def index_packs_def)

lemma set_page_lsn_simps [simp]:
  "node_of (set_page_lsn n pg) = node_of pg" "pg_id (set_page_lsn n pg) = pg_id pg"
  "page_max_keys (set_page_lsn n pg) = page_max_keys pg"
  by (cases pg; simp)+

lemma page_ok_lsn: "page_ok m pid pg \<Longrightarrow> n < 2 ^ 64 \<Longrightarrow> page_ok m pid (set_page_lsn n pg)"
  by (simp add: page_ok_def page_fits_lsn)

subsection \<open>The data file as an array of blocks\<close>

definition block :: "nat \<Rightarrow> bytes \<Rightarrow> bytes" where
  "block pid f = seg (data_offset pid) (data_offset pid + PAGE_SIZE) f"

lemma seg_file_write: "seg off (off + length v) (file_write off v f) = v"
proof -
  have "length (take off f @ replicate (off - length f) 0) = off" by simp
  then show ?thesis using seg_mid [of off "take off f @ replicate (off - length f) 0" "off + length v" v]
    by (simp add: file_write_def)
qed

lemma nth_file_write:
  "i < length f \<Longrightarrow> i < off \<or> off + length v \<le> i \<Longrightarrow> file_write off v f ! i = f ! i"
  by (auto simp: file_write_def nth_append)

lemma length_file_write: "length (file_write off v f) = max (off + length v) (length f)"
  by (simp add: file_write_def)

lemma seg_file_write_other:
  assumes "j \<le> length f" "j \<le> off \<or> off + length v \<le> i"
  shows "seg i j (file_write off v f) = seg i j f"
proof (rule nth_equalityI)
  show "length (seg i j (file_write off v f)) = length (seg i j f)"
    using assms by (auto simp: length_file_write)
next
  fix k assume "k < length (seg i j (file_write off v f))"
  then have k: "k < j - i" "i + k < length f" using assms(1) by auto
  have "file_write off v f ! (i + k) = f ! (i + k)"
    using k assms(2) by (intro nth_file_write) auto
  then show "seg i j (file_write off v f) ! k = seg i j f ! k"
    using k by (simp add: nth_seg length_file_write)
qed

lemma block_write_same: "length v = PAGE_SIZE \<Longrightarrow> block pid (file_write (data_offset pid) v f) = v"
  using seg_file_write [of "data_offset pid" v f] by (simp add: block_def)

lemma block_write_other:
  assumes "length v = PAGE_SIZE" "pid \<noteq> q" "length (block q f) = PAGE_SIZE"
  shows "block q (file_write (data_offset pid) v f) = block q f"
  unfolding block_def
proof (rule seg_file_write_other)
  show "data_offset q + PAGE_SIZE \<le> length f"
    using assms(3) by (simp add: block_def data_offset_def page_consts)
  show "data_offset q + PAGE_SIZE \<le> data_offset pid \<or> data_offset pid + length v \<le> data_offset q"
    using assms(1,2) by (auto simp: data_offset_def page_consts)
qed

lemma block_write_meta:
  assumes "length v = PAGE_SIZE" "length (block q f) = PAGE_SIZE"
  shows "block q (file_write 0 v f) = block q f"
  unfolding block_def
proof (rule seg_file_write_other)
  show "data_offset q + PAGE_SIZE \<le> length f"
    using assms(2) by (simp add: block_def data_offset_def page_consts)
  show "data_offset q + PAGE_SIZE \<le> 0 \<or> 0 + length v \<le> data_offset q"
    using assms(1) by (simp add: data_offset_def)
qed

definition file_node :: "nat \<Rightarrow> bytes \<Rightarrow> nat \<Rightarrow> node option" where
  "file_node m f pid =
     (case parse_page m pid (block pid f) of
        Inl e \<Rightarrow> None
      | Inr pg \<Rightarrow> if page_ok m pid pg then Some (node_of pg) else None)"

lemma file_node_length: "file_node m f pid = Some nd \<Longrightarrow> length (block pid f) = PAGE_SIZE"
  by (auto simp: file_node_def parse_page_def block_def page_consts split: sum.splits if_splits)

lemma file_node_write:
  assumes "page_ok m pid pg" "node_saves (node_of pg)"
  shows "file_node m (file_write (data_offset pid) (page_bytes pg) f) pid = Some (node_of pg)"
  using assms page_to_bytes_ok [of pg] parse_page_bytes [OF assms]
  by (simp add: file_node_def block_write_same page_ok_def)

lemma file_node_write_other:
  "length v = PAGE_SIZE \<Longrightarrow> pid \<noteq> q \<Longrightarrow> file_node m f q = Some nd \<Longrightarrow>
     file_node m (file_write (data_offset pid) v f) q = Some nd"
  using block_write_other [of v pid q f] file_node_length [of m f q nd] by (simp add: file_node_def)

lemma file_node_write_meta:
  "length v = PAGE_SIZE \<Longrightarrow> file_node m f q = Some nd \<Longrightarrow> file_node m (file_write 0 v f) q = Some nd"
  using block_write_meta [of v q f] file_node_length [of m f q nd] by (simp add: file_node_def)

subsection \<open>The view of the pages\<close>

definition cached :: "'a pager_scheme \<Rightarrow> nat \<Rightarrow> nat option" where
  "cached s pid = map_option fr_page (pool_frame (pg_pool s) pid)"

definition disk_node :: "'a pager_scheme \<Rightarrow> nat \<Rightarrow> node option" where
  "disk_node s pid = (case pg_file s of None \<Rightarrow> None | Some f \<Rightarrow> file_node (pg_order s) f pid)"

definition nview :: "'a pager_scheme \<Rightarrow> nat \<Rightarrow> node option" where
  "nview s pid = (case cached s pid of Some r \<Rightarrow> Some (node_of (pg_objs s ! r)) | None \<Rightarrow> disk_node s pid)"

definition is_dirty :: "'a pager_scheme \<Rightarrow> nat \<Rightarrow> bool" where
  "is_dirty s pid \<longleftrightarrow> (\<exists>f. pool_frame (pg_pool s) pid = Some f \<and> fr_dirty f)"

definition pool_ok :: "'a pager_scheme \<Rightarrow> bool" where
  "pool_ok s \<longleftrightarrow> pool_wf (pg_pool s) \<and>
     (\<forall>pid r. cached s pid = Some r \<longrightarrow>
        pid < pg_next_id s \<and> r < length (pg_objs s) \<and> page_ok (pg_order s) pid (pg_objs s ! r))"

definition limit :: "'a pager_scheme \<Rightarrow> nat" where
  "limit s = min (bp_capacity (pg_pool s)) NO_NEXT"

definition log_room :: "'a pager_scheme \<Rightarrow> nat \<Rightarrow> bool" where
  "log_room s b \<longleftrightarrow> (\<forall>w. pg_wal s = Some w \<longrightarrow> w_next_lsn w + b \<le> 2 ^ 64 \<and> (\<forall>e \<in> set (w_buf w). fst e < w_next_lsn w))"

definition saved :: "'a pager_scheme \<Rightarrow> (nat \<Rightarrow> node option) \<Rightarrow> nat set \<Rightarrow> bool" where
  "saved s V D \<longleftrightarrow> (\<forall>pid nd. V pid = Some nd \<longrightarrow> pid \<notin> D \<longrightarrow> \<not> is_dirty s pid \<longrightarrow> pg_file s \<noteq> None \<longrightarrow>
     disk_node s pid = Some nd)"

definition holds :: "'a pager_scheme \<Rightarrow> (nat \<Rightarrow> node option) \<Rightarrow> nat \<Rightarrow> nat \<Rightarrow> nat \<Rightarrow> nat set \<Rightarrow> bool" where
  "holds s V n a b D \<longleftrightarrow> pool_ok s \<and> V \<subseteq>\<^sub>m nview s \<and> dom V \<subseteq> {..<n} \<and> pg_next_id s = n \<and>
     n + a \<le> limit s \<and> log_room s b \<and> saved s V D"

text \<open>What no operation on pages changes, and what only grows.\<close>

definition step :: "'a pager_scheme \<Rightarrow> 'a pager_scheme \<Rightarrow> bool" where
  "step s s' \<longleftrightarrow> pager.more s' = pager.more s \<and> pg_root s' = pg_root s \<and> pg_order s' = pg_order s \<and>
     (pg_file s' = None \<longleftrightarrow> pg_file s = None) \<and> (pg_wal s' = None \<longleftrightarrow> pg_wal s = None) \<and>
     pg_txn_writing s' = pg_txn_writing s \<and> pg_deferred s' = pg_deferred s \<and> pg_next_txn_id s' = pg_next_txn_id s \<and>
     cached s \<subseteq>\<^sub>m cached s' \<and> (\<forall>pid. is_dirty s pid \<longrightarrow> is_dirty s' pid)"

lemma step_refl [simp]: "step s s"
  by (simp add: step_def)

lemma step_trans: "step s s' \<Longrightarrow> step s' s'' \<Longrightarrow> step s s''"
  by (auto simp: step_def intro: map_le_trans)

lemma step_cached: "step s s' \<Longrightarrow> cached s pid = Some r \<Longrightarrow> cached s' pid = Some r"
  by (auto simp: step_def map_le_def dom_def)

lemma holds_view: "holds s V n a b D \<Longrightarrow> V pid = Some nd \<Longrightarrow> nview s pid = Some nd \<and> pid < n"
  by (auto simp: holds_def map_le_def dom_def)

lemma holds_weaken:
  "holds s V n a b D \<Longrightarrow> V' \<subseteq>\<^sub>m V \<Longrightarrow> a' \<le> a \<Longrightarrow> b' \<le> b \<Longrightarrow> D \<subseteq> D' \<Longrightarrow> holds s V' n a' b' D'"
proof -
  assume h: "holds s V n a b D" and sub: "V' \<subseteq>\<^sub>m V" "a' \<le> a" "b' \<le> b" "D \<subseteq> D'"
  have eq: "V pid = Some nd" if "V' pid = Some nd" for pid nd
    using sub(1) that by (force simp: map_le_def)
  have "V' \<subseteq>\<^sub>m nview s" "dom V' \<subseteq> {..<n}"
    using h sub(1) map_le_trans [of V' V] map_le_implies_dom_le [of V' V] by (auto simp: holds_def)
  moreover have "log_room s b'" using h sub(3) by (auto simp: holds_def log_room_def)
  moreover have "saved s V' D'" using h sub(4) eq unfolding holds_def saved_def by blast
  ultimately show ?thesis using h sub(2) by (simp add: holds_def)
qed

lemma holds_dirty: "holds s V n a b D \<Longrightarrow> is_dirty s pid \<Longrightarrow> holds s V n a b (D - {pid})"
  by (auto simp: holds_def saved_def)

lemma saved_mono:
  "saved s V D \<Longrightarrow> (\<And>q. is_dirty s q \<Longrightarrow> is_dirty s' q) \<Longrightarrow> (pg_file s' = None \<longleftrightarrow> pg_file s = None) \<Longrightarrow>
     (\<And>q nd. V q = Some nd \<Longrightarrow> disk_node s q = Some nd \<Longrightarrow> disk_node s' q = Some nd) \<Longrightarrow> saved s' V D"
  unfolding saved_def by metis

subsection \<open>Objects\<close>

lemma obj_law:
  assumes "holds s V n a b D" "cached s pid = Some r" "V pid = Some nd"
    and "\<And>pg. page_ok (pg_order s) pid pg \<Longrightarrow> node_of pg = nd \<Longrightarrow> Q pg s"
  shows "runs (obj r) s Q"
proof -
  have "page_ok (pg_order s) pid (pg_objs s ! r)" using assms(1,2) by (auto simp: holds_def pool_ok_def)
  moreover have "node_of (pg_objs s ! r) = nd" using holds_view [OF assms(1,3)] assms(2) by (simp add: nview_def)
  ultimately show ?thesis using assms(4) by (simp add: obj_def runs_simps)
qed

lemma set_obj_law_gen:
  assumes h: "holds s V n a b D" and c: "cached s pid = Some r" and pg: "page_ok (pg_order s) pid pg"
    and Q: "\<And>s'. step s s' \<Longrightarrow> holds s' (V(pid \<mapsto> node_of pg)) n a b (if V pid = Some (node_of pg) then D else insert pid D) \<Longrightarrow> Q () s'"
  shows "runs (set_obj r pg) s Q"
proof -
  let ?s = "s\<lparr>pg_objs := (pg_objs s)[r := pg]\<rparr>"
  have po: "pool_ok s" and V: "V \<subseteq>\<^sub>m nview s" "dom V \<subseteq> {..<n}" and n: "pg_next_id s = n"
    and l: "n + a \<le> limit s" "log_room s b" "saved s V D"
    using h by (auto simp: holds_def)
  have r: "r < length (pg_objs s)" "pid < n" using po c n by (auto simp: pool_ok_def)
  have same [simp]: "cached ?s = cached s" "is_dirty ?s = is_dirty s" "disk_node ?s = disk_node s"
    by (simp_all add: cached_def is_dirty_def disk_node_def fun_eq_iff cong: option.case_cong)
  have other: "q = pid" if "cached s q = Some r" for q
    using po c that by (auto simp: pool_ok_def page_ok_def)
  have "pool_ok ?s"
    unfolding pool_ok_def
  proof (intro conjI allI impI)
    fix q r' assume q: "cached ?s q = Some r'"
    then have q': "cached s q = Some r'" by (simp only: same)
    show "page_ok (pg_order ?s) q (pg_objs ?s ! r')"
    proof (cases "r' = r")
      case True
      then have "q = pid" using other q' by blast
      then show ?thesis using True pg r(1) by simp
    next
      case False
      then show ?thesis using po q' by (simp add: pool_ok_def)
    qed
    show "q < pg_next_id ?s" "r' < length (pg_objs ?s)" using po q' by (simp_all add: pool_ok_def)
  next
    show "pool_wf (pg_pool ?s)" using po by (simp add: pool_ok_def)
  qed
  moreover have "V(pid \<mapsto> node_of pg) \<subseteq>\<^sub>m nview ?s"
    unfolding map_le_def
  proof
    fix q assume "q \<in> dom (V(pid \<mapsto> node_of pg))"
    show "(V(pid \<mapsto> node_of pg)) q = nview ?s q"
    proof (cases "q = pid")
      case True
      then show ?thesis using r c by (simp add: nview_def)
    next
      case False
      then have "V q = nview s q" using V(1) \<open>q \<in> _\<close> by (simp add: map_le_def)
      moreover have "cached s q \<noteq> Some r" using False other by blast
      then have "nview ?s q = nview s q" by (auto simp add: nview_def split: option.split)
      ultimately show ?thesis using False by simp
    qed
  qed
  moreover have "saved ?s (V(pid \<mapsto> node_of pg)) (if V pid = Some (node_of pg) then D else insert pid D)"
    using l(3) by (auto simp: saved_def)
  moreover have "limit ?s = limit s" "log_room ?s b = log_room s b" by (simp_all add: limit_def log_room_def)
  ultimately have "holds ?s (V(pid \<mapsto> node_of pg)) n a b (if V pid = Some (node_of pg) then D else insert pid D)"
    using V(2) n l r by (simp add: holds_def)
  moreover have "step s ?s" by (simp add: step_def)
  ultimately show ?thesis using Q by (simp add: set_obj_def runs_simps)
qed

lemma set_obj_law:
  assumes "holds s V n a b D" "cached s pid = Some r" "page_ok (pg_order s) pid pg"
    and Q: "\<And>s'. step s s' \<Longrightarrow> holds s' (V(pid \<mapsto> node_of pg)) n a b (insert pid D) \<Longrightarrow> Q () s'"
  shows "runs (set_obj r pg) s Q"
proof (rule set_obj_law_gen [OF assms(1-3)])
  fix s' assume "step s s'"
    and h: "holds s' (V(pid \<mapsto> node_of pg)) n a b (if V pid = Some (node_of pg) then D else insert pid D)"
  have "holds s' (V(pid \<mapsto> node_of pg)) n a b (insert pid D)"
    by (rule holds_weaken [OF h]) auto
  then show "Q () s'" using Q \<open>step s s'\<close> by blast
qed

subsection \<open>The pool\<close>

lemma pool_size_card: "pool_wf p \<Longrightarrow> pool_size p = card (dom (pool_frame p))"
proof -
  assume wf: "pool_wf p"
  have "dom (pool_frame p) = set (od_keys (bp_frames p))"
    by (simp add: pool_frame_def dom_map_of_conv_image_fst od_keys_def)
  with wf show ?thesis by (simp add: pool_wf_def distinct_card pool_size_def) (simp add: od_keys_def)
qed

lemma pool_room:
  assumes "pool_ok s" "cached s pid = None" "pid < n" "pg_next_id s \<le> n" "n \<le> bp_capacity (pg_pool s)"
  shows "pool_size (pg_pool s) < bp_capacity (pg_pool s)"
proof -
  have "dom (pool_frame (pg_pool s)) \<subseteq> {..<n} - {pid}"
    using assms(1,2,4) by (fastforce simp: pool_ok_def cached_def)
  then have "card (dom (pool_frame (pg_pool s))) \<le> card ({..<n} - {pid})" by (intro card_mono) auto
  then show ?thesis using assms(1,3,5) by (simp add: pool_ok_def pool_size_card)
qed

text \<open>A pool operation that neither evicts nor installs a page.\<close>

lemma pool_same:
  assumes h: "holds s V n a b D"
    and p: "pool_wf p" "bp_capacity p = bp_capacity (pg_pool s)"
      "\<And>q. map_option fr_page (pool_frame p q) = cached s q"
      "\<And>q. is_dirty s q \<Longrightarrow> \<exists>f. pool_frame p q = Some f \<and> fr_dirty f"
  shows "step s (s\<lparr>pg_pool := p\<rparr>) \<and> holds (s\<lparr>pg_pool := p\<rparr>) V n a b D"
proof -
  let ?s = "s\<lparr>pg_pool := p\<rparr>"
  have c: "cached ?s = cached s" using p(3) by (simp add: cached_def fun_eq_iff)
  have d: "is_dirty ?s q" if "is_dirty s q" for q using p(4) [OF that] by (simp add: is_dirty_def)
  have k: "disk_node ?s = disk_node s" by (simp add: disk_node_def fun_eq_iff cong: option.case_cong)
  have v: "nview ?s = nview s" using c k by (simp add: nview_def fun_eq_iff cong: option.case_cong)
  have "saved s V D" using h by (simp add: holds_def)
  then have sv: "saved ?s V D" by (rule saved_mono) (use d k in simp_all)
  have "step s ?s" using c d by (simp add: step_def)
  moreover have "holds ?s V n a b D"
    using h p(1,2) sv c v by (auto simp add: holds_def pool_ok_def limit_def log_room_def)
  ultimately show ?thesis by blast
qed

lemma cached_pool_get: "pool_ok s \<Longrightarrow> fst (pool_get pid (pg_pool s)) = cached s pid"
  by (simp add: pool_ok_def pool_get_ok cached_def)

lemma pool_get_same:
  assumes "holds s V n a b D"
  shows "step s (s\<lparr>pg_pool := snd (pool_get pid (pg_pool s))\<rparr>) \<and>
    holds (s\<lparr>pg_pool := snd (pool_get pid (pg_pool s))\<rparr>) V n a b D"
  using assms by (intro pool_same) (auto simp: holds_def pool_ok_def pool_get_ok cached_def is_dirty_def)

text \<open>A page that enters a pool with room.\<close>

lemma pool_put_new:
  assumes po: "pool_ok s" and c: "cached s pid = None" "pool_size (pg_pool s) < bp_capacity (pg_pool s)"
    and pg: "pg_id pg = pid"
    and Q: "\<And>p. pool_wf p \<Longrightarrow> bp_capacity p = bp_capacity (pg_pool s) \<Longrightarrow>
      pool_frame p = (pool_frame (pg_pool s))(pid \<mapsto> \<lparr>fr_page = length (pg_objs s), fr_dirty = False, fr_pins = 0\<rparr>) \<Longrightarrow>
      Q () (s\<lparr>pg_objs := pg_objs s @ [pg], pg_pool := p\<rparr>)"
  shows "runs (pg_pool_put (length (pg_objs s)) False) (s\<lparr>pg_objs := pg_objs s @ [pg]\<rparr>) Q"
proof -
  have "pool_frame (pg_pool s) pid = None" using c(1) by (simp add: cached_def)
  moreover have "\<not> pool_evicts pid (pg_pool s)" using c(2) by (simp add: pool_evicts_def)
  ultimately obtain p where p: "pool_put pid (length (pg_objs s)) False (pg_pool s) = ([], p)" "pool_wf p"
    "pool_frame p = (pool_frame (pg_pool s))(pid \<mapsto> \<lparr>fr_page = length (pg_objs s), fr_dirty = False, fr_pins = 0\<rparr>)"
    "bp_capacity p = bp_capacity (pg_pool s)"
    using pool_put_room [of "pg_pool s" pid "length (pg_objs s)" False] po by (auto simp: pool_ok_def)
  then have "runs (pg_pool_put (length (pg_objs s)) False) (s\<lparr>pg_objs := pg_objs s @ [pg]\<rparr>)
      (\<lambda>_ s'. s' = s\<lparr>pg_objs := pg_objs s @ [pg], pg_pool := p\<rparr>)"
    using pg by (simp add: pg_pool_put_def obj_def runs_def bnd_def)
  then show ?thesis by (rule runs_weaken) (simp add: Q [OF p(2,4,3)])
qed

lemma install_view:
  assumes po: "pool_ok s" and c: "cached s pid = None" and pg: "page_ok (pg_order s) pid pg" and n: "pid < n" "pg_next_id s \<le> n"
    and p: "pool_wf p" "pool_frame p = (pool_frame (pg_pool s))(pid \<mapsto> \<lparr>fr_page = length (pg_objs s), fr_dirty = False, fr_pins = 0\<rparr>)"
    and s': "pg_objs s' = pg_objs s @ [pg]" "pg_pool s' = p" "pg_order s' = pg_order s" "pg_next_id s' = n"
  shows "pool_ok s'" "cached s' = (cached s)(pid \<mapsto> length (pg_objs s))" "is_dirty s' = is_dirty s"
    "nview s' q = (if q = pid then Some (node_of pg) else if cached s q = None then disk_node s' q else nview s q)"
proof -
  show cd: "cached s' = (cached s)(pid \<mapsto> length (pg_objs s))"
    using p(2) s'(2) by (simp add: cached_def fun_eq_iff)
  have none: "pool_frame (pg_pool s) pid = None" using c by (simp add: cached_def)
  then show "is_dirty s' = is_dirty s" using p(2) s'(2) by (simp add: is_dirty_def fun_eq_iff)
  show "pool_ok s'"
    unfolding pool_ok_def cd
  proof (intro conjI allI impI)
    show "pool_wf (pg_pool s')" using p(1) s'(2) by simp
    fix q r assume q: "((cached s)(pid \<mapsto> length (pg_objs s))) q = Some r"
    show "q < pg_next_id s'" "r < length (pg_objs s')" "page_ok (pg_order s') q (pg_objs s' ! r)"
      using q po pg n s' by (cases "q = pid"; force simp: pool_ok_def nth_append)+
  qed
  have "r < length (pg_objs s)" if "cached s q = Some r" for q r using that po by (simp add: pool_ok_def)
  then show "nview s' q = (if q = pid then Some (node_of pg) else if cached s q = None then disk_node s' q else nview s q)"
    by (auto simp: nview_def cd s'(1) nth_append split: option.split)
qed

theorem get_page_law:
  assumes h: "holds s V n a b D" and v: "V pid = Some nd"
    and Q: "\<And>r s'. step s s' \<Longrightarrow> holds s' V n a b D \<Longrightarrow> cached s' pid = Some r \<Longrightarrow> Q r s'"
  shows "runs (get_page pid) s Q"
proof (cases "cached s pid")
  case (Some r)
  let ?s = "s\<lparr>pg_pool := snd (pool_get pid (pg_pool s))\<rparr>"
  have po: "pool_ok s" using h by (simp add: holds_def)
  have g: "pool_get pid (pg_pool s) = (Some r, snd (pool_get pid (pg_pool s)))"
    using cached_pool_get [OF po, of pid] Some by (metis prod.collapse)
  have "runs (get_page pid) s (\<lambda>x s'. x = r \<and> s' = ?s)"
    unfolding get_page_def runs_def bnd_def by (subst g) simp
  moreover have "Q r ?s"
    using pool_get_same [OF h, of pid] step_cached [OF _ Some] by (intro Q) auto
  ultimately show ?thesis by (auto simp: runs_def)
next
  case None
  have po: "pool_ok s" and V: "V \<subseteq>\<^sub>m nview s" "dom V \<subseteq> {..<n}" and n: "pg_next_id s = n" "n + a \<le> limit s"
    and sv: "saved s V D" "log_room s b"
    using h by (auto simp: holds_def)
  have pid: "pid < n" "disk_node s pid = Some nd"
    using holds_view [OF h v] None by (simp_all add: nview_def)
  then obtain f pg where f: "pg_file s = Some f" "parse_page (pg_order s) pid (block pid f) = Inr pg"
    "page_ok (pg_order s) pid pg" "node_of pg = nd"
    by (auto simp: disk_node_def file_node_def split: option.splits sum.splits if_splits)
  have room: "pool_size (pg_pool s) < bp_capacity (pg_pool s)"
    using pool_room [OF po None pid(1)] n by (simp add: limit_def)
  have g: "pool_get pid (pg_pool s) = (None, pg_pool s)"
    using None by (simp add: cached_def pool_frame_def pool_get_def)
  show ?thesis
    unfolding get_page_def runs_bnd
  proof (rule runs_I)
    show "(case pool_get pid (pg_pool s) of (r, p) \<Rightarrow> (Inr r, s\<lparr>pg_pool := p\<rparr>)) = (Inr None, s)"
      by (simp add: g)
    have "runs (pg_pool_put (length (pg_objs s)) False) (s\<lparr>pg_objs := pg_objs s @ [pg]\<rparr>)
        (\<lambda>_ s'. Q (length (pg_objs s)) s')"
    proof (rule pool_put_new [OF po None room])
      show "pg_id pg = pid" using f(3) by (simp add: page_ok_def)
      fix p assume p: "pool_wf p" "bp_capacity p = bp_capacity (pg_pool s)"
        "pool_frame p = (pool_frame (pg_pool s))(pid \<mapsto> \<lparr>fr_page = length (pg_objs s), fr_dirty = False, fr_pins = 0\<rparr>)"
      let ?s = "s\<lparr>pg_objs := pg_objs s @ [pg], pg_pool := p\<rparr>"
      have "pg_next_id s \<le> n" using n(1) by simp
      note iv = install_view [OF po None f(3) pid(1) this p(1,3), of ?s, simplified]
      have dk: "disk_node ?s = disk_node s" by (simp add: disk_node_def fun_eq_iff cong: option.case_cong)
      have "nview ?s = nview s"
        using iv(4) n(1) None pid(2) f(4) dk by (auto simp: fun_eq_iff nview_def)
      moreover have "saved ?s V D" using sv(1) iv(3) n(1) dk by (simp add: saved_def)
      ultimately have "holds ?s V n a b D"
        using V n sv(2) iv(1) p(2) by (simp add: holds_def limit_def log_room_def)
      moreover have "step s ?s" using iv(2,3) n(1) None by (auto simp: step_def map_le_def)
      ultimately show "Q (length (pg_objs s)) ?s" using iv(2) n(1) by (intro Q) auto
    qed
    then obtain s' where "pg_pool_put (length (pg_objs s)) False (s\<lparr>pg_objs := pg_objs s @ [pg]\<rparr>) = (Inr (), s')"
      "Q (length (pg_objs s)) s'"
      by (auto simp: runs_def)
    then show "runs (case None of Some r \<Rightarrow> ret r
        | None \<Rightarrow> bnd (gets pg_file) (\<lambda>f. if f \<noteq> None then bnd (read_page_from_disk pid) (\<lambda>pg. bnd (alloc_obj pg)
            (\<lambda>r. bnd (pg_pool_put r False) (\<lambda>_. ret r))) else throw KeyError)) s Q"
      using f by (simp add: runs_simps read_page_from_disk_def file_get_def alloc_obj_def block_def runs_def bnd_def)
  qed
qed

subsection \<open>New pages\<close>

lemma file_put_run: "pg_file s = Some f \<Longrightarrow> file_put off v s = (Inr (), s\<lparr>pg_file := Some (file_write off v f)\<rparr>)"
  by (simp add: file_put_def)

lemma write_page_run:
  assumes "pg_file s = Some f" "page_fits (pg_objs s ! r)"
  shows "write_page_to_disk r s =
    (Inr (), s\<lparr>pg_file := Some (file_write (data_offset (pg_id (pg_objs s ! r))) (page_bytes (pg_objs s ! r)) f)\<rparr>)"
  using assms page_to_bytes_ok by (simp add: write_page_to_disk_def if_file_def obj_def bnd_def file_put_def)

theorem new_page_law:
  assumes h: "holds s V n (Suc a) b D" and pg: "page_ok (pg_order s) n pg" "node_saves (node_of pg)"
    and Q: "\<And>r s'. step s s' \<Longrightarrow> holds s' (V(n \<mapsto> node_of pg)) (Suc n) a b D \<Longrightarrow> cached s' n = Some r \<Longrightarrow> Q r s'"
  shows "runs (new_page pg) s Q"
proof -
  let ?r = "length (pg_objs s)"
  have po: "pool_ok s" and V: "V \<subseteq>\<^sub>m nview s" "dom V \<subseteq> {..<n}" and n: "pg_next_id s = n" "n + Suc a \<le> limit s"
    and sv: "saved s V D" "log_room s b"
    using h by (auto simp: holds_def)
  have none: "cached s n = None"
  proof (rule ccontr)
    assume "cached s n \<noteq> None"
    then show False using po n(1) by (auto simp: pool_ok_def)
  qed
  have room: "pool_size (pg_pool s) < bp_capacity (pg_pool s)"
    using pool_room [OF po none, of "Suc n"] n by (simp add: limit_def)
  have "runs (pg_pool_put ?r False) (s\<lparr>pg_objs := pg_objs s @ [pg]\<rparr>)
      (\<lambda>_ s'. runs (bnd (modify (\<lambda>s. s\<lparr>pg_next_id := pg_next_id s + 1\<rparr>)) (\<lambda>_.
        bnd (if_file (write_page_to_disk ?r)) (\<lambda>_. ret ?r))) s' Q)"
  proof (rule pool_put_new [OF po none room])
    show "pg_id pg = n" using pg by (simp add: page_ok_def)
    fix p assume p: "pool_wf p" "bp_capacity p = bp_capacity (pg_pool s)"
      "pool_frame p = (pool_frame (pg_pool s))(n \<mapsto> \<lparr>fr_page = ?r, fr_dirty = False, fr_pins = 0\<rparr>)"
    let ?s = "s\<lparr>pg_objs := pg_objs s @ [pg], pg_pool := p, pg_next_id := Suc n\<rparr>"
    have fin: "Q ?r s'" if s': "pg_objs s' = pg_objs s @ [pg]" "pg_pool s' = p" "pg_order s' = pg_order s" "pg_next_id s' = Suc n"
      and same: "pager.more s' = pager.more s" "pg_root s' = pg_root s" "pg_wal s' = pg_wal s"
        "pg_txn_writing s' = pg_txn_writing s" "pg_deferred s' = pg_deferred s" "pg_next_txn_id s' = pg_next_txn_id s"
      and fl: "pg_file s' = map_option (file_write (data_offset n) (page_bytes pg)) (pg_file s)" for s'
    proof (rule Q)
      have "n < Suc n" "pg_next_id s \<le> Suc n" using n(1) by simp_all
      note iv = install_view [OF po none pg(1) this p(1,3) s']
      have keep: "disk_node s' q = Some nd" if "disk_node s q = Some nd" "q \<noteq> n" for q nd
        using that fl s'(3) page_to_bytes_ok pg(1)
        by (auto simp: disk_node_def page_ok_def intro: file_node_write_other split: option.splits)
      have vn: "V n = None" using V(2) by auto
      have "V(n \<mapsto> node_of pg) \<subseteq>\<^sub>m nview s'"
        unfolding map_le_def
      proof
        fix q assume q: "q \<in> dom (V(n \<mapsto> node_of pg))"
        show "(V(n \<mapsto> node_of pg)) q = nview s' q"
        proof (cases "q = n")
          case True
          then show ?thesis using iv(4) [of q] by simp
        next
          case False
          then have qV: "V q = nview s q" "V q \<noteq> None" using V(1) q by (auto simp: map_le_def dom_def)
          then show ?thesis
            using False iv(4) [of q] keep [of q] by (cases "cached s q") (auto simp: nview_def)
        qed
      qed
      moreover have "saved s' (V(n \<mapsto> node_of pg)) D"
      proof -
        have "disk_node s' n = Some (node_of pg)" if "pg_file s' \<noteq> None"
          using that fl s'(3) file_node_write [OF pg] by (auto simp: disk_node_def)
        moreover have "disk_node s' q = Some nd"
          if "V q = Some nd" "q \<notin> D" "\<not> is_dirty s' q" "pg_file s' \<noteq> None" "q \<noteq> n" for q nd
          using that sv(1) fl iv(3) by (intro keep) (auto simp: saved_def)
        ultimately show ?thesis by (auto simp: saved_def)
      qed
      moreover have "dom (V(n \<mapsto> node_of pg)) \<subseteq> {..<Suc n}" using V(2) by auto
      moreover have "Suc n + a \<le> limit s'" using n(2) p(2) s'(2) by (simp add: limit_def)
      moreover have "log_room s' b" using sv(2) same by (simp add: log_room_def)
      ultimately show "holds s' (V(n \<mapsto> node_of pg)) (Suc n) a b D"
        using iv(1) s'(4) by (simp add: holds_def)
      show "cached s' n = Some ?r" using iv(2) by simp
      show "step s s'" using iv(2,3) same s'(3) fl none by (auto simp: step_def map_le_def)
    qed
    show "runs (bnd (modify (\<lambda>s. s\<lparr>pg_next_id := pg_next_id s + 1\<rparr>)) (\<lambda>_.
        bnd (if_file (write_page_to_disk ?r)) (\<lambda>_. ret ?r))) (s\<lparr>pg_objs := pg_objs s @ [pg], pg_pool := p\<rparr>) Q"
    proof (cases "pg_file s")
      case None
      then show ?thesis using n(1) by (simp add: runs_simps if_file_def fin)
    next
      case (Some f)
      have id: "pg_id pg = n" using pg(1) by (simp add: page_ok_def)
      let ?s' = "?s\<lparr>pg_file := Some (file_write (data_offset n) (page_bytes pg) f)\<rparr>"
      have "write_page_to_disk ?r ?s = (Inr (), ?s')"
        using write_page_run [of ?s f ?r] Some pg(1) by (simp add: page_ok_def)
      moreover have "Q ?r ?s'" using Some by (intro fin) simp_all
      ultimately show ?thesis using Some n(1) by (simp add: runs_simps if_file_def) (simp add: runs_def)
    qed
  qed
  then show ?thesis
    by (simp add: new_page_def runs_simps) (simp add: alloc_obj_def runs_def)
qed

lemma index_init_ok: "page_ok m pid (IndexP (index_init pid m)) \<and> node_of (IndexP (index_init pid m)) = IN [] []"
  by (simp add: page_ok_def index_init_def index_packs_def)

lemma body_Nil_ok:
  "page_ok m pid (LeafP \<lparr>lf_id = pid, lf_lsn = 0, lf_next = None, lf_max_keys = m, lf_page = body_of []\<rparr>) \<and>
   node_of (LeafP \<lparr>lf_id = pid, lf_lsn = 0, lf_next = None, lf_max_keys = m, lf_page = body_of []\<rparr>) = LN [] None"
proof -
  let ?l = "\<lparr>lf_id = pid, lf_lsn = 0, lf_next = None, lf_max_keys = m, lf_page = body_of []\<rparr>"
  have "leaf_wf (?l\<lparr>lf_page := body_of []\<rparr>)" "lf_es (?l\<lparr>lf_page := body_of []\<rparr>) = []"
    by (simp_all only: leaf_wf_body lf_es_body es_ok_Nil)
  then have "leaf_wf ?l" "lf_es ?l = []" by simp_all
  then show ?thesis by (simp add: page_ok_def leaf_fits_def)
qed

theorem new_leaf_law:
  assumes h: "holds s V n (Suc a) b D"
    and Q: "\<And>r s'. step s s' \<Longrightarrow> holds s' (V(n \<mapsto> LN [] None)) (Suc n) a b D \<Longrightarrow> cached s' n = Some r \<Longrightarrow> Q r s'"
  shows "runs new_leaf_page s Q"
proof -
  have n: "pg_next_id s = n" using h by (simp add: holds_def)
  show ?thesis
    using body_Nil_ok [of "pg_order s" n] Q n
    by (simp add: new_leaf_page_def runs_simps leaf_init_ok) (intro new_page_law [OF h], auto)
qed

theorem new_index_law:
  assumes h: "holds s V n (Suc a) b D"
    and Q: "\<And>r s'. step s s' \<Longrightarrow> holds s' (V(n \<mapsto> IN [] [])) (Suc n) a b D \<Longrightarrow> cached s' n = Some r \<Longrightarrow> Q r s'"
  shows "runs new_index_page s Q"
proof -
  have n: "pg_next_id s = n" using h by (simp add: holds_def)
  show ?thesis
    using index_init_ok [of "pg_order s" n] Q n
    by (simp add: new_index_page_def runs_simps) (intro new_page_law [OF h], auto)
qed

subsection \<open>Logging\<close>

lemma wal_logged:
  assumes h: "holds s V n a (Suc b) D" and w: "pg_wal s = Some w"
  shows "step s (s\<lparr>pg_wal := Some (logs r w)\<rparr>) \<and> holds (s\<lparr>pg_wal := Some (logs r w)\<rparr>) V n a b D"
proof -
  let ?s = "s\<lparr>pg_wal := Some (logs r w)\<rparr>"
  have c: "cached ?s = cached s" "is_dirty ?s = is_dirty s" "disk_node ?s = disk_node s"
    by (simp_all add: cached_def is_dirty_def disk_node_def fun_eq_iff cong: option.case_cong)
  then have v: "nview ?s = nview s" by (simp add: nview_def fun_eq_iff cong: option.case_cong)
  have "saved s V D" using h by (simp add: holds_def)
  then have sv: "saved ?s V D" by (rule saved_mono) (use c in simp_all)
  have "log_room ?s b" using h w by (fastforce simp: holds_def log_room_def logs_def)
  then have "holds ?s V n a b D"
    using h sv c v by (auto simp add: holds_def pool_ok_def limit_def)
  moreover have "step s ?s" using c w by (simp add: step_def)
  ultimately show ?thesis by blast
qed

theorem mark_dirty_law:
  assumes h: "holds s V n a (Suc b) D" and c: "cached s pid = Some r" and v: "V pid = Some nd"
    and Q: "\<And>s'. step s s' \<Longrightarrow> holds s' V n a b (D - {pid}) \<Longrightarrow> is_dirty s' pid \<Longrightarrow> Q () s'"
  shows "runs (pg_mark_dirty r) s Q"
proof -
  have log: "\<exists>s1. (if_wal (bnd (lift_res (page_to_bytes pg)) (\<lambda>b.
        bnd (run_wal (append_page_write (pg_id pg) b)) (\<lambda>lsn. set_obj r (set_page_lsn lsn pg))))) s = (Inr (), s1) \<and>
      step s s1 \<and> holds s1 V n a b (insert pid D)"
    if pg: "page_ok (pg_order s) pid pg" "node_of pg = nd" for pg
  proof (cases "pg_wal s")
    case None
    then show ?thesis
      using holds_weaken [OF h, of V a b "insert pid D"] by (auto simp: if_wal_def bnd_def)
  next
    case (Some w)
    have id: "pg_id pg = pid" "page_fits pg" using pg by (simp_all add: page_ok_def)
    have "pid < n" "n + a \<le> limit s" using holds_view [OF h v] h by (auto simp: holds_def)
    then have "rec_ok (PageWrite pid (page_bytes pg))"
      using page_to_bytes_ok [OF id(2)] by (simp add: limit_def NO_NEXT_def page_consts)
    moreover have lsn: "w_next_lsn w < 2 ^ 64" using h Some by (simp add: holds_def log_room_def)
    ultimately have app: "append_page_write pid (page_bytes pg) w = (Inr (w_next_lsn w), logs (PageWrite pid (page_bytes pg)) w)"
      by (simp add: append_ok)
    let ?s = "s\<lparr>pg_wal := Some (logs (PageWrite pid (page_bytes pg)) w)\<rparr>"
    have st: "step s ?s" "holds ?s V n a b D" using wal_logged [OF h Some] by blast+
    have c': "cached ?s pid = Some r" using step_cached [OF st(1) c] .
    have ok: "page_ok (pg_order ?s) pid (set_page_lsn (w_next_lsn w) pg)" using page_ok_lsn [OF pg(1) lsn] by simp
    have "runs (set_obj r (set_page_lsn (w_next_lsn w) pg)) ?s (\<lambda>_ s1. step s s1 \<and> holds s1 V n a b (insert pid D))"
    proof (rule set_obj_law [OF st(2) c' ok])
      fix s1 assume "step ?s s1" "holds s1 (V(pid \<mapsto> node_of (set_page_lsn (w_next_lsn w) pg))) n a b (insert pid D)"
      moreover have "V(pid \<mapsto> node_of (set_page_lsn (w_next_lsn w) pg)) = V" using pg v by (simp add: fun_upd_idem)
      ultimately show "step s s1 \<and> holds s1 V n a b (insert pid D)" using step_trans [OF st(1)] by simp
    qed
    then show ?thesis
      using Some id app page_to_bytes_ok [OF id(2)]
      by (auto simp: if_wal_def bnd_def run_wal_def runs_def)
  qed
  have mark: "Q () (s1\<lparr>pg_pool := pool_mark_dirty pid (pg_pool s1)\<rparr>) \<and> pool_contains pid (pg_pool s1)"
    if s1: "step s s1" "holds s1 V n a b (insert pid D)" for s1
  proof -
    let ?p = "pool_mark_dirty pid (pg_pool s1)"
    have c1: "cached s1 pid = Some r" by (rule step_cached [OF s1(1) c])
    have st: "step s1 (s1\<lparr>pg_pool := ?p\<rparr>) \<and> holds (s1\<lparr>pg_pool := ?p\<rparr>) V n a b (insert pid D)"
      using s1(2)
      by (intro pool_same) (auto simp: holds_def pool_ok_def pool_dirty_flag_ok cached_def is_dirty_def
          option.map_comp o_def)
    have d: "is_dirty (s1\<lparr>pg_pool := ?p\<rparr>) pid"
      using c1 by (auto simp: is_dirty_def cached_def pool_dirty_flag_ok)
    have "holds (s1\<lparr>pg_pool := ?p\<rparr>) V n a b (D - {pid})"
      using holds_dirty [OF conjunct2 [OF st] d] by simp
    then have "Q () (s1\<lparr>pg_pool := ?p\<rparr>)"
      using step_trans [OF s1(1)] st d by (intro Q) auto
    then show ?thesis using c1 by (auto simp: pool_contains_frame cached_def)
  qed
  show ?thesis
    unfolding pg_mark_dirty_def runs_bnd
  proof (rule obj_law [OF h c v])
    fix pg assume pg: "page_ok (pg_order s) pid pg" "node_of pg = nd"
    obtain s1 where s1: "(if_wal (bnd (lift_res (page_to_bytes pg)) (\<lambda>b.
        bnd (run_wal (append_page_write (pg_id pg) b)) (\<lambda>lsn. set_obj r (set_page_lsn lsn pg))))) s = (Inr (), s1)"
      "step s s1" "holds s1 V n a b (insert pid D)" using log [OF pg] by blast
    show "runs (if_wal (bnd (lift_res (page_to_bytes pg)) (\<lambda>b.
        bnd (run_wal (append_page_write (pg_id pg) b)) (\<lambda>lsn. set_obj r (set_page_lsn lsn pg))))) s
      (\<lambda>_ s'. runs (gets (\<lambda>s. pool_contains (pg_id pg) (pg_pool s))) s'
        (\<lambda>c s'. runs (if \<not> c then pg_pool_put r True else upd_pool (pool_mark_dirty (pg_id pg))) s' Q))"
      by (rule runs_I, rule s1(1))
        (use mark [OF s1(2,3)] pg in \<open>simp add: runs_simps upd_pool_def page_ok_def\<close>)
  qed
qed

theorem log_meta_law:
  assumes h: "holds s V n a (Suc b) D" and root: "\<And>r. pg_root s = Some r \<Longrightarrow> r < NO_NEXT"
    and Q: "\<And>s'. step s s' \<Longrightarrow> holds s' V n a b D \<Longrightarrow> Q () s'"
  shows "runs log_meta_update s Q"
proof (cases "pg_wal s")
  case None
  then show ?thesis
    using Q [of s] holds_weaken [OF h, of V a b D] by (simp add: log_meta_update_def if_wal_def runs_simps)
next
  case (Some w)
  have "rec_ok (MetaUpdate (pg_root s))" using root by (simp add: NO_NEXT_def NO_ROOT_def)
  moreover have "w_next_lsn w < 2 ^ 64" using h Some by (simp add: holds_def log_room_def)
  ultimately have "append_meta_update (pg_root s) w = (Inr (w_next_lsn w), logs (MetaUpdate (pg_root s)) w)"
    by (simp add: append_ok)
  then show ?thesis
    using Some Q wal_logged [OF h Some]
    by (simp add: log_meta_update_def if_wal_def runs_simps) (simp add: runs_def run_wal_def)
qed

end
