(* ===== verification/Node_Laws.thy ===== *)
theory Node_Laws
  imports Pager_Laws
begin

section \<open>Page objects as nodes\<close>

text \<open>
  The methods of leaf and index pages, called through references on pages of the pager, as updates of
  the map from page ids to nodes. These laws are all that the proofs about the tree use of pages.
\<close>

fun node_fits :: "node \<Rightarrow> bool" where
  "node_fits (LN es nx) \<longleftrightarrow> es_ok es \<and> (\<forall>q. nx = Some q \<longrightarrow> q < NO_NEXT)"
| "node_fits (IN ks cs) \<longleftrightarrow> 4 * length ks + 4 * length cs \<le> 4083 \<and> (\<forall>k \<in> set ks. key_ok k) \<and> (\<forall>c \<in> set cs. c < NO_NEXT)"

lemma NO_NEXT_32: "c < NO_NEXT \<Longrightarrow> c < 2 ^ 32"
  by (simp add: NO_NEXT_def)

lemma as_leaf_law:
  assumes "holds s V n a b D" "cached s pid = Some r" "V pid = Some (LN es nx)"
    and "\<And>l. leaf_fits l \<Longrightarrow> lf_id l = pid \<Longrightarrow> lf_max_keys l = pg_order s \<Longrightarrow> lf_es l = es \<Longrightarrow> lf_next l = nx \<Longrightarrow> Q l s"
  shows "runs (as_leaf r) s Q"
  unfolding as_leaf_def runs_bnd
proof (rule obj_law [OF assms(1-3)])
  fix pg assume "page_ok (pg_order s) pid pg" "node_of pg = LN es nx"
  then show "runs (case pg of LeafP l \<Rightarrow> ret l | IndexP _ \<Rightarrow> throw AttributeError) s Q"
    using assms(4) by (cases pg) (auto simp: runs_simps page_ok_def)
qed

lemma as_index_law:
  assumes "holds s V n a b D" "cached s pid = Some r" "V pid = Some (IN ks cs)"
    and "\<And>p. index_packs p \<Longrightarrow> ix_id p = pid \<Longrightarrow> ix_max_keys p = pg_order s \<Longrightarrow> ix_keys p = ks \<Longrightarrow> ix_children p = cs \<Longrightarrow> Q p s"
  shows "runs (as_index r) s Q"
  unfolding as_index_def runs_bnd
proof (rule obj_law [OF assms(1-3)])
  fix pg assume "page_ok (pg_order s) pid pg" "node_of pg = IN ks cs"
  then show "runs (case pg of LeafP l \<Rightarrow> throw AttributeError | IndexP p \<Rightarrow> ret p) s Q"
    using assms(4) by (cases pg) (auto simp: runs_simps page_ok_def)
qed

lemma leaf_get_law:
  assumes "holds s V n a b D" "cached s pid = Some r" "V pid = Some (LN es nx)"
    and "\<And>l. leaf_fits l \<Longrightarrow> lf_max_keys l = pg_order s \<Longrightarrow> lf_es l = es \<Longrightarrow> lf_next l = nx \<Longrightarrow> f l = Inr (x l)"
    and "\<And>l. leaf_fits l \<Longrightarrow> lf_max_keys l = pg_order s \<Longrightarrow> lf_es l = es \<Longrightarrow> lf_next l = nx \<Longrightarrow> Q (x l) s"
  shows "runs (leaf_get r f) s Q"
  unfolding leaf_get_def runs_bnd
  by (rule as_leaf_law [OF assms(1-3)]) (use assms(4,5) in \<open>simp add: runs_simps\<close>)

lemma leaf_wf_of_fits: "leaf_fits l \<Longrightarrow> leaf_wf l"
  by (simp add: leaf_fits_def)

lemma leaf_entries_law:
  assumes "holds s V n a b D" "cached s pid = Some r" "V pid = Some (LN es nx)" "Q es s"
  shows "runs (leaf_get r leaf_entries) s Q"
  by (rule leaf_get_law [OF assms(1-3), where x = lf_es]) (use assms(4) leaf_wf_of_fits in auto)

lemma leaf_full_law:
  assumes "holds s V n a b D" "cached s pid = Some r" "V pid = Some (LN es nx)" "Q (pg_order s < length es) s"
  shows "runs (leaf_get r leaf_is_full) s Q"
  by (rule leaf_get_law [OF assms(1-3), where x = "\<lambda>l. lf_max_keys l < length (lf_es l)"])
    (use assms(4) leaf_wf_of_fits in auto)

lemma leaf_search_law:
  assumes "holds s V n a b D" "cached s pid = Some r" "V pid = Some (LN es nx)" "keys_sorted es" "Q (map_of es key) s"
  shows "runs (leaf_get r (\<lambda>l. leaf_search l key)) s Q"
  by (rule leaf_get_law [OF assms(1-3), where x = "\<lambda>l. map_of (lf_es l) key"])
    (use assms(4,5) leaf_wf_of_fits leaf_search_ok in auto)

lemma leaf_act_law:
  assumes h: "holds s V n a b D" and c: "cached s pid = Some r" and v: "V pid = Some (LN es nx)"
    and m: "\<And>l. leaf_fits l \<Longrightarrow> lf_es l = es \<Longrightarrow> lf_next l = nx \<Longrightarrow>
      \<exists>l'. m l = (Inr x, l') \<and> leaf_fits l' \<and> lf_id l' = lf_id l \<and> lf_max_keys l' = lf_max_keys l \<and> lf_es l' = es' \<and> lf_next l' = nx'"
    and Q: "\<And>s'. step s s' \<Longrightarrow>
      holds s' (V(pid \<mapsto> LN es' nx')) n a b (if es' = es \<and> nx' = nx then D else insert pid D) \<Longrightarrow> Q x s'"
  shows "runs (leaf_act r m) s Q"
  unfolding leaf_act_def runs_bnd
proof (rule as_leaf_law [OF h c v])
  fix l assume l: "leaf_fits l" "lf_id l = pid" "lf_max_keys l = pg_order s" "lf_es l = es" "lf_next l = nx"
  obtain l' where l': "m l = (Inr x, l')" "leaf_fits l'" "lf_id l' = pid" "lf_max_keys l' = pg_order s"
    "lf_es l' = es'" "lf_next l' = nx'"
    using m [OF l(1,4,5)] l by auto
  have "runs (set_obj r (LeafP l')) s (\<lambda>_. Q x)"
  proof (rule set_obj_law_gen [OF h c])
    show "page_ok (pg_order s) pid (LeafP l')" using l' by (simp add: page_ok_def)
    fix s' assume "step s s'" "holds s' (V(pid \<mapsto> node_of (LeafP l'))) n a b
      (if V pid = Some (node_of (LeafP l')) then D else insert pid D)"
    moreover have "(V pid = Some (LN es' nx')) = (es' = es \<and> nx' = nx)" using v by auto
    ultimately show "Q x s'" using Q l' by simp
  qed
  then show "runs (case m l of (res, l') \<Rightarrow> bnd (set_obj r (LeafP l')) (\<lambda>_. lift_res res)) s Q"
    using l'(1) by (simp add: runs_simps)
qed

lemma leaf_body_fits:
  "leaf_fits l \<Longrightarrow> es_ok es \<Longrightarrow> leaf_fits (l\<lparr>lf_page := body_of es\<rparr>) \<and> lf_es (l\<lparr>lf_page := body_of es\<rparr>) = es"
  by (simp add: leaf_fits_def)

lemma leaf_rebuild_law:
  assumes "holds s V n a b D" "cached s pid = Some r" "V pid = Some (LN es nx)" "es_ok es'"
    and "\<And>s'. step s s' \<Longrightarrow> holds s' (V(pid \<mapsto> LN es' nx)) n a b (insert pid D) \<Longrightarrow> Q () s'"
  shows "runs (leaf_act r (leaf_rebuild es')) s Q"
proof (rule leaf_act_law [OF assms(1-3)])
  fix l assume "leaf_fits l" "lf_es l = es" "lf_next l = nx"
  then show "\<exists>l'. leaf_rebuild es' l = (Inr (), l') \<and> leaf_fits l' \<and> lf_id l' = lf_id l \<and> lf_max_keys l' = lf_max_keys l
    \<and> lf_es l' = es' \<and> lf_next l' = nx"
    using leaf_rebuild_ok [OF assms(4), of l] leaf_body_fits [of l es'] assms(4) by auto
next
  fix s' assume s': "step s s'" "holds s' (V(pid \<mapsto> LN es' nx)) n a b (if es' = es \<and> nx = nx then D else insert pid D)"
  then have "holds s' (V(pid \<mapsto> LN es' nx)) n a b (insert pid D)"
    by (intro holds_weaken [OF s'(2)]) auto
  with s' show "Q () s'" using assms(5) by blast
qed

lemma leaf_insert_law:
  assumes "holds s V n a b D" "cached s pid = Some r" "V pid = Some (LN es nx)"
    and "keys_sorted es" "es_ok (ins_sorted key rec es)"
    and "\<And>s'. step s s' \<Longrightarrow> holds s' (V(pid \<mapsto> LN (ins_sorted key rec es) nx)) n a b (insert pid D) \<Longrightarrow> Q () s'"
  shows "runs (leaf_act r (leaf_insert key rec)) s Q"
proof (rule leaf_act_law [OF assms(1-3)])
  let ?es = "ins_sorted key rec es"
  fix l assume l: "leaf_fits l" "lf_es l = es" "lf_next l = nx"
  then have "leaf_insert key rec l = (Inr (), l\<lparr>lf_page := body_of ?es\<rparr>)"
    using leaf_insert_ok [of l key rec] assms(4,5) by (simp add: leaf_fits_def)
  then show "\<exists>l'. leaf_insert key rec l = (Inr (), l') \<and> leaf_fits l' \<and> lf_id l' = lf_id l \<and> lf_max_keys l' = lf_max_keys l
    \<and> lf_es l' = ?es \<and> lf_next l' = nx"
    using leaf_body_fits [OF l(1) assms(5)] l(3) by simp
next
  let ?es = "ins_sorted key rec es"
  fix s' assume s': "step s s'" "holds s' (V(pid \<mapsto> LN ?es nx)) n a b (if ?es = es \<and> nx = nx then D else insert pid D)"
  then have "holds s' (V(pid \<mapsto> LN ?es nx)) n a b (insert pid D)"
    by (intro holds_weaken [OF s'(2)]) auto
  with s' show "Q () s'" using assms(6) by blast
qed

lemma leaf_delete_law:
  assumes "holds s V n a b D" "cached s pid = Some r" "V pid = Some (LN es nx)" "keys_sorted es"
    and "\<And>s'. step s s' \<Longrightarrow> holds s' (V(pid \<mapsto> LN (del_sorted key es) nx)) n a b (if key \<in> fst ` set es then insert pid D else D) \<Longrightarrow>
      Q (key \<in> fst ` set es) s'"
  shows "runs (leaf_act r (leaf_delete_key key)) s Q"
proof (rule leaf_act_law [OF assms(1-3)])
  let ?es = "del_sorted key es"
  fix l assume l: "leaf_fits l" "lf_es l = es" "lf_next l = nx"
  have "es_ok ?es" using l leaf_wf_es_ok [OF leaf_wf_of_fits [OF l(1)]] by simp
  then show "\<exists>l'. leaf_delete_key key l = (Inr (key \<in> fst ` set es), l') \<and> leaf_fits l' \<and> lf_id l' = lf_id l
    \<and> lf_max_keys l' = lf_max_keys l \<and> lf_es l' = ?es \<and> lf_next l' = nx"
    using leaf_delete_ok [OF leaf_wf_of_fits [OF l(1)], of key] leaf_body_fits [OF l(1), of ?es] l assms(4)
    by (cases "key \<in> fst ` set es") simp_all
next
  let ?es = "del_sorted key es"
  fix s' assume s': "step s s'" "holds s' (V(pid \<mapsto> LN ?es nx)) n a b (if ?es = es \<and> nx = nx then D else insert pid D)"
  have "holds s' (V(pid \<mapsto> LN ?es nx)) n a b (if key \<in> fst ` set es then insert pid D else D)"
    by (rule holds_weaken [OF s'(2)]) auto
  with s' show "Q (key \<in> fst ` set es) s'" using assms(5) by blast
qed

lemma leaf_next_law:
  assumes "holds s V n a b D" "cached s pid = Some r" "V pid = Some (LN es nx)" "\<And>q. nx' = Some q \<Longrightarrow> q < NO_NEXT"
    and "\<And>s'. step s s' \<Longrightarrow> holds s' (V(pid \<mapsto> LN es nx')) n a b (insert pid D) \<Longrightarrow> Q () s'"
  shows "runs (leaf_act r (modify (\<lambda>l. l\<lparr>lf_next := nx'\<rparr>))) s Q"
proof (rule leaf_act_law [OF assms(1-3)])
  fix l assume "leaf_fits l" "lf_es l = es" "lf_next l = nx"
  then show "\<exists>l'. modify (\<lambda>l. l\<lparr>lf_next := nx'\<rparr>) l = (Inr (), l') \<and> leaf_fits l' \<and> lf_id l' = lf_id l \<and> lf_max_keys l' = lf_max_keys l
    \<and> lf_es l' = es \<and> lf_next l' = nx'"
    using assms(4) by (auto simp: leaf_fits_def)
next
  fix s' assume s': "step s s'" "holds s' (V(pid \<mapsto> LN es nx')) n a b (if es = es \<and> nx' = nx then D else insert pid D)"
  have "holds s' (V(pid \<mapsto> LN es nx')) n a b (insert pid D)"
    by (rule holds_weaken [OF s'(2)]) auto
  with s' show "Q () s'" using assms(5) by blast
qed

lemma leaf_split_law:
  assumes h: "holds s V n a b D" and c: "cached s p = Some rl" "cached s q = Some rr" "p \<noteq> q"
    and v: "V p = Some (LN es nx)" "V q = Some (LN es' nx')" and es: "es \<noteq> []"
    and Q: "\<And>s'. step s s' \<Longrightarrow> holds s' (V(p \<mapsto> LN (take (length es div 2) es) (Some q), q \<mapsto> LN (drop (length es div 2) es) nx))
      n a b ({p, q} \<union> D) \<Longrightarrow> Q (fst (es ! (length es div 2))) s'"
  shows "runs (leaf_split_act rl rr) s Q"
  unfolding leaf_split_act_def runs_bnd
proof (rule as_leaf_law [OF h c(1) v(1)], rule as_leaf_law [OF h c(2) v(2)])
  fix l r assume l: "leaf_fits l" "lf_id l = p" "lf_max_keys l = pg_order s" "lf_es l = es" "lf_next l = nx"
    and r: "leaf_fits r" "lf_id r = q" "lf_max_keys r = pg_order s" "lf_es r = es'" "lf_next r = nx'"
  let ?mid = "length es div 2"
  let ?l = "l\<lparr>lf_page := body_of (take ?mid es), lf_next := Some q\<rparr>" and ?r = "r\<lparr>lf_page := body_of (drop ?mid es), lf_next := nx\<rparr>"
  have ok: "es_ok (take ?mid es)" "es_ok (drop ?mid es)"
    using leaf_wf_es_ok [OF leaf_wf_of_fits [OF l(1)]] l(4) by (simp_all add: es_ok_take es_ok_drop)
  have q: "q < NO_NEXT" using holds_view [OF h v(2)] h by (simp add: holds_def limit_def)
  have split: "leaf_split (l, r) = (Inr (fst (es ! ?mid)), (?l, ?r))"
    using leaf_split_ok [OF leaf_wf_of_fits [OF l(1)], of r] es l r by simp
  have fits: "page_ok (pg_order s) p (LeafP ?l)" "page_ok (pg_order s) q (LeafP ?r)"
    "node_of (LeafP ?l) = LN (take ?mid es) (Some q)" "node_of (LeafP ?r) = LN (drop ?mid es) nx"
    using l r ok q by (auto simp: page_ok_def leaf_fits_def)
  have "runs (set_obj rl (LeafP ?l)) s (\<lambda>_ s1. runs (set_obj rr (LeafP ?r)) s1 (\<lambda>_ s2. Q (fst (es ! ?mid)) s2))"
  proof (rule set_obj_law [OF h c(1) fits(1)])
    fix s1 assume s1: "step s s1" "holds s1 (V(p \<mapsto> node_of (LeafP ?l))) n a b (insert p D)"
    have f: "page_ok (pg_order s1) q (LeafP ?r)" using s1(1) fits(2) by (simp add: step_def)
    show "runs (set_obj rr (LeafP ?r)) s1 (\<lambda>_ s2. Q (fst (es ! ?mid)) s2)"
    proof (rule set_obj_law [OF s1(2) step_cached [OF s1(1) c(2)] f])
      fix s2 assume "step s1 s2" "holds s2 (V(p \<mapsto> node_of (LeafP ?l), q \<mapsto> node_of (LeafP ?r))) n a b (insert q (insert p D))"
      then show "Q (fst (es ! ?mid)) s2"
        using step_trans [OF s1(1)] fits(3,4) by (intro Q) (auto simp: insert_commute)
    qed
  qed
  then show "runs (case leaf_split (l, r) of (res, l', r') \<Rightarrow>
      bnd (set_obj rl (LeafP l')) (\<lambda>_. bnd (set_obj rr (LeafP r')) (\<lambda>_. lift_res res))) s Q"
    by (simp add: split runs_simps)
qed

lemma upd_index_law:
  assumes h: "holds s V n a b D" and c: "cached s pid = Some r" and v: "V pid = Some (IN ks cs)"
    and f: "\<And>p. ix_id (f p) = ix_id p \<and> ix_lsn (f p) = ix_lsn p \<and> ix_max_keys (f p) = ix_max_keys p"
      "\<And>p. ix_keys p = ks \<Longrightarrow> ix_children p = cs \<Longrightarrow> ix_keys (f p) = ks' \<and> ix_children (f p) = cs'"
    and fit: "node_fits (IN ks' cs')"
    and Q: "\<And>s'. step s s' \<Longrightarrow> holds s' (V(pid \<mapsto> IN ks' cs')) n a b (insert pid D) \<Longrightarrow> Q () s'"
  shows "runs (upd_index r f) s Q"
  unfolding upd_index_def runs_bnd
proof (rule as_index_law [OF h c v])
  fix p assume p: "index_packs p" "ix_id p = pid" "ix_max_keys p = pg_order s" "ix_keys p = ks" "ix_children p = cs"
  have "page_ok (pg_order s) pid (IndexP (f p))"
    using p f(1) [of p] f(2) [OF p(4,5)] fit NO_NEXT_32 by (auto simp: page_ok_def index_packs_def)
  then show "runs (set_obj r (IndexP (f p))) s Q"
    by (rule set_obj_law [OF h c]) (use f(2) [OF p(4,5)] Q in simp)
qed

lemma set_keys_law:
  assumes "holds s V n a b D" "cached s pid = Some r" "V pid = Some (IN ks cs)" "node_fits (IN ks' cs)"
    and "\<And>s'. step s s' \<Longrightarrow> holds s' (V(pid \<mapsto> IN ks' cs)) n a b (insert pid D) \<Longrightarrow> Q () s'"
  shows "runs (set_keys r (Inr ks')) s Q"
  using assms(5) by (simp add: set_keys_def runs_simps)
    (rule upd_index_law [OF assms(1-3) _ _ assms(4)], auto)

lemma set_children_law:
  assumes "holds s V n a b D" "cached s pid = Some r" "V pid = Some (IN ks cs)" "node_fits (IN ks cs')"
    and "\<And>s'. step s s' \<Longrightarrow> holds s' (V(pid \<mapsto> IN ks cs')) n a b (insert pid D) \<Longrightarrow> Q () s'"
  shows "runs (set_children r (Inr cs')) s Q"
  using assms(5) by (simp add: set_children_def runs_simps)
    (rule upd_index_law [OF assms(1-3) _ _ assms(4)], auto)

lemma index_split_law:
  assumes h: "holds s V n a b D" and c: "cached s p = Some rl" "cached s q = Some rr" "p \<noteq> q"
    and v: "V p = Some (IN ks cs)" "V q = Some (IN ks' cs')" and ks: "ks \<noteq> []"
    and Q: "\<And>s'. step s s' \<Longrightarrow> holds s' (V(p \<mapsto> IN (take (length ks div 2) ks) (take (Suc (length ks div 2)) cs),
        q \<mapsto> IN (drop (Suc (length ks div 2)) ks) (drop (Suc (length ks div 2)) cs))) n a b ({p, q} \<union> D) \<Longrightarrow>
      Q (ks ! (length ks div 2)) s'"
  shows "runs (index_split_act rl rr) s Q"
  unfolding index_split_act_def runs_bnd
proof (rule as_index_law [OF h c(1) v(1)], rule as_index_law [OF h c(2) v(2)])
  fix l r assume l: "index_packs l" "ix_id l = p" "ix_max_keys l = pg_order s" "ix_keys l = ks" "ix_children l = cs"
    and r: "index_packs r" "ix_id r = q" "ix_max_keys r = pg_order s" "ix_keys r = ks'" "ix_children r = cs'"
  let ?mid = "length ks div 2"
  let ?l = "l\<lparr>ix_keys := take ?mid ks, ix_children := take (Suc ?mid) cs\<rparr>"
  let ?r = "r\<lparr>ix_keys := drop (Suc ?mid) ks, ix_children := drop (Suc ?mid) cs\<rparr>"
  have split: "index_split (l, r) = (Inr (ks ! ?mid), (?l, ?r))"
    using index_split_ok [of l r] ks l by simp
  have "4 * length (take ?mid ks) + 4 * length (take (Suc ?mid) cs) \<le> 4 * length ks + 4 * length cs"
    "4 * length (drop (Suc ?mid) ks) + 4 * length (drop (Suc ?mid) cs) \<le> 4 * length ks + 4 * length cs"
    by (intro add_mono mult_le_mono; simp)+
  then have fits: "page_ok (pg_order s) p (IndexP ?l)" "page_ok (pg_order s) q (IndexP ?r)"
    using l r by (auto simp: page_ok_def index_packs_def dest: in_set_takeD in_set_dropD)
  have "runs (set_obj rl (IndexP ?l)) s (\<lambda>_ s1. runs (set_obj rr (IndexP ?r)) s1 (\<lambda>_ s2. Q (ks ! ?mid) s2))"
  proof (rule set_obj_law [OF h c(1) fits(1)])
    fix s1 assume s1: "step s s1" "holds s1 (V(p \<mapsto> node_of (IndexP ?l))) n a b (insert p D)"
    have f: "page_ok (pg_order s1) q (IndexP ?r)" using s1(1) fits(2) by (simp add: step_def)
    show "runs (set_obj rr (IndexP ?r)) s1 (\<lambda>_ s2. Q (ks ! ?mid) s2)"
    proof (rule set_obj_law [OF s1(2) step_cached [OF s1(1) c(2)] f])
      fix s2 assume "step s1 s2" "holds s2 (V(p \<mapsto> node_of (IndexP ?l), q \<mapsto> node_of (IndexP ?r))) n a b (insert q (insert p D))"
      then show "Q (ks ! ?mid) s2"
        using step_trans [OF s1(1)] by (intro Q) (auto simp: insert_commute)
    qed
  qed
  then show "runs (case index_split (l, r) of (res, l', r') \<Rightarrow>
      bnd (set_obj rl (IndexP l')) (\<lambda>_. bnd (set_obj rr (IndexP r')) (\<lambda>_. lift_res res))) s Q"
    by (simp add: split runs_simps)
qed

end
