(* ===== verification/Tree_Pages.thy ===== *)
theory Tree_Pages
  imports Node_Laws Tree_Delete
begin

section \<open>The pages of a tree, searching and inserting\<close>

text \<open>
  \<open>reps V t\<close>: the pages of \<open>V\<close> form the functional tree \<open>t\<close>. The operations of
  \<^verbatim>\<open>bplus_tree.py\<close> on pages are shown to compute what the functional ones compute on \<open>t\<close>, to
  return within their fuel (one more than the number of pages), and to leave every page outside
  \<open>t\<close> as it was.
\<close>

fun reps :: "(nat \<Rightarrow> node option) \<Rightarrow> bt \<Rightarrow> bool" where
  "reps V (Lf p es nx) \<longleftrightarrow> V p = Some (LN es nx)"
| "reps V (Nd p ks ts) \<longleftrightarrow> V p = Some (IN ks (map bt_id ts)) \<and> (\<forall>t \<in> set ts. reps V t)"

lemma reps_cong: "reps V t \<Longrightarrow> (\<And>q. q \<in> set (bt_pids t) \<Longrightarrow> V' q = V q) \<Longrightarrow> reps V' t"
proof (induction t)
  case (Nd p ks ts)
  have "reps V' t" if "t \<in> set ts" for t
    using Nd.IH [OF that] Nd.prems that by auto
  then show ?case using Nd.prems by simp
qed simp

lemma reps_dom: "reps V t \<Longrightarrow> set (bt_pids t) \<subseteq> dom V"
  by (induction t) auto

lemma bt_id_in_pids [simp]: "bt_id t \<in> set (bt_pids t)"
  by (cases t) auto

lemma reps_pids_less: "holds s V n a b D \<Longrightarrow> reps V t \<Longrightarrow> q \<in> set (bt_pids t) \<Longrightarrow> q < n"
  using reps_dom by (fastforce simp: holds_def)

lemma reps_upd_other: "reps V t \<Longrightarrow> q \<notin> set (bt_pids t) \<Longrightarrow> reps (V(q \<mapsto> nd)) t"
  by (erule reps_cong) auto

lemma height_pids: "bt_inv h m q lo hi t \<Longrightarrow> h < length (bt_pids t)"
proof (induction h arbitrary: q lo hi t)
  case 0
  then show ?case by (elim bt_inv_0E) simp
next
  case (Suc h)
  then obtain p ks ts where t: "t = Nd p ks ts" "length ts = Suc (length ks)"
      "bchain (bt_inv h m (m div 2)) lo (ks @ [hi]) ts"
    by (elim bt_inv_SucE)
  then obtain c cs where ts: "ts = c # cs" by (cases ts) auto
  then obtain l u where "bt_inv h m (m div 2) l u c" using bchain_all [OF t(3), of c] by auto
  then show ?case using Suc.IH t(1) ts by fastforce
qed

lemma fuel_enough:
  assumes "holds s V n a b D" "reps V t" "distinct (bt_pids t)" "bt_inv h m q lo hi t"
  shows "h < n"
proof -
  have "set (bt_pids t) \<subseteq> {..<n}" using reps_pids_less [OF assms(1,2)] by auto
  then have "card (set (bt_pids t)) \<le> n" using card_mono [of "{..<n}"] by fastforce
  then show ?thesis using height_pids [OF assms(4)] assms(3) by (simp add: distinct_card)
qed

subsection \<open>The descent\<close>

fun bt_leaf :: "int \<Rightarrow> bt \<Rightarrow> bt" where
  "bt_leaf k (Lf p es nx) = Lf p es nx"
| "bt_leaf k (Nd p ks ts) = (let i = child_pos ks k in if i < length ts then bt_leaf k (ts ! i) else Nd p ks ts)"

lemma bt_find_leaf: "bt_find k t = (case bt_leaf k t of Lf p es nx \<Rightarrow> map_of es k | Nd p ks ts \<Rightarrow> None)"
  by (induction k t rule: bt_find.induct) (auto simp: Let_def)

lemma find_child_law:
  assumes "ix_keys p = ks" "ix_children p = map bt_id ts" "length ts = Suc (length ks)"
  shows "find_child p key = Inr (bt_id (ts ! child_pos ks key))"
  using find_child_ok [of p key] assms le_imp_less_Suc [OF child_pos_le [of ks key]] by simp

theorem find_leaf_law:
  assumes "bt_inv h m q lo hi t" "h < fuel" "reps V t" "holds s V n a b D" "cached s (bt_id t) = Some r"
    and "\<And>r' s' p es nx. step s s' \<Longrightarrow> holds s' V n a b D \<Longrightarrow> bt_leaf key t = Lf p es nx \<Longrightarrow> V p = Some (LN es nx) \<Longrightarrow>
      cached s' p = Some r' \<Longrightarrow> Q r' s'"
  shows "runs (find_leaf_loop fuel key r) s Q"
  using assms
proof (induction h arbitrary: q lo hi t fuel s r)
  case 0
  then obtain p es nx where t: "t = Lf p es nx" by (elim bt_inv_0E)
  obtain f where f: "fuel = Suc f" using 0 by (cases fuel) auto
  have v: "V p = Some (LN es nx)" "cached s p = Some r" using 0(3,5) t by simp_all
  show ?case
    unfolding f find_leaf_loop.simps runs_bnd
  proof (rule obj_law [OF 0(4) v(2,1)])
    fix pg assume "page_ok (pg_order s) p pg" "node_of pg = LN es nx"
    then show "runs (case pg of LeafP _ \<Rightarrow> ret r | IndexP p \<Rightarrow> bnd (lift_res (find_child p key))
        (\<lambda>child_id. bnd (get_page child_id) (find_leaf_loop f key))) s Q"
      using 0 t v by (cases pg) (auto simp: runs_simps)
  qed
next
  case (Suc h)
  then obtain p ks ts where t: "t = Nd p ks ts" "length ts = Suc (length ks)"
      "bchain (bt_inv h m (m div 2)) lo (ks @ [hi]) ts"
    by (elim bt_inv_SucE)
  let ?c = "ts ! child_pos ks key"
  have i: "child_pos ks key < length ts" using t(2) le_imp_less_Suc [OF child_pos_le [of ks key]] by simp
  then have "?c \<in> set ts" by simp
  then obtain l u where c: "bt_inv h m (m div 2) l u ?c" "reps V ?c"
    using bchain_all [OF t(3), of ?c] Suc.prems(3) t(1) by auto
  obtain f where f: "fuel = Suc f" "h < f" using Suc.prems(2) by (cases fuel) auto
  have v: "V p = Some (IN ks (map bt_id ts))" "cached s p = Some r" using Suc.prems(3,5) t by simp_all
  have vc: "\<exists>nd. V (bt_id ?c) = Some nd" using c(2) by (cases ?c) auto
  show ?case
    unfolding f find_leaf_loop.simps runs_bnd
  proof (rule obj_law [OF Suc.prems(4) v(2,1)])
    fix pg assume pg: "page_ok (pg_order s) p pg" "node_of pg = IN ks (map bt_id ts)"
    then obtain ip where ip: "pg = IndexP ip" "ix_keys ip = ks" "ix_children ip = map bt_id ts" by (cases pg) auto
    obtain nd where nd: "V (bt_id ?c) = Some nd" using vc by blast
    have "runs (get_page (bt_id ?c)) s (\<lambda>x s'. runs (find_leaf_loop f key x) s' Q)"
    proof (rule get_page_law [OF Suc.prems(4) nd])
      fix r1 s1 assume s1: "step s s1" "holds s1 V n a b D" "cached s1 (bt_id ?c) = Some r1"
      show "runs (find_leaf_loop f key r1) s1 Q"
      proof (rule Suc.IH [OF c(1) f(2) c(2) s1(2,3)])
        fix r' s' p' es nx
        assume "step s1 s'" "holds s' V n a b D" "bt_leaf key ?c = Lf p' es nx" "V p' = Some (LN es nx)" "cached s' p' = Some r'"
        then show "Q r' s'" using step_trans [OF s1(1)] t(1) i by (intro Suc.prems(6)) (auto simp: Let_def)
      qed
    qed
    then show "runs (case pg of LeafP _ \<Rightarrow> ret r | IndexP p \<Rightarrow> bnd (lift_res (find_child p key))
        (\<lambda>child_id. bnd (get_page child_id) (find_leaf_loop f key))) s Q"
      using find_child_law [OF ip(2,3) t(2)] ip(1) by (simp add: runs_simps)
  qed
qed

subsection \<open>Sizes\<close>

text \<open>
  Leaves overflow by bytes: \<open>sizes m R\<close> says that a page takes \<open>m + 1\<close> records of \<open>R\<close> bytes, so
  that no insertion or merge raises "Page full" as long as records have at most \<open>R\<close> bytes.
\<close>

definition sizes :: "nat \<Rightarrow> nat \<Rightarrow> bool" where
  "sizes m R \<longleftrightarrow> 2 \<le> m \<and> Suc m * (12 + R) \<le> LEAF_ROOM"

definition recs :: "nat \<Rightarrow> (int \<times> bytes) list \<Rightarrow> bool" where
  "recs R es \<longleftrightarrow> (\<forall>e \<in> set es. length (snd e) \<le> R)"

lemma recs_simps [simp]: "recs R []" "recs R (xs @ ys) \<longleftrightarrow> recs R xs \<and> recs R ys"
  by (auto simp: recs_def)

lemma recs_ins: "recs R es \<Longrightarrow> length v \<le> R \<Longrightarrow> recs R (ins_sorted k v es)"
  using set_ins_sorted [of k v es] by (auto simp: recs_def)

lemma recs_del: "recs R es \<Longrightarrow> recs R (del_sorted k es)"
  by (auto simp: recs_def del_sorted_def)

lemma sizes_order: "sizes m R \<Longrightarrow> 2 \<le> m \<and> m \<le> 338"
proof -
  assume s: "sizes m R"
  then have "Suc m * 12 \<le> LEAF_ROOM" unfolding sizes_def by (simp add: distrib_left)
  then show ?thesis using s by (simp add: room_consts sizes_def)
qed

lemma es_ok_sizes:
  assumes "sizes m R" "recs R es" "length es \<le> Suc m" "\<forall>k \<in> fst ` set es. 0 \<le> k \<and> k < KEY_END"
  shows "es_ok es"
proof -
  have "es_size es \<le> length es * (12 + R)" using assms(2) by (intro es_size_bound) (simp add: recs_def)
  also have "\<dots> \<le> Suc m * (12 + R)" using assms(3) by (rule mult_le_mono1)
  also have "\<dots> \<le> LEAF_ROOM" using assms(1) by (simp add: sizes_def)
  finally show ?thesis using assms(4) by (simp add: es_ok_def key_ok_bounds)
qed

lemma chain_keys_ok:
  assumes "bchain P lo (ks @ [hi]) ts" "0 \<le> lo" "hi \<le> KEY_END"
  shows "\<forall>k \<in> set ks. key_ok k"
  using bchain_sorted [OF assms(1)] assms(2,3) by (fastforce simp: sorted_wrt_append key_ok_bounds)

text \<open>The pages of a node, its children and its other children.\<close>

lemma distinct_child:
  assumes "distinct (bt_pids (Nd p ks ts))" "i < length ts"
  shows "distinct (bt_pids (ts ! i))" "p \<notin> set (bt_pids (ts ! i))"
    "\<And>j. j < length ts \<Longrightarrow> j \<noteq> i \<Longrightarrow> set (bt_pids (ts ! j)) \<inter> set (bt_pids (ts ! i)) = {}"
    "\<And>j. j < length ts \<Longrightarrow> p \<notin> set (bt_pids (ts ! j))"
proof -
  have d: "distinct (concat (map bt_pids ts))" and p: "p \<notin> (\<Union>t \<in> set ts. set (bt_pids t))"
    using assms(1) by simp_all
  show pj: "p \<notin> set (bt_pids (ts ! j))" if "j < length ts" for j
    using p nth_mem [OF that] by blast
  then show "p \<notin> set (bt_pids (ts ! i))" using assms(2) by blast
  have split: "concat (map bt_pids ts) =
      concat (map bt_pids (take i ts)) @ bt_pids (ts ! i) @ concat (map bt_pids (drop (Suc i) ts))"
    using concat_update [OF assms(2), of bt_pids "ts ! i"] by simp
  show "distinct (bt_pids (ts ! i))"
    using d unfolding split by simp
  fix j assume j: "j < length ts" "j \<noteq> i"
  have "ts ! j \<in> set (take i ts) \<union> set (drop (Suc i) ts)"
  proof (cases "j < i")
    case True
    then have "take i ts ! j = ts ! j" "j < length (take i ts)" using j by simp_all
    then show ?thesis using nth_mem [of j "take i ts"] by simp
  next
    case False
    then have "drop (Suc i) ts ! (j - Suc i) = ts ! j" "j - Suc i < length (drop (Suc i) ts)" using j by simp_all
    then show ?thesis using nth_mem [of "j - Suc i" "drop (Suc i) ts"] by simp
  qed
  then have "set (bt_pids (ts ! j)) \<subseteq> set (concat (map bt_pids (take i ts))) \<union> set (concat (map bt_pids (drop (Suc i) ts)))"
    by auto
  moreover have "(set (concat (map bt_pids (take i ts))) \<union> set (concat (map bt_pids (drop (Suc i) ts)))) \<inter> set (bt_pids (ts ! i)) = {}"
    using d unfolding split distinct_append set_append by blast
  ultimately show "set (bt_pids (ts ! j)) \<inter> set (bt_pids (ts ! i)) = {}" by blast
qed

subsection \<open>Insertion\<close>

lemma holds_less: "holds s V n a b D \<Longrightarrow> V pid = Some nd \<Longrightarrow> pid < n"
  using holds_view by blast

lemma holds_NO_NEXT: "holds s V n a b D \<Longrightarrow> V pid = Some nd \<Longrightarrow> pid < NO_NEXT"
  using holds_less by (fastforce simp: holds_def limit_def)

lemma obj_id_law:
  assumes "holds s V n a b D" "cached s pid = Some r" "V pid = Some nd" "Q pid s"
  shows "runs (bnd (obj r) (\<lambda>pg. ret (pg_id pg))) s Q"
  unfolding runs_bnd by (rule obj_law [OF assms(1-3)]) (use assms(4) in \<open>simp add: runs_simps page_ok_def\<close>)

lemma obj_ret_law:
  assumes "holds s V n a b D" "cached s pid = Some r" "V pid = Some nd" "Q (f pid) s"
  shows "runs (bnd (obj r) (\<lambda>pg. ret (f (pg_id pg)))) s Q"
  unfolding runs_bnd by (rule obj_law [OF assms(1-3)]) (use assms(4) in \<open>simp add: runs_simps page_ok_def\<close>)

definition ins_post :: "'a pager_scheme \<Rightarrow> (nat \<Rightarrow> node option) \<Rightarrow> nat \<Rightarrow> nat \<Rightarrow> nat \<Rightarrow> nat set \<Rightarrow> nat set \<Rightarrow>
    bt \<times> (int \<times> bt) option \<times> nat \<Rightarrow> (int \<times> nat) option \<Rightarrow> 'a pager_scheme \<Rightarrow> bool" where
  "ins_post s V n a b D P res r s' \<longleftrightarrow>
     (case res of (t', sr, n') \<Rightarrow>
        step s s' \<and> r = map_option (\<lambda>(sep, rt). (sep, bt_id rt)) sr \<and>
        (\<exists>V'. holds s' V' n' a b D \<and> reps V' t' \<and> (\<forall>sep rt. sr = Some (sep, rt) \<longrightarrow> reps V' rt) \<and>
          (\<forall>q < n. q \<notin> P \<longrightarrow> V' q = V q)))"

text \<open>The right half of a split page is new: it is marked dirty and its id returned.\<close>

lemma split_done_law:
  assumes h: "holds s V n a (Suc b) ({p, q} \<union> D)" and c: "cached s q = Some r" and v: "V q = Some nd" and p: "is_dirty s p"
    and Q: "\<And>s'. step s s' \<Longrightarrow> holds s' V n a b D \<Longrightarrow> Q (Some (k, q)) s'"
  shows "runs (bnd (pg_mark_dirty r) (\<lambda>_. bnd (obj r) (\<lambda>pg. ret (Some (k, pg_id pg))))) s Q"
  unfolding runs_bnd [of "pg_mark_dirty r"]
proof (rule mark_dirty_law [OF h c v], goal_cases)
  case (1 s')
  then have "is_dirty s' p" using p by (simp add: step_def)
  from holds_dirty [OF 1(2) this] have h': "holds s' V n a b D" by (rule holds_weaken) auto
  show ?case
    by (rule obj_ret_law [OF h' step_cached [OF 1(1) c] v, where f = "\<lambda>i. Some (k, i)"]) (rule Q [OF 1(1) h'])
qed

lemma ins_postI:
  "step s s' \<Longrightarrow> holds s' V' n' a b D \<Longrightarrow> reps V' t' \<Longrightarrow> (\<And>sep rt. sr = Some (sep, rt) \<Longrightarrow> reps V' rt) \<Longrightarrow>
     \<forall>q < n. q \<notin> P \<longrightarrow> V' q = V q \<Longrightarrow> r = map_option (\<lambda>(sep, rt). (sep, bt_id rt)) sr \<Longrightarrow>
     ins_post s V n a b D P (t', sr, n') r s'"
  unfolding ins_post_def prod.case by blast

lemma ins_leaf_law:
  assumes h: "holds s V n (Suc a) (Suc (Suc b)) D" and c: "cached s p = Some r" and v: "V p = Some (LN es nx)"
    and es: "keys_sorted es" "es_ok (ins_sorted k v es)"
  shows "runs (bnd (leaf_act r (leaf_insert k v)) (\<lambda>_.
         bnd (pg_mark_dirty r) (\<lambda>_.
         bnd (leaf_get r leaf_is_full) (\<lambda>full.
         if \<not> full then ret None
         else
           bnd new_leaf_page (\<lambda>right.
           bnd (leaf_split_act r right) (\<lambda>split_key.
           bnd (pg_mark_dirty right) (\<lambda>_.
           bnd (obj right) (\<lambda>rp. ret (Some (split_key, pg_id rp)))))))))) s
    (ins_post s V n a b D {p} (bt_ins (pg_order s) k v (Lf p es nx) n))"
  unfolding runs_bnd [of "leaf_act r (leaf_insert k v)"]
proof (rule leaf_insert_law [OF h c v es], goal_cases)
  case s1: (1 s1)
  let ?m = "pg_order s" and ?es = "ins_sorted k v es"
  let ?V = "V(p \<mapsto> LN ?es nx)" and ?mid = "length ?es div 2"
  have c1: "cached s1 p = Some r" "?V p = Some (LN ?es nx)" using step_cached [OF s1(1) c] by simp_all
  show ?case
    unfolding runs_bnd [of "pg_mark_dirty r"]
  proof (rule mark_dirty_law [OF s1(2) c1], goal_cases)
    case s2: (1 s2)
    have st2: "step s s2" by (rule step_trans [OF s1(1) s2(1)])
    have h2: "holds s2 ?V n (Suc a) (Suc b) D" by (rule holds_weaken [OF s2(2) map_le_refl]) auto
    have c2: "cached s2 p = Some r" by (rule step_cached [OF st2 c])
    have m2: "pg_order s2 = ?m" using st2 by (simp add: step_def)
    show ?case
      unfolding runs_bnd [of "leaf_get r leaf_is_full"]
    proof (rule leaf_full_law [OF h2 c2 c1(2)], goal_cases)
      case 1
      show ?case
      proof (cases "pg_order s2 < length ?es")
        case False
        have "holds s2 ?V n a b D" by (rule holds_weaken [OF h2 map_le_refl]) simp_all
        with False st2 m2 show ?thesis by (auto simp: runs_simps ins_post_def Let_def)
      next
        case full: True
        have pn: "p < n" using holds_less [OF h v] .
        let ?V3 = "?V(n \<mapsto> LN [] None, p \<mapsto> LN (take ?mid ?es) (Some n), n \<mapsto> LN (drop ?mid ?es) nx)"
        have fin: "ins_post s V n a b D {p} (bt_ins ?m k v (Lf p es nx) n) (Some (fst (?es ! ?mid), n)) s'"
          if "step s s'" "holds s' ?V3 (Suc n) a b D" for s'
          using that full pn m2 by (auto simp: ins_post_def Let_def intro!: exI [of _ ?V3])
        show ?thesis
          unfolding if_not_P [OF not_not [THEN iffD2, OF full]] runs_bnd [of new_leaf_page]
        proof (rule new_leaf_law [OF h2], goal_cases)
          case s3: (1 rr s3)
          have v3: "(?V(n \<mapsto> LN [] None)) p = Some (LN ?es nx)" "(?V(n \<mapsto> LN [] None)) n = Some (LN [] None)" "p \<noteq> n"
            using pn by simp_all
          have "?es \<noteq> []" by simp
          show ?case
            unfolding runs_bnd [of "leaf_split_act r rr"]
          proof (rule leaf_split_law [OF s3(2) step_cached [OF s3(1) c2] s3(3) v3(3,1,2) \<open>?es \<noteq> []\<close>], goal_cases)
            case s4: (1 s4)
            have st4: "step s2 s4" by (rule step_trans [OF s3(1) s4(1)])
            have d4: "is_dirty s4 p" using st4 s2(3) by (simp add: step_def)
            show ?case
              by (rule split_done_law [OF s4(2) step_cached [OF s4(1) s3(3)] _ d4])
                (simp, rule fin [OF step_trans [OF st2 step_trans [OF st4]]])
          qed
        qed
      qed
    qed
  qed
qed

lemma ins_node_law:
  fixes ks :: "int list" and cs :: "nat list" and sep :: int and child :: nat
  defines "j \<equiv> insert_pos ks sep"
  defines "ks' \<equiv> insert_nth j sep ks" and "cs' \<equiv> insert_nth (j + 1) child cs"
  defines "mid \<equiv> length ks' div 2"
  assumes h: "holds s V n (Suc a) (Suc (Suc b)) D" and c: "cached s p = Some r" and v: "V p = Some (IN ks cs)"
    and fit: "node_fits (IN ks' cs')"
    and Q1: "\<And>s'. length ks' \<le> pg_order s \<Longrightarrow> step s s' \<Longrightarrow> holds s' (V(p \<mapsto> IN ks' cs')) n a b D \<Longrightarrow> Q None s'"
    and Q2: "\<And>s'. \<not> length ks' \<le> pg_order s \<Longrightarrow> step s s' \<Longrightarrow>
      holds s' (V(p \<mapsto> IN (take mid ks') (take (Suc mid) cs'),
        n \<mapsto> IN (drop (Suc mid) ks') (drop (Suc mid) cs'))) (Suc n) a b D \<Longrightarrow> Q (Some (ks' ! mid, n)) s'"
  shows "runs (bnd (upd_index r (insert_key sep child)) (\<lambda>_.
             bnd (pg_mark_dirty r) (\<lambda>_.
             bnd (as_index r) (\<lambda>p.
             if \<not> index_is_full p then ret None
             else
               bnd new_index_page (\<lambda>right_index.
               bnd (index_split_act r right_index) (\<lambda>push_up_key.
               bnd (pg_mark_dirty right_index) (\<lambda>_.
               bnd (obj right_index) (\<lambda>rp. ret (Some (push_up_key, pg_id rp)))))))))) s Q"
  unfolding runs_bnd [of "upd_index r (insert_key sep child)"]
proof (rule upd_index_law [OF h c v _ _ fit], goal_cases)
  case 1
  then show ?case by (simp add: insert_key_def Let_def)
next
  case 2
  then show ?case by (simp add: insert_key_def Let_def ks'_def cs'_def j_def)
next
  case s1: (3 s1)
  let ?V = "V(p \<mapsto> IN ks' cs')"
  have c1: "cached s1 p = Some r" "?V p = Some (IN ks' cs')" using step_cached [OF s1(1) c] by simp_all
  show ?case
    unfolding runs_bnd [of "pg_mark_dirty r"]
  proof (rule mark_dirty_law [OF s1(2) c1], goal_cases)
    case s2: (1 s2)
    have st2: "step s s2" by (rule step_trans [OF s1(1) s2(1)])
    have h2: "holds s2 ?V n (Suc a) (Suc b) D" by (rule holds_weaken [OF s2(2) map_le_refl]) auto
    have c2: "cached s2 p = Some r" by (rule step_cached [OF st2 c])
    show ?case
      unfolding runs_bnd [of "as_index r"]
    proof (rule as_index_law [OF h2 c2 c1(2)], goal_cases)
      case ip: (1 ip)
      have m2: "index_is_full ip = (\<not> length ks' \<le> pg_order s)"
        using ip st2 by (simp add: index_is_full_def index_num_keys_def step_def not_le)
      show ?case
      proof (cases "index_is_full ip")
        case False
        have "holds s2 ?V n a b D" by (rule holds_weaken [OF h2 map_le_refl]) simp_all
        with False m2 show ?thesis using Q1 [OF _ st2] by (simp add: runs_simps)
      next
        case full: True
        have pn: "p < n" using holds_less [OF h v] .
        show ?thesis
          unfolding if_not_P [OF not_not [THEN iffD2, OF full]] runs_bnd [of new_index_page]
        proof (rule new_index_law [OF h2], goal_cases)
          case s3: (1 rr s3)
          have v3: "(?V(n \<mapsto> IN [] [])) p = Some (IN ks' cs')" "(?V(n \<mapsto> IN [] [])) n = Some (IN [] [])" "p \<noteq> n" "ks' \<noteq> []"
            using pn by (simp_all add: ks'_def insert_nth_def)
          show ?case
            unfolding runs_bnd [of "index_split_act r rr"]
          proof (rule index_split_law [OF s3(2) step_cached [OF s3(1) c2] s3(3) v3(3,1,2,4)], goal_cases)
            case s4: (1 s4)
            have st4: "step s2 s4" by (rule step_trans [OF s3(1) s4(1)])
            have d4: "is_dirty s4 p" using st4 s2(3) by (simp add: step_def)
            have eq: "V(p \<mapsto> x, n \<mapsto> y, p \<mapsto> x', n \<mapsto> y') = V(p \<mapsto> x', n \<mapsto> y')" for x y x' y'
              using v3(3) by (simp add: fun_eq_iff)
            let ?V3 = "V(p \<mapsto> IN (take mid ks') (take (Suc mid) cs'), n \<mapsto> IN (drop (Suc mid) ks') (drop (Suc mid) cs'))"
            have h4: "holds s4 ?V3 (Suc n) a (Suc b) ({p, n} \<union> D)"
              using s4(2) unfolding eq mid_def .
            show ?case
              unfolding mid_def [symmetric]
              by (rule split_done_law [OF h4 step_cached [OF s4(1) s3(3)] _ d4])
                (use full m2 Q2 step_trans [OF st2 step_trans [OF st4]] in auto)
          qed
        qed
      qed
    qed
  qed
qed

text \<open>After an operation on the child \<open>i\<close> its siblings and its parent are as they were.\<close>

lemma others_nth:
  assumes "t \<in> set (take i ts) \<union> set (drop (Suc i) ts)"
  shows "\<exists>j < length ts. j \<noteq> i \<and> t = ts ! j"
  using assms
proof
  assume "t \<in> set (take i ts)"
  then show ?thesis by (auto simp: in_set_conv_nth)
next
  assume "t \<in> set (drop (Suc i) ts)"
  then obtain j where "j < length ts - Suc i" "t = ts ! (Suc i + j)" by (auto simp: in_set_conv_nth)
  then show ?thesis by (intro exI [of _ "Suc i + j"]) auto
qed

lemma child_frame:
  assumes reps: "reps V (Nd p ks ts)" and d: "distinct (bt_pids (Nd p ks ts))" and i: "i < length ts"
    and n: "\<forall>q \<in> set (bt_pids (Nd p ks ts)). q < n"
    and same: "\<forall>q < n. q \<notin> set (bt_pids (ts ! i)) \<longrightarrow> V' q = V q"
  shows "\<And>t. t \<in> set (take i ts) \<union> set (drop (Suc i) ts) \<Longrightarrow> reps V' t"
    and "V' p = Some (IN ks (map bt_id ts))"
proof -
  note dis = distinct_child [OF d i]
  have "p < n" using n by simp
  then have "V' p = V p" using same dis(2) by blast
  then show "V' p = Some (IN ks (map bt_id ts))" using reps by simp
  fix t assume t: "t \<in> set (take i ts) \<union> set (drop (Suc i) ts)"
  obtain j where j: "j < length ts" "j \<noteq> i" "t = ts ! j" using others_nth [OF t] by blast
  have ts: "t \<in> set ts" unfolding j(3) using j(1) by (rule nth_mem)
  then have sub: "set (bt_pids t) \<subseteq> set (bt_pids (Nd p ks ts))" by auto
  show "reps V' t"
  proof (rule reps_cong)
    show "reps V t" using reps ts by simp
    fix q assume q: "q \<in> set (bt_pids t)"
    have "q < n" using n sub q by blast
    moreover have "q \<notin> set (bt_pids (ts ! i))" using dis(3) [OF j(1,2)] q unfolding j(3) by blast
    ultimately show "V' q = V q" using same by blast
  qed
qed

lemma map_insert_nth: "map f (insert_nth i x xs) = insert_nth i (f x) (map f xs)"
  by (simp add: insert_nth_def take_map drop_map)

lemma set_children: "i < length ts \<Longrightarrow> set (insert_nth (i + 1) r (ts[i := c])) = {c, r} \<union> (set (take i ts) \<union> set (drop (Suc i) ts))"
  by (simp only: insert_nth_update) auto

lemma ins_case_leaf:
  assumes sz: "sizes (pg_order s) R" and v: "length v \<le> R" and lf: "bt_inv 0 (pg_order s) q lo hi (Lf p es nx)"
    and h: "holds s V n (Suc a) (Suc (Suc b)) D" and reps: "reps V (Lf p es nx)" and es: "recs R es"
    and k: "0 \<le> lo" "hi \<le> KEY_END" "lo \<le> k" "k < hi"
  shows "runs (tree_ins (Suc f) p k v) s (ins_post s V n a b D {p} (bt_ins (pg_order s) k v (Lf p es nx) n))"
proof -
  let ?m = "pg_order s"
  have e: "keys_sorted es" "\<forall>k \<in> fst ` set es. lo \<le> k \<and> k < hi" "length es \<le> ?m" using lf by simp_all
  have "length (ins_sorted k v es) \<le> Suc ?m" using length_ins_sorted_bounds(2) [of k v es] e(3) by simp
  then have ok: "es_ok (ins_sorted k v es)"
    using e(2) k by (intro es_ok_sizes [OF sz recs_ins [OF es v]]) auto
  have vp: "V p = Some (LN es nx)" using reps by simp
  show ?thesis
    unfolding tree_ins.simps runs_bnd [of "get_page p"]
  proof (rule get_page_law [OF h vp], goal_cases)
    case s1: (1 r s1)
    have m1: "pg_order s1 = ?m" using s1(1) by (simp add: step_def)
    show ?case
      unfolding runs_bnd [of "obj r"]
    proof (rule obj_law [OF s1(2,3) vp], goal_cases)
      case (1 pg)
      then obtain l where l: "pg = LeafP l" by (cases pg) auto
      show ?case
        unfolding l page.case
        by (rule runs_weaken [OF ins_leaf_law [OF s1(2,3) vp e(1) ok]], unfold m1)
          (use step_trans [OF s1(1)] in \<open>auto simp: ins_post_def split: prod.splits\<close>)
    qed
  qed
qed

lemma ins_child_pids:
  assumes run: "bt_ins m k v c n = (c', sr, n1)" and c: "\<forall>q \<in> set (bt_pids c). q < n" "p \<notin> set (bt_pids c)" "p < n"
  shows "n \<le> n1" "bt_id c' = bt_id c" "p \<notin> set (bt_pids c')" "n1 \<notin> set (bt_pids c')"
    "sr = Some (s, r) \<Longrightarrow> p \<notin> set (bt_pids r) \<and> n1 \<notin> set (bt_pids r)"
proof -
  note pids = bt_ins_pids [OF run]
  then show "n \<le> n1" "bt_id c' = bt_id c" by simp_all
  have "set_mset (mset (bt_pids c') + mset (opt_pids sr)) = set_mset (mset (bt_pids c) + mset [n..<n1])"
    using pids by metis
  then have eq: "set (bt_pids c') \<union> set (opt_pids sr) = set (bt_pids c) \<union> {n..<n1}" by simp
  have "p \<notin> set (bt_pids c) \<union> {n..<n1}" "n1 \<notin> set (bt_pids c) \<union> {n..<n1}" using c \<open>n \<le> n1\<close> by auto
  then have "p \<notin> set (bt_pids c') \<union> set (opt_pids sr)" "n1 \<notin> set (bt_pids c') \<union> set (opt_pids sr)" unfolding eq by blast+
  then show "p \<notin> set (bt_pids c')" "n1 \<notin> set (bt_pids c')"
    "sr = Some (s, r) \<Longrightarrow> p \<notin> set (bt_pids r) \<and> n1 \<notin> set (bt_pids r)"
    by (auto simp: opt_pids_def)
qed

lemma ins_case_node:
  fixes ks ts k
  defines "i \<equiv> child_pos ks k"
  assumes chain: "bchain (bt_inv h m (m div 2)) lo (ks @ [hi]) ts" and len: "length ts = Suc (length ks)" "length ks \<le> m"
    and sz: "sizes m R" "pg_order s = m" and k: "0 \<le> lo" "hi \<le> KEY_END" "lo \<le> k" "k < hi"
    and reps: "reps V (Nd p ks ts)" and d: "distinct (bt_pids (Nd p ks ts))" "\<forall>q \<in> set (bt_pids (Nd p ks ts)). q < n"
    and c: "cached s p = Some r" and run: "bt_ins m k v (ts ! i) n = (c', sr, n1)"
    and post: "ins_post s V n (Suc a) (Suc (Suc b)) D (set (bt_pids (ts ! i))) (c', sr, n1) res s2"
  shows "runs (case res of None \<Rightarrow> ret None | Some (split_key, new_child_id) \<Rightarrow>
             bnd (upd_index r (insert_key split_key new_child_id)) (\<lambda>_.
             bnd (pg_mark_dirty r) (\<lambda>_.
             bnd (as_index r) (\<lambda>p.
             if \<not> index_is_full p then ret None
             else
               bnd new_index_page (\<lambda>right_index.
               bnd (index_split_act r right_index) (\<lambda>push_up_key.
               bnd (pg_mark_dirty right_index) (\<lambda>_.
               bnd (obj right_index) (\<lambda>rp. ret (Some (push_up_key, pg_id rp)))))))))) s2
    (ins_post s V n a b D (set (bt_pids (Nd p ks ts))) (node_ins m p ks ts i (c', sr, n1)))"
proof -
  note hole = hole_keys [OF chain len(1) k(3,4), folded i_def]
  have i: "i < length ts" by (rule hole(1))
  note dis = distinct_child [OF d(1) i]
  have "\<forall>q \<in> set (bt_pids (ts ! i)). q < n" "p < n" using d(2) nth_mem [OF i] by auto
  note pids = ins_child_pids [OF run this(1) dis(2) this(2)]
  obtain V2 where V2: "step s s2" "holds s2 V2 n1 (Suc a) (Suc (Suc b)) D" "reps V2 c'"
    "\<And>sep rt. sr = Some (sep, rt) \<Longrightarrow> reps V2 rt" "\<forall>q < n. q \<notin> set (bt_pids (ts ! i)) \<longrightarrow> V2 q = V q"
    and res: "res = map_option (\<lambda>(sep, rt). (sep, bt_id rt)) sr"
    using post by (auto simp: ins_post_def)
  note fr = child_frame [OF reps d(1) i d(2) V2(5)]
  have m2: "pg_order s2 = m" using V2(1) sz(2) by (simp add: step_def)
  have ids: "map bt_id (ts[i := c']) = map bt_id ts" using pids(2) i by (simp add: map_update list_update_same_conv)
  have out: "V2 q = V q" if "q < n" "q \<notin> set (bt_pids (Nd p ks ts))" for q
    using V2(5) that nth_mem [OF i] by auto
  show ?thesis
  proof (cases sr)
    case None
    have "\<forall>t \<in> set (ts[i := c']). reps V2 t"
      using fr(1) V2(3) i by (auto simp: upd_conv_take_nth_drop)
    moreover have "holds s2 V2 n1 a b D" by (rule holds_weaken [OF V2(2) map_le_refl]) simp_all
    ultimately show ?thesis
      using None res V2(1) fr(2) ids out by (auto simp: runs_simps ins_post_def node_ins_def)
  next
    case (Some x)
    then obtain sep rt where sr: "sr = Some (sep, rt)" by (cases x) auto
    have "ins_ok h m (m div 2) (last (lo # take i ks)) ((ks @ [hi]) ! i) k v (ts ! i) (c', sr, n1)"
      using bt_ins_ok [OF hole(2-4), of v n] sz(1) run by (simp add: sizes_def)
    then have cc: "last (lo # take i ks) < sep" "sep < (ks @ [hi]) ! i"
      "bt_inv h m (m div 2) (last (lo # take i ks)) sep c'" "bt_inv h m (m div 2) sep ((ks @ [hi]) ! i) rt"
      by (simp_all add: ins_ok_def sr)
    note ins = insert_child [where P = "bt_inv h m (m div 2)", OF chain len(1) i cc]
    let ?ks = "insert_nth i sep ks" and ?ts = "insert_nth (i + 1) rt (ts[i := c'])"
    have il: "i \<le> length ks" using i len by simp
    have all: "reps V2 t \<and> p \<notin> set (bt_pids t) \<and> n1 \<notin> set (bt_pids t)" if t: "t \<in> set ?ts" for t
    proof -
      consider "t = c'" | "t = rt" | j where "j < length ts" "j \<noteq> i" "t = ts ! j"
        "t \<in> set (take i ts) \<union> set (drop (Suc i) ts)"
        using t others_nth [of t i ts] unfolding set_children [OF i] by blast
      then show ?thesis
      proof cases
        case (3 j)
        have "t \<in> set ts" using 3 by simp
        then have "\<forall>q \<in> set (bt_pids t). q < n" using d(2) by auto
        then have "n1 \<notin> set (bt_pids t)" using pids(1) by (meson leD)
        moreover have "p \<notin> set (bt_pids t)" unfolding 3(3) by (rule dis(4) [OF 3(1)])
        ultimately show ?thesis using fr(1) [OF 3(4)] by blast
      next
        case 1
        show ?thesis unfolding 1 using V2(3) pids(3,4) by blast
      next
        case 2
        show ?thesis unfolding 2 using V2(4) [OF sr] pids(5) [OF sr] by blast
      qed
    qed
    have cs: "insert_nth (i + 1) (bt_id rt) (map bt_id ts) = map bt_id ?ts"
      using ids by (simp add: map_insert_nth)
    have lens: "length ?ks = Suc (length ks)" "length ?ts = Suc (length ?ks)" using il len i by simp_all
    have "bt_id t < NO_NEXT" if "t \<in> set ?ts" for t
    proof -
      have "bt_id t \<in> dom V2" using reps_dom [of V2 t] all [OF that] bt_id_in_pids [of t] by blast
      then show ?thesis using holds_NO_NEXT [OF V2(2)] by blast
    qed
    then have "\<forall>q \<in> set (map bt_id ?ts). q < NO_NEXT" by simp
    then have fit: "node_fits (IN ?ks (map bt_id ?ts))"
      using chain_keys_ok [OF ins(2) k(1,2)] lens len(2) sizes_order [OF sz(1)] by simp
    have keep: "reps (V2(p \<mapsto> x)) t" if "t \<in> set ?ts" for t x
      using all [OF that] by (simp add: reps_upd_other)
    then have keep2: "reps (V2(p \<mapsto> x, n1 \<mapsto> y)) t" if "t \<in> set ?ts" for t x y
      using all [OF that] that by (simp add: reps_upd_other)
    let ?mid = "length ?ks div 2"
    have pn: "p \<noteq> n1" "n \<le> n1" using \<open>p < n\<close> pids(1) by simp_all
    show ?thesis
      unfolding res sr option.map prod.case option.case
    proof (rule ins_node_law [OF V2(2) step_cached [OF V2(1) c] fr(2)], unfold ins(1) cs m2)
      show "node_fits (IN ?ks (map bt_id ?ts))" by (rule fit)
    next
      fix s' assume s': "length ?ks \<le> m" "step s2 s'" "holds s' (V2(p \<mapsto> IN ?ks (map bt_id ?ts))) n1 a b D"
      let ?V = "V2(p \<mapsto> IN ?ks (map bt_id ?ts))"
      have r: "reps ?V (Nd p ?ks ?ts)" using keep by simp
      have o: "\<forall>q < n. q \<notin> set (bt_pids (Nd p ks ts)) \<longrightarrow> ?V q = V q" using out by simp
      have e: "node_ins m p ks ts i (c', Some (sep, rt), n1) = (Nd p ?ks ?ts, None, n1)"
        using s'(1) by (simp add: node_ins_def ins(1))
      show "ins_post s V n a b D (set (bt_pids (Nd p ks ts))) (node_ins m p ks ts i (c', Some (sep, rt), n1)) None s'"
        unfolding e by (rule ins_postI [OF step_trans [OF V2(1) s'(2)] s'(3) r _ o]) simp_all
    next
      fix s'
      let ?V = "V2(p \<mapsto> IN (take ?mid ?ks) (take (Suc ?mid) (map bt_id ?ts)),
        n1 \<mapsto> IN (drop (Suc ?mid) ?ks) (drop (Suc ?mid) (map bt_id ?ts)))"
      assume s': "\<not> length ?ks \<le> m" "step s2 s'" "holds s' ?V (Suc n1) a b D"
      have "\<forall>t \<in> set (take (Suc ?mid) ?ts). reps ?V t" "\<forall>t \<in> set (drop (Suc ?mid) ?ts). reps ?V t"
        using keep2 by (blast dest: in_set_takeD in_set_dropD)+
      then have r: "reps ?V (Nd p (take ?mid ?ks) (take (Suc ?mid) ?ts))" "reps ?V (Nd n1 (drop (Suc ?mid) ?ks) (drop (Suc ?mid) ?ts))"
        using pn(1) by (simp_all add: take_map drop_map)
      have o: "\<forall>q < n. q \<notin> set (bt_pids (Nd p ks ts)) \<longrightarrow> ?V q = V q" using out pn(2) by simp
      have e: "node_ins m p ks ts i (c', Some (sep, rt), n1) = (Nd p (take ?mid ?ks) (take (Suc ?mid) ?ts),
          Some (?ks ! ?mid, Nd n1 (drop (Suc ?mid) ?ks) (drop (Suc ?mid) ?ts)), Suc n1)"
        using s'(1) by (simp add: node_ins_def ins(1) Let_def)
      show "ins_post s V n a b D (set (bt_pids (Nd p ks ts))) (node_ins m p ks ts i (c', Some (sep, rt), n1))
          (Some (?ks ! ?mid, n1)) s'"
        unfolding e by (rule ins_postI [OF step_trans [OF V2(1) s'(2)] s'(3) r(1) _ o], use r(2) in blast, simp)
    qed
  qed
qed

lemma ins_post_trans:
  "step s s1 \<Longrightarrow> ins_post s1 V n a b D P res r s' \<Longrightarrow> ins_post s V n a b D P res r s'"
  unfolding ins_post_def using step_trans by (auto split: prod.splits)

theorem tree_ins_law:
  assumes sz: "sizes m R" and v: "length v \<le> R"
  shows "bt_inv h m q lo hi t \<Longrightarrow> h < fuel \<Longrightarrow> reps V t \<Longrightarrow> distinct (bt_pids t) \<Longrightarrow>
    holds s V n (a + Suc h) (b + 2 * Suc h) D \<Longrightarrow> pg_order s = m \<Longrightarrow> recs R (bt_es t) \<Longrightarrow>
    0 \<le> lo \<Longrightarrow> hi \<le> KEY_END \<Longrightarrow> lo \<le> k \<Longrightarrow> k < hi \<Longrightarrow>
    runs (tree_ins fuel (bt_id t) k v) s (ins_post s V n a b D (set (bt_pids t)) (bt_ins m k v t n))"
proof (induction h arbitrary: q lo hi t fuel s a b)
  case 0
  then obtain p es nx where t: "t = Lf p es nx" by (elim bt_inv_0E)
  obtain f where f: "fuel = Suc f" using 0 by (cases fuel) auto
  have "holds s V n (Suc a) (Suc (Suc b)) D" using 0(5) by simp
  then show ?case
    using ins_case_leaf [of s R v q lo hi p es nx V n a b D k f] 0 sz v unfolding t f by simp
next
  case (Suc h)
  then obtain p ks ts where t: "t = Nd p ks ts" "length ts = Suc (length ks)"
      "bchain (bt_inv h m (m div 2)) lo (ks @ [hi]) ts" "length ks \<le> m"
    by (elim bt_inv_SucE)
  obtain f where f: "fuel = Suc f" "h < f" using Suc.prems(2) by (cases fuel) auto
  note hole = hole_keys [OF t(3,2) Suc.prems(10,11)]
  let ?i = "child_pos ks k"
  let ?c = "ts ! ?i"
  have reps: "reps V (Nd p ks ts)" "reps V ?c" "V p = Some (IN ks (map bt_id ts))"
    using Suc.prems(3) nth_mem [OF hole(1)] t(1) by simp_all
  have d: "distinct (bt_pids (Nd p ks ts))" using Suc.prems(4) t(1) by simp
  have less: "\<forall>q \<in> set (bt_pids (Nd p ks ts)). q < n"
    using reps_pids_less [OF Suc.prems(5) reps(1)] by blast
  have rc: "recs R (bt_es ?c)" using Suc.prems(7) unfolding t(1) bt_es_hole [OF hole(1)] by simp
  have lo: "0 \<le> last (lo # take ?i ks)" "(ks @ [hi]) ! ?i \<le> KEY_END"
  proof -
    have "sorted_wrt (<) (lo # ks @ [hi])" by (rule bchain_sorted [OF t(3)])
    then have "\<forall>x \<in> set (lo # ks @ [hi]). lo \<le> x \<and> x \<le> hi" by (auto simp: sorted_wrt_append intro: less_imp_le)
    moreover have "last (lo # take ?i ks) \<in> set (lo # ks @ [hi])"
      using last_in_set [of "lo # take ?i ks"] set_take_subset [of ?i ks] by auto
    moreover have "(ks @ [hi]) ! ?i \<in> set (lo # ks @ [hi])" using child_pos_le [of ks k] by (auto simp: nth_append)
    ultimately show "0 \<le> last (lo # take ?i ks)" "(ks @ [hi]) ! ?i \<le> KEY_END"
      using Suc.prems(8,9) by fastforce+
  qed
  obtain c' sr n1 where run: "bt_ins m k v ?c n = (c', sr, n1)" by (metis prod_cases3)
  show ?case
    unfolding f(1) t(1) bt_id.simps tree_ins.simps bt_ins_node [OF hole(1)] runs_bnd [of "get_page p"]
  proof (rule get_page_law [OF Suc.prems(5) reps(3)], goal_cases)
    case s1: (1 r s1)
    have m1: "pg_order s1 = m" using s1(1) Suc.prems(6) by (simp add: step_def)
    have h1: "holds s1 V n (Suc a + Suc h) (Suc (Suc b) + 2 * Suc h) D"
      by (rule holds_weaken [OF s1(2) map_le_refl]) simp_all
    have IH: "runs (tree_ins f (bt_id ?c) k v) s1 (ins_post s1 V n (Suc a) (Suc (Suc b)) D (set (bt_pids ?c)) (bt_ins m k v ?c n))"
      by (rule Suc.IH [OF hole(2) f(2) reps(2) distinct_child(1) [OF d hole(1)] h1 m1 rc lo hole(3,4)])
    show ?case
      unfolding runs_bnd [of "obj r"]
    proof (rule obj_law [OF s1(2,3) reps(3)], goal_cases)
      case (1 pg)
      then obtain ip where ip: "pg = IndexP ip" "ix_keys ip = ks" "ix_children ip = map bt_id ts" by (cases pg) auto
      show ?case
        unfolding ip(1) page.case find_child_law [OF ip(2,3) t(2)] runs_bnd [of "lift_res _"] runs_basic
          runs_bnd [of "tree_ins f (bt_id ?c) k v"]
      proof (rule runs_weaken [OF IH])
        fix res s2 assume "ins_post s1 V n (Suc a) (Suc (Suc b)) D (set (bt_pids ?c)) (bt_ins m k v ?c n) res s2"
        note post = this [unfolded run]
        show "runs (case res of None \<Rightarrow> ret None | Some (split_key, new_child_id) \<Rightarrow>
             bnd (upd_index r (insert_key split_key new_child_id)) (\<lambda>_.
             bnd (pg_mark_dirty r) (\<lambda>_.
             bnd (as_index r) (\<lambda>p.
             if \<not> index_is_full p then ret None
             else
               bnd new_index_page (\<lambda>right_index.
               bnd (index_split_act r right_index) (\<lambda>push_up_key.
               bnd (pg_mark_dirty right_index) (\<lambda>_.
               bnd (obj right_index) (\<lambda>rp. ret (Some (push_up_key, pg_id rp)))))))))) s2
          (ins_post s V n a b D (set (bt_pids (Nd p ks ts))) (node_ins m p ks ts ?i (bt_ins m k v ?c n)))"
          unfolding run
          by (rule runs_weaken [OF ins_case_node [OF t(3,2,4) sz m1 Suc.prems(8-11) reps(1) d less s1(3) run post]])
            (rule ins_post_trans [OF s1(1)])
      qed
    qed
  qed
qed

end
