(* ===== verification/Tree_Store.thy ===== *)
theory Tree_Store
  imports Tree_Pages
begin

section \<open>Search, range scan and insertion on a stored tree\<close>

text \<open>
  \<open>stores s t n a b R\<close>: the tree object \<open>s\<close> stores the functional tree \<open>t\<close>, with room for
  \<open>a\<close> more pages and \<open>b\<close> more log records, for records of at most \<open>R\<close> bytes. Every operation
  on a stored tree returns, and its effect is that of the sorted association list \<open>bt_es t\<close>.
\<close>

definition stores :: "'a bplus_tree_scheme \<Rightarrow> bt \<Rightarrow> nat \<Rightarrow> nat \<Rightarrow> nat \<Rightarrow> nat \<Rightarrow> bool" where
  "stores s t n a b R \<longleftrightarrow> bt_root_id s = bt_id t \<and> pg_root s = Some (bt_id t) \<and>
     (\<exists>V. holds s V n a b {} \<and> reps V t) \<and> distinct (bt_pids t) \<and> bt_ok (pg_order s) t \<and>
     sizes (pg_order s) R \<and> recs R (bt_es t)"

lemma storesE:
  assumes "stores s t n a b R"
  obtains V h where "bt_root_id s = bt_id t" "pg_root s = Some (bt_id t)" "holds s V n a b {}" "reps V t"
    "distinct (bt_pids t)" "bt_inv h (pg_order s) (root_min h) 0 KEY_END t" "links (bt_leaves t) None"
    "sizes (pg_order s) R" "recs R (bt_es t)" "h < n"
  using assms fuel_enough unfolding stores_def bt_ok_def by blast

lemma stores_weaken: "stores s t n a b R \<Longrightarrow> a' \<le> a \<Longrightarrow> b' \<le> b \<Longrightarrow> stores s t n a' b' R"
  unfolding stores_def using holds_weaken [OF _ map_le_refl _ _ subset_refl] by blast

lemma stores_sorted: "stores s t n a b R \<Longrightarrow> keys_sorted (bt_es t)"
  using bt_ok_sorted by (auto simp: stores_def)

lemma step_tree:
  "step s s' \<Longrightarrow> bt_root_id s' = bt_root_id s \<and> bt_order s' = bt_order s \<and> pg_root s' = pg_root s \<and> pg_order s' = pg_order s"
  for s :: "'a bplus_tree_scheme"
  by (cases s; cases s') (auto simp: step_def)

text \<open>What every operation leaves as it is: the order, whether there is a data file and a log, and the transaction fields.\<close>

definition same_files :: "'a pager_scheme \<Rightarrow> 'b pager_scheme \<Rightarrow> bool" where
  "same_files s s' \<longleftrightarrow> pg_order s' = pg_order s \<and> (pg_file s' = None \<longleftrightarrow> pg_file s = None) \<and> (pg_wal s' = None \<longleftrightarrow> pg_wal s = None) \<and>
     pg_txn_writing s' = pg_txn_writing s \<and> pg_deferred s' = pg_deferred s \<and> pg_next_txn_id s' = pg_next_txn_id s"

lemma same_files_refl [simp]: "same_files s s"
  by (simp add: same_files_def)

lemma same_files_trans: "same_files s s' \<Longrightarrow> same_files s' s'' \<Longrightarrow> same_files s s''"
  by (simp add: same_files_def)

lemma step_same: "step s s' \<Longrightarrow> same_files s s'"
  by (simp add: step_def same_files_def)

text \<open>Reading: the state changes in its pool only.\<close>

lemma stores_step:
  assumes "stores s t n a b R" "step s s'" "holds s' V n a' b' {}" "reps V t"
  shows "stores s' t n a' b' R"
  using assms step_tree [OF assms(2)] by (auto simp: stores_def)

subsection \<open>The leaves\<close>

fun bt_leafs :: "bt \<Rightarrow> (nat \<times> (int \<times> bytes) list \<times> nat option) list" where
  "bt_leafs (Lf p es nx) = [(p, es, nx)]"
| "bt_leafs (Nd p ks ts) = concat (map bt_leafs ts)"

abbreviation leaf_es :: "nat \<times> (int \<times> bytes) list \<times> nat option \<Rightarrow> (int \<times> bytes) list" where
  "leaf_es l \<equiv> fst (snd l)"

lemma map_cong_concat: "(\<And>t. t \<in> set ts \<Longrightarrow> g t = map f (h t)) \<Longrightarrow> concat (map g ts) = map f (concat (map h ts))"
  by (induction ts) auto

lemma bt_leaves_leafs: "bt_leaves t = map (\<lambda>(p, es, nx). (p, nx)) (bt_leafs t)"
proof (induction t)
  case (Nd p ks ts)
  then show ?case unfolding bt_leaves.simps bt_leafs.simps by (rule map_cong_concat)
qed simp

lemma bt_es_leafs: "bt_es t = concat (map leaf_es (bt_leafs t))"
proof (induction t)
  case (Nd p ks ts)
  then have "map bt_es ts = map (\<lambda>t. concat (map leaf_es (bt_leafs t))) ts" by simp
  then have "bt_es (Nd p ks ts) = concat (map (\<lambda>t. concat (map leaf_es (bt_leafs t))) ts)" by (simp only: bt_es.simps)
  also have "\<dots> = concat (map leaf_es (concat (map bt_leafs ts)))" by (induction ts) simp_all
  finally show ?case by (simp only: bt_leafs.simps)
qed simp

lemma reps_leafs: "reps V t \<Longrightarrow> (p, es, nx) \<in> set (bt_leafs t) \<Longrightarrow> V p = Some (LN es nx)"
  by (induction t) auto

lemma length_leafs: "length (bt_leafs t) \<le> length (bt_pids t)"
proof (induction t)
  case (Nd p ks ts)
  then have "sum_list (map (\<lambda>t. length (bt_leafs t)) ts) \<le> sum_list (map (\<lambda>t. length (bt_pids t)) ts)"
    by (intro sum_list_mono) simp
  then show ?case by (simp add: length_concat o_def)
qed simp

text \<open>The descent for a key ends in the leaf that separates the smaller from the larger keys.\<close>

lemma bt_leaf_split:
  "bt_inv h m q lo hi t \<Longrightarrow> \<exists>p es nx pre post. bt_leaf k t = Lf p es nx \<and> bt_leafs t = pre @ (p, es, nx) # post \<and>
     (\<forall>x \<in> fst ` set (concat (map leaf_es pre)). x < k) \<and> (\<forall>x \<in> fst ` set (concat (map leaf_es post)). k < x)"
proof (induction h arbitrary: q lo hi t)
  case 0
  then obtain p es nx where t: "t = Lf p es nx" by (elim bt_inv_0E)
  show ?case by (rule exI [of _ p], rule exI [of _ es], rule exI [of _ nx], rule exI [of _ "[]"], rule exI [of _ "[]"]) (simp add: t)
next
  case (Suc h)
  then obtain p ks ts where t: "t = Nd p ks ts" "length ts = Suc (length ks)"
      "bchain (bt_inv h m (m div 2)) lo (ks @ [hi]) ts"
    by (elim bt_inv_SucE)
  let ?i = "child_pos ks k"
  note hole = hole_any [OF t(3,2), of k]
  from Suc.IH [OF hole(2)] obtain p' es nx pre post where c: "bt_leaf k (ts ! ?i) = Lf p' es nx"
    "bt_leafs (ts ! ?i) = pre @ (p', es, nx) # post"
    "\<forall>x \<in> fst ` set (concat (map leaf_es pre)). x < k" "\<forall>x \<in> fst ` set (concat (map leaf_es post)). k < x"
    by (elim exE conjE) (rule that)
  let ?A = "concat (map bt_leafs (take ?i ts))" and ?B = "concat (map bt_leafs (drop (Suc ?i) ts))"
  have es: "concat (map bt_es us) = concat (map leaf_es (concat (map bt_leafs us)))" for us
    by (induction us) (simp_all add: bt_es_leafs [of "u :: bt" for u])
  have "bt_leafs t = (?A @ pre) @ (p', es, nx) # (post @ ?B)"
    using concat_update [OF hole(1), of bt_leafs "ts ! ?i"] c(2) t(1) by simp
  moreover have "\<forall>x \<in> fst ` set (concat (map leaf_es (?A @ pre))). x < k"
    using hole(3) [unfolded es] c(3) unfolding map_append concat_append set_append image_Un ball_Un by blast
  moreover have "\<forall>x \<in> fst ` set (concat (map leaf_es (post @ ?B))). k < x"
    using hole(4) [unfolded es] c(4) unfolding map_append concat_append set_append image_Un ball_Un by blast
  moreover have "bt_leaf k t = Lf p' es nx" using t(1) hole(1) c(1) by (simp add: Let_def)
  ultimately show ?case by (intro exI conjI)
qed

subsection \<open>Search\<close>

theorem tree_search_step:
  assumes st: "stores s t n a b R"
  shows "runs (tree_search key) s (\<lambda>x s'. x = map_of (bt_es t) key \<and> step s s' \<and> stores s' t n a b R)"
proof -
  obtain V h where s: "bt_root_id s = bt_id t" "holds s V n a b {}" "reps V t"
    "bt_inv h (pg_order s) (root_min h) 0 KEY_END t" "h < n"
    using st by (elim storesE)
  have n: "pg_next_id s = n" using s(2) by (simp add: holds_def)
  obtain nd where nd: "V (bt_id t) = Some nd" using s(3) by (cases t) auto
  show ?thesis
    unfolding tree_search_def find_leaf_def tree_fuel_def runs_bnd runs_basic s(1) n
  proof (rule get_page_law [OF s(2) nd], goal_cases)
    case s1: (1 r s1)
    have "h < Suc n" using s(5) by simp
    then show ?case
    proof (rule find_leaf_law [OF s(4) _ s(3) s1(2,3)], goal_cases)
      case leaf: (1 r' s' p es nx)
      have find: "map_of es key = map_of (bt_es t) key"
        using bt_find_ok [OF s(4), of key] leaf(3) by (simp add: bt_find_leaf)
      have "keys_sorted es"
        using bt_leaf_split [OF s(4), of key] leaf(3) stores_sorted [OF st]
        by (auto simp: bt_es_leafs keys_sorted_append)
      then show ?case
        by (rule leaf_search_law [OF leaf(2,5,4)])
          (use find stores_step [OF st step_trans [OF s1(1) leaf(1)] leaf(2) s(3)] step_trans [OF s1(1) leaf(1)] in simp)
    qed
  qed
qed

lemma tree_search_law:
  "stores s t n a b R \<Longrightarrow> runs (tree_search key) s (\<lambda>x s'. x = map_of (bt_es t) key \<and> same_files s s' \<and> stores s' t n a b R)"
  by (rule runs_weaken [OF tree_search_step]) (auto intro: step_same)

subsection \<open>Range scan\<close>

lemma scan_entries_ok:
  "keys_sorted es \<Longrightarrow> scan_entries lo hi es res = (\<exists>x \<in> fst ` set es. hi < x, res @ range_sorted lo hi es)"
proof (induction es arbitrary: res)
  case (Cons e es)
  obtain k v where e: "e = (k, v)" by (cases e)
  show ?case
  proof (cases "hi < k")
    case True
    then have "range_sorted lo hi (e # es) = []" using Cons.prems e by (intro range_sorted_above) auto
    then show ?thesis using True e by simp
  next
    case False
    then show ?thesis using Cons e by (auto simp: range_sorted_def)
  qed
qed (simp add: range_sorted_def)

lemma range_loop_law:
  assumes "links (map (\<lambda>(p, es, nx). (p, nx)) ((p, es, nx) # post)) None"
    and "\<forall>(q, es', nx') \<in> set ((p, es, nx) # post). V q = Some (LN es' nx')"
    and "keys_sorted (concat (map leaf_es ((p, es, nx) # post)))"
    and "length post < fuel" and "holds s V n a b D" and "cached s p = Some r"
  shows "runs (range_loop fuel lo hi r res) s (\<lambda>x s'. x = res @ range_sorted lo hi (concat (map leaf_es ((p, es, nx) # post)))
    \<and> step s s' \<and> holds s' V n a b D)"
  using assms
proof (induction post arbitrary: p es nx fuel s r res)
  case Nil
  then obtain f where f: "fuel = Suc f" by (cases fuel) auto
  have v: "V p = Some (LN es nx)" "nx = None" "keys_sorted es" using Nil(1,2,3) by simp_all
  show ?case
    unfolding f range_loop.simps runs_bnd [of "leaf_get r leaf_entries"]
    by (rule leaf_entries_law [OF Nil(5,6) v(1)])
      (use Nil(5) v in \<open>auto simp: scan_entries_ok runs_simps intro!: as_leaf_law [OF Nil(5,6) v(1)]\<close>)
next
  case (Cons l post)
  obtain p' es' nx' where l: "l = (p', es', nx')" by (cases l)
  obtain f where f: "fuel = Suc f" "length post < f" using Cons.prems(4) by (cases fuel) auto
  let ?rest = "concat (map leaf_es ((p', es', nx') # post))"
  have v: "V p = Some (LN es nx)" "nx = Some p'" "V p' = Some (LN es' nx')"
    "links (map (\<lambda>(p, es, nx). (p, nx)) ((p', es', nx') # post)) None"
    "\<forall>(q, es', nx') \<in> set ((p', es', nx') # post). V q = Some (LN es' nx')"
    using Cons.prems(1,2) l by simp_all
  have "keys_sorted (es @ ?rest)" using Cons.prems(3) l by simp
  then have srt: "keys_sorted es" "keys_sorted ?rest" "\<forall>x \<in> fst ` set es. \<forall>y \<in> fst ` set ?rest. x < y"
    unfolding keys_sorted_append by blast+
  show ?case
    unfolding f(1) range_loop.simps runs_bnd [of "leaf_get r leaf_entries"]
  proof (rule leaf_entries_law [OF Cons.prems(5,6) v(1)], cases "\<exists>x \<in> fst ` set es. hi < x")
    case True
    then have "\<forall>y \<in> fst ` set ?rest. hi < y" using srt(3) by (meson less_trans)
    then have "range_sorted lo hi ?rest = []" by (rule range_sorted_above)
    then show "runs (case scan_entries lo hi es res of (stop, results) \<Rightarrow> if stop then ret results else
        bnd (as_leaf r) (\<lambda>leaf. case lf_next leaf of None \<Rightarrow> ret results
          | Some nxt \<Rightarrow> bnd (get_page nxt) (\<lambda>r'. range_loop f lo hi r' results))) s
      (\<lambda>x s'. x = res @ range_sorted lo hi (concat (map leaf_es ((p, es, nx) # l # post))) \<and> step s s' \<and> holds s' V n a b D)"
      using True srt(1) Cons.prems(5) l by (simp add: scan_entries_ok runs_simps)
  next
    case False
    have "runs (as_leaf r) s (\<lambda>leaf s1. runs (case lf_next leaf of None \<Rightarrow> ret (res @ range_sorted lo hi es)
          | Some nxt \<Rightarrow> bnd (get_page nxt) (\<lambda>r'. range_loop f lo hi r' (res @ range_sorted lo hi es))) s1
      (\<lambda>x s'. x = (res @ range_sorted lo hi es) @ range_sorted lo hi ?rest \<and> step s s' \<and> holds s' V n a b D))"
    proof (rule as_leaf_law [OF Cons.prems(5,6) v(1)], goal_cases)
      case (1 leaf)
      show ?case
        unfolding 1(5) v(2) option.case runs_bnd
      proof (rule get_page_law [OF Cons.prems(5) v(3)], goal_cases)
        case s1: (1 r' s1)
        show ?case
          by (rule runs_weaken [OF Cons.IH [OF v(4,5) srt(2) f(2) s1(2,3)]]) (use step_trans [OF s1(1)] in auto)
      qed
    qed
    then show "runs (case scan_entries lo hi es res of (stop, results) \<Rightarrow> if stop then ret results else
        bnd (as_leaf r) (\<lambda>leaf. case lf_next leaf of None \<Rightarrow> ret results
          | Some nxt \<Rightarrow> bnd (get_page nxt) (\<lambda>r'. range_loop f lo hi r' results))) s
      (\<lambda>x s'. x = res @ range_sorted lo hi (concat (map leaf_es ((p, es, nx) # l # post))) \<and> step s s' \<and> holds s' V n a b D)"
      using False srt(1) l by (simp add: scan_entries_ok runs_simps)
  qed
qed

theorem range_scan_step:
  assumes st: "stores s t n a b R"
  shows "runs (range_scan lo hi) s (\<lambda>x s'. x = range_sorted lo hi (bt_es t) \<and> step s s' \<and> stores s' t n a b R)"
proof -
  obtain V h where s: "bt_root_id s = bt_id t" "holds s V n a b {}" "reps V t"
    "bt_inv h (pg_order s) (root_min h) 0 KEY_END t" "h < n" "links (bt_leaves t) None" "distinct (bt_pids t)"
    using st by (elim storesE)
  have n: "pg_next_id s = n" using s(2) by (simp add: holds_def)
  obtain nd where nd: "V (bt_id t) = Some nd" using s(3) by (cases t) auto
  show ?thesis
    unfolding range_scan_def find_leaf_def tree_fuel_def runs_bnd runs_basic s(1) n
  proof (rule get_page_law [OF s(2) nd], goal_cases)
    case s1: (1 r s1)
    have "h < Suc n" using s(5) by simp
    then show ?case
    proof (rule find_leaf_law [OF s(4) _ s(3) s1(2,3)], goal_cases)
      case leaf: (1 r' s' p es nx)
      obtain pre post where split: "bt_leafs t = pre @ (p, es, nx) # post"
        "\<forall>x \<in> fst ` set (concat (map leaf_es pre)). x < lo"
        using bt_leaf_split [OF s(4), of lo] leaf(3) by (elim exE conjE) (rule that, simp_all)
      let ?suf = "(p, es, nx) # post"
      have es: "bt_es t = concat (map leaf_es pre) @ concat (map leaf_es ?suf)"
        by (simp add: bt_es_leafs split(1))
      have "range_sorted lo hi (bt_es t) = range_sorted lo hi (concat (map leaf_es ?suf))"
        using range_sorted_below [OF split(2)] by (simp only: es range_sorted_append append_Nil)
      moreover have "keys_sorted (concat (map leaf_es ?suf))"
        using stores_sorted [OF st] by (simp only: es keys_sorted_append)
      moreover have "links (map (\<lambda>(p, es, nx). (p, nx)) ?suf) None"
        using s(6) by (simp add: bt_leaves_leafs split(1) links_append)
      moreover have "\<forall>(q, es', nx') \<in> set ?suf. V q = Some (LN es' nx')"
        using reps_leafs [OF s(3)] by (auto simp: split(1))
      moreover have "length post < Suc n"
      proof -
        have "set (bt_pids t) \<subseteq> {..<n}" using reps_pids_less [OF s(2,3)] by auto
        then have "card (set (bt_pids t)) \<le> n" using card_mono [of "{..<n}"] by fastforce
        then have "length (bt_pids t) \<le> n" using s(7) by (simp add: distinct_card)
        then show ?thesis using length_leafs [of t] by (simp add: split(1))
      qed
      ultimately show ?case
        using range_loop_law [of p es nx post V "Suc n" s' n a b "{}" r' lo hi "[]"] leaf(2,5)
          stores_step [OF st step_trans [OF step_trans [OF s1(1) leaf(1)]] _ s(3)] step_trans [OF step_trans [OF s1(1) leaf(1)]]
        by (auto elim!: runs_weaken)
    qed
  qed
qed

lemma range_scan_law:
  "stores s t n a b R \<Longrightarrow> runs (range_scan lo hi) s (\<lambda>x s'. x = range_sorted lo hi (bt_es t) \<and> same_files s s' \<and> stores s' t n a b R)"
  by (rule runs_weaken [OF range_scan_step]) (auto intro: step_same)

subsection \<open>Insertion\<close>

fun bt_height :: "bt \<Rightarrow> nat" where
  "bt_height (Lf p es nx) = 0"
| "bt_height (Nd p ks ts) = Suc (if 0 < length ts then bt_height (ts ! 0) else 0)"

lemma bt_height_inv: "bt_inv h m q lo hi t \<Longrightarrow> bt_height t = h"
proof (induction h arbitrary: q lo hi t)
  case 0
  then show ?case by (elim bt_inv_0E) simp
next
  case (Suc h)
  then obtain p ks ts where t: "t = Nd p ks ts" "length ts = Suc (length ks)"
      "bchain (bt_inv h m (m div 2)) lo (ks @ [hi]) ts"
    by (elim bt_inv_SucE)
  then obtain c cs where ts: "ts = c # cs" by (cases ts) auto
  then obtain l u where "bt_inv h m (m div 2) l u c" using bchain_all [OF t(3), of c] by auto
  then show ?case using Suc.IH t(1) ts by simp
qed

lemma holds_cong:
  assumes "pg_pool s' = pg_pool s" "pg_objs s' = pg_objs s" "pg_next_id s' = pg_next_id s" "pg_order s' = pg_order s"
    "pg_file s' = pg_file s" "pg_wal s' = pg_wal s"
  shows "holds s' V n a b D = holds s V n a b D"
proof -
  have "cached s' = cached s" "is_dirty s' = is_dirty s" "disk_node s' = disk_node s" "limit s' = limit s" "log_room s' b = log_room s b"
    using assms by (simp_all add: cached_def is_dirty_def disk_node_def limit_def log_room_def fun_eq_iff cong: option.case_cong)
  moreover from this have "nview s' = nview s" using assms(2) by (simp add: nview_def fun_eq_iff cong: option.case_cong)
  ultimately show ?thesis using assms by (simp add: holds_def pool_ok_def saved_def)
qed

lemma set_root_law:
  assumes h: "holds s V n a (Suc b) D" and v: "V root = Some nd"
    and Q: "\<And>s'. bt_root_id s' = root \<Longrightarrow> pg_root s' = Some root \<Longrightarrow> same_files s s' \<Longrightarrow> holds s' V n a b D \<Longrightarrow> Q () s'"
  shows "runs (set_root root) s Q"
proof -
  let ?s = "s\<lparr>bt_root_id := root, pg_root := Some root\<rparr>"
  have h': "holds ?s V n a (Suc b) D" using h by (subst holds_cong [of _ s]) simp_all
  have "runs log_meta_update ?s Q"
  proof (rule log_meta_law [OF h'], goal_cases)
    case (1 r)
    then show ?case using holds_NO_NEXT [OF h v] by simp
  next
    case (2 s')
    then show ?case using step_tree [OF 2(1)] step_same [OF 2(1)] by (intro Q) (simp_all add: same_files_def)
  qed
  then show ?thesis by (simp add: set_root_def runs_simps)
qed

lemma reps_id: "reps V t \<Longrightarrow> \<exists>nd. V (bt_id t) = Some nd"
  by (cases t) auto

lemma ins_distinct:
  assumes run: "bt_ins m k v t n = (t', sr, n')" and d: "distinct (bt_pids t)" "\<forall>q \<in> set (bt_pids t). q < n"
  shows "distinct (bt_pids t' @ opt_pids sr)" "\<forall>q \<in> set (bt_pids t' @ opt_pids sr). q < n'" "n \<le> n'" "bt_id t' = bt_id t"
proof -
  note pids = bt_ins_pids [OF run]
  show n: "n \<le> n'" "bt_id t' = bt_id t" using pids by blast+
  have eq: "mset (bt_pids t' @ opt_pids sr) = mset (bt_pids t @ [n..<n'])" using pids by simp
  have "distinct (bt_pids t @ [n..<n'])" using d by auto
  then show "distinct (bt_pids t' @ opt_pids sr)" using mset_eq_imp_distinct_iff [OF eq] by blast
  have "set (bt_pids t' @ opt_pids sr) = set (bt_pids t @ [n..<n'])" by (rule mset_eq_setD [OF eq])
  then show "\<forall>q \<in> set (bt_pids t' @ opt_pids sr). q < n'" using d(2) n(1) by auto
qed

lemma new_root_law:
  assumes h: "holds s V n (Suc a) (Suc (Suc b)) {}" and t: "reps V t" "reps V r"
    and sep: "key_ok sep" and Q: "\<And>s'. bt_root_id s' = n \<Longrightarrow> pg_root s' = Some n \<Longrightarrow> same_files s s' \<Longrightarrow>
      holds s' (V(n \<mapsto> IN [sep] [bt_id t, bt_id r])) (Suc n) a b {} \<Longrightarrow> Q () s'"
  shows "runs (bnd new_index_page (\<lambda>new_root.
         bnd (upd_index new_root (\<lambda>p. p\<lparr>ix_keys := [sep]\<rparr>)) (\<lambda>_.
         bnd (upd_index new_root (\<lambda>p. p\<lparr>ix_children := [bt_id t, bt_id r]\<rparr>)) (\<lambda>_.
         bnd (pg_mark_dirty new_root) (\<lambda>_.
         bnd (obj new_root) (\<lambda>pg. set_root (pg_id pg))))))) s Q"
  unfolding runs_bnd [of new_index_page]
proof (rule new_index_law [OF h], goal_cases)
  case s1: (1 rr s1)
  have ids: "bt_id t < NO_NEXT" "bt_id r < NO_NEXT"
    using reps_id [OF t(1)] reps_id [OF t(2)] holds_NO_NEXT [OF h] by blast+
  have f: "node_fits (IN [sep] [])" "node_fits (IN [sep] [bt_id t, bt_id r])" using sep ids by simp_all
  have v1: "(V(n \<mapsto> IN [] [])) n = Some (IN [] [])" by simp
  show ?case
    unfolding runs_bnd [of "upd_index rr (\<lambda>p. p\<lparr>ix_keys := [sep]\<rparr>)"]
  proof (rule upd_index_law [OF s1(2,3) v1 _ _ f(1)], simp, simp, goal_cases)
    case s2: (1 s2)
    have c2: "cached s2 n = Some rr" by (rule step_cached [OF s2(1) s1(3)])
    have v2: "(V(n \<mapsto> IN [] [], n \<mapsto> IN [sep] [])) n = Some (IN [sep] [])" by simp
    show ?case
      unfolding runs_bnd [of "upd_index rr (\<lambda>p. p\<lparr>ix_children := [bt_id t, bt_id r]\<rparr>)"]
    proof (rule upd_index_law [OF s2(2) c2 v2 _ _ f(2)], simp, simp, goal_cases)
      case s3: (1 s3)
      let ?V = "V(n \<mapsto> IN [sep] [bt_id t, bt_id r])"
      have h3: "holds s3 ?V (Suc n) a (Suc (Suc b)) {n}" using s3(2) unfolding fun_upd_upd by simp
      have c3: "cached s3 n = Some rr" by (rule step_cached [OF s3(1) c2])
      have v3: "?V n = Some (IN [sep] [bt_id t, bt_id r])" by simp
      show ?case
        unfolding runs_bnd [of "pg_mark_dirty rr"]
      proof (rule mark_dirty_law [OF h3 c3 v3], goal_cases)
        case s4: (1 s4)
        have c4: "cached s4 n = Some rr" by (rule step_cached [OF s4(1) c3])
        have m4: "same_files s s4"
          using step_same [OF step_trans [OF s1(1) step_trans [OF s2(1) step_trans [OF s3(1) s4(1)]]]] .
        have h4: "holds s4 ?V (Suc n) a (Suc b) {}" by (rule holds_weaken [OF s4(2) map_le_refl]) simp_all
        show ?case
          unfolding runs_bnd [of "obj rr"]
        proof (rule obj_law [OF h4 c4 v3], goal_cases)
          case (1 pg)
          then have id: "pg_id pg = n" by (simp add: page_ok_def)
          show ?case
            unfolding id
          proof (rule set_root_law [OF h4 v3], goal_cases)
            case (1 s')
            show ?case by (rule Q [OF 1(1,2) same_files_trans [OF m4 1(3)] 1(4)])
          qed
        qed
      qed
    qed
  qed
qed

theorem tree_insert_law:
  assumes st: "stores s t n (a + bt_height t + 2) (b + 2 * bt_height t + 4) R" and k: "key_ok k" and v: "length v \<le> R"
  shows "runs (tree_insert k v) s (\<lambda>_ s'. same_files s s' \<and>
    stores s' (fst (bt_insert (pg_order s) k v t n)) (snd (bt_insert (pg_order s) k v t n)) a b R)"
proof -
  let ?m = "pg_order s"
  obtain V h where s: "bt_root_id s = bt_id t" "pg_root s = Some (bt_id t)"
    "holds s V n (a + bt_height t + 2) (b + 2 * bt_height t + 4) {}" "reps V t"
    "distinct (bt_pids t)" "bt_inv h ?m (root_min h) 0 KEY_END t" "sizes ?m R" "recs R (bt_es t)" "h < n"
    using st by (elim storesE)
  have bh: "bt_height t = h" by (rule bt_height_inv [OF s(6)])
  have h1: "holds s V n (Suc a + Suc h) (Suc (Suc b) + 2 * Suc h) {}"
    using s(3) unfolding bh by (rule holds_weaken) simp_all
  have less: "\<forall>q \<in> set (bt_pids t). q < n" using reps_pids_less [OF s(3,4)] by blast
  have m: "1 \<le> ?m" using s(7) by (simp add: sizes_def)
  have bok: "bt_ok ?m t" using st by (simp add: stores_def)
  obtain t' sr n' where run: "bt_ins ?m k v t n = (t', sr, n')" by (metis prod_cases3)
  note dis = ins_distinct [OF run s(5) less]
  note cor = bt_insert_correct [OF bok k m, of v n]
  have kb: "0 \<le> k" "k < KEY_END" using k by (simp_all add: key_ok_bounds)
  have n: "pg_next_id s = n" using s(3) by (simp add: holds_def)
  have "runs (tree_ins (Suc n) (bt_id t) k v) s (ins_post s V n (Suc a) (Suc (Suc b)) {} (set (bt_pids t)) (bt_ins ?m k v t n))"
    by (rule tree_ins_law [OF s(7) v s(6) _ s(4,5) h1 refl s(8)]) (use s(9) kb in simp_all)
  then show ?thesis
    unfolding tree_insert_def tree_fuel_def runs_bnd runs_basic n s(1)
  proof (rule runs_weaken)
    fix res s1 assume "ins_post s V n (Suc a) (Suc (Suc b)) {} (set (bt_pids t)) (bt_ins ?m k v t n) res s1"
    then obtain V1 where p: "step s s1" "res = map_option (\<lambda>(sep, rt). (sep, bt_id rt)) sr"
      "holds s1 V1 n' (Suc a) (Suc (Suc b)) {}" "reps V1 t'" "\<And>sep rt. sr = Some (sep, rt) \<Longrightarrow> reps V1 rt"
      by (auto simp: run ins_post_def)
    note root = step_tree [OF p(1)]
    have rc: "recs R (bt_es (fst (bt_insert ?m k v t n)))" using cor recs_ins [OF s(8) v] by simp
    show "runs (case res of None \<Rightarrow> ret () | Some (push_up_key, new_page_id) \<Rightarrow>
         bnd new_index_page (\<lambda>new_root.
         bnd (upd_index new_root (\<lambda>p. p\<lparr>ix_keys := [push_up_key]\<rparr>)) (\<lambda>_.
         bnd (upd_index new_root (\<lambda>p. p\<lparr>ix_children := [bt_id t, new_page_id]\<rparr>)) (\<lambda>_.
         bnd (pg_mark_dirty new_root) (\<lambda>_.
         bnd (obj new_root) (\<lambda>pg. set_root (pg_id pg))))))) s1 (\<lambda>_ s'. same_files s s' \<and>
      stores s' (fst (bt_insert ?m k v t n)) (snd (bt_insert ?m k v t n)) a b R)"
    proof (cases sr)
      case None
      have "holds s1 V1 n' a b {}" by (rule holds_weaken [OF p(3) map_le_refl]) simp_all
      then show ?thesis
        using None p(2,4) root step_same [OF p(1)] s(1,2,7) dis(1,4) cor rc
        by (auto simp: runs_simps bt_insert_def run stores_def opt_pids_def)
    next
      case (Some x)
      then obtain sep rt where sr: "sr = Some (sep, rt)" by (cases x) auto
      have ins: "bt_insert ?m k v t n = (Nd n' [sep] [t', rt], Suc n')" using run sr by (simp add: bt_insert_def)
      have "ins_ok h ?m (root_min h) 0 KEY_END k v t (t', sr, n')"
        using bt_ins_ok [OF s(6), of k v n] kb m run by simp
      then have "0 < sep" "sep < KEY_END" by (simp_all add: ins_ok_def sr)
      then have sep: "key_ok sep" by (simp add: key_ok_bounds)
      have m1: "same_files s s1" by (rule step_same [OF p(1)])
      show ?thesis
        unfolding p(2) sr option.map prod.case option.case dis(4) [symmetric]
      proof (rule new_root_law [OF p(3,4) p(5) [OF sr] sep], goal_cases)
        case s2: (1 s2)
        have "reps (V1(n' \<mapsto> IN [sep] [bt_id t', bt_id rt])) (Nd n' [sep] [t', rt])"
          using p(4) p(5) [OF sr] dis(2) sr by (auto simp: opt_pids_def intro!: reps_upd_other)
        moreover have "distinct (bt_pids (Nd n' [sep] [t', rt]))"
          using dis(1,2) sr by (auto simp: opt_pids_def)
        ultimately have "stores s2 (Nd n' [sep] [t', rt]) (Suc n') a b R"
          using s2 s(7) cor rc m1 unfolding ins same_files_def fst_conv stores_def by (simp del: reps.simps bt_pids.simps) blast
        then show ?case unfolding ins fst_conv snd_conv using same_files_trans [OF m1 s2(3)] by blast
      qed
    qed
  qed
qed

end
