(* ===== verification/Sibling_Laws.thy ===== *)
theory Sibling_Laws
  imports Tree_Store
begin

section \<open>Borrowing and merging on pages\<close>

text \<open>
  The three page objects of \<^verbatim>\<open>_borrow_from_right\<close>, \<^verbatim>\<open>_borrow_from_left\<close> and \<^verbatim>\<open>_merge_pages\<close>, for
  leaves and for index pages, as updates of the map of nodes.
\<close>

lemma py_nth_Cons [simp]: "py_nth (x # xs) 0 = Inr x"
  by (simp add: py_nth_def)

lemma mark_three_law:
  assumes h: "holds s V n a (Suc (Suc (Suc b))) D'" and c: "cached s x = Some rx" "cached s y = Some ry" "cached s z = Some rz"
    and v: "V x = Some nx" "V y = Some ny" "V z = Some nz" and D: "D' \<subseteq> {x, y, z} \<union> D"
    and Q: "\<And>s'. step s s' \<Longrightarrow> holds s' V n a b D \<Longrightarrow> Q () s'"
  shows "runs (mark_three rx ry rz) s Q"
  unfolding mark_three_def runs_bnd
proof (rule mark_dirty_law [OF h c(1) v(1)], goal_cases)
  case s1: (1 s1)
  show ?case
  proof (rule mark_dirty_law [OF s1(2) step_cached [OF s1(1) c(2)] v(2)], goal_cases)
    case s2: (1 s2)
    have c2: "cached s2 z = Some rz" using step_cached [OF step_trans [OF s1(1) s2(1)] c(3)] .
    show ?case
    proof (rule mark_dirty_law [OF s2(2) c2 v(3)], goal_cases)
      case s3: (1 s3)
      show ?case
        by (rule Q [OF step_trans [OF step_trans [OF s1(1) s2(1)] s3(1)] holds_weaken [OF s3(2) map_le_refl]]) (use D in auto)
    qed
  qed
qed

lemma mark_two_law:
  assumes h: "holds s V n a (Suc (Suc b)) D'" and c: "cached s x = Some rx" "cached s y = Some ry"
    and v: "V x = Some nx" "V y = Some ny" and D: "D' \<subseteq> {x, y} \<union> D"
    and Q: "\<And>s'. step s s' \<Longrightarrow> holds s' V n a b D \<Longrightarrow> Q () s'"
  shows "runs (bnd (pg_mark_dirty rx) (\<lambda>_. pg_mark_dirty ry)) s Q"
  unfolding runs_bnd
proof (rule mark_dirty_law [OF h c(1) v(1)], goal_cases)
  case s1: (1 s1)
  show ?case
  proof (rule mark_dirty_law [OF s1(2) step_cached [OF s1(1) c(2)] v(2)], goal_cases)
    case s2: (1 s2)
    show ?case
      by (rule Q [OF step_trans [OF s1(1) s2(1)] holds_weaken [OF s2(2) map_le_refl]]) (use D in auto)
  qed
qed

text \<open>\<^verbatim>\<open>parent.keys[i] = k\<close>\<close>

lemma set_parent_key_law:
  assumes h: "holds s V n a b D" and c: "cached s p = Some rp" and v: "V p = Some (IN ks cs)"
    and i: "i < length ks" and fit: "node_fits (IN ks cs)" and k: "key_ok k"
    and Q: "\<And>s'. step s s' \<Longrightarrow> holds s' (V(p \<mapsto> IN (ks[i := k]) cs)) n a b (insert p D) \<Longrightarrow> Q () s'"
  shows "runs (bnd (as_index rp) (\<lambda>pp. set_keys rp (set_nth (ix_keys pp) i k))) s Q"
  unfolding runs_bnd
proof (rule as_index_law [OF h c v], goal_cases)
  case (1 pp)
  have "node_fits (IN (ks[i := k]) cs)" using fit k set_update_subset_insert [of ks i k] by auto
  then show ?case
    using i 1(4) by (simp add: set_nth_def) (rule set_keys_law [OF h c v], simp_all add: Q)
qed

lemma borrow_right_leaf_law:
  assumes h: "holds s V n a (Suc (Suc (Suc b))) D" and c: "cached s x = Some rx" "cached s y = Some ry" "cached s p = Some rp"
    and d: "distinct [x, y, p]" and v: "V x = Some (LN es nx)" "V y = Some (LN (e1 # e2 # es2) ny)" "V p = Some (IN ks cs)"
    and i: "i < length ks" and fit: "node_fits (IN ks cs)"
    and es: "keys_sorted es" "es_ok (ins_sorted (fst e1) (snd e1) es)" "es_ok (e2 # es2)"
    and Q: "\<And>s'. step s s' \<Longrightarrow> holds s' (V(x \<mapsto> LN (ins_sorted (fst e1) (snd e1) es) nx, y \<mapsto> LN (e2 # es2) ny,
      p \<mapsto> IN (ks[i := fst e2]) cs)) n a b D \<Longrightarrow> Q () s'"
  shows "runs (borrow_from_right rx ry i rp True) s Q"
proof -
  let ?es = "ins_sorted (fst e1) (snd e1) es"
  obtain k1 r1 where e1: "e1 = (k1, r1)" by (cases e1)
  obtain k2 r2 where e2: "e2 = (k2, r2)" by (cases e2)
  have k2: "key_ok k2" using es(3) e2 by (simp add: es_ok_def)
  have xy: "x \<noteq> y" "x \<noteq> p" "y \<noteq> p" using d by simp_all
  show ?thesis
    unfolding borrow_from_right_def if_True runs_bnd [of _ "\<lambda>_. mark_three rx ry rp"] runs_bnd [of "leaf_get ry leaf_entries"]
  proof (rule leaf_entries_law [OF h c(2) v(2)], simp add: runs_simps e1 del: fun_upd_apply,
      rule leaf_rebuild_law [OF h c(2) v(2) es(3)], goal_cases)
    case s1: (1 s1)
    have v1: "(V(y \<mapsto> LN (e2 # es2) ny)) x = Some (LN es nx)" using v xy by simp
    show ?case
    proof (rule leaf_insert_law [OF s1(2) step_cached [OF s1(1) c(1)] v1 es(1) es(2) [unfolded e1 fst_conv snd_conv]], goal_cases)
      case s2: (1 s2)
      let ?V2 = "V(y \<mapsto> LN (e2 # es2) ny, x \<mapsto> LN ?es nx)"
      have h2: "holds s2 ?V2 n a (Suc (Suc (Suc b))) (insert x (insert y D))"
        unfolding e1 fst_conv snd_conv by (rule s2(2))
      have st2: "step s s2" by (rule step_trans [OF s1(1) s2(1)])
      have v2: "?V2 y = Some (LN (e2 # es2) ny)" "?V2 p = Some (IN ks cs)" using v xy by simp_all
      show ?case
      proof (rule leaf_entries_law [OF h2 step_cached [OF st2 c(2)] v2(1)], simp add: runs_simps e2 del: fun_upd_apply,
          rule set_parent_key_law [OF h2 step_cached [OF st2 c(3)] v2(2) i fit k2, unfolded runs_bnd], goal_cases)
        case s3: (1 s3)
        let ?V3 = "V(x \<mapsto> LN ?es nx, y \<mapsto> LN (e2 # es2) ny, p \<mapsto> IN (ks[i := fst e2]) cs)"
        have eq: "?V2(p \<mapsto> IN (ks[i := k2]) cs) = ?V3" using xy e2 by (simp add: fun_eq_iff)
        have h3: "holds s3 ?V3 n a (Suc (Suc (Suc b))) (insert p (insert x (insert y D)))" using s3(2) unfolding eq .
        have st3: "step s s3" by (rule step_trans [OF st2 s3(1)])
        have v3: "?V3 x = Some (LN ?es nx)" "?V3 y = Some (LN (e2 # es2) ny)" "?V3 p = Some (IN (ks[i := fst e2]) cs)"
          using xy by simp_all
        show ?case
          by (rule mark_three_law [where D = D, OF h3 step_cached [OF st3 c(1)] step_cached [OF st3 c(2)] step_cached [OF st3 c(3)] v3],
              blast, rule Q [OF step_trans [OF st3]])
      qed
    qed
  qed
qed

lemma borrow_left_leaf_law:
  assumes h: "holds s V n a (Suc (Suc (Suc b))) D" and c: "cached s x = Some rx" "cached s y = Some ry" "cached s p = Some rp"
    and d: "distinct [x, y, p]" and v: "V x = Some (LN (es @ [e]) nx)" "V y = Some (LN es' ny)" "V p = Some (IN ks cs)"
    and i: "i < length ks" and fit: "node_fits (IN ks cs)"
    and es: "keys_sorted es'" "es_ok es" "es_ok (ins_sorted (fst e) (snd e) es')"
    and Q: "\<And>s'. step s s' \<Longrightarrow> holds s' (V(x \<mapsto> LN es nx, y \<mapsto> LN (ins_sorted (fst e) (snd e) es') ny,
      p \<mapsto> IN (ks[i := fst e]) cs)) n a b D \<Longrightarrow> Q () s'"
  shows "runs (borrow_from_left ry rx (Suc i) rp True) s Q"
proof -
  let ?es = "ins_sorted (fst e) (snd e) es'"
  obtain k r where e: "e = (k, r)" by (cases e)
  have k: "key_ok k" using es(3) e by (simp add: es_ok_def)
  have xy: "x \<noteq> y" "x \<noteq> p" "y \<noteq> p" using d by simp_all
  show ?thesis
    unfolding borrow_from_left_def if_True runs_bnd [of _ "\<lambda>_. mark_three ry rx rp"] runs_bnd [of "leaf_get rx leaf_entries"]
  proof (rule leaf_entries_law [OF h c(1) v(1)], simp add: runs_simps e del: fun_upd_apply,
      rule leaf_rebuild_law [OF h c(1) v(1) es(2)], goal_cases)
    case s1: (1 s1)
    have v1: "(V(x \<mapsto> LN es nx)) y = Some (LN es' ny)" using v xy by simp
    show ?case
    proof (rule leaf_insert_law [OF s1(2) step_cached [OF s1(1) c(2)] v1 es(1) es(3) [unfolded e fst_conv snd_conv]], goal_cases)
      case s2: (1 s2)
      let ?V2 = "V(x \<mapsto> LN es nx, y \<mapsto> LN ?es ny)"
      have h2: "holds s2 ?V2 n a (Suc (Suc (Suc b))) (insert y (insert x D))"
        unfolding e fst_conv snd_conv by (rule s2(2))
      have st2: "step s s2" by (rule step_trans [OF s1(1) s2(1)])
      have v2: "?V2 p = Some (IN ks cs)" using v xy by simp
      show ?case
      proof (rule set_parent_key_law [OF h2 step_cached [OF st2 c(3)] v2 i fit k, unfolded runs_bnd], goal_cases)
        case s3: (1 s3)
        let ?V3 = "V(x \<mapsto> LN es nx, y \<mapsto> LN ?es ny, p \<mapsto> IN (ks[i := fst e]) cs)"
        have h3: "holds s3 ?V3 n a (Suc (Suc (Suc b))) (insert p (insert y (insert x D)))" using s3(2) by (simp only: e fst_conv snd_conv)
        have st3: "step s s3" by (rule step_trans [OF st2 s3(1)])
        have v3: "?V3 x = Some (LN es nx)" "?V3 y = Some (LN ?es ny)" "?V3 p = Some (IN (ks[i := fst e]) cs)"
          using xy by simp_all
        show ?case
          by (rule mark_three_law [where D = D, OF h3 step_cached [OF st3 c(2)] step_cached [OF st3 c(1)] step_cached [OF st3 c(3)] v3(2,1,3)],
              blast, rule Q [OF step_trans [OF st3]])
      qed
    qed
  qed
qed

lemma merge_leaf_law:
  assumes h: "holds s V n a (Suc (Suc b)) D" and c: "cached s x = Some rx" "cached s y = Some ry" "cached s p = Some rp"
    and d: "distinct [x, y, p]" and v: "V x = Some (LN es nx)" "V y = Some (LN es' ny)" "V p = Some (IN ks cs)"
    and i: "i < length ks" "Suc i < length cs" and fit: "node_fits (IN ks cs)" and es: "es_ok (es @ es')"
    and Q: "\<And>s'. step s s' \<Longrightarrow> holds s' (V(x \<mapsto> LN (es @ es') ny,
      p \<mapsto> IN (take i ks @ drop (Suc i) ks) (take (Suc i) cs @ drop (Suc (Suc i)) cs))) n a b D \<Longrightarrow> Q () s'"
  shows "runs (merge_pages rx ry i rp True) s Q"
proof -
  let ?ks = "take i ks @ drop (Suc i) ks" and ?cs = "take (Suc i) cs @ drop (Suc (Suc i)) cs"
  have xy: "x \<noteq> y" "x \<noteq> p" "y \<noteq> p" using d by simp_all
  have nxt: "\<And>q. ny = Some q \<Longrightarrow> q < NO_NEXT"
  proof -
    fix q assume q: "ny = Some q"
    have "page_ok (pg_order s) y (pg_objs s ! ry)" "node_of (pg_objs s ! ry) = LN es' ny"
      using h c(2) holds_view [OF h v(2)] by (auto simp: holds_def pool_ok_def nview_def)
    then show "q < NO_NEXT" using q by (cases "pg_objs s ! ry") (auto simp: page_ok_def leaf_fits_def)
  qed
  have f1: "node_fits (IN ?ks cs)" "node_fits (IN ?ks ?cs)"
    using fit i by (auto dest: in_set_takeD in_set_dropD)
  show ?thesis
    unfolding merge_pages_def if_True runs_bnd
  proof (rule leaf_entries_law [OF h c(1) v(1)], rule leaf_entries_law [OF h c(2) v(2)],
      rule leaf_rebuild_law [OF h c(1) v(1) es], goal_cases)
    case s1: (1 s1)
    let ?V1 = "V(x \<mapsto> LN (es @ es') nx)"
    have v1: "?V1 y = Some (LN es' ny)" "?V1 x = Some (LN (es @ es') nx)" using v xy by simp_all
    show ?case
    proof (rule as_leaf_law [OF s1(2) step_cached [OF s1(1) c(2)] v1(1)], simp only:,
        rule leaf_next_law [OF s1(2) step_cached [OF s1(1) c(1)] v1(2) nxt], assumption, goal_cases)
      case s2: (1 rl s2)
      let ?V2 = "V(x \<mapsto> LN (es @ es') ny)"
      have h2: "holds s2 ?V2 n a (Suc (Suc b)) (insert x D)" using s2(7) unfolding fun_upd_upd by simp
      have st2: "step s s2" by (rule step_trans [OF s1(1) s2(6)])
      have v2: "?V2 p = Some (IN ks cs)" using v xy by simp
      show ?case
      proof (rule as_index_law [OF h2 step_cached [OF st2 c(3)] v2], simp add: pop_nth_def i del: fun_upd_apply,
          rule set_keys_law [OF h2 step_cached [OF st2 c(3)] v2 f1(1)], goal_cases)
        case s3: (1 pp s3)
        have st3: "step s s3" by (rule step_trans [OF st2 s3(6)])
        have v3: "(?V2(p \<mapsto> IN ?ks cs)) p = Some (IN ?ks cs)" by simp
        show ?case
        proof (rule set_children_law [OF s3(7) step_cached [OF st3 c(3)] v3 f1(2)], goal_cases)
          case s4: (1 s4)
          let ?V4 = "V(x \<mapsto> LN (es @ es') ny, p \<mapsto> IN ?ks ?cs)"
          have h4: "holds s4 ?V4 n a (Suc (Suc b)) (insert p (insert x D))" using s4(2) unfolding fun_upd_upd by simp
          have st4: "step s s4" by (rule step_trans [OF st3 s4(1)])
          have v4: "?V4 x = Some (LN (es @ es') ny)" "?V4 p = Some (IN ?ks ?cs)" using xy by simp_all
          show ?case
            by (rule mark_two_law [where D = D, unfolded runs_bnd, OF h4 step_cached [OF st4 c(1)] step_cached [OF st4 c(3)] v4],
                blast, rule Q [OF step_trans [OF st4]])
        qed
      qed
    qed
  qed
qed

lemma borrow_right_index_law:
  assumes h: "holds s V n a (Suc (Suc (Suc b))) D" and c: "cached s x = Some rx" "cached s y = Some ry" "cached s p = Some rp"
    and d: "distinct [x, y, p]" and v: "V x = Some (IN kx cx)" "V y = Some (IN (k1 # k2) (c1 # c2))" "V p = Some (IN ks cs)"
    and i: "i < length ks" and fit: "node_fits (IN ks cs)" "node_fits (IN (k1 # k2) (c1 # c2))" "node_fits (IN (kx @ [ks ! i]) (cx @ [c1]))"
    and Q: "\<And>s'. step s s' \<Longrightarrow> holds s' (V(x \<mapsto> IN (kx @ [ks ! i]) (cx @ [c1]), y \<mapsto> IN k2 c2,
      p \<mapsto> IN (ks[i := k1]) cs)) n a b D \<Longrightarrow> Q () s'"
  shows "runs (borrow_from_right rx ry i rp False) s Q"
proof -
  have xy: "x \<noteq> y" "x \<noteq> p" "y \<noteq> p" using d by simp_all
  have f: "node_fits (IN (kx @ [ks ! i]) cx)" "node_fits (IN k2 (c1 # c2))" "node_fits (IN k2 c2)" "node_fits (IN (ks[i := k1]) cs)"
    using fit set_update_subset_insert [of ks i k1] by auto
  show ?thesis
    unfolding borrow_from_right_def if_False runs_bnd
  proof (rule as_index_law [OF h c(3) v(3)], simp add: runs_simps i del: fun_upd_apply,
      rule upd_index_law [OF h c(1) v(1) _ _ f(1)], simp, simp, goal_cases)
    case s1: (1 pp s1)
    have c1: "cached s1 x = Some rx" "cached s1 y = Some ry" "cached s1 p = Some rp" using step_cached [OF s1(6)] c by simp_all
    have v1: "(V(x \<mapsto> IN (kx @ [ks ! i]) cx)) y = Some (IN (k1 # k2) (c1 # c2))"
      "(V(x \<mapsto> IN (kx @ [ks ! i]) cx)) x = Some (IN (kx @ [ks ! i]) cx)" using v xy by simp_all
    show ?case
    proof (rule as_index_law [OF s1(7) c1(2) v1(1)], simp add: runs_simps del: fun_upd_apply,
        rule upd_index_law [OF s1(7) c1(1) v1(2) _ _ fit(3)], simp, simp, goal_cases)
      case s2: (1 rp' s2)
      have st2: "step s s2" by (rule step_trans [OF s1(6) s2(6)])
      let ?V2 = "V(x \<mapsto> IN (kx @ [ks ! i]) (cx @ [c1]))"
      have h2: "holds s2 ?V2 n a (Suc (Suc (Suc b))) (insert x D)" using s2(7) unfolding fun_upd_upd by simp
      have v2: "?V2 p = Some (IN ks cs)" using v xy by simp
      show ?case
        unfolding set_nth_def if_P [OF i]
      proof (rule set_keys_law [OF h2 step_cached [OF st2 c(3)] v2 f(4)], goal_cases)
        case s3: (1 s3)
        have st3: "step s s3" by (rule step_trans [OF st2 s3(1)])
        have v3: "(?V2(p \<mapsto> IN (ks[i := k1]) cs)) y = Some (IN (k1 # k2) (c1 # c2))" using v xy by simp
        show ?case
        proof (simp add: pop_nth_def del: fun_upd_apply, rule set_keys_law [OF s3(2) step_cached [OF st3 c(2)] v3 f(2)], goal_cases)
          case s4: (1 s4)
          have st4: "step s s4" by (rule step_trans [OF st3 s4(1)])
          have v4: "(?V2(p \<mapsto> IN (ks[i := k1]) cs, y \<mapsto> IN k2 (c1 # c2))) y = Some (IN k2 (c1 # c2))" by simp
          show ?case
          proof (rule set_children_law [OF s4(2) step_cached [OF st4 c(2)] v4 f(3)], goal_cases)
            case s5: (1 s5)
            have st5: "step s s5" by (rule step_trans [OF st4 s5(1)])
            let ?V5 = "V(x \<mapsto> IN (kx @ [ks ! i]) (cx @ [c1]), y \<mapsto> IN k2 c2, p \<mapsto> IN (ks[i := k1]) cs)"
            have eq: "?V2(p \<mapsto> IN (ks[i := k1]) cs, y \<mapsto> IN k2 c2) = ?V5" using xy by (simp add: fun_eq_iff)
            have h5: "holds s5 ?V5 n a (Suc (Suc (Suc b))) (insert y (insert p (insert x D)))"
              using s5(2) unfolding fun_upd_upd eq by simp
            have v5: "?V5 x = Some (IN (kx @ [ks ! i]) (cx @ [c1]))" "?V5 y = Some (IN k2 c2)" "?V5 p = Some (IN (ks[i := k1]) cs)"
              using xy by simp_all
            show ?case
              by (rule mark_three_law [where D = D, OF h5 step_cached [OF st5 c(1)] step_cached [OF st5 c(2)] step_cached [OF st5 c(3)] v5],
                  blast, rule Q [OF step_trans [OF st5]])
          qed
        qed
      qed
    qed
  qed
qed

lemma borrow_left_index_law:
  assumes h: "holds s V n a (Suc (Suc (Suc b))) D" and c: "cached s x = Some rx" "cached s y = Some ry" "cached s p = Some rp"
    and d: "distinct [x, y, p]" and v: "V x = Some (IN (kx @ [k]) (cx @ [cl]))" "V y = Some (IN ky cy)" "V p = Some (IN ks cs)"
    and i: "i < length ks" and fit: "node_fits (IN ks cs)" "node_fits (IN (kx @ [k]) (cx @ [cl]))" "node_fits (IN (ks ! i # ky) (cl # cy))"
    and Q: "\<And>s'. step s s' \<Longrightarrow> holds s' (V(x \<mapsto> IN kx cx, y \<mapsto> IN (ks ! i # ky) (cl # cy),
      p \<mapsto> IN (ks[i := k]) cs)) n a b D \<Longrightarrow> Q () s'"
  shows "runs (borrow_from_left ry rx (Suc i) rp False) s Q"
proof -
  have xy: "x \<noteq> y" "x \<noteq> p" "y \<noteq> p" using d by simp_all
  have f: "node_fits (IN (ks ! i # ky) cy)" "node_fits (IN kx (cx @ [cl]))" "node_fits (IN kx cx)" "node_fits (IN (ks[i := k]) cs)"
    using fit set_update_subset_insert [of ks i k] by auto
  show ?thesis
    unfolding borrow_from_left_def if_False runs_bnd
  proof (rule as_index_law [OF h c(3) v(3)], simp add: runs_simps i del: fun_upd_apply,
      rule upd_index_law [OF h c(2) v(2) _ _ f(1)], simp, simp, goal_cases)
    case s1: (1 pp s1)
    have c1: "cached s1 x = Some rx" "cached s1 y = Some ry" using step_cached [OF s1(6)] c by simp_all
    have v1: "(V(y \<mapsto> IN (ks ! i # ky) cy)) x = Some (IN (kx @ [k]) (cx @ [cl]))"
      "(V(y \<mapsto> IN (ks ! i # ky) cy)) y = Some (IN (ks ! i # ky) cy)" using v xy by simp_all
    show ?case
    proof (rule as_index_law [OF s1(7) c1(1) v1(1)], simp add: runs_simps del: fun_upd_apply,
        rule upd_index_law [OF s1(7) c1(2) v1(2) _ _ fit(3)], simp, simp, goal_cases)
      case s2: (1 lp' s2)
      have st2: "step s s2" by (rule step_trans [OF s1(6) s2(6)])
      let ?V2 = "V(y \<mapsto> IN (ks ! i # ky) (cl # cy))"
      have h2: "holds s2 ?V2 n a (Suc (Suc (Suc b))) (insert y D)" using s2(7) unfolding fun_upd_upd by simp
      have v2: "?V2 p = Some (IN ks cs)" using v xy by simp
      show ?case
        unfolding set_nth_def if_P [OF i]
      proof (rule set_keys_law [OF h2 step_cached [OF st2 c(3)] v2 f(4)], goal_cases)
        case s3: (1 s3)
        have st3: "step s s3" by (rule step_trans [OF st2 s3(1)])
        have v3: "(?V2(p \<mapsto> IN (ks[i := k]) cs)) x = Some (IN (kx @ [k]) (cx @ [cl]))" using v xy by simp
        show ?case
        proof (simp add: pop_nth_def del: fun_upd_apply, rule set_keys_law [OF s3(2) step_cached [OF st3 c(1)] v3 f(2)], goal_cases)
          case s4: (1 s4)
          have st4: "step s s4" by (rule step_trans [OF st3 s4(1)])
          have v4: "(?V2(p \<mapsto> IN (ks[i := k]) cs, x \<mapsto> IN kx (cx @ [cl]))) x = Some (IN kx (cx @ [cl]))" by simp
          show ?case
          proof (rule set_children_law [OF s4(2) step_cached [OF st4 c(1)] v4 f(3)], goal_cases)
            case s5: (1 s5)
            have st5: "step s s5" by (rule step_trans [OF st4 s5(1)])
            let ?V5 = "V(x \<mapsto> IN kx cx, y \<mapsto> IN (ks ! i # ky) (cl # cy), p \<mapsto> IN (ks[i := k]) cs)"
            have eq: "?V2(p \<mapsto> IN (ks[i := k]) cs, x \<mapsto> IN kx cx) = ?V5" using xy by (simp add: fun_eq_iff)
            have h5: "holds s5 ?V5 n a (Suc (Suc (Suc b))) (insert x (insert p (insert y D)))"
              using s5(2) unfolding fun_upd_upd eq by simp
            have v5: "?V5 x = Some (IN kx cx)" "?V5 y = Some (IN (ks ! i # ky) (cl # cy))" "?V5 p = Some (IN (ks[i := k]) cs)"
              using xy by simp_all
            show ?case
              by (rule mark_three_law [where D = D, OF h5 step_cached [OF st5 c(2)] step_cached [OF st5 c(1)] step_cached [OF st5 c(3)] v5(2,1,3)],
                  blast, rule Q [OF step_trans [OF st5]])
          qed
        qed
      qed
    qed
  qed
qed

lemma merge_index_law:
  assumes h: "holds s V n a (Suc (Suc b)) D" and c: "cached s x = Some rx" "cached s y = Some ry" "cached s p = Some rp"
    and d: "distinct [x, y, p]" and v: "V x = Some (IN kx cx)" "V y = Some (IN ky cy)" "V p = Some (IN ks cs)"
    and i: "i < length ks" "Suc i < length cs" and fit: "node_fits (IN ks cs)" "node_fits (IN (kx @ [ks ! i] @ ky) (cx @ cy))"
    and Q: "\<And>s'. step s s' \<Longrightarrow> holds s' (V(x \<mapsto> IN (kx @ [ks ! i] @ ky) (cx @ cy),
      p \<mapsto> IN (take i ks @ drop (Suc i) ks) (take (Suc i) cs @ drop (Suc (Suc i)) cs))) n a b D \<Longrightarrow> Q () s'"
  shows "runs (merge_pages rx ry i rp False) s Q"
proof -
  let ?ks = "take i ks @ drop (Suc i) ks" and ?cs = "take (Suc i) cs @ drop (Suc (Suc i)) cs"
  have xy: "x \<noteq> y" "x \<noteq> p" "y \<noteq> p" using d by simp_all
  have f: "node_fits (IN ?ks cs)" "node_fits (IN ?ks ?cs)" "node_fits (IN (kx @ [ks ! i] @ ky) cx)"
    using fit i by (auto dest: in_set_takeD in_set_dropD)
  show ?thesis
    unfolding merge_pages_def if_False runs_bnd
  proof (rule as_index_law [OF h c(3) v(3)], simp add: runs_simps i del: fun_upd_apply,
      rule as_index_law [OF h c(2) v(2)], rule upd_index_law [OF h c(1) v(1) _ _ f(3)], simp, simp, goal_cases)
    case s1: (1 pp rp' s1)
    have v1: "(V(x \<mapsto> IN (kx @ [ks ! i] @ ky) cx)) x = Some (IN (kx @ [ks ! i] @ ky) cx)" by simp
    show ?case
    proof (rule upd_index_law [OF s1(12) step_cached [OF s1(11) c(1)] v1 _ _ fit(2)], simp, use s1(10) in simp, goal_cases)
      case s2: (1 s2)
      let ?V2 = "V(x \<mapsto> IN (kx @ [ks ! i] @ ky) (cx @ cy))"
      have h2: "holds s2 ?V2 n a (Suc (Suc b)) (insert x D)" using s2(2) unfolding fun_upd_upd by simp
      have st2: "step s s2" by (rule step_trans [OF s1(11) s2(1)])
      have v2: "?V2 p = Some (IN ks cs)" using v xy by simp
      show ?case
      proof (rule as_index_law [OF h2 step_cached [OF st2 c(3)] v2], simp add: pop_nth_def i del: fun_upd_apply,
          rule set_keys_law [OF h2 step_cached [OF st2 c(3)] v2 f(1)], goal_cases)
        case s3: (1 pp' s3)
        have st3: "step s s3" by (rule step_trans [OF st2 s3(6)])
        have v3: "(?V2(p \<mapsto> IN ?ks cs)) p = Some (IN ?ks cs)" by simp
        show ?case
        proof (rule set_children_law [OF s3(7) step_cached [OF st3 c(3)] v3 f(2)], goal_cases)
          case s4: (1 s4)
          let ?V4 = "?V2(p \<mapsto> IN ?ks ?cs)"
          have h4: "holds s4 ?V4 n a (Suc (Suc b)) (insert p (insert x D))" using s4(2) unfolding fun_upd_upd by simp
          have st4: "step s s4" by (rule step_trans [OF st3 s4(1)])
          have v4: "?V4 x = Some (IN (kx @ [ks ! i] @ ky) (cx @ cy))" "?V4 p = Some (IN ?ks ?cs)" using xy by simp_all
          show ?case
            by (rule mark_two_law [where D = D, unfolded runs_bnd, OF h4 step_cached [OF st4 c(1)] step_cached [OF st4 c(3)] v4],
                blast, rule Q [OF step_trans [OF st4]])
        qed
      qed
    qed
  qed
qed

end
