(* ===== verification/Tree_Remove.thy ===== *)
theory Tree_Remove
  imports Sibling_Laws
begin

section \<open>Deletion on a stored tree\<close>

text \<open>
  \<^verbatim>\<open>delete\<close> walks down recording the path, deletes in the leaf and repairs the pages on the way up.
  The repair of one level is \<open>bt_fix\<close> on the pages (\<open>borrow_or_merge_law\<close>); the loop over the
  reversed path is the way up of the recursion \<open>bt_del\<close> (\<open>fix_path_law\<close>).
\<close>

fun bt_node :: "bt \<Rightarrow> node" where
  "bt_node (Lf p es nx) = LN es nx"
| "bt_node (Nd p ks ts) = IN ks (map bt_id ts)"

fun bt_kids :: "bt \<Rightarrow> bt list" where
  "bt_kids (Lf p es nx) = []"
| "bt_kids (Nd p ks ts) = ts"

lemma reps_node: "reps V t \<longleftrightarrow> V (bt_id t) = Some (bt_node t) \<and> (\<forall>c \<in> set (bt_kids t). reps V c)"
  by (cases t) auto

lemma pids_node: "bt_pids t = bt_id t # concat (map bt_pids (bt_kids t))"
  by (cases t) auto

subsection \<open>Nodes of a tree fit their pages\<close>

lemma leaf_es_ok:
  assumes "sizes m R" "recs R es" "bt_inv h m q lo hi (Lf p es nx)" "0 \<le> lo" "hi \<le> KEY_END"
  shows "es_ok es"
  using assms by (intro es_ok_sizes [OF assms(1,2)]) auto

lemma index_node_fits:
  assumes "sizes m R" "bt_inv h m q lo hi (Nd p ks ts)" "0 \<le> lo" "hi \<le> KEY_END" "\<forall>t \<in> set ts. bt_id t < NO_NEXT"
  shows "node_fits (IN ks (map bt_id ts))"
proof -
  obtain h' where h: "h = Suc h'" using assms(2) by (cases h) auto
  have chain: "bchain (bt_inv h' m (m div 2)) lo (ks @ [hi]) ts" and m: "length ks \<le> m" using assms(2) h by simp_all
  have "length ts = Suc (length ks)" "length ks \<le> 338"
    using bchain_length [OF chain] m sizes_order [OF assms(1)] by simp_all
  then show ?thesis
    using chain_keys_ok [OF chain assms(3,4)] assms(5) by simp
qed

text \<open>The situation of two neighbours and their parent on the pages.\<close>

definition pair_pages :: "'a pager_scheme \<Rightarrow> (nat \<Rightarrow> node option) \<Rightarrow> nat \<Rightarrow> bt \<Rightarrow> bt \<Rightarrow> nat \<Rightarrow> int list \<Rightarrow> nat list \<Rightarrow> nat \<Rightarrow> bool" where
  "pair_pages s V R x y p ks cs j \<longleftrightarrow> distinct [bt_id x, bt_id y, p] \<and>
     V (bt_id x) = Some (bt_node x) \<and> V (bt_id y) = Some (bt_node y) \<and> V p = Some (IN ks cs) \<and>
     j < length ks \<and> Suc j < length cs \<and> node_fits (IN ks cs) \<and> sizes (pg_order s) R \<and> recs R (bt_es x @ bt_es y) \<and>
     (\<forall>c \<in> set (bt_kids x) \<union> set (bt_kids y). bt_id c < NO_NEXT)"

lemma borrow_right_pages:
  assumes h: "holds s V n a (Suc (Suc (Suc b))) D" and c: "cached s (bt_id x) = Some rx" "cached s (bt_id y) = Some ry" "cached s p = Some rp"
    and pp: "pair_pages s V R x y p ks cs j" and ok: "pair_ok h (pg_order s) lo hi x (ks ! j) y" "0 \<le> lo" "hi \<le> KEY_END"
    and occ: "bt_num_keys x < pg_order s" "2 \<le> bt_num_keys y" and bor: "bt_borrow_right x (ks ! j) y = (x', sep, y')"
    and Q: "\<And>s'. step s s' \<Longrightarrow> holds s' (V(bt_id x \<mapsto> bt_node x', bt_id y \<mapsto> bt_node y', p \<mapsto> IN (ks[j := sep]) cs)) n a b D \<Longrightarrow> Q () s'"
  shows "runs (borrow_from_right rx ry j rp (h = 0)) s Q"
proof -
  have b: "pair_ok h (pg_order s) lo hi x' sep y'" "rotated x y x' y'"
    using borrow_right_ok [OF ok(1) occ] bor by auto
  have r: "recs R (bt_es x' @ bt_es y')" using b(2) pp by (simp add: rotated_def pair_pages_def)
  have lh: "lo \<le> sep" "sep \<le> hi" "lo \<le> ks ! j" "ks ! j \<le> hi" using b(1) ok(1) by (simp_all add: pair_ok_def)
  have sz: "sizes (pg_order s) R" using pp by (simp add: pair_pages_def)
  show ?thesis
  proof (cases h)
    case 0
    with ok(1) obtain px es nx py es' ny where xy: "x = Lf px es nx" "y = Lf py es' ny"
      by (auto simp: pair_ok_def elim!: bt_inv_0E)
    obtain e1 e2 es2 where es': "es' = e1 # e2 # es2" using occ(2) xy by (cases es'; cases "tl es'") auto
    have x': "x' = Lf px (ins_sorted (fst e1) (snd e1) es) nx" "sep = fst e2" "y' = Lf py (e2 # es2) ny"
      using bor xy es' by simp_all
    have i: "bt_inv h (pg_order s) 0 lo sep (Lf px (ins_sorted (fst e1) (snd e1) es) nx)"
      "bt_inv h (pg_order s) 0 sep hi (Lf py (e2 # es2) ny)"
      using b(1) unfolding pair_ok_def x'(1,3) by blast+
    have "recs R (ins_sorted (fst e1) (snd e1) es)" "recs R (e2 # es2)" using r unfolding x' by simp_all
    then have "es_ok (ins_sorted (fst e1) (snd e1) es)" "es_ok (e2 # es2)"
      using leaf_es_ok [OF sz _ i(1) ok(2)] leaf_es_ok [OF sz _ i(2) _ ok(3)] ok(2,3) lh by simp_all
    moreover have "keys_sorted es" using ok(1) xy by (simp add: pair_ok_def)
    ultimately show ?thesis
      using pp Q c 0 xy es' x' unfolding pair_pages_def
      by (auto intro!: borrow_right_leaf_law [OF h, of px rx py ry p rp es nx e1 e2 es2 ny ks cs j] simp del: fun_upd_apply)
  next
    case (Suc h')
    with ok(1) obtain px kx tx py ky ty where xy: "x = Nd px kx tx" "y = Nd py ky ty"
      "length ty = Suc (length ky)"
      by (auto simp: pair_ok_def elim!: bt_inv_SucE)
    obtain k1 k2 where ky: "ky = k1 # k2" using occ(2) xy by (cases ky) auto
    obtain c1 c2 where ty: "ty = c1 # c2" using xy(3) by (cases ty) auto
    have x': "x' = Nd px (kx @ [ks ! j]) (tx @ [c1])" "sep = k1" "y' = Nd py k2 c2"
      using bor xy ky ty by simp_all
    have i: "bt_inv h (pg_order s) 0 lo sep (Nd px (kx @ [ks ! j]) (tx @ [c1]))" "bt_inv h (pg_order s) 0 (ks ! j) hi (Nd py ky ty)"
      using b(1) ok(1) unfolding pair_ok_def x'(1) xy(2) by blast+
    have "\<forall>c \<in> set (tx @ [c1]). bt_id c < NO_NEXT" "\<forall>c \<in> set ty. bt_id c < NO_NEXT"
      using pp xy ty by (simp_all add: pair_pages_def)
    then have "node_fits (IN (kx @ [ks ! j]) (map bt_id (tx @ [c1])))" "node_fits (IN ky (map bt_id ty))"
      using index_node_fits [OF sz i(1) ok(2)] index_node_fits [OF sz i(2) _ ok(3)] ok(2,3) lh by simp_all
    then show ?thesis
      using pp Q c Suc xy ky ty x' unfolding pair_pages_def
      by (auto intro!: borrow_right_index_law [OF h, of px rx py ry p rp kx "map bt_id tx" k1 k2 "bt_id c1" "map bt_id c2" ks cs j] simp del: fun_upd_apply)
  qed
qed

lemma borrow_left_pages:
  assumes h: "holds s V n a (Suc (Suc (Suc b))) D" and c: "cached s (bt_id x) = Some rx" "cached s (bt_id y) = Some ry" "cached s p = Some rp"
    and pp: "pair_pages s V R x y p ks cs j" and ok: "pair_ok h (pg_order s) lo hi x (ks ! j) y" "0 \<le> lo" "hi \<le> KEY_END"
    and occ: "2 \<le> bt_num_keys x" "bt_num_keys y < pg_order s" and bor: "bt_borrow_left x (ks ! j) y = (x', sep, y')"
    and Q: "\<And>s'. step s s' \<Longrightarrow> holds s' (V(bt_id x \<mapsto> bt_node x', bt_id y \<mapsto> bt_node y', p \<mapsto> IN (ks[j := sep]) cs)) n a b D \<Longrightarrow> Q () s'"
  shows "runs (borrow_from_left ry rx (Suc j) rp (h = 0)) s Q"
proof -
  have b: "pair_ok h (pg_order s) lo hi x' sep y'" "rotated x y x' y'"
    using borrow_left_ok [OF ok(1) occ] bor by auto
  have r: "recs R (bt_es x' @ bt_es y')" using b(2) pp by (simp add: rotated_def pair_pages_def)
  have lh: "lo \<le> sep" "sep \<le> hi" "lo \<le> ks ! j" "ks ! j \<le> hi" using b(1) ok(1) by (simp_all add: pair_ok_def)
  have sz: "sizes (pg_order s) R" using pp by (simp add: pair_pages_def)
  show ?thesis
  proof (cases h)
    case 0
    with ok(1) obtain px es nx py es' ny where xy: "x = Lf px es nx" "y = Lf py es' ny"
      by (auto simp: pair_ok_def elim!: bt_inv_0E)
    obtain es0 e where es: "es = es0 @ [e]" using occ(1) xy by (cases es rule: rev_cases) auto
    have x': "x' = Lf px es0 nx" "sep = fst e" "y' = Lf py (ins_sorted (fst e) (snd e) es') ny"
      using bor xy es by auto
    have i: "bt_inv h (pg_order s) 0 lo sep (Lf px es0 nx)"
      "bt_inv h (pg_order s) 0 sep hi (Lf py (ins_sorted (fst e) (snd e) es') ny)"
      using b(1) unfolding pair_ok_def x'(1,3) by blast+
    have "recs R es0" "recs R (ins_sorted (fst e) (snd e) es')" using r unfolding x' by simp_all
    then have "es_ok es0" "es_ok (ins_sorted (fst e) (snd e) es')"
      using leaf_es_ok [OF sz _ i(1) ok(2)] leaf_es_ok [OF sz _ i(2) _ ok(3)] ok(2,3) lh by simp_all
    moreover have "keys_sorted es'" using ok(1) xy by (simp add: pair_ok_def)
    ultimately show ?thesis
      using pp Q c 0 xy es x' unfolding pair_pages_def
      by (auto intro!: borrow_left_leaf_law [OF h, of px rx py ry p rp es0 e nx es' ny ks cs j] simp del: fun_upd_apply)
  next
    case (Suc h')
    with ok(1) obtain px kx tx py ky ty where xy: "x = Nd px kx tx" "y = Nd py ky ty"
      "length tx = Suc (length kx)"
      by (auto simp: pair_ok_def elim!: bt_inv_SucE)
    obtain k0 k where kx: "kx = k0 @ [k]" using occ(1) xy by (cases kx rule: rev_cases) auto
    obtain t0 cl where tx: "tx = t0 @ [cl]" using xy(3) by (cases tx rule: rev_cases) auto
    have x': "x' = Nd px k0 t0" "sep = k" "y' = Nd py (ks ! j # ky) (cl # ty)"
      using bor xy kx tx by simp_all
    have i: "bt_inv h (pg_order s) 0 lo (ks ! j) (Nd px kx tx)" "bt_inv h (pg_order s) 0 sep hi (Nd py (ks ! j # ky) (cl # ty))"
      using b(1) ok(1) unfolding pair_ok_def x'(3) xy(1) by blast+
    have "\<forall>c \<in> set tx. bt_id c < NO_NEXT" "\<forall>c \<in> set (cl # ty). bt_id c < NO_NEXT"
      using pp xy tx by (simp_all add: pair_pages_def)
    then have "node_fits (IN kx (map bt_id tx))" "node_fits (IN (ks ! j # ky) (map bt_id (cl # ty)))"
      using index_node_fits [OF sz i(1) ok(2)] index_node_fits [OF sz i(2) _ ok(3)] ok(2,3) lh by simp_all
    then show ?thesis
      using pp Q c Suc xy kx tx x' unfolding pair_pages_def
      by (auto intro!: borrow_left_index_law [OF h, of px rx py ry p rp k0 k "map bt_id t0" "bt_id cl" ky "map bt_id ty" ks cs j] simp del: fun_upd_apply)
  qed
qed

lemma merge_pages_pages:
  assumes h: "holds s V n a (Suc (Suc b)) D" and c: "cached s (bt_id x) = Some rx" "cached s (bt_id y) = Some ry" "cached s p = Some rp"
    and pp: "pair_pages s V R x y p ks cs j" and ok: "pair_ok h (pg_order s) lo hi x (ks ! j) y" "0 \<le> lo" "hi \<le> KEY_END"
    and occ: "bt_num_keys x + bt_num_keys y + (if h = 0 then 0 else 1) \<le> pg_order s"
    and Q: "\<And>s'. step s s' \<Longrightarrow> holds s' (V(bt_id x \<mapsto> bt_node (bt_merge x (ks ! j) y),
      p \<mapsto> IN (take j ks @ drop (Suc j) ks) (take (Suc j) cs @ drop (Suc (Suc j)) cs))) n a b D \<Longrightarrow> Q () s'"
  shows "runs (merge_pages rx ry j rp (h = 0)) s Q"
proof -
  note mg = merge_ok [OF ok(1) occ]
  have r: "recs R (bt_es (bt_merge x (ks ! j) y))" using mg pp by (simp add: pair_pages_def)
  have i: "bt_inv h (pg_order s) 0 lo hi (bt_merge x (ks ! j) y)" using mg by blast
  have sz: "sizes (pg_order s) R" using pp by (simp add: pair_pages_def)
  show ?thesis
  proof (cases h)
    case 0
    with ok(1) obtain px es nx py es' ny where xy: "x = Lf px es nx" "y = Lf py es' ny"
      by (auto simp: pair_ok_def elim!: bt_inv_0E)
    have "bt_inv h (pg_order s) 0 lo hi (Lf px (es @ es') ny)" "recs R (es @ es')" using r i unfolding xy by simp_all
    then have "es_ok (es @ es')" using leaf_es_ok [OF sz _ _ ok(2,3)] by blast
    then show ?thesis
      using pp Q c 0 xy unfolding pair_pages_def
      by (auto intro!: merge_leaf_law [OF h, of px rx py ry p rp es nx es' ny ks cs j] simp del: fun_upd_apply)
  next
    case (Suc h')
    with ok(1) obtain px kx tx py ky ty where xy: "x = Nd px kx tx" "y = Nd py ky ty"
      by (auto simp: pair_ok_def elim!: bt_inv_SucE)
    have "\<forall>c \<in> set (tx @ ty). bt_id c < NO_NEXT"
      using pp xy by (auto simp: pair_pages_def)
    moreover have "bt_inv h (pg_order s) 0 lo hi (Nd px (kx @ [ks ! j] @ ky) (tx @ ty))" using i unfolding xy by simp
    ultimately have "node_fits (IN (kx @ [ks ! j] @ ky) (map bt_id (tx @ ty)))"
      using index_node_fits [OF sz _ ok(2,3)] by blast
    then show ?thesis
      using pp Q c Suc xy unfolding pair_pages_def
      by (auto intro!: merge_index_law [OF h, of px rx py ry p rp kx "map bt_id tx" ky "map bt_id ty" ks cs j] simp del: fun_upd_apply)
  qed
qed

subsection \<open>The pages of the repaired node\<close>

lemma map_pair_same: "Suc j < length ts \<Longrightarrow> (map f ts)[j := f (ts ! j), Suc j := f (ts ! Suc j)] = map f ts"
  by (simp flip: map_update)

lemma pair_distinct:
  assumes "distinct (bt_pids (Nd p ks ts))" "Suc j < length ts"
  shows "distinct (bt_pids (ts ! j) @ bt_pids (ts ! Suc j) @ [p])"
    and "\<And>i. i < length ts \<Longrightarrow> i \<noteq> j \<Longrightarrow> i \<noteq> Suc j \<Longrightarrow>
      set (bt_pids (ts ! i)) \<inter> (set (bt_pids (ts ! j)) \<union> set (bt_pids (ts ! Suc j)) \<union> {p}) = {}"
proof -
  have j: "j < length ts" using assms(2) by simp
  note d1 = distinct_child [OF assms(1) j] and d2 = distinct_child [OF assms(1,2)]
  have "set (bt_pids (ts ! j)) \<inter> set (bt_pids (ts ! Suc j)) = {}" by (rule d2(3) [OF j]) simp
  then show "distinct (bt_pids (ts ! j) @ bt_pids (ts ! Suc j) @ [p])" using d1(1,2) d2(1,2) by auto
  fix i assume i: "i < length ts" "i \<noteq> j" "i \<noteq> Suc j"
  show "set (bt_pids (ts ! i)) \<inter> (set (bt_pids (ts ! j)) \<union> set (bt_pids (ts ! Suc j)) \<union> {p}) = {}"
    using d1(3) [OF i(1,2)] d2(3) [OF i(1,3)] d1(4) [OF i(1)] by blast
qed

text \<open>The nodes changed are the two neighbours and the parent; whatever lies below keeps its pages.\<close>

lemma reps_below:
  assumes "reps V t" "V' = V(p1 \<mapsto> n1, p2 \<mapsto> n2, p3 \<mapsto> n3)" "p1 \<notin> set (bt_pids t)" "p2 \<notin> set (bt_pids t)" "p3 \<notin> set (bt_pids t)"
  shows "reps V' t"
  using assms(1) by (rule reps_cong) (use assms(2-5) in auto)

lemma reps_rotated:
  fixes ks' :: "int list"
  assumes reps: "reps V (Nd p ks ts)" and d: "distinct (bt_pids (Nd p ks ts))" and j: "Suc j < length ts"
    and rot: "bt_id x' = bt_id (ts ! j)" "bt_id y' = bt_id (ts ! Suc j)"
      "set (bt_kids x') \<union> set (bt_kids y') = set (bt_kids (ts ! j)) \<union> set (bt_kids (ts ! Suc j))"
  defines "V' \<equiv> V(bt_id (ts ! j) \<mapsto> bt_node x', bt_id (ts ! Suc j) \<mapsto> bt_node y', p \<mapsto> IN ks' (map bt_id ts))"
  shows "reps V' (Nd p ks' (ts[j := x', Suc j := y']))"
proof -
  let ?x = "ts ! j" and ?y = "ts ! Suc j"
  note pd = pair_distinct [OF d j]
  have ids: "bt_id ?x \<noteq> bt_id ?y" "bt_id ?x \<noteq> p" "bt_id ?y \<noteq> p"
  proof -
    have "set (bt_pids ?x) \<inter> set (bt_pids ?y) = {}" "p \<notin> set (bt_pids ?x)" "p \<notin> set (bt_pids ?y)" using pd(1) by auto
    then show "bt_id ?x \<noteq> bt_id ?y" "bt_id ?x \<noteq> p" "bt_id ?y \<noteq> p"
      by (metis bt_id_in_pids disjoint_iff)+
  qed
  have xy: "reps V ?x" "reps V ?y" using reps j by simp_all
  have kids: "reps V' c" if c: "c \<in> set (bt_kids ?x) \<union> set (bt_kids ?y)" for c
  proof -
    have "reps V c" using c xy unfolding reps_node [of V ?x] reps_node [of V ?y] by blast
    moreover have "bt_id ?x \<notin> set (bt_pids c)" "bt_id ?y \<notin> set (bt_pids c)" "p \<notin> set (bt_pids c)"
      using pd(1) c unfolding pids_node [of ?x] pids_node [of ?y] by auto
    ultimately show ?thesis unfolding V'_def by (rule reps_below [OF _ refl])
  qed
  have new: "reps V' x'" "reps V' y'"
    unfolding reps_node [of V' x'] reps_node [of V' y'] using kids rot ids by (auto simp: V'_def)
  have "reps V' t" if t: "t \<in> set (ts[j := x', Suc j := y'])" for t
  proof -
    obtain i where i: "i < length ts" "t = ts[j := x', Suc j := y'] ! i"
      using t unfolding in_set_conv_nth length_list_update by blast
    show ?thesis
    proof (cases "i = j \<or> i = Suc j")
      case True
      then show ?thesis using new i j by auto
    next
      case False
      then have t: "t = ts ! i" using i by simp
      have "reps V t" using reps i(1) t by simp
      moreover have "bt_id ?x \<notin> set (bt_pids t)" "bt_id ?y \<notin> set (bt_pids t)" "p \<notin> set (bt_pids t)"
        using pd(2) [OF i(1)] False bt_id_in_pids [of ?x] bt_id_in_pids [of ?y] unfolding t by blast+
      ultimately show ?thesis unfolding V'_def by (rule reps_below [OF _ refl])
    qed
  qed
  moreover have "map bt_id (ts[j := x', Suc j := y']) = map bt_id ts"
    using map_pair_same [OF j, of bt_id] rot(1,2) by (simp add: map_update)
  ultimately show ?thesis by (simp add: V'_def)
qed

lemma reps_merged:
  fixes ks' :: "int list"
  assumes reps: "reps V (Nd p ks ts)" and d: "distinct (bt_pids (Nd p ks ts))" and j: "Suc j < length ts"
    and mg: "bt_id z = bt_id (ts ! j)" "set (bt_kids z) \<subseteq> set (bt_kids (ts ! j)) \<union> set (bt_kids (ts ! Suc j))"
  defines "V' \<equiv> V(bt_id (ts ! j) \<mapsto> bt_node z, p \<mapsto> IN ks' (take (Suc j) (map bt_id ts) @ drop (Suc (Suc j)) (map bt_id ts)))"
  shows "reps V' (Nd p ks' (take j ts @ z # drop (Suc (Suc j)) ts))"
proof -
  let ?x = "ts ! j" and ?y = "ts ! Suc j"
  note pd = pair_distinct [OF d j]
  have eq: "V' = V(bt_id ?x \<mapsto> bt_node z, bt_id ?x \<mapsto> bt_node z, p \<mapsto> IN ks' (take (Suc j) (map bt_id ts) @ drop (Suc (Suc j)) (map bt_id ts)))"
    by (simp add: V'_def)
  have ids: "bt_id ?x \<noteq> p" using pd(1) bt_id_in_pids [of ?x] by auto
  have xy: "reps V ?x" "reps V ?y" using reps j by simp_all
  have kids: "reps V' c" if c: "c \<in> set (bt_kids ?x) \<union> set (bt_kids ?y)" for c
  proof -
    have "reps V c" using c xy unfolding reps_node [of V ?x] reps_node [of V ?y] by blast
    moreover have "bt_id ?x \<notin> set (bt_pids c)" "p \<notin> set (bt_pids c)"
      using pd(1) c unfolding pids_node [of ?x] pids_node [of ?y] by auto
    ultimately show ?thesis by (intro reps_below [OF _ eq])
  qed
  have new: "reps V' z"
    unfolding reps_node [of V' z] using kids mg ids by (auto simp: V'_def)
  have "reps V' t" if t: "t \<in> set (take j ts) \<union> set (drop (Suc (Suc j)) ts)" for t
  proof -
    have "\<exists>i < length ts. i \<noteq> j \<and> i \<noteq> Suc j \<and> t = ts ! i"
    proof -
      consider "t \<in> set (take j ts)" | "t \<in> set (drop (Suc (Suc j)) ts)" using t by blast
      then show ?thesis
      proof cases
        case 1
        then show ?thesis by (auto simp: in_set_conv_nth)
      next
        case 2
        then obtain i where "i < length ts - Suc (Suc j)" "t = ts ! (Suc (Suc j) + i)" by (auto simp: in_set_conv_nth)
        then show ?thesis by (intro exI [of _ "Suc (Suc j) + i"]) auto
      qed
    qed
    then obtain i where i: "i < length ts" "i \<noteq> j" "i \<noteq> Suc j" "t = ts ! i" by blast
    have "reps V t" using reps i(1,4) by simp
    moreover have "bt_id ?x \<notin> set (bt_pids t)" "p \<notin> set (bt_pids t)"
      using pd(2) [OF i(1-3)] bt_id_in_pids [of ?x] unfolding i(4) by blast+
    ultimately show ?thesis by (intro reps_below [OF _ eq])
  qed
  then have "\<forall>t \<in> set (take j ts @ z # drop (Suc (Suc j)) ts). reps V' t" using new by auto
  moreover have "map bt_id (take j ts @ z # drop (Suc (Suc j)) ts) = take (Suc j) (map bt_id ts) @ drop (Suc (Suc j)) (map bt_id ts)"
    using j mg(1) by (simp add: take_map drop_map take_Suc_conv_app_nth)
  ultimately show ?thesis by (simp add: V'_def)
qed

text \<open>The kids of the results of the borrows and merges.\<close>

lemma borrow_right_kids:
  assumes "pair_ok h m lo hi x sep y" "2 \<le> bt_num_keys y" "bt_borrow_right x sep y = (x', sep', y')"
  shows "set (bt_kids x') \<union> set (bt_kids y') = set (bt_kids x) \<union> set (bt_kids y)"
proof (cases h)
  case 0
  with assms(1) obtain px es nx py es' ny where "x = Lf px es nx" "y = Lf py es' ny"
    by (auto simp: pair_ok_def elim!: bt_inv_0E)
  then show ?thesis using assms(3) by auto
next
  case (Suc h')
  with assms(1) obtain px kx tx py ky ty where xy: "x = Nd px kx tx" "y = Nd py ky ty" "length ty = Suc (length ky)"
    by (auto simp: pair_ok_def elim!: bt_inv_SucE)
  then show ?thesis using assms(3) by (cases ty) auto
qed

lemma borrow_left_kids:
  assumes "pair_ok h m lo hi x sep y" "2 \<le> bt_num_keys x" "bt_borrow_left x sep y = (x', sep', y')"
  shows "set (bt_kids x') \<union> set (bt_kids y') = set (bt_kids x) \<union> set (bt_kids y)"
proof (cases h)
  case 0
  with assms(1) obtain px es nx py es' ny where "x = Lf px es nx" "y = Lf py es' ny"
    by (auto simp: pair_ok_def elim!: bt_inv_0E)
  then show ?thesis using assms(3) by auto
next
  case (Suc h')
  with assms(1) obtain px kx tx py ky ty where xy: "x = Nd px kx tx" "y = Nd py ky ty" "length tx = Suc (length kx)"
    by (auto simp: pair_ok_def elim!: bt_inv_SucE)
  then show ?thesis using assms(3) by (cases tx rule: rev_cases) auto
qed

lemma merge_kids: "set (bt_kids (bt_merge x sep y)) \<subseteq> set (bt_kids x) \<union> set (bt_kids y)"
  by (cases x; cases y) auto

subsection \<open>Siblings\<close>

lemma sibling_law:
  assumes h: "holds s V n a b D" and c: "cached s p = Some rp" and v: "V p = Some (IN ks cs)" "j < length cs" "V (cs ! j) = Some nd"
    and Q: "\<And>r s'. step s s' \<Longrightarrow> holds s' V n a b D \<Longrightarrow> cached s' (cs ! j) = Some r \<Longrightarrow> Q r s'"
  shows "runs (sibling rp j) s Q"
  unfolding sibling_def runs_bnd
proof (rule as_index_law [OF h c v(1)], goal_cases)
  case (1 pp)
  then show ?case using v(2) by (simp add: runs_simps) (rule get_page_law [OF h v(3) Q])
qed

lemma num_keys_law:
  assumes "page_ok m pid pg" "node_of pg = bt_node t"
  shows "page_num_keys pg = Inr (int (bt_num_keys t))"
  using assms by (cases pg; cases t) (auto simp: page_ok_def index_num_keys_def leaf_wf_of_fits)

lemma can_lend_law:
  assumes h: "holds s V n a b D" and c: "cached s y = Some r" and v: "V y = Some (bt_node t)" and Q: "Q (mn < bt_num_keys t) s"
  shows "runs (can_lend r mn) s Q"
  unfolding can_lend_def runs_bnd
  by (rule obj_law [OF h c v]) (use Q num_keys_law in \<open>auto simp: runs_simps\<close>)

subsection \<open>\<^verbatim>\<open>_borrow_or_merge\<close>\<close>

text \<open>The situation it repairs, and what it establishes: the effect of \<open>bt_fix\<close>.\<close>

definition fix_pre :: "'a pager_scheme \<Rightarrow> (nat \<Rightarrow> node option) \<Rightarrow> nat \<Rightarrow> nat \<Rightarrow> int \<Rightarrow> int \<Rightarrow> nat \<Rightarrow> int list \<Rightarrow> bt list \<Rightarrow> nat \<Rightarrow> bool" where
  "fix_pre s V R h lo hi p ks ts i \<longleftrightarrow> length ts = Suc (length ks) \<and> bchain (bt_inv h (pg_order s) 0) lo (ks @ [hi]) ts \<and>
     0 \<le> lo \<and> hi \<le> KEY_END \<and> reps V (Nd p ks ts) \<and> distinct (bt_pids (Nd p ks ts)) \<and> sizes (pg_order s) R \<and>
     recs R (concat (map bt_es ts)) \<and> ks \<noteq> [] \<and> length ks \<le> pg_order s \<and> i < length ts \<and>
     Suc (bt_num_keys (ts ! i)) = pg_order s div 2 \<and> (\<forall>j < length ts. j \<noteq> i \<longrightarrow> pg_order s div 2 \<le> bt_num_keys (ts ! j))"

definition fix_post :: "'a pager_scheme \<Rightarrow> (nat \<Rightarrow> node option) \<Rightarrow> nat \<Rightarrow> nat \<Rightarrow> nat \<Rightarrow> nat set \<Rightarrow> nat \<Rightarrow> nat set \<Rightarrow>
    bool \<times> int list \<times> bt list \<Rightarrow> bool \<Rightarrow> 'a pager_scheme \<Rightarrow> bool" where
  "fix_post s V n a b D p P res merged s' \<longleftrightarrow>
     (case res of (mg, ks', ts') \<Rightarrow> merged = mg \<and> step s s' \<and>
        (\<exists>V'. holds s' V' n a b D \<and> reps V' (Nd p ks' ts') \<and> (\<forall>q. q \<notin> P \<longrightarrow> V' q = V q)))"

lemma fix_postI:
  "step s s' \<Longrightarrow> holds s' V' n a b D \<Longrightarrow> reps V' (Nd p ks' ts') \<Longrightarrow> (\<And>q. q \<notin> P \<Longrightarrow> V' q = V q) \<Longrightarrow>
     fix_post s V n a b D p P (mg, ks', ts') mg s'"
  unfolding fix_post_def prod.case by blast

lemma fix_pair:
  assumes pre: "fix_pre s V R h lo hi p ks ts i" and h: "holds s V n a b D" and j: "Suc j < length ts"
  shows "pair_pages s V R (ts ! j) (ts ! Suc j) p ks (map bt_id ts) j"
    and "pair_ok h (pg_order s) (last (lo # take j ks)) ((ks @ [hi]) ! Suc j) (ts ! j) (ks ! j) (ts ! Suc j)"
    and "0 \<le> last (lo # take j ks)" "(ks @ [hi]) ! Suc j \<le> KEY_END"
proof -
  let ?x = "ts ! j" and ?y = "ts ! Suc j"
  have f: "length ts = Suc (length ks)" "bchain (bt_inv h (pg_order s) 0) lo (ks @ [hi]) ts" "0 \<le> lo" "hi \<le> KEY_END"
    "reps V (Nd p ks ts)" "distinct (bt_pids (Nd p ks ts))" "sizes (pg_order s) R" "recs R (concat (map bt_es ts))"
    "length ks \<le> pg_order s"
    using pre by (simp_all add: fix_pre_def)
  have jk: "j < length ks" using j f(1) by simp
  have xy: "reps V ?x" "reps V ?y" using f(5) j by simp_all
  have kid: "bt_id c < NO_NEXT" if c: "reps V c" for c
    using reps_id [OF c] holds_NO_NEXT [OF h] by blast
  have "node_fits (IN ks (map bt_id ts))"
    using chain_keys_ok [OF f(2-4)] f(1,5,9) kid sizes_order [OF f(7)] by simp
  moreover have "recs R (bt_es ?x @ bt_es ?y)" using f(8) unfolding concat_pair [OF j] by simp
  moreover have "distinct [bt_id ?x, bt_id ?y, p]"
  proof -
    note pd = pair_distinct [OF f(6) j]
    have "set (bt_pids ?x) \<inter> set (bt_pids ?y) = {}" "p \<notin> set (bt_pids ?x)" "p \<notin> set (bt_pids ?y)" using pd(1) by auto
    then show ?thesis using bt_id_in_pids [of ?x] bt_id_in_pids [of ?y] by (metis disjoint_iff distinct_length_2_or_more distinct_singleton)
  qed
  moreover have "\<forall>c \<in> set (bt_kids ?x) \<union> set (bt_kids ?y). bt_id c < NO_NEXT"
    using kid xy unfolding reps_node [of V ?x] reps_node [of V ?y] by blast
  ultimately show "pair_pages s V R ?x ?y p ks (map bt_id ts) j"
    using f(5,7) j jk xy unfolding pair_pages_def reps_node [of V ?x] reps_node [of V ?y] by simp
  show "pair_ok h (pg_order s) (last (lo # take j ks)) ((ks @ [hi]) ! Suc j) ?x (ks ! j) ?y"
    by (rule pair_nth [OF j f(1,2)])
  have "sorted_wrt (<) (lo # ks @ [hi])" by (rule bchain_sorted [OF f(2)])
  then have "\<forall>x \<in> set (lo # ks @ [hi]). lo \<le> x \<and> x \<le> hi" by (auto simp: sorted_wrt_append intro: less_imp_le)
  moreover have "last (lo # take j ks) \<in> set (lo # ks @ [hi])"
    using last_in_set [of "lo # take j ks"] set_take_subset [of j ks] by auto
  moreover have "(ks @ [hi]) ! Suc j \<in> set (lo # ks @ [hi])" using jk by (auto simp: nth_append)
  ultimately show "0 \<le> last (lo # take j ks)" "(ks @ [hi]) ! Suc j \<le> KEY_END"
    using f(3,4) by fastforce+
qed

lemma child_id_in: "i < length ts \<Longrightarrow> bt_id (ts ! i) \<in> set (bt_pids (Nd p ks ts))"
  using nth_mem [of i ts] bt_id_in_pids [of "ts ! i"] by (simp only: bt_pids.simps set_simps set_concat set_map) blast

lemma lend_right_law:
  assumes pre: "fix_pre s V R h lo hi p ks ts i" and h: "holds s V n a (Suc (Suc (Suc b))) D" and j: "Suc i < length ts"
    and c: "cached s (bt_id (ts ! i)) = Some rx" "cached s (bt_id (ts ! Suc i)) = Some ry" "cached s p = Some rp"
    and lend: "pg_order s div 2 < bt_num_keys (ts ! Suc i)"
  shows "runs (bnd (borrow_from_right rx ry i rp (h = 0)) (\<lambda>_. ret False)) s
    (fix_post s V n a b D p (set (bt_pids (Nd p ks ts))) (bt_fix (pg_order s) i ks ts))"
  unfolding runs_bnd
proof -
  let ?x = "ts ! i" and ?y = "ts ! Suc i"
  have f: "reps V (Nd p ks ts)" "distinct (bt_pids (Nd p ks ts))" "2 \<le> pg_order s" "Suc (bt_num_keys ?x) = pg_order s div 2"
    using pre by (simp_all add: fix_pre_def sizes_def)
  note fp = fix_pair [OF pre h j]
  have occ: "bt_num_keys ?x < pg_order s" "2 \<le> bt_num_keys ?y" using f(3,4) lend by linarith+
  obtain x' sep y' where b: "bt_borrow_right ?x (ks ! i) ?y = (x', sep, y')" "rotated ?x ?y x' y'"
    using borrow_right_ok [OF fp(2) occ] by blast
  have eq: "bt_fix (pg_order s) i ks ts = (False, ks[i := sep], ts[i := x', Suc i := y'])"
    using b(1) lend j by (simp add: bt_fix_def Let_def)
  have ids: "bt_id x' = bt_id ?x" "bt_id y' = bt_id ?y" using b(2) by (simp_all add: rotated_def)
  have inP: "bt_id ?x \<in> set (bt_pids (Nd p ks ts))" "bt_id ?y \<in> set (bt_pids (Nd p ks ts))" "p \<in> set (bt_pids (Nd p ks ts))"
    using j child_id_in [of i ts] child_id_in [of "Suc i" ts] by simp_all
  show "runs (borrow_from_right rx ry i rp (h = 0)) s (\<lambda>_ s'. runs (ret False) s'
    (fix_post s V n a b D p (set (bt_pids (Nd p ks ts))) (bt_fix (pg_order s) i ks ts)))"
    unfolding runs_basic eq
  proof (rule borrow_right_pages [OF h c fp occ b(1)], goal_cases)
    case (1 s')
    show ?case
      by (rule fix_postI [OF 1 reps_rotated [OF f(1,2) j ids borrow_right_kids [OF fp(2) occ(2) b(1)]]]) (use inP in auto)
  qed
qed

lemma lend_left_law:
  assumes pre: "fix_pre s V R h lo hi p ks ts (Suc j)" and h: "holds s V n a (Suc (Suc (Suc b))) D" and j: "Suc j < length ts"
    and c: "cached s (bt_id (ts ! j)) = Some rx" "cached s (bt_id (ts ! Suc j)) = Some ry" "cached s p = Some rp"
    and lend: "pg_order s div 2 < bt_num_keys (ts ! j)" "\<not> (Suc (Suc j) < length ts \<and> pg_order s div 2 < bt_num_keys (ts ! Suc (Suc j)))"
  shows "runs (bnd (borrow_from_left ry rx (Suc j) rp (h = 0)) (\<lambda>_. ret False)) s
    (fix_post s V n a b D p (set (bt_pids (Nd p ks ts))) (bt_fix (pg_order s) (Suc j) ks ts))"
  unfolding runs_bnd
proof -
  let ?x = "ts ! j" and ?y = "ts ! Suc j"
  have f: "reps V (Nd p ks ts)" "distinct (bt_pids (Nd p ks ts))" "2 \<le> pg_order s" "Suc (bt_num_keys ?y) = pg_order s div 2"
    using pre by (simp_all add: fix_pre_def sizes_def)
  note fp = fix_pair [OF pre h j]
  have occ: "2 \<le> bt_num_keys ?x" "bt_num_keys ?y < pg_order s" using f(3,4) lend(1) by linarith+
  obtain x' sep y' where b: "bt_borrow_left ?x (ks ! j) ?y = (x', sep, y')" "rotated ?x ?y x' y'"
    using borrow_left_ok [OF fp(2) occ] by blast
  have eq: "bt_fix (pg_order s) (Suc j) ks ts = (False, ks[j := sep], ts[j := x', Suc j := y'])"
    using b(1) lend j by (auto simp add: bt_fix_def Let_def)
  have ids: "bt_id x' = bt_id ?x" "bt_id y' = bt_id ?y" using b(2) by (simp_all add: rotated_def)
  have inP: "bt_id ?x \<in> set (bt_pids (Nd p ks ts))" "bt_id ?y \<in> set (bt_pids (Nd p ks ts))" "p \<in> set (bt_pids (Nd p ks ts))"
    using j child_id_in [of j ts] child_id_in [of "Suc j" ts] by simp_all
  show "runs (borrow_from_left ry rx (Suc j) rp (h = 0)) s (\<lambda>_ s'. runs (ret False) s'
    (fix_post s V n a b D p (set (bt_pids (Nd p ks ts))) (bt_fix (pg_order s) (Suc j) ks ts)))"
    unfolding runs_basic eq
  proof (rule borrow_left_pages [OF h c fp occ b(1)], goal_cases)
    case (1 s')
    show ?case
      by (rule fix_postI [OF 1 reps_rotated [OF f(1,2) j ids borrow_left_kids [OF fp(2) occ(1) b(1)]]]) (use inP in auto)
  qed
qed

lemma fold_law:
  assumes pre: "fix_pre s V R h lo hi p ks ts i" and h: "holds s V n a (Suc (Suc b)) D" and j: "Suc j < length ts"
    and c: "cached s (bt_id (ts ! j)) = Some rx" "cached s (bt_id (ts ! Suc j)) = Some ry" "cached s p = Some rp"
    and occ: "bt_num_keys (ts ! j) + bt_num_keys (ts ! Suc j) + 1 \<le> pg_order s"
    and eq: "bt_fix (pg_order s) i ks ts = (True, bt_merge_at j ks ts)"
  shows "runs (bnd (merge_pages rx ry j rp (h = 0)) (\<lambda>_. ret True)) s
    (fix_post s V n a b D p (set (bt_pids (Nd p ks ts))) (bt_fix (pg_order s) i ks ts))"
  unfolding runs_bnd
proof -
  let ?x = "ts ! j" and ?y = "ts ! Suc j"
  have f: "reps V (Nd p ks ts)" "distinct (bt_pids (Nd p ks ts))"
    using pre by (simp_all add: fix_pre_def)
  note fp = fix_pair [OF pre h j]
  have occ': "bt_num_keys ?x + bt_num_keys ?y + (if h = 0 then 0 else 1) \<le> pg_order s" using occ by simp
  have id: "bt_id (bt_merge ?x (ks ! j) ?y) = bt_id ?x" using merge_ok [OF fp(2) occ'] by blast
  have inP: "bt_id ?x \<in> set (bt_pids (Nd p ks ts))" "p \<in> set (bt_pids (Nd p ks ts))"
    using j child_id_in [of j ts] by simp_all
  show "runs (merge_pages rx ry j rp (h = 0)) s (\<lambda>_ s'. runs (ret True) s'
    (fix_post s V n a b D p (set (bt_pids (Nd p ks ts))) (bt_fix (pg_order s) i ks ts)))"
    unfolding runs_basic eq bt_merge_at_def
  proof (rule merge_pages_pages [OF h c fp occ'], goal_cases)
    case (1 s')
    show ?case
      by (rule fix_postI [OF 1 reps_merged [OF f j id merge_kids]]) (use inP in auto)
  qed
qed

lemma fix_pre_step: "fix_pre s V R h lo hi p ks ts i \<Longrightarrow> step s s' \<Longrightarrow> fix_pre s' V R h lo hi p ks ts i"
  by (simp add: fix_pre_def step_def)

lemma fix_post_step: "step s s1 \<Longrightarrow> fix_post s1 V n a b D p P res mg s' \<Longrightarrow> fix_post s V n a b D p P res mg s'"
  unfolding fix_post_def using step_trans by (auto split: prod.splits)

text \<open>The merge at the end, with the right sibling if there is one.\<close>

lemma merge_branch_law:
  assumes pre: "fix_pre s V R h lo hi p ks ts i" and h: "holds s V n a (Suc (Suc b)) D"
    and c: "cached s (bt_id (ts ! i)) = Some rx" "cached s p = Some rp"
    and nr: "\<not> (Suc i < length ts \<and> pg_order s div 2 < bt_num_keys (ts ! Suc i))"
    and nl: "\<not> (0 < i \<and> pg_order s div 2 < bt_num_keys (ts ! (i - 1)))"
  shows "runs (if Suc i < length ts then
              bnd (sibling rp (Suc i)) (\<lambda>right.
              bnd (merge_pages rx right i rp (h = 0)) (\<lambda>_. ret True))
            else
              bnd (sibling rp (i - 1)) (\<lambda>left.
              bnd (merge_pages left rx (i - 1) rp (h = 0)) (\<lambda>_. ret True))) s
    (fix_post s V n a b D p (set (bt_pids (Nd p ks ts))) (bt_fix (pg_order s) i ks ts))"
proof -
  have f: "reps V (Nd p ks ts)" "Suc (bt_num_keys (ts ! i)) = pg_order s div 2" "length ts = Suc (length ks)" "ks \<noteq> []" "i < length ts"
    "\<And>j. j < length ts \<Longrightarrow> j \<noteq> i \<Longrightarrow> pg_order s div 2 \<le> bt_num_keys (ts ! j)"
    using pre by (simp_all add: fix_pre_def)
  have v: "V p = Some (IN ks (map bt_id ts))" using f(1) by simp
  have vj: "V (map bt_id ts ! j) = Some (bt_node (ts ! j))" if "j < length ts" for j
    using f(1) that reps_node [of V "ts ! j"] by simp
  show ?thesis
  proof (cases "Suc i < length ts")
    case True
    have "bt_num_keys (ts ! Suc i) \<le> pg_order s div 2" using nr True by simp
    then have occ: "bt_num_keys (ts ! i) + bt_num_keys (ts ! Suc i) + 1 \<le> pg_order s" using f(2) by linarith
    have eq: "bt_fix (pg_order s) i ks ts = (True, bt_merge_at i ks ts)"
      using True nr nl by (auto simp add: bt_fix_def Let_def)
    show ?thesis
      unfolding if_P [OF True] runs_bnd [of "sibling rp (Suc i)"]
    proof (rule sibling_law [OF h c(2) v _ vj [OF True]], use True in simp, goal_cases)
      case s1: (1 ry s1)
      have cy: "cached s1 (bt_id (ts ! Suc i)) = Some ry" using s1(3) True by simp
      have m1: "pg_order s1 = pg_order s" using s1(1) by (simp add: step_def)
      show ?case
        by (rule runs_weaken [OF fold_law [OF fix_pre_step [OF pre s1(1)] s1(2) True step_cached [OF s1(1) c(1)] cy step_cached [OF s1(1) c(2)]]])
          (use occ eq m1 fix_post_step [OF s1(1)] in auto)
    qed
  next
    case False
    have "i \<noteq> 0" using False f(3,4) by (cases ks) auto
    then obtain j where i: "i = Suc j" by (cases i) simp_all
    have jl: "j < length ts" "Suc j < length ts" using f(5) i by simp_all
    have "bt_num_keys (ts ! j) \<le> pg_order s div 2" "Suc (bt_num_keys (ts ! Suc j)) = pg_order s div 2" using nl f(2) i by simp_all
    then have occ: "bt_num_keys (ts ! j) + bt_num_keys (ts ! Suc j) + 1 \<le> pg_order s" by linarith
    have eq: "bt_fix (pg_order s) i ks ts = (True, bt_merge_at j ks ts)"
      using False nl i by (auto simp add: bt_fix_def Let_def)
    show ?thesis
      unfolding i diff_Suc_1 if_not_P [OF False [unfolded i]] runs_bnd [of "sibling rp j"]
    proof (rule sibling_law [OF h c(2) v _ vj [OF jl(1)]], use jl in simp, goal_cases)
      case s1: (1 rl s1)
      have cl: "cached s1 (bt_id (ts ! j)) = Some rl" using s1(3) jl by simp
      have m1: "pg_order s1 = pg_order s" using s1(1) by (simp add: step_def)
      show ?case
        by (rule runs_weaken [OF fold_law [OF fix_pre_step [OF pre s1(1)] s1(2) jl(2) cl step_cached [OF s1(1) c(1) [unfolded i]] step_cached [OF s1(1) c(2)]]])
          (use occ eq m1 i fix_post_step [OF s1(1)] in auto)
    qed
  qed
qed


text \<open>The two last cases of \<^verbatim>\<open>_borrow_or_merge\<close>.\<close>

abbreviation merge_branch :: "nat \<Rightarrow> nat \<Rightarrow> nat \<Rightarrow> bool \<Rightarrow> bool \<Rightarrow> ('a pager_scheme, bool) act" where
  "merge_branch rx i rp has_right leaf \<equiv>
     (if has_right then
        bnd (sibling rp (Suc i)) (\<lambda>right.
        bnd (merge_pages rx right i rp leaf) (\<lambda>_. ret True))
      else
        bnd (sibling rp (i - 1)) (\<lambda>left.
        bnd (merge_pages left rx (i - 1) rp leaf) (\<lambda>_. ret True)))"

abbreviation try_left_branch :: "nat \<Rightarrow> nat \<Rightarrow> nat \<Rightarrow> bool \<Rightarrow> bool \<Rightarrow> nat \<Rightarrow> ('a pager_scheme, bool) act" where
  "try_left_branch rx i rp has_right leaf mn \<equiv>
     (if i > 0 then
        bnd (sibling rp (i - 1)) (\<lambda>left.
        bnd (can_lend left mn) (\<lambda>ok.
        if ok then bnd (borrow_from_left rx left i rp leaf) (\<lambda>_. ret False)
        else merge_branch rx i rp has_right leaf))
      else merge_branch rx i rp has_right leaf)"

lemma fix_nodes:
  assumes pre: "fix_pre s V R h lo hi p ks ts i"
  shows "V p = Some (IN ks (map bt_id ts))" "j < length ts \<Longrightarrow> V (bt_id (ts ! j)) = Some (bt_node (ts ! j))"
proof -
  have r: "reps V (Nd p ks ts)" using pre by (simp add: fix_pre_def)
  show "V p = Some (IN ks (map bt_id ts))" using r by simp
  show "V (bt_id (ts ! j)) = Some (bt_node (ts ! j))" if "j < length ts"
    using r that reps_node [of V "ts ! j"] by simp
qed

lemma try_left_law:
  assumes pre: "fix_pre s V R h lo hi p ks ts i" and h: "holds s V n a (Suc (Suc (Suc b))) D"
    and c: "cached s (bt_id (ts ! i)) = Some rx" "cached s p = Some rp"
    and nr: "\<not> (Suc i < length ts \<and> pg_order s div 2 < bt_num_keys (ts ! Suc i))"
  shows "runs (try_left_branch rx i rp (Suc i < length ts) (h = 0) (pg_order s div 2)) s
    (fix_post s V n a b D p (set (bt_pids (Nd p ks ts))) (bt_fix (pg_order s) i ks ts))"
proof -
  have h2: "holds s V n a (Suc (Suc b)) D" by (rule holds_weaken [OF h map_le_refl]) simp_all
  have il: "i < length ts" using pre by (simp add: fix_pre_def)
  show ?thesis
  proof (cases i)
    case 0
    show ?thesis using merge_branch_law [OF pre h2 c nr] 0 by simp
  next
    case (Suc j)
    then have jl: "j < length ts" "Suc j < length ts" and pos: "i > 0" using il by simp_all
    show ?thesis
      unfolding if_P [OF pos] runs_bnd [of "sibling rp (i - 1)"] runs_bnd [of "can_lend r m" for r m]
    proof (rule sibling_law [OF h c(2) fix_nodes(1) [OF pre], where j = "i - 1" and nd = "bt_node (ts ! j)"], goal_cases)
      case 1
      then show ?case using Suc jl by simp
    next
      case 2
      then show ?case using Suc jl fix_nodes(2) [OF pre jl(1)] by simp
    next
      case s1: (3 rl s1)
      have cl: "cached s1 (bt_id (ts ! j)) = Some rl" using s1(3) jl Suc by simp
      have m1: "pg_order s1 = pg_order s" using s1(1) by (simp add: step_def)
      note pre1 = fix_pre_step [OF pre s1(1)] and cx = step_cached [OF s1(1) c(1)] and cp = step_cached [OF s1(1) c(2)]
      have h2': "holds s1 V n a (Suc (Suc b)) D" by (rule holds_weaken [OF s1(2) map_le_refl]) simp_all
      show ?case
      proof (rule can_lend_law [OF s1(2) cl fix_nodes(2) [OF pre jl(1)]])
        show "runs (if pg_order s div 2 < bt_num_keys (ts ! j) then bnd (borrow_from_left rx rl i rp (h = 0)) (\<lambda>_. ret False)
            else merge_branch rx i rp (Suc i < length ts) (h = 0)) s1
          (fix_post s V n a b D p (set (bt_pids (Nd p ks ts))) (bt_fix (pg_order s) i ks ts))"
        proof (cases "pg_order s div 2 < bt_num_keys (ts ! j)")
          case True
          show ?thesis
            unfolding if_P [OF True] Suc
            by (rule runs_weaken [OF lend_left_law [OF pre1 [unfolded Suc] s1(2) jl(2) cl cx [unfolded Suc] cp]])
              (use nr True Suc m1 fix_post_step [OF s1(1)] in auto)
        next
          case False
          show ?thesis
            unfolding if_not_P [OF False]
            by (rule runs_weaken [OF merge_branch_law [OF pre1 h2' cx cp]])
              (use nr False Suc m1 fix_post_step [OF s1(1)] in auto)
        qed
      qed
    qed
  qed
qed

theorem borrow_or_merge_law:
  assumes pre: "fix_pre s V R h lo hi p ks ts i" and h: "holds s V n a (Suc (Suc (Suc b))) D"
    and c: "cached s (bt_id (ts ! i)) = Some rx" "cached s p = Some rp"
  shows "runs (borrow_or_merge rx i rp) s
    (fix_post s V n a b D p (set (bt_pids (Nd p ks ts))) (bt_fix (pg_order s) i ks ts))"
proof -
  have il: "i < length ts" and chain: "bchain (bt_inv h (pg_order s) 0) lo (ks @ [hi]) ts" using pre by (simp_all add: fix_pre_def)
  have "ts ! i \<in> set ts" using il by simp
  from bchain_all [OF chain this] have leaf: "(\<exists>es nx. bt_node (ts ! i) = LN es nx) \<longleftrightarrow> h = 0"
    by (cases "ts ! i"; cases h) auto
  show ?thesis
    unfolding borrow_or_merge_def runs_bnd [of "obj rx"] runs_bnd [of "as_index rp"]
  proof (rule obj_law [OF h c(1) fix_nodes(2) [OF pre il]], rule as_index_law [OF h c(2) fix_nodes(1) [OF pre]], goal_cases)
    case (1 pg pp)
    have "(\<not> is_index pg) = (\<exists>es nx. node_of pg = LN es nx)" by (cases pg) simp_all
    then have e: "(\<not> is_index pg) = (h = 0)" "page_max_keys pg = pg_order s" "length (ix_children pp) = length ts"
      using 1(1,2,7) leaf by (simp_all add: page_ok_def)
    show ?case
      unfolding Let_def e Suc_eq_plus1 [symmetric]
    proof (cases "Suc i < length ts")
      case True
      have "runs (bnd (sibling rp (Suc i)) (\<lambda>right. bnd (can_lend right (pg_order s div 2)) (\<lambda>ok.
          if ok then bnd (borrow_from_right rx right i rp (h = 0)) (\<lambda>_. ret False)
          else try_left_branch rx i rp (Suc i < length ts) (h = 0) (pg_order s div 2)))) s
        (fix_post s V n a b D p (set (bt_pids (Nd p ks ts))) (bt_fix (pg_order s) i ks ts))"
        unfolding runs_bnd [of "sibling rp (Suc i)"] runs_bnd [of "can_lend r m" for r m]
      proof (rule sibling_law [OF h c(2) fix_nodes(1) [OF pre], where j = "Suc i" and nd = "bt_node (ts ! Suc i)"], goal_cases)
        case 1
        then show ?case using True by simp
      next
        case 2
        then show ?case using True fix_nodes(2) [OF pre True] by simp
      next
        case s1: (3 rr s1)
        have cr: "cached s1 (bt_id (ts ! Suc i)) = Some rr" using s1(3) True by simp
        have m1: "pg_order s1 = pg_order s" using s1(1) by (simp add: step_def)
        note pre1 = fix_pre_step [OF pre s1(1)] and cx = step_cached [OF s1(1) c(1)] and cp = step_cached [OF s1(1) c(2)]
        show ?case
        proof (rule can_lend_law [OF s1(2) cr fix_nodes(2) [OF pre True]])
          show "runs (if pg_order s div 2 < bt_num_keys (ts ! Suc i) then bnd (borrow_from_right rx rr i rp (h = 0)) (\<lambda>_. ret False)
              else try_left_branch rx i rp (Suc i < length ts) (h = 0) (pg_order s div 2)) s1
            (fix_post s V n a b D p (set (bt_pids (Nd p ks ts))) (bt_fix (pg_order s) i ks ts))"
          proof (cases "pg_order s div 2 < bt_num_keys (ts ! Suc i)")
            case lend: True
            show ?thesis
              unfolding if_P [OF lend]
              by (rule runs_weaken [OF lend_right_law [OF pre1 s1(2) True cx cr cp]])
                (use lend m1 fix_post_step [OF s1(1)] in auto)
          next
            case False
            show ?thesis
              unfolding if_not_P [OF False]
              by (rule runs_weaken [OF try_left_law [OF pre1 s1(2) cx cp, unfolded m1]])
                (use False fix_post_step [OF s1(1)] in auto)
          qed
        qed
      qed
      then show "runs (if Suc i < length ts then bnd (sibling rp (Suc i)) (\<lambda>right. bnd (can_lend right (pg_order s div 2)) (\<lambda>ok.
          if ok then bnd (borrow_from_right rx right i rp (h = 0)) (\<lambda>_. ret False)
          else try_left_branch rx i rp (Suc i < length ts) (h = 0) (pg_order s div 2)))
          else try_left_branch rx i rp (Suc i < length ts) (h = 0) (pg_order s div 2)) s
        (fix_post s V n a b D p (set (bt_pids (Nd p ks ts))) (bt_fix (pg_order s) i ks ts))"
        unfolding if_P [OF True] .
    next
      case False
      have "runs (try_left_branch rx i rp (Suc i < length ts) (h = 0) (pg_order s div 2)) s
        (fix_post s V n a b D p (set (bt_pids (Nd p ks ts))) (bt_fix (pg_order s) i ks ts))"
        by (rule try_left_law [OF pre h c]) (use False in simp)
      then show "runs (if Suc i < length ts then bnd (sibling rp (Suc i)) (\<lambda>right. bnd (can_lend right (pg_order s div 2)) (\<lambda>ok.
          if ok then bnd (borrow_from_right rx right i rp (h = 0)) (\<lambda>_. ret False)
          else try_left_branch rx i rp (Suc i < length ts) (h = 0) (pg_order s div 2)))
          else try_left_branch rx i rp (Suc i < length ts) (h = 0) (pg_order s div 2)) s
        (fix_post s V n a b D p (set (bt_pids (Nd p ks ts))) (bt_fix (pg_order s) i ks ts))"
        unfolding if_not_P [OF False] .
    qed
  qed
qed

end
