(* ===== verification/Tree_Path.thy ===== *)
theory Tree_Path
  imports Tree_Remove
begin

section \<open>Deletion: the path and the way up\<close>

text \<open>
  \<^verbatim>\<open>_find_path\<close> records the pages from the root to the leaf; \<^verbatim>\<open>_fix_underflow\<close> goes through the
  reversed path and stops at the first page that needs no repair. \<open>bt_path\<close> is the path in the
  tree, \<open>bt_cut\<close> the tree after the deletion in the leaf and before any repair.
\<close>

subsection \<open>The path\<close>

fun bt_path :: "int \<Rightarrow> bt \<Rightarrow> (nat \<times> int option) list" where
  "bt_path k (Lf p es nx) = []"
| "bt_path k (Nd p ks ts) =
     (let i = child_pos ks k in
      if i < length ts then (bt_id (ts ! i), Some (int i)) # bt_path k (ts ! i) else [])"

lemma path_idx_eq: "path_idx i ks key dflt = (if child_pos ks key < length ks then int (i + child_pos ks key) else dflt)"
  by (induction ks arbitrary: i) simp_all

lemma path_child_ok:
  assumes "ix_keys p = ks" "ix_children p = map bt_id ts" "length ts = Suc (length ks)"
  shows "path_child p key = Inr (int (child_pos ks key), bt_id (ts ! child_pos ks key))"
proof -
  have i: "child_pos ks key < length ts" using assms(3) le_imp_less_Suc [OF child_pos_le [of ks key]] by simp
  have "path_idx 0 ks key (int (length ks)) = int (child_pos ks key)"
    using le_imp_less_or_eq [OF child_pos_le [of ks key]] by (auto simp add: path_idx_eq)
  then show ?thesis using assms i by (simp add: path_child_def Let_def)
qed

lemma find_path_loop_law:
  assumes "bt_inv h m q lo hi t" "h < fuel" "reps V t" "holds s V n a b D" "cached s (bt_id t) = Some r"
    and "\<And>s'. step s s' \<Longrightarrow> holds s' V n a b D \<Longrightarrow> Q (path @ bt_path key t) s'"
  shows "runs (find_path_loop fuel key r path) s Q"
  using assms
proof (induction h arbitrary: q lo hi t fuel s r path)
  case 0
  then obtain p es nx where t: "t = Lf p es nx" by (elim bt_inv_0E)
  obtain f where f: "fuel = Suc f" using 0 by (cases fuel) auto
  have v: "V p = Some (LN es nx)" "cached s p = Some r" using 0(3,5) t by simp_all
  show ?case
    unfolding f find_path_loop.simps runs_bnd
  proof (rule obj_law [OF 0(4) v(2,1)], goal_cases)
    case (1 pg)
    then show ?case using 0(4) 0(6) [of s] t by (cases pg) (auto simp: runs_simps)
  qed
next
  case (Suc h)
  then obtain p ks ts where t: "t = Nd p ks ts" "length ts = Suc (length ks)"
      "bchain (bt_inv h m (m div 2)) lo (ks @ [hi]) ts"
    by (elim bt_inv_SucE)
  let ?i = "child_pos ks key"
  let ?c = "ts ! ?i"
  have i: "?i < length ts" using t(2) le_imp_less_Suc [OF child_pos_le [of ks key]] by simp
  then have "?c \<in> set ts" by simp
  then obtain l u where c: "bt_inv h m (m div 2) l u ?c" "reps V ?c"
    using bchain_all [OF t(3), of ?c] Suc.prems(3) t(1) by auto
  obtain f where f: "fuel = Suc f" "h < f" using Suc.prems(2) by (cases fuel) auto
  have v: "V p = Some (IN ks (map bt_id ts))" "cached s p = Some r" using Suc.prems(3,5) t by simp_all
  obtain nd where nd: "V (bt_id ?c) = Some nd" using reps_id [OF c(2)] by blast
  show ?case
    unfolding f find_path_loop.simps runs_bnd [of "obj r"]
  proof (rule obj_law [OF Suc.prems(4) v(2,1)], goal_cases)
    case (1 pg)
    then obtain ip where ip: "pg = IndexP ip" "ix_keys ip = ks" "ix_children ip = map bt_id ts" by (cases pg) auto
    have "runs (get_page (bt_id ?c)) s (\<lambda>x s'. runs (find_path_loop f key x (path @ [(bt_id ?c, Some (int ?i))])) s' Q)"
    proof (rule get_page_law [OF Suc.prems(4) nd], goal_cases)
      case s1: (1 r1 s1)
      show ?case
      proof (rule Suc.IH [OF c(1) f(2) c(2) s1(2,3)], goal_cases)
        case (1 s')
        then show ?case using Suc.prems(6) [of s'] step_trans [OF s1(1)] t(1) i by (simp add: Let_def)
      qed
    qed
    then show ?case using path_child_ok [OF ip(2,3) t(2)] ip(1) by (simp add: runs_simps)
  qed
qed

lemma last_path: "bt_inv h m q lo hi t \<Longrightarrow> fst (last ((bt_id t, x) # bt_path k t)) = bt_id (bt_leaf k t)"
proof (induction h arbitrary: q lo hi t x)
  case 0
  then show ?case by (elim bt_inv_0E) simp
next
  case (Suc h)
  then obtain p ks ts where t: "t = Nd p ks ts" "length ts = Suc (length ks)"
      "bchain (bt_inv h m (m div 2)) lo (ks @ [hi]) ts"
    by (elim bt_inv_SucE)
  let ?i = "child_pos ks k"
  have i: "?i < length ts" using t(2) le_imp_less_Suc [OF child_pos_le [of ks k]] by simp
  then obtain l u where c: "bt_inv h m (m div 2) l u (ts ! ?i)" using bchain_all [OF t(3), of "ts ! ?i"] by auto
  show ?case using Suc.IH [OF c, of "Some (int ?i)"] t(1) i by (simp add: Let_def)
qed

lemma map_update_same: "i < length ts \<Longrightarrow> f c = f (ts ! i) \<Longrightarrow> map f (ts[i := c]) = map f ts"
  by (metis list_update_id map_update)

lemma all_update:
  assumes "i < length ts" "\<And>u. u \<in> set (take i ts) \<union> set (drop (Suc i) ts) \<Longrightarrow> P u" "P c"
  shows "\<forall>u \<in> set (ts[i := c]). P u"
proof -
  have "set (ts[i := c]) = insert c (set (take i ts) \<union> set (drop (Suc i) ts))"
    using assms(1) by (simp add: upd_conv_take_nth_drop)
  then show ?thesis using assms(2,3) by auto
qed

subsection \<open>The tree with the leaf changed only\<close>

fun bt_cut :: "int \<Rightarrow> bt \<Rightarrow> bt" where
  "bt_cut k (Lf p es nx) = Lf p (del_sorted k es) nx"
| "bt_cut k (Nd p ks ts) =
     (let i = child_pos ks k in if i < length ts then Nd p ks (ts[i := bt_cut k (ts ! i)]) else Nd p ks ts)"

lemma bt_id_cut [simp]: "bt_id (bt_cut k t) = bt_id t"
  by (cases t) (simp_all add: Let_def)

lemma bt_pids_cut [simp]: "bt_pids (bt_cut k t) = bt_pids t"
proof (induction k t rule: bt_cut.induct)
  case (2 k p ks ts)
  show ?case
  proof (cases "child_pos ks k < length ts")
    case True
    have "map bt_pids (ts[child_pos ks k := bt_cut k (ts ! child_pos ks k)]) = map bt_pids ts"
      unfolding map_update 2 [OF refl True] using True by (simp flip: map_update)
    then show ?thesis using True by (simp only: bt_cut.simps Let_def if_True bt_pids.simps)
  qed simp
qed simp

lemma bt_leaf_pid: "bt_inv h m q lo hi t \<Longrightarrow> bt_id (bt_leaf k t) \<in> set (bt_pids t)"
proof (induction h arbitrary: q lo hi t)
  case 0
  then show ?case by (elim bt_inv_0E) simp
next
  case (Suc h)
  then obtain p ks ts where t: "t = Nd p ks ts" "length ts = Suc (length ks)"
      "bchain (bt_inv h m (m div 2)) lo (ks @ [hi]) ts"
    by (elim bt_inv_SucE)
  let ?c = "ts ! child_pos ks k"
  have i: "child_pos ks k < length ts" using t(2) le_imp_less_Suc [OF child_pos_le [of ks k]] by simp
  then have c: "?c \<in> set ts" by simp
  obtain l u where "bt_inv h m (m div 2) l u ?c" using bchain_all [OF t(3) c] by blast
  from Suc.IH [OF this] show ?case using c t(1) i by (auto simp: Let_def)
qed

lemma reps_cut:
  assumes "reps V t" "distinct (bt_pids t)" "bt_leaf k t = Lf p es nx" "bt_inv h m q lo hi t"
  shows "reps (V(p \<mapsto> LN (del_sorted k es) nx)) (bt_cut k t)"
  using assms
proof (induction h arbitrary: q lo hi t)
  case 0
  then show ?case by (elim bt_inv_0E) simp
next
  case (Suc h)
  then obtain p' ks ts where t: "t = Nd p' ks ts" "length ts = Suc (length ks)"
      "bchain (bt_inv h m (m div 2)) lo (ks @ [hi]) ts"
    by (elim bt_inv_SucE)
  let ?i = "child_pos ks k"
  let ?c = "ts ! ?i" and ?V = "V(p \<mapsto> LN (del_sorted k es) nx)"
  have i: "?i < length ts" using t(2) le_imp_less_Suc [OF child_pos_le [of ks k]] by simp
  then obtain l u where c: "bt_inv h m (m div 2) l u ?c" using bchain_all [OF t(3), of ?c] by auto
  have d: "distinct (bt_pids (Nd p' ks ts))" using Suc.prems(2) t(1) by simp
  have leaf: "bt_leaf k ?c = Lf p es nx" using Suc.prems(3) t(1) i by (simp add: Let_def)
  have rc: "reps V ?c" using Suc.prems(1) t(1) i by simp
  have new: "reps ?V (bt_cut k ?c)" by (rule Suc.IH [OF rc distinct_child(1) [OF d i] leaf c])
  have "bt_id (bt_leaf k ?c) \<in> set (bt_pids ?c)" using bt_leaf_pid [OF c] by simp
  then have p: "p \<in> set (bt_pids ?c)" using leaf by simp
  have frame: "\<forall>q < n. q \<notin> set (bt_pids ?c) \<longrightarrow> ?V q = V q" for n using p by auto
  have bound: "\<forall>q \<in> set (bt_pids (Nd p' ks ts)). q < Suc (Max (set (bt_pids (Nd p' ks ts))))"
    by (intro ballI le_imp_less_Suc Max_ge) (auto simp del: bt_pids.simps)
  note fr = child_frame [OF Suc.prems(1) [unfolded t(1)] d i bound frame]
  have "\<forall>u \<in> set (ts[?i := bt_cut k ?c]). reps ?V u" by (rule all_update [where P = "reps ?V", OF i fr(1) new])
  moreover have "map bt_id (ts[?i := bt_cut k ?c]) = map bt_id ts" by (rule map_update_same [where f = bt_id, OF i bt_id_cut])
  ultimately show ?case using fr(2) i unfolding t(1) by (simp add: Let_def del: fun_upd_apply)
qed


subsection \<open>The way up\<close>

lemma distinct_submset: "distinct xs \<Longrightarrow> mset ys \<subseteq># mset xs \<Longrightarrow> distinct ys"
proof -
  assume d: "distinct xs" and sub: "mset ys \<subseteq># mset xs"
  obtain Z where Z: "mset xs = mset ys + Z" using sub by (auto simp: mset_subset_eq_exists_conv)
  obtain zs where "mset zs = Z" using ex_mset by blast
  then have "mset xs = mset (ys @ zs)" using Z by simp
  from mset_eq_imp_distinct_iff [OF this] show "distinct ys" using d by simp
qed

text \<open>A child that lost a key puts its parent into the situation \<^verbatim>\<open>_borrow_or_merge\<close> repairs.\<close>

lemma repair_pre:
  fixes ts :: "bt list"
  assumes t: "bchain (bt_inv h m (m div 2)) lo (ks @ [hi]) ts" "length ts = Suc (length ks)" "ks \<noteq> []" "length ks \<le> m"
    and i: "i < length ts" and c: "del_ok h m (m div 2) (last (lo # take i ks)) ((ks @ [hi]) ! i) k (ts ! i) (c, found, True)"
    and low: "bt_num_keys c < m div 2" and lh: "0 \<le> lo" "hi \<le> KEY_END" and sz: "sizes m R" "m = pg_order s"
    and rc: "recs R (bt_es (Nd p ks ts))" and d: "distinct (bt_pids (Nd p ks ts))" and reps: "reps V (Nd p ks (ts[i := c]))"
  shows "fix_pre s V R h lo hi p ks (ts[i := c]) i"
proof -
  have inv: "bt_inv h m (m div 2 - 1) (last (lo # take i ks)) ((ks @ [hi]) ! i) c"
    and es: "bt_es c = del_sorted k (bt_es (ts ! i))" and sub: "mset (bt_pids c) \<subseteq># mset (bt_pids (ts ! i))"
    using c by (simp_all add: del_ok_def)
  have "Suc (bt_num_keys c) = m div 2" using bt_inv_num_keys [OF inv] low by linarith
  moreover have "bchain (bt_inv h m 0) lo (ks @ [hi]) (ts[i := c])"
    by (rule replace_child [OF bchain_mono [OF t(1)] t(2) i]) (use inv bt_inv_mono in blast)+
  moreover have "m div 2 \<le> bt_num_keys (ts[i := c] ! j)" if "j < length ts" "j \<noteq> i" for j
  proof -
    have "ts ! j \<in> set ts" using that by simp
    from bchain_all [OF t(1) this] show ?thesis using that by (auto dest: bt_inv_num_keys)
  qed
  moreover have "recs R (concat (map bt_es (ts[i := c])))"
    using rc by (simp add: concat_update [OF i] bt_es_hole [OF i, of p ks] es recs_del del: bt_es.simps)
  moreover have "distinct (bt_pids (Nd p ks (ts[i := c])))"
    by (rule distinct_submset [OF d]) (use mset_swap_subset [OF mset_pids_update [OF i] sub] in simp)
  ultimately show ?thesis using t i lh sz reps by (simp add: fix_pre_def)
qed

lemma child_bounds:
  assumes "bchain P lo (ks @ [hi]) ts" "length ts = Suc (length ks)" "i < length ts"
  shows "lo \<le> last (lo # take i ks)" "(ks @ [hi]) ! i \<le> hi"
proof -
  have "sorted_wrt (<) (lo # ks @ [hi])" by (rule bchain_sorted [OF assms(1)])
  then have b: "\<forall>x \<in> set (lo # ks @ [hi]). lo \<le> x \<and> x \<le> hi" by (auto simp: sorted_wrt_append intro: less_imp_le)
  have "last (lo # take i ks) \<in> set (lo # ks @ [hi])"
    using last_in_set [of "lo # take i ks"] set_take_subset [of i ks] by auto
  then show "lo \<le> last (lo # take i ks)" using b by blast
  have "(ks @ [hi]) ! i \<in> set (ks @ [hi])" using assms(2,3) by (intro nth_mem) simp
  then show "(ks @ [hi]) ! i \<le> hi" using b by auto
qed

lemma fix_loop_law:
  assumes pre: "fix_pre s V R h lo hi p ks ts i" and h: "holds s V n a (Suc (Suc (Suc b))) D" and mg: "bt_fix (pg_order s) i ks ts = (merged, ks', ts')"
    and Q: "\<And>s' V'. step s s' \<Longrightarrow> holds s' V' n a b D \<Longrightarrow> reps V' (Nd p ks' ts') \<Longrightarrow>
      (\<And>q. q \<notin> set (bt_pids (Nd p ks ts)) \<Longrightarrow> V' q = V q) \<Longrightarrow> runs (if merged then fix_loop ((p, x) # rest) else ret False) s' Q"
  shows "runs (fix_loop ((bt_id (ts ! i), Some (int i)) # (p, x) # rest)) s Q"
proof -
  have il: "i < length ts" and low: "Suc (bt_num_keys (ts ! i)) = pg_order s div 2" using pre by (simp_all add: fix_pre_def)
  note v = fix_nodes(1) [OF pre] fix_nodes(2) [OF pre il]
  show ?thesis
    unfolding fix_loop.simps runs_bnd [of "get_page (bt_id (ts ! i))"]
  proof (rule get_page_law [OF h v(2)], goal_cases)
    case s1: (1 r1 s1)
    show ?case
      unfolding runs_bnd [of "obj r1"]
    proof (rule obj_law [OF s1(2,3) v(2)], goal_cases)
      case (1 pg)
      have m1: "pg_order s1 = pg_order s" using s1(1) by (simp add: step_def)
      have nk: "page_num_keys pg = Inr (int (bt_num_keys (ts ! i)))" "page_max_keys pg = pg_order s"
        using num_keys_law [OF 1] 1(1) m1 by (simp_all add: page_ok_def)
      have lt: "\<not> int (pg_order s div 2) \<le> int (bt_num_keys (ts ! i))" using low by simp
      show ?case
        unfolding nk runs_bnd [of "lift_res (Inr y)" for y] runs_basic if_not_P [OF lt] runs_bnd [of "get_page p"]
      proof (rule get_page_law [OF s1(2) v(1)], goal_cases)
        case s2: (1 rp s2)
        have s02: "step s s2" by (rule step_trans [OF s1(1) s2(1)])
        have m2: "pg_order s2 = pg_order s" using s02 by (simp add: step_def)
        show ?case
          unfolding option.case nat_int runs_bnd [of "borrow_or_merge r1 i rp"]
        proof (rule runs_weaken [OF borrow_or_merge_law [OF fix_pre_step [OF pre s02] s2(2) step_cached [OF s2(1) s1(3)] s2(3)]], goal_cases)
          case (1 did s3)
          then obtain V' where f: "did = merged" "step s2 s3" "holds s3 V' n a b D" "reps V' (Nd p ks' ts')"
            "\<And>q. q \<notin> set (bt_pids (Nd p ks ts)) \<Longrightarrow> V' q = V q"
            unfolding m2 mg fix_post_def prod.case by blast
          from Q [OF step_trans [OF s02 f(2)] f(3-5)] show ?case by (cases merged) (simp_all add: f(1))
        qed
      qed
    qed
  qed
qed

text \<open>A page with enough keys ends the loop.\<close>

lemma fix_loop_stop:
  assumes h: "holds s V n a b D" and v: "V (bt_id c) = Some (bt_node c)" and ge: "pg_order s div 2 \<le> bt_num_keys c"
    and Q: "\<And>s'. step s s' \<Longrightarrow> holds s' V n a b D \<Longrightarrow> Q False s'"
  shows "runs (fix_loop ((bt_id c, x) # (p, x') # rest)) s Q"
  unfolding fix_loop.simps runs_bnd [of "get_page (bt_id c)"]
proof (rule get_page_law [OF h v], goal_cases)
  case s1: (1 r1 s1)
  show ?case
    unfolding runs_bnd [of "obj r1"]
  proof (rule obj_law [OF s1(2,3) v], goal_cases)
    case (1 pg)
    have nk: "page_num_keys pg = Inr (int (bt_num_keys c))" "page_max_keys pg = pg_order s"
      using num_keys_law [OF 1] 1(1) s1(1) by (simp_all add: page_ok_def step_def)
    then show ?case using Q [OF s1(1,2)] ge by (simp add: runs_simps)
  qed
qed


text \<open>
  The loop over the path of the subtree \<open>t\<close> does what \<open>bt_del\<close> does on the way up, and goes on
  with the pages above \<open>t\<close> if these have to be checked.
\<close>

theorem fix_path_law:
  assumes "bt_inv h (pg_order s) q lo hi t" "h = 0 \<or> 1 \<le> q" "0 \<le> lo" "hi \<le> KEY_END" "sizes (pg_order s) R" "recs R (bt_es t)"
    and "distinct (bt_pids t)" "k \<in> fst ` set (bt_es t)" "holds s V n a (b + 3 * h) D" "reps V (bt_cut k t)"
    and "bt_del (pg_order s) k t = (t', True, check)"
    and "\<And>s' V'. step s s' \<Longrightarrow> holds s' V' n a b D \<Longrightarrow> reps V' t' \<Longrightarrow> (\<And>q. q \<notin> set (bt_pids t) \<Longrightarrow> V' q = V q) \<Longrightarrow>
      runs (if check then fix_loop ((bt_id t, x) # rest) else ret False) s' Q"
  shows "runs (fix_loop (rev (bt_path k t) @ (bt_id t, x) # rest)) s Q"
  using assms
proof (induction h arbitrary: q lo hi t t' check x rest b s V Q)
  case 0
  then obtain p es nx where t: "t = Lf p es nx" by (elim bt_inv_0E)
  have r: "t' = bt_cut k t" "check" using "0.prems"(11) t by simp_all
  have h: "holds s V n a b D" using "0.prems"(9) by simp
  show ?case using "0.prems"(12) [OF step_refl h "0.prems"(10) [folded r(1)]] r(2) t by simp
next
  case (Suc h)
  let ?m = "pg_order s"
  obtain p ks ts where t: "t = Nd p ks ts" "length ts = Suc (length ks)"
      "bchain (bt_inv h ?m (?m div 2)) lo (ks @ [hi]) ts" "q \<le> length ks" "length ks \<le> ?m"
    using Suc.prems(1) by (elim bt_inv_SucE)
  let ?i = "child_pos ks k"
  let ?c = "ts ! ?i" and ?ts = "ts[?i := bt_cut k (ts ! ?i)]"
  have m2: "2 \<le> ?m" using Suc.prems(5) by (simp add: sizes_def)
  have q1: "h = 0 \<or> 1 \<le> ?m div 2" and ks: "ks \<noteq> []" using m2 Suc.prems(2) t(4) by auto
  note hole = hole_any [OF t(3,2), of k]
  note i = hole(1) and c = hole(2)
  have d: "distinct (bt_pids (Nd p ks ts))" using Suc.prems(7) t(1) by simp
  have dc: "distinct (bt_pids ?c)" by (rule distinct_child(1) [OF d i])
  have chs: "0 \<le> last (lo # take ?i ks)" "(ks @ [hi]) ! ?i \<le> KEY_END"
    using child_bounds [OF t(3,2) i] Suc.prems(3,4) by simp_all
  have rc: "recs R (bt_es ?c)" using Suc.prems(6) unfolding t(1) bt_es_hole [OF i] by simp
  have cut: "bt_cut k t = Nd p ks ?ts" using t(1) i by (simp add: Let_def)
  have reps_c: "reps V (bt_cut k ?c)" using Suc.prems(10) i unfolding cut by (simp add: set_update_memI)
  have path: "rev (bt_path k t) @ (bt_id t, x) # rest =
      rev (bt_path k ?c) @ (bt_id ?c, Some (int ?i)) # (p, x) # rest"
    using t(1) i by (simp add: Let_def)
  obtain c' fc chk where run: "bt_del ?m k ?c = (c', fc, chk)" by (metis prod_cases3)
  have ok: "del_ok h ?m (?m div 2) (last (lo # take ?i ks)) ((ks @ [hi]) ! ?i) k ?c (c', fc, chk)"
    using bt_del_ok [OF c m2 q1, of k] run by simp
  have fc: "fc" using Suc.prems(11) run i t(1) by (auto simp: Let_def split: if_splits)
  have run': "bt_del ?m k ?c = (c', True, chk)" using run fc by simp
  have kc: "k \<in> fst ` set (bt_es ?c)" and id: "bt_id c' = bt_id ?c" using ok fc by (simp_all add: del_ok_def)
  have h': "holds s V n a (Suc (Suc (Suc b)) + 3 * h) D" using Suc.prems(9) by (simp add: eval_nat_numeral)
  show ?case
    unfolding path
  proof (rule Suc.IH [OF c q1 chs Suc.prems(5) rc dc kc h' reps_c run'], goal_cases)
    case s1: (1 s1 V1)
    let ?tc = "ts[?i := c']"
    have m1: "pg_order s1 = ?m" using s1(1) by (simp add: step_def)
    have rcut: "reps V (Nd p ks ?ts)" using Suc.prems(10) unfolding cut .
    have dcut: "distinct (bt_pids (Nd p ks ?ts))" using bt_pids_cut [of k t] Suc.prems(7) unfolding cut by simp
    have pids: "set (bt_pids t) = set (bt_pids (Nd p ks ?ts))" using bt_pids_cut [of k t] unfolding cut by simp
    have "\<forall>q \<in> set (bt_pids (Nd p ks ?ts)). q < n" using reps_pids_less [OF Suc.prems(9) rcut] by blast
    moreover have "\<forall>q < n. q \<notin> set (bt_pids (?ts ! ?i)) \<longrightarrow> V1 q = V q" using s1(4) i by simp
    ultimately have others: "\<And>t. t \<in> set (take ?i ts) \<union> set (drop (Suc ?i) ts) \<Longrightarrow> reps V1 t" "V1 p = Some (IN ks (map bt_id ?ts))"
      using child_frame [OF rcut dcut, of ?i n V1] i by simp_all
    have same: "map bt_id ?ts = map bt_id ?tc" using map_update_same [where f = bt_id, OF i id] map_update_same [where f = bt_id, OF i bt_id_cut] by simp
    have "\<forall>u \<in> set ?tc. reps V1 u" by (rule all_update [where P = "reps V1", OF i others(1) s1(3)])
    then have r1: "reps V1 (Nd p ks ?tc)" using others(2) same by simp
    have frame: "V1 q = V q" if "q \<notin> set (bt_pids t)" for q
      by (rule s1(4)) (use that i t(1) nth_mem [OF i] in auto)
    have hb: "holds s1 V1 n a b D" by (rule holds_weaken [OF s1(2) map_le_refl]) simp_all
    show ?case
    proof (cases chk)
      case False
      then have r: "t' = Nd p ks ?tc" "\<not> check" using Suc.prems(11) run fc i t(1) by (auto simp: Let_def)
      show ?thesis using Suc.prems(12) [OF s1(1) hb r1 [folded r(1)] frame] r(2) False by simp
    next
      case True
      show ?thesis
      proof (cases "bt_num_keys c' < ?m div 2")
        case low: True
        have ok': "del_ok h ?m (?m div 2) (last (lo # take ?i ks)) ((ks @ [hi]) ! ?i) k ?c (c', fc, True)" using ok True by simp
        have pre: "fix_pre s1 V1 R h lo hi p ks ?tc ?i"
          by (rule repair_pre [OF t(3,2) ks t(5) i ok' low Suc.prems(3,4,5) _ Suc.prems(6) [unfolded t(1)] d r1])
            (simp add: m1)
        obtain merged ks' ts' where f: "bt_fix ?m ?i ks ?tc = (merged, ks', ts')" by (metis prod_cases3)
        have r: "t' = Nd p ks' ts'" "check = merged"
          using Suc.prems(11) run fc i t(1) low True f by (simp_all add: Let_def)
        have sub: "set (bt_pids (Nd p ks ?tc)) \<subseteq> set (bt_pids t)"
        proof -
          have "mset (bt_pids c') \<subseteq># mset (bt_pids ?c)" using ok by (simp add: del_ok_def)
          from mset_swap_subset [OF mset_pids_update [OF i] this] show ?thesis
            using set_mset_mono unfolding t(1) by fastforce
        qed
        have "runs (fix_loop ((bt_id (?tc ! ?i), Some (int ?i)) # (p, x) # rest)) s1 Q"
        proof (rule fix_loop_law [OF pre s1(2) f [folded m1]], goal_cases)
          case (1 s2 V2)
          have "V2 q = V q" if "q \<notin> set (bt_pids t)" for q
            using that sub frame [OF that] 1(4) [of q] by auto
          then have "runs (if check then fix_loop ((bt_id t, x) # rest) else ret False) s2 Q"
            by (rule Suc.prems(12) [OF step_trans [OF s1(1) 1(1)] 1(2) 1(3) [folded r(1)]])
          then show ?case unfolding r(2) t(1) bt_id.simps .
        qed
        then show ?thesis using True id i by simp
      next
        case high: False
        then have r: "t' = Nd p ks ?tc" "\<not> check" using Suc.prems(11) run fc i t(1) by (auto simp: Let_def)
        have v1: "V1 (bt_id c') = Some (bt_node c')" using s1(3) reps_node [of V1 c'] by blast
        have ge: "pg_order s1 div 2 \<le> bt_num_keys c'" using high m1 by simp
        have "runs (fix_loop ((bt_id c', Some (int ?i)) # (p, x) # rest)) s1 Q"
        proof (rule fix_loop_stop [OF hb v1 ge], goal_cases)
          case (1 s2)
          have "runs (if check then fix_loop ((bt_id t, x) # rest) else ret False) s2 Q"
            by (rule Suc.prems(12) [OF step_trans [OF s1(1) 1(1)] 1(2) r1 [folded r(1)] frame])
          then show ?case unfolding if_not_P [OF r(2)] runs_basic .
        qed
        then show ?thesis using True id by simp
      qed
    qed
  qed
qed


subsection \<open>Deletion\<close>

text \<open>An index page that lost its last key gives way to its child.\<close>

lemma root_collapse_law:
  fixes s :: "'a bplus_tree_scheme"
  assumes h: "holds s V n a (Suc b) D" and r: "reps V t" "bt_root_id s = bt_id t" "pg_root s = Some (bt_id t)"
    and inv: "bt_inv h m q lo hi t"
    and Q: "\<And>s'. same_files s s' \<Longrightarrow> bt_root_id s' = bt_id (bt_collapse t) \<Longrightarrow> pg_root s' = Some (bt_id (bt_collapse t)) \<Longrightarrow>
      holds s' V n a b D \<Longrightarrow> Q () s'"
  shows "runs (bnd (gets bt_root_id) (\<lambda>root_id.
       bnd (get_page root_id) (\<lambda>r.
       bnd (obj r) (\<lambda>pg. case pg of
         LeafP _ \<Rightarrow> ret ()
       | IndexP p \<Rightarrow>
           if index_num_keys p = 0 then bnd (lift_res (py_nth (ix_children p) 0)) set_root
           else ret ())))) s Q"
  unfolding runs_bnd [of "gets bt_root_id"] runs_basic r(2) runs_bnd [of "get_page (bt_id t)"]
proof -
  have v: "V (bt_id t) = Some (bt_node t)" using r(1) reps_node [of V t] by blast
  show "runs (get_page (bt_id t)) s (\<lambda>r s'. runs (bnd (obj r) (\<lambda>pg. case pg of
         LeafP _ \<Rightarrow> ret ()
       | IndexP p \<Rightarrow>
           if index_num_keys p = 0 then bnd (lift_res (py_nth (ix_children p) 0)) set_root
           else ret ())) s' Q)"
  proof (rule get_page_law [OF h v], goal_cases)
    case s1: (1 r1 s1)
    note root = step_tree [OF s1(1)] step_same [OF s1(1)]
    have hb: "holds s1 V n a b D" by (rule holds_weaken [OF s1(2) map_le_refl]) simp_all
    show ?case
      unfolding runs_bnd [of "obj r1"]
    proof (rule obj_law [OF s1(2,3) v], goal_cases)
      case (1 pg)
      show ?case
      proof (cases pg)
        case (LeafP l)
        then obtain p es nx where t: "t = Lf p es nx" using 1(2) by (cases t) auto
        show ?thesis using Q [of s1] root r(2,3) hb LeafP t by (simp add: runs_simps bt_collapse_def)
      next
        case (IndexP ip)
        then obtain p ks ts where t: "t = Nd p ks ts" using 1(2) by (cases t) auto
        have ip: "ix_keys ip = ks" "ix_children ip = map bt_id ts" using 1(2) IndexP t by simp_all
        show ?thesis
        proof (cases "ks = []")
          case True
          obtain c cs where ts: "ts = c # cs" using inv t by (cases h; cases ts) (auto dest: bchain_length)
          have vc: "V (bt_id c) = Some (bt_node c)" using r(1) t ts reps_node [of V c] by simp
          have col: "bt_collapse t = c" using t True ts by (simp add: bt_collapse_def)
          have "runs (set_root (bt_id c)) s1 Q"
          proof (rule set_root_law [OF s1(2) vc], goal_cases)
            case (1 s')
            then show ?case using col same_files_trans [OF root(2)] by (intro Q) simp_all
          qed
          then show ?thesis using IndexP ip True ts by (simp add: runs_simps index_num_keys_def)
        next
          case False
          then have "bt_collapse t = t" using t by (auto simp: bt_collapse_def split: list.split)
          then show ?thesis using Q [of s1] root r(2,3) hb IndexP ip False by (simp add: runs_simps index_num_keys_def)
        qed
      qed
    qed
  qed
qed

lemma bt_leaf_es:
  assumes "bt_inv h m q lo hi t" "bt_leaf k t = Lf p es nx"
  shows "k \<in> fst ` set es \<longleftrightarrow> k \<in> fst ` set (bt_es t)" "keys_sorted (bt_es t) \<Longrightarrow> keys_sorted es"
proof -
  obtain p' es' nx' pre post where "bt_leaf k t = Lf p' es' nx'" and sp: "bt_leafs t = pre @ (p', es', nx') # post"
     "\<forall>x \<in> fst ` set (concat (map leaf_es pre)). x < k" "\<forall>x \<in> fst ` set (concat (map leaf_es post)). k < x"
    using bt_leaf_split [OF assms(1), of k] by (elim exE conjE) (rule that)
  then have e: "es' = es" using assms(2) by simp
  have all: "bt_es t = concat (map leaf_es pre) @ es @ concat (map leaf_es post)" using sp(1) e by (simp add: bt_es_leafs)
  have "k \<notin> fst ` set (concat (map leaf_es pre))" "k \<notin> fst ` set (concat (map leaf_es post))" using sp(2,3) by blast+
  then show "k \<in> fst ` set es \<longleftrightarrow> k \<in> fst ` set (bt_es t)" unfolding all set_append image_Un by blast
  show "keys_sorted (bt_es t) \<Longrightarrow> keys_sorted es" unfolding all by (simp add: keys_sorted_append)
qed

lemma del_absent: "bt_inv h m q lo hi t \<Longrightarrow> 2 \<le> m \<Longrightarrow> h = 0 \<or> 1 \<le> q \<Longrightarrow> k \<notin> fst ` set (bt_es t) \<Longrightarrow> bt_delete m k t = (t, False)"
proof -
  assume a: "bt_inv h m q lo hi t" "2 \<le> m" "h = 0 \<or> 1 \<le> q" "k \<notin> fst ` set (bt_es t)"
  obtain t' found check where run: "bt_del m k t = (t', found, check)" by (metis prod_cases3)
  show ?thesis using bt_del_ok [OF a(1-3), of k] a(4) run bt_delete_eq [OF run] by (simp add: del_ok_def)
qed


theorem tree_delete_law:
  assumes st: "stores s t n a (b + 3 * bt_height t + 2) R"
  shows "runs (tree_delete k) s (\<lambda>found s'. found = (k \<in> fst ` set (bt_es t)) \<and> same_files s s' \<and>
    stores s' (fst (bt_delete (pg_order s) k t)) n a b R)"
proof -
  let ?m = "pg_order s"
  obtain V h where s: "bt_root_id s = bt_id t" "pg_root s = Some (bt_id t)"
    "holds s V n a (b + 3 * bt_height t + 2) {}" "reps V t"
    "distinct (bt_pids t)" "bt_inv h ?m (root_min h) 0 KEY_END t" "sizes ?m R" "recs R (bt_es t)" "h < n"
    using st by (elim storesE)
  have bh: "bt_height t = h" by (rule bt_height_inv [OF s(6)])
  have m2: "2 \<le> ?m" using s(7) by (simp add: sizes_def)
  have bok: "bt_ok ?m t" using st by (simp add: stores_def)
  have n: "pg_next_id s = n" using s(3) by (simp add: holds_def)
  obtain p es nx where leaf: "bt_leaf k t = Lf p es nx" using bt_leaf_split [OF s(6), of k] by blast
  have sorted: "keys_sorted es" by (rule bt_leaf_es(2) [OF s(6) leaf stores_sorted [OF st]])
  note mem = bt_leaf_es(1) [OF s(6) leaf]
  have "(p, es, nx) \<in> set (bt_leafs t)" using bt_leaf_split [OF s(6), of k] leaf by auto
  then have vp: "V p = Some (LN es nx)" by (rule reps_leafs [OF s(4)])
  have vr: "V (bt_id t) = Some (bt_node t)" using s(4) reps_node [of V t] by blast
  have last: "fst (last ((bt_id t, None) # bt_path k t)) = p" using last_path [OF s(6), of None k] leaf by simp
  have hn: "h < Suc n" using s(9) by simp
  have q1: "h = 0 \<or> 1 \<le> root_min h" by (simp add: root_min_def)
  note cor = bt_delete_correct [OF bok m2, of k]
  show ?thesis
    unfolding tree_delete_def find_path_def tree_fuel_def runs_bnd [of "bnd A B" for A B] runs_bnd [of "gets f" for f] runs_basic n s(1)
      runs_bnd [of "get_page x" for x]
  proof (rule get_page_law [OF s(3) vr], goal_cases)
    case s1: (1 r1 s1)
    show ?case
    proof (rule find_path_loop_law [OF s(6) hn s(4) s1(2,3)], unfold append_Cons append_Nil last, goal_cases)
      case s2: (1 s2)
      show ?case
      proof (rule get_page_law [OF s2(2) vp], goal_cases)
        case s3: (1 r3 s3)
        have s03: "step s s3" using step_trans [OF s1(1) step_trans [OF s2(1) s3(1)]] .
        show ?case
          unfolding runs_bnd [of "leaf_act r A" for r A]
        proof (rule leaf_delete_law [OF s3(2,3) vp sorted], goal_cases)
          case s4: (1 s4)
          have s04: "step s s4" by (rule step_trans [OF s03 s4(1)])
          note root4 = step_tree [OF s04]
          show ?case
          proof (cases "k \<in> fst ` set (bt_es t)")
            case False
            then have same: "del_sorted k es = es" "V(p \<mapsto> LN es nx) = V" using mem vp by (auto simp: del_sorted_absent)
            have "holds s4 V n a b {}"
              using s4(2) False mem unfolding same by (intro holds_weaken [OF s4(2) [unfolded same] map_le_refl]) auto
            from stores_step [OF st s04 this s(4)] have "stores s4 t n a b R" .
            then show ?thesis using False mem step_same [OF s04] del_absent [OF s(6) m2 q1 False] by (simp add: runs_simps)
          next
            case True
            let ?V = "V(p \<mapsto> LN (del_sorted k es) nx)"
            have h4: "holds s4 ?V n a (Suc (b + 3 * h + 1)) {p}" using s4(2) True mem bh by simp
            have c4: "cached s4 p = Some r3" by (rule step_cached [OF s4(1) s3(3)])
            have v4: "?V p = Some (LN (del_sorted k es) nx)" by simp
            have t: "\<not> \<not> k \<in> fst ` set es" using True mem by simp
            obtain t' check where run: "bt_del ?m k t = (t', True, check)"
              using bt_del_ok [OF s(6) m2 q1, of k] True by (cases "bt_del ?m k t") (auto simp: del_ok_def)
            have "del_ok h ?m (root_min h) 0 KEY_END k t (t', True, check)"
              using bt_del_ok [OF s(6) m2 q1, of k] run by simp
            then have inv: "bt_inv h ?m 0 0 KEY_END t'" and id: "bt_id t' = bt_id t"
              by (auto simp: del_ok_def intro: bt_inv_mono)
            have del: "fst (bt_delete ?m k t) = (if check then bt_collapse t' else t')" using bt_delete_eq [OF run] by simp
            have rc: "recs R (bt_es (fst (bt_delete ?m k t)))" using cor recs_del [OF s(8)] by simp
            have dis: "distinct (bt_pids (fst (bt_delete ?m k t)))" using cor distinct_submset [OF s(5)] by blast
            show ?thesis
              unfolding if_not_P [OF t] runs_bnd [of "pg_mark_dirty r3"]
            proof (rule mark_dirty_law [OF h4 c4 v4], goal_cases)
              case s5: (1 s5)
              have s05: "step s s5" by (rule step_trans [OF s04 s5(1)])
              note root5 = step_tree [OF s05]
              have m5: "pg_order s5 = ?m" using root5 by blast
              have h5: "holds s5 ?V n a (Suc b + 3 * h) {}" by (rule holds_weaken [OF s5(2) map_le_refl]) simp_all
              have cut: "reps ?V (bt_cut k t)" by (rule reps_cut [OF s(4,5) leaf s(6)])
              have rev: "rev ((bt_id t, None) # bt_path k t) = rev (bt_path k t) @ (bt_id t, None) # []" by simp
              show ?case
                unfolding fix_underflow_def rev runs_bnd [of "bnd A B" for A B] runs_bnd [of "fix_loop P" for P]
              proof (rule fix_path_law [OF s(6) [folded m5] q1 _ _ s(7) [folded m5] s(8,5) True h5 cut run [folded m5]], simp, simp, goal_cases)
                case s6: (1 s6 V6)
                have s06: "step s s6" by (rule step_trans [OF s05 s6(1)])
                note root6 = step_tree [OF s06]
                show ?case
                proof (cases check)
                  case False
                  have "holds s6 V6 n a b {}" by (rule holds_weaken [OF s6(2) map_le_refl]) simp_all
                  then have "stores s6 t' n a b R"
                    using s6(3) root6 s(1,2,7) id False del cor rc dis unfolding stores_def by auto
                  then show ?thesis using False del step_same [OF s06] True t by (simp add: runs_simps)
                next
                  case check: True
                  have r6: "bt_root_id s6 = bt_id t'" "pg_root s6 = Some (bt_id t')" using root6 s(1,2) id by simp_all
                  have col: "fst (bt_delete ?m k t) = bt_collapse t'" using del check by simp
                  have sub: "reps V6 (bt_collapse t')"
                    using s6(3) inv by (cases t'; cases h) (auto simp: bt_collapse_def dest!: bchain_length [THEN sym] split: list.split)
                  have "runs (bnd (gets bt_root_id) (\<lambda>root_id.
                       bnd (get_page root_id) (\<lambda>r.
                       bnd (obj r) (\<lambda>pg. case pg of
                         LeafP _ \<Rightarrow> ret ()
                       | IndexP p \<Rightarrow>
                           if index_num_keys p = 0 then bnd (lift_res (py_nth (ix_children p) 0)) set_root
                           else ret ())))) s6
                     (\<lambda>_ s'. same_files s s' \<and> stores s' (fst (bt_delete ?m k t)) n a b R)"
                  proof (rule root_collapse_law [OF s6(2)[simplified] s6(3) r6 inv], goal_cases)
                    case (1 s7)
                    have same: "same_files s s7" by (rule same_files_trans [OF step_same [OF s06] 1(1)])
                    then have "pg_order s7 = ?m" by (simp add: same_files_def)
                    then show ?case
                      using 1 same sub cor rc dis s(7) unfolding col stores_def by auto
                  qed
                  then show ?thesis using check True t by (simp add: runs_simps runs_bnd)
                qed
              qed
            qed
          qed
        qed
      qed
    qed
  qed
qed

end
