(* ===== verification/Tree_Durable.thy ===== *)
theory Tree_Durable
  imports Tree_Path
begin

section \<open>Creation, flush and reopening\<close>

text \<open>
  \<^verbatim>\<open>flush\<close> writes the log, every dirty page and the meta page, and empties the log. A pager and a
  tree opened on the two files afterwards store the same tree: \<open>tree_flush_law\<close>, \<open>reopen_law\<close>.
\<close>

subsection \<open>The meta page\<close>

fun root_num :: "nat option \<Rightarrow> nat" where
  "root_num None = NO_PAGE"
| "root_num (Some r) = r"

definition meta_image :: "nat option \<Rightarrow> nat \<Rightarrow> nat \<Rightarrow> bytes" where
  "meta_image root next_id order =
     META_MAGIC @ le_bytes 4 (root_num root) @ le_bytes 4 next_id @ le_bytes 4 order @ replicate 4076 0"

definition meta_fits :: "nat option \<Rightarrow> nat \<Rightarrow> nat \<Rightarrow> bool" where
  "meta_fits root next_id order \<longleftrightarrow> (\<forall>r. root = Some r \<longrightarrow> r < NO_PAGE) \<and> next_id < 2 ^ 32 \<and> order < 2 ^ 32"

lemma length_magic: "length META_MAGIC = 8"
  by (simp add: META_MAGIC_def)

lemma root_num_bound: "meta_fits root next_id order \<Longrightarrow> root_num root < 2 ^ 32"
  by (cases root) (auto simp: meta_fits_def NO_PAGE_def)

lemma length_meta [simp]: "length (meta_image root next_id order) = PAGE_SIZE"
  by (simp add: meta_image_def length_magic page_consts)

lemma meta_bytes_ok:
  assumes "meta_fits root next_id order"
  shows "meta_bytes root next_id order = Inr (meta_image root next_id order)"
proof -
  have 0: "put_slice 0 8 META_MAGIC (replicate 4096 0) = META_MAGIC @ replicate 4088 0"
    using put_zeros [of 0 "[]" 8 META_MAGIC 4096 0] by (simp add: length_magic)
  have 1: "put_slice 8 12 (le_bytes 4 r) (META_MAGIC @ replicate 4088 0) = (META_MAGIC @ le_bytes 4 r) @ replicate 4084 0" for r
    using put_zeros [of 8 META_MAGIC 12 "le_bytes 4 r" 4088 0] by (simp add: length_magic)
  have 2: "put_slice 12 16 (le_bytes 4 k) ((META_MAGIC @ le_bytes 4 r) @ replicate 4084 0) =
      (META_MAGIC @ le_bytes 4 r @ le_bytes 4 k) @ replicate 4080 0" for r k
    using put_zeros [of 12 "META_MAGIC @ le_bytes 4 r" 16 "le_bytes 4 k" 4084 0] by (simp add: length_magic)
  have 3: "put_slice 16 20 (le_bytes 4 j) ((META_MAGIC @ le_bytes 4 r @ le_bytes 4 k) @ replicate 4080 0) =
      META_MAGIC @ le_bytes 4 r @ le_bytes 4 k @ le_bytes 4 j @ replicate 4076 0" for r k j
    using put_zeros [of 16 "META_MAGIC @ le_bytes 4 r @ le_bytes 4 k" 20 "le_bytes 4 j" 4080 0] by (simp add: length_magic)
  have root: "(case root of None \<Rightarrow> NO_PAGE | Some r \<Rightarrow> r) = root_num root" by (cases root) simp_all
  show ?thesis
    using assms root_num_bound [OF assms] 0 1 2 3
    by (simp add: meta_bytes_def Let_def root pack_into_def page_consts length_magic meta_fits_def nat_less_iff meta_image_def)
qed

theorem meta_roundtrip:
  assumes "meta_fits root next_id order"
  shows "parse_meta (meta_image root next_id order) = Inr (root, next_id, order)"
proof -
  note u = unpack_from_mid [of _ _ _ 4]
  have r: "unpack_from 4 (meta_image root next_id order) 8 = Inr (int (root_num root))"
    using u [of 8 META_MAGIC "le_bytes 4 (root_num root)" "le_bytes 4 next_id @ le_bytes 4 order @ replicate 4076 0"] root_num_bound [OF assms]
    by (simp add: meta_image_def length_magic le_nat_le_bytes)
  have n: "unpack_from 4 (meta_image root next_id order) 12 = Inr (int next_id)"
    using u [of 12 "META_MAGIC @ le_bytes 4 (root_num root)" "le_bytes 4 next_id" "le_bytes 4 order @ replicate 4076 0"] assms
    by (simp add: meta_image_def length_magic le_nat_le_bytes meta_fits_def)
  have o: "unpack_from 4 (meta_image root next_id order) 16 = Inr (int order)"
    using u [of 16 "META_MAGIC @ le_bytes 4 (root_num root) @ le_bytes 4 next_id" "le_bytes 4 order" "replicate 4076 0"] assms
    by (simp add: meta_image_def length_magic le_nat_le_bytes meta_fits_def)
  have magic: "seg 0 8 (meta_image root next_id order) = META_MAGIC"
    unfolding meta_image_def by (rule seg_front) (simp add: length_magic)
  have "\<not> length (meta_image root next_id order) < 20" by (simp add: page_consts)
  then show ?thesis
    unfolding parse_meta_def using assms r n o magic by (cases root) (simp_all add: meta_fits_def)
qed

subsection \<open>Flushing the pages\<close>

text \<open>What flushing keeps, in contrast to the other operations: pages become clean.\<close>

definition kept :: "'a pager_scheme \<Rightarrow> 'a pager_scheme \<Rightarrow> bool" where
  "kept s s' \<longleftrightarrow> pager.more s' = pager.more s \<and> pg_root s' = pg_root s \<and> pg_order s' = pg_order s \<and> pg_next_id s' = pg_next_id s \<and>
     (pg_file s' = None \<longleftrightarrow> pg_file s = None) \<and> pg_txn_writing s' = pg_txn_writing s \<and> pg_deferred s' = pg_deferred s \<and>
     pg_next_txn_id s' = pg_next_txn_id s \<and> cached s' = cached s"

lemma kept_trans: "kept s s' \<Longrightarrow> kept s' s'' \<Longrightarrow> kept s s''"
  by (simp add: kept_def)

lemma flush_page_law:
  assumes h: "holds s V n a b D" and c: "cached s pid = Some r" and pf: "pg_file s = Some f"
    and sv: "\<And>nd. V pid = Some nd \<Longrightarrow> node_saves nd"
    and Q: "\<And>s'. kept s s' \<Longrightarrow> pg_wal s' = pg_wal s \<Longrightarrow> holds s' V n a b (D - {pid}) \<Longrightarrow> (\<And>q. is_dirty s' q \<longleftrightarrow> is_dirty s q \<and> q \<noteq> pid) \<Longrightarrow> Q () s'"
  shows "runs (flush_page (pid, r)) s Q"
proof -
  let ?pg = "pg_objs s ! r"
  let ?p = "pool_clear_dirty pid (pg_pool s)"
  let ?s = "s\<lparr>pg_file := Some (file_write (data_offset pid) (page_bytes ?pg) f), pg_pool := ?p\<rparr>"
  have po: "pool_ok s" and V: "V \<subseteq>\<^sub>m nview s" "dom V \<subseteq> {..<n}" and n: "pg_next_id s = n"
    and l: "n + a \<le> limit s" "log_room s b" "saved s V D"
    using h by (auto simp: holds_def)
  have pg: "page_ok (pg_order s) pid ?pg" using po c by (simp add: pool_ok_def)
  then have id: "pg_id ?pg = pid" "page_fits ?pg" "length (page_bytes ?pg) = PAGE_SIZE"
    using page_to_bytes_ok by (simp_all add: page_ok_def)
  have run: "flush_page (pid, r) s = (Inr (), ?s)"
    using write_page_run [OF pf id(2)] id(1) by (simp add: flush_page_def bnd_def upd_pool_def)
  have cs: "cached ?s = cached s"
    by (simp add: cached_def pool_dirty_flag_ok option.map_comp o_def fun_eq_iff)
  have ds: "is_dirty ?s q \<longleftrightarrow> is_dirty s q \<and> q \<noteq> pid" for q
    by (auto simp: is_dirty_def pool_dirty_flag_ok)
  have other: "disk_node ?s q = Some nd" if "disk_node s q = Some nd" "q \<noteq> pid" for q nd
    using that id(3) pf file_node_write_other [of "page_bytes ?pg" pid q "pg_order s" f nd] by (simp add: disk_node_def)
  have here: "disk_node ?s pid = Some nd" if v: "V pid = Some nd" for nd
  proof -
    have "node_of ?pg = nd" using holds_view [OF h v] c by (simp add: nview_def)
    then show ?thesis using file_node_write [OF pg, of f] sv [OF v] by (simp add: disk_node_def)
  qed
  have view: "V \<subseteq>\<^sub>m nview ?s"
    unfolding map_le_def
  proof
    fix q assume q: "q \<in> dom V"
    then obtain nd where nd: "V q = Some nd" by blast
    then have ns: "nview s q = Some nd" using holds_view [OF h] by blast
    have "nview ?s q = Some nd"
    proof (cases "cached s q")
      case None
      then have "disk_node s q = Some nd" using ns by (simp add: nview_def)
      moreover have "q \<noteq> pid" using None c by auto
      ultimately have "disk_node ?s q = Some nd" by (rule other)
      then show ?thesis using None unfolding nview_def cs by simp
    next
      case (Some r')
      then show ?thesis using ns unfolding nview_def cs by simp
    qed
    then show "V q = nview ?s q" using nd by simp
  qed
  have "saved ?s V (D - {pid})"
    unfolding saved_def
  proof (intro allI impI)
    fix q nd assume a: "V q = Some nd" "q \<notin> D - {pid}" "\<not> is_dirty ?s q" "pg_file ?s \<noteq> None"
    show "disk_node ?s q = Some nd"
    proof (cases "q = pid")
      case True
      then show ?thesis using here a(1) by blast
    next
      case False
      then have "disk_node s q = Some nd" using l(3) a ds [of q] pf unfolding saved_def by auto
      then show ?thesis using other False by blast
    qed
  qed
  moreover have "pool_ok ?s" using po cs by (simp add: pool_ok_def pool_dirty_flag_ok)
  moreover have "limit ?s = limit s" "log_room ?s b = log_room s b" by (simp_all add: limit_def log_room_def pool_dirty_flag_ok)
  ultimately have "holds ?s V n a b (D - {pid})" using view V(2) n l by (simp add: holds_def)
  moreover have "kept s ?s" using cs pf by (simp add: kept_def)
  ultimately have "Q () ?s" by (intro Q) (simp_all add: ds)
  with run show ?thesis by (rule runs_I)
qed

lemma flush_pages_law:
  assumes "holds s V n a b D" "\<forall>(pid, r) \<in> set ds. cached s pid = Some r" "pg_file s \<noteq> None"
    and "\<And>pid nd. V pid = Some nd \<Longrightarrow> node_saves nd"
    and "\<And>s'. kept s s' \<Longrightarrow> pg_wal s' = pg_wal s \<Longrightarrow> holds s' V n a b D \<Longrightarrow> (\<And>q. is_dirty s' q \<longleftrightarrow> is_dirty s q \<and> q \<notin> fst ` set ds) \<Longrightarrow> Q () s'"
  shows "runs (for_each flush_page ds) s Q"
  using assms
proof (induction ds arbitrary: s)
  case Nil
  show ?case
    unfolding for_each.simps runs_basic by (rule Nil.prems(5)) (use Nil.prems(1) in \<open>simp_all add: kept_def\<close>)
next
  case (Cons e ds)
  obtain pid r where e: "e = (pid, r)" by (cases e)
  have c: "cached s pid = Some r" using Cons.prems(2) e by simp
  obtain f where f: "pg_file s = Some f" using Cons.prems(3) by blast
  show ?case
    unfolding for_each.simps runs_bnd e
  proof (rule flush_page_law [OF Cons.prems(1) c f Cons.prems(4)], assumption, goal_cases)
    case s1: (1 s1)
    have h1: "holds s1 V n a b D" by (rule holds_weaken [OF s1(3) map_le_refl]) auto
    have cs: "\<forall>(pid, r) \<in> set ds. cached s1 pid = Some r" using Cons.prems(2) s1(1) by (auto simp: kept_def)
    have f1: "pg_file s1 \<noteq> None" using s1(1) f by (simp add: kept_def)
    show ?case
    proof (rule Cons.IH [OF h1 cs f1 Cons.prems(4)], assumption, goal_cases)
      case (1 s2)
      show ?case
        by (rule Cons.prems(5)) (use 1 s1 kept_trans [OF s1(1) 1(1)] e in auto)
    qed
  qed
qed


subsection \<open>The log during a flush\<close>

lemma wal_changed:
  assumes h: "holds s V n a b D" and w: "pg_wal s = Some w" "w_next_lsn w' + b' \<le> 2 ^ 64" "\<forall>e \<in> set (w_buf w'). fst e < w_next_lsn w'"
  shows "holds (s\<lparr>pg_wal := Some w'\<rparr>) V n a b' D" "kept s (s\<lparr>pg_wal := Some w'\<rparr>)" "is_dirty (s\<lparr>pg_wal := Some w'\<rparr>) = is_dirty s"
proof -
  let ?s = "s\<lparr>pg_wal := Some w'\<rparr>"
  have c: "cached ?s = cached s" "is_dirty ?s = is_dirty s" "disk_node ?s = disk_node s" "limit ?s = limit s"
    by (simp_all add: cached_def is_dirty_def disk_node_def limit_def fun_eq_iff cong: option.case_cong)
  moreover from c have "nview ?s = nview s" by (simp add: nview_def fun_eq_iff cong: option.case_cong)
  moreover have "log_room ?s b'" using w by (simp add: log_room_def)
  ultimately show "holds ?s V n a b' D" using h by (auto simp add: holds_def pool_ok_def saved_def)
  show "kept s ?s" "is_dirty ?s = is_dirty s" using c by (simp_all add: kept_def)
qed

lemma fsync_next [simp]: "w_next_lsn (wal_fsync w) = w_next_lsn w"
  by (simp add: wal_fsync_def fsync_up_to_def Let_def)

lemma fsync_buf: "set (w_buf (wal_fsync w)) \<subseteq> set (w_buf w)"
  by (auto simp: wal_fsync_def fsync_up_to_def Let_def)

lemma fsync_law:
  assumes h: "holds s V n a b D"
    and Q: "\<And>s'. kept s s' \<Longrightarrow> (pg_wal s' = None \<longleftrightarrow> pg_wal s = None) \<Longrightarrow> is_dirty s' = is_dirty s \<Longrightarrow> holds s' V n a b D \<Longrightarrow> Q () s'"
  shows "runs (if_wal (run_wal (modify wal_fsync))) s Q"
proof (cases "pg_wal s")
  case None
  have "Q () s" by (rule Q) (use h in \<open>simp_all add: kept_def\<close>)
  then show ?thesis using None by (simp add: if_wal_def runs_def bnd_def)
next
  case (Some w)
  let ?s = "s\<lparr>pg_wal := Some (wal_fsync w)\<rparr>"
  have l: "w_next_lsn w + b \<le> 2 ^ 64" "\<forall>e \<in> set (w_buf w). fst e < w_next_lsn w" using h Some by (simp_all add: holds_def log_room_def)
  have "\<forall>e \<in> set (w_buf (wal_fsync w)). fst e < w_next_lsn (wal_fsync w)" using l(2) fsync_buf [of w] by auto
  then have "Q () ?s" using wal_changed [OF h Some, of "wal_fsync w" b] l(1) Some by (intro Q) simp_all
  moreover have "if_wal (run_wal (modify wal_fsync)) s = (Inr (), ?s)"
    using Some by (simp add: if_wal_def bnd_def run_wal_def)
  ultimately show ?thesis by (intro runs_I)
qed

text \<open>The log after a checkpoint is empty.\<close>

lemma checkpoint_run:
  assumes "w_next_lsn w < 2 ^ 64" "\<forall>e \<in> set (w_buf w). fst e < w_next_lsn w"
  shows "\<exists>w'. wal_checkpoint w = (Inr (), w') \<and> w_file w' = [] \<and> w_buf w' = [] \<and> w_next_lsn w' = Suc (w_next_lsn w)"
proof -
  let ?w = "logs Checkpoint w"
  have "append_checkpoint w = (Inr (w_next_lsn w), ?w)" using append_ok(3) [OF assms(1)] .
  moreover have "w_buf (wal_fsync ?w) = []"
    using assms(2) by (auto simp: logs_def wal_fsync_def fsync_up_to_def Let_def filter_empty_conv)
  ultimately show ?thesis by (simp add: wal_checkpoint_def bnd_def logs_def)
qed

lemma checkpoint_law:
  assumes h: "holds s V n a (Suc b) D"
    and Q: "\<And>s'. kept s s' \<Longrightarrow> (\<And>w. pg_wal s' = Some w \<Longrightarrow> w_file w = [] \<and> w_buf w = []) \<Longrightarrow> (pg_wal s' = None \<longleftrightarrow> pg_wal s = None) \<Longrightarrow>
      pg_file s' = pg_file s \<Longrightarrow> is_dirty s' = is_dirty s \<Longrightarrow> holds s' V n a b D \<Longrightarrow> Q () s'"
  shows "runs (if_wal (run_wal wal_checkpoint)) s Q"
proof (cases "pg_wal s")
  case None
  have "Q () s" by (rule Q) (use h None holds_weaken [OF h map_le_refl, of a b D] in \<open>simp_all add: kept_def\<close>)
  then show ?thesis using None by (simp add: if_wal_def runs_def bnd_def)
next
  case (Some w)
  have l: "w_next_lsn w < 2 ^ 64" "w_next_lsn w + Suc b \<le> 2 ^ 64" "\<forall>e \<in> set (w_buf w). fst e < w_next_lsn w"
    using h Some by (auto simp: holds_def log_room_def)
  obtain w' where w': "wal_checkpoint w = (Inr (), w')" "w_file w' = []" "w_buf w' = []" "w_next_lsn w' = Suc (w_next_lsn w)"
    using checkpoint_run [OF l(1,3)] by blast
  have "Q () (s\<lparr>pg_wal := Some w'\<rparr>)"
    using wal_changed [OF h Some, of w' b] l(2) w' Some by (intro Q) auto
  moreover have "if_wal (run_wal wal_checkpoint) s = (Inr (), s\<lparr>pg_wal := Some w'\<rparr>)"
    using Some w'(1) by (simp add: if_wal_def bnd_def run_wal_def)
  ultimately show ?thesis by (intro runs_I)
qed

subsection \<open>What is on disk\<close>

definition on_disk :: "nat \<Rightarrow> bytes \<Rightarrow> bt \<Rightarrow> nat \<Rightarrow> bool" where
  "on_disk m f t n \<longleftrightarrow> seg 0 PAGE_SIZE f = meta_image (Some (bt_id t)) n m \<and> reps (file_node m f) t"

lemma seg_0_write: "length v = k \<Longrightarrow> seg 0 k (file_write 0 v f) = v"
  by (simp add: seg_def file_write_def)

lemma write_meta_law:
  assumes h: "holds s V n a b D" and f: "pg_file s = Some f" and fits: "meta_fits (pg_root s) (pg_next_id s) (pg_order s)"
    and Q: "\<And>s'. kept s s' \<Longrightarrow> pg_wal s' = pg_wal s \<Longrightarrow> is_dirty s' = is_dirty s \<Longrightarrow> holds s' V n a b D \<Longrightarrow>
      pg_file s' = Some (file_write 0 (meta_image (pg_root s) (pg_next_id s) (pg_order s)) f) \<Longrightarrow> Q () s'"
  shows "runs write_meta s Q"
proof -
  let ?s = "s\<lparr>pg_file := Some (file_write 0 (meta_image (pg_root s) (pg_next_id s) (pg_order s)) f)\<rparr>"
  have c: "cached ?s = cached s" "is_dirty ?s = is_dirty s" "limit ?s = limit s" "log_room ?s b = log_room s b"
    by (simp_all add: cached_def is_dirty_def limit_def log_room_def fun_eq_iff)
  have d: "disk_node ?s q = Some nd" if "disk_node s q = Some nd" for q nd
    using that f file_node_write_meta [of "meta_image (pg_root s) (pg_next_id s) (pg_order s)" "pg_order s" f q nd]
    by (simp add: disk_node_def)
  have "V \<subseteq>\<^sub>m nview ?s"
    unfolding map_le_def
  proof
    fix q assume "q \<in> dom V"
    then obtain nd where nd: "V q = Some nd" "nview s q = Some nd" using holds_view [OF h] by blast
    then show "V q = nview ?s q" using d [of q nd] unfolding nview_def c by (auto split: option.splits)
  qed
  moreover have "saved s V D" using h by (simp add: holds_def)
  then have "saved ?s V D" by (rule saved_mono) (use c d f in simp_all)
  ultimately have "holds ?s V n a b D" using h c by (auto simp add: holds_def pool_ok_def)
  moreover have "kept s ?s" using c f by (simp add: kept_def)
  ultimately have "Q () ?s" using c by (intro Q) simp_all
  moreover have "write_meta s = (Inr (), ?s)"
    using meta_bytes_ok [OF fits] file_put_run [OF f] by (simp add: write_meta_def bnd_def)
  ultimately show ?thesis by (intro runs_I)
qed

lemma inv_node_saves:
  "bt_inv h m q lo hi t \<Longrightarrow> h = 0 \<or> 1 \<le> q \<Longrightarrow> 2 \<le> m \<Longrightarrow> reps V t \<Longrightarrow> p \<in> set (bt_pids t) \<Longrightarrow> V p = Some nd \<Longrightarrow> node_saves nd"
proof (induction h arbitrary: q lo hi t)
  case 0
  then show ?case by (elim bt_inv_0E) auto
next
  case (Suc h)
  then obtain p' ks ts where t: "t = Nd p' ks ts" "length ts = Suc (length ks)" "q \<le> length ks"
      "bchain (bt_inv h m (m div 2)) lo (ks @ [hi]) ts"
    by (elim bt_inv_SucE)
  show ?case
  proof (cases "p = p'")
    case True
    then show ?thesis using Suc.prems t by auto
  next
    case False
    then obtain c where c: "c \<in> set ts" "p \<in> set (bt_pids c)" using Suc.prems(5) t(1) by auto
    obtain l u where "bt_inv h m (m div 2) l u c" using bchain_all [OF t(4) c(1)] by blast
    then show ?thesis by (rule Suc.IH) (use Suc.prems t c in auto)
  qed
qed


lemma tree_node_saves:
  assumes "bt_ok m t" "2 \<le> m" "reps V t" "(V |` set (bt_pids t)) p = Some nd"
  shows "node_saves nd"
proof -
  obtain h where "bt_inv h m (root_min h) 0 KEY_END t" using assms(1) by (auto simp: bt_ok_def)
  then show ?thesis
    by (rule inv_node_saves [where V = V and p = p]) (use assms in \<open>auto simp: root_min_def restrict_map_def split: if_splits\<close>)
qed

text \<open>
  A flush leaves the tree as it is, writes the pages and the meta page to the data file and empties
  the log.
\<close>

theorem tree_flush_law:
  assumes st: "stores s t n a (Suc b) R" and pf: "pg_file s \<noteq> None"
  shows "runs tree_flush s (\<lambda>_ s'. stores s' t n a b R \<and> same_files s s' \<and>
    (\<exists>f. pg_file s' = Some f \<and> on_disk (pg_order s) f t n) \<and>
    (\<forall>w. pg_wal s' = Some w \<longrightarrow> w_file w = [] \<and> w_buf w = []))"
proof -
  let ?m = "pg_order s"
  obtain V0 h where s: "bt_root_id s = bt_id t" "pg_root s = Some (bt_id t)" "holds s V0 n a (Suc b) {}" "reps V0 t"
    "distinct (bt_pids t)" "bt_inv h ?m (root_min h) 0 KEY_END t" "sizes ?m R" "recs R (bt_es t)"
    using st by (elim storesE)
  define V where "V = V0 |` set (bt_pids t)"
  have h0: "holds s V n a (Suc b) {}" unfolding V_def by (rule holds_weaken [OF s(3)]) (auto simp: map_le_def restrict_map_def)
  have rV: "reps V t" unfolding V_def by (rule reps_cong [OF s(4)]) simp
  have bok: "bt_ok ?m t" using st by (simp add: stores_def)
  have m: "2 \<le> ?m" "?m \<le> 338" using s(7) sizes_order by blast+
  have saves: "node_saves nd" if "V p = Some nd" for p nd
    using tree_node_saves [OF bok m(1) s(4)] that unfolding V_def by blast
  have pos: "pool_ok s" and n: "pg_next_id s = n" "n + a \<le> limit s" using h0 by (simp_all add: holds_def)
  have fits: "meta_fits (Some (bt_id t)) n ?m"
    using reps_id [OF s(4)] holds_NO_NEXT [OF s(3)] n(2) m(2) by (auto simp: meta_fits_def NO_PAGE_def NO_NEXT_def limit_def)
  have ifm: "runs (if_file A) s Q = runs A s Q" for A Q using pf by (simp add: if_file_def runs_simps)
  show ?thesis
    unfolding tree_flush_def pg_flush_def ifm runs_bnd [of "if_wal A" for A]
  proof (rule fsync_law [OF h0], goal_cases)
    case s1: (1 s1)
    let ?ds = "pool_dirty_pages (pg_pool s1)"
    have p1: "pool_ok s1" using s1(4) by (simp add: holds_def)
    have f1: "pg_file s1 \<noteq> None" using s1(1) pf by (simp add: kept_def)
    have wf1: "distinct (map fst (bp_frames (pg_pool s1)))" using p1 by (simp add: pool_ok_def pool_wf_def od_keys_def)
    have ds: "\<forall>(pid, r) \<in> set ?ds. cached s1 pid = Some r"
      using wf1 by (auto simp: pool_dirty_pages_def cached_def pool_frame_def intro: map_of_is_SomeI)
    have dirty: "q \<in> fst ` set ?ds" if "is_dirty s1 q" for q
    proof -
      from that obtain f where "map_of (bp_frames (pg_pool s1)) q = Some f" "fr_dirty f" by (auto simp: is_dirty_def pool_frame_def)
      then have "(q, f) \<in> set (bp_frames (pg_pool s1))" "fr_dirty f" by (simp_all add: map_of_SomeD)
      then show ?thesis by (force simp: pool_dirty_pages_def)
    qed
    show ?case
      unfolding runs_bnd [of "gets f" for f] runs_basic runs_bnd [of "for_each f xs" for f xs]
    proof (rule flush_pages_law [OF s1(4) ds f1 saves], assumption, goal_cases)
      case s2: (1 s2)
      have clean: "\<not> is_dirty s2 q" for q using s2(4) [of q] dirty [of q] by blast
      have k02: "kept s s2" using kept_trans [OF s1(1) s2(1)] .
      have same: "pg_root s2 = Some (bt_id t)" "pg_next_id s2 = n" "pg_order s2 = ?m" using k02 s(2) n(1) by (simp_all add: kept_def)
      obtain f2 where f2: "pg_file s2 = Some f2" using k02 pf by (auto simp: kept_def)
      have fits2: "meta_fits (pg_root s2) (pg_next_id s2) (pg_order s2)" using fits same by simp
      show ?case
        unfolding runs_bnd [of "write_meta"]
      proof (rule write_meta_law [OF s2(3) f2 fits2], goal_cases)
        case s3: (1 s3)
        show ?case
        proof (rule checkpoint_law [OF s3(4)], goal_cases)
          case s4: (1 s4)
          have k: "kept s s4" using kept_trans [OF k02 kept_trans [OF s3(1) s4(1)]] .
          have root: "bt_root_id s4 = bt_root_id s" "pg_root s4 = pg_root s" "pg_order s4 = ?m"
            using k by (cases s; cases s4; simp add: kept_def)+
          define f where "f = file_write 0 (meta_image (Some (bt_id t)) n ?m) f2"
          have f4: "pg_file s4 = Some f" using s4(4) s3(5) same by (simp add: f_def)
          have "file_node ?m f q = Some nd" if v: "V q = Some nd" for q nd
          proof -
            have "\<not> is_dirty s4 q" using clean [of q] s4(5) s3(3) by simp
            then have "disk_node s4 q = Some nd" using s4(6) v f4 unfolding holds_def saved_def by blast
            then show ?thesis using f4 root(3) by (simp add: disk_node_def)
          qed
          then have "reps (file_node ?m f) t"
            by (intro reps_cong [OF rV]) (metis domD reps_dom [OF rV] subsetD)
          moreover have "seg 0 PAGE_SIZE f = meta_image (Some (bt_id t)) n ?m" unfolding f_def by (rule seg_0_write) simp
          ultimately have "on_disk ?m f t n" by (simp add: on_disk_def)
          moreover have "stores s4 t n a b R" using st s4(6) rV root by (auto simp: stores_def)
          moreover have "same_files s s4" using k s4(3) s3(2) s2(2) s1(2) root(3) f4 pf by (simp add: same_files_def kept_def)
          ultimately show ?case using f4 s4(2) by blast
        qed
      qed
    qed
  qed
qed


subsection \<open>Opening\<close>

lemma scan_loop_Nil [simp]: "scan_loop [] next = next"
  by (subst scan_loop.simps) simp

lemma wal_open_empty: "w_file w = [] \<Longrightarrow> wal_open (Some (w_file w)) = wal_open None"
  by (simp add: wal_open_def)

lemma pool_init_ok: "1 \<le> capacity \<Longrightarrow> pool_init (int capacity) = Inr \<lparr>bp_capacity = capacity, bp_frames = []\<rparr>"
  by (simp add: pool_init_def)

lemma mk_tree_simps [simp]:
  "pg_file (mk_tree p r) = pg_file p" "pg_order (mk_tree p r) = pg_order p" "pg_pool (mk_tree p r) = pg_pool p"
  "pg_next_id (mk_tree p r) = pg_next_id p" "pg_root (mk_tree p r) = pg_root p" "pg_wal (mk_tree p r) = pg_wal p"
  "pg_objs (mk_tree p r) = pg_objs p" "bt_root_id (mk_tree p r) = r" "bt_order (mk_tree p r) = pg_order p"
  by (simp_all add: mk_tree_def pager.defs bplus_tree.defs)

lemma pg_empty_simps [simp]:
  "pg_file (pg_empty order pool) = None" "pg_order (pg_empty order pool) = order" "pg_pool (pg_empty order pool) = pool"
  "pg_next_id (pg_empty order pool) = 0" "pg_root (pg_empty order pool) = None" "pg_wal (pg_empty order pool) = None"
  by (simp_all add: pg_empty_def)

text \<open>A pager opened on the two files of a flushed tree, whatever its \<^verbatim>\<open>order\<close> argument.\<close>

theorem reopen_law:
  assumes disk: "on_disk m f t n" "bt_ok m t" "distinct (bt_pids t)" "sizes m R" "recs R (bt_es t)"
    and n: "\<forall>p \<in> set (bt_pids t). p < n" "n + a \<le> min capacity NO_NEXT" "1 \<le> capacity" and b: "b < 2 ^ 64"
  shows "\<exists>p s. pager_init (Some (Some f, Some [])) order (int capacity) = Inr p \<and> tree_init p = Inr s \<and>
    pg_order s = m \<and> pg_file s = Some f \<and> pg_wal s \<noteq> None \<and> stores s t n a b R"
proof -
  let ?pool = "\<lparr>bp_capacity = capacity, bp_frames = []\<rparr> :: nat buffer_pool"
  let ?p = "(pg_empty order ?pool)\<lparr>pg_file := Some f, pg_root := Some (bt_id t), pg_next_id := n, pg_order := m, pg_wal := Some (wal_open None)\<rparr>"
  let ?s = "mk_tree ?p (bt_id t)"
  have id: "bt_id t < n" using n(1) by simp
  have fits: "meta_fits (Some (bt_id t)) n m"
    using id n(2) sizes_order [OF disk(4)] by (simp add: meta_fits_def NO_PAGE_def NO_NEXT_def)
  have meta: "parse_meta (seg 0 PAGE_SIZE f) = Inr (Some (bt_id t), n, m)"
    using disk(1) meta_roundtrip [OF fits] by (simp add: on_disk_def)
  have empty: "wal_is_empty (wal_open (Some []))" "wal_open (Some []) = wal_open None"
    by (simp_all add: wal_open_def wal_is_empty_def)
  have open_run: "open_existing f (Some []) (pg_empty order ?pool) = (Inr (), ?p)"
    using meta empty by (simp add: open_existing_def read_meta_def file_get_def bnd_def)
  have init: "pager_init (Some (Some f, Some [])) order (int capacity) = Inr ?p"
    using n(3) open_run by (simp add: pager_init_def pool_init_ok)
  have tree: "tree_init ?p = Inr ?s" by (simp add: tree_init_def)
  have fields: "pg_order ?s = m" "pg_root ?s = Some (bt_id t)" "bt_root_id ?s = bt_id t" "pg_next_id ?s = n" "pg_file ?s = Some f"
    "pg_pool ?s = ?pool" "pg_wal ?s = Some (wal_open None)"
    by simp_all
  define V where "V = file_node m f |` set (bt_pids t)"
  have rV: "reps V t" using disk(1) by (auto simp: V_def on_disk_def intro: reps_cong)
  have c: "cached ?s = (\<lambda>_. None)" by (simp add: cached_def pool_frame_def fields fun_eq_iff)
  have disk_V: "disk_node ?s q = Some nd" if "V q = Some nd" for q nd
    using that by (simp add: disk_node_def fields V_def restrict_map_def split: if_splits)
  have "pool_ok ?s" using n(3) by (simp add: pool_ok_def c fields pool_wf_def od_keys_def)
  moreover have "V \<subseteq>\<^sub>m nview ?s" using disk_V by (auto simp: map_le_def nview_def c)
  moreover have "dom V \<subseteq> {..<n}" using n(1) by (auto simp: V_def)
  moreover have "n + a \<le> limit ?s" using n(2) by (simp add: limit_def fields)
  moreover have "log_room ?s b" using b by (simp add: log_room_def fields wal_open_def)
  moreover have "saved ?s V {}" using disk_V by (simp add: saved_def)
  ultimately have "holds ?s V n a b {}" by (simp add: holds_def fields)
  then have "stores ?s t n a b R" using disk rV by (auto simp: stores_def fields)
  then show ?thesis using init tree fields(1,5,7) by (intro exI conjI) simp_all
qed

text \<open>A new tree: in memory, and on a new file.\<close>

lemma new_tree_law:
  assumes h: "holds p Map.empty 0 (Suc a) (Suc b) {}"
    and Q: "\<And>p'. pg_root p' = Some 0 \<Longrightarrow> pg_order p' = pg_order p \<Longrightarrow> (pg_file p' = None \<longleftrightarrow> pg_file p = None) \<Longrightarrow>
      (pg_wal p' = None \<longleftrightarrow> pg_wal p = None) \<Longrightarrow> holds p' [0 \<mapsto> LN [] None] 1 a b {} \<Longrightarrow> Q 0 p'"
  shows "runs (bnd new_leaf_page (\<lambda>r. bnd (obj r) (\<lambda>root.
      bnd (modify (\<lambda>s. s\<lparr>pg_root := Some (pg_id root)\<rparr>)) (\<lambda>_. bnd log_meta_update (\<lambda>_. ret (pg_id root)))))) p Q"
  unfolding runs_bnd [of new_leaf_page]
proof (rule new_leaf_law [OF h], goal_cases)
  case s1: (1 r s1)
  have h1: "holds s1 [0 \<mapsto> LN [] None] 1 a (Suc b) {}" using s1(2) by simp
  have v1: "[0 \<mapsto> LN [] None] 0 = Some (LN [] None)" by simp
  show ?case
    unfolding runs_bnd [of "obj r"]
  proof (rule obj_law [OF h1 s1(3) v1], goal_cases)
    case (1 pg)
    have id: "pg_id pg = 0" using 1(1) by (simp add: page_ok_def)
    have h2: "holds (s1\<lparr>pg_root := Some 0\<rparr>) [0 \<mapsto> LN [] None] 1 a (Suc b) {}" using h1 by (subst holds_cong [of _ s1]) simp_all
    have root: "r < NO_NEXT" if "pg_root (s1\<lparr>pg_root := Some 0\<rparr>) = Some r" for r using that by (simp add: NO_NEXT_def)
    show ?case
      unfolding id runs_bnd [of "modify g" for g] runs_basic(4) runs_bnd [of log_meta_update]
    proof (rule log_meta_law [OF h2 root], assumption, goal_cases)
      case (1 s2)
      have "Q 0 s2" by (rule Q) (use s1(1) 1 in \<open>simp_all add: step_def\<close>)
      then show ?case unfolding runs_basic .
    qed
  qed
qed

lemma create_pager:
  assumes fits: "meta_fits None 0 m" and cap: "1 \<le> capacity" and new: "files = None \<or> files = Some (None, None)"
  shows "\<exists>p. pager_init files m (int capacity) = Inr p \<and> pg_order p = m \<and> pg_root p = None \<and> pg_next_id p = 0 \<and>
      pg_pool p = \<lparr>bp_capacity = capacity, bp_frames = []\<rparr> \<and> (pg_file p = None \<longleftrightarrow> files = None) \<and>
      pg_wal p = (if files = None then None else Some (wal_open None))"
  using new
proof
  assume f: "files = None"
  then have "pager_init files m (int capacity) = Inr (pg_empty m \<lparr>bp_capacity = capacity, bp_frames = []\<rparr>)"
    using cap by (simp add: pager_init_def pool_init_ok)
  then show ?thesis using f by auto
next
  assume f: "files = Some (None, None)"
  let ?pool = "\<lparr>bp_capacity = capacity, bp_frames = []\<rparr> :: nat buffer_pool"
  define img where "img = meta_image None 0 m"
  have "create_new None (pg_empty m ?pool) =
      (Inr (), (pg_empty m ?pool)\<lparr>pg_file := Some (file_write 0 img []), pg_wal := Some (wal_open None)\<rparr>)"
    using meta_bytes_ok [OF fits, folded img_def] by (simp add: create_new_def write_meta_def bnd_def file_put_def)
  then have "pager_init files m (int capacity) =
      Inr ((pg_empty m ?pool)\<lparr>pg_file := Some (file_write 0 img []), pg_wal := Some (wal_open None)\<rparr>)"
    using cap f by (simp add: pager_init_def pool_init_ok)
  then show ?thesis using f by auto
qed

theorem create_law:
  assumes sz: "sizes m R" and cap: "Suc a \<le> capacity" "Suc a \<le> NO_NEXT" and b: "Suc b < 2 ^ 64" and new: "files = None \<or> files = Some (None, None)"
  shows "\<exists>p s. pager_init files m (int capacity) = Inr p \<and> tree_init p = Inr s \<and> pg_order s = m \<and>
    (pg_file s = None \<longleftrightarrow> files = None) \<and> (pg_wal s = None \<longleftrightarrow> files = None) \<and> stores s (Lf 0 [] None) 1 a b R"
proof -
  have m: "2 \<le> m" "m \<le> 338" using sizes_order [OF sz] by blast+
  have cap1: "1 \<le> capacity" using cap(1) by simp
  have fits: "meta_fits None 0 m" using m by (simp add: meta_fits_def)
  obtain p where p: "pager_init files m (int capacity) = Inr p" "pg_order p = m" "pg_root p = None" "pg_next_id p = 0"
    "pg_pool p = \<lparr>bp_capacity = capacity, bp_frames = []\<rparr>" "pg_file p = None \<longleftrightarrow> files = None"
    "pg_wal p = (if files = None then None else Some (wal_open None))"
    using create_pager [OF fits cap1 new] by (elim exE conjE) (rule that)
  have c: "cached p = (\<lambda>_. None)" by (simp add: cached_def pool_frame_def p fun_eq_iff)
  have room: "log_room p (Suc b)" using b p(7) by (simp add: log_room_def wal_open_def)
  have h: "holds p Map.empty 0 (Suc a) (Suc b) {}"
    using cap p(4,5) room by (simp add: holds_def pool_ok_def c pool_wf_def od_keys_def limit_def saved_def)
  have "runs (bnd new_leaf_page (\<lambda>r. bnd (obj r) (\<lambda>root.
      bnd (modify (\<lambda>s. s\<lparr>pg_root := Some (pg_id root)\<rparr>)) (\<lambda>_. bnd log_meta_update (\<lambda>_. ret (pg_id root)))))) p
    (\<lambda>root p'. root = 0 \<and> pg_root p' = Some 0 \<and> pg_order p' = pg_order p \<and> (pg_file p' = None \<longleftrightarrow> pg_file p = None) \<and>
      (pg_wal p' = None \<longleftrightarrow> pg_wal p = None) \<and> holds p' [0 \<mapsto> LN [] None] 1 a b {})"
    by (rule new_tree_law [OF h]) simp
  then obtain p' where p': "bnd new_leaf_page (\<lambda>r. bnd (obj r) (\<lambda>root.
      bnd (modify (\<lambda>s. s\<lparr>pg_root := Some (pg_id root)\<rparr>)) (\<lambda>_. bnd log_meta_update (\<lambda>_. ret (pg_id root))))) p = (Inr 0, p')"
    "pg_root p' = Some 0" "pg_order p' = m" "pg_file p' = None \<longleftrightarrow> files = None" "pg_wal p' = None \<longleftrightarrow> files = None" "holds p' [0 \<mapsto> LN [] None] 1 a b {}"
    using p(2,6,7) by (auto simp: runs_def)
  have tree: "tree_init p = Inr (mk_tree p' 0)" using p(3) p'(1) by (simp add: tree_init_def)
  have "holds (mk_tree p' 0) [0 \<mapsto> LN [] None] 1 a b {}"
    using p'(6) by (subst holds_cong [of _ p']) simp_all
  moreover have "bt_ok m (Lf 0 [] None)" by (auto simp: bt_ok_def root_min_def intro!: exI [of _ 0])
  ultimately have "stores (mk_tree p' 0) (Lf 0 [] None) 1 a b R"
    using sz p'(2,3) by (auto simp: stores_def)
  then show ?thesis using p(1) tree p'(3-5) by (intro exI conjI) simp_all
qed

end
