(* ===== verification/Tree_Ops.thy ===== *)
theory Tree_Ops
  imports Tree_Durable
begin

section \<open>Sequences of operations and the life of a database file\<close>

text \<open>
  The abstract store is the sorted association list. The functional tree is an interpretation of it;
  the code's operations on pages refine the functional tree. The theorems follow: any sequence of operations
  returns and answers like the association list (\<open>tree_ops_refine\<close>), also across flush, close and
  reopening (\<open>database_file_lifecycle\<close>).
\<close>

subsection \<open>The tree is an ordered store\<close>

type_synonym model = "nat \<times> bt \<times> nat"

fun model_ok :: "model \<Rightarrow> bool" where
  "model_ok (m, t, n) \<longleftrightarrow> 2 \<le> m \<and> bt_ok m t"

fun model_es :: "model \<Rightarrow> (int \<times> bytes) list" where
  "model_es (m, t, n) = bt_es t"

fun model_find :: "int \<Rightarrow> model \<Rightarrow> bytes option" where
  "model_find k (m, t, n) = bt_find k t"

fun model_insert :: "int \<Rightarrow> bytes \<Rightarrow> model \<Rightarrow> model" where
  "model_insert k v (m, t, n) = (m, bt_insert m k v t n)"

fun model_delete :: "int \<Rightarrow> model \<Rightarrow> model" where
  "model_delete k (m, t, n) = (m, fst (bt_delete m k t), n)"

interpretation tree_store: ordered_store model_ok model_es model_find model_insert model_delete "\<lambda>k v s. key_ok k"
proof unfold_locales
  fix s :: model and k :: int and v :: bytes
  obtain m t n where s: "s = (m, t, n)" by (cases s)
  assume "model_ok s"
  then have ok: "2 \<le> m" "bt_ok m t" using s by simp_all
  show "keys_sorted (model_es s)" using bt_ok_sorted [OF ok(2)] s by simp
  show "model_find k s = map_of (model_es s) k" using bt_find_correct [OF ok(2)] s by simp
  show "model_ok (model_delete k s) \<and> model_es (model_delete k s) = del_sorted k (model_es s)"
    using bt_delete_correct [OF ok(2,1), of k] ok(1) s by simp
  assume "key_ok k"
  then show "model_ok (model_insert k v s) \<and> model_es (model_insert k v s) = ins_sorted k v (model_es s)"
    using bt_insert_correct [OF ok(2), of k v n] ok(1) s by (cases "bt_insert m k v t n") simp
qed

subsection \<open>The height\<close>

lemma entries_above: "bt_inv h m q lo hi t \<Longrightarrow> 2 \<le> m \<Longrightarrow> 1 \<le> q \<Longrightarrow> 2 ^ h \<le> length (bt_es t)"
proof (induction h arbitrary: q lo hi t)
  case 0
  then show ?case by (cases t) auto
next
  case (Suc h)
  then obtain p ks ts where t: "t = Nd p ks ts" "length ts = Suc (length ks)" "q \<le> length ks"
      "bchain (bt_inv h m (m div 2)) lo (ks @ [hi]) ts"
    by (elim bt_inv_SucE)
  obtain c d cs where ts: "ts = c # d # cs" using t(2,3) Suc.prems(3) by (cases ts; cases "tl ts") auto
  have "2 ^ h \<le> length (bt_es u)" if u: "u \<in> set ts" for u
  proof -
    obtain l b where "bt_inv h m (m div 2) l b u" using bchain_all [OF t(4) u] by blast
    then show ?thesis by (rule Suc.IH) (use Suc.prems(2) in auto)
  qed
  then have "2 ^ h \<le> length (bt_es c)" "2 ^ h \<le> length (bt_es d)" using ts by simp_all
  then show ?case using t(1) ts by simp
qed

lemma height_bound:
  assumes "bt_ok m t" "2 \<le> m" "length (bt_es t) < 2 ^ Suc H"
  shows "bt_height t \<le> H"
proof -
  obtain h where h: "bt_inv h m (root_min h) 0 KEY_END t" using assms(1) by (auto simp: bt_ok_def)
  have "bt_height t = h" by (rule bt_height_inv [OF h])
  moreover have "h \<le> H"
  proof (cases h)
    case (Suc h')
    then have "2 ^ h \<le> length (bt_es t)" using entries_above [OF h assms(2)] by (simp add: root_min_def)
    then have "(2 :: nat) ^ h < 2 ^ Suc H" using assms(3) by linarith
    then have "h < Suc H" by (rule power_less_imp_less_exp [rotated]) simp
    then show ?thesis by simp
  qed simp
  ultimately show ?thesis by simp
qed

text \<open>An insertion allocates at most one page per level and one root.\<close>

lemma ins_pages: "bt_inv h m q lo hi t \<Longrightarrow> bt_ins m k v t n = (t', sr, n') \<Longrightarrow> n' \<le> n + Suc h"
proof (induction h arbitrary: q lo hi t t' sr n')
  case 0
  then show ?case by (elim bt_inv_0E) (auto simp: Let_def split: if_splits)
next
  case (Suc h)
  then obtain p ks ts where t: "t = Nd p ks ts" "length ts = Suc (length ks)"
      "bchain (bt_inv h m (m div 2)) lo (ks @ [hi]) ts"
    by (elim bt_inv_SucE)
  obtain c sc n1 where c: "bt_ins m k v (ts ! child_pos ks k) n = (c, sc, n1)" by (metis prod_cases3)
  have "n1 \<le> n + Suc h" by (rule Suc.IH [OF hole_any(2) [OF t(3,2)] c])
  then show ?case using Suc.prems(2) c t(1) by (auto simp: Let_def split: option.splits if_splits)
qed

lemma insert_pages:
  assumes "bt_ok m t"
  shows "snd (bt_insert m k v t n) \<le> n + (bt_height t + 2)"
proof -
  obtain h where h: "bt_inv h m (root_min h) 0 KEY_END t" using assms by (auto simp: bt_ok_def)
  obtain t' sr n' where run: "bt_ins m k v t n = (t', sr, n')" by (metis prod_cases3)
  have "n' \<le> n + Suc h" by (rule ins_pages [OF h run])
  then show ?thesis using run bt_height_inv [OF h] by (auto simp: bt_insert_def split: option.splits)
qed

subsection \<open>Sequences of operations\<close>

datatype tree_op = Insert int bytes | Delete int | Search int | Scan int int

datatype tree_out = Inserted | Deleted bool | Value "bytes option" | Rows "(int \<times> bytes) list"

fun run_op :: "tree_op \<Rightarrow> ('a bplus_tree_scheme, tree_out) act" where
  "run_op (Insert k v) = bnd (tree_insert k v) (\<lambda>_. ret Inserted)"
| "run_op (Delete k) = bnd (tree_delete k) (\<lambda>found. ret (Deleted found))"
| "run_op (Search k) = bnd (tree_search k) (\<lambda>r. ret (Value r))"
| "run_op (Scan lo hi) = bnd (range_scan lo hi) (\<lambda>rs. ret (Rows rs))"

fun run_ops :: "tree_op list \<Rightarrow> ('a bplus_tree_scheme, tree_out list) act" where
  "run_ops [] = ret []"
| "run_ops (x # xs) = bnd (run_op x) (\<lambda>y. bnd (run_ops xs) (\<lambda>ys. ret (y # ys)))"

fun spec_op :: "tree_op \<Rightarrow> (int \<times> bytes) list \<Rightarrow> tree_out \<times> (int \<times> bytes) list" where
  "spec_op (Insert k v) es = (Inserted, ins_sorted k v es)"
| "spec_op (Delete k) es = (Deleted (k \<in> fst ` set es), del_sorted k es)"
| "spec_op (Search k) es = (Value (map_of es k), es)"
| "spec_op (Scan lo hi) es = (Rows (range_sorted lo hi es), es)"

fun spec_ops :: "tree_op list \<Rightarrow> (int \<times> bytes) list \<Rightarrow> tree_out list \<times> (int \<times> bytes) list" where
  "spec_ops [] es = ([], es)"
| "spec_ops (x # xs) es =
     (case spec_op x es of (y, es') \<Rightarrow> case spec_ops xs es' of (ys, es'') \<Rightarrow> (y # ys, es''))"

text \<open>What the operations may be given: keys the pages can store, records of at most \<open>R\<close> bytes.\<close>

fun op_ok :: "nat \<Rightarrow> tree_op \<Rightarrow> bool" where
  "op_ok R (Insert k v) \<longleftrightarrow> key_ok k \<and> length v \<le> R"
| "op_ok R _ \<longleftrightarrow> True"

lemma spec_op_length: "length (snd (spec_op x es)) \<le> Suc (length es)"
  by (cases x) (use length_ins_sorted_bounds in \<open>auto simp: del_sorted_def intro: le_SucI\<close>)

lemma run_op_law:
  assumes st: "stores s t n (a + (H + 2)) (b + (3 * H + 4)) R" and ok: "op_ok R x" and h: "length (bt_es t) < 2 ^ Suc H"
  shows "runs (run_op x) s (\<lambda>y s'. \<exists>t' n'. y = fst (spec_op x (bt_es t)) \<and> bt_es t' = snd (spec_op x (bt_es t)) \<and>
    n' \<le> n + (H + 2) \<and> same_files s s' \<and> stores s' t' n' a b R)"
proof -
  have inv: "bt_ok (pg_order s) t" "2 \<le> pg_order s" using st by (simp_all add: stores_def sizes_def)
  have H: "bt_height t \<le> H" by (rule height_bound [OF inv h])
  show ?thesis
  proof (cases x)
    case (Insert k v)
    have "stores s t n (a + bt_height t + 2) (b + 2 * bt_height t + 4) R" by (rule stores_weaken [OF st]) (use H in simp_all)
    then have "runs (tree_insert k v) s (\<lambda>_ s'. same_files s s' \<and>
        stores s' (fst (bt_insert (pg_order s) k v t n)) (snd (bt_insert (pg_order s) k v t n)) a b R)"
      by (rule tree_insert_law) (use ok Insert in simp_all)
    moreover have "snd (bt_insert (pg_order s) k v t n) \<le> n + (H + 2)"
      using insert_pages [OF inv(1), of k v n] H by linarith
    ultimately show ?thesis
      unfolding Insert run_op.simps runs_bnd runs_basic
      by (elim runs_weaken) (use bt_insert_correct [OF inv(1), of k v n] inv(2) ok Insert in auto)
  next
    case (Delete k)
    have "stores s t n a (b + 3 * bt_height t + 2) R" by (rule stores_weaken [OF st]) (use H in simp_all)
    from tree_delete_law [OF this, of k] show ?thesis
      unfolding Delete run_op.simps runs_bnd runs_basic
      by (rule runs_weaken) (use bt_delete_correct [OF inv, of k] in \<open>auto intro!: exI [of _ "fst (bt_delete (pg_order s) k t)"] exI [of _ n]\<close>)
  next
    case (Search k)
    have "runs (tree_search k) s (\<lambda>x s'. x = map_of (bt_es t) k \<and> same_files s s' \<and> stores s' t n a b R)"
      by (rule tree_search_law [OF stores_weaken [OF st]]) simp_all
    then show ?thesis
      unfolding Search run_op.simps runs_bnd runs_basic
      by (rule runs_weaken) (auto intro!: exI [of _ t] exI [of _ n])
  next
    case (Scan lo hi)
    have "runs (range_scan lo hi) s (\<lambda>x s'. x = range_sorted lo hi (bt_es t) \<and> same_files s s' \<and> stores s' t n a b R)"
      by (rule range_scan_law [OF stores_weaken [OF st]]) simp_all
    then show ?thesis
      unfolding Scan run_op.simps runs_bnd runs_basic
      by (rule runs_weaken) (auto intro!: exI [of _ t] exI [of _ n])
  qed
qed


lemma run_ops_law:
  assumes "stores s t n (a + length ops * (H + 2)) (b + length ops * (3 * H + 4)) R" "list_all (op_ok R) ops"
    and "length (bt_es t) + length ops < 2 ^ Suc H"
  shows "runs (run_ops ops) s (\<lambda>ys s'. \<exists>t' n'. (ys, bt_es t') = spec_ops ops (bt_es t) \<and> n' \<le> n + length ops * (H + 2) \<and>
    same_files s s' \<and> stores s' t' n' a b R)"
  using assms
proof (induction ops arbitrary: s t n)
  case Nil
  then have "stores s t n a b R" by simp
  then show ?case unfolding run_ops.simps runs_basic by auto
next
  case (Cons x ops)
  have st: "stores s t n ((a + length ops * (H + 2)) + (H + 2)) ((b + length ops * (3 * H + 4)) + (3 * H + 4)) R"
    using Cons.prems(1) by (simp add: add.commute add.left_commute add_mult_distrib)
  have h: "length (bt_es t) < 2 ^ Suc H" using Cons.prems(3) by simp
  have ok: "op_ok R x" "list_all (op_ok R) ops" using Cons.prems(2) by simp_all
  show ?case
    unfolding run_ops.simps runs_bnd [of "run_op x"]
  proof (rule runs_weaken [OF run_op_law [OF st ok(1) h]], goal_cases)
    case (1 y s1)
    then obtain t1 n1 where s1: "y = fst (spec_op x (bt_es t))" "bt_es t1 = snd (spec_op x (bt_es t))" "same_files s s1" "n1 \<le> n + (H + 2)"
      "stores s1 t1 n1 (a + length ops * (H + 2)) (b + length ops * (3 * H + 4)) R" by blast
    have room: "length (bt_es t1) + length ops < 2 ^ Suc H"
      using Cons.prems(3) spec_op_length [of x "bt_es t"] by (simp add: s1(2))
    show ?case
      unfolding runs_bnd runs_basic
    proof (rule runs_weaken [OF Cons.IH [OF s1(5) ok(2) room]], goal_cases)
      case (1 ys s2)
      then obtain t2 n2 where s2: "(ys, bt_es t2) = spec_ops ops (bt_es t1)" "n2 \<le> n1 + length ops * (H + 2)"
        "same_files s1 s2" "stores s2 t2 n2 a b R" by blast
      have "(y # ys, bt_es t2) = spec_ops (x # ops) (bt_es t)"
        using s1(1,2) s2(1) by (cases "spec_op x (bt_es t)"; cases "spec_ops ops (bt_es t1)") auto
      moreover have "n2 \<le> n + length (x # ops) * (H + 2)" using s1(4) s2(2) by simp
      ultimately show ?case using same_files_trans [OF s1(3) s2(3)] s2(4) by blast
    qed
  qed
qed

text \<open>A database file: created, used, flushed and closed, and opened again by a second session.\<close>

definition session_files :: "'a pager_scheme \<Rightarrow> bytes option \<times> bytes option" where
  "session_files s = (pg_file s, map_option w_file (pg_wal s))"

definition run_session :: "(bytes option \<times> bytes option) \<Rightarrow> nat \<Rightarrow> int \<Rightarrow> tree_op list \<Rightarrow> (tree_out list \<times> (bytes option \<times> bytes option)) res" where
  "run_session files order capacity ops =
     bind_res (pager_init (Some files) order capacity) (\<lambda>p.
     bind_res (tree_init p) (\<lambda>s.
     case bnd (run_ops ops) (\<lambda>ys. bnd tree_flush (\<lambda>_. ret ys)) s of
       (Inl e, s') \<Rightarrow> Inl e
     | (Inr ys, s') \<Rightarrow> Inr (ys, session_files s')))"

lemma session_law:
  fixes s :: bplus_tree
  assumes st: "stores s t n (a + length ops * (H + 2)) (Suc b + length ops * (3 * H + 4)) R" and ok: "list_all (op_ok R) ops"
    and h: "length (bt_es t) + length ops < 2 ^ Suc H" and f: "pg_file s \<noteq> None" "pg_wal s \<noteq> None"
  shows "\<exists>ys s' f t' n'. bnd (run_ops ops) (\<lambda>ys. bnd tree_flush (\<lambda>_. ret ys)) s = (Inr ys, s') \<and>
    (ys, bt_es t') = spec_ops ops (bt_es t) \<and> session_files s' = (Some f, Some []) \<and>
    on_disk (pg_order s) f t' n' \<and> bt_ok (pg_order s) t' \<and> distinct (bt_pids t') \<and> recs R (bt_es t') \<and>
    (\<forall>p \<in> set (bt_pids t'). p < n') \<and> n' \<le> n + length ops * (H + 2)"
proof -
  have "runs (bnd (run_ops ops) (\<lambda>ys. bnd tree_flush (\<lambda>_. ret ys))) s (\<lambda>ys s'. \<exists>t' n'. (ys, bt_es t') = spec_ops ops (bt_es t) \<and>
      n' \<le> n + length ops * (H + 2) \<and> same_files s s' \<and> stores s' t' n' a b R \<and> (\<exists>f. pg_file s' = Some f \<and> on_disk (pg_order s) f t' n') \<and>
      (\<forall>w. pg_wal s' = Some w \<longrightarrow> w_file w = [] \<and> w_buf w = []))"
    unfolding runs_bnd [of "run_ops ops"]
  proof (rule runs_weaken [OF run_ops_law [OF st ok h]], goal_cases)
    case (1 ys s1)
    then obtain t1 n1 where s1: "(ys, bt_es t1) = spec_ops ops (bt_es t)" "same_files s s1" "stores s1 t1 n1 a (Suc b) R" "n1 \<le> n + length ops * (H + 2)" by blast
    have "pg_file s1 \<noteq> None" "pg_order s1 = pg_order s" using s1(2) f by (simp_all add: same_files_def)
    then show ?case
      unfolding runs_bnd runs_basic
      by (intro runs_weaken [OF tree_flush_law [OF s1(3)]]) (use s1(1,4) same_files_trans [OF s1(2)] in auto)
  qed
  then obtain ys s' t' n' f' where r: "bnd (run_ops ops) (\<lambda>ys. bnd tree_flush (\<lambda>_. ret ys)) s = (Inr ys, s')"
    "(ys, bt_es t') = spec_ops ops (bt_es t)" "same_files s s'" "stores s' t' n' a b R" "pg_file s' = Some f'"
    "on_disk (pg_order s) f' t' n'" "\<And>w. pg_wal s' = Some w \<Longrightarrow> w_file w = [] \<and> w_buf w = []" "n' \<le> n + length ops * (H + 2)"
    unfolding runs_def by (elim exE conjE) (rule that; blast)
  obtain V where V: "holds s' V n' a b {}" "reps V t'" using r(4) by (auto simp: stores_def)
  obtain w where w: "pg_wal s' = Some w" using r(3) f(2) by (auto simp: same_files_def)
  have "session_files s' = (Some f', Some [])" using r(5,7) w by (simp add: session_files_def)
  moreover have "bt_ok (pg_order s) t'" "distinct (bt_pids t')" "recs R (bt_es t')"
    using r(3,4) by (auto simp: stores_def same_files_def)
  moreover have "\<forall>p \<in> set (bt_pids t'). p < n'" using reps_pids_less [OF V] by blast
  ultimately show ?thesis using r(1,2,6,8) by blast
qed


lemma length_path: "bt_inv h m q lo hi t \<Longrightarrow> length (bt_path k t) = h"
proof (induction h arbitrary: q lo hi t)
  case 0
  then show ?case by (elim bt_inv_0E) simp
next
  case (Suc h)
  then obtain p ks ts where t: "t = Nd p ks ts" "length ts = Suc (length ks)"
      "bchain (bt_inv h m (m div 2)) lo (ks @ [hi]) ts"
    by (elim bt_inv_SucE)
  note hole = hole_any [OF t(3,2), of k]
  from Suc.IH [OF hole(2)] show ?case using hole(1) t(1) by (simp add: Let_def)
qed

subsection \<open>Properties\<close>

text \<open>C1: every sequence of inserts, deletes, searches and range scans on a stored tree returns (no exception and no
  endless descent), answers each operation as the sorted association list does, and leaves a stored tree with the resulting
  entries; \<open>H\<close> bounds the height, and the hypotheses ask for pages, log sequence numbers and a pool large enough for the
  sequence.\<close>

theorem tree_ops_refine:
  fixes s :: "'a bplus_tree_scheme"
  assumes "stores s t n (length ops * (H + 2)) (length ops * (3 * H + 4)) R"
    and "list_all (op_ok R) ops" "length (bt_es t) + length ops < 2 ^ Suc H"
  shows "\<exists>ys s' t' n'. run_ops ops s = (Inr ys, s') \<and> (ys, bt_es t') = spec_ops ops (bt_es t) \<and> stores s' t' n' 0 0 R"
  using run_ops_law [of s t n 0 ops H 0 R] assms unfolding runs_def by auto

theorem tree_ops_refine_witness:
  "\<exists>p s s'. pager_init None 4 1000 = Inr p \<and> tree_init p = Inr s \<and>
    run_ops [Insert 5 [1], Insert 3 [2], Scan 0 9, Delete 5, Search 5, Delete 7] s =
      (Inr [Inserted, Inserted, Rows [(3, [2]), (5, [1])], Deleted True, Value None, Deleted False], s')"
proof -
  have sz: "sizes 4 100" by (simp add: sizes_def room_consts)
  obtain p s where s: "pager_init None 4 1000 = Inr p" "tree_init p = Inr s" "stores s (Lf 0 [] None) 1 24 60 100"
    using create_law [OF sz, of 24 1000 60 None] by (auto simp: NO_NEXT_def)
  obtain ys s' where "run_ops [Insert 5 [1], Insert 3 [2], Scan 0 9, Delete 5, Search 5, Delete 7] s = (Inr ys, s')"
    "ys = fst (spec_ops [Insert 5 [1], Insert 3 [2], Scan 0 9, Delete 5, Search 5, Delete 7] [])"
    using tree_ops_refine [of s "Lf 0 [] None" 1 "[Insert 5 [1], Insert 3 [2], Scan 0 9, Delete 5, Search 5, Delete 7]" 2 100] s(3)
    by (auto simp: key_ok_def prod_eq_iff)
  then have "run_ops [Insert 5 [1], Insert 3 [2], Scan 0 9, Delete 5, Search 5, Delete 7] s =
      (Inr [Inserted, Inserted, Rows [(3, [2]), (5, [1])], Deleted True, Value None, Deleted False], s')"
    by (auto simp add: del_sorted_def range_sorted_def simp del: run_ops.simps)
  then show ?thesis using s(1,2) by blast
qed

text \<open>C2: a database file lives on. A new file, operations, flush; then a second process opens the data file and the
  log as the first one left them, with any \<^verbatim>\<open>order\<close> argument: its operations return and see
  exactly what the operations of the first session left.\<close>

theorem database_file_lifecycle:
  assumes sz: "sizes m R" and ops: "list_all (op_ok R) (ops1 @ ops2)" "length ops1 + length ops2 < 2 ^ Suc H"
    and cap: "1 + (length ops1 + length ops2) * (H + 2) \<le> min capacity NO_NEXT"
      "Suc (Suc ((length ops1 + length ops2) * (3 * H + 4))) < 2 ^ 64"
  shows "\<exists>ys1 ys2 f. run_session (None, None) m (int capacity) ops1 = Inr (ys1, (Some f, Some [])) \<and>
    (\<exists>fs. run_session (Some f, Some []) order (int capacity) ops2 = Inr (ys2, fs)) \<and>
    ys1 = fst (spec_ops ops1 []) \<and> ys2 = fst (spec_ops ops2 (snd (spec_ops ops1 [])))"
proof -
  let ?L1 = "length ops1" and ?L2 = "length ops2"
  let ?a = "?L2 * (H + 2)" and ?b = "?L2 * (3 * H + 4)"
  have ok: "list_all (op_ok R) ops1" "list_all (op_ok R) ops2" using ops(1) by simp_all
  have c1: "Suc (?a + ?L1 * (H + 2)) \<le> capacity" "Suc (?a + ?L1 * (H + 2)) \<le> NO_NEXT" "1 \<le> capacity"
    "Suc (Suc (?b + ?L1 * (3 * H + 4))) < 2 ^ 64" "Suc ?b < 2 ^ 64" "Suc ?b \<le> 2 ^ 64"
    using cap by (simp_all add: add_mult_distrib add.commute add.left_commute)
  obtain p s where s: "pager_init (Some (None, None)) m (int capacity) = Inr p" "tree_init p = Inr s" "pg_order s = m"
      "pg_file s \<noteq> None" "pg_wal s \<noteq> None" "stores s (Lf 0 [] None) 1 (?a + ?L1 * (H + 2)) (Suc ?b + ?L1 * (3 * H + 4)) R"
    using create_law [OF sz, of "?a + ?L1 * (H + 2)" capacity "Suc ?b + ?L1 * (3 * H + 4)" "Some (None, None)"] c1 by auto
  have h1: "length (bt_es (Lf 0 [] None)) + ?L1 < 2 ^ Suc H" using ops(2) by simp
  obtain ys1 s1 f t1 n1 where r1: "bnd (run_ops ops1) (\<lambda>ys. bnd tree_flush (\<lambda>_. ret ys)) s = (Inr ys1, s1)"
    "(ys1, bt_es t1) = spec_ops ops1 []" "session_files s1 = (Some f, Some [])"
    "on_disk m f t1 n1" "bt_ok m t1" "distinct (bt_pids t1)" "recs R (bt_es t1)" "\<forall>p \<in> set (bt_pids t1). p < n1"
    "n1 \<le> 1 + ?L1 * (H + 2)"
    using session_law [OF s(6) ok(1) h1 s(4,5)] unfolding s(3) by auto
  have run1: "run_session (None, None) m (int capacity) ops1 = Inr (ys1, (Some f, Some []))"
    using s(1,2) r1(1,3) by (simp add: run_session_def)
  have len: "length (snd (spec_ops xs es)) \<le> length es + length xs" for xs es
  proof (induction xs arbitrary: es)
    case (Cons x xs)
    have "length (snd (spec_ops xs (snd (spec_op x es)))) \<le> Suc (length es) + length xs"
      by (rule order_trans [OF Cons.IH]) (use spec_op_length [of x es] in simp)
    then show ?case by (simp add: split_def)
  qed simp
  have "n1 + ?a \<le> min capacity NO_NEXT" using r1(9) cap(1) by (simp add: add_mult_distrib)
  from reopen_law [OF r1(4-6) sz r1(7,8) this c1(3), of "Suc ?b" order] c1(5)
  obtain p2 s2 where s2: "pager_init (Some (Some f, Some [])) order (int capacity) = Inr p2" "tree_init p2 = Inr s2"
      "pg_order s2 = m" "pg_file s2 \<noteq> None" "pg_wal s2 \<noteq> None" "stores s2 t1 n1 ?a (Suc ?b) R"
    by auto
  have h2: "length (bt_es t1) + ?L2 < 2 ^ Suc H" using len [of ops1 "[]"] r1(2) ops(2) by (cases "spec_ops ops1 []") simp
  have s2': "stores s2 t1 n1 (0 + ?L2 * (H + 2)) (Suc 0 + ?L2 * (3 * H + 4)) R" using s2(6) by simp
  obtain ys2 s3 f2 t2 where r2: "bnd (run_ops ops2) (\<lambda>ys. bnd tree_flush (\<lambda>_. ret ys)) s2 = (Inr ys2, s3)"
    "(ys2, bt_es t2) = spec_ops ops2 (bt_es t1)" "session_files s3 = (Some f2, Some [])"
    using session_law [OF s2' ok(2) h2 s2(4,5)] by blast
  have run2: "run_session (Some f, Some []) order (int capacity) ops2 = Inr (ys2, (Some f2, Some []))"
    using s2(1,2) r2(1,3) by (simp add: run_session_def)
  have "ys1 = fst (spec_ops ops1 [])" "ys2 = fst (spec_ops ops2 (snd (spec_ops ops1 [])))"
    using r1(2) r2(2) by (metis fst_conv snd_conv)+
  then show ?thesis using run1 run2 by blast
qed


theorem database_file_lifecycle_witness:
  "\<exists>f fs. run_session (None, None) 4 1000 [Insert 7 [9], Insert 2 [8]] = Inr ([Inserted, Inserted], (Some f, Some [])) \<and>
    run_session (Some f, Some []) 99 1000 [Search 7, Scan 0 5] = Inr ([Value (Some [9]), Rows [(2, [8])]], fs)"
proof -
  have sz: "sizes 4 100" by (simp add: sizes_def room_consts)
  obtain ys1 ys2 f fs where r: "run_session (None, None) 4 1000 [Insert 7 [9], Insert 2 [8]] = Inr (ys1, (Some f, Some []))"
    "run_session (Some f, Some []) 99 1000 [Search 7, Scan 0 5] = Inr (ys2, fs)"
    "ys1 = fst (spec_ops [Insert 7 [9], Insert 2 [8]] [])"
    "ys2 = fst (spec_ops [Search 7, Scan 0 5] (snd (spec_ops [Insert 7 [9], Insert 2 [8]] [])))"
    using database_file_lifecycle [OF sz, of "[Insert 7 [9], Insert 2 [8]]" "[Search 7, Scan 0 5]" 2 1000 99]
    by (auto simp: key_ok_def NO_NEXT_def)
  then have "ys1 = [Inserted, Inserted]" "ys2 = [Value (Some [9]), Rows [(2, [8])]]"
    by (simp_all add: range_sorted_def)
  then show ?thesis using r(1,2) by blast
qed


text \<open>C4: the loops that follow page pointers end. On a stored tree the descent of \<^verbatim>\<open>_find_leaf\<close>, the leaf chain walked
  by \<^verbatim>\<open>range_scan\<close> and the path of \<^verbatim>\<open>_find_path\<close> are finished before the fuel, one more than the number of pages, is
  used up: none of them raises or ends in \<open>NoReturn\<close>, and a path has one page per level.\<close>

theorem descents_terminate:
  assumes st: "stores s t n a b R"
  shows "(\<exists>r s'. find_leaf key s = (Inr r, s')) \<and> (\<exists>rows s'. range_scan lo hi s = (Inr rows, s')) \<and>
    (\<exists>path s'. find_path key s = (Inr path, s') \<and> length path = Suc (bt_height t))"
proof -
  obtain V h where s: "bt_root_id s = bt_id t" "holds s V n a b {}" "reps V t"
    "bt_inv h (pg_order s) (root_min h) 0 KEY_END t" "h < n"
    using st by (elim storesE)
  have n: "pg_next_id s = n" "h < Suc n" using s(2,5) by (simp_all add: holds_def)
  have v: "V (bt_id t) = Some (bt_node t)" using s(3) reps_node [of V t] by blast
  have leaf: "runs (find_leaf key) s (\<lambda>_ _. True)"
    unfolding find_leaf_def tree_fuel_def runs_bnd runs_basic s(1) n
    by (rule get_page_law [OF s(2) v]) (rule find_leaf_law [OF s(4) n(2) s(3)], assumption+, simp)
  have path: "runs (find_path key) s (\<lambda>path _. length path = Suc (bt_height t))"
    unfolding find_path_def tree_fuel_def runs_bnd runs_basic s(1) n
    by (rule get_page_law [OF s(2) v])
      (rule find_path_loop_law [OF s(4) n(2) s(3)], assumption+, use length_path [OF s(4)] bt_height_inv [OF s(4)] in simp)
  show ?thesis
    using runs_result [OF leaf] runs_result [OF path] runs_result [OF range_scan_law [OF st, of lo hi]] by blast
qed

theorem descents_terminate_witness:
  "\<exists>p s. pager_init None 4 1000 = Inr p \<and> tree_init p = Inr s \<and> (\<exists>r s'. find_leaf 7 s = (Inr r, s'))"
proof -
  have sz: "sizes 4 100" by (simp add: sizes_def room_consts)
  obtain p s where s: "pager_init None 4 1000 = Inr p" "tree_init p = Inr s" "stores s (Lf 0 [] None) 1 24 60 100"
    using create_law [OF sz, of 24 1000 60 None] by (auto simp: NO_NEXT_def)
  then show ?thesis using descents_terminate [OF s(3), of 7 0 0] by blast
qed

text \<open>the access paths agree. A range scan returns the part of the full scan between its two bounds, in key order,
  and a search returns what the full scan shows under the key.\<close>

theorem scan_search_agree:
  assumes st: "stores s t n a b R"
  shows "\<exists>rows all s1 s2 s3. range_scan lo hi s = (Inr rows, s1) \<and> range_scan 0 (2 ^ 32 - 1) s = (Inr all, s2) \<and>
    tree_search k s = (Inr (map_of all k), s3) \<and>
    rows = filter (\<lambda>(k, v). lo \<le> k \<and> k \<le> hi) all \<and> sorted_wrt (<) (map fst all)"
proof -
  have ok: "bt_ok (pg_order s) t" using st by (simp add: stores_def)
  have bounds: "0 \<le> k \<and> k \<le> 2 ^ 32 - 1" if "k \<in> fst ` set (bt_es t)" for k
    using bt_ok_keys [OF ok that] by (simp add: key_ok_def)
  have all: "range_sorted 0 (2 ^ 32 - 1) (bt_es t) = bt_es t"
    unfolding range_sorted_def by (rule filter_True) (use bounds in force)
  have sorted: "sorted_wrt (<) (map fst (bt_es t))" using stores_sorted [OF st] by (simp add: keys_sorted_def)
  obtain s1 where s1: "range_scan lo hi s = (Inr (range_sorted lo hi (bt_es t)), s1)"
    using runs_result [OF range_scan_law [OF st, of lo hi]] by blast
  obtain s2 where s2: "range_scan 0 (2 ^ 32 - 1) s = (Inr (bt_es t), s2)"
    using runs_result [OF range_scan_law [OF st, of 0 "2 ^ 32 - 1"]] unfolding all by blast
  obtain s3 where s3: "tree_search k s = (Inr (map_of (bt_es t) k), s3)"
    using runs_result [OF tree_search_law [OF st, of k]] by blast
  have "range_sorted lo hi (bt_es t) = filter (\<lambda>(k, v). lo \<le> k \<and> k \<le> hi) (bt_es t)"
    by (simp add: range_sorted_def split_def)
  with s1 s2 s3 sorted show ?thesis by blast
qed


theorem scan_search_agree_witness:
  "\<exists>p s rows all s1 s2 s3. pager_init None 4 1000 = Inr p \<and> tree_init p = Inr s \<and> range_scan 2 5 s = (Inr rows, s1) \<and>
    range_scan 0 (2 ^ 32 - 1) s = (Inr all, s2) \<and> tree_search 3 s = (Inr (map_of all 3), s3)"
proof -
  have sz: "sizes 4 100" by (simp add: sizes_def room_consts)
  obtain p s where s: "pager_init None 4 1000 = Inr p" "tree_init p = Inr s" "stores s (Lf 0 [] None) 1 24 60 100"
    using create_law [OF sz, of 24 1000 60 None] by (auto simp: NO_NEXT_def)
  then show ?thesis using scan_search_agree [OF s(3), of 2 5 3] by blast
qed

text \<open>What an insertion and a deletion change, by the laws of the ordered store.\<close>

lemma update_then_search:
  assumes st: "stores s t n (a + bt_height t + 2) (b + 3 * bt_height t + 4) R" and kv: "key_ok k" "length v \<le> R"
  shows "runs (bnd (tree_insert k v) (\<lambda>_. tree_search j)) s (\<lambda>x _. x = (if j = k then Some v else bt_find j t)) \<and>
    runs (bnd (tree_delete k) (\<lambda>_. tree_search j)) s (\<lambda>x _. x = (if j = k then None else bt_find j t))"
proof -
  let ?m = "pg_order s"
  have inv: "model_ok (?m, t, n)" using st by (simp add: stores_def sizes_def)
  have ins: "stores s t n (a + bt_height t + 2) (b + 2 * bt_height t + 4) R" by (rule stores_weaken [OF st]) simp_all
  have del: "stores s t n (a + bt_height t + 2) (b + 2 + 3 * bt_height t + 2) R" by (rule stores_weaken [OF st]) simp_all
  have find: "map_of (model_es x) j = model_find j x" if "model_ok x" for x using tree_store.lookup [OF that] by simp
  have i: "map_of (bt_es (fst (bt_insert ?m k v t n))) j = (if j = k then Some v else bt_find j t)"
    using tree_store.update [OF inv kv(1), of v] find [of "model_insert k v (?m, t, n)"]
      tree_store.lookup_update_same [OF inv kv(1), of v] tree_store.lookup_update_other [OF inv kv(1), of j v]
    by (cases "bt_insert ?m k v t n") auto
  have d: "map_of (bt_es (fst (bt_delete ?m k t))) j = (if j = k then None else bt_find j t)"
    using tree_store.remove [OF inv, of k] find [of "model_delete k (?m, t, n)"] tree_store.lookup_remove [OF inv, of j k] by auto
  have "runs (bnd (tree_insert k v) (\<lambda>_. tree_search j)) s (\<lambda>x _. x = (if j = k then Some v else bt_find j t))"
    unfolding runs_bnd
  proof (rule runs_weaken [OF tree_insert_law [OF ins kv]], goal_cases)
    case (1 u s')
    then show ?case by (intro runs_weaken [OF tree_search_law [of s']]) (use i in auto)
  qed
  moreover have "runs (bnd (tree_delete k) (\<lambda>_. tree_search j)) s (\<lambda>x _. x = (if j = k then None else bt_find j t))"
    unfolding runs_bnd
  proof (rule runs_weaken [OF tree_delete_law [OF del, of k]], goal_cases)
    case (1 u s')
    then show ?case by (intro runs_weaken [OF tree_search_law [of s']]) (use d in auto)
  qed
  ultimately show ?thesis by blast
qed

text \<open>C3: the shape a reachable tree keeps. Every operation preserves: all leaves at one depth, between half and all of
  the order keys in every page but the root, separators between the keys of the children, the leaf chain in key order ending without a
  successor, and a height of at most the binary logarithm of the number of entries.\<close>

theorem tree_shape_invariant:
  fixes s :: "'a bplus_tree_scheme"
  assumes "stores s t n (H + 2) (3 * H + 4) R" "op_ok R x" "length (bt_es t) < 2 ^ Suc H"
  shows "\<exists>y s' t' n' h. run_op x s = (Inr y, s') \<and> stores s' t' n' 0 0 R \<and>
    bt_inv h (pg_order s) (root_min h) 0 KEY_END t' \<and> links (bt_leaves t') None \<and> distinct (bt_pids t') \<and>
    keys_sorted (bt_es t') \<and> (h = 0 \<or> 2 ^ h \<le> length (bt_es t'))"
proof -
  have "runs (run_op x) s (\<lambda>y s'. \<exists>t' n'. y = fst (spec_op x (bt_es t)) \<and> bt_es t' = snd (spec_op x (bt_es t)) \<and>
      n' \<le> n + (H + 2) \<and> same_files s s' \<and> stores s' t' n' 0 0 R)"
    by (rule run_op_law) (use assms in simp_all)
  then obtain y s' t' n' where r: "run_op x s = (Inr y, s')" "same_files s s'" "stores s' t' n' 0 0 R"
    unfolding runs_def by blast
  obtain h where h: "bt_inv h (pg_order s') (root_min h) 0 KEY_END t'" "links (bt_leaves t') None" "distinct (bt_pids t')"
    "2 \<le> pg_order s'" using r(3) by (auto simp: stores_def bt_ok_def sizes_def)
  have "h = 0 \<or> 2 ^ h \<le> length (bt_es t')" using entries_above [OF h(1,4)] by (cases h) (auto simp: root_min_def)
  moreover have "pg_order s' = pg_order s" using r(2) by (simp add: same_files_def)
  ultimately show ?thesis using r h stores_sorted [OF r(3)] by auto
qed

theorem tree_shape_invariant_witness:
  "\<exists>p s y s'. pager_init None 4 1000 = Inr p \<and> tree_init p = Inr s \<and> run_op (Insert 5 [1]) s = (Inr y, s')"
proof -
  have sz: "sizes 4 100" by (simp add: sizes_def room_consts)
  obtain p s where s: "pager_init None 4 1000 = Inr p" "tree_init p = Inr s" "stores s (Lf 0 [] None) 1 4 10 100"
    using create_law [OF sz, of 4 1000 10 None] by (auto simp: NO_NEXT_def)
  have st: "stores s (Lf 0 [] None) 1 (2 + 2) (3 * 2 + 4) 100" using s(3) by simp
  show ?thesis using tree_shape_invariant [OF st, of "Insert 5 [1]"] s(1,2) by (auto simp: key_ok_def simp del: run_op.simps)
qed

end
