(* ===== verification/Lock_Manager.thy ===== *)
theory Lock_Manager
  imports Prelude "HOL-Library.AList"
begin

section \<open>The lock manager (\<^verbatim>\<open>src/lock_manager.py\<close>)\<close>

text \<open>
  Dictionaries are association lists in insertion order; the key sets of \<^verbatim>\<open>_txn_keys\<close> and the
  sets of \<^verbatim>\<open>_wait_for\<close> are lists (the results do not depend on their order). Events are numbered
  in the order of their creation. The sections under the mutex are the functions \<open>acquire_try\<close> (up to the wait),
  \<open>acquire_timeout\<close> (the clean-up after an unsuccessful wait) and \<open>release_all\<close>, whose result are
  the events it signals after leaving the mutex. A blocked call keeps a reference to its lock entry; the model
  looks the entry up under the key instead, which is the same: an entry with a waiter stays in the table, and
  removing a request that is no longer queued does nothing in either.

  The second half is the protocol: \<open>lock_step\<close> interleaves the calls of the transactions, each in a thread
  of its own, and \<open>lock_reach\<close> are the reachable states.
\<close>

datatype lock_mode = ModeS | ModeX

record lock_entry =
  le_holders :: "(nat \<times> lock_mode) list"
  le_waiters :: "(lock_mode \<times> nat \<times> nat) list"

definition empty_entry :: lock_entry where
  "empty_entry = \<lparr>le_holders = [], le_waiters = []\<rparr>"

record lock_manager =
  lm_table :: "(int \<times> lock_entry) list"
  lm_txn_keys :: "(nat \<times> int list) list"
  lm_wait_for :: "(nat \<times> nat list) list"
  lm_events :: nat

definition lm_init :: lock_manager where
  "lm_init = \<lparr>lm_table = [], lm_txn_keys = [], lm_wait_for = [], lm_events = 0\<rparr>"

subsection \<open>Operations\<close>

definition can_grant :: "(nat \<times> lock_mode) list \<Rightarrow> nat \<Rightarrow> lock_mode \<Rightarrow> bool" where
  "can_grant holders txn_id mode =
     (let others = filter (\<lambda>(t, m). t \<noteq> txn_id) holders in
      if others = [] then True
      else if mode = ModeX then False
      else list_all (\<lambda>(t, m). m = ModeS) others)"

definition out_edges :: "(nat \<times> nat list) list \<Rightarrow> nat \<Rightarrow> nat list" where
  "out_edges wg t = (case map_of wg t of None \<Rightarrow> [] | Some ts \<Rightarrow> ts)"

lemma out_edges_absent: "t \<notin> fst ` set wg \<Longrightarrow> out_edges wg t = []"
  by (simp add: out_edges_def map_of_eq_None_iff [THEN iffD2])

text \<open>\<^verbatim>\<open>_has_cycle\<close>: the head of the list is the top of the stack.\<close>

function cycle_loop :: "(nat \<times> nat list) list \<Rightarrow> nat \<Rightarrow> nat list \<Rightarrow> nat list \<Rightarrow> bool" where
  "cycle_loop wg start visited [] = False"
| "cycle_loop wg start visited (node # stack) =
     (if node = start then True
      else if node \<in> set visited then cycle_loop wg start visited stack
      else cycle_loop wg start (node # visited) (out_edges wg node @ stack))"
  by pat_completeness auto

termination
proof (relation "measures [\<lambda>(wg, start, visited, stack). card (fst ` set wg - set visited), \<lambda>(wg, start, visited, stack). length stack]", goal_cases)
  case (3 wg start visited node stack)
  show ?case
  proof (cases "node \<in> fst ` set wg")
    case True
    have "card (fst ` set wg - set (node # visited)) < card (fst ` set wg - set visited)"
      by (rule psubset_card_mono) (use True 3 in auto)
    then show ?thesis by simp
  next
    case False
    then have "fst ` set wg - set (node # visited) = fst ` set wg - set visited" by auto
    then show ?thesis using out_edges_absent [OF False] by simp
  qed
qed simp_all

definition has_cycle :: "(nat \<times> nat list) list \<Rightarrow> nat \<Rightarrow> bool" where
  "has_cycle wg start = cycle_loop wg start [] (out_edges wg start)"

definition entry_at :: "lock_manager \<Rightarrow> int \<Rightarrow> lock_entry" where
  "entry_at g key = (case map_of (lm_table g) key of None \<Rightarrow> empty_entry | Some e \<Rightarrow> e)"

definition keys_of :: "lock_manager \<Rightarrow> nat \<Rightarrow> int list" where
  "keys_of g txn_id = (case map_of (lm_txn_keys g) txn_id of None \<Rightarrow> [] | Some ks \<Rightarrow> ks)"

definition put_entry :: "int \<Rightarrow> lock_entry \<Rightarrow> lock_manager \<Rightarrow> lock_manager" where
  "put_entry key e g = g\<lparr>lm_table := AList.update key e (lm_table g)\<rparr>"

datatype acquired = Granted | Blocked nat

definition acquire_try :: "nat \<Rightarrow> int \<Rightarrow> lock_mode \<Rightarrow> (lock_manager, acquired) act" where
  "acquire_try txn_id key mode g =
     (let entry = entry_at g key;
          g = put_entry key entry g;
          g = g\<lparr>lm_txn_keys := AList.update txn_id (List.insert key (keys_of g txn_id)) (lm_txn_keys g)\<rparr>;
          held = map_of (le_holders entry) txn_id
      in
      if held = Some ModeX \<or> held = Some ModeS \<and> mode = ModeS then (Inr Granted, g)
      else if can_grant (le_holders entry) txn_id mode then
        (Inr Granted, put_entry key (entry\<lparr>le_holders := AList.update txn_id mode (le_holders entry)\<rparr>) g)
      else
        let event = lm_events g;
            waiting = entry\<lparr>le_waiters := le_waiters entry @ [(mode, txn_id, event)]\<rparr>;
            g = (put_entry key waiting g)\<lparr>lm_events := event + 1\<rparr>;
            g = g\<lparr>lm_wait_for := AList.update txn_id (filter (\<lambda>t. t \<noteq> txn_id) (map fst (le_holders entry))) (lm_wait_for g)\<rparr>
        in
        if has_cycle (lm_wait_for g) txn_id then
          (Inl DeadlockError,
           (put_entry key (waiting\<lparr>le_waiters := remove1 (mode, txn_id, event) (le_waiters waiting)\<rparr>) g)
             \<lparr>lm_wait_for := AList.delete txn_id (lm_wait_for g)\<rparr>)
        else (Inr (Blocked event), g))"

definition acquire_timeout :: "nat \<Rightarrow> int \<Rightarrow> lock_mode \<Rightarrow> nat \<Rightarrow> (lock_manager, unit) act" where
  "acquire_timeout txn_id key mode event g =
     (let g = (case map_of (lm_table g) key of None \<Rightarrow> g
               | Some e \<Rightarrow> put_entry key (e\<lparr>le_waiters := remove1 (mode, txn_id, event) (le_waiters e)\<rparr>) g)
      in (Inl TimeoutError, g\<lparr>lm_wait_for := AList.delete txn_id (lm_wait_for g)\<rparr>))"

text \<open>\<^verbatim>\<open>_advance_waiters\<close>: the holders, the wait-for graph, the waiters that remain and the events to signal.\<close>

fun advance_loop :: "bool \<Rightarrow> (lock_mode \<times> nat \<times> nat) list \<Rightarrow> (nat \<times> lock_mode) list \<Rightarrow> (nat \<times> nat list) list \<Rightarrow>
    (lock_mode \<times> nat \<times> nat) list \<Rightarrow> nat list \<Rightarrow>
    (nat \<times> lock_mode) list \<times> (nat \<times> nat list) list \<times> (lock_mode \<times> nat \<times> nat) list \<times> nat list" where
  "advance_loop stopped [] hs wg new_waiters to_signal = (hs, wg, new_waiters, to_signal)"
| "advance_loop stopped ((mode, txn_id, event) # ws) hs wg new_waiters to_signal =
     (if \<not> stopped \<and> can_grant hs txn_id mode then
        advance_loop stopped ws (AList.update txn_id mode hs) (AList.delete txn_id wg) new_waiters (to_signal @ [event])
      else advance_loop True ws hs wg (new_waiters @ [(mode, txn_id, event)]) to_signal)"

definition advance_waiters :: "lock_entry \<Rightarrow> (nat \<times> nat list) list \<Rightarrow> lock_entry \<times> (nat \<times> nat list) list \<times> nat list" where
  "advance_waiters e wg =
     (case advance_loop False (le_waiters e) (le_holders e) wg [] [] of
        (hs, wg', ws, to_signal) \<Rightarrow> (e\<lparr>le_holders := hs, le_waiters := ws\<rparr>, wg', to_signal))"

definition release_key :: "nat \<Rightarrow> int \<Rightarrow> lock_manager \<Rightarrow> lock_manager \<times> nat list" where
  "release_key txn_id key g =
     (case map_of (lm_table g) key of
        None \<Rightarrow> (g, [])
      | Some entry \<Rightarrow>
          (case advance_waiters (entry\<lparr>le_holders := AList.delete txn_id (le_holders entry)\<rparr>) (lm_wait_for g) of
             (entry', wg, to_signal) \<Rightarrow>
               let g' = (put_entry key entry' g)\<lparr>lm_wait_for := wg\<rparr> in
               (if le_holders entry' = [] \<and> le_waiters entry' = []
                then g'\<lparr>lm_table := AList.delete key (lm_table g')\<rparr> else g', to_signal)))"

fun release_keys :: "nat \<Rightarrow> int list \<Rightarrow> lock_manager \<Rightarrow> lock_manager \<times> nat list" where
  "release_keys txn_id [] g = (g, [])"
| "release_keys txn_id (k # ks) g =
     (case release_key txn_id k g of (g1, evs1) \<Rightarrow>
      case release_keys txn_id ks g1 of (g2, evs2) \<Rightarrow> (g2, evs1 @ evs2))"

definition release_all :: "nat \<Rightarrow> (lock_manager, nat list) act" where
  "release_all txn_id g =
     (case release_keys txn_id (keys_of g txn_id) (g\<lparr>lm_txn_keys := AList.delete txn_id (lm_txn_keys g)\<rparr>) of
        (g', to_signal) \<Rightarrow> (Inr to_signal, g'\<lparr>lm_wait_for := AList.delete txn_id (lm_wait_for g')\<rparr>))"

subsection \<open>The protocol\<close>

text \<open>
  Which calls are blocked, which events are set and which a releaser has still to set. A wait
  ends with the event set (\<open>Wake\<close>) or, in the 30 seconds case, without (\<open>GiveUp\<close>).
\<close>

record lock_system =
  ls_mgr :: lock_manager
  ls_blocked :: "(nat \<times> int \<times> lock_mode \<times> nat) list"
  ls_set :: "nat list"
  ls_pending :: "nat list"

datatype lock_act = Acquire nat int lock_mode | Release nat | SetEvents | Wake nat | GiveUp nat

definition ls_init :: lock_system where
  "ls_init = \<lparr>ls_mgr = lm_init, ls_blocked = [], ls_set = [], ls_pending = []\<rparr>"

fun lock_step :: "lock_act \<Rightarrow> lock_system \<Rightarrow> lock_system option" where
  "lock_step (Acquire t k m) s =
     (if map_of (ls_blocked s) t \<noteq> None then None
      else case acquire_try t k m (ls_mgr s) of
        (Inr (Blocked ev), g) \<Rightarrow> Some (s\<lparr>ls_mgr := g, ls_blocked := AList.update t (k, m, ev) (ls_blocked s)\<rparr>)
      | (_, g) \<Rightarrow> Some (s\<lparr>ls_mgr := g\<rparr>))"
| "lock_step (Release t) s =
     (if map_of (ls_blocked s) t \<noteq> None then None
      else case release_all t (ls_mgr s) of
        (Inr evs, g) \<Rightarrow> Some (s\<lparr>ls_mgr := g, ls_pending := ls_pending s @ evs\<rparr>)
      | (Inl _, g) \<Rightarrow> Some (s\<lparr>ls_mgr := g\<rparr>))"
| "lock_step SetEvents s = Some (s\<lparr>ls_set := ls_pending s @ ls_set s, ls_pending := []\<rparr>)"
| "lock_step (Wake t) s =
     (case map_of (ls_blocked s) t of
        Some (k, m, ev) \<Rightarrow> if ev \<in> set (ls_set s) then Some (s\<lparr>ls_blocked := AList.delete t (ls_blocked s)\<rparr>) else None
      | None \<Rightarrow> None)"
| "lock_step (GiveUp t) s =
     (case map_of (ls_blocked s) t of
        Some (k, m, ev) \<Rightarrow>
          if ev \<in> set (ls_set s) then None
          else Some (s\<lparr>ls_mgr := snd (acquire_timeout t k m ev (ls_mgr s)), ls_blocked := AList.delete t (ls_blocked s)\<rparr>)
      | None \<Rightarrow> None)"

text \<open>\<open>lock_reach gu s\<close>: \<open>s\<close> is reachable, with time-outs only if \<open>gu\<close>.\<close>

fun gives_up :: "lock_act \<Rightarrow> bool" where
  "gives_up (GiveUp t) = True"
| "gives_up _ = False"

inductive lock_reach :: "bool \<Rightarrow> lock_system \<Rightarrow> bool" where
  init: "lock_reach gu ls_init"
| step: "lock_reach gu s \<Longrightarrow> lock_step a s = Some s' \<Longrightarrow> gives_up a \<longrightarrow> gu \<Longrightarrow> lock_reach gu s'"

inductive_cases lock_reachE: "lock_reach gu s"

fun run_acts :: "lock_act list \<Rightarrow> lock_system \<Rightarrow> lock_system option" where
  "run_acts [] s = Some s"
| "run_acts (a # as) s = (case lock_step a s of None \<Rightarrow> None | Some s' \<Rightarrow> run_acts as s')"

lemma run_acts_reach:
  "run_acts as s = Some s' \<Longrightarrow> lock_reach gu s \<Longrightarrow> list_all (\<lambda>a. gives_up a \<longrightarrow> gu) as \<Longrightarrow> lock_reach gu s'"
proof (induction as arbitrary: s)
  case (Cons a as)
  then obtain s1 where s1: "lock_step a s = Some s1" "run_acts as s1 = Some s'" by (auto split: option.splits)
  have "lock_reach gu s1" by (rule lock_reach.step [OF Cons.prems(2) s1(1)]) (use Cons.prems(3) in simp)
  then show ?case using Cons.IH [OF s1(2)] Cons.prems(3) by simp
qed simp

subsection \<open>The cycle check\<close>

definition edges :: "(nat \<times> nat list) list \<Rightarrow> (nat \<times> nat) set" where
  "edges wg = {(t, u). u \<in> set (out_edges wg t)}"

text \<open>
  The search is complete: if \<open>start\<close> can be reached from the stack, then from an unvisited node of it
  without passing through visited ones.
\<close>

lemma cycle_loop_sound: "cycle_loop wg start visited stack \<Longrightarrow> \<exists>u \<in> set stack. (u, start) \<in> (edges wg)\<^sup>*"
proof (induction wg start visited stack rule: cycle_loop.induct)
  case (2 wg start visited node stack)
  show ?case
  proof (cases "node = start \<or> node \<in> set visited")
    case True
    then show ?thesis using 2 by (auto split: if_splits)
  next
    case False
    then obtain u where u: "u \<in> set (out_edges wg node @ stack)" "(u, start) \<in> (edges wg)\<^sup>*" using 2 by auto
    then show ?thesis by (auto simp: edges_def intro: converse_rtrancl_into_rtrancl)
  qed
qed simp

lemma cycle_loop_complete:
  assumes "\<not> cycle_loop wg start visited stack" "start \<notin> set visited"
    and "\<And>x y. x \<in> set visited \<Longrightarrow> (x, y) \<in> edges wg \<Longrightarrow> y \<in> set visited \<union> set stack"
  shows "\<exists>seen. set visited \<union> set stack \<subseteq> seen \<and> start \<notin> seen \<and> (\<forall>x y. x \<in> seen \<longrightarrow> (x, y) \<in> edges wg \<longrightarrow> y \<in> seen)"
  using assms
proof (induction wg start visited stack rule: cycle_loop.induct)
  case (1 wg start visited)
  show ?case by (rule exI [of _ "set visited"]) (use "1.prems"(2,3) in simp)
next
  case (2 wg start visited node stack)
  have ns: "node \<noteq> start" using 2(3) by auto
  show ?case
  proof (cases "node \<in> set visited")
    case True
    have cl: "\<not> cycle_loop wg start visited stack" using 2(3) ns True by simp
    have inv: "y \<in> set visited \<union> set stack" if "x \<in> set visited" "(x, y) \<in> edges wg" for x y
      using 2(5) [OF that] True by auto
    obtain seen where s: "set visited \<union> set stack \<subseteq> seen" "start \<notin> seen" "\<forall>x y. x \<in> seen \<longrightarrow> (x, y) \<in> edges wg \<longrightarrow> y \<in> seen"
      using 2(1) [OF ns True cl 2(4)] inv by metis
    have "set visited \<union> set (node # stack) \<subseteq> seen" using s(1) True by auto
    with s(2,3) show ?thesis by blast
  next
    case False
    have cl: "\<not> cycle_loop wg start (node # visited) (out_edges wg node @ stack)" using 2(3) ns False by simp
    have inv: "y \<in> set (node # visited) \<union> set (out_edges wg node @ stack)" if "x \<in> set (node # visited)" "(x, y) \<in> edges wg" for x y
      using 2(5) [of x y] that by (auto simp: edges_def)
    have st: "start \<notin> set (node # visited)" using 2(4) ns by simp
    obtain seen where s: "set (node # visited) \<union> set (out_edges wg node @ stack) \<subseteq> seen" "start \<notin> seen"
      "\<forall>x y. x \<in> seen \<longrightarrow> (x, y) \<in> edges wg \<longrightarrow> y \<in> seen"
      using 2(2) [OF ns False cl st] inv by metis
    have "set visited \<union> set (node # stack) \<subseteq> seen" using s(1) by auto
    with s(2,3) show ?thesis by blast
  qed
qed

lemma has_cycle_iff: "has_cycle wg start \<longleftrightarrow> (start, start) \<in> (edges wg)\<^sup>+"
proof
  assume "has_cycle wg start"
  then obtain u where "u \<in> set (out_edges wg start)" "(u, start) \<in> (edges wg)\<^sup>*"
    using cycle_loop_sound unfolding has_cycle_def by blast
  then show "(start, start) \<in> (edges wg)\<^sup>+" by (auto simp: edges_def intro: rtrancl_into_trancl2)
next
  assume cyc: "(start, start) \<in> (edges wg)\<^sup>+"
  show "has_cycle wg start"
  proof (rule ccontr)
    assume "\<not> has_cycle wg start"
    then have "\<not> cycle_loop wg start [] (out_edges wg start)" by (simp add: has_cycle_def)
    then obtain seen where seen: "set (out_edges wg start) \<subseteq> seen" "start \<notin> seen"
      "\<And>x y. x \<in> seen \<Longrightarrow> (x, y) \<in> edges wg \<Longrightarrow> y \<in> seen"
      using cycle_loop_complete [of wg start "[]" "out_edges wg start"] by auto
    from cyc obtain u where u: "(start, u) \<in> edges wg" "(u, start) \<in> (edges wg)\<^sup>*" by (blast dest: tranclD)
    have "u \<in> seen" using u(1) seen(1) by (auto simp: edges_def)
    with u(2) have "start \<in> seen" by (induction rule: rtrancl_induct) (use seen(3) in auto)
    then show False using seen(2) by simp
  qed
qed


subsection \<open>Views of the table\<close>

abbreviation holders_at :: "lock_manager \<Rightarrow> int \<Rightarrow> (nat \<times> lock_mode) list" where
  "holders_at g k \<equiv> le_holders (entry_at g k)"

abbreviation waiters_at :: "lock_manager \<Rightarrow> int \<Rightarrow> (lock_mode \<times> nat \<times> nat) list" where
  "waiters_at g k \<equiv> le_waiters (entry_at g k)"

lemma empty_entry_simps [simp]: "le_holders empty_entry = []" "le_waiters empty_entry = []"
  by (simp_all add: empty_entry_def)

lemma entry_at_simps [simp]:
  "entry_at (put_entry k e g) j = (if j = k then e else entry_at g j)"
  "entry_at (g\<lparr>lm_txn_keys := tk\<rparr>) j = entry_at g j" "entry_at (g\<lparr>lm_wait_for := wg\<rparr>) j = entry_at g j"
  "entry_at (g\<lparr>lm_events := n\<rparr>) j = entry_at g j"
  "entry_at (g\<lparr>lm_table := AList.delete k (lm_table g)\<rparr>) j = (if j = k then empty_entry else entry_at g j)"
  by (simp_all add: entry_at_def put_entry_def AList.update_conv' AList.delete_conv')

lemma put_entry_simps [simp]:
  "lm_txn_keys (put_entry k e g) = lm_txn_keys g" "lm_wait_for (put_entry k e g) = lm_wait_for g" "lm_events (put_entry k e g) = lm_events g"
  by (simp_all add: put_entry_def)

lemma keys_of_simps [simp]:
  "keys_of (put_entry k e g) u = keys_of g u" "keys_of (g\<lparr>lm_table := tb\<rparr>) u = keys_of g u"
  "keys_of (g\<lparr>lm_wait_for := wg\<rparr>) u = keys_of g u" "keys_of (g\<lparr>lm_events := n\<rparr>) u = keys_of g u"
  "keys_of (g\<lparr>lm_txn_keys := AList.update t ks (lm_txn_keys g)\<rparr>) u = (if u = t then ks else keys_of g u)"
  "keys_of ((put_entry k e g)\<lparr>lm_txn_keys := AList.update t ks (lm_txn_keys g)\<rparr>) u = (if u = t then ks else keys_of g u)"
  "keys_of (g\<lparr>lm_txn_keys := AList.delete t (lm_txn_keys g)\<rparr>) u = (if u = t then [] else keys_of g u)"
  by (simp_all add: keys_of_def AList.update_conv' AList.delete_conv' put_entry_def)

subsection \<open>Compatible holders\<close>

definition holders_ok :: "(nat \<times> lock_mode) list \<Rightarrow> bool" where
  "holders_ok hs \<longleftrightarrow> distinct (map fst hs) \<and> (\<forall>t. (t, ModeX) \<in> set hs \<longrightarrow> hs = [(t, ModeX)])"

lemma set_update: "distinct (map fst hs) \<Longrightarrow> set (AList.update t m hs) = insert (t, m) {(u, m') \<in> set hs. u \<noteq> t}"
  by (induction hs) (auto simp: image_iff)

lemma can_grant_iff:
  "can_grant hs t m \<longleftrightarrow> (\<forall>(u, m') \<in> set hs. u \<noteq> t \<longrightarrow> m = ModeS \<and> m' = ModeS)"
  by (cases m) (auto simp: can_grant_def Let_def filter_empty_conv list_all_iff)

lemma update_only: "distinct (map fst hs) \<Longrightarrow> (\<forall>(u, m') \<in> set hs. u = t) \<Longrightarrow> AList.update t m hs = [(t, m)]"
proof (cases hs)
  case (Cons x xs)
  assume a: "distinct (map fst hs)" "\<forall>(u, m') \<in> set hs. u = t"
  obtain m0 where x: "x = (t, m0)" using a(2) Cons by (cases x) auto
  have "xs = []" using a Cons x by (cases xs) auto
  then show ?thesis using Cons x by simp
qed simp

lemma holders_ok_grant:
  assumes "holders_ok hs" "can_grant hs t m"
  shows "holders_ok (AList.update t m hs)"
proof -
  have d: "distinct (map fst hs)" using assms(1) by (simp add: holders_ok_def)
  have s: "set (AList.update t m hs) = insert (t, m) {(u, m') \<in> set hs. u \<noteq> t}" by (rule set_update [OF d])
  have "AList.update t m hs = [(u, ModeX)]" if x: "(u, ModeX) \<in> set (AList.update t m hs)" for u
  proof -
    have "m = ModeX \<and> u = t" using x assms(2) unfolding s can_grant_iff by auto
    moreover have "AList.update t m hs = [(t, m)]"
      by (rule update_only [OF d]) (use calculation assms(2) in \<open>auto simp: can_grant_iff\<close>)
    ultimately show ?thesis by simp
  qed
  then show ?thesis using distinct_update [OF d] by (simp add: holders_ok_def)
qed

lemma set_delete: "set (AList.delete t hs) = {(u, m) \<in> set hs. u \<noteq> t}"
  by (auto simp: AList.delete_eq)

lemma holders_ok_delete: "holders_ok hs \<Longrightarrow> holders_ok (AList.delete t hs)"
proof -
  assume ok: "holders_ok hs"
  have "AList.delete t hs = [(u, ModeX)]" if u: "(u, ModeX) \<in> set (AList.delete t hs)" for u
  proof -
    have "hs = [(u, ModeX)]" "u \<noteq> t" using ok u by (auto simp: holders_ok_def set_delete)
    then show ?thesis by simp
  qed
  then show ?thesis using ok by (simp add: holders_ok_def distinct_delete)
qed

subsection \<open>Advancing the queue\<close>

definition grant_all :: "(lock_mode \<times> nat \<times> nat) list \<Rightarrow> (nat \<times> lock_mode) list \<Rightarrow> (nat \<times> lock_mode) list" where
  "grant_all = fold (\<lambda>(m, t, ev). AList.update t m)"

definition unwait_all :: "(lock_mode \<times> nat \<times> nat) list \<Rightarrow> (nat \<times> nat list) list \<Rightarrow> (nat \<times> nat list) list" where
  "unwait_all = fold (\<lambda>(m, t, ev). AList.delete t)"

lemma advance_stopped: "advance_loop True ws hs wg nw sig = (hs, wg, nw @ ws, sig)"
  by (induction ws arbitrary: nw) auto

text \<open>The granted requests are a prefix of the queue, the first request left cannot be granted.\<close>

definition stuck :: "(nat \<times> lock_mode) list \<Rightarrow> (lock_mode \<times> nat \<times> nat) list \<Rightarrow> bool" where
  "stuck hs ws \<longleftrightarrow> (case ws of [] \<Rightarrow> True | (m, t, ev) # _ \<Rightarrow> \<not> can_grant hs t m)"

lemma advance_loop_ok:
  "\<exists>granted rest. ws = granted @ rest \<and>
     advance_loop False ws hs wg nw sig = (grant_all granted hs, unwait_all granted wg, nw @ rest, sig @ map (snd \<circ> snd) granted) \<and>
     stuck (grant_all granted hs) rest \<and> (holders_ok hs \<longrightarrow> holders_ok (grant_all granted hs))"
proof (induction ws arbitrary: hs wg sig)
  case Nil
  show ?case by (rule exI [of _ "[]"]) (simp add: grant_all_def unwait_all_def stuck_def)
next
  case (Cons w ws)
  obtain m t ev where w: "w = (m, t, ev)" by (cases w)
  show ?case
  proof (cases "can_grant hs t m")
    case True
    obtain granted rest where IH: "ws = granted @ rest"
      "advance_loop False ws (AList.update t m hs) (AList.delete t wg) nw (sig @ [ev]) =
        (grant_all granted (AList.update t m hs), unwait_all granted (AList.delete t wg), nw @ rest, (sig @ [ev]) @ map (snd \<circ> snd) granted)"
      "stuck (grant_all granted (AList.update t m hs)) rest"
      "holders_ok (AList.update t m hs) \<longrightarrow> holders_ok (grant_all granted (AList.update t m hs))"
      using Cons.IH [of "AList.update t m hs" "AList.delete t wg" "sig @ [ev]"] by (elim exE conjE) (rule that)
    show ?thesis
      by (rule exI [of _ "w # granted"], rule exI [of _ rest])
        (use True IH holders_ok_grant [OF _ True] in \<open>simp add: w grant_all_def unwait_all_def\<close>)
  next
    case False
    show ?thesis
      by (rule exI [of _ "[]"], rule exI [of _ "w # ws"])
        (use False in \<open>simp add: w advance_stopped grant_all_def unwait_all_def stuck_def\<close>)
  qed
qed

lemma set_grant_all: "set (grant_all granted hs) \<subseteq> set hs \<union> {(t, m). \<exists>ev. (m, t, ev) \<in> set granted}"
proof (induction granted arbitrary: hs)
  case (Cons w ws)
  obtain m t ev where w: "w = (m, t, ev)" by (cases w)
  have "set (AList.update t m hs) \<subseteq> insert (t, m) (set hs)" by (induction hs) auto
  then show ?case using Cons.IH [of "AList.update t m hs"] by (auto simp: grant_all_def w)
qed (simp add: grant_all_def)

lemma map_of_grant_all:
  "u \<notin> fst ` snd ` set granted \<Longrightarrow> map_of (grant_all granted hs) u = map_of hs u"
  "(m, u, ev) \<in> set granted \<Longrightarrow> distinct (map (fst \<circ> snd) granted) \<Longrightarrow> map_of (grant_all granted hs) u = Some m"
proof -
  show out: "u \<notin> fst ` snd ` set granted \<Longrightarrow> map_of (grant_all granted hs) u = map_of hs u" for granted hs
    by (induction granted arbitrary: hs) (auto simp: grant_all_def AList.update_conv')
  show "(m, u, ev) \<in> set granted \<Longrightarrow> distinct (map (fst \<circ> snd) granted) \<Longrightarrow> map_of (grant_all granted hs) u = Some m"
  proof (induction granted arbitrary: hs)
    case (Cons w ws)
    obtain m' u' ev' where w: "w = (m', u', ev')" by (cases w)
    have run: "grant_all (w # ws) hs = grant_all ws (AList.update u' m' hs)" by (simp add: grant_all_def w)
    show ?case
    proof (cases "(m, u, ev) \<in> set ws")
      case True
      then show ?thesis unfolding run by (rule Cons.IH) (use Cons.prems(2) in simp)
    next
      case False
      then have "m' = m" "u' = u" "u \<notin> fst ` snd ` set ws" using Cons.prems w by (auto simp: image_iff)
      then show ?thesis unfolding run using out [where granted = ws] by (simp add: AList.update_conv')
    qed
  qed simp
qed

lemma edges_delete: "edges (AList.delete t wg) = {(a, b) \<in> edges wg. a \<noteq> t}"
  by (auto simp: edges_def out_edges_def AList.delete_conv' split: if_splits option.splits)

lemma edges_unwait: "edges (unwait_all granted wg) \<subseteq> edges wg"
proof (induction granted arbitrary: wg)
  case (Cons w ws)
  then show ?case by (cases w) (force simp: unwait_all_def edges_delete)
qed (simp add: unwait_all_def)

text \<open>What \<^verbatim>\<open>release_all\<close> does for one key, whether or not the table has an entry for it.\<close>

lemma release_key_ok:
  obtains granted rest where "waiters_at g k = granted @ rest"
    "\<And>j. entry_at (fst (release_key t k g)) j =
       (if j = k then \<lparr>le_holders = grant_all granted (AList.delete t (holders_at g k)), le_waiters = rest\<rparr> else entry_at g j)"
    "lm_wait_for (fst (release_key t k g)) = unwait_all granted (lm_wait_for g)"
    "lm_txn_keys (fst (release_key t k g)) = lm_txn_keys g" "lm_events (fst (release_key t k g)) = lm_events g"
    "snd (release_key t k g) = map (snd \<circ> snd) granted"
    "stuck (grant_all granted (AList.delete t (holders_at g k))) rest"
    "holders_ok (holders_at g k) \<longrightarrow> holders_ok (grant_all granted (AList.delete t (holders_at g k)))"
proof -
  obtain granted rest where adv: "waiters_at g k = granted @ rest"
    "advance_loop False (waiters_at g k) (AList.delete t (holders_at g k)) (lm_wait_for g) [] [] =
      (grant_all granted (AList.delete t (holders_at g k)), unwait_all granted (lm_wait_for g), rest, map (snd \<circ> snd) granted)"
    "stuck (grant_all granted (AList.delete t (holders_at g k))) rest"
    "holders_ok (AList.delete t (holders_at g k)) \<longrightarrow> holders_ok (grant_all granted (AList.delete t (holders_at g k)))"
    using advance_loop_ok [of "waiters_at g k" "AList.delete t (holders_at g k)" "lm_wait_for g" "[]" "[]"] by auto
  have c: "holders_ok (holders_at g k) \<longrightarrow> holders_ok (grant_all granted (AList.delete t (holders_at g k)))"
    using adv(4) holders_ok_delete by blast
  show ?thesis
  proof (cases "map_of (lm_table g) k")
    case None
    then have e: "entry_at g k = empty_entry" by (simp add: entry_at_def)
    then have gr: "granted = []" "rest = []" using adv(1) by simp_all
    have "release_key t k g = (g, [])" using None by (simp add: release_key_def)
    then show ?thesis
      by (intro that [of granted rest]) (use e gr in \<open>simp_all add: grant_all_def unwait_all_def stuck_def empty_entry_def\<close>)
  next
    case (Some e)
    then have e: "entry_at g k = e" by (simp add: entry_at_def)
    have adv': "advance_waiters (e\<lparr>le_holders := AList.delete t (le_holders e)\<rparr>) (lm_wait_for g) =
        (\<lparr>le_holders = grant_all granted (AList.delete t (holders_at g k)), le_waiters = rest\<rparr>, unwait_all granted (lm_wait_for g), map (snd \<circ> snd) granted)"
      using adv(2) by (simp add: advance_waiters_def e)
    let ?e = "\<lparr>le_holders = grant_all granted (AList.delete t (holders_at g k)), le_waiters = rest\<rparr>"
    let ?g = "(put_entry k ?e g)\<lparr>lm_wait_for := unwait_all granted (lm_wait_for g)\<rparr>"
    have run: "release_key t k g = (if le_holders ?e = [] \<and> le_waiters ?e = [] then ?g\<lparr>lm_table := AList.delete k (lm_table ?g)\<rparr> else ?g, map (snd \<circ> snd) granted)"
      using Some adv' by (simp add: release_key_def Let_def)
    have empty: "?e = empty_entry" if "le_holders ?e = [] \<and> le_waiters ?e = []" using that by (simp add: empty_entry_def)
    have ent: "entry_at (fst (release_key t k g)) j = (if j = k then ?e else entry_at g j)" for j
      unfolding run fst_conv using empty by (auto simp only: entry_at_simps split: if_split)
    show ?thesis
      by (rule that [of granted rest]) (use adv(1,3) c ent in \<open>simp_all add: run\<close>)
  qed
qed


subsection \<open>The invariant\<close>

text \<open>
  \<open>B\<close> are the blocked calls, \<open>K t\<close> the keys that a release of \<open>t\<close> will visit: the holders of every key are
  compatible, every lock held or waited for will be released, every queued request is that of a blocked call, and
  the wait-for graph has no cycle.
\<close>

definition mgr_ok :: "lock_manager \<Rightarrow> (nat \<Rightarrow> (int \<times> lock_mode \<times> nat) option) \<Rightarrow> (nat \<Rightarrow> int set) \<Rightarrow> bool" where
  "mgr_ok g B K \<longleftrightarrow> (\<forall>k. holders_ok (holders_at g k)) \<and> (\<forall>k u m. (u, m) \<in> set (holders_at g k) \<longrightarrow> k \<in> K u) \<and>
     (\<forall>k m u ev. (m, u, ev) \<in> set (waiters_at g k) \<longrightarrow> B u = Some (k, m, ev) \<and> k \<in> K u) \<and>
     (\<forall>k. distinct (waiters_at g k)) \<and> acyclic (edges (lm_wait_for g))"

definition heads_wait :: "lock_manager \<Rightarrow> bool" where
  "heads_wait g \<longleftrightarrow> (\<forall>k. stuck (holders_at g k) (waiters_at g k))"

lemma mgr_okI:
  assumes "\<And>k. holders_ok (holders_at g k)" "\<And>k u m. (u, m) \<in> set (holders_at g k) \<Longrightarrow> k \<in> K u"
    "\<And>k m u ev. (m, u, ev) \<in> set (waiters_at g k) \<Longrightarrow> B u = Some (k, m, ev) \<and> k \<in> K u" "\<And>k. distinct (waiters_at g k)"
    "acyclic (edges (lm_wait_for g))"
  shows "mgr_ok g B K"
  using assms by (simp add: mgr_ok_def)

lemma mgr_okD:
  assumes "mgr_ok g B K"
  shows "holders_ok (holders_at g k)" "(u, m) \<in> set (holders_at g k) \<Longrightarrow> k \<in> K u"
    "(m, u, ev) \<in> set (waiters_at g k) \<Longrightarrow> B u = Some (k, m, ev)" "(m, u, ev) \<in> set (waiters_at g k) \<Longrightarrow> k \<in> K u"
    "acyclic (edges (lm_wait_for g))" "distinct (waiters_at g k)"
  using assms by (auto simp: mgr_ok_def)

text \<open>Edges out of one node that close no cycle through it keep a graph acyclic.\<close>

lemma acyclic_extend:
  assumes "acyclic r" "r' \<subseteq> r \<union> {t} \<times> UNIV" "(t, t) \<notin> r'\<^sup>+"
  shows "acyclic r'"
proof (rule acyclicI, intro allI notI)
  fix x assume cyc: "(x, x) \<in> r'\<^sup>+"
  have path: "(x, y) \<in> r\<^sup>+ \<or> (x, t) \<in> r'\<^sup>* \<and> (t, y) \<in> r'\<^sup>+" if "(x, y) \<in> r'\<^sup>+" for y
    using that
  proof (induction rule: trancl_induct)
    case (base y)
    then show ?case using assms(2) by (cases "x = t") auto
  next
    case (step y z)
    show ?case
    proof (cases "(y, z) \<in> r \<and> (x, y) \<in> r\<^sup>+")
      case True
      then show ?thesis by (meson trancl.trancl_into_trancl)
    next
      case False
      then consider "y = t" | "(x, t) \<in> r'\<^sup>*" "(t, y) \<in> r'\<^sup>+" using step assms(2) by auto
      then show ?thesis
      proof cases
        case 1
        then show ?thesis using step.hyps by (auto simp: trancl_into_rtrancl)
      next
        case 2
        then show ?thesis using step.hyps(2) by (meson trancl.trancl_into_trancl)
      qed
    qed
  qed
  from path [OF cyc] show False
  proof
    assume "(x, x) \<in> r\<^sup>+"
    then show False using assms(1) by (simp add: acyclic_def)
  next
    assume "(x, t) \<in> r'\<^sup>* \<and> (t, x) \<in> r'\<^sup>+"
    then show False using assms(3) by (meson trancl_rtrancl_trancl)
  qed
qed

lemma out_edges_update: "out_edges (AList.update t ts wg) u = (if u = t then ts else out_edges wg u)"
  by (simp add: out_edges_def AList.update_conv')

lemma edges_update: "edges (AList.update t ts wg) \<subseteq> edges wg \<union> {t} \<times> UNIV"
  by (auto simp: edges_def out_edges_update split: if_splits)

lemma acyclic_delete: "acyclic (edges wg) \<Longrightarrow> acyclic (edges (AList.delete t wg))"
  by (rule acyclic_subset) (auto simp: edges_delete)

subsection \<open>Releasing\<close>

text \<open>
  What releases of \<open>t\<close> do to the requests: a request that leaves the queue has been granted and its event is among
  those returned; a transaction without a request keeps its lock.
\<close>

definition serves :: "nat \<Rightarrow> lock_manager \<Rightarrow> lock_manager \<Rightarrow> nat list \<Rightarrow> bool" where
  "serves t g g' evs \<longleftrightarrow>
     (\<forall>j. \<exists>granted. waiters_at g j = granted @ waiters_at g' j) \<and>
     (\<forall>j m u. (u, m) \<in> set (holders_at g' j) \<longrightarrow>
        (u, m) \<in> set (holders_at g j) \<or> (\<exists>ev. (m, u, ev) \<in> set (waiters_at g j) - set (waiters_at g' j))) \<and>
     (\<forall>j m u ev. (m, u, ev) \<in> set (waiters_at g j) - set (waiters_at g' j) \<longrightarrow> map_of (holders_at g' j) u = Some m) \<and>
     (\<forall>ev. ev \<in> set evs \<longleftrightarrow> (\<exists>j m u. (m, u, ev) \<in> set (waiters_at g j) - set (waiters_at g' j))) \<and>
     (\<forall>j u. u \<noteq> t \<longrightarrow> u \<notin> fst ` snd ` set (waiters_at g j) \<longrightarrow> map_of (holders_at g' j) u = map_of (holders_at g j) u)"

lemma servesD:
  assumes "serves t g g' evs"
  shows "w \<in> set (waiters_at g' j) \<Longrightarrow> w \<in> set (waiters_at g j)"
    "(m, u, ev) \<in> set (waiters_at g j) \<Longrightarrow> (m, u, ev) \<notin> set (waiters_at g' j) \<Longrightarrow> map_of (holders_at g' j) u = Some m \<and> ev \<in> set evs"
    "ev \<in> set evs \<Longrightarrow> \<exists>j m u. (m, u, ev) \<in> set (waiters_at g j) \<and> (m, u, ev) \<notin> set (waiters_at g' j)"
    "u \<noteq> t \<Longrightarrow> u \<notin> fst ` snd ` set (waiters_at g j) \<Longrightarrow> map_of (holders_at g' j) u = map_of (holders_at g j) u"
    "\<exists>granted. waiters_at g j = granted @ waiters_at g' j"
    "(u, m) \<in> set (holders_at g' j) \<Longrightarrow>
      (u, m) \<in> set (holders_at g j) \<or> (\<exists>ev. (m, u, ev) \<in> set (waiters_at g j) \<and> (m, u, ev) \<notin> set (waiters_at g' j))"
proof -
  have e: "\<exists>granted. waiters_at g j = granted @ waiters_at g' j" for j using assms unfolding serves_def by blast
  then show "\<exists>granted. waiters_at g j = granted @ waiters_at g' j" .
  show "w \<in> set (waiters_at g' j) \<Longrightarrow> w \<in> set (waiters_at g j)" using e [of j] by auto
qed (use assms in \<open>unfold serves_def, blast+\<close>)

lemma serves_trans:
  assumes "serves t g g1 evs1" "serves t g1 g2 evs2" and users: "\<And>j m u ev m' ev'. (m, u, ev) \<in> set (waiters_at g j) \<Longrightarrow>
      (m', u, ev') \<in> set (waiters_at g j) \<Longrightarrow> (m', ev') = (m, ev) \<and> u \<noteq> t"
  shows "serves t g g2 (evs1 @ evs2)"
proof -
  note s1 = servesD [OF assms(1)] and s2 = servesD [OF assms(2)]
  show ?thesis
    unfolding serves_def
  proof (intro conjI allI impI)
    show "\<exists>granted. waiters_at g j = granted @ waiters_at g2 j" for j
    proof -
      obtain xs ys where "waiters_at g j = xs @ waiters_at g1 j" "waiters_at g1 j = ys @ waiters_at g2 j" using s1(5) s2(5) by meson
      then have "waiters_at g j = (xs @ ys) @ waiters_at g2 j" by simp
      then show ?thesis by (rule exI)
    qed
    show "(u, m) \<in> set (holders_at g j) \<or> (\<exists>ev. (m, u, ev) \<in> set (waiters_at g j) - set (waiters_at g2 j))"
      if "(u, m) \<in> set (holders_at g2 j)" for j m u
      using s2(6) [OF that]
    proof
      assume "(u, m) \<in> set (holders_at g1 j)"
      from s1(6) [OF this] show ?thesis using s2(1) by blast
    qed (use s1(1) in blast)
    show "map_of (holders_at g2 j) u = Some m" if w: "(m, u, ev) \<in> set (waiters_at g j) - set (waiters_at g2 j)" for j m u ev
    proof (cases "(m, u, ev) \<in> set (waiters_at g1 j)")
      case True
      then show ?thesis using s2(2) w by blast
    next
      case False
      have "m' = m \<and> ev' = ev" if "(m', u, ev') \<in> set (waiters_at g1 j)" for m' ev'
        using users [of m u ev j m' ev'] s1(1) [OF that] w by simp
      with False have "u \<notin> fst ` snd ` set (waiters_at g1 j)" by (auto simp: image_iff)
      then show ?thesis using s2(4) [of u j] s1(2) [of m u ev j] users [of m u ev j m ev] w False by simp
    qed
    show "ev \<in> set (evs1 @ evs2) \<longleftrightarrow> (\<exists>j m u. (m, u, ev) \<in> set (waiters_at g j) - set (waiters_at g2 j))" for ev
    proof
      assume "ev \<in> set (evs1 @ evs2)"
      then consider "ev \<in> set evs1" | "ev \<in> set evs2" by auto
      then show "\<exists>j m u. (m, u, ev) \<in> set (waiters_at g j) - set (waiters_at g2 j)"
      proof cases
        case 1
        then obtain j m u where "(m, u, ev) \<in> set (waiters_at g j)" "(m, u, ev) \<notin> set (waiters_at g1 j)" using s1(3) by blast
        then show ?thesis using s2(1) by blast
      next
        case 2
        then obtain j m u where "(m, u, ev) \<in> set (waiters_at g1 j)" "(m, u, ev) \<notin> set (waiters_at g2 j)" using s2(3) by blast
        then show ?thesis using s1(1) by blast
      qed
    next
      assume "\<exists>j m u. (m, u, ev) \<in> set (waiters_at g j) - set (waiters_at g2 j)"
      then obtain j m u where w: "(m, u, ev) \<in> set (waiters_at g j)" "(m, u, ev) \<notin> set (waiters_at g2 j)" by blast
      then show "ev \<in> set (evs1 @ evs2)"
        using s1(2) [OF w(1)] s2(2) [OF _ w(2)] by (cases "(m, u, ev) \<in> set (waiters_at g1 j)") auto
    qed
    show "map_of (holders_at g2 j) u = map_of (holders_at g j) u" if "u \<noteq> t" "u \<notin> fst ` snd ` set (waiters_at g j)" for j u
    proof -
      have "u \<notin> fst ` snd ` set (waiters_at g1 j)" using that(2) s1(1) by blast
      then show ?thesis using s1(4) [OF that] s2(4) [OF that(1)] by simp
    qed
  qed
qed

lemma release_key_inv:
  assumes ok: "mgr_ok g B K" and t: "B t = None"
  shows "mgr_ok (fst (release_key t k g)) B (K(t := K t - {k}))"
    and "heads_wait g \<Longrightarrow> heads_wait (fst (release_key t k g))"
    and "\<And>j m. (t, m) \<in> set (holders_at (fst (release_key t k g)) j) \<Longrightarrow> (t, m) \<in> set (holders_at g j) \<and> j \<noteq> k"
    and "serves t g (fst (release_key t k g)) (snd (release_key t k g))"
    and "lm_txn_keys (fst (release_key t k g)) = lm_txn_keys g" "lm_events (fst (release_key t k g)) = lm_events g"
proof -
  let ?g = "fst (release_key t k g)"
  obtain granted rest where r: "waiters_at g k = granted @ rest"
    "\<And>j. entry_at ?g j = (if j = k then \<lparr>le_holders = grant_all granted (AList.delete t (holders_at g k)), le_waiters = rest\<rparr> else entry_at g j)"
    "lm_wait_for ?g = unwait_all granted (lm_wait_for g)" "lm_txn_keys ?g = lm_txn_keys g" "lm_events ?g = lm_events g"
    "snd (release_key t k g) = map (snd \<circ> snd) granted"
    "stuck (grant_all granted (AList.delete t (holders_at g k))) rest"
    "holders_ok (holders_at g k) \<longrightarrow> holders_ok (grant_all granted (AList.delete t (holders_at g k)))"
    by (rule release_key_ok [of g k t]) (rule that)
  show "lm_txn_keys ?g = lm_txn_keys g" "lm_events ?g = lm_events g" by (rule r(4,5))+
  have new: "u \<noteq> t \<and> k \<in> K u" if "(u, m) \<in> set (grant_all granted (AList.delete t (holders_at g k)))" for u m
  proof -
    have "(u, m) \<in> set (AList.delete t (holders_at g k)) \<or> (\<exists>ev. (m, u, ev) \<in> set (waiters_at g k))"
      using set_grant_all [of granted "AList.delete t (holders_at g k)"] that r(1) by auto
    then show ?thesis using mgr_okD(2-4) [OF ok] t by (auto simp: set_delete)
  qed
  show "mgr_ok ?g B (K(t := K t - {k}))"
  proof (rule mgr_okI)
    show "holders_ok (holders_at ?g j)" for j using r(2,8) mgr_okD(1) [OF ok] by simp
    show "j \<in> (K(t := K t - {k})) u" if "(u, m) \<in> set (holders_at ?g j)" for j u m
      using that new mgr_okD(2) [OF ok] by (auto simp: r(2) split: if_splits)
    show "B u = Some (j, m, ev) \<and> j \<in> (K(t := K t - {k})) u" if "(m, u, ev) \<in> set (waiters_at ?g j)" for j m u ev
    proof -
      have w: "(m, u, ev) \<in> set (waiters_at g j)" using that r(1) by (auto simp: r(2) split: if_splits)
      then have "u \<noteq> t" using mgr_okD(3) [OF ok w] t by auto
      then show ?thesis using mgr_okD(3,4) [OF ok w] by simp
    qed
    show "distinct (waiters_at ?g j)" for j using mgr_okD(6) [OF ok, of k] mgr_okD(6) [OF ok, of j] by (simp add: r(1,2))
    show "acyclic (edges (lm_wait_for ?g))"
      using acyclic_subset [OF mgr_okD(5) [OF ok] edges_unwait] by (simp add: r(3))
  qed
  show "heads_wait ?g" if "heads_wait g" using that r(7) by (simp add: heads_wait_def r(2))
  show "(t, m) \<in> set (holders_at g j) \<and> j \<noteq> k" if "(t, m) \<in> set (holders_at ?g j)" for j m
    using that new by (auto simp: r(2) split: if_splits)
  have d: "distinct (granted @ rest)" using mgr_okD(6) [OF ok, of k] by (simp only: r(1))
  have "inj_on (fst \<circ> snd) (set granted)"
  proof (rule inj_onI)
    fix x y assume "x \<in> set granted" "y \<in> set granted" "(fst \<circ> snd) x = (fst \<circ> snd) y"
    moreover obtain m u ev m' u' ev' where "x = (m, u, ev)" "y = (m', u', ev')" by (cases x, cases y)
    ultimately show "x = y" using mgr_okD(3) [OF ok, of m u ev k] mgr_okD(3) [OF ok, of m' u' ev' k] r(1) by simp
  qed
  then have du: "distinct (map (fst \<circ> snd) granted)" using d by (simp add: distinct_map)
  have g1: "map_of (holders_at ?g j) u = Some m" if "(m, u, ev) \<in> set (waiters_at g j)" "(m, u, ev) \<notin> set (waiters_at ?g j)" for j m u ev
  proof -
    have j: "j = k" "(m, u, ev) \<in> set granted" using that r(1) by (auto simp: r(2) split: if_splits)
    then show ?thesis using map_of_grant_all(2) [OF j(2) du] by (simp add: r(2))
  qed
  have g2: "ev \<in> set (snd (release_key t k g)) \<longleftrightarrow> (\<exists>j m u. (m, u, ev) \<in> set (waiters_at g j) - set (waiters_at ?g j))" for ev
  proof
    assume "ev \<in> set (snd (release_key t k g))"
    then obtain m u where "(m, u, ev) \<in> set granted" by (auto simp: r(6))
    then have "(m, u, ev) \<in> set (waiters_at g k) - set (waiters_at ?g k)" using d by (auto simp: r(1,2))
    then show "\<exists>j m u. (m, u, ev) \<in> set (waiters_at g j) - set (waiters_at ?g j)" by blast
  next
    assume "\<exists>j m u. (m, u, ev) \<in> set (waiters_at g j) - set (waiters_at ?g j)"
    then obtain m u where "(m, u, ev) \<in> set granted" using r(1) by (auto simp: r(2) split: if_splits)
    then show "ev \<in> set (snd (release_key t k g))" by (force simp: r(6))
  qed
  have g3: "map_of (holders_at ?g j) u = map_of (holders_at g j) u" if "u \<noteq> t" "u \<notin> fst ` snd ` set (waiters_at g j)" for j u
  proof (cases "j = k")
    case True
    then have "u \<notin> fst ` snd ` set granted" using that(2) r(1) by auto
    then show ?thesis using map_of_grant_all(1) [of u granted "AList.delete t (holders_at g k)"] that(1) True
      by (simp add: r(2) AList.delete_conv')
  qed (simp add: r(2))
  show "serves t g ?g (snd (release_key t k g))"
    unfolding serves_def
  proof (intro conjI allI impI)
    show "\<exists>granted. waiters_at g j = granted @ waiters_at ?g j" for j using r(1) by (simp add: r(2))
    show "(u, m) \<in> set (holders_at g j) \<or> (\<exists>ev. (m, u, ev) \<in> set (waiters_at g j) - set (waiters_at ?g j))"
      if h: "(u, m) \<in> set (holders_at ?g j)" for j m u
    proof (cases "j = k")
      case True
      consider "(u, m) \<in> set (AList.delete t (holders_at g k))" | ev where "(m, u, ev) \<in> set granted"
        using set_grant_all [of granted "AList.delete t (holders_at g k)"] h True by (auto simp: r(2))
      then show ?thesis
      proof cases
        case (2 ev)
        then have "(m, u, ev) \<in> set (waiters_at g k) - set (waiters_at ?g k)" using d by (auto simp: r(1,2))
        then show ?thesis using True by blast
      qed (simp add: set_delete True)
    qed (use h in \<open>simp add: r(2)\<close>)
    show "map_of (holders_at ?g j) u = Some m" if "(m, u, ev) \<in> set (waiters_at g j) - set (waiters_at ?g j)" for j m u ev
      using g1 [of m u ev j] that by simp
  qed (rule g2, rule g3)
qed

lemma release_keys_inv:
  assumes "mgr_ok g B K" "B t = None" "K t \<subseteq> set ks"
  shows "mgr_ok (fst (release_keys t ks g)) B (K(t := {})) \<and> (heads_wait g \<longrightarrow> heads_wait (fst (release_keys t ks g))) \<and>
    (\<forall>j m. (t, m) \<notin> set (holders_at (fst (release_keys t ks g)) j)) \<and>
    serves t g (fst (release_keys t ks g)) (snd (release_keys t ks g)) \<and>
    lm_txn_keys (fst (release_keys t ks g)) = lm_txn_keys g \<and> lm_events (fst (release_keys t ks g)) = lm_events g"
  using assms
proof (induction ks arbitrary: g K)
  case Nil
  then have "K t = {}" by simp
  then have "K(t := {}) = K" by (simp add: fun_upd_idem)
  then show ?case using Nil mgr_okD(2) [OF Nil.prems(1)] by (auto simp: serves_def)
next
  case (Cons k ks)
  obtain g1 evs1 where r1: "release_key t k g = (g1, evs1)" by (cases "release_key t k g")
  obtain g2 evs2 where r2: "release_keys t ks g1 = (g2, evs2)" by (cases "release_keys t ks g1")
  note inv1 = release_key_inv [OF Cons.prems(1,2), where k = k, unfolded r1 fst_conv snd_conv]
  have "(K(t := K t - {k})) t \<subseteq> set ks" using Cons.prems(3) by auto
  note inv2 = Cons.IH [OF inv1(1) Cons.prems(2) this, unfolded r2 fst_conv snd_conv fun_upd_upd]
  have run: "release_keys t (k # ks) g = (g2, evs1 @ evs2)" using r1 r2 by simp
  have sv2: "serves t g1 g2 evs2" using inv2 by blast
  have users: "(m', ev') = (m, ev) \<and> u \<noteq> t" if "(m, u, ev) \<in> set (waiters_at g j)" "(m', u, ev') \<in> set (waiters_at g j)" for j m u ev m' ev'
    using mgr_okD(3) [OF Cons.prems(1) that(1)] mgr_okD(3) [OF Cons.prems(1) that(2)] Cons.prems(2) by auto
  have sv: "serves t g g2 (evs1 @ evs2)" by (rule serves_trans [OF inv1(4) sv2 users])
  show ?case unfolding run fst_conv snd_conv using inv2 inv1(2,5,6) sv by auto
qed

lemma release_all_inv:
  assumes ok: "mgr_ok g B (\<lambda>t. set (keys_of g t))" and t: "B t = None" and run: "release_all t g = (res, g')"
  obtains evs where "res = Inr evs" "mgr_ok g' B (\<lambda>t. set (keys_of g' t))" "heads_wait g \<longrightarrow> heads_wait g'"
    "\<And>j m. (t, m) \<notin> set (holders_at g' j)" "serves t g g' evs" "lm_events g' = lm_events g"
proof -
  let ?g0 = "g\<lparr>lm_txn_keys := AList.delete t (lm_txn_keys g)\<rparr>"
  obtain g1 evs where r: "release_keys t (keys_of g t) ?g0 = (g1, evs)" by (cases "release_keys t (keys_of g t) ?g0")
  have ok0: "mgr_ok ?g0 B (\<lambda>t. set (keys_of g t))" using ok by (simp add: mgr_ok_def)
  note inv = release_keys_inv [OF ok0 t subset_refl, unfolded r fst_conv snd_conv]
  have g': "res = Inr evs" "g' = g1\<lparr>lm_wait_for := AList.delete t (lm_wait_for g1)\<rparr>" using run r by (simp_all add: release_all_def)
  have keys: "(\<lambda>u. set (keys_of g' u)) = (\<lambda>u. set (keys_of g u))(t := {})"
    using inv by (auto simp: g'(2) keys_of_def fun_eq_iff AList.delete_conv')
  have "mgr_ok g' B ((\<lambda>u. set (keys_of g u))(t := {}))"
    using inv acyclic_delete by (simp add: g'(2) mgr_ok_def)
  then have ok': "mgr_ok g' B (\<lambda>t. set (keys_of g' t))" unfolding keys .
  show ?thesis
    by (rule that [OF g'(1) ok']) (use inv in \<open>simp_all add: g'(2) heads_wait_def serves_def\<close>)
qed

subsection \<open>Acquiring\<close>

lemma acquire_cases:
  assumes "acquire_try t k m g = (res, g')"
  obtains
    (held) "res = Inr Granted" "\<And>j. entry_at g' j = entry_at g j" "lm_wait_for g' = lm_wait_for g"
      "map_of (holders_at g k) t = Some ModeX \<or> map_of (holders_at g k) t = Some ModeS \<and> m = ModeS"
  | (granted) "res = Inr Granted" "can_grant (holders_at g k) t m" "lm_wait_for g' = lm_wait_for g"
      "\<And>j. entry_at g' j = (if j = k then (entry_at g k)\<lparr>le_holders := AList.update t m (holders_at g k)\<rparr> else entry_at g j)"
      "\<not> (map_of (holders_at g k) t = Some ModeX \<or> map_of (holders_at g k) t = Some ModeS \<and> m = ModeS)"
  | (deadlock) "res = Inl DeadlockError"
      "\<And>j. (m, t, lm_events g) \<notin> set (waiters_at g k) \<Longrightarrow> entry_at g' j = entry_at g j" "lm_wait_for g' = AList.delete t (lm_wait_for g)"
      "\<not> can_grant (holders_at g k) t m"
      "has_cycle (AList.update t (filter (\<lambda>u. u \<noteq> t) (map fst (holders_at g k))) (lm_wait_for g)) t"
  | (blocked) ev where "res = Inr (Blocked ev)" "\<not> can_grant (holders_at g k) t m"
      "\<And>j. entry_at g' j = (if j = k then (entry_at g k)\<lparr>le_waiters := waiters_at g k @ [(m, t, ev)]\<rparr> else entry_at g j)"
      "lm_wait_for g' = AList.update t (filter (\<lambda>u. u \<noteq> t) (map fst (holders_at g k))) (lm_wait_for g)"
      "\<not> has_cycle (lm_wait_for g') t"
proof -
  let ?e = "entry_at g k"
  let ?g = "(put_entry k ?e g)\<lparr>lm_txn_keys := AList.update t (List.insert k (keys_of (put_entry k ?e g) t)) (lm_txn_keys (put_entry k ?e g))\<rparr>"
  let ?wg = "AList.update t (filter (\<lambda>u. u \<noteq> t) (map fst (holders_at g k))) (lm_wait_for g)"
  let ?held = "map_of (holders_at g k) t = Some ModeX \<or> map_of (holders_at g k) t = Some ModeS \<and> m = ModeS"
  have same: "entry_at ?g j = entry_at g j" for j by simp
  show ?thesis
  proof (cases ?held)
    case True
    then have r: "res = Inr Granted" "g' = ?g" using assms by (simp_all add: acquire_try_def Let_def)
    show ?thesis by (rule held) (use r True in simp_all)
  next
    case nh: False
    show ?thesis
    proof (cases "can_grant (holders_at g k) t m")
      case True
      then have r: "res = Inr Granted" "g' = put_entry k (?e\<lparr>le_holders := AList.update t m (holders_at g k)\<rparr>) ?g"
        using assms nh by (simp_all add: acquire_try_def Let_def)
      show ?thesis by (rule granted) (use r True nh in simp_all)
    next
      case ng: False
      show ?thesis
      proof (cases "has_cycle ?wg t")
        case True
        then have r: "res = Inl DeadlockError" "lm_wait_for g' = AList.delete t ?wg"
          "entry_at g' j = (if j = k then ?e\<lparr>le_waiters := remove1 (m, t, lm_events g) (waiters_at g k @ [(m, t, lm_events g)])\<rparr> else entry_at g j)" for j
          using assms nh ng by (auto simp: acquire_try_def Let_def)
        show ?thesis
        proof (rule deadlock)
          show "lm_wait_for g' = AList.delete t (lm_wait_for g)" using r(2) by (simp add: AList.delete_update_same)
          show "entry_at g' j = entry_at g j" if "(m, t, lm_events g) \<notin> set (waiters_at g k)" for j
            using that r(3) [of j] by (simp add: remove1_append)
        qed (use r(1) ng True in simp_all)
      next
        case False
        then have r: "res = Inr (Blocked (lm_events g))" "lm_wait_for g' = ?wg"
          "entry_at g' j = (if j = k then ?e\<lparr>le_waiters := waiters_at g k @ [(m, t, lm_events g)]\<rparr> else entry_at g j)" for j
          using assms nh ng by (auto simp: acquire_try_def Let_def)
        show ?thesis by (rule blocked [of "lm_events g"]) (use r ng False in simp_all)
      qed
    qed
  qed
qed

lemma acquire_keys: "acquire_try t k m g = (res, g') \<Longrightarrow> keys_of g' u = (if u = t then List.insert k (keys_of g t) else keys_of g u)"
  by (auto simp: acquire_try_def Let_def split: if_splits)

lemma stuck_grant:
  assumes "stuck hs ws" "can_grant hs t m" "\<not> (map_of hs t = Some ModeX)" "holders_ok hs"
    "\<And>m' u ev. (m', u, ev) \<in> set ws \<Longrightarrow> u \<noteq> t"
  shows "stuck (AList.update t m hs) ws"
proof (cases ws)
  case (Cons w ws')
  obtain m' u ev where w: "w = (m', u, ev)" by (cases w)
  have d: "distinct (map fst hs)" using assms(4) by (simp add: holders_ok_def)
  have ut: "u \<noteq> t" using assms(5) Cons w by auto
  have "\<not> can_grant hs u m'" using assms(1) Cons w by (simp add: stuck_def)
  then obtain x mx where x: "(x, mx) \<in> set hs" "x \<noteq> u" "m' = ModeX \<or> mx = ModeX" by (cases m'; auto simp: can_grant_iff intro: lock_mode.exhaust)
  have "\<exists>y my. (y, my) \<in> set (AList.update t m hs) \<and> y \<noteq> u \<and> (m' = ModeX \<or> my = ModeX)"
  proof (cases "x = t")
    case True
    have "mx \<noteq> ModeX" using assms(3) d x(1) True by auto
    then show ?thesis using x True ut by (auto simp: set_update [OF d])
  next
    case False
    then show ?thesis using x by (auto simp: set_update [OF d])
  qed
  then show ?thesis using Cons w by (auto simp: stuck_def can_grant_iff)
qed (simp add: stuck_def)

lemma acquire_inv:
  assumes ok: "mgr_ok g B (\<lambda>t. set (keys_of g t))" and t: "B t = None" and run: "acquire_try t k m g = (res, g')"
  shows "mgr_ok g' (case res of Inr (Blocked ev) \<Rightarrow> B(t \<mapsto> (k, m, ev)) | _ \<Rightarrow> B) (\<lambda>t. set (keys_of g' t))"
    and "heads_wait g \<Longrightarrow> heads_wait g'"
    and "w \<in> set (waiters_at g' j) \<longleftrightarrow> w \<in> set (waiters_at g j) \<or> (\<exists>ev. res = Inr (Blocked ev) \<and> j = k \<and> w = (m, t, ev))"
    and "u \<noteq> t \<Longrightarrow> map_of (holders_at g' j) u = map_of (holders_at g j) u"
proof -
  have keys: "set (keys_of g' u) = (if u = t then insert k (set (keys_of g u)) else set (keys_of g u))" for u
    using acquire_keys [OF run, of u] by (simp add: List.insert_def insert_absorb)
  have nw: "(m', t, ev) \<notin> set (waiters_at g j)" for m' ev j using mgr_okD(3) [OF ok, of m' t ev j] t by auto
  have kk: "j \<in> set (keys_of g' u)" if "j \<in> set (keys_of g u)" for j u using that keys [of u] by (simp split: if_splits)
  have kh: "j \<in> set (keys_of g' u)" if "(u, m') \<in> set (holders_at g j)" for j u m' by (rule kk [OF mgr_okD(2) [OF ok that]])
  have kw: "j \<in> set (keys_of g' u)" if "(m', u, ev) \<in> set (waiters_at g j)" for j u m' ev by (rule kk [OF mgr_okD(4) [OF ok that]])
  have kt: "k \<in> set (keys_of g' t)" using keys [of t] by simp
  have unchanged: "mgr_ok g' B (\<lambda>t. set (keys_of g' t)) \<and> (heads_wait g \<longrightarrow> heads_wait g')"
    if e: "\<And>j. entry_at g' j = entry_at g j" and ac: "acyclic (edges (lm_wait_for g'))"
    using mgr_okD(1,3,6) [OF ok] kh kw ac unfolding mgr_ok_def heads_wait_def e by blast
  have ac: "acyclic (edges (lm_wait_for g))" by (rule mgr_okD(5) [OF ok])
  have "mgr_ok g' (case res of Inr (Blocked ev) \<Rightarrow> B(t \<mapsto> (k, m, ev)) | _ \<Rightarrow> B) (\<lambda>t. set (keys_of g' t)) \<and>
     (heads_wait g \<longrightarrow> heads_wait g') \<and>
     (\<forall>w j. w \<in> set (waiters_at g' j) \<longleftrightarrow> w \<in> set (waiters_at g j) \<or> (\<exists>ev. res = Inr (Blocked ev) \<and> j = k \<and> w = (m, t, ev))) \<and>
     (\<forall>u j. u \<noteq> t \<longrightarrow> map_of (holders_at g' j) u = map_of (holders_at g j) u)"
    using run
  proof (cases rule: acquire_cases)
    case held
    then show ?thesis using unchanged [OF held(2)] ac by simp
  next
    case deadlock
    have e: "entry_at g' j = entry_at g j" for j by (rule deadlock(2)) (rule nw)
    then show ?thesis using unchanged [OF e] acyclic_delete [OF ac] deadlock(1,3) by simp
  next
    case granted
    have d: "distinct (map fst (holders_at g k))" using mgr_okD(1) [OF ok, of k] by (simp add: holders_ok_def)
    have "mgr_ok g' B (\<lambda>t. set (keys_of g' t))"
    proof (rule mgr_okI)
      show "holders_ok (holders_at g' j)" for j
        using mgr_okD(1) [OF ok] holders_ok_grant [OF mgr_okD(1) [OF ok] granted(2)] by (simp add: granted(4))
      show "j \<in> set (keys_of g' u)" if "(u, m') \<in> set (holders_at g' j)" for j u m'
        using that kh kt by (auto simp: granted(4) set_update [OF d] split: if_splits)
      show "B u = Some (j, m', ev) \<and> j \<in> set (keys_of g' u)" if "(m', u, ev) \<in> set (waiters_at g' j)" for j m' u ev
      proof -
        have "(m', u, ev) \<in> set (waiters_at g j)" using that by (simp add: granted(4) split: if_splits)
        then show ?thesis using mgr_okD(3) [OF ok] kw by blast
      qed
      show "distinct (waiters_at g' j)" for j using mgr_okD(6) [OF ok] by (simp add: granted(4))
    qed (simp add: granted(3) ac)
    moreover have "heads_wait g'" if h: "heads_wait g"
      unfolding heads_wait_def
    proof
      fix j
      have "stuck (AList.update t m (holders_at g k)) (waiters_at g k)"
        by (rule stuck_grant [OF _ granted(2)]) (use h granted(5) mgr_okD(1) [OF ok] nw in \<open>auto simp: heads_wait_def\<close>)
      then show "stuck (holders_at g' j) (waiters_at g' j)" using h by (simp add: granted(4) heads_wait_def)
    qed
    ultimately show ?thesis using granted(1) by (simp add: granted(4) AList.update_conv')
  next
    case (blocked ev)
    have "mgr_ok g' (B(t \<mapsto> (k, m, ev))) (\<lambda>t. set (keys_of g' t))"
    proof (rule mgr_okI)
      show "holders_ok (holders_at g' j)" for j using mgr_okD(1) [OF ok] by (simp add: blocked(3))
      show "j \<in> set (keys_of g' u)" if "(u, m') \<in> set (holders_at g' j)" for j u m'
        using that kh by (simp add: blocked(3) split: if_splits)
      show "(B(t \<mapsto> (k, m, ev))) u = Some (j, m', ev') \<and> j \<in> set (keys_of g' u)" if "(m', u, ev') \<in> set (waiters_at g' j)" for j m' u ev'
      proof -
        consider "j = k" "m' = m" "u = t" "ev' = ev" | "(m', u, ev') \<in> set (waiters_at g j)"
          using \<open>(m', u, ev') \<in> set (waiters_at g' j)\<close> by (auto simp: blocked(3) split: if_splits)
        then show ?thesis
        proof cases
          case 2
          then have "u \<noteq> t" using nw by blast
          then show ?thesis using mgr_okD(3) [OF ok 2] kw [OF 2] by simp
        qed (simp add: kt)
      qed
      show "distinct (waiters_at g' j)" for j using mgr_okD(6) [OF ok] nw by (simp add: blocked(3))
      have "edges (lm_wait_for g') \<subseteq> edges (lm_wait_for g) \<union> {t} \<times> UNIV" unfolding blocked(4) by (rule edges_update)
      then show "acyclic (edges (lm_wait_for g'))" by (rule acyclic_extend [OF ac]) (use blocked(5) in \<open>simp add: has_cycle_iff\<close>)
    qed
    moreover have "heads_wait g'" if h: "heads_wait g"
      unfolding heads_wait_def
    proof
      fix j
      show "stuck (holders_at g' j) (waiters_at g' j)"
        using h [unfolded heads_wait_def, rule_format, of j] blocked(2)
        by (cases "waiters_at g j") (auto simp: blocked(3) stuck_def)
    qed
    ultimately show ?thesis using blocked(1) by (auto simp: blocked(3))
  qed
  then show "mgr_ok g' (case res of Inr (Blocked ev) \<Rightarrow> B(t \<mapsto> (k, m, ev)) | _ \<Rightarrow> B) (\<lambda>t. set (keys_of g' t))"
    and "heads_wait g \<Longrightarrow> heads_wait g'"
    and "w \<in> set (waiters_at g' j) \<longleftrightarrow> w \<in> set (waiters_at g j) \<or> (\<exists>ev. res = Inr (Blocked ev) \<and> j = k \<and> w = (m, t, ev))"
    and "u \<noteq> t \<Longrightarrow> map_of (holders_at g' j) u = map_of (holders_at g j) u"
    by blast+
qed

lemma acquire_events:
  "acquire_try t k m g = (res, g') \<Longrightarrow>
    (case res of Inr (Blocked ev) \<Rightarrow> ev = lm_events g \<and> lm_events g' = Suc ev | _ \<Rightarrow> lm_events g \<le> lm_events g')"
  by (auto simp: acquire_try_def Let_def split: if_splits)

subsection \<open>Giving up\<close>

lemma timeout_inv:
  assumes ok: "mgr_ok g B (\<lambda>t. set (keys_of g t))" and t: "B t = Some (k, m, ev)" and run: "acquire_timeout t k m ev g = (res, g')"
  shows "mgr_ok g' (B(t := None)) (\<lambda>t. set (keys_of g' t))"
    and "w \<in> set (waiters_at g' j) \<longleftrightarrow> w \<in> set (waiters_at g j) \<and> w \<noteq> (m, t, ev)"
    and "holders_at g' j = holders_at g j" "lm_events g' = lm_events g"
proof -
  have g': "waiters_at g' j = (if j = k then remove1 (m, t, ev) (waiters_at g j) else waiters_at g j) \<and> holders_at g' j = holders_at g j" for j
    using run by (auto simp: acquire_timeout_def Let_def entry_at_def put_entry_def AList.update_conv' split: option.splits)
  have keys: "keys_of g' u = keys_of g u" for u
    using run by (auto simp: acquire_timeout_def Let_def put_entry_def keys_of_def split: option.splits)
  have wg: "lm_wait_for g' = AList.delete t (lm_wait_for g)"
    using run by (auto simp: acquire_timeout_def Let_def put_entry_def split: option.splits)
  have w: "w \<in> set (waiters_at g' j) \<longleftrightarrow> w \<in> set (waiters_at g j) \<and> w \<noteq> (m, t, ev)" for w j
  proof (cases "j = k")
    case True
    then show ?thesis using g' [of j] mgr_okD(6) [OF ok, of j] by auto
  next
    case False
    then have "(m, t, ev) \<notin> set (waiters_at g j)" using mgr_okD(3) [OF ok, of m t ev j] t by auto
    then show ?thesis using g' [of j] False by auto
  qed
  show "w \<in> set (waiters_at g' j) \<longleftrightarrow> w \<in> set (waiters_at g j) \<and> w \<noteq> (m, t, ev)" by (rule w)
  show "holders_at g' j = holders_at g j" using g' by simp
  show "lm_events g' = lm_events g"
    using run by (auto simp: acquire_timeout_def Let_def put_entry_def split: option.splits)
  show "mgr_ok g' (B(t := None)) (\<lambda>t. set (keys_of g' t))"
  proof (rule mgr_okI)
    show "holders_ok (holders_at g' j)" for j using g' mgr_okD(1) [OF ok] by simp
    show "j \<in> set (keys_of g' u)" if "(u, m') \<in> set (holders_at g' j)" for j u m'
      using that g' keys mgr_okD(2) [OF ok, of u m' j] by simp
    show "(B(t := None)) u = Some (j, m', ev') \<and> j \<in> set (keys_of g' u)" if "(m', u, ev') \<in> set (waiters_at g' j)" for j m' u ev'
    proof -
      have q: "(m', u, ev') \<in> set (waiters_at g j)" "(m', u, ev') \<noteq> (m, t, ev)" using that w by blast+
      then have "u \<noteq> t" using mgr_okD(3) [OF ok q(1)] t by auto
      then show ?thesis using mgr_okD(3,4) [OF ok q(1)] keys by simp
    qed
    show "distinct (waiters_at g' j)" for j using g' [of j] mgr_okD(6) [OF ok, of j] by auto
    show "acyclic (edges (lm_wait_for g'))" unfolding wg by (rule acyclic_delete [OF mgr_okD(5) [OF ok]])
  qed
qed

subsection \<open>The protocol's invariant\<close>

text \<open>
  \<open>calls_ok\<close>: events are fresh and belong to one call each; a blocked call is queued and its event
  is not signalled, or it has its lock and the event is set or about to be.
\<close>

abbreviation signalled :: "lock_system \<Rightarrow> nat set" where
  "signalled s \<equiv> set (ls_set s) \<union> set (ls_pending s)"

definition calls_ok :: "lock_system \<Rightarrow> bool" where
  "calls_ok s \<longleftrightarrow> (\<forall>ev \<in> signalled s. ev < lm_events (ls_mgr s)) \<and>
     (\<forall>t k m ev. map_of (ls_blocked s) t = Some (k, m, ev) \<longrightarrow>
        ev < lm_events (ls_mgr s) \<and>
        (\<forall>t' k' m'. map_of (ls_blocked s) t' = Some (k', m', ev) \<longrightarrow> t' = t) \<and>
        (if (m, t, ev) \<in> set (waiters_at (ls_mgr s) k) then ev \<notin> signalled s
         else map_of (holders_at (ls_mgr s) k) t = Some m \<and> ev \<in> signalled s))"

definition lock_ok :: "lock_system \<Rightarrow> bool" where
  "lock_ok s \<longleftrightarrow> mgr_ok (ls_mgr s) (map_of (ls_blocked s)) (\<lambda>t. set (keys_of (ls_mgr s) t)) \<and> calls_ok s"

lemma calls_okI:
  assumes "\<And>ev. ev \<in> signalled s \<Longrightarrow> ev < lm_events (ls_mgr s)"
    and "\<And>t k m ev. map_of (ls_blocked s) t = Some (k, m, ev) \<Longrightarrow> ev < lm_events (ls_mgr s)"
    and "\<And>t k m ev t' k' m'. map_of (ls_blocked s) t = Some (k, m, ev) \<Longrightarrow> map_of (ls_blocked s) t' = Some (k', m', ev) \<Longrightarrow> t' = t"
    and "\<And>t k m ev. map_of (ls_blocked s) t = Some (k, m, ev) \<Longrightarrow> (m, t, ev) \<in> set (waiters_at (ls_mgr s) k) \<Longrightarrow> ev \<notin> signalled s"
    and "\<And>t k m ev. map_of (ls_blocked s) t = Some (k, m, ev) \<Longrightarrow> (m, t, ev) \<notin> set (waiters_at (ls_mgr s) k) \<Longrightarrow>
        map_of (holders_at (ls_mgr s) k) t = Some m \<and> ev \<in> signalled s"
  shows "calls_ok s"
  unfolding calls_ok_def using assms by (auto simp del: Un_iff)

lemma calls_okD:
  assumes "calls_ok s"
  shows "ev \<in> signalled s \<Longrightarrow> ev < lm_events (ls_mgr s)"
    and "map_of (ls_blocked s) t = Some (k, m, ev) \<Longrightarrow> ev < lm_events (ls_mgr s)"
    and "map_of (ls_blocked s) t = Some (k, m, ev) \<Longrightarrow> map_of (ls_blocked s) t' = Some (k', m', ev) \<Longrightarrow> t' = t"
    and "map_of (ls_blocked s) t = Some (k, m, ev) \<Longrightarrow> (m, t, ev) \<in> set (waiters_at (ls_mgr s) k) \<Longrightarrow> ev \<notin> signalled s"
    and "map_of (ls_blocked s) t = Some (k, m, ev) \<Longrightarrow> (m, t, ev) \<notin> set (waiters_at (ls_mgr s) k) \<Longrightarrow>
        map_of (holders_at (ls_mgr s) k) t = Some m \<and> ev \<in> signalled s"
  using assms unfolding calls_ok_def by (meson)+

lemma blocked_simps [simp]:
  "map_of (AList.update t v bl) u = (if u = t then Some v else map_of bl u)"
  "map_of (AList.delete t bl) u = (if u = t then None else map_of bl u)"
  by (simp_all add: AList.update_conv' AList.delete_conv')

lemma calls_ok_drop:
  assumes cok: "calls_ok s" and B: "map_of (ls_blocked s') = (map_of (ls_blocked s))(t := None)" and sig: "signalled s' = signalled s"
    and n: "lm_events (ls_mgr s') = lm_events (ls_mgr s)"
    and w: "\<And>m u ev j. u \<noteq> t \<Longrightarrow> (m, u, ev) \<in> set (waiters_at (ls_mgr s') j) \<longleftrightarrow> (m, u, ev) \<in> set (waiters_at (ls_mgr s) j)"
    and h: "\<And>j. holders_at (ls_mgr s') j = holders_at (ls_mgr s) j"
  shows "calls_ok s'"
proof -
  have b: "map_of (ls_blocked s) u = Some v" "u \<noteq> t" if "map_of (ls_blocked s') u = Some v" for u v
    using that by (auto simp: B split: if_splits)
  show ?thesis
  proof (rule calls_okI)
    show "ev < lm_events (ls_mgr s')" if "ev \<in> signalled s'" for ev
      using calls_okD(1) [OF cok, of ev] that unfolding sig n by blast
    show "ev < lm_events (ls_mgr s')" if "map_of (ls_blocked s') u = Some (j, m, ev)" for u j m ev
      using calls_okD(2) [OF cok b(1) [OF that]] unfolding n .
    show "u' = u" if "map_of (ls_blocked s') u = Some (j, m, ev)" "map_of (ls_blocked s') u' = Some (j', m', ev)" for u j m ev u' j' m'
      by (rule calls_okD(3) [OF cok b(1) [OF that(1)] b(1) [OF that(2)]])
    show "ev \<notin> signalled s'" if "map_of (ls_blocked s') u = Some (j, m, ev)" "(m, u, ev) \<in> set (waiters_at (ls_mgr s') j)" for u j m ev
      using calls_okD(4) [OF cok b(1) [OF that(1)]] w [OF b(2) [OF that(1)]] that(2) unfolding sig by blast
    show "map_of (holders_at (ls_mgr s') j) u = Some m \<and> ev \<in> signalled s'"
      if "map_of (ls_blocked s') u = Some (j, m, ev)" "(m, u, ev) \<notin> set (waiters_at (ls_mgr s') j)" for u j m ev
      using calls_okD(5) [OF cok b(1) [OF that(1)]] w [OF b(2) [OF that(1)]] that(2) unfolding sig h by blast
  qed
qed

lemma acquire_step_ok:
  assumes ok: "lock_ok s" and st: "lock_step (Acquire t k m) s = Some s'"
  shows "lock_ok s'" "heads_wait (ls_mgr s) \<Longrightarrow> heads_wait (ls_mgr s')"
proof -
  have mok: "mgr_ok (ls_mgr s) (map_of (ls_blocked s)) (\<lambda>t. set (keys_of (ls_mgr s) t))" and cok: "calls_ok s"
    using ok by (simp_all add: lock_ok_def)
  have t: "map_of (ls_blocked s) t = None" using st by (cases "map_of (ls_blocked s) t") simp_all
  obtain res g' where run: "acquire_try t k m (ls_mgr s) = (res, g')" by (cases "acquire_try t k m (ls_mgr s)")
  note inv = acquire_inv [OF mok t run]
  note evs = acquire_events [OF run]
  have s': "s' = s\<lparr>ls_mgr := g', ls_blocked := (case res of Inr (Blocked ev) \<Rightarrow> AList.update t (k, m, ev) (ls_blocked s) | _ \<Rightarrow> ls_blocked s)\<rparr>"
    using st t run by (auto split: if_splits sum.splits acquired.splits)
  have B: "map_of (ls_blocked s') = (case res of Inr (Blocked ev) \<Rightarrow> (map_of (ls_blocked s))(t \<mapsto> (k, m, ev)) | _ \<Rightarrow> map_of (ls_blocked s))"
    by (auto simp: s' fun_eq_iff split: sum.splits acquired.splits)
  have sig: "signalled s' = signalled s" by (simp add: s')
  have mgr: "ls_mgr s' = g'" by (simp add: s')
  show "heads_wait (ls_mgr s')" if "heads_wait (ls_mgr s)" using inv(2) that by (simp add: mgr)
  have le: "lm_events (ls_mgr s) \<le> lm_events g'" using evs by (auto split: sum.splits acquired.splits)
  have cases_B: "map_of (ls_blocked s) u = Some (j, m', ev) \<and> u \<noteq> t \<or>
      u = t \<and> j = k \<and> m' = m \<and> res = Inr (Blocked ev) \<and> ev = lm_events (ls_mgr s)"
    if "map_of (ls_blocked s') u = Some (j, m', ev)" for u j m' ev
    using that t evs unfolding B by (auto split: sum.splits acquired.splits if_splits)
  have "calls_ok s'"
  proof (rule calls_okI)
    show "ev < lm_events (ls_mgr s')" if "ev \<in> signalled s'" for ev
      using calls_okD(1) [OF cok, of ev] that le unfolding sig mgr by linarith
    show "ev < lm_events (ls_mgr s')" if "map_of (ls_blocked s') u = Some (j, m', ev)" for u j m' ev
      using cases_B [OF that] calls_okD(2) [OF cok, of u j m' ev] le evs unfolding mgr by auto
    show "u' = u" if "map_of (ls_blocked s') u = Some (j, m', ev)" "map_of (ls_blocked s') u' = Some (j', m'', ev)" for u j m' ev u' j' m''
      using cases_B [OF that(1)] cases_B [OF that(2)] calls_okD(2,3) [OF cok] by blast
    show "ev \<notin> signalled s'" if "map_of (ls_blocked s') u = Some (j, m', ev)" "(m', u, ev) \<in> set (waiters_at (ls_mgr s') j)" for u j m' ev
      using cases_B [OF that(1)]
    proof
      assume b: "map_of (ls_blocked s) u = Some (j, m', ev) \<and> u \<noteq> t"
      then have "(m', u, ev) \<in> set (waiters_at (ls_mgr s) j)" using that(2) inv(3) unfolding mgr by auto
      then show ?thesis using calls_okD(4) [OF cok] b unfolding sig by blast
    next
      assume "u = t \<and> j = k \<and> m' = m \<and> res = Inr (Blocked ev) \<and> ev = lm_events (ls_mgr s)"
      then show ?thesis using calls_okD(1) [OF cok, of ev] unfolding sig by auto
    qed
    show "map_of (holders_at (ls_mgr s') j) u = Some m' \<and> ev \<in> signalled s'"
      if "map_of (ls_blocked s') u = Some (j, m', ev)" "(m', u, ev) \<notin> set (waiters_at (ls_mgr s') j)" for u j m' ev
    proof -
      have b: "map_of (ls_blocked s) u = Some (j, m', ev)" "u \<noteq> t" using cases_B [OF that(1)] that(2) inv(3) unfolding mgr by auto
      moreover have "(m', u, ev) \<notin> set (waiters_at (ls_mgr s) j)" using that(2) inv(3) unfolding mgr by blast
      ultimately show ?thesis using calls_okD(5) [OF cok b(1)] inv(4) [OF b(2)] unfolding sig mgr by simp
    qed
  qed
  then show "lock_ok s'" using inv(1) by (simp add: lock_ok_def B mgr)
qed

lemma release_step_ok:
  assumes ok: "lock_ok s" and st: "lock_step (Release t) s = Some s'"
  shows "lock_ok s'" "heads_wait (ls_mgr s) \<Longrightarrow> heads_wait (ls_mgr s')" "(t, m) \<notin> set (holders_at (ls_mgr s') k)"
proof -
  have mok: "mgr_ok (ls_mgr s) (map_of (ls_blocked s)) (\<lambda>t. set (keys_of (ls_mgr s) t))" and cok: "calls_ok s"
    using ok by (simp_all add: lock_ok_def)
  have t: "map_of (ls_blocked s) t = None" using st by (cases "map_of (ls_blocked s) t") simp_all
  obtain res g' where run: "release_all t (ls_mgr s) = (res, g')" by (cases "release_all t (ls_mgr s)")
  obtain evs where inv: "res = Inr evs" "mgr_ok g' (map_of (ls_blocked s)) (\<lambda>t. set (keys_of g' t))"
    "heads_wait (ls_mgr s) \<longrightarrow> heads_wait g'" "\<And>j m. (t, m) \<notin> set (holders_at g' j)" "serves t (ls_mgr s) g' evs"
    "lm_events g' = lm_events (ls_mgr s)"
    by (rule release_all_inv [OF mok t run]) (rule that)
  have s': "s' = s\<lparr>ls_mgr := g', ls_pending := ls_pending s @ evs\<rparr>" using st t run inv(1) by simp
  have v: "ls_mgr s' = g'" "ls_blocked s' = ls_blocked s" "signalled s' = signalled s \<union> set evs" by (auto simp: s')
  show "heads_wait (ls_mgr s')" if "heads_wait (ls_mgr s)" using inv(3) that by (simp add: v)
  show "(t, m) \<notin> set (holders_at (ls_mgr s') k)" using inv(4) by (simp add: v)
  note sv = servesD [OF inv(5)]
  have new: "\<exists>j m u. map_of (ls_blocked s) u = Some (j, m, ev) \<and> (m, u, ev) \<in> set (waiters_at (ls_mgr s) j) \<and> (m, u, ev) \<notin> set (waiters_at g' j)"
    if "ev \<in> set evs" for ev
    using sv(3) [OF that] mgr_okD(3) [OF mok] by blast
  have "calls_ok s'"
  proof (rule calls_okI)
    show "ev < lm_events (ls_mgr s')" if "ev \<in> signalled s'" for ev
      using that calls_okD(1,2) [OF cok] new [of ev] unfolding v inv(6) by blast
    show "ev < lm_events (ls_mgr s')" if "map_of (ls_blocked s') u = Some (j, m', ev)" for u j m' ev
      using that calls_okD(2) [OF cok] unfolding v inv(6) by blast
    show "u' = u" if "map_of (ls_blocked s') u = Some (j, m', ev)" "map_of (ls_blocked s') u' = Some (j', m'', ev)" for u j m' ev u' j' m''
      using that calls_okD(3) [OF cok] unfolding v by blast
    show "ev \<notin> signalled s'" if "map_of (ls_blocked s') u = Some (j, m', ev)" "(m', u, ev) \<in> set (waiters_at (ls_mgr s') j)" for u j m' ev
    proof -
      have b: "map_of (ls_blocked s) u = Some (j, m', ev)" "(m', u, ev) \<in> set (waiters_at g' j)" using that by (simp_all add: v)
      have "ev \<notin> set evs"
      proof
        assume "ev \<in> set evs"
        then obtain j2 m2 u2 where n: "map_of (ls_blocked s) u2 = Some (j2, m2, ev)" "(m2, u2, ev) \<notin> set (waiters_at g' j2)"
          using new by blast
        have "u2 = u" by (rule calls_okD(3) [OF cok b(1) n(1)])
        then show False using n b by simp
      qed
      then show ?thesis using calls_okD(4) [OF cok b(1) sv(1) [OF b(2)]] unfolding v by blast
    qed
    show "map_of (holders_at (ls_mgr s') j) u = Some m' \<and> ev \<in> signalled s'"
      if "map_of (ls_blocked s') u = Some (j, m', ev)" "(m', u, ev) \<notin> set (waiters_at (ls_mgr s') j)" for u j m' ev
    proof -
      have b: "map_of (ls_blocked s) u = Some (j, m', ev)" "(m', u, ev) \<notin> set (waiters_at g' j)" using that by (simp_all add: v)
      show ?thesis
      proof (cases "(m', u, ev) \<in> set (waiters_at (ls_mgr s) j)")
        case True
        then show ?thesis using sv(2) [OF True b(2)] unfolding v by blast
      next
        case False
        have "m2 = m' \<and> ev2 = ev" if "(m2, u, ev2) \<in> set (waiters_at (ls_mgr s) j)" for m2 ev2
          using mgr_okD(3) [OF mok that] b(1) by simp
        then have "u \<notin> fst ` snd ` set (waiters_at (ls_mgr s) j)" using False by (auto simp: image_iff)
        moreover have "u \<noteq> t" using b(1) t by auto
        ultimately show ?thesis using sv(4) [of u j] calls_okD(5) [OF cok b(1) False] unfolding v by simp
      qed
    qed
  qed
  then show "lock_ok s'" using inv(2) by (simp add: lock_ok_def v)
qed

lemma set_step_ok:
  assumes ok: "lock_ok s" and st: "lock_step SetEvents s = Some s'"
  shows "lock_ok s'" "ls_mgr s' = ls_mgr s"
proof -
  have v: "ls_mgr s' = ls_mgr s" "ls_blocked s' = ls_blocked s" "signalled s' = signalled s" using st by auto
  show "lock_ok s'" using ok unfolding lock_ok_def calls_ok_def v .
  show "ls_mgr s' = ls_mgr s" by (rule v(1))
qed

text \<open>A call that returns without an exception has its lock.\<close>

lemma wake_step_ok:
  assumes ok: "lock_ok s" and st: "lock_step (Wake t) s = Some s'"
  shows "lock_ok s'" "ls_mgr s' = ls_mgr s"
    and "map_of (ls_blocked s) t = Some (k, m, ev) \<Longrightarrow> map_of (holders_at (ls_mgr s') k) t = Some m"
proof -
  have mok: "mgr_ok (ls_mgr s) (map_of (ls_blocked s)) (\<lambda>t. set (keys_of (ls_mgr s) t))" and cok: "calls_ok s"
    using ok by (simp_all add: lock_ok_def)
  obtain k0 m0 ev0 where t: "map_of (ls_blocked s) t = Some (k0, m0, ev0)" "ev0 \<in> set (ls_set s)"
    and s': "s' = s\<lparr>ls_blocked := AList.delete t (ls_blocked s)\<rparr>"
    using st by (auto split: option.splits if_splits)
  have nw: "(m0, t, ev0) \<notin> set (waiters_at (ls_mgr s) k0)" using calls_okD(4) [OF cok t(1)] t(2) by blast
  have v: "ls_mgr s' = ls_mgr s" "signalled s' = signalled s" by (simp_all add: s')
  show "map_of (ls_blocked s) t = Some (k, m, ev) \<Longrightarrow> map_of (holders_at (ls_mgr s') k) t = Some m"
    using calls_okD(5) [OF cok t(1) nw] t(1) by (simp add: v)
  have gone: "(m, t, ev) \<notin> set (waiters_at (ls_mgr s) j)" for m ev j using mgr_okD(3) [OF mok, of m t ev j] t(1) nw by auto
  have "mgr_ok (ls_mgr s') (map_of (ls_blocked s')) (\<lambda>t. set (keys_of (ls_mgr s') t))"
  proof (rule mgr_okI)
    show "map_of (ls_blocked s') u = Some (j, m, ev) \<and> j \<in> set (keys_of (ls_mgr s') u)" if "(m, u, ev) \<in> set (waiters_at (ls_mgr s') j)" for j m u ev
    proof -
      have w: "(m, u, ev) \<in> set (waiters_at (ls_mgr s) j)" using that by (simp add: v)
      then have "u \<noteq> t" using gone by blast
      then show ?thesis using mgr_okD(3,4) [OF mok w] by (simp add: s')
    qed
  qed (use mgr_okD [OF mok] in \<open>auto simp: v\<close>)
  moreover have "calls_ok s'"
    by (rule calls_ok_drop [OF cok, of s' t]) (use v in \<open>simp_all add: s' fun_eq_iff\<close>)
  ultimately show "lock_ok s'" by (simp add: lock_ok_def)
  show "ls_mgr s' = ls_mgr s" by (rule v(1))
qed

lemma give_up_step_ok:
  assumes ok: "lock_ok s" and st: "lock_step (GiveUp t) s = Some s'"
  shows "lock_ok s'"
proof -
  have mok: "mgr_ok (ls_mgr s) (map_of (ls_blocked s)) (\<lambda>t. set (keys_of (ls_mgr s) t))" and cok: "calls_ok s"
    using ok by (simp_all add: lock_ok_def)
  obtain k m ev where t: "map_of (ls_blocked s) t = Some (k, m, ev)"
    and s': "s' = s\<lparr>ls_mgr := snd (acquire_timeout t k m ev (ls_mgr s)), ls_blocked := AList.delete t (ls_blocked s)\<rparr>"
    using st by (auto split: option.splits if_splits)
  obtain res g' where run: "acquire_timeout t k m ev (ls_mgr s) = (res, g')" by (cases "acquire_timeout t k m ev (ls_mgr s)")
  note inv = timeout_inv [OF mok t run]
  have v: "ls_mgr s' = g'" "signalled s' = signalled s" "map_of (ls_blocked s') = (map_of (ls_blocked s))(t := None)"
    by (auto simp: s' run)
  have "calls_ok s'"
    by (rule calls_ok_drop [OF cok v(3,2)]) (use inv(2-4) in \<open>simp_all add: v\<close>)
  then show "lock_ok s'" using inv(1) by (simp add: lock_ok_def v)
qed

lemma lock_ok_init: "lock_ok ls_init"
  by (simp add: lock_ok_def ls_init_def lm_init_def mgr_ok_def entry_at_def keys_of_def holders_ok_def calls_ok_def edges_def out_edges_def acyclic_def trancl_empty)

lemma lock_reach_ok: "lock_reach gu s \<Longrightarrow> lock_ok s"
proof (induction rule: lock_reach.induct)
  case (step gu s a s')
  note st = step.hyps(2) and ok = step.IH
  show ?case
    by (cases a) (use st acquire_step_ok(1) [OF ok] release_step_ok(1) [OF ok] set_step_ok(1) [OF ok] wake_step_ok(1) [OF ok]
      give_up_step_ok [OF ok] in blast)+
qed (rule lock_ok_init)

lemma lock_reach_heads: "lock_reach gu s \<Longrightarrow> \<not> gu \<Longrightarrow> heads_wait (ls_mgr s)"
proof (induction rule: lock_reach.induct)
  case (init gu)
  show ?case by (simp add: heads_wait_def ls_init_def lm_init_def entry_at_def stuck_def)
next
  case (step gu s a s')
  have ok: "lock_ok s" and h: "heads_wait (ls_mgr s)" using lock_reach_ok [OF step.hyps(1)] step.IH step.prems by simp_all
  show ?case
  proof (cases a)
    case (Acquire t k m)
    then show ?thesis using acquire_step_ok(2) [OF ok _ h] step.hyps(2) by simp
  next
    case (Release t)
    then show ?thesis using release_step_ok(2) [OF ok _ h] step.hyps(2) by simp
  next
    case SetEvents
    then have "ls_mgr s' = ls_mgr s" using set_step_ok(2) [OF ok] step.hyps(2) by blast
    then show ?thesis using h by simp
  next
    case (Wake t)
    then have "ls_mgr s' = ls_mgr s" using wake_step_ok(2) [OF ok] step.hyps(2) by blast
    then show ?thesis using h by simp
  next
    case (GiveUp t)
    then show ?thesis using step.hyps(3) step.prems by simp
  qed
qed

text \<open>A request at the head of the queue stays there while the holders release, or it is granted.\<close>

lemma release_step_head:
  assumes ok: "lock_ok s" and st: "lock_step (Release u) s = Some s'" and w: "waiters_at (ls_mgr s) k = (m, t, ev) # ws"
  shows "waiters_at (ls_mgr s') k = (m, t, ev) # ws \<and> set (holders_at (ls_mgr s') k) \<subseteq> {(x, mx) \<in> set (holders_at (ls_mgr s) k). x \<noteq> u} \<or>
    (m, t, ev) \<notin> set (waiters_at (ls_mgr s') k)"
proof (cases "(m, t, ev) \<in> set (waiters_at (ls_mgr s') k)")
  case True
  have mok: "mgr_ok (ls_mgr s) (map_of (ls_blocked s)) (\<lambda>t. set (keys_of (ls_mgr s) t))" using ok by (simp add: lock_ok_def)
  have u: "map_of (ls_blocked s) u = None" using st by (cases "map_of (ls_blocked s) u") simp_all
  obtain res g' where run: "release_all u (ls_mgr s) = (res, g')" by (cases "release_all u (ls_mgr s)")
  obtain evs where inv: "res = Inr evs" "\<And>j m. (u, m) \<notin> set (holders_at g' j)" "serves u (ls_mgr s) g' evs"
    by (rule release_all_inv [OF mok u run]) (rule that)
  have g': "ls_mgr s' = g'" using st u run inv(1) by auto
  obtain granted where gr: "(m, t, ev) # ws = granted @ waiters_at g' k" using servesD(5) [OF inv(3), of k] w by auto
  have "granted = []"
  proof (cases granted)
    case (Cons x xs)
    then have "(m, t, ev) \<in> set ws" using gr True by (simp add: g')
    moreover have "(m, t, ev) \<notin> set ws" using mgr_okD(6) [OF mok, of k] by (simp add: w)
    ultimately show ?thesis by simp
  qed
  then have q: "waiters_at g' k = waiters_at (ls_mgr s) k" using gr w by simp
  have "set (holders_at g' k) \<subseteq> {(x, mx) \<in> set (holders_at (ls_mgr s) k). x \<noteq> u}"
    using servesD(6) [OF inv(3), of _ _ k] inv(2) unfolding q by auto
  then show ?thesis using q w by (simp add: g')
qed simp

lemma release_step_gone:
  assumes ok: "lock_ok s" and st: "lock_step (Release u) s = Some s'" and "w \<notin> set (waiters_at (ls_mgr s) k)"
  shows "w \<notin> set (waiters_at (ls_mgr s') k)"
proof -
  have mok: "mgr_ok (ls_mgr s) (map_of (ls_blocked s)) (\<lambda>t. set (keys_of (ls_mgr s) t))" using ok by (simp add: lock_ok_def)
  have u: "map_of (ls_blocked s) u = None" using st by (cases "map_of (ls_blocked s) u") simp_all
  obtain res g' where run: "release_all u (ls_mgr s) = (res, g')" by (cases "release_all u (ls_mgr s)")
  obtain evs where inv: "res = Inr evs" "serves u (ls_mgr s) g' evs" by (rule release_all_inv [OF mok u run]) (rule that)
  have "ls_mgr s' = g'" using st u run inv(1) by auto
  then show ?thesis using servesD(1) [OF inv(2)] assms(3) by blast
qed

lemma releases_run:
  assumes "lock_reach False s" "list_all (\<lambda>u. map_of (ls_blocked s) u = None) us"
  shows "\<exists>s'. run_acts (map Release us) s = Some s' \<and> lock_reach False s' \<and> ls_blocked s' = ls_blocked s \<and>
    (\<forall>m t ev ws. waiters_at (ls_mgr s) k = (m, t, ev) # ws \<longrightarrow>
       waiters_at (ls_mgr s') k = (m, t, ev) # ws \<and> set (holders_at (ls_mgr s') k) \<subseteq> {(x, mx) \<in> set (holders_at (ls_mgr s) k). x \<notin> set us} \<or>
       (m, t, ev) \<notin> set (waiters_at (ls_mgr s') k)) \<and>
    (\<forall>w. w \<notin> set (waiters_at (ls_mgr s) k) \<longrightarrow> w \<notin> set (waiters_at (ls_mgr s') k))"
  using assms
proof (induction us arbitrary: s)
  case Nil
  then show ?case by auto
next
  case (Cons u us)
  note ok = lock_reach_ok [OF Cons.prems(1)]
  have u: "map_of (ls_blocked s) u = None" using Cons.prems(2) by simp
  obtain s1 where st: "lock_step (Release u) s = Some s1" "ls_blocked s1 = ls_blocked s"
    using u by (cases "release_all u (ls_mgr s)"; cases "fst (release_all u (ls_mgr s))") auto
  have r1: "lock_reach False s1" by (rule lock_reach.step [OF Cons.prems(1) st(1)]) simp
  have nb: "list_all (\<lambda>u. map_of (ls_blocked s1) u = None) us" using Cons.prems(2) st(2) by simp
  obtain s' where IH: "run_acts (map Release us) s1 = Some s'" "lock_reach False s'" "ls_blocked s' = ls_blocked s1"
    "\<And>m t ev ws. waiters_at (ls_mgr s1) k = (m, t, ev) # ws \<Longrightarrow>
       waiters_at (ls_mgr s') k = (m, t, ev) # ws \<and> set (holders_at (ls_mgr s') k) \<subseteq> {(x, mx) \<in> set (holders_at (ls_mgr s1) k). x \<notin> set us} \<or>
       (m, t, ev) \<notin> set (waiters_at (ls_mgr s') k)"
    "\<And>w. w \<notin> set (waiters_at (ls_mgr s1) k) \<Longrightarrow> w \<notin> set (waiters_at (ls_mgr s') k)"
    using Cons.IH [OF r1 nb] by blast
  have head: "waiters_at (ls_mgr s') k = (m, t, ev) # ws \<and> set (holders_at (ls_mgr s') k) \<subseteq> {(x, mx) \<in> set (holders_at (ls_mgr s) k). x \<notin> set (u # us)} \<or>
       (m, t, ev) \<notin> set (waiters_at (ls_mgr s') k)" if w: "waiters_at (ls_mgr s) k = (m, t, ev) # ws" for m t ev ws
    using release_step_head [OF ok st(1) w]
  proof
    assume a: "waiters_at (ls_mgr s1) k = (m, t, ev) # ws \<and> set (holders_at (ls_mgr s1) k) \<subseteq> {(x, mx) \<in> set (holders_at (ls_mgr s) k). x \<noteq> u}"
    show ?thesis using IH(4) [OF conjunct1 [OF a]] conjunct2 [OF a] by auto
  qed (use IH(5) in blast)
  show ?case
    by (rule exI [of _ s']) (use st IH(1-3,5) head release_step_gone [OF ok st(1)] in simp)
qed

lemma run_acts_append: "run_acts (as @ bs) s = (case run_acts as s of None \<Rightarrow> None | Some s' \<Rightarrow> run_acts bs s')"
  by (induction as arbitrary: s) (auto split: option.splits)

lemma run_acts_from_init:
  "run_acts as ls_init = Some s \<Longrightarrow> list_all (\<lambda>a. gives_up a \<longrightarrow> gu) as \<Longrightarrow> lock_reach gu s"
  by (rule run_acts_reach [OF _ lock_reach.init])

end
