(* ===== verification/Lock_Protocol.thy ===== *)
theory Lock_Protocol
  imports Lock_Manager
begin

section \<open>What the lock manager guarantees\<close>

text \<open>
  The properties of every execution of the protocol of \<open>Lock_Manager\<close>: mutual exclusion, the acyclic wait-for graph,
  that a call that returns has its lock, and progress of the queues without time-outs; then three executions that
  show what the implementation does not guarantee.
\<close>

text \<open>Requests still waiting, holders and the signalled events of a state, for the concrete executions.\<close>

definition lock_view :: "int \<Rightarrow> lock_act list \<Rightarrow> ((nat \<times> lock_mode) list \<times> (lock_mode \<times> nat) list) option" where
  "lock_view k acts = map_option (\<lambda>s. (holders_at (ls_mgr s) k, map (\<lambda>(m, t, ev). (m, t)) (waiters_at (ls_mgr s) k))) (run_acts acts ls_init)"

text \<open>C28: Mutual exclusion: in every reachable state, with any interleaving of calls and time-outs, a transaction that
  holds a key exclusively is its only holder, and the wait-for graph has no cycle.\<close>

theorem lock_mutual_exclusion:
  assumes "lock_reach gu s"
  shows "((t, ModeX) \<in> set (holders_at (ls_mgr s) k) \<longrightarrow> holders_at (ls_mgr s) k = [(t, ModeX)]) \<and>
    acyclic (edges (lm_wait_for (ls_mgr s)))"
proof -
  have "mgr_ok (ls_mgr s) (map_of (ls_blocked s)) (\<lambda>t. set (keys_of (ls_mgr s) t))"
    using lock_reach_ok [OF assms] by (simp add: lock_ok_def)
  note D = mgr_okD [OF this]
  show ?thesis using D(1) [of k] D(5) by (simp add: holders_ok_def)
qed

definition two_waiting :: "lock_act list" where
  "two_waiting = [Acquire 1 7 ModeX, Acquire 2 7 ModeS, Acquire 3 7 ModeX]"

lemma two_waiting_reach: "lock_reach False (the (run_acts two_waiting ls_init))"
proof -
  have "run_acts two_waiting ls_init \<noteq> None" by code_simp
  then obtain s where s: "run_acts two_waiting ls_init = Some s" by blast
  show ?thesis unfolding s option.sel by (rule run_acts_from_init [OF s]) code_simp
qed

theorem lock_mutual_exclusion_witness:
  "holders_at (ls_mgr (the (run_acts two_waiting ls_init))) 7 = [(1, ModeX)]"
proof -
  have "(1, ModeX) \<in> set (holders_at (ls_mgr (the (run_acts two_waiting ls_init))) 7)" by code_simp
  then show ?thesis using lock_mutual_exclusion [OF two_waiting_reach, of 1 7] by blast
qed

text \<open>An \<^verbatim>\<open>acquire\<close> that returns has its lock: granted at once, the transaction holds the key in the requested mode
  or exclusively; woken from its wait, in the requested mode.\<close>

theorem acquire_returns_with_lock:
  assumes "lock_reach gu s" and "map_of (ls_blocked s) t = (if woken then Some (k, m, ev) else None)"
    and "lock_step (if woken then Wake t else Acquire t k m) s = Some s'" and "map_of (ls_blocked s') t = None"
    and "\<not> woken \<longrightarrow> fst (acquire_try t k m (ls_mgr s)) = Inr Granted"
  shows "map_of (holders_at (ls_mgr s') k) t = Some m \<or> map_of (holders_at (ls_mgr s') k) t = Some ModeX"
proof (cases woken)
  case True
  then show ?thesis using wake_step_ok(3) [OF lock_reach_ok [OF assms(1)], of t s' k m ev] assms(2,3) by simp
next
  case False
  then obtain g' where run: "acquire_try t k m (ls_mgr s) = (Inr Granted, g')" using assms(5) by (cases "acquire_try t k m (ls_mgr s)") auto
  then have s': "ls_mgr s' = g'" using assms(2,3) False by auto
  show ?thesis
    using run
  proof (cases rule: acquire_cases)
    case held
    then show ?thesis by (auto simp: s')
  next
    case granted
    then show ?thesis by (simp add: s' AList.update_conv')
  qed simp_all
qed

theorem acquire_returns_with_lock_witness:
  "let s = the (run_acts (two_waiting @ [Release 1, SetEvents]) ls_init) in
   map_of (holders_at (ls_mgr (the (lock_step (Wake 2) s))) 7) 2 \<in> {Some ModeS, Some ModeX}"
proof -
  let ?as = "two_waiting @ [Release 1, SetEvents]"
  let ?s = "the (run_acts ?as ls_init)"
  have "run_acts ?as ls_init \<noteq> None" by code_simp
  then obtain s where s: "run_acts ?as ls_init = Some s" by blast
  have r: "lock_reach False ?s" unfolding s option.sel by (rule run_acts_from_init [OF s]) code_simp
  have b: "map_of (ls_blocked ?s) 2 = (if True then Some (7, ModeS, 0) else None)" by code_simp
  have "lock_step (Wake 2) ?s \<noteq> None" by code_simp
  then have st: "lock_step (if True then Wake 2 else Acquire 2 7 ModeS) ?s = Some (the (lock_step (Wake 2) ?s))" by simp
  have n: "map_of (ls_blocked (the (lock_step (Wake 2) ?s))) 2 = None" by code_simp
  from acquire_returns_with_lock [OF r b st n] show ?thesis unfolding Let_def by blast
qed

text \<open>\<^verbatim>\<open>release_all\<close> leaves the transaction without any lock, in every reachable state.\<close>

theorem release_all_complete:
  assumes "lock_reach gu s" "lock_step (Release t) s = Some s'"
  shows "(t, m) \<notin> set (holders_at (ls_mgr s') k)"
  by (rule release_step_ok(3) [OF lock_reach_ok [OF assms(1)] assms(2)])

theorem release_all_complete_witness:
  "(1, ModeX) \<notin> set (holders_at (ls_mgr (the (lock_step (Release 1) (the (run_acts two_waiting ls_init))))) 7)"
proof -
  have "lock_step (Release 1) (the (run_acts two_waiting ls_init)) \<noteq> None" by code_simp
  then have "lock_step (Release 1) (the (run_acts two_waiting ls_init)) = Some (the (lock_step (Release 1) (the (run_acts two_waiting ls_init))))"
    by simp
  then show ?thesis by (rule release_all_complete [OF two_waiting_reach])
qed

text \<open>C30: \<^verbatim>\<open>acquire\<close> raises the deadlock error exactly if the lock cannot be granted and the edges to the key's other holders would
  put the transaction on a cycle of the wait-for graph: the depth-first search agrees with the transitive closure.\<close>

theorem deadlock_check_exact:
  "fst (acquire_try t k m g) = Inl DeadlockError \<longleftrightarrow>
     \<not> (map_of (holders_at g k) t = Some ModeX \<or> map_of (holders_at g k) t = Some ModeS \<and> m = ModeS) \<and>
     \<not> can_grant (holders_at g k) t m \<and>
     (t, t) \<in> (edges (AList.update t (filter (\<lambda>u. u \<noteq> t) (map fst (holders_at g k))) (lm_wait_for g)))\<^sup>+"
  unfolding has_cycle_iff [symmetric] by (simp add: acquire_try_def Let_def)

text \<open>C29: Progress without time-outs: if the request at the head of a queue is that of \<open>t\<close> and the other holders of the key, not
  blocked themselves, release their locks, then \<open>t\<close>'s event is set, and its call returns with the lock.\<close>

theorem head_waiter_gets_lock:
  assumes r: "lock_reach False s" and w: "waiters_at (ls_mgr s) k = (m, t, ev) # ws"
    and us: "\<forall>(u, mu) \<in> set (holders_at (ls_mgr s) k). u \<noteq> t \<longrightarrow> u \<in> set us"
    and nb: "list_all (\<lambda>u. map_of (ls_blocked s) u = None) us"
  shows "\<exists>s'. run_acts (map Release us @ [SetEvents, Wake t]) s = Some s' \<and>
    map_of (ls_blocked s') t = None \<and> map_of (holders_at (ls_mgr s') k) t = Some m"
proof -
  obtain s1 where s1: "run_acts (map Release us) s = Some s1" "lock_reach False s1" "ls_blocked s1 = ls_blocked s"
    "waiters_at (ls_mgr s1) k = (m, t, ev) # ws \<and> set (holders_at (ls_mgr s1) k) \<subseteq> {(x, mx) \<in> set (holders_at (ls_mgr s) k). x \<notin> set us} \<or>
       (m, t, ev) \<notin> set (waiters_at (ls_mgr s1) k)"
    using releases_run [OF r nb, of k] w by blast
  have ok: "lock_ok s1" by (rule lock_reach_ok [OF s1(2)])
  have "(m, t, ev) \<notin> set (waiters_at (ls_mgr s1) k)"
  proof
    assume "(m, t, ev) \<in> set (waiters_at (ls_mgr s1) k)"
    then have h: "waiters_at (ls_mgr s1) k = (m, t, ev) # ws"
      "set (holders_at (ls_mgr s1) k) \<subseteq> {(x, mx) \<in> set (holders_at (ls_mgr s) k). x \<notin> set us}" using s1(4) by blast+
    have "can_grant (holders_at (ls_mgr s1) k) t m" unfolding can_grant_iff using h(2) us by fastforce
    moreover have "stuck (holders_at (ls_mgr s1) k) (waiters_at (ls_mgr s1) k)"
      using lock_reach_heads [OF s1(2)] by (simp add: heads_wait_def)
    ultimately show False by (simp add: stuck_def h(1))
  qed
  moreover have b: "map_of (ls_blocked s1) t = Some (k, m, ev)"
  proof -
    have "mgr_ok (ls_mgr s) (map_of (ls_blocked s)) (\<lambda>t. set (keys_of (ls_mgr s) t))"
      using lock_reach_ok [OF r] by (simp add: lock_ok_def)
    then show ?thesis using mgr_okD(3) [of _ _ _ m t ev k] w s1(3) by simp
  qed
  moreover have "calls_ok s1" using ok by (simp add: lock_ok_def)
  ultimately have g: "map_of (holders_at (ls_mgr s1) k) t = Some m" "ev \<in> signalled s1" using calls_okD(5) by blast+
  then show ?thesis using s1(1) b by (auto simp: run_acts_append)
qed

theorem head_waiter_gets_lock_witness:
  "\<exists>s'. run_acts (map Release [1] @ [SetEvents, Wake 2]) (the (run_acts two_waiting ls_init)) = Some s' \<and>
    map_of (ls_blocked s') 2 = None \<and> map_of (holders_at (ls_mgr s') 7) 2 = Some ModeS"
proof -
  have w: "waiters_at (ls_mgr (the (run_acts two_waiting ls_init))) 7 = (ModeS, 2, 0) # [(ModeX, 3, 1)]" by code_simp
  have us: "\<forall>(u, mu) \<in> set (holders_at (ls_mgr (the (run_acts two_waiting ls_init))) 7). u \<noteq> 2 \<longrightarrow> u \<in> set [1]" by code_simp
  have nb: "list_all (\<lambda>u. map_of (ls_blocked (the (run_acts two_waiting ls_init))) u = None) [1]" by code_simp
  show ?thesis by (rule head_waiter_gets_lock [OF two_waiting_reach w us nb])
qed

text \<open>A time-out loses wake-ups: when the exclusive request at the head of the queue times out behind a shared holder, nobody advances the queue,
  and the shared request after it stays queued though it can be granted.\<close>

theorem timeout_leaves_grantable_waiter:
  "lock_view 7 (two_waiting @ [Acquire 4 7 ModeS, Release 1, SetEvents, Wake 2, GiveUp 3]) = Some ([(2, ModeS)], [(ModeS, 4)]) \<and>
   can_grant [(2, ModeS)] 4 ModeS"
  by code_simp

definition hidden_deadlock :: "lock_act list" where
  "hidden_deadlock = [Acquire 3 20 ModeX, Acquire 1 10 ModeX, Acquire 2 10 ModeX, Acquire 3 10 ModeX, Release 1, SetEvents, Wake 2, Acquire 2 20 ModeX]"

text \<open>A deadlock that the wait-for graph does not show: an edge leads to the holders at the time of the request only, so after the release by 1
  nothing records that 3 now waits for 2; 2 then waits for 3 and no error is raised.\<close>

theorem deadlock_undetected:
  "lock_view 10 hidden_deadlock = Some ([(2, ModeX)], [(ModeX, 3)]) \<and> lock_view 20 hidden_deadlock = Some ([(3, ModeX)], [(ModeX, 2)]) \<and>
   map_option (\<lambda>s. map fst (ls_blocked s)) (run_acts hidden_deadlock ls_init) = Some [3, 2]"
  by code_simp

text \<open>A new shared request overtakes a queued exclusive one: \<^verbatim>\<open>acquire\<close> looks at the holders only, so readers can starve a writer.\<close>

theorem shared_overtakes_exclusive:
  "lock_view 10 [Acquire 1 10 ModeS, Acquire 2 10 ModeX, Acquire 3 10 ModeS, Release 1, Acquire 1 10 ModeS, Release 3] =
     Some ([(1, ModeS)], [(ModeX, 2)])"
  by code_simp

end
