(* ===== verification/Cursor.thy ===== *)
theory Cursor
  imports Tree_Ops Record_Codec
begin

section \<open>The cursor (\<^verbatim>\<open>src/cursor.py\<close>)\<close>

text \<open>
  A cursor holds a reference to a leaf object and an index into its entries. Its methods act on
  the pair of the cursor and the tree. The loop of \<^verbatim>\<open>_advance\<close> is split into the steps inside one leaf
  (\<open>leaf_step\<close>) and the jump to the right sibling, which takes fuel like the tree's own loops.

  The specification is a zipper over the rows of the range: \<open>cursor_at\<close> relates the cursor to the rows before
  and after its position. Every navigation moves along the sorted list of the range
  (\<open>cursor_navigates\<close>), and a loop over the cursor yields all its rows (\<open>cursor_loop_rows\<close>).
\<close>

subsection \<open>Operations\<close>

record cursor =
  cu_start :: int
  cu_end :: int
  cu_leaf :: nat
  cu_idx :: nat
  cu_key :: "int option"
  cu_value :: "val list option"

type_synonym ('a, 'b) cursor_act = "(cursor \<times> 'a bplus_tree_scheme, 'b) act"

definition cur :: "(cursor \<Rightarrow> 'b) \<Rightarrow> ('a, 'b) cursor_act" where
  "cur f = gets (\<lambda>s. f (fst s))"

definition upd_cur :: "(cursor \<Rightarrow> cursor) \<Rightarrow> ('a, unit) cursor_act" where
  "upd_cur f = modify (\<lambda>s. (f (fst s), snd s))"

definition cur_tree :: "('a bplus_tree_scheme, 'b) act \<Rightarrow> ('a, 'b) cursor_act" where
  "cur_tree = on_part snd (\<lambda>t s. (fst s, t))"

fun first_ge :: "int \<Rightarrow> (int \<times> bytes) list \<Rightarrow> nat" where
  "first_ge start [] = 0"
| "first_ge start ((k, raw) # es) = (if k \<ge> start then 0 else Suc (first_ge start es))"

definition first_valid_idx :: "('a, nat) cursor_act" where
  "first_valid_idx =
     bnd (cur cu_leaf) (\<lambda>r. bnd (cur cu_start) (\<lambda>start.
     bnd (cur_tree (leaf_get r leaf_entries)) (\<lambda>es. ret (first_ge start es))))"

text \<open>The steps of \<^verbatim>\<open>_advance\<close> inside one leaf, from the entries at the index on.\<close>

datatype leaf_stop = AtEntry int bytes | PassedEnd | LeafDone

fun leaf_step :: "int \<Rightarrow> int \<Rightarrow> (int \<times> bytes) list \<Rightarrow> nat \<Rightarrow> nat \<times> leaf_stop" where
  "leaf_step start end_key [] idx = (idx, LeafDone)"
| "leaf_step start end_key ((k, raw) # es) idx =
     (if k > end_key then (idx, PassedEnd)
      else if k \<ge> start then (idx, AtEntry k raw)
      else leaf_step start end_key es (Suc idx))"

definition clear_cursor :: "('a, bool) cursor_act" where
  "clear_cursor = bnd (upd_cur (\<lambda>c. c\<lparr>cu_key := None, cu_value := None\<rparr>)) (\<lambda>_. ret False)"

definition set_current :: "int \<Rightarrow> bytes \<Rightarrow> ('a, bool) cursor_act" where
  "set_current k raw =
     bnd (upd_cur (\<lambda>c. c\<lparr>cu_key := Some k\<rparr>)) (\<lambda>_.
     bnd (lift_res (decode_record raw)) (\<lambda>row.
     bnd (upd_cur (\<lambda>c. c\<lparr>cu_value := Some row\<rparr>)) (\<lambda>_. ret True)))"

fun advance_cursor :: "nat \<Rightarrow> ('a, bool) cursor_act" where
  "advance_cursor 0 = throw NoReturn"
| "advance_cursor (Suc n) =
     bnd (cur (\<lambda>c. c)) (\<lambda>c.
     bnd (cur_tree (leaf_get (cu_leaf c) leaf_entries)) (\<lambda>es.
     case leaf_step (cu_start c) (cu_end c) (drop (cu_idx c) es) (cu_idx c) of
       (idx, stop) \<Rightarrow>
         bnd (upd_cur (\<lambda>c. c\<lparr>cu_idx := idx\<rparr>)) (\<lambda>_.
         case stop of
           PassedEnd \<Rightarrow> clear_cursor
         | AtEntry k raw \<Rightarrow> set_current k raw
         | LeafDone \<Rightarrow>
             bnd (cur_tree (as_leaf (cu_leaf c))) (\<lambda>leaf.
             case lf_next leaf of
               None \<Rightarrow> clear_cursor
             | Some nxt \<Rightarrow>
                 bnd (cur_tree (get_page nxt)) (\<lambda>r.
                 bnd (upd_cur (\<lambda>c. c\<lparr>cu_leaf := r, cu_idx := 0\<rparr>)) (\<lambda>_. advance_cursor n))))))"

definition advance :: "('a, bool) cursor_act" where
  "advance = bnd (cur_tree tree_fuel) advance_cursor"

definition cursor_reset :: "('a, bool) cursor_act" where
  "cursor_reset =
     bnd (cur cu_start) (\<lambda>start.
     bnd (cur_tree (find_leaf start)) (\<lambda>r.
     bnd (upd_cur (\<lambda>c. c\<lparr>cu_leaf := r\<rparr>)) (\<lambda>_.
     bnd first_valid_idx (\<lambda>i.
     bnd (upd_cur (\<lambda>c. c\<lparr>cu_idx := i\<rparr>)) (\<lambda>_. advance)))))"

text \<open>\<^verbatim>\<open>__init__\<close>: the fields before their first assignment are placeholders.\<close>

definition cursor_init :: "int \<Rightarrow> int \<Rightarrow> ('a bplus_tree_scheme, cursor) act" where
  "cursor_init start end_key t =
     (case bnd (cur_tree (find_leaf start)) (\<lambda>r.
           bnd (upd_cur (\<lambda>c. c\<lparr>cu_leaf := r\<rparr>)) (\<lambda>_.
           bnd first_valid_idx (\<lambda>i.
           bnd (upd_cur (\<lambda>c. c\<lparr>cu_idx := i, cu_key := None, cu_value := None\<rparr>)) (\<lambda>_. advance))))
         (\<lparr>cu_start = start, cu_end = end_key, cu_leaf = 0, cu_idx = 0, cu_key = None, cu_value = None\<rparr>, t) of
       (Inl e, (c, t')) \<Rightarrow> (Inl e, t')
     | (Inr _, (c, t')) \<Rightarrow> (Inr c, t'))"

definition cursor_next :: "('a, bool) cursor_act" where
  "cursor_next =
     bnd (cur cu_key) (\<lambda>key. case key of
       None \<Rightarrow> ret False
     | Some _ \<Rightarrow> bnd (upd_cur (\<lambda>c. c\<lparr>cu_idx := cu_idx c + 1\<rparr>)) (\<lambda>_. advance))"

fun find_idx :: "int \<Rightarrow> (int \<times> bytes) list \<Rightarrow> nat res" where
  "find_idx key [] = Inl StopIteration"
| "find_idx key ((k, raw) # es) = (if k = key then Inr 0 else bind_res (find_idx key es) (\<lambda>i. Inr (Suc i)))"

definition cursor_prev :: "('a, bool) cursor_act" where
  "cursor_prev =
     bnd (cur (\<lambda>c. c)) (\<lambda>c. case cu_key c of
       None \<Rightarrow> ret False
     | Some key \<Rightarrow>
         if key \<le> cu_start c then ret False
         else
           bnd (cur_tree (range_scan (cu_start c) (key - 1))) (\<lambda>before.
           if before = [] then ret False
           else case last before of (prev_key, prev_raw) \<Rightarrow>
             bnd (cur_tree (find_leaf prev_key)) (\<lambda>r.
             bnd (upd_cur (\<lambda>c. c\<lparr>cu_leaf := r\<rparr>)) (\<lambda>_.
             bnd (cur_tree (leaf_get r leaf_entries)) (\<lambda>entries.
             bnd (lift_res (find_idx prev_key entries)) (\<lambda>i.
             bnd (upd_cur (\<lambda>c. c\<lparr>cu_idx := i\<rparr>)) (\<lambda>_.
             set_current prev_key prev_raw)))))))"

text \<open>\<^verbatim>\<open>__next__\<close>: \<open>None\<close> when it raises \<^verbatim>\<open>StopIteration\<close>; a \<^verbatim>\<open>for\<close> loop over the cursor.\<close>

definition cursor_iter :: "('a, (int \<times> val list option) option) cursor_act" where
  "cursor_iter =
     bnd (cur (\<lambda>c. c)) (\<lambda>c. case cu_key c of
       None \<Rightarrow> ret None
     | Some k \<Rightarrow> bnd cursor_next (\<lambda>_. ret (Some (k, cu_value c))))"

fun cursor_loop :: "nat \<Rightarrow> ('a, (int \<times> val list option) list) cursor_act" where
  "cursor_loop 0 = throw NoReturn"
| "cursor_loop (Suc n) =
     bnd cursor_iter (\<lambda>x. case x of None \<Rightarrow> ret [] | Some row \<Rightarrow> bnd (cursor_loop n) (\<lambda>rows. ret (row # rows)))"

subsection \<open>Running the combinators\<close>

lemma runs_cur [runs_simps]:
  "runs (cur f) s Q \<longleftrightarrow> Q (f (fst s)) s"
  "runs (upd_cur g) s R \<longleftrightarrow> R () (g (fst s), snd s)"
  "runs (cur_tree m) s Q' \<longleftrightarrow> runs m (snd s) (\<lambda>x t. Q' x (fst s, t))"
  by (simp_all add: cur_def upd_cur_def cur_tree_def runs_simps)

subsection \<open>The leaves of a stored tree\<close>

lemma stores_leaf:
  assumes st: "stores s t n a b R" and l: "(p, es, nx) \<in> set (bt_leafs t)"
  obtains V where "holds s V n a b {}" "reps V t" "V p = Some (LN es nx)"
  using st reps_leafs [OF _ l] by (elim storesE) (rule that)

lemma stored_entries_law:
  assumes "stores s t n a b R" "(p, es, nx) \<in> set (bt_leafs t)" "cached s p = Some r" "Q es s"
  shows "runs (leaf_get r leaf_entries) s Q"
proof -
  obtain V where V: "holds s V n a b {}" "V p = Some (LN es nx)" by (rule stores_leaf [OF assms(1,2)])
  show ?thesis by (rule leaf_entries_law [OF V(1) assms(3) V(2)]) (rule assms(4))
qed

lemma stored_next_law:
  assumes "stores s t n a b R" "(p, es, nx) \<in> set (bt_leafs t)" "cached s p = Some r" "\<And>l. lf_next l = nx \<Longrightarrow> Q l s"
  shows "runs (as_leaf r) s Q"
proof -
  obtain V where V: "holds s V n a b {}" "V p = Some (LN es nx)" by (rule stores_leaf [OF assms(1,2)])
  show ?thesis by (rule as_leaf_law [OF V(1) assms(3) V(2)]) (rule assms(4))
qed

lemma stored_page_law:
  assumes st: "stores s t n a b R" and l: "(p, es, nx) \<in> set (bt_leafs t)"
    and Q: "\<And>r s'. step s s' \<Longrightarrow> stores s' t n a b R \<Longrightarrow> cached s' p = Some r \<Longrightarrow> Q r s'"
  shows "runs (get_page p) s Q"
proof -
  obtain V where V: "holds s V n a b {}" "reps V t" "V p = Some (LN es nx)" by (rule stores_leaf [OF st l])
  show ?thesis
    by (rule get_page_law [OF V(1,3)]) (rule Q, assumption, rule stores_step [OF st _ _ V(2)])
qed

lemma stored_find_leaf:
  assumes st: "stores s t n a b R"
    and Q: "\<And>r s' pre p es nx post. step s s' \<Longrightarrow> stores s' t n a b R \<Longrightarrow> bt_leafs t = pre @ (p, es, nx) # post \<Longrightarrow>
      cached s' p = Some r \<Longrightarrow> \<forall>x \<in> fst ` set (concat (map leaf_es pre)). x < key \<Longrightarrow>
      \<forall>x \<in> fst ` set (concat (map leaf_es post)). key < x \<Longrightarrow> Q r s'"
  shows "runs (find_leaf key) s Q"
proof -
  obtain V h where s: "bt_root_id s = bt_id t" "holds s V n a b {}" "reps V t"
    "bt_inv h (pg_order s) (root_min h) 0 KEY_END t" "h < n"
    using st by (elim storesE)
  have n: "pg_next_id s = n" using s(2) by (simp add: holds_def)
  obtain nd where nd: "V (bt_id t) = Some nd" using s(3) by (cases t) auto
  show ?thesis
    unfolding find_leaf_def tree_fuel_def runs_bnd runs_basic s(1) n
  proof (rule get_page_law [OF s(2) nd], goal_cases)
    case s1: (1 r s1)
    have "h < Suc n" using s(5) by simp
    then show ?case
    proof (rule find_leaf_law [OF s(4) _ s(3) s1(2,3)], goal_cases)
      case leaf: (1 r' s' p es nx)
      obtain pre post where split: "bt_leafs t = pre @ (p, es, nx) # post"
        "\<forall>x \<in> fst ` set (concat (map leaf_es pre)). x < key" "\<forall>x \<in> fst ` set (concat (map leaf_es post)). key < x"
        using bt_leaf_split [OF s(4), of key] leaf(3) by (elim exE conjE) (rule that, simp_all)
      have "step s s'" by (rule step_trans [OF s1(1) leaf(1)])
      then show ?case by (rule Q [OF _ stores_step [OF st _ leaf(2) s(3)] split(1) leaf(5) split(2,3)]) (rule step_trans [OF s1(1) leaf(1)])
    qed
  qed
qed

lemma stores_links: "stores s t n a b R \<Longrightarrow> links (map (\<lambda>(p, es, nx). (p, nx)) (bt_leafs t)) None"
  by (erule storesE) (simp add: bt_leaves_leafs)

lemma next_leaf:
  assumes "links (map (\<lambda>(p, es, nx). (p, nx)) (pre @ (p, es, nx) # post)) None"
  shows "nx = (case post of [] \<Rightarrow> None | (p', es', nx') # _ \<Rightarrow> Some p')"
  using assms by (auto simp: links_append split: list.splits)

lemma stores_fuel:
  assumes "stores s t n a b R"
  shows "length (bt_leafs t) \<le> n" "pg_next_id s = n"
proof -
  obtain V h where s: "holds s V n a b {}" "reps V t" "distinct (bt_pids t)" using assms by (elim storesE)
  have "set (bt_pids t) \<subseteq> {..<n}" using reps_pids_less [OF s(1,2)] by auto
  then have "card (set (bt_pids t)) \<le> n" using card_mono [of "{..<n}"] by fastforce
  then show "length (bt_leafs t) \<le> n" using s(3) length_leafs [of t] by (simp add: distinct_card)
  show "pg_next_id s = n" using s(1) by (simp add: holds_def)
qed

subsection \<open>The position of a cursor\<close>

text \<open>
  \<open>cursor_at c s t before rest\<close>: the rows of the range are \<open>before @ rest\<close>, and the cursor is at the first one of \<open>rest\<close>, with its
  leaf object still the one the pager caches; with \<open>rest\<close> empty the cursor is exhausted.
\<close>

fun cursor_at :: "cursor \<Rightarrow> 'a bplus_tree_scheme \<Rightarrow> bt \<Rightarrow> (int \<times> bytes) list \<Rightarrow> (int \<times> bytes) list \<Rightarrow> bool" where
  "cursor_at c s t before [] \<longleftrightarrow> cu_key c = None \<and> cu_value c = None"
| "cursor_at c s t before (e # after) \<longleftrightarrow>
     (\<exists>pre p es1 es2 nx post. bt_leafs t = pre @ (p, es1 @ e # es2, nx) # post \<and> cached s p = Some (cu_leaf c) \<and> cu_idx c = length es1 \<and>
       before = range_sorted (cu_start c) (cu_end c) (concat (map leaf_es pre) @ es1) \<and>
       after = range_sorted (cu_start c) (cu_end c) (es2 @ concat (map leaf_es post))) \<and>
     cu_start c \<le> fst e \<and> fst e \<le> cu_end c \<and> cu_key c = Some (fst e) \<and>
     (\<exists>row. decode_record (snd e) = Inr row \<and> cu_value c = Some row)"

lemma cursor_at_step: "cursor_at c s t before rest \<Longrightarrow> step s s' \<Longrightarrow> cursor_at c s' t before rest"
proof (cases rest)
  case (Cons e after)
  assume at: "cursor_at c s t before rest" and st: "step s s'"
  show ?thesis
    using at unfolding Cons cursor_at.simps by (elim conjE exE, intro conjI) (use step_cached [OF st] in blast)+
qed simp

definition decodable :: "(int \<times> bytes) list \<Rightarrow> bool" where
  "decodable es \<longleftrightarrow> (\<forall>(k, v) \<in> set es. \<exists>row. decode_record v = Inr row)"

lemma leaf_step_cases:
  assumes "keys_sorted es"
  shows "(case leaf_step lo hi es idx of
      (idx', AtEntry k raw) \<Rightarrow> \<exists>xs ys. es = xs @ (k, raw) # ys \<and> idx' = idx + length xs \<and> lo \<le> k \<and> k \<le> hi \<and> range_sorted lo hi xs = []
    | (idx', PassedEnd) \<Rightarrow> range_sorted lo hi es = [] \<and> (\<exists>x \<in> fst ` set es. hi < x)
    | (idx', LeafDone) \<Rightarrow> range_sorted lo hi es = [])"
  using assms
proof (induction lo hi es idx rule: leaf_step.induct)
  case (1 lo hi idx)
  then show ?case by (simp add: range_sorted_def)
next
  case (2 lo hi k raw es idx)
  have srt: "keys_sorted es" using "2.prems" by simp
  consider "hi < k" | "k \<le> hi" "lo \<le> k" | "k \<le> hi" "k < lo" by linarith
  then show ?case
  proof cases
    case 1
    then have "range_sorted lo hi ((k, raw) # es) = []" using "2.prems" by (intro range_sorted_above) auto
    then show ?thesis using 1 by simp
  next
    case 2
    then show ?thesis by (auto intro!: exI [of _ "[]"] simp: range_sorted_def)
  next
    case 3
    have skip: "range_sorted lo hi ((k, raw) # xs) = range_sorted lo hi xs" for xs using 3 by (simp add: range_sorted_def)
    have run: "leaf_step lo hi ((k, raw) # es) idx = leaf_step lo hi es (Suc idx)" using 3 by simp
    obtain idx' stop where st: "leaf_step lo hi es (Suc idx) = (idx', stop)" by (cases "leaf_step lo hi es (Suc idx)")
    have IH: "case (idx', stop) of
      (idx', AtEntry k raw) \<Rightarrow> \<exists>xs ys. es = xs @ (k, raw) # ys \<and> idx' = Suc idx + length xs \<and> lo \<le> k \<and> k \<le> hi \<and> range_sorted lo hi xs = []
    | (idx', PassedEnd) \<Rightarrow> range_sorted lo hi es = [] \<and> (\<exists>x \<in> fst ` set es. hi < x)
    | (idx', LeafDone) \<Rightarrow> range_sorted lo hi es = []"
      using "2.IH" [OF _ _ srt] 3 unfolding st by simp
    show ?thesis
    proof (cases stop)
      case (AtEntry k' raw')
      then obtain xs ys where x: "es = xs @ (k', raw') # ys" "idx' = Suc idx + length xs" "lo \<le> k'" "k' \<le> hi" "range_sorted lo hi xs = []"
        using IH by auto
      then show ?thesis unfolding run st AtEntry prod.case leaf_stop.case
        by (intro exI [of _ "(k, raw) # xs"] exI [of _ ys]) (simp add: skip)
    qed (use IH in \<open>simp_all add: run st skip\<close>)
  qed
qed

lemma set_current_law:
  assumes "decode_record raw = Inr row" "Q True (c\<lparr>cu_key := Some k, cu_value := Some row\<rparr>, s)"
  shows "runs (set_current k raw) (c, s) Q"
  using assms unfolding set_current_def runs_bnd runs_cur by (simp add: runs_basic)

lemma clear_cursor_law:
  "Q False (c\<lparr>cu_key := None, cu_value := None\<rparr>, s) \<Longrightarrow> runs clear_cursor (c, s) Q"
  unfolding clear_cursor_def runs_bnd runs_cur runs_basic by simp

definition cursor_post :: "cursor \<Rightarrow> 'a bplus_tree_scheme \<Rightarrow> bt \<Rightarrow> (int \<times> bytes) list \<Rightarrow> (int \<times> bytes) list \<Rightarrow> cursor \<Rightarrow> 'a bplus_tree_scheme \<Rightarrow> bool" where
  "cursor_post c s t before rest c' s' \<longleftrightarrow> step s s' \<and> cu_start c' = cu_start c \<and> cu_end c' = cu_end c \<and> cursor_at c' s' t before rest"

lemma advance_law:
  assumes "stores s t n a b R" "decodable (bt_es t)" "bt_leafs t = pre @ (p, es1 @ es2, nx) # post"
    and "cached s p = Some (cu_leaf c)" "cu_idx c = length es1" "length post < fuel"
  shows "runs (advance_cursor fuel) (c, s) (\<lambda>found cs.
    found = (range_sorted (cu_start c) (cu_end c) (es2 @ concat (map leaf_es post)) \<noteq> []) \<and> stores (snd cs) t n a b R \<and>
    cursor_post c s t (range_sorted (cu_start c) (cu_end c) (concat (map leaf_es pre) @ es1))
      (range_sorted (cu_start c) (cu_end c) (es2 @ concat (map leaf_es post))) (fst cs) (snd cs))"
  using assms
proof (induction fuel arbitrary: pre p es1 es2 nx post c s)
  case (Suc fuel)
  let ?lo = "cu_start c" and ?hi = "cu_end c"
  have l: "(p, es1 @ es2, nx) \<in> set (bt_leafs t)" by (simp add: Suc.prems(3))
  have es: "bt_es t = (concat (map leaf_es pre) @ es1) @ es2 @ concat (map leaf_es post)" by (simp add: bt_es_leafs Suc.prems(3))
  have srt: "keys_sorted (es2 @ concat (map leaf_es post))"
    using stores_sorted [OF Suc.prems(1)] unfolding es by (rule keys_sorted_append [THEN iffD1, THEN conjunct2, THEN conjunct1])
  then have srt2: "keys_sorted es2" by (simp add: keys_sorted_append)
  obtain idx stop where ls: "leaf_step ?lo ?hi es2 (cu_idx c) = (idx, stop)" by (cases "leaf_step ?lo ?hi es2 (cu_idx c)")
  note cs = leaf_step_cases [OF srt2, where lo = ?lo and hi = ?hi and idx = "cu_idx c", unfolded ls prod.case]
  have drop: "drop (cu_idx c) (es1 @ es2) = es2" by (simp add: Suc.prems(5))
  let ?R = "range_sorted ?lo ?hi" and ?A = "concat (map leaf_es pre)" and ?B = "concat (map leaf_es post)"
  let ?Q = "\<lambda>found cs. found = (?R (es2 @ ?B) \<noteq> []) \<and> stores (snd cs) t n a b R \<and>
    cursor_post c s t (?R (?A @ es1)) (?R (es2 @ ?B)) (fst cs) (snd cs)"
  show ?case
    unfolding advance_cursor.simps runs_bnd [of "cur f" for f] runs_cur fst_conv runs_bnd [of "cur_tree (leaf_get r f)" for r f] snd_conv
  proof (rule stored_entries_law [OF Suc.prems(1) l Suc.prems(4)], unfold drop ls prod.case runs_bnd [of "upd_cur f" for f] runs_cur fst_conv snd_conv)
    let ?c = "c\<lparr>cu_idx := idx\<rparr>"
    have finished: "?Q False (?c\<lparr>cu_key := None, cu_value := None\<rparr>, s)" if "?R (es2 @ ?B) = []"
      using that Suc.prems(1) by (simp add: cursor_post_def)
    show "runs (case stop of AtEntry k raw \<Rightarrow> set_current k raw | PassedEnd \<Rightarrow> clear_cursor
      | LeafDone \<Rightarrow> bnd (cur_tree (as_leaf (cu_leaf c))) (\<lambda>leaf. case lf_next leaf of None \<Rightarrow> clear_cursor
          | Some nxt \<Rightarrow> bnd (cur_tree (get_page nxt)) (\<lambda>r. bnd (upd_cur (\<lambda>c. c\<lparr>cu_leaf := r, cu_idx := 0\<rparr>)) (\<lambda>_. advance_cursor fuel))))
      (?c, s) ?Q"
    proof (cases stop)
      case (AtEntry k raw)
      then obtain xs ys where x: "es2 = xs @ (k, raw) # ys" "idx = cu_idx c + length xs" "?lo \<le> k" "k \<le> ?hi" "?R xs = []"
        using cs by auto
      have "(k, raw) \<in> set (bt_es t)" using es x(1) by simp
      then obtain row where row: "decode_record raw = Inr row" using Suc.prems(2) by (auto simp: decodable_def)
      have rest: "?R (es2 @ ?B) = (k, raw) # ?R (ys @ ?B)" using x by (simp add: range_sorted_append) (simp add: range_sorted_def)
      have lf: "bt_leafs t = pre @ (p, (es1 @ xs) @ (k, raw) # ys, nx) # post" using Suc.prems(3) x(1) by simp
      have bf: "?R (?A @ es1) = ?R (?A @ (es1 @ xs))" using x(5) by (simp add: range_sorted_append)
      have "cursor_at (?c\<lparr>cu_key := Some k, cu_value := Some row\<rparr>) s t (?R (?A @ es1)) (?R (es2 @ ?B))"
        unfolding rest cursor_at.simps
        by (intro conjI exI, rule lf) (use x Suc.prems(4,5) bf row in simp_all)
      then show ?thesis unfolding AtEntry leaf_stop.case
        by (intro set_current_law [OF row]) (simp add: Suc.prems(1) cursor_post_def rest del: cursor_at.simps range_sorted_append)
    next
      case PassedEnd
      then have "?R es2 = []" "\<exists>x \<in> fst ` set es2. ?hi < x" using cs by auto
      moreover have "\<forall>y \<in> fst ` set ?B. ?hi < y" using calculation(2) srt unfolding keys_sorted_append by (meson less_trans)
      then have "?R ?B = []" by (rule range_sorted_above)
      ultimately have "?R (es2 @ ?B) = []" by (simp add: range_sorted_append)
      then show ?thesis unfolding PassedEnd leaf_stop.case by (intro clear_cursor_law finished)
    next
      case LeafDone
      then have r2: "?R es2 = []" using cs by simp
      have nx: "nx = (case post of [] \<Rightarrow> None | (p', es', nx') # _ \<Rightarrow> Some p')"
        using stores_links [OF Suc.prems(1)] unfolding Suc.prems(3) by (rule next_leaf)
      show ?thesis
        unfolding LeafDone leaf_stop.case runs_bnd [of "cur_tree (as_leaf r)" for r] runs_cur fst_conv snd_conv
      proof (rule stored_next_law [OF Suc.prems(1) l Suc.prems(4)], goal_cases)
        case (1 leaf)
        show ?case
        proof (cases post)
          case Nil
          then have "?R (es2 @ ?B) = []" using r2 by simp
          then show ?thesis unfolding 1 nx Nil list.case option.case by (intro clear_cursor_law finished [unfolded Nil])
        next
          case (Cons l' post')
          obtain p' es' nx' where l': "l' = (p', es', nx')" by (cases l')
          have m: "(p', es', nx') \<in> set (bt_leafs t)" using Suc.prems(3) Cons l' by simp
          show ?thesis
            unfolding 1 nx Cons l' list.case prod.case option.case runs_bnd [of "cur_tree m" for m] runs_cur fst_conv snd_conv
              runs_bnd [of "upd_cur f" for f]
          proof (rule stored_page_law [OF Suc.prems(1) m], goal_cases)
            case s1: (1 r s1)
            have lf: "bt_leafs t = (pre @ [(p, es1 @ es2, nx)]) @ (p', [] @ es', nx') # post'" using Suc.prems(3) Cons l' by simp
            have len: "length post' < fuel" using Suc.prems(6) Cons by simp
            show ?case
              by (rule runs_weaken [OF Suc.IH [OF s1(2) Suc.prems(2) lf _ _ len]])
                (use s1 r2 Cons l' step_trans [OF s1(1)] in \<open>auto simp: range_sorted_append cursor_post_def\<close>)
          qed
        qed
      qed
    qed
  qed
qed simp

lemma advance_run_law:
  assumes "stores s t n a b R" "decodable (bt_es t)" "bt_leafs t = pre @ (p, es1 @ es2, nx) # post"
    and "cached s p = Some (cu_leaf c)" "cu_idx c = length es1"
  shows "runs advance (c, s) (\<lambda>found cs.
    found = (range_sorted (cu_start c) (cu_end c) (es2 @ concat (map leaf_es post)) \<noteq> []) \<and> stores (snd cs) t n a b R \<and>
    cursor_post c s t (range_sorted (cu_start c) (cu_end c) (concat (map leaf_es pre) @ es1))
      (range_sorted (cu_start c) (cu_end c) (es2 @ concat (map leaf_es post))) (fst cs) (snd cs))"
proof -
  have "length post < Suc n" using stores_fuel(1) [OF assms(1)] assms(3) by simp
  then show ?thesis
    unfolding advance_def tree_fuel_def runs_bnd [of "cur_tree m" for m] runs_cur runs_basic snd_conv fst_conv stores_fuel(2) [OF assms(1)]
    by (rule advance_law [OF assms])
qed

abbreviation cursor_range :: "cursor \<Rightarrow> bt \<Rightarrow> (int \<times> bytes) list" where
  "cursor_range c t \<equiv> range_sorted (cu_start c) (cu_end c) (bt_es t)"

lemma first_ge_split: "\<exists>es1 es2. es = es1 @ es2 \<and> first_ge lo es = length es1 \<and> (\<forall>x \<in> fst ` set es1. x < lo)"
proof (induction lo es rule: first_ge.induct)
  case (2 lo k raw es)
  show ?case
  proof (cases "lo \<le> k")
    case True
    then show ?thesis by (intro exI [of _ "[]"] exI [of _ "(k, raw) # es"]) simp
  next
    case False
    then obtain es1 es2 where "es = es1 @ es2" "first_ge lo es = length es1" "\<forall>x \<in> fst ` set es1. x < lo" using 2 by auto
    then show ?thesis using False by (intro exI [of _ "(k, raw) # es1"] exI [of _ es2]) simp
  qed
qed simp

text \<open>Positioning at the start of the range: \<^verbatim>\<open>__init__\<close> and \<^verbatim>\<open>reset\<close>.\<close>

lemma seek_start_law:
  assumes st: "stores s t n a b R" and dec: "decodable (bt_es t)" and f: "\<And>r i. cu_start (f r i) = cu_start c \<and> cu_end (f r i) = cu_end c \<and> cu_leaf (f r i) = r \<and> cu_idx (f r i) = i"
    and Q: "\<And>found c' s'. found = (cursor_range c t \<noteq> []) \<Longrightarrow> stores s' t n a b R \<Longrightarrow>
      cursor_post c s t [] (cursor_range c t) c' s' \<Longrightarrow> Q found (c', s')"
  shows "runs (find_leaf (cu_start c)) s (\<lambda>r s1. runs (leaf_get r leaf_entries) s1 (\<lambda>es s2. runs advance (f r (first_ge (cu_start c) es), s2) Q))"
proof (rule stored_find_leaf [OF st], goal_cases)
  case s1: (1 r s1 pre p es nx post)
  let ?lo = "cu_start c" and ?hi = "cu_end c"
  obtain es1 es2 where e: "es = es1 @ es2" "first_ge ?lo es = length es1" "\<forall>x \<in> fst ` set es1. x < ?lo"
    using first_ge_split by blast
  have l: "(p, es, nx) \<in> set (bt_leafs t)" by (simp add: s1(3))
  have bf: "range_sorted ?lo ?hi (concat (map leaf_es pre) @ es1) = []" using s1(5) e(3) by simp
  have "bt_es t = (concat (map leaf_es pre) @ es1) @ es2 @ concat (map leaf_es post)" by (simp add: bt_es_leafs s1(3) e(1))
  then have rg: "cursor_range c t = range_sorted ?lo ?hi (es2 @ concat (map leaf_es post))"
    using bf by (simp only: range_sorted_append append_Nil)
  let ?c = "f r (first_ge ?lo es)"
  show ?case
  proof (rule stored_entries_law [OF s1(2) l s1(4)])
    have "runs advance (?c, s1) (\<lambda>found cs. found = (range_sorted ?lo ?hi (es2 @ concat (map leaf_es post)) \<noteq> []) \<and> stores (snd cs) t n a b R \<and>
      cursor_post ?c s1 t (range_sorted ?lo ?hi (concat (map leaf_es pre) @ es1)) (range_sorted ?lo ?hi (es2 @ concat (map leaf_es post))) (fst cs) (snd cs))"
      using advance_run_law [OF s1(2) dec, of pre p es1 es2 nx post ?c] s1(3,4) e(1,2) f by simp
    then show "runs advance (?c, s1) Q"
    proof (rule runs_weaken)
      fix found cs
      assume "found = (range_sorted ?lo ?hi (es2 @ concat (map leaf_es post)) \<noteq> []) \<and> stores (snd cs) t n a b R \<and>
        cursor_post ?c s1 t (range_sorted ?lo ?hi (concat (map leaf_es pre) @ es1)) (range_sorted ?lo ?hi (es2 @ concat (map leaf_es post))) (fst cs) (snd cs)"
      then show "Q found cs"
        using Q [of found "snd cs" "fst cs"] step_trans [OF s1(1)] f unfolding bf rg [symmetric] by (simp add: cursor_post_def)
    qed
  qed
qed

lemma cursor_init_law:
  assumes st: "stores s t n a b R" and dec: "decodable (bt_es t)"
  shows "runs (cursor_init lo hi) s (\<lambda>c s'. step s s' \<and> stores s' t n a b R \<and> cu_start c = lo \<and> cu_end c = hi \<and>
    cursor_at c s' t [] (range_sorted lo hi (bt_es t)))"
proof -
  let ?c = "\<lparr>cu_start = lo, cu_end = hi, cu_leaf = 0, cu_idx = 0, cu_key = None, cu_value = None\<rparr>"
  let ?m = "bnd (cur_tree (find_leaf lo)) (\<lambda>r. bnd (upd_cur (\<lambda>c. c\<lparr>cu_leaf := r\<rparr>)) (\<lambda>_. bnd first_valid_idx (\<lambda>i.
           bnd (upd_cur (\<lambda>c. c\<lparr>cu_idx := i, cu_key := None, cu_value := None\<rparr>)) (\<lambda>_. advance))))"
  have "runs ?m (?c, s) (\<lambda>_ cs. step s (snd cs) \<and> stores (snd cs) t n a b R \<and> cu_start (fst cs) = lo \<and> cu_end (fst cs) = hi \<and>
    cursor_at (fst cs) (snd cs) t [] (range_sorted lo hi (bt_es t)))"
    unfolding runs_bnd runs_cur first_valid_idx_def runs_basic fst_conv snd_conv
    using seek_start_law [OF st dec, of "\<lambda>r i. ?c\<lparr>cu_leaf := r, cu_idx := i, cu_key := None, cu_value := None\<rparr>" ?c]
    by (simp add: cursor_post_def)
  then show ?thesis unfolding runs_def cursor_init_def by (elim exE conjE) (auto split: prod.splits)
qed

lemma cursor_reset_law:
  assumes st: "stores s t n a b R" and dec: "decodable (bt_es t)"
  shows "runs cursor_reset (c, s) (\<lambda>found cs. found = (cursor_range c t \<noteq> []) \<and> stores (snd cs) t n a b R \<and>
    cursor_post c s t [] (cursor_range c t) (fst cs) (snd cs))"
  unfolding cursor_reset_def runs_bnd runs_cur first_valid_idx_def runs_basic fst_conv snd_conv
  using seek_start_law [OF st dec, of "\<lambda>r i. c\<lparr>cu_leaf := r, cu_idx := i\<rparr>" c] by simp

lemma cursor_next_law:
  assumes st: "stores s t n a b R" and dec: "decodable (bt_es t)" and at: "cursor_at c s t before (e # after)"
  shows "runs cursor_next (c, s) (\<lambda>found cs. found = (after \<noteq> []) \<and> stores (snd cs) t n a b R \<and>
    cursor_post c s t (before @ [e]) after (fst cs) (snd cs))"
proof -
  let ?R = "range_sorted (cu_start c) (cu_end c)"
  obtain pre p es1 es2 nx post where c: "bt_leafs t = pre @ (p, es1 @ e # es2, nx) # post" "cached s p = Some (cu_leaf c)" "cu_idx c = length es1"
    "before = ?R (concat (map leaf_es pre) @ es1)" "after = ?R (es2 @ concat (map leaf_es post))"
    "cu_start c \<le> fst e" "fst e \<le> cu_end c" "cu_key c = Some (fst e)"
    using at unfolding cursor_at.simps by (elim conjE exE) (rule that)
  have "?R [e] = [e]" using c(6,7) by (simp add: range_sorted_def)
  then have bf: "?R (concat (map leaf_es pre) @ es1 @ [e]) = before @ [e]" using c(4) by simp
  have lf: "bt_leafs t = pre @ (p, (es1 @ [e]) @ es2, nx) # post" using c(1) by simp
  have "cu_idx (c\<lparr>cu_idx := cu_idx c + 1\<rparr>) = length (es1 @ [e])" using c(3) by simp
  from advance_run_law [OF st dec lf _ this] c(2) show ?thesis
    unfolding cursor_next_def runs_bnd runs_cur fst_conv snd_conv c(8) option.case
    by (simp add: bf c(5) [symmetric] cursor_post_def del: range_sorted_append)
qed

lemma cursor_at_range:
  assumes "cursor_at c s t before (e # after)"
  shows "cursor_range c t = before @ e # after"
proof -
  let ?R = "range_sorted (cu_start c) (cu_end c)"
  obtain pre p es1 es2 nx post where c: "bt_leafs t = pre @ (p, es1 @ e # es2, nx) # post"
    "before = ?R (concat (map leaf_es pre) @ es1)" "after = ?R (es2 @ concat (map leaf_es post))" "cu_start c \<le> fst e" "fst e \<le> cu_end c"
    using assms unfolding cursor_at.simps by (elim conjE exE) (rule that)
  have "bt_es t = (concat (map leaf_es pre) @ es1) @ [e] @ es2 @ concat (map leaf_es post)" by (simp add: bt_es_leafs c(1))
  then have "cursor_range c t = ?R (concat (map leaf_es pre) @ es1) @ ?R [e] @ ?R (es2 @ concat (map leaf_es post))"
    by (simp only: range_sorted_append)
  moreover have "?R [e] = [e]" using c(4,5) by (simp add: range_sorted_def)
  ultimately show ?thesis unfolding c(2,3) by (simp del: range_sorted_append)
qed

lemma find_idx_at: "keys_sorted (es1 @ (k, v) # es2) \<Longrightarrow> find_idx k (es1 @ (k, v) # es2) = Inr (length es1)"
proof (induction es1)
  case (Cons x es1)
  then show ?case by (cases x) auto
qed simp

text \<open>The rows before the cursor are those up to the predecessor of its key.\<close>

lemma rows_before:
  fixes es :: "(int \<times> bytes) list"
  assumes srt: "keys_sorted es" and e: "range_sorted lo hi es = before @ e # after"
  shows "range_sorted lo (fst e - 1) es = before"
proof -
  have s: "keys_sorted (before @ e # after)" using keys_sorted_filter [OF srt] unfolding e [symmetric] range_sorted_def .
  have "e \<in> set (range_sorted lo hi es)" by (simp add: e)
  then have h: "lo \<le> fst e" "fst e \<le> hi" by (simp_all add: range_sorted_def)
  have "range_sorted lo (fst e - 1) es = range_sorted lo (fst e - 1) (range_sorted lo hi es)"
    unfolding range_sorted_def filter_filter by (rule filter_cong) (use h in auto)
  also have "\<dots> = before"
  proof -
    have "\<forall>x \<in> set before. lo \<le> fst x \<and> fst x \<le> fst e - 1"
    proof
      fix x assume x: "x \<in> set before"
      then have "x \<in> set (range_sorted lo hi es)" by (simp add: e)
      moreover have "fst x < fst e" using s x by (auto simp: keys_sorted_append)
      ultimately show "lo \<le> fst x \<and> fst x \<le> fst e - 1" by (simp add: range_sorted_def)
    qed
    then have "range_sorted lo (fst e - 1) before = before" by (simp add: range_sorted_def)
    moreover have "\<forall>x \<in> fst ` set (e # after). fst e - 1 < x" using s by (auto simp: keys_sorted_append)
    then have "range_sorted lo (fst e - 1) (e # after) = []" by (rule range_sorted_above)
    ultimately have "range_sorted lo (fst e - 1) before = before" "range_sorted lo (fst e - 1) (e # after) = []" .
    then show ?thesis unfolding e range_sorted_append by simp
  qed
  finally show ?thesis .
qed

lemma cursor_prev_law:
  assumes st: "stores s t n a b R" and dec: "decodable (bt_es t)" and at: "cursor_at c s t before (e # after)"
  shows "runs cursor_prev (c, s) (\<lambda>found cs. found = (before \<noteq> []) \<and> stores (snd cs) t n a b R \<and>
    (if before = [] then step s (snd cs) \<and> fst cs = c
     else cursor_post c s t (butlast before) (last before # e # after) (fst cs) (snd cs)))"
proof -
  let ?R = "range_sorted (cu_start c) (cu_end c)"
  have rg: "cursor_range c t = before @ e # after" by (rule cursor_at_range [OF at])
  have srt: "keys_sorted (bt_es t)" by (rule stores_sorted [OF st])
  have srg: "keys_sorted (before @ e # after)" using keys_sorted_filter [OF srt] unfolding rg [symmetric] range_sorted_def .
  have key: "cu_key c = Some (fst e)" using at by auto
  have bf: "range_sorted (cu_start c) (fst e - 1) (bt_es t) = before" by (rule rows_before [OF srt rg])
  show ?thesis
  proof (cases "fst e \<le> cu_start c")
    case True
    then have "before = []" unfolding bf [symmetric] range_sorted_def by (auto simp: filter_empty_conv)
    then show ?thesis unfolding cursor_prev_def runs_bnd runs_cur fst_conv key option.case using True st by (simp add: runs_basic)
  next
    case gt: False
    show ?thesis
      unfolding cursor_prev_def runs_bnd [of "cur f" for f] runs_bnd [of "cur_tree (range_scan lo hi)" for lo hi] runs_cur fst_conv snd_conv key option.case if_not_P [OF gt]
    proof (rule runs_weaken [OF range_scan_step [OF st]], goal_cases)
      case (1 x s1)
      then have x: "x = before" and s1: "step s s1" "stores s1 t n a b R" using bf by simp_all
      show ?case
      proof (cases "before = []")
        case True
        then show ?thesis unfolding x using s1 by (simp add: runs_basic)
      next
        case False
        obtain pk praw where lb: "last before = (pk, praw)" by (cases "last before")
        have split: "before @ e # after = butlast before @ (pk, praw) # e # after" using False lb by (simp flip: lb)
        have "(pk, praw) \<in> set (cursor_range c t)" unfolding rg split by simp
        then have mem: "(pk, praw) \<in> set (bt_es t)" "cu_start c \<le> pk" "pk \<le> cu_end c" by (simp_all add: range_sorted_def)
        obtain row where row: "decode_record praw = Inr row" using dec mem(1) by (auto simp: decodable_def)
        show ?thesis
          unfolding x if_not_P [OF False] lb prod.case runs_bnd [of "cur_tree (find_leaf k)" for k] runs_cur snd_conv fst_conv
        proof (rule stored_find_leaf [OF s1(2)], goal_cases)
          case s2: (1 r s2 pre p es nx post)
          have "bt_es t = concat (map leaf_es pre) @ es @ concat (map leaf_es post)" by (simp add: bt_es_leafs s2(3))
          moreover have "(pk, praw) \<notin> set (concat (map leaf_es pre))" "(pk, praw) \<notin> set (concat (map leaf_es post))"
            using s2(5,6) by force+
          ultimately have "(pk, praw) \<in> set es" using mem(1) by (simp only: set_append Un_iff) blast
          then obtain es1 es2 where es: "es = es1 @ (pk, praw) # es2" by (meson split_list)
          have lf: "bt_leafs t = pre @ (p, es1 @ (pk, praw) # es2, nx) # post" using s2(3) es by simp
          have all: "bt_es t = (concat (map leaf_es pre) @ es1) @ [(pk, praw)] @ es2 @ concat (map leaf_es post)" by (simp add: bt_es_leafs lf)
          have ses: "keys_sorted es" using srt unfolding all es keys_sorted_append by simp
          have l: "(p, es, nx) \<in> set (bt_leafs t)" by (simp add: s2(3))
          have "?R [(pk, praw)] = [(pk, praw)]" using mem(2,3) by (simp add: range_sorted_def)
          then have "?R (concat (map leaf_es pre) @ es1) @ (pk, praw) # ?R (es2 @ concat (map leaf_es post)) = butlast before @ (pk, praw) # e # after"
            using rg unfolding split all range_sorted_append by simp
          moreover have "distinct (before @ e # after)" using keys_sorted_distinct [OF srg] distinct_map by blast
          then have "(pk, praw) \<notin> set (butlast before)" "(pk, praw) \<notin> set (e # after)" unfolding split by auto
          ultimately have parts: "?R (concat (map leaf_es pre) @ es1) = butlast before" "?R (es2 @ concat (map leaf_es post)) = e # after"
            using append_Cons_eq_iff [of "(pk, praw)" "butlast before" "e # after"] by metis+
          let ?c = "c\<lparr>cu_leaf := r, cu_idx := length es1, cu_key := Some pk, cu_value := Some row\<rparr>"
          have "cursor_at ?c s2 t (butlast before) ((pk, praw) # e # after)"
            unfolding cursor_at.simps
            by (intro conjI exI, rule lf) (use s2(4) parts mem row in \<open>simp_all add: parts [symmetric] del: range_sorted_append\<close>)
          then have post: "cursor_post c s t (butlast before) ((pk, praw) # e # after) ?c s2"
            using step_trans [OF s1(1) s2(1)] by (simp add: cursor_post_def del: cursor_at.simps)
          have idx: "find_idx pk es = Inr (length es1)" using find_idx_at ses unfolding es by blast
          show ?case
            unfolding runs_bnd [of "upd_cur f" for f] runs_cur runs_bnd [of "cur_tree (leaf_get r f)" for r f] fst_conv snd_conv
            by (rule stored_entries_law [OF s2(2) l s2(4)], unfold runs_bnd [of "lift_res x" for x] idx runs_basic
                runs_bnd [of "upd_cur f" for f] runs_cur fst_conv snd_conv, rule set_current_law [OF row])
              (use post s2(2) False lb in simp)
        qed
      qed
    qed
  qed
qed

lemma cursor_exhausted_law:
  assumes "cursor_at c s t before []"
  shows "runs cursor_next (c, s) Q \<longleftrightarrow> Q False (c, s)" "runs cursor_prev (c, s) Q \<longleftrightarrow> Q False (c, s)"
    "runs cursor_iter (c, s) Q' \<longleftrightarrow> Q' None (c, s)"
proof -
  have k: "cu_key c = None" using assms by simp
  show "runs cursor_next (c, s) Q \<longleftrightarrow> Q False (c, s)" "runs cursor_prev (c, s) Q \<longleftrightarrow> Q False (c, s)"
    "runs cursor_iter (c, s) Q' \<longleftrightarrow> Q' None (c, s)"
    unfolding cursor_next_def cursor_prev_def cursor_iter_def runs_bnd runs_cur fst_conv k option.case runs_basic by simp_all
qed

subsection \<open>Iteration\<close>

text \<open>A row as the cursor yields it.\<close>

definition decoded :: "int \<times> bytes \<Rightarrow> int \<times> val list option" where
  "decoded e = (fst e, case decode_record (snd e) of Inl _ \<Rightarrow> None | Inr row \<Rightarrow> Some row)"

lemma cursor_at_decoded: "cursor_at c s t before (e # after) \<Longrightarrow> (cu_key c = Some (fst e)) \<and> (fst e, cu_value c) = decoded e"
  by (auto simp: decoded_def)

lemma cursor_loop_law:
  assumes "stores s t n a b R" "decodable (bt_es t)" "cursor_at c s t before rest" "length rest < fuel"
  shows "runs (cursor_loop fuel) (c, s) (\<lambda>rows cs. rows = map decoded rest \<and> step s (snd cs) \<and> stores (snd cs) t n a b R)"
  using assms
proof (induction rest arbitrary: c s before fuel)
  case Nil
  then obtain f where f: "fuel = Suc f" by (cases fuel) auto
  show ?case
    unfolding f cursor_loop.simps runs_bnd cursor_exhausted_law(3) [OF Nil.prems(3)] option.case runs_basic
    using Nil.prems(1) by simp
next
  case (Cons e rest)
  then obtain f where f: "fuel = Suc f" "length rest < f" by (cases fuel) auto
  note d = cursor_at_decoded [OF Cons.prems(3)]
  show ?case
    unfolding f(1) cursor_loop.simps cursor_iter_def runs_bnd [of "bnd m g" for m g] runs_bnd [of "cur g" for g] runs_cur fst_conv
      conjunct1 [OF d] option.case runs_bnd [of cursor_next]
  proof (rule runs_weaken [OF cursor_next_law [OF Cons.prems(1-3)]], goal_cases)
    case (1 found cs)
    obtain c1 s1 where cs: "cs = (c1, s1)" by (cases cs)
    have s1: "stores s1 t n a b R" "cursor_at c1 s1 t (before @ [e]) rest" "step s s1"
      using 1 by (simp_all add: cs cursor_post_def)
    show ?case
      unfolding cs runs_basic option.case runs_bnd [of "cursor_loop f"]
      by (rule runs_weaken [OF Cons.IH [OF s1(1) Cons.prems(2) s1(2) f(2)]])
        (use d step_trans [OF s1(3)] in \<open>auto simp: runs_basic\<close>)
  qed
qed

text \<open>\<^verbatim>\<open>list(engine.scan(lo, hi))\<close>\<close>

definition scan_rows :: "nat \<Rightarrow> int \<Rightarrow> int \<Rightarrow> ('a bplus_tree_scheme, (int \<times> val list option) list) act" where
  "scan_rows fuel lo hi = bnd (cursor_init lo hi) (\<lambda>c t. case cursor_loop fuel (c, t) of (r, (_, t')) \<Rightarrow> (r, t'))"

lemma scan_rows_law:
  assumes st: "stores s t n a b R" and dec: "decodable (bt_es t)" and fuel: "length (range_sorted lo hi (bt_es t)) < fuel"
  shows "runs (scan_rows fuel lo hi) s (\<lambda>rows s'. rows = map decoded (range_sorted lo hi (bt_es t)) \<and> step s s' \<and> stores s' t n a b R)"
  unfolding scan_rows_def runs_bnd [of "cursor_init lo hi"]
proof (rule runs_weaken [OF cursor_init_law [OF st dec]], goal_cases)
  case (1 c s1)
  then have s1: "step s s1" "stores s1 t n a b R" "cursor_at c s1 t [] (range_sorted lo hi (bt_es t))" by simp_all
  obtain rows c2 s2 where r: "cursor_loop fuel (c, s1) = (Inr rows, (c2, s2))" "rows = map decoded (range_sorted lo hi (bt_es t))"
    "step s1 s2" "stores s2 t n a b R"
    using cursor_loop_law [OF s1(2) dec s1(3) fuel] unfolding runs_def by auto
  show ?case by (rule runs_I [where s' = s2 and x = rows]) (use r step_trans [OF s1(1)] in simp_all)
qed

subsection \<open>Navigation\<close>

datatype move = Next | Prev | Reset

fun run_move :: "move \<Rightarrow> ('a, bool) cursor_act" where
  "run_move Next = cursor_next"
| "run_move Prev = cursor_prev"
| "run_move Reset = cursor_reset"

text \<open>What the caller sees after each move: its result, the key and the value.\<close>

fun run_moves :: "move list \<Rightarrow> ('a, (bool \<times> int option \<times> val list option) list) cursor_act" where
  "run_moves [] = ret []"
| "run_moves (m # ms) =
     bnd (run_move m) (\<lambda>found. bnd (cur (\<lambda>c. (found, cu_key c, cu_value c))) (\<lambda>out. bnd (run_moves ms) (\<lambda>outs. ret (out # outs))))"

type_synonym zipper = "(int \<times> bytes) list \<times> (int \<times> bytes) list"

fun spec_move :: "move \<Rightarrow> zipper \<Rightarrow> bool \<times> zipper" where
  "spec_move Next (before, []) = (False, (before, []))"
| "spec_move Next (before, e # after) = (after \<noteq> [], (before @ [e], after))"
| "spec_move Prev (before, []) = (False, (before, []))"
| "spec_move Prev (before, e # after) = (if before = [] then (False, (before, e # after)) else (True, (butlast before, last before # e # after)))"
| "spec_move Reset (before, rest) = (before @ rest \<noteq> [], ([], before @ rest))"

fun zipper_row :: "zipper \<Rightarrow> int option \<times> val list option" where
  "zipper_row (before, []) = (None, None)"
| "zipper_row (before, e # after) = (Some (fst e), snd (decoded e))"

fun spec_moves :: "move list \<Rightarrow> zipper \<Rightarrow> (bool \<times> int option \<times> val list option) list" where
  "spec_moves [] z = []"
| "spec_moves (m # ms) z = (case spec_move m z of (found, z') \<Rightarrow> (found, zipper_row z') # spec_moves ms z')"

definition nav_ok :: "cursor \<Rightarrow> 'a bplus_tree_scheme \<Rightarrow> bt \<Rightarrow> zipper \<Rightarrow> bool" where
  "nav_ok c s t z \<longleftrightarrow> cursor_range c t = fst z @ snd z \<and> cursor_at c s t (fst z) (snd z)"

lemma nav_row: "nav_ok c s t z \<Longrightarrow> (cu_key c, cu_value c) = zipper_row z"
  by (cases z; cases "snd z") (auto simp: nav_ok_def decoded_def)

lemma run_move_law:
  assumes st: "stores s t n a b R" and dec: "decodable (bt_es t)" and nav: "nav_ok c s t z"
  shows "runs (run_move m) (c, s) (\<lambda>found cs. found = fst (spec_move m z) \<and> stores (snd cs) t n a b R \<and> step s (snd cs) \<and>
    nav_ok (fst cs) (snd cs) t (snd (spec_move m z)))"
proof -
  obtain before rest where z: "z = (before, rest)" by (cases z)
  have rg: "cursor_range c t = before @ rest" and at: "cursor_at c s t before rest" using nav by (simp_all add: nav_ok_def z)
  show ?thesis
  proof (cases m)
    case Reset
    show ?thesis
      unfolding Reset run_move.simps
      by (rule runs_weaken [OF cursor_reset_law [OF st dec]]) (auto simp: cursor_post_def nav_ok_def rg z)
  next
    case Next
    show ?thesis
    proof (cases rest)
      case Nil
      show ?thesis using cursor_exhausted_law(1) [OF at [unfolded Nil]] st nav by (simp add: Next z Nil)
    next
      case (Cons e after)
      show ?thesis
        unfolding Next run_move.simps
        by (rule runs_weaken [OF cursor_next_law [OF st dec at [unfolded Cons]]]) (use rg in \<open>auto simp: cursor_post_def nav_ok_def z Cons\<close>)
    qed
  next
    case Prev
    show ?thesis
    proof (cases rest)
      case Nil
      show ?thesis using cursor_exhausted_law(2) [OF at [unfolded Nil]] st nav by (simp add: Prev z Nil)
    next
      case (Cons e after)
      have b: "before = butlast before @ [last before]" if "before \<noteq> []" using that by simp
      show ?thesis
        unfolding Prev run_move.simps
      proof (rule runs_weaken [OF cursor_prev_law [OF st dec at [unfolded Cons]]], goal_cases)
        case (1 found cs)
        show ?case
        proof (cases "before = []")
          case True
          then show ?thesis using 1 nav cursor_at_step [OF at] by (simp add: z Cons nav_ok_def)
        next
          case False
          then show ?thesis using 1 rg b by (simp add: z Cons nav_ok_def cursor_post_def del: cursor_at.simps range_sorted_append)
        qed
      qed
    qed
  qed
qed

lemma run_moves_law:
  assumes "stores s t n a b R" "decodable (bt_es t)" "nav_ok c s t z"
  shows "runs (run_moves ms) (c, s) (\<lambda>outs cs. outs = spec_moves ms z \<and> stores (snd cs) t n a b R)"
  using assms
proof (induction ms arbitrary: c s z)
  case Nil
  then show ?case unfolding run_moves.simps runs_basic by simp
next
  case (Cons m ms)
  show ?case
    unfolding run_moves.simps runs_bnd [of "run_move m"]
  proof (rule runs_weaken [OF run_move_law [OF Cons.prems, of m]], goal_cases)
    case (1 found cs)
    obtain c1 s1 z1 where cs: "cs = (c1, s1)" "spec_move m z = (found, z1)" using 1 by (cases cs; cases "spec_move m z") auto
    have s1: "stores s1 t n a b R" "nav_ok c1 s1 t z1" using 1 cs by simp_all
    show ?case
      unfolding runs_bnd runs_cur cs fst_conv
      by (rule runs_weaken [OF Cons.IH [OF s1(1) Cons.prems(2) s1(2)]]) (use nav_row [OF s1(2)] cs in \<open>auto simp: runs_basic\<close>)
  qed
qed

text \<open>Opening a cursor and moving it; the tree is left as it was.\<close>

definition cursor_session :: "int \<Rightarrow> int \<Rightarrow> move list \<Rightarrow> ('a bplus_tree_scheme, (bool \<times> int option \<times> val list option) list) act" where
  "cursor_session lo hi ms = bnd (cursor_init lo hi) (\<lambda>c t. case run_moves ms (c, t) of (r, (_, t')) \<Rightarrow> (r, t'))"

subsection \<open>Properties\<close>

text \<open>C12: A \<^verbatim>\<open>for\<close> loop over a cursor returns, with fuel of one more than the rows, and yields exactly the rows of the range in key order,
  decoded.\<close>

theorem cursor_loop_rows:
  assumes "stores s t n a b R" "decodable (bt_es t)" "length (range_sorted lo hi (bt_es t)) < fuel"
  shows "\<exists>s'. scan_rows fuel lo hi s = (Inr (map decoded (range_sorted lo hi (bt_es t))), s') \<and> stores s' t n a b R"
  using scan_rows_law [OF assms] unfolding runs_def by auto

text \<open>A stored tree with one row, for the witnesses.\<close>

definition sample_record :: bytes where
  "sample_record = [3, 0, 1, 0, 1, 7, 0, 0, 0]"

lemma sample_record_row: "encode_record [VInt 7] = Inr sample_record" "decode_record sample_record = Inr [VInt 7]"
proof -
  show enc: "encode_record [VInt 7] = Inr sample_record"
    by (simp add: encode_record_def pack_i32_def pack_u_def byte_def le_bytes_numeral sample_record_def)
  show "decode_record sample_record = Inr [VInt 7]" by (rule decode_encode_record [OF enc])
qed

lemma sample_tree:
  "\<exists>p s0 s t n. pager_init None 4 1000 = Inr p \<and> tree_init p = Inr s0 \<and> tree_insert 5 sample_record s0 = (Inr (), s) \<and>
     stores s t n 20 50 100 \<and> bt_es t = [(5, sample_record)]"
proof -
  have sz: "sizes 4 100" by (simp add: sizes_def room_consts)
  obtain p s0 where s: "pager_init None 4 1000 = Inr p" "tree_init p = Inr s0" "stores s0 (Lf 0 [] None) 1 24 60 100"
    using create_law [OF sz, of 24 1000 60 None] by (auto simp: NO_NEXT_def)
  have st: "stores s0 (Lf 0 [] None) 1 (20 + bt_height (Lf 0 [] None) + 2) (50 + 2 * bt_height (Lf 0 [] None) + 4) 100"
    by (rule stores_weaken [OF s(3)]) simp_all
  have bok: "bt_ok (pg_order s0) (Lf 0 [] None)" "2 \<le> pg_order s0" using s(3) by (simp_all add: stores_def sizes_def)
  show ?thesis
    using tree_insert_law [OF st, of 5 sample_record] bt_insert_correct [OF bok(1), of 5 sample_record 1] bok(2) s(1,2)
    by (auto simp: key_ok_def runs_def sample_record_def)
qed

theorem cursor_loop_rows_witness:
  "\<exists>(s :: bplus_tree) s'. scan_rows 2 0 9 s = (Inr [(5, Some [VInt 7])], s')"
proof -
  obtain s t n where s: "stores (s :: bplus_tree) t n 20 50 100" "bt_es t = [(5, sample_record)]" using sample_tree by blast
  have "decodable (bt_es t)" "length (range_sorted 0 9 (bt_es t)) < 2"
    using sample_record_row by (auto simp: decodable_def s(2) range_sorted_def)
  from cursor_loop_rows [OF s(1) this] show ?thesis
    using sample_record_row by (auto simp: s(2) range_sorted_def decoded_def)
qed

text \<open>C13: Navigation: from opening on, every sequence of \<^verbatim>\<open>next\<close>, \<^verbatim>\<open>prev\<close> and \<^verbatim>\<open>reset\<close> returns and answers like a zipper over the
  sorted rows of the range: the results, the keys and the rows are those of the zipper, empty ranges and both ends included.\<close>

theorem cursor_navigates:
  assumes st: "stores s t n a b R" and dec: "decodable (bt_es t)"
  shows "\<exists>s'. cursor_session lo hi ms s = (Inr (spec_moves ms ([], range_sorted lo hi (bt_es t))), s') \<and> stores s' t n a b R"
proof -
  have "runs (cursor_session lo hi ms) s (\<lambda>outs s'. outs = spec_moves ms ([], range_sorted lo hi (bt_es t)) \<and> stores s' t n a b R)"
    unfolding cursor_session_def runs_bnd
  proof (rule runs_weaken [OF cursor_init_law [OF st dec, of lo hi]], goal_cases)
    case (1 c s1)
    then have "stores s1 t n a b R" "nav_ok c s1 t ([], range_sorted lo hi (bt_es t))" by (simp_all add: nav_ok_def)
    from run_moves_law [OF this(1) dec this(2), of ms] show ?case unfolding runs_def by auto
  qed
  then show ?thesis unfolding runs_def by auto
qed

theorem cursor_navigates_witness:
  "\<exists>(s :: bplus_tree) s'. cursor_session 0 9 [Next, Prev, Reset, Prev] s =
     (Inr [(False, None, None), (False, None, None), (True, Some 5, Some [VInt 7]), (False, Some 5, Some [VInt 7])], s')"
proof -
  obtain s t n where s: "stores (s :: bplus_tree) t n 20 50 100" "bt_es t = [(5, sample_record)]" using sample_tree by blast
  have "decodable (bt_es t)" using sample_record_row by (auto simp: decodable_def s(2))
  from cursor_navigates [OF s(1) this, of 0 9 "[Next, Prev, Reset, Prev]"] show ?thesis
    using sample_record_row by (auto simp: s(2) range_sorted_def decoded_def)
qed

end
