(* ===== verification/Engine.thy ===== *)
theory Engine
  imports Cursor Lock_Manager
begin

section \<open>The engine (\<^verbatim>\<open>src/engine.py\<close>) and transactions (\<^verbatim>\<open>src/transaction.py\<close>)\<close>

text \<open>
  An engine is its tree and its lock manager. Rows are lists of values; the tree stores their encodings. A transaction is an object of its
  own: its methods act on the pair of the transaction and the engine.

  A call of \<^verbatim>\<open>acquire\<close> is modelled as one step during which no other thread runs: a request that must wait is then never
  granted, so that its outcome is that of the time-out. The interleavings are in \<open>Lock_Manager\<close>.
\<close>

subsection \<open>Engine operations\<close>

record engine =
  en_tree :: bplus_tree
  en_locks :: lock_manager

definition on_tree :: "(bplus_tree, 'b) act \<Rightarrow> (engine, 'b) act" where
  "on_tree = on_part en_tree (\<lambda>t e. e\<lparr>en_tree := t\<rparr>)"

definition on_locks :: "(lock_manager, 'b) act \<Rightarrow> (engine, 'b) act" where
  "on_locks = on_part en_locks (\<lambda>g e. e\<lparr>en_locks := g\<rparr>)"

definition engine_init :: "(bytes option \<times> bytes option) option \<Rightarrow> nat \<Rightarrow> engine res" where
  "engine_init files order =
     bind_res (pager_init files order 256) (\<lambda>p. bind_res (tree_init p) (\<lambda>t. Inr \<lparr>en_tree = t, en_locks = lm_init\<rparr>))"

definition engine_put :: "int \<Rightarrow> val list \<Rightarrow> (engine, unit) act" where
  "engine_put key row = bnd (lift_res (encode_record row)) (\<lambda>rec. on_tree (tree_insert key rec))"

definition engine_get :: "int \<Rightarrow> (engine, val list option) act" where
  "engine_get key =
     bnd (on_tree (tree_search key)) (\<lambda>raw. case raw of
       None \<Rightarrow> ret None
     | Some b \<Rightarrow> bnd (lift_res (decode_record b)) (\<lambda>row. ret (Some row)))"

definition engine_delete :: "int \<Rightarrow> (engine, bool) act" where
  "engine_delete key = on_tree (tree_delete key)"

definition engine_scan :: "int \<Rightarrow> int \<Rightarrow> (engine, cursor) act" where
  "engine_scan start end_key = on_tree (cursor_init start end_key)"

definition engine_flush :: "(engine, unit) act" where "engine_flush = on_tree tree_flush"

definition engine_close :: "(engine, unit) act" where "engine_close = on_tree tree_close"

subsection \<open>Transactions\<close>

datatype txn_write = OpPut int bytes | OpDelete int

record transaction =
  tx_txn_id :: nat
  tx_ops :: "txn_write list"
  tx_overlay :: "(int \<times> bytes) list"
  tx_deleted :: "int list"
  tx_done :: bool

type_synonym 'b txn_act = "(transaction \<times> engine, 'b) act"

definition engine_begin :: "(engine, transaction) act" where
  "engine_begin =
     bnd (on_tree alloc_txn_id) (\<lambda>i.
     ret \<lparr>tx_txn_id = i, tx_ops = [], tx_overlay = [], tx_deleted = [], tx_done = False\<rparr>)"

definition tx :: "(transaction \<Rightarrow> 'b) \<Rightarrow> 'b txn_act" where
  "tx f = gets (\<lambda>s. f (fst s))"

definition upd_tx :: "(transaction \<Rightarrow> transaction) \<Rightarrow> unit txn_act" where
  "upd_tx f = modify (\<lambda>s. (f (fst s), snd s))"

definition on_engine :: "(engine, 'b) act \<Rightarrow> 'b txn_act" where
  "on_engine = on_part snd (\<lambda>e s. (fst s, e))"

definition check_open :: "unit txn_act" where
  "check_open = bnd (tx tx_done) (\<lambda>d. if d then throw RuntimeError else ret ())"

definition lm_acquire :: "nat \<Rightarrow> int \<Rightarrow> lock_mode \<Rightarrow> (lock_manager, unit) act" where
  "lm_acquire t key mode =
     bnd (acquire_try t key mode) (\<lambda>r. case r of
       Granted \<Rightarrow> ret ()
     | Blocked event \<Rightarrow> acquire_timeout t key mode event)"

definition tx_lock :: "int \<Rightarrow> lock_mode \<Rightarrow> unit txn_act" where
  "tx_lock key mode = bnd (tx tx_txn_id) (\<lambda>t. on_engine (on_locks (lm_acquire t key mode)))"

definition txn_put :: "int \<Rightarrow> val list \<Rightarrow> unit txn_act" where
  "txn_put key row =
     bnd check_open (\<lambda>_.
     bnd (tx_lock key ModeX) (\<lambda>_.
     bnd (lift_res (encode_record row)) (\<lambda>rec.
     upd_tx (\<lambda>x. x\<lparr>tx_ops := tx_ops x @ [OpPut key rec], tx_overlay := AList.update key rec (tx_overlay x),
       tx_deleted := removeAll key (tx_deleted x)\<rparr>))))"

definition txn_delete :: "int \<Rightarrow> unit txn_act" where
  "txn_delete key =
     bnd check_open (\<lambda>_.
     bnd (tx_lock key ModeX) (\<lambda>_.
     upd_tx (\<lambda>x. x\<lparr>tx_ops := tx_ops x @ [OpDelete key], tx_deleted := List.insert key (tx_deleted x),
       tx_overlay := AList.delete key (tx_overlay x)\<rparr>)))"

definition txn_get :: "int \<Rightarrow> val list option txn_act" where
  "txn_get key =
     bnd check_open (\<lambda>_.
     bnd (tx_lock key ModeS) (\<lambda>_.
     bnd (tx (\<lambda>x. x)) (\<lambda>x.
     if key \<in> set (tx_deleted x) then ret None
     else case map_of (tx_overlay x) key of
       Some rec \<Rightarrow> bnd (lift_res (decode_record rec)) (\<lambda>row. ret (Some row))
     | None \<Rightarrow> on_engine (engine_get key))))"

text \<open>The dictionary that \<^verbatim>\<open>scan\<close> builds: the committed rows, without the deleted keys, with the staged puts of the range.\<close>

definition scan_base :: "transaction \<Rightarrow> int \<Rightarrow> int \<Rightarrow> (int \<times> bytes) list \<Rightarrow> (int \<times> bytes) list" where
  "scan_base x start end_key rows =
     (let base = fold (\<lambda>(k, v). AList.update k v) rows [];
          base = fold AList.delete (tx_deleted x) base in
      fold (\<lambda>(k, v) b. if start \<le> k \<and> k \<le> end_key then AList.update k v b else b) (tx_overlay x) base)"

definition txn_scan :: "int \<Rightarrow> int \<Rightarrow> (int \<times> val list) list txn_act" where
  "txn_scan start end_key =
     bnd check_open (\<lambda>_.
     bnd (on_engine (on_tree (range_scan start end_key))) (\<lambda>rows.
     bnd (tx (\<lambda>x. sort_key fst (scan_base x start end_key rows))) (\<lambda>base.
     bnd (lift_res (map_res (\<lambda>(k, v). bind_res (decode_record v) (\<lambda>row. Inr (k, row))) base)) (\<lambda>result.
     bnd (for_each (\<lambda>(k, row). tx_lock k ModeS) result) (\<lambda>_. ret result)))))"

fun apply_write :: "txn_write \<Rightarrow> (bplus_tree, unit) act" where
  "apply_write (OpPut key rec) = tree_insert key rec"
| "apply_write (OpDelete key) = bnd (tree_delete key) (\<lambda>_. ret ())"

definition log_txn :: "(nat \<Rightarrow> (wal, nat) act) \<Rightarrow> nat \<Rightarrow> (bplus_tree, unit) act" where
  "log_txn write t = if_wal (bnd (run_wal (write t)) (\<lambda>_. ret ()))"

definition txn_commit :: "unit txn_act" where
  "txn_commit =
     bnd check_open (\<lambda>_.
     bnd (upd_tx (\<lambda>x. x\<lparr>tx_done := True\<rparr>)) (\<lambda>_.
     bnd (tx (\<lambda>x. x)) (\<lambda>x.
     if tx_ops x = [] then ret ()
     else
       bnd (on_engine (on_tree (log_txn append_txn_begin (tx_txn_id x)))) (\<lambda>_.
       bnd (on_engine (on_tree begin_txn_write)) (\<lambda>_.
       bnd (finally_act
         (on_engine (on_tree (bnd (for_each apply_write (tx_ops x)) (\<lambda>_.
            bnd (log_txn append_txn_commit (tx_txn_id x)) (\<lambda>_. if_wal (run_wal (modify wal_fsync)))))))
         (on_engine (on_tree end_txn_write))) (\<lambda>_.
       bnd (on_engine (on_locks (release_all (tx_txn_id x)))) (\<lambda>_. ret ())))))))"

definition txn_rollback :: "unit txn_act" where
  "txn_rollback =
     bnd (tx (\<lambda>x. x)) (\<lambda>x.
     if tx_done x then ret ()
     else
       bnd (upd_tx (\<lambda>x. x\<lparr>tx_done := True\<rparr>)) (\<lambda>_.
       bnd (if tx_ops x \<noteq> [] then on_engine (on_tree (log_txn append_txn_abort (tx_txn_id x))) else ret ()) (\<lambda>_.
       bnd (on_engine (on_locks (release_all (tx_txn_id x)))) (\<lambda>_. ret ()))))"

text \<open>\<^verbatim>\<open>__exit__\<close>, told whether the block raised.\<close>

definition txn_exit :: "bool \<Rightarrow> unit txn_act" where
  "txn_exit raised = (if raised then txn_rollback else txn_commit)"

subsection \<open>Running the combinators\<close>

lemma runs_parts [runs_simps]:
  "runs (on_tree m) e Q \<longleftrightarrow> runs m (en_tree e) (\<lambda>x t. Q x (e\<lparr>en_tree := t\<rparr>))"
  "runs (on_locks l) e Q' \<longleftrightarrow> runs l (en_locks e) (\<lambda>x g. Q' x (e\<lparr>en_locks := g\<rparr>))"
  "runs (tx f) s R \<longleftrightarrow> R (f (fst s)) s"
  "runs (upd_tx g) s R' \<longleftrightarrow> R' () (g (fst s), snd s)"
  "runs (on_engine h) s R'' \<longleftrightarrow> runs h (snd s) (\<lambda>x e. R'' x (fst s, e))"
  by (simp_all add: on_tree_def on_locks_def tx_def upd_tx_def on_engine_def runs_simps)

lemma runs_check_open [runs_simps]: "runs check_open s Q \<longleftrightarrow> \<not> tx_done (fst s) \<and> Q () s"
  by (simp add: check_open_def runs_simps)

lemma runs_opt [runs_simps]:
  "runs (case x of None \<Rightarrow> ret y | Some b \<Rightarrow> m b) s Q \<longleftrightarrow> (case x of None \<Rightarrow> Q y s | Some b \<Rightarrow> runs (m b) s Q)"
  by (cases x) (simp_all add: runs_simps)

end
