(* ===== verification/Transaction.thy ===== *)
theory Transaction
  imports Engine
begin

section \<open>What a transaction promises\<close>

text \<open>
  The specification is the sorted list of the rows. A transaction sees the committed rows with its own writes applied
  (\<open>txn_sees\<close>), whether it reads one key or a range; a commit installs these rows, a rollback leaves the committed ones
  (\<open>transaction_commits\<close>, \<open>transaction_rolls_back\<close>). The last section has what goes wrong with locks.
\<close>

subsection \<open>Rows\<close>

definition row_of :: "bytes \<Rightarrow> val list" where
  "row_of b = (case decode_record b of Inl _ \<Rightarrow> [] | Inr row \<Rightarrow> row)"

definition rows_of :: "(int \<times> bytes) list \<Rightarrow> (int \<times> val list) list" where
  "rows_of es = map (\<lambda>(k, b). (k, row_of b)) es"

lemma rows_of_ins: "rows_of (ins_sorted k v es) = ins_sorted k (row_of v) (rows_of es)"
  by (induction k v es rule: ins_sorted.induct) (simp_all add: rows_of_def)

lemma rows_of_del: "rows_of (del_sorted k es) = del_sorted k (rows_of es)"
  by (induction es) (auto simp: rows_of_def del_sorted_def)

lemma rows_of_range: "rows_of (range_sorted lo hi es) = range_sorted lo hi (rows_of es)"
  by (induction es) (auto simp: rows_of_def range_sorted_def)

lemma map_of_rows: "map_of (rows_of es) k = map_option row_of (map_of es k)"
  by (induction es) (auto simp: rows_of_def)

lemma row_of_encoded: "encode_record row = Inr b \<Longrightarrow> row_of b = row"
  by (simp add: row_of_def decode_encode_record)

lemma decodable_row: "decodable es \<Longrightarrow> map_of es k = Some b \<Longrightarrow> decode_record b = Inr (row_of b)"
  by (auto simp: decodable_def row_of_def dest!: map_of_SomeD)

lemma decodable_ins: "decodable es \<Longrightarrow> decode_record v = Inr row \<Longrightarrow> decodable (ins_sorted k v es)"
  using set_ins_sorted [of k v es] by (auto simp: decodable_def)

lemma decodable_sub: "decodable es \<Longrightarrow> decodable (del_sorted k es)" "decodable es \<Longrightarrow> decodable (range_sorted lo hi es)"
  by (auto simp: decodable_def del_sorted_def range_sorted_def)

lemma decode_rows: "decodable es \<Longrightarrow> map_res (\<lambda>(k, v). bind_res (decode_record v) (\<lambda>row. Inr (k, row))) es = Inr (rows_of es)"
  by (induction es) (auto simp: decodable_def rows_of_def row_of_def)

subsection \<open>The overlay\<close>

fun write_es :: "txn_write \<Rightarrow> (int \<times> bytes) list \<Rightarrow> (int \<times> bytes) list" where
  "write_es (OpPut k v) es = ins_sorted k v es"
| "write_es (OpDelete k) es = del_sorted k es"

definition txn_sees :: "transaction \<Rightarrow> (int \<times> bytes) list \<Rightarrow> (int \<times> bytes) list \<Rightarrow> bool" where
  "txn_sees x es vs \<longleftrightarrow> vs = fold write_es (tx_ops x) es \<and> keys_sorted vs \<and> decodable vs \<and> distinct (map fst (tx_overlay x)) \<and>
     (\<forall>k. map_of vs k = (if k \<in> set (tx_deleted x) then None
        else case map_of (tx_overlay x) k of Some v \<Rightarrow> Some v | None \<Rightarrow> map_of es k)) \<and>
     (\<forall>k \<in> set (tx_deleted x). map_of (tx_overlay x) k = None)"

lemma txn_seesD:
  assumes "txn_sees x es vs"
  shows "vs = fold write_es (tx_ops x) es" "keys_sorted vs" "decodable vs" "distinct (map fst (tx_overlay x))"
    "map_of vs k = (if k \<in> set (tx_deleted x) then None else case map_of (tx_overlay x) k of Some v \<Rightarrow> Some v | None \<Rightarrow> map_of es k)"
    "k \<in> set (tx_deleted x) \<Longrightarrow> map_of (tx_overlay x) k = None"
  using assms unfolding txn_sees_def by blast+

lemma sees_put:
  assumes s: "txn_sees x es vs" and d: "decode_record v = Inr row"
  shows "txn_sees (x\<lparr>tx_ops := tx_ops x @ [OpPut k v], tx_overlay := AList.update k v (tx_overlay x),
     tx_deleted := removeAll k (tx_deleted x)\<rparr>) es (ins_sorted k v vs)"
proof -
  note D = txn_seesD [OF s]
  have "map_of (ins_sorted k v vs) j = (if j \<in> set (removeAll k (tx_deleted x)) then None
        else case map_of (AList.update k v (tx_overlay x)) j of Some v \<Rightarrow> Some v | None \<Rightarrow> map_of es j)" for j
    using D(2) D(5) [of j] by (simp add: AList.update_conv')
  moreover have "map_of (AList.update k v (tx_overlay x)) j = None" if "j \<in> set (removeAll k (tx_deleted x))" for j
    using that D(6) [of j] by (simp add: AList.update_conv')
  ultimately show ?thesis
    using D(1-4) decodable_ins [OF D(3) d] by (simp add: txn_sees_def distinct_update)
qed

lemma sees_delete:
  assumes s: "txn_sees x es vs"
  shows "txn_sees (x\<lparr>tx_ops := tx_ops x @ [OpDelete k], tx_deleted := List.insert k (tx_deleted x),
     tx_overlay := AList.delete k (tx_overlay x)\<rparr>) es (del_sorted k vs)"
proof -
  note D = txn_seesD [OF s]
  have "map_of (del_sorted k vs) j = (if j \<in> set (List.insert k (tx_deleted x)) then None
        else case map_of (AList.delete k (tx_overlay x)) j of Some v \<Rightarrow> Some v | None \<Rightarrow> map_of es j)" for j
    using D(5) [of j] by (simp add: AList.delete_conv')
  moreover have "map_of (AList.delete k (tx_overlay x)) j = None" if "j \<in> set (List.insert k (tx_deleted x))" for j
    using that D(6) [of j] by (auto simp: AList.delete_conv')
  ultimately show ?thesis
    using D(1-4) decodable_sub(1) [OF D(3)] by (simp add: txn_sees_def distinct_delete)
qed

text \<open>The three loops of \<^verbatim>\<open>scan\<close>.\<close>

lemma fold_update:
  "distinct (map fst xs) \<Longrightarrow> map_of (fold (\<lambda>(k, v). AList.update k v) xs b) k = (case map_of xs k of Some v \<Rightarrow> Some v | None \<Rightarrow> map_of b k)"
proof (induction xs arbitrary: b)
  case (Cons x xs)
  obtain j v where x: "x = (j, v)" by (cases x)
  have "map_of xs j = None" using Cons.prems x by (simp add: map_of_eq_None_iff)
  then show ?case using Cons by (auto simp: x AList.update_conv' split: option.split)
qed simp

lemma fold_delete: "map_of (fold AList.delete ks b) k = (if k \<in> set ks then None else map_of b k)"
  by (induction ks arbitrary: b) (auto simp: AList.delete_conv')

lemma fold_range_update:
  "distinct (map fst xs) \<Longrightarrow> map_of (fold (\<lambda>(k, v) b. if lo \<le> k \<and> k \<le> hi then AList.update k v b else b) xs b) (k :: int) =
     (case map_of xs k of Some v \<Rightarrow> if lo \<le> k \<and> k \<le> hi then Some v else map_of b k | None \<Rightarrow> map_of b k)"
proof (induction xs arbitrary: b)
  case (Cons x xs)
  obtain j v where x: "x = (j, v)" by (cases x)
  have "map_of xs j = None" using Cons.prems x by (simp add: map_of_eq_None_iff)
  then show ?case using Cons by (auto simp: x AList.update_conv' split: option.split)
qed simp

lemma fold_keeps: "(\<And>x b. P b \<Longrightarrow> P (f x b)) \<Longrightarrow> P b \<Longrightarrow> P (fold f xs b)"
  by (induction xs arbitrary: b) auto

lemma distinct_scan_base: "distinct (map fst (scan_base x lo hi rows))"
  unfolding scan_base_def Let_def
  by (intro fold_keeps [where P = "\<lambda>b. distinct (map fst b)"]) (auto simp: distinct_update distinct_delete)

lemma sort_by_key:
  fixes b :: "(int \<times> 'v) list"
  assumes "distinct (map fst b)"
  shows "keys_sorted (sort_key fst b)" "map_of (sort_key fst b) = map_of b"
proof -
  have d: "distinct (map fst (sort_key fst b))"
    using assms by (simp add: distinct_map)
  moreover have "sorted (map fst (sort_key fst b))" by (rule sorted_sort_key)
  ultimately show "keys_sorted (sort_key fst b)" unfolding keys_sorted_def by (simp only: strict_sorted_iff)
  show "map_of (sort_key fst b) = map_of b" using map_of_inject_set [OF d assms] by (simp only: set_sort)
qed

lemma scan_base_ok:
  assumes s: "txn_sees x es vs" and es: "keys_sorted es"
  shows "sort_key fst (scan_base x lo hi (range_sorted lo hi es)) = range_sorted lo hi vs"
proof (rule keys_sorted_unique)
  note D = txn_seesD [OF s]
  let ?r = "range_sorted lo hi es"
  have dr: "distinct (map fst ?r)" using es by (intro keys_sorted_distinct) simp
  note d = distinct_scan_base [of x lo hi ?r]
  show "keys_sorted (sort_key fst (scan_base x lo hi ?r))" by (rule sort_by_key(1) [OF d])
  show "keys_sorted (range_sorted lo hi vs)" using D(2) by simp
  show "map_of (sort_key fst (scan_base x lo hi ?r)) = map_of (range_sorted lo hi vs)"
  proof
    fix k
    have "map_of (scan_base x lo hi ?r) k = map_of (range_sorted lo hi vs) k"
      unfolding scan_base_def Let_def fold_range_update [OF D(4)] fold_delete fold_update [OF dr] map_of_range_sorted
      using D(5) [of k] D(6) [of k] by (auto split: option.splits)
    then show "map_of (sort_key fst (scan_base x lo hi ?r)) k = map_of (range_sorted lo hi vs) k"
      using sort_by_key(2) [OF d] by simp
  qed
qed

subsection \<open>Locks without contention\<close>

text \<open>No call is blocked, and on the keys \<open>K\<close> only \<open>t\<close> holds locks.\<close>

definition locks_free :: "lock_manager \<Rightarrow> nat \<Rightarrow> int set \<Rightarrow> bool" where
  "locks_free g t K \<longleftrightarrow> mgr_ok g (\<lambda>_. None) (\<lambda>u. set (keys_of g u)) \<and> (\<forall>k \<in> K. \<forall>(u, m) \<in> set (holders_at g k). u = t)"

definition others_kept :: "nat \<Rightarrow> lock_manager \<Rightarrow> lock_manager \<Rightarrow> bool" where
  "others_kept t g g' \<longleftrightarrow> (\<forall>u j. u \<noteq> t \<longrightarrow> map_of (holders_at g' j) u = map_of (holders_at g j) u)"

lemma others_kept_refl [simp]: "others_kept t g g"
  by (simp add: others_kept_def)

lemma others_kept_trans: "others_kept t g g1 \<Longrightarrow> others_kept t g1 g2 \<Longrightarrow> others_kept t g g2"
  by (simp add: others_kept_def)

lemma locks_free_kept:
  assumes lf: "locks_free g t K" and ok: "mgr_ok g' (\<lambda>_. None) (\<lambda>u. set (keys_of g' u))" and kept: "others_kept t g g'"
  shows "locks_free g' t K"
proof -
  have "u = t" if "k \<in> K" "(u, m) \<in> set (holders_at g' k)" for k u m
  proof (rule ccontr)
    assume u: "u \<noteq> t"
    have "distinct (map fst (holders_at g' k))" using mgr_okD(1) [OF ok, of k] by (simp add: holders_ok_def)
    then have "map_of (holders_at g' k) u = Some m" using that(2) by (rule map_of_is_SomeI)
    then have "map_of (holders_at g k) u = Some m" using kept u by (simp add: others_kept_def)
    then show False using lf that(1) u map_of_SomeD by (fastforce simp: locks_free_def)
  qed
  then show ?thesis using ok by (auto simp: locks_free_def)
qed

lemma lm_acquire_law:
  assumes lf: "locks_free g t K" and k: "k \<in> K"
  shows "runs (lm_acquire t k m) g (\<lambda>_ g'. locks_free g' t K \<and> others_kept t g g')"
proof -
  obtain res g' where run: "acquire_try t k m g = (res, g')" by (cases "acquire_try t k m g")
  have ok: "mgr_ok g (\<lambda>_. None) (\<lambda>u. set (keys_of g u))" using lf by (simp add: locks_free_def)
  have cg: "can_grant (holders_at g k) t m" using lf k by (auto simp: can_grant_iff locks_free_def)
  have res: "res = Inr Granted" using run by (cases rule: acquire_cases) (use cg in simp_all)
  note inv = acquire_inv [OF ok refl run]
  have kept: "others_kept t g g'" using inv(4) by (simp add: others_kept_def)
  have "locks_free g' t K" by (rule locks_free_kept [OF lf _ kept]) (use inv(1) res in simp)
  then show ?thesis using run res kept by (simp add: lm_acquire_def runs_def bnd_def)
qed

lemma release_law:
  assumes lf: "locks_free g t K"
  shows "runs (release_all t) g (\<lambda>_ g'. locks_free g' t K \<and> others_kept t g g' \<and> (\<forall>j m. (t, m) \<notin> set (holders_at g' j)))"
proof -
  obtain res g' where run: "release_all t g = (res, g')" by (cases "release_all t g")
  have ok: "mgr_ok g (\<lambda>_. None) (\<lambda>u. set (keys_of g u))" using lf by (simp add: locks_free_def)
  obtain evs where inv: "res = Inr evs" "mgr_ok g' (\<lambda>_. None) (\<lambda>t. set (keys_of g' t))" "\<And>j m. (t, m) \<notin> set (holders_at g' j)" "serves t g g' evs"
    by (rule release_all_inv [OF ok refl run]) (rule that)
  have "waiters_at g j = []" for j
  proof (cases "waiters_at g j")
    case (Cons w ws)
    then show ?thesis using mgr_okD(3) [OF ok, of "fst w" "fst (snd w)" "snd (snd w)" j] by simp
  qed
  then have "others_kept t g g'" using servesD(4) [OF inv(4)] by (simp add: others_kept_def)
  then show ?thesis using run inv(1,3) locks_free_kept [OF lf inv(2)] by (simp add: runs_def)
qed

subsection \<open>Operations of a transaction\<close>

datatype txn_op = TPut int "val list" | TDelete int | TGet int | TScan int int

datatype txn_out = TDone | TRow "val list option" | TRows "(int \<times> val list) list"

fun run_txn_op :: "txn_op \<Rightarrow> txn_out txn_act" where
  "run_txn_op (TPut k row) = bnd (txn_put k row) (\<lambda>_. ret TDone)"
| "run_txn_op (TDelete k) = bnd (txn_delete k) (\<lambda>_. ret TDone)"
| "run_txn_op (TGet k) = bnd (txn_get k) (\<lambda>r. ret (TRow r))"
| "run_txn_op (TScan lo hi) = bnd (txn_scan lo hi) (\<lambda>rs. ret (TRows rs))"

fun spec_txn_op :: "txn_op \<Rightarrow> (int \<times> val list) list \<Rightarrow> txn_out \<times> (int \<times> val list) list" where
  "spec_txn_op (TPut k row) rs = (TDone, ins_sorted k row rs)"
| "spec_txn_op (TDelete k) rs = (TDone, del_sorted k rs)"
| "spec_txn_op (TGet k) rs = (TRow (map_of rs k), rs)"
| "spec_txn_op (TScan lo hi) rs = (TRows (range_sorted lo hi rs), rs)"

fun is_write :: "txn_op \<Rightarrow> bool" where
  "is_write (TPut k row) \<longleftrightarrow> True"
| "is_write (TDelete k) \<longleftrightarrow> True"
| "is_write _ \<longleftrightarrow> False"

fun txn_op_ok :: "nat \<Rightarrow> int set \<Rightarrow> txn_op \<Rightarrow> bool" where
  "txn_op_ok R K (TPut k row) \<longleftrightarrow> k \<in> K \<and> key_ok k \<and> (case encode_record row of Inl _ \<Rightarrow> False | Inr b \<Rightarrow> length b \<le> R)"
| "txn_op_ok R K (TDelete k) \<longleftrightarrow> k \<in> K"
| "txn_op_ok R K (TGet k) \<longleftrightarrow> k \<in> K"
| "txn_op_ok R K (TScan lo hi) \<longleftrightarrow> {lo..hi} \<subseteq> K"

fun write_ok :: "nat \<Rightarrow> txn_write \<Rightarrow> bool" where
  "write_ok R (OpPut k v) \<longleftrightarrow> key_ok k \<and> length v \<le> R"
| "write_ok R (OpDelete k) \<longleftrightarrow> True"

definition txn_inv :: "transaction \<Rightarrow> engine \<Rightarrow> bt \<Rightarrow> nat \<Rightarrow> nat \<Rightarrow> nat \<Rightarrow> nat \<Rightarrow> (int \<times> bytes) list \<Rightarrow> int set \<Rightarrow> bool" where
  "txn_inv x e t n a b R vs K \<longleftrightarrow> \<not> tx_done x \<and> stores (en_tree e) t n a b R \<and> decodable (bt_es t) \<and> txn_sees x (bt_es t) vs \<and>
     locks_free (en_locks e) (tx_txn_id x) K \<and> list_all (write_ok R) (tx_ops x)"

lemma tx_lock_law:
  assumes "locks_free (en_locks e) (tx_txn_id x) K" "k \<in> K"
    and "\<And>g'. locks_free g' (tx_txn_id x) K \<Longrightarrow> others_kept (tx_txn_id x) (en_locks e) g' \<Longrightarrow> Q () (x, e\<lparr>en_locks := g'\<rparr>)"
  shows "runs (tx_lock k m) (x, e) Q"
  unfolding tx_lock_def runs_bnd runs_parts fst_conv snd_conv
  by (rule runs_weaken [OF lm_acquire_law [OF assms(1,2)]]) (use assms(3) in auto)

lemma tx_locks_law:
  assumes "locks_free (en_locks e) (tx_txn_id x) K" "fst ` set rs \<subseteq> K"
    and "\<And>g'. locks_free g' (tx_txn_id x) K \<Longrightarrow> others_kept (tx_txn_id x) (en_locks e) g' \<Longrightarrow> Q () (x, e\<lparr>en_locks := g'\<rparr>)"
  shows "runs (for_each (\<lambda>(k, row). tx_lock k ModeS) rs) (x, e) Q"
  using assms
proof (induction rs arbitrary: e)
  case Nil
  show ?case
    unfolding for_each.simps runs_basic using Nil.prems(3) [OF Nil.prems(1)] by simp
next
  case (Cons r rs)
  obtain k row where r: "r = (k, row)" by (cases r)
  have k: "k \<in> K" using Cons.prems(2) r by simp
  show ?case
    unfolding for_each.simps r prod.case runs_bnd
  proof (rule tx_lock_law [OF Cons.prems(1) k])
    fix g' assume g': "locks_free g' (tx_txn_id x) K" "others_kept (tx_txn_id x) (en_locks e) g'"
    show "runs (for_each (\<lambda>(k, row). tx_lock k ModeS) rs) (x, e\<lparr>en_locks := g'\<rparr>) Q"
      by (rule Cons.IH) (use g' Cons.prems others_kept_trans in auto)
  qed
qed

text \<open>What an operation of the transaction leaves as it is.\<close>

definition txn_step :: "transaction \<Rightarrow> engine \<Rightarrow> transaction \<Rightarrow> engine \<Rightarrow> bool" where
  "txn_step x e x' e' \<longleftrightarrow> tx_txn_id x' = tx_txn_id x \<and> length (tx_ops x') \<le> Suc (length (tx_ops x)) \<and> step (en_tree e) (en_tree e') \<and>
     others_kept (tx_txn_id x) (en_locks e) (en_locks e')"

lemma txn_op_law:
  assumes inv: "txn_inv x e t n a b R vs K" and ok: "txn_op_ok R K op"
  shows "runs (run_txn_op op) (x, e) (\<lambda>y s'. \<exists>vs'. y = fst (spec_txn_op op (rows_of vs)) \<and> rows_of vs' = snd (spec_txn_op op (rows_of vs)) \<and>
    txn_inv (fst s') (snd s') t n a b R vs' K \<and> txn_step x e (fst s') (snd s') \<and> (tx_ops (fst s') = [] \<longleftrightarrow> tx_ops x = [] \<and> \<not> is_write op))"
proof -
  have I: "\<not> tx_done x" "stores (en_tree e) t n a b R" "decodable (bt_es t)" "txn_sees x (bt_es t) vs"
    "locks_free (en_locks e) (tx_txn_id x) K" "list_all (write_ok R) (tx_ops x)"
    using inv by (simp_all add: txn_inv_def)
  note D = txn_seesD [OF I(4)]
  show ?thesis
  proof (cases op)
    case (TPut k row)
    obtain rec where rec: "encode_record row = Inr rec" "length rec \<le> R" "key_ok k" "k \<in> K"
      using ok TPut by (auto split: sum.splits)
    have d: "decode_record rec = Inr row" by (rule decode_encode_record [OF rec(1)])
    show ?thesis
      unfolding TPut run_txn_op.simps txn_put_def runs_bnd runs_check_open fst_conv
      using I(1)
    proof (intro conjI, goal_cases)
      case 2
      show ?case
        by (rule tx_lock_law [OF I(5) rec(4)])
          (use rec I sees_put [OF I(4) d] d in \<open>auto simp: runs_simps rows_of_ins row_of_def txn_inv_def txn_step_def intro!: exI [of _ "ins_sorted k rec vs"]\<close>)
    qed
  next
    case (TDelete k)
    have k: "k \<in> K" using ok TDelete by simp
    show ?thesis
      unfolding TDelete run_txn_op.simps txn_delete_def runs_bnd runs_check_open fst_conv
      using I(1)
    proof (intro conjI, goal_cases)
      case 2
      show ?case
        by (rule tx_lock_law [OF I(5) k])
          (use I sees_delete [OF I(4)] in \<open>auto simp: runs_simps rows_of_del txn_inv_def txn_step_def intro!: exI [of _ "del_sorted k vs"]\<close>)
    qed
  next
    case (TGet k)
    have k: "k \<in> K" using ok TGet by simp
    show ?thesis
      unfolding TGet run_txn_op.simps txn_get_def runs_bnd runs_check_open fst_conv
      using I(1)
    proof (intro conjI, goal_cases)
      case 2
      show ?case
      proof (rule tx_lock_law [OF I(5) k], unfold runs_bnd runs_parts runs_basic fst_conv snd_conv, goal_cases)
        case (1 g')
        let ?e = "e\<lparr>en_locks := g'\<rparr>"
        have same: "txn_inv x ?e t n a b R vs K" "txn_step x e x ?e" using I 1 by (simp_all add: txn_inv_def txn_step_def)
        have look: "map_of (rows_of vs) k = map_option row_of (map_of vs k)" by (rule map_of_rows)
        show ?case
        proof (cases "k \<in> set (tx_deleted x)")
          case True
          then show ?thesis using same D(5) [of k] look by (auto simp: runs_simps)
        next
          case nd: False
          show ?thesis
          proof (cases "map_of (tx_overlay x) k")
            case (Some rec)
            then have v: "map_of vs k = Some rec" using D(5) [of k] nd by simp
            show ?thesis using nd Some same look v decodable_row [OF D(3) v] by (auto simp: runs_simps)
          next
            case None
            then have v: "map_of vs k = map_of (bt_es t) k" using D(5) [of k] nd by simp
            have st: "stores (en_tree ?e) t n a b R" using I(2) by simp
            have search: "runs (tree_search k) (en_tree ?e) (\<lambda>r s'. runs (case r of None \<Rightarrow> ret None | Some b \<Rightarrow> bnd (lift_res (decode_record b)) (\<lambda>row. ret (Some row))) (?e\<lparr>en_tree := s'\<rparr>)
              (\<lambda>r' e'. r' = map_of (rows_of vs) k \<and> en_locks e' = g' \<and> stores (en_tree e') t n a b R \<and> step (en_tree e) (en_tree e')))"
            proof (rule runs_weaken [OF tree_search_step [OF st]], goal_cases)
              case (1 r s')
              then show ?case
                using look v decodable_row [OF D(3), of k] by (cases "map_of (bt_es t) k") (auto simp: runs_simps)
            qed
            then show ?thesis
              unfolding engine_get_def runs_bnd runs_parts if_not_P [OF nd] None option.case snd_conv fst_conv
              by (elim runs_weaken) (use I same in \<open>auto simp: runs_simps txn_inv_def txn_step_def\<close>)
          qed
        qed
      qed
    qed
  next
    case (TScan lo hi)
    have k: "{lo..hi} \<subseteq> K" using ok TScan by simp
    have es: "keys_sorted (bt_es t)" by (rule stores_sorted [OF I(2)])
    have dec: "decodable (range_sorted lo hi vs)" by (rule decodable_sub(2) [OF D(3)])
    have sub: "fst ` set (range_sorted lo hi (rows_of vs)) \<subseteq> K" using k by (auto simp: range_sorted_def)
    show ?thesis
      unfolding TScan run_txn_op.simps txn_scan_def runs_bnd runs_check_open fst_conv runs_parts snd_conv
      using I(1)
    proof (intro conjI, goal_cases)
      case 2
      show ?case
      proof (rule runs_weaken [OF range_scan_step [OF I(2)]], goal_cases)
        case (1 rows s')
        then have r: "rows = range_sorted lo hi (bt_es t)" "step (en_tree e) s'" "stores s' t n a b R" by simp_all
        let ?e = "e\<lparr>en_tree := s'\<rparr>"
        have lf: "locks_free (en_locks ?e) (tx_txn_id x) K" using I(5) by simp
        show ?case
          unfolding r(1) scan_base_ok [OF I(4) es] decode_rows [OF dec] runs_basic rows_of_range
          by (rule tx_locks_law [OF lf sub])
            (use I r in \<open>auto simp: runs_simps txn_inv_def txn_step_def\<close>)
      qed
    qed
  qed
qed

subsection \<open>Commit\<close>

lemma txn_fields_law:
  assumes st: "stores s t n a b R"
  shows "stores (s\<lparr>pg_txn_writing := w, pg_deferred := d\<rparr>) t n a b R" "stores (s\<lparr>pg_next_txn_id := i\<rparr>) t n a b R"
proof -
  let ?s = "s\<lparr>pg_txn_writing := w, pg_deferred := d\<rparr>" and ?i = "s\<lparr>pg_next_txn_id := i\<rparr>"
  have c: "cached ?s = cached s" "is_dirty ?s = is_dirty s" "disk_node ?s = disk_node s" "limit ?s = limit s"
    by (simp_all add: cached_def is_dirty_def disk_node_def limit_def fun_eq_iff cong: option.case_cong)
  moreover from c have "nview ?s = nview s" by (simp add: nview_def fun_eq_iff cong: option.case_cong)
  ultimately have "holds ?s V n a b D = holds s V n a b D" for V D
    by (simp add: holds_def pool_ok_def saved_def log_room_def)
  then show "stores ?s t n a b R" using st by (simp add: stores_def)
  have ci: "cached ?i = cached s" "is_dirty ?i = is_dirty s" "disk_node ?i = disk_node s" "limit ?i = limit s"
    by (simp_all add: cached_def is_dirty_def disk_node_def limit_def fun_eq_iff cong: option.case_cong)
  moreover from ci have "nview ?i = nview s" by (simp add: nview_def fun_eq_iff cong: option.case_cong)
  ultimately have "holds ?i V n a b D = holds s V n a b D" for V D
    by (simp add: holds_def pool_ok_def saved_def log_room_def)
  then show "stores ?i t n a b R" using st by (simp add: stores_def)
qed

lemma log_txn_law:
  assumes st: "stores s t n a (Suc b) R" and app: "\<And>w. w_next_lsn w < 2 ^ 64 \<Longrightarrow> write i w = (Inr (w_next_lsn w), logs r w)"
    and Q: "\<And>s'. stores s' t n a b R \<Longrightarrow> step s s' \<Longrightarrow> Q () s'"
  shows "runs (log_txn write i) s Q"
proof (cases "pg_wal s")
  case None
  then show ?thesis
    using Q [OF stores_weaken [OF st]] by (simp add: log_txn_def if_wal_def runs_simps)
next
  case (Some w)
  obtain V where V: "holds s V n a (Suc b) {}" "reps V t" using st by (elim storesE)
  have lsn: "w_next_lsn w < 2 ^ 64" using V(1) Some by (simp add: holds_def log_room_def)
  note wl = wal_logged [OF V(1) Some, of r]
  have "stores (s\<lparr>pg_wal := Some (logs r w)\<rparr>) t n a b R" by (rule stores_step [OF st conjunct1 [OF wl] conjunct2 [OF wl] V(2)])
  then have "Q () (s\<lparr>pg_wal := Some (logs r w)\<rparr>)" using wl by (intro Q) simp_all
  moreover have "log_txn write i s = (Inr (), s\<lparr>pg_wal := Some (logs r w)\<rparr>)"
    using Some app [OF lsn] by (simp add: log_txn_def if_wal_def bnd_def run_wal_def)
  ultimately show ?thesis by (intro runs_I)
qed

lemma stores_kept:
  assumes st: "stores s t n a b R" and k: "kept s s'" and h: "holds s' V n a' b' {}" and r: "reps V t"
  shows "stores s' t n a' b' R"
proof -
  have "bt_root_id s' = bt_root_id s" "pg_root s' = pg_root s" "pg_order s' = pg_order s"
    using k by (cases s; cases s'; simp add: kept_def)+
  then show ?thesis using st h r by (auto simp: stores_def)
qed

lemma fsync_store_law:
  assumes st: "stores s t n a b R" and Q: "\<And>s'. stores s' t n a b R \<Longrightarrow> same_files s s' \<Longrightarrow> Q () s'"
  shows "runs (if_wal (run_wal (modify wal_fsync))) s Q"
proof -
  obtain V where V: "holds s V n a b {}" "reps V t" using st by (elim storesE)
  show ?thesis
    by (rule fsync_law [OF V(1)]) (rule Q, rule stores_kept [OF st _ _ V(2)], auto simp: kept_def same_files_def)
qed

fun write_op :: "txn_write \<Rightarrow> tree_op" where
  "write_op (OpPut k v) = Insert k v"
| "write_op (OpDelete k) = Delete k"

lemma write_op_spec: "op_ok R (write_op w) = write_ok R w" "snd (spec_op (write_op w) es) = write_es w es"
  by (cases w; simp)+

lemma apply_write_run: "runs (run_op (write_op w)) s (\<lambda>_. Q) \<Longrightarrow> runs (apply_write w) s (\<lambda>_. Q)"
  by (cases w) (simp_all add: runs_simps)

lemma apply_writes_law:
  assumes "stores s t n (a + length ws * (H + 2)) (b + length ws * (3 * H + 4)) R" "list_all (write_ok R) ws"
    and "length (bt_es t) + length ws < 2 ^ Suc H"
  shows "runs (for_each apply_write ws) s (\<lambda>_ s'. \<exists>t' n'. bt_es t' = fold write_es ws (bt_es t) \<and> same_files s s' \<and> stores s' t' n' a b R)"
  using assms
proof (induction ws arbitrary: s t n)
  case Nil
  then show ?case unfolding for_each.simps runs_basic by auto
next
  case (Cons w ws)
  have st: "stores s t n ((a + length ws * (H + 2)) + (H + 2)) ((b + length ws * (3 * H + 4)) + (3 * H + 4)) R"
    using Cons.prems(1) by (simp add: add.commute add.left_commute add_mult_distrib)
  have h: "length (bt_es t) < 2 ^ Suc H" using Cons.prems(3) by simp
  have ok: "op_ok R (write_op w)" "list_all (write_ok R) ws" using Cons.prems(2) by (simp_all add: write_op_spec)
  let ?P = "\<lambda>s1 :: bplus_tree. \<exists>t1 n1. bt_es t1 = write_es w (bt_es t) \<and> same_files s s1 \<and> stores s1 t1 n1 (a + length ws * (H + 2)) (b + length ws * (3 * H + 4)) R"
  have "runs (apply_write w) s (\<lambda>_. ?P)"
    by (rule apply_write_run, rule runs_weaken [OF run_op_law [OF st ok(1) h]]) (auto simp: write_op_spec)
  then show ?case
    unfolding for_each.simps runs_bnd
  proof (rule runs_weaken)
    fix s1 :: bplus_tree assume "?P s1"
    then obtain t1 n1 where s1: "bt_es t1 = write_es w (bt_es t)" "same_files s s1"
      "stores s1 t1 n1 (a + length ws * (H + 2)) (b + length ws * (3 * H + 4)) R" by blast
    have "length (bt_es t1) \<le> Suc (length (bt_es t))" using spec_op_length [of "write_op w" "bt_es t"] by (simp add: write_op_spec s1(1))
    then have "length (bt_es t1) + length ws < 2 ^ Suc H" using Cons.prems(3) by simp
    from Cons.IH [OF s1(3) ok(2) this] show "runs (for_each apply_write ws) s1 (\<lambda>_ s'. \<exists>t' n'. bt_es t' = fold write_es (w # ws) (bt_es t) \<and> same_files s s' \<and> stores s' t' n' a b R)"
      by (rule runs_weaken) (use s1(1) same_files_trans [OF s1(2)] in auto)
  qed
qed

text \<open>\<^verbatim>\<open>end_txn_write\<close> with nothing deferred.\<close>

lemma end_txn_law:
  assumes "stores s t n a b R" "pg_deferred s = []" and Q: "\<And>s'. stores s' t n a b R \<Longrightarrow> pg_next_txn_id s' = pg_next_txn_id s \<Longrightarrow> Q () s'"
  shows "runs end_txn_write s Q"
proof -
  have "end_txn_write s = (Inr (), s\<lparr>pg_txn_writing := False, pg_deferred := []\<rparr>)"
    using assms(2) by (simp add: end_txn_write_def bnd_def)
  then show ?thesis by (rule runs_I) (rule Q, rule txn_fields_law(1) [OF assms(1)], simp)
qed

lemma commit_writes_law:
  assumes st: "stores s t n (a + length ws * (H + 2)) (Suc (Suc (b + length ws * (3 * H + 4)))) R" and ok: "list_all (write_ok R) ws"
    and h: "length (bt_es t) + length ws < 2 ^ Suc H" and i: "i < 2 ^ 64"
  shows "runs (bnd (log_txn append_txn_begin i) (\<lambda>_. bnd begin_txn_write (\<lambda>_. bnd (finally_act
      (bnd (for_each apply_write ws) (\<lambda>_. bnd (log_txn append_txn_commit i) (\<lambda>_. if_wal (run_wal (modify wal_fsync)))))
      end_txn_write) (\<lambda>_. ret ())))) s
    (\<lambda>_ s'. \<exists>t' n'. bt_es t' = fold write_es ws (bt_es t) \<and> stores s' t' n' a b R)"
  unfolding runs_bnd [of "log_txn w i" for w i]
proof (rule log_txn_law [OF st], rule append_ok(4) [OF _ i], assumption, goal_cases)
  case s1: (1 s1)
  let ?s1 = "s1\<lparr>pg_txn_writing := True, pg_deferred := []\<rparr>"
  have st1: "stores ?s1 t n (a + length ws * (H + 2)) (Suc b + length ws * (3 * H + 4)) R"
    using txn_fields_law(1) [OF s1(1)] by simp
  show ?case
    unfolding begin_txn_write_def runs_bnd [of "modify f" for f] runs_basic runs_bnd [of "finally_act m f" for m f] runs_finally
      runs_bnd [of "for_each apply_write ws"]
  proof (rule runs_weaken [OF apply_writes_law [OF st1 ok h]], goal_cases)
    case (1 u s2)
    then obtain t2 n2 where s2: "bt_es t2 = fold write_es ws (bt_es t)" "same_files ?s1 s2" "stores s2 t2 n2 a (Suc b) R" by blast
    show ?case
      unfolding runs_bnd [of "log_txn w i" for w i]
    proof (rule log_txn_law [OF s2(3)], rule append_ok(5) [OF _ i], assumption, goal_cases)
      case s3: (1 s3)
      show ?case
      proof (rule fsync_store_law [OF s3(1)], goal_cases)
        case s4: (1 s4)
        have "pg_deferred s4 = []" using s4(2) s3(2) s2(2) by (simp add: same_files_def step_def)
        then show ?case by (rule end_txn_law [OF s4(1)]) (use s2(1) in auto)
      qed
    qed
  qed
qed

subsection \<open>A whole transaction\<close>

fun run_txn_ops :: "txn_op list \<Rightarrow> txn_out list txn_act" where
  "run_txn_ops [] = ret []"
| "run_txn_ops (x # xs) = bnd (run_txn_op x) (\<lambda>y. bnd (run_txn_ops xs) (\<lambda>ys. ret (y # ys)))"

fun spec_txn_ops :: "txn_op list \<Rightarrow> (int \<times> val list) list \<Rightarrow> txn_out list \<times> (int \<times> val list) list" where
  "spec_txn_ops [] rs = ([], rs)"
| "spec_txn_ops (x # xs) rs = (case spec_txn_op x rs of (y, rs') \<Rightarrow> case spec_txn_ops xs rs' of (ys, rs'') \<Rightarrow> (y # ys, rs''))"

text \<open>\<^verbatim>\<open>with db.begin() as txn: ...\<close>, where the block may raise after the operations; an exception of the block
  or of an operation rolls back and is raised again.\<close>

definition run_txn :: "py_error option \<Rightarrow> txn_op list \<Rightarrow> (engine, txn_out list) act" where
  "run_txn raised ops =
     bnd engine_begin (\<lambda>x e.
       case bnd (run_txn_ops ops) (\<lambda>outs. case raised of None \<Rightarrow> ret outs | Some err \<Rightarrow> throw err) (x, e) of
         (Inr outs, s) \<Rightarrow> (case txn_exit False s of (Inl err, (_, e')) \<Rightarrow> (Inl err, e') | (Inr _, (_, e')) \<Rightarrow> (Inr outs, e'))
       | (Inl err, s) \<Rightarrow> (case txn_exit True s of (Inl err', (_, e')) \<Rightarrow> (Inl err', e') | (Inr _, (_, e')) \<Rightarrow> (Inl err, e')))"

lemma txn_ops_law:
  assumes "txn_inv x e t n a b R vs K" "list_all (txn_op_ok R K) ops"
  shows "runs (run_txn_ops ops) (x, e) (\<lambda>ys s'. \<exists>vs'. (ys, rows_of vs') = spec_txn_ops ops (rows_of vs) \<and>
    txn_inv (fst s') (snd s') t n a b R vs' K \<and> tx_txn_id (fst s') = tx_txn_id x \<and>
    length (tx_ops (fst s')) \<le> length (tx_ops x) + length ops \<and> others_kept (tx_txn_id x) (en_locks e) (en_locks (snd s')) \<and>
    (tx_ops (fst s') = [] \<longleftrightarrow> tx_ops x = [] \<and> \<not> list_ex is_write ops))"
  using assms
proof (induction ops arbitrary: x e vs)
  case Nil
  then show ?case unfolding run_txn_ops.simps runs_basic by auto
next
  case (Cons op ops)
  have ok: "txn_op_ok R K op" "list_all (txn_op_ok R K) ops" using Cons.prems(2) by simp_all
  show ?case
    unfolding run_txn_ops.simps runs_bnd [of "run_txn_op op"]
  proof (rule runs_weaken [OF txn_op_law [OF Cons.prems(1) ok(1)]], goal_cases)
    case (1 y s1)
    obtain x1 e1 where s: "s1 = (x1, e1)" by (cases s1)
    obtain vs1 where s1: "y = fst (spec_txn_op op (rows_of vs))" "rows_of vs1 = snd (spec_txn_op op (rows_of vs))" "txn_inv x1 e1 t n a b R vs1 K"
      "tx_txn_id x1 = tx_txn_id x" "length (tx_ops x1) \<le> Suc (length (tx_ops x))" "others_kept (tx_txn_id x) (en_locks e) (en_locks e1)"
      "tx_ops x1 = [] \<longleftrightarrow> tx_ops x = [] \<and> \<not> is_write op"
      using 1 by (auto simp: s txn_step_def)
    show ?case
      unfolding s runs_bnd runs_basic
    proof (rule runs_weaken [OF Cons.IH [OF s1(3) ok(2)]], goal_cases)
      case (1 ys s2)
      then obtain vs2 where s2: "(ys, rows_of vs2) = spec_txn_ops ops (rows_of vs1)" "txn_inv (fst s2) (snd s2) t n a b R vs2 K"
        "tx_txn_id (fst s2) = tx_txn_id x" "length (tx_ops (fst s2)) \<le> length (tx_ops x1) + length ops"
        "others_kept (tx_txn_id x) (en_locks e1) (en_locks (snd s2))" "tx_ops (fst s2) = [] \<longleftrightarrow> tx_ops x1 = [] \<and> \<not> list_ex is_write ops"
        unfolding s1(4) by blast
      have "(y # ys, rows_of vs2) = spec_txn_ops (op # ops) (rows_of vs)"
        using s1(1,2) s2(1) by (cases "spec_txn_op op (rows_of vs)"; cases "spec_txn_ops ops (rows_of vs1)") auto
      then show ?case
        using s1(5,7) s2 others_kept_trans [OF s1(6) s2(5)] by (intro exI [of _ vs2]) auto
    qed
  qed
qed

text \<open>What the end of a transaction leaves.\<close>

definition txn_end :: "nat \<Rightarrow> engine \<Rightarrow> (int \<times> bytes) list \<Rightarrow> nat \<Rightarrow> nat \<Rightarrow> nat \<Rightarrow> int set \<Rightarrow> bool \<Rightarrow> engine \<Rightarrow> bool" where
  "txn_end i e es a b R K released e' \<longleftrightarrow> (\<exists>t' n'. stores (en_tree e') t' n' a b R \<and> bt_es t' = es) \<and>
     locks_free (en_locks e') i K \<and> others_kept i (en_locks e) (en_locks e') \<and>
     (released \<longrightarrow> (\<forall>j m. (i, m) \<notin> set (holders_at (en_locks e') j)))"

lemma commit_law:
  assumes inv: "txn_inv x e t n (a + L * (H + 2)) (Suc (Suc (b + L * (3 * H + 4)))) R vs K" and L: "length (tx_ops x) \<le> L"
    and h: "length (bt_es t) + L < 2 ^ Suc H" and i: "tx_txn_id x < 2 ^ 64"
  shows "runs txn_commit (x, e) (\<lambda>_ s'. txn_end (tx_txn_id x) e vs a b R K (tx_ops x \<noteq> []) (snd s'))"
proof -
  let ?ws = "tx_ops x"
  have I: "\<not> tx_done x" "stores (en_tree e) t n (a + L * (H + 2)) (Suc (Suc (b + L * (3 * H + 4)))) R"
    "txn_sees x (bt_es t) vs" "locks_free (en_locks e) (tx_txn_id x) K" "list_all (write_ok R) ?ws"
    using inv by (simp_all add: txn_inv_def)
  have vs: "vs = fold write_es ?ws (bt_es t)" using txn_seesD(1) [OF I(3)] .
  show ?thesis
  proof (cases "?ws = []")
    case True
    have "stores (en_tree e) t n a b R" by (rule stores_weaken [OF I(2)]) simp_all
    then have "txn_end (tx_txn_id x) e vs a b R K (tx_ops x \<noteq> []) e" using I(4) True vs by (auto simp: txn_end_def)
    then show ?thesis using I(1) True by (simp add: txn_commit_def runs_simps)
  next
    case False
    have m: "length ?ws * c \<le> L * c" for c using L by (rule mult_right_mono) simp
    have st: "stores (en_tree e) t n (a + length ?ws * (H + 2)) (Suc (Suc (b + length ?ws * (3 * H + 4)))) R"
      by (rule stores_weaken [OF I(2)]) (use m [of "H + 2"] m [of "3 * H + 4"] in linarith)+
    have hw: "length (bt_es t) + length ?ws < 2 ^ Suc H" using h L by linarith
    have tree: "runs (bnd (log_txn append_txn_begin (tx_txn_id x)) (\<lambda>_. bnd begin_txn_write (\<lambda>_. bnd (finally_act
      (bnd (for_each apply_write ?ws) (\<lambda>_. bnd (log_txn append_txn_commit (tx_txn_id x)) (\<lambda>_. if_wal (run_wal (modify wal_fsync)))))
      end_txn_write) (\<lambda>_. ret ())))) (en_tree e) (\<lambda>_ s'. \<exists>t' n'. bt_es t' = vs \<and> stores s' t' n' a b R)"
      unfolding vs by (rule commit_writes_law [OF st I(5) hw i])
    have locks: "runs (release_all (tx_txn_id x)) (en_locks e) (\<lambda>_ g'. locks_free g' (tx_txn_id x) K \<and> others_kept (tx_txn_id x) (en_locks e) g' \<and>
      (\<forall>j m. (tx_txn_id x, m) \<notin> set (holders_at g' j)))" by (rule release_law [OF I(4)])
    have goal: "runs (bnd (log_txn append_txn_begin (tx_txn_id x)) (\<lambda>_. bnd begin_txn_write (\<lambda>_. bnd (finally_act
      (bnd (for_each apply_write ?ws) (\<lambda>_. bnd (log_txn append_txn_commit (tx_txn_id x)) (\<lambda>_. if_wal (run_wal (modify wal_fsync)))))
      end_txn_write) (\<lambda>_. ret ())))) (en_tree e) (\<lambda>_ s'. runs (release_all (tx_txn_id x)) (en_locks e)
        (\<lambda>_ g'. txn_end (tx_txn_id x) e vs a b R K (tx_ops x \<noteq> []) (e\<lparr>en_tree := s', en_locks := g'\<rparr>)))"
      by (rule runs_weaken [OF tree], rule runs_weaken [OF locks]) (auto simp: txn_end_def)
    then show ?thesis using I(1) False by (simp add: txn_commit_def runs_simps)
  qed
qed

lemma rollback_law:
  assumes inv: "txn_inv x e t n a (Suc b) R vs K" and i: "tx_txn_id x < 2 ^ 64"
  shows "runs txn_rollback (x, e) (\<lambda>_ s'. txn_end (tx_txn_id x) e (bt_es t) a b R K True (snd s'))"
proof -
  have I: "\<not> tx_done x" "stores (en_tree e) t n a (Suc b) R" "locks_free (en_locks e) (tx_txn_id x) K"
    using inv by (simp_all add: txn_inv_def)
  have locks: "runs (release_all (tx_txn_id x)) (en_locks e) (\<lambda>_ g'. locks_free g' (tx_txn_id x) K \<and> others_kept (tx_txn_id x) (en_locks e) g' \<and>
      (\<forall>j m. (tx_txn_id x, m) \<notin> set (holders_at g' j)))" by (rule release_law [OF I(3)])
  have fin: "runs (release_all (tx_txn_id x)) (en_locks e) (\<lambda>_ g'. txn_end (tx_txn_id x) e (bt_es t) a b R K True (e\<lparr>en_tree := s', en_locks := g'\<rparr>))"
    if "stores s' t n a b R" for s'
    by (rule runs_weaken [OF locks]) (use that in \<open>auto simp: txn_end_def\<close>)
  show ?thesis
  proof (cases "tx_ops x = []")
    case True
    have "runs (release_all (tx_txn_id x)) (en_locks e) (\<lambda>_ g'. txn_end (tx_txn_id x) e (bt_es t) a b R K True (e\<lparr>en_locks := g'\<rparr>))"
      using fin [OF stores_weaken [OF I(2)]] by simp
    then show ?thesis using I(1) True by (simp add: txn_rollback_def runs_simps)
  next
    case False
    have "runs (log_txn append_txn_abort (tx_txn_id x)) (en_tree e) (\<lambda>_ s'. runs (release_all (tx_txn_id x)) (en_locks e)
      (\<lambda>_ g'. txn_end (tx_txn_id x) e (bt_es t) a b R K True (e\<lparr>en_tree := s', en_locks := g'\<rparr>)))"
      by (rule log_txn_law [OF I(2)], rule append_ok(6) [OF _ i], assumption) (rule fin)
    then show ?thesis using I(1) False by (simp add: txn_rollback_def runs_simps)
  qed
qed

lemma begin_law:
  assumes st: "stores (en_tree e) t n a b R" and dec: "decodable (bt_es t)" and lf: "locks_free (en_locks e) (pg_next_txn_id (en_tree e)) K"
  obtains x e' where "engine_begin e = (Inr x, e')" "txn_inv x e' t n a b R (bt_es t) K" "tx_txn_id x = pg_next_txn_id (en_tree e)"
    "tx_ops x = []" "en_locks e' = en_locks e"
proof -
  let ?i = "pg_next_txn_id (en_tree e)"
  let ?x = "\<lparr>tx_txn_id = ?i, tx_ops = [], tx_overlay = [], tx_deleted = [], tx_done = False\<rparr>"
  let ?e = "e\<lparr>en_tree := (en_tree e)\<lparr>pg_next_txn_id := ?i + 1\<rparr>\<rparr>"
  have "engine_begin e = (Inr ?x, ?e)"
    by (simp add: engine_begin_def on_tree_def on_part_def alloc_txn_id_def bnd_def)
  moreover have "txn_inv ?x ?e t n a b R (bt_es t) K"
    using txn_fields_law(2) [OF st] dec lf stores_sorted [OF st] by (simp add: txn_inv_def txn_sees_def)
  ultimately show ?thesis by (rule that) simp_all
qed

lemma run_body:
  assumes "txn_inv x e t n a b R (bt_es t) K" "list_all (txn_op_ok R K) ops" "tx_ops x = []"
  obtains outs x' e' vs where "run_txn_ops ops (x, e) = (Inr outs, (x', e'))" "(outs, rows_of vs) = spec_txn_ops ops (rows_of (bt_es t))"
    "txn_inv x' e' t n a b R vs K" "tx_txn_id x' = tx_txn_id x" "length (tx_ops x') \<le> length ops"
    "others_kept (tx_txn_id x) (en_locks e) (en_locks e')" "tx_ops x' = [] \<longleftrightarrow> \<not> list_ex is_write ops"
  using txn_ops_law [OF assms(1,2)] assms(3) unfolding runs_def by auto

subsection \<open>Properties\<close>

text \<open>C8: A transaction without contention on its keys returns and refines the sorted list of rows: every get and scan sees the committed rows with the
  transaction's own puts and deletes applied, the commit makes exactly these rows the engine's content, locks of other transactions are
  untouched, and after a commit that wrote something no lock of the transaction is left.\<close>

theorem transaction_commits:
  assumes st: "stores (en_tree e) t n (a + length ops * (H + 2)) (Suc (Suc (b + length ops * (3 * H + 4)))) R"
    and dec: "decodable (bt_es t)" and lf: "locks_free (en_locks e) (pg_next_txn_id (en_tree e)) K"
    and ok: "list_all (txn_op_ok R K) ops" and h: "length (bt_es t) + length ops < 2 ^ Suc H" and i: "pg_next_txn_id (en_tree e) < 2 ^ 64"
  shows "\<exists>outs e' t' n'. run_txn None ops e = (Inr outs, e') \<and> stores (en_tree e') t' n' a b R \<and>
    (outs, rows_of (bt_es t')) = spec_txn_ops ops (rows_of (bt_es t)) \<and>
    others_kept (pg_next_txn_id (en_tree e)) (en_locks e) (en_locks e') \<and>
    (list_ex is_write ops \<longrightarrow> (\<forall>k m. (pg_next_txn_id (en_tree e), m) \<notin> set (holders_at (en_locks e') k)))"
proof -
  let ?i = "pg_next_txn_id (en_tree e)"
  obtain x e1 where x: "engine_begin e = (Inr x, e1)" "txn_inv x e1 t n (a + length ops * (H + 2)) (Suc (Suc (b + length ops * (3 * H + 4)))) R (bt_es t) K"
    "tx_txn_id x = ?i" "tx_ops x = []" "en_locks e1 = en_locks e"
    by (rule begin_law [OF st dec lf]) (rule that)
  obtain outs x2 e2 vs where s2: "run_txn_ops ops (x, e1) = (Inr outs, (x2, e2))" "(outs, rows_of vs) = spec_txn_ops ops (rows_of (bt_es t))"
    "txn_inv x2 e2 t n (a + length ops * (H + 2)) (Suc (Suc (b + length ops * (3 * H + 4)))) R vs K" "tx_txn_id x2 = ?i" "length (tx_ops x2) \<le> length ops"
    "others_kept ?i (en_locks e) (en_locks e2)" "tx_ops x2 = [] \<longleftrightarrow> \<not> list_ex is_write ops"
    by (rule run_body [OF x(2) ok x(4)]) (rule that, simp_all add: x(3,5))
  have i2: "tx_txn_id x2 < 2 ^ 64" using i s2(4) by simp
  obtain u x3 e3 where c: "txn_commit (x2, e2) = (Inr u, (x3, e3))" "txn_end ?i e2 vs a b R K (tx_ops x2 \<noteq> []) e3"
    using commit_law [OF s2(3,5) h i2] unfolding s2(4) runs_def by auto
  have run: "run_txn None ops e = (Inr outs, e3)"
    using x(1) s2(1) c(1) by (simp add: run_txn_def bnd_def txn_exit_def)
  show ?thesis
    using c(2) run s2(2,7) others_kept_trans [OF s2(6)] unfolding txn_end_def by blast
qed

text \<open>C9: An exception in the block rolls back: it is raised again, the engine's content is the committed one, whatever the
  transaction had staged, and its locks are released.\<close>

theorem transaction_rolls_back:
  assumes st: "stores (en_tree e) t n a (Suc b) R" and dec: "decodable (bt_es t)"
    and lf: "locks_free (en_locks e) (pg_next_txn_id (en_tree e)) K" and ok: "list_all (txn_op_ok R K) ops" and i: "pg_next_txn_id (en_tree e) < 2 ^ 64"
  shows "\<exists>e' t' n'. run_txn (Some err) ops e = (Inl err, e') \<and> stores (en_tree e') t' n' a b R \<and> bt_es t' = bt_es t \<and>
    others_kept (pg_next_txn_id (en_tree e)) (en_locks e) (en_locks e') \<and>
    (\<forall>k m. (pg_next_txn_id (en_tree e), m) \<notin> set (holders_at (en_locks e') k))"
proof -
  let ?i = "pg_next_txn_id (en_tree e)"
  obtain x e1 where x: "engine_begin e = (Inr x, e1)" "txn_inv x e1 t n a (Suc b) R (bt_es t) K"
    "tx_txn_id x = ?i" "tx_ops x = []" "en_locks e1 = en_locks e"
    by (rule begin_law [OF st dec lf]) (rule that)
  obtain outs x2 e2 vs where s2: "run_txn_ops ops (x, e1) = (Inr outs, (x2, e2))" "txn_inv x2 e2 t n a (Suc b) R vs K" "tx_txn_id x2 = ?i"
    "others_kept ?i (en_locks e) (en_locks e2)"
    by (rule run_body [OF x(2) ok x(4)]) (rule that, simp_all add: x(3,5))
  have i2: "tx_txn_id x2 < 2 ^ 64" using i s2(3) by simp
  obtain u x3 e3 where c: "txn_rollback (x2, e2) = (Inr u, (x3, e3))" "txn_end ?i e2 (bt_es t) a b R K True e3"
    using rollback_law [OF s2(2) i2] unfolding s2(3) runs_def by auto
  have run: "run_txn (Some err) ops e = (Inl err, e3)"
    using x(1) s2(1) c(1) by (simp add: run_txn_def bnd_def txn_exit_def)
  show ?thesis
    using c(2) run others_kept_trans [OF s2(4)] unfolding txn_end_def by blast
qed

text \<open>An engine with one row, for the witnesses.\<close>

lemma locks_free_init: "locks_free lm_init t K"
  by (simp add: locks_free_def lm_init_def mgr_ok_def entry_at_def keys_of_def holders_ok_def edges_def out_edges_def acyclic_def)

lemma sample_engine:
  obtains e t n where "stores (en_tree (e :: engine)) t n 20 50 100" "bt_es t = [(5, sample_record)]" "decodable (bt_es t)"
    "rows_of (bt_es t) = [(5, [VInt 7])]" "en_locks e = lm_init" "pg_next_txn_id (en_tree e) = 1"
proof -
  obtain s t n where s: "stores (s :: bplus_tree) t n 20 50 100" "bt_es t = [(5, sample_record)]" using sample_tree by blast
  show ?thesis
    by (rule that [of "\<lparr>en_tree = s\<lparr>pg_next_txn_id := 1\<rparr>, en_locks = lm_init\<rparr>" t n])
      (use s sample_record_row txn_fields_law(2) [OF s(1), of 1] in \<open>simp_all add: decodable_def rows_of_def row_of_def\<close>)
qed

theorem transaction_commits_witness:
  "\<exists>e e'. run_txn None [TGet 5, TPut 6 [VInt 7], TScan 0 9] e =
     (Inr [TRow (Some [VInt 7]), TDone, TRows [(5, [VInt 7]), (6, [VInt 7])]], e') \<and> (\<forall>k m. (1, m) \<notin> set (holders_at (en_locks e') k))"
proof -
  let ?ops = "[TGet 5, TPut 6 [VInt 7], TScan 0 9]"
  obtain e t n where e: "stores (en_tree (e :: engine)) t n 20 50 100" "bt_es t = [(5, sample_record)]" "decodable (bt_es t)"
    "rows_of (bt_es t) = [(5, [VInt 7])]" "en_locks e = lm_init" "pg_next_txn_id (en_tree e) = 1"
    by (rule sample_engine)
  have st: "stores (en_tree e) t n (8 + length ?ops * (2 + 2)) (Suc (Suc (18 + length ?ops * (3 * 2 + 4)))) 100" using e(1) by simp
  have ok: "list_all (txn_op_ok 100 {0..9}) ?ops" using sample_record_row(1) by (simp add: key_ok_def sample_record_def)
  have lf: "locks_free (en_locks e) (pg_next_txn_id (en_tree e)) {0..9}" by (simp add: e(5) locks_free_init)
  have h: "length (bt_es t) + length ?ops < 2 ^ Suc 2" "pg_next_txn_id (en_tree e) < 2 ^ 64" by (simp_all add: e(2,6))
  have "spec_txn_ops ?ops (rows_of (bt_es t)) = ([TRow (Some [VInt 7]), TDone, TRows [(5, [VInt 7]), (6, [VInt 7])]], [(5, [VInt 7]), (6, [VInt 7])])"
    by (simp add: e(4) range_sorted_def)
  then obtain e' where "run_txn None ?ops e = (Inr [TRow (Some [VInt 7]), TDone, TRows [(5, [VInt 7]), (6, [VInt 7])]], e')"
    "\<forall>k m. (1, m) \<notin> set (holders_at (en_locks e') k)"
    using transaction_commits [OF st e(3) lf ok h] by (auto simp: e(6))
  then show ?thesis by blast
qed

theorem transaction_rolls_back_witness:
  "\<exists>e e' t n. run_txn (Some ValueError) [TPut 6 [VInt 7], TDelete 5] e = (Inl ValueError, e') \<and>
     stores (en_tree e') t n 20 49 100 \<and> bt_es t = [(5, sample_record)]"
proof -
  let ?ops = "[TPut 6 [VInt 7], TDelete 5]"
  obtain e t n where e: "stores (en_tree (e :: engine)) t n 20 50 100" "bt_es t = [(5, sample_record)]" "decodable (bt_es t)"
    "en_locks e = lm_init" "pg_next_txn_id (en_tree e) = 1"
    by (rule sample_engine)
  have st: "stores (en_tree e) t n 20 (Suc 49) 100" using e(1) by simp
  have ok: "list_all (txn_op_ok 100 {0..9}) ?ops" using sample_record_row(1) by (simp add: key_ok_def sample_record_def)
  have lf: "locks_free (en_locks e) (pg_next_txn_id (en_tree e)) {0..9}" by (simp add: e(4) locks_free_init)
  have i: "pg_next_txn_id (en_tree e) < 2 ^ 64" by (simp add: e(5))
  show ?thesis using transaction_rolls_back [OF st e(3) lf ok i, of ValueError] by (auto simp: e(2))
qed

text \<open>Locks are only touched by calls on the lock manager.\<close>

lemma tree_part_keeps:
  assumes "on_engine (on_tree m) s = (r, s')"
  shows "fst s' = fst s \<and> en_locks (snd s') = en_locks (snd s)"
  using assms by (auto simp: on_engine_def on_tree_def on_part_def split: prod.splits)

lemma bnd_raises:
  "bnd m f s = (Inl err, s') \<Longrightarrow> m s = (Inl err, s') \<or> (\<exists>y t. m s = (Inr y, t) \<and> f y t = (Inl err, s'))"
  by (auto simp: bnd_def split: prod.splits sum.splits)

lemma finally_result:
  "finally_act m f s = (r, s') \<Longrightarrow> \<exists>r1 t r2. m s = (r1, t) \<and> f t = (r2, s')"
  by (auto simp: finally_act_def split: prod.splits sum.splits)

lemma release_never_raises: "on_engine (on_locks (release_all i)) s \<noteq> (Inl err, s')"
proof -
  obtain evs g' where "release_all i (en_locks (snd s)) = (Inr evs, g')"
    by (cases "release_keys i (keys_of (en_locks (snd s)) i) ((en_locks (snd s))\<lparr>lm_txn_keys := AList.delete i (lm_txn_keys (en_locks (snd s)))\<rparr>)")
      (simp add: release_all_def)
  then show ?thesis by (simp add: on_engine_def on_locks_def on_part_def)
qed

text \<open>C10: A commit that raises leaves the transaction closed with all its locks held: the rollback that the caller is told to perform does nothing.\<close>

theorem failed_commit_keeps_locks:
  assumes o: "\<not> tx_done x" and c: "txn_commit (x, e) = (Inl err, (x', e'))"
  shows "en_locks e' = en_locks e \<and> txn_rollback (x', e') = (Inr (), (x', e'))"
proof -
  let ?x = "x\<lparr>tx_done := True\<rparr>"
  have "fst (x', e') = ?x \<and> en_locks (snd (x', e')) = en_locks e"
    using c o unfolding txn_commit_def check_open_def tx_def upd_tx_def
    by (auto simp: runs_simps gets_def modify_def bnd_def [of "gets _"] bnd_def [of "modify _"] split: if_splits
      dest!: bnd_raises finally_result tree_part_keeps simp: release_never_raises)
  then show ?thesis by (simp add: txn_rollback_def tx_def gets_def bnd_def ret_def)
qed

lemma delete_without_root:
  assumes "pg_file s = None" "bp_frames (pg_pool s) = []"
  obtains s' where "tree_delete k s = (Inl KeyError, s')" "pg_deferred s' = pg_deferred s"
proof -
  have "\<exists>s'. tree_delete k s = (Inl KeyError, s') \<and> pg_deferred s' = pg_deferred s"
    using assms by (simp add: tree_delete_def find_path_def tree_fuel_def get_page_def pool_get_def bnd_def gets_def throw_def)
  then show ?thesis using that by blast
qed

lemma commit_without_root:
  assumes x: "\<not> tx_done x" "tx_ops x = [OpDelete k]" and s: "pg_file (en_tree e) = None" "bp_frames (pg_pool (en_tree e)) = []" "pg_wal (en_tree e) = None"
  obtains x' e' where "txn_commit (x, e) = (Inl KeyError, (x', e'))"
proof -
  let ?s = "(en_tree e)\<lparr>pg_txn_writing := True, pg_deferred := []\<rparr>"
  obtain s' where d: "tree_delete k ?s = (Inl KeyError, s')" "pg_deferred s' = []"
    by (rule delete_without_root [of ?s k]) (use s in auto)
  have l: "log_txn append_txn_begin i (en_tree e) = (Inr (), en_tree e)" for i
    using s(3) by (simp add: log_txn_def if_wal_def bnd_def gets_def ret_def)
  have b: "begin_txn_write (en_tree e) = (Inr (), ?s)" by (simp add: begin_txn_write_def modify_def)
  have f: "end_txn_write s' = (Inr (), s'\<lparr>pg_txn_writing := False, pg_deferred := []\<rparr>)"
    using d(2) by (simp add: end_txn_write_def bnd_def gets_def modify_def ret_def)
  show ?thesis
    by (rule that) (use x in \<open>simp add: txn_commit_def check_open_def tx_def upd_tx_def gets_def modify_def ret_def
      bnd_def [of "gets _"] bnd_def [of check_open] bnd_def [of "tx _"] bnd_def finally_act_def on_engine_def on_tree_def on_part_def l b f d(1)\<close>)
qed

theorem failed_commit_keeps_locks_witness:
  "\<exists>x e x' e'. txn_commit (x, e) = (Inl KeyError, (x', e')) \<and> holders_at (en_locks e) 5 = [(1, ModeX)] \<and>
     txn_rollback (x', e') = (Inr (), (x', e')) \<and> holders_at (en_locks e') 5 = [(1, ModeX)]"
proof -
  let ?x = "\<lparr>tx_txn_id = 1, tx_ops = [OpDelete 5], tx_overlay = [], tx_deleted = [5], tx_done = False\<rparr>"
  let ?s = "mk_tree (pg_empty 4 \<lparr>bp_capacity = 1, bp_frames = []\<rparr>) 1"
  let ?g = "\<lparr>lm_table = [(5, \<lparr>le_holders = [(1, ModeX)], le_waiters = []\<rparr>)], lm_txn_keys = [(1, [5])], lm_wait_for = [], lm_events = 0\<rparr>"
  let ?e = "\<lparr>en_tree = ?s, en_locks = ?g\<rparr>"
  have o: "\<not> tx_done ?x" by simp
  obtain x' e' where c: "txn_commit (?x, ?e) = (Inl KeyError, (x', e'))"
    by (rule commit_without_root [of ?x 5 ?e]) (simp_all add: mk_tree_def pg_empty_def pager.defs)
  have h: "holders_at (en_locks ?e) 5 = [(1, ModeX)]" by (simp add: entry_at_def)
  note after = failed_commit_keeps_locks [OF o c]
  have h': "holders_at (en_locks e') 5 = [(1, ModeX)]" unfolding conjunct1 [OF after] by (rule h)
  show ?thesis by (intro exI conjI) (rule c h conjunct2 [OF after] h')+
qed

lemma lock_first: "lm_acquire i k ModeS lm_init = (Inr (), \<lparr>lm_table = [(k, \<lparr>le_holders = [(i, ModeS)], le_waiters = []\<rparr>)],
    lm_txn_keys = [(i, [k])], lm_wait_for = [], lm_events = 0\<rparr>)"
  by (simp add: lm_acquire_def bnd_def ret_def acquire_try_def Let_def entry_at_def put_entry_def keys_of_def lm_init_def can_grant_def)

lemma lock_second:
  assumes "i \<noteq> j"
  shows "\<exists>g'. lm_acquire j k ModeX \<lparr>lm_table = [(k, \<lparr>le_holders = [(i, ModeS)], le_waiters = []\<rparr>)],
    lm_txn_keys = [(i, [k])], lm_wait_for = [], lm_events = 0\<rparr> = (Inl TimeoutError, g')"
  using assms by (simp add: lm_acquire_def bnd_def acquire_try_def Let_def entry_at_def put_entry_def keys_of_def can_grant_def
    has_cycle_def out_edges_def acquire_timeout_def split: if_splits)

text \<open>C11: A transaction that only read keeps its lock after its commit: the next transaction that writes the key times out.\<close>

theorem read_only_commit_keeps_locks:
  assumes st: "stores (en_tree e) t n a b R" and dec: "decodable (bt_es t)" and g: "en_locks e = lm_init"
  shows "\<exists>row e1 e2. run_txn None [TGet k] e = (Inr [TRow row], e1) \<and> run_txn None [TPut k new] e1 = (Inl TimeoutError, e2)"
proof -
  let ?i = "pg_next_txn_id (en_tree e)"
  let ?g = "\<lparr>lm_table = [(k, \<lparr>le_holders = [(?i, ModeS)], le_waiters = []\<rparr>)], lm_txn_keys = [(?i, [k])], lm_wait_for = [], lm_events = 0\<rparr>"
  let ?x = "\<lparr>tx_txn_id = ?i, tx_ops = [], tx_overlay = [], tx_deleted = [], tx_done = False\<rparr>"
  let ?e = "e\<lparr>en_tree := (en_tree e)\<lparr>pg_next_txn_id := Suc ?i\<rparr>\<rparr>"
  have st1: "stores (en_tree (?e\<lparr>en_locks := ?g\<rparr>)) t n a b R" using txn_fields_law(2) [OF st] by simp
  have "runs (engine_get k) (?e\<lparr>en_locks := ?g\<rparr>) (\<lambda>_ e'. en_locks e' = ?g \<and> pg_next_txn_id (en_tree e') = Suc ?i)"
    unfolding engine_get_def runs_bnd runs_parts
  proof (rule runs_weaken [OF tree_search_step [OF st1]], goal_cases)
    case (1 r s')
    then show ?case using decodable_row [OF dec, of k] by (cases "map_of (bt_es t) k") (auto simp: runs_simps step_def)
  qed
  then obtain row e1 where row: "engine_get k (?e\<lparr>en_locks := ?g\<rparr>) = (Inr row, e1)" "en_locks e1 = ?g" "pg_next_txn_id (en_tree e1) = Suc ?i"
    unfolding runs_def by auto
  have "run_txn None [TGet k] e = (Inr [TRow row], e1)"
    using row(1) lock_first [of ?i k] g
    by (simp add: run_txn_def engine_begin_def alloc_txn_id_def on_tree_def on_locks_def on_part_def on_engine_def tx_def upd_tx_def txn_get_def check_open_def
        tx_lock_def txn_exit_def txn_commit_def bnd_def gets_def modify_def ret_def)
  moreover obtain g' where g': "lm_acquire (Suc ?i) k ModeX ?g = (Inl TimeoutError, g')" using lock_second [of ?i "Suc ?i"] by auto
  have "\<exists>e2. run_txn None [TPut k new] e1 = (Inl TimeoutError, e2)"
    using row(2,3) g'
    by (simp add: run_txn_def engine_begin_def alloc_txn_id_def on_tree_def on_locks_def on_part_def on_engine_def tx_def upd_tx_def txn_put_def check_open_def
        tx_lock_def txn_exit_def txn_rollback_def release_all_def bnd_def gets_def modify_def ret_def split: prod.splits sum.splits)
  ultimately show ?thesis by blast
qed

theorem read_only_commit_keeps_locks_witness:
  "\<exists>e e1 e2. (\<exists>row. run_txn None [TGet 5] e = (Inr [TRow row], e1)) \<and> run_txn None [TPut 5 [VInt 8]] e1 = (Inl TimeoutError, e2)"
proof -
  obtain e t n where e: "stores (en_tree (e :: engine)) t n 20 50 100" "decodable (bt_es t)" "en_locks e = lm_init" by (rule sample_engine)
  show ?thesis using read_only_commit_keeps_locks [OF e, of 5 "[VInt 8]"] by blast
qed

end
