(* ===== verification/Lexer.thy ===== *)
theory Lexer
  imports Record_Codec
begin

section \<open>The SQL lexer (\<^verbatim>\<open>src/lexer.py\<close>)\<close>

text \<open>
  The state of a \<^verbatim>\<open>Lexer\<close>, its text and a position, is kept as the rest of the text and the position. Characters are code
  points. The character classes are written out for ASCII; those of the other characters come from Python's Unicode
  database, the parameter \<open>u\<close>.

  The lemmas show that the lexer always ends (\<open>tokenize_loop\<close> is total) and reads every printed list of lexemes back
  (\<open>tokenize_lexemes\<close>).
\<close>

subsection \<open>Characters and numbers\<close>

abbreviation cp :: "char \<Rightarrow> nat" where
  "cp \<equiv> of_char"

definition py :: "string \<Rightarrow> pystr" where
  "py s = map of_char s"

record unicode =
  uc_isdigit :: "nat \<Rightarrow> bool"
  uc_isalpha :: "nat \<Rightarrow> bool"
  uc_isnumeric :: "nat \<Rightarrow> bool"
  uc_upper :: "nat \<Rightarrow> nat list"
  uc_decimal :: "nat \<Rightarrow> nat option"

definition isdigit :: "unicode \<Rightarrow> nat \<Rightarrow> bool" where
  "isdigit u c \<longleftrightarrow> (if c < 128 then 48 \<le> c \<and> c \<le> 57 else uc_isdigit u c)"

definition isalpha :: "unicode \<Rightarrow> nat \<Rightarrow> bool" where
  "isalpha u c \<longleftrightarrow> (if c < 128 then 65 \<le> c \<and> c \<le> 90 \<or> 97 \<le> c \<and> c \<le> 122 else uc_isalpha u c)"

definition isalnum :: "unicode \<Rightarrow> nat \<Rightarrow> bool" where
  "isalnum u c \<longleftrightarrow> isalpha u c \<or> isdigit u c \<or> c \<ge> 128 \<and> uc_isnumeric u c"

definition upper_cp :: "unicode \<Rightarrow> nat \<Rightarrow> nat list" where
  "upper_cp u c = (if c < 128 then [if 97 \<le> c \<and> c \<le> 122 then c - 32 else c] else uc_upper u c)"

definition upper :: "unicode \<Rightarrow> pystr \<Rightarrow> pystr" where
  "upper u s = concat (map (upper_cp u) s)"

definition decimal :: "unicode \<Rightarrow> nat \<Rightarrow> nat option" where
  "decimal u c = (if c < 128 then if 48 \<le> c \<and> c \<le> 57 then Some (c - 48) else None else uc_decimal u c)"

text \<open>\<^verbatim>\<open>int(s)\<close> of a sign and digits: a digit that is no decimal digit, and more than 4300 digits, raise \<^verbatim>\<open>ValueError\<close>.\<close>

fun digits_value :: "unicode \<Rightarrow> nat \<Rightarrow> pystr \<Rightarrow> nat res" where
  "digits_value u n [] = Inr n"
| "digits_value u n (c # cs) = (case decimal u c of None \<Rightarrow> Inl ValueError | Some d \<Rightarrow> digits_value u (10 * n + d) cs)"

definition nat_of_str :: "unicode \<Rightarrow> pystr \<Rightarrow> nat res" where
  "nat_of_str u s = (if s = [] \<or> length s > 4300 then Inl ValueError else digits_value u 0 s)"

definition int_of_str :: "unicode \<Rightarrow> pystr \<Rightarrow> int res" where
  "int_of_str u s =
     (case s of
        c # ds \<Rightarrow> if c = cp CHR ''-'' then bind_res (nat_of_str u ds) (\<lambda>n. Inr (- int n)) else bind_res (nat_of_str u s) (\<lambda>n. Inr (int n))
      | [] \<Rightarrow> Inl ValueError)"

subsection \<open>Tokens\<close>

datatype tt =
    TT_SELECT | TT_FROM | TT_WHERE | TT_INSERT | TT_INTO | TT_VALUES | TT_UPDATE | TT_SET | TT_DELETE | TT_CREATE | TT_TABLE
  | TT_PRIMARY | TT_KEY | TT_BETWEEN | TT_AND | TT_OR | TT_NOT | TT_NULL | TT_INT | TT_STRING | TT_INDEX | TT_ON | TT_DROP
  | TT_JOIN | TT_REFERENCES | TT_DOT
  | TT_STAR | TT_LPAREN | TT_RPAREN | TT_COMMA | TT_EQ | TT_NEQ | TT_LT | TT_GT | TT_LTE | TT_GTE
  | TT_INT_LIT | TT_STR_LIT | TT_IDENT
  | TT_EOF

definition KEYWORDS :: "(pystr \<times> tt) list" where
  "KEYWORDS = map (\<lambda>(s, t). (py s, t))
     [(''SELECT'', TT_SELECT), (''FROM'', TT_FROM), (''WHERE'', TT_WHERE), (''INSERT'', TT_INSERT), (''INTO'', TT_INTO),
      (''VALUES'', TT_VALUES), (''UPDATE'', TT_UPDATE), (''SET'', TT_SET), (''DELETE'', TT_DELETE), (''CREATE'', TT_CREATE),
      (''TABLE'', TT_TABLE), (''PRIMARY'', TT_PRIMARY), (''KEY'', TT_KEY), (''BETWEEN'', TT_BETWEEN), (''AND'', TT_AND),
      (''OR'', TT_OR), (''NOT'', TT_NOT), (''NULL'', TT_NULL), (''INT'', TT_INT), (''STRING'', TT_STRING),
      (''INDEX'', TT_INDEX), (''ON'', TT_ON), (''DROP'', TT_DROP), (''JOIN'', TT_JOIN), (''REFERENCES'', TT_REFERENCES)]"

record token =
  tok_type :: tt
  tok_value :: val
  tok_pos :: nat

subsection \<open>The lexer\<close>

text \<open>The loops that advance over characters of a class: the characters passed, the rest and the position.\<close>

fun scan_while :: "(nat \<Rightarrow> bool) \<Rightarrow> pystr \<Rightarrow> nat \<Rightarrow> pystr \<times> pystr \<times> nat" where
  "scan_while P [] pos = ([], [], pos)"
| "scan_while P (c # cs) pos =
     (if P c then case scan_while P cs (Suc pos) of (word, rest) \<Rightarrow> (c # word, rest) else ([], c # cs, pos))"

definition is_ws :: "nat \<Rightarrow> bool" where
  "is_ws c \<longleftrightarrow> c \<in> {32, 9, 10, 13}"

definition skip_ws :: "pystr \<Rightarrow> nat \<Rightarrow> pystr \<times> nat" where
  "skip_ws rest pos = snd (scan_while is_ws rest pos)"

fun string_loop :: "nat \<Rightarrow> pystr \<Rightarrow> nat \<Rightarrow> pystr \<Rightarrow> (pystr \<times> pystr \<times> nat) res" where
  "string_loop quote [] pos buf = Inl LexError"
| "string_loop quote (ch # cs) pos buf =
     (if ch = quote then Inr (buf, cs, pos + 1)
      else case cs of
        c # cs' \<Rightarrow> if ch = 92 then string_loop quote cs' (pos + 2) (buf @ [c]) else string_loop quote cs (pos + 1) (buf @ [ch])
      | [] \<Rightarrow> string_loop quote cs (pos + 1) (buf @ [ch]))"

type_synonym lexed = "(token \<times> pystr \<times> nat) res"

definition read_string :: "nat \<Rightarrow> pystr \<Rightarrow> nat \<Rightarrow> lexed" where
  "read_string quote rest pos =
     bind_res (string_loop quote (tl rest) (pos + 1) []) (\<lambda>(buf, st). Inr (\<lparr>tok_type = TT_STR_LIT, tok_value = VStr buf, tok_pos = pos\<rparr>, st))"

definition read_int :: "unicode \<Rightarrow> pystr \<Rightarrow> nat \<Rightarrow> lexed" where
  "read_int u rest pos =
     (let (sign, rest, pos') = (case rest of c # cs \<Rightarrow> if c = cp CHR ''-'' then ([c], cs, pos + 1) else ([], rest, pos) | [] \<Rightarrow> ([], rest, pos)) in
      case scan_while (isdigit u) rest pos' of (ds, st) \<Rightarrow>
        bind_res (int_of_str u (sign @ ds)) (\<lambda>i. Inr (\<lparr>tok_type = TT_INT_LIT, tok_value = VInt i, tok_pos = pos\<rparr>, st)))"

definition read_ident :: "unicode \<Rightarrow> pystr \<Rightarrow> nat \<Rightarrow> lexed" where
  "read_ident u rest pos =
     (case scan_while (\<lambda>c. isalnum u c \<or> c = cp CHR ''_'') rest pos of (word, st) \<Rightarrow>
        (case map_of KEYWORDS (upper u word) of
           Some tt \<Rightarrow> Inr (\<lparr>tok_type = tt, tok_value = VStr (upper u word), tok_pos = pos\<rparr>, st)
         | None \<Rightarrow> Inr (\<lparr>tok_type = TT_IDENT, tok_value = VStr word, tok_pos = pos\<rparr>, st)))"

definition symbol_token :: "tt \<Rightarrow> string \<Rightarrow> nat \<Rightarrow> token" where
  "symbol_token tt s pos = \<lparr>tok_type = tt, tok_value = VStr (py s), tok_pos = pos\<rparr>"

text \<open>A symbol that may be followed by \<^verbatim>\<open>=\<close>: the two-character token, or the result for the single character.\<close>

definition with_eq :: "tt \<Rightarrow> string \<Rightarrow> lexed \<Rightarrow> pystr \<Rightarrow> nat \<Rightarrow> lexed" where
  "with_eq tt s single cs pos =
     (case cs of c # cs' \<Rightarrow> if c = cp CHR ''='' then Inr (symbol_token tt s pos, cs', pos + 2) else single | [] \<Rightarrow> single)"

definition read_symbol :: "nat \<Rightarrow> pystr \<Rightarrow> nat \<Rightarrow> lexed" where
  "read_symbol ch cs pos =
     (if ch = cp CHR ''*'' then Inr (symbol_token TT_STAR ''*'' pos, cs, pos + 1)
      else if ch = cp CHR ''('' then Inr (symbol_token TT_LPAREN ''('' pos, cs, pos + 1)
      else if ch = cp CHR '')'' then Inr (symbol_token TT_RPAREN '')'' pos, cs, pos + 1)
      else if ch = cp CHR '','' then Inr (symbol_token TT_COMMA '','' pos, cs, pos + 1)
      else if ch = cp CHR ''='' then Inr (symbol_token TT_EQ ''='' pos, cs, pos + 1)
      else if ch = cp CHR ''<'' then with_eq TT_LTE ''<='' (Inr (symbol_token TT_LT ''<'' pos, cs, pos + 1)) cs pos
      else if ch = cp CHR ''>'' then with_eq TT_GTE ''>='' (Inr (symbol_token TT_GT ''>'' pos, cs, pos + 1)) cs pos
      else if ch = cp CHR ''.'' then Inr (symbol_token TT_DOT ''.'' pos, cs, pos + 1)
      else if ch = cp CHR ''!'' then with_eq TT_NEQ ''!='' (Inl LexError) cs pos
      else Inl LexError)"

definition next_token :: "unicode \<Rightarrow> pystr \<Rightarrow> nat \<Rightarrow> lexed" where
  "next_token u inp start =
     (case skip_ws inp start of
        ([], pos) \<Rightarrow> Inr (\<lparr>tok_type = TT_EOF, tok_value = VNull, tok_pos = pos\<rparr>, [], pos)
      | (ch # cs, pos) \<Rightarrow>
          if ch = 34 \<or> ch = 39 then read_string ch (ch # cs) pos
          else if ch = cp CHR ''-'' \<and> (case cs of [] \<Rightarrow> False | c # _ \<Rightarrow> isdigit u c) then read_int u (ch # cs) pos
          else if isdigit u ch then read_int u (ch # cs) pos
          else if isalpha u ch \<or> ch = cp CHR ''_'' then read_ident u (ch # cs) pos
          else read_symbol ch cs pos)"

subsection \<open>Every token consumes inp\<close>

lemma scan_while_length: "scan_while P inp pos = (word, rest, pos') \<Longrightarrow> length inp = length word + length rest"
  by (induction P inp pos arbitrary: word rest pos' rule: scan_while.induct) (auto split: if_splits prod.splits)

lemma skip_ws_length: "skip_ws inp pos = (rest, pos') \<Longrightarrow> length rest \<le> length inp"
  using scan_while_length [of is_ws inp pos] by (cases "scan_while is_ws inp pos") (auto simp: skip_ws_def)

lemma string_loop_length: "string_loop q inp pos buf = Inr (s, rest, pos') \<Longrightarrow> length rest < length inp"
  by (induction q inp pos buf rule: string_loop.induct) (auto split: if_splits list.splits)

lemma scan_while_hd: "P c \<Longrightarrow> scan_while P (c # cs) pos = (word, rest, pos') \<Longrightarrow> length rest < Suc (length cs)"
  using scan_while_length [of P "c # cs" pos word rest pos'] by (cases word) (auto split: prod.splits)

lemma read_int_length:
  assumes r: "read_int u (ch # cs) pos = Inr (tok, rest, pos')"
    and c: "ch = cp CHR ''-'' \<and> cs \<noteq> [] \<and> isdigit u (hd cs) \<or> isdigit u ch"
  shows "length rest < Suc (length cs)"
proof (cases "ch = cp CHR ''-''")
  case True
  then show ?thesis using r scan_while_length [of "isdigit u" cs "pos + 1"]
    by (auto simp: read_int_def Let_def bind_res_def split: prod.splits sum.splits)
next
  case False
  then have "isdigit u ch" using c by simp
  then show ?thesis using r False scan_while_hd [of "isdigit u" ch cs pos]
    by (auto simp: read_int_def Let_def bind_res_def simp del: scan_while.simps split: prod.splits sum.splits)
qed

lemma next_token_consumes:
  assumes n: "next_token u inp pos = Inr (tok, rest, pos')" and e: "tok_type tok \<noteq> TT_EOF"
  shows "length rest < length inp"
proof -
  obtain st p where s: "skip_ws inp pos = (st, p)" by (cases "skip_ws inp pos")
  have le: "length st \<le> length inp" by (rule skip_ws_length [OF s])
  obtain ch cs where st: "st = ch # cs" using n e s by (cases st) (auto simp: next_token_def)
  have "length rest < Suc (length cs)"
  proof (cases "ch = 34 \<or> ch = 39")
    case True
    then have "read_string ch (ch # cs) p = Inr (tok, rest, pos')" using n s st by (simp add: next_token_def)
    then show ?thesis using string_loop_length [of ch cs "p + 1" "[]"]
      by (auto simp: read_string_def bind_res_def split: sum.splits)
  next
    case q: False
    show ?thesis
    proof (cases "ch = cp CHR ''-'' \<and> (case cs of [] \<Rightarrow> False | c # _ \<Rightarrow> isdigit u c) \<or> isdigit u ch")
      case True
      then have "read_int u (ch # cs) p = Inr (tok, rest, pos')" using n s st q by (auto simp: next_token_def split: if_splits)
      then show ?thesis using True by (elim read_int_length) (auto split: list.splits)
    next
      case i: False
      show ?thesis
      proof (cases "isalpha u ch \<or> ch = cp CHR ''_''")
        case True
        then have "read_ident u (ch # cs) p = Inr (tok, rest, pos')" using n s st q i by (auto simp: next_token_def split: if_splits)
        moreover have "isalnum u ch \<or> ch = cp CHR ''_''" using True by (auto simp: isalnum_def)
        ultimately show ?thesis using scan_while_hd [of "\<lambda>c. isalnum u c \<or> c = cp CHR ''_''" ch cs p]
          by (auto simp: read_ident_def simp del: scan_while.simps split: prod.splits option.splits)
      next
        case False
        then have "read_symbol ch cs p = Inr (tok, rest, pos')" using n s st q i by (auto simp: next_token_def split: if_splits)
        then show ?thesis by (auto simp: read_symbol_def with_eq_def split: if_splits list.splits)
      qed
    qed
  qed
  then show ?thesis using le st by simp
qed

subsection \<open>Tokenizing\<close>

function tokenize_loop :: "unicode \<Rightarrow> pystr \<Rightarrow> nat \<Rightarrow> token list res" where
  "tokenize_loop u inp pos =
     (case next_token u inp pos of
        Inl e \<Rightarrow> Inl e
      | Inr (tok, rest, pos') \<Rightarrow>
          if tok_type tok = TT_EOF then Inr [tok]
          else bind_res (tokenize_loop u rest pos') (\<lambda>toks. Inr (tok # toks)))"
  by pat_completeness auto
termination
  by (relation "measure (\<lambda>(u, inp, pos). length inp)") (auto dest: next_token_consumes)

declare tokenize_loop.simps [simp del]

definition tokenize :: "unicode \<Rightarrow> pystr \<Rightarrow> token list res" where
  "tokenize u inp = tokenize_loop u inp 0"

text \<open>The list ends with the end of input, the only token of this type.\<close>

lemma tokenize_loop_ends: "tokenize_loop u inp pos = Inr toks \<Longrightarrow> \<exists>ts t. toks = ts @ [t] \<and> tok_type t = TT_EOF"
proof (induction u inp pos arbitrary: toks rule: tokenize_loop.induct)
  case (1 u inp pos)
  obtain tok rest pos' where n: "next_token u inp pos = Inr (tok, rest, pos')"
    using 1(2) by (subst (asm) tokenize_loop.simps) (auto split: sum.splits)
  show ?case
  proof (cases "tok_type tok = TT_EOF")
    case True
    then have "toks = [tok]" using 1(2) n by (subst (asm) tokenize_loop.simps) simp
    then show ?thesis using True by simp
  next
    case False
    obtain ts where ts: "tokenize_loop u rest pos' = Inr ts" "toks = tok # ts"
      using 1(2) n False by (subst (asm) tokenize_loop.simps) (auto simp: bind_res_def split: sum.splits)
    obtain ts' t where "ts = ts' @ [t]" "tok_type t = TT_EOF" using 1(1) [OF n refl refl False ts(1)] by blast
    then show ?thesis using ts(2) by (metis append_Cons)
  qed
qed

text \<open>The errors of the lexer.\<close>

lemma digits_value_error: "digits_value u n s = Inl e \<Longrightarrow> e = ValueError"
  by (induction u n s rule: digits_value.induct) (auto split: option.splits)

lemma int_of_str_error: "int_of_str u s = Inl e \<Longrightarrow> e = ValueError"
  by (auto simp: int_of_str_def nat_of_str_def bind_res_def simp del: digits_value.simps dest: digits_value_error split: list.splits if_splits sum.splits)

lemma string_loop_error: "string_loop q inp pos buf = Inl e \<Longrightarrow> e = LexError"
proof (induction q inp pos buf rule: string_loop.induct)
  case (2 q ch cs pos buf)
  then show ?case by (cases cs) (auto split: if_splits)
qed simp

lemma bind_ret_Inl: "bind_res r (\<lambda>x. Inr (f x)) = Inl e \<longleftrightarrow> r = Inl e"
  by (cases r) simp_all

lemma read_string_error: "read_string q inp pos = Inl e \<Longrightarrow> e = LexError"
  unfolding read_string_def case_prod_beta bind_ret_Inl by (rule string_loop_error)

lemma read_int_error: "read_int u inp pos = Inl e \<Longrightarrow> e = ValueError"
  unfolding read_int_def Let_def case_prod_beta bind_ret_Inl by (rule int_of_str_error)

lemma read_ident_error: "read_ident u inp pos \<noteq> Inl e"
  unfolding read_ident_def case_prod_beta by (simp split: option.split)

lemma read_symbol_error: "read_symbol ch inp pos = Inl e \<Longrightarrow> e = LexError"
  unfolding read_symbol_def with_eq_def by (cases inp) (simp_all split: if_splits)

lemmas read_error = read_string_error read_int_error read_ident_error read_symbol_error

lemma next_token_error:
  assumes "next_token u inp pos = Inl e"
  shows "e = LexError \<or> e = ValueError"
proof (cases "skip_ws inp pos")
  case (Pair st p)
  then show ?thesis using assms read_error by (cases st) (auto simp: next_token_def split: if_splits)
qed

lemma tokenize_loop_error: "tokenize_loop u inp pos = Inl e \<Longrightarrow> e = LexError \<or> e = ValueError"
proof (induction u inp pos rule: tokenize_loop.induct)
  case (1 u inp pos)
  show ?case
  proof (cases "next_token u inp pos")
    case (Inl e')
    then have "e' = e" using 1(2) by (subst (asm) tokenize_loop.simps) simp
    then show ?thesis using next_token_error Inl by blast
  next
    case (Inr r)
    then obtain tok rest pos' where n: "next_token u inp pos = Inr (tok, rest, pos')" by (cases r) auto
    have f: "tok_type tok \<noteq> TT_EOF" using 1(2) n by (subst (asm) tokenize_loop.simps) auto
    have "tokenize_loop u rest pos' = Inl e"
      using 1(2) n f by (subst (asm) tokenize_loop.simps) (auto simp: bind_res_def split: sum.splits)
    then show ?thesis by (rule 1(1) [OF n refl refl f])
  qed
qed

subsection \<open>Printing lexemes\<close>

text \<open>A lexeme is the type and the value of a token. It is printed as SQL text, followed by a space.\<close>

type_synonym lexeme = "tt \<times> val"

function dec :: "nat \<Rightarrow> pystr" where
  "dec n = (if n < 10 then [48 + n] else dec (n div 10) @ [48 + n mod 10])"
  by pat_completeness auto
termination
  by (relation "measure id") auto

declare dec.simps [simp del]

definition int_text :: "int \<Rightarrow> pystr" where
  "int_text i = (if i < 0 then cp CHR ''-'' # dec (nat (- i)) else dec (nat i))"

definition escape :: "pystr \<Rightarrow> pystr" where
  "escape s = concat (map (\<lambda>c. if c = 39 \<or> c = 92 then [92, c] else [c]) s)"

definition lexeme_text :: "lexeme \<Rightarrow> pystr" where
  "lexeme_text l =
     (case l of
        (TT_STR_LIT, VStr s) \<Rightarrow> 39 # escape s @ [39]
      | (_, VStr s) \<Rightarrow> s
      | (_, VInt i) \<Rightarrow> int_text i
      | (_, VNull) \<Rightarrow> [])"

definition SYMBOLS :: "(pystr \<times> tt) list" where
  "SYMBOLS = map (\<lambda>(s, t). (py s, t))
     [(''*'', TT_STAR), (''('', TT_LPAREN), ('')'', TT_RPAREN), ('','', TT_COMMA), (''='', TT_EQ), (''!='', TT_NEQ), (''<'', TT_LT),
      (''>'', TT_GT), (''<='', TT_LTE), (''>='', TT_GTE), (''.'', TT_DOT)]"

definition ident_ok :: "unicode \<Rightarrow> pystr \<Rightarrow> bool" where
  "ident_ok u s \<longleftrightarrow> s \<noteq> [] \<and> (isalpha u (hd s) \<or> hd s = cp CHR ''_'') \<and> \<not> isdigit u (hd s) \<and>
     list_all (\<lambda>c. isalnum u c \<or> c = cp CHR ''_'') s \<and> map_of KEYWORDS (upper u s) = None"

definition int_ok :: "int \<Rightarrow> bool" where
  "int_ok i \<longleftrightarrow> length (dec (nat \<bar>i\<bar>)) \<le> 4300"

fun lexeme_ok :: "unicode \<Rightarrow> lexeme \<Rightarrow> bool" where
  "lexeme_ok u (TT_EOF, v) \<longleftrightarrow> False"
| "lexeme_ok u (TT_INT_LIT, v) \<longleftrightarrow> (case v of VInt i \<Rightarrow> int_ok i | _ \<Rightarrow> False)"
| "lexeme_ok u (TT_STR_LIT, v) \<longleftrightarrow> (case v of VStr s \<Rightarrow> True | _ \<Rightarrow> False)"
| "lexeme_ok u (TT_IDENT, v) \<longleftrightarrow> (case v of VStr s \<Rightarrow> ident_ok u s | _ \<Rightarrow> False)"
| "lexeme_ok u (tt, v) \<longleftrightarrow> (case v of VStr s \<Rightarrow> (s, tt) \<in> set KEYWORDS \<or> (s, tt) \<in> set SYMBOLS | _ \<Rightarrow> False)"

definition spaced :: "lexeme list \<Rightarrow> pystr" where
  "spaced ls = concat (map (\<lambda>l. lexeme_text l @ [32]) ls)"

text \<open>The tokens that stand for the lexemes, wherever they are in the text.\<close>

definition stands_for :: "token \<Rightarrow> lexeme \<Rightarrow> bool" where
  "stands_for t l \<longleftrightarrow> tok_type t = fst l \<and> tok_value t = snd l"

definition stand_for :: "token list \<Rightarrow> lexeme list \<Rightarrow> bool" where
  "stand_for ts ls \<longleftrightarrow> list_all2 stands_for ts ls"

subsection \<open>Lexing what was printed\<close>

lemma scan_while_all: "list_all P w \<Longrightarrow> \<not> P c \<Longrightarrow> scan_while P (w @ c # r) pos = (w, c # r, pos + length w)"
  by (induction w arbitrary: pos) auto

lemma dec_nonempty: "dec n \<noteq> []"
  by (subst dec.simps) auto

lemma dec_digits: "list_all (\<lambda>c. 48 \<le> c \<and> c \<le> 57) (dec n)"
proof (induction n rule: dec.induct)
  case (1 n)
  have r: "n mod 10 < 10" by simp
  show ?case
  proof (cases "n < 10")
    case True
    then show ?thesis by (subst dec.simps) simp
  next
    case False
    then show ?thesis using 1 [OF False] r by (subst dec.simps) simp
  qed
qed

lemma digits_value_append: "digits_value u n (s @ t) = bind_res (digits_value u n s) (\<lambda>m. digits_value u m t)"
  by (induction u n s rule: digits_value.induct) (auto split: option.splits)

lemma digits_value_dec: "digits_value u 0 (dec n) = Inr n"
proof (induction n rule: dec.induct)
  case (1 n)
  show ?case using 1 by (subst dec.simps) (auto simp: digits_value_append decimal_def)
qed

lemma nat_of_dec: "length (dec n) \<le> 4300 \<Longrightarrow> nat_of_str u (dec n) = Inr n"
  using dec_nonempty [of n] by (simp add: nat_of_str_def digits_value_dec)

lemma string_loop_escape: "\<exists>pos'. string_loop 39 (escape s @ 39 # r) pos buf = Inr (buf @ s, r, pos')"
proof (induction s arbitrary: pos buf)
  case (Cons c s)
  have e: "escape (c # s) = (if c = 39 \<or> c = 92 then [92, c] else [c]) @ escape s" by (simp add: escape_def)
  have "\<exists>d ds. escape s @ 39 # r = d # ds" by (cases "escape s") auto
  then obtain d ds where d: "escape s @ 39 # r = d # ds" by blast
  show ?case using Cons.IH [of "pos + 2" "buf @ [c]"] Cons.IH [of "pos + 1" "buf @ [c]"]
    unfolding e by (auto simp: d)
qed (simp add: escape_def)

lemma skip_ws_none: "\<not> is_ws c \<Longrightarrow> skip_ws (c # cs) pos = (c # cs, pos)"
  by (simp add: skip_ws_def)

lemma next_ws: "next_token u (32 # r) pos = next_token u r (Suc pos)"
  by (simp add: next_token_def skip_ws_def is_ws_def split: prod.split)

lemma keyword_facts:
  assumes "(s, tt) \<in> set KEYWORDS"
  shows "s \<noteq> []" "list_all (\<lambda>c. 65 \<le> c \<and> c \<le> 90) s" "map_of KEYWORDS s = Some tt"
proof -
  have "distinct (map fst KEYWORDS)" by (simp add: KEYWORDS_def py_def)
  then show "map_of KEYWORDS s = Some tt" using assms by (rule map_of_is_SomeI)
  have "list_all (\<lambda>(s, tt). s \<noteq> [] \<and> list_all (\<lambda>c. 65 \<le> c \<and> c \<le> 90) s) KEYWORDS" by (simp add: KEYWORDS_def py_def)
  then show "s \<noteq> []" "list_all (\<lambda>c. 65 \<le> c \<and> c \<le> 90) s" using assms by (auto simp: list_all_iff)
qed

lemma upper_id: "list_all (\<lambda>c. 65 \<le> c \<and> c \<le> 90) s \<Longrightarrow> upper u s = s"
  by (induction s) (auto simp: upper_def upper_cp_def)

lemma next_word:
  assumes w: "w \<noteq> []" "isalpha u (hd w) \<or> hd w = cp CHR ''_''" "\<not> isdigit u (hd w)" "list_all (\<lambda>c. isalnum u c \<or> c = cp CHR ''_'') w"
  shows "next_token u (w @ 32 # r) pos = Inr (case map_of KEYWORDS (upper u w) of
    Some tt \<Rightarrow> \<lparr>tok_type = tt, tok_value = VStr (upper u w), tok_pos = pos\<rparr> | None \<Rightarrow> \<lparr>tok_type = TT_IDENT, tok_value = VStr w, tok_pos = pos\<rparr>,
    32 # r, pos + length w)"
proof -
  obtain c cs where c: "w = c # cs" using w(1) by (cases w) auto
  have f: "\<not> is_ws c" "c \<noteq> 34" "c \<noteq> 39" "c \<noteq> cp CHR ''-''"
    using w(2,3) c by (auto simp: isalpha_def is_ws_def split: if_splits)
  have "next_token u (w @ 32 # r) pos = read_ident u (w @ 32 # r) pos"
    using f w(2,3) unfolding c by (simp add: next_token_def skip_ws_none)
  moreover have "scan_while (\<lambda>c. isalnum u c \<or> c = cp CHR ''_'') (w @ 32 # r) pos = (w, 32 # r, pos + length w)"
    by (rule scan_while_all [OF w(4)]) (simp add: isalnum_def isalpha_def isdigit_def)
  ultimately show ?thesis by (simp add: read_ident_def split: option.split)
qed

lemma next_keyword:
  assumes k: "(s, tt) \<in> set KEYWORDS"
  shows "next_token u (s @ 32 # r) pos = Inr (\<lparr>tok_type = tt, tok_value = VStr s, tok_pos = pos\<rparr>, 32 # r, pos + length s)"
proof -
  note K = keyword_facts [OF k]
  have h: "65 \<le> hd s \<and> hd s \<le> 90" using K(1,2) by (cases s) auto
  have a: "list_all (\<lambda>c. isalnum u c \<or> c = cp CHR ''_'') s"
    using K(2) by (fastforce simp: list_all_iff isalnum_def isalpha_def)
  have "isalpha u (hd s) \<or> hd s = cp CHR ''_''" "\<not> isdigit u (hd s)" using h by (auto simp: isalpha_def isdigit_def)
  from next_word [OF K(1) this a] show ?thesis by (simp add: upper_id [OF K(2)] K(3))
qed

lemma next_symbol:
  assumes "(s, tt) \<in> set SYMBOLS"
  shows "next_token u (s @ 32 # r) pos = Inr (\<lparr>tok_type = tt, tok_value = VStr s, tok_pos = pos\<rparr>, 32 # r, pos + length s)"
proof -
  have s: "list_all (\<lambda>(s, tt). \<forall>u r pos. next_token u (s @ 32 # r) pos =
     Inr (\<lparr>tok_type = tt, tok_value = VStr s, tok_pos = pos\<rparr>, 32 # r, pos + length s)) SYMBOLS"
    by (simp add: SYMBOLS_def py_def next_token_def skip_ws_none is_ws_def isdigit_def isalpha_def read_symbol_def with_eq_def symbol_token_def)
  show ?thesis using s assms by (auto simp: list_all_iff)
qed

lemma next_int:
  assumes i: "int_ok i"
  shows "\<exists>pos'. next_token u (int_text i @ 32 # r) pos = Inr (\<lparr>tok_type = TT_INT_LIT, tok_value = VInt i, tok_pos = pos\<rparr>, 32 # r, pos')"
proof -
  let ?ds = "dec (nat \<bar>i\<bar>)"
  obtain d ds where d: "?ds = d # ds" using dec_nonempty [of "nat \<bar>i\<bar>"] by (cases ?ds) auto
  have dr: "48 \<le> d \<and> d \<le> 57" using dec_digits [of "nat \<bar>i\<bar>"] d by simp
  have dd: "isdigit u d" "\<not> is_ws d" "d \<noteq> 34" "d \<noteq> 39" "d \<noteq> cp CHR ''-''" using dr by (auto simp: isdigit_def is_ws_def)
  have all: "list_all (isdigit u) ?ds" using dec_digits [of "nat \<bar>i\<bar>"] by (auto simp: list_all_iff isdigit_def)
  have sc: "scan_while (isdigit u) (?ds @ 32 # r) p = (?ds, 32 # r, p + length ?ds)" for p
    by (rule scan_while_all [OF all]) (simp add: isdigit_def)
  have n: "nat_of_str u ?ds = Inr (nat \<bar>i\<bar>)" by (rule nat_of_dec) (use i in \<open>simp add: int_ok_def\<close>)
  show ?thesis
  proof (cases "i < 0")
    case True
    then have t: "int_text i = 45 # ?ds" by (simp add: int_text_def)
    have "next_token u (int_text i @ 32 # r) pos = read_int u (45 # ?ds @ 32 # r) pos"
      using dd(1) unfolding t by (simp add: d next_token_def skip_ws_none is_ws_def)
    then show ?thesis using sc n True by (simp add: read_int_def int_of_str_def Let_def)
  next
    case False
    then have t: "int_text i = ?ds" by (simp add: int_text_def)
    have "next_token u (int_text i @ 32 # r) pos = read_int u (?ds @ 32 # r) pos"
      using dd unfolding t d by (simp add: next_token_def skip_ws_none)
    also have "\<dots> = bind_res (int_of_str u ?ds) (\<lambda>i. Inr (\<lparr>tok_type = TT_INT_LIT, tok_value = VInt i, tok_pos = pos\<rparr>, 32 # r, pos + length ?ds))"
      using sc [of pos] dd(5) by (simp add: read_int_def Let_def d del: scan_while.simps)
    also have "int_of_str u ?ds = bind_res (nat_of_str u ?ds) (\<lambda>n. Inr (int n))" using dd(5) unfolding int_of_str_def d by simp
    also have "\<dots> = Inr i" unfolding n using False by simp
    finally show ?thesis by simp
  qed
qed

lemma next_string:
  "\<exists>pos'. next_token u ((39 # escape s @ [39]) @ 32 # r) pos = Inr (\<lparr>tok_type = TT_STR_LIT, tok_value = VStr s, tok_pos = pos\<rparr>, 32 # r, pos')"
proof -
  obtain pos' where "string_loop 39 (escape s @ 39 # 32 # r) (pos + 1) [] = Inr ([] @ s, 32 # r, pos')" using string_loop_escape by blast
  then show ?thesis by (simp add: next_token_def skip_ws_none is_ws_def read_string_def)
qed

lemma next_lexeme:
  assumes "lexeme_ok u l"
  shows "\<exists>t pos'. stands_for t l \<and> next_token u (lexeme_text l @ 32 # r) pos = Inr (t, 32 # r, pos') \<and> tok_type t \<noteq> TT_EOF"
proof -
  obtain tt v where l: "l = (tt, v)" by (cases l)
  have table: "\<exists>t pos'. stands_for t l \<and> next_token u (lexeme_text l @ 32 # r) pos = Inr (t, 32 # r, pos')"
    if "v = VStr s" "(s, tt) \<in> set KEYWORDS \<or> (s, tt) \<in> set SYMBOLS" "lexeme_text l = s" for s
    using that next_keyword [of s tt u r pos] next_symbol [of s tt u r pos] by (auto simp: l stands_for_def)
  have "\<exists>t pos'. stands_for t l \<and> next_token u (lexeme_text l @ 32 # r) pos = Inr (t, 32 # r, pos')"
  proof (cases "tt \<in> {TT_INT_LIT, TT_STR_LIT, TT_IDENT}")
    case False
    then obtain s where "v = VStr s" "(s, tt) \<in> set KEYWORDS \<or> (s, tt) \<in> set SYMBOLS" using assms l by (cases tt; cases v) auto
    moreover from this have "lexeme_text l = s" using False by (cases tt) (auto simp: lexeme_text_def l)
    ultimately show ?thesis by (rule table)
  next
    case True
    then consider (i) i where "l = (TT_INT_LIT, VInt i)" "int_ok i" | (s) s where "l = (TT_STR_LIT, VStr s)" | (w) w where "l = (TT_IDENT, VStr w)" "ident_ok u w"
      using assms l by (auto split: val.splits)
    then show ?thesis
    proof cases
      case i
      then show ?thesis using next_int [of i u r pos] by (auto simp: stands_for_def lexeme_text_def)
    next
      case s
      then show ?thesis using next_string [of u s r pos] by (auto simp: stands_for_def lexeme_text_def)
    next
      case w
      then show ?thesis using next_word [of w u r pos] by (auto simp: stands_for_def lexeme_text_def ident_ok_def)
    qed
  qed
  moreover have "tt \<noteq> TT_EOF" using assms l by auto
  ultimately show ?thesis by (auto simp: stands_for_def l)
qed

lemma tokenize_space: "tokenize_loop u (32 # r) pos = tokenize_loop u r (Suc pos)"
  by (subst tokenize_loop.simps, subst (2) tokenize_loop.simps) (simp add: next_ws)

lemma tokenize_lexemes:
  assumes "list_all (lexeme_ok u) ls"
  shows "\<exists>ts pos'. stand_for ts ls \<and> tokenize_loop u (spaced ls @ r) pos = bind_res (tokenize_loop u r pos') (\<lambda>ts'. Inr (ts @ ts'))"
  using assms
proof (induction ls arbitrary: pos)
  case Nil
  have "bind_res (tokenize_loop u r pos) Inr = tokenize_loop u r pos" by (cases "tokenize_loop u r pos") simp_all
  then have "tokenize_loop u r pos = bind_res (tokenize_loop u r pos) (\<lambda>ts'. Inr ([] @ ts'))" by simp
  moreover have "stand_for [] []" by (simp add: stand_for_def)
  ultimately have "stand_for [] [] \<and> tokenize_loop u (spaced [] @ r) pos = bind_res (tokenize_loop u r pos) (\<lambda>ts'. Inr ([] @ ts'))"
    by (simp add: spaced_def)
  then show ?case by blast
next
  case (Cons l ls)
  then have ok: "lexeme_ok u l" "list_all (lexeme_ok u) ls" by simp_all
  have sp: "spaced (l # ls) @ r = lexeme_text l @ 32 # (spaced ls @ r)" by (simp add: spaced_def)
  obtain t pos1 where t: "stands_for t l" "next_token u (lexeme_text l @ 32 # (spaced ls @ r)) pos = Inr (t, 32 # (spaced ls @ r), pos1)" "tok_type t \<noteq> TT_EOF"
    using next_lexeme [OF ok(1)] by blast
  obtain ts pos' where ts: "stand_for ts ls" "tokenize_loop u (spaced ls @ r) (Suc pos1) = bind_res (tokenize_loop u r pos') (\<lambda>ts'. Inr (ts @ ts'))"
    using Cons.IH [OF ok(2)] by blast
  have "tokenize_loop u (spaced (l # ls) @ r) pos = bind_res (tokenize_loop u r pos') (\<lambda>ts'. Inr ((t # ts) @ ts'))"
    unfolding sp by (subst tokenize_loop.simps) (simp add: t tokenize_space ts(2) bind_res_def split: sum.split)
  moreover have "stand_for (t # ts) (l # ls)" using t(1) ts(1) by (simp add: stand_for_def)
  ultimately show ?case by blast
qed

end
