(* ===== verification/Ast.thy ===== *)
theory Ast
  imports Lexer
begin

section \<open>The abstract syntax (\<^verbatim>\<open>src/ast_nodes.py\<close>)\<close>

text \<open>
  A column is named by a string or by a \<^verbatim>\<open>ColRef\<close>; a \<^verbatim>\<open>SELECT *\<close> has the column list \<^verbatim>\<open>['*']\<close>. A missing
  WHERE clause is \<open>None\<close>. The assignments of an UPDATE are a dictionary, kept as the list of its items in order.
\<close>

record column_def =
  cd_name :: pystr
  cd_type :: pystr
  cd_primary_key :: bool
  cd_fk_table :: "pystr option"
  cd_fk_col :: "pystr option"

datatype col_name = Name pystr | ColRef pystr pystr

datatype expr =
    EqExpr col_name val
  | CompareExpr col_name pystr val
  | BetweenExpr col_name val val
  | AndExpr expr expr
  | OrExpr expr expr

datatype stmt =
    CreateTableStmt pystr "column_def list"
  | InsertStmt pystr "val list"
  | SelectStmt pystr "col_name list" "expr option"
  | UpdateStmt pystr "(pystr \<times> val) list" "expr option"
  | DeleteStmt pystr "expr option"
  | CreateIndexStmt pystr pystr pystr
  | DropIndexStmt pystr
  | JoinSelectStmt pystr pystr pystr pystr "col_name list" "expr option"

definition STAR :: "col_name list" where "STAR = [Name (py ''*'')]"

definition INT_TYPE :: pystr where "INT_TYPE = py ''INT''"
definition STRING_TYPE :: pystr where "STRING_TYPE = py ''STRING''"

lemma int_string [simp]: "INT_TYPE \<noteq> STRING_TYPE" "STRING_TYPE \<noteq> INT_TYPE"
  by (simp_all add: INT_TYPE_def STRING_TYPE_def py_def)

end
