(* ===== verification/Parser.thy ===== *)
theory Parser
  imports Ast "HOL-Library.AList"
begin

section \<open>The SQL parser (\<^verbatim>\<open>src/parser.py\<close>)\<close>

text \<open>
  The state of a \<^verbatim>\<open>Parser\<close> is the rest of its tokens. The two kinds of loops take fuel, one more than there are
  tokens, which is enough because every round consumes one (\<open>parse_safe\<close>).
\<close>

subsection \<open>Tokens\<close>

type_synonym 'a parser = "(token list, 'a) act"

definition peek :: "token parser" where
  "peek ts = (case ts of [] \<Rightarrow> (Inl IndexError, ts) | t # _ \<Rightarrow> (Inr t, ts))"

definition advance_token :: "token parser" where
  "advance_token = bnd peek (\<lambda>t. bnd (modify (\<lambda>ts. if tok_type t \<noteq> TT_EOF then tl ts else ts)) (\<lambda>_. ret t))"

definition expect :: "tt \<Rightarrow> token parser" where
  "expect tt = bnd advance_token (\<lambda>t. if tok_type t \<noteq> tt then throw ParseError else ret t)"

definition match :: "tt list \<Rightarrow> bool parser" where
  "match tts = bnd peek (\<lambda>t. ret (tok_type t \<in> set tts))"

text \<open>The value of an identifier token, a string.\<close>

definition tok_str :: "token \<Rightarrow> pystr" where
  "tok_str t = (case tok_value t of VStr s \<Rightarrow> s | _ \<Rightarrow> [])"

definition expect_ident :: "pystr parser" where
  "expect_ident = bnd (expect TT_IDENT) (\<lambda>t. ret (tok_str t))"

definition parse_literal :: "val parser" where
  "parse_literal =
     bnd peek (\<lambda>t.
     if tok_type t \<in> {TT_INT_LIT, TT_STR_LIT} then bnd advance_token (\<lambda>_. ret (tok_value t))
     else if tok_type t = TT_NULL then bnd advance_token (\<lambda>_. ret VNull)
     else throw ParseError)"

text \<open>\<^verbatim>\<open>while not self._match(RPAREN, EOF): xs.append(item()); if self._match(COMMA): self._advance()\<close>\<close>

fun items_loop :: "'a parser \<Rightarrow> nat \<Rightarrow> 'a list \<Rightarrow> 'a list parser" where
  "items_loop item 0 xs = throw NoReturn"
| "items_loop item (Suc n) xs =
     bnd (match [TT_RPAREN, TT_EOF]) (\<lambda>stop.
     if stop then ret xs
     else
       bnd item (\<lambda>x.
       bnd (match [TT_COMMA]) (\<lambda>c.
       bnd (if c then bnd advance_token (\<lambda>_. ret ()) else ret ()) (\<lambda>_. items_loop item n (xs @ [x])))))"

definition parse_items :: "'a parser \<Rightarrow> 'a list parser" where
  "parse_items item = bnd (gets length) (\<lambda>n. items_loop item (Suc n) [])"

text \<open>\<^verbatim>\<open>while self._match(sep): self._advance(); acc = step(acc, item())\<close>\<close>

fun sep_loop :: "tt \<Rightarrow> 'a parser \<Rightarrow> ('b \<Rightarrow> 'a \<Rightarrow> 'b) \<Rightarrow> nat \<Rightarrow> 'b \<Rightarrow> 'b parser" where
  "sep_loop sep item f 0 acc = throw NoReturn"
| "sep_loop sep item f (Suc n) acc =
     bnd (match [sep]) (\<lambda>more.
     if more then bnd advance_token (\<lambda>_. bnd item (\<lambda>x. sep_loop sep item f n (f acc x)))
     else ret acc)"

definition parse_sep :: "tt \<Rightarrow> 'a parser \<Rightarrow> ('b \<Rightarrow> 'a \<Rightarrow> 'b) \<Rightarrow> 'b \<Rightarrow> 'b parser" where
  "parse_sep sep item f acc = bnd (gets length) (\<lambda>n. sep_loop sep item f (Suc n) acc)"

subsection \<open>CREATE and DROP\<close>

definition parse_column_def :: "column_def parser" where
  "parse_column_def =
     bnd expect_ident (\<lambda>name.
     bnd (match [TT_INT]) (\<lambda>is_int.
     bnd (match [TT_STRING]) (\<lambda>is_str.
     bnd (if is_int then bnd advance_token (\<lambda>_. ret INT_TYPE)
          else if is_str then bnd advance_token (\<lambda>_. ret STRING_TYPE)
          else throw ParseError) (\<lambda>col_type.
     bnd (match [TT_PRIMARY]) (\<lambda>primary.
     bnd (if primary then bnd advance_token (\<lambda>_. bnd (expect TT_KEY) (\<lambda>_. ret True)) else ret False) (\<lambda>pk.
     bnd (match [TT_REFERENCES]) (\<lambda>refs.
     bnd (if refs then
            bnd advance_token (\<lambda>_. bnd expect_ident (\<lambda>t. bnd (expect TT_LPAREN) (\<lambda>_.
            bnd expect_ident (\<lambda>c. bnd (expect TT_RPAREN) (\<lambda>_. ret (Some t, Some c))))))
          else ret (None, None)) (\<lambda>(fk_table, fk_col).
     ret \<lparr>cd_name = name, cd_type = col_type, cd_primary_key = pk, cd_fk_table = fk_table, cd_fk_col = fk_col\<rparr>))))))))"

definition parse_create_table_body :: "stmt parser" where
  "parse_create_table_body =
     bnd (expect TT_TABLE) (\<lambda>_.
     bnd expect_ident (\<lambda>table.
     bnd (expect TT_LPAREN) (\<lambda>_.
     bnd (parse_items parse_column_def) (\<lambda>columns.
     bnd (expect TT_RPAREN) (\<lambda>_.
     let pks = filter cd_primary_key columns in
     if length pks \<noteq> 1 then throw ParseError
     else if cd_type (pks ! 0) \<noteq> INT_TYPE then throw ParseError
     else ret (CreateTableStmt table columns))))))"

definition parse_create_table :: "stmt parser" where
  "parse_create_table = bnd (expect TT_CREATE) (\<lambda>_. parse_create_table_body)"

definition parse_create_index_body :: "stmt parser" where
  "parse_create_index_body =
     bnd (expect TT_INDEX) (\<lambda>_.
     bnd expect_ident (\<lambda>name.
     bnd (expect TT_ON) (\<lambda>_.
     bnd expect_ident (\<lambda>table.
     bnd (expect TT_LPAREN) (\<lambda>_.
     bnd expect_ident (\<lambda>col.
     bnd (expect TT_RPAREN) (\<lambda>_.
     ret (CreateIndexStmt name table col))))))))"

definition parse_drop_index :: "stmt parser" where
  "parse_drop_index =
     bnd (expect TT_DROP) (\<lambda>_. bnd (expect TT_INDEX) (\<lambda>_. bnd expect_ident (\<lambda>name. ret (DropIndexStmt name))))"

subsection \<open>Predicates\<close>

definition COMPARISONS :: "tt list" where
  "COMPARISONS = [TT_EQ, TT_NEQ, TT_LT, TT_GT, TT_LTE, TT_GTE]"

text \<open>The part after the column, the same in both kinds of WHERE clauses.\<close>

definition parse_condition :: "col_name \<Rightarrow> expr parser" where
  "parse_condition col =
     bnd (match [TT_BETWEEN]) (\<lambda>between.
     if between then
       bnd advance_token (\<lambda>_.
       bnd parse_literal (\<lambda>low.
       bnd (expect TT_AND) (\<lambda>_.
       bnd parse_literal (\<lambda>high. ret (BetweenExpr col low high)))))
     else
       bnd (match COMPARISONS) (\<lambda>comparison.
       if comparison then
         bnd advance_token (\<lambda>op_tok.
         bnd parse_literal (\<lambda>v.
         ret (if tok_type op_tok = TT_EQ then EqExpr col v else CompareExpr col (tok_str op_tok) v)))
       else throw ParseError))"

definition parse_predicate :: "expr parser" where
  "parse_predicate = bnd expect_ident (\<lambda>col. parse_condition (Name col))"

definition parse_where :: "expr parser" where
  "parse_where = bnd parse_predicate (\<lambda>left. parse_sep TT_AND parse_predicate AndExpr left)"

definition parse_join_predicate :: "expr parser" where
  "parse_join_predicate =
     bnd expect_ident (\<lambda>name.
     bnd (match [TT_DOT]) (\<lambda>dot.
     bnd (if dot then bnd advance_token (\<lambda>_. bnd expect_ident (\<lambda>c. ret (ColRef name c))) else ret (Name name)) (\<lambda>col.
     parse_condition col)))"

definition parse_join_where :: "expr parser" where
  "parse_join_where = bnd parse_join_predicate (\<lambda>left. parse_sep TT_AND parse_join_predicate AndExpr left)"

text \<open>\<^verbatim>\<open>where = None; if self._match(TT.WHERE): ...\<close>\<close>

definition opt_where :: "expr parser \<Rightarrow> expr option parser" where
  "opt_where clause =
     bnd (match [TT_WHERE]) (\<lambda>w. if w then bnd advance_token (\<lambda>_. bnd clause (\<lambda>e. ret (Some e))) else ret None)"

subsection \<open>INSERT, SELECT, UPDATE, DELETE\<close>

definition parse_insert :: "stmt parser" where
  "parse_insert =
     bnd (expect TT_INSERT) (\<lambda>_.
     bnd (expect TT_INTO) (\<lambda>_.
     bnd expect_ident (\<lambda>table.
     bnd (expect TT_VALUES) (\<lambda>_.
     bnd (expect TT_LPAREN) (\<lambda>_.
     bnd (parse_items parse_literal) (\<lambda>values.
     bnd (expect TT_RPAREN) (\<lambda>_.
     ret (InsertStmt table values))))))))"

definition parse_select_col :: "col_name parser" where
  "parse_select_col =
     bnd expect_ident (\<lambda>name.
     bnd (match [TT_DOT]) (\<lambda>dot.
     if dot then bnd advance_token (\<lambda>_. bnd expect_ident (\<lambda>c. ret (ColRef name c))) else ret (Name name)))"

definition parse_column_list :: "col_name list parser" where
  "parse_column_list =
     bnd (match [TT_STAR]) (\<lambda>star.
     if star then bnd advance_token (\<lambda>_. ret STAR)
     else bnd parse_select_col (\<lambda>c. parse_sep TT_COMMA parse_select_col (\<lambda>cols c. cols @ [c]) [c]))"

definition parse_col_ref :: "(pystr \<times> pystr) parser" where
  "parse_col_ref = bnd expect_ident (\<lambda>t. bnd (expect TT_DOT) (\<lambda>_. bnd expect_ident (\<lambda>c. ret (t, c))))"

definition parse_select :: "stmt parser" where
  "parse_select =
     bnd (expect TT_SELECT) (\<lambda>_.
     bnd parse_column_list (\<lambda>columns.
     bnd (expect TT_FROM) (\<lambda>_.
     bnd expect_ident (\<lambda>left_table.
     bnd (match [TT_JOIN]) (\<lambda>join.
     if join then
       bnd advance_token (\<lambda>_.
       bnd expect_ident (\<lambda>right_table.
       bnd (expect TT_ON) (\<lambda>_.
       bnd parse_col_ref (\<lambda>left_ref.
       bnd (expect TT_EQ) (\<lambda>_.
       bnd parse_col_ref (\<lambda>right_ref.
       let (left_ref, right_ref) =
         (if fst left_ref = right_table \<and> fst right_ref = left_table then (right_ref, left_ref) else (left_ref, right_ref)) in
       bnd (opt_where parse_join_where) (\<lambda>wh.
       ret (JoinSelectStmt left_table right_table (snd left_ref) (snd right_ref) columns wh))))))))
     else bnd (opt_where parse_where) (\<lambda>wh. ret (SelectStmt left_table columns wh)))))))"

definition parse_assignment :: "(pystr \<times> val) parser" where
  "parse_assignment = bnd expect_ident (\<lambda>col. bnd (expect TT_EQ) (\<lambda>_. bnd parse_literal (\<lambda>v. ret (col, v))))"

definition parse_update :: "stmt parser" where
  "parse_update =
     bnd (expect TT_UPDATE) (\<lambda>_.
     bnd expect_ident (\<lambda>table.
     bnd (expect TT_SET) (\<lambda>_.
     bnd parse_assignment (\<lambda>(col, v).
     bnd (parse_sep TT_COMMA parse_assignment (\<lambda>d (col, v). AList.update col v d) [(col, v)]) (\<lambda>assignments.
     bnd (opt_where parse_where) (\<lambda>wh.
     ret (UpdateStmt table assignments wh)))))))"

definition parse_delete :: "stmt parser" where
  "parse_delete =
     bnd (expect TT_DELETE) (\<lambda>_.
     bnd (expect TT_FROM) (\<lambda>_.
     bnd expect_ident (\<lambda>table.
     bnd (opt_where parse_where) (\<lambda>wh. ret (DeleteStmt table wh)))))"

subsection \<open>Statements\<close>

definition parse_stmt :: "stmt parser" where
  "parse_stmt =
     bnd peek (\<lambda>t.
     if tok_type t = TT_SELECT then parse_select
     else if tok_type t = TT_INSERT then parse_insert
     else if tok_type t = TT_UPDATE then parse_update
     else if tok_type t = TT_DELETE then parse_delete
     else if tok_type t = TT_DROP then parse_drop_index
     else if tok_type t = TT_CREATE then
       bnd advance_token (\<lambda>_.
       bnd (match [TT_TABLE]) (\<lambda>is_table.
       if is_table then parse_create_table_body
       else bnd (match [TT_INDEX]) (\<lambda>is_index.
       if is_index then parse_create_index_body else throw ParseError)))
     else throw ParseError)"

definition parse :: "unicode \<Rightarrow> pystr \<Rightarrow> stmt res" where
  "parse u sql = bind_res (tokenize u sql) (\<lambda>tokens. fst (parse_stmt tokens))"

subsection \<open>No error but \<^verbatim>\<open>ParseError\<close>\<close>

text \<open>
  On tokens that end with the end of input a parser neither runs off the list nor out of fuel: \<open>safe\<close>; one that
  \<open>eats\<close> also consumes a token when it returns.
\<close>

definition closed :: "token list \<Rightarrow> bool" where
  "closed ts \<longleftrightarrow> ts \<noteq> [] \<and> tok_type (last ts) = TT_EOF"

definition safe_by :: "nat \<Rightarrow> 'a parser \<Rightarrow> bool" where
  "safe_by k m \<longleftrightarrow> (\<forall>ts r ts'. closed ts \<longrightarrow> m ts = (r, ts') \<longrightarrow>
     (case r of Inl e \<Rightarrow> e = ParseError | Inr x \<Rightarrow> closed ts' \<and> length ts' + k \<le> length ts))"

abbreviation safe :: "'a parser \<Rightarrow> bool" where "safe \<equiv> safe_by 0"
abbreviation eats :: "'a parser \<Rightarrow> bool" where "eats \<equiv> safe_by (Suc 0)"

named_theorems safe_intros \<open>parsers that raise nothing but ParseError\<close>

lemma safe_byD:
  assumes "safe_by k m" "closed ts" "m ts = (r, ts')"
  shows "case r of Inl e \<Rightarrow> e = ParseError | Inr x \<Rightarrow> closed ts' \<and> length ts' + k \<le> length ts"
  using assms unfolding safe_by_def by blast

lemma safe_by_bnd:
  assumes m: "safe_by j m" and f: "\<And>x. safe_by k (f x)"
  shows "safe_by (j + k) (bnd m f)"
  unfolding safe_by_def
proof (intro allI impI)
  fix ts r ts' assume c: "closed ts" and run: "bnd m f ts = (r, ts')"
  obtain r1 ts1 where r1: "m ts = (r1, ts1)" by (cases "m ts")
  note s1 = safe_byD [OF m c r1]
  show "case r of Inl e \<Rightarrow> e = ParseError | Inr x \<Rightarrow> closed ts' \<and> length ts' + (j + k) \<le> length ts"
  proof (cases r1)
    case (Inl e)
    then show ?thesis using run r1 s1 by (auto simp: bnd_def)
  next
    case (Inr x)
    then have "f x ts1 = (r, ts')" using run r1 by (simp add: bnd_def)
    from safe_byD [OF f _ this] show ?thesis using s1 Inr by (auto split: sum.splits)
  qed
qed

lemma safe_bnd [safe_intros]: "safe m \<Longrightarrow> (\<And>x. safe (f x)) \<Longrightarrow> safe (bnd m f)"
  using safe_by_bnd [of 0 m 0 f] by simp

lemma eats_bnd [safe_intros]: "eats m \<Longrightarrow> (\<And>x. safe (f x)) \<Longrightarrow> eats (bnd m f)"
  using safe_by_bnd [of "Suc 0" m 0 f] by simp

lemma eats_safe: "eats m \<Longrightarrow> safe m"
  by (force simp: safe_by_def split: sum.splits)

lemma safe_basic [safe_intros]: "safe (ret x)" "safe_by k (throw ParseError)" "safe (gets g)"
  by (auto simp: safe_by_def)

lemma safe_if [safe_intros]: "safe_by k m \<Longrightarrow> safe_by k m' \<Longrightarrow> safe_by k (if b then m else m')"
  by simp

lemma closed_tl: "closed ts \<Longrightarrow> tok_type (hd ts) \<noteq> TT_EOF \<Longrightarrow> closed (tl ts) \<and> Suc (length (tl ts)) \<le> length ts"
  by (cases ts) (auto simp: closed_def split: if_splits)

lemma peek_run: "closed ts \<Longrightarrow> peek ts = (Inr (hd ts), ts)"
  by (cases ts) (auto simp: closed_def peek_def)

lemma match_run: "closed ts \<Longrightarrow> match T ts = (Inr (tok_type (hd ts) \<in> set T), ts)"
  by (simp add: match_def bnd_def peek_run)

lemma advance_run: "closed ts \<Longrightarrow> advance_token ts = (Inr (hd ts), if tok_type (hd ts) \<noteq> TT_EOF then tl ts else ts)"
  by (simp add: advance_token_def bnd_def peek_run)

lemma safe_tokens [safe_intros]: "safe peek" "safe advance_token" "safe (match T)" "safe (expect tt)"
  by (auto simp: safe_by_def peek_run advance_run match_run expect_def bnd_def split: if_splits dest: closed_tl)

lemma eats_ident [safe_intros]: "eats expect_ident"
  by (auto simp: safe_by_def expect_ident_def advance_run expect_def bnd_def split: if_splits dest: closed_tl)

lemma eats_literal [safe_intros]: "eats parse_literal"
  by (auto simp: safe_by_def parse_literal_def peek_run advance_run bnd_def split: if_splits dest: closed_tl)

lemmas safe_eaters [safe_intros] = eats_safe [OF eats_ident] eats_safe [OF eats_literal]

lemma items_loop_safe:
  assumes item: "eats item" and c: "closed ts" and n: "length ts < n" and run: "items_loop item n xs ts = (r, ts')"
  shows "case r of Inl e \<Rightarrow> e = ParseError | Inr ys \<Rightarrow> closed ts' \<and> length ts' \<le> length ts"
  using c n run
proof (induction n arbitrary: xs ts)
  case (Suc n)
  show ?case
  proof (cases "tok_type (hd ts) \<in> set [TT_RPAREN, TT_EOF]")
    case True
    then show ?thesis using Suc.prems by (auto simp: bnd_def match_run)
  next
    case False
    obtain r1 ts1 where r1: "item ts = (r1, ts1)" by (cases "item ts")
    note s1 = safe_byD [OF item Suc.prems(1) r1]
    show ?thesis
    proof (cases r1)
      case (Inl e)
      then show ?thesis using Suc.prems False r1 s1 by (auto simp: bnd_def match_run)
    next
      case (Inr x)
      then have c1: "closed ts1" "length ts1 < length ts" using s1 by simp_all
      let ?ts = "if tok_type (hd ts1) = TT_COMMA then tl ts1 else ts1"
      have c2: "closed ?ts" "length ?ts \<le> length ts1" using closed_tl [OF c1(1)] c1(1) by auto
      have "items_loop item n (xs @ [x]) ?ts = (r, ts')"
        using Suc.prems False r1 Inr c1(1) by (auto simp: bnd_def match_run advance_run split: if_splits)
      from Suc.IH [OF c2(1) _ this] show ?thesis using c1(2) c2(2) Suc.prems(2) by (auto split: sum.splits)
    qed
  qed
qed simp

lemma sep_loop_safe:
  assumes item: "safe item" and sep: "sep \<noteq> TT_EOF" and c: "closed ts" and n: "length ts < n" and run: "sep_loop sep item f n acc ts = (r, ts')"
  shows "case r of Inl e \<Rightarrow> e = ParseError | Inr ys \<Rightarrow> closed ts' \<and> length ts' \<le> length ts"
  using c n run
proof (induction n arbitrary: acc ts)
  case (Suc n)
  show ?case
  proof (cases "tok_type (hd ts) = sep")
    case False
    then have "match [sep] ts = (Inr False, ts)" using Suc.prems(1) by (simp add: match_run)
    then show ?thesis using Suc.prems by (auto simp: bnd_def)
  next
    case True
    then have e: "tok_type (hd ts) \<noteq> TT_EOF" using sep by simp
    note t = closed_tl [OF Suc.prems(1) e]
    have m: "match [sep] ts = (Inr True, ts)" "advance_token ts = (Inr (hd ts), tl ts)"
      using Suc.prems(1) True e by (simp_all add: match_run advance_run)
    obtain r1 ts1 where r1: "item (tl ts) = (r1, ts1)" by (cases "item (tl ts)")
    note s1 = safe_byD [OF item conjunct1 [OF t] r1]
    have run: "(case (r1, ts1) of (Inl e, s') \<Rightarrow> (Inl e, s') | (Inr x, s') \<Rightarrow> sep_loop sep item f n (f acc x) s') = (r, ts')"
      using Suc.prems(3) r1 by (simp add: bnd_def m)
    show ?thesis
    proof (cases r1)
      case (Inl e)
      then show ?thesis using run s1 by auto
    next
      case (Inr x)
      then have c1: "closed ts1" "length ts1 < n" "length ts1 \<le> length ts" using s1 t Suc.prems(2) by (simp_all del: length_tl)
      have run1: "sep_loop sep item f n (f acc x) ts1 = (r, ts')" using run Inr by simp
      have ih: "case r of Inl e \<Rightarrow> e = ParseError | Inr ys \<Rightarrow> closed ts' \<and> length ts' \<le> length ts1"
        by (rule Suc.IH [OF c1(1,2) run1])
      show ?thesis
      proof (cases r)
        case (Inl e)
        show ?thesis using ih unfolding Inl sum.case .
      next
        case (Inr y)
        show ?thesis using ih c1(3) unfolding Inr sum.case by linarith
      qed
    qed
  qed
qed simp

lemma items_safe [safe_intros]:
  assumes "eats item"
  shows "safe (parse_items item)"
  unfolding safe_by_def
proof (intro allI impI)
  fix ts r ts' assume c: "closed ts" and "parse_items item ts = (r, ts')"
  then have run: "items_loop item (Suc (length ts)) [] ts = (r, ts')" by (simp add: parse_items_def bnd_def del: items_loop.simps)
  show "case r of Inl e \<Rightarrow> e = ParseError | Inr x \<Rightarrow> closed ts' \<and> length ts' + 0 \<le> length ts"
    using items_loop_safe [OF assms c lessI run] by (simp only: add_0_right)
qed

lemma sep_safe [safe_intros]:
  assumes "safe item" "sep \<noteq> TT_EOF"
  shows "safe (parse_sep sep item f acc)"
  unfolding safe_by_def
proof (intro allI impI)
  fix ts r ts' assume c: "closed ts" and "parse_sep sep item f acc ts = (r, ts')"
  then have run: "sep_loop sep item f (Suc (length ts)) acc ts = (r, ts')" by (simp add: parse_sep_def bnd_def del: sep_loop.simps)
  show "case r of Inl e \<Rightarrow> e = ParseError | Inr x \<Rightarrow> closed ts' \<and> length ts' + 0 \<le> length ts"
    using sep_loop_safe [OF assms c lessI run] by (simp only: add_0_right)
qed

lemma eats_column_def [safe_intros]: "eats parse_column_def"
  unfolding parse_column_def_def case_prod_beta by (intro safe_intros)

lemma safe_select_col [safe_intros]: "safe parse_select_col"
  unfolding parse_select_col_def by (intro safe_intros)

lemma safe_condition [safe_intros]: "safe (parse_condition col)"
  unfolding parse_condition_def by (intro safe_intros)

lemma safe_predicate [safe_intros]: "safe parse_predicate" "safe parse_join_predicate"
  unfolding parse_predicate_def parse_join_predicate_def by (intro safe_intros)+

lemma safe_pairs [safe_intros]: "safe parse_col_ref" "safe parse_assignment"
  unfolding parse_col_ref_def parse_assignment_def by (intro safe_intros)+

lemma safe_where [safe_intros]: "safe parse_where" "safe parse_join_where"
  unfolding parse_where_def parse_join_where_def by (intro safe_intros; simp)+

lemma safe_opt_where [safe_intros]: "safe clause \<Longrightarrow> safe (opt_where clause)"
  unfolding opt_where_def by (intro safe_intros)

lemma safe_column_list [safe_intros]: "safe parse_column_list"
  unfolding parse_column_list_def by (intro safe_intros; simp)

lemma safe_create [safe_intros]: "safe parse_create_table_body" "safe parse_create_index_body" "safe parse_drop_index"
  unfolding parse_create_table_body_def parse_create_index_body_def parse_drop_index_def Let_def by (intro safe_intros)+

lemma safe_statements [safe_intros]: "safe parse_insert" "safe parse_select" "safe parse_delete"
  unfolding parse_insert_def parse_select_def parse_delete_def Let_def case_prod_beta by (intro safe_intros)+

lemma safe_update [safe_intros]: "safe parse_update"
  unfolding parse_update_def case_prod_beta by (intro safe_intros; simp)

lemma parse_safe: "safe parse_stmt"
  unfolding parse_stmt_def by (intro safe_intros)

end
