(* ===== verification/Sql_Text.thy ===== *)
theory Sql_Text
  imports Parser
begin

section \<open>Parsing what was printed\<close>

text \<open>
  SQL text for a statement, as the lexemes of its grammar; \<open>sql_round_trip\<close> shows that the parser reads every
  well-formed statement back from it. The lemmas are a small calculus: \<open>reads m ls x F\<close> says that \<open>m\<close> reads \<open>x\<close> from
  tokens that stand for \<open>ls\<close>, when the type of the next token is not in \<open>F\<close>.
\<close>

subsection \<open>Printing\<close>

abbreviation K :: "tt \<Rightarrow> string \<Rightarrow> lexeme" where
  "K tt s \<equiv> (tt, VStr (py s))"

abbreviation ident_lexeme :: "pystr \<Rightarrow> lexeme" where
  "ident_lexeme s \<equiv> (TT_IDENT, VStr s)"

fun lit_lexeme :: "val \<Rightarrow> lexeme" where
  "lit_lexeme VNull = K TT_NULL ''NULL''"
| "lit_lexeme (VInt i) = (TT_INT_LIT, VInt i)"
| "lit_lexeme (VStr s) = (TT_STR_LIT, VStr s)"

fun commas :: "lexeme list list \<Rightarrow> lexeme list" where
  "commas [] = []"
| "commas [x] = x"
| "commas (x # y # zs) = x @ K TT_COMMA '','' # commas (y # zs)"

definition type_lexeme :: "pystr \<Rightarrow> lexeme" where
  "type_lexeme t = (if t = INT_TYPE then K TT_INT ''INT'' else K TT_STRING ''STRING'')"

definition column_lexemes :: "column_def \<Rightarrow> lexeme list" where
  "column_lexemes c =
     ident_lexeme (cd_name c) # type_lexeme (cd_type c) #
     (if cd_primary_key c then [K TT_PRIMARY ''PRIMARY'', K TT_KEY ''KEY''] else []) @
     (case (cd_fk_table c, cd_fk_col c) of
        (Some t, Some k) \<Rightarrow> [K TT_REFERENCES ''REFERENCES'', ident_lexeme t, K TT_LPAREN ''('', ident_lexeme k, K TT_RPAREN '')'']
      | _ \<Rightarrow> [])"

fun col_lexemes :: "col_name \<Rightarrow> lexeme list" where
  "col_lexemes (Name c) = [ident_lexeme c]"
| "col_lexemes (ColRef t c) = [ident_lexeme t, K TT_DOT ''.'', ident_lexeme c]"

definition OPS :: "(pystr \<times> tt) list" where
  "OPS = map (\<lambda>(s, t). (py s, t)) [(''<'', TT_LT), (''>'', TT_GT), (''<='', TT_LTE), (''>='', TT_GTE), (''!='', TT_NEQ)]"

fun atom_lexemes :: "expr \<Rightarrow> lexeme list" where
  "atom_lexemes (EqExpr c v) = col_lexemes c @ [K TT_EQ ''='', lit_lexeme v]"
| "atom_lexemes (CompareExpr c op v) = col_lexemes c @ [(the (map_of OPS op), VStr op), lit_lexeme v]"
| "atom_lexemes (BetweenExpr c l h) = col_lexemes c @ [K TT_BETWEEN ''BETWEEN'', lit_lexeme l, K TT_AND ''AND'', lit_lexeme h]"
| "atom_lexemes _ = []"

fun atoms :: "expr \<Rightarrow> expr list" where
  "atoms (AndExpr l r) = atoms l @ [r]"
| "atoms e = [e]"

definition where_lexemes :: "expr option \<Rightarrow> lexeme list" where
  "where_lexemes w = (case w of None \<Rightarrow> []
     | Some e \<Rightarrow> K TT_WHERE ''WHERE'' # atom_lexemes (hd (atoms e)) @ concat (map (\<lambda>a. K TT_AND ''AND'' # atom_lexemes a) (tl (atoms e))))"

definition columns_lexemes :: "col_name list \<Rightarrow> lexeme list" where
  "columns_lexemes cs = (if cs = STAR then [K TT_STAR ''*'']
     else col_lexemes (hd cs) @ concat (map (\<lambda>c. K TT_COMMA '','' # col_lexemes c) (tl cs)))"

definition assign_lexemes :: "pystr \<times> val \<Rightarrow> lexeme list" where
  "assign_lexemes a = [ident_lexeme (fst a), K TT_EQ ''='', lit_lexeme (snd a)]"

fun stmt_lexemes :: "stmt \<Rightarrow> lexeme list" where
  "stmt_lexemes (CreateTableStmt t cs) =
     K TT_CREATE ''CREATE'' # K TT_TABLE ''TABLE'' # ident_lexeme t # K TT_LPAREN ''('' # commas (map column_lexemes cs) @ [K TT_RPAREN '')'']"
| "stmt_lexemes (InsertStmt t vs) =
     K TT_INSERT ''INSERT'' # K TT_INTO ''INTO'' # ident_lexeme t # K TT_VALUES ''VALUES'' # K TT_LPAREN ''('' #
     commas (map (\<lambda>v. [lit_lexeme v]) vs) @ [K TT_RPAREN '')'']"
| "stmt_lexemes (SelectStmt t cs w) =
     K TT_SELECT ''SELECT'' # columns_lexemes cs @ K TT_FROM ''FROM'' # ident_lexeme t # where_lexemes w"
| "stmt_lexemes (UpdateStmt t as w) =
     K TT_UPDATE ''UPDATE'' # ident_lexeme t # K TT_SET ''SET'' # assign_lexemes (hd as) @
     concat (map (\<lambda>a. K TT_COMMA '','' # assign_lexemes a) (tl as)) @ where_lexemes w"
| "stmt_lexemes (DeleteStmt t w) = K TT_DELETE ''DELETE'' # K TT_FROM ''FROM'' # ident_lexeme t # where_lexemes w"
| "stmt_lexemes (CreateIndexStmt i t c) =
     [K TT_CREATE ''CREATE'', K TT_INDEX ''INDEX'', ident_lexeme i, K TT_ON ''ON'', ident_lexeme t, K TT_LPAREN ''('', ident_lexeme c, K TT_RPAREN '')'']"
| "stmt_lexemes (DropIndexStmt i) = [K TT_DROP ''DROP'', K TT_INDEX ''INDEX'', ident_lexeme i]"
| "stmt_lexemes (JoinSelectStmt l r lc rc cs w) =
     K TT_SELECT ''SELECT'' # columns_lexemes cs @ K TT_FROM ''FROM'' # ident_lexeme l # K TT_JOIN ''JOIN'' # ident_lexeme r #
     K TT_ON ''ON'' # ident_lexeme l # K TT_DOT ''.'' # ident_lexeme lc # K TT_EQ ''='' #
     ident_lexeme r # K TT_DOT ''.'' # ident_lexeme rc # where_lexemes w"

definition sql_text :: "stmt \<Rightarrow> pystr" where
  "sql_text s = spaced (stmt_lexemes s)"

subsection \<open>Well-formed statements\<close>

fun lit_ok :: "val \<Rightarrow> bool" where
  "lit_ok (VInt i) \<longleftrightarrow> int_ok i"
| "lit_ok _ \<longleftrightarrow> True"

definition column_ok :: "unicode \<Rightarrow> column_def \<Rightarrow> bool" where
  "column_ok u c \<longleftrightarrow> ident_ok u (cd_name c) \<and> cd_type c \<in> {INT_TYPE, STRING_TYPE} \<and>
     (case (cd_fk_table c, cd_fk_col c) of (None, None) \<Rightarrow> True | (Some t, Some k) \<Rightarrow> ident_ok u t \<and> ident_ok u k | _ \<Rightarrow> False)"

fun col_ok :: "unicode \<Rightarrow> bool \<Rightarrow> col_name \<Rightarrow> bool" where
  "col_ok u dotted (Name c) \<longleftrightarrow> ident_ok u c"
| "col_ok u dotted (ColRef t c) \<longleftrightarrow> dotted \<and> ident_ok u t \<and> ident_ok u c"

fun atom_ok :: "unicode \<Rightarrow> bool \<Rightarrow> expr \<Rightarrow> bool" where
  "atom_ok u dotted (EqExpr c v) \<longleftrightarrow> col_ok u dotted c \<and> lit_ok v"
| "atom_ok u dotted (CompareExpr c op v) \<longleftrightarrow> col_ok u dotted c \<and> map_of OPS op \<noteq> None \<and> lit_ok v"
| "atom_ok u dotted (BetweenExpr c l h) \<longleftrightarrow> col_ok u dotted c \<and> lit_ok l \<and> lit_ok h"
| "atom_ok u dotted _ \<longleftrightarrow> False"

definition where_ok :: "unicode \<Rightarrow> bool \<Rightarrow> expr option \<Rightarrow> bool" where
  "where_ok u dotted w \<longleftrightarrow> (case w of None \<Rightarrow> True | Some e \<Rightarrow> list_all (atom_ok u dotted) (atoms e))"

definition columns_ok :: "unicode \<Rightarrow> col_name list \<Rightarrow> bool" where
  "columns_ok u cs \<longleftrightarrow> cs = STAR \<or> cs \<noteq> [] \<and> list_all (col_ok u True) cs"

definition one_int_key :: "column_def list \<Rightarrow> bool" where
  "one_int_key cs \<longleftrightarrow> (\<exists>c. filter cd_primary_key cs = [c] \<and> cd_type c = INT_TYPE)"

fun stmt_ok :: "unicode \<Rightarrow> stmt \<Rightarrow> bool" where
  "stmt_ok u (CreateTableStmt t cs) \<longleftrightarrow> ident_ok u t \<and> list_all (column_ok u) cs \<and> one_int_key cs"
| "stmt_ok u (InsertStmt t vs) \<longleftrightarrow> ident_ok u t \<and> list_all lit_ok vs"
| "stmt_ok u (SelectStmt t cs w) \<longleftrightarrow> ident_ok u t \<and> columns_ok u cs \<and> where_ok u False w"
| "stmt_ok u (UpdateStmt t as w) \<longleftrightarrow> ident_ok u t \<and> as \<noteq> [] \<and> distinct (map fst as) \<and>
     list_all (\<lambda>(c, v). ident_ok u c \<and> lit_ok v) as \<and> where_ok u False w"
| "stmt_ok u (DeleteStmt t w) \<longleftrightarrow> ident_ok u t \<and> where_ok u False w"
| "stmt_ok u (CreateIndexStmt i t c) \<longleftrightarrow> ident_ok u i \<and> ident_ok u t \<and> ident_ok u c"
| "stmt_ok u (DropIndexStmt i) \<longleftrightarrow> ident_ok u i"
| "stmt_ok u (JoinSelectStmt l r lc rc cs w) \<longleftrightarrow> list_all (ident_ok u) [l, r, lc, rc] \<and> l \<noteq> r \<and> columns_ok u cs \<and> where_ok u True w"

subsection \<open>A calculus of readers\<close>

definition reads :: "'a parser \<Rightarrow> lexeme list \<Rightarrow> 'a \<Rightarrow> tt set \<Rightarrow> bool" where
  "reads m ls x F \<longleftrightarrow> (\<forall>ts (t :: token) r. stand_for ts ls \<longrightarrow> tok_type t \<notin> F \<longrightarrow> m (ts @ t # r) = (Inr x, t # r))"

lemma readsD: "reads m ls x F \<Longrightarrow> stand_for ts ls \<Longrightarrow> tok_type t \<notin> F \<Longrightarrow> m (ts @ t # r) = (Inr x, t # r)"
  by (simp add: reads_def)

lemma stand_for_simps [simp]:
  "stand_for ts [] \<longleftrightarrow> ts = []"
  "stand_for ts (l # ls) \<longleftrightarrow> (\<exists>t ts'. ts = t # ts' \<and> stands_for t l \<and> stand_for ts' ls)"
  by (auto simp: stand_for_def list_all2_Cons2)

lemma stand_for_append: "stand_for ts (ls @ ls') \<longleftrightarrow> (\<exists>us vs. ts = us @ vs \<and> stand_for us ls \<and> stand_for vs ls')"
proof
  assume "stand_for ts (ls @ ls')"
  then show "\<exists>us vs. ts = us @ vs \<and> stand_for us ls \<and> stand_for vs ls'" unfolding stand_for_def list_all2_append2 by blast
qed (auto simp: stand_for_def intro: list_all2_appendI)

lemma run_Cons [simp]:
  "peek (t # ts) = (Inr t, t # ts)"
  "match T (t # ts) = (Inr (tok_type t \<in> set T), t # ts)"
  "tok_type t \<noteq> TT_EOF \<Longrightarrow> advance_token (t # ts) = (Inr t, ts)"
  "tok_type t = tt \<Longrightarrow> tt \<noteq> TT_EOF \<Longrightarrow> expect tt (t # ts) = (Inr t, ts)"
  "stands_for t (ident_lexeme s) \<Longrightarrow> expect_ident (t # ts) = (Inr s, ts)"
  by (simp_all add: peek_def match_def advance_token_def expect_def expect_ident_def tok_str_def stands_for_def bnd_def)

text \<open>What may follow: the type of the first lexeme, if there is one.\<close>

definition may_follow :: "tt set \<Rightarrow> lexeme list \<Rightarrow> tt set \<Rightarrow> bool" where
  "may_follow F ls G \<longleftrightarrow> (case ls of [] \<Rightarrow> F \<subseteq> G | l # _ \<Rightarrow> fst l \<notin> F)"

lemma may_follow_simps [simp]: "may_follow F [] G \<longleftrightarrow> F \<subseteq> G" "may_follow F (l # ls) G \<longleftrightarrow> fst l \<notin> F"
  by (simp_all add: may_follow_def)

lemma reads_bnd:
  assumes m: "reads m ls x F" and f: "reads (f x) ls' y G" and w: "may_follow F ls' G"
  shows "reads (bnd m f) (ls @ ls') y G"
  unfolding reads_def
proof (intro allI impI)
  fix ts :: "token list" and t :: token and r assume ts: "stand_for ts (ls @ ls')" and t: "tok_type t \<notin> G"
  obtain us vs where u: "ts = us @ vs" "stand_for us ls" "stand_for vs ls'" using ts by (auto simp: stand_for_append)
  have "m (us @ vs @ t # r) = (Inr x, vs @ t # r)"
  proof (cases ls')
    case Nil
    then show ?thesis using readsD [OF m u(2), of t r] u(3) w t by auto
  next
    case (Cons l ls1)
    then obtain v vs1 where v: "vs = v # vs1" "stands_for v l" using u(3) by auto
    then have "tok_type v \<notin> F" using w Cons by (simp add: stands_for_def)
    then show ?thesis using readsD [OF m u(2), of v "vs1 @ t # r"] v(1) by simp
  qed
  then show "bnd m f (ts @ t # r) = (Inr y, t # r)"
    using readsD [OF f u(3) t, of r] by (simp add: bnd_def u(1))
qed

lemma reads_bnd_last: "reads m ls x F \<Longrightarrow> reads (f x) [] y G \<Longrightarrow> F \<subseteq> G \<Longrightarrow> reads (bnd m f) ls y G"
  using reads_bnd [of m ls x F f "[]" y G] by simp

named_theorems read_rules \<open>one step of a reader\<close>

lemma reads_ret [read_rules]: "reads (ret y) [] y G"
  by (simp add: reads_def)

lemma reads_head:
  assumes "\<And>t ts. stands_for t l \<Longrightarrow> m (t # ts) = (Inr (g t), ts)" "\<And>t. stands_for t l \<Longrightarrow> reads (f (g t)) ls y G"
  shows "reads (bnd m f) (l # ls) y G"
  using assms unfolding reads_def by (auto simp: bnd_def)

lemma reads_expect [read_rules]:
  "tt \<noteq> TT_EOF \<Longrightarrow> reads f ls y G \<Longrightarrow> reads (bnd (expect tt) (\<lambda>_. f)) ((tt, v) # ls) y G"
  by (rule reads_head [where g = "\<lambda>t. t"]) (simp_all add: stands_for_def)

lemma reads_ident [read_rules]: "reads (f s) ls y G \<Longrightarrow> reads (bnd expect_ident f) (ident_lexeme s # ls) y G"
  by (rule reads_head [where g = "\<lambda>t. s"]) simp_all

lemma reads_advance [read_rules]:
  "tt \<noteq> TT_EOF \<Longrightarrow> reads f ls y G \<Longrightarrow> reads (bnd advance_token (\<lambda>_. f)) ((tt, v) # ls) y G"
  by (rule reads_head [where g = "\<lambda>t. t"]) (simp_all add: stands_for_def)

lemma reads_match [read_rules]:
  assumes "reads (f (tt \<in> set T)) ((tt, v) # ls) y G"
  shows "reads (bnd (match T) f) ((tt, v) # ls) y G"
  unfolding reads_def
proof (intro allI impI)
  fix ts :: "token list" and t :: token and r assume ts: "stand_for ts ((tt, v) # ls)" and t: "tok_type t \<notin> G"
  then obtain a as where a: "ts = a # as" "tok_type a = tt" by (auto simp: stands_for_def)
  show "bnd (match T) f (ts @ t # r) = (Inr y, t # r)"
    using readsD [OF assms ts t, of r] a by (simp add: bnd_def)
qed

lemma reads_peek [read_rules]:
  assumes "\<And>t. tok_type t = tt \<Longrightarrow> reads (f t) ((tt, v) # ls) y G"
  shows "reads (bnd peek f) ((tt, v) # ls) y G"
  unfolding reads_def
proof (intro allI impI)
  fix ts :: "token list" and t :: token and r assume ts: "stand_for ts ((tt, v) # ls)" and t: "tok_type t \<notin> G"
  then obtain a as where a: "ts = a # as" "tok_type a = tt" by (auto simp: stands_for_def)
  show "bnd peek f (ts @ t # r) = (Inr y, t # r)"
    using readsD [OF assms [OF a(2)] ts t, of r] a by (simp add: bnd_def)
qed

lemma reads_match_end [read_rules]:
  assumes "set T \<subseteq> G" "reads (f False) [] y G"
  shows "reads (bnd (match T) f) [] y G"
  unfolding reads_def
proof (intro allI impI)
  fix ts :: "token list" and t :: token and r assume ts: "stand_for ts []" and t: "tok_type t \<notin> G"
  have "tok_type t \<notin> set T" using assms(1) t by blast
  then show "bnd (match T) f (ts @ t # r) = (Inr y, t # r)" using readsD [OF assms(2) ts t, of r] ts by (simp add: bnd_def)
qed

lemma reads_literal: "reads parse_literal [lit_lexeme v] v {}"
  by (cases v) (auto simp: reads_def parse_literal_def bnd_def stands_for_def)

lemma reads_literal_bnd [read_rules]: "reads (f v) ls y G \<Longrightarrow> reads (bnd parse_literal f) (lit_lexeme v # ls) y G"
  using reads_bnd [OF reads_literal, of f v ls y G] by (simp add: may_follow_def split: list.splits)

subsection \<open>Loops\<close>

lemma length_commas: "(\<And>x. x \<in> set xs \<Longrightarrow> pr x \<noteq> []) \<Longrightarrow> length xs \<le> length (commas (map pr xs))"
proof (induction xs)
  case (Cons x xs)
  then have "pr x \<noteq> []" "length xs \<le> length (commas (map pr xs))" by auto
  then show ?case by (cases xs; cases "pr x") auto
qed simp

lemma items_loop_reads:
  fixes t :: token
  assumes item: "\<And>x. x \<in> set ys \<Longrightarrow> reads item (pr x) x F" and F: "TT_COMMA \<notin> F" "TT_RPAREN \<notin> F"
    and start: "\<And>x. x \<in> set ys \<Longrightarrow> pr x \<noteq> [] \<and> fst (hd (pr x)) \<notin> {TT_RPAREN, TT_EOF}"
    and ts: "stand_for ts (commas (map pr ys))" and t: "tok_type t = TT_RPAREN" and n: "length ys < n"
  shows "items_loop item n acc (ts @ t # r) = (Inr (acc @ ys), t # r)"
  using item start ts n
proof (induction ys arbitrary: acc ts n)
  case Nil
  then obtain m where "n = Suc m" by (cases n) auto
  then show ?case using Nil t by (simp add: bnd_def)
next
  case (Cons y ys)
  obtain m where m: "n = Suc m" using Cons.prems(4) by (cases n) auto
  have item: "reads item (pr y) y F" using Cons.prems(1) by simp
  obtain l ls where l: "pr y = l # ls" "fst l \<notin> {TT_RPAREN, TT_EOF}" using Cons.prems(2) [of y] by (cases "pr y") simp_all
  show ?case
  proof (cases ys)
    case Nil
    then have u: "stand_for ts (pr y)" using Cons.prems(3) by simp
    then obtain a as where a: "ts = a # as" "tok_type a \<notin> {TT_RPAREN, TT_EOF}" using l by (auto simp: stands_for_def)
    have run: "item (ts @ t # r) = (Inr y, t # r)" by (rule readsD [OF item u]) (simp add: t F(2))
    have "items_loop item m (acc @ [y]) ([] @ t # r) = (Inr ((acc @ [y]) @ []), t # r)"
      by (rule Cons.IH [unfolded Nil]) (use Cons.prems(4) m Nil in auto)
    then show ?thesis using a run t Nil unfolding m by (simp add: bnd_def)
  next
    case (Cons z zs)
    obtain us c vs where u: "ts = us @ c # vs" "stand_for us (pr y)" "tok_type c = TT_COMMA" "stand_for vs (commas (map pr ys))"
      using Cons.prems(3) Cons by (auto simp: stand_for_append stands_for_def)
    then obtain a as where a: "us = a # as" "tok_type a \<notin> {TT_RPAREN, TT_EOF}" using l by (auto simp: stands_for_def)
    have run: "item (us @ c # vs @ t # r) = (Inr y, c # vs @ t # r)" by (rule readsD [OF item u(2)]) (simp add: u(3) F(1))
    have "items_loop item m (acc @ [y]) (vs @ t # r) = (Inr ((acc @ [y]) @ ys), t # r)"
      by (rule Cons.IH) (use Cons.prems u(4) m in auto)
    then show ?thesis using a run u(1,3) unfolding m by (simp add: bnd_def)
  qed
qed

lemma reads_items:
  assumes item: "\<And>x. x \<in> set xs \<Longrightarrow> reads item (pr x) x F" and F: "TT_COMMA \<notin> F" "TT_RPAREN \<notin> F"
    and start: "\<And>x. x \<in> set xs \<Longrightarrow> pr x \<noteq> [] \<and> fst (hd (pr x)) \<notin> {TT_RPAREN, TT_EOF}"
    and f: "reads (f xs) ((TT_RPAREN, v) # ls) y G"
  shows "reads (bnd (parse_items item) f) (commas (map pr xs) @ (TT_RPAREN, v) # ls) y G"
proof (rule reads_bnd [where F = "- {TT_RPAREN}" and x = xs])
  show "reads (parse_items item) (commas (map pr xs)) xs (- {TT_RPAREN})"
    unfolding reads_def
  proof (intro allI impI)
    fix ts :: "token list" and t :: token and r assume ts: "stand_for ts (commas (map pr xs))" and t: "tok_type t \<notin> - {TT_RPAREN}"
    have "length xs \<le> length (commas (map pr xs))" by (rule length_commas) (use start in fastforce)
    also have "\<dots> = length ts" using ts by (simp add: stand_for_def list_all2_lengthD)
    finally have "length xs < Suc (length (ts @ t # r))" by simp
    then have "items_loop item (Suc (length (ts @ t # r))) [] (ts @ t # r) = (Inr ([] @ xs), t # r)"
      using items_loop_reads [OF item F start ts] t by (simp del: items_loop.simps)
    then show "parse_items item (ts @ t # r) = (Inr xs, t # r)" by (simp add: parse_items_def bnd_def del: items_loop.simps)
  qed
qed (use f in simp_all)

abbreviation seps :: "lexeme \<Rightarrow> ('a \<Rightarrow> lexeme list) \<Rightarrow> 'a list \<Rightarrow> lexeme list" where
  "seps l pr xs \<equiv> concat (map (\<lambda>x. l # pr x) xs)"

lemma sep_loop_reads:
  fixes t :: token
  assumes item: "\<And>x. x \<in> set xs \<Longrightarrow> reads item (pr x) x F" and F: "sep \<notin> F" "sep \<noteq> TT_EOF"
    and ts: "stand_for ts (seps (sep, v) pr xs)" and t: "tok_type t \<notin> insert sep F" and n: "length xs < n"
  shows "sep_loop sep item f n acc (ts @ t # r) = (Inr (foldl f acc xs), t # r)"
  using item ts n
proof (induction xs arbitrary: acc ts n)
  case Nil
  then obtain m where "n = Suc m" by (cases n) auto
  then show ?case using Nil t by (simp add: bnd_def)
next
  case (Cons x xs)
  obtain m where m: "n = Suc m" using Cons.prems(3) by (cases n) auto
  obtain c us vs where u: "ts = c # us @ vs" "tok_type c = sep" "stand_for us (pr x)" "stand_for vs (seps (sep, v) pr xs)"
    using Cons.prems(2) by (auto simp: stand_for_append stands_for_def)
  have item: "reads item (pr x) x F" using Cons.prems(1) by simp
  have run: "item (us @ vs @ t # r) = (Inr x, vs @ t # r)"
  proof (cases vs)
    case Nil
    then show ?thesis using readsD [OF item u(3), of t r] t by simp
  next
    case (Cons a as)
    then have "tok_type a = sep" using u(4) by (cases xs) (auto simp: stands_for_def)
    then show ?thesis using readsD [OF item u(3), of a "as @ t # r"] F Cons by simp
  qed
  have "sep_loop sep item f m (f acc x) (vs @ t # r) = (Inr (foldl f (f acc x) xs), t # r)"
    by (rule Cons.IH) (use Cons.prems u(4) m in auto)
  then show ?case using run u(1,2) F(2) unfolding m by (simp add: bnd_def)
qed

lemma reads_sep:
  assumes item: "\<And>x. x \<in> set xs \<Longrightarrow> reads item (pr x) x F" and F: "sep \<notin> F" "sep \<noteq> TT_EOF"
  shows "reads (parse_sep sep item f acc) (seps (sep, v) pr xs) (foldl f acc xs) (insert sep F)"
  unfolding reads_def
proof (intro allI impI)
  fix ts :: "token list" and t :: token and r assume ts: "stand_for ts (seps (sep, v) pr xs)" and t: "tok_type t \<notin> insert sep F"
  have "length xs \<le> length (seps (sep, v) pr xs)" by (induction xs) auto
  also have "\<dots> = length ts" using ts by (simp add: stand_for_def list_all2_lengthD)
  finally have "length xs < Suc (length (ts @ t # r))" by simp
  from sep_loop_reads [OF item F ts t this] show "parse_sep sep item f acc (ts @ t # r) = (Inr (foldl f acc xs), t # r)"
    by (simp add: parse_sep_def bnd_def del: sep_loop.simps)
qed

lemma bnd_ret: "bnd (ret x) f = f x"
  by (rule ext) (simp add: bnd_def)

lemma bnd_if: "bnd (if b then m else m') f = (if b then bnd m f else bnd m' f)"
  by simp

lemmas read_simps = read_rules bnd_ret bnd_assoc bnd_if

declare ret_run [simp del]

subsection \<open>Clauses\<close>

lemma lit_type: "fst (lit_lexeme v) \<in> {TT_NULL, TT_INT_LIT, TT_STR_LIT}"
  by (cases v) auto

lemma reads_column: "column_ok u c \<Longrightarrow> reads parse_column_def (column_lexemes c) c {TT_PRIMARY, TT_REFERENCES}"
  by (cases c; cases "cd_fk_table c"; cases "cd_fk_col c")
    (auto simp: parse_column_def_def column_lexemes_def column_ok_def type_lexeme_def read_simps)

lemma reads_condition:
  "reads (parse_condition c) [K TT_EQ ''='', lit_lexeme v] (EqExpr c v) {}"
  "map_of OPS op = Some tt \<Longrightarrow> reads (parse_condition c) [(tt, VStr op), lit_lexeme v] (CompareExpr c op v) {}"
  "reads (parse_condition c) [K TT_BETWEEN ''BETWEEN'', lit_lexeme l, K TT_AND ''AND'', lit_lexeme h] (BetweenExpr c l h) {}"
proof -
  have op: "reads (bnd advance_token (\<lambda>t. bnd parse_literal (\<lambda>v. ret (if tok_type t = TT_EQ then EqExpr c v else CompareExpr c (tok_str t) v))))
     [(tt, VStr op), lit_lexeme v] (if tt = TT_EQ then EqExpr c v else CompareExpr c op v) {}" if "tt \<noteq> TT_EOF" for tt op
    by (rule reads_head [where g = "\<lambda>t. t"])
      (use that in \<open>simp_all add: stands_for_def tok_str_def read_simps cong: if_cong\<close>)
  have "tt \<in> set [TT_LT, TT_GT, TT_LTE, TT_GTE, TT_NEQ]" if "map_of OPS op = Some tt"
    using that by (auto simp: OPS_def split: if_splits)
  then show "map_of OPS op = Some tt \<Longrightarrow> reads (parse_condition c) [(tt, VStr op), lit_lexeme v] (CompareExpr c op v) {}"
    using op [of tt op] by (auto simp: parse_condition_def COMPARISONS_def read_simps)
  show "reads (parse_condition c) [K TT_EQ ''='', lit_lexeme v] (EqExpr c v) {}"
    using op [of TT_EQ "py ''=''"] by (simp add: parse_condition_def COMPARISONS_def read_simps)
  show "reads (parse_condition c) [K TT_BETWEEN ''BETWEEN'', lit_lexeme l, K TT_AND ''AND'', lit_lexeme h] (BetweenExpr c l h) {}"
    by (simp add: parse_condition_def read_simps)
qed

lemma reads_predicate: "atom_ok u False a \<Longrightarrow> reads parse_predicate (atom_lexemes a) a {}"
proof (cases a)
  case (CompareExpr c op v)
  assume "atom_ok u False a"
  then show ?thesis using CompareExpr reads_condition(2) [of op _ c v]
    by (cases c) (auto simp: parse_predicate_def intro!: read_rules)
qed (auto simp: parse_predicate_def reads_condition intro!: read_rules elim!: col_ok.elims)

lemma reads_join_predicate: "atom_ok u True a \<Longrightarrow> reads parse_join_predicate (atom_lexemes a) a {}"
proof -
  assume a: "atom_ok u True a"
  have dotted: "reads (bnd expect_ident (\<lambda>name. bnd (match [TT_DOT]) (\<lambda>dot.
     bnd (if dot then bnd advance_token (\<lambda>_. bnd expect_ident (\<lambda>c. ret (ColRef name c))) else ret (Name name)) parse_condition)))
     (col_lexemes c @ l # ls) e {}" if "reads (parse_condition c) (l # ls) e {}" "fst l \<noteq> TT_DOT" for c l ls e
    using that by (cases c; cases l) (simp_all add: read_simps)
  show ?thesis
  proof (cases a)
    case (CompareExpr c op v)
    then obtain tt where tt: "map_of OPS op = Some tt" using a by auto
    then have "tt \<noteq> TT_DOT" by (auto simp: OPS_def split: if_splits)
    then show ?thesis using dotted [OF reads_condition(2) [OF tt]] tt CompareExpr by (simp add: parse_join_predicate_def)
  qed (use a dotted [OF reads_condition(1)] dotted [OF reads_condition(3)] in \<open>simp_all add: parse_join_predicate_def\<close>)
qed

lemma atoms_nonempty [simp]: "atoms e \<noteq> []"
  by (induction e) auto

lemma atoms_fold: "list_all (atom_ok u d) (atoms e) \<Longrightarrow> foldl AndExpr (hd (atoms e)) (tl (atoms e)) = e"
  by (induction e) (auto simp: hd_append)

lemma reads_conjunction:
  assumes item: "\<And>a. atom_ok u d a \<Longrightarrow> reads item (atom_lexemes a) a {}" and e: "list_all (atom_ok u d) (atoms e)"
  shows "reads (bnd item (\<lambda>left. parse_sep TT_AND item AndExpr left))
    (atom_lexemes (hd (atoms e)) @ seps (K TT_AND ''AND'') atom_lexemes (tl (atoms e))) e {TT_AND}"
proof -
  have ok: "atom_ok u d a" if "a = hd (atoms e) \<or> a \<in> set (tl (atoms e))" for a
  proof -
    have "a \<in> set (atoms e)" using that atoms_nonempty [of e] by (metis list.set_sel)
    then show ?thesis using e by (simp add: list_all_iff)
  qed
  have "reads (parse_sep TT_AND item AndExpr (hd (atoms e))) (seps (K TT_AND ''AND'') atom_lexemes (tl (atoms e)))
     (foldl AndExpr (hd (atoms e)) (tl (atoms e))) (insert TT_AND {})"
    by (rule reads_sep) (use item ok in auto)
  then have r: "reads (parse_sep TT_AND item AndExpr (hd (atoms e))) (seps (K TT_AND ''AND'') atom_lexemes (tl (atoms e))) e {TT_AND}"
    unfolding atoms_fold [OF e] .
  show ?thesis
    by (rule reads_bnd [where x = "hd (atoms e)" and F = "{}"])
      (use item ok r in \<open>simp_all add: may_follow_def split: list.split\<close>)
qed

lemma reads_opt_where:
  assumes item: "\<And>a. atom_ok u d a \<Longrightarrow> reads item (atom_lexemes a) a {}" and w: "where_ok u d w"
    and f: "reads (f w) [] y G" and G: "{TT_AND, TT_WHERE} \<subseteq> G"
  shows "reads (bnd (opt_where (bnd item (\<lambda>left. parse_sep TT_AND item AndExpr left))) f) (where_lexemes w) y G"
proof (rule reads_bnd_last [where x = w, OF _ _ G])
  show "reads (f w) [] y G" by (rule f)
  show "reads (opt_where (bnd item (\<lambda>left. parse_sep TT_AND item AndExpr left))) (where_lexemes w) w {TT_AND, TT_WHERE}"
  proof (cases w)
    case None
    then show ?thesis by (simp add: opt_where_def where_lexemes_def read_simps)
  next
    case (Some e)
    then have e: "list_all (atom_ok u d) (atoms e)" using w by (simp add: where_ok_def)
    have "reads (bnd (bnd item (\<lambda>left. parse_sep TT_AND item AndExpr left)) (\<lambda>e. ret (Some e)))
      (atom_lexemes (hd (atoms e)) @ seps (K TT_AND ''AND'') atom_lexemes (tl (atoms e))) w {TT_AND, TT_WHERE}"
      by (rule reads_bnd_last [where x = e, OF reads_conjunction [OF item e]]) (simp_all add: Some read_simps)
    then show ?thesis by (simp add: opt_where_def where_lexemes_def Some read_rules)
  qed
qed

lemma reads_where:
  "where_ok u False w \<Longrightarrow> reads (f w) [] y G \<Longrightarrow> {TT_AND, TT_WHERE} \<subseteq> G \<Longrightarrow> reads (bnd (opt_where parse_where) f) (where_lexemes w) y G"
  "where_ok u True w \<Longrightarrow> reads (g w) [] y G \<Longrightarrow> {TT_AND, TT_WHERE} \<subseteq> G \<Longrightarrow> reads (bnd (opt_where parse_join_where) g) (where_lexemes w) y G"
  unfolding parse_where_def parse_join_where_def
  by (rule reads_opt_where [OF reads_predicate], assumption+) (rule reads_opt_where [OF reads_join_predicate], assumption+)

lemmas stmt_simps = read_rules bnd_ret bnd_assoc bnd_if

lemma reads_select_col: "col_ok u True c \<Longrightarrow> reads parse_select_col (col_lexemes c) c {TT_DOT}"
  by (cases c) (simp_all add: parse_select_col_def stmt_simps)

lemma foldl_snoc: "foldl (\<lambda>cs c. cs @ [c]) xs ys = xs @ ys"
  by (induction ys arbitrary: xs) auto

lemma star_text: "ident_ok u (py ''*'') \<longleftrightarrow> False"
  by (simp add: ident_ok_def py_def isalpha_def)

lemma reads_column_list:
  assumes ok: "columns_ok u cs" and f: "reads (f cs) ((tt, v) # ls) y G" and tt: "tt \<notin> {TT_DOT, TT_COMMA}"
  shows "reads (bnd parse_column_list f) (columns_lexemes cs @ (tt, v) # ls) y G"
proof (rule reads_bnd [where x = cs and F = "{TT_COMMA, TT_DOT}"])
  show "reads parse_column_list (columns_lexemes cs) cs {TT_COMMA, TT_DOT}"
  proof (cases "cs = STAR")
    case True
    then show ?thesis by (simp add: parse_column_list_def columns_lexemes_def stmt_simps)
  next
    case False
    then obtain c cs' where c: "cs = c # cs'" "col_ok u True c" "list_all (col_ok u True) cs'"
      using ok by (cases cs) (auto simp: columns_ok_def)
    obtain l ls' where l: "col_lexemes c = (TT_IDENT, l) # ls'" by (cases c) auto
    have "reads (parse_sep TT_COMMA parse_select_col (\<lambda>cols c. cols @ [c]) [c]) (seps (K TT_COMMA '','') col_lexemes cs')
      (foldl (\<lambda>cols c. cols @ [c]) [c] cs') (insert TT_COMMA {TT_DOT})"
      by (rule reads_sep) (use c(3) reads_select_col in \<open>auto simp: list_all_iff\<close>)
    then have s: "reads (parse_sep TT_COMMA parse_select_col (\<lambda>cols c. cols @ [c]) [c]) (seps (K TT_COMMA '','') col_lexemes cs') cs {TT_COMMA, TT_DOT}"
      unfolding foldl_snoc c(1) by simp
    have "reads (bnd parse_select_col (\<lambda>c. parse_sep TT_COMMA parse_select_col (\<lambda>cols c. cols @ [c]) [c]))
      (col_lexemes c @ seps (K TT_COMMA '','') col_lexemes cs') cs {TT_COMMA, TT_DOT}"
      by (rule reads_bnd [where x = c and F = "{TT_DOT}"])
        (use reads_select_col [OF c(2)] s in \<open>simp_all add: may_follow_def c(1) split: list.split\<close>, cases cs', simp_all)
    then show ?thesis using False unfolding c(1) parse_column_list_def columns_lexemes_def by (simp add: stmt_simps l)
  qed
qed (use f tt in simp_all)

subsection \<open>Statements\<close>

abbreviation FOLLOW :: "tt set" where
  "FOLLOW \<equiv> {TT_AND, TT_COMMA, TT_WHERE, TT_JOIN}"

lemma foldl_update: "distinct (map fst (xs @ ys)) \<Longrightarrow> foldl (\<lambda>d (col, v). AList.update col v d) xs ys = xs @ ys"
proof (induction ys arbitrary: xs)
  case (Cons y ys)
  obtain c v where y: "y = (c, v)" by (cases y)
  have "c \<notin> fst ` set xs" using Cons.prems by (auto simp: y)
  then have "AList.update c v xs = xs @ [(c, v)]" by (induction xs) auto
  then show ?case using Cons.IH [of "xs @ [y]"] Cons.prems by (simp add: y)
qed simp

lemma reads_assignment: "reads parse_assignment (assign_lexemes a) a {}"
  by (cases a) (simp add: parse_assignment_def assign_lexemes_def stmt_simps)

lemma reads_assignments:
  assumes as: "as = a # as'" "distinct (map fst as)" and f: "reads (f as) (where_lexemes w) y FOLLOW"
  shows "reads (bnd parse_assignment (\<lambda>(col, v). bnd (parse_sep TT_COMMA parse_assignment (\<lambda>d (col, v). AList.update col v d) [(col, v)]) f))
    (assign_lexemes a @ seps (K TT_COMMA '','') assign_lexemes as' @ where_lexemes w) y FOLLOW"
proof (rule reads_bnd [where x = a and F = "{}", OF reads_assignment])
  have "reads (parse_sep TT_COMMA parse_assignment (\<lambda>d (col, v). AList.update col v d) [a]) (seps (K TT_COMMA '','') assign_lexemes as')
    (foldl (\<lambda>d (col, v). AList.update col v d) [a] as') (insert TT_COMMA {})"
    by (rule reads_sep) (use reads_assignment in auto)
  moreover have "foldl (\<lambda>d (col, v). AList.update col v d) [a] as' = as" using foldl_update [of "[a]" as'] as by simp
  ultimately have s: "reads (parse_sep TT_COMMA parse_assignment (\<lambda>d (col, v). AList.update col v d) [a]) (seps (K TT_COMMA '','') assign_lexemes as') as {TT_COMMA}"
    by simp
  show "reads (case a of (col, v) \<Rightarrow> bnd (parse_sep TT_COMMA parse_assignment (\<lambda>d (col, v). AList.update col v d) [(col, v)]) f)
    (seps (K TT_COMMA '','') assign_lexemes as' @ where_lexemes w) y FOLLOW"
  proof (cases a)
    case (Pair col v)
    show ?thesis
      unfolding Pair prod.case
      by (rule reads_bnd [where x = as and F = "{TT_COMMA}"])
        (use s f in \<open>simp_all add: Pair may_follow_def where_lexemes_def split: list.split option.split\<close>)
  qed
qed (simp add: may_follow_def split: list.split)

lemma column_head: "column_lexemes c \<noteq> [] \<and> fst (hd (column_lexemes c)) = TT_IDENT"
  by (simp add: column_lexemes_def)

lemma lit_head: "fst (lit_lexeme v) \<noteq> TT_RPAREN \<and> fst (lit_lexeme v) \<noteq> TT_EOF"
  by (cases v) auto

lemma reads_stmt:
  assumes "stmt_ok u s"
  shows "reads parse_stmt (stmt_lexemes s) s FOLLOW"
  using assms
proof (cases s)
  case (CreateTableStmt t cs)
  then have ok: "list_all (column_ok u) cs" "one_int_key cs" using assms by simp_all
  have body: "reads (bnd (parse_items parse_column_def) (\<lambda>columns. bnd (expect TT_RPAREN) (\<lambda>_.
      let pks = filter cd_primary_key columns in
      if length pks \<noteq> 1 then throw ParseError
      else if cd_type (pks ! 0) \<noteq> INT_TYPE then throw ParseError
      else ret (CreateTableStmt t columns)))) (commas (map column_lexemes cs) @ [K TT_RPAREN '')'']) s FOLLOW"
  proof (rule reads_items [where F = "{TT_PRIMARY, TT_REFERENCES}"])
    show "reads (bnd (expect TT_RPAREN) (\<lambda>_.
      let pks = filter cd_primary_key cs in
      if length pks \<noteq> 1 then throw ParseError
      else if cd_type (pks ! 0) \<noteq> INT_TYPE then throw ParseError
      else ret (CreateTableStmt t cs))) [K TT_RPAREN '')''] s FOLLOW"
      using ok(2) by (auto simp: one_int_key_def Let_def CreateTableStmt stmt_simps reads_where [of u])
  qed (use ok(1) reads_column column_head in \<open>auto simp: list_all_iff\<close>)
  show ?thesis unfolding CreateTableStmt stmt_lexemes.simps
    using body [unfolded CreateTableStmt] by (simp add: parse_stmt_def parse_create_table_body_def stmt_simps reads_where [of u])
next
  case (InsertStmt t vs)
  have body: "reads (bnd (parse_items parse_literal) (\<lambda>values. bnd (expect TT_RPAREN) (\<lambda>_. ret (InsertStmt t values))))
     (commas (map (\<lambda>v. [lit_lexeme v]) vs) @ [K TT_RPAREN '')'']) s FOLLOW"
    by (rule reads_items [where F = "{}"]) (use reads_literal lit_head in \<open>auto simp: InsertStmt stmt_simps reads_where [of u]\<close>)
  show ?thesis unfolding InsertStmt stmt_lexemes.simps
    using body [unfolded InsertStmt] by (simp add: parse_stmt_def parse_insert_def stmt_simps reads_where [of u])
next
  case (SelectStmt t cs w)
  then have ok: "columns_ok u cs" "where_ok u False w" using assms by simp_all
  have end_where: "reads (bnd (match [TT_JOIN]) (\<lambda>join. if join then m else bnd (opt_where parse_where) (\<lambda>wh. ret (SelectStmt t cs wh))))
     (where_lexemes w) s FOLLOW" for m
  proof -
    have r: "reads (bnd (opt_where parse_where) (\<lambda>wh. ret (SelectStmt t cs wh))) (where_lexemes w) s FOLLOW"
      using ok(2) SelectStmt by (simp add: stmt_simps reads_where [of u])
    show ?thesis
    proof (cases w)
      case None
      then show ?thesis using r by (simp add: where_lexemes_def read_rules)
    next
      case (Some e)
      then show ?thesis using r by (simp add: where_lexemes_def read_rules)
    qed
  qed
  have "reads parse_select (K TT_SELECT ''SELECT'' # columns_lexemes cs @ K TT_FROM ''FROM'' # ident_lexeme t # where_lexemes w) s FOLLOW"
    unfolding parse_select_def
    by (rule reads_expect, simp, rule reads_column_list [OF ok(1)], rule reads_expect, simp, rule reads_ident, rule end_where, simp)
  then show ?thesis unfolding SelectStmt stmt_lexemes.simps by (simp add: parse_stmt_def read_rules)
next
  case (UpdateStmt t as w)
  then obtain a as' where a: "as = a # as'" using assms by (cases as) auto
  have r: "reads (bnd parse_assignment (\<lambda>(col, v). bnd (parse_sep TT_COMMA parse_assignment (\<lambda>d (col, v). AList.update col v d) [(col, v)])
       (\<lambda>assignments. bnd (opt_where parse_where) (\<lambda>wh. ret (UpdateStmt t assignments wh)))))
     (assign_lexemes a @ seps (K TT_COMMA '','') assign_lexemes as' @ where_lexemes w) s FOLLOW"
    by (rule reads_assignments [OF a]) (use assms UpdateStmt in \<open>simp_all add: stmt_simps reads_where [of u]\<close>)
  show ?thesis unfolding UpdateStmt stmt_lexemes.simps
    using r [unfolded UpdateStmt] by (simp add: parse_stmt_def parse_update_def read_rules a)
next
  case (DeleteStmt t w)
  then show ?thesis using assms by (simp add: parse_stmt_def parse_delete_def stmt_simps reads_where [of u])
next
  case (CreateIndexStmt i t c)
  then show ?thesis by (simp add: parse_stmt_def parse_create_index_body_def stmt_simps reads_where [of u])
next
  case (DropIndexStmt i)
  then show ?thesis by (simp add: parse_stmt_def parse_drop_index_def stmt_simps reads_where [of u])
next
  case (JoinSelectStmt l r lc rc cs w)
  then have ok: "columns_ok u cs" "where_ok u True w" "l \<noteq> r" using assms by simp_all
  have "reads parse_select (stmt_lexemes s) s FOLLOW"
    unfolding parse_select_def JoinSelectStmt stmt_lexemes.simps
    by (rule reads_expect, simp, rule reads_column_list [OF ok(1)])
      (use ok(2,3) in \<open>simp_all add: parse_col_ref_def Let_def stmt_simps reads_where [of u]\<close>)
  then show ?thesis unfolding JoinSelectStmt stmt_lexemes.simps by (simp add: parse_stmt_def read_rules)
qed

subsection \<open>The lexemes of a statement\<close>

abbreviation all_ok :: "unicode \<Rightarrow> lexeme list \<Rightarrow> bool" where
  "all_ok u \<equiv> list_all (lexeme_ok u)"

lemma keyword_ok:
  "list_all (\<lambda>(tt, s). (py s, tt) \<in> set KEYWORDS)
     [(TT_SELECT, ''SELECT''), (TT_FROM, ''FROM''), (TT_WHERE, ''WHERE''), (TT_INSERT, ''INSERT''), (TT_INTO, ''INTO''),
      (TT_VALUES, ''VALUES''), (TT_UPDATE, ''UPDATE''), (TT_SET, ''SET''), (TT_DELETE, ''DELETE''), (TT_CREATE, ''CREATE''),
      (TT_TABLE, ''TABLE''), (TT_PRIMARY, ''PRIMARY''), (TT_KEY, ''KEY''), (TT_BETWEEN, ''BETWEEN''), (TT_AND, ''AND''),
      (TT_OR, ''OR''), (TT_NULL, ''NULL''), (TT_INT, ''INT''), (TT_STRING, ''STRING''), (TT_INDEX, ''INDEX''), (TT_ON, ''ON''),
      (TT_DROP, ''DROP''), (TT_JOIN, ''JOIN''), (TT_REFERENCES, ''REFERENCES'')]"
  by (simp add: KEYWORDS_def)

lemma symbol_ok:
  "list_all (\<lambda>(tt, s). (py s, tt) \<in> set SYMBOLS)
     [(TT_STAR, ''*''), (TT_LPAREN, ''(''), (TT_RPAREN, '')''), (TT_COMMA, '',''), (TT_EQ, ''=''), (TT_DOT, ''.'')]"
  by (simp add: SYMBOLS_def)

lemmas table_ok [simp] = keyword_ok [unfolded list.pred_inject prod.case] symbol_ok [unfolded list.pred_inject prod.case]

lemma lit_lexeme_ok [simp]: "lexeme_ok u (lit_lexeme v) \<longleftrightarrow> lit_ok v"
  by (cases v) simp_all

lemma op_ok: "map_of OPS op = Some tt \<Longrightarrow> lexeme_ok u (tt, VStr op)"
  by (auto simp: OPS_def SYMBOLS_def split: if_splits)

lemma col_lexemes_ok: "col_ok u d c \<Longrightarrow> all_ok u (col_lexemes c)"
  by (cases c) simp_all

lemma atom_lexemes_ok: "atom_ok u d a \<Longrightarrow> all_ok u (atom_lexemes a)"
  by (cases a) (auto simp: op_ok dest: col_lexemes_ok)

lemma seps_ok: "lexeme_ok u l \<Longrightarrow> (\<And>x. x \<in> set xs \<Longrightarrow> all_ok u (pr x)) \<Longrightarrow> all_ok u (seps l pr xs)"
  by (induction xs) auto

lemma commas_ok: "(\<And>x. x \<in> set xs \<Longrightarrow> all_ok u (pr x)) \<Longrightarrow> all_ok u (commas (map pr xs))"
proof (induction xs)
  case (Cons x xs)
  then show ?case by (cases xs) auto
qed simp

lemma where_lexemes_ok:
  assumes "where_ok u d w"
  shows "all_ok u (where_lexemes w)"
proof (cases w)
  case (Some e)
  have "all_ok u (atom_lexemes a)" if "a \<in> set (atoms e)" for a
    using that assms Some by (intro atom_lexemes_ok [of u d]) (simp add: where_ok_def list_all_iff)
  moreover have "hd (atoms e) \<in> set (atoms e)" "set (tl (atoms e)) \<subseteq> set (atoms e)" by (simp_all add: list.set_sel set_mono_suffix)
  ultimately show ?thesis using seps_ok [of u "K TT_AND ''AND''" "tl (atoms e)" atom_lexemes]
    by (auto simp: where_lexemes_def Some)
qed (simp add: where_lexemes_def)

lemma columns_lexemes_ok:
  assumes "columns_ok u cs"
  shows "all_ok u (columns_lexemes cs)"
proof (cases "cs = STAR")
  case False
  then obtain c cs' where c: "cs = c # cs'" "list_all (col_ok u True) cs" using assms by (cases cs) (auto simp: columns_ok_def)
  then show ?thesis using False seps_ok [of u "K TT_COMMA '',''" cs' col_lexemes] col_lexemes_ok [of u True]
    by (auto simp: columns_lexemes_def list_all_iff)
qed (simp add: columns_lexemes_def)

lemma column_lexemes_ok: "column_ok u c \<Longrightarrow> all_ok u (column_lexemes c)"
  by (auto simp: column_lexemes_def column_ok_def type_lexeme_def split: option.splits)

lemma stmt_lexemes_ok: "stmt_ok u s \<Longrightarrow> all_ok u (stmt_lexemes s)"
proof (cases s)
  case (UpdateStmt t as w)
  assume ok: "stmt_ok u s"
  obtain a as' where a: "as = a # as'" using ok UpdateStmt by (cases as) auto
  have "all_ok u (assign_lexemes b)" if "b \<in> set as" for b
    using that ok UpdateStmt by (auto simp: list_all_iff assign_lexemes_def)
  then show ?thesis using ok UpdateStmt a seps_ok [of u "K TT_COMMA '',''" as' assign_lexemes] where_lexemes_ok [of u False w] by auto
qed (auto simp: list_all_iff [of "column_ok u"] list_all_iff [of lit_ok] dest: where_lexemes_ok columns_lexemes_ok intro!: commas_ok column_lexemes_ok)

subsection \<open>Properties\<close>

lemma parse_printed:
  assumes s: "stmt_ok u s" and ls: "all_ok u ls" "ls \<noteq> [] \<Longrightarrow> fst (hd ls) \<notin> FOLLOW"
  shows "parse u (spaced (stmt_lexemes s @ ls)) = Inr s"
proof -
  have sp: "spaced (stmt_lexemes s @ ls) = spaced (stmt_lexemes s) @ spaced ls @ []" by (simp add: spaced_def)
  obtain ts p where ts: "stand_for ts (stmt_lexemes s)"
    "tokenize u (spaced (stmt_lexemes s @ ls)) = bind_res (tokenize_loop u (spaced ls @ []) p) (\<lambda>ts'. Inr (ts @ ts'))"
    using tokenize_lexemes [OF stmt_lexemes_ok [OF s], of "spaced ls @ []" 0] unfolding tokenize_def sp by blast
  obtain us p' where us: "stand_for us ls"
    "tokenize_loop u (spaced ls @ []) p = bind_res (tokenize_loop u [] p') (\<lambda>ts'. Inr (us @ ts'))"
    using tokenize_lexemes [OF ls(1)] by blast
  have "tokenize_loop u [] p' = Inr [\<lparr>tok_type = TT_EOF, tok_value = VNull, tok_pos = p'\<rparr>]"
    by (subst tokenize_loop.simps) (simp add: next_token_def skip_ws_def)
  then have tok: "tokenize u (spaced (stmt_lexemes s @ ls)) = Inr (ts @ us @ [\<lparr>tok_type = TT_EOF, tok_value = VNull, tok_pos = p'\<rparr>])"
    using ts(2) us(2) by simp
  obtain t r where t: "us @ [\<lparr>tok_type = TT_EOF, tok_value = VNull, tok_pos = p'\<rparr>] = t # r" "tok_type t \<notin> FOLLOW"
  proof (cases ls)
    case Nil
    then show ?thesis using that us(1) by simp
  next
    case (Cons l ls')
    then show ?thesis using that us(1) ls(2) by (auto simp: stands_for_def)
  qed
  have "parse_stmt (ts @ t # r) = (Inr s, t # r)" by (rule readsD [OF reads_stmt [OF s] ts(1) t(2)])
  then show ?thesis by (simp add: parse_def tok t(1))
qed

text \<open>C14: Printing and parsing: every well-formed statement, of all eight kinds and with any literals, is read back from its SQL text.\<close>

theorem sql_round_trip: "stmt_ok u s \<Longrightarrow> parse u (sql_text s) = Inr s"
  using parse_printed [of u s "[]"] by (simp add: sql_text_def)

definition ascii :: unicode where
  "ascii = \<lparr>uc_isdigit = \<lambda>_. False, uc_isalpha = \<lambda>_. False, uc_isnumeric = \<lambda>_. False, uc_upper = \<lambda>c. [c], uc_decimal = \<lambda>_. None\<rparr>"

theorem sql_round_trip_witness:
  "parse ascii (sql_text (SelectStmt (py ''t'') STAR (Some (AndExpr (EqExpr (Name (py ''a'')) (VStr [39, 92]))
     (BetweenExpr (Name (py ''b_1'')) (VInt (-12)) VNull)))))
   = Inr (SelectStmt (py ''t'') STAR (Some (AndExpr (EqExpr (Name (py ''a'')) (VStr [39, 92])) (BetweenExpr (Name (py ''b_1'')) (VInt (-12)) VNull))))"
proof (rule sql_round_trip)
  have id: "ident_ok ascii (py ''t'')" "ident_ok ascii (py ''a'')" "ident_ok ascii (py ''b_1'')"
    by (simp_all add: ident_ok_def py_def isalpha_def isdigit_def isalnum_def upper_def upper_cp_def KEYWORDS_def)
  have "int_ok (-12)" by (simp add: int_ok_def dec.simps)
  then show "stmt_ok ascii (SelectStmt (py ''t'') STAR (Some (AndExpr (EqExpr (Name (py ''a'')) (VStr [39, 92])) (BetweenExpr (Name (py ''b_1'')) (VInt (-12)) VNull))))"
    using id by (simp add: columns_ok_def where_ok_def)
qed

text \<open>Whatever follows a complete statement is ignored, unless it is one of the tokens AND, COMMA, WHERE, JOIN that could continue it:
  a condition after \<^verbatim>\<open>OR\<close>, for example, is dropped without an error.\<close>

theorem trailing_text_ignored:
  assumes "stmt_ok u s" "all_ok u (l # ls)" "fst l \<notin> FOLLOW"
  shows "parse u (sql_text s @ spaced (l # ls)) = Inr s"
  using parse_printed [of u s "l # ls"] assms by (simp add: sql_text_def spaced_def)

theorem trailing_text_ignored_witness:
  "parse ascii (sql_text (DeleteStmt (py ''t'') (Some (EqExpr (Name (py ''a'')) (VInt 1)))) @
     spaced [K TT_OR ''OR'', ident_lexeme (py ''b''), K TT_EQ ''='', lit_lexeme (VInt 2)])
   = Inr (DeleteStmt (py ''t'') (Some (EqExpr (Name (py ''a'')) (VInt 1))))"
proof (rule trailing_text_ignored)
  have id: "ident_ok ascii (py ''t'')" "ident_ok ascii (py ''a'')" "ident_ok ascii (py ''b'')"
    by (simp_all add: ident_ok_def py_def isalpha_def isdigit_def isalnum_def upper_def upper_cp_def KEYWORDS_def)
  have i: "int_ok 1" "int_ok 2" by (simp_all add: int_ok_def dec.simps)
  show "stmt_ok ascii (DeleteStmt (py ''t'') (Some (EqExpr (Name (py ''a'')) (VInt 1))))" using id i by (simp add: where_ok_def)
  show "all_ok ascii [K TT_OR ''OR'', ident_lexeme (py ''b''), K TT_EQ ''='', lit_lexeme (VInt 2)]" using id i by simp
qed simp

text \<open>C15: Parsing ends on every text, with a statement or one of three errors: it neither runs off the tokens nor loops
  (\<^verbatim>\<open>ValueError\<close> is \<^verbatim>\<open>int()\<close> on digits that are not decimal, or on more than 4300 of them).\<close>

theorem parse_total: "(\<exists>s. parse u sql = Inr s) \<or> parse u sql \<in> {Inl LexError, Inl ValueError, Inl ParseError}"
proof (cases "tokenize u sql")
  case (Inl e)
  then show ?thesis using tokenize_loop_error [of u sql 0 e] by (auto simp: parse_def tokenize_def)
next
  case (Inr ts)
  then have "closed ts" using tokenize_loop_ends [of u sql 0 ts] by (auto simp: tokenize_def closed_def)
  then show ?thesis using safe_byD [OF parse_safe, of ts] Inr
    by (cases "parse_stmt ts"; cases "fst (parse_stmt ts)") (auto simp: parse_def)
qed

text \<open>What a parser returns.\<close>

definition yields :: "'a parser \<Rightarrow> ('a \<Rightarrow> bool) \<Rightarrow> bool" where
  "yields m P \<longleftrightarrow> (\<forall>ts x ts'. m ts = (Inr x, ts') \<longrightarrow> P x)"

lemma yields_bnd: "yields m Q \<Longrightarrow> (\<And>x. Q x \<Longrightarrow> yields (f x) P) \<Longrightarrow> yields (bnd m f) P"
  unfolding yields_def bnd_eq_Inr by blast

lemma yields_any: "yields m (\<lambda>_. True)"
  by (simp add: yields_def)

lemma yields_basic: "P x \<Longrightarrow> yields (ret x) P" "yields (throw e) P"
  by (simp_all add: yields_def ret_def)

lemma yields_if: "(b \<Longrightarrow> yields m P) \<Longrightarrow> (\<not> b \<Longrightarrow> yields m' P) \<Longrightarrow> yields (if b then m else m') P"
  by simp

lemmas yields_intros = yields_basic yields_if yields_bnd [OF yields_any]

definition typed_column :: "column_def \<Rightarrow> bool" where
  "typed_column c \<longleftrightarrow> cd_type c \<in> {INT_TYPE, STRING_TYPE} \<and> (cd_fk_table c = None \<longleftrightarrow> cd_fk_col c = None)"

lemma yields_column: "yields parse_column_def typed_column"
proof -
  have ty: "yields (if i then bnd advance_token (\<lambda>_. ret INT_TYPE) else if s then bnd advance_token (\<lambda>_. ret STRING_TYPE) else throw ParseError)
     (\<lambda>t. t \<in> {INT_TYPE, STRING_TYPE})" for i s
    by (intro yields_intros) simp_all
  have fk: "yields (if r then bnd advance_token (\<lambda>_. bnd expect_ident (\<lambda>t. bnd (expect TT_LPAREN) (\<lambda>_.
       bnd expect_ident (\<lambda>c. bnd (expect TT_RPAREN) (\<lambda>_. ret (Some t, Some c)))))) else ret (None, None)) (\<lambda>(t, c). t = None \<longleftrightarrow> c = None)" for r
    by (intro yields_intros) simp_all
  show ?thesis
    unfolding parse_column_def_def
    by (intro yields_bnd [OF yields_any] yields_bnd [OF ty] yields_bnd [OF fk]) (auto simp: typed_column_def intro!: yields_basic)
qed

lemma yields_items:
  assumes "yields item P"
  shows "yields (parse_items item) (list_all P)"
proof -
  have loop: "yields (items_loop item n xs) (list_all P)" if "list_all P xs" for n xs
    using that
  proof (induction n arbitrary: xs)
    case (Suc n)
    show ?case
      unfolding items_loop.simps
      by (rule yields_bnd [OF yields_any], rule yields_if, rule yields_basic(1), rule Suc.prems, rule yields_bnd [OF assms],
          rule yields_bnd [OF yields_any], rule yields_bnd [OF yields_any], rule Suc.IH) (use Suc.prems in simp)
  qed (simp add: yields_def)
  show ?thesis unfolding parse_items_def by (rule yields_bnd [OF yields_any], rule loop) simp
qed

text \<open>C16: The tables that CREATE TABLE statements declare are typed: every column is INT or STRING, exactly one is the primary key and it is INT,
  and a reference has a table and a column.\<close>

theorem parsed_table_typed:
  assumes "parse u sql = Inr (CreateTableStmt t cs)"
  shows "one_int_key cs \<and> list_all typed_column cs"
proof -
  let ?P = "\<lambda>s. \<forall>t cs. s = CreateTableStmt t cs \<longrightarrow> one_int_key cs \<and> list_all typed_column cs"
  have body: "yields parse_create_table_body ?P"
    unfolding parse_create_table_body_def Let_def
    by (rule yields_bnd [OF yields_any], rule yields_bnd [OF yields_any], rule yields_bnd [OF yields_any],
        rule yields_bnd [OF yields_items [OF yields_column]], rule yields_bnd [OF yields_any], intro yields_if yields_basic)
      (auto simp: one_int_key_def length_Suc_conv)
  have other: "yields parse_create_index_body ?P" "yields parse_drop_index ?P" "yields parse_insert ?P" "yields parse_select ?P"
    "yields parse_update ?P" "yields parse_delete ?P"
    unfolding parse_create_index_body_def parse_drop_index_def parse_insert_def parse_select_def parse_update_def parse_delete_def Let_def case_prod_beta
    by (intro yields_intros; simp)+
  have "yields parse_stmt ?P"
    unfolding parse_stmt_def by (intro yields_intros body other)
  then show ?thesis using assms
    by (cases "tokenize u sql"; cases "parse_stmt (projr (tokenize u sql))") (auto simp: parse_def yields_def)
qed

theorem parsed_table_typed_witness:
  "\<exists>cs. parse ascii (sql_text (CreateTableStmt (py ''t'') cs)) = Inr (CreateTableStmt (py ''t'') cs) \<and> one_int_key cs \<and> list_all typed_column cs"
proof -
  let ?cs = "[\<lparr>cd_name = py ''a'', cd_type = INT_TYPE, cd_primary_key = True, cd_fk_table = None, cd_fk_col = None\<rparr>]"
  have id: "ident_ok ascii (py ''t'')" "ident_ok ascii (py ''a'')"
    by (simp_all add: ident_ok_def py_def isalpha_def isdigit_def isalnum_def upper_def upper_cp_def KEYWORDS_def)
  have ok: "stmt_ok ascii (CreateTableStmt (py ''t'') ?cs)" using id by (simp add: column_ok_def one_int_key_def)
  have p: "parse ascii (sql_text (CreateTableStmt (py ''t'') ?cs)) = Inr (CreateTableStmt (py ''t'') ?cs)"
    using parse_printed [OF ok, of "[]"] by (simp add: sql_text_def)
  show ?thesis using p parsed_table_typed [OF p] by blast
qed

end
