(* ===== verification/Catalog.thy ===== *)
theory Catalog
  imports Ast "HOL-Library.AList"
begin

section \<open>The catalog (\<^verbatim>\<open>src/catalog.py\<close>)\<close>

text \<open>
  Dictionaries are lists of items in insertion order. The file \<^verbatim>\<open>catalog.json\<close> is kept as the JSON value it holds:
  \<^verbatim>\<open>json.load\<close> returns the value that \<^verbatim>\<open>json.dump\<close> wrote. Loading raises \<^verbatim>\<open>TypeError\<close> on values of a type that
  \<open>_save\<close> never writes, where Python would keep them.

  The properties are that the schema stays well formed and that the file always holds the schema in memory, after every
  operation that returned (\<open>cat_session_ok\<close>), so that reopening finds the same schema (\<open>catalog_round_trip\<close>).
\<close>

subsection \<open>Schemas\<close>

record column_schema =
  cs_name :: pystr
  cs_type :: pystr
  cs_primary_key :: bool

record table_schema =
  ts_name :: pystr
  ts_columns :: "column_schema list"
  ts_pk_col :: pystr
  ts_pk_idx :: nat

record index_schema =
  is_name :: pystr
  is_table :: pystr
  is_col :: pystr
  is_col_idx :: nat

record fkey_schema =
  fk_child_table :: pystr
  fk_child_col :: pystr
  fk_child_col_idx :: nat
  fk_parent_table :: pystr
  fk_parent_col :: pystr

datatype json = JBool bool | JInt int | JStr pystr | JList "json list" | JObj "(pystr \<times> json) list"

record catalog =
  ca_file :: "json option"
  ca_tables :: "(pystr \<times> table_schema) list"
  ca_indexes :: "(pystr \<times> index_schema) list"
  ca_fkeys :: "fkey_schema list"

subsection \<open>Persistence\<close>

definition column_json :: "column_schema \<Rightarrow> json" where
  "column_json c = JObj [(py ''name'', JStr (cs_name c)), (py ''type'', JStr (cs_type c)), (py ''pk'', JBool (cs_primary_key c))]"

definition table_json :: "table_schema \<Rightarrow> json" where
  "table_json s = JObj [(py ''columns'', JList (map column_json (ts_columns s))), (py ''pk_col'', JStr (ts_pk_col s)),
     (py ''pk_idx'', JInt (int (ts_pk_idx s)))]"

definition index_json :: "index_schema \<Rightarrow> json" where
  "index_json i = JObj [(py ''table'', JStr (is_table i)), (py ''col'', JStr (is_col i)), (py ''col_idx'', JInt (int (is_col_idx i)))]"

definition fkey_json :: "fkey_schema \<Rightarrow> json" where
  "fkey_json k = JObj [(py ''child_table'', JStr (fk_child_table k)), (py ''child_col'', JStr (fk_child_col k)),
     (py ''child_col_idx'', JInt (int (fk_child_col_idx k))), (py ''parent_table'', JStr (fk_parent_table k)),
     (py ''parent_col'', JStr (fk_parent_col k))]"

definition catalog_json :: "catalog \<Rightarrow> json" where
  "catalog_json c = JObj
     [(py ''tables'', JObj (map (\<lambda>(name, s). (name, table_json s)) (ca_tables c))),
      (py ''indexes'', JObj (map (\<lambda>(name, i). (name, index_json i)) (ca_indexes c))),
      (py ''fkeys'', JList (map fkey_json (ca_fkeys c)))]"

definition catalog_save :: "(catalog, unit) act" where
  "catalog_save = modify (\<lambda>c. c\<lparr>ca_file := Some (catalog_json c)\<rparr>)"

text \<open>Reading JSON: \<^verbatim>\<open>d[k]\<close>, \<^verbatim>\<open>d.get(k, default)\<close> and the types that \<open>_save\<close> writes.\<close>

fun items_of :: "json \<Rightarrow> (pystr \<times> json) list res" where
  "items_of (JObj kvs) = Inr kvs"
| "items_of _ = Inl TypeError"

definition member :: "json \<Rightarrow> string \<Rightarrow> json res" where
  "member j k = bind_res (items_of j) (\<lambda>kvs. case map_of kvs (py k) of None \<Rightarrow> Inl KeyError | Some v \<Rightarrow> Inr v)"

definition member_or :: "json \<Rightarrow> string \<Rightarrow> json \<Rightarrow> json res" where
  "member_or j k d = bind_res (items_of j) (\<lambda>kvs. case map_of kvs (py k) of None \<Rightarrow> Inr d | Some v \<Rightarrow> Inr v)"

fun as_str :: "json \<Rightarrow> pystr res" where
  "as_str (JStr s) = Inr s"
| "as_str _ = Inl TypeError"

fun as_bool :: "json \<Rightarrow> bool res" where
  "as_bool (JBool b) = Inr b"
| "as_bool _ = Inl TypeError"

fun as_idx :: "json \<Rightarrow> nat res" where
  "as_idx (JInt i) = (if i < 0 then Inl TypeError else Inr (nat i))"
| "as_idx _ = Inl TypeError"

fun as_list :: "json \<Rightarrow> json list res" where
  "as_list (JList js) = Inr js"
| "as_list _ = Inl TypeError"

definition str_at :: "json \<Rightarrow> string \<Rightarrow> pystr res" where
  "str_at j k = bind_res (member j k) as_str"

definition idx_at :: "json \<Rightarrow> string \<Rightarrow> nat res" where
  "idx_at j k = bind_res (member j k) as_idx"

definition load_column :: "json \<Rightarrow> column_schema res" where
  "load_column c =
     bind_res (str_at c ''name'') (\<lambda>name. bind_res (str_at c ''type'') (\<lambda>ty. bind_res (bind_res (member c ''pk'') as_bool) (\<lambda>pk.
     Inr \<lparr>cs_name = name, cs_type = ty, cs_primary_key = pk\<rparr>)))"

definition load_table :: "pystr \<Rightarrow> json \<Rightarrow> table_schema res" where
  "load_table name td =
     bind_res (bind_res (member td ''columns'') as_list) (\<lambda>cs. bind_res (map_res load_column cs) (\<lambda>cols.
     bind_res (str_at td ''pk_col'') (\<lambda>pk_col. bind_res (idx_at td ''pk_idx'') (\<lambda>pk_idx.
     Inr \<lparr>ts_name = name, ts_columns = cols, ts_pk_col = pk_col, ts_pk_idx = pk_idx\<rparr>))))"

definition load_index :: "pystr \<Rightarrow> json \<Rightarrow> index_schema res" where
  "load_index name i =
     bind_res (str_at i ''table'') (\<lambda>t. bind_res (str_at i ''col'') (\<lambda>c. bind_res (idx_at i ''col_idx'') (\<lambda>k.
     Inr \<lparr>is_name = name, is_table = t, is_col = c, is_col_idx = k\<rparr>)))"

definition load_fkey :: "json \<Rightarrow> fkey_schema res" where
  "load_fkey k =
     bind_res (str_at k ''child_table'') (\<lambda>ct. bind_res (str_at k ''child_col'') (\<lambda>cc. bind_res (idx_at k ''child_col_idx'') (\<lambda>ci.
     bind_res (str_at k ''parent_table'') (\<lambda>pt. bind_res (str_at k ''parent_col'') (\<lambda>pc.
     Inr \<lparr>fk_child_table = ct, fk_child_col = cc, fk_child_col_idx = ci, fk_parent_table = pt, fk_parent_col = pc\<rparr>)))))"

text \<open>\<^verbatim>\<open>_load\<close>: the old format has the tables at the top level.\<close>

definition catalog_load :: "json \<Rightarrow> catalog res" where
  "catalog_load data =
     bind_res (items_of data) (\<lambda>kvs.
     bind_res (if map_of kvs (py ''tables'') \<noteq> None
       then bind_res (member data ''tables'') (\<lambda>t. bind_res (member_or data ''indexes'' (JObj [])) (\<lambda>i. Inr (t, i)))
       else Inr (data, JObj [])) (\<lambda>(tables_data, indexes_data).
     bind_res (items_of tables_data) (\<lambda>ts. bind_res (map_res (\<lambda>(name, td). bind_res (load_table name td) (\<lambda>s. Inr (name, s))) ts) (\<lambda>tables.
     bind_res (items_of indexes_data) (\<lambda>ixs. bind_res (map_res (\<lambda>(name, i). bind_res (load_index name i) (\<lambda>x. Inr (name, x))) ixs) (\<lambda>indexes.
     bind_res (bind_res (member_or data ''fkeys'' (JList [])) as_list) (\<lambda>fs. bind_res (map_res load_fkey fs) (\<lambda>fkeys.
     Inr \<lparr>ca_file = Some data, ca_tables = tables, ca_indexes = indexes, ca_fkeys = fkeys\<rparr>))))))))"

definition catalog_init :: "json option \<Rightarrow> catalog res" where
  "catalog_init f = (case f of None \<Rightarrow> Inr \<lparr>ca_file = None, ca_tables = [], ca_indexes = [], ca_fkeys = []\<rparr> | Some data \<Rightarrow> catalog_load data)"

subsection \<open>Tables\<close>

text \<open>\<^verbatim>\<open>next(i for i, c in enumerate(cs) if P(c))\<close>\<close>

fun first_index :: "('a \<Rightarrow> bool) \<Rightarrow> 'a list \<Rightarrow> nat res" where
  "first_index P [] = Inl StopIteration"
| "first_index P (x # xs) = (if P x then Inr 0 else bind_res (first_index P xs) (\<lambda>i. Inr (Suc i)))"

definition dict_get :: "('c \<Rightarrow> (pystr \<times> 'v) list) \<Rightarrow> pystr \<Rightarrow> py_error \<Rightarrow> ('c, 'v) act" where
  "dict_get part name err = bnd (gets part) (\<lambda>d. case map_of d name of None \<Rightarrow> throw err | Some v \<Rightarrow> ret v)"

definition get_table :: "pystr \<Rightarrow> (catalog, table_schema) act" where
  "get_table name = dict_get ca_tables name CatalogError"

text \<open>The loop over the columns that registers the references.\<close>

fun add_fkeys :: "pystr \<Rightarrow> nat \<Rightarrow> column_def list \<Rightarrow> (catalog, unit) act" where
  "add_fkeys name idx [] = ret ()"
| "add_fkeys name idx (col # cols) =
     bnd (case cd_fk_table col of
            None \<Rightarrow> ret ()
          | Some parent \<Rightarrow>
              bnd (gets ca_tables) (\<lambda>tables.
              if map_of tables parent = None then throw CatalogError
              else modify (\<lambda>c. c\<lparr>ca_fkeys := ca_fkeys c @
                [\<lparr>fk_child_table = name, fk_child_col = cd_name col, fk_child_col_idx = idx, fk_parent_table = parent,
                  fk_parent_col = (case cd_fk_col col of None \<Rightarrow> [] | Some k \<Rightarrow> k)\<rparr>]\<rparr>)))
       (\<lambda>_. add_fkeys name (Suc idx) cols)"

definition create_table :: "pystr \<Rightarrow> column_def list \<Rightarrow> (catalog, table_schema) act" where
  "create_table name columns =
     bnd (gets ca_tables) (\<lambda>tables.
     if map_of tables name \<noteq> None then throw CatalogError
     else
       bnd (lift_res (first_index cd_primary_key columns)) (\<lambda>pk_idx.
       let schema = \<lparr>ts_name = name, ts_columns = map (\<lambda>c. \<lparr>cs_name = cd_name c, cs_type = cd_type c, cs_primary_key = cd_primary_key c\<rparr>) columns,
                     ts_pk_col = cd_name (columns ! pk_idx), ts_pk_idx = pk_idx\<rparr> in
       bnd (modify (\<lambda>c. c\<lparr>ca_tables := AList.update name schema (ca_tables c)\<rparr>)) (\<lambda>_.
       bnd (add_fkeys name 0 columns) (\<lambda>_.
       bnd catalog_save (\<lambda>_. ret schema)))))"

definition table_exists :: "catalog \<Rightarrow> pystr \<Rightarrow> bool" where
  "table_exists c name \<longleftrightarrow> map_of (ca_tables c) name \<noteq> None"

definition all_tables :: "catalog \<Rightarrow> pystr list" where
  "all_tables c = map fst (ca_tables c)"

subsection \<open>Indexes and foreign keys\<close>

definition cat_create_index :: "pystr \<Rightarrow> pystr \<Rightarrow> pystr \<Rightarrow> (catalog, index_schema) act" where
  "cat_create_index name table col =
     bnd (gets ca_indexes) (\<lambda>indexes.
     if map_of indexes name \<noteq> None then throw CatalogError
     else
       bnd (get_table table) (\<lambda>schema.
       case find (\<lambda>c. cs_name c = col) (ts_columns schema) of
         None \<Rightarrow> throw CatalogError
       | Some col_schema \<Rightarrow>
           if cs_type col_schema \<noteq> INT_TYPE then throw CatalogError
           else
             bnd (lift_res (first_index (\<lambda>c. cs_name c = col) (ts_columns schema))) (\<lambda>col_idx.
             let idx = \<lparr>is_name = name, is_table = table, is_col = col, is_col_idx = col_idx\<rparr> in
             bnd (modify (\<lambda>c. c\<lparr>ca_indexes := AList.update name idx (ca_indexes c)\<rparr>)) (\<lambda>_.
             bnd catalog_save (\<lambda>_. ret idx)))))"

definition cat_drop_index :: "pystr \<Rightarrow> (catalog, unit) act" where
  "cat_drop_index name =
     bnd (gets ca_indexes) (\<lambda>indexes.
     if map_of indexes name = None then throw CatalogError
     else bnd (modify (\<lambda>c. c\<lparr>ca_indexes := AList.delete name (ca_indexes c)\<rparr>)) (\<lambda>_. catalog_save))"

definition get_index :: "pystr \<Rightarrow> (catalog, index_schema) act" where
  "get_index name = dict_get ca_indexes name CatalogError"

definition index_exists :: "catalog \<Rightarrow> pystr \<Rightarrow> bool" where
  "index_exists c name \<longleftrightarrow> map_of (ca_indexes c) name \<noteq> None"

definition get_indexes_for_table :: "catalog \<Rightarrow> pystr \<Rightarrow> index_schema list" where
  "get_indexes_for_table c table = filter (\<lambda>i. is_table i = table) (map snd (ca_indexes c))"

definition all_indexes :: "catalog \<Rightarrow> index_schema list" where
  "all_indexes c = map snd (ca_indexes c)"

definition get_fkeys_from :: "catalog \<Rightarrow> pystr \<Rightarrow> fkey_schema list" where
  "get_fkeys_from c child = filter (\<lambda>k. fk_child_table k = child) (ca_fkeys c)"

definition get_fkeys_to :: "catalog \<Rightarrow> pystr \<Rightarrow> fkey_schema list" where
  "get_fkeys_to c parent = filter (\<lambda>k. fk_parent_table k = parent) (ca_fkeys c)"

subsection \<open>Reading back what was saved\<close>

lemma map_res_map: "(\<And>x. x \<in> set xs \<Longrightarrow> f (g x) = Inr (h x)) \<Longrightarrow> map_res f (map g xs) = Inr (map h xs)"
  by (induction xs) auto

lemma py_eq [simp]: "py s = py t \<longleftrightarrow> s = t"
  by (simp add: py_def inj_map_eq_map inj_def)

lemma member_simps [simp]:
  "member (JObj kvs) k = (case map_of kvs (py k) of None \<Rightarrow> Inl KeyError | Some v \<Rightarrow> Inr v)"
  "member_or (JObj kvs) k d = (case map_of kvs (py k) of None \<Rightarrow> Inr d | Some v \<Rightarrow> Inr v)"
  by (simp_all add: member_def member_or_def)

lemma load_column_json: "load_column (column_json c) = Inr c"
  by (simp add: load_column_def column_json_def str_at_def)

lemma load_table_json: "load_table name (table_json s) = Inr (s\<lparr>ts_name := name\<rparr>)"
proof -
  have "map_res load_column (map column_json (ts_columns s)) = Inr (map (\<lambda>c. c) (ts_columns s))"
    by (rule map_res_map) (rule load_column_json)
  then show ?thesis by (simp add: load_table_def table_json_def str_at_def idx_at_def)
qed

lemma load_index_json: "load_index name (index_json i) = Inr (i\<lparr>is_name := name\<rparr>)"
  by (simp add: load_index_def index_json_def str_at_def idx_at_def)

lemma load_fkey_json: "load_fkey (fkey_json k) = Inr k"
  by (simp add: load_fkey_def fkey_json_def str_at_def idx_at_def)

definition named :: "catalog \<Rightarrow> bool" where
  "named c \<longleftrightarrow> (\<forall>(n, s) \<in> set (ca_tables c). ts_name s = n) \<and> (\<forall>(n, i) \<in> set (ca_indexes c). is_name i = n)"

lemma load_saved:
  assumes "named c" "ca_file c = Some (catalog_json c)"
  shows "catalog_init (ca_file c) = Inr c"
proof -
  have "map_res (\<lambda>(name, td). bind_res (load_table name td) (\<lambda>s. Inr (name, s))) (map (\<lambda>(name, s). (name, table_json s)) (ca_tables c))
     = Inr (map (\<lambda>x. x) (ca_tables c))"
    by (rule map_res_map) (use assms(1) in \<open>auto simp: load_table_json named_def\<close>)
  moreover have "map_res (\<lambda>(name, i). bind_res (load_index name i) (\<lambda>x. Inr (name, x))) (map (\<lambda>(name, i). (name, index_json i)) (ca_indexes c))
     = Inr (map (\<lambda>x. x) (ca_indexes c))"
    by (rule map_res_map) (use assms(1) in \<open>auto simp: load_index_json named_def\<close>)
  moreover have "map_res load_fkey (map fkey_json (ca_fkeys c)) = Inr (map (\<lambda>x. x) (ca_fkeys c))"
    by (rule map_res_map) (rule load_fkey_json)
  ultimately have "catalog_load (catalog_json c) = Inr \<lparr>ca_file = Some (catalog_json c), ca_tables = ca_tables c, ca_indexes = ca_indexes c, ca_fkeys = ca_fkeys c\<rparr>"
    by (simp add: catalog_load_def catalog_json_def)
  also have "\<lparr>ca_file = Some (catalog_json c), ca_tables = ca_tables c, ca_indexes = ca_indexes c, ca_fkeys = ca_fkeys c\<rparr> = c"
    by (rule catalog.equality) (simp_all add: assms(2))
  finally show ?thesis unfolding assms(2) catalog_init_def option.case .
qed

subsection \<open>Well-formed schemas\<close>

definition column_at :: "table_schema \<Rightarrow> nat \<Rightarrow> pystr \<Rightarrow> bool" where
  "column_at s i name \<longleftrightarrow> i < length (ts_columns s) \<and> cs_name (ts_columns s ! i) = name"

definition table_ok :: "table_schema \<Rightarrow> bool" where
  "table_ok s \<longleftrightarrow> column_at s (ts_pk_idx s) (ts_pk_col s) \<and> cs_primary_key (ts_columns s ! ts_pk_idx s) \<and>
     cs_type (ts_columns s ! ts_pk_idx s) = INT_TYPE"

definition index_ok :: "(pystr \<times> table_schema) list \<Rightarrow> index_schema \<Rightarrow> bool" where
  "index_ok ts i \<longleftrightarrow> (\<exists>s. map_of ts (is_table i) = Some s \<and> column_at s (is_col_idx i) (is_col i) \<and> cs_type (ts_columns s ! is_col_idx i) = INT_TYPE)"

definition fkey_ok :: "(pystr \<times> table_schema) list \<Rightarrow> fkey_schema \<Rightarrow> bool" where
  "fkey_ok ts k \<longleftrightarrow> (\<exists>s. map_of ts (fk_child_table k) = Some s \<and> column_at s (fk_child_col_idx k) (fk_child_col k)) \<and>
     map_of ts (fk_parent_table k) \<noteq> None"

definition catalog_ok :: "catalog \<Rightarrow> bool" where
  "catalog_ok c \<longleftrightarrow> named c \<and> distinct (map fst (ca_tables c)) \<and> distinct (map fst (ca_indexes c)) \<and>
     (\<forall>s \<in> snd ` set (ca_tables c). table_ok s) \<and>
     (\<forall>i \<in> snd ` set (ca_indexes c). index_ok (ca_tables c) i) \<and> (\<forall>k \<in> set (ca_fkeys c). fkey_ok (ca_tables c) k)"

lemma first_index_Inr: "first_index P xs = Inr i \<Longrightarrow> i < length xs \<and> P (xs ! i)"
  by (induction P xs arbitrary: i rule: first_index.induct) (auto split: if_splits simp: bind_res_def split: sum.splits)

lemma find_first_index:
  "find P xs = Some x \<Longrightarrow> \<exists>i. first_index P xs = Inr i \<and> i < length xs \<and> xs ! i = x"
  by (induction xs) (auto split: if_splits)

lemma first_index_filter: "filter P xs = [x] \<Longrightarrow> first_index P xs = Inr i \<Longrightarrow> xs ! i = x"
proof (induction xs arbitrary: i)
  case (Cons y ys)
  show ?case
  proof (cases "P y")
    case True
    then show ?thesis using Cons.prems by auto
  next
    case False
    then show ?thesis using Cons by (cases "first_index P ys") auto
  qed
qed simp

lemma index_ok_more: "index_ok ts i \<Longrightarrow> map_of ts n = None \<Longrightarrow> index_ok (AList.update n s ts) i"
  by (auto simp: index_ok_def AList.update_conv')

lemma fkey_ok_more: "fkey_ok ts k \<Longrightarrow> map_of ts n = None \<Longrightarrow> fkey_ok (AList.update n s ts) k"
  by (auto simp: fkey_ok_def AList.update_conv')

lemma update_new: "map_of xs n = None \<Longrightarrow> AList.update n v xs = xs @ [(n, v)]"
  by (induction xs) auto

lemma add_fkeys_ok:
  assumes run: "add_fkeys name idx cols c = (r, c')" and ok: "catalog_ok c"
    and s: "map_of (ca_tables c) name = Some s" "ts_columns s = map f cols0" "cols = drop idx cols0" "\<And>x. cs_name (f x) = cd_name x"
  shows "catalog_ok c' \<and> ca_tables c' = ca_tables c \<and> ca_indexes c' = ca_indexes c"
  using run ok s(1,3)
proof (induction cols arbitrary: idx c)
  case Nil
  then show ?case by simp
next
  case (Cons col cols)
  have idx: "idx < length cols0" "cols0 ! idx = col" "cols = drop (Suc idx) cols0"
    using Cons.prems(4) by (metis drop_eq_Nil list.distinct(1) not_le, metis hd_drop_conv_nth drop_eq_Nil list.distinct(1) list.sel(1) not_le, metis drop_Suc list.sel(3) tl_drop)
  show ?case
  proof (cases "cd_fk_table col")
    case None
    then have "add_fkeys name (Suc idx) cols c = (r, c')" using Cons.prems(1) by (simp add: bnd_def)
    from Cons.IH [OF this Cons.prems(2,3) idx(3)] show ?thesis .
  next
    case (Some parent)
    show ?thesis
    proof (cases "map_of (ca_tables c) parent")
      case None
      then show ?thesis using Cons.prems(1,2) Some by (simp add: bnd_def)
    next
      case p: (Some ps)
      let ?k = "\<lparr>fk_child_table = name, fk_child_col = cd_name col, fk_child_col_idx = idx, fk_parent_table = parent,
                  fk_parent_col = (case cd_fk_col col of None \<Rightarrow> [] | Some k \<Rightarrow> k)\<rparr>"
      let ?c = "c\<lparr>ca_fkeys := ca_fkeys c @ [?k]\<rparr>"
      have run: "add_fkeys name (Suc idx) cols ?c = (r, c')" using Cons.prems(1) Some p by (simp add: bnd_def)
      have "fkey_ok (ca_tables c) ?k" using Cons.prems(3) p idx s(2,4) by (simp add: fkey_ok_def column_at_def)
      then have "catalog_ok ?c" using Cons.prems(2) by (auto simp: catalog_ok_def named_def)
      from Cons.IH [OF run this _ idx(3)] show ?thesis using Cons.prems(3) by simp
    qed
  qed
qed

subsection \<open>Sessions\<close>

datatype cat_op = CreateTable pystr "column_def list" | CreateIndex pystr pystr pystr | DropIndex pystr

fun run_cat :: "cat_op \<Rightarrow> (catalog, unit) act" where
  "run_cat (CreateTable name cols) = bnd (create_table name cols) (\<lambda>_. ret ())"
| "run_cat (CreateIndex name table col) = bnd (cat_create_index name table col) (\<lambda>_. ret ())"
| "run_cat (DropIndex name) = cat_drop_index name"

text \<open>Tables as the parser hands them over.\<close>

fun cat_op_ok :: "cat_op \<Rightarrow> bool" where
  "cat_op_ok (CreateTable name cols) \<longleftrightarrow> (\<exists>c. filter cd_primary_key cols = [c] \<and> cd_type c = INT_TYPE)"
| "cat_op_ok _ \<longleftrightarrow> True"

text \<open>A session goes on after an error.\<close>

fun cat_session :: "cat_op list \<Rightarrow> catalog \<Rightarrow> catalog" where
  "cat_session [] c = c"
| "cat_session (x # xs) c = cat_session xs (snd (run_cat x c))"

lemma create_table_ok:
  assumes run: "create_table name cols c = (r, c')" and ok: "catalog_ok c" and cols: "cat_op_ok (CreateTable name cols)"
  shows "catalog_ok c' \<and> (\<forall>s. r = Inr s \<longrightarrow> ca_file c' = Some (catalog_json c'))"
proof (cases "map_of (ca_tables c) name = None \<and> (\<exists>i. first_index cd_primary_key cols = Inr i)")
  case False
  then show ?thesis using run ok by (cases "first_index cd_primary_key cols") (auto simp: create_table_def bnd_def split: if_splits)
next
  case True
  then obtain i where new: "map_of (ca_tables c) name = None" and i: "first_index cd_primary_key cols = Inr i" by blast
  let ?f = "\<lambda>c. \<lparr>cs_name = cd_name c, cs_type = cd_type c, cs_primary_key = cd_primary_key c\<rparr>"
  let ?s = "\<lparr>ts_name = name, ts_columns = map ?f cols, ts_pk_col = cd_name (cols ! i), ts_pk_idx = i\<rparr>"
  let ?c = "c\<lparr>ca_tables := AList.update name ?s (ca_tables c)\<rparr>"
  have "i < length cols \<and> cd_primary_key (cols ! i)" by (rule first_index_Inr [OF i])
  moreover have "cd_type (cols ! i) = INT_TYPE" using cols first_index_filter [OF _ i] by auto
  ultimately have t: "table_ok ?s" by (simp add: table_ok_def column_at_def)
  have c1: "catalog_ok ?c"
    using ok t new index_ok_more [OF _ new] fkey_ok_more [OF _ new]
    by (auto simp: catalog_ok_def named_def update_new map_of_eq_None_iff)
  have at: "map_of (ca_tables ?c) name = Some ?s" by (simp add: AList.update_conv')
  obtain r2 c2 where f: "add_fkeys name 0 cols ?c = (r2, c2)" by (cases "add_fkeys name 0 cols ?c")
  have c2: "catalog_ok c2" using add_fkeys_ok [OF f c1 at, of ?f cols] by simp
  have save: "catalog_ok (c2\<lparr>ca_file := Some (catalog_json c2)\<rparr>)" using c2 by (simp add: catalog_ok_def named_def)
  show ?thesis
    using run new i f c2 save
    by (cases r2) (auto simp: create_table_def bnd_def Let_def catalog_save_def catalog_json_def)
qed

lemma cat_create_index_ok:
  assumes run: "cat_create_index name table col c = (r, c')" and ok: "catalog_ok c"
  shows "catalog_ok c' \<and> (\<forall>s. r = Inr s \<longrightarrow> ca_file c' = Some (catalog_json c'))"
proof (cases "map_of (ca_indexes c) name = None \<and> (\<exists>s cs. map_of (ca_tables c) table = Some s \<and> find (\<lambda>c. cs_name c = col) (ts_columns s) = Some cs \<and> cs_type cs = INT_TYPE)")
  case False
  then show ?thesis using run ok
    by (cases "map_of (ca_tables c) table"; cases "find (\<lambda>c. cs_name c = col) (ts_columns (the (map_of (ca_tables c) table)))")
      (auto simp: cat_create_index_def bnd_def get_table_def dict_get_def split: if_splits)
next
  case True
  then obtain s cs where new: "map_of (ca_indexes c) name = None" and s: "map_of (ca_tables c) table = Some s"
    "find (\<lambda>c. cs_name c = col) (ts_columns s) = Some cs" "cs_type cs = INT_TYPE" by blast
  obtain i where i: "first_index (\<lambda>c. cs_name c = col) (ts_columns s) = Inr i" "i < length (ts_columns s)" "ts_columns s ! i = cs"
    using find_first_index [OF s(2)] by blast
  have nm: "cs_name cs = col" using s(2) by (metis (mono_tags) find_Some_iff)
  let ?i = "\<lparr>is_name = name, is_table = table, is_col = col, is_col_idx = i\<rparr>"
  let ?c = "c\<lparr>ca_indexes := AList.update name ?i (ca_indexes c)\<rparr>"
  have "index_ok (ca_tables c) ?i" using s i nm by (simp add: index_ok_def column_at_def)
  then have "catalog_ok (?c\<lparr>ca_file := x\<rparr>)" for x
    using ok new by (auto simp: catalog_ok_def named_def update_new map_of_eq_None_iff)
  then show ?thesis using run new s i(1)
    by (auto simp: cat_create_index_def bnd_def get_table_def dict_get_def Let_def catalog_save_def catalog_json_def)
qed

lemma cat_drop_index_ok:
  assumes run: "cat_drop_index name c = (r, c')" and ok: "catalog_ok c"
  shows "catalog_ok c' \<and> (\<forall>s. r = Inr s \<longrightarrow> ca_file c' = Some (catalog_json c'))"
proof -
  have "catalog_ok (c\<lparr>ca_indexes := AList.delete name (ca_indexes c), ca_file := x\<rparr>)" for x
    using ok by (auto simp: catalog_ok_def named_def AList.delete_eq distinct_map_filter)
  then show ?thesis using run ok by (auto simp: cat_drop_index_def bnd_def catalog_save_def catalog_json_def split: if_splits)
qed

lemma bnd_unit:
  assumes "bnd m (\<lambda>_. ret ()) c = (r, c')" and "\<And>r1. m c = (r1, c') \<Longrightarrow> P c' \<and> (\<forall>s. r1 = Inr s \<longrightarrow> Q c')"
  shows "P c' \<and> (\<forall>u. r = Inr u \<longrightarrow> Q c')"
proof -
  obtain r1 c1 where m: "m c = (r1, c1)" by (cases "m c")
  show ?thesis
  proof (cases r1)
    case (Inl e)
    then show ?thesis using assms(1) assms(2) [of r1] m by (auto simp: bnd_def)
  next
    case (Inr x)
    then show ?thesis using assms(1) assms(2) [of r1] m by (auto simp: bnd_def)
  qed
qed

lemma run_cat_ok:
  assumes run: "run_cat x c = (r, c')" and ok: "catalog_ok c" "cat_op_ok x"
  shows "catalog_ok c' \<and> (\<forall>u. r = Inr u \<longrightarrow> ca_file c' = Some (catalog_json c'))"
proof (cases x)
  case (CreateTable name cols)
  show ?thesis
    by (rule bnd_unit [OF run [unfolded CreateTable run_cat.simps]], rule create_table_ok [OF _ ok(1)], assumption)
      (use ok(2) CreateTable in simp)
next
  case (CreateIndex name table col)
  show ?thesis
    by (rule bnd_unit [OF run [unfolded CreateIndex run_cat.simps]], rule cat_create_index_ok [OF _ ok(1)])
next
  case (DropIndex name)
  then show ?thesis using run cat_drop_index_ok [of name c r c'] ok(1) by simp
qed

lemma cat_session_ok: "catalog_ok c \<Longrightarrow> list_all cat_op_ok xs \<Longrightarrow> catalog_ok (cat_session xs c)"
proof (induction xs arbitrary: c)
  case (Cons x xs)
  obtain r c1 where r: "run_cat x c = (r, c1)" by (cases "run_cat x c")
  have "catalog_ok c1" using run_cat_ok [OF r Cons.prems(1)] Cons.prems(2) by simp
  then show ?case using Cons.IH Cons.prems(2) r by simp
qed simp

lemma empty_catalog: "catalog_init None = Inr c \<Longrightarrow> catalog_ok c"
  by (auto simp: catalog_init_def catalog_ok_def named_def)

subsection \<open>Properties\<close>

text \<open>C17: Reopening: after any sequence of catalog operations, some of which may have failed, if the last one returned then the schema is well formed
  and loading \<^verbatim>\<open>catalog.json\<close> gives back the schema in memory.\<close>

theorem catalog_round_trip:
  assumes c: "catalog_init None = Inr c" and ok: "list_all cat_op_ok xs" "cat_op_ok x" and run: "run_cat x (cat_session xs c) = (Inr u, c')"
  shows "catalog_ok c' \<and> catalog_init (ca_file c') = Inr c'"
proof -
  have "catalog_ok (cat_session xs c)" by (rule cat_session_ok [OF empty_catalog [OF c] ok(1)])
  from run_cat_ok [OF run this ok(2)] have "catalog_ok c'" "ca_file c' = Some (catalog_json c')" by simp_all
  then show ?thesis using load_saved [of c'] by (simp add: catalog_ok_def)
qed

definition id_column :: column_def where
  "id_column = \<lparr>cd_name = py ''id'', cd_type = INT_TYPE, cd_primary_key = True, cd_fk_table = None, cd_fk_col = None\<rparr>"

definition ref_column :: "pystr \<Rightarrow> column_def" where
  "ref_column t = \<lparr>cd_name = py ''r'', cd_type = INT_TYPE, cd_primary_key = False, cd_fk_table = Some t, cd_fk_col = Some (py ''id'')\<rparr>"

theorem catalog_round_trip_witness:
  "\<exists>c c'. catalog_init None = Inr c \<and> run_cat (CreateTable (py ''u'') [id_column, ref_column (py ''t'')]) (cat_session [CreateTable (py ''t'') [id_column]] c) = (Inr (), c') \<and>
     length (ca_tables c') = 2 \<and> catalog_init (ca_file c') = Inr c'"
proof -
  let ?c = "\<lparr>ca_file = None, ca_tables = [], ca_indexes = [], ca_fkeys = []\<rparr>"
  let ?x = "CreateTable (py ''u'') [id_column, ref_column (py ''t'')]" and ?xs = "[CreateTable (py ''t'') [id_column]]"
  obtain r c' where run: "run_cat ?x (cat_session ?xs ?c) = (r, c')" by (cases "run_cat ?x (cat_session ?xs ?c)")
  then have r: "r = Inr ()" "length (ca_tables c') = 2"
    by (simp_all add: create_table_def id_column_def ref_column_def bnd_def Let_def catalog_save_def)
      (auto simp: bnd_def)
  have c: "catalog_init None = Inr ?c" by (simp add: catalog_init_def)
  have ok: "list_all cat_op_ok ?xs" "cat_op_ok ?x" by (simp_all add: id_column_def ref_column_def)
  show ?thesis using catalog_round_trip [OF c ok run [unfolded r(1)]] run r c by blast
qed

text \<open>A table whose reference is to an unknown table is rejected but stays registered: creating it again fails because it exists, although it is not in the file.\<close>

theorem rejected_table_stays:
  assumes "map_of (ca_tables c) name = None" "map_of (ca_tables c) parent = None" "name \<noteq> parent"
  shows "\<exists>c'. run_cat (CreateTable name [id_column, ref_column parent]) c = (Inl CatalogError, c') \<and> table_exists c' name \<and> ca_file c' = ca_file c \<and>
     run_cat (CreateTable name [id_column]) c' = (Inl CatalogError, c')"
  using assms by (simp add: create_table_def id_column_def ref_column_def bnd_def Let_def table_exists_def AList.update_conv')

theorem rejected_table_stays_witness:
  "\<exists>c'. run_cat (CreateTable (py ''t'') [id_column, ref_column (py ''u'')]) \<lparr>ca_file = None, ca_tables = [], ca_indexes = [], ca_fkeys = []\<rparr> = (Inl CatalogError, c')
     \<and> table_exists c' (py ''t'')"
  using rejected_table_stays [of "\<lparr>ca_file = None, ca_tables = [], ca_indexes = [], ca_fkeys = []\<rparr>" "py ''t''" "py ''u''"] by auto

end
