(* ===== verification/Row_Store.thy ===== *)
theory Row_Store
  imports Transaction
begin

section \<open>An engine as a store of rows\<close>

text \<open>
  What the SQL layer asks of an \<^verbatim>\<open>Engine\<close>: the interface \<open>row_store\<close> with rows sorted by key as the abstract state and
  a budget of writes, and its interpretation on the model of the engine. The entries of a secondary index are rows, too:
  the lemmas about adding to and removing from them are proved in the locale.

  SQL values need not be integers; a key of another type is compared with the keys in the pages, which raises
  \<^verbatim>\<open>TypeError\<close> as soon as there is one to compare with. A loop over a scan is modelled as the list of its rows. Its fuel is
  above the number of keys, which are 32-bit.
\<close>

subsection \<open>Scans\<close>

definition KEY_MAX :: int where "KEY_MAX = 2 ^ 32 - 1"

definition scan_fuel :: nat where "scan_fuel = Suc (2 ^ 32)"

definition engine_rows :: "int \<Rightarrow> int \<Rightarrow> (engine, (int \<times> val list) list) act" where
  "engine_rows start end_key =
     bnd (on_tree (scan_rows scan_fuel start end_key)) (\<lambda>rs.
     ret (map (\<lambda>(k, v). (k, case v of None \<Rightarrow> [] | Some row \<Rightarrow> row)) rs))"

definition all_rows :: "(engine, (int \<times> val list) list) act" where
  "all_rows = engine_rows 0 KEY_MAX"

subsection \<open>Keys of any type\<close>

text \<open>Whether the root is a leaf without entries, when nothing is compared.\<close>

definition nothing_stored :: "(bplus_tree, bool) act" where
  "nothing_stored =
     bnd (gets bt_root_id) (\<lambda>root.
     bnd (get_page root) (\<lambda>r.
     bnd (obj r) (\<lambda>pg. case pg of
       LeafP l \<Rightarrow> bnd (lift_res (leaf_entries l)) (\<lambda>es. ret (es = []))
     | IndexP _ \<Rightarrow> ret False)))"

definition unless_empty :: "'b \<Rightarrow> py_error \<Rightarrow> (engine, 'b) act" where
  "unless_empty x err = bnd (on_tree nothing_stored) (\<lambda>b. if b then ret x else throw err)"

fun get_val :: "val \<Rightarrow> (engine, val list option) act" where
  "get_val (VInt k) = engine_get k"
| "get_val _ = unless_empty None TypeError"

fun put_val :: "val \<Rightarrow> val list \<Rightarrow> (engine, unit) act" where
  "put_val (VInt k) row = engine_put k row"
| "put_val _ row = bnd (lift_res (encode_record row)) (\<lambda>_. bnd (unless_empty () TypeError) (\<lambda>_. throw StructError))"

text \<open>A deletion compares the key with those of a leaf only by \<^verbatim>\<open>!=\<close>, which no type makes raise.\<close>

definition root_is_leaf :: "(bplus_tree, bool) act" where
  "root_is_leaf =
     bnd (gets bt_root_id) (\<lambda>root.
     bnd (get_page root) (\<lambda>r.
     bnd (obj r) (\<lambda>pg. case pg of
       LeafP l \<Rightarrow> bnd (lift_res (leaf_entries l)) (\<lambda>_. ret True)
     | IndexP _ \<Rightarrow> ret False)))"

fun delete_val :: "val \<Rightarrow> (engine, bool) act" where
  "delete_val (VInt k) = engine_delete k"
| "delete_val _ = bnd (on_tree root_is_leaf) (\<lambda>b. if b then ret False else throw TypeError)"

fun scan_val :: "val \<Rightarrow> val \<Rightarrow> (engine, (int \<times> val list) list) act" where
  "scan_val (VInt l) (VInt h) = engine_rows l h"
| "scan_val (VInt l) _ = bnd (on_tree (cursor_init l KEY_MAX)) (\<lambda>c. if cu_key c = None then ret [] else throw TypeError)"
| "scan_val _ _ = unless_empty [] TypeError"

subsection \<open>Index entries\<close>

text \<open>\<^verbatim>\<open>_add\<close> and \<^verbatim>\<open>_remove\<close> of the index manager, over the operations of the store.\<close>

definition entry_add :: "('k \<Rightarrow> ('s, val list option) act) \<Rightarrow> ('k \<Rightarrow> val list \<Rightarrow> ('s, unit) act) \<Rightarrow> 'k \<Rightarrow> val \<Rightarrow> ('s, unit) act" where
  "entry_add get put col_val pk_val =
     bnd (get col_val) (\<lambda>existing. case existing of
       None \<Rightarrow> put col_val [pk_val]
     | Some pks \<Rightarrow> if pk_val \<in> set pks then ret () else put col_val (pks @ [pk_val]))"

definition entry_remove :: "('k \<Rightarrow> ('s, val list option) act) \<Rightarrow> ('k \<Rightarrow> val list \<Rightarrow> ('s, unit) act) \<Rightarrow> ('k \<Rightarrow> ('s, bool) act) \<Rightarrow>
    'k \<Rightarrow> val \<Rightarrow> ('s, unit) act" where
  "entry_remove get put delete col_val pk_val =
     bnd (get col_val) (\<lambda>existing. case existing of
       None \<Rightarrow> ret ()
     | Some pks \<Rightarrow>
         let updated = filter (\<lambda>pk. pk \<noteq> pk_val) pks in
         if updated \<noteq> [] then put col_val updated else bnd (delete col_val) (\<lambda>_. ret ()))"

fun add_entry :: "int \<Rightarrow> val \<Rightarrow> (int \<times> val list) list \<Rightarrow> (int \<times> val list) list" where
  "add_entry v pk ix = (case map_of ix v of
     None \<Rightarrow> ins_sorted v [pk] ix
   | Some pks \<Rightarrow> if pk \<in> set pks then ix else ins_sorted v (pks @ [pk]) ix)"

fun remove_entry :: "int \<Rightarrow> val \<Rightarrow> (int \<times> val list) list \<Rightarrow> (int \<times> val list) list" where
  "remove_entry v pk ix = (case map_of ix v of
     None \<Rightarrow> ix
   | Some pks \<Rightarrow> if filter (\<lambda>p. p \<noteq> pk) pks = [] then del_sorted v ix else ins_sorted v (filter (\<lambda>p. p \<noteq> pk) pks) ix)"

declare add_entry.simps [simp del] remove_entry.simps [simp del]

subsection \<open>The interface\<close>

locale row_store =
  fixes get :: "int \<Rightarrow> ('s, val list option) act" and put :: "int \<Rightarrow> val list \<Rightarrow> ('s, unit) act"
    and delete :: "int \<Rightarrow> ('s, bool) act" and scan :: "int \<Rightarrow> int \<Rightarrow> ('s, (int \<times> val list) list) act"
    and holding :: "(int \<times> val list) list \<Rightarrow> nat \<Rightarrow> 's \<Rightarrow> bool" and fits :: "int \<Rightarrow> val list \<Rightarrow> bool"
  assumes sorted: "holding rs k s \<Longrightarrow> keys_sorted rs"
    and less_room: "holding rs (Suc k) s \<Longrightarrow> holding rs k s"
    and get_row: "holding rs k s \<Longrightarrow> runs (get key) s (\<lambda>r s'. r = map_of rs key \<and> holding rs k s')"
    and put_row: "holding rs (Suc k) s \<Longrightarrow> fits key row \<Longrightarrow> runs (put key row) s (\<lambda>_ s'. holding (ins_sorted key row rs) k s')"
    and delete_row: "holding rs (Suc k) s \<Longrightarrow> runs (delete key) s (\<lambda>found s'. (found \<longleftrightarrow> map_of rs key \<noteq> None) \<and> holding (del_sorted key rs) k s')"
    and scan_range: "holding rs k s \<Longrightarrow> runs (scan lo hi) s (\<lambda>r s'. r = range_sorted lo hi rs \<and> holding rs k s')"
begin

lemma less_rooms: "holding rs k s \<Longrightarrow> j \<le> k \<Longrightarrow> holding rs j s"
proof (induction k)
  case (Suc k)
  then show ?case using less_room [of rs k s] by (cases "j = Suc k") auto
qed simp

lemma add_law:
  assumes h: "holding ix (Suc k) s" and f: "\<not> (\<exists>pks. map_of ix v = Some pks \<and> pk \<in> set pks) \<Longrightarrow> fits v (case map_of ix v of None \<Rightarrow> [pk] | Some pks \<Rightarrow> pks @ [pk])"
  shows "runs (entry_add get put v pk) s (\<lambda>_ s'. holding (add_entry v pk ix) k s')"
  unfolding entry_add_def runs_bnd [of "get v"]
proof (rule runs_weaken [OF get_row [OF h]], elim conjE, goal_cases)
  case (1 r s')
  show ?case
  proof (cases "map_of ix v")
    case None
    have "runs (put v [pk]) s' (\<lambda>_ s''. holding (ins_sorted v [pk] ix) k s'')" by (rule put_row [OF 1(2)]) (use f None in simp)
    then show ?thesis using 1(1) None by (simp add: add_entry.simps)
  next
    case (Some pks)
    have "runs (put v (pks @ [pk])) s' (\<lambda>_ s''. holding (ins_sorted v (pks @ [pk]) ix) k s'')" if "pk \<notin> set pks"
      by (rule put_row [OF 1(2)]) (use f Some that in simp)
    then show ?thesis using 1(1) Some less_room [OF 1(2)] by (simp add: add_entry.simps runs_basic)
  qed
qed

lemma remove_law:
  assumes h: "holding ix (Suc k) s" and f: "\<And>pks. map_of ix v = Some pks \<Longrightarrow> filter (\<lambda>p. p \<noteq> pk) pks \<noteq> [] \<Longrightarrow> fits v (filter (\<lambda>p. p \<noteq> pk) pks)"
  shows "runs (entry_remove get put delete v pk) s (\<lambda>_ s'. holding (remove_entry v pk ix) k s')"
  unfolding entry_remove_def runs_bnd [of "get v"]
proof (rule runs_weaken [OF get_row [OF h]], elim conjE, goal_cases)
  case (1 r s')
  show ?case
  proof (cases "map_of ix v")
    case None
    then show ?thesis using 1(1) less_room [OF 1(2)] by (simp add: remove_entry.simps runs_basic)
  next
    case (Some pks)
    show ?thesis
    proof (cases "filter (\<lambda>p. p \<noteq> pk) pks = []")
      case True
      have "runs (delete v) s' (\<lambda>_ s''. runs (ret ()) s'' (\<lambda>_ s''. holding (del_sorted v ix) k s''))"
        by (rule runs_weaken [OF delete_row [OF 1(2)]]) (simp add: runs_basic)
      then show ?thesis using 1(1) Some True by (simp add: remove_entry.simps runs_bnd Let_def)
    next
      case False
      have "runs (put v (filter (\<lambda>p. p \<noteq> pk) pks)) s' (\<lambda>_ s''. holding (ins_sorted v (filter (\<lambda>p. p \<noteq> pk) pks) ix) k s'')"
        by (rule put_row [OF 1(2)]) (use f Some False in simp)
      then show ?thesis using 1(1) Some False by (simp add: remove_entry.simps Let_def)
    qed
  qed
qed

end

subsection \<open>The engine provides it\<close>

text \<open>
  The budget \<open>k\<close> of writes: for each of them \<open>H + 2\<close> more pages and \<open>3 * H + 4\<close> log records, where \<open>H\<close> bounds the height of the
  tree after all of them. With them the pages still fit a pool of 256, which the engine has when it is opened again.
\<close>

definition on_files :: "engine \<Rightarrow> bool" where
  "on_files e \<longleftrightarrow> pg_file (en_tree e) \<noteq> None \<and> pg_wal (en_tree e) \<noteq> None"

lemma on_files_same: "on_files e \<Longrightarrow> same_files (en_tree e) s' \<Longrightarrow> on_files (e\<lparr>en_tree := s'\<rparr>)"
  by (simp add: on_files_def same_files_def)

definition holds_rows :: "nat \<Rightarrow> (int \<times> val list) list \<Rightarrow> nat \<Rightarrow> engine \<Rightarrow> bool" where
  "holds_rows R rs k e \<longleftrightarrow> on_files e \<and> (\<exists>t n H. stores (en_tree e) t n (k * (H + 2)) (k * (3 * H + 4)) R \<and> decodable (bt_es t) \<and>
     rows_of (bt_es t) = rs \<and> length rs + k < 2 ^ Suc H \<and> n + k * (H + 2) \<le> 256)"

definition row_fits :: "nat \<Rightarrow> int \<Rightarrow> val list \<Rightarrow> bool" where
  "row_fits R key row \<longleftrightarrow> key_ok key \<and> (case encode_record row of Inl _ \<Rightarrow> False | Inr b \<Rightarrow> length b \<le> R)"


lemma stores_keys: "stores s t n a b R \<Longrightarrow> k \<in> fst ` set (bt_es t) \<Longrightarrow> 0 \<le> k \<and> k < 2 ^ 32"
  unfolding stores_def by (elim conjE) (drule (1) bt_ok_keys, simp add: key_ok_def)

lemma stores_count: "stores s t n a b R \<Longrightarrow> length (bt_es t) \<le> 2 ^ 32"
proof -
  assume st: "stores s t n a b R"
  have "distinct (map fst (bt_es t))"
    using stores_sorted [OF st] unfolding keys_sorted_def by (simp add: strict_sorted_iff)
  then have len: "length (bt_es t) = card (set (map fst (bt_es t)))" by (metis distinct_card length_map)
  have "set (map fst (bt_es t)) \<subseteq> {0..<2 ^ 32 :: int}"
  proof
    fix k :: int
    assume "k \<in> set (map fst (bt_es t))"
    then show "k \<in> {0..<2 ^ 32}" using stores_keys [OF st, of k] by simp
  qed
  then have "card (set (map fst (bt_es t))) \<le> card {0..<2 ^ 32 :: int}" by (rule card_mono [rotated]) simp
  then show ?thesis by (simp add: len)
qed

lemma holds_rowsE:
  assumes "holds_rows R rs (Suc k) e"
  obtains t n H where "stores (en_tree e) t n (k * (H + 2) + (H + 2)) (k * (3 * H + 4) + (3 * H + 4)) R" "decodable (bt_es t)"
    "rows_of (bt_es t) = rs" "length rs + Suc k < 2 ^ Suc H" "length (bt_es t) < 2 ^ Suc H" "n + (H + 2) + k * (H + 2) \<le> 256" "on_files e"
proof -
  obtain t n H where t: "stores (en_tree e) t n (Suc k * (H + 2)) (Suc k * (3 * H + 4)) R" "decodable (bt_es t)" "rows_of (bt_es t) = rs"
    "length rs + Suc k < 2 ^ Suc H" "n + Suc k * (H + 2) \<le> 256" "on_files e" using assms unfolding holds_rows_def by blast
  have "length (bt_es t) = length rs" using t(3) by (auto simp: rows_of_def)
  then show ?thesis using that [of t n H] t by (simp add: add.commute add.left_commute)
qed

lemma holds_sorted: "holds_rows R rs k e \<Longrightarrow> keys_sorted rs"
proof -
  assume "holds_rows R rs k e"
  then obtain t n a b where t: "stores (en_tree e) t n a b R" "rows_of (bt_es t) = rs" unfolding holds_rows_def by blast
  have "map fst (rows_of (bt_es t)) = map fst (bt_es t)" by (induction "bt_es t") (auto simp: rows_of_def)
  then show ?thesis using stores_sorted [OF t(1)] t(2) by (simp add: keys_sorted_def)
qed

lemma holds_fewer: "holds_rows R rs (Suc k) e \<Longrightarrow> holds_rows R rs k e"
proof (erule holds_rowsE)
  fix t n H
  assume t: "stores (en_tree e) t n (k * (H + 2) + (H + 2)) (k * (3 * H + 4) + (3 * H + 4)) R" "decodable (bt_es t)"
    "rows_of (bt_es t) = rs" "length rs + Suc k < 2 ^ Suc H" "n + (H + 2) + k * (H + 2) \<le> 256" "on_files e"
  have "stores (en_tree e) t n (k * (H + 2)) (k * (3 * H + 4)) R" by (rule stores_weaken [OF t(1)]) simp_all
  then show ?thesis unfolding holds_rows_def using t(2-6) by (intro conjI exI [of _ t] exI [of _ n] exI [of _ H]) simp_all
qed

lemma holds_get: "holds_rows R rs k e \<Longrightarrow> runs (engine_get key) e (\<lambda>r e'. r = map_of rs key \<and> holds_rows R rs k e')"
proof -
  assume h: "holds_rows R rs k e"
  then obtain t n H where t: "stores (en_tree e) t n (k * (H + 2)) (k * (3 * H + 4)) R" "decodable (bt_es t)" "rows_of (bt_es t) = rs"
    "length rs + k < 2 ^ Suc H" "n + k * (H + 2) \<le> 256" and f: "on_files e" unfolding holds_rows_def by blast
  show ?thesis
    unfolding engine_get_def runs_bnd [of "on_tree (tree_search key)"] runs_parts
  proof (rule runs_weaken [OF tree_search_law [OF t(1), of key]], goal_cases)
    case (1 x s')
    then have "holds_rows R rs k (e\<lparr>en_tree := s'\<rparr>)" unfolding holds_rows_def using t(2-5) on_files_same [OF f] by auto
    then show ?case
      using 1 map_of_rows [of "bt_es t" key] decodable_row [OF t(2), of key] t(3)
      by (cases "map_of (bt_es t) key") (auto simp: runs_simps)
  qed
qed

lemma holds_put:
  assumes h: "holds_rows R rs (Suc k) e" and f: "row_fits R key row"
  shows "runs (engine_put key row) e (\<lambda>_ e'. holds_rows R (ins_sorted key row rs) k e')"
proof -
  obtain b where b: "encode_record row = Inr b" "length b \<le> R" "key_ok key"
    using f by (auto simp: row_fits_def split: sum.splits)
  have dec: "decode_record b = Inr row" by (rule decode_encode_record [OF b(1)])
  show ?thesis
  proof (rule holds_rowsE [OF h])
    fix t n H
    assume t: "stores (en_tree e) t n (k * (H + 2) + (H + 2)) (k * (3 * H + 4) + (3 * H + 4)) R" "decodable (bt_es t)"
      "rows_of (bt_es t) = rs" "length rs + Suc k < 2 ^ Suc H" "length (bt_es t) < 2 ^ Suc H" "n + (H + 2) + k * (H + 2) \<le> 256" "on_files e"
    have "runs (run_op (Insert key b)) (en_tree e) (\<lambda>_ s'. \<exists>t' n'. bt_es t' = ins_sorted key b (bt_es t) \<and>
        n' \<le> n + (H + 2) \<and> same_files (en_tree e) s' \<and> stores s' t' n' (k * (H + 2)) (k * (3 * H + 4)) R)"
      by (rule runs_weaken [OF run_op_law [OF t(1) _ t(5)]]) (use b in auto)
    then have "runs (tree_insert key b) (en_tree e) (\<lambda>_ s'. holds_rows R (ins_sorted key row rs) k (e\<lparr>en_tree := s'\<rparr>))"
      unfolding run_op.simps runs_bnd runs_basic
    proof (rule runs_weaken, elim exE conjE)
      fix s' :: bplus_tree and t' n'
      assume "bt_es t' = ins_sorted key b (bt_es t)" "n' \<le> n + (H + 2)" "same_files (en_tree e) s'" "stores s' t' n' (k * (H + 2)) (k * (3 * H + 4)) R"
      then show "holds_rows R (ins_sorted key row rs) k (e\<lparr>en_tree := s'\<rparr>)"
        unfolding holds_rows_def
        using t(3,4,6) rows_of_ins [of key b "bt_es t"] row_of_encoded [OF b(1)] decodable_ins [OF t(2) dec, of key]
          length_ins_sorted_bounds(2) [of key row rs] on_files_same [OF t(7)]
        by (intro conjI exI [of _ t'] exI [of _ n'] exI [of _ H]) simp_all
    qed
    then show ?thesis by (simp add: engine_put_def runs_simps b(1))
  qed
qed

lemma holds_delete:
  assumes h: "holds_rows R rs (Suc k) e"
  shows "runs (engine_delete key) e (\<lambda>found e'. (found \<longleftrightarrow> map_of rs key \<noteq> None) \<and> holds_rows R (del_sorted key rs) k e')"
proof (rule holds_rowsE [OF h])
  fix t n H
  assume t: "stores (en_tree e) t n (k * (H + 2) + (H + 2)) (k * (3 * H + 4) + (3 * H + 4)) R" "decodable (bt_es t)"
    "rows_of (bt_es t) = rs" "length rs + Suc k < 2 ^ Suc H" "length (bt_es t) < 2 ^ Suc H" "n + (H + 2) + k * (H + 2) \<le> 256" "on_files e"
  have found: "key \<in> fst ` set (bt_es t) \<longleftrightarrow> map_of rs key \<noteq> None"
    using map_of_rows [of "bt_es t" key] t(3) by (simp add: map_of_eq_None_iff)
  have "runs (run_op (Delete key)) (en_tree e) (\<lambda>y s'. \<exists>t' n'. y = Deleted (key \<in> fst ` set (bt_es t)) \<and> bt_es t' = del_sorted key (bt_es t) \<and>
      n' \<le> n + (H + 2) \<and> same_files (en_tree e) s' \<and> stores s' t' n' (k * (H + 2)) (k * (3 * H + 4)) R)"
    by (rule runs_weaken [OF run_op_law [OF t(1) _ t(5)]]) auto
  then have "runs (tree_delete key) (en_tree e) (\<lambda>x s'. (x \<longleftrightarrow> map_of rs key \<noteq> None) \<and> holds_rows R (del_sorted key rs) k (e\<lparr>en_tree := s'\<rparr>))"
    unfolding run_op.simps runs_bnd runs_basic
  proof (rule runs_weaken, elim exE conjE)
    fix x and s' :: bplus_tree and t' n'
    assume a: "Deleted x = Deleted (key \<in> fst ` set (bt_es t))" "bt_es t' = del_sorted key (bt_es t)"
      "n' \<le> n + (H + 2)" "same_files (en_tree e) s'" "stores s' t' n' (k * (H + 2)) (k * (3 * H + 4)) R"
    have "length (del_sorted key rs) \<le> length rs" by (simp add: del_sorted_def)
    then have "length (del_sorted key rs) + k < 2 ^ Suc H" using t(4) by linarith
    then have "holds_rows R (del_sorted key rs) k (e\<lparr>en_tree := s'\<rparr>)"
      unfolding holds_rows_def using a(2,3,5) t(3,6) rows_of_del [of key "bt_es t"] decodable_sub(1) [OF t(2), of key]
        on_files_same [OF t(7) a(4)]
      by (intro conjI exI [of _ t'] exI [of _ n'] exI [of _ H]) simp_all
    then show "(x \<longleftrightarrow> map_of rs key \<noteq> None) \<and> holds_rows R (del_sorted key rs) k (e\<lparr>en_tree := s'\<rparr>)"
      using a(1) found by simp
  qed
  then show ?thesis by (simp add: engine_delete_def runs_simps)
qed

lemma holds_scan: "holds_rows R rs k e \<Longrightarrow> runs (engine_rows lo hi) e (\<lambda>r e'. r = range_sorted lo hi rs \<and> holds_rows R rs k e')"
proof -
  assume "holds_rows R rs k e"
  then obtain t n H where t: "stores (en_tree e) t n (k * (H + 2)) (k * (3 * H + 4)) R" "decodable (bt_es t)" "rows_of (bt_es t) = rs"
    "length rs + k < 2 ^ Suc H" "n + k * (H + 2) \<le> 256" and f: "on_files e" unfolding holds_rows_def by blast
  have fuel: "length (range_sorted lo hi (bt_es t)) < scan_fuel"
    unfolding range_sorted_def scan_fuel_def by (rule le_imp_less_Suc [OF le_trans [OF length_filter_le stores_count [OF t(1)]]])
  have dec: "map (\<lambda>(k, v). (k, case v of None \<Rightarrow> [] | Some row \<Rightarrow> row)) (map decoded es) = rows_of es" for es
    by (induction es) (auto simp: decoded_def rows_of_def row_of_def split: sum.splits)
  show ?thesis
    unfolding engine_rows_def runs_bnd [of "on_tree (scan_rows scan_fuel lo hi)"] runs_parts
  proof (rule runs_weaken [OF scan_rows_law [OF t(1,2) fuel]], goal_cases)
    case (1 x s')
    then have "holds_rows R rs k (e\<lparr>en_tree := s'\<rparr>)" unfolding holds_rows_def using t(2-5) on_files_same [OF f] step_same by auto
    then show ?case using 1 dec [of "range_sorted lo hi (bt_es t)"] rows_of_range [of lo hi "bt_es t"] t(3) by (simp add: runs_basic)
  qed
qed

interpretation table_store: row_store engine_get engine_put engine_delete engine_rows "holds_rows R" "row_fits R"
  by unfold_locales (fact holds_sorted holds_fewer holds_get holds_put holds_delete holds_scan)+

end
