(* ===== verification/Index_Manager.thy ===== *)
theory Index_Manager
  imports Catalog Row_Store
begin

section \<open>Secondary indexes (\<^verbatim>\<open>src/index_manager.py\<close>)\<close>

text \<open>
  The manager has the catalog and the open engines of the indexes. The directory is kept beside them: for every name the contents of
  \<^verbatim>\<open><name>.db\<close> and \<^verbatim>\<open><name>.db.wal\<close>. The contents of an open file are in its engine; the directory has what was there when it
  was opened, until it is closed. One file is never open twice: an index with the name of a table, which would share its file, is not
  modelled.

  The table is an argument of \<^verbatim>\<open>create_index\<close> of which only the scan is used, so it is modelled by the action that scans it.
\<close>

subsection \<open>Files and engines\<close>

type_synonym db_file = "bytes option \<times> bytes option"

record index_manager =
  im_catalog :: catalog
  im_engines :: "(pystr \<times> engine) list"
  im_files :: "(pystr \<times> db_file) list"

definition on_catalog :: "(catalog, 'b) act \<Rightarrow> ('a index_manager_scheme, 'b) act" where
  "on_catalog = on_part im_catalog (\<lambda>c s. s\<lparr>im_catalog := c\<rparr>)"

text \<open>A call on the engine of a name in a dictionary of engines.\<close>

definition on_item :: "('s \<Rightarrow> (pystr \<times> 'e) list) \<Rightarrow> ((pystr \<times> 'e) list \<Rightarrow> 's \<Rightarrow> 's) \<Rightarrow> py_error \<Rightarrow> pystr \<Rightarrow> ('e, 'b) act \<Rightarrow> ('s, 'b) act" where
  "on_item part put err name m s =
     (case map_of (part s) name of
        None \<Rightarrow> (Inl err, s)
      | Some e \<Rightarrow> (case m e of (r, e') \<Rightarrow> (r, put (AList.update name e' (part s)) s)))"

definition on_index :: "pystr \<Rightarrow> (engine, 'b) act \<Rightarrow> ('a index_manager_scheme, 'b) act" where
  "on_index = on_item im_engines (\<lambda>d s. s\<lparr>im_engines := d\<rparr>) KeyError"

definition open_file :: "pystr \<Rightarrow> ('a index_manager_scheme, engine) act" where
  "open_file name =
     bnd (gets im_files) (\<lambda>fs.
     lift_res (engine_init (Some (case map_of fs name of None \<Rightarrow> (None, None) | Some f \<Rightarrow> f)) 100))"

definition open_engine :: "pystr \<Rightarrow> ('a index_manager_scheme, unit) act" where
  "open_engine name = bnd (open_file name) (\<lambda>e. modify (\<lambda>s. s\<lparr>im_engines := AList.update name e (im_engines s)\<rparr>))"

text \<open>What \<^verbatim>\<open>Engine.close\<close> leaves in the two files: its steps before it lets go of them.\<close>

definition closed_files :: "engine \<Rightarrow> db_file" where
  "closed_files e = session_files (snd (bnd pg_flush (\<lambda>_. if_wal (run_wal (modify wal_close))) (en_tree e)))"

definition leave_files :: "pystr \<Rightarrow> engine \<Rightarrow> ('a index_manager_scheme, unit) act" where
  "leave_files name e = modify (\<lambda>s. s\<lparr>im_files := AList.update name (closed_files e) (im_files s)\<rparr>)"

subsection \<open>Lifecycle\<close>

definition open_all :: "('a index_manager_scheme, unit) act" where
  "open_all = bnd (gets (\<lambda>s. all_indexes (im_catalog s))) (\<lambda>idxs. for_each (\<lambda>idx. open_engine (is_name idx)) idxs)"

definition row_at :: "val list \<Rightarrow> nat \<Rightarrow> val res" where
  "row_at row i = (if i < length row then Inr (row ! i) else Inl IndexError)"

definition im_add :: "pystr \<Rightarrow> val \<Rightarrow> val \<Rightarrow> ('a index_manager_scheme, unit) act" where
  "im_add index_name col_val pk_val = on_index index_name (entry_add get_val put_val col_val pk_val)"

definition im_remove :: "pystr \<Rightarrow> val \<Rightarrow> val \<Rightarrow> ('a index_manager_scheme, unit) act" where
  "im_remove index_name col_val pk_val = on_index index_name (entry_remove get_val put_val delete_val col_val pk_val)"

definition im_create_index :: "index_schema \<Rightarrow> table_schema \<Rightarrow> ('a index_manager_scheme, (int \<times> val list) list) act \<Rightarrow>
    ('a index_manager_scheme, unit) act" where
  "im_create_index idx schema table_scan =
     bnd (open_engine (is_name idx)) (\<lambda>_.
     bnd table_scan (\<lambda>rows.
     for_each (\<lambda>(_, row_list).
       bnd (lift_res (row_at row_list (is_col_idx idx))) (\<lambda>col_val.
       bnd (lift_res (row_at row_list (ts_pk_idx schema))) (\<lambda>pk_val.
       if col_val \<noteq> VNull then im_add (is_name idx) col_val pk_val else ret ()))) rows))"

definition im_drop_index :: "pystr \<Rightarrow> ('a index_manager_scheme, unit) act" where
  "im_drop_index name =
     bnd (gets (\<lambda>s. map_of (im_engines s) name)) (\<lambda>e.
     bnd (modify (\<lambda>s. s\<lparr>im_engines := AList.delete name (im_engines s)\<rparr>)) (\<lambda>_.
     bnd (case e of None \<Rightarrow> ret () | Some e \<Rightarrow> bnd (leave_files name e) (\<lambda>_. lift_res (fst (engine_close e)))) (\<lambda>_.
     modify (\<lambda>s. s\<lparr>im_files := AList.delete name (im_files s)\<rparr>))))"

definition im_close :: "('a index_manager_scheme, unit) act" where
  "im_close =
     bnd (gets im_engines) (\<lambda>es.
     bnd (for_each (\<lambda>(name, e). bnd (leave_files name e) (\<lambda>_. on_index name engine_close)) es) (\<lambda>_.
     modify (\<lambda>s. s\<lparr>im_engines := []\<rparr>)))"

subsection \<open>Keeping the indexes in step\<close>

definition table_indexes :: "table_schema \<Rightarrow> ('a index_manager_scheme, index_schema list) act" where
  "table_indexes schema = gets (\<lambda>s. get_indexes_for_table (im_catalog s) (ts_name schema))"

definition on_insert :: "table_schema \<Rightarrow> val list \<Rightarrow> ('a index_manager_scheme, unit) act" where
  "on_insert schema row_list =
     bnd (lift_res (row_at row_list (ts_pk_idx schema))) (\<lambda>pk_val.
     bnd (table_indexes schema) (\<lambda>idxs.
     for_each (\<lambda>idx.
       bnd (lift_res (row_at row_list (is_col_idx idx))) (\<lambda>col_val.
       if col_val \<noteq> VNull then im_add (is_name idx) col_val pk_val else ret ())) idxs))"

definition on_delete :: "table_schema \<Rightarrow> val list \<Rightarrow> ('a index_manager_scheme, unit) act" where
  "on_delete schema row_list =
     bnd (lift_res (row_at row_list (ts_pk_idx schema))) (\<lambda>pk_val.
     bnd (table_indexes schema) (\<lambda>idxs.
     for_each (\<lambda>idx.
       bnd (lift_res (row_at row_list (is_col_idx idx))) (\<lambda>col_val.
       if col_val \<noteq> VNull then im_remove (is_name idx) col_val pk_val else ret ())) idxs))"

definition on_update :: "table_schema \<Rightarrow> val list \<Rightarrow> val list \<Rightarrow> ('a index_manager_scheme, unit) act" where
  "on_update schema old_row new_row =
     bnd (lift_res (row_at old_row (ts_pk_idx schema))) (\<lambda>pk_val.
     bnd (table_indexes schema) (\<lambda>idxs.
     for_each (\<lambda>idx.
       bnd (lift_res (row_at old_row (is_col_idx idx))) (\<lambda>old_val.
       bnd (lift_res (row_at new_row (is_col_idx idx))) (\<lambda>new_val.
       if old_val \<noteq> new_val then
         bnd (if old_val \<noteq> VNull then im_remove (is_name idx) old_val pk_val else ret ()) (\<lambda>_.
         if new_val \<noteq> VNull then im_add (is_name idx) new_val pk_val else ret ())
       else ret ()))) idxs))"

subsection \<open>Lookup\<close>

definition has_index_on :: "catalog \<Rightarrow> pystr \<Rightarrow> col_name \<Rightarrow> index_schema option" where
  "has_index_on c table col = find (\<lambda>idx. Name (is_col idx) = col) (get_indexes_for_table c table)"

definition if_open :: "pystr \<Rightarrow> 'b \<Rightarrow> ('a index_manager_scheme, 'b) act \<Rightarrow> ('a index_manager_scheme, 'b) act" where
  "if_open index_name d m = bnd (gets (\<lambda>s. map_of (im_engines s) index_name)) (\<lambda>e. if e = None then ret d else m)"

definition im_lookup :: "pystr \<Rightarrow> val \<Rightarrow> ('a index_manager_scheme, val list) act" where
  "im_lookup index_name v =
     if_open index_name [] (bnd (on_index index_name (get_val v)) (\<lambda>pks. ret (case pks of None \<Rightarrow> [] | Some pks \<Rightarrow> pks)))"

definition im_range_lookup :: "pystr \<Rightarrow> val \<Rightarrow> val \<Rightarrow> ('a index_manager_scheme, val list) act" where
  "im_range_lookup index_name low high =
     if_open index_name [] (bnd (on_index index_name (scan_val low high)) (\<lambda>rows. ret (concat (map snd rows))))"

end
