(* ===== verification/Executor.thy ===== *)
theory Executor
  imports Index_Manager Parser "HOL-Library.List_Lexorder"
begin

section \<open>The executor (\<^verbatim>\<open>src/executor.py\<close>) and the database (\<^verbatim>\<open>src/database.py\<close>)\<close>

text \<open>
  The state is the index manager's with the dictionary of the tables' engines, which the database and its executor share, and whether
  the executor was given the index manager. A row is a dictionary from column names to values, kept as the list of its items. A table's
  engine is referred to by the table's name: no statement removes an engine. Comprehensions over a scan are modelled as the scan
  followed by the rest.
\<close>

record database = index_manager +
  ex_engines :: "(pystr \<times> engine) list"
  ex_index_mgr :: bool

type_synonym row = "(pystr \<times> val) list"

subsection \<open>Expressions\<close>

text \<open>Comparison of values; strings are compared by code points.\<close>

fun py_lt :: "val \<Rightarrow> val \<Rightarrow> bool res" where
  "py_lt (VInt x) (VInt y) = Inr (x < y)"
| "py_lt (VStr x) (VStr y) = Inr (x < y)"
| "py_lt _ _ = Inl TypeError"

fun py_le :: "val \<Rightarrow> val \<Rightarrow> bool res" where
  "py_le (VInt x) (VInt y) = Inr (x \<le> y)"
| "py_le (VStr x) (VStr y) = Inr (x \<le> y)"
| "py_le _ _ = Inl TypeError"

definition compare_op :: "pystr \<Rightarrow> val \<Rightarrow> val \<Rightarrow> bool res" where
  "compare_op op x y =
     (if op = py ''<'' then py_lt x y
      else if op = py ''>'' then py_lt y x
      else if op = py ''<='' then py_le x y
      else if op = py ''>='' then py_le y x
      else if op = py ''!='' then Inr (x \<noteq> y)
      else Inl ExecutionError)"

text \<open>\<^verbatim>\<open>row.get(col)\<close>; a \<^verbatim>\<open>ColRef\<close> cannot be hashed.\<close>

definition row_get :: "row \<Rightarrow> pystr \<Rightarrow> val" where
  "row_get r c = (case map_of r c of None \<Rightarrow> VNull | Some v \<Rightarrow> v)"

fun plain_key :: "col_name \<Rightarrow> pystr res" where
  "plain_key (Name c) = Inr c"
| "plain_key (ColRef t c) = Inl TypeError"

definition dotted :: "pystr \<Rightarrow> pystr \<Rightarrow> pystr" where
  "dotted t c = t @ py ''.'' @ c"

fun join_key :: "col_name \<Rightarrow> pystr res" where
  "join_key (Name c) = Inr c"
| "join_key (ColRef t c) = Inr (dotted t c)"

fun eval_with :: "(col_name \<Rightarrow> pystr res) \<Rightarrow> expr \<Rightarrow> row \<Rightarrow> bool res" where
  "eval_with key (EqExpr col v) r = bind_res (key col) (\<lambda>c. Inr (row_get r c = v))"
| "eval_with key (CompareExpr col op v) r =
     bind_res (key col) (\<lambda>c. if row_get r c = VNull then Inr False else compare_op op (row_get r c) v)"
| "eval_with key (BetweenExpr col low high) r =
     bind_res (key col) (\<lambda>c.
     if row_get r c = VNull then Inr False
     else bind_res (py_le low (row_get r c)) (\<lambda>b. if b then py_le (row_get r c) high else Inr False))"
| "eval_with key (AndExpr x y) r = bind_res (eval_with key x r) (\<lambda>b. if b then eval_with key y r else Inr False)"
| "eval_with key (OrExpr x y) r = bind_res (eval_with key x r) (\<lambda>b. if b then Inr True else eval_with key y r)"

definition eval_expr :: "expr option \<Rightarrow> row \<Rightarrow> bool res" where
  "eval_expr e r = (case e of None \<Rightarrow> Inr True | Some e \<Rightarrow> eval_with plain_key e r)"

definition eval_join_expr :: "expr option \<Rightarrow> row \<Rightarrow> bool res" where
  "eval_join_expr e r = (case e of None \<Rightarrow> Inr True | Some e \<Rightarrow> eval_with join_key e r)"

subsection \<open>Rows\<close>

definition dict_of :: "(pystr \<times> val) list \<Rightarrow> row" where
  "dict_of kvs = fold (\<lambda>(k, v). AList.update k v) kvs []"

definition to_dict :: "table_schema \<Rightarrow> val list \<Rightarrow> row" where
  "to_dict schema row_list = dict_of (zip (map cs_name (ts_columns schema)) row_list)"

definition item :: "row \<Rightarrow> pystr \<Rightarrow> val res" where
  "item r c = (case map_of r c of None \<Rightarrow> Inl KeyError | Some v \<Rightarrow> Inr v)"

definition project :: "row \<Rightarrow> col_name list \<Rightarrow> row res" where
  "project r columns =
     (if columns = STAR then Inr r
      else
        bind_res (map_res plain_key columns) (\<lambda>cs.
        if filter (\<lambda>c. map_of r c = None) cs \<noteq> [] then Inl ExecutionError
        else bind_res (map_res (\<lambda>c. bind_res (item r c) (\<lambda>v. Inr (c, v))) cs) (\<lambda>kvs. Inr (dict_of kvs))))"

definition project_join :: "row \<Rightarrow> col_name list \<Rightarrow> row res" where
  "project_join r columns =
     (if columns = STAR then Inr (filter (\<lambda>(k, v). 46 \<in> set k) r)
      else
        bind_res (map_res (\<lambda>col. bind_res (join_key col) (\<lambda>k. case map_of r k of None \<Rightarrow> Inl ExecutionError | Some v \<Rightarrow> Inr (k, v))) columns)
          (\<lambda>kvs. Inr (dict_of kvs)))"

text \<open>\<^verbatim>\<open>sorted(rows, key=...)\<close>: nothing is compared when there is at most one row.\<close>

definition sort_rows :: "(val \<times> 'b) list \<Rightarrow> 'b list res" where
  "sort_rows krs =
     (if length krs \<le> 1 then Inr (map snd krs)
      else if list_all (\<lambda>(k, _). \<exists>i. k = VInt i) krs then Inr (map snd (sort_key (\<lambda>(k, _). case k of VInt i \<Rightarrow> i | _ \<Rightarrow> 0) krs))
      else if list_all (\<lambda>(k, _). \<exists>s. k = VStr s) krs then Inr (map snd (sort_key (\<lambda>(k, _). case k of VStr s \<Rightarrow> s | _ \<Rightarrow> []) krs))
      else Inl TypeError)"

fun filter_res :: "('b \<Rightarrow> bool res) \<Rightarrow> 'b list \<Rightarrow> 'b list res" where
  "filter_res p [] = Inr []"
| "filter_res p (x # xs) = bind_res (p x) (\<lambda>b. bind_res (filter_res p xs) (\<lambda>ys. Inr (if b then x # ys else ys)))"

subsection \<open>Access paths\<close>

text \<open>\<^verbatim>\<open>_get_engine\<close> gives the reference: the name of a table that is open.\<close>

definition get_engine :: "pystr \<Rightarrow> (database, pystr) act" where
  "get_engine table = bnd (gets ex_engines) (\<lambda>es. if map_of es table = None then throw ExecutionError else ret table)"

definition on_table :: "pystr \<Rightarrow> (engine, 'b) act \<Rightarrow> (database, 'b) act" where
  "on_table = on_item ex_engines (\<lambda>d s. s\<lparr>ex_engines := d\<rparr>) ExecutionError"

definition cat :: "(catalog \<Rightarrow> 'b) \<Rightarrow> (database, 'b) act" where
  "cat f = gets (\<lambda>s. f (im_catalog s))"

definition index_for :: "pystr \<Rightarrow> col_name \<Rightarrow> (database, index_schema option) act" where
  "index_for table col = gets (\<lambda>s. if ex_index_mgr s then has_index_on (im_catalog s) table col else None)"

definition if_index_mgr :: "(database, unit) act \<Rightarrow> (database, unit) act" where
  "if_index_mgr m = bnd (gets ex_index_mgr) (\<lambda>b. if b then m else ret ())"

fun fetch_pks :: "table_schema \<Rightarrow> pystr \<Rightarrow> val list \<Rightarrow> (database, row list) act" where
  "fetch_pks schema engine [] = ret []"
| "fetch_pks schema engine (pk # pks) =
     bnd (on_table engine (get_val pk)) (\<lambda>r.
     bnd (fetch_pks schema engine pks) (\<lambda>rows. ret (case r of None \<Rightarrow> rows | Some row_list \<Rightarrow> to_dict schema row_list # rows)))"

definition full_scan :: "table_schema \<Rightarrow> pystr \<Rightarrow> expr option \<Rightarrow> (database, row list) act" where
  "full_scan schema engine whr =
     bnd (on_table engine all_rows) (\<lambda>rows. lift_res (filter_res (eval_expr whr) (map (\<lambda>(_, row_list). to_dict schema row_list) rows)))"

definition fetch_rows :: "table_schema \<Rightarrow> pystr \<Rightarrow> expr option \<Rightarrow> (database, row list) act" where
  "fetch_rows schema engine whr =
     (case whr of
        Some (EqExpr col v) \<Rightarrow>
          if col = Name (ts_pk_col schema) then
            bnd (on_table engine (get_val v)) (\<lambda>raw. ret (case raw of None \<Rightarrow> [] | Some row_list \<Rightarrow> [to_dict schema row_list]))
          else bnd (index_for (ts_name schema) col) (\<lambda>idx. case idx of
            Some i \<Rightarrow> bnd (im_lookup (is_name i) v) (\<lambda>pks. fetch_pks schema engine pks)
          | None \<Rightarrow> full_scan schema engine whr)
      | Some (BetweenExpr col low high) \<Rightarrow>
          if col = Name (ts_pk_col schema) then
            bnd (on_table engine (scan_val low high)) (\<lambda>rows. ret (map (\<lambda>(_, row_list). to_dict schema row_list) rows))
          else bnd (index_for (ts_name schema) col) (\<lambda>idx. case idx of
            Some i \<Rightarrow>
              bnd (im_range_lookup (is_name i) low high) (\<lambda>pks.
              bnd (fetch_pks schema engine pks) (\<lambda>rows.
              lift_res (bind_res (map_res (\<lambda>r. bind_res (item r (ts_pk_col schema)) (\<lambda>k. Inr (k, r))) rows) sort_rows)))
          | None \<Rightarrow> full_scan schema engine whr)
      | _ \<Rightarrow> full_scan schema engine whr)"

subsection \<open>Schema statements\<close>

definition exec_create_table :: "pystr \<Rightarrow> column_def list \<Rightarrow> (database, row list) act" where
  "exec_create_table table columns =
     bnd (on_catalog (create_table table columns)) (\<lambda>_.
     bnd (open_file table) (\<lambda>e.
     bnd (modify (\<lambda>s. s\<lparr>ex_engines := AList.update table e (ex_engines s)\<rparr>)) (\<lambda>_. ret [])))"

definition need_index_mgr :: "(database, unit) act" where
  "need_index_mgr = bnd (gets ex_index_mgr) (\<lambda>b. if b then ret () else throw ExecutionError)"

definition exec_create_index :: "pystr \<Rightarrow> pystr \<Rightarrow> pystr \<Rightarrow> (database, row list) act" where
  "exec_create_index name table col =
     bnd need_index_mgr (\<lambda>_.
     bnd (on_catalog (cat_create_index name table col)) (\<lambda>idx_schema.
     bnd (on_catalog (get_table table)) (\<lambda>table_schema.
     bnd (get_engine table) (\<lambda>engine.
     bnd (im_create_index idx_schema table_schema (on_table engine all_rows)) (\<lambda>_. ret [])))))"

definition exec_drop_index :: "pystr \<Rightarrow> (database, row list) act" where
  "exec_drop_index name =
     bnd need_index_mgr (\<lambda>_. bnd (on_catalog (cat_drop_index name)) (\<lambda>_. bnd (im_drop_index name) (\<lambda>_. ret [])))"

subsection \<open>Rows in and out\<close>

definition check_parent :: "val list \<Rightarrow> fkey_schema \<Rightarrow> (database, unit) act" where
  "check_parent values fk =
     bnd (lift_res (row_at values (fk_child_col_idx fk))) (\<lambda>fk_val.
     if fk_val \<noteq> VNull then
       bnd (get_engine (fk_parent_table fk)) (\<lambda>parent_engine.
       bnd (on_table parent_engine (get_val fk_val)) (\<lambda>r. if r = None then throw ExecutionError else ret ()))
     else ret ())"

definition exec_insert :: "pystr \<Rightarrow> val list \<Rightarrow> (database, row list) act" where
  "exec_insert table values =
     bnd (on_catalog (get_table table)) (\<lambda>schema.
     if length values \<noteq> length (ts_columns schema) then throw ExecutionError
     else
       bnd (lift_res (row_at values (ts_pk_idx schema))) (\<lambda>pk_val.
       if \<not> (\<exists>i. pk_val = VInt i) then throw ExecutionError
       else
         bnd (cat (\<lambda>c. get_fkeys_from c table)) (\<lambda>fks.
         bnd (for_each (check_parent values) fks) (\<lambda>_.
         bnd (get_engine table) (\<lambda>engine.
         bnd (on_table engine (put_val pk_val values)) (\<lambda>_.
         bnd (if_index_mgr (on_insert schema values)) (\<lambda>_. ret [])))))))"

definition exec_select :: "pystr \<Rightarrow> col_name list \<Rightarrow> expr option \<Rightarrow> (database, row list) act" where
  "exec_select table columns whr =
     bnd (on_catalog (get_table table)) (\<lambda>schema.
     bnd (get_engine table) (\<lambda>engine.
     bnd (fetch_rows schema engine whr) (\<lambda>rows.
     lift_res (map_res (\<lambda>r. project r columns) rows))))"

text \<open>The assignments to a copy of the row, each at the first column of its name.\<close>

fun assign_all :: "pystr list \<Rightarrow> (pystr \<times> val) list \<Rightarrow> val list \<Rightarrow> val list res" where
  "assign_all col_names [] new_row = Inr new_row"
| "assign_all col_names ((col, v) # asgs) new_row =
     bind_res (case first_index (\<lambda>c. c = col) col_names of Inl _ \<Rightarrow> Inl ValueError | Inr i \<Rightarrow> Inr i) (\<lambda>i.
     assign_all col_names asgs (new_row[i := v]))"

definition update_row :: "table_schema \<Rightarrow> pystr \<Rightarrow> (pystr \<times> val) list \<Rightarrow> row \<Rightarrow> (database, unit) act" where
  "update_row schema engine assignments row_dict =
     (let col_names = map cs_name (ts_columns schema) in
      bnd (lift_res (map_res (item row_dict) col_names)) (\<lambda>old_row.
      bnd (lift_res (assign_all col_names assignments old_row)) (\<lambda>new_row.
      bnd (lift_res (item row_dict (ts_pk_col schema))) (\<lambda>pk.
      bnd (on_table engine (put_val pk new_row)) (\<lambda>_.
      if_index_mgr (on_update schema old_row new_row))))))"

definition exec_update :: "pystr \<Rightarrow> (pystr \<times> val) list \<Rightarrow> expr option \<Rightarrow> (database, row list) act" where
  "exec_update table assignments whr =
     bnd (on_catalog (get_table table)) (\<lambda>schema.
     bnd (get_engine table) (\<lambda>engine.
     if \<exists>(col, v) \<in> set assignments. col \<notin> set (map cs_name (ts_columns schema)) \<or> col = ts_pk_col schema then throw ExecutionError
     else
       bnd (fetch_rows schema engine whr) (\<lambda>rows.
       bnd (for_each (update_row schema engine assignments) rows) (\<lambda>_. ret []))))"

definition check_child :: "val \<Rightarrow> fkey_schema \<Rightarrow> (database, unit) act" where
  "check_child pk fk =
     bnd (get_engine (fk_child_table fk)) (\<lambda>child_engine.
     bnd (on_catalog (get_table (fk_child_table fk))) (\<lambda>child_schema.
     bnd (fetch_rows child_schema child_engine (Some (EqExpr (Name (fk_child_col fk)) pk))) (\<lambda>child_rows.
     if child_rows \<noteq> [] then throw ExecutionError else ret ())))"

definition delete_row :: "pystr \<Rightarrow> table_schema \<Rightarrow> pystr \<Rightarrow> row \<Rightarrow> (database, unit) act" where
  "delete_row table schema engine row_dict =
     bnd (lift_res (item row_dict (ts_pk_col schema))) (\<lambda>pk.
     bnd (cat (\<lambda>c. get_fkeys_to c table)) (\<lambda>fks.
     bnd (for_each (check_child pk) fks) (\<lambda>_.
     bnd (on_table engine (delete_val pk)) (\<lambda>_.
     if_index_mgr
       (bnd (lift_res (map_res (item row_dict) (map cs_name (ts_columns schema)))) (\<lambda>old_row. on_delete schema old_row))))))"

definition exec_delete :: "pystr \<Rightarrow> expr option \<Rightarrow> (database, row list) act" where
  "exec_delete table whr =
     bnd (on_catalog (get_table table)) (\<lambda>schema.
     bnd (get_engine table) (\<lambda>engine.
     bnd (fetch_rows schema engine whr) (\<lambda>rows.
     bnd (for_each (delete_row table schema engine) rows) (\<lambda>_. ret []))))"

subsection \<open>Joins\<close>

definition join_matches :: "table_schema \<Rightarrow> pystr \<Rightarrow> pystr \<Rightarrow> pystr \<Rightarrow> val \<Rightarrow> (database, row list) act" where
  "join_matches right_schema right_engine right_table right_col join_val =
     (if right_col = ts_pk_col right_schema then
        bnd (on_table right_engine (get_val join_val)) (\<lambda>raw. ret (case raw of
          None \<Rightarrow> [] | Some row_list \<Rightarrow> if row_list = [] then [] else [to_dict right_schema row_list]))
      else
        bnd (index_for right_table (Name right_col)) (\<lambda>idx. case idx of
          Some i \<Rightarrow> bnd (im_lookup (is_name i) join_val) (\<lambda>pks. fetch_pks right_schema right_engine pks)
        | None \<Rightarrow> fetch_rows right_schema right_engine (Some (EqExpr (Name right_col) join_val))))"

definition merge_rows :: "pystr \<Rightarrow> pystr \<Rightarrow> row \<Rightarrow> row \<Rightarrow> row" where
  "merge_rows left_table right_table lrow rrow =
     (let merged = fold (\<lambda>(k, v) m. AList.update k v (AList.update (dotted left_table k) v m)) lrow [] in
      fold (\<lambda>(k, v) m.
        let m = AList.update (dotted right_table k) v m in
        if map_of m k = None then AList.update k v m else m) rrow merged)"

fun join_rows :: "pystr \<Rightarrow> pystr \<Rightarrow> col_name list \<Rightarrow> expr option \<Rightarrow> row \<Rightarrow> row list \<Rightarrow> row list res" where
  "join_rows left_table right_table columns whr lrow [] = Inr []"
| "join_rows left_table right_table columns whr lrow (rrow # rrows) =
     (let merged = merge_rows left_table right_table lrow rrow in
      bind_res (eval_join_expr whr merged) (\<lambda>b.
      if \<not> b then join_rows left_table right_table columns whr lrow rrows
      else
        bind_res (project_join merged columns) (\<lambda>r.
        bind_res (join_rows left_table right_table columns whr lrow rrows) (\<lambda>rs. Inr (r # rs)))))"

definition join_row :: "table_schema \<Rightarrow> pystr \<Rightarrow> pystr \<Rightarrow> pystr \<Rightarrow> pystr \<Rightarrow> pystr \<Rightarrow> col_name list \<Rightarrow> expr option \<Rightarrow> row \<Rightarrow>
    (database, row list) act" where
  "join_row right_schema right_engine left_table right_table left_col right_col columns whr lrow =
     (let join_val = row_get lrow left_col in
      if join_val = VNull then ret []
      else
        bnd (join_matches right_schema right_engine right_table right_col join_val) (\<lambda>right_matches.
        lift_res (join_rows left_table right_table columns whr lrow right_matches)))"

fun collect :: "('b \<Rightarrow> ('s, 'c list) act) \<Rightarrow> 'b list \<Rightarrow> ('s, 'c list) act" where
  "collect f [] = ret []"
| "collect f (x # xs) = bnd (f x) (\<lambda>ys. bnd (collect f xs) (\<lambda>zs. ret (ys @ zs)))"

definition exec_join_select :: "pystr \<Rightarrow> pystr \<Rightarrow> pystr \<Rightarrow> pystr \<Rightarrow> col_name list \<Rightarrow> expr option \<Rightarrow> (database, row list) act" where
  "exec_join_select left_table right_table left_col right_col columns whr =
     bnd (on_catalog (get_table left_table)) (\<lambda>left_schema.
     bnd (on_catalog (get_table right_table)) (\<lambda>right_schema.
     bnd (get_engine left_table) (\<lambda>left_engine.
     bnd (get_engine right_table) (\<lambda>right_engine.
     bnd (on_table left_engine all_rows) (\<lambda>rows.
     collect (join_row right_schema right_engine left_table right_table left_col right_col columns whr)
       (map (\<lambda>(_, row_list). to_dict left_schema row_list) rows))))))"

subsection \<open>Statements and the database\<close>

fun execute :: "stmt \<Rightarrow> (database, row list) act" where
  "execute (CreateTableStmt table columns) = exec_create_table table columns"
| "execute (CreateIndexStmt name table col) = exec_create_index name table col"
| "execute (DropIndexStmt name) = exec_drop_index name"
| "execute (InsertStmt table values) = exec_insert table values"
| "execute (JoinSelectStmt left_table right_table left_col right_col columns whr) =
     exec_join_select left_table right_table left_col right_col columns whr"
| "execute (SelectStmt table columns whr) = exec_select table columns whr"
| "execute (UpdateStmt table assignments whr) = exec_update table assignments whr"
| "execute (DeleteStmt table whr) = exec_delete table whr"

definition db_execute :: "unicode \<Rightarrow> pystr \<Rightarrow> (database, row list) act" where
  "db_execute u sql = bnd (lift_res (parse u sql)) execute"

definition reopen_engine :: "pystr \<Rightarrow> (database, unit) act" where
  "reopen_engine table = bnd (open_file table) (\<lambda>e. modify (\<lambda>s. s\<lparr>ex_engines := AList.update table e (ex_engines s)\<rparr>))"

text \<open>The directory is the catalog file and the files of the engines.\<close>

definition db_init :: "json option \<Rightarrow> (pystr \<times> db_file) list \<Rightarrow> database res" where
  "db_init f fs =
     bind_res (catalog_init f) (\<lambda>c.
     case bnd (for_each reopen_engine (all_tables c)) (\<lambda>_. open_all)
         \<lparr>im_catalog = c, im_engines = [], im_files = fs, ex_engines = [], ex_index_mgr = True\<rparr> of
       (Inl err, _) \<Rightarrow> Inl err
     | (Inr _, s) \<Rightarrow> Inr s)"

definition db_close :: "(database, unit) act" where
  "db_close =
     bnd (gets ex_engines) (\<lambda>es.
     bnd (for_each (\<lambda>(name, e). bnd (leave_files name e) (\<lambda>_. on_table name engine_close)) es) (\<lambda>_.
     bnd (modify (\<lambda>s. s\<lparr>ex_engines := []\<rparr>)) (\<lambda>_. im_close)))"

end
