(* ===== verification/Index_Laws.thy ===== *)
theory Index_Laws
  imports Executor
begin

section \<open>Indexes in step with their table\<close>

text \<open>
  What an index promises: for every value the non-empty list of the primary keys of the rows that have it. The lemmas say how adding and
  removing entries acts on this, for any store of rows, and what the rows of the table that change ask of its index.
\<close>

subsection \<open>Owners\<close>

text \<open>The primary keys of the rows with a value in the indexed column.\<close>

definition owners :: "nat \<Rightarrow> (int \<times> val list) list \<Rightarrow> int \<Rightarrow> int set" where
  "owners ci rs v = {k. \<exists>row. map_of rs k = Some row \<and> row ! ci = VInt v}"

definition owned :: "val \<Rightarrow> int \<Rightarrow> int \<Rightarrow> int set" where
  "owned x k v = (if x = VInt v then {k} else {})"

lemma owners_ins: "keys_sorted rs \<Longrightarrow> owners ci (ins_sorted k row rs) v = (owners ci rs v - {k}) \<union> owned (row ! ci) k v"
  by (auto simp: owners_def owned_def split: if_splits)

lemma owners_del: "owners ci (del_sorted k rs) v = owners ci rs v - {k}"
  by (auto simp: owners_def map_of_del_sorted)

lemma owners_not_owned: "map_of rs k = Some row \<Longrightarrow> row ! ci \<noteq> VInt v \<Longrightarrow> k \<notin> owners ci rs v"
  by (auto simp: owners_def)

subsection \<open>Entries\<close>

definition entry_ok :: "val list option \<Rightarrow> int set \<Rightarrow> bool" where
  "entry_ok e own = (case e of None \<Rightarrow> own = {} | Some pks \<Rightarrow> pks \<noteq> [] \<and> distinct pks \<and> set pks = VInt ` own)"

definition index_of :: "(int \<times> val list) list \<Rightarrow> (int \<Rightarrow> int set) \<Rightarrow> bool" where
  "index_of ix own \<longleftrightarrow> keys_sorted ix \<and> (\<forall>v. entry_ok (map_of ix v) (own v))"

lemma index_ofD: "index_of ix own \<Longrightarrow> keys_sorted ix" "index_of ix own \<Longrightarrow> entry_ok (map_of ix v) (own v)"
  by (simp_all add: index_of_def)

lemma index_of_cong: "index_of ix own \<Longrightarrow> (\<And>v. own v = own' v) \<Longrightarrow> index_of ix own'"
  by (simp add: index_of_def)

lemma index_of_ins: "index_of ix own \<Longrightarrow> entry_ok (Some pks) A \<Longrightarrow> index_of (ins_sorted v pks ix) (own(v := A))"
  by (auto simp: index_of_def)

lemma index_of_del: "index_of ix own \<Longrightarrow> index_of (del_sorted v ix) (own(v := {}))"
  by (simp add: index_of_def map_of_del_sorted entry_ok_def keys_sorted_del)

lemma index_add:
  assumes "index_of ix own"
  shows "index_of (add_entry v (VInt k) ix) (own(v := insert k (own v)))"
proof (cases "map_of ix v")
  case None
  then have "own v = {}" using index_ofD(2) [OF assms, of v] by (simp add: entry_ok_def)
  then show ?thesis using None index_of_ins [OF assms, of "[VInt k]" "{k}" v] by (simp add: add_entry.simps entry_ok_def)
next
  case (Some pks)
  then have e: "pks \<noteq> []" "distinct pks" "set pks = VInt ` own v" using index_ofD(2) [OF assms, of v] by (simp_all add: entry_ok_def)
  show ?thesis
  proof (cases "VInt k \<in> set pks")
    case True
    then have "insert k (own v) = own v" using e(3) by auto
    then show ?thesis using assms Some True by (simp add: add_entry.simps)
  next
    case False
    then have "entry_ok (Some (pks @ [VInt k])) (insert k (own v))" using e by (auto simp: entry_ok_def)
    then show ?thesis using index_of_ins [OF assms] Some False by (simp add: add_entry.simps)
  qed
qed

lemma index_remove:
  assumes "index_of ix own"
  shows "index_of (remove_entry v (VInt k) ix) (own(v := own v - {k}))"
proof (cases "map_of ix v")
  case None
  then have "own v = {}" using index_ofD(2) [OF assms, of v] by (simp add: entry_ok_def)
  then have "own(v := own v - {k}) = own" by (intro ext) simp
  then show ?thesis using None assms by (simp add: remove_entry.simps)
next
  case (Some pks)
  let ?pks = "filter (\<lambda>p. p \<noteq> VInt k) pks"
  have e: "distinct pks" "set pks = VInt ` own v" using index_ofD(2) [OF assms, of v] Some by (simp_all add: entry_ok_def)
  have f: "set ?pks = VInt ` (own v - {k})" "distinct ?pks" using e by auto
  show ?thesis
  proof (cases "?pks = []")
    case True
    then have "own v - {k} = {}" using f(1) by simp
    then have "own v - {k} = {}" by blast
    then have "own(v := own v - {k}) = own(v := {})" by (simp only:)
    then show ?thesis using index_of_del [OF assms, of v] Some True by (simp only: remove_entry.simps option.case if_True simp_thms)
  next
    case False
    then have "entry_ok (Some ?pks) (own v - {k})" using f by (simp add: entry_ok_def)
    then show ?thesis using index_of_ins [OF assms] Some False by (simp add: remove_entry.simps)
  qed
qed

text \<open>Room for the entries: what is stored under a value are at most \<open>N\<close> keys.\<close>

definition own_room :: "nat \<Rightarrow> (int \<Rightarrow> int set) \<Rightarrow> bool" where
  "own_room R own \<longleftrightarrow> (\<forall>v. own v \<subseteq> {0..<2 ^ 31} \<and> finite (own v) \<and> 4 + 5 * card (own v) \<le> R)"

lemma own_roomD: "own_room R own \<Longrightarrow> own v \<subseteq> {0..<2 ^ 31}" "own_room R own \<Longrightarrow> 4 + 5 * card (own v) \<le> R"
  by (simp_all add: own_room_def)

lemma ints_fit:
  assumes "entry_ok (Some pks) A" "A \<subseteq> {0..<2 ^ 31}" "4 + 5 * card A \<le> R" "R < 65536" "key_ok v"
  shows "row_fits R v pks"
proof -
  have e: "distinct pks" "set pks = VInt ` A" using assms(1) by (simp_all add: entry_ok_def)
  have len: "length pks = card A" using distinct_card [OF e(1)] e(2) by (simp add: card_image inj_on_def)
  have "set ps \<subseteq> range VInt \<Longrightarrow> sum_list (map val_size ps) = 4 * length ps" for ps
    by (induction ps) auto
  then have that_ints: "sum_list (map val_size pks) = 4 * length pks" using e(2) by blast
  have sz: "record_size pks = 4 + 5 * card A" using e(2) len that_ints by (auto simp: record_size_def)
  have "row_ok pks" using e(2) assms(2-4) len by (auto simp: row_ok_def list_all_iff)
  then show ?thesis using encode_record_ok [of pks] assms(3,5) sz by (auto simp: row_fits_def)
qed

subsection \<open>The engine of an index\<close>

definition index_holds :: "nat \<Rightarrow> (int \<Rightarrow> int set) \<Rightarrow> nat \<Rightarrow> engine \<Rightarrow> bool" where
  "index_holds R own k e \<longleftrightarrow> R < 65536 \<and> own_room R own \<and> (\<exists>ix. holds_rows R ix k e \<and> index_of ix own)"

lemma own_room_remove: "own_room R own \<Longrightarrow> own_room R (own(v := own v - A))"
  by (auto simp: own_room_def intro: order_trans [OF add_left_mono [OF mult_le_mono2 [OF card_mono]]])

lemma index_less: "index_holds R own k e \<Longrightarrow> j \<le> k \<Longrightarrow> index_holds R own j e"
  unfolding index_holds_def using table_store.less_rooms by blast

lemma index_addition:
  assumes h: "index_holds R own (Suc k) e" and room: "own_room R (own(v := insert pk (own v)))" and v: "key_ok v"
  shows "runs (entry_add get_val put_val (VInt v) (VInt pk)) e (\<lambda>_ e'. index_holds R (own(v := insert pk (own v))) k e')"
proof -
  obtain ix where ix: "R < 65536" "holds_rows R ix (Suc k) e" "index_of ix own" using h by (auto simp: index_holds_def)
  note new = index_add [OF ix(3), of v pk]
  have fits: "row_fits R v (case map_of ix v of None \<Rightarrow> [VInt pk] | Some pks \<Rightarrow> pks @ [VInt pk])" if "\<not> (\<exists>pks. map_of ix v = Some pks \<and> VInt pk \<in> set pks)"
  proof (rule ints_fit)
    have "map_of (add_entry v (VInt pk) ix) v = Some (case map_of ix v of None \<Rightarrow> [VInt pk] | Some pks \<Rightarrow> pks @ [VInt pk])"
      using that index_ofD(1) [OF ix(3)] by (cases "map_of ix v") (auto simp: add_entry.simps)
    then show "entry_ok (Some (case map_of ix v of None \<Rightarrow> [VInt pk] | Some pks \<Rightarrow> pks @ [VInt pk])) (insert pk (own v))"
      using index_ofD(2) [OF new, of v] by simp
  qed (use own_roomD [OF room, of v] v ix(1) in simp_all)
  have "runs (entry_add engine_get engine_put v (VInt pk)) e (\<lambda>_ e'. holds_rows R (add_entry v (VInt pk) ix) k e')"
    by (rule table_store.add_law [OF ix(2) fits])
  then show ?thesis
    unfolding entry_add_def get_val.simps put_val.simps by (rule runs_weaken) (use new room ix(1) in \<open>auto simp: index_holds_def\<close>)
qed

lemma index_removal:
  assumes h: "index_holds R own (Suc k) e" and v: "key_ok v"
  shows "runs (entry_remove get_val put_val delete_val (VInt v) (VInt pk)) e (\<lambda>_ e'. index_holds R (own(v := own v - {pk})) k e')"
proof -
  obtain ix where ix: "R < 65536" "own_room R own" "holds_rows R ix (Suc k) e" "index_of ix own" using h by (auto simp: index_holds_def)
  note room = own_room_remove [OF ix(2), of v "{pk}"]
  note new = index_remove [OF ix(4), of v pk]
  have "runs (entry_remove engine_get engine_put engine_delete v (VInt pk)) e (\<lambda>_ e'. holds_rows R (remove_entry v (VInt pk) ix) k e')"
  proof (rule table_store.remove_law [OF ix(3)])
    fix pks
    assume pks: "map_of ix v = Some pks" "filter (\<lambda>p. p \<noteq> VInt pk) pks \<noteq> []"
    show "row_fits R v (filter (\<lambda>p. p \<noteq> VInt pk) pks)"
    proof (rule ints_fit)
      have "map_of (remove_entry v (VInt pk) ix) v = Some (filter (\<lambda>p. p \<noteq> VInt pk) pks)"
        using pks index_ofD(1) [OF ix(4)] by (simp add: remove_entry.simps)
      then show "entry_ok (Some (filter (\<lambda>p. p \<noteq> VInt pk) pks)) (own v - {pk})"
        using index_ofD(2) [OF new, of v] by simp
    qed (use own_roomD [OF room, of v] v ix(1) in simp_all)
  qed
  then show ?thesis
    unfolding entry_remove_def get_val.simps put_val.simps delete_val.simps
    by (rule runs_weaken) (use new room ix(1) in \<open>auto simp: index_holds_def\<close>)
qed

end
