(* ===== verification/Sql_Laws.thy ===== *)
theory Sql_Laws
  imports Index_Laws
begin

section \<open>Fetching rows\<close>

text \<open>
  The abstract database: the rows of every table, and for every index the owners of every value. The law of \<open>fetch_rows\<close>:
  each of its access paths finds the rows that a full scan with the condition finds.
\<close>

subsection \<open>The engines of a database\<close>

definition dict_holds :: "('x \<Rightarrow> engine \<Rightarrow> bool) \<Rightarrow> (pystr \<Rightarrow> 'x option) \<Rightarrow> (pystr \<times> engine) list \<Rightarrow> bool" where
  "dict_holds P D d \<longleftrightarrow> distinct (map fst d) \<and> (\<forall>n. D n = None \<longrightarrow> map_of d n = None) \<and>
     (\<forall>n x. D n = Some x \<longrightarrow> (\<exists>e. map_of d n = Some e \<and> P x e))"

lemma dict_holdsE:
  assumes "dict_holds P D d" "D n = Some x"
  obtains e where "map_of d n = Some e" "P x e"
  using assms unfolding dict_holds_def by blast

lemma dict_holds_mono: "dict_holds P D d \<Longrightarrow> (\<And>x e. P x e \<Longrightarrow> P' x e) \<Longrightarrow> dict_holds P' D d"
  unfolding dict_holds_def by blast

lemma dict_holds_update:
  assumes "dict_holds P D d" "P x e"
  shows "dict_holds P (D(n \<mapsto> x)) (AList.update n e d)"
proof -
  note d = assms(1) [unfolded dict_holds_def]
  show ?thesis
    unfolding dict_holds_def AList.update_conv'
  proof (intro conjI allI impI)
    show "distinct (map fst (AList.update n e d))" using d by (simp add: distinct_update)
  next
    fix m assume "(D(n \<mapsto> x)) m = None"
    then show "((map_of d)(n \<mapsto> e)) m = None" using d by (simp add: fun_upd_def split: if_splits)
  next
    fix m y assume "(D(n \<mapsto> x)) m = Some y"
    then show "\<exists>e'. ((map_of d)(n \<mapsto> e)) m = Some e' \<and> P y e'"
      using d assms(2) by (cases "m = n") (simp, metis fun_upd_other)
  qed
qed

lemma dict_holds_same: "dict_holds P D d \<Longrightarrow> D n = Some x \<Longrightarrow> P x e \<Longrightarrow> dict_holds P D (AList.update n e d)"
  using dict_holds_update [of P D d x e n] by (simp add: fun_upd_idem)

lemma on_item_law:
  assumes d: "dict_holds P D (part s)" "D n = Some x" and m: "\<And>e. P x e \<Longrightarrow> runs m e (\<lambda>r e'. Q r \<and> P' x' e')"
    and w: "\<And>y e. P y e \<Longrightarrow> P' y e"
  shows "runs (on_item part put err n m) s (\<lambda>r s'. Q r \<and> (\<exists>d'. s' = put d' s \<and> dict_holds P' (D(n \<mapsto> x')) d'))"
proof -
  obtain e where e: "map_of (part s) n = Some e" "P x e" by (rule dict_holdsE [OF d])
  obtain r e' where r: "m e = (Inr r, e')" "Q r" "P' x' e'" using m [OF e(2)] unfolding runs_def by blast
  have "dict_holds P' (D(n \<mapsto> x')) (AList.update n e' (part s))"
    by (rule dict_holds_update [where P = P']) (rule dict_holds_mono [OF d(1) w], use r(3) in auto)
  then show ?thesis unfolding runs_def on_item_def using e(1) r by auto
qed

type_synonym tables = "pystr \<Rightarrow> (int \<times> val list) list option"
type_synonym indexes = "pystr \<Rightarrow> (int \<Rightarrow> int set) option"

definition db_holds :: "nat \<Rightarrow> catalog \<Rightarrow> tables \<Rightarrow> indexes \<Rightarrow> nat \<Rightarrow> database \<Rightarrow> bool" where
  "db_holds R c T X k s \<longleftrightarrow> im_catalog s = c \<and> ex_index_mgr s \<and> dict_holds (\<lambda>rs. holds_rows R rs k) T (ex_engines s) \<and>
     dict_holds (\<lambda>own. index_holds R own k) X (im_engines s)"

lemma db_less: "db_holds R c T X k s \<Longrightarrow> j \<le> k \<Longrightarrow> db_holds R c T X j s"
  unfolding db_holds_def by (auto elim!: dict_holds_mono intro: table_store.less_rooms index_less)

lemma on_table_law:
  assumes db: "db_holds R c T X k s" "T t = Some rs" and m: "\<And>e. holds_rows R rs k e \<Longrightarrow> runs m e (\<lambda>r e'. Q r \<and> holds_rows R rs' j e')"
    and j: "j \<le> k"
  shows "runs (on_table t m) s (\<lambda>r s'. Q r \<and> db_holds R c (T(t \<mapsto> rs')) X j s')"
proof -
  have d: "dict_holds (\<lambda>rs. holds_rows R rs k) T (ex_engines s)" "dict_holds (\<lambda>own. index_holds R own j) X (im_engines s)"
    "im_catalog s = c" "ex_index_mgr s"
    using db(1) db_less [OF db(1) j] by (simp_all add: db_holds_def)
  show ?thesis
    unfolding on_table_def
    by (rule runs_weaken [OF on_item_law [where part = ex_engines and P = "\<lambda>rs. holds_rows R rs k" and P' = "\<lambda>rs. holds_rows R rs j" and x' = rs',
        OF d(1) db(2) m table_store.less_rooms [OF _ j]]]) (use d(2-) in \<open>auto simp: db_holds_def\<close>)
qed

lemma on_index_law:
  assumes db: "db_holds R c T X k s" "X i = Some own" and m: "\<And>e. index_holds R own k e \<Longrightarrow> runs m e (\<lambda>r e'. Q r \<and> index_holds R own' j e')"
    and j: "j \<le> k"
  shows "runs (on_index i m) s (\<lambda>r s'. Q r \<and> db_holds R c T (X(i \<mapsto> own')) j s')"
proof -
  have d: "dict_holds (\<lambda>own. index_holds R own k) X (im_engines s)" "dict_holds (\<lambda>rs. holds_rows R rs j) T (ex_engines s)"
    "im_catalog s = c" "ex_index_mgr s"
    using db(1) db_less [OF db(1) j] by (simp_all add: db_holds_def)
  show ?thesis
    unfolding on_index_def
    by (rule runs_weaken [OF on_item_law [where part = im_engines and P = "\<lambda>own. index_holds R own k" and P' = "\<lambda>own. index_holds R own j" and x' = own',
        OF d(1) db(2) m index_less [OF _ j]]]) (use d(2-) in \<open>auto simp: db_holds_def\<close>)
qed

lemma read_table:
  assumes db: "db_holds R c T X k s" "T t = Some rs" and m: "\<And>e. holds_rows R rs k e \<Longrightarrow> runs m e (\<lambda>r e'. Q r \<and> holds_rows R rs k e')"
  shows "runs (on_table t m) s (\<lambda>r s'. Q r \<and> db_holds R c T X k s')"
  using on_table_law [OF db m order_refl] db(2) by (simp add: fun_upd_idem)

lemma read_index:
  assumes db: "db_holds R c T X k s" "X i = Some own" and m: "\<And>e. index_holds R own k e \<Longrightarrow> runs m e (\<lambda>r e'. Q r \<and> index_holds R own k e')"
  shows "runs (on_index i m) s (\<lambda>r s'. Q r \<and> db_holds R c T X k s')"
  using on_index_law [OF db m order_refl] db(2) by (simp add: fun_upd_idem)

lemma get_val_law: "holds_rows R rs k e \<Longrightarrow> runs (get_val (VInt key)) e (\<lambda>r e'. r = map_of rs key \<and> holds_rows R rs k e')"
  by (simp add: table_store.get_row)

lemma get_engine_law: "db_holds R c T X k s \<Longrightarrow> T t = Some rs \<Longrightarrow> runs (get_engine t) s (\<lambda>r s'. r = t \<and> s' = s)"
  unfolding db_holds_def get_engine_def by (auto simp: runs_simps elim: dict_holdsE)

lemma get_table_law: "db_holds R c T X k s \<Longrightarrow> map_of (ca_tables c) t = Some sc \<Longrightarrow> runs (on_catalog (get_table t)) s (\<lambda>r s'. r = sc \<and> s' = s)"
  by (simp add: db_holds_def on_catalog_def get_table_def dict_get_def runs_simps)

subsection \<open>Index lookups\<close>

definition apart :: "(int \<Rightarrow> int set) \<Rightarrow> bool" where
  "apart own \<longleftrightarrow> (\<forall>v w. v \<noteq> w \<longrightarrow> own v \<inter> own w = {})"

lemma owners_apart: "apart (owners ci rs)"
  by (auto simp: apart_def owners_def)

lemma entry_keys: "entry_ok (Some pks) A \<Longrightarrow> \<exists>ks. pks = map VInt ks \<and> distinct ks \<and> set ks = A"
proof -
  assume e: "entry_ok (Some pks) A"
  then have "set pks \<subseteq> range VInt" by (auto simp: entry_ok_def)
  then obtain ks where ks: "pks = map VInt ks" by (metis ex_map_conv rangeE subsetD)
  have "set ks = A" using e ks by (auto simp: entry_ok_def inj_image_eq_iff inj_def)
  then show ?thesis using e ks by (auto simp: entry_ok_def distinct_map)
qed

lemma range_entries:
  assumes "keys_sorted ix" "\<And>v. entry_ok (map_of ix v) (own v)" "apart own"
  shows "\<exists>ks. concat (map snd (range_sorted lo hi ix)) = map VInt ks \<and> distinct ks \<and> set ks = (\<Union>v \<in> {lo..hi}. own v)"
  using assms
proof (induction ix arbitrary: own)
  case Nil
  then show ?case by (auto simp: range_sorted_def entry_ok_def)
next
  case (Cons p ix)
  obtain v pks where p: "p = (v, pks)" by (cases p)
  have new: "v \<notin> fst ` set ix" using Cons.prems(1) p by auto
  let ?own = "own(v := {})"
  have own: "entry_ok (map_of ix w) (?own w)" for w
    using Cons.prems(2) [of w] new p by (cases "w = v") (auto simp: entry_ok_def map_of_eq_None_iff [symmetric] split: option.splits)
  have ap: "apart ?own" using Cons.prems(3) by (auto simp: apart_def)
  obtain ks where ks: "concat (map snd (range_sorted lo hi ix)) = map VInt ks" "distinct ks" "set ks = (\<Union>w \<in> {lo..hi}. ?own w)"
    using Cons.IH [OF _ own ap] Cons.prems(1) by auto
  have "entry_ok (Some pks) (own v)" using Cons.prems(2) [of v] p by simp
  then obtain ks1 where ks1: "pks = map VInt ks1" "distinct ks1" "set ks1 = own v" using entry_keys by blast
  show ?case
  proof (cases "lo \<le> v \<and> v \<le> hi")
    case True
    have "set (ks1 @ ks) = (\<Union>w \<in> {lo..hi}. own w)" using ks(3) ks1(3) True by (auto split: if_splits)
    moreover have "set ks1 \<inter> set ks = {}" using ks(3) ks1(3) Cons.prems(3) by (auto simp: apart_def split: if_splits) blast
    moreover have "concat (map snd (range_sorted lo hi (p # ix))) = map VInt (ks1 @ ks)"
      using ks(1) ks1(1) True p by (simp add: range_sorted_def)
    ultimately show ?thesis using ks(2) ks1(2) by (intro exI [of _ "ks1 @ ks"]) simp
  next
    case False
    have "concat (map snd (range_sorted lo hi (p # ix))) = map VInt ks" using ks(1) False p by (auto simp: range_sorted_def)
    moreover have "set ks = (\<Union>w \<in> {lo..hi}. own w)" using ks(3) False by (auto split: if_splits)
    ultimately show ?thesis using ks(2) by blast
  qed
qed

lemma if_open_law:
  assumes "db_holds R c T X k s" "X i = Some own" "runs m s Q"
  shows "runs (if_open i d m) s Q"
  using assms unfolding db_holds_def if_open_def by (auto simp: runs_simps elim!: dict_holdsE)

lemma lookup_law:
  assumes db: "db_holds R c T X k s" "X i = Some own"
  shows "runs (im_lookup i (VInt v)) s (\<lambda>r s'. (\<exists>ks. r = map VInt ks \<and> distinct ks \<and> set ks = own v) \<and> db_holds R c T X k s')"
  unfolding im_lookup_def
proof (rule if_open_law [OF db], unfold runs_bnd runs_basic,
    rule runs_weaken [OF read_index [OF db, where Q = "\<lambda>r. entry_ok r (own v)"]])
  fix e
  assume "index_holds R own k e"
  then obtain ix where ix: "R < 65536" "own_room R own" "holds_rows R ix k e" "index_of ix own" by (auto simp: index_holds_def)
  show "runs (get_val (VInt v)) e (\<lambda>r e'. entry_ok r (own v) \<and> index_holds R own k e')"
    by (rule runs_weaken [OF get_val_law [OF ix(3)]]) (use ix index_ofD(2) in \<open>auto simp: index_holds_def\<close>)
next
  fix x s'
  assume x: "entry_ok x (own v) \<and> db_holds R c T X k s'"
  then have "\<exists>ks. (case x of None \<Rightarrow> [] | Some pks \<Rightarrow> pks) = map VInt ks \<and> distinct ks \<and> set ks = own v"
    using entry_keys by (cases x) (auto simp: entry_ok_def)
  then show "(\<exists>ks. (case x of None \<Rightarrow> [] | Some pks \<Rightarrow> pks) = map VInt ks \<and> distinct ks \<and> set ks = own v) \<and> db_holds R c T X k s'"
    using x by blast
qed

lemma range_lookup_law:
  assumes db: "db_holds R c T X k s" "X i = Some own" and ap: "apart own"
  shows "runs (im_range_lookup i (VInt lo) (VInt hi)) s
    (\<lambda>r s'. (\<exists>ks. r = map VInt ks \<and> distinct ks \<and> set ks = (\<Union>v \<in> {lo..hi}. own v)) \<and> db_holds R c T X k s')"
  unfolding im_range_lookup_def
proof (rule if_open_law [OF db], unfold runs_bnd runs_basic,
    rule read_index [OF db, where Q = "\<lambda>r. \<exists>ks. concat (map snd r) = map VInt ks \<and> distinct ks \<and> set ks = (\<Union>v \<in> {lo..hi}. own v)"])
  fix e
  assume "index_holds R own k e"
  then obtain ix where ix: "R < 65536" "own_room R own" "holds_rows R ix k e" "index_of ix own" by (auto simp: index_holds_def)
  note found = range_entries [OF index_ofD(1) [OF ix(4)] index_ofD(2) [OF ix(4)] ap, of lo hi]
  show "runs (scan_val (VInt lo) (VInt hi)) e (\<lambda>r e'. (\<exists>ks. concat (map snd r) = map VInt ks \<and> distinct ks \<and>
      set ks = (\<Union>v \<in> {lo..hi}. own v)) \<and> index_holds R own k e')"
    unfolding scan_val.simps
    by (rule runs_weaken [OF table_store.scan_range [OF ix(3)]]) (use found ix in \<open>auto simp: index_holds_def\<close>)
qed

subsection \<open>Rows as dictionaries\<close>

lemma dict_of_distinct: "distinct (map fst kvs) \<Longrightarrow> dict_of kvs = kvs"
proof -
  have "distinct (map fst (acc @ kvs)) \<Longrightarrow> fold (\<lambda>(k, v). AList.update k v) kvs acc = acc @ kvs" for acc :: row
  proof (induction kvs arbitrary: acc)
    case (Cons p kvs)
    obtain k v where p: "p = (k, v)" by (cases p)
    have "map_of acc k = None" using Cons.prems p by (auto simp: map_of_eq_None_iff)
    then show ?case using Cons.IH [of "acc @ [(k, v)]"] Cons.prems p by (simp add: update_new)
  qed simp
  from this [of "[]"] show "distinct (map fst kvs) \<Longrightarrow> dict_of kvs = kvs" by (simp add: dict_of_def)
qed

definition schema_ok :: "table_schema \<Rightarrow> bool" where
  "schema_ok sc \<longleftrightarrow> table_ok sc \<and> distinct (map cs_name (ts_columns sc))"

definition row_fills :: "table_schema \<Rightarrow> int \<Rightarrow> val list \<Rightarrow> bool" where
  "row_fills sc k r \<longleftrightarrow> length r = length (ts_columns sc) \<and> r ! ts_pk_idx sc = VInt k"

lemma to_dict_zip: "schema_ok sc \<Longrightarrow> to_dict sc r = zip (map cs_name (ts_columns sc)) r"
  unfolding to_dict_def schema_ok_def
  by (rule dict_of_distinct) (simp add: map_fst_zip_take)

lemma to_dict_column:
  assumes "schema_ok sc" "row_fills sc k r" "column_at sc i name"
  shows "map_of (to_dict sc r) name = Some (r ! i)"
  using assms map_of_zip_nth [of "map cs_name (ts_columns sc)" r i]
  by (simp add: to_dict_zip schema_ok_def row_fills_def column_at_def)

lemma to_dict_pk: "schema_ok sc \<Longrightarrow> row_fills sc k r \<Longrightarrow> map_of (to_dict sc r) (ts_pk_col sc) = Some (VInt k)"
  using to_dict_column [of sc k r "ts_pk_idx sc" "ts_pk_col sc"] by (simp add: schema_ok_def table_ok_def row_fills_def)

lemma to_dict_items: "schema_ok sc \<Longrightarrow> row_fills sc k r \<Longrightarrow> map_res (item (to_dict sc r)) (map cs_name (ts_columns sc)) = Inr r"
proof -
  assume sc: "schema_ok sc" "row_fills sc k r"
  let ?ns = "map cs_name (ts_columns sc)"
  have len: "length ?ns = length r" using sc(2) by (simp add: row_fills_def)
  have "map_res (item (zip ns xs)) ns = Inr xs" if "distinct ns" "length ns = length xs" for ns :: "pystr list" and xs
  proof -
    have "map_res (item d) ns = Inr (map (\<lambda>n. the (map_of d n)) ns)" if "\<forall>n \<in> set ns. map_of d n \<noteq> None" for d ns
      using that by (induction ns) (auto simp: item_def)
    moreover have "\<forall>n \<in> set ns. map_of (zip ns xs) n \<noteq> None" using that(2) by (simp add: map_of_zip_is_None)
    moreover have "map (\<lambda>n. the (map_of (zip ns xs) n)) ns = xs"
      by (rule nth_equalityI) (use that in \<open>simp_all add: map_of_zip_nth\<close>)
    ultimately show ?thesis by simp
  qed
  then show ?thesis using sc(1) len by (simp add: to_dict_zip schema_ok_def)
qed

subsection \<open>The tables\<close>

definition col_ok :: "val \<Rightarrow> bool" where
  "col_ok x \<longleftrightarrow> x = VNull \<or> (\<exists>v. x = VInt v \<and> key_ok v)"

definition tables_ok :: "catalog \<Rightarrow> tables \<Rightarrow> bool" where
  "tables_ok c T \<longleftrightarrow> catalog_ok c \<and>
     (\<forall>t sc. map_of (ca_tables c) t = Some sc \<longrightarrow> schema_ok sc \<and>
       (\<exists>rs. T t = Some rs \<and> keys_sorted rs \<and> (\<forall>(k, r) \<in> set rs. row_fills sc k r) \<and>
         (\<forall>i \<in> set (get_indexes_for_table c t). \<forall>(k, r) \<in> set rs. col_ok (r ! is_col_idx i))))"

definition index_owners :: "catalog \<Rightarrow> tables \<Rightarrow> indexes" where
  "index_owners c T n = (case map_of (ca_indexes c) n of
     None \<Rightarrow> None | Some i \<Rightarrow> Some (case T (is_table i) of None \<Rightarrow> (\<lambda>_. {}) | Some rs \<Rightarrow> owners (is_col_idx i) rs))"

definition db_ok :: "nat \<Rightarrow> catalog \<Rightarrow> tables \<Rightarrow> nat \<Rightarrow> database \<Rightarrow> bool" where
  "db_ok R c T k s \<longleftrightarrow> tables_ok c T \<and> db_holds R c T (index_owners c T) k s"

lemma tables_okD:
  assumes "tables_ok c T" "map_of (ca_tables c) t = Some sc" "T t = Some rs"
  shows "schema_ok sc" "keys_sorted rs" "(k, r) \<in> set rs \<Longrightarrow> row_fills sc k r" "ts_name sc = t"
    "i \<in> set (get_indexes_for_table c t) \<Longrightarrow> (k, r) \<in> set rs \<Longrightarrow> col_ok (r ! is_col_idx i)"
    "i \<in> set (get_indexes_for_table c t) \<Longrightarrow> column_at sc (is_col_idx i) (is_col i) \<and> index_owners c T (is_name i) = Some (owners (is_col_idx i) rs)"
proof -
  note ok = assms(1) [unfolded tables_ok_def]
  have named: "named c" using ok by (simp add: catalog_ok_def)
  show "schema_ok sc" "keys_sorted rs" "(k, r) \<in> set rs \<Longrightarrow> row_fills sc k r"
    "i \<in> set (get_indexes_for_table c t) \<Longrightarrow> (k, r) \<in> set rs \<Longrightarrow> col_ok (r ! is_col_idx i)"
    using ok assms(2,3) by fastforce+
  show "ts_name sc = t" using named map_of_SomeD [OF assms(2)] by (auto simp: named_def)
  assume "i \<in> set (get_indexes_for_table c t)"
  then obtain n where n: "(n, i) \<in> set (ca_indexes c)" "is_table i = t" by (auto simp: get_indexes_for_table_def)
  have "map_of (ca_indexes c) n = Some i" using n(1) ok by (simp add: catalog_ok_def)
  moreover have "is_name i = n" using n(1) named by (auto simp: named_def)
  moreover have "index_ok (ca_tables c) i" using n(1) ok by (force simp: catalog_ok_def)
  ultimately show "column_at sc (is_col_idx i) (is_col i) \<and> index_owners c T (is_name i) = Some (owners (is_col_idx i) rs)"
    using n(2) assms(2,3) by (auto simp: index_ok_def index_owners_def)
qed

subsection \<open>Access paths\<close>

definition matching :: "table_schema \<Rightarrow> expr option \<Rightarrow> (int \<times> val list) list \<Rightarrow> row list res" where
  "matching sc whr rs = filter_res (eval_expr whr) (map (\<lambda>(_, r). to_dict sc r) rs)"

text \<open>What the fast paths need: integer literals for the primary key and for an indexed column.\<close>

definition keyed :: "catalog \<Rightarrow> table_schema \<Rightarrow> col_name \<Rightarrow> bool" where
  "keyed c sc col \<longleftrightarrow> col = Name (ts_pk_col sc) \<or> has_index_on c (ts_name sc) col \<noteq> None"

fun is_int :: "val \<Rightarrow> bool" where
  "is_int (VInt i) = True"
| "is_int _ = False"

fun path_ok :: "catalog \<Rightarrow> table_schema \<Rightarrow> expr option \<Rightarrow> bool" where
  "path_ok c sc (Some (EqExpr col v)) \<longleftrightarrow> (keyed c sc col \<longrightarrow> is_int v)"
| "path_ok c sc (Some (BetweenExpr col lo hi)) \<longleftrightarrow> (keyed c sc col \<longrightarrow> is_int lo \<and> is_int hi)"
| "path_ok c sc _ \<longleftrightarrow> True"

lemma fetch_pks_law:
  assumes db: "db_holds R c T X k s" "T t = Some rs"
  shows "runs (fetch_pks sc t (map VInt ks)) s (\<lambda>r s'. r = map (to_dict sc) (List.map_filter (map_of rs) ks) \<and> db_holds R c T X k s')"
  using db(1)
proof (induction ks arbitrary: s)
  case Nil
  then show ?case by (simp add: runs_def map_filter_simps)
next
  case (Cons key ks)
  show ?case
    unfolding list.map fetch_pks.simps runs_bnd runs_basic
  proof (rule runs_weaken [OF read_table [where Q = "\<lambda>r. r = map_of rs key", OF Cons.prems db(2)]], rule get_val_law, assumption, elim conjE, goal_cases)
    case (1 x s1)
    show ?case
      by (rule runs_weaken [OF Cons.IH [OF 1(2)]]) (use 1(1) in \<open>auto simp: map_filter_simps split: option.splits\<close>)
  qed
qed

lemma fetched_rows:
  assumes "keys_sorted rs" "distinct ks" "set ks = {k. \<exists>r. map_of rs k = Some r \<and> P r}"
  shows "mset (List.map_filter (map_of rs) ks) = mset (map snd (filter (\<lambda>e. P (snd e)) rs))"
proof -
  let ?es = "filter (\<lambda>e. P (snd e)) rs"
  have d: "distinct (map fst rs)" by (rule keys_sorted_distinct [OF assms(1)])
  have "set ks = set (map fst ?es)" using assms(3) d by force
  moreover have "distinct (map fst ?es)" using d by (simp add: distinct_map_filter)
  ultimately have "mset ks = mset (map fst ?es)" using set_eq_iff_mset_eq_distinct [OF assms(2)] by blast
  then have "mset (map (\<lambda>k. the (map_of rs k)) ks) = mset (map (\<lambda>k. the (map_of rs k)) (map fst ?es))"
    by (metis mset_map)
  moreover have "List.map_filter (map_of rs) ks = map (\<lambda>k. the (map_of rs k)) ks"
  proof -
    have "filter (\<lambda>k. map_of rs k \<noteq> None) ks = ks" by (rule filter_True) (use assms(3) in auto)
    then show ?thesis by (simp add: List.map_filter_def comp_def)
  qed
  moreover have "map (\<lambda>k. the (map_of rs k)) (map fst ?es) = map snd ?es" using d by (auto simp: map_of_eq_Some_iff)
  ultimately show ?thesis by (simp only:)
qed

lemma matching_pure:
  assumes "\<And>k r. (k, r) \<in> set rs \<Longrightarrow> eval_expr whr (to_dict sc r) = Inr (P k r)"
  shows "matching sc whr rs = Inr (map (\<lambda>(k, r). to_dict sc r) (filter (\<lambda>(k, r). P k r) rs))"
  using assms unfolding matching_def
proof (induction rs)
  case (Cons e rs)
  have "eval_expr whr (to_dict sc (snd e)) = Inr (P (fst e) (snd e))" by (rule Cons.prems) simp
  moreover have "filter_res (eval_expr whr) (map (\<lambda>(_, r). to_dict sc r) rs) = Inr (map (\<lambda>(k, r). to_dict sc r) (filter (\<lambda>(k, r). P k r) rs))"
    by (rule Cons.IH) (rule Cons.prems, simp)
  ultimately show ?case by (simp add: split_def)
qed simp

lemma scan_rows_of_table:
  "db_holds R c T X k s \<Longrightarrow> T t = Some rs \<Longrightarrow> runs (on_table t (engine_rows lo hi)) s (\<lambda>r s'. r = range_sorted lo hi rs \<and> db_holds R c T X k s')"
  by (rule read_table [where Q = "\<lambda>r. r = range_sorted lo hi rs"]) (auto intro: table_store.scan_range)

lemma all_in_range: "holds_rows R rs k e \<Longrightarrow> range_sorted 0 KEY_MAX rs = rs"
proof -
  assume "holds_rows R rs k e"
  then obtain t n a b where t: "stores (en_tree e) t n a b R" "rows_of (bt_es t) = rs" unfolding holds_rows_def by blast
  have "0 \<le> fst x \<and> fst x \<le> KEY_MAX" if "x \<in> set rs" for x
    using stores_keys [OF t(1), of "fst x"] that t(2) by (force simp: rows_of_def KEY_MAX_def)
  then show ?thesis unfolding range_sorted_def by (intro filter_True) blast
qed

lemma all_rows_law:
  assumes "db_holds R c T X k s" "T t = Some rs"
  shows "runs (on_table t all_rows) s (\<lambda>r s'. r = rs \<and> db_holds R c T X k s')"
proof (rule read_table [where Q = "\<lambda>r. r = rs", OF assms])
  fix e
  assume e: "holds_rows R rs k e"
  show "runs all_rows e (\<lambda>r e'. r = rs \<and> holds_rows R rs k e')"
    unfolding all_rows_def using table_store.scan_range [OF e, of 0 KEY_MAX] all_in_range [OF e] by simp
qed

lemma full_scan_law:
  assumes db: "db_holds R c T X k s" "T t = Some rs"
  shows "\<exists>s'. full_scan sc t whr s = (matching sc whr rs, s') \<and> db_holds R c T X k s'"
proof -
  obtain s' where "on_table t all_rows s = (Inr rs, s')" "db_holds R c T X k s'" using all_rows_law [OF db] unfolding runs_def by auto
  then show ?thesis by (simp add: full_scan_def bnd_def matching_def)
qed

definition same_rows :: "row list res \<Rightarrow> row list res \<Rightarrow> bool" where
  "same_rows r r' \<longleftrightarrow> map_sum id mset r = map_sum id mset r'"

lemma same_rows_simps [simp]: "same_rows r r" "same_rows (Inr xs) (Inr ys) \<longleftrightarrow> mset xs = mset ys" "same_rows (Inl e) (Inl e') \<longleftrightarrow> e = e'"
  "\<not> same_rows (Inr xs) (Inl e)" "\<not> same_rows (Inl e) (Inr xs)"
  by (simp_all add: same_rows_def)

lemma sort_rows_keys: "\<forall>x \<in> set xs. item x c = Inr (VInt (g x)) \<Longrightarrow>
    bind_res (map_res (\<lambda>r. bind_res (item r c) (\<lambda>k. Inr (k, r))) xs) sort_rows = Inr (sort_key g xs)"
proof -
  assume g: "\<forall>x \<in> set xs. item x c = Inr (VInt (g x))"
  then have m: "map_res (\<lambda>r. bind_res (item r c) (\<lambda>k. Inr (k, r))) xs = Inr (map (\<lambda>r. (VInt (g r), r)) xs)"
    by (induction xs) auto
  have sorted: "map snd (sort_key (\<lambda>(k, _). case k of VInt i \<Rightarrow> i | _ \<Rightarrow> 0) (map (\<lambda>r. (VInt (g r), r)) xs)) = sort_key g xs"
  proof -
    have ins: "insort_key (\<lambda>(k, _). case k of VInt i \<Rightarrow> i | _ \<Rightarrow> 0) (VInt (g x), x) (map (\<lambda>r. (VInt (g r), r)) ys) = map (\<lambda>r. (VInt (g r), r)) (insort_key g x ys)" for x ys
      by (induction ys) auto
    have "sort_key (\<lambda>(k, _). case k of VInt i \<Rightarrow> i | _ \<Rightarrow> 0) (map (\<lambda>r. (VInt (g r), r)) xs) = map (\<lambda>r. (VInt (g r), r)) (sort_key g xs)"
      by (induction xs) (simp_all add: ins)
    then show ?thesis by (simp add: comp_def)
  qed
  show ?thesis
  proof (cases "length xs \<le> 1")
    case True
    then have "sort_key g xs = xs" by (cases xs) auto
    then show ?thesis using True m by (simp add: sort_rows_def comp_def)
  next
    case False
    have "list_all (\<lambda>(k, _). \<exists>i. k = VInt i) (map (\<lambda>r. (VInt (g r), r)) xs)" by (simp add: list_all_iff)
    then show ?thesis using False m sorted by (simp add: sort_rows_def)
  qed
qed

subsection \<open>Conditions on one column\<close>

lemma eval_eq: "schema_ok sc \<Longrightarrow> row_fills sc k r \<Longrightarrow> column_at sc i col \<Longrightarrow> eval_expr (Some (EqExpr (Name col) v)) (to_dict sc r) = Inr (r ! i = v)"
  by (simp add: eval_expr_def row_get_def to_dict_column)

definition in_range :: "int \<Rightarrow> int \<Rightarrow> val \<Rightarrow> bool" where
  "in_range lo hi x \<longleftrightarrow> (\<exists>v \<in> {lo..hi}. x = VInt v)"

lemma eval_between:
  assumes "schema_ok sc" "row_fills sc k r" "column_at sc i col" "r ! i = VNull \<or> is_int (r ! i)"
  shows "eval_expr (Some (BetweenExpr (Name col) (VInt lo) (VInt hi))) (to_dict sc r) = Inr (in_range lo hi (r ! i))"
  using assms by (cases "r ! i") (auto simp: eval_expr_def row_get_def to_dict_column in_range_def)

lemma one_key: "keys_sorted rs \<Longrightarrow> filter (\<lambda>(k, _). k = key) rs = (case map_of rs key of None \<Rightarrow> [] | Some r \<Rightarrow> [(key, r)])"
proof (induction rs)
  case (Cons e rs)
  show ?case
  proof (cases "fst e = key")
    case True
    have "filter (\<lambda>(k, _). k = key) rs = []" using Cons.prems True by (auto simp: filter_empty_conv)
    then show ?thesis using True by (cases e) simp
  qed (use Cons in auto)
qed simp

text \<open>The rows that an index names: those whose value in its column satisfies \<open>P\<close>.\<close>

lemma indexed_rows:
  assumes sc: "schema_ok sc" "keys_sorted rs" "\<And>k r. (k, r) \<in> set rs \<Longrightarrow> row_fills sc k r"
    and ks: "distinct ks" "set ks = {k. \<exists>r. map_of rs k = Some r \<and> P (r ! ci)}"
    and ev: "\<And>k r. (k, r) \<in> set rs \<Longrightarrow> eval_expr whr (to_dict sc r) = Inr (P (r ! ci))"
  shows "\<exists>ys. matching sc whr rs = Inr ys \<and> mset (map (to_dict sc) (List.map_filter (map_of rs) ks)) = mset ys"
proof -
  have "matching sc whr rs = Inr (map (\<lambda>(k, r). to_dict sc r) (filter (\<lambda>(k, r). P (r ! ci)) rs))"
    by (rule matching_pure) (rule ev)
  moreover have "mset (List.map_filter (map_of rs) ks) = mset (map snd (filter (\<lambda>e. P (snd e ! ci)) rs))"
    by (rule fetched_rows [OF sc(2) ks])
  then have "mset (map (to_dict sc) (List.map_filter (map_of rs) ks)) = mset (map (to_dict sc) (map snd (filter (\<lambda>e. P (snd e ! ci)) rs)))"
    by (metis mset_map)
  ultimately show ?thesis by (simp add: split_def comp_def)
qed

lemma has_index_onD:
  "has_index_on c t col = Some i \<Longrightarrow> i \<in> set (get_indexes_for_table c t) \<and> col = Name (is_col i)"
  unfolding has_index_on_def by (auto simp: find_Some_iff)

lemma int_of: "is_int v \<Longrightarrow> \<exists>i. v = VInt i"
  by (cases v) auto

lemma col_ok_int: "col_ok x \<Longrightarrow> x = VNull \<or> is_int x"
  by (auto simp: col_ok_def)

lemma index_for_law: "db_holds R c T X k s \<Longrightarrow> runs (index_for t col) s (\<lambda>r s'. r = has_index_on c t col \<and> s' = s)"
  by (simp add: db_holds_def index_for_def runs_basic)

text \<open>A state and a table of it.\<close>

definition db_table :: "nat \<Rightarrow> catalog \<Rightarrow> tables \<Rightarrow> nat \<Rightarrow> pystr \<Rightarrow> table_schema \<Rightarrow> (int \<times> val list) list \<Rightarrow> database \<Rightarrow> bool" where
  "db_table R c T k t sc rs s \<longleftrightarrow> db_ok R c T k s \<and> map_of (ca_tables c) t = Some sc \<and> T t = Some rs"

lemma db_tableD:
  assumes "db_table R c T k t sc rs s"
  shows "tables_ok c T" "db_holds R c T (index_owners c T) k s" "map_of (ca_tables c) t = Some sc" "T t = Some rs"
  using assms by (simp_all add: db_table_def db_ok_def)

lemma db_table_kept: "db_table R c T k t sc rs s \<Longrightarrow> db_holds R c T (index_owners c T) k s' \<Longrightarrow> db_table R c T k t sc rs s'"
  by (simp add: db_table_def db_ok_def)

lemma table_facts:
  assumes "db_table R c T k t sc rs s"
  shows "schema_ok sc" "keys_sorted rs" "(key, r) \<in> set rs \<Longrightarrow> row_fills sc key r" "ts_name sc = t"
    "i \<in> set (get_indexes_for_table c t) \<Longrightarrow> (key, r) \<in> set rs \<Longrightarrow> col_ok (r ! is_col_idx i)"
    "i \<in> set (get_indexes_for_table c t) \<Longrightarrow> column_at sc (is_col_idx i) (is_col i)"
    "i \<in> set (get_indexes_for_table c t) \<Longrightarrow> index_owners c T (is_name i) = Some (owners (is_col_idx i) rs)"
    "column_at sc (ts_pk_idx sc) (ts_pk_col sc)"
proof -
  note facts = tables_okD [OF db_tableD(1,3,4) [OF assms]]
  show "schema_ok sc" "keys_sorted rs" "(key, r) \<in> set rs \<Longrightarrow> row_fills sc key r" "ts_name sc = t"
    "i \<in> set (get_indexes_for_table c t) \<Longrightarrow> (key, r) \<in> set rs \<Longrightarrow> col_ok (r ! is_col_idx i)"
    by (fact facts)+
  show "i \<in> set (get_indexes_for_table c t) \<Longrightarrow> column_at sc (is_col_idx i) (is_col i)"
    "i \<in> set (get_indexes_for_table c t) \<Longrightarrow> index_owners c T (is_name i) = Some (owners (is_col_idx i) rs)" using facts(6) by simp_all
  show "column_at sc (ts_pk_idx sc) (ts_pk_col sc)" using facts(1) by (simp add: schema_ok_def table_ok_def)
qed

lemma fetch_pk:
  assumes tab: "db_table R c T k t sc rs s"
  shows "runs (on_table t (get_val (VInt key))) s (\<lambda>raw s'. matching sc (Some (EqExpr (Name (ts_pk_col sc)) (VInt key))) rs =
     Inr (case raw of None \<Rightarrow> [] | Some r \<Rightarrow> [to_dict sc r]) \<and> db_table R c T k t sc rs s')"
proof -
  have "matching sc (Some (EqExpr (Name (ts_pk_col sc)) (VInt key))) rs =
      Inr (map (\<lambda>(k, r). to_dict sc r) (filter (\<lambda>(k, r). k = key) rs))"
    by (rule matching_pure) (use eval_eq [OF table_facts(1) [OF tab] table_facts(3) [OF tab] table_facts(8) [OF tab]] table_facts(3) [OF tab] in \<open>auto simp: row_fills_def\<close>)
  also have "\<dots> = Inr (case map_of rs key of None \<Rightarrow> [] | Some r \<Rightarrow> [to_dict sc r])"
    using one_key [OF table_facts(2) [OF tab], of key] by (simp split: option.splits)
  finally show ?thesis
    using read_table [where Q = "\<lambda>r. r = map_of rs key", OF db_tableD(2,4) [OF tab]] get_val_law db_table_kept [OF tab] by (force elim: runs_weaken)
qed

lemma fetch_pk_range:
  assumes tab: "db_table R c T k t sc rs s"
  shows "runs (on_table t (scan_val (VInt lo) (VInt hi))) s (\<lambda>es s'. matching sc (Some (BetweenExpr (Name (ts_pk_col sc)) (VInt lo) (VInt hi))) rs =
     Inr (map (\<lambda>(_, r). to_dict sc r) es) \<and> db_table R c T k t sc rs s')"
proof -
  have "matching sc (Some (BetweenExpr (Name (ts_pk_col sc)) (VInt lo) (VInt hi))) rs =
      Inr (map (\<lambda>(k, r). to_dict sc r) (filter (\<lambda>(k, r). lo \<le> k \<and> k \<le> hi) rs))"
    by (rule matching_pure) (use eval_between [OF table_facts(1) [OF tab] table_facts(3) [OF tab] table_facts(8) [OF tab]] table_facts(3) [OF tab] in \<open>auto simp: row_fills_def in_range_def\<close>)
  also have "\<dots> = Inr (map (\<lambda>(_, r). to_dict sc r) (range_sorted lo hi rs))" by (simp add: range_sorted_def split_def)
  finally show ?thesis
    using scan_rows_of_table [OF db_tableD(2,4) [OF tab], of lo hi] db_table_kept [OF tab] by (auto elim!: runs_weaken)
qed

lemma fetch_index:
  assumes tab: "db_table R c T k t sc rs s" and i: "has_index_on c (ts_name sc) col = Some i"
  shows "runs (bnd (im_lookup (is_name i) (VInt v)) (\<lambda>pks. fetch_pks sc t pks)) s (\<lambda>r s'.
    (\<exists>ys. matching sc (Some (EqExpr col (VInt v))) rs = Inr ys \<and> mset r = mset ys) \<and> db_table R c T k t sc rs s')"
proof -
  have ix: "i \<in> set (get_indexes_for_table c t)" "col = Name (is_col i)" using has_index_onD [OF i] table_facts(4) [OF tab] by simp_all
  note own = table_facts(6,7) [OF tab ix(1)]
  show ?thesis
    unfolding runs_bnd
  proof (rule runs_weaken [OF lookup_law [OF db_tableD(2) [OF tab] own(2)]], elim conjE exE)
    fix r s1 ks
    assume ks: "r = map VInt ks" "distinct ks" "set ks = owners (is_col_idx i) rs v" and s1: "db_holds R c T (index_owners c T) k s1"
    have "\<exists>ys. matching sc (Some (EqExpr col (VInt v))) rs = Inr ys \<and> mset (map (to_dict sc) (List.map_filter (map_of rs) ks)) = mset ys"
      by (rule indexed_rows [where P = "\<lambda>x. x = VInt v" and ci = "is_col_idx i", OF table_facts(1-3) [OF tab] ks(2)])
        (use ks(3) eval_eq [OF table_facts(1) [OF tab] table_facts(3) [OF tab] own(1)] ix(2) in \<open>auto simp: owners_def\<close>)
    then show "runs (fetch_pks sc t r) s1 (\<lambda>r s'. (\<exists>ys. matching sc (Some (EqExpr col (VInt v))) rs = Inr ys \<and> mset r = mset ys) \<and>
        db_table R c T k t sc rs s')"
      unfolding ks(1) by (intro runs_weaken [OF fetch_pks_law [OF s1 db_tableD(4) [OF tab]]]) (auto intro: db_table_kept [OF tab])
  qed
qed

lemma fetch_index_range:
  assumes tab: "db_table R c T k t sc rs s" and i: "has_index_on c (ts_name sc) col = Some i"
  shows "runs (bnd (im_range_lookup (is_name i) (VInt lo) (VInt hi)) (\<lambda>pks. bnd (fetch_pks sc t pks) (\<lambda>rows.
      lift_res (bind_res (map_res (\<lambda>r. bind_res (item r (ts_pk_col sc)) (\<lambda>k. Inr (k, r))) rows) sort_rows)))) s (\<lambda>r s'.
    (\<exists>ys. matching sc (Some (BetweenExpr col (VInt lo) (VInt hi))) rs = Inr ys \<and> mset r = mset ys) \<and> db_table R c T k t sc rs s')"
proof -
  have ix: "i \<in> set (get_indexes_for_table c t)" "col = Name (is_col i)" using has_index_onD [OF i] table_facts(4) [OF tab] by simp_all
  note own = table_facts(6,7) [OF tab ix(1)]
  show ?thesis
    unfolding runs_bnd
  proof (rule runs_weaken [OF range_lookup_law [OF db_tableD(2) [OF tab] own(2) owners_apart]], elim conjE exE)
    fix r s1 ks
    assume ks: "r = map VInt ks" "distinct ks" "set ks = (\<Union>v \<in> {lo..hi}. owners (is_col_idx i) rs v)"
      and s1: "db_holds R c T (index_owners c T) k s1"
    have "\<exists>ys. matching sc (Some (BetweenExpr col (VInt lo) (VInt hi))) rs = Inr ys \<and>
        mset (map (to_dict sc) (List.map_filter (map_of rs) ks)) = mset ys"
      by (rule indexed_rows [where P = "in_range lo hi" and ci = "is_col_idx i", OF table_facts(1-3) [OF tab] ks(2)])
        (use ks(3) eval_between [OF table_facts(1) [OF tab] table_facts(3) [OF tab] own(1)] col_ok_int [OF table_facts(5) [OF tab ix(1)]] ix(2)
          in \<open>auto simp: owners_def in_range_def\<close>)
    then obtain ys where ys: "matching sc (Some (BetweenExpr col (VInt lo) (VInt hi))) rs = Inr ys"
      "mset (map (to_dict sc) (List.map_filter (map_of rs) ks)) = mset ys" by blast
    have "\<exists>key. item (to_dict sc x) (ts_pk_col sc) = Inr (VInt key)" if x: "x \<in> set (List.map_filter (map_of rs) ks)" for x
    proof -
      obtain key where "map_of rs key = Some x" using x by (force simp: List.map_filter_def)
      then show ?thesis using to_dict_pk [OF table_facts(1,3) [OF tab]] by (auto simp: item_def dest!: map_of_SomeD)
    qed
    then have "\<forall>x \<in> set (map (to_dict sc) (List.map_filter (map_of rs) ks)). \<exists>k. item x (ts_pk_col sc) = Inr (VInt k)" by simp
    then obtain g where g: "\<forall>x \<in> set (map (to_dict sc) (List.map_filter (map_of rs) ks)). item x (ts_pk_col sc) = Inr (VInt (g x))"
      by metis
    show "runs (fetch_pks sc t r) s1 (\<lambda>x s'. runs (lift_res (bind_res (map_res (\<lambda>r. bind_res (item r (ts_pk_col sc)) (\<lambda>k. Inr (k, r))) x) sort_rows)) s'
        (\<lambda>r s'. (\<exists>ys. matching sc (Some (BetweenExpr col (VInt lo) (VInt hi))) rs = Inr ys \<and> mset r = mset ys) \<and>
        db_table R c T k t sc rs s'))"
      unfolding ks(1) by (rule runs_weaken [OF fetch_pks_law [OF s1 db_tableD(4) [OF tab]]]) (use ys sort_rows_keys [OF g] in \<open>auto simp: runs_basic intro: db_table_kept [OF tab]\<close>)
  qed
qed

lemma fetch_full:
  assumes tab: "db_table R c T k t sc rs s"
  shows "\<exists>r s'. full_scan sc t whr s = (r, s') \<and> db_table R c T k t sc rs s' \<and> same_rows r (matching sc whr rs)"
  using full_scan_law [OF db_tableD(2,4) [OF tab], of sc whr] db_table_kept [OF tab] by auto

lemma fetched:
  "runs m s (\<lambda>r s'. (\<exists>ys. matching sc whr rs = Inr ys \<and> mset r = mset ys) \<and> db_table R c T k t sc rs s') \<Longrightarrow>
    \<exists>r s'. m s = (r, s') \<and> db_table R c T k t sc rs s' \<and> same_rows r (matching sc whr rs)"
  unfolding runs_def by auto

lemma index_for_run:
  assumes tab: "db_table R c T k t sc rs s"
  shows "index_for (ts_name sc) col s = (Inr (has_index_on c (ts_name sc) col), s)"
  using index_for_law [OF db_tableD(2) [OF tab], of "ts_name sc" col] by (auto simp: runs_def)

lemma keyed_cases:
  assumes "keyed c sc col"
  obtains "col = Name (ts_pk_col sc)" | i where "col \<noteq> Name (ts_pk_col sc)" "has_index_on c (ts_name sc) col = Some i"
  using assms unfolding keyed_def by blast

lemma fetch_eq_law:
  assumes tab: "db_table R c T k t sc rs s" and path: "path_ok c sc (Some (EqExpr col v))"
  shows "\<exists>r s'. fetch_rows sc t (Some (EqExpr col v)) s = (r, s') \<and> db_table R c T k t sc rs s' \<and> same_rows r (matching sc (Some (EqExpr col v)) rs)"
proof (cases "keyed c sc col")
  case True
  then obtain key where v: "v = VInt key" using path int_of by auto
  show ?thesis
  proof (rule keyed_cases [OF True])
    assume col: "col = Name (ts_pk_col sc)"
    have run: "fetch_rows sc t (Some (EqExpr col v)) =
        bnd (on_table t (get_val v)) (\<lambda>raw. ret (case raw of None \<Rightarrow> [] | Some r \<Rightarrow> [to_dict sc r]))"
      by (simp add: fetch_rows_def col)
    show ?thesis
      unfolding run unfolding v col
      by (rule fetched, unfold runs_bnd, rule runs_weaken [OF fetch_pk [OF tab]]) (auto simp: runs_def)
  next
    fix i
    assume i: "col \<noteq> Name (ts_pk_col sc)" "has_index_on c (ts_name sc) col = Some i"
    have "fetch_rows sc t (Some (EqExpr col v)) s = bnd (im_lookup (is_name i) v) (\<lambda>pks. fetch_pks sc t pks) s"
      using index_for_run [OF tab, of col] i by (simp add: fetch_rows_def bnd_Inr)
    then show ?thesis using fetched [OF fetch_index [OF tab i(2), of key]] v by simp
  qed
next
  case False
  then have "fetch_rows sc t (Some (EqExpr col v)) s = full_scan sc t (Some (EqExpr col v)) s"
    using index_for_run [OF tab, of col] by (simp add: fetch_rows_def keyed_def bnd_Inr)
  then show ?thesis using fetch_full [OF tab] by simp
qed

lemma fetch_between_law:
  assumes tab: "db_table R c T k t sc rs s" and path: "path_ok c sc (Some (BetweenExpr col lo hi))"
  shows "\<exists>r s'. fetch_rows sc t (Some (BetweenExpr col lo hi)) s = (r, s') \<and> db_table R c T k t sc rs s' \<and>
    same_rows r (matching sc (Some (BetweenExpr col lo hi)) rs)"
proof (cases "keyed c sc col")
  case True
  then obtain l h where v: "lo = VInt l" "hi = VInt h" using path int_of by fastforce
  show ?thesis
  proof (rule keyed_cases [OF True])
    assume col: "col = Name (ts_pk_col sc)"
    have run: "fetch_rows sc t (Some (BetweenExpr col lo hi)) =
        bnd (on_table t (scan_val lo hi)) (\<lambda>rows. ret (map (\<lambda>(_, r). to_dict sc r) rows))"
      by (simp add: fetch_rows_def col)
    show ?thesis
      unfolding run unfolding v col
      by (rule fetched, unfold runs_bnd, rule runs_weaken [OF fetch_pk_range [OF tab]]) (auto simp: runs_def)
  next
    fix i
    assume i: "col \<noteq> Name (ts_pk_col sc)" "has_index_on c (ts_name sc) col = Some i"
    have "fetch_rows sc t (Some (BetweenExpr col lo hi)) s = bnd (im_range_lookup (is_name i) lo hi) (\<lambda>pks. bnd (fetch_pks sc t pks) (\<lambda>rows.
        lift_res (bind_res (map_res (\<lambda>r. bind_res (item r (ts_pk_col sc)) (\<lambda>k. Inr (k, r))) rows) sort_rows))) s"
      using index_for_run [OF tab, of col] i by (simp add: fetch_rows_def bnd_Inr)
    then show ?thesis using fetched [OF fetch_index_range [OF tab i(2), of l h]] v by simp
  qed
next
  case False
  then have "fetch_rows sc t (Some (BetweenExpr col lo hi)) s = full_scan sc t (Some (BetweenExpr col lo hi)) s"
    using index_for_run [OF tab, of col] by (simp add: fetch_rows_def keyed_def bnd_Inr)
  then show ?thesis using fetch_full [OF tab] by simp
qed

lemma fetch_law:
  assumes tab: "db_table R c T k t sc rs s" and path: "path_ok c sc whr"
  shows "\<exists>r s'. fetch_rows sc t whr s = (r, s') \<and> db_table R c T k t sc rs s' \<and> same_rows r (matching sc whr rs)"
proof (cases whr)
  case None
  then show ?thesis using fetch_full [OF tab] by (simp add: fetch_rows_def)
next
  case (Some e)
  show ?thesis
  proof (cases e)
    case (EqExpr col v)
    then show ?thesis using fetch_eq_law [OF tab] path Some by simp
  next
    case (BetweenExpr col lo hi)
    then show ?thesis using fetch_between_law [OF tab] path Some by simp
  qed (use Some fetch_full [OF tab] in \<open>simp_all add: fetch_rows_def\<close>)
qed

end
