(* ===== verification/Sql_Writes.thy ===== *)
theory Sql_Writes
  imports Sql_Laws
begin

section \<open>SELECT, and the indexes behind a write\<close>

text \<open>
  SELECT answers like the filter over the rows of its table. A statement that adds, changes or removes a row calls the index manager
  after it: \<open>on_insert_law\<close>, \<open>on_update_law\<close> and \<open>on_delete_law\<close> bring every index of the table back in step.
\<close>

subsection \<open>SELECT\<close>

lemma map_res_all: "\<forall>x \<in> set xs. \<exists>y. f x = Inr y \<Longrightarrow> map_res f xs = Inr (map (\<lambda>x. projr (f x)) xs)"
  by (induction xs) auto

lemma map_res_none: "xs \<noteq> [] \<Longrightarrow> \<forall>x \<in> set xs. f x = Inl e \<Longrightarrow> map_res f xs = Inl e"
  by (cases xs) auto

lemma map_res_perm:
  assumes m: "mset xs = mset ys" and f: "\<And>x y e. x \<in> set ys \<Longrightarrow> y \<in> set ys \<Longrightarrow> f x = Inl e \<Longrightarrow> f y = Inl e"
  shows "same_rows (map_res f xs) (map_res f ys)"
proof (cases "\<exists>x \<in> set ys. \<exists>e. f x = Inl e")
  case True
  then obtain x e where x: "x \<in> set ys" "f x = Inl e" by blast
  have s: "set xs = set ys" using m by (metis set_mset_mset)
  have err: "\<forall>y \<in> set ys. f y = Inl e" using f [OF x(1) _ x(2)] by blast
  have "map_res f xs = Inl e" by (rule map_res_none) (use x(1) s err in auto)
  moreover have "map_res f ys = Inl e" by (rule map_res_none) (use x(1) err in auto)
  ultimately show ?thesis by simp
next
  case False
  have s: "set xs = set ys" using m by (metis set_mset_mset)
  have good: "\<forall>x \<in> set ys. \<exists>y. f x = Inr y"
  proof
    fix x
    assume "x \<in> set ys"
    then show "\<exists>y. f x = Inr y" using False by (cases "f x") auto
  qed
  have "map_res f xs = Inr (map (\<lambda>x. projr (f x)) xs)" by (rule map_res_all) (use good s in simp)
  moreover have "map_res f ys = Inr (map (\<lambda>x. projr (f x)) ys)" by (rule map_res_all [OF good])
  moreover have "mset (map (\<lambda>x. projr (f x)) xs) = mset (map (\<lambda>x. projr (f x)) ys)" using m by (metis mset_map)
  ultimately show ?thesis by simp
qed

definition select_spec :: "table_schema \<Rightarrow> col_name list \<Rightarrow> expr option \<Rightarrow> (int \<times> val list) list \<Rightarrow> row list res" where
  "select_spec sc columns whr rs = bind_res (matching sc whr rs) (map_res (\<lambda>r. project r columns))"

lemma project_error:
  assumes "map fst r = map fst r'" "project r columns = Inl e"
  shows "project r' columns = Inl e"
proof -
  have none: "map_of r k = None \<longleftrightarrow> map_of r' k = None" for k
    using assms(1) by (simp add: map_of_eq_None_iff flip: set_map)
  have "map_res (\<lambda>c. bind_res (item d c) (\<lambda>v. Inr (c, v))) cs = Inr (map (\<lambda>c. (c, the (map_of d c))) cs)"
    if "filter (\<lambda>c. map_of d c = None) cs = []" for d cs
    using that by (induction cs) (auto simp: item_def split: if_splits)
  then show ?thesis
    using assms(2) none by (cases "map_res plain_key columns") (auto simp: project_def split: if_splits)
qed

lemma matching_rows:
  assumes "matching sc whr rs = Inr ys"
  shows "\<exists>es. ys = map (\<lambda>(k, r). to_dict sc r) es \<and> set es \<subseteq> set rs \<and> (distinct (map fst rs) \<longrightarrow> distinct (map fst es)) \<and>
    es = filter (\<lambda>(k, r). eval_expr whr (to_dict sc r) = Inr True) rs"
proof -
  have "ys = map (\<lambda>(k, r). to_dict sc r) (filter (\<lambda>(k, r). eval_expr whr (to_dict sc r) = Inr True) rs)"
    using assms unfolding matching_def
  proof (induction rs arbitrary: ys)
    case (Cons e rs)
    obtain b zs where b: "eval_expr whr (to_dict sc (snd e)) = Inr b" "filter_res (eval_expr whr) (map (\<lambda>(_, r). to_dict sc r) rs) = Inr zs"
      "ys = (if b then to_dict sc (snd e) # zs else zs)"
      using Cons.prems by (auto simp: bind_res_def split_def split: sum.splits)
    then show ?case using Cons.IH [OF b(2)] by (cases e) auto
  qed simp
  then show ?thesis by (intro exI [of _ "filter (\<lambda>(k, r). eval_expr whr (to_dict sc r) = Inr True) rs"]) (auto simp: distinct_map_filter)
qed

lemma select_law:
  assumes tab: "db_table R c T k t sc rs s" and path: "path_ok c sc whr"
  shows "\<exists>r s'. exec_select t columns whr s = (r, s') \<and> db_table R c T k t sc rs s' \<and> same_rows r (select_spec sc columns whr rs)"
proof -
  obtain r s' where r: "fetch_rows sc t whr s = (r, s')" "db_table R c T k t sc rs s'" "same_rows r (matching sc whr rs)"
    using fetch_law [OF tab path] by blast
  have run: "exec_select t columns whr s = (bind_res r (map_res (\<lambda>r. project r columns)), s')"
    using get_table_law [OF db_tableD(2,3) [OF tab]] get_engine_law [OF db_tableD(2,4) [OF tab]] r(1)
    by (cases r) (auto simp: exec_select_def runs_def bnd_def)
  have "same_rows (bind_res r (map_res (\<lambda>r. project r columns))) (select_spec sc columns whr rs)"
  proof (cases "matching sc whr rs")
    case (Inl e)
    then show ?thesis using r(3) by (cases r) (simp_all add: select_spec_def)
  next
    case (Inr ys)
    then obtain xs where xs: "r = Inr xs" "mset xs = mset ys" using r(3) by (cases r) auto
    obtain es where es: "ys = map (\<lambda>(k, r). to_dict sc r) es" "set es \<subseteq> set rs" using matching_rows [OF Inr] by blast
    have names: "map fst y = map cs_name (ts_columns sc)" if y: "y \<in> set ys" for y
    proof -
      obtain key row where "(key, row) \<in> set rs" "y = to_dict sc row" using y es by auto
      then show ?thesis using table_facts(1,3) [OF tab] by (auto simp: to_dict_zip row_fills_def map_fst_zip_take)
    qed
    have "same_rows (map_res (\<lambda>r. project r columns) xs) (map_res (\<lambda>r. project r columns) ys)"
      by (rule map_res_perm [OF xs(2)]) (use names project_error in metis)
    then show ?thesis by (simp add: select_spec_def Inr xs(1))
  qed
  then show ?thesis using run r(2) by blast
qed

subsection \<open>Keeping the indexes of a table in step\<close>

lemma table_put_law:
  assumes db: "db_holds R c T X (Suc k) s" "T t = Some rs" and f: "row_fits R key row"
  shows "runs (on_table t (put_val (VInt key) row)) s (\<lambda>_ s'. db_holds R c (T(t \<mapsto> ins_sorted key row rs)) X k s')"
proof (rule runs_weaken [OF on_table_law [where Q = "\<lambda>_. True" and rs' = "ins_sorted key row rs" and j = k, OF db]])
  fix e
  assume "holds_rows R rs (Suc k) e"
  from table_store.put_row [OF this f]
  show "runs (put_val (VInt key) row) e (\<lambda>r e'. True \<and> holds_rows R (ins_sorted key row rs) k e')" by simp
qed auto

lemma table_delete_law:
  assumes db: "db_holds R c T X (Suc k) s" "T t = Some rs"
  shows "runs (on_table t (delete_val (VInt key))) s (\<lambda>_ s'. db_holds R c (T(t \<mapsto> del_sorted key rs)) X k s')"
proof (rule runs_weaken [OF on_table_law [where Q = "\<lambda>_. True" and rs' = "del_sorted key rs" and j = k, OF db]])
  fix e
  assume "holds_rows R rs (Suc k) e"
  from table_store.delete_row [OF this, of key]
  show "runs (delete_val (VInt key)) e (\<lambda>r e'. True \<and> holds_rows R (del_sorted key rs) k e')" by (auto elim: runs_weaken)
qed auto

lemma step_add:
  assumes db: "db_holds R c T X (Suc k) s" "X n = Some own" and x: "col_ok x" and room: "own_room R (\<lambda>w. own w \<union> owned x key w)"
  shows "runs (if x \<noteq> VNull then im_add n x (VInt key) else ret ()) s (\<lambda>_ s'. db_holds R c T (X(n \<mapsto> \<lambda>w. own w \<union> owned x key w)) k s')"
proof (cases "x = VNull")
  case True
  then have "X(n \<mapsto> \<lambda>w. own w \<union> owned x key w) = X" using db(2) by (simp add: owned_def fun_upd_idem)
  then show ?thesis using True db_less [OF db(1), of k] by (simp add: runs_def)
next
  case False
  then obtain v where v: "x = VInt v" "key_ok v" using x by (auto simp: col_ok_def)
  have own: "own(v := insert key (own v)) = (\<lambda>w. own w \<union> owned x key w)" by (auto simp: owned_def v(1) fun_eq_iff)
  have "runs (on_index n (entry_add get_val put_val (VInt v) (VInt key))) s
      (\<lambda>r s'. True \<and> db_holds R c T (X(n \<mapsto> \<lambda>w. own w \<union> owned x key w)) k s')"
  proof (rule on_index_law [OF db])
    fix e
    assume "index_holds R own (Suc k) e"
    from index_addition [OF this _ v(2), of key] room
    show "runs (entry_add get_val put_val (VInt v) (VInt key)) e (\<lambda>r e'. True \<and> index_holds R (\<lambda>w. own w \<union> owned x key w) k e')"
      by (simp add: own)
  qed simp
  then show ?thesis using False by (simp add: im_add_def v(1))
qed

lemma step_remove:
  assumes db: "db_holds R c T X (Suc k) s" "X n = Some own" and x: "col_ok x" and own: "\<And>w. key \<in> own w \<Longrightarrow> x = VInt w"
  shows "runs (if x \<noteq> VNull then im_remove n x (VInt key) else ret ()) s (\<lambda>_ s'. db_holds R c T (X(n \<mapsto> \<lambda>w. own w - {key})) k s')"
proof (cases "x = VNull")
  case True
  then have "(\<lambda>w. own w - {key}) = own" using own by (auto simp: fun_eq_iff)
  then have "X(n \<mapsto> \<lambda>w. own w - {key}) = X" using db(2) by (simp add: fun_upd_idem)
  then show ?thesis using True db_less [OF db(1), of k] by (simp add: runs_def)
next
  case False
  then obtain v where v: "x = VInt v" "key_ok v" using x by (auto simp: col_ok_def)
  have eq: "own(v := own v - {key}) = (\<lambda>w. own w - {key})" using own v(1) by (auto simp: fun_eq_iff)
  have "runs (on_index n (entry_remove get_val put_val delete_val (VInt v) (VInt key))) s
      (\<lambda>r s'. True \<and> db_holds R c T (X(n \<mapsto> \<lambda>w. own w - {key})) k s')"
  proof (rule on_index_law [OF db])
    fix e
    assume "index_holds R own (Suc k) e"
    from index_removal [OF this v(2), of key]
    show "runs (entry_remove get_val put_val delete_val (VInt v) (VInt key)) e (\<lambda>r e'. True \<and> index_holds R (\<lambda>w. own w - {key}) k e')"
      by (simp add: eq)
  qed simp
  then show ?thesis using False by (simp add: im_remove_def v(1))
qed

text \<open>The indexes of a table are visited one after the other, with two writes at most for each.\<close>

lemma indexes_loop:
  assumes step: "\<And>i X s k. i \<in> set idxs \<Longrightarrow> X (is_name i) = Some (own i) \<Longrightarrow> db_holds R c T X (Suc (Suc k)) s \<Longrightarrow>
      runs (f i) s (\<lambda>_ s'. db_holds R c T (X(is_name i \<mapsto> own' i)) k s')"
    and db: "db_holds R c T X (2 * length idxs + k) s"
    and idxs: "distinct (map is_name idxs)" "\<And>i. i \<in> set idxs \<Longrightarrow> X (is_name i) = Some (own i)"
    and X': "\<And>i. i \<in> set idxs \<Longrightarrow> X' (is_name i) = Some (own' i)" "\<And>n. n \<notin> is_name ` set idxs \<Longrightarrow> X' n = X n"
  shows "runs (for_each f idxs) s (\<lambda>_ s'. db_holds R c T X' k s')"
  using assms
proof (induction idxs arbitrary: X s)
  case Nil
  then have "X' = X" by auto
  then show ?case using Nil(2) by (simp add: runs_def)
next
  case (Cons i idxs)
  have db: "db_holds R c T X (Suc (Suc (2 * length idxs + k))) s" using Cons.prems(2) by simp
  have d: "is_name i \<notin> is_name ` set idxs" using Cons.prems(3) by simp
  show ?case
    unfolding for_each.simps runs_bnd
  proof (rule runs_weaken [OF Cons.prems(1) [OF _ Cons.prems(4) db]])
    fix x s1
    assume s1: "db_holds R c T (X(is_name i \<mapsto> own' i)) (2 * length idxs + k) s1"
    show "runs (for_each f idxs) s1 (\<lambda>_ s'. db_holds R c T X' k s')"
    proof (rule Cons.IH [OF _ s1])
      fix j X0 s0 k0
      assume "j \<in> set idxs" "X0 (is_name j) = Some (own j)" "db_holds R c T X0 (Suc (Suc k0)) s0"
      then show "runs (f j) s0 (\<lambda>_ s'. db_holds R c T (X0(is_name j \<mapsto> own' j)) k0 s')" by (intro Cons.prems(1)) simp_all
    next
      show "distinct (map is_name idxs)" using Cons.prems(3) by simp
    next
      fix j
      assume j: "j \<in> set idxs"
      then have "is_name j \<noteq> is_name i" using d by (metis image_eqI)
      then show "(X(is_name i \<mapsto> own' i)) (is_name j) = Some (own j)" using Cons.prems(4) j by simp
      show "X' (is_name j) = Some (own' j)" using Cons.prems(5) j by simp
    next
      fix n
      assume "n \<notin> is_name ` set idxs"
      then show "X' n = (X(is_name i \<mapsto> own' i)) n" using Cons.prems(5,6) by (cases "n = is_name i") auto
    qed
  qed simp_all
qed

lemma indexes_of_table:
  assumes ok: "tables_ok c T" and tab: "map_of (ca_tables c) t = Some sc" "T t = Some rs"
  shows "distinct (map is_name (get_indexes_for_table c t))"
    "i \<in> set (get_indexes_for_table c t) \<Longrightarrow> index_owners c (T(t \<mapsto> rs')) (is_name i) = Some (owners (is_col_idx i) rs')"
    "n \<notin> is_name ` set (get_indexes_for_table c t) \<Longrightarrow> index_owners c (T(t \<mapsto> rs')) n = index_owners c T n"
proof -
  have c: "named c" "distinct (map fst (ca_indexes c))" using ok by (simp_all add: tables_ok_def catalog_ok_def)
  have names: "map is_name (map snd es) = map fst es" if "\<forall>(n, i) \<in> set es. is_name i = n" for es
    using that by (induction es) auto
  have "map is_name (map snd (ca_indexes c)) = map fst (ca_indexes c)" by (rule names) (use c(1) in \<open>simp add: named_def\<close>)
  then have "distinct (map is_name (map snd (ca_indexes c)))" using c(2) by (simp only:)
  then show "distinct (map is_name (get_indexes_for_table c t))" by (simp add: get_indexes_for_table_def distinct_map_filter)
  have at: "map_of (ca_indexes c) (is_name i) = Some i" if "i \<in> set (get_indexes_for_table c t)" for i
    using that c by (auto simp: get_indexes_for_table_def named_def)
  show "index_owners c (T(t \<mapsto> rs')) (is_name i) = Some (owners (is_col_idx i) rs')" if i: "i \<in> set (get_indexes_for_table c t)"
    using at [OF i] i by (simp add: index_owners_def get_indexes_for_table_def)
  show "index_owners c (T(t \<mapsto> rs')) n = index_owners c T n" if n: "n \<notin> is_name ` set (get_indexes_for_table c t)"
  proof (cases "map_of (ca_indexes c) n")
    case (Some i)
    have mem: "(n, i) \<in> set (ca_indexes c)" using map_of_SomeD [OF Some] .
    then have "is_name i = n" using c(1) by (auto simp: named_def)
    then have "is_table i \<noteq> t" using n mem by (force simp: get_indexes_for_table_def)
    then show ?thesis using Some by (simp add: index_owners_def)
  qed (simp add: index_owners_def)
qed

definition step_cost :: "catalog \<Rightarrow> pystr \<Rightarrow> nat" where
  "step_cost c t = Suc (2 * length (get_indexes_for_table c t))"

text \<open>One row of a table changes: the new rows, and the indexes that follow.\<close>

lemma follow_indexes:
  assumes ok: "tables_ok c T" and tab: "map_of (ca_tables c) t = Some sc" "T t = Some rs"
    and db: "db_holds R c (T(t \<mapsto> rs')) (index_owners c T) (2 * length (get_indexes_for_table c t) + k) s"
    and step: "\<And>i X s k. i \<in> set (get_indexes_for_table c t) \<Longrightarrow> X (is_name i) = Some (owners (is_col_idx i) rs) \<Longrightarrow>
      db_holds R c (T(t \<mapsto> rs')) X (Suc (Suc k)) s \<Longrightarrow>
      runs (f i) s (\<lambda>_ s'. db_holds R c (T(t \<mapsto> rs')) (X(is_name i \<mapsto> owners (is_col_idx i) rs')) k s')"
  shows "runs (for_each f (get_indexes_for_table c t)) s (\<lambda>_ s'. db_holds R c (T(t \<mapsto> rs')) (index_owners c (T(t \<mapsto> rs'))) k s')"
  by (rule indexes_loop [where own = "\<lambda>i. owners (is_col_idx i) rs" and own' = "\<lambda>i. owners (is_col_idx i) rs'" and X = "index_owners c T"])
    (use step db indexes_of_table [OF ok tab] tables_okD(6) [OF ok tab] in auto)

lemma table_indexes_law: "db_holds R c T X k s \<Longrightarrow> runs (table_indexes sc) s (\<lambda>r s'. r = get_indexes_for_table c (ts_name sc) \<and> s' = s)"
  by (simp add: db_holds_def table_indexes_def runs_basic)

lemma if_index_mgr_law: "db_holds R c T X k s \<Longrightarrow> runs m s Q \<Longrightarrow> runs (if_index_mgr m) s Q"
  by (simp add: db_holds_def if_index_mgr_def runs_simps)

definition cols_ok :: "catalog \<Rightarrow> pystr \<Rightarrow> val list \<Rightarrow> bool" where
  "cols_ok c t r \<longleftrightarrow> (\<forall>i \<in> set (get_indexes_for_table c t). col_ok (r ! is_col_idx i))"

definition rows_room :: "nat \<Rightarrow> catalog \<Rightarrow> pystr \<Rightarrow> (int \<times> val list) list \<Rightarrow> bool" where
  "rows_room R c t rs \<longleftrightarrow> (\<forall>i \<in> set (get_indexes_for_table c t). own_room R (owners (is_col_idx i) rs))"

lemma row_at_column: "row_fills sc k r \<Longrightarrow> column_at sc i col \<Longrightarrow> row_at r i = Inr (r ! i)"
  by (simp add: row_fills_def column_at_def row_at_def)

lemma row_at_pk: "schema_ok sc \<Longrightarrow> row_fills sc k r \<Longrightarrow> row_at r (ts_pk_idx sc) = Inr (VInt k)"
  using row_at_column [of sc k r "ts_pk_idx sc"] by (auto simp: schema_ok_def table_ok_def row_fills_def)

lemma on_insert_law:
  assumes tab: "db_table R c T k0 t sc rs s0" and new: "map_of rs key = None" "row_fills sc key r" "cols_ok c t r" "rows_room R c t (ins_sorted key r rs)"
    and db: "db_holds R c (T(t \<mapsto> ins_sorted key r rs)) (index_owners c T) (2 * length (get_indexes_for_table c t) + k) s"
  shows "runs (if_index_mgr (on_insert sc r)) s (\<lambda>_ s'. db_holds R c (T(t \<mapsto> ins_sorted key r rs)) (index_owners c (T(t \<mapsto> ins_sorted key r rs))) k s')"
proof (rule if_index_mgr_law [OF db])
  let ?rs = "ins_sorted key r rs"
  let ?f = "\<lambda>idx. bnd (lift_res (row_at r (is_col_idx idx))) (\<lambda>col_val. if col_val \<noteq> VNull then im_add (is_name idx) col_val (VInt key) else ret ())"
  have loop: "runs (for_each ?f (get_indexes_for_table c t)) s (\<lambda>_ s'. db_holds R c (T(t \<mapsto> ?rs)) (index_owners c (T(t \<mapsto> ?rs))) k s')"
  proof (rule follow_indexes [OF db_tableD(1,3,4) [OF tab] db])
    fix i X s k
    assume i: "i \<in> set (get_indexes_for_table c t)" "X (is_name i) = Some (owners (is_col_idx i) rs)" "db_holds R c (T(t \<mapsto> ?rs)) X (Suc (Suc k)) s"
    have own: "owners (is_col_idx i) ?rs = (\<lambda>w. owners (is_col_idx i) rs w \<union> owned (r ! is_col_idx i) key w)"
      using owners_ins [OF table_facts(2) [OF tab]] new(1) by (auto simp: fun_eq_iff owners_def)
    show "runs (?f i) s (\<lambda>_ s'. db_holds R c (T(t \<mapsto> ?rs)) (X(is_name i \<mapsto> owners (is_col_idx i) ?rs)) k s')"
      unfolding row_at_column [OF new(2) table_facts(6) [OF tab i(1)]] runs_bnd runs_basic own
      by (rule step_add [OF db_less [OF i(3)] i(2)]) (use new(3,4) i(1) in \<open>simp_all add: cols_ok_def rows_room_def own [symmetric]\<close>)
  qed
  show "runs (on_insert sc r) s (\<lambda>_ s'. db_holds R c (T(t \<mapsto> ?rs)) (index_owners c (T(t \<mapsto> ?rs))) k s')"
    unfolding on_insert_def row_at_pk [OF table_facts(1) [OF tab] new(2)] runs_bnd [of "lift_res _"] runs_basic runs_bnd [of "table_indexes _"]
    by (rule runs_weaken [OF table_indexes_law [OF db]]) (use loop table_facts(4) [OF tab] in simp)
qed

lemma on_delete_law:
  assumes tab: "db_table R c T k0 t sc rs s0" and old: "map_of rs key = Some r"
    and db: "db_holds R c (T(t \<mapsto> del_sorted key rs)) (index_owners c T) (2 * length (get_indexes_for_table c t) + k) s"
  shows "runs (on_delete sc r) s (\<lambda>_ s'. db_holds R c (T(t \<mapsto> del_sorted key rs)) (index_owners c (T(t \<mapsto> del_sorted key rs))) k s')"
proof -
  let ?rs = "del_sorted key rs"
  let ?f = "\<lambda>idx. bnd (lift_res (row_at r (is_col_idx idx))) (\<lambda>col_val. if col_val \<noteq> VNull then im_remove (is_name idx) col_val (VInt key) else ret ())"
  have r: "(key, r) \<in> set rs" "row_fills sc key r" using map_of_SomeD [OF old] table_facts(3) [OF tab] by simp_all
  have loop: "runs (for_each ?f (get_indexes_for_table c t)) s (\<lambda>_ s'. db_holds R c (T(t \<mapsto> ?rs)) (index_owners c (T(t \<mapsto> ?rs))) k s')"
  proof (rule follow_indexes [OF db_tableD(1,3,4) [OF tab] db])
    fix i X s k
    assume i: "i \<in> set (get_indexes_for_table c t)" "X (is_name i) = Some (owners (is_col_idx i) rs)" "db_holds R c (T(t \<mapsto> ?rs)) X (Suc (Suc k)) s"
    have own: "owners (is_col_idx i) ?rs = (\<lambda>w. owners (is_col_idx i) rs w - {key})" by (simp add: fun_eq_iff owners_del)
    show "runs (?f i) s (\<lambda>_ s'. db_holds R c (T(t \<mapsto> ?rs)) (X(is_name i \<mapsto> owners (is_col_idx i) ?rs)) k s')"
      unfolding row_at_column [OF r(2) table_facts(6) [OF tab i(1)]] runs_bnd runs_basic own
      by (rule step_remove [OF db_less [OF i(3)] i(2) table_facts(5) [OF tab i(1) r(1)]]) (use old in \<open>simp_all add: owners_def\<close>)
  qed
  show ?thesis
    unfolding on_delete_def row_at_pk [OF table_facts(1) [OF tab] r(2)] runs_bnd [of "lift_res _"] runs_basic runs_bnd [of "table_indexes _"]
    by (rule runs_weaken [OF table_indexes_law [OF db]]) (use loop table_facts(4) [OF tab] in simp)
qed

lemma on_update_law:
  assumes tab: "db_table R c T k0 t sc rs s0" and old: "map_of rs key = Some r" and new: "row_fills sc key r'" "cols_ok c t r'"
    "rows_room R c t (ins_sorted key r' rs)"
    and db: "db_holds R c (T(t \<mapsto> ins_sorted key r' rs)) (index_owners c T) (2 * length (get_indexes_for_table c t) + k) s"
  shows "runs (if_index_mgr (on_update sc r r')) s
    (\<lambda>_ s'. db_holds R c (T(t \<mapsto> ins_sorted key r' rs)) (index_owners c (T(t \<mapsto> ins_sorted key r' rs))) k s')"
proof (rule if_index_mgr_law [OF db])
  let ?rs = "ins_sorted key r' rs"
  let ?f = "\<lambda>idx.
       bnd (lift_res (row_at r (is_col_idx idx))) (\<lambda>old_val.
       bnd (lift_res (row_at r' (is_col_idx idx))) (\<lambda>new_val.
       if old_val \<noteq> new_val then
         bnd (if old_val \<noteq> VNull then im_remove (is_name idx) old_val (VInt key) else ret ()) (\<lambda>_.
         if new_val \<noteq> VNull then im_add (is_name idx) new_val (VInt key) else ret ())
       else ret ()))"
  have r: "(key, r) \<in> set rs" "row_fills sc key r" using map_of_SomeD [OF old] table_facts(3) [OF tab] by simp_all
  have loop: "runs (for_each ?f (get_indexes_for_table c t)) s (\<lambda>_ s'. db_holds R c (T(t \<mapsto> ?rs)) (index_owners c (T(t \<mapsto> ?rs))) k s')"
  proof (rule follow_indexes [OF db_tableD(1,3,4) [OF tab] db])
    fix i X s k
    assume i: "i \<in> set (get_indexes_for_table c t)" "X (is_name i) = Some (owners (is_col_idx i) rs)" "db_holds R c (T(t \<mapsto> ?rs)) X (Suc (Suc k)) s"
    let ?o = "r ! is_col_idx i" and ?n = "r' ! is_col_idx i" and ?own = "owners (is_col_idx i) rs"
    have own: "owners (is_col_idx i) ?rs = (\<lambda>w. (?own w - {key}) \<union> owned ?n key w)"
      using owners_ins [OF table_facts(2) [OF tab]] by (simp add: fun_eq_iff)
    have room: "own_room R (\<lambda>w. (?own w - {key}) \<union> owned ?n key w)" using new(3) i(1) by (simp add: rows_room_def own [symmetric])
    have col: "col_ok ?n" using new(2) i(1) by (simp add: cols_ok_def)
    show "runs (?f i) s (\<lambda>_ s'. db_holds R c (T(t \<mapsto> ?rs)) (X(is_name i \<mapsto> owners (is_col_idx i) ?rs)) k s')"
    proof (cases "?o = ?n")
      case True
      have "owners (is_col_idx i) ?rs = ?own" unfolding own using old True by (auto simp: owners_def owned_def fun_eq_iff)
      then have "X(is_name i \<mapsto> owners (is_col_idx i) ?rs) = X" using i(2) by (simp add: fun_upd_idem)
      then show ?thesis
        using True row_at_column [OF r(2) table_facts(6) [OF tab i(1)]] row_at_column [OF new(1) table_facts(6) [OF tab i(1)]] db_less [OF i(3), of k]
        by (simp add: runs_def bnd_def)
    next
      case False
      have "runs (bnd (if ?o \<noteq> VNull then im_remove (is_name i) ?o (VInt key) else ret ()) (\<lambda>_.
         if ?n \<noteq> VNull then im_add (is_name i) ?n (VInt key) else ret ())) s
         (\<lambda>_ s'. db_holds R c (T(t \<mapsto> ?rs)) (X(is_name i \<mapsto> owners (is_col_idx i) ?rs)) k s')"
        unfolding runs_bnd
      proof (rule runs_weaken [OF step_remove [OF i(3,2) table_facts(5) [OF tab i(1) r(1)]]])
        fix w
        assume "key \<in> ?own w"
        then show "?o = VInt w" using old by (simp add: owners_def)
      next
        fix x s1
        assume s1: "db_holds R c (T(t \<mapsto> ?rs)) (X(is_name i \<mapsto> \<lambda>w. ?own w - {key})) (Suc k) s1"
        show "runs (if ?n \<noteq> VNull then im_add (is_name i) ?n (VInt key) else ret ()) s1
           (\<lambda>_ s'. db_holds R c (T(t \<mapsto> ?rs)) (X(is_name i \<mapsto> owners (is_col_idx i) ?rs)) k s')"
          by (rule runs_weaken [OF step_add [OF s1 _ col room]]) (simp_all add: own)
      qed
      then show ?thesis
        using False row_at_column [OF r(2) table_facts(6) [OF tab i(1)]] row_at_column [OF new(1) table_facts(6) [OF tab i(1)]]
        by (simp only: runs_bnd runs_basic if_True not_False_eq_True)
    qed
  qed
  show "runs (on_update sc r r') s (\<lambda>_ s'. db_holds R c (T(t \<mapsto> ?rs)) (index_owners c (T(t \<mapsto> ?rs))) k s')"
    unfolding on_update_def row_at_pk [OF table_facts(1) [OF tab] r(2)] runs_bnd [of "lift_res _"] runs_basic runs_bnd [of "table_indexes _"]
    by (rule runs_weaken [OF table_indexes_law [OF db]]) (use loop table_facts(4) [OF tab] in simp)
qed

end
