(* ===== verification/Sql_Statements.thy ===== *)
theory Sql_Statements
  imports Sql_Writes
begin

section \<open>INSERT, and the change of one row\<close>

text \<open>
  INSERT adds one row, leaves every index in step with its table and every reference pointing to an existing row (\<open>insert_law\<close>);
  the rows that a condition hits, on any access path (\<open>fetch_hits\<close>); and the step of UPDATE for one of them (\<open>update_row_law\<close>).
\<close>

subsection \<open>Tables after a change\<close>

lemma tables_ok_update:
  assumes ok: "tables_ok c T" and tab: "map_of (ca_tables c) t = Some sc" "T t = Some rs"
    and new: "keys_sorted rs'" "\<And>key r. (key, r) \<in> set rs' \<Longrightarrow> row_fills sc key r \<and> cols_ok c t r"
  shows "tables_ok c (T(t \<mapsto> rs'))"
  unfolding tables_ok_def
proof (intro conjI allI impI)
  show "catalog_ok c" using ok by (simp add: tables_ok_def)
  fix t1 sc1
  assume t1: "map_of (ca_tables c) t1 = Some sc1"
  note at = ok [unfolded tables_ok_def, THEN conjunct2, rule_format, OF t1]
  show "schema_ok sc1" using at by simp
  show "\<exists>rs1. (T(t \<mapsto> rs')) t1 = Some rs1 \<and> keys_sorted rs1 \<and> (\<forall>(k, r) \<in> set rs1. row_fills sc1 k r) \<and>
      (\<forall>i \<in> set (get_indexes_for_table c t1). \<forall>(k, r) \<in> set rs1. col_ok (r ! is_col_idx i))"
  proof (cases "t1 = t")
    case True
    then have "sc1 = sc" using t1 tab(1) by simp
    then show ?thesis using True new by (auto simp: cols_ok_def)
  qed (use at in simp)
qed

lemma old_rows:
  assumes tab: "db_table R c T k t sc rs s" and r: "(key, r) \<in> set rs"
  shows "row_fills sc key r \<and> cols_ok c t r" "map_of rs key = Some r"
  using table_facts(3,5) [OF tab] r keys_sorted_distinct [OF table_facts(2) [OF tab]] by (auto simp: cols_ok_def)

lemma db_table_update:
  assumes tab: "db_table R c T k0 t sc rs s0" and new: "keys_sorted rs'" "\<And>key r. (key, r) \<in> set rs' \<Longrightarrow> row_fills sc key r \<and> cols_ok c t r"
    and db: "db_holds R c (T(t \<mapsto> rs')) (index_owners c (T(t \<mapsto> rs'))) k s"
  shows "db_table R c (T(t \<mapsto> rs')) k t sc rs' s"
  using tables_ok_update [OF db_tableD(1,3,4) [OF tab] new] db db_tableD(3) [OF tab] by (simp add: db_table_def db_ok_def)

lemma db_table_less: "db_table R c T k t sc rs s \<Longrightarrow> j \<le> k \<Longrightarrow> db_table R c T j t sc rs s"
  by (auto simp: db_table_def db_ok_def intro: db_less)

subsection \<open>INSERT\<close>

definition parent_known :: "tables \<Rightarrow> val list \<Rightarrow> fkey_schema \<Rightarrow> bool" where
  "parent_known T r fk \<longleftrightarrow> r ! fk_child_col_idx fk = VNull \<or>
     (\<exists>key rs. r ! fk_child_col_idx fk = VInt key \<and> T (fk_parent_table fk) = Some rs \<and> map_of rs key \<noteq> None)"

definition refs_typed :: "catalog \<Rightarrow> pystr \<Rightarrow> val list \<Rightarrow> bool" where
  "refs_typed c t r \<longleftrightarrow> (\<forall>fk \<in> set (get_fkeys_from c t). r ! fk_child_col_idx fk = VNull \<or> is_int (r ! fk_child_col_idx fk))"

definition checked :: "bool \<Rightarrow> unit res" where
  "checked b = (if b then Inr () else Inl ExecutionError)"

lemma tables_exist: "tables_ok c T \<Longrightarrow> map_of (ca_tables c) t \<noteq> None \<Longrightarrow> \<exists>rs. T t = Some rs"
  by (fastforce simp: tables_ok_def)

lemma check_parent_law:
  assumes tab: "db_table R c T k t sc rs s" and fk: "fk \<in> set (get_fkeys_from c t)" and r: "row_fills sc key r" "refs_typed c t r"
  shows "\<exists>s'. check_parent r fk s = (checked (parent_known T r fk), s') \<and> db_table R c T k t sc rs s'"
proof -
  have "fkey_ok (ca_tables c) fk" "fk_child_table fk = t"
    using db_tableD(1) [OF tab] fk by (auto simp: tables_ok_def catalog_ok_def get_fkeys_from_def)
  then have col: "column_at sc (fk_child_col_idx fk) (fk_child_col fk)" and "map_of (ca_tables c) (fk_parent_table fk) \<noteq> None"
    using db_tableD(3) [OF tab] by (auto simp: fkey_ok_def)
  then obtain prs where prs: "T (fk_parent_table fk) = Some prs" using tables_exist [OF db_tableD(1) [OF tab]] by blast
  note at = row_at_column [OF r(1) col]
  consider "r ! fk_child_col_idx fk = VNull" | key where "r ! fk_child_col_idx fk = VInt key" using r(2) fk int_of by (auto simp: refs_typed_def)
  then show ?thesis
  proof cases
    case 1
    then show ?thesis using at tab by (simp add: check_parent_def bnd_def parent_known_def checked_def)
  next
    case (2 key)
    have "runs (on_table (fk_parent_table fk) (get_val (VInt key))) s (\<lambda>x s'. x = map_of prs key \<and> db_holds R c T (index_owners c T) k s')"
      by (rule read_table [where Q = "\<lambda>x. x = map_of prs key", OF db_tableD(2) [OF tab] prs]) (rule get_val_law)
    then obtain s' where s': "on_table (fk_parent_table fk) (get_val (VInt key)) s = (Inr (map_of prs key), s')" "db_table R c T k t sc rs s'"
      using db_table_kept [OF tab] unfolding runs_def by auto
    have "get_engine (fk_parent_table fk) s = (Inr (fk_parent_table fk), s)"
      using get_engine_law [OF db_tableD(2) [OF tab] prs] by (auto simp: runs_def)
    then show ?thesis using at 2 s' prs by (auto simp: check_parent_def bnd_def parent_known_def checked_def)
  qed
qed

lemma check_parents_law:
  assumes "db_table R c T k t sc rs s" "row_fills sc key r" "refs_typed c t r" "set fks \<subseteq> set (get_fkeys_from c t)"
  shows "\<exists>s'. for_each (check_parent r) fks s = (checked (\<forall>fk \<in> set fks. parent_known T r fk), s') \<and> db_table R c T k t sc rs s'"
  using assms
proof (induction fks arbitrary: s)
  case Nil
  then show ?case by (simp add: checked_def)
next
  case (Cons fk fks)
  obtain s1 where s1: "check_parent r fk s = (checked (parent_known T r fk), s1)" "db_table R c T k t sc rs s1"
    using check_parent_law [OF Cons.prems(1) _ Cons.prems(2,3), of fk] Cons.prems(4) by auto
  show ?case
    using Cons.IH [OF s1(2) Cons.prems(2,3)] Cons.prems(4) s1 by (cases "parent_known T r fk") (auto simp: checked_def bnd_def)
qed

definition insert_rest :: "table_schema \<Rightarrow> pystr \<Rightarrow> int \<Rightarrow> val list \<Rightarrow> (database, row list) act" where
  "insert_rest sc t key r = bnd (get_engine t) (\<lambda>engine.
     bnd (on_table engine (put_val (VInt key) r)) (\<lambda>_. bnd (if_index_mgr (on_insert sc r)) (\<lambda>_. ret [])))"

lemma exec_insert_run:
  assumes tab: "db_table R c T k t sc rs s" and r: "row_fills sc key r" "refs_typed c t r"
  shows "\<exists>s1. exec_insert t r s = bnd (lift_res (checked (\<forall>fk \<in> set (get_fkeys_from c t). parent_known T r fk))) (\<lambda>_. insert_rest sc t key r) s1 \<and>
    db_table R c T k t sc rs s1"
proof -
  obtain s1 where s1: "for_each (check_parent r) (get_fkeys_from c t) s = (checked (\<forall>fk \<in> set (get_fkeys_from c t). parent_known T r fk), s1)"
    "db_table R c T k t sc rs s1"
    using check_parents_law [OF tab r] by blast
  have len: "length r = length (ts_columns sc)" using r(1) by (simp add: row_fills_def)
  have gt: "on_catalog (get_table t) s = (Inr sc, s)" using get_table_law [OF db_tableD(2,3) [OF tab]] by (auto simp: runs_def)
  have ct: "cat (\<lambda>c. get_fkeys_from c t) s = (Inr (get_fkeys_from c t), s)" using db_tableD(2) [OF tab] by (simp add: cat_def db_holds_def)
  have "exec_insert t r s = bnd (for_each (check_parent r) (get_fkeys_from c t)) (\<lambda>_. insert_rest sc t key r) s"
    unfolding exec_insert_def insert_rest_def using gt ct
    by (simp add: bnd_Inr len row_at_pk [OF table_facts(1) [OF tab] r(1)])
  then show ?thesis using s1 by (auto simp: bnd_def)
qed

lemma insert_law:
  assumes tab: "db_table R c T (step_cost c t + k) t sc rs s"
    and r: "row_fills sc key r" "cols_ok c t r" "refs_typed c t r" "row_fits R key r" and new: "map_of rs key = None"
    and room: "rows_room R c t (ins_sorted key r rs)"
  shows "\<exists>s'. exec_insert t r s = (if \<forall>fk \<in> set (get_fkeys_from c t). parent_known T r fk
      then (Inr [], s') else (Inl ExecutionError, s')) \<and>
    (if \<forall>fk \<in> set (get_fkeys_from c t). parent_known T r fk
     then db_table R c (T(t \<mapsto> ins_sorted key r rs)) k t sc (ins_sorted key r rs) s'
     else db_table R c T k t sc rs s')"
proof -
  let ?known = "\<forall>fk \<in> set (get_fkeys_from c t). parent_known T r fk" and ?rs = "ins_sorted key r rs"
  obtain s1 where run: "exec_insert t r s = bnd (lift_res (checked ?known)) (\<lambda>_. insert_rest sc t key r) s1"
    and s1: "db_table R c T (step_cost c t + k) t sc rs s1"
    using exec_insert_run [OF tab r(1,3)] by blast
  show ?thesis
  proof (cases ?known)
    case False
    then show ?thesis
      using run db_table_less [OF s1, of k] by (auto simp: checked_def bnd_def)
  next
    case True
    have rest: "runs (insert_rest sc t key r) s1 (\<lambda>x s'. x = [] \<and> db_table R c (T(t \<mapsto> ?rs)) k t sc ?rs s')"
      unfolding insert_rest_def runs_bnd
    proof (rule runs_weaken [OF get_engine_law [OF db_tableD(2,4) [OF s1]]], elim conjE, hypsubst)
      have put: "db_holds R c T (index_owners c T) (Suc (2 * length (get_indexes_for_table c t) + k)) s1"
        using db_tableD(2) [OF s1] by (simp add: step_cost_def)
      show "runs (on_table t (put_val (VInt key) r)) s1 (\<lambda>_ s'. runs (if_index_mgr (on_insert sc r)) s' (\<lambda>_ s'.
          runs (ret []) s' (\<lambda>x s'. x = [] \<and> db_table R c (T(t \<mapsto> ?rs)) k t sc ?rs s')))"
      proof (rule runs_weaken [OF table_put_law [OF put db_tableD(4) [OF tab] r(4)]])
        fix x s2
        assume s2: "db_holds R c (T(t \<mapsto> ?rs)) (index_owners c T) (2 * length (get_indexes_for_table c t) + k) s2"
        show "runs (if_index_mgr (on_insert sc r)) s2 (\<lambda>_ s'. runs (ret []) s' (\<lambda>x s'. x = [] \<and> db_table R c (T(t \<mapsto> ?rs)) k t sc ?rs s'))"
        proof (rule runs_weaken [OF on_insert_law [OF tab new r(1,2) room s2]])
          fix y s3
          assume s3: "db_holds R c (T(t \<mapsto> ?rs)) (index_owners c (T(t \<mapsto> ?rs))) k s3"
          have "db_table R c (T(t \<mapsto> ?rs)) k t sc ?rs s3"
            by (rule db_table_update [OF tab _ _ s3])
              (use table_facts(2) [OF tab] old_rows(1) [OF tab] r(1,2) set_ins_sorted [of key r rs] in auto)
          then show "runs (ret []) s3 (\<lambda>x s'. x = [] \<and> db_table R c (T(t \<mapsto> ?rs)) k t sc ?rs s')" by (simp add: runs_def)
        qed
      qed
    qed
    then show ?thesis using run True by (auto simp: checked_def bnd_def runs_def)
  qed
qed

subsection \<open>The rows a condition hits\<close>

definition hits :: "table_schema \<Rightarrow> expr option \<Rightarrow> (int \<times> val list) list \<Rightarrow> (int \<times> val list) list" where
  "hits sc whr rs = filter (\<lambda>(key, r). eval_expr whr (to_dict sc r) = Inr True) rs"

lemma mset_map_preimage: "mset ys = mset (map f xs) \<Longrightarrow> \<exists>zs. mset zs = mset xs \<and> ys = map f zs"
proof (induction ys arbitrary: xs)
  case (Cons y ys)
  have "y \<in> set (map f xs)" using Cons.prems by (metis list.set_intros(1) set_mset_mset)
  then obtain x where x: "x \<in> set xs" "y = f x" by auto
  have m: "mset xs = add_mset x (mset (remove1 x xs))" using x(1) by simp
  have "mset (y # ys) = image_mset f (add_mset x (mset (remove1 x xs)))" using Cons.prems unfolding m [symmetric] by (simp only: mset_map)
  then have "mset ys = mset (map f (remove1 x xs))" by (simp only: mset.simps image_mset_add_mset x(2) add_mset_add_mset_same_iff mset_map)
  from Cons.IH [OF this] obtain zs where zs: "mset zs = mset (remove1 x xs)" "ys = map f zs" by blast
  have "mset (x # zs) = mset xs" unfolding m by (simp only: mset.simps zs(1))
  then show ?case using x(2) zs(2) by (intro exI [of _ "x # zs"]) simp
qed simp

lemma fetch_hits:
  assumes tab: "db_table R c T k t sc rs s" and path: "path_ok c sc whr" and typed: "matching sc whr rs = Inr ys"
  shows "\<exists>L s'. fetch_rows sc t whr s = (Inr (map (\<lambda>(_, r). to_dict sc r) L), s') \<and> db_table R c T k t sc rs s' \<and> mset L = mset (hits sc whr rs)"
proof -
  obtain r s' where r: "fetch_rows sc t whr s = (r, s')" "db_table R c T k t sc rs s'" "same_rows r (Inr ys)"
    using fetch_law [OF tab path] unfolding typed by blast
  obtain xs where xs: "r = Inr xs" "mset xs = mset ys" using r(3) by (cases r) auto
  have "ys = map (\<lambda>(_, r). to_dict sc r) (hits sc whr rs)" using matching_rows [OF typed] by (auto simp: hits_def)
  then show ?thesis using mset_map_preimage [of xs "\<lambda>(_, r). to_dict sc r" "hits sc whr rs"] xs r(1,2) by auto
qed

lemma hits_facts:
  assumes tab: "db_table R c T k t sc rs s" and L: "mset L = mset (hits sc whr rs)"
  shows "distinct (map fst L)" "(key, r) \<in> set L \<Longrightarrow> map_of rs key = Some r" "length L = length (hits sc whr rs)"
proof -
  have set: "set L = set (hits sc whr rs)" using L by (metis set_mset_mset)
  have d: "distinct (map fst rs)" by (rule keys_sorted_distinct [OF table_facts(2) [OF tab]])
  then have "distinct (map fst (hits sc whr rs))" unfolding hits_def by (rule distinct_map_filter)
  then show "distinct (map fst L)" using L by (metis mset_eq_imp_distinct_iff mset_map)
  show "(key, r) \<in> set L \<Longrightarrow> map_of rs key = Some r" using set d by (simp add: hits_def)
  show "length L = length (hits sc whr rs)" using L by (metis size_mset)
qed

subsection \<open>UPDATE\<close>

definition set_cols :: "table_schema \<Rightarrow> (pystr \<times> val) list \<Rightarrow> val list \<Rightarrow> val list" where
  "set_cols sc asgs r = map (\<lambda>(col, x). case map_of asgs col of None \<Rightarrow> x | Some v \<Rightarrow> v) (zip (map cs_name (ts_columns sc)) r)"

definition assigns_ok :: "table_schema \<Rightarrow> (pystr \<times> val) list \<Rightarrow> bool" where
  "assigns_ok sc asgs \<longleftrightarrow> distinct (map fst asgs) \<and> (\<forall>(col, v) \<in> set asgs. col \<in> set (map cs_name (ts_columns sc)) \<and> col \<noteq> ts_pk_col sc)"

lemma first_index_eq: "x \<in> set xs \<Longrightarrow> \<exists>i. first_index (\<lambda>y. y = x) xs = Inr i \<and> i < length xs \<and> xs ! i = x"
proof (induction xs)
  case (Cons y ys)
  then show ?case by (cases "y = x") auto
qed simp

lemma assign_all_law:
  assumes "distinct names" "length r = length names" "distinct (map fst asgs)" "fst ` set asgs \<subseteq> set names"
  shows "assign_all names asgs r = Inr (map (\<lambda>(col, x). case map_of asgs col of None \<Rightarrow> x | Some v \<Rightarrow> v) (zip names r))"
  using assms(2-)
proof (induction asgs arbitrary: r)
  case Nil
  have "map (\<lambda>(col, x). x) (zip names r) = r" using Nil(1) by (simp add: case_prod_unfold)
  then show ?case by simp
next
  case (Cons p asgs)
  obtain col v where p: "p = (col, v)" by (cases p)
  obtain i where i: "first_index (\<lambda>y. y = col) names = Inr i" "i < length names" "names ! i = col"
    using first_index_eq [of col names] Cons.prems(3) p by auto
  have new: "map_of asgs col = None" using Cons.prems(2) p by (simp add: map_of_eq_None_iff)
  have "map (\<lambda>(col, x). case map_of asgs col of None \<Rightarrow> x | Some v \<Rightarrow> v) (zip names (r[i := v])) =
      map (\<lambda>(col, x). case map_of (p # asgs) col of None \<Rightarrow> x | Some v \<Rightarrow> v) (zip names r)"
  proof (rule nth_equalityI)
    fix j
    assume j: "j < length (map (\<lambda>(col, x). case map_of asgs col of None \<Rightarrow> x | Some v \<Rightarrow> v) (zip names (r[i := v])))"
    then have "names ! j = col \<longleftrightarrow> j = i" using i assms(1) Cons.prems(1) by (auto simp: nth_eq_iff_index_eq)
    then show "map (\<lambda>(col, x). case map_of asgs col of None \<Rightarrow> x | Some v \<Rightarrow> v) (zip names (r[i := v])) ! j =
      map (\<lambda>(col, x). case map_of (p # asgs) col of None \<Rightarrow> x | Some v \<Rightarrow> v) (zip names r) ! j"
      using j i Cons.prems(1) new by (auto simp: p nth_list_update)
  qed (simp add: Cons.prems(1))
  then show ?case using Cons.IH [of "r[i := v]"] Cons.prems i(1) p by simp
qed

lemma set_cols_law:
  assumes "schema_ok sc" "row_fills sc key r" "assigns_ok sc asgs"
  shows "assign_all (map cs_name (ts_columns sc)) asgs r = Inr (set_cols sc asgs r)" "row_fills sc key (set_cols sc asgs r)"
proof -
  show "assign_all (map cs_name (ts_columns sc)) asgs r = Inr (set_cols sc asgs r)"
    unfolding set_cols_def by (rule assign_all_law) (use assms in \<open>auto simp: schema_ok_def row_fills_def assigns_ok_def\<close>)
  have pk: "ts_pk_idx sc < length (ts_columns sc)" "cs_name (ts_columns sc ! ts_pk_idx sc) = ts_pk_col sc"
    using assms(1) by (simp_all add: schema_ok_def table_ok_def column_at_def)
  have "map_of asgs (ts_pk_col sc) = None" using assms(3) by (auto simp: assigns_ok_def map_of_eq_None_iff)
  then show "row_fills sc key (set_cols sc asgs r)" using assms(2) pk by (simp add: row_fills_def set_cols_def)
qed

lemma update_row_law:
  assumes tab: "db_table R c T (step_cost c t + k) t sc rs s" and old: "map_of rs key = Some r" and asgs: "assigns_ok sc asgs"
    and new: "row_fits R key (set_cols sc asgs r)" "cols_ok c t (set_cols sc asgs r)" "rows_room R c t (ins_sorted key (set_cols sc asgs r) rs)"
  shows "runs (update_row sc t asgs (to_dict sc r)) s (\<lambda>_ s'. db_table R c (T(t \<mapsto> ins_sorted key (set_cols sc asgs r) rs)) k t sc
    (ins_sorted key (set_cols sc asgs r) rs) s')"
proof -
  let ?r = "set_cols sc asgs r" let ?rs = "ins_sorted key ?r rs"
  have r: "(key, r) \<in> set rs" "row_fills sc key r" using map_of_SomeD [OF old] table_facts(3) [OF tab] by simp_all
  note sc = table_facts(1) [OF tab]
  have pk: "item (to_dict sc r) (ts_pk_col sc) = Inr (VInt key)" using to_dict_pk [OF sc r(2)] by (simp add: item_def)
  have put: "db_holds R c T (index_owners c T) (Suc (2 * length (get_indexes_for_table c t) + k)) s"
    using db_tableD(2) [OF tab] by (simp add: step_cost_def)
  show ?thesis
    unfolding update_row_def Let_def to_dict_items [OF sc r(2)] set_cols_law(1) [OF sc r(2) asgs] pk runs_bnd runs_basic
  proof (rule runs_weaken [OF table_put_law [OF put db_tableD(4) [OF tab] new(1)]])
    fix x s2
    assume s2: "db_holds R c (T(t \<mapsto> ?rs)) (index_owners c T) (2 * length (get_indexes_for_table c t) + k) s2"
    show "runs (if_index_mgr (on_update sc r ?r)) s2 (\<lambda>_ s'. db_table R c (T(t \<mapsto> ?rs)) k t sc ?rs s')"
      by (rule runs_weaken [OF on_update_law [OF tab old set_cols_law(2) [OF sc r(2) asgs] new(2,3) s2]], rule db_table_update [OF tab])
        (use table_facts(2) [OF tab] old_rows(1) [OF tab] set_cols_law(2) [OF sc r(2) asgs] new(2) set_ins_sorted [of key ?r rs] in auto)
  qed
qed

end
