(* ===== verification/Sql_Dml.thy ===== *)
theory Sql_Dml
  imports Sql_Statements
begin

section \<open>UPDATE and DELETE\<close>

text \<open>
  Both statements fetch the rows that satisfy the condition and change them one after the other. The order is that of the access path; the
  rows left do not depend on it.
\<close>

subsection \<open>UPDATE\<close>

definition upd :: "table_schema \<Rightarrow> (pystr \<times> val) list \<Rightarrow> int \<times> val list \<Rightarrow> (int \<times> val list) list \<Rightarrow> (int \<times> val list) list" where
  "upd sc asgs e rs = ins_sorted (fst e) (set_cols sc asgs (snd e)) rs"

definition updated :: "table_schema \<Rightarrow> (pystr \<times> val) list \<Rightarrow> expr option \<Rightarrow> (int \<times> val list) list \<Rightarrow> (int \<times> val list) list" where
  "updated sc asgs whr rs = map (\<lambda>(key, r). (key, if eval_expr whr (to_dict sc r) = Inr True then set_cols sc asgs r else r)) rs"

definition new_rows_ok :: "nat \<Rightarrow> catalog \<Rightarrow> pystr \<Rightarrow> table_schema \<Rightarrow> (pystr \<times> val) list \<Rightarrow> (int \<times> val list) list \<Rightarrow> bool" where
  "new_rows_ok R c t sc asgs L \<longleftrightarrow> (\<forall>(key, r) \<in> set L. row_fits R key (set_cols sc asgs r) \<and> cols_ok c t (set_cols sc asgs r))"

lemma fold_upd:
  assumes "keys_sorted rs" "distinct (map fst L)"
  shows "keys_sorted (fold (upd sc asgs) L rs)"
    "map_of (fold (upd sc asgs) L rs) key = (case map_of L key of None \<Rightarrow> map_of rs key | Some r \<Rightarrow> Some (set_cols sc asgs r))"
proof -
  have "keys_sorted (fold (upd sc asgs) L rs) \<and>
    map_of (fold (upd sc asgs) L rs) key = (case map_of L key of None \<Rightarrow> map_of rs key | Some r \<Rightarrow> Some (set_cols sc asgs r))"
    using assms
  proof (induction L arbitrary: rs)
    case (Cons e L)
    have "map_of L (fst e) = None" using Cons.prems(2) by (simp add: map_of_eq_None_iff)
    then show ?case using Cons.IH [of "upd sc asgs e rs"] Cons.prems by (cases e) (auto simp: upd_def split: option.splits)
  qed simp
  then show "keys_sorted (fold (upd sc asgs) L rs)"
    "map_of (fold (upd sc asgs) L rs) key = (case map_of L key of None \<Rightarrow> map_of rs key | Some r \<Rightarrow> Some (set_cols sc asgs r))" by simp_all
qed

lemma update_rows_law:
  assumes "db_table R c T (length L * step_cost c t + k) t sc rs s" "distinct (map fst L)"
    and "\<And>key r. (key, r) \<in> set L \<Longrightarrow> map_of rs key = Some r" "new_rows_ok R c t sc asgs L" "assigns_ok sc asgs"
    and "\<And>n. rows_room R c t (fold (upd sc asgs) (take n L) rs)"
  shows "runs (for_each (update_row sc t asgs) (map (\<lambda>(_, r). to_dict sc r) L)) s
    (\<lambda>_ s'. db_table R c (T(t \<mapsto> fold (upd sc asgs) L rs)) k t sc (fold (upd sc asgs) L rs) s')"
  using assms
proof (induction L arbitrary: T rs s)
  case Nil
  then have "T(t \<mapsto> rs) = T" using db_tableD(4) [OF Nil(1)] by (simp add: fun_upd_idem)
  then show ?case using Nil(1) by (simp add: runs_def)
next
  case (Cons e L)
  obtain key r where e: "e = (key, r)" by (cases e)
  let ?rs = "upd sc asgs e rs"
  have tab: "db_table R c T (step_cost c t + (length L * step_cost c t + k)) t sc rs s" using Cons.prems(1) by (simp add: add.assoc)
  have old: "map_of rs key = Some r" using Cons.prems(3) e by simp
  have room: "rows_room R c t ?rs" using Cons.prems(6) [of 1] by simp
  have new: "row_fits R key (set_cols sc asgs r)" "cols_ok c t (set_cols sc asgs r)" using Cons.prems(4) e by (simp_all add: new_rows_ok_def)
  have rs: "?rs = ins_sorted key (set_cols sc asgs r) rs" by (simp add: upd_def e)
  have sorted: "keys_sorted rs" by (rule table_facts(2) [OF tab])
  show ?case
    unfolding list.map for_each.simps runs_bnd e prod.case
  proof (rule runs_weaken [OF update_row_law [OF tab old Cons.prems(5) new]])
    show "rows_room R c t (ins_sorted key (set_cols sc asgs r) rs)" using room by (simp only: rs)
  next
    fix x s1
    assume "db_table R c (T(t \<mapsto> ins_sorted key (set_cols sc asgs r) rs)) (length L * step_cost c t + k) t sc (ins_sorted key (set_cols sc asgs r) rs) s1"
    then have s1: "db_table R c (T(t \<mapsto> ?rs)) (length L * step_cost c t + k) t sc ?rs s1" by (simp only: rs)
    have kept: "map_of ?rs key' = Some r'" if "(key', r') \<in> set L" for key' r'
    proof -
      have "key' \<noteq> key" using Cons.prems(2) that e by (auto simp: image_iff)
      then show ?thesis using Cons.prems(3) [of key' r'] that sorted by (simp add: rs)
    qed
    have rooms: "rows_room R c t (fold (upd sc asgs) (take n L) ?rs)" for n using Cons.prems(6) [of "Suc n"] by simp
    have "runs (for_each (update_row sc t asgs) (map (\<lambda>(_, r). to_dict sc r) L)) s1
        (\<lambda>_ s'. db_table R c ((T(t \<mapsto> ?rs))(t \<mapsto> fold (upd sc asgs) L ?rs)) k t sc (fold (upd sc asgs) L ?rs) s')"
      by (rule Cons.IH [OF s1 _ kept _ Cons.prems(5) rooms]) (use Cons.prems(2,4) in \<open>auto simp: new_rows_ok_def\<close>)
    then show "runs (for_each (update_row sc t asgs) (map (\<lambda>(_, r). to_dict sc r) L)) s1
        (\<lambda>_ s'. db_table R c (T(t \<mapsto> fold (upd sc asgs) ((key, r) # L) rs)) k t sc (fold (upd sc asgs) ((key, r) # L) rs) s')"
      by (simp add: e)
  qed
qed

lemma map_of_updated: "map_of (updated sc asgs whr rs) key =
    (case map_of rs key of None \<Rightarrow> None | Some r \<Rightarrow> Some (if eval_expr whr (to_dict sc r) = Inr True then set_cols sc asgs r else r))"
  by (induction rs) (auto simp: updated_def)

lemma keys_updated: "map fst (updated sc asgs whr rs) = map fst rs"
  by (simp add: updated_def split_def comp_def)

lemma map_of_hits: "keys_sorted rs \<Longrightarrow> mset L = mset (hits sc whr rs) \<Longrightarrow>
    map_of L key = (case map_of rs key of None \<Rightarrow> None | Some r \<Rightarrow> if eval_expr whr (to_dict sc r) = Inr True then Some r else None)"
proof -
  assume a: "keys_sorted rs" "mset L = mset (hits sc whr rs)"
  have d: "distinct (map fst rs)" by (rule keys_sorted_distinct [OF a(1)])
  have "distinct (map fst (hits sc whr rs))" unfolding hits_def by (rule distinct_map_filter [OF d])
  then have dl: "distinct (map fst L)" using a(2) by (metis mset_eq_imp_distinct_iff mset_map)
  have L: "map_of L key = Some r \<longleftrightarrow> map_of rs key = Some r \<and> eval_expr whr (to_dict sc r) = Inr True" for r
  proof -
    have "map_of L key = Some r \<longleftrightarrow> (key, r) \<in> set (hits sc whr rs)" using dl mset_eq_setD [OF a(2)] by simp
    also have "\<dots> \<longleftrightarrow> map_of rs key = Some r \<and> eval_expr whr (to_dict sc r) = Inr True" using d by (simp add: hits_def)
    finally show ?thesis .
  qed
  show ?thesis
  proof (cases "map_of rs key")
    case None
    then have "map_of L key \<noteq> Some r" for r using L [of r] by simp
    then show ?thesis using None by (cases "map_of L key") auto
  next
    case (Some r)
    show ?thesis
    proof (cases "eval_expr whr (to_dict sc r) = Inr True")
      case True
      then show ?thesis using L [of r] Some by simp
    next
      case False
      then have "map_of L key \<noteq> Some x" for x using L [of x] Some by auto
      then show ?thesis using Some False by (cases "map_of L key") auto
    qed
  qed
qed

lemma own_room_mono: "own_room R big \<Longrightarrow> (\<And>v. own v \<subseteq> big v) \<Longrightarrow> own_room R own"
  unfolding own_room_def by (meson add_left_mono card_mono finite_subset mult_le_mono2 order_trans)

lemma update_law:
  assumes tab: "db_table R c T (length (hits sc whr rs) * step_cost c t + k) t sc rs s"
    and path: "path_ok c sc whr" and typed: "matching sc whr rs = Inr ys" and asgs: "assigns_ok sc asgs"
    and new: "new_rows_ok R c t sc asgs (hits sc whr rs)"
    and room: "\<And>i. i \<in> set (get_indexes_for_table c t) \<Longrightarrow> own_room R (\<lambda>v. owners (is_col_idx i) rs v \<union> owners (is_col_idx i) (updated sc asgs whr rs) v)"
  shows "runs (exec_update t asgs whr) s (\<lambda>r s'. r = [] \<and> db_table R c (T(t \<mapsto> updated sc asgs whr rs)) k t sc (updated sc asgs whr rs) s')"
proof -
  obtain L s1 where L: "fetch_rows sc t whr s = (Inr (map (\<lambda>(_, r). to_dict sc r) L), s1)" "mset L = mset (hits sc whr rs)"
    and s1: "db_table R c T (length (hits sc whr rs) * step_cost c t + k) t sc rs s1"
    using fetch_hits [OF tab path typed] by blast
  note facts = hits_facts [OF tab L(2)]
  note sorted = table_facts(2) [OF tab]
  have final: "fold (upd sc asgs) L rs = updated sc asgs whr rs"
  proof (rule keys_sorted_unique)
    show "keys_sorted (fold (upd sc asgs) L rs)" by (rule fold_upd(1) [OF sorted facts(1)])
    show "keys_sorted (updated sc asgs whr rs)" using sorted by (simp add: keys_sorted_def keys_updated)
    show "map_of (fold (upd sc asgs) L rs) = map_of (updated sc asgs whr rs)"
      by (rule ext) (simp add: fold_upd(2) [OF sorted facts(1)] map_of_hits [OF sorted L(2)] map_of_updated split: option.splits)
  qed
  have rooms: "rows_room R c t (fold (upd sc asgs) (take n L) rs)" for n
    unfolding rows_room_def
  proof
    fix i
    assume i: "i \<in> set (get_indexes_for_table c t)"
    have d: "distinct (map fst (take n L))" using facts(1) by (simp add: distinct_take take_map [symmetric])
    have "map_of (fold (upd sc asgs) (take n L) rs) key = map_of rs key \<or> map_of (fold (upd sc asgs) (take n L) rs) key = map_of (updated sc asgs whr rs) key" for key
    proof (cases "map_of (take n L) key")
      case (Some r)
      then have "(key, r) \<in> set L" using map_of_SomeD in_set_takeD by fastforce
      then have "map_of L key = Some r" using facts(1) by simp
      then show ?thesis using Some by (simp add: fold_upd(2) [OF sorted d] fold_upd(2) [OF sorted facts(1)] flip: final)
    qed (simp add: fold_upd(2) [OF sorted d])
    then have "owners (is_col_idx i) (fold (upd sc asgs) (take n L) rs) v \<subseteq> owners (is_col_idx i) rs v \<union> owners (is_col_idx i) (updated sc asgs whr rs) v" for v
      unfolding owners_def by (smt (verit) Un_iff mem_Collect_eq subsetI)
    then show "own_room R (owners (is_col_idx i) (fold (upd sc asgs) (take n L) rs))" by (rule own_room_mono [OF room [OF i]])
  qed
  have newL: "new_rows_ok R c t sc asgs L" using new mset_eq_setD [OF L(2)] by (simp add: new_rows_ok_def)
  have s1': "db_table R c T (length L * step_cost c t + k) t sc rs s1" using s1 facts(3) by simp
  have loop: "runs (for_each (update_row sc t asgs) (map (\<lambda>(_, r). to_dict sc r) L)) s1
      (\<lambda>_ s'. db_table R c (T(t \<mapsto> updated sc asgs whr rs)) k t sc (updated sc asgs whr rs) s')"
    using update_rows_law [OF s1' facts(1,2) newL asgs rooms] by (simp only: final)
  have ok: "\<not> (\<exists>(col, v) \<in> set asgs. col \<notin> set (map cs_name (ts_columns sc)) \<or> col = ts_pk_col sc)" using asgs by (auto simp: assigns_ok_def)
  have gt: "on_catalog (get_table t) s = (Inr sc, s)" using get_table_law [OF db_tableD(2,3) [OF tab]] by (auto simp: runs_def)
  have ge: "get_engine t s = (Inr t, s)" using get_engine_law [OF db_tableD(2,4) [OF tab]] by (auto simp: runs_def)
  have run: "exec_update t asgs whr s = bnd (for_each (update_row sc t asgs) (map (\<lambda>(_, r). to_dict sc r) L)) (\<lambda>_. ret []) s1"
    unfolding exec_update_def using gt ge L(1) ok by (simp add: bnd_Inr if_not_P)
  show ?thesis using loop unfolding runs_def run by (auto simp: bnd_def)
qed

subsection \<open>DELETE\<close>

definition referenced :: "tables \<Rightarrow> fkey_schema \<Rightarrow> int \<Rightarrow> bool" where
  "referenced T fk key \<longleftrightarrow> (\<exists>rs. T (fk_child_table fk) = Some rs \<and> (\<exists>(_, r) \<in> set rs. r ! fk_child_col_idx fk = VInt key))"

definition held :: "catalog \<Rightarrow> tables \<Rightarrow> pystr \<Rightarrow> int \<Rightarrow> bool" where
  "held c T t key \<longleftrightarrow> (\<exists>fk \<in> set (get_fkeys_to c t). referenced T fk key)"

lemma check_child_law:
  assumes tab: "db_table R c T k t sc rs s" and fk: "fk \<in> set (ca_fkeys c)"
  shows "\<exists>s'. check_child (VInt key) fk s = (checked (\<not> referenced T fk key), s') \<and> db_table R c T k t sc rs s'"
proof -
  let ?ct = "fk_child_table fk" and ?whr = "Some (EqExpr (Name (fk_child_col fk)) (VInt key))"
  have "fkey_ok (ca_tables c) fk" using db_tableD(1) [OF tab] fk by (simp add: tables_ok_def catalog_ok_def)
  then obtain csc where csc: "map_of (ca_tables c) ?ct = Some csc" "column_at csc (fk_child_col_idx fk) (fk_child_col fk)" by (auto simp: fkey_ok_def)
  then obtain crs where crs: "T ?ct = Some crs" using tables_exist [OF db_tableD(1) [OF tab]] by blast
  have child: "db_table R c T k ?ct csc crs s" using tab csc(1) crs by (simp add: db_table_def)
  have m: "matching csc ?whr crs = Inr (map (\<lambda>(_, r). to_dict csc r) (filter (\<lambda>(_, r). r ! fk_child_col_idx fk = VInt key) crs))"
    by (rule matching_pure) (rule eval_eq [OF table_facts(1) [OF child] table_facts(3) [OF child] csc(2)])
  obtain r s' where r: "fetch_rows csc ?ct ?whr s = (r, s')" "db_table R c T k ?ct csc crs s'" "same_rows r (matching csc ?whr crs)"
    using fetch_law [OF child, of ?whr] by auto
  obtain xs where xs: "r = Inr xs" "xs = [] \<longleftrightarrow> \<not> referenced T fk key"
  proof -
    obtain xs where x: "r = Inr xs" "mset xs = mset (map (\<lambda>(_, r). to_dict csc r) (filter (\<lambda>(_, r). r ! fk_child_col_idx fk = VInt key) crs))"
      using r(3) unfolding m by (cases r) auto
    have "xs = [] \<longleftrightarrow> filter (\<lambda>(_, r). r ! fk_child_col_idx fk = VInt key) crs = []" using x(2) by (metis list.map_disc_iff mset_zero_iff)
    also have "\<dots> \<longleftrightarrow> \<not> referenced T fk key" using crs by (auto simp: referenced_def filter_empty_conv)
    finally show thesis using that x(1) by blast
  qed
  have ge: "get_engine ?ct s = (Inr ?ct, s)" using get_engine_law [OF db_tableD(2,4) [OF child]] by (auto simp: runs_def)
  have gt: "on_catalog (get_table ?ct) s = (Inr csc, s)" using get_table_law [OF db_tableD(2,3) [OF child]] by (auto simp: runs_def)
  have "check_child (VInt key) fk s = (checked (\<not> referenced T fk key), s')"
    unfolding check_child_def using ge gt r(1) xs by (simp add: bnd_Inr checked_def)
  moreover have "db_table R c T k t sc rs s'" using r(2) tab by (simp add: db_table_def)
  ultimately show ?thesis by blast
qed

lemma check_children_law:
  assumes "db_table R c T k t sc rs s" "set fks \<subseteq> set (ca_fkeys c)"
  shows "\<exists>s'. for_each (check_child (VInt key)) fks s = (checked (\<forall>fk \<in> set fks. \<not> referenced T fk key), s') \<and> db_table R c T k t sc rs s'"
  using assms
proof (induction fks arbitrary: s)
  case Nil
  then show ?case by (simp add: checked_def)
next
  case (Cons fk fks)
  obtain s1 where s1: "check_child (VInt key) fk s = (checked (\<not> referenced T fk key), s1)" "db_table R c T k t sc rs s1"
    using check_child_law [OF Cons.prems(1), of fk] Cons.prems(2) by auto
  show ?case
    using Cons.IH [OF s1(2)] Cons.prems(2) s1 by (cases "referenced T fk key") (auto simp: checked_def bnd_def)
qed

lemma delete_row_law:
  assumes tab: "db_table R c T (step_cost c t + k) t sc rs s" and old: "map_of rs key = Some r"
  shows "\<exists>s'. delete_row t sc t (to_dict sc r) s = (checked (\<not> held c T t key), s') \<and>
    (if held c T t key then db_table R c T k t sc rs s' else db_table R c (T(t \<mapsto> del_sorted key rs)) k t sc (del_sorted key rs) s')"
proof -
  let ?rs = "del_sorted key rs"
  have r: "(key, r) \<in> set rs" "row_fills sc key r" using map_of_SomeD [OF old] table_facts(3) [OF tab] by simp_all
  note sc = table_facts(1) [OF tab]
  have pk: "item (to_dict sc r) (ts_pk_col sc) = Inr (VInt key)" using to_dict_pk [OF sc r(2)] by (simp add: item_def)
  have ct: "cat (\<lambda>c. get_fkeys_to c t) s = (Inr (get_fkeys_to c t), s)" using db_tableD(2) [OF tab] by (simp add: cat_def db_holds_def)
  have sub: "set (get_fkeys_to c t) \<subseteq> set (ca_fkeys c)" by (auto simp: get_fkeys_to_def)
  obtain s1 where s1: "for_each (check_child (VInt key)) (get_fkeys_to c t) s = (checked (\<not> held c T t key), s1)"
    "db_table R c T (step_cost c t + k) t sc rs s1"
    using check_children_law [OF tab sub, of key] unfolding held_def by auto
  let ?rest = "bnd (on_table t (delete_val (VInt key))) (\<lambda>_. if_index_mgr (bnd (lift_res (map_res (item (to_dict sc r)) (map cs_name (ts_columns sc)))) (\<lambda>old_row. on_delete sc old_row)))"
  have run: "delete_row t sc t (to_dict sc r) s = bnd (for_each (check_child (VInt key)) (get_fkeys_to c t)) (\<lambda>_. ?rest) s"
    unfolding delete_row_def using ct by (simp add: bnd_Inr pk)
  show ?thesis
  proof (cases "held c T t key")
    case True
    then show ?thesis using run s1 db_table_less [OF s1(2), of k] by (auto simp: checked_def bnd_def)
  next
    case False
    have db: "db_holds R c T (index_owners c T) (Suc (2 * length (get_indexes_for_table c t) + k)) s1"
      using db_tableD(2) [OF s1(2)] by (simp add: step_cost_def)
    have "runs ?rest s1 (\<lambda>_ s'. db_table R c (T(t \<mapsto> ?rs)) k t sc ?rs s')"
      unfolding runs_bnd [of "on_table _ _"]
    proof (rule runs_weaken [OF table_delete_law [OF db db_tableD(4) [OF tab]]], rule if_index_mgr_law, assumption,
        unfold runs_bnd to_dict_items [OF sc r(2)] runs_basic)
      fix x s2
      assume s2: "db_holds R c (T(t \<mapsto> ?rs)) (index_owners c T) (2 * length (get_indexes_for_table c t) + k) s2"
      show "runs (on_delete sc r) s2 (\<lambda>_ s'. db_table R c (T(t \<mapsto> ?rs)) k t sc ?rs s')"
        by (rule runs_weaken [OF on_delete_law [OF tab old s2]], rule db_table_update [OF tab])
          (use table_facts(2) [OF tab] old_rows(1) [OF tab] in \<open>auto simp: keys_sorted_filter del_sorted_def\<close>)
    qed
    then show ?thesis using run s1(1) False by (auto simp: checked_def bnd_def runs_def)
  qed
qed

text \<open>References: every reference of every row is to an existing row of the parent.\<close>

definition refs_ok :: "catalog \<Rightarrow> tables \<Rightarrow> bool" where
  "refs_ok c T \<longleftrightarrow> (\<forall>fk \<in> set (ca_fkeys c). \<forall>rs. T (fk_child_table fk) = Some rs \<longrightarrow> (\<forall>(_, r) \<in> set rs. parent_known T r fk))"

lemma refs_okD: "refs_ok c T \<Longrightarrow> fk \<in> set (ca_fkeys c) \<Longrightarrow> T (fk_child_table fk) = Some rs \<Longrightarrow> e \<in> set rs \<Longrightarrow> parent_known T (snd e) fk"
  unfolding refs_ok_def by fastforce

lemma refs_insert:
  assumes ok: "refs_ok c T" and rs: "T t = Some rs" "keys_sorted rs" and r: "\<forall>fk \<in> set (get_fkeys_from c t). parent_known T r fk"
  shows "refs_ok c (T(t \<mapsto> ins_sorted key r rs))"
proof -
  have grow: "parent_known (T(t \<mapsto> ins_sorted key r rs)) r' fk" if "parent_known T r' fk" for r' fk
    using that rs by (auto simp: parent_known_def)
  show ?thesis
    unfolding refs_ok_def
  proof (intro ballI allI impI)
    fix fk rs1 e
    assume fk: "fk \<in> set (ca_fkeys c)" "(T(t \<mapsto> ins_sorted key r rs)) (fk_child_table fk) = Some rs1" and e: "e \<in> set rs1"
    have "parent_known T (snd e) fk"
    proof (cases "fk_child_table fk = t")
      case True
      then have "e = (key, r) \<or> e \<in> set rs" using fk(2) e set_ins_sorted [of key r rs] by auto
      then show ?thesis using True fk(1) r refs_okD [OF ok fk(1), of rs e] rs(1) by (auto simp: get_fkeys_from_def)
    next
      case False
      then show ?thesis using refs_okD [OF ok fk(1)] fk(2) e by simp
    qed
    then show "case e of (_, r') \<Rightarrow> parent_known (T(t \<mapsto> ins_sorted key r rs)) r' fk" using grow by (simp add: split_def)
  qed
qed

lemma refs_delete:
  assumes ok: "refs_ok c T" and rs: "T t = Some rs" and free: "\<not> held c T t key"
  shows "refs_ok c (T(t \<mapsto> del_sorted key rs))"
  unfolding refs_ok_def
proof (intro ballI allI impI)
  fix fk rs1 e
  assume fk: "fk \<in> set (ca_fkeys c)" "(T(t \<mapsto> del_sorted key rs)) (fk_child_table fk) = Some rs1" and e: "e \<in> set rs1"
  obtain rs0 where rs0: "T (fk_child_table fk) = Some rs0" "e \<in> set rs0"
    using fk(2) e rs by (cases "fk_child_table fk = t") (auto simp: del_sorted_def)
  have "parent_known T (snd e) fk" by (rule refs_okD [OF ok fk(1) rs0])
  moreover have "snd e ! fk_child_col_idx fk \<noteq> VInt key" if "fk_parent_table fk = t"
    using free fk(1) that rs0 by (force simp: held_def get_fkeys_to_def referenced_def)
  ultimately have "parent_known (T(t \<mapsto> del_sorted key rs)) (snd e) fk"
    using rs by (auto simp: parent_known_def map_of_del_sorted)
  then show "case e of (_, r) \<Rightarrow> parent_known (T(t \<mapsto> del_sorted key rs)) r fk" by (simp add: split_def)
qed

lemma delete_rows_law:
  assumes "db_table R c T (length L * step_cost c t + k) t sc rs s" "distinct (map fst L)"
    and "\<And>key r. (key, r) \<in> set L \<Longrightarrow> map_of rs key = Some r" "refs_ok c T"
  shows "\<exists>res s' rs'. for_each (delete_row t sc t) (map (\<lambda>(_, r). to_dict sc r) L) s = (res, s') \<and>
    db_table R c (T(t \<mapsto> rs')) k t sc rs' s' \<and> refs_ok c (T(t \<mapsto> rs')) \<and>
    (res = Inr () \<and> rs' = filter (\<lambda>e. fst e \<notin> fst ` set L) rs \<or>
     res = Inl ExecutionError \<and> (\<exists>e \<in> set L. e \<in> set rs' \<and> held c (T(t \<mapsto> rs')) t (fst e)))"
  using assms
proof (induction L arbitrary: T rs s)
  case Nil
  have same: "T(t \<mapsto> rs) = T" using db_tableD(4) [OF Nil(1)] by (simp add: fun_upd_idem)
  show ?case using Nil(1,4) by (intro exI [of _ "Inr ()"] exI [of _ s] exI [of _ rs]) (simp add: same)
next
  case (Cons e L)
  obtain key r where e: "e = (key, r)" by (cases e)
  let ?rs = "del_sorted key rs"
  have tab: "db_table R c T (step_cost c t + (length L * step_cost c t + k)) t sc rs s" using Cons.prems(1) by (simp add: add.assoc)
  have old: "map_of rs key = Some r" using Cons.prems(3) e by simp
  have same: "T(t \<mapsto> rs) = T" using db_tableD(4) [OF tab] by (simp add: fun_upd_idem)
  obtain s1 where s1: "delete_row t sc t (to_dict sc r) s = (checked (\<not> held c T t key), s1)"
    "if held c T t key then db_table R c T (length L * step_cost c t + k) t sc rs s1
     else db_table R c (T(t \<mapsto> ?rs)) (length L * step_cost c t + k) t sc ?rs s1"
    using delete_row_law [OF tab old] by blast
  show ?case
  proof (cases "held c T t key")
    case True
    have "db_table R c T k t sc rs s1" using s1(2) True by (auto intro: db_table_less)
    then show ?thesis
      using s1(1) True map_of_SomeD [OF old] Cons.prems(4) e
      by (intro exI [of _ "Inl ExecutionError"] exI [of _ s1] exI [of _ rs]) (simp add: same bnd_def checked_def)
  next
    case False
    then have s1': "db_table R c (T(t \<mapsto> ?rs)) (length L * step_cost c t + k) t sc ?rs s1" using s1(2) by simp
    have kept: "map_of ?rs key' = Some r'" if "(key', r') \<in> set L" for key' r'
    proof -
      have "key' \<noteq> key" using Cons.prems(2) that e by (auto simp: image_iff)
      then show ?thesis using Cons.prems(3) [of key' r'] that by (simp add: map_of_del_sorted)
    qed
    have refs: "refs_ok c (T(t \<mapsto> ?rs))" by (rule refs_delete [OF Cons.prems(4) db_tableD(4) [OF tab] False])
    have d: "distinct (map fst L)" using Cons.prems(2) by simp
    obtain res s' rs' where run: "for_each (delete_row t sc t) (map (\<lambda>(_, r). to_dict sc r) L) s1 = (res, s')"
      "db_table R c (T(t \<mapsto> rs')) k t sc rs' s'" "refs_ok c (T(t \<mapsto> rs'))"
      "res = Inr () \<and> rs' = filter (\<lambda>e. fst e \<notin> fst ` set L) ?rs \<or>
       res = Inl ExecutionError \<and> (\<exists>e \<in> set L. e \<in> set rs' \<and> held c (T(t \<mapsto> rs')) t (fst e))"
      using Cons.IH [OF s1' d kept refs] unfolding fun_upd_upd by blast
    have "filter (\<lambda>e. fst e \<notin> fst ` set L) ?rs = filter (\<lambda>x. fst x \<notin> fst ` set (e # L)) rs"
      by (auto simp: del_sorted_def e intro: filter_cong)
    then show ?thesis
      using run s1(1) False e by (intro exI [of _ res] exI [of _ s'] exI [of _ rs']) (auto simp: bnd_def checked_def simp del: fun_upd_apply)
  qed
qed

lemma delete_law:
  assumes tab: "db_table R c T (length (hits sc whr rs) * step_cost c t + k) t sc rs s" and refs: "refs_ok c T"
    and path: "path_ok c sc whr" and typed: "matching sc whr rs = Inr ys"
  shows "\<exists>res s' rs'. exec_delete t whr s = (res, s') \<and> db_table R c (T(t \<mapsto> rs')) k t sc rs' s' \<and> refs_ok c (T(t \<mapsto> rs')) \<and>
    (res = Inr [] \<and> rs' = filter (\<lambda>(_, r). eval_expr whr (to_dict sc r) \<noteq> Inr True) rs \<or>
     res = Inl ExecutionError \<and> (\<exists>e \<in> set (hits sc whr rs). e \<in> set rs' \<and> held c (T(t \<mapsto> rs')) t (fst e)))"
proof -
  obtain L s1 where L: "fetch_rows sc t whr s = (Inr (map (\<lambda>(_, r). to_dict sc r) L), s1)" "mset L = mset (hits sc whr rs)"
    and s1: "db_table R c T (length (hits sc whr rs) * step_cost c t + k) t sc rs s1"
    using fetch_hits [OF tab path typed] by blast
  note facts = hits_facts [OF tab L(2)]
  have set: "set L = set (hits sc whr rs)" by (rule mset_eq_setD [OF L(2)])
  have s1': "db_table R c T (length L * step_cost c t + k) t sc rs s1" using s1 facts(3) by simp
  obtain res s' rs' where run: "for_each (delete_row t sc t) (map (\<lambda>(_, r). to_dict sc r) L) s1 = (res, s')"
      "db_table R c (T(t \<mapsto> rs')) k t sc rs' s'" "refs_ok c (T(t \<mapsto> rs'))"
      "res = Inr () \<and> rs' = filter (\<lambda>e. fst e \<notin> fst ` set L) rs \<or>
       res = Inl ExecutionError \<and> (\<exists>e \<in> set L. e \<in> set rs' \<and> held c (T(t \<mapsto> rs')) t (fst e))"
    using delete_rows_law [OF s1' facts(1,2) refs] by blast
  have left: "filter (\<lambda>e. fst e \<notin> fst ` set L) rs = filter (\<lambda>(_, r). eval_expr whr (to_dict sc r) \<noteq> Inr True) rs"
  proof (rule filter_cong [OF refl])
    fix e
    assume e: "e \<in> set rs"
    have "fst e \<in> fst ` set L \<longleftrightarrow> e \<in> set (hits sc whr rs)"
    proof
      assume "fst e \<in> fst ` set L"
      then obtain r where r: "(fst e, r) \<in> set L" by auto
      then have "map_of rs (fst e) = Some r" by (rule facts(2))
      moreover have "map_of rs (fst e) = Some (snd e)" using old_rows(2) [OF tab, of "fst e" "snd e"] e by simp
      ultimately show "e \<in> set (hits sc whr rs)" using r set by (cases e) simp
    qed (use set in force)
    then show "fst e \<notin> fst ` set L \<longleftrightarrow> (case e of (_, r) \<Rightarrow> eval_expr whr (to_dict sc r) \<noteq> Inr True)" using e by (cases e) (simp add: hits_def)
  qed
  have gt: "on_catalog (get_table t) s = (Inr sc, s)" using get_table_law [OF db_tableD(2,3) [OF tab]] by (auto simp: runs_def)
  have ge: "get_engine t s = (Inr t, s)" using get_engine_law [OF db_tableD(2,4) [OF tab]] by (auto simp: runs_def)
  have "exec_delete t whr s = bnd (for_each (delete_row t sc t) (map (\<lambda>(_, r). to_dict sc r) L)) (\<lambda>_. ret []) s1"
    unfolding exec_delete_def using gt ge L(1) by (simp add: bnd_Inr)
  then show ?thesis using run(1-3) run(4) [unfolded left, unfolded set] by (cases res) (auto simp: bnd_def simp del: fun_upd_apply)
qed

end
