(* ===== verification/Sql_Schema.thy ===== *)
theory Sql_Schema
  imports Sql_Dml
begin

section \<open>CREATE TABLE and CREATE INDEX\<close>

text \<open>
  A new table starts with an engine without rows; a new index is filled from the rows of its table. An engine opened on new files has the
  default order 100 and a pool of 256 pages. The budget of writes that its pool is known to be large enough for is 36; the records of a
  page of this order fit when they have at most 28 bytes.
\<close>

subsection \<open>A new engine\<close>

lemma new_engine:
  assumes "R \<le> 28" "k \<le> 36"
  shows "\<exists>e. engine_init (Some (None, None)) 100 = Inr e \<and> holds_rows R [] k e"
proof -
  have sz: "sizes 100 R" using assms(1) by (simp add: sizes_def room_consts)
  have kb: "k * 7 \<le> 252" "k * 19 \<le> 684" using mult_le_mono1 [OF assms(2), of 7] mult_le_mono1 [OF assms(2), of 19] by simp_all
  obtain p s where s: "pager_init (Some (None, None)) 100 256 = Inr p" "tree_init p = Inr s" "stores s (Lf 0 [] None) 1 (k * 7) (k * 19) R"
    "pg_file s \<noteq> None" "pg_wal s \<noteq> None"
    using create_law [OF sz, of "k * 7" 256 "k * 19" "Some (None, None)"] kb by (auto simp: NO_NEXT_def)
  let ?e = "\<lparr>en_tree = s, en_locks = lm_init\<rparr>"
  have "engine_init (Some (None, None)) 100 = Inr ?e" using s(1,2) by (simp add: engine_init_def)
  moreover have "holds_rows R [] k ?e"
    unfolding holds_rows_def
    by (rule conjI, simp add: on_files_def s(4,5), rule exI [of _ "Lf 0 [] None"], rule exI [of _ 1], rule exI [of _ 5])
      (use s(3) assms(2) in \<open>simp add: decodable_def rows_of_def\<close>)
  ultimately show ?thesis by blast
qed

lemma open_new_file:
  assumes "map_of (im_files s) name = None" "R \<le> 28" "k \<le> 36"
  shows "\<exists>e. open_file name s = (Inr e, s) \<and> holds_rows R [] k e"
  using new_engine [OF assms(2,3)] assms(1) by (auto simp: open_file_def bnd_def)

subsection \<open>CREATE TABLE\<close>

lemma create_table_result:
  assumes run: "create_table t cols c = (Inr sc, c')" and ok: "catalog_ok c" "cat_op_ok (CreateTable t cols)"
  shows "map_of (ca_tables c) t = None" "ca_tables c' = ca_tables c @ [(t, sc)]" "ca_indexes c' = ca_indexes c"
    "map cs_name (ts_columns sc) = map cd_name cols" "ts_name sc = t"
proof -
  have new: "map_of (ca_tables c) t = None" using run by (auto simp: create_table_def bnd_def split: if_splits)
  obtain i where i: "first_index cd_primary_key cols = Inr i"
    using run new by (cases "first_index cd_primary_key cols") (auto simp: create_table_def bnd_def)
  let ?f = "\<lambda>c. \<lparr>cs_name = cd_name c, cs_type = cd_type c, cs_primary_key = cd_primary_key c\<rparr>"
  let ?s = "\<lparr>ts_name = t, ts_columns = map ?f cols, ts_pk_col = cd_name (cols ! i), ts_pk_idx = i\<rparr>"
  let ?c = "c\<lparr>ca_tables := AList.update t ?s (ca_tables c)\<rparr>"
  have "i < length cols \<and> cd_primary_key (cols ! i)" by (rule first_index_Inr [OF i])
  moreover have "cd_type (cols ! i) = INT_TYPE" using ok(2) first_index_filter [OF _ i] by auto
  ultimately have ts: "table_ok ?s" by (simp add: table_ok_def column_at_def)
  have c1: "catalog_ok ?c"
    using ok(1) ts new index_ok_more [OF _ new] fkey_ok_more [OF _ new]
    by (auto simp: catalog_ok_def named_def update_new map_of_eq_None_iff)
  have at: "map_of (ca_tables ?c) t = Some ?s" by (simp add: AList.update_conv')
  obtain r2 c2 where f: "add_fkeys t 0 cols ?c = (r2, c2)" by (cases "add_fkeys t 0 cols ?c")
  have c2: "ca_tables c2 = ca_tables ?c" "ca_indexes c2 = ca_indexes c" using add_fkeys_ok [OF f c1 at, of ?f cols] by simp_all
  obtain u where u: "r2 = Inr u" using run new i f by (cases r2) (auto simp: create_table_def bnd_def Let_def)
  have "sc = ?s" "c' = c2\<lparr>ca_file := Some (catalog_json c2)\<rparr>"
    using run new i f u by (auto simp: create_table_def bnd_def Let_def catalog_save_def)
  then show "map_of (ca_tables c) t = None" "ca_tables c' = ca_tables c @ [(t, sc)]" "ca_indexes c' = ca_indexes c"
    "map cs_name (ts_columns sc) = map cd_name cols" "ts_name sc = t"
    using new c2 by (simp_all add: update_new comp_def)
qed

lemma no_indexes_yet:
  assumes ok: "catalog_ok c" and t: "map_of (ca_tables c) t = None"
  shows "get_indexes_for_table c t = []" "index_owners c (T(t := x)) = index_owners c T"
proof -
  have other: "is_table i \<noteq> t" if "(n, i) \<in> set (ca_indexes c)" for n i
    using ok that t by (force simp: catalog_ok_def index_ok_def)
  then show "get_indexes_for_table c t = []" by (auto simp: get_indexes_for_table_def filter_empty_conv dest: other)
  show "index_owners c (T(t := x)) = index_owners c T"
    using other by (fastforce simp: index_owners_def split: option.splits dest: map_of_SomeD)
qed

lemma create_table_law:
  assumes db: "db_ok R c T k s" and run: "create_table t cols c = (Inr sc, c')"
    and cols: "cat_op_ok (CreateTable t cols)" "distinct (map cd_name cols)"
    and new: "map_of (im_files s) t = None" and R: "R \<le> 28" "k \<le> 36"
  shows "\<exists>s'. exec_create_table t cols s = (Inr [], s') \<and> db_table R c' (T(t \<mapsto> [])) k t sc [] s' \<and> im_files s' = im_files s"
proof -
  have ok: "tables_ok c T" "db_holds R c T (index_owners c T) k s" using db by (simp_all add: db_ok_def)
  have c: "catalog_ok c" "im_catalog s = c" "ex_index_mgr s" "dict_holds (\<lambda>rs. holds_rows R rs k) T (ex_engines s)"
    "dict_holds (\<lambda>own. index_holds R own k) (index_owners c T) (im_engines s)"
    using ok by (simp_all add: tables_ok_def db_holds_def)
  note res = create_table_result [OF run c(1) cols(1)]
  have c': "catalog_ok c'" using create_table_ok [OF run c(1) cols(1)] by simp
  have cat: "on_catalog (create_table t cols) s = (Inr sc, s\<lparr>im_catalog := c'\<rparr>)" using run c(2) by (simp add: on_catalog_def on_part_def)
  obtain e where e: "open_file t (s\<lparr>im_catalog := c'\<rparr>) = (Inr e, s\<lparr>im_catalog := c'\<rparr>)" "holds_rows R [] k e"
    using open_new_file [of "s\<lparr>im_catalog := c'\<rparr>" t R k] new R by auto
  let ?s = "s\<lparr>im_catalog := c', ex_engines := AList.update t e (ex_engines s)\<rparr>"
  have exec: "exec_create_table t cols s = (Inr [], ?s)" unfolding exec_create_table_def using cat e(1) by (simp add: bnd_Inr)
  have own: "index_owners c' (T(t \<mapsto> [])) = index_owners c T"
    using no_indexes_yet(2) [OF c(1) res(1), of T "Some []"] res(3) by (simp add: index_owners_def fun_eq_iff)
  have idx: "get_indexes_for_table c' x = get_indexes_for_table c x" for x using res(3) by (simp add: get_indexes_for_table_def)
  have at: "map_of (ca_tables c') t = Some sc" using res(1,2) by (simp add: map_add_def)
  have tables: "tables_ok c' (T(t \<mapsto> []))"
    unfolding tables_ok_def
  proof (intro conjI allI impI)
    fix t1 sc1
    assume t1: "map_of (ca_tables c') t1 = Some sc1"
    show "schema_ok sc1"
    proof (cases "t1 = t")
      case True
      then have "sc1 = sc" using at t1 by simp
      moreover have "table_ok sc" using c' map_of_SomeD [OF at] by (force simp: catalog_ok_def)
      ultimately show ?thesis using cols(2) res(4) by (simp add: schema_ok_def)
    next
      case False
      then have "map_of (ca_tables c) t1 = Some sc1" using t1 res(2) by (auto simp: map_add_def split: option.splits if_splits)
      then show ?thesis using ok(1) by (simp add: tables_ok_def)
    qed
    show "\<exists>rs. (T(t \<mapsto> [])) t1 = Some rs \<and> keys_sorted rs \<and> (\<forall>(k, r) \<in> set rs. row_fills sc1 k r) \<and>
        (\<forall>i \<in> set (get_indexes_for_table c' t1). \<forall>(k, r) \<in> set rs. col_ok (r ! is_col_idx i))"
    proof (cases "t1 = t")
      case False
      then have "map_of (ca_tables c) t1 = Some sc1" using t1 res(2) by (auto simp: map_add_def split: option.splits if_splits)
      then show ?thesis using ok(1) False by (simp add: tables_ok_def idx)
    qed simp
  qed (rule c')
  have "db_holds R c' (T(t \<mapsto> [])) (index_owners c' (T(t \<mapsto> []))) k ?s"
    unfolding own using c(3-) dict_holds_update [OF c(4) e(2)] by (simp add: db_holds_def)
  then show ?thesis using exec tables at by (simp add: db_table_def db_ok_def)
qed

subsection \<open>CREATE INDEX\<close>

definition index_rows :: "nat \<Rightarrow> (int \<times> val list) list \<Rightarrow> int \<Rightarrow> int set" where
  "index_rows ci es v = {key. \<exists>r. (key, r) \<in> set es \<and> r ! ci = VInt v}"

lemma index_rows_owners: "distinct (map fst rs) \<Longrightarrow> index_rows ci rs = owners ci rs"
  by (auto simp: index_rows_def owners_def fun_eq_iff)

definition fill_step :: "index_schema \<Rightarrow> table_schema \<Rightarrow> int \<times> val list \<Rightarrow> (database, unit) act" where
  "fill_step i sc e = bnd (lift_res (row_at (snd e) (is_col_idx i))) (\<lambda>col_val.
     bnd (lift_res (row_at (snd e) (ts_pk_idx sc))) (\<lambda>pk_val.
     if col_val \<noteq> VNull then im_add (is_name i) col_val pk_val else ret ()))"

lemma fill_law:
  assumes "db_holds R c T X (length es + k) s" "X (is_name i) = Some own" "schema_ok sc" "column_at sc (is_col_idx i) col"
    and "\<And>key r. (key, r) \<in> set es \<Longrightarrow> row_fills sc key r \<and> col_ok (r ! is_col_idx i)"
    and "own_room R (\<lambda>v. own v \<union> index_rows (is_col_idx i) es v)"
  shows "runs (for_each (fill_step i sc) es) s (\<lambda>_ s'. db_holds R c T (X(is_name i \<mapsto> \<lambda>v. own v \<union> index_rows (is_col_idx i) es v)) k s')"
  using assms
proof (induction es arbitrary: X own s)
  case Nil
  have "X(is_name i \<mapsto> \<lambda>v. own v \<union> index_rows (is_col_idx i) [] v) = X" using Nil(2) by (simp add: index_rows_def fun_upd_idem)
  then show ?case using Nil(1) by (simp add: runs_def)
next
  case (Cons e es)
  obtain key r where e: "e = (key, r)" by (cases e)
  let ?own = "\<lambda>v. own v \<union> owned (r ! is_col_idx i) key v"
  have db: "db_holds R c T X (Suc (length es + k)) s" using Cons.prems(1) by simp
  have r: "row_fills sc key r" "col_ok (r ! is_col_idx i)" using Cons.prems(5) [of key r] e by simp_all
  have rows: "(\<lambda>v. own v \<union> index_rows (is_col_idx i) (e # es) v) = (\<lambda>v. ?own v \<union> index_rows (is_col_idx i) es v)"
    by (auto simp: index_rows_def owned_def e fun_eq_iff)
  have room: "own_room R (\<lambda>v. ?own v \<union> index_rows (is_col_idx i) es v)" using Cons.prems(6) by (simp only: rows)
  have room1: "own_room R ?own" by (rule own_room_mono [OF room]) blast
  show ?case
    unfolding for_each.simps runs_bnd [of "fill_step i sc e"]
  proof (rule runs_weaken)
    show "runs (fill_step i sc e) s (\<lambda>_ s'. db_holds R c T (X(is_name i \<mapsto> ?own)) (length es + k) s')"
      unfolding fill_step_def e snd_conv row_at_column [OF r(1) Cons.prems(4)] row_at_pk [OF Cons.prems(3) r(1)] runs_bnd runs_basic
      by (rule step_add [OF db Cons.prems(2) r(2) room1])
  next
    fix x s1
    assume s1: "db_holds R c T (X(is_name i \<mapsto> ?own)) (length es + k) s1"
    have "runs (for_each (fill_step i sc) es) s1
        (\<lambda>_ s'. db_holds R c T ((X(is_name i \<mapsto> ?own))(is_name i \<mapsto> \<lambda>v. ?own v \<union> index_rows (is_col_idx i) es v)) k s')"
      by (rule Cons.IH [OF s1 _ Cons.prems(3,4)]) (use Cons.prems(5) room in auto)
    then show "runs (for_each (fill_step i sc) es) s1 (\<lambda>_ s'. db_holds R c T (X(is_name i \<mapsto> \<lambda>v. own v \<union> index_rows (is_col_idx i) (e # es) v)) k s')"
      unfolding rows by simp
  qed
qed

lemma create_index_result:
  assumes run: "cat_create_index name t col c = (Inr i, c')"
  shows "map_of (ca_indexes c) name = None" "ca_tables c' = ca_tables c" "ca_indexes c' = ca_indexes c @ [(name, i)]"
    "is_name i = name" "is_table i = t" "is_col i = col"
  using run by (auto simp: cat_create_index_def get_table_def dict_get_def bnd_def Let_def catalog_save_def update_new
    split: if_splits option.splits sum.splits)

lemma create_index_law:
  assumes tab: "db_table R c T (length rs + k) t sc rs s" and run: "cat_create_index name t col c = (Inr i, c')"
    and new: "map_of (im_files s) name = None" and R: "R \<le> 28" "length rs + k \<le> 36"
    and cols: "\<And>key r. (key, r) \<in> set rs \<Longrightarrow> col_ok (r ! is_col_idx i)" and room: "own_room R (owners (is_col_idx i) rs)"
  shows "runs (exec_create_index name t col) s (\<lambda>r s'. r = [] \<and> db_table R c' T k t sc rs s' \<and>
    has_index_on c' t (Name col) \<noteq> None)"
proof -
  have ok: "tables_ok c T" "catalog_ok c" using db_tableD(1) [OF tab] by (simp_all add: tables_ok_def)
  have h: "im_catalog s = c" "ex_index_mgr s" "dict_holds (\<lambda>rs'. holds_rows R rs' (length rs + k)) T (ex_engines s)"
    "dict_holds (\<lambda>own. index_holds R own (length rs + k)) (index_owners c T) (im_engines s)"
    using db_tableD(2) [OF tab] by (simp_all add: db_holds_def)
  note res = create_index_result [OF run]
  have c': "catalog_ok c'" using cat_create_index_ok [OF run ok(2)] by simp
  have i: "index_ok (ca_tables c') i" using c' res(3) by (simp add: catalog_ok_def)
  have at: "map_of (ca_tables c') t = Some sc" using db_tableD(3) [OF tab] res(2) by simp
  have col: "column_at sc (is_col_idx i) col" using i at res(5,6) by (auto simp: index_ok_def)
  let ?X = "(index_owners c T)(name \<mapsto> \<lambda>_. {})"
  let ?s1 = "s\<lparr>im_catalog := c'\<rparr>"
  obtain e where e: "open_file name ?s1 = (Inr e, ?s1)" "holds_rows R [] (length rs + k) e"
    using open_new_file [of ?s1 name R "length rs + k"] new R by auto
  let ?s2 = "?s1\<lparr>im_engines := AList.update name e (im_engines s)\<rparr>"
  have "index_holds R (\<lambda>_. {}) (length rs + k) e"
    unfolding index_holds_def using e(2) R(1) room by (auto simp: own_room_def index_of_def entry_ok_def intro!: exI [of _ "[]"])
  then have s2: "db_holds R c' T ?X (length rs + k) ?s2"
    using h dict_holds_update [OF h(4)] by (simp add: db_holds_def)
  have own: "index_owners c' T = ?X(name \<mapsto> owners (is_col_idx i) rs)"
    using res(1,3,5) db_tableD(4) [OF tab]
    by (auto simp: index_owners_def fun_eq_iff map_add_def split: option.splits)
  have tables: "tables_ok c' T"
    unfolding tables_ok_def
  proof (intro conjI allI impI)
    fix t1 sc1
    assume t1: "map_of (ca_tables c') t1 = Some sc1"
    then have t1': "map_of (ca_tables c) t1 = Some sc1" using res(2) by simp
    obtain rs1 where rs1: "T t1 = Some rs1" using tables_exist [OF ok(1)] t1' by blast
    note facts = tables_okD [OF ok(1) t1' rs1]
    show "schema_ok sc1" by (rule facts(1))
    have idx: "set (get_indexes_for_table c' t1) = set (get_indexes_for_table c t1) \<union> (if t1 = t then {i} else {})"
      using res(3,5) by (auto simp: get_indexes_for_table_def)
    have "t1 = t \<Longrightarrow> rs1 = rs" using rs1 db_tableD(4) [OF tab] by simp
    then show "\<exists>rs. T t1 = Some rs \<and> keys_sorted rs \<and> (\<forall>(k, r) \<in> set rs. row_fills sc1 k r) \<and>
        (\<forall>i \<in> set (get_indexes_for_table c' t1). \<forall>(k, r) \<in> set rs. col_ok (r ! is_col_idx i))"
      unfolding idx using rs1 facts(2,3,5) cols by (intro exI [of _ rs1]) (auto split: if_splits)
  qed (rule c')
  have run1: "exec_create_index name t col s = bnd (im_create_index i sc (on_table t all_rows)) (\<lambda>_. ret []) ?s1"
  proof -
    have "need_index_mgr s = (Inr (), s)" using h(2) by (simp add: need_index_mgr_def bnd_def)
    moreover have "on_catalog (cat_create_index name t col) s = (Inr i, ?s1)" using run h(1) by (simp add: on_catalog_def on_part_def)
    moreover have "on_catalog (get_table t) ?s1 = (Inr sc, ?s1)"
      using at by (simp add: on_catalog_def on_part_def get_table_def dict_get_def bnd_def)
    moreover have "get_engine t ?s1 = (Inr t, ?s1)"
      using dict_holdsE [OF h(3) db_tableD(4) [OF tab]] by (auto simp: get_engine_def bnd_def)
    ultimately show ?thesis unfolding exec_create_index_def by (simp add: bnd_Inr)
  qed
  have fill: "im_create_index i sc (on_table t all_rows) ?s1 = bnd (on_table t all_rows) (\<lambda>rows. for_each (fill_step i sc) rows) ?s2"
  proof -
    have "open_engine name ?s1 = (Inr (), ?s2)" using e(1) by (simp add: open_engine_def bnd_Inr)
    then show ?thesis by (simp add: im_create_index_def res(4) bnd_Inr fill_step_def [abs_def] split_def)
  qed
  have "runs (bnd (on_table t all_rows) (\<lambda>rows. for_each (fill_step i sc) rows)) ?s2 (\<lambda>_ s'. db_table R c' T k t sc rs s')"
    unfolding runs_bnd
  proof (rule runs_weaken [OF all_rows_law [OF s2 db_tableD(4) [OF tab]]], elim conjE, hypsubst)
    fix x s3
    assume s3: "db_holds R c' T ?X (length rs + k) s3"
    have rows: "(\<lambda>v. {} \<union> index_rows (is_col_idx i) rs v) = owners (is_col_idx i) rs"
      using index_rows_owners [OF keys_sorted_distinct [OF table_facts(2) [OF tab]]] by simp
    have X: "?X(name \<mapsto> \<lambda>v. {} \<union> index_rows (is_col_idx i) rs v) = index_owners c' T" unfolding own rows ..
    have "runs (for_each (fill_step i sc) rs) s3 (\<lambda>_ s'. db_holds R c' T (?X(is_name i \<mapsto> \<lambda>v. {} \<union> index_rows (is_col_idx i) rs v)) k s')"
      by (rule fill_law [OF s3 _ table_facts(1) [OF tab] col]) (use res(4) cols table_facts(3) [OF tab] room rows in auto)
    then show "runs (for_each (fill_step i sc) rs) s3 (\<lambda>_ s'. db_table R c' T k t sc rs s')"
      unfolding res(4) X by (rule runs_weaken) (use tables at db_tableD(4) [OF tab] in \<open>simp add: db_table_def db_ok_def\<close>)
  qed
  moreover have "has_index_on c' t (Name col) \<noteq> None"
    using res(3,5,6) by (auto simp: has_index_on_def get_indexes_for_table_def find_None_iff)
  ultimately show ?thesis unfolding runs_def run1 using fill by (auto simp: bnd_def)
qed

end
