(* ===== verification/Sql_Join.thy ===== *)
theory Sql_Join
  imports Sql_Writes
begin

section \<open>Joins\<close>

text \<open>
  The specification of a join is the nested loop over the pairs of a left and a right row with the same value in the two columns of
  the join, not \<^verbatim>\<open>NULL\<close>: the condition filters the merged rows and the columns are projected. The code finds the right rows on the
  primary key, on an index or in a scan (\<open>join_matches_law\<close>).
\<close>

definition join_pairs :: "pystr \<Rightarrow> pystr \<Rightarrow> row list \<Rightarrow> row list \<Rightarrow> (row \<times> row) list" where
  "join_pairs lcol rcol ls rs =
     concat (map (\<lambda>l. map (Pair l) (filter (\<lambda>r. row_get l lcol \<noteq> VNull \<and> row_get r rcol = row_get l lcol) rs)) ls)"

definition join_spec :: "pystr \<Rightarrow> pystr \<Rightarrow> pystr \<Rightarrow> pystr \<Rightarrow> col_name list \<Rightarrow> expr option \<Rightarrow> row list \<Rightarrow> row list \<Rightarrow> row list res" where
  "join_spec lt rt lcol rcol columns whr ls rs =
     bind_res (filter_res (eval_join_expr whr) (map (\<lambda>(l, r). merge_rows lt rt l r) (join_pairs lcol rcol ls rs)))
       (map_res (\<lambda>m. project_join m columns))"

text \<open>The rows of a table as dictionaries, in key order.\<close>

definition dicts :: "table_schema \<Rightarrow> (int \<times> val list) list \<Rightarrow> row list" where
  "dicts sc rs = map (\<lambda>(_, r). to_dict sc r) rs"

subsection \<open>One pair\<close>

definition pair_ok :: "col_name list \<Rightarrow> expr option \<Rightarrow> row \<Rightarrow> bool" where
  "pair_ok columns whr m \<longleftrightarrow> (\<exists>b. eval_join_expr whr m = Inr b \<and> (b \<longrightarrow> (\<exists>x. project_join m columns = Inr x)))"

definition pair_rows :: "col_name list \<Rightarrow> expr option \<Rightarrow> row \<Rightarrow> row list" where
  "pair_rows columns whr m =
     (if eval_join_expr whr m = Inr True then case project_join m columns of Inr x \<Rightarrow> [x] | Inl _ \<Rightarrow> [] else [])"

lemma pairs_ok:
  assumes "bind_res (filter_res (eval_join_expr whr) ms) (map_res (\<lambda>m. project_join m columns)) = Inr zs"
  shows "(\<forall>m \<in> set ms. pair_ok columns whr m) \<and> zs = concat (map (pair_rows columns whr) ms)"
  using assms
proof (induction ms arbitrary: zs)
  case (Cons m ms)
  then obtain b ns where b: "eval_join_expr whr m = Inr b" "filter_res (eval_join_expr whr) ms = Inr ns"
    by (auto simp: bind_res_def split: sum.splits)
  show ?case
  proof (cases b)
    case True
    with Cons.prems b obtain x ys where "project_join m columns = Inr x" "map_res (\<lambda>m. project_join m columns) ns = Inr ys" "zs = x # ys"
      by (auto simp: bind_res_def split: sum.splits)
    with Cons.IH [of ys] b True show ?thesis by (auto simp: pair_ok_def pair_rows_def)
  next
    case False
    with Cons.prems b have "map_res (\<lambda>m. project_join m columns) ns = Inr zs" by simp
    with Cons.IH [of zs] b False show ?thesis by (auto simp: pair_ok_def pair_rows_def)
  qed
qed simp

lemma join_rows_ok:
  assumes "\<forall>r \<in> set rs. pair_ok columns whr (merge_rows lt rt l r)"
  shows "join_rows lt rt columns whr l rs = Inr (concat (map (\<lambda>r. pair_rows columns whr (merge_rows lt rt l r)) rs))"
  using assms by (induction rs) (auto simp: pair_ok_def pair_rows_def Let_def)

subsection \<open>The right rows of a left row\<close>

lemma matching_value: "matching sc (Some (EqExpr (Name col) v)) rs = Inr (filter (\<lambda>r. row_get r col = v) (dicts sc rs))"
  unfolding matching_def dicts_def by (induction rs) (auto simp: eval_expr_def)

lemma runs_both: "runs m s P \<Longrightarrow> runs m s Q \<Longrightarrow> runs m s (\<lambda>x s'. P x s' \<and> Q x s')"
  by (auto simp: runs_def)

lemma join_matches_law:
  assumes tab: "db_table R c T k t sc rs s" and path: "path_ok c sc (Some (EqExpr (Name col) v))"
  shows "runs (join_matches sc t t col v) s (\<lambda>r s'. mset r = mset (filter (\<lambda>r. row_get r col = v) (dicts sc rs)) \<and>
    db_table R c T k t sc rs s')"
proof (cases "col = ts_pk_col sc")
  case True
  then obtain key where v: "v = VInt key" using path int_of by (auto simp: keyed_def)
  have get: "runs (on_table t (get_val v)) s (\<lambda>raw s'. raw = map_of rs key \<and> db_holds R c T (index_owners c T) k s')"
    unfolding v by (rule read_table [where Q = "\<lambda>r. r = map_of rs key", OF db_tableD(2,4) [OF tab]]) (rule get_val_law)
  have ne: "raw \<noteq> []" if "map_of rs key = Some raw" for raw
  proof -
    have "length raw = length (ts_columns sc)" using table_facts(3) [OF tab map_of_SomeD [OF that]] by (simp add: row_fills_def)
    moreover have "ts_pk_idx sc < length (ts_columns sc)" using table_facts(8) [OF tab] by (simp add: column_at_def)
    ultimately show ?thesis by auto
  qed
  have "runs (on_table t (get_val v)) s (\<lambda>raw s'. raw = map_of rs key \<and>
      Inr (filter (\<lambda>r. row_get r col = v) (dicts sc rs)) = (Inr (case raw of None \<Rightarrow> [] | Some r \<Rightarrow> [to_dict sc r]) :: row list res) \<and>
      db_table R c T k t sc rs s')"
    using runs_both [OF get fetch_pk [OF tab, of key, folded v]] unfolding True matching_value [symmetric]
    by (rule runs_weaken) (auto simp: True matching_value v)
  then show ?thesis
    unfolding join_matches_def if_P [OF True] runs_bnd
    by (rule runs_weaken) (use ne in \<open>auto simp: runs_def split: option.splits\<close>)
next
  case False
  have nm: "ts_name sc = t" by (rule table_facts(4) [OF tab])
  have idx: "index_for t (Name col) s = (Inr (has_index_on c t (Name col)), s)" using index_for_run [OF tab] nm by simp
  have "join_matches sc t t col v s = fetch_rows sc t (Some (EqExpr (Name col) v)) s"
    using False idx nm by (auto simp: join_matches_def fetch_rows_def bnd_Inr split: option.split)
  moreover obtain r s' where r: "fetch_rows sc t (Some (EqExpr (Name col) v)) s = (r, s')" "db_table R c T k t sc rs s'"
    "same_rows r (Inr (filter (\<lambda>r. row_get r col = v) (dicts sc rs)))"
    using fetch_eq_law [OF tab path] by (auto simp: matching_value)
  ultimately show ?thesis by (cases r) (auto simp: runs_def)
qed

subsection \<open>The loop over the left rows\<close>

definition right_rows :: "pystr \<Rightarrow> pystr \<Rightarrow> row list \<Rightarrow> row \<Rightarrow> row list" where
  "right_rows lcol rcol rs l = filter (\<lambda>r. row_get l lcol \<noteq> VNull \<and> row_get r rcol = row_get l lcol) rs"

definition joined_rows :: "pystr \<Rightarrow> pystr \<Rightarrow> col_name list \<Rightarrow> expr option \<Rightarrow> row \<Rightarrow> row list \<Rightarrow> row list" where
  "joined_rows lt rt columns whr l rs = concat (map (\<lambda>r. pair_rows columns whr (merge_rows lt rt l r)) rs)"

lemma joined_perm: "mset rs = mset rs' \<Longrightarrow> mset (joined_rows lt rt columns whr l rs) = mset (joined_rows lt rt columns whr l rs')"
proof -
  assume "mset rs = mset rs'"
  then have "mset (map f rs) = mset (map f rs')" for f :: "row \<Rightarrow> row list" by simp
  then have "mset (concat (map f rs)) = mset (concat (map f rs'))" for f :: "row \<Rightarrow> row list"
    by (metis mset_concat mset_map sum_mset_sum_list)
  then show ?thesis by (simp add: joined_rows_def)
qed

lemma join_row_law:
  assumes tab: "db_table R c T k rt sc rs s"
    and path: "row_get l lcol \<noteq> VNull \<Longrightarrow> path_ok c sc (Some (EqExpr (Name rcol) (row_get l lcol)))"
    and ok: "\<forall>r \<in> set (right_rows lcol rcol (dicts sc rs) l). pair_ok columns whr (merge_rows lt rt l r)"
  shows "runs (join_row sc rt lt rt lcol rcol columns whr l) s (\<lambda>zs s'.
    mset zs = mset (joined_rows lt rt columns whr l (right_rows lcol rcol (dicts sc rs) l)) \<and> db_table R c T k rt sc rs s')"
proof (cases "row_get l lcol = VNull")
  case True
  then show ?thesis using tab by (simp add: join_row_def right_rows_def joined_rows_def runs_def)
next
  case False
  let ?rs = "right_rows lcol rcol (dicts sc rs) l"
  have rr: "filter (\<lambda>r. row_get r rcol = row_get l lcol) (dicts sc rs) = ?rs" using False by (simp add: right_rows_def)
  show ?thesis
    unfolding join_row_def Let_def if_not_P [OF False] runs_bnd
  proof (rule runs_weaken [OF join_matches_law [OF tab path [OF False]]], unfold rr, elim conjE)
    fix ms s'
    assume ms: "mset ms = mset ?rs" and s': "db_table R c T k rt sc rs s'"
    have "\<forall>r \<in> set ms. pair_ok columns whr (merge_rows lt rt l r)" using ok mset_eq_setD [OF ms] by simp
    then have "join_rows lt rt columns whr l ms = Inr (joined_rows lt rt columns whr l ms)" by (simp add: join_rows_ok joined_rows_def)
    with s' joined_perm [OF ms] show "runs (lift_res (join_rows lt rt columns whr l ms)) s' (\<lambda>zs s'.
        mset zs = mset (joined_rows lt rt columns whr l ?rs) \<and> db_table R c T k rt sc rs s')"
      by (simp add: runs_def)
  qed
qed

lemma collect_law:
  assumes "db_table R c T k rt sc rs s"
    and "\<forall>l \<in> set ls. row_get l lcol \<noteq> VNull \<longrightarrow> path_ok c sc (Some (EqExpr (Name rcol) (row_get l lcol)))"
    and "\<forall>l \<in> set ls. \<forall>r \<in> set (right_rows lcol rcol (dicts sc rs) l). pair_ok columns whr (merge_rows lt rt l r)"
  shows "runs (collect (join_row sc rt lt rt lcol rcol columns whr) ls) s (\<lambda>zs s'.
    mset zs = mset (concat (map (\<lambda>l. joined_rows lt rt columns whr l (right_rows lcol rcol (dicts sc rs) l)) ls)) \<and> db_table R c T k rt sc rs s')"
  using assms
proof (induction ls arbitrary: s)
  case Nil
  then show ?case by (simp add: runs_def)
next
  case (Cons l ls)
  have path: "row_get l lcol \<noteq> VNull \<Longrightarrow> path_ok c sc (Some (EqExpr (Name rcol) (row_get l lcol)))" using Cons.prems(2) by simp
  have ok: "\<forall>r \<in> set (right_rows lcol rcol (dicts sc rs) l). pair_ok columns whr (merge_rows lt rt l r)" using Cons.prems(3) by simp
  show ?case
    unfolding collect.simps runs_bnd
  proof (rule runs_weaken [OF join_row_law [OF Cons.prems(1) path ok]], assumption, elim conjE, goal_cases)
    case (1 ys s1)
    show ?case
      by (rule runs_weaken [OF Cons.IH [OF 1(2)]]) (use Cons.prems(2,3) 1(1) in \<open>simp_all add: runs_def\<close>)
  qed
qed

lemma joined_concat: "concat (map (pair_rows columns whr) (map (\<lambda>(l, r). merge_rows lt rt l r) (concat (map (\<lambda>l. map (Pair l) (f l)) ls)))) =
  concat (map (\<lambda>l. joined_rows lt rt columns whr l (f l)) ls)"
  by (induction ls) (simp_all add: joined_rows_def comp_def)

lemma join_law:
  assumes left: "db_table R c T k lt lsc lrs s" and right: "db_table R c T k rt rsc rrs s"
    and path: "\<forall>l \<in> set (dicts lsc lrs). row_get l lcol \<noteq> VNull \<longrightarrow> path_ok c rsc (Some (EqExpr (Name rcol) (row_get l lcol)))"
    and spec: "join_spec lt rt lcol rcol columns whr (dicts lsc lrs) (dicts rsc rrs) = Inr zs"
  shows "runs (exec_join_select lt rt lcol rcol columns whr) s (\<lambda>ys s'. mset ys = mset zs \<and>
    db_table R c T k lt lsc lrs s' \<and> db_table R c T k rt rsc rrs s')"
proof -
  let ?ls = "dicts lsc lrs" and ?rs = "dicts rsc rrs"
  have pairs: "join_pairs lcol rcol ?ls ?rs = concat (map (\<lambda>l. map (Pair l) (right_rows lcol rcol ?rs l)) ?ls)"
    by (simp add: join_pairs_def right_rows_def)
  from pairs_ok [OF spec [unfolded join_spec_def]]
  have ok: "\<forall>l \<in> set ?ls. \<forall>r \<in> set (right_rows lcol rcol ?rs l). pair_ok columns whr (merge_rows lt rt l r)"
    and zs: "zs = concat (map (\<lambda>l. joined_rows lt rt columns whr l (right_rows lcol rcol ?rs l)) ?ls)"
    unfolding pairs by (force, simp only: joined_concat)
  show ?thesis
    unfolding exec_join_select_def runs_bnd
  proof (rule runs_weaken [OF get_table_law [OF db_tableD(2,3) [OF left]]], elim conjE, goal_cases)
    case (1 sc1 s1)
    show ?case unfolding 1
    proof (rule runs_weaken [OF get_table_law [OF db_tableD(2,3) [OF right]]], elim conjE, goal_cases)
      case (1 sc2 s2)
      show ?case unfolding 1
      proof (rule runs_weaken [OF get_engine_law [OF db_tableD(2,4) [OF left]]], elim conjE, goal_cases)
        case (1 e1 s3)
        show ?case unfolding 1
        proof (rule runs_weaken [OF get_engine_law [OF db_tableD(2,4) [OF right]]], elim conjE, goal_cases)
          case (1 e2 s4)
          show ?case unfolding 1
          proof (rule runs_weaken [OF all_rows_law [OF db_tableD(2,4) [OF left]]], elim conjE, goal_cases)
            case (1 rows s5)
            have tab: "db_table R c T k rt rsc rrs s5" by (rule db_table_kept [OF right 1(2)])
            show ?case unfolding 1(1) dicts_def [symmetric]
              by (rule runs_weaken [OF collect_law [OF tab path ok]]) (use zs left right in \<open>auto simp: db_table_def\<close>)
          qed
        qed
      qed
    qed
  qed
qed

end
