(* ===== verification/Sql_Reopen.thy ===== *)
theory Sql_Reopen
  imports Sql_Schema
begin

section \<open>Closing and reopening a database\<close>

text \<open>
  Closing writes every engine to its files; a database opened on the files has the same rows in its tables and indexes that are in step
  with them (\<open>reopen_database\<close>). The catalog is what \<^verbatim>\<open>catalog.json\<close> holds.
\<close>

subsection \<open>One engine\<close>

lemma flush_files:
  assumes st: "stores s t n a (Suc b) R" and f: "pg_file s \<noteq> None" "pg_wal s \<noteq> None"
  obtains s' fl where "pg_flush s = (Inr (), s')" "session_files s' = (Some fl, Some [])" "on_disk (pg_order s) fl t n"
    "pg_wal s' \<noteq> None" "\<And>w. pg_wal s' = Some w \<Longrightarrow> w_buf w = []"
proof -
  from tree_flush_law [OF st f(1)] obtain s' fl where s': "pg_flush s = (Inr (), s')" "same_files s s'" "pg_file s' = Some fl"
    "on_disk (pg_order s) fl t n" "\<forall>w. pg_wal s' = Some w \<longrightarrow> w_file w = [] \<and> w_buf w = []"
    unfolding runs_def tree_flush_def by auto
  obtain w where w: "pg_wal s' = Some w" using s'(2) f(2) by (auto simp: same_files_def)
  show thesis by (rule that [OF s'(1) _ s'(4)]) (use s'(3,5) w in \<open>simp_all add: session_files_def\<close>)
qed

lemma close_engine:
  assumes "holds_rows R rs (Suc k) e"
  shows "\<exists>f e' e''. closed_files e = (Some f, Some []) \<and> engine_close e = (Inr (), e'') \<and>
    engine_init (Some (Some f, Some [])) 100 = Inr e' \<and> holds_rows R rs (Suc k) e'"
proof -
  obtain t n H where t: "stores (en_tree e) t n (Suc k * (H + 2)) (Suc k * (3 * H + 4)) R" "decodable (bt_es t)" "rows_of (bt_es t) = rs"
    "length rs + Suc k < 2 ^ Suc H" "n + Suc k * (H + 2) \<le> 256" "on_files e" using assms unfolding holds_rows_def by blast
  let ?s = "en_tree e" and ?a = "Suc k * (H + 2)" and ?b = "Suc k * (3 * H + 4)"
  have "Suc (?b - 1) = ?b" by simp
  then have st: "stores ?s t n ?a (Suc (?b - 1)) R" using t(1) by (simp only:)
  have fw: "pg_file ?s \<noteq> None" "pg_wal ?s \<noteq> None" using t(6) by (simp_all add: on_files_def)
  obtain s' f where s': "pg_flush ?s = (Inr (), s')" "session_files s' = (Some f, Some [])" "on_disk (pg_order ?s) f t n"
    "pg_wal s' \<noteq> None" "\<And>w. pg_wal s' = Some w \<Longrightarrow> w_buf w = []"
    by (rule flush_files [OF st fw]) blast
  obtain w where w: "pg_wal s' = Some w" "w_buf w = []" using s'(4,5) by blast
  have close: "if_wal (run_wal (modify wal_close)) s' = (Inr (), s')"
    using w by (simp add: if_wal_def bnd_def run_wal_def wal_close_def wal_fsync_def)
  have files: "closed_files e = (Some f, Some [])"
    using s'(1,2) close by (simp add: closed_files_def bnd_def)
  have run: "engine_close e = (Inr (), e\<lparr>en_tree := s'\<lparr>pg_wal := None, pg_file := None\<rparr>\<rparr>)"
    using s'(1) close by (simp add: engine_close_def tree_close_def pg_close_def bnd_def on_tree_def on_part_def)
  obtain V where V: "holds ?s V n ?a ?b {}" "reps V t" using t(1) by (auto simp: stores_def)
  have less: "\<forall>p \<in> set (bt_pids t). p < n" using reps_pids_less [OF V] by blast
  have st': "bt_ok (pg_order ?s) t" "distinct (bt_pids t)" "sizes (pg_order ?s) R" "recs R (bt_es t)"
    using t(1) by (simp_all add: stores_def)
  have cap: "n + ?a \<le> min 256 NO_NEXT" using t(5) by (simp add: NO_NEXT_def)
  have "3 * (Suc k * (H + 2)) \<le> 3 * 256" using t(5) by (intro mult_le_mono2) linarith
  then have b: "?b < 2 ^ 64" by (simp add: algebra_simps)
  obtain p s2 where s2: "pager_init (Some (Some f, Some [])) 100 (int 256) = Inr p" "tree_init p = Inr s2"
    "pg_order s2 = pg_order ?s" "pg_file s2 = Some f" "pg_wal s2 \<noteq> None" "stores s2 t n ?a ?b R"
    using reopen_law [OF s'(3) st' less cap _ b, of 100] by auto
  let ?e = "\<lparr>en_tree = s2, en_locks = lm_init\<rparr>"
  have "engine_init (Some (Some f, Some [])) 100 = Inr ?e" using s2(1,2) by (simp add: engine_init_def)
  moreover have "holds_rows R rs (Suc k) ?e"
    unfolding holds_rows_def using s2(4-6) t(2-5) by (auto simp: on_files_def)
  ultimately show ?thesis using files run by blast
qed

subsection \<open>All engines\<close>

definition add_files :: "(pystr \<times> engine) list \<Rightarrow> (pystr \<times> db_file) list \<Rightarrow> (pystr \<times> db_file) list" where
  "add_files es fs = fold (\<lambda>(n, e). AList.update n (closed_files e)) es fs"

lemma map_of_add_files:
  "distinct (map fst es) \<Longrightarrow> map_of (add_files es fs) n = (case map_of es n of None \<Rightarrow> map_of fs n | Some e \<Rightarrow> Some (closed_files e))"
  unfolding add_files_def
proof (induction es arbitrary: fs)
  case (Cons x es)
  obtain m e where x: "x = (m, e)" by force
  have "map_of es m = None" using Cons.prems x by (simp add: map_of_eq_None_iff)
  then show ?case using Cons x by (simp add: AList.update_conv' split: option.split)
qed simp

definition closes :: "(pystr \<times> engine) list \<Rightarrow> (pystr \<times> engine) list \<Rightarrow> bool" where
  "closes es d \<longleftrightarrow> distinct (map fst es) \<and> (\<forall>(n, e) \<in> set es. map_of d n = Some e \<and> (\<exists>e'. engine_close e = (Inr (), e')))"

lemma closes_next: "closes ((n, e) # es) d \<Longrightarrow> closes es (AList.update n e' d)"
  unfolding closes_def by (force simp: AList.update_conv')

lemma close_tables:
  assumes "closes es (ex_engines s)"
  shows "\<exists>d. for_each (\<lambda>(name, e). bnd (leave_files name e) (\<lambda>_. on_table name engine_close)) es s =
    (Inr (), s\<lparr>im_files := add_files es (im_files s), ex_engines := d\<rparr>)"
  using assms
proof (induction es arbitrary: s)
  case Nil
  then show ?case by (auto simp: add_files_def intro!: exI [of _ "ex_engines s"])
next
  case (Cons x es)
  obtain n e where x: "x = (n, e)" by force
  obtain e' where e': "map_of (ex_engines s) n = Some e" "engine_close e = (Inr (), e')" using Cons.prems x by (auto simp: closes_def)
  let ?s = "s\<lparr>im_files := AList.update n (closed_files e) (im_files s), ex_engines := AList.update n e' (ex_engines s)\<rparr>"
  have run: "bnd (leave_files n e) (\<lambda>_. on_table n engine_close) s = (Inr (), ?s)"
    using e' by (simp add: bnd_def leave_files_def on_table_def on_item_def)
  have "closes es (ex_engines ?s)" using closes_next Cons.prems x by simp
  from Cons.IH [OF this] run x show ?case by (auto simp: bnd_def add_files_def)
qed

lemma close_indexes:
  fixes s :: database
  assumes "closes es (im_engines s)"
  shows "\<exists>d. for_each (\<lambda>(name, e). bnd (leave_files name e) (\<lambda>_. on_index name engine_close)) es s =
    (Inr (), s\<lparr>im_engines := d, im_files := add_files es (im_files s)\<rparr>)"
  using assms
proof (induction es arbitrary: s)
  case Nil
  then show ?case by (auto simp: add_files_def intro!: exI [of _ "im_engines s"])
next
  case (Cons x es)
  obtain n e where x: "x = (n, e)" by force
  obtain e' where e': "map_of (im_engines s) n = Some e" "engine_close e = (Inr (), e')" using Cons.prems x by (auto simp: closes_def)
  let ?s = "s\<lparr>im_engines := AList.update n e' (im_engines s), im_files := AList.update n (closed_files e) (im_files s)\<rparr>"
  have run: "bnd (leave_files n e) (\<lambda>_. on_index n engine_close) s = (Inr (), ?s)"
    using e' by (simp add: bnd_def leave_files_def on_index_def on_item_def)
  have "closes es (im_engines ?s)" using closes_next Cons.prems x by simp
  from Cons.IH [OF this] run x show ?case by (auto simp: bnd_def add_files_def)
qed

lemma db_close_run:
  assumes "closes (ex_engines s) (ex_engines s)" "closes (im_engines s) (im_engines s)"
  shows "db_close s = (Inr (), s\<lparr>im_engines := [], im_files := add_files (im_engines s) (add_files (ex_engines s) (im_files s)), ex_engines := []\<rparr>)"
proof -
  obtain d where d: "for_each (\<lambda>(name, e). bnd (leave_files name e) (\<lambda>_. on_table name engine_close)) (ex_engines s) s =
    (Inr (), s\<lparr>im_files := add_files (ex_engines s) (im_files s), ex_engines := d\<rparr>)" using close_tables [OF assms(1)] by blast
  let ?s = "s\<lparr>im_files := add_files (ex_engines s) (im_files s), ex_engines := []\<rparr>"
  have "closes (im_engines s) (im_engines ?s)" using assms(2) by simp
  from close_indexes [OF this] obtain d' where "for_each (\<lambda>(name, e). bnd (leave_files name e) (\<lambda>_. on_index name engine_close)) (im_engines s) ?s =
    (Inr (), ?s\<lparr>im_engines := d', im_files := add_files (im_engines s) (im_files ?s)\<rparr>)" by blast
  with d show ?thesis by (simp add: db_close_def im_close_def bnd_def)
qed

definition opened :: "(pystr \<Rightarrow> engine) \<Rightarrow> pystr list \<Rightarrow> (pystr \<times> engine) list \<Rightarrow> (pystr \<times> engine) list" where
  "opened E ns d = fold (\<lambda>n. AList.update n (E n)) ns d"

lemma open_file_run:
  "map_of (im_files s) n = Some f \<Longrightarrow> engine_init (Some f) 100 = Inr e \<Longrightarrow> open_file n s = (Inr e, s)"
  by (simp add: open_file_def bnd_def)

lemma open_tables:
  "\<forall>n \<in> set ns. \<exists>f. map_of (im_files s) n = Some f \<and> engine_init (Some f) 100 = Inr (E n) \<Longrightarrow>
    for_each reopen_engine ns s = (Inr (), s\<lparr>ex_engines := opened E ns (ex_engines s)\<rparr>)"
  by (induction ns arbitrary: s) (auto simp: opened_def bnd_def reopen_engine_def open_file_run)

lemma open_indexes:
  fixes s :: database
  shows "\<forall>n \<in> set ns. \<exists>f. map_of (im_files s) n = Some f \<and> engine_init (Some f) 100 = Inr (E n) \<Longrightarrow>
    for_each open_engine ns s = (Inr (), s\<lparr>im_engines := opened E ns (im_engines s)\<rparr>)"
  by (induction ns arbitrary: s) (auto simp: opened_def bnd_def open_engine_def open_file_run)

lemma map_of_opened: "map_of (opened E ns d) n = (if n \<in> set ns then Some (E n) else map_of d n)"
  by (induction ns arbitrary: d) (auto simp: opened_def AList.update_conv')

lemma opened_holds:
  assumes "dom D = set ns" "\<And>n x. D n = Some x \<Longrightarrow> P x (E n)"
  shows "dict_holds P D (opened E ns [])"
proof -
  have "distinct (map fst d) \<Longrightarrow> distinct (map fst (opened E ns d))" for d
    by (induction ns arbitrary: d) (simp_all add: opened_def distinct_update)
  moreover have "n \<in> set ns \<longleftrightarrow> D n \<noteq> None" for n using assms(1) by auto
  ultimately show ?thesis using assms(2) by (auto simp: dict_holds_def map_of_opened)
qed

subsection \<open>The database\<close>

lemma dict_closes:
  assumes d: "dict_holds P D d" and P: "\<And>x e. P x e \<Longrightarrow> \<exists>rs. holds_rows R rs (Suc k) e"
  shows "closes d d"
proof -
  have "map_of d n = Some e \<and> (\<exists>e'. engine_close e = (Inr (), e'))" if ne: "(n, e) \<in> set d" for n e
  proof -
    have m: "map_of d n = Some e" using d ne by (simp add: dict_holds_def)
    then obtain x where "D n = Some x" using d by (cases "D n") (auto simp: dict_holds_def)
    then have "P x e" using dict_holdsE [OF d] m by fastforce
    from P [OF this] obtain rs where "holds_rows R rs (Suc k) e" ..
    from close_engine [OF this] show ?thesis using m by blast
  qed
  then show ?thesis using d by (auto simp: closes_def dict_holds_def)
qed

definition reopened :: "(pystr \<times> db_file) list \<Rightarrow> pystr \<Rightarrow> engine" where
  "reopened fs n = projr (engine_init (Some (the (map_of fs n))) 100)"

lemma reopened_engine:
  assumes "holds_rows R rs (Suc k) e" "map_of fs n = Some (closed_files e)"
  shows "engine_init (Some (closed_files e)) 100 = Inr (reopened fs n) \<and> holds_rows R rs (Suc k) (reopened fs n)"
  using close_engine [OF assms(1)] assms(2) by (auto simp: reopened_def)

lemma reopen_database:
  assumes db: "db_ok R c T (Suc k) s" and saved: "catalog_init (ca_file c) = Inr c" and T: "dom T = set (all_tables c)"
    and apart: "set (all_tables c) \<inter> set (map is_name (all_indexes c)) = {}"
  shows "\<exists>s1 s2. db_close s = (Inr (), s1) \<and> db_init (ca_file c) (im_files s1) = Inr s2 \<and> db_ok R c T (Suc k) s2"
proof -
  let ?X = "index_owners c T" and ?names = "map is_name (all_indexes c)"
  have ok: "tables_ok c T" and h: "im_catalog s = c" "dict_holds (\<lambda>rs. holds_rows R rs (Suc k)) T (ex_engines s)"
    "dict_holds (\<lambda>own. index_holds R own (Suc k)) ?X (im_engines s)"
    using db by (simp_all add: db_ok_def db_holds_def)
  have names: "?names = map fst (ca_indexes c)" using ok by (auto simp: tables_ok_def catalog_ok_def named_def all_indexes_def)
  have X: "dom ?X = set ?names"
    unfolding names by (auto simp: index_owners_def dom_def map_of_eq_None_iff split: option.splits)
  let ?fs = "add_files (im_engines s) (add_files (ex_engines s) (im_files s))"
  have distinct: "distinct (map fst (ex_engines s))" "distinct (map fst (im_engines s))" using h(2,3) by (simp_all add: dict_holds_def)
  have "closes (ex_engines s) (ex_engines s)" by (rule dict_closes [OF h(2)]) blast
  moreover have "closes (im_engines s) (im_engines s)" by (rule dict_closes [OF h(3)]) (auto simp: index_holds_def)
  ultimately have close: "db_close s = (Inr (), s\<lparr>im_engines := [], im_files := ?fs, ex_engines := []\<rparr>)" by (rule db_close_run)
  have table: "\<exists>e. map_of ?fs n = Some (closed_files e) \<and> holds_rows R rs (Suc k) e" if "T n = Some rs" for n rs
  proof -
    have "n \<in> set (all_tables c)" using that T by blast
    then have "?X n = None" using X apart by auto
    then have "map_of (im_engines s) n = None" using h(3) by (simp add: dict_holds_def)
    then show ?thesis using dict_holdsE [OF h(2) that] by (force simp: map_of_add_files distinct)
  qed
  have index: "\<exists>e. map_of ?fs n = Some (closed_files e) \<and> index_holds R own (Suc k) e" if "?X n = Some own" for n own
    using dict_holdsE [OF h(3) that] by (force simp: map_of_add_files distinct)
  let ?s = "\<lparr>im_catalog = c, im_engines = [], im_files = ?fs, ex_engines = [], ex_index_mgr = True\<rparr>"
  let ?s2 = "?s\<lparr>im_engines := opened (reopened ?fs) ?names [], ex_engines := opened (reopened ?fs) (all_tables c) []\<rparr>"
  have T_ok: "holds_rows R rs (Suc k) (reopened ?fs n)" if "T n = Some rs" for n rs
    using table [OF that] reopened_engine by blast
  have X_ok: "index_holds R own (Suc k) (reopened ?fs n)" if "?X n = Some own" for n own
    using index [OF that] reopened_engine unfolding index_holds_def by meson
  have tables: "for_each reopen_engine (all_tables c) ?s = (Inr (), ?s\<lparr>ex_engines := opened (reopened ?fs) (all_tables c) []\<rparr>)"
  proof -
    have "\<exists>f. map_of (im_files ?s) n = Some f \<and> engine_init (Some f) 100 = Inr (reopened ?fs n)" if n: "n \<in> set (all_tables c)" for n
    proof -
      obtain rs where "T n = Some rs" using n T by blast
      then show ?thesis using table [of n rs] reopened_engine by (metis index_manager.select_convs(3))
    qed
    then show ?thesis using open_tables [of "all_tables c" ?s] by simp
  qed
  have indexes: "for_each open_engine ?names (?s\<lparr>ex_engines := opened (reopened ?fs) (all_tables c) []\<rparr>) = (Inr (), ?s2)"
  proof -
    have "\<exists>f. map_of ?fs n = Some f \<and> engine_init (Some f) 100 = Inr (reopened ?fs n)" if n: "n \<in> set ?names" for n
    proof -
      obtain own where "?X n = Some own" using n X by blast
      then show ?thesis using index [of n own] reopened_engine unfolding index_holds_def by metis
    qed
    then show ?thesis using open_indexes [of ?names "?s\<lparr>ex_engines := opened (reopened ?fs) (all_tables c) []\<rparr>" "reopened ?fs"] by simp
  qed
  have each: "for_each (\<lambda>idx. open_engine (is_name idx)) xs = for_each open_engine (map is_name xs)" for xs
    by (induction xs) auto
  have "db_init (ca_file c) ?fs = Inr ?s2"
    using tables indexes by (simp add: db_init_def saved bnd_def open_all_def each)
  moreover have "db_ok R c T (Suc k) ?s2"
    using ok opened_holds [of T "all_tables c" "\<lambda>rs. holds_rows R rs (Suc k)" "reopened ?fs"] T T_ok
      opened_holds [of ?X ?names "\<lambda>own. index_holds R own (Suc k)" "reopened ?fs"] X X_ok
    by (simp add: db_ok_def db_holds_def)
  moreover have "im_files (s\<lparr>im_engines := [], im_files := ?fs, ex_engines := []\<rparr>) = ?fs" by simp
  ultimately show ?thesis using close by metis
qed

end
