(* ===== verification/Sql_Properties.thy ===== *)
theory Sql_Properties
  imports Sql_Reopen Sql_Join
begin

section \<open>Properties of the SQL layer\<close>

text \<open>
  The statements of the properties use: \<open>db_table R c T k t sc rs s\<close>, the state \<open>s\<close> has the catalog \<open>c\<close>, its tables have the rows
  \<open>T\<close>, every index is in step with its table, \<open>k\<close> more writes have room, and the table \<open>t\<close> has the schema \<open>sc\<close> and the rows
  \<open>rs\<close>. The hypotheses on rows are what the executor does not check: column types, a non-negative primary key, records that fit a page.
\<close>

subsection \<open>A database for the witnesses\<close>

definition tn :: pystr where "tn = py ''t''"
definition sample_columns :: "column_def list" where
  "sample_columns = [id_column, \<lparr>cd_name = py ''a'', cd_type = INT_TYPE, cd_primary_key = False, cd_fk_table = None, cd_fk_col = None\<rparr>]"
definition sample_schema :: table_schema where
  "sample_schema = \<lparr>ts_name = tn, ts_columns = [\<lparr>cs_name = py ''id'', cs_type = INT_TYPE, cs_primary_key = True\<rparr>,
     \<lparr>cs_name = py ''a'', cs_type = INT_TYPE, cs_primary_key = False\<rparr>], ts_pk_col = py ''id'', ts_pk_idx = 0\<rparr>"
definition sample_catalog :: catalog where
  "sample_catalog = snd (create_table tn sample_columns \<lparr>ca_file = None, ca_tables = [], ca_indexes = [], ca_fkeys = []\<rparr>)"
definition sample_index :: index_schema where
  "sample_index = \<lparr>is_name = py ''i'', is_table = tn, is_col = py ''a'', is_col_idx = 1\<rparr>"
definition indexed_catalog :: catalog where
  "indexed_catalog = snd (cat_create_index (py ''i'') tn (py ''a'') sample_catalog)"
definition sample_rows :: "(int \<times> val list) list" where
  "sample_rows = [(1, [VInt 1, VInt 7]), (2, [VInt 2, VInt 8])]"

lemmas sample_defs = sample_columns_def sample_schema_def sample_index_def id_column_def

lemma sample_create:
  "create_table tn sample_columns \<lparr>ca_file = None, ca_tables = [], ca_indexes = [], ca_fkeys = []\<rparr> = (Inr sample_schema, sample_catalog)"
  by (simp add: sample_catalog_def create_table_def sample_defs bnd_def Let_def catalog_save_def)

lemma sample_tables: "ca_tables sample_catalog = [(tn, sample_schema)]" "ca_indexes sample_catalog = []" "ca_fkeys sample_catalog = []"
  by (simp_all add: sample_catalog_def create_table_def sample_defs bnd_def Let_def catalog_save_def)

lemma sample_create_index: "cat_create_index (py ''i'') tn (py ''a'') sample_catalog = (Inr sample_index, indexed_catalog)"
  unfolding indexed_catalog_def
  by (simp add: cat_create_index_def get_table_def dict_get_def sample_tables bnd_def Let_def catalog_save_def sample_defs)

lemma indexed_tables: "ca_tables indexed_catalog = [(tn, sample_schema)]" "ca_indexes indexed_catalog = [(py ''i'', sample_index)]"
  "ca_fkeys indexed_catalog = []"
  by (simp_all add: indexed_catalog_def cat_create_index_def get_table_def dict_get_def sample_tables bnd_def Let_def catalog_save_def sample_defs)

lemma sample_lookups [simp]:
  "get_indexes_for_table sample_catalog tn = []" "get_fkeys_from sample_catalog tn = []"
  "get_indexes_for_table indexed_catalog tn = [sample_index]" "get_fkeys_from indexed_catalog tn = []" "get_fkeys_to indexed_catalog tn = []"
  by (simp_all add: get_indexes_for_table_def get_fkeys_from_def get_fkeys_to_def sample_tables indexed_tables sample_defs)

lemma sample_row:
  assumes "0 \<le> key" "key < 2 ^ 31" "- (2 ^ 31) \<le> x" "x < 2 ^ 31"
  shows "row_fills sample_schema key [VInt key, VInt x]" "row_fits 28 key [VInt key, VInt x]"
proof -
  show "row_fills sample_schema key [VInt key, VInt x]" by (simp add: row_fills_def sample_schema_def)
  have "row_ok [VInt key, VInt x]" using assms by (simp add: row_ok_def)
  then show "row_fits 28 key [VInt key, VInt x]"
    using encode_record_ok [of "[VInt key, VInt x]"] assms by (auto simp: row_fits_def key_ok_def record_size_def)
qed

lemma sample_database: "\<exists>s. db_table 28 sample_catalog [tn \<mapsto> sample_rows] 34 tn sample_schema sample_rows s \<and> im_files s = []"
proof -
  let ?c = "\<lparr>ca_file = None, ca_tables = [], ca_indexes = [], ca_fkeys = []\<rparr>"
  let ?s = "\<lparr>im_catalog = ?c, im_engines = [], im_files = [], ex_engines = [], ex_index_mgr = True\<rparr>"
  have ok: "db_ok 28 ?c (\<lambda>_. None) 36 ?s"
    by (simp add: db_ok_def tables_ok_def catalog_ok_def named_def db_holds_def dict_holds_def index_owners_def)
  have cols: "cat_op_ok (CreateTable tn sample_columns)" "distinct (map cd_name sample_columns)" by (simp_all add: sample_defs)
  obtain s1 where s1: "db_table 28 sample_catalog [tn \<mapsto> []] 36 tn sample_schema [] s1"
    using create_table_law [OF ok sample_create cols] by auto
  have s1': "db_table 28 sample_catalog [tn \<mapsto> []] (step_cost sample_catalog tn + 35) tn sample_schema [] s1" using s1 by (simp add: step_cost_def)
  obtain s2 where s2: "db_table 28 sample_catalog [tn \<mapsto> [(1, [VInt 1, VInt 7])]] 35 tn sample_schema [(1, [VInt 1, VInt 7])] s2"
    using insert_law [OF s1', of 1 "[VInt 1, VInt 7]"] sample_row [of 1 7] by (auto simp: cols_ok_def refs_typed_def rows_room_def)
  have s2': "db_table 28 sample_catalog [tn \<mapsto> [(1, [VInt 1, VInt 7])]] (step_cost sample_catalog tn + 34) tn sample_schema [(1, [VInt 1, VInt 7])] s2"
    using s2 by (simp add: step_cost_def)
  obtain s3 where s3: "db_table 28 sample_catalog [tn \<mapsto> sample_rows] 34 tn sample_schema sample_rows s3"
    using insert_law [OF s2', of 2 "[VInt 2, VInt 8]"] sample_row [of 2 8] by (auto simp: cols_ok_def refs_typed_def rows_room_def sample_rows_def)
  have "db_table 28 sample_catalog [tn \<mapsto> sample_rows] 34 tn sample_schema sample_rows (s3\<lparr>im_files := []\<rparr>)"
    using s3 by (simp add: db_table_def db_ok_def db_holds_def)
  then show ?thesis by (intro exI [of _ "s3\<lparr>im_files := []\<rparr>"]) auto
qed

lemma few_own:
  assumes "\<And>v. own v \<subseteq> K" "finite K" "card K \<le> 4" "K \<subseteq> {0..<2 ^ 31}"
  shows "own_room 28 own"
  unfolding own_room_def
proof
  fix v
  have "card (own v) \<le> 4" using card_mono [OF assms(2,1), of v] assms(3) by linarith
  then show "own v \<subseteq> {0..<2 ^ 31} \<and> finite (own v) \<and> 4 + 5 * card (own v) \<le> 28"
    using assms(1) [of v] assms(2,4) finite_subset by (intro conjI) (blast, blast, linarith)
qed

lemma few_owners:
  assumes "\<forall>(key, r) \<in> set rs. 0 \<le> key \<and> key < 2 ^ 31" "length rs \<le> 4"
  shows "own_room 28 (owners ci rs)"
proof (rule few_own [of _ "fst ` set rs"])
  show "owners ci rs v \<subseteq> fst ` set rs" for v by (force simp: owners_def dest: map_of_SomeD)
  show "card (fst ` set rs) \<le> 4" using card_image_le [of "set rs" fst] card_length [of rs] assms(2) by simp
  show "fst ` set rs \<subseteq> {0..<2 ^ 31}" using assms(1) by fastforce
qed simp

lemma indexed_database: "\<exists>s. db_table 28 indexed_catalog [tn \<mapsto> sample_rows] 32 tn sample_schema sample_rows s"
proof -
  let ?T = "[tn \<mapsto> sample_rows]"
  obtain s where s: "db_table 28 sample_catalog ?T 34 tn sample_schema sample_rows s" "im_files s = []" using sample_database by blast
  have s': "db_table 28 sample_catalog ?T (length sample_rows + 32) tn sample_schema sample_rows s" using s(1) by (simp add: sample_rows_def)
  have "runs (exec_create_index (py ''i'') tn (py ''a'')) s (\<lambda>r s'. r = [] \<and> db_table 28 indexed_catalog ?T 32 tn sample_schema sample_rows s' \<and>
      has_index_on indexed_catalog tn (Name (py ''a'')) \<noteq> None)"
    by (rule create_index_law [OF s' sample_create_index])
      (use few_owners [of sample_rows "is_col_idx sample_index"] in \<open>auto simp: s(2) sample_rows_def sample_index_def col_ok_def key_ok_def\<close>)
  then show ?thesis unfolding runs_def by blast
qed

text \<open>A second table whose column \<open>r\<close> refers to the first.\<close>

definition un :: pystr where "un = py ''u''"
definition child_schema :: table_schema where
  "child_schema = \<lparr>ts_name = un, ts_columns = [\<lparr>cs_name = py ''id'', cs_type = INT_TYPE, cs_primary_key = True\<rparr>,
     \<lparr>cs_name = py ''r'', cs_type = INT_TYPE, cs_primary_key = False\<rparr>], ts_pk_col = py ''id'', ts_pk_idx = 0\<rparr>"
definition child_ref :: fkey_schema where
  "child_ref = \<lparr>fk_child_table = un, fk_child_col = py ''r'', fk_child_col_idx = 1, fk_parent_table = tn, fk_parent_col = py ''id''\<rparr>"
definition ref_catalog :: catalog where
  "ref_catalog = snd (create_table un [id_column, ref_column tn] sample_catalog)"

lemma names_differ: "tn \<noteq> un" "un \<noteq> tn" by (simp_all add: tn_def un_def py_def)

lemma ref_create: "create_table un [id_column, ref_column tn] sample_catalog = (Inr child_schema, ref_catalog)"
  unfolding ref_catalog_def
  by (simp add: create_table_def sample_tables names_differ bnd_def Let_def catalog_save_def child_schema_def id_column_def ref_column_def)

lemma ref_tables: "ca_tables ref_catalog = [(tn, sample_schema), (un, child_schema)]" "ca_indexes ref_catalog = []" "ca_fkeys ref_catalog = [child_ref]"
  unfolding ref_catalog_def child_ref_def child_schema_def
  by (simp_all add: create_table_def sample_tables names_differ bnd_def Let_def catalog_save_def id_column_def ref_column_def)

lemma ref_lookups [simp]:
  "get_indexes_for_table ref_catalog t = []" "get_fkeys_from ref_catalog un = [child_ref]" "get_fkeys_to ref_catalog tn = [child_ref]"
  by (simp_all add: get_indexes_for_table_def get_fkeys_from_def get_fkeys_to_def ref_tables child_ref_def)

lemma ref_database: "\<exists>s. db_table 28 ref_catalog [tn \<mapsto> sample_rows, un \<mapsto> []] 34 un child_schema [] s"
proof -
  obtain s where s: "db_table 28 sample_catalog [tn \<mapsto> sample_rows] 34 tn sample_schema sample_rows s" "im_files s = []"
    using sample_database by blast
  have ok: "db_ok 28 sample_catalog [tn \<mapsto> sample_rows] 34 s" using s(1) by (simp add: db_table_def)
  have cols: "cat_op_ok (CreateTable un [id_column, ref_column tn])" "distinct (map cd_name [id_column, ref_column tn])"
    by (simp_all add: id_column_def ref_column_def py_def)
  show ?thesis using create_table_law [OF ok ref_create cols] s(2) by auto
qed

lemma child_row:
  assumes "0 \<le> key" "key < 2 ^ 31" "0 \<le> x" "x < 2 ^ 31"
  shows "row_fills child_schema key [VInt key, VInt x]" "cols_ok ref_catalog un [VInt key, VInt x]" "refs_typed ref_catalog un [VInt key, VInt x]"
    "row_fits 28 key [VInt key, VInt x]" "rows_room 28 ref_catalog un rs"
  using sample_row [of key x] assms by (simp_all add: row_fills_def child_schema_def cols_ok_def refs_typed_def child_ref_def rows_room_def)

lemma child_refs: "refs_ok ref_catalog T \<longleftrightarrow> (\<forall>rs. T un = Some rs \<longrightarrow> (\<forall>(_, r) \<in> set rs. parent_known T r child_ref))"
  by (simp add: refs_ok_def ref_tables) (simp add: child_ref_def)

subsection \<open>Queries\<close>

text \<open>C18: SELECT answers the same on every access path: whichever of the five is taken, primary key or index, equality or range, or the
  full scan, the result is up to order that of filtering all rows of the table with the condition and projecting them, errors of the
  condition and of the projection included, and the database is as before. The literals for the primary key and for indexed columns are
  integers.\<close>

theorem select_any_path:
  assumes "db_table R c T k t sc rs s" "path_ok c sc whr"
  shows "\<exists>r s'. execute (SelectStmt t columns whr) s = (r, s') \<and> db_table R c T k t sc rs s' \<and> same_rows r (select_spec sc columns whr rs)"
  using select_law [OF assms] by simp

theorem select_any_path_witness:
  "\<exists>s s'. execute (SelectStmt tn [Name (py ''id'')] (Some (EqExpr (Name (py ''a'')) (VInt 8)))) s = (Inr [[(py ''id'', VInt 2)]], s')"
proof -
  obtain s T where s: "db_table 28 indexed_catalog T 32 tn sample_schema sample_rows s" using indexed_database by blast
  let ?whr = "Some (EqExpr (Name (py ''a'')) (VInt 8))"
  have spec: "select_spec sample_schema [Name (py ''id'')] ?whr sample_rows = Inr [[(py ''id'', VInt 2)]]"
    by (simp add: select_spec_def matching_def eval_expr_def to_dict_def dict_of_def row_get_def project_def item_def STAR_def
        sample_rows_def sample_schema_def)
  obtain r s' where r: "execute (SelectStmt tn [Name (py ''id'')] ?whr) s = (r, s')" "same_rows r (Inr [[(py ''id'', VInt 2)]])"
    using select_any_path [OF s, of ?whr "[Name (py ''id'')]"] by (auto simp: spec)
  have "r = Inr [[(py ''id'', VInt 2)]]" using r(2) by (cases r) auto
  then show ?thesis using r(1) by blast
qed

text \<open>C19: JOIN answers like the nested loop: whether it finds the rows of the right table by primary key, by an index or in a scan, the
  result is, up to order, the projection of the merged pairs with the same value in the two columns, not NULL, that satisfy the
  condition. The values of the left column are integers when the right one is the primary key or has an index.\<close>

theorem join_nested_loop:
  assumes "db_table R c T k lt lsc lrs s" "db_table R c T k rt rsc rrs s"
    and "\<forall>l \<in> set (dicts lsc lrs). row_get l lcol \<noteq> VNull \<longrightarrow> path_ok c rsc (Some (EqExpr (Name rcol) (row_get l lcol)))"
    and "join_spec lt rt lcol rcol columns whr (dicts lsc lrs) (dicts rsc rrs) = Inr zs"
  shows "\<exists>ys s'. execute (JoinSelectStmt lt rt lcol rcol columns whr) s = (Inr ys, s') \<and> mset ys = mset zs \<and>
    db_table R c T k lt lsc lrs s' \<and> db_table R c T k rt rsc rrs s'"
  using join_law [OF assms] by (auto simp: runs_def)

theorem join_nested_loop_witness:
  "\<exists>s s'. execute (JoinSelectStmt tn tn (py ''a'') (py ''a'') [ColRef tn (py ''id'')] (Some (CompareExpr (Name (py ''id'')) (py ''<'') (VInt 2)))) s
     = (Inr [[(py ''t.id'', VInt 1)]], s')"
proof -
  let ?whr = "Some (CompareExpr (Name (py ''id'')) (py ''<'') (VInt 2))"
  obtain s T where s: "db_table 28 indexed_catalog T 32 tn sample_schema sample_rows s" using indexed_database by blast
  have rows: "dicts sample_schema sample_rows =
      [[(py ''id'', VInt 1), (py ''a'', VInt 7)], [(py ''id'', VInt 2), (py ''a'', VInt 8)]]"
    by (simp add: dicts_def sample_rows_def sample_schema_def to_dict_def dict_of_def)
  have names: "dotted tn (py ''id'') = py ''t.id''" "dotted tn (py ''a'') = py ''t.a''" by (simp_all add: dotted_def tn_def py_def)
  have path: "\<forall>l \<in> set (dicts sample_schema sample_rows). row_get l (py ''a'') \<noteq> VNull \<longrightarrow>
      path_ok indexed_catalog sample_schema (Some (EqExpr (Name (py ''a'')) (row_get l (py ''a''))))"
    by (simp add: rows row_get_def)
  have spec: "join_spec tn tn (py ''a'') (py ''a'') [ColRef tn (py ''id'')] ?whr (dicts sample_schema sample_rows) (dicts sample_schema sample_rows)
      = Inr [[(py ''t.id'', VInt 1)]]"
    by (simp add: join_spec_def join_pairs_def rows row_get_def merge_rows_def names eval_join_expr_def compare_op_def project_join_def
        dict_of_def STAR_def)
  obtain ys s' where r: "execute (JoinSelectStmt tn tn (py ''a'') (py ''a'') [ColRef tn (py ''id'')] ?whr) s = (Inr ys, s')"
    "mset ys = mset [[(py ''t.id'', VInt 1)]]" using join_nested_loop [OF s s path spec] by blast
  then have "ys = [[(py ''t.id'', VInt 1)]]" by simp
  with r(1) show ?thesis by blast
qed

subsection \<open>Changes\<close>

text \<open>C20: INSERT of a new key: the row is stored, every index of the table has its entry and every reference of the database still has its
  parent; if a reference of the row has none, the statement raises and the rows are as before.\<close>

theorem insert_new_row:
  assumes "db_table R c T (step_cost c t + k) t sc rs s" "refs_ok c T" "map_of rs key = None"
    and "row_fills sc key r" "cols_ok c t r" "refs_typed c t r" "row_fits R key r" "rows_room R c t (ins_sorted key r rs)"
  shows "\<exists>res rs' s'. execute (InsertStmt t r) s = (res, s') \<and> db_table R c (T(t \<mapsto> rs')) k t sc rs' s' \<and> refs_ok c (T(t \<mapsto> rs')) \<and>
    (if \<forall>fk \<in> set (get_fkeys_from c t). parent_known T r fk then res = Inr [] \<and> rs' = ins_sorted key r rs else res = Inl ExecutionError \<and> rs' = rs)"
proof -
  have same: "T(t \<mapsto> rs) = T" using db_tableD(4) [OF assms(1)] by (simp add: fun_upd_idem)
  obtain s' where s': "execute (InsertStmt t r) s = (if \<forall>fk \<in> set (get_fkeys_from c t). parent_known T r fk then (Inr [], s') else (Inl ExecutionError, s'))"
    "if \<forall>fk \<in> set (get_fkeys_from c t). parent_known T r fk
     then db_table R c (T(t \<mapsto> ins_sorted key r rs)) k t sc (ins_sorted key r rs) s' else db_table R c T k t sc rs s'"
    using insert_law [OF assms(1,4-7,3,8)] by auto
  show ?thesis
  proof (cases "\<forall>fk \<in> set (get_fkeys_from c t). parent_known T r fk")
    case True
    have "refs_ok c (T(t \<mapsto> ins_sorted key r rs))"
      by (rule refs_insert [OF assms(2) db_tableD(4) [OF assms(1)] table_facts(2) [OF assms(1)] True])
    then show ?thesis using s' True by (intro exI [of _ "Inr []"] exI [of _ "ins_sorted key r rs"] exI [of _ s']) simp
  next
    case False
    then show ?thesis using s' assms(2) by (intro exI [of _ "Inl ExecutionError"] exI [of _ rs] exI [of _ s']) (simp only: same if_False simp_thms)
  qed
qed

theorem insert_new_row_witness:
  "(\<exists>T s s'. execute (InsertStmt tn [VInt 3, VInt 7]) s = (Inr [], s') \<and>
     db_table 28 indexed_catalog T 29 tn sample_schema (sample_rows @ [(3, [VInt 3, VInt 7])]) s') \<and>
   (\<exists>s s1 s2. execute (InsertStmt un [VInt 5, VInt 2]) s = (Inr [], s1) \<and>
     db_table 28 ref_catalog [tn \<mapsto> sample_rows, un \<mapsto> [(5, [VInt 5, VInt 2])]] 33 un child_schema [(5, [VInt 5, VInt 2])] s1 \<and>
     execute (InsertStmt un [VInt 6, VInt 9]) s1 = (Inl ExecutionError, s2) \<and>
     db_table 28 ref_catalog [tn \<mapsto> sample_rows, un \<mapsto> [(5, [VInt 5, VInt 2])]] 32 un child_schema [(5, [VInt 5, VInt 2])] s2)"
proof
  obtain s T where "db_table 28 indexed_catalog T 32 tn sample_schema sample_rows s" using indexed_database by blast
  then have s: "db_table 28 indexed_catalog T (step_cost indexed_catalog tn + 29) tn sample_schema sample_rows s" by (simp add: step_cost_def)
  have "rows_room 28 indexed_catalog tn (ins_sorted 3 [VInt 3, VInt 7] sample_rows)"
    using few_owners by (simp add: rows_room_def sample_rows_def)
  moreover have "refs_ok indexed_catalog T" by (simp add: refs_ok_def indexed_tables)
  ultimately show "\<exists>T s s'. execute (InsertStmt tn [VInt 3, VInt 7]) s = (Inr [], s') \<and>
     db_table 28 indexed_catalog T 29 tn sample_schema (sample_rows @ [(3, [VInt 3, VInt 7])]) s'"
    using insert_new_row [OF s, of 3 "[VInt 3, VInt 7]"] sample_row [of 3 7]
    by (auto simp: sample_rows_def cols_ok_def sample_index_def col_ok_def key_ok_def refs_typed_def)
next
  let ?T = "[tn \<mapsto> sample_rows, un \<mapsto> []]" and ?rs = "[(5, [VInt 5, VInt 2])] :: (int \<times> val list) list"
  let ?T' = "[tn \<mapsto> sample_rows, un \<mapsto> ?rs]"
  obtain s where "db_table 28 ref_catalog ?T 34 un child_schema [] s" using ref_database by blast
  then have s: "db_table 28 ref_catalog ?T (step_cost ref_catalog un + 33) un child_schema [] s" by (simp add: step_cost_def)
  have refs: "refs_ok ref_catalog ?T" "refs_ok ref_catalog ?T'"
    by (simp_all add: child_refs) (simp add: parent_known_def child_ref_def names_differ sample_rows_def)
  have known: "parent_known ?T [VInt 5, VInt 2] child_ref" "\<not> parent_known ?T' [VInt 6, VInt 9] child_ref"
    by (simp_all add: parent_known_def child_ref_def names_differ sample_rows_def)
  obtain s1 where s1: "execute (InsertStmt un [VInt 5, VInt 2]) s = (Inr [], s1)" "db_table 28 ref_catalog ?T' 33 un child_schema ?rs s1"
    using insert_new_row [OF s refs(1), of 5 "[VInt 5, VInt 2]"] child_row [of 5 2] known(1) by auto
  from s1(2) have s1': "db_table 28 ref_catalog ?T' (step_cost ref_catalog un + 32) un child_schema ?rs s1" by (simp add: step_cost_def)
  obtain s2 where "execute (InsertStmt un [VInt 6, VInt 9]) s1 = (Inl ExecutionError, s2)" "db_table 28 ref_catalog ?T' 32 un child_schema ?rs s2"
    using insert_new_row [OF s1' refs(2), of 6 "[VInt 6, VInt 9]"] child_row [of 6 9] known(2) by auto
  with s1 show "\<exists>s s1 s2. execute (InsertStmt un [VInt 5, VInt 2]) s = (Inr [], s1) \<and> db_table 28 ref_catalog ?T' 33 un child_schema ?rs s1 \<and>
     execute (InsertStmt un [VInt 6, VInt 9]) s1 = (Inl ExecutionError, s2) \<and> db_table 28 ref_catalog ?T' 32 un child_schema ?rs s2" by blast
qed

text \<open>C21: UPDATE sets the assigned columns of exactly the rows that satisfy the condition, whatever the order in which the access path gives
  them, leaves every other row, and every index follows.\<close>

theorem update_sets_columns:
  assumes "db_table R c T (length (hits sc whr rs) * step_cost c t + k) t sc rs s" "path_ok c sc whr" "matching sc whr rs = Inr ys"
    and "assigns_ok sc asgs" "new_rows_ok R c t sc asgs (hits sc whr rs)"
    and "\<And>i. i \<in> set (get_indexes_for_table c t) \<Longrightarrow> own_room R (\<lambda>v. owners (is_col_idx i) rs v \<union> owners (is_col_idx i) (updated sc asgs whr rs) v)"
  shows "\<exists>s'. execute (UpdateStmt t asgs whr) s = (Inr [], s') \<and> db_table R c (T(t \<mapsto> updated sc asgs whr rs)) k t sc (updated sc asgs whr rs) s'"
  using update_law [OF assms] by (auto simp: runs_def)

theorem update_sets_columns_witness:
  "\<exists>T s s'. execute (UpdateStmt tn [(py ''a'', VInt 9)] (Some (BetweenExpr (Name (py ''a'')) (VInt 8) (VInt 20)))) s = (Inr [], s') \<and>
     db_table 28 indexed_catalog T 29 tn sample_schema [(1, [VInt 1, VInt 7]), (2, [VInt 2, VInt 9])] s'"
proof -
  let ?whr = "Some (BetweenExpr (Name (py ''a'')) (VInt 8) (VInt 20))" and ?rs = "[(1, [VInt 1, VInt 7]), (2, [VInt 2, VInt 9])] :: (int \<times> val list) list"
  obtain s T where s0: "db_table 28 indexed_catalog T 32 tn sample_schema sample_rows s" using indexed_database by blast
  note ev = matching_def eval_expr_def to_dict_def dict_of_def row_get_def sample_rows_def sample_schema_def
  have hit: "hits sample_schema ?whr sample_rows = [(2, [VInt 2, VInt 8])]" by (simp add: hits_def ev)
  have new: "set_cols sample_schema [(py ''a'', VInt 9)] [VInt 2, VInt 8] = [VInt 2, VInt 9]" by (simp add: set_cols_def sample_schema_def)
  have upd: "updated sample_schema [(py ''a'', VInt 9)] ?whr sample_rows = ?rs" by (simp add: updated_def ev set_cols_def)
  have s: "db_table 28 indexed_catalog T (length (hits sample_schema ?whr sample_rows) * step_cost indexed_catalog tn + 29) tn sample_schema sample_rows s"
    using s0 by (simp add: hit step_cost_def)
  have m: "matching sample_schema ?whr sample_rows = Inr [to_dict sample_schema [VInt 2, VInt 8]]" by (simp add: ev)
  have path: "path_ok indexed_catalog sample_schema ?whr" by simp
  have asgs: "assigns_ok sample_schema [(py ''a'', VInt 9)]" by (simp add: assigns_ok_def sample_schema_def)
  have rows: "new_rows_ok 28 indexed_catalog tn sample_schema [(py ''a'', VInt 9)] (hits sample_schema ?whr sample_rows)"
    using sample_row(2) [of 2 9] by (simp add: hit new_rows_ok_def new cols_ok_def sample_index_def col_ok_def key_ok_def)
  have room: "own_room 28 (\<lambda>v. owners (is_col_idx i) sample_rows v \<union> owners (is_col_idx i) ?rs v)" for i
  proof (rule few_own [of _ "{1, 2}"])
    show "owners (is_col_idx i) sample_rows v \<union> owners (is_col_idx i) ?rs v \<subseteq> {1, 2}" for v
      by (auto simp: owners_def sample_rows_def split: if_splits)
  qed simp_all
  show ?thesis using update_sets_columns [OF s path m asgs rows, unfolded upd, OF room] by blast
qed

text \<open>C22: DELETE keeps the references: it removes exactly the rows that satisfy the condition, or it raises because one of them, which is
  still there, is the parent of a row; in both cases every index is in step and every reference still has its parent. (What was deleted
  before the error stays deleted.)\<close>

theorem delete_keeps_references:
  assumes "db_table R c T (length (hits sc whr rs) * step_cost c t + k) t sc rs s" "refs_ok c T" "path_ok c sc whr" "matching sc whr rs = Inr ys"
  shows "\<exists>res s' rs'. execute (DeleteStmt t whr) s = (res, s') \<and> db_table R c (T(t \<mapsto> rs')) k t sc rs' s' \<and> refs_ok c (T(t \<mapsto> rs')) \<and>
    (res = Inr [] \<and> rs' = filter (\<lambda>(_, r). eval_expr whr (to_dict sc r) \<noteq> Inr True) rs \<or>
     res = Inl ExecutionError \<and> (\<exists>e \<in> set (hits sc whr rs). e \<in> set rs' \<and> held c (T(t \<mapsto> rs')) t (fst e)))"
  using delete_law [OF assms] by simp

theorem delete_keeps_references_witness:
  "(\<exists>T s s'. execute (DeleteStmt tn (Some (EqExpr (Name (py ''a'')) (VInt 7)))) s = (Inr [], s') \<and>
     db_table 28 indexed_catalog T 29 tn sample_schema [(2, [VInt 2, VInt 8])] s') \<and>
   (\<exists>T s s' rs'. execute (DeleteStmt tn None) s = (Inl ExecutionError, s') \<and> (2, [VInt 2, VInt 8]) \<in> set rs' \<and>
     db_table 28 ref_catalog T 31 tn sample_schema rs' s')"
proof
  let ?whr = "Some (EqExpr (Name (py ''a'')) (VInt 7))"
  obtain s T where s0: "db_table 28 indexed_catalog T 32 tn sample_schema sample_rows s" using indexed_database by blast
  note ev = matching_def eval_expr_def to_dict_def dict_of_def row_get_def sample_rows_def sample_schema_def
  have hit: "hits sample_schema ?whr sample_rows = [(1, [VInt 1, VInt 7])]" by (simp add: hits_def ev)
  have s: "db_table 28 indexed_catalog T (length (hits sample_schema ?whr sample_rows) * step_cost indexed_catalog tn + 29) tn sample_schema sample_rows s"
    using s0 by (simp add: hit step_cost_def)
  have m: "matching sample_schema ?whr sample_rows = Inr [to_dict sample_schema [VInt 1, VInt 7]]" by (simp add: ev)
  have path: "path_ok indexed_catalog sample_schema ?whr" by simp
  have refs: "refs_ok indexed_catalog T" by (simp add: refs_ok_def indexed_tables)
  have left: "filter (\<lambda>(_, r). eval_expr ?whr (to_dict sample_schema r) \<noteq> Inr True) sample_rows = [(2, [VInt 2, VInt 8])]" by (simp add: ev)
  obtain res s' rs' where r: "execute (DeleteStmt tn ?whr) s = (res, s')" "db_table 28 indexed_catalog (T(tn \<mapsto> rs')) 29 tn sample_schema rs' s'"
    "res = Inr [] \<and> rs' = [(2, [VInt 2, VInt 8])] \<or> (\<exists>e \<in> set (hits sample_schema ?whr sample_rows). held indexed_catalog (T(tn \<mapsto> rs')) tn (fst e))"
    using delete_keeps_references [OF s refs path m] unfolding left by blast
  then have "res = Inr []" "rs' = [(2, [VInt 2, VInt 8])]" by (auto simp: held_def)
  then show "\<exists>T s s'. execute (DeleteStmt tn ?whr) s = (Inr [], s') \<and> db_table 28 indexed_catalog T 29 tn sample_schema [(2, [VInt 2, VInt 8])] s'"
    using r(1,2) by blast
next
  let ?rs = "[(5, [VInt 5, VInt 2])] :: (int \<times> val list) list" and ?T = "\<lambda>rs. [tn \<mapsto> rs, un \<mapsto> [(5, [VInt 5, VInt 2])]]"
  obtain s0 where "db_table 28 ref_catalog [tn \<mapsto> sample_rows, un \<mapsto> []] 34 un child_schema [] s0" using ref_database by blast
  then have s0: "db_table 28 ref_catalog [tn \<mapsto> sample_rows, un \<mapsto> []] (step_cost ref_catalog un + 33) un child_schema [] s0"
    by (simp add: step_cost_def)
  have "parent_known [tn \<mapsto> sample_rows, un \<mapsto> []] [VInt 5, VInt 2] child_ref"
    by (simp add: parent_known_def child_ref_def names_differ sample_rows_def)
  then obtain s1 where s1: "db_table 28 ref_catalog (?T sample_rows) 33 un child_schema ?rs s1"
    using insert_law [OF s0, of 5 "[VInt 5, VInt 2]"] child_row [of 5 2] by auto
  have hit: "hits sample_schema None sample_rows = sample_rows" by (simp add: hits_def sample_rows_def eval_expr_def)
  have s: "db_table 28 ref_catalog (?T sample_rows) (length (hits sample_schema None sample_rows) * step_cost ref_catalog tn + 31) tn sample_schema
      sample_rows s1"
    unfolding hit using s1 by (simp add: step_cost_def db_table_def ref_tables names_differ) (simp add: sample_rows_def)
  have m: "matching sample_schema None sample_rows = Inr (map (\<lambda>(_, r). to_dict sample_schema r) sample_rows)"
    by (simp add: matching_def sample_rows_def eval_expr_def)
  have refs: "refs_ok ref_catalog (?T sample_rows)"
    by (simp add: child_refs) (simp add: parent_known_def child_ref_def names_differ sample_rows_def)
  have path: "path_ok ref_catalog sample_schema None" by simp
  have gone: "filter (\<lambda>(_, r). eval_expr None (to_dict sample_schema r) \<noteq> Inr True) sample_rows = []"
    by (simp add: sample_rows_def eval_expr_def)
  have twist: "(?T sample_rows)(tn \<mapsto> rs') = ?T rs'" for rs' using names_differ by (auto simp: fun_eq_iff)
  obtain res s' rs' where r: "execute (DeleteStmt tn None) s1 = (res, s')" "db_table 28 ref_catalog (?T rs') 31 tn sample_schema rs' s'"
    "refs_ok ref_catalog (?T rs')" "res = Inr [] \<and> rs' = [] \<or> res = Inl ExecutionError \<and>
       (\<exists>e \<in> set sample_rows. e \<in> set rs' \<and> held ref_catalog (?T rs') tn (fst e))"
    using delete_keeps_references [OF s refs path m] unfolding twist hit gone by blast
  have "rs' \<noteq> []" using r(3) by (auto simp: child_refs parent_known_def child_ref_def names_differ)
  moreover have "held ref_catalog (?T rs') tn key \<longleftrightarrow> key = 2" for key
    by (auto simp: held_def referenced_def child_ref_def names_differ)
  ultimately have "res = Inl ExecutionError" "(2, [VInt 2, VInt 8]) \<in> set rs'" using r(4) by (auto simp: sample_rows_def)
  with r(1,2) show "\<exists>T s s' rs'. execute (DeleteStmt tn None) s = (Inl ExecutionError, s') \<and> (2, [VInt 2, VInt 8]) \<in> set rs' \<and>
     db_table 28 ref_catalog T 31 tn sample_schema rs' s'" by blast
qed

text \<open>C23: CREATE INDEX on a table with rows fills the index, so that it is in step with the table and the queries on the column use it.\<close>

theorem create_index_fills:
  assumes "db_table R c T (length rs + k) t sc rs s" "cat_create_index name t col c = (Inr i, c')" "map_of (im_files s) name = None"
    and "R \<le> 28" "length rs + k \<le> 36" "\<And>key r. (key, r) \<in> set rs \<Longrightarrow> col_ok (r ! is_col_idx i)" "own_room R (owners (is_col_idx i) rs)"
  shows "\<exists>s'. execute (CreateIndexStmt name t col) s = (Inr [], s') \<and> db_table R c' T k t sc rs s' \<and> has_index_on c' t (Name col) \<noteq> None"
  using create_index_law [OF assms] by (auto simp: runs_def)

theorem create_index_fills_witness:
  "\<exists>s s' T. execute (CreateIndexStmt (py ''i'') tn (py ''a'')) s = (Inr [], s') \<and> db_table 28 indexed_catalog T 32 tn sample_schema sample_rows s'"
proof -
  obtain s T where s: "db_table 28 sample_catalog T 34 tn sample_schema sample_rows s" "im_files s = []" using sample_database by blast
  have s': "db_table 28 sample_catalog T (length sample_rows + 32) tn sample_schema sample_rows s" using s(1) by (simp add: sample_rows_def)
  have "\<exists>s'. execute (CreateIndexStmt (py ''i'') tn (py ''a'')) s = (Inr [], s') \<and> db_table 28 indexed_catalog T 32 tn sample_schema sample_rows s' \<and>
      has_index_on indexed_catalog tn (Name (py ''a'')) \<noteq> None"
    by (rule create_index_fills [OF s' sample_create_index])
      (use few_owners [of sample_rows "is_col_idx sample_index"] in \<open>auto simp: s(2) sample_rows_def sample_index_def col_ok_def key_ok_def\<close>)
  then show ?thesis by blast
qed

subsection \<open>Closing and opening again\<close>



subsection \<open>An INSERT of an existing key\<close>

text \<open>
  INSERT does not check that the key is new. The row replaces the one under its key, and \<open>on_insert\<close> adds the entry of its
  indexed value but leaves the entry of the old one.
\<close>

lemma reinsert_law:
  assumes tab: "db_table R c T (step_cost c t + k) t sc rs s" and r: "row_fills sc key r" "row_fits R key r" "col_ok (r ! is_col_idx i)"
    and c: "get_fkeys_from c t = []" "get_indexes_for_table c t = [i]"
    and room: "own_room R (\<lambda>x. owners (is_col_idx i) rs x \<union> owned (r ! is_col_idx i) key x)"
  shows "runs (exec_insert t r) s (\<lambda>res s'. res = [] \<and> db_holds R c (T(t \<mapsto> ins_sorted key r rs))
    ((index_owners c T)(is_name i \<mapsto> \<lambda>x. owners (is_col_idx i) rs x \<union> owned (r ! is_col_idx i) key x)) k s')"
proof -
  let ?T = "T(t \<mapsto> ins_sorted key r rs)" and ?own = "\<lambda>x. owners (is_col_idx i) rs x \<union> owned (r ! is_col_idx i) key x"
  have i: "i \<in> set (get_indexes_for_table c t)" by (simp add: c(2))
  obtain s1 where run: "exec_insert t r s = insert_rest sc t key r s1" and s1: "db_table R c T (step_cost c t + k) t sc rs s1"
    using exec_insert_run [OF tab r(1)] c(1) by (auto simp: refs_typed_def checked_def bnd_def)
  have db: "db_holds R c T (index_owners c T) (Suc (Suc (Suc k))) s1" using db_tableD(2) [OF s1] by (simp add: step_cost_def c(2) numeral_3_eq_3)
  have "runs (insert_rest sc t key r) s1 (\<lambda>res s'. res = [] \<and> db_holds R c ?T ((index_owners c T)(is_name i \<mapsto> ?own)) k s')"
    unfolding insert_rest_def runs_bnd
  proof (rule runs_weaken [OF get_engine_law [OF db_tableD(2,4) [OF s1]]], elim conjE, hypsubst,
      rule runs_weaken [OF table_put_law [OF db db_tableD(4) [OF s1] r(2)]])
    fix x s2
    assume s2: "db_holds R c ?T (index_owners c T) (Suc (Suc k)) s2"
    have step: "runs (if r ! is_col_idx i \<noteq> VNull then im_add (is_name i) (r ! is_col_idx i) (VInt key) else ret ()) s2
        (\<lambda>_ s'. db_holds R c ?T ((index_owners c T)(is_name i \<mapsto> ?own)) k s')"
      by (rule step_add [OF db_less [OF s2] table_facts(7) [OF s1 i] r(3) room]) simp
    let ?f = "\<lambda>idx. bnd (lift_res (row_at r (is_col_idx idx))) (\<lambda>col_val. if col_val \<noteq> VNull then im_add (is_name idx) col_val (VInt key) else ret ())"
    have loop: "runs (for_each ?f [i]) s2 (\<lambda>_ s'. db_holds R c ?T ((index_owners c T)(is_name i \<mapsto> ?own)) k s')"
      unfolding for_each.simps runs_bnd row_at_column [OF r(1) table_facts(6) [OF s1 i]] runs_basic
      by (rule runs_weaken [OF step]) (simp add: runs_def)
    have "runs (on_insert sc r) s2 (\<lambda>_ s'. db_holds R c ?T ((index_owners c T)(is_name i \<mapsto> ?own)) k s')"
      unfolding on_insert_def row_at_pk [OF table_facts(1) [OF s1] r(1)] runs_bnd [of "lift_res _"] runs_basic runs_bnd [of "table_indexes _"]
      by (rule runs_weaken [OF table_indexes_law [OF s2]])
        (use loop table_facts(4) [OF s1] in \<open>simp add: c(2)\<close>)
    from if_index_mgr_law [OF s2 this]
    show "runs (if_index_mgr (on_insert sc r)) s2 (\<lambda>_ s'. runs (ret []) s' (\<lambda>res s'. res = [] \<and>
        db_holds R c ?T ((index_owners c T)(is_name i \<mapsto> ?own)) k s'))"
      by (rule runs_weaken) (simp add: runs_def)
  qed
  then show ?thesis unfolding runs_def run .
qed

lemma stale_select_law:
  assumes db: "db_holds R c T X k s" and sc: "map_of (ca_tables c) t = Some sc" "T t = Some rs" "ts_name sc = t"
    and i: "get_indexes_for_table c t = [i]" "is_col i \<noteq> ts_pk_col sc" "X (is_name i) = Some own" and key: "key \<in> own v" "map_of rs key = Some r"
  shows "runs (exec_select t STAR (Some (EqExpr (Name (is_col i)) (VInt v)))) s (\<lambda>res s'. to_dict sc r \<in> set res)"
proof -
  have gt: "on_catalog (get_table t) s = (Inr sc, s)" using get_table_law [OF db sc(1)] by (auto simp: runs_def)
  have ge: "get_engine t s = (Inr t, s)" using get_engine_law [OF db sc(2)] by (auto simp: runs_def)
  have ix: "index_for t (Name (is_col i)) s = (Inr (Some i), s)"
    using index_for_law [OF db, of t "Name (is_col i)"] i(1) by (auto simp: runs_def has_index_on_def)
  have "runs (bnd (im_lookup (is_name i) (VInt v)) (\<lambda>pks. fetch_pks sc t pks)) s (\<lambda>res s'. to_dict sc r \<in> set res)"
    unfolding runs_bnd
  proof (rule runs_weaken [OF lookup_law [OF db i(3)]], elim conjE exE)
    fix pks s1 ks
    assume ks: "pks = map VInt ks" "set ks = own v" and s1: "db_holds R c T X k s1"
    have "r \<in> set (List.map_filter (map_of rs) ks)" using key ks(2) by (force simp: List.map_filter_def)
    then show "runs (fetch_pks sc t pks) s1 (\<lambda>res s'. to_dict sc r \<in> set res)"
      unfolding ks(1) by (intro runs_weaken [OF fetch_pks_law [OF s1 sc(2)]]) auto
  qed
  then obtain rows s' where rows: "bnd (im_lookup (is_name i) (VInt v)) (\<lambda>pks. fetch_pks sc t pks) s = (Inr rows, s')" "to_dict sc r \<in> set rows"
    unfolding runs_def by blast
  have "fetch_rows sc t (Some (EqExpr (Name (is_col i)) (VInt v))) s = (Inr rows, s')"
    using ix rows(1) i(2) sc(3) by (simp add: fetch_rows_def bnd_Inr)
  moreover have "map_res (\<lambda>r. project r STAR) rows = Inr rows" by (induction rows) (auto simp: project_def)
  ultimately show ?thesis using gt ge rows(2) by (auto simp: exec_select_def runs_def bnd_Inr)
qed

text \<open>C25: an INSERT of an existing key returns, and afterwards a SELECT through the index finds the new row under the old value: its WHERE
  condition does not hold for a row it returns.\<close>

theorem reinsert_leaves_stale_entry:
  assumes "db_table R c T (step_cost c t + k) t sc rs s" "map_of rs key = Some r0" "r0 ! is_col_idx i = VInt v"
    and "row_fills sc key r" "row_fits R key r" "r ! is_col_idx i = VInt w" "key_ok w" "v \<noteq> w"
    and "get_fkeys_from c t = []" "get_indexes_for_table c t = [i]" "is_col i \<noteq> ts_pk_col sc"
    and "own_room R (\<lambda>x. owners (is_col_idx i) rs x \<union> owned (VInt w) key x)"
  shows "\<exists>s1 s2 res. execute (InsertStmt t r) s = (Inr [], s1) \<and>
    execute (SelectStmt t STAR (Some (EqExpr (Name (is_col i)) (VInt v)))) s1 = (Inr res, s2) \<and>
    to_dict sc r \<in> set res \<and> eval_expr (Some (EqExpr (Name (is_col i)) (VInt v))) (to_dict sc r) = Inr False"
proof -
  note tab = assms(1)
  have col: "col_ok (r ! is_col_idx i)" using assms(6,7) by (simp add: col_ok_def)
  obtain s1 where s1: "exec_insert t r s = (Inr [], s1)" "db_holds R c (T(t \<mapsto> ins_sorted key r rs))
      ((index_owners c T)(is_name i \<mapsto> \<lambda>x. owners (is_col_idx i) rs x \<union> owned (VInt w) key x)) k s1"
    using reinsert_law [OF tab assms(4,5) col assms(9,10)] assms(6,12) unfolding runs_def by auto
  have new: "map_of (ins_sorted key r rs) key = Some r" using table_facts(2) [OF tab] by simp
  have own: "key \<in> owners (is_col_idx i) rs v \<union> owned (VInt w) key v" using assms(2,3) by (simp add: owners_def)
  have "runs (exec_select t STAR (Some (EqExpr (Name (is_col i)) (VInt v)))) s1 (\<lambda>res s'. to_dict sc r \<in> set res)"
    by (rule stale_select_law [where own = "\<lambda>x. owners (is_col_idx i) rs x \<union> owned (VInt w) key x",
        OF s1(2) db_tableD(3) [OF tab] _ table_facts(4) [OF tab] assms(10,11) _ own new]) simp_all
  moreover have "eval_expr (Some (EqExpr (Name (is_col i)) (VInt v))) (to_dict sc r) = Inr False"
    using eval_eq [OF table_facts(1) [OF tab] assms(4) table_facts(6) [OF tab], of i "VInt v"] assms(6,8,10) by simp
  ultimately show ?thesis using s1(1) by (auto simp: runs_def)
qed

theorem reinsert_leaves_stale_entry_witness:
  "\<exists>s s1 s2 res. execute (InsertStmt tn [VInt 1, VInt 9]) s = (Inr [], s1) \<and>
     execute (SelectStmt tn STAR (Some (EqExpr (Name (py ''a'')) (VInt 7)))) s1 = (Inr res, s2) \<and> [(py ''id'', VInt 1), (py ''a'', VInt 9)] \<in> set res"
proof -
  obtain s T where "db_table 28 indexed_catalog T 32 tn sample_schema sample_rows s" using indexed_database by blast
  then have s: "db_table 28 indexed_catalog T (step_cost indexed_catalog tn + 29) tn sample_schema sample_rows s" by (simp add: step_cost_def)
  have room: "own_room 28 (\<lambda>x. owners (is_col_idx sample_index) sample_rows x \<union> owned (VInt 9) 1 x)"
    by (rule few_own [of _ "{1, 2}"]) (auto simp: owners_def owned_def sample_rows_def split: if_splits)
  have dict: "to_dict sample_schema [VInt 1, VInt 9] = [(py ''id'', VInt 1), (py ''a'', VInt 9)]" by (simp add: to_dict_def dict_of_def sample_schema_def)
  have "\<exists>s1 s2 res. execute (InsertStmt tn [VInt 1, VInt 9]) s = (Inr [], s1) \<and>
    execute (SelectStmt tn STAR (Some (EqExpr (Name (is_col sample_index)) (VInt 7)))) s1 = (Inr res, s2) \<and>
    to_dict sample_schema [VInt 1, VInt 9] \<in> set res \<and> eval_expr (Some (EqExpr (Name (is_col sample_index)) (VInt 7))) (to_dict sample_schema [VInt 1, VInt 9]) = Inr False"
    by (rule reinsert_leaves_stale_entry [OF s, of 1 "[VInt 1, VInt 7]" sample_index 7 _ 9])
      (use sample_row [of 1 9] room in \<open>simp_all add: sample_rows_def sample_index_def key_ok_def sample_schema_def\<close>)
  then show ?thesis by (auto simp: dict sample_index_def)
qed

end
