(* ===== verification/Repl.thy ===== *)
theory Repl
  imports Executor Sql_Text "HOL-Library.Product_Lexorder"
begin

section \<open>The interactive shell (\<^verbatim>\<open>src/repl.py\<close>)\<close>

text \<open>
  The shell acts on an open database, the lines of the unfinished statement, and what it has printed. What is typed is a list of events; when
  it is used up the shell waits at its prompt. An interrupt comes at the prompt, not while a statement runs, and every typed line
  decodes. Printed lines are strings; of the messages with the text of an exception, the help text and the \<^verbatim>\<open>repr\<close> of an
  unknown command only the kind and the argument are kept. The whitespace beyond ASCII is the parameter \<open>ws\<close>.

  The lemmas show what every line does, that no statement ends the session, that a statement typed on several lines runs once, and
  that printed tables are aligned.
\<close>

subsection \<open>Strings\<close>

definition isspace :: "(nat \<Rightarrow> bool) \<Rightarrow> nat \<Rightarrow> bool" where
  "isspace ws c \<longleftrightarrow> (if c < 128 then 9 \<le> c \<and> c \<le> 13 \<or> 28 \<le> c \<and> c \<le> 32 else ws c)"

definition strip :: "(nat \<Rightarrow> bool) \<Rightarrow> pystr \<Rightarrow> pystr" where
  "strip ws s = rev (dropWhile (isspace ws) (rev (dropWhile (isspace ws) s)))"

definition first_word :: "(nat \<Rightarrow> bool) \<Rightarrow> pystr \<Rightarrow> pystr" where
  "first_word ws s = takeWhile (\<lambda>c. \<not> isspace ws c) s"

definition after_word :: "(nat \<Rightarrow> bool) \<Rightarrow> pystr \<Rightarrow> pystr" where
  "after_word ws s = dropWhile (isspace ws) (dropWhile (\<lambda>c. \<not> isspace ws c) s)"

text \<open>\<^verbatim>\<open>lower\<close> on ASCII; no other character has a lower case that occurs in the name of a command.\<close>

definition ascii_lower :: "pystr \<Rightarrow> pystr" where
  "ascii_lower s = map (\<lambda>c. if 65 \<le> c \<and> c \<le> 90 then c + 32 else c) s"

fun join :: "pystr \<Rightarrow> pystr list \<Rightarrow> pystr" where
  "join sep [] = []"
| "join sep [s] = s"
| "join sep (s # ss) = s @ sep @ join sep ss"

text \<open>\<^verbatim>\<open>f"{s:<{w}}"\<close>\<close>

definition ljust :: "nat \<Rightarrow> pystr \<Rightarrow> pystr" where
  "ljust w s = s @ replicate (w - length s) 32"

subsection \<open>The session\<close>

datatype printed =
    Line pystr
  | SyntaxErrorMsg py_error
  | ErrorMsg py_error
  | UnexpectedMsg py_error
  | UnknownCommand pystr
  | HelpText

record repl =
  rp_db :: database
  rp_buf :: "pystr list"
  rp_out :: "printed list"

datatype event = Typed pystr | Eof | Interrupt

definition println :: "printed \<Rightarrow> (repl, unit) act" where
  "println x = modify (\<lambda>s. s\<lparr>rp_out := rp_out s @ [x]\<rparr>)"

definition on_db :: "(database, 'a) act \<Rightarrow> (repl, 'a) act" where
  "on_db = on_part rp_db (\<lambda>d s. s\<lparr>rp_db := d\<rparr>)"

definition catalog_of :: "(catalog \<Rightarrow> 'a) \<Rightarrow> (repl, 'a) act" where
  "catalog_of f = gets (\<lambda>s. f (im_catalog (rp_db s)))"

text \<open>The body of a \<^verbatim>\<open>try\<close>: its result or its exception.\<close>

definition attempt :: "('s, 'a) act \<Rightarrow> ('s, 'a res) act" where
  "attempt m s = (case m s of (r, s') \<Rightarrow> (Inr r, s'))"

subsection \<open>Tables\<close>

fun fmt :: "val \<Rightarrow> pystr" where
  "fmt VNull = py ''NULL''"
| "fmt (VInt i) = int_text i"
| "fmt (VStr s) = s"

text \<open>\<^verbatim>\<open>list(dict.fromkeys(ks))\<close>\<close>

definition from_keys :: "pystr list \<Rightarrow> pystr list" where
  "from_keys ks = foldl (\<lambda>d k. if k \<in> set d then d else d @ [k]) [] ks"

definition table_cols :: "row list \<Rightarrow> pystr list" where
  "table_cols rows = from_keys (concat (map (map fst) rows))"

definition width :: "row list \<Rightarrow> pystr \<Rightarrow> nat" where
  "width rows c = foldl (\<lambda>w r. max w (length (fmt (row_get r c)))) (length c) rows"

definition sep_line :: "nat list \<Rightarrow> pystr" where
  "sep_line ws = py ''+'' @ join (py ''+'') (map (\<lambda>w. replicate (w + 2) 45) ws) @ py ''+''"

definition cells_line :: "(nat \<times> pystr) list \<Rightarrow> pystr" where
  "cells_line cells = py ''|'' @ join (py ''|'') (map (\<lambda>(w, s). py '' '' @ ljust w s @ py '' '') cells) @ py ''|''"

definition table_lines :: "row list \<Rightarrow> pystr list" where
  "table_lines rows =
     (if rows = [] then [py ''(0 rows)'']
      else
        let cols = table_cols rows;
            sep = sep_line (map (width rows) cols);
            hdr = cells_line (map (\<lambda>c. (width rows c, c)) cols)
        in [sep, hdr, sep] @
           map (\<lambda>r. cells_line (map (\<lambda>c. (width rows c, fmt (row_get r c))) cols)) rows @
           [sep, py ''('' @ int_text (int (length rows)) @ py '' row'' @ (if length rows \<noteq> 1 then py ''s'' else []) @ py '')''])"

definition print_table :: "row list \<Rightarrow> (repl, unit) act" where
  "print_table rows = for_each (\<lambda>l. println (Line l)) (table_lines rows)"

subsection \<open>Commands\<close>

definition cmd_tables :: "(repl, unit) act" where
  "cmd_tables =
     bnd (catalog_of all_tables) (\<lambda>tables.
     if tables = [] then println (Line (py ''(no tables)''))
     else for_each (\<lambda>t. println (Line (py ''  '' @ t))) (sort tables))"

definition schema_row :: "catalog \<Rightarrow> pystr \<Rightarrow> column_schema \<Rightarrow> row" where
  "schema_row ct table c =
     [(py ''column'', VStr (cs_name c)), (py ''type'', VStr (cs_type c)),
      (py ''pk'', VStr (if cs_primary_key c then py ''YES'' else [])),
      (py ''fk'', VStr (case find (\<lambda>k. fk_child_col k = cs_name c) (get_fkeys_from ct table) of
         Some k \<Rightarrow> [0x2192, 32] @ fk_parent_table k @ py ''.'' @ fk_parent_col k
       | None \<Rightarrow> []))]"

definition cmd_schema :: "(nat \<Rightarrow> bool) \<Rightarrow> pystr \<Rightarrow> (repl, unit) act" where
  "cmd_schema ws args =
     (let table = strip ws args in
      if table = [] then println (Line (py ''Usage: '' @ [92] @ py ''schema <table>''))
      else
        bnd (attempt (on_db (on_catalog (get_table table)))) (\<lambda>r.
        case r of
          Inl e \<Rightarrow> if e = CatalogError then println (ErrorMsg e) else throw e
        | Inr schema \<Rightarrow>
            bnd (catalog_of (\<lambda>ct. map (schema_row ct table) (ts_columns schema))) print_table))"

definition cmd_indexes :: "(repl, unit) act" where
  "cmd_indexes =
     bnd (catalog_of all_indexes) (\<lambda>indexes.
     if indexes = [] then println (Line (py ''(no indexes)''))
     else
       print_table (map (\<lambda>i. [(py ''name'', VStr (is_name i)), (py ''table'', VStr (is_table i)), (py ''column'', VStr (is_col i))])
         (sort_key (\<lambda>i. (is_table i, is_name i)) indexes)))"

subsection \<open>Statements\<close>

definition CONFIRMED :: "pystr list" where
  "CONFIRMED = [py ''INSERT'', py ''UPDATE'', py ''DELETE'', py ''CREATE'', py ''DROP'']"

definition execute_and_print :: "unicode \<Rightarrow> (nat \<Rightarrow> bool) \<Rightarrow> pystr \<Rightarrow> (repl, unit) act" where
  "execute_and_print u ws sql =
     bnd (attempt (on_db (db_execute u sql))) (\<lambda>r.
     case r of
       Inr rows \<Rightarrow>
         let verb = upper u (first_word ws (strip ws sql)) in
         if verb = py ''SELECT'' then print_table rows
         else if rows \<noteq> [] then print_table rows
         else if verb \<in> set CONFIRMED then println (Line (py ''OK'')) else ret ()
     | Inl e \<Rightarrow>
         if e = NoReturn then throw e
         else if e = ParseError \<or> e = LexError then println (SyntaxErrorMsg e)
         else if e = ExecutionError \<or> e = CatalogError then println (ErrorMsg e)
         else println (UnexpectedMsg e))"

text \<open>The meta-commands; the result is whether the loop ends.\<close>

definition meta_command :: "(nat \<Rightarrow> bool) \<Rightarrow> pystr \<Rightarrow> (repl, bool) act" where
  "meta_command ws stripped =
     (let command = ascii_lower (first_word ws stripped); args = after_word ws stripped in
      if command \<in> {[92] @ py ''quit'', [92] @ py ''q''} then ret True
      else
        bnd (if command = [92] @ py ''help'' then println HelpText
             else if command = [92] @ py ''tables'' then cmd_tables
             else if command = [92] @ py ''schema'' then cmd_schema ws args
             else if command = [92] @ py ''indexes'' then cmd_indexes
             else println (UnknownCommand command)) (\<lambda>_.
        ret False))"

definition repl_line :: "unicode \<Rightarrow> (nat \<Rightarrow> bool) \<Rightarrow> pystr \<Rightarrow> (repl, bool) act" where
  "repl_line u ws line =
     bnd (gets rp_buf) (\<lambda>buf.
     let stripped = strip ws line in
     if buf = [] \<and> prefix [92] stripped then meta_command ws stripped
     else
       bnd (if stripped \<noteq> [] then modify (\<lambda>s. s\<lparr>rp_buf := buf @ [line]\<rparr>) else ret ()) (\<lambda>_.
       bnd (gets (\<lambda>s. strip ws (join (py '' '') (rp_buf s)))) (\<lambda>combined.
       if suffix (py '';'') combined then
         let sql = strip ws (butlast combined) in
         bnd (modify (\<lambda>s. s\<lparr>rp_buf := []\<rparr>)) (\<lambda>_.
         if sql = [] then ret False
         else bnd (execute_and_print u ws sql) (\<lambda>_. ret False))
       else ret False)))"

text \<open>The loop: \<open>True\<close> when it has ended, \<open>False\<close> when it waits at the prompt.\<close>

fun repl_loop :: "unicode \<Rightarrow> (nat \<Rightarrow> bool) \<Rightarrow> event list \<Rightarrow> (repl, bool) act" where
  "repl_loop u ws [] = ret False"
| "repl_loop u ws (Eof # evs) = bnd (println (Line [])) (\<lambda>_. ret True)"
| "repl_loop u ws (Interrupt # evs) =
     bnd (println (Line [])) (\<lambda>_. bnd (modify (\<lambda>s. s\<lparr>rp_buf := []\<rparr>)) (\<lambda>_. repl_loop u ws evs))"
| "repl_loop u ws (Typed line # evs) =
     bnd (repl_line u ws line) (\<lambda>ends. if ends then ret True else repl_loop u ws evs)"

text \<open>\<^verbatim>\<open>run\<close>: opening fails with exit code 1; the database is closed however the loop ends.\<close>

datatype outcome = OpenFailed py_error | Waiting repl | Ended "unit res" repl

definition repl_run :: "unicode \<Rightarrow> (nat \<Rightarrow> bool) \<Rightarrow> pystr \<Rightarrow> json option \<Rightarrow> (pystr \<times> db_file) list \<Rightarrow> event list \<Rightarrow> outcome" where
  "repl_run u ws abspath f fs evs =
     (case db_init f fs of
        Inl e \<Rightarrow> OpenFailed e
      | Inr db \<Rightarrow>
          let banner = [Line (py ''py_btree_engine  '' @ [0x2014] @ py ''  database: '' @ abspath),
                        Line (py ''Type SQL statements ending with '' @ [39] @ py '';'' @ [39] @ py '', or '' @ [92] @ py ''help for commands.''),
                        Line []]
          in (case repl_loop u ws evs \<lparr>rp_db = db, rp_buf = [], rp_out = banner\<rparr> of
                (Inr False, s) \<Rightarrow> Waiting s
              | (Inr True, s) \<Rightarrow>
                  (case bnd (on_db db_close) (\<lambda>_. println (Line (py ''Bye.''))) s of (r, s) \<Rightarrow> Ended r s)
              | (Inl e, s) \<Rightarrow>
                  (case finally_act (throw e) (on_db db_close) s of (r, s) \<Rightarrow> Ended r s)))"

text \<open>\<^verbatim>\<open>main\<close>: anything but one argument is a usage error.\<close>

definition repl_main :: "unicode \<Rightarrow> (nat \<Rightarrow> bool) \<Rightarrow> pystr list \<Rightarrow> json option \<Rightarrow> (pystr \<times> db_file) list \<Rightarrow> event list \<Rightarrow> outcome option" where
  "repl_main u ws args f fs evs =
     (case args of [abspath] \<Rightarrow> Some (repl_run u ws abspath f fs evs) | _ \<Rightarrow> None)"

subsection \<open>No statement ends the session\<close>

text \<open>Actions that raise nothing but the errors of a set.\<close>

definition raises_only :: "py_error set \<Rightarrow> ('s, 'a) act \<Rightarrow> bool" where
  "raises_only E m \<longleftrightarrow> (\<forall>s e. fst (m s) = Inl e \<longrightarrow> e \<in> E)"

named_theorems raises_rules \<open>what the combinators can raise\<close>

lemma raises_basic [raises_rules]:
  "raises_only E (ret x)" "raises_only E (gets f)" "raises_only E (modify g)" "e \<in> E \<Longrightarrow> raises_only E (throw e)"
  by (simp_all add: raises_only_def)

lemma raises_bnd [raises_rules]: "raises_only E m \<Longrightarrow> (\<And>x. raises_only E (f x)) \<Longrightarrow> raises_only E (bnd m f)"
  unfolding raises_only_def bnd_def by (auto split: sum.split prod.split) (metis fst_conv)+

lemma raises_Pair [raises_rules]: "raises_only E (Pair (Inr x))"
  by (simp add: raises_only_def)

lemma raises_sum [raises_rules]:
  "(\<And>a. raises_only E (g a)) \<Longrightarrow> (\<And>b. raises_only E (f b)) \<Longrightarrow> raises_only E (case r of Inl a \<Rightarrow> g a | Inr b \<Rightarrow> f b)"
  by (cases r) auto

lemma raises_if [raises_rules]: "(b \<Longrightarrow> raises_only E m) \<Longrightarrow> (\<not> b \<Longrightarrow> raises_only E m') \<Longrightarrow> raises_only E (if b then m else m')"
  by simp

lemma raises_attempt [raises_rules]: "raises_only E (attempt m)"
  by (simp add: raises_only_def attempt_def split: prod.split)

lemma raises_for_each [raises_rules]: "(\<And>x. raises_only E (f x)) \<Longrightarrow> raises_only E (for_each f xs)"
  by (induction xs) (auto intro: raises_rules)

lemma raises_println [raises_rules]: "raises_only E (println x)"
  unfolding println_def by (intro raises_rules)

lemma raises_catalog_of [raises_rules]: "raises_only E (catalog_of f)"
  unfolding catalog_of_def by (intro raises_rules)

lemma raises_print_table [raises_rules]: "raises_only E (print_table rows)"
  unfolding print_table_def by (intro raises_rules)

lemma raises_tables: "raises_only E cmd_tables"
  unfolding cmd_tables_def by (intro raises_rules)

lemma raises_indexes: "raises_only E cmd_indexes"
  unfolding cmd_indexes_def by (intro raises_rules)

lemma get_table_error: "attempt (on_db (on_catalog (get_table t))) s = (Inr (Inl e), s') \<Longrightarrow> e = CatalogError"
  by (auto simp: attempt_def on_db_def on_catalog_def on_part_def get_table_def dict_get_def bnd_def
      split: prod.splits option.splits)

lemma raises_get_table:
  assumes "\<And>schema. raises_only E (f (Inr schema))" "raises_only E (f (Inl CatalogError))"
  shows "raises_only E (bnd (attempt (on_db (on_catalog (get_table t)))) f)"
  unfolding raises_only_def
proof (intro allI impI)
  fix s e assume e: "fst (bnd (attempt (on_db (on_catalog (get_table t)))) f s) = Inl e"
  obtain r s' where run: "attempt (on_db (on_catalog (get_table t))) s = (Inr r, s')"
    by (cases "on_db (on_catalog (get_table t)) s") (auto simp: attempt_def)
  then have "r = Inl CatalogError \<or> (\<exists>schema. r = Inr schema)" using get_table_error by (cases r) auto
  with run e assms show "e \<in> E" by (auto simp: bnd_def raises_only_def)
qed

lemma raises_schema: "raises_only E (cmd_schema ws args)"
  unfolding cmd_schema_def Let_def
  by (intro raises_if raises_get_table) (auto intro!: raises_rules)

lemma raises_execute: "raises_only {NoReturn} (execute_and_print u ws sql)"
  unfolding execute_and_print_def Let_def by (intro raises_rules) simp_all

lemma raises_meta: "raises_only E (meta_command ws stripped)"
  unfolding meta_command_def Let_def by (intro raises_rules raises_tables raises_indexes raises_schema)

lemma raises_line: "raises_only {NoReturn} (repl_line u ws line)"
  unfolding repl_line_def Let_def by (intro raises_rules raises_meta raises_execute)

lemma loop_raises: "raises_only {NoReturn} (repl_loop u ws evs)"
  by (induction u ws evs rule: repl_loop.induct) (auto intro!: raises_rules raises_line)

subsection \<open>Statements on several lines\<close>

definition complete :: "(nat \<Rightarrow> bool) \<Rightarrow> pystr list \<Rightarrow> bool" where
  "complete ws ls \<longleftrightarrow> suffix (py '';'') (strip ws (join (py '' '') ls))"

definition statement_of :: "(nat \<Rightarrow> bool) \<Rightarrow> pystr list \<Rightarrow> pystr" where
  "statement_of ws ls = strip ws (butlast (strip ws (join (py '' '') ls)))"

text \<open>What a line does when \<open>buf\<close> are the lines before it: it is a command, it ends the shell, or it completes a statement.\<close>

definition is_command :: "(nat \<Rightarrow> bool) \<Rightarrow> pystr list \<Rightarrow> pystr \<Rightarrow> bool" where
  "is_command ws buf line \<longleftrightarrow> buf = [] \<and> prefix [92] (strip ws line)"

definition command_of :: "(nat \<Rightarrow> bool) \<Rightarrow> pystr \<Rightarrow> pystr" where
  "command_of ws line = ascii_lower (first_word ws (strip ws line))"

definition tells_to_end :: "(nat \<Rightarrow> bool) \<Rightarrow> pystr list \<Rightarrow> pystr \<Rightarrow> bool" where
  "tells_to_end ws buf line \<longleftrightarrow> is_command ws buf line \<and> command_of ws line \<in> {[92] @ py ''quit'', [92] @ py ''q''}"

definition with_line :: "(nat \<Rightarrow> bool) \<Rightarrow> pystr list \<Rightarrow> pystr \<Rightarrow> pystr list" where
  "with_line ws buf line = (if strip ws line = [] then buf else buf @ [line])"

definition typed_statement :: "(nat \<Rightarrow> bool) \<Rightarrow> pystr list \<Rightarrow> pystr \<Rightarrow> pystr option" where
  "typed_statement ws buf line =
     (if \<not> is_command ws buf line \<and> complete ws (with_line ws buf line) \<and> statement_of ws (with_line ws buf line) \<noteq> []
      then Some (statement_of ws (with_line ws buf line)) else None)"

definition lines_left :: "(nat \<Rightarrow> bool) \<Rightarrow> pystr list \<Rightarrow> pystr \<Rightarrow> pystr list" where
  "lines_left ws buf line =
     (if is_command ws buf line \<or> complete ws (with_line ws buf line) then [] else with_line ws buf line)"

text \<open>The table that \<^verbatim>\<open>\schema\<close> is asked for and the catalog does not have.\<close>

definition asks_unknown :: "(nat \<Rightarrow> bool) \<Rightarrow> catalog \<Rightarrow> pystr \<Rightarrow> bool" where
  "asks_unknown ws c line \<longleftrightarrow> command_of ws line = [92] @ py ''schema'' \<and>
     strip ws (after_word ws (strip ws line)) \<noteq> [] \<and> map_of (ca_tables c) (strip ws (after_word ws (strip ws line))) = None"

text \<open>What is printed for the outcome of a statement.\<close>

fun message :: "py_error \<Rightarrow> printed" where
  "message ParseError = SyntaxErrorMsg ParseError"
| "message LexError = SyntaxErrorMsg LexError"
| "message ExecutionError = ErrorMsg ExecutionError"
| "message CatalogError = ErrorMsg CatalogError"
| "message e = UnexpectedMsg e"

definition report :: "unicode \<Rightarrow> (nat \<Rightarrow> bool) \<Rightarrow> pystr \<Rightarrow> row list res \<Rightarrow> printed list" where
  "report u ws sql r = (case r of
     Inl e \<Rightarrow> [message e]
   | Inr rows \<Rightarrow>
       let verb = upper u (first_word ws (strip ws sql)) in
       if verb = py ''SELECT'' \<or> rows \<noteq> [] then map Line (table_lines rows)
       else if verb \<in> set CONFIRMED then [Line (py ''OK'')] else [])"

lemma println_prints: "println x s = (Inr (), s\<lparr>rp_out := rp_out s @ [x]\<rparr>)"
  by (simp add: println_def)

lemma for_each_prints: "for_each (\<lambda>x. println (f x)) xs s = (Inr (), s\<lparr>rp_out := rp_out s @ map f xs\<rparr>)"
  by (induction xs arbitrary: s) (simp_all add: bnd_def println_prints)

lemma print_table_prints: "print_table rows s = (Inr (), s\<lparr>rp_out := rp_out s @ map Line (table_lines rows)\<rparr>)"
  by (simp add: print_table_def for_each_prints)

lemma get_table_attempt:
  "attempt (on_db (on_catalog (get_table t))) s =
     (Inr (case map_of (ca_tables (im_catalog (rp_db s))) t of None \<Rightarrow> Inl CatalogError | Some sc \<Rightarrow> Inr sc), s)"
  by (auto simp: attempt_def on_db_def on_catalog_def on_part_def get_table_def dict_get_def bnd_def split: option.split)

lemma schema_prints:
  "\<exists>out. cmd_schema ws args s = (Inr (), s\<lparr>rp_out := rp_out s @ out\<rparr>) \<and>
     (strip ws args \<noteq> [] \<and> map_of (ca_tables (im_catalog (rp_db s))) (strip ws args) = None \<longrightarrow> out = [ErrorMsg CatalogError])"
  by (cases "map_of (ca_tables (im_catalog (rp_db s))) (strip ws args)")
    (auto simp: cmd_schema_def Let_def bnd_def [of "attempt _"] get_table_attempt println_prints
      bnd_def [of "gets _"] catalog_of_def print_table_prints)

lemma command_prints:
  assumes "ascii_lower (first_word ws stripped) \<notin> {[92] @ py ''quit'', [92] @ py ''q''}"
  shows "\<exists>out. meta_command ws stripped s = (Inr False, s\<lparr>rp_out := rp_out s @ out\<rparr>) \<and>
    (ascii_lower (first_word ws stripped) = [92] @ py ''schema'' \<and> strip ws (after_word ws stripped) \<noteq> [] \<and>
       map_of (ca_tables (im_catalog (rp_db s))) (strip ws (after_word ws stripped)) = None \<longrightarrow> out = [ErrorMsg CatalogError])"
proof -
  have names: "[92] @ py ''help'' \<noteq> [92] @ py ''schema''" "[92] @ py ''tables'' \<noteq> [92] @ py ''schema''" by (simp_all add: py_def)
  obtain out where out: "cmd_schema ws (after_word ws stripped) s = (Inr (), s\<lparr>rp_out := rp_out s @ out\<rparr>)"
    "strip ws (after_word ws stripped) \<noteq> [] \<and> map_of (ca_tables (im_catalog (rp_db s))) (strip ws (after_word ws stripped)) = None \<longrightarrow>
       out = [ErrorMsg CatalogError]" using schema_prints by blast
  have "\<exists>out. cmd_tables s = (Inr (), s\<lparr>rp_out := rp_out s @ out\<rparr>)" "\<exists>out. cmd_indexes s = (Inr (), s\<lparr>rp_out := rp_out s @ out\<rparr>)"
    unfolding cmd_tables_def cmd_indexes_def bnd_def catalog_of_def
    by (auto simp: println_prints for_each_prints print_table_prints)
  then show ?thesis
    using assms names out unfolding meta_command_def Let_def bnd_def
    by (auto simp: println_prints)
qed

lemma execute_reports:
  assumes "db_execute u sql (rp_db s) = (r, d)" "r \<noteq> Inl NoReturn"
  shows "execute_and_print u ws sql s = (Inr (), s\<lparr>rp_db := d, rp_out := rp_out s @ report u ws sql r\<rparr>)"
proof (cases r)
  case (Inl e)
  then show ?thesis using assms
    by (cases e) (simp_all add: execute_and_print_def bnd_def attempt_def on_db_def on_part_def report_def println_prints)
next
  case (Inr rows)
  then show ?thesis using assms
    by (auto simp: execute_and_print_def bnd_def attempt_def on_db_def on_part_def report_def println_prints print_table_prints Let_def)
qed

lemma line_statement:
  "typed_statement ws (rp_buf s) line = Some sql \<Longrightarrow>
     repl_line u ws line s = bnd (execute_and_print u ws sql) (\<lambda>_. ret False) (s\<lparr>rp_buf := []\<rparr>)"
  by (auto simp: typed_statement_def is_command_def with_line_def complete_def statement_of_def repl_line_def bnd_def Let_def
      split: if_splits)

lemma line_no_statement:
  assumes "typed_statement ws (rp_buf s) line = None" "\<not> tells_to_end ws (rp_buf s) line"
  shows "\<exists>out. repl_line u ws line s = (Inr False, s\<lparr>rp_buf := lines_left ws (rp_buf s) line, rp_out := rp_out s @ out\<rparr>) \<and>
    (is_command ws (rp_buf s) line \<and> asks_unknown ws (im_catalog (rp_db s)) line \<longrightarrow> out = [ErrorMsg CatalogError])"
proof (cases "is_command ws (rp_buf s) line")
  case True
  then have "repl_line u ws line s = meta_command ws (strip ws line) s" "rp_buf s = []"
    by (simp_all add: is_command_def repl_line_def bnd_def)
  moreover have "s\<lparr>rp_buf := [], rp_out := out\<rparr> = s\<lparr>rp_out := out\<rparr>" for out using \<open>rp_buf s = []\<close> by (cases s) simp
  moreover have "lines_left ws (rp_buf s) line = []" using True by (simp add: lines_left_def)
  moreover have "ascii_lower (first_word ws (strip ws line)) \<notin> {[92] @ py ''quit'', [92] @ py ''q''}"
    using True assms(2) by (simp add: tells_to_end_def command_of_def)
  ultimately show ?thesis using command_prints [of ws "strip ws line" s] unfolding asks_unknown_def command_of_def by metis
next
  case False
  let ?b = "with_line ws (rp_buf s) line"
  have "repl_line u ws line s = (Inr False, s\<lparr>rp_buf := lines_left ws (rp_buf s) line\<rparr>)"
    using assms(1) False
    by (cases s) (auto simp: typed_statement_def is_command_def with_line_def complete_def statement_of_def repl_line_def bnd_def
        lines_left_def Let_def split: if_splits)
  with False show ?thesis by (intro exI [of _ "[]"]) simp
qed

text \<open>C26: The shell survives every line. The loop ends at a line that tells it to end. When a line completes a statement that raises,
  exactly one message is printed, of the kind of the exception, the lines are dropped and the loop goes on with the database as the
  statement left it; when the statement returns, its table, its confirmation or nothing is printed. Every other line leaves the database
  as it is, an unknown table in \<^verbatim>\<open>\schema\<close> is printed as an error, and the loop goes on. So no exception leaves the loop.\<close>

theorem repl_survives:
  "(if tells_to_end ws (rp_buf s) line then repl_loop u ws (Typed line # evs) s = (Inr True, s)
    else case typed_statement ws (rp_buf s) line of
      Some sql \<Rightarrow>
        (case db_execute u sql (rp_db s) of (r, d) \<Rightarrow>
           r = Inl NoReturn \<or>
           repl_loop u ws (Typed line # evs) s =
             repl_loop u ws evs (s\<lparr>rp_db := d, rp_buf := [], rp_out := rp_out s @ report u ws sql r\<rparr>))
    | None \<Rightarrow>
        (\<exists>out. repl_loop u ws (Typed line # evs) s =
             repl_loop u ws evs (s\<lparr>rp_buf := lines_left ws (rp_buf s) line, rp_out := rp_out s @ out\<rparr>) \<and>
           (if is_command ws (rp_buf s) line \<and> asks_unknown ws (im_catalog (rp_db s)) line then out = [ErrorMsg CatalogError] else True)))
   \<and> fst (repl_loop u ws evs s) \<in> {Inr True, Inr False, Inl NoReturn}"
proof -
  have ret: "fst (repl_loop u ws evs s) \<in> {Inr True, Inr False, Inl NoReturn}"
    using loop_raises [of u ws evs] by (cases "fst (repl_loop u ws evs s)") (auto simp: raises_only_def)
  show ?thesis
  proof (cases "tells_to_end ws (rp_buf s) line")
    case True
    then have "repl_loop u ws (Typed line # evs) s = (Inr True, s)"
      by (auto simp: tells_to_end_def is_command_def command_of_def repl_line_def meta_command_def bnd_def Let_def)
    with True ret show ?thesis by simp
  next
    case False
    show ?thesis
    proof (cases "typed_statement ws (rp_buf s) line")
      case None
      with line_no_statement [OF None False, of u] False ret show ?thesis by (auto simp: bnd_def)
    next
      case (Some sql)
      obtain r d where r: "db_execute u sql (rp_db s) = (r, d)" by force
      have "r \<noteq> Inl NoReturn \<Longrightarrow> repl_line u ws line s =
          (Inr False, s\<lparr>rp_db := d, rp_buf := [], rp_out := rp_out s @ report u ws sql r\<rparr>)"
        using execute_reports [of u sql "s\<lparr>rp_buf := []\<rparr>" r d ws] line_statement [OF Some, of u] r by (simp add: bnd_def)
      with Some False r ret show ?thesis by (cases "r = Inl NoReturn") (simp_all add: bnd_def)
    qed
  qed
qed

text \<open>Several lines are one statement.\<close>

lemma line_buffered:
  assumes "strip ws line \<noteq> []" "rp_buf s = [] \<longrightarrow> \<not> prefix [92] (strip ws line)" "\<not> complete ws (rp_buf s @ [line])"
  shows "repl_line u ws line s = (Inr False, s\<lparr>rp_buf := rp_buf s @ [line]\<rparr>)"
  using assms by (auto simp: repl_line_def bnd_def complete_def Let_def)

lemma line_completes:
  assumes "strip ws line \<noteq> []" "rp_buf s = [] \<longrightarrow> \<not> prefix [92] (strip ws line)" "complete ws (rp_buf s @ [line])"
    "statement_of ws (rp_buf s @ [line]) \<noteq> []"
  shows "repl_line u ws line s = bnd (execute_and_print u ws (statement_of ws (rp_buf s @ [line]))) (\<lambda>_. ret False) (s\<lparr>rp_buf := []\<rparr>)"
  using assms by (auto simp: repl_line_def bnd_def complete_def statement_of_def Let_def)

lemma lines_buffered:
  assumes "\<forall>l \<in> set ls. strip ws l \<noteq> []" "rp_buf s \<noteq> []"
    and "\<forall>k < length ls. \<not> complete ws (rp_buf s @ take (Suc k) ls)"
  shows "repl_loop u ws (map Typed ls @ evs) s = repl_loop u ws evs (s\<lparr>rp_buf := rp_buf s @ ls\<rparr>)"
  using assms
proof (induction ls arbitrary: s)
  case Nil
  then show ?case by simp
next
  case (Cons l ls)
  let ?s = "s\<lparr>rp_buf := rp_buf s @ [l]\<rparr>"
  from Cons.prems(3) have "\<not> complete ws (rp_buf s @ [l])" by (force dest: spec [of _ 0])
  with line_buffered [of ws l s u] Cons.prems(1,2) have run: "repl_line u ws l s = (Inr False, ?s)" by simp
  have "\<forall>k < length ls. \<not> complete ws (rp_buf ?s @ take (Suc k) ls)"
  proof (intro allI impI)
    fix k assume "k < length ls"
    with Cons.prems(3) [rule_format, of "Suc k"] show "\<not> complete ws (rp_buf ?s @ take (Suc k) ls)" by simp
  qed
  with Cons.IH [of ?s] Cons.prems(1) run show ?case by (simp add: bnd_def)
qed

text \<open>C27: A statement typed on any number of lines runs once, when the line arrives that makes the text end with a semicolon; what runs is
  the text of the lines, joined by blanks, without the semicolon.\<close>

theorem repl_runs_statement:
  assumes "\<forall>l \<in> set (ls @ [line]). strip ws l \<noteq> []" "\<not> prefix [92] (strip ws (hd (ls @ [line])))" "rp_buf s = []"
    and "\<forall>k < length ls. \<not> complete ws (take (Suc k) ls)" "complete ws (ls @ [line])" "statement_of ws (ls @ [line]) \<noteq> []"
  shows "repl_loop u ws (map Typed (ls @ [line]) @ evs) s =
    bnd (execute_and_print u ws (statement_of ws (ls @ [line]))) (\<lambda>_. repl_loop u ws evs) s"
proof -
  let ?s = "s\<lparr>rp_buf := ls\<rparr>"
  have "repl_loop u ws (map Typed ls @ Typed line # evs) s = repl_loop u ws (Typed line # evs) ?s"
  proof (cases ls)
    case Nil
    have "s\<lparr>rp_buf := []\<rparr> = s" using assms(3) by (cases s) simp
    with Nil show ?thesis by simp
  next
    case (Cons l ls')
    let ?s1 = "s\<lparr>rp_buf := [l]\<rparr>"
    from assms(4) Cons have "\<not> complete ws [l]" by (force dest: spec [of _ 0])
    with line_buffered [of ws l s u] assms(1-3) Cons have run: "repl_line u ws l s = (Inr False, ?s1)" by simp
    have "\<forall>k < length ls'. \<not> complete ws (rp_buf ?s1 @ take (Suc k) ls')"
    proof (intro allI impI)
      fix k assume "k < length ls'"
      with assms(4) [rule_format, of "Suc k"] Cons show "\<not> complete ws (rp_buf ?s1 @ take (Suc k) ls')" by simp
    qed
    with lines_buffered [of ls' ws ?s1 u "Typed line # evs"] assms(1) Cons run show ?thesis by (simp add: bnd_def)
  qed
  moreover have "repl_line u ws line ?s =
      bnd (execute_and_print u ws (statement_of ws (ls @ [line]))) (\<lambda>_. ret False) (?s\<lparr>rp_buf := []\<rparr>)"
    using line_completes [of ws line ?s u] assms by (cases ls) simp_all
  moreover have "?s\<lparr>rp_buf := []\<rparr> = s" using assms(3) by simp
  ultimately show ?thesis by (auto simp: bnd_def split: sum.split prod.split)
qed

definition no_database :: repl where
  "no_database = \<lparr>rp_db = \<lparr>im_catalog = \<lparr>ca_file = None, ca_tables = [], ca_indexes = [], ca_fkeys = []\<rparr>, im_engines = [],
     im_files = [], ex_engines = [], ex_index_mgr = True\<rparr>, rp_buf = [], rp_out = []\<rparr>"

theorem repl_runs_statement_witness:
  "repl_loop ascii (\<lambda>_. False) [Typed (py ''SELECT *''), Typed (py ''FROM t ; '')] no_database =
     bnd (execute_and_print ascii (\<lambda>_. False) (py ''SELECT * FROM t'')) (\<lambda>_. ret False) no_database"
proof -
  let ?ws = "\<lambda>_::nat. False"
  have ls: "\<forall>l \<in> set ([py ''SELECT *''] @ [py ''FROM t ; '']). strip ?ws l \<noteq> []"
    by (simp add: strip_def isspace_def py_def)
  have hd: "\<not> prefix [92] (strip ?ws (hd ([py ''SELECT *''] @ [py ''FROM t ; ''])))"
    by (simp add: strip_def isspace_def py_def)
  have buf: "rp_buf no_database = []" by (simp add: no_database_def)
  have no: "\<forall>k < length [py ''SELECT *'']. \<not> complete ?ws (take (Suc k) [py ''SELECT *''])"
    by (simp add: complete_def strip_def isspace_def py_def suffix_def)
  have yes: "complete ?ws ([py ''SELECT *''] @ [py ''FROM t ; ''])"
    by (simp add: complete_def strip_def isspace_def py_def suffix_to_prefix)
  have stmt: "statement_of ?ws ([py ''SELECT *''] @ [py ''FROM t ; '']) = py ''SELECT * FROM t''"
    by (simp add: statement_of_def strip_def isspace_def py_def)
  then have ne: "statement_of ?ws ([py ''SELECT *''] @ [py ''FROM t ; '']) \<noteq> []" by (simp add: py_def)
  from repl_runs_statement [OF ls hd buf no yes ne, of ascii "[]"] stmt show ?thesis by (simp add: bnd_def)
qed

subsection \<open>Aligned tables\<close>

lemma length_join: "length (join sep xs) = sum_list (map length xs) + (length xs - 1) * length sep"
  by (induction sep xs rule: join.induct) auto

lemma length_ljust [simp]: "length s \<le> w \<Longrightarrow> length (ljust w s) = w"
  by (simp add: ljust_def)

lemma foldl_max_start: "(m::nat) \<le> foldl (\<lambda>w r. max w (f r)) m rs"
proof (induction rs arbitrary: m)
  case (Cons r rs)
  have "m \<le> max m (f r)" by simp
  also have "\<dots> \<le> foldl (\<lambda>w r. max w (f r)) (max m (f r)) rs" by (rule Cons)
  finally show ?case by simp
qed simp

lemma foldl_max_member: "r \<in> set rs \<Longrightarrow> (f r::nat) \<le> foldl (\<lambda>w r. max w (f r)) m rs"
proof (induction rs arbitrary: m)
  case (Cons x rs)
  have "f x \<le> max m (f x)" by simp
  also have "\<dots> \<le> foldl (\<lambda>w r. max w (f r)) (max m (f x)) rs" by (rule foldl_max_start)
  finally show ?case using Cons by auto
qed simp

definition table_width :: "row list \<Rightarrow> nat" where
  "table_width rows =
     (let cols = table_cols rows in 2 + sum_list (map (\<lambda>c. width rows c + 2) cols) + (length cols - 1))"

lemma length_cells:
  assumes "\<forall>c \<in> set cols. length (f c) \<le> w c"
  shows "length (cells_line (map (\<lambda>c. (w c, f c)) cols)) = 2 + sum_list (map (\<lambda>c. w c + 2) cols) + (length cols - 1)"
proof -
  have "map (\<lambda>c. Suc (Suc (length (ljust (w c) (f c))))) cols = map (\<lambda>c. Suc (Suc (w c))) cols" using assms by simp
  then show ?thesis by (simp add: cells_line_def length_join py_def comp_def del: map_eq_conv)
qed

text \<open>Every printed table is aligned: the separators, the header and the rows have the same length, and each column is as wide as its
  longest entry or its header.\<close>

theorem table_aligned:
  assumes "rows \<noteq> []"
  shows "length (table_lines rows) = length rows + 5 \<and> (\<forall>l \<in> set (butlast (table_lines rows)). length l = table_width rows)"
proof -
  let ?cols = "table_cols rows"
  have w: "\<forall>c \<in> set ?cols. length c \<le> width rows c" by (simp add: width_def foldl_max_start)
  have v: "\<forall>c \<in> set ?cols. length (fmt (row_get r c)) \<le> width rows c" if "r \<in> set rows" for r
    using foldl_max_member [OF that, where f = "\<lambda>r. length (fmt (row_get r _))"] by (simp add: width_def)
  have sep: "length (sep_line (map (width rows) ?cols)) = table_width rows"
    by (simp add: sep_line_def table_width_def length_join py_def comp_def Let_def)
  show ?thesis using assms sep length_cells [OF w] length_cells [OF v]
    by (auto simp: table_lines_def butlast_append table_width_def Let_def)
qed

theorem table_aligned_witness:
  "let rows = [[(py ''id'', VInt 1), (py ''name'', VStr (py ''alice''))], [(py ''id'', VInt 20), (py ''name'', VNull)]] in
   length (table_lines rows) = 7 \<and> (\<forall>l \<in> set (butlast (table_lines rows)). length l = 14)"
proof -
  let ?rows = "[[(py ''id'', VInt 1), (py ''name'', VStr (py ''alice''))], [(py ''id'', VInt 20), (py ''name'', VNull)]]"
  have "table_width ?rows = 14"
    by (simp add: table_width_def table_cols_def from_keys_def width_def row_get_def py_def int_text_def dec.simps)
  with table_aligned [of ?rows] show ?thesis by simp
qed

text \<open>
  The shell looks at the first word of a statement, up to the first blank, to know a SELECT: without a blank before the star an empty
  result prints nothing.
\<close>

theorem select_without_blank_silent:
  assumes "fst (db_execute u (py ''SELECT*FROM t'') (rp_db s)) = Inr []"
  shows "rp_out (snd (execute_and_print u ws (py ''SELECT*FROM t'') s)) = rp_out s"
proof -
  obtain d where d: "db_execute u (py ''SELECT*FROM t'') (rp_db s) = (Inr [], d)"
    using assms by (cases "db_execute u (py ''SELECT*FROM t'') (rp_db s)") auto
  have verb: "upper u (first_word ws (strip ws (py ''SELECT*FROM t''))) = py ''SELECT*FROM''"
    by (simp add: strip_def first_word_def isspace_def upper_def upper_cp_def py_def)
  have "py ''SELECT*FROM'' \<noteq> py ''SELECT''" "py ''SELECT*FROM'' \<notin> set CONFIRMED"
    by (simp_all add: CONFIRMED_def py_def)
  with d show ?thesis
    by (simp add: execute_and_print_def bnd_def attempt_def on_db_def on_part_def Let_def verb)
qed

end
