(* ===== verification/Btree_Leaf.thy ===== *)
theory Btree_Leaf
  imports Slotted_Page Sorted_Map "HOL-Library.Multiset"
begin

section \<open>The first leaf class (\<^verbatim>\<open>src/btree.py\<close>)\<close>

text \<open>
  \<^verbatim>\<open>BTreeLeaf\<close> precedes the leaf pages of the B+tree, and the engine does not use it. It keeps cells
  \<^verbatim>\<open>[key:4][record]\<close> in a slotted page of 4096 bytes, sorted by key; equal keys stay in the order of insertion.
  The binary search of \<^verbatim>\<open>find_slot\<close> need not end, so it is a \<^theory_text>\<open>partial_function\<close>: the value \<open>None\<close> is a call that
  does not return. The lemmas show what \<^verbatim>\<open>insert\<close> and \<^verbatim>\<open>split\<close> do to the sorted list of cells, and where \<^verbatim>\<open>search\<close> fails.
\<close>

record btree_leaf =
  bl_page :: slotted_page

definition bl_read_key :: "int \<Rightarrow> slotted_page \<Rightarrow> int option res" where
  "bl_read_key slot_id p =
     bind_res (fst (sp_read_record slot_id p)) (\<lambda>r.
     case r of
       None \<Rightarrow> Inr None
     | Some raw \<Rightarrow> bind_res (unpack_u 4 (take 4 raw)) (\<lambda>k. Inr (Some k)))"

text \<open>The loop of \<^verbatim>\<open>find_slot\<close>; comparing the key of a deleted slot, \<^verbatim>\<open>None < key\<close>, is a \<^verbatim>\<open>TypeError\<close>.\<close>

partial_function (option) find_loop :: "slotted_page \<Rightarrow> int \<Rightarrow> int \<Rightarrow> int \<Rightarrow> int res option" where
  "find_loop p key lo hi =
     (if lo < hi then
        case bl_read_key ((lo + hi + 1) div 2) p of
          Inl e \<Rightarrow> Some (Inl e)
        | Inr mid_key \<Rightarrow>
            (case mid_key of
               None \<Rightarrow> Some (Inl TypeError)
             | Some k \<Rightarrow>
                 if k = key then Some (Inr ((lo + hi + 1) div 2))
                 else if k < key then find_loop p key ((lo + hi + 1) div 2 + 1) hi
                 else find_loop p key lo ((lo + hi + 1) div 2))
      else Some (Inr lo))"

definition find_slot :: "int \<Rightarrow> btree_leaf \<Rightarrow> int res option" where
  "find_slot key l =
     (case fst (get_num_slots (bl_page l)) of
        Inl e \<Rightarrow> Some (Inl e)
      | Inr n \<Rightarrow> find_loop (bl_page l) key 0 (n - 1))"

text \<open>The loop that collects the live cells with their keys, of which \<open>n\<close> from \<open>i\<close> on are left.\<close>

fun bl_entries_loop :: "nat \<Rightarrow> nat \<Rightarrow> slotted_page \<Rightarrow> (int \<times> bytes) list res" where
  "bl_entries_loop 0 i p = Inr []"
| "bl_entries_loop (Suc n) i p =
     bind_res (fst (sp_read_record (int i) p)) (\<lambda>r.
     case r of
       None \<Rightarrow> bl_entries_loop n (Suc i) p
     | Some raw \<Rightarrow>
         bind_res (unpack_u 4 (take 4 raw)) (\<lambda>k.
         bind_res (bl_entries_loop n (Suc i) p) (\<lambda>rest. Inr ((k, raw) # rest))))"

definition bl_entries :: "slotted_page \<Rightarrow> (int \<times> bytes) list res" where
  "bl_entries p = bind_res (fst (get_num_slots p)) (\<lambda>n. bl_entries_loop (nat n) 0 p)"

definition SP_PAGE_SIZE :: nat where "SP_PAGE_SIZE = 4096"

definition bl_insert :: "int \<Rightarrow> bytes \<Rightarrow> (btree_leaf, unit) act" where
  "bl_insert key rec =
     bnd (lift_res (pack_u 4 key)) (\<lambda>kb.
     let new_cell = kb @ rec in
     bnd (gets bl_page) (\<lambda>p.
     bnd (lift_res (bl_entries p)) (\<lambda>entries.
     let entries = sort_key fst (entries @ [(key, new_cell)]) in
     bnd (lift_res (sp_init SP_PAGE_SIZE)) (\<lambda>p.
     bnd (modify (\<lambda>l. l\<lparr>bl_page := p\<rparr>)) (\<lambda>_.
     on_part bl_page (\<lambda>p l. l\<lparr>bl_page := p\<rparr>) (sp_insert_all (map snd entries)))))))"

definition bl_search :: "int \<Rightarrow> btree_leaf \<Rightarrow> bytes option res option" where
  "bl_search key l =
     (case find_slot key l of
        None \<Rightarrow> None
      | Some r \<Rightarrow> Some (
          bind_res r (\<lambda>pos.
          bind_res (fst (get_num_slots (bl_page l))) (\<lambda>n.
          if pos \<ge> n then Inr None
          else
            bind_res (fst (sp_read_record pos (bl_page l))) (\<lambda>raw.
            case raw of
              None \<Rightarrow> Inr None
            | Some raw \<Rightarrow>
                bind_res (unpack_u 4 (take 4 raw)) (\<lambda>k.
                if k \<noteq> key then Inr None
                else
                  bind_res (unpack_u 4 (seg 4 8 raw)) (\<lambda>len.
                  Inr (Some (seg 8 (8 + nat len) raw))))))))) "

definition new_leaf_of :: "(int \<times> bytes) list \<Rightarrow> btree_leaf res" where
  "new_leaf_of es =
     bind_res (sp_init SP_PAGE_SIZE) (\<lambda>p.
     case sp_insert_all (map snd es) p of
       (Inl e, _) \<Rightarrow> Inl e
     | (Inr _, p) \<Rightarrow> Inr \<lparr>bl_page = p\<rparr>)"

definition bl_split :: "btree_leaf \<Rightarrow> (btree_leaf \<times> btree_leaf \<times> int) res" where
  "bl_split l =
     bind_res (bl_entries (bl_page l)) (\<lambda>entries.
     let mid = length entries div 2 in
     bind_res (new_leaf_of (take mid entries)) (\<lambda>left.
     bind_res (new_leaf_of (drop mid entries)) (\<lambda>right.
     case drop mid entries of
       [] \<Rightarrow> Inl IndexError
     | (split_key, _) # _ \<Rightarrow> Inr (left, right, split_key))))"

subsection \<open>The cells of a leaf\<close>

definition cell_key :: "bytes \<Rightarrow> int" where
  "cell_key raw = int (le_nat (take 4 raw))"

text \<open>The live cells of a page with their keys, and the well-formed leaves: sorted by key, nothing deleted.\<close>

definition live :: "slotted_page \<Rightarrow> bytes list" where
  "live p = concat (map (\<lambda>c. case c of None \<Rightarrow> [] | Some raw \<Rightarrow> [raw]) (sp_cells p))"

definition keyed :: "bytes list \<Rightarrow> (int \<times> bytes) list" where
  "keyed raws = map (\<lambda>raw. (cell_key raw, raw)) raws"

definition bl_wf :: "btree_leaf \<Rightarrow> bool" where
  "bl_wf l \<longleftrightarrow> sp_wf (bl_page l) \<and> (\<forall>raw \<in> set (live (bl_page l)). 4 \<le> length raw)
     \<and> sorted (map cell_key (live (bl_page l)))"

lemma unpack_cell: "4 \<le> length raw \<Longrightarrow> unpack_u 4 (take 4 raw) = Inr (cell_key raw)"
  by (simp add: unpack_u_def cell_key_def)

lemma bl_entries_loop_ok:
  assumes "sp_wf p" "i + n = num_slots p" "\<forall>raw \<in> set (live p). 4 \<le> length raw"
  shows "bl_entries_loop n i p
    = Inr (keyed (concat (map (\<lambda>c. case c of None \<Rightarrow> [] | Some raw \<Rightarrow> [raw]) (drop i (sp_cells p)))))"
  using assms(2)
proof (induction n arbitrary: i)
  case 0
  then show ?case by (simp add: keyed_def)
next
  case (Suc n)
  then have i: "i < num_slots p" by simp
  have d: "drop i (sp_cells p) = sp_cells p ! i # drop (Suc i) (sp_cells p)"
    using i by (simp add: Cons_nth_drop_Suc del: nth_sp_cells)
  have "\<forall>raw. sp_cells p ! i = Some raw \<longrightarrow> raw \<in> set (live p)"
    using i by (force simp: live_def in_set_conv_nth simp del: nth_sp_cells intro!: bexI [of _ "sp_cells p ! i"])
  with assms(3) Suc i d show ?case
    by (auto simp: sp_read_record_ok [OF assms(1) i] keyed_def unpack_cell simp del: nth_sp_cells split: option.split)
qed

lemma bl_entries_ok: "bl_wf l \<Longrightarrow> bl_entries (bl_page l) = Inr (keyed (live (bl_page l)))"
  using bl_entries_loop_ok [of "bl_page l" 0 "num_slots (bl_page l)"]
  by (simp add: bl_wf_def bl_entries_def sp_wf_num_slots live_def)

text \<open>A page built from cells that fit.\<close>

definition cells_fit :: "bytes list \<Rightarrow> bool" where
  "cells_fit raws \<longleftrightarrow> (\<Sum>r\<leftarrow>raws. 8 + length r) \<le> 4084"

lemma cells_fit_mset:
  assumes "mset xs = mset ys" "cells_fit ys"
  shows "cells_fit xs"
proof -
  from assms(1) have "mset (map (\<lambda>r. 8 + length r) xs) = mset (map (\<lambda>r. 8 + length r) ys)" by simp
  then have "(\<Sum>r\<leftarrow>xs. 8 + length r) = (\<Sum>r\<leftarrow>ys. 8 + length r)" by (metis sum_mset_sum_list)
  with assms(2) show ?thesis by (simp add: cells_fit_def)
qed

lemma fresh_page_ok:
  assumes "cells_fit raws"
  shows "\<exists>p. sp_insert_all raws (sp_empty 4096) = (Inr (), p) \<and> sp_wf p \<and> sp_cells p = map Some raws \<and> live p = raws"
proof -
  from sp_insert_all_ok [of "sp_empty 4096" raws] assms
  obtain p where "sp_insert_all raws (sp_empty 4096) = (Inr (), p)" "sp_wf p" "sp_cells p = map Some raws"
    by (auto simp: sp_empty_wf cells_fit_def)
  then show ?thesis by (auto simp: live_def comp_def)
qed

lemma map_snd_keyed [simp]: "map snd (keyed raws) = raws"
  by (simp add: keyed_def comp_def)

lemma sort_keyed: "sort_key fst (keyed raws) = keyed (sort_key cell_key raws)"
proof -
  have "insort_key fst (cell_key r, r) (keyed rs) = keyed (insort_key cell_key r rs)" for r rs
    by (induction rs) (auto simp: keyed_def)
  then show ?thesis by (induction raws) (auto simp: keyed_def)
qed

lemma new_leaf_of_ok:
  "cells_fit raws \<Longrightarrow> \<exists>l. new_leaf_of (keyed raws) = Inr l \<and> sp_wf (bl_page l) \<and> live (bl_page l) = raws"
  using fresh_page_ok [of raws] by (auto simp: new_leaf_of_def SP_PAGE_SIZE_def sp_init_ok)

text \<open>
  \<^verbatim>\<open>insert\<close> puts the new cell behind the cells with a key up to its own; it loses nothing when the cells fit. An equal key is not
  replaced.
\<close>

theorem bl_insert_correct:
  assumes "bl_wf l" "0 \<le> key" "key < 2 ^ 32" "cells_fit (live (bl_page l) @ [le_bytes 4 (nat key) @ rec])"
  shows "\<exists>l'. bl_insert key rec l = (Inr (), l') \<and> bl_wf l' \<and>
    live (bl_page l') = sort_key cell_key (live (bl_page l) @ [le_bytes 4 (nat key) @ rec])"
proof -
  let ?new = "le_bytes 4 (nat key) @ rec"
  let ?raws = "sort_key cell_key (live (bl_page l) @ [?new])"
  have kb: "pack_u 4 key = Inr (le_bytes 4 (nat key))" using assms(2,3) by simp
  have ck: "cell_key ?new = key" using assms(2,3) by (simp add: cell_key_def le_nat_le_bytes)
  have "mset ?raws = mset (live (bl_page l) @ [?new])" by simp
  then have "cells_fit ?raws" using assms(4) cells_fit_mset by blast
  from fresh_page_ok [OF this] obtain p where p: "sp_insert_all ?raws (sp_empty 4096) = (Inr (), p)" "sp_wf p" "live p = ?raws"
    by blast
  have es: "keyed (live (bl_page l)) @ [(key, ?new)] = keyed (live (bl_page l) @ [?new])"
    using ck by (simp add: keyed_def)
  have "\<forall>raw \<in> set ?raws. 4 \<le> length raw" using assms(1) by (auto simp: bl_wf_def)
  then have "bl_wf \<lparr>bl_page = p\<rparr>" using p(2,3) by (simp add: bl_wf_def)
  moreover have "bl_insert key rec l = (Inr (), \<lparr>bl_page = p\<rparr>)"
    using p(1) by (simp add: bl_insert_def bnd_def kb bl_entries_ok [OF assms(1)] es sort_keyed SP_PAGE_SIZE_def sp_init_ok
        on_part_def Let_def del: sort_key_simps)
  ultimately show ?thesis using p(3) by auto
qed

text \<open>
  \<^verbatim>\<open>split\<close> cuts the list of cells in two halves; the split key is the smallest of the right one. A leaf without cells raises.
\<close>

theorem bl_split_correct:
  assumes "bl_wf l" "cells_fit (live (bl_page l))" "live (bl_page l) \<noteq> []"
  shows "\<exists>left right. bl_split l = Inr (left, right, cell_key (hd (live (bl_page right)))) \<and> bl_wf left \<and> bl_wf right \<and>
    live (bl_page left) @ live (bl_page right) = live (bl_page l) \<and>
    length (live (bl_page left)) = length (live (bl_page l)) div 2"
proof -
  let ?raws = "live (bl_page l)"
  let ?mid = "length ?raws div 2"
  have "cells_fit (take ?mid ?raws @ drop ?mid ?raws)" using assms(2) by simp
  then have fit: "cells_fit (take ?mid ?raws)" "cells_fit (drop ?mid ?raws)"
    unfolding cells_fit_def map_append sum_list_append by simp_all
  obtain left where left: "new_leaf_of (keyed (take ?mid ?raws)) = Inr left" "sp_wf (bl_page left)"
    "live (bl_page left) = take ?mid ?raws" using new_leaf_of_ok [OF fit(1)] by blast
  obtain right where right: "new_leaf_of (keyed (drop ?mid ?raws)) = Inr right" "sp_wf (bl_page right)"
    "live (bl_page right) = drop ?mid ?raws" using new_leaf_of_ok [OF fit(2)] by blast
  have halves: "take k (keyed ?raws) = keyed (take k ?raws)" "drop k (keyed ?raws) = keyed (drop k ?raws)" for k
    by (simp_all add: keyed_def take_map drop_map)
  have "?mid < length ?raws" using assms(3) by simp
  then obtain r rs where r: "drop ?mid ?raws = r # rs" by (metis Cons_nth_drop_Suc)
  have "bl_split l = Inr (left, right, cell_key r)"
    using left(1) right(1) r by (simp add: bl_split_def bl_entries_ok [OF assms(1)] halves Let_def) (simp add: keyed_def)
  moreover have "bl_wf left" "bl_wf right" using assms(1) left(2,3) right(2,3)
    by (auto simp: bl_wf_def take_map [symmetric] drop_map [symmetric] sorted_wrt_take sorted_wrt_drop dest: in_set_takeD in_set_dropD)
  ultimately show ?thesis using left(3) right(3) r append_take_drop_id [of ?mid ?raws] by simp
qed

lemma bl_split_empty: "bl_wf l \<Longrightarrow> live (bl_page l) = [] \<Longrightarrow> bl_split l = Inl IndexError"
  using new_leaf_of_ok [of "[]"]
  by (auto simp: bl_split_def bl_entries_ok keyed_def cells_fit_def)

subsection \<open>Where the search fails\<close>

text \<open>
  With two candidates left the middle is the upper one; a smaller key leaves the interval unchanged, so the loop never ends.
\<close>

lemma find_loop_diverges:
  assumes "bl_read_key (lo + 1) p = Inr (Some k)" "key < k"
  shows "find_loop p key lo (lo + 1) = None"
proof (rule ccontr)
  assume "find_loop p key lo (lo + 1) \<noteq> None"
  then obtain r where "find_loop p key lo (lo + 1) = Some r" by auto
  then have "\<not> (p = p \<and> key = key \<and> lo = lo \<and> lo + 1 = lo + 1)"
  proof (rule find_loop.raw_induct [where P = "\<lambda>p' key' lo' hi' r. \<not> (p' = p \<and> key' = key \<and> lo' = lo \<and> hi' = lo + 1)", rotated])
    fix f p' key' lo' hi' r
    assume IH: "\<And>p' key' lo' hi' r. f p' key' lo' hi' = Some r \<Longrightarrow> \<not> (p' = p \<and> key' = key \<and> lo' = lo \<and> hi' = lo + 1)"
      and eq: "(if lo' < hi' then
        case bl_read_key ((lo' + hi' + 1) div 2) p' of
          Inl e \<Rightarrow> Some (Inl e)
        | Inr mid_key \<Rightarrow>
            (case mid_key of
               None \<Rightarrow> Some (Inl TypeError)
             | Some k \<Rightarrow>
                 if k = key' then Some (Inr ((lo' + hi' + 1) div 2))
                 else if k < key' then f p' key' ((lo' + hi' + 1) div 2 + 1) hi'
                 else f p' key' lo' ((lo' + hi' + 1) div 2))
      else Some (Inr lo')) = Some r"
    show "\<not> (p' = p \<and> key' = key \<and> lo' = lo \<and> hi' = lo + 1)"
    proof
      assume "p' = p \<and> key' = key \<and> lo' = lo \<and> hi' = lo + 1"
      then have eqs: "p' = p" "key' = key" "lo' = lo" "hi' = lo + 1" by simp_all
      have mid: "(lo + (lo + 1) + 1) div 2 = lo + 1" by simp
      from eq [unfolded eqs mid] assms have "f p key lo (lo + 1) = Some r" by simp
      with IH show False by blast
    qed
  qed
  then show False by simp
qed

lemma bl_read_key_ok:
  assumes "sp_wf p" "i < num_slots p" "sp_cells p ! i = Some raw" "4 \<le> length raw"
  shows "bl_read_key (int i) p = Inr (Some (cell_key raw))"
  using assms by (simp add: bl_read_key_def sp_read_record_ok unpack_cell del: nth_sp_cells)

theorem search_two_cells_diverges:
  assumes "bl_wf l" "sp_cells (bl_page l) = [Some x, Some y]" "key < cell_key y"
  shows "bl_search key l = None"
proof -
  let ?p = "bl_page l"
  have n: "num_slots ?p = 2" using assms(2) by (metis length_sp_cells length_Cons list.size(3) numeral_2_eq_2)
  have "live ?p = [x, y]" using assms(2) by (simp add: live_def)
  with assms(1) have "4 \<le> length y" "sp_wf ?p" by (simp_all add: bl_wf_def)
  then have "bl_read_key (0 + 1) ?p = Inr (Some (cell_key y))"
    using bl_read_key_ok [of ?p 1 y] n assms(2) by (simp del: nth_sp_cells)
  from find_loop_diverges [OF this assms(3)] n \<open>sp_wf ?p\<close> show ?thesis
    by (simp add: bl_search_def find_slot_def sp_wf_num_slots)
qed

text \<open>
  \<^verbatim>\<open>search\<close> takes the first four bytes of the record for its length, which \<^verbatim>\<open>insert\<close> does not write: the only record of a leaf
  is found when it carries its own length, and a shorter record raises.
\<close>

theorem search_single_cell:
  assumes "bl_wf l" "sp_cells (bl_page l) = [Some (le_bytes 4 (nat key) @ rec)]" "0 \<le> key" "key < 2 ^ 32"
  shows "bl_search key l = Some (if length rec < 4 then Inl StructError else Inr (Some (seg 4 (4 + le_nat (take 4 rec)) rec)))"
proof -
  let ?p = "bl_page l"
  let ?raw = "le_bytes 4 (nat key) @ rec"
  have n: "num_slots ?p = 1" using assms(2) by (metis length_sp_cells length_Cons list.size(3) One_nat_def)
  have p: "sp_wf ?p" using assms(1) by (simp add: bl_wf_def)
  have rd: "sp_read_record 0 ?p = (Inr (Some ?raw), ?p)"
    using sp_read_record_ok [OF p, of 0] n assms(2) by (simp del: nth_sp_cells)
  have k: "unpack_u 4 (le_bytes 4 (nat key)) = Inr key"
    using assms(3,4) by (simp add: unpack_u_def le_nat_le_bytes)
  have s: "seg 4 8 ?raw = take 4 rec" "seg 8 (8 + m) ?raw = seg 4 (4 + m) rec" for m
    using seg_append_right [of "le_bytes 4 (nat key)" 4 8 rec] seg_append_right [of "le_bytes 4 (nat key)" 8 "8 + m" rec]
    by (simp_all add: seg_def)
  have "find_slot key l = Some (Inr 0)"
    using n p by (simp add: find_slot_def sp_wf_num_slots find_loop.simps)
  then show ?thesis using n p k
    by (simp add: bl_search_def sp_wf_num_slots rd s unpack_u_def)
qed

end
