(* ===== verification/Lsm_Store.thy ===== *)
theory Lsm_Store
  imports Lexer "HOL-Library.AList" "HOL-Library.List_Lexorder" "HOL-Library.Multiset"
begin

unbundle bit_operations_syntax

section \<open>The log-structured store (\<^verbatim>\<open>scratch_codes/lsm_tree.py\<close>)\<close>

text \<open>
  A stand-alone key-value store: a dictionary in memory, a log of its writes, and files of sorted entries with a Bloom filter each.
  Keys are strings, values anything that JSON keeps. The clock's readings are arguments. The lines of the log and the files
  are the JSON values they hold, \<open>None\<close> when a crash has left text that is not JSON. A removed file lives on while it
  is open: after \<^verbatim>\<open>os.remove\<close> the log handle writes to a file without a name (\<open>lsm_wal_linked\<close>). Paths are kept without the
  directory, and what is printed is left out.

  The lemmas show that a session answers like a map, and which of its entries a later session finds.
\<close>

subsection \<open>Bloom filters\<close>

record bloom_filter =
  bf_size :: nat
  bf_hash_count :: nat
  bf_bit_array :: int

text \<open>\<^verbatim>\<open>BloomFilter()\<close>\<close>

definition bloom_init :: bloom_filter where
  "bloom_init = \<lparr>bf_size = 1024, bf_hash_count = 3, bf_bit_array = 0\<rparr>"

text \<open>\<^verbatim>\<open>zlib.adler32\<close>\<close>

definition adler32 :: "bytes \<Rightarrow> nat" where
  "adler32 data =
     (case foldl (\<lambda>(a, b) x. let a = (a + unat x) mod 65521 in (a, (b + a) mod 65521)) (1, 0) data of
        (a, b) \<Rightarrow> b * 65536 + a)"

definition bloom_hashes :: "pystr \<Rightarrow> bloom_filter \<Rightarrow> nat list res" where
  "bloom_hashes key bf =
     map_res (\<lambda>i. bind_res (utf8_encode (key @ py '':'' @ dec i)) (\<lambda>b. Inr (adler32 b mod bf_size bf)))
       [0..<bf_hash_count bf]"

definition bloom_add :: "pystr \<Rightarrow> bloom_filter \<Rightarrow> bloom_filter res" where
  "bloom_add key bf =
     bind_res (bloom_hashes key bf) (\<lambda>hs.
     Inr (bf\<lparr>bf_bit_array := foldl (\<lambda>bits h. bits OR push_bit h 1) (bf_bit_array bf) hs\<rparr>))"

definition bloom_exists :: "pystr \<Rightarrow> bloom_filter \<Rightarrow> bool res" where
  "bloom_exists key bf =
     bind_res (bloom_hashes key bf) (\<lambda>hs. Inr (list_all (\<lambda>h. bf_bit_array bf AND push_bit h 1 \<noteq> 0) hs))"

fun bloom_add_all :: "pystr list \<Rightarrow> bloom_filter \<Rightarrow> bloom_filter res" where
  "bloom_add_all [] bf = Inr bf"
| "bloom_add_all (key # keys) bf = bind_res (bloom_add key bf) (bloom_add_all keys)"

subsection \<open>The store\<close>

record 'v lsm_entry =
  le_val :: "'v option"
  le_ts :: int
  le_del :: bool

type_synonym 'v lsm_table = "(pystr \<times> 'v lsm_entry) list"
type_synonym 'v lsm_line = "(pystr \<times> 'v lsm_entry) option"

record 'v lsm =
  lsm_mem_limit :: nat
  lsm_memtable :: "'v lsm_table"
  lsm_index :: "pystr list"
  lsm_filters :: "(pystr \<times> bloom_filter) list"
  lsm_generation :: int
  lsm_files :: "(pystr \<times> 'v lsm_table option) list"
  lsm_wal :: "'v lsm_line list"
  lsm_wal_linked :: bool

text \<open>What a process leaves in the directory.\<close>

record 'v lsm_disk =
  ld_files :: "(pystr \<times> 'v lsm_table option) list"
  ld_wal :: "'v lsm_line list option"

text \<open>\<^verbatim>\<open>s.split(c)\<close> and \<^verbatim>\<open>int(x.split('_')[2].split('.')[0])\<close>\<close>

fun split_on :: "nat \<Rightarrow> pystr \<Rightarrow> pystr list" where
  "split_on c [] = [[]]"
| "split_on c (x # xs) =
     (if x = c then [] # split_on c xs
      else case split_on c xs of w # ws \<Rightarrow> (x # w) # ws | [] \<Rightarrow> [[x]])"

definition generation_of :: "unicode \<Rightarrow> pystr \<Rightarrow> int res" where
  "generation_of u f =
     (let parts = split_on (cp CHR ''_'') f in
      if length parts \<le> 2 then Inl IndexError else int_of_str u (hd (split_on (cp CHR ''.'') (parts ! 2))))"

definition sst_name :: "int \<Rightarrow> pystr" where
  "sst_name g = py ''sst_gen_'' @ int_text g @ py ''.json''"

text \<open>\<^verbatim>\<open>json.load\<close> of a file of entries\<close>

definition load_sst :: "pystr \<Rightarrow> ('v lsm, 'v lsm_table) act" where
  "load_sst f =
     bnd (gets (\<lambda>s. map_of (lsm_files s) f)) (\<lambda>r.
     case r of
       None \<Rightarrow> throw IOError
     | Some None \<Rightarrow> throw ValueError
     | Some (Some data) \<Rightarrow> ret data)"

text \<open>\<^verbatim>\<open>_recover\<close>: the loop over the files with their generations, and the loop over the lines of the log.\<close>

fun recover_files :: "(int \<times> pystr) list \<Rightarrow> ('v lsm, unit) act" where
  "recover_files [] = ret ()"
| "recover_files ((gen, f) # fs) =
     bnd (modify (\<lambda>s. s\<lparr>lsm_index := lsm_index s @ [f], lsm_generation := max (lsm_generation s) gen\<rparr>)) (\<lambda>_.
     bnd (load_sst f) (\<lambda>data.
     bnd (lift_res (bloom_add_all (map fst data) bloom_init)) (\<lambda>bf.
     bnd (modify (\<lambda>s. s\<lparr>lsm_filters := AList.update f bf (lsm_filters s)\<rparr>)) (\<lambda>_.
     recover_files fs))))"

fun replay_wal :: "'v lsm_line list \<Rightarrow> ('v lsm, unit) act" where
  "replay_wal [] = ret ()"
| "replay_wal (None # ls) = throw ValueError"
| "replay_wal (Some (key, data) # ls) =
     bnd (modify (\<lambda>s. s\<lparr>lsm_memtable := AList.update key data (lsm_memtable s)\<rparr>)) (\<lambda>_. replay_wal ls)"

definition lsm_recover :: "unicode \<Rightarrow> ('v lsm, unit) act" where
  "lsm_recover u =
     bnd (gets (\<lambda>s. filter (prefix (py ''sst_'')) (map fst (lsm_files s)))) (\<lambda>fs.
     bnd (lift_res (map_res (\<lambda>f. bind_res (generation_of u f) (\<lambda>g. Inr (g, f))) fs)) (\<lambda>gfs.
     bnd (recover_files (sort_key fst gfs)) (\<lambda>_.
     bnd (gets lsm_wal) replay_wal)))"

text \<open>\<^verbatim>\<open>__init__\<close>: opening the log to append creates it.\<close>

definition lsm_init :: "unicode \<Rightarrow> nat \<Rightarrow> 'v lsm_disk \<Rightarrow> 'v lsm res" where
  "lsm_init u mem_limit d =
     (case lsm_recover u
         \<lparr>lsm_mem_limit = mem_limit, lsm_memtable = [], lsm_index = [], lsm_filters = [], lsm_generation = 0,
          lsm_files = ld_files d, lsm_wal = (case ld_wal d of None \<Rightarrow> [] | Some ls \<Rightarrow> ls), lsm_wal_linked = True\<rparr> of
       (Inl e, _) \<Rightarrow> Inl e
     | (Inr _, s) \<Rightarrow> Inr s)"

definition write_to_wal :: "pystr \<Rightarrow> 'v lsm_entry \<Rightarrow> ('v lsm, unit) act" where
  "write_to_wal key data = modify (\<lambda>s. s\<lparr>lsm_wal := lsm_wal s @ [Some (key, data)]\<rparr>)"

definition lsm_flush :: "('v lsm, unit) act" where
  "lsm_flush =
     bnd (gets lsm_memtable) (\<lambda>mem.
     if mem = [] then ret ()
     else
       bnd (modify (\<lambda>s. s\<lparr>lsm_generation := lsm_generation s + 1\<rparr>)) (\<lambda>_.
       bnd (gets lsm_generation) (\<lambda>g.
       let fname = sst_name g; sorted_data = sort_key fst mem in
       bnd (lift_res (bloom_add_all (map fst sorted_data) bloom_init)) (\<lambda>bf.
       bnd (modify (\<lambda>s. s\<lparr>lsm_files := AList.update fname (Some sorted_data) (lsm_files s)\<rparr>)) (\<lambda>_.
       bnd (modify (\<lambda>s. s\<lparr>lsm_index := lsm_index s @ [fname]\<rparr>)) (\<lambda>_.
       bnd (modify (\<lambda>s. s\<lparr>lsm_filters := AList.update fname bf (lsm_filters s)\<rparr>)) (\<lambda>_.
       bnd (modify (\<lambda>s. s\<lparr>lsm_memtable := []\<rparr>)) (\<lambda>_.
       bnd (modify (\<lambda>s. s\<lparr>lsm_wal_linked := False\<rparr>)) (\<lambda>_.
       modify (\<lambda>s. s\<lparr>lsm_wal := []\<rparr>))))))))))"

definition lsm_write :: "pystr \<Rightarrow> 'v lsm_entry \<Rightarrow> ('v lsm, unit) act" where
  "lsm_write key entry =
     bnd (write_to_wal key entry) (\<lambda>_.
     bnd (modify (\<lambda>s. s\<lparr>lsm_memtable := AList.update key entry (lsm_memtable s)\<rparr>)) (\<lambda>_.
     bnd (gets (\<lambda>s. lsm_mem_limit s \<le> length (lsm_memtable s))) (\<lambda>full.
     if full then lsm_flush else ret ())))"

definition lsm_put :: "pystr \<Rightarrow> 'v \<Rightarrow> int \<Rightarrow> ('v lsm, unit) act" where
  "lsm_put key value now = lsm_write key \<lparr>le_val = Some value, le_ts = now, le_del = False\<rparr>"

definition lsm_delete :: "pystr \<Rightarrow> int \<Rightarrow> ('v lsm, unit) act" where
  "lsm_delete key now = lsm_write key \<lparr>le_val = None, le_ts = now, le_del = True\<rparr>"

text \<open>The answers of \<^verbatim>\<open>get\<close>: a value, \<^verbatim>\<open>None\<close>, or the string \<^verbatim>\<open>"Not Found"\<close>.\<close>

datatype 'v lsm_answer = Value "'v option" | NotFound

definition entry_answer :: "'v lsm_entry \<Rightarrow> 'v lsm_answer" where
  "entry_answer e = Value (if le_del e then None else le_val e)"

fun get_files :: "pystr \<Rightarrow> pystr list \<Rightarrow> ('v lsm, 'v lsm_answer) act" where
  "get_files key [] = ret NotFound"
| "get_files key (fname # fs) =
     bnd (gets (\<lambda>s. map_of (lsm_filters s) fname)) (\<lambda>bf.
     case bf of
       None \<Rightarrow> throw KeyError
     | Some bf \<Rightarrow>
         bnd (lift_res (bloom_exists key bf)) (\<lambda>maybe.
         if maybe then
           bnd (load_sst fname) (\<lambda>data.
           case map_of data key of
             Some e \<Rightarrow> ret (entry_answer e)
           | None \<Rightarrow> get_files key fs)
         else get_files key fs))"

definition lsm_get :: "pystr \<Rightarrow> ('v lsm, 'v lsm_answer) act" where
  "lsm_get key =
     bnd (gets (\<lambda>s. map_of (lsm_memtable s) key)) (\<lambda>r.
     case r of
       Some e \<Rightarrow> ret (entry_answer e)
     | None \<Rightarrow> bnd (gets lsm_index) (\<lambda>index. get_files key (rev index)))"

subsection \<open>Bloom filters have no false negatives\<close>

definition bloom_same :: "bloom_filter \<Rightarrow> bloom_filter \<Rightarrow> bool" where
  "bloom_same bf bf' \<longleftrightarrow> bf_size bf' = bf_size bf \<and> bf_hash_count bf' = bf_hash_count bf"

definition in_bloom :: "bloom_filter \<Rightarrow> pystr \<Rightarrow> bool" where
  "in_bloom bf key \<longleftrightarrow> bloom_exists key bf = Inr True"

lemma fold_bits: "bit (foldl (\<lambda>bits h. bits OR 2 ^ h) (b::int) hs) n \<longleftrightarrow> bit b n \<or> n \<in> set hs"
  by (induction hs arbitrary: b) (auto simp: bit_or_iff bit_exp_iff)

lemma and_bit: "(b::int) AND 2 ^ h = 0 \<longleftrightarrow> \<not> bit b h"
  by (simp add: and_exp_eq_0_iff_not_bit)

lemma map_res_total: "(\<And>x. x \<in> set xs \<Longrightarrow> \<exists>y. f x = Inr y) \<Longrightarrow> \<exists>ys. map_res f xs = Inr ys"
  by (induction xs) fastforce+

lemma bloom_hashes_total: "list_all scalar_value key \<Longrightarrow> \<exists>hs. bloom_hashes key bf = Inr hs"
proof -
  assume key: "list_all scalar_value key"
  have "list_all scalar_value (key @ py '':'' @ dec i)" for i
    using key dec_digits [of i] by (auto simp: py_def scalar_value_def is_surrogate_def list_all_iff)
  then have "\<exists>b. utf8_encode (key @ py '':'' @ dec i) = Inr b" for i using utf8_encode_ok by blast
  then show ?thesis unfolding bloom_hashes_def by (intro map_res_total) (metis bind_res_simps(1))
qed

lemma bloom_exists_total: "list_all scalar_value key \<Longrightarrow> \<exists>b. bloom_exists key bf = Inr b"
  using bloom_hashes_total [of key bf] by (auto simp: bloom_exists_def)

lemma bloom_hashes_same: "bloom_same bf bf' \<Longrightarrow> bloom_hashes key bf' = bloom_hashes key bf"
  by (simp add: bloom_hashes_def bloom_same_def)

lemma in_bloom_iff: "in_bloom bf key \<longleftrightarrow> (\<exists>hs. bloom_hashes key bf = Inr hs \<and> (\<forall>h \<in> set hs. bit (bf_bit_array bf) h))"
  by (auto simp: in_bloom_def bloom_exists_def and_bit list_all_iff bind_res_def split: sum.split)

lemma bloom_add_ok:
  assumes "list_all scalar_value key"
  shows "\<exists>bf'. bloom_add key bf = Inr bf' \<and> in_bloom bf' key \<and> (\<forall>k. in_bloom bf k \<longrightarrow> in_bloom bf' k)"
proof -
  obtain hs where hs: "bloom_hashes key bf = Inr hs" using bloom_hashes_total [OF assms] by blast
  let ?bf = "bf\<lparr>bf_bit_array := foldl (\<lambda>bits h. bits OR push_bit h 1) (bf_bit_array bf) hs\<rparr>"
  have "bloom_same bf ?bf" by (simp add: bloom_same_def)
  then have "in_bloom ?bf key" "\<forall>k. in_bloom bf k \<longrightarrow> in_bloom ?bf k"
    using hs by (auto simp: in_bloom_iff bloom_hashes_same fold_bits)
  with hs show ?thesis by (simp add: bloom_add_def)
qed

lemma bloom_add_all_ok:
  assumes "\<forall>k \<in> set keys. list_all scalar_value k"
  shows "\<exists>bf'. bloom_add_all keys bf = Inr bf' \<and> (\<forall>k. k \<in> set keys \<or> in_bloom bf k \<longrightarrow> in_bloom bf' k)"
  using assms
proof (induction keys arbitrary: bf)
  case (Cons key keys)
  then obtain b1 where b1: "bloom_add key bf = Inr b1" "in_bloom b1 key" "\<forall>k. in_bloom bf k \<longrightarrow> in_bloom b1 k"
    using bloom_add_ok [of key bf] by auto
  from Cons obtain b2 where "bloom_add_all keys b1 = Inr b2" "\<forall>k. k \<in> set keys \<or> in_bloom b1 k \<longrightarrow> in_bloom b2 k"
    by fastforce
  with b1 show ?case by auto
qed simp

subsection \<open>File names\<close>

lemma split_on_absent: "c \<notin> set w \<Longrightarrow> split_on c w = [w]"
  by (induction w) auto

lemma split_on_sep: "c \<notin> set w \<Longrightarrow> split_on c (w @ c # r) = w # split_on c r"
  by (induction w) auto

lemma length_dec: "n < 10 ^ k \<Longrightarrow> 0 < k \<Longrightarrow> length (dec n) \<le> k"
proof (induction k arbitrary: n)
  case (Suc k)
  show ?case
  proof (cases "n < 10")
    case True
    then show ?thesis by (subst dec.simps) simp
  next
    case False
    with Suc.prems have "0 < k" by (cases k) auto
    moreover have "n div 10 < 10 ^ k" using Suc.prems(1) by (simp add: less_mult_imp_div_less mult.commute)
    ultimately show ?thesis using Suc.IH False by (subst dec.simps) simp
  qed
qed simp

definition gen_ok :: "int \<Rightarrow> bool" where
  "gen_ok g \<longleftrightarrow> 0 \<le> g \<and> g < 2 ^ 65"

lemma generation_of_name:
  assumes "gen_ok g"
  shows "generation_of u (sst_name g) = Inr g"
proof -
  have "nat g < 2 ^ 65" using assms by (simp add: gen_ok_def nat_less_iff)
  then have "nat g < 10 ^ 20" by simp
  then have len: "length (dec (nat g)) \<le> 20" by (rule length_dec) simp
  have ds: "\<forall>c \<in> set (dec (nat g)). 48 \<le> c \<and> c \<le> 57" using dec_digits by (simp add: list_all_iff)
  have absent: "95 \<notin> set (dec (nat g))" "46 \<notin> set (dec (nat g))" using ds by fastforce+
  obtain d r where r: "dec (nat g) = d # r" using dec_nonempty by (cases "dec (nat g)") auto
  then have d: "dec (nat g) = d # r" "d \<noteq> 45" using ds by auto
  have i: "int_of_str u (dec (nat g)) = Inr g"
    using nat_of_dec [of "nat g" u] len assms d by (simp add: int_of_str_def gen_ok_def)
  have n1: "sst_name g = py ''sst'' @ 95 # py ''gen'' @ 95 # dec (nat g) @ py ''.json''"
    using assms by (simp add: sst_name_def int_text_def gen_ok_def py_def)
  have s1: "split_on 95 (sst_name g) = [py ''sst'', py ''gen'', dec (nat g) @ py ''.json'']"
    unfolding n1 using absent by (subst split_on_sep) (auto simp: py_def split_on_sep intro!: split_on_absent)
  have s2: "hd (split_on 46 (dec (nat g) @ py ''.json'')) = dec (nat g)"
    using absent split_on_sep [of 46 "dec (nat g)" "py ''json''"] by (auto simp: py_def)
  show ?thesis using s1 s2 i by (simp add: generation_of_def Let_def)
qed

lemma sst_name_inj: "gen_ok g \<Longrightarrow> gen_ok g' \<Longrightarrow> sst_name g = sst_name g' \<longleftrightarrow> g = g'"
  using generation_of_name by (metis sum.inject(2))

lemma sst_name_prefix: "prefix (py ''sst_'') (sst_name g)"
  by (simp add: sst_name_def py_def)

subsection \<open>What a store holds\<close>

text \<open>The newest entry of a key in a list of files, and the entry that the store shows for it.\<close>

fun newest :: "(pystr \<times> 'v lsm_table option) list \<Rightarrow> pystr list \<Rightarrow> pystr \<Rightarrow> 'v lsm_entry option" where
  "newest files [] key = None"
| "newest files (f # fs) key =
     (case map_of files f of
        Some (Some t) \<Rightarrow> (case map_of t key of Some e \<Rightarrow> Some e | None \<Rightarrow> newest files fs key)
      | _ \<Rightarrow> newest files fs key)"

definition on_files :: "'v lsm \<Rightarrow> pystr \<Rightarrow> 'v lsm_entry option" where
  "on_files s = newest (lsm_files s) (rev (lsm_index s))"

definition lsm_view :: "'v lsm \<Rightarrow> pystr \<Rightarrow> 'v lsm_entry option" where
  "lsm_view s = on_files s ++ map_of (lsm_memtable s)"

definition answer :: "'v lsm_entry option \<Rightarrow> 'v lsm_answer" where
  "answer r = (case r of None \<Rightarrow> NotFound | Some e \<Rightarrow> entry_answer e)"

text \<open>A file whose filter has all its keys.\<close>

definition stored :: "'v lsm \<Rightarrow> pystr \<Rightarrow> bool" where
  "stored s f \<longleftrightarrow> (\<exists>t bf. map_of (lsm_files s) f = Some (Some t) \<and> map_of (lsm_filters s) f = Some bf \<and>
     (\<forall>k \<in> set (map fst t). in_bloom bf k \<and> list_all scalar_value k))"

definition replayed :: "(pystr \<times> 'v lsm_entry) list \<Rightarrow> 'v lsm_table \<Rightarrow> 'v lsm_table" where
  "replayed ws mem = foldl (\<lambda>m (k, e). AList.update k e m) mem ws"

definition files_ok :: "'v lsm \<Rightarrow> int list \<Rightarrow> bool" where
  "files_ok s gs \<longleftrightarrow> sorted_wrt (<) gs \<and> (\<forall>g \<in> set gs. 0 < g \<and> g \<le> lsm_generation s) \<and> gen_ok (lsm_generation s) \<and>
     lsm_index s = map sst_name gs \<and> distinct (map fst (lsm_files s)) \<and> set (map fst (lsm_files s)) = set (lsm_index s) \<and>
     (\<forall>f \<in> set (lsm_index s). stored s f)"

definition log_ok :: "'v lsm \<Rightarrow> (pystr \<times> 'v lsm_entry) list \<Rightarrow> bool" where
  "log_ok s ws \<longleftrightarrow> lsm_wal s = map Some ws \<and> (lsm_wal_linked s \<longrightarrow> replayed ws [] = lsm_memtable s)"

definition lsm_ok :: "'v lsm \<Rightarrow> bool" where
  "lsm_ok s \<longleftrightarrow> (\<exists>gs. files_ok s gs) \<and> (\<exists>ws. log_ok s ws) \<and>
     distinct (map fst (lsm_memtable s)) \<and> (\<forall>k \<in> set (map fst (lsm_memtable s)). list_all scalar_value k)"

lemma newest_cong: "(\<And>f. f \<in> set fs \<Longrightarrow> map_of files f = map_of files' f) \<Longrightarrow> newest files fs = newest files' fs"
  by (induction fs) (auto simp: fun_eq_iff split: option.split)

lemma get_files_ok:
  assumes "\<forall>f \<in> set fs. stored s f" "list_all scalar_value key"
  shows "get_files key fs s = (Inr (answer (newest (lsm_files s) fs key)), s)"
  using assms(1)
proof (induction fs)
  case Nil
  then show ?case by (simp add: answer_def)
next
  case (Cons f fs)
  then obtain t bf where t: "map_of (lsm_files s) f = Some (Some t)" "map_of (lsm_filters s) f = Some bf"
    "\<forall>k \<in> set (map fst t). in_bloom bf k" by (auto simp: stored_def)
  obtain b where b: "bloom_exists key bf = Inr b" using bloom_exists_total [OF assms(2)] by blast
  show ?case
  proof (cases "map_of t key")
    case None
    with t b Cons show ?thesis by (simp add: bnd_def load_sst_def)
  next
    case (Some e)
    then have "key \<in> set (map fst t)" by (force dest: map_of_SomeD)
    with t(3) have "in_bloom bf key" by blast
    with b have b by (simp add: in_bloom_def)
    with t b Some show ?thesis by (simp add: bnd_def load_sst_def answer_def)
  qed
qed

lemma lsm_get_ok:
  assumes "lsm_ok s" "list_all scalar_value key"
  shows "lsm_get key s = (Inr (answer (lsm_view s key)), s)"
proof -
  from assms(1) have "\<forall>f \<in> set (rev (lsm_index s)). stored s f" by (auto simp: lsm_ok_def files_ok_def)
  from get_files_ok [OF this assms(2)] show ?thesis
    by (auto simp: lsm_get_def lsm_view_def on_files_def bnd_def answer_def map_add_def split: option.split)
qed

lemma map_of_sorted_table:
  assumes "distinct (map fst t)"
  shows "map_of (sort_key fst t) = map_of t"
proof -
  have "mset (map fst (sort_key fst t)) = mset (map fst t)" by simp
  then have "distinct (map fst (sort_key fst t))" using assms by (metis mset_eq_imp_distinct_iff)
  with assms show ?thesis by (subst map_of_inject_set) auto
qed

text \<open>A flush moves the memory to a new file and leaves the log without a name.\<close>

lemma lsm_flush_ok:
  assumes "lsm_ok s" "lsm_memtable s \<noteq> []" "gen_ok (lsm_generation s + 1)"
  shows "\<exists>s'. lsm_flush s = (Inr (), s') \<and> lsm_ok s' \<and> on_files s' = lsm_view s \<and> lsm_memtable s' = [] \<and>
    \<not> lsm_wal_linked s' \<and> lsm_generation s' = lsm_generation s + 1 \<and> lsm_mem_limit s' = lsm_mem_limit s"
proof -
  let ?g = "lsm_generation s + 1"
  let ?f = "sst_name ?g"
  let ?t = "sort_key fst (lsm_memtable s)"
  from assms(1) obtain gs where gs: "files_ok s gs" by (auto simp: lsm_ok_def)
  have gk: "gen_ok g" if "g \<in> set gs" for g using gs that by (fastforce simp: files_ok_def gen_ok_def)
  have new: "?f \<notin> set (lsm_index s)"
    using gs gk assms(3) sst_name_inj by (fastforce simp: files_ok_def)
  have keys: "\<forall>k \<in> set (map fst ?t). list_all scalar_value k" using assms(1) by (simp add: lsm_ok_def)
  obtain bf where bf: "bloom_add_all (map fst ?t) bloom_init = Inr bf" "\<forall>k \<in> set (map fst ?t). in_bloom bf k"
    using bloom_add_all_ok [OF keys] by blast
  define s' where "s' = s\<lparr>lsm_generation := ?g, lsm_files := AList.update ?f (Some ?t) (lsm_files s),
    lsm_index := lsm_index s @ [?f], lsm_filters := AList.update ?f bf (lsm_filters s), lsm_memtable := [],
    lsm_wal_linked := False, lsm_wal := []\<rparr>"
  have run: "lsm_flush s = (Inr (), s')"
    using assms(2) bf(1) by (simp add: lsm_flush_def bnd_def Let_def s'_def)
  have old: "stored s' f" if "f \<in> set (lsm_index s)" for f
  proof -
    from that new have "f \<noteq> ?f" by auto
    moreover from that gs have "stored s f" by (simp add: files_ok_def)
    ultimately show ?thesis by (simp add: stored_def s'_def update_conv')
  qed
  have st: "stored s' ?f" using bf(2) keys by (auto simp: stored_def s'_def update_conv')
  have "files_ok s' (gs @ [?g])"
    using gs old st assms(3) new
    by (auto simp: files_ok_def gen_ok_def s'_def sorted_wrt_append distinct_update dom_update)
  moreover have "log_ok s' []" by (simp add: log_ok_def s'_def)
  ultimately have ok: "lsm_ok s'" by (auto simp: lsm_ok_def s'_def)
  have "newest (lsm_files s') (rev (lsm_index s)) = newest (lsm_files s) (rev (lsm_index s))"
    using new by (intro newest_cong) (auto simp: s'_def update_conv')
  moreover have "map_of ?t = map_of (lsm_memtable s)"
    using assms(1) by (intro map_of_sorted_table) (simp add: lsm_ok_def)
  ultimately have "on_files s' = lsm_view s"
    by (auto simp: on_files_def lsm_view_def s'_def update_conv' map_add_def fun_eq_iff split: option.split)
  with run ok show ?thesis by (auto simp: s'_def)
qed

lemma lsm_write_ok:
  assumes "lsm_ok s" "list_all scalar_value key" "gen_ok (lsm_generation s + 1)"
  shows "\<exists>s'. lsm_write key e s = (Inr (), s') \<and> lsm_ok s' \<and> lsm_mem_limit s' = lsm_mem_limit s \<and>
    lsm_view s' = (lsm_view s)(key \<mapsto> e) \<and> lsm_generation s' \<le> lsm_generation s + 1 \<and>
    (let mem = AList.update key e (lsm_memtable s) in
     if lsm_mem_limit s \<le> length mem
     then lsm_memtable s' = [] \<and> \<not> lsm_wal_linked s' \<and> on_files s' = lsm_view s'
     else lsm_memtable s' = mem \<and> lsm_wal_linked s' = lsm_wal_linked s \<and> on_files s' = on_files s)"
proof -
  let ?mem = "AList.update key e (lsm_memtable s)"
  define s1 where "s1 = s\<lparr>lsm_wal := lsm_wal s @ [Some (key, e)], lsm_memtable := ?mem\<rparr>"
  from assms(1) obtain gs ws where gs: "files_ok s gs" and ws: "log_ok s ws" by (auto simp: lsm_ok_def)
  have s1: "lsm_files s1 = lsm_files s" "lsm_index s1 = lsm_index s" "lsm_generation s1 = lsm_generation s"
    "lsm_filters s1 = lsm_filters s" by (simp_all add: s1_def)
  have st: "stored s1 f = stored s f" for f by (simp add: stored_def s1)
  have "files_ok s1 gs" using gs unfolding files_ok_def s1 st .
  moreover have "log_ok s1 (ws @ [(key, e)])" using ws by (auto simp: log_ok_def s1_def replayed_def)
  ultimately have ok1: "lsm_ok s1" using assms(1,2)
    by (auto simp: lsm_ok_def s1_def distinct_update dom_update)
  have v1: "lsm_view s1 = (lsm_view s)(key \<mapsto> e)" "on_files s1 = on_files s"
    by (auto simp: lsm_view_def on_files_def s1_def update_conv' map_add_def fun_eq_iff)
  have run: "lsm_write key e s = (if lsm_mem_limit s \<le> length ?mem then lsm_flush s1 else (Inr (), s1))"
    by (simp add: lsm_write_def write_to_wal_def bnd_def s1_def)
  show ?thesis
  proof (cases "lsm_mem_limit s \<le> length ?mem")
    case True
    have ne: "lsm_memtable s1 \<noteq> []" by (cases "lsm_memtable s") (auto simp: s1_def)
    have g1: "gen_ok (lsm_generation s1 + 1)" using assms(3) by (simp add: s1_def)
    from lsm_flush_ok [OF ok1 ne g1] obtain s' where s': "lsm_flush s1 = (Inr (), s')" "lsm_ok s'"
      "on_files s' = lsm_view s1" "lsm_memtable s' = []" "\<not> lsm_wal_linked s'"
      "lsm_generation s' = lsm_generation s1 + 1" "lsm_mem_limit s' = lsm_mem_limit s1" by blast
    have "lsm_view s' = on_files s'" using s'(4) by (simp add: lsm_view_def)
    with True run s' v1 show ?thesis by (auto simp: s1_def)
  next
    case False
    with run ok1 v1 show ?thesis by (auto simp: s1_def)
  qed
qed

subsection \<open>Reopening\<close>

text \<open>The directories a process can leave: the listing has any order, and the log is there while it has its name.\<close>

definition lsm_leaves :: "'v lsm \<Rightarrow> 'v lsm_disk \<Rightarrow> bool" where
  "lsm_leaves s d \<longleftrightarrow> mset (ld_files d) = mset (lsm_files s) \<and>
     ld_wal d = (if lsm_wal_linked s then Some (lsm_wal s) else None)"

lemma map_of_mset:
  assumes "mset xs = mset ys" "distinct (map fst ys)"
  shows "map_of xs = map_of ys"
proof -
  have "mset (map fst xs) = mset (map fst ys)" using assms(1) by simp
  then have "distinct (map fst xs)" using assms(2) by (metis mset_eq_imp_distinct_iff)
  moreover have "set xs = set ys" using assms(1) by (rule mset_eq_setD)
  ultimately show ?thesis using assms(2) by (subst map_of_inject_set) auto
qed

lemma map_res_names: "(\<And>g. g \<in> set gs \<Longrightarrow> gen_ok g) \<Longrightarrow>
  map_res (\<lambda>f. bind_res (generation_of u f) (\<lambda>g. Inr (g, f))) (map sst_name gs) = Inr (map (\<lambda>g. (g, sst_name g)) gs)"
  by (induction gs) (auto simp: generation_of_name)

lemma recover_files_ok:
  assumes "\<forall>g \<in> set gs. \<exists>t. map_of (lsm_files s) (sst_name g) = Some (Some t) \<and> (\<forall>k \<in> set (map fst t). list_all scalar_value k)"
    and "\<forall>f \<in> set (lsm_index s). stored s f" "0 \<le> lsm_generation s"
  shows "\<exists>s'. recover_files (map (\<lambda>g. (g, sst_name g)) gs) s = (Inr (), s') \<and> lsm_index s' = lsm_index s @ map sst_name gs \<and>
    (\<forall>f \<in> set (lsm_index s'). stored s' f) \<and> lsm_generation s \<le> lsm_generation s' \<and> (\<forall>g \<in> set gs. g \<le> lsm_generation s') \<and>
    (lsm_generation s' = lsm_generation s \<or> lsm_generation s' \<in> set gs) \<and> lsm_files s' = lsm_files s \<and>
    lsm_memtable s' = lsm_memtable s \<and> lsm_wal s' = lsm_wal s \<and> lsm_wal_linked s' = lsm_wal_linked s \<and>
    lsm_mem_limit s' = lsm_mem_limit s"
  using assms
proof (induction gs arbitrary: s)
  case Nil
  then show ?case by simp
next
  case (Cons g gs)
  let ?f = "sst_name g"
  from Cons.prems(1) obtain t where t: "map_of (lsm_files s) ?f = Some (Some t)" "\<forall>k \<in> set (map fst t). list_all scalar_value k"
    by auto
  from bloom_add_all_ok [OF t(2)] obtain bf where bf: "bloom_add_all (map fst t) bloom_init = Inr bf" "\<forall>k \<in> set (map fst t). in_bloom bf k"
    by blast
  define s1 where "s1 = s\<lparr>lsm_index := lsm_index s @ [?f], lsm_generation := max (lsm_generation s) g,
    lsm_filters := AList.update ?f bf (lsm_filters s)\<rparr>"
  have run: "recover_files (map (\<lambda>g. (g, sst_name g)) (g # gs)) s = recover_files (map (\<lambda>g. (g, sst_name g)) gs) s1"
    using t(1) bf(1) by (simp add: bnd_def load_sst_def s1_def)
  have "stored s1 f" if "f \<in> set (lsm_index s1)" for f
  proof (cases "f = ?f")
    case True
    with t bf(2) show ?thesis by (auto simp: stored_def s1_def update_conv')
  next
    case False
    with that have "f \<in> set (lsm_index s)" by (simp add: s1_def)
    with Cons.prems(2) False show ?thesis by (auto simp: stored_def s1_def update_conv')
  qed
  moreover have "\<forall>g \<in> set gs. \<exists>t. map_of (lsm_files s1) (sst_name g) = Some (Some t) \<and> (\<forall>k \<in> set (map fst t). list_all scalar_value k)"
    using Cons.prems(1) by (simp add: s1_def)
  moreover have "0 \<le> lsm_generation s1" using Cons.prems(3) by (simp add: s1_def)
  ultimately show ?case using Cons.IH [of s1] unfolding run by (auto simp: s1_def max_def split: if_splits)
qed

lemma replay_wal_ok: "replay_wal (map Some ws) s = (Inr (), s\<lparr>lsm_memtable := replayed ws (lsm_memtable s)\<rparr>)"
proof (induction ws arbitrary: s)
  case (Cons w ws)
  then show ?case by (cases w) (simp add: bnd_def replayed_def)
qed (simp add: replayed_def)

lemma names_of:
  assumes "set names \<subseteq> sst_name ` set gs"
  shows "\<exists>gs'. set gs' \<subseteq> set gs \<and> names = map sst_name gs'"
  using assms
proof (induction names)
  case (Cons f names)
  then obtain gs' g where "set gs' \<subseteq> set gs" "names = map sst_name gs'" "g \<in> set gs" "f = sst_name g" by auto
  then have "set (g # gs') \<subseteq> set gs \<and> f # names = map sst_name (g # gs')" by simp
  then show ?case by (rule exI)
qed simp

text \<open>The files sorted by their generations, whatever the order of the listing.\<close>

lemma sorted_listing:
  assumes gs: "sorted_wrt (<) gs" "\<forall>g \<in> set gs. gen_ok g" and names: "distinct names" "set names = sst_name ` set gs"
  shows "\<exists>gfs. map_res (\<lambda>f. bind_res (generation_of u f) (\<lambda>g. Inr (g, f))) (filter (prefix (py ''sst_'')) names) = Inr gfs \<and>
    sort_key fst gfs = map (\<lambda>g. (g, sst_name g)) gs"
proof -
  obtain gs' where gs': "set gs' \<subseteq> set gs" "names = map sst_name gs'" using names_of [of names gs] names(2) by blast
  have flt: "filter (prefix (py ''sst_'')) names = names" unfolding gs'(2) by (rule filter_True) (auto simp: sst_name_prefix)
  have inj: "inj_on sst_name (set gs)"
    by (rule inj_onI) (use gs(2) sst_name_inj in blast)
  have "sst_name ` set gs' = sst_name ` set gs" using names(2) gs'(2) by auto
  then have "set gs' = set gs" using inj_on_image_eq_iff [OF inj gs'(1) subset_refl] by simp
  moreover have "distinct gs'" using names(1) gs'(2) by (simp add: distinct_map)
  moreover have "distinct gs" using gs(1) by (simp add: strict_sorted_iff)
  ultimately have "mset gs' = mset gs" using set_eq_iff_mset_eq_distinct by blast
  then have "mset (map (\<lambda>g. (g, sst_name g)) gs') = mset (map (\<lambda>g. (g, sst_name g)) gs)" by simp
  moreover have "inj_on fst (set (map (\<lambda>g. (g, sst_name g)) gs'))" by (auto simp: inj_on_def)
  moreover have "sorted (map fst (map (\<lambda>g. (g, sst_name g)) gs))" using gs(1) by (simp add: comp_def strict_sorted_iff)
  ultimately have "sort_key fst (map (\<lambda>g. (g, sst_name g)) gs') = map (\<lambda>g. (g, sst_name g)) gs"
    by (rule sort_key_inj_key_eq)
  moreover have "\<forall>g \<in> set gs'. gen_ok g" using gs'(1) gs(2) by blast
  then have "map_res (\<lambda>f. bind_res (generation_of u f) (\<lambda>g. Inr (g, f))) names = Inr (map (\<lambda>g. (g, sst_name g)) gs')"
    unfolding gs'(2) by (intro map_res_names) blast
  ultimately show ?thesis unfolding flt by (intro exI conjI)
qed

lemma lsm_reopen_ok:
  assumes "lsm_ok s" "lsm_leaves s d"
  shows "\<exists>s1. lsm_init u mem_limit d = Inr s1 \<and> lsm_ok s1 \<and> lsm_wal_linked s1 \<and> on_files s1 = on_files s \<and>
    lsm_memtable s1 = (if lsm_wal_linked s then lsm_memtable s else []) \<and>
    lsm_mem_limit s1 = mem_limit \<and> lsm_generation s1 \<le> lsm_generation s"
proof -
  from assms(1) obtain gs ws where gs: "files_ok s gs" and ws: "log_ok s ws" by (auto simp: lsm_ok_def)
  let ?ws = "if lsm_wal_linked s then ws else []"
  let ?s0 = "\<lparr>lsm_mem_limit = mem_limit, lsm_memtable = [], lsm_index = [], lsm_filters = [], lsm_generation = 0,
    lsm_files = ld_files d, lsm_wal = map Some ?ws, lsm_wal_linked = True\<rparr>"
  have files: "mset (ld_files d) = mset (lsm_files s)" "map_of (ld_files d) = map_of (lsm_files s)"
    using assms(2) gs map_of_mset [of "ld_files d" "lsm_files s"] by (simp_all add: lsm_leaves_def files_ok_def)
  have wal: "(case ld_wal d of None \<Rightarrow> [] | Some ls \<Rightarrow> ls) = map Some ?ws"
    using assms(2) ws by (simp add: lsm_leaves_def log_ok_def)
  have "mset (map fst (ld_files d)) = mset (map fst (lsm_files s))" using files(1) by simp
  then have names: "distinct (map fst (ld_files d))" "set (map fst (ld_files d)) = set (map fst (lsm_files s))"
    using gs mset_eq_imp_distinct_iff mset_eq_setD unfolding files_ok_def by blast+
  have gk: "\<forall>g \<in> set gs. gen_ok g" using gs by (fastforce simp: files_ok_def gen_ok_def)
  have srt: "sorted_wrt (<) gs" and img: "set (map fst (ld_files d)) = sst_name ` set gs"
    using gs names(2) by (simp_all add: files_ok_def)
  from sorted_listing [OF srt gk names(1) img, of u] obtain gfs where gfs:
    "map_res (\<lambda>f. bind_res (generation_of u f) (\<lambda>g. Inr (g, f))) (filter (prefix (py ''sst_'')) (map fst (ld_files d))) = Inr gfs"
    "sort_key fst gfs = map (\<lambda>g. (g, sst_name g)) gs" by blast
  have good: "\<forall>g \<in> set gs. \<exists>t. map_of (lsm_files ?s0) (sst_name g) = Some (Some t) \<and> (\<forall>k \<in> set (map fst t). list_all scalar_value k)"
    using gs files(2) by (fastforce simp: files_ok_def stored_def)
  have pre: "\<forall>f \<in> set (lsm_index ?s0). stored ?s0 f" "0 \<le> lsm_generation ?s0" by simp_all
  obtain s' where s': "recover_files (map (\<lambda>g. (g, sst_name g)) gs) ?s0 = (Inr (), s')"
    "lsm_index s' = map sst_name gs" "\<forall>f \<in> set (lsm_index s'). stored s' f" "0 \<le> lsm_generation s'"
    "\<forall>g \<in> set gs. g \<le> lsm_generation s'" "lsm_generation s' = 0 \<or> lsm_generation s' \<in> set gs"
    "lsm_files s' = ld_files d" "lsm_memtable s' = []" "lsm_wal s' = map Some ?ws" "lsm_wal_linked s'"
    "lsm_mem_limit s' = mem_limit"
    using recover_files_ok [OF good pre] by auto
  let ?s1 = "s'\<lparr>lsm_memtable := replayed ?ws []\<rparr>"
  have run: "lsm_init u mem_limit d = Inr ?s1"
    using gfs(1) s'(1) replay_wal_ok [of ?ws s'] s'(8,9)
    by (simp add: lsm_init_def lsm_recover_def wal bnd_def gfs(2))
  have mem: "replayed ?ws [] = (if lsm_wal_linked s then lsm_memtable s else [])"
    using ws by (simp add: log_ok_def replayed_def)
  have gen: "gen_ok (lsm_generation s')" using s'(6) gk by (auto simp: gen_ok_def)
  have same: "lsm_files ?s1 = ld_files d" "lsm_index ?s1 = map sst_name gs" "lsm_filters ?s1 = lsm_filters s'"
    "lsm_generation ?s1 = lsm_generation s'" using s'(2,7) by simp_all
  have st: "stored ?s1 f" if "f \<in> set (lsm_index ?s1)" for f
    using s'(3) that s'(2) by (auto simp: stored_def)
  have pos: "\<forall>g \<in> set gs. 0 < g" using gs by (simp add: files_ok_def)
  have "files_ok ?s1 gs"
    unfolding files_ok_def same
  proof (intro conjI)
    show "\<forall>g \<in> set gs. 0 < g \<and> g \<le> lsm_generation s'" using pos s'(5) by blast
    show "set (map fst (ld_files d)) = set (map sst_name gs)" using img by simp
    show "\<forall>f \<in> set (map sst_name gs). stored ?s1 f" using st unfolding same by blast
  qed (fact srt gen refl names(1))+
  moreover have "log_ok ?s1 ?ws" using s'(9) by (simp add: log_ok_def)
  ultimately have "lsm_ok ?s1" using assms(1) mem by (auto simp: lsm_ok_def)
  moreover have "lsm_index s = map sst_name gs" using gs by (simp add: files_ok_def)
  then have "on_files ?s1 = on_files s" unfolding on_files_def same by (simp only:) (rule newest_cong, simp only: files(2))
  moreover have "lsm_generation s' \<le> lsm_generation s"
    using s'(6) gs by (auto simp: files_ok_def gen_ok_def)
  ultimately show ?thesis using run mem s'(10,11) by auto
qed

subsection \<open>Sessions\<close>

datatype 'v lsm_op = Put pystr 'v int | Delete pystr int | Get pystr

fun run_op :: "'v lsm_op \<Rightarrow> ('v lsm, 'v lsm_answer option) act" where
  "run_op (Put key value now) = bnd (lsm_put key value now) (\<lambda>_. ret None)"
| "run_op (Delete key now) = bnd (lsm_delete key now) (\<lambda>_. ret None)"
| "run_op (Get key) = bnd (lsm_get key) (\<lambda>a. ret (Some a))"

fun run_ops :: "'v lsm_op list \<Rightarrow> ('v lsm, 'v lsm_answer option list) act" where
  "run_ops [] = ret []"
| "run_ops (x # xs) = bnd (run_op x) (\<lambda>a. bnd (run_ops xs) (\<lambda>as. ret (a # as)))"

fun op_key :: "'v lsm_op \<Rightarrow> pystr" where
  "op_key (Put key _ _) = key"
| "op_key (Delete key _) = key"
| "op_key (Get key) = key"

text \<open>
  The specification: the map of the entries, the keys written since the last flush, and the map that a later session finds.
  Until the first flush of a session this is the map itself, because the log has its name; afterwards it is the map of the last flush.
\<close>

record 'v lsm_spec =
  sp_map :: "pystr \<Rightarrow> 'v lsm_entry option"
  sp_keys :: "pystr list"
  sp_flushed :: "(pystr \<Rightarrow> 'v lsm_entry option) option"

definition spec_write :: "nat \<Rightarrow> pystr \<Rightarrow> 'v lsm_entry \<Rightarrow> 'v lsm_spec \<Rightarrow> 'v lsm_spec" where
  "spec_write mem_limit key e m =
     (let mp = (sp_map m)(key \<mapsto> e); keys = List.insert key (sp_keys m) in
      if mem_limit \<le> length keys then \<lparr>sp_map = mp, sp_keys = [], sp_flushed = Some mp\<rparr>
      else m\<lparr>sp_map := mp, sp_keys := keys\<rparr>)"

fun spec_op :: "nat \<Rightarrow> 'v lsm_op \<Rightarrow> 'v lsm_spec \<Rightarrow> 'v lsm_answer option \<times> 'v lsm_spec" where
  "spec_op mem_limit (Put key value now) m =
     (None, spec_write mem_limit key \<lparr>le_val = Some value, le_ts = now, le_del = False\<rparr> m)"
| "spec_op mem_limit (Delete key now) m =
     (None, spec_write mem_limit key \<lparr>le_val = None, le_ts = now, le_del = True\<rparr> m)"
| "spec_op mem_limit (Get key) m = (Some (answer (sp_map m key)), m)"

fun spec_ops :: "nat \<Rightarrow> 'v lsm_op list \<Rightarrow> 'v lsm_spec \<Rightarrow> 'v lsm_answer option list \<times> 'v lsm_spec" where
  "spec_ops mem_limit [] m = ([], m)"
| "spec_ops mem_limit (x # xs) m =
     (case spec_op mem_limit x m of (a, m1) \<Rightarrow> case spec_ops mem_limit xs m1 of (as, m2) \<Rightarrow> (a # as, m2))"

definition durable :: "'v lsm_spec \<Rightarrow> pystr \<Rightarrow> 'v lsm_entry option" where
  "durable m = (case sp_flushed m of None \<Rightarrow> sp_map m | Some mp \<Rightarrow> mp)"

definition spec_empty :: "'v lsm_spec" where
  "spec_empty = \<lparr>sp_map = Map.empty, sp_keys = [], sp_flushed = None\<rparr>"

definition implements :: "'v lsm \<Rightarrow> 'v lsm_spec \<Rightarrow> bool" where
  "implements s m \<longleftrightarrow> lsm_ok s \<and> lsm_view s = sp_map m \<and> set (sp_keys m) = set (map fst (lsm_memtable s)) \<and>
     length (sp_keys m) = length (lsm_memtable s) \<and> (sp_flushed m = None \<longleftrightarrow> lsm_wal_linked s) \<and>
     (\<forall>mp. sp_flushed m = Some mp \<longrightarrow> on_files s = mp)"

lemma length_update: "length (AList.update k v xs) = (if k \<in> set (map fst xs) then length xs else Suc (length xs))"
  by (induction xs) auto

lemma write_implements:
  assumes "implements s m" "list_all scalar_value key" "gen_ok (lsm_generation s + 1)"
  shows "\<exists>s'. lsm_write key e s = (Inr (), s') \<and> implements s' (spec_write (lsm_mem_limit s) key e m) \<and>
    lsm_mem_limit s' = lsm_mem_limit s \<and> lsm_generation s' \<le> lsm_generation s + 1"
proof -
  let ?mem = "AList.update key e (lsm_memtable s)"
  let ?keys = "List.insert key (sp_keys m)"
  have ok: "lsm_ok s" and keys: "set (sp_keys m) = set (map fst (lsm_memtable s))" "length (sp_keys m) = length (lsm_memtable s)"
    using assms(1) by (simp_all add: implements_def)
  have len: "length ?keys = length ?mem" using keys by (auto simp: length_update List.insert_def)
  have ks: "set ?keys = set (map fst ?mem)" using keys(1) by (auto simp: dom_update)
  from lsm_write_ok [OF ok assms(2,3)] obtain s' where s': "lsm_write key e s = (Inr (), s')" "lsm_ok s'"
    "lsm_mem_limit s' = lsm_mem_limit s" "lsm_view s' = (lsm_view s)(key \<mapsto> e)" "lsm_generation s' \<le> lsm_generation s + 1"
    and mem: "if lsm_mem_limit s \<le> length ?mem
       then lsm_memtable s' = [] \<and> \<not> lsm_wal_linked s' \<and> on_files s' = lsm_view s'
       else lsm_memtable s' = ?mem \<and> lsm_wal_linked s' = lsm_wal_linked s \<and> on_files s' = on_files s"
    by (auto simp: Let_def)
  have "implements s' (spec_write (lsm_mem_limit s) key e m)"
  proof (cases "lsm_mem_limit s \<le> length ?mem")
    case True
    with mem s'(2,4) assms(1) len show ?thesis by (simp add: implements_def spec_write_def Let_def)
  next
    case False
    with mem have m: "lsm_memtable s' = ?mem" "lsm_wal_linked s' = lsm_wal_linked s" "on_files s' = on_files s" by simp_all
    from assms(1) show ?thesis unfolding implements_def spec_write_def Let_def len if_not_P [OF False] m
      using s'(2,4) ks len by simp
  qed
  with s' show ?thesis by blast
qed

lemma op_implements:
  assumes "implements s m" "list_all scalar_value (op_key x)" "gen_ok (lsm_generation s + 1)"
  shows "\<exists>s'. run_op x s = (Inr (fst (spec_op (lsm_mem_limit s) x m)), s') \<and>
    implements s' (snd (spec_op (lsm_mem_limit s) x m)) \<and> lsm_mem_limit s' = lsm_mem_limit s \<and>
    lsm_generation s' \<le> lsm_generation s + 1"
proof (cases x)
  case (Get key)
  with assms show ?thesis by (simp add: bnd_def lsm_get_ok implements_def)
next
  case (Put key v now)
  with write_implements [OF assms(1) _ assms(3), of key "\<lparr>le_val = Some v, le_ts = now, le_del = False\<rparr>"] assms(2)
  show ?thesis by (auto simp: bnd_def lsm_put_def)
next
  case (Delete key now)
  with write_implements [OF assms(1) _ assms(3), of key "\<lparr>le_val = None, le_ts = now, le_del = True\<rparr>"] assms(2)
  show ?thesis by (auto simp: bnd_def lsm_delete_def)
qed

lemma ops_implement:
  assumes "implements s m" "\<forall>x \<in> set xs. list_all scalar_value (op_key x)" "lsm_generation s + int (length xs) < 2 ^ 65"
  shows "\<exists>s'. run_ops xs s = (Inr (fst (spec_ops (lsm_mem_limit s) xs m)), s') \<and>
    implements s' (snd (spec_ops (lsm_mem_limit s) xs m)) \<and> lsm_generation s' \<le> lsm_generation s + int (length xs)"
  using assms
proof (induction xs arbitrary: s m)
  case (Cons x xs)
  have "0 \<le> lsm_generation s" using Cons.prems(1) by (auto simp: implements_def lsm_ok_def files_ok_def gen_ok_def)
  then have "gen_ok (lsm_generation s + 1)" using Cons.prems(3) by (simp add: gen_ok_def)
  with op_implements [OF Cons.prems(1)] Cons.prems(2) obtain s1 where
    s1: "run_op x s = (Inr (fst (spec_op (lsm_mem_limit s) x m)), s1)" "implements s1 (snd (spec_op (lsm_mem_limit s) x m))"
    "lsm_mem_limit s1 = lsm_mem_limit s" "lsm_generation s1 \<le> lsm_generation s + 1" by fastforce
  have "lsm_generation s1 + int (length xs) < 2 ^ 65" using s1(4) Cons.prems(3) by simp
  with Cons.IH [OF s1(2)] Cons.prems(2) s1(3) obtain s2 where
    "run_ops xs s1 = (Inr (fst (spec_ops (lsm_mem_limit s) xs (snd (spec_op (lsm_mem_limit s) x m)))), s2)"
    "implements s2 (snd (spec_ops (lsm_mem_limit s) xs (snd (spec_op (lsm_mem_limit s) x m))))"
    "lsm_generation s2 \<le> lsm_generation s1 + int (length xs)" by fastforce
  with s1(1,4) show ?case by (auto simp: bnd_def split: prod.split)
qed simp

text \<open>
  Sessions one after the other, each with its own memory limit. A later session starts from what is durable; the keys of the log count
  for its first flush. The answers of a store are those of a list of answers when each session opens, runs and answers so, and the next
  ones do on every directory that it can leave, in whatever order the files are listed.
\<close>

definition spec_reopen :: "'v lsm_spec \<Rightarrow> 'v lsm_spec" where
  "spec_reopen m = \<lparr>sp_map = durable m, sp_keys = (if sp_flushed m = None then sp_keys m else []), sp_flushed = None\<rparr>"

fun spec_sessions :: "(nat \<times> 'v lsm_op list) list \<Rightarrow> 'v lsm_spec \<Rightarrow> 'v lsm_answer option list list" where
  "spec_sessions [] m = []"
| "spec_sessions ((mem_limit, xs) # ss) m = (case spec_ops mem_limit xs m of (as, m') \<Rightarrow> as # spec_sessions ss (spec_reopen m'))"

fun sessions_answer :: "unicode \<Rightarrow> (nat \<times> 'v lsm_op list) list \<Rightarrow> 'v lsm_answer option list list \<Rightarrow> 'v lsm_disk \<Rightarrow> bool" where
  "sessions_answer u ((mem_limit, xs) # ss) (as # ass) d \<longleftrightarrow>
     (\<exists>s0 s. lsm_init u mem_limit d = Inr s0 \<and> run_ops xs s0 = (Inr as, s) \<and> (\<forall>d'. lsm_leaves s d' \<longrightarrow> sessions_answer u ss ass d'))"
| "sessions_answer u ss ass d \<longleftrightarrow> ss = [] \<and> ass = []"

lemma reopen_implements:
  assumes "implements s m" "lsm_leaves s d"
  shows "\<exists>s1. lsm_init u mem_limit d = Inr s1 \<and> implements s1 (spec_reopen m) \<and> lsm_mem_limit s1 = mem_limit \<and>
    lsm_generation s1 \<le> lsm_generation s"
proof -
  from assms(1) have "lsm_ok s" by (simp add: implements_def)
  from lsm_reopen_ok [OF this assms(2)] obtain s1 where s1: "lsm_init u mem_limit d = Inr s1" "lsm_ok s1" "lsm_wal_linked s1"
    "on_files s1 = on_files s" "lsm_memtable s1 = (if lsm_wal_linked s then lsm_memtable s else [])"
    "lsm_mem_limit s1 = mem_limit" "lsm_generation s1 \<le> lsm_generation s" by blast
  have "lsm_view s1 = durable m"
    using assms(1) s1(4,5) by (auto simp: implements_def durable_def lsm_view_def split: option.split)
  then have "implements s1 (spec_reopen m)"
    using assms(1) s1(2,3,5) by (auto simp: implements_def spec_reopen_def)
  with s1(1,6,7) show ?thesis by blast
qed

lemma sessions_implement:
  assumes "\<And>mem_limit. \<exists>s0. lsm_init u mem_limit d = Inr s0 \<and> implements s0 m \<and> lsm_mem_limit s0 = mem_limit \<and> lsm_generation s0 \<le> g"
    and "\<forall>(_, xs) \<in> set ss. \<forall>x \<in> set xs. list_all scalar_value (op_key x)"
    and "g + (\<Sum>(_, xs) \<leftarrow> ss. int (length xs)) < 2 ^ 65"
  shows "sessions_answer u ss (spec_sessions ss m) d"
  using assms
proof (induction ss arbitrary: d m g)
  case (Cons session ss)
  obtain mem_limit xs where x: "session = (mem_limit, xs)" by force
  obtain s0 where s0: "lsm_init u mem_limit d = Inr s0" "implements s0 m" "lsm_mem_limit s0 = mem_limit" "lsm_generation s0 \<le> g"
    using Cons.prems(1) by blast
  have rest: "0 \<le> (\<Sum>(_, xs) \<leftarrow> ss. int (length xs))" by (rule sum_list_nonneg) auto
  have keys: "\<forall>x \<in> set xs. list_all scalar_value (op_key x)" using Cons.prems(2) x by simp
  have "lsm_generation s0 + int (length xs) < 2 ^ 65" using Cons.prems(3) s0(4) rest x by simp
  from ops_implement [OF s0(2) keys this] obtain s where s: "run_ops xs s0 = (Inr (fst (spec_ops mem_limit xs m)), s)"
    "implements s (snd (spec_ops mem_limit xs m))" "lsm_generation s \<le> lsm_generation s0 + int (length xs)" unfolding s0(3) by blast
  have "sessions_answer u ss (spec_sessions ss (spec_reopen (snd (spec_ops mem_limit xs m)))) d'" if d': "lsm_leaves s d'" for d'
  proof (rule Cons.IH [where g = "g + int (length xs)"])
    fix lim
    show "\<exists>s0. lsm_init u lim d' = Inr s0 \<and> implements s0 (spec_reopen (snd (spec_ops mem_limit xs m))) \<and> lsm_mem_limit s0 = lim \<and>
        lsm_generation s0 \<le> g + int (length xs)"
      using reopen_implements [OF s(2) d', of u lim] s(3) s0(4) by fastforce
  qed (use Cons.prems(2,3) x in \<open>simp_all add: algebra_simps\<close>)
  with s0(1) s(1) show ?case by (auto simp: x split: prod.split)
qed simp

lemma fresh_store: "\<exists>s. lsm_init u mem_limit \<lparr>ld_files = [], ld_wal = None\<rparr> = Inr s \<and> implements s spec_empty \<and>
  lsm_mem_limit s = mem_limit \<and> lsm_generation s \<le> 0"
  by (auto simp: lsm_init_def lsm_recover_def bnd_def implements_def lsm_ok_def files_ok_def log_ok_def gen_ok_def
      replayed_def lsm_view_def on_files_def spec_empty_def)

text \<open>C38: Any number of sessions on a directory that is empty at first, each a sequence of puts, deletes and gets with a memory limit of
  its own: every session opens, returns and answers like a map. The map a session starts with is the one the session before ended with if
  that has not flushed, and otherwise the map at its last flush, because the log after it is lost with its name; the order in which the
  directory is listed does not matter.\<close>

theorem lsm_sessions:
  fixes ss :: "(nat \<times> 'v lsm_op list) list"
  assumes "\<forall>(_, xs) \<in> set ss. \<forall>x \<in> set xs. list_all scalar_value (op_key x)" "(\<Sum>(_, xs) \<leftarrow> ss. int (length xs)) < 2 ^ 65"
  shows "sessions_answer u ss (spec_sessions ss spec_empty) \<lparr>ld_files = [], ld_wal = None\<rparr>"
  by (rule sessions_implement [OF fresh_store]) (use assms in simp_all)

theorem lsm_sessions_witness:
  "\<forall>u. sessions_answer u
     [(2, [Put (py ''a'') (1::int) 10, Put (py ''b'') 2 11, Put (py ''a'') 3 12, Get (py ''a'')]),
      (1, [Get (py ''a''), Delete (py ''b'') 13]), (9, [Get (py ''a''), Get (py ''b''), Put (py ''a'') 4 14]), (9, [Get (py ''a'')])]
     [[None, None, None, Some (Value (Some 3))], [Some (Value (Some 1)), None], [Some (Value (Some 1)), Some (Value None), None],
      [Some (Value (Some 4))]] \<lparr>ld_files = [], ld_wal = None\<rparr>"
proof
  fix u
  let ?ss = "[(2, [Put (py ''a'') (1::int) 10, Put (py ''b'') 2 11, Put (py ''a'') 3 12, Get (py ''a'')]),
      (1, [Get (py ''a''), Delete (py ''b'') 13]), (9, [Get (py ''a''), Get (py ''b''), Put (py ''a'') 4 14]), (9, [Get (py ''a'')])]"
  let ?as = "[[None, None, None, Some (Value (Some 3))], [Some (Value (Some 1)), None], [Some (Value (Some 1)), Some (Value None), None],
      [Some (Value (Some 4))]]"
  have "\<forall>(_, xs) \<in> set ?ss. \<forall>x \<in> set xs. list_all scalar_value (op_key x)" "(\<Sum>(_, xs) \<leftarrow> ?ss. int (length xs)) < 2 ^ 65"
    by (simp_all add: py_def scalar_value_def is_surrogate_def)
  from lsm_sessions [OF this, of u] have run: "sessions_answer u ?ss (spec_sessions ?ss spec_empty) \<lparr>ld_files = [], ld_wal = None\<rparr>" .
  have "py ''a'' \<noteq> py ''b''" by (simp add: py_def)
  then have "spec_sessions ?ss spec_empty = ?as"
    by (simp add: spec_write_def Let_def List.insert_def spec_empty_def spec_reopen_def durable_def answer_def entry_answer_def)
  with run show "sessions_answer u ?ss ?as \<lparr>ld_files = [], ld_wal = None\<rparr>" by simp
qed

subsection \<open>What a crash in the middle of a write does\<close>

text \<open>
  A last line that a crash has cut short is not JSON: the store cannot be opened again. The same holds for a file of entries that a crash
  has cut during a flush.
\<close>

lemma replay_torn: "fst (replay_wal (map Some ws @ [None]) s) = Inl ValueError"
proof (induction ws arbitrary: s)
  case (Cons w ws)
  then show ?case by (cases w) (simp add: bnd_def)
qed simp

lemma recover_files_wal: "recover_files fs (s\<lparr>lsm_wal := w\<rparr>) = (case recover_files fs s of (r, s') \<Rightarrow> (r, s'\<lparr>lsm_wal := w\<rparr>))"
proof (induction fs arbitrary: s)
  case (Cons gf fs)
  obtain gen f where gf: "gf = (gen, f)" by force
  show ?case
  proof (cases "map_of (lsm_files s) f")
    case (Some r)
    then show ?thesis
    proof (cases r)
      case (Some t)
      define s1 where "s1 bf = s\<lparr>lsm_index := lsm_index s @ [f], lsm_generation := max (lsm_generation s) gen,
        lsm_filters := AList.update f bf (lsm_filters s)\<rparr>" for bf
      have eq: "s\<lparr>lsm_wal := w, lsm_index := lsm_index s @ [f], lsm_generation := max (lsm_generation s) gen,
        lsm_filters := AList.update f bf (lsm_filters s)\<rparr> = (s1 bf)\<lparr>lsm_wal := w\<rparr>" for bf
        by (simp add: s1_def)
      with \<open>map_of (lsm_files s) f = Some r\<close> Some show ?thesis
        by (simp add: gf bnd_def load_sst_def eq s1_def [symmetric] Cons.IH split: sum.split)
    qed (simp add: gf bnd_def load_sst_def)
  qed (simp add: gf bnd_def load_sst_def)
qed simp

theorem torn_log_line:
  assumes "lsm_ok s" "lsm_wal_linked s" "lsm_leaves s d"
  shows "lsm_init u mem_limit (d\<lparr>ld_wal := Some (lsm_wal s @ [None])\<rparr>) = Inl ValueError"
proof -
  obtain s1 where init: "lsm_init u mem_limit d = Inr s1" using lsm_reopen_ok [OF assms(1,3)] by blast
  from assms(1) obtain ws where ws: "lsm_wal s = map Some ws" by (auto simp: lsm_ok_def log_ok_def)
  have d: "ld_wal d = Some (map Some ws)" using assms(2,3) ws by (simp add: lsm_leaves_def)
  let ?s0 = "\<lparr>lsm_mem_limit = mem_limit, lsm_memtable = [], lsm_index = [], lsm_filters = [], lsm_generation = 0,
    lsm_files = ld_files d, lsm_wal = map Some ws, lsm_wal_linked = True\<rparr>"
  obtain gfs s2 where gfs: "map_res (\<lambda>f. bind_res (generation_of u f) (\<lambda>g. Inr (g, f)))
      (filter (prefix (py ''sst_'')) (map fst (ld_files d))) = Inr gfs" "recover_files (sort_key fst gfs) ?s0 = (Inr (), s2)"
    using init d by (auto simp: lsm_init_def lsm_recover_def bnd_def split: sum.splits prod.splits)
  have "recover_files (sort_key fst gfs) (?s0\<lparr>lsm_wal := map Some ws @ [None]\<rparr>) = (Inr (), s2\<lparr>lsm_wal := map Some ws @ [None]\<rparr>)"
    unfolding recover_files_wal gfs(2) by simp
  with gfs(1) ws replay_torn [of ws "s2\<lparr>lsm_wal := map Some ws @ [None]\<rparr>"] show ?thesis
    by (auto simp: lsm_init_def lsm_recover_def bnd_def split: prod.split)
qed

end
