(* ===== verification/Spec2Isabelle.thy ===== *)
theory Spec2Isabelle
  imports Record_Codec Slotted_Page Sorted_Map BPlus_Page Buffer_Pool Wal Pager BPlus_Tree Tree_Model
    Tree_Delete Pager_Laws Node_Laws Tree_Pages Tree_Store Sibling_Laws Tree_Remove Tree_Path Tree_Durable Tree_Ops
    Lock_Manager Lock_Protocol Cursor Engine Transaction
    Lexer Ast Parser Sql_Text Catalog Row_Store Index_Manager Executor
    Index_Laws Sql_Laws Sql_Writes Sql_Statements Sql_Dml Sql_Schema Sql_Join Sql_Reopen Sql_Properties Repl
    Btree_Leaf Lsm_Store
begin

text \<open>
  A verification development for a small relational database in Python: a B+tree storage engine with pages on disk, a write-ahead log,
  transactions under two-phase locking, and an SQL layer on top of it. Every definition is translated from the file under
  \<^verbatim>\<open>src/src/\<close> (and \<^verbatim>\<open>src/scratch_codes/\<close>) that is named with it. Python's exceptions are values
  (\<open>py_error\<close>), methods are actions \<open>('s, 'a) act\<close> that return the state they leave also when they raise, and
  dictionaries are association lists in insertion order.

  \<^bold>\<open>The parts and how they call each other.\<close> A file is a sequence of 4096-byte blocks. The pager caches parsed pages in the
  buffer pool, logs a page before it is written and recovers from the log when a file is opened. The tree asks the pager for pages and
  changes the page objects it gets; the engine encodes rows into the tree's records; transactions stage their writes, take locks from the
  lock manager and apply the writes at commit between two log records. The SQL layer turns text into tokens, tokens into a
  statement, and a statement into calls on the engines of the tables and on the index manager, which keeps one engine for each
  secondary index; the catalog has the schema. The shell reads lines and prints results.

  \<^bold>\<open>Bytes and pages.\<close>
  \<^item> \<open>Prelude\<close>: exceptions, actions and their total correctness (\<open>runs\<close>), bytes, \<^verbatim>\<open>struct\<close>, slices, and the
    interface \<open>codec\<close>, which the row, page and log formats interpret.
  \<^item> \<open>Sorted_Map\<close>: the sorted association list, the specification of leaves, tree, engine and transactions, with the
    interface \<open>ordered_store\<close>.
  \<^item> \<open>Record_Codec\<close> (\<^verbatim>\<open>record.py\<close>): \<open>encode_record\<close>, \<open>decode_record\<close>, strict UTF-8; the round trip, and
    exactly which rows encode.
  \<^item> \<open>Slotted_Page\<close> (\<^verbatim>\<open>slotted_page.py\<close>): the operations on the bytes of a page, refined to its list of cells.
  \<^item> \<open>BPlus_Page\<close> (\<^verbatim>\<open>bplus_page.py\<close>): leaf and index pages (\<open>leaf_page\<close>, \<open>index_page\<close>) with both disk formats;
    every method against the sorted list of entries; the overflow of a leaf that loses entries.
  \<^item> \<open>Btree_Leaf\<close> (\<^verbatim>\<open>btree.py\<close>): the first leaf class, which the engine does not use.

  \<^bold>\<open>Storage.\<close>
  \<^item> \<open>Buffer_Pool\<close> (\<^verbatim>\<open>buffer_pool.py\<close>): LRU frames with dirty bits and pins; the victim is the page whose last use in
    the history is longest ago.
  \<^item> \<open>Wal\<close> (\<^verbatim>\<open>wal.py\<close>): the log on bytes with its CRC; every history of it refines a log without files
    (\<open>log_step\<close>); recovery after a crash replays exactly the appended records that are whole in the file; transactions are atomic at recovery.
  \<^item> \<open>Pager\<close>, \<open>Pager_Laws\<close> (\<^verbatim>\<open>bplus_pager.py\<close>): page objects in a heap of references; the laws of every operation on
    the map from page ids to nodes.
  \<^item> \<open>BPlus_Tree\<close> (\<^verbatim>\<open>bplus_tree.py\<close>): search, range scan, insertion with splits, deletion with borrowing and merging, on
    page references. \<open>Tree_Model\<close>, \<open>Tree_Delete\<close>: the functional tree, its shape invariant and its algorithms.
    \<open>Node_Laws\<close>, \<open>Tree_Pages\<close>, \<open>Tree_Store\<close>, \<open>Sibling_Laws\<close>, \<open>Tree_Remove\<close>, \<open>Tree_Path\<close>: the code on pages refines the
    functional tree, one operation after the other. \<open>Tree_Durable\<close>: flush, close and reopening. \<open>Tree_Ops\<close>: the
    properties of any sequence of operations.

  \<^bold>\<open>Concurrency and transactions.\<close>
  \<^item> \<open>Lock_Manager\<close>, \<open>Lock_Protocol\<close> (\<^verbatim>\<open>lock_manager.py\<close>): the operations, and the step relation \<open>lock_step\<close> of threads that
    acquire, wait, time out and release; mutual exclusion, deadlock detection and progress by rule induction over the reachable states, and
    three executions that show what the manager does not guarantee.
  \<^item> \<open>Cursor\<close> (\<^verbatim>\<open>cursor.py\<close>): a zipper over the rows of a range.
  \<^item> \<open>Engine\<close>, \<open>Transaction\<close> (\<^verbatim>\<open>engine.py\<close>, \<^verbatim>\<open>transaction.py\<close>): commit, rollback and the context manager refine the sorted list of rows;
    what an exception in a commit leaves behind.

  \<^bold>\<open>SQL.\<close>
  \<^item> \<open>Lexer\<close>, \<open>Ast\<close>, \<open>Parser\<close>, \<open>Sql_Text\<close> (\<^verbatim>\<open>lexer.py\<close>, \<^verbatim>\<open>ast_nodes.py\<close>, \<^verbatim>\<open>parser.py\<close>): both are total, and every well-formed statement
    is read back from its text.
  \<^item> \<open>Catalog\<close> (\<^verbatim>\<open>catalog.py\<close>): the schema and its file.
  \<^item> \<open>Row_Store\<close>: the interface \<open>row_store\<close> that the SQL layer has to an engine, interpreted on the engine's model.
  \<^item> \<open>Index_Manager\<close>, \<open>Index_Laws\<close> (\<^verbatim>\<open>index_manager.py\<close>): an index has, for every value, the primary keys of the rows with it.
  \<^item> \<open>Executor\<close> (\<^verbatim>\<open>executor.py\<close>, \<^verbatim>\<open>database.py\<close>): all statements with the five access paths, joins and foreign keys, and the
    database that opens, executes and closes. \<open>Sql_Laws\<close>: the abstract database, and that every access path finds the rows a full scan finds.
    \<open>Sql_Writes\<close>, \<open>Sql_Statements\<close>, \<open>Sql_Dml\<close>, \<open>Sql_Schema\<close>, \<open>Sql_Join\<close>: the effect of each statement on it. \<open>Sql_Reopen\<close>: a database that is closed
    and opened again has the same content. \<open>Sql_Properties\<close>: the properties,
    and a database built by the code's own statements on which they are applied.
  \<^item> \<open>Repl\<close> (\<^verbatim>\<open>repl.py\<close>): the loop of the shell, its commands and its tables; what every line does, errors included.
  \<^item> \<open>Lsm_Store\<close> (\<^verbatim>\<open>scratch_codes/lsm_tree.py\<close>): a stand-alone log-structured store; what any number of sessions find.

  \<^bold>\<open>Bounds and fuel.\<close> The loops that follow page pointers take as fuel the number of pages plus one (\<open>tree_fuel\<close>);
  \<open>descents_terminate\<close> shows that it is never used up on a stored tree. The parser's loops take one more than the number of tokens
  (\<open>parse_safe\<close>). The loop over a scan takes \<open>scan_fuel\<close>, one more than there are 32-bit keys. The outcome of a loop without
  fuel left is \<open>NoReturn\<close>, which the properties exclude. The search of the first leaf class is a partial function that may have no value.

  A stored tree has room for \<open>a\<close> pages and \<open>b\<close> log records more and records of at most \<open>R\<close> bytes (\<open>stores\<close>): the pool holds all its
  pages, so nothing is evicted, page ids and LSNs stay in their fields, and a page of \<open>order\<close> entries of \<open>R\<close> bytes fits its block.
  At the SQL level this is a number \<open>k\<close> of writes: a write to a table costs one, and two for each of its indexes (\<open>step_cost\<close>). An engine on
  new files has order 100 and a pool of 256 pages: there \<open>k \<le> 36\<close> writes have room when each of them may split every page on its way,
  and records of \<open>R \<le> 28\<close> bytes fit 100 to a page. The laws hold for any pool and order with their own numbers.

  \<^bold>\<open>Not modelled, and why.\<close> The constants module (one line that nothing imports) and the module entry point, which only calls the shell. The
  texts of messages and of exceptions, and positions in them. The JSON text of \<^verbatim>\<open>catalog.json\<close> and of the files of the log-structured store,
  of which the values are kept. Threads inside a section under the mutex, which are one step; and, in an engine, a second thread
  while a call waits for a lock. An interrupt while a statement runs in the shell. Two engines on one file, which an index with the name of a table would open. A crash between two
  statements at the SQL level: recovery is proved for the log and for single transactions, and reopening for a tree that
  was flushed and for a database that was closed. Evictions during an operation of the tree: the pager and the pool model them, the laws of the tree assume that the pool is large enough.
  Executor comprehensions over a scan take all rows before the first is used. Unicode's character classes beyond ASCII are parameters.
\<close>

end
